(* ===== verification/Prelude.thy ===== *)
theory Prelude
  imports Main "HOL-Library.Monad_Syntax" "HOL-Library.Multiset" "HOL-Library.Word"
begin

text \<open>
  The library below every component: Rust's three-valued \<open>Ordering\<close>, vectors whose
  out-of-range accesses panic, and the comparator interface.

  A Rust panic is the value \<^term>\<open>None\<close> of an \<open>option\<close>; a function that can panic is
  written in the option monad, in the order in which the source evaluates its steps. A
  comparator is therefore a function \<open>'a \<Rightarrow> 'a \<Rightarrow> ordering option\<close>: the sort comparator
  of the engine panics on a pair of different types. The locale \<open>comparator_on\<close> is the
  contract that every ordered structure of the engine relies on: on a carrier set the
  comparator never panics and is a total preorder. Everything that is proved of binary
  searches, of sorted lists and later of the B+tree is proved under this contract only.
\<close>

named_theorems panic_simps \<open>evaluation of panicking vector accesses\<close>
named_theorems cmp_laws \<open>laws of a comparator on its carrier\<close>

section \<open>Ordering\<close>

datatype ordering = Less | Equal | Greater

fun reverse_ord :: "ordering \<Rightarrow> ordering" where
  "reverse_ord Less = Greater"
| "reverse_ord Equal = Equal"
| "reverse_ord Greater = Less"

definition cmp_of :: "'a::linorder \<Rightarrow> 'a \<Rightarrow> ordering" where
  "cmp_of x y = (if x < y then Less else if x = y then Equal else Greater)"

lemma reverse_reverse_ord [simp]: "reverse_ord (reverse_ord c) = c"
  by (cases c) simp_all

lemma reverse_ord_eq_iff [simp]:
  "reverse_ord c = Less \<longleftrightarrow> c = Greater"
  "reverse_ord c = Equal \<longleftrightarrow> c = Equal"
  "reverse_ord c = Greater \<longleftrightarrow> c = Less"
  by (cases c; simp)+

lemma cmp_of_simps [simp]:
  "cmp_of x y = Less \<longleftrightarrow> x < y"
  "cmp_of x y = Equal \<longleftrightarrow> x = y"
  "cmp_of x y = Greater \<longleftrightarrow> y < x"
  by (auto simp: cmp_of_def)

lemma cmp_of_flip: "cmp_of y x = reverse_ord (cmp_of x y)"
  by (auto simp: cmp_of_def)

lemma cmp_of_same [simp]: "cmp_of x x = Equal"
  by simp

lemma ordering_neq_cases:
  "c \<noteq> Greater \<longleftrightarrow> c = Less \<or> c = Equal"
  "c \<noteq> Less \<longleftrightarrow> c = Greater \<or> c = Equal"
  by (cases c; simp)+

text \<open>Two comparisons agree when they agree on two of the three outcomes.\<close>

lemma ordering_eqI:
  assumes "c = Less \<longleftrightarrow> d = Less" and "c = Greater \<longleftrightarrow> d = Greater"
  shows "c = d"
  using assms by (cases c; cases d) simp_all

section \<open>Vectors\<close>

text \<open>
  \<open>Vec\<close> and slice accesses: an index out of range panics (\<^term>\<open>None\<close>).
  \<open>vec_insert\<close> is \<open>Vec::insert\<close>, \<open>vec_remove\<close> is \<open>Vec::remove\<close> (only the remaining
  vector), \<open>vec_last\<close> is \<open>last().expect(..)\<close>.
\<close>

definition vec_get :: "'a list \<Rightarrow> nat \<Rightarrow> 'a option" where
  "vec_get xs i = (if i < length xs then Some (xs ! i) else None)"

definition vec_set :: "'a list \<Rightarrow> nat \<Rightarrow> 'a \<Rightarrow> 'a list option" where
  "vec_set xs i v = (if i < length xs then Some (xs[i := v]) else None)"

definition vec_insert :: "'a list \<Rightarrow> nat \<Rightarrow> 'a \<Rightarrow> 'a list option" where
  "vec_insert xs i v = (if i \<le> length xs then Some (take i xs @ v # drop i xs) else None)"

definition vec_remove :: "'a list \<Rightarrow> nat \<Rightarrow> 'a list option" where
  "vec_remove xs i = (if i < length xs then Some (take i xs @ drop (Suc i) xs) else None)"

definition vec_last :: "'a list \<Rightarrow> 'a option" where
  "vec_last xs = (if xs = [] then None else Some (last xs))"

lemma vec_get_lt [simp, panic_simps]: "i < length xs \<Longrightarrow> vec_get xs i = Some (xs ! i)"
  by (simp add: vec_get_def)

lemma vec_get_ge [simp, panic_simps]: "length xs \<le> i \<Longrightarrow> vec_get xs i = None"
  by (simp add: vec_get_def)

lemma vec_get_Some_iff: "vec_get xs i = Some x \<longleftrightarrow> i < length xs \<and> xs ! i = x"
  by (auto simp: vec_get_def)

lemma vec_get_in_set: "vec_get xs i = Some x \<Longrightarrow> x \<in> set xs"
  by (auto simp: vec_get_Some_iff)

lemma vec_set_lt [simp, panic_simps]: "i < length xs \<Longrightarrow> vec_set xs i v = Some (xs[i := v])"
  by (simp add: vec_set_def)

lemma vec_insert_le [simp, panic_simps]:
  "i \<le> length xs \<Longrightarrow> vec_insert xs i v = Some (take i xs @ v # drop i xs)"
  by (simp add: vec_insert_def)

lemma vec_remove_lt [simp, panic_simps]:
  "i < length xs \<Longrightarrow> vec_remove xs i = Some (take i xs @ drop (Suc i) xs)"
  by (simp add: vec_remove_def)

lemma vec_last_nonempty [simp, panic_simps]: "xs \<noteq> [] \<Longrightarrow> vec_last xs = Some (last xs)"
  by (simp add: vec_last_def)

lemma vec_get_split:
  "i < length xs \<Longrightarrow> xs = take i xs @ xs ! i # drop (Suc i) xs"
  by (rule id_take_nth_drop)

text \<open>An element read from a vector is smaller than the vector: used by the termination
  proofs of the tree recursions.\<close>

lemma size_vec_get [termination_simp]:
  "vec_get xs i = Some x \<Longrightarrow> size x < Suc (size_list size xs)"
  by (metis Suc_lessD less_SucI size_list_estimation vec_get_in_set less_not_refl not_less_eq)

lemma size_vec_get_offset [termination_simp]:
  "vec_get xs i = Some x \<Longrightarrow> size x < Suc (n + size_list size xs)"
  using size_vec_get [of xs i x] by simp

lemma size_nth_offset [termination_simp]:
  "\<not> length xs \<le> i \<Longrightarrow> size (xs ! i) < Suc (n + size_list size xs)"
  using size_vec_get_offset [of xs i "xs ! i"] by simp

end
