(* ===== verification/Comparator.thy ===== *)
theory Comparator
  imports Prelude
begin

text \<open>
  The comparator contract and what follows from it alone: the abstract ordered set (a list
  that is strictly sorted by a comparator, with insertion, deletion and lookup written as
  filters), and the bisection loop shared by all searches of the B+tree.
\<close>

section \<open>Ordered sets as sorted lists\<close>

abbreviation lt_by :: "('a \<Rightarrow> 'a \<Rightarrow> ordering option) \<Rightarrow> 'a \<Rightarrow> 'a \<Rightarrow> bool" where
  "lt_by cmp x y \<equiv> cmp x y = Some Less"

definition sorted_by :: "('a \<Rightarrow> 'a \<Rightarrow> ordering option) \<Rightarrow> 'a list \<Rightarrow> bool" where
  "sorted_by cmp xs = sorted_wrt (lt_by cmp) xs"

definition below :: "('a \<Rightarrow> 'a \<Rightarrow> ordering option) \<Rightarrow> 'a \<Rightarrow> 'a list \<Rightarrow> 'a list" where
  "below cmp x xs = filter (\<lambda>y. cmp y x = Some Less) xs"

definition above :: "('a \<Rightarrow> 'a \<Rightarrow> ordering option) \<Rightarrow> 'a \<Rightarrow> 'a list \<Rightarrow> 'a list" where
  "above cmp x xs = filter (\<lambda>y. cmp y x = Some Greater) xs"

text \<open>The abstract operations: insert with overwrite, delete, lookup.\<close>

definition ins_by :: "('a \<Rightarrow> 'a \<Rightarrow> ordering option) \<Rightarrow> 'a \<Rightarrow> 'a list \<Rightarrow> 'a list" where
  "ins_by cmp x xs = below cmp x xs @ x # above cmp x xs"

definition del_by :: "('a \<Rightarrow> 'a \<Rightarrow> ordering option) \<Rightarrow> 'a \<Rightarrow> 'a list \<Rightarrow> 'a list" where
  "del_by cmp x xs = below cmp x xs @ above cmp x xs"

definition get_by :: "('a \<Rightarrow> 'a \<Rightarrow> ordering option) \<Rightarrow> 'a \<Rightarrow> 'a list \<Rightarrow> 'a option" where
  "get_by cmp x xs = List.find (\<lambda>y. cmp y x = Some Equal) xs"

lemma sorted_by_simps [simp]:
  "sorted_by cmp []"
  "sorted_by cmp [x]"
  "sorted_by cmp (x # xs) \<longleftrightarrow> (\<forall>y\<in>set xs. lt_by cmp x y) \<and> sorted_by cmp xs"
  by (auto simp: sorted_by_def)

lemma sorted_by_append:
  "sorted_by cmp (xs @ ys) \<longleftrightarrow>
     sorted_by cmp xs \<and> sorted_by cmp ys \<and> (\<forall>x\<in>set xs. \<forall>y\<in>set ys. lt_by cmp x y)"
  by (simp add: sorted_by_def sorted_wrt_append)

lemma sorted_by_filter: "sorted_by cmp xs \<Longrightarrow> sorted_by cmp (filter p xs)"
  by (simp add: sorted_by_def sorted_wrt_filter)

lemma sorted_by_take_drop:
  "sorted_by cmp xs \<Longrightarrow> sorted_by cmp (take n xs)"
  "sorted_by cmp xs \<Longrightarrow> sorted_by cmp (drop n xs)"
  by (simp_all add: sorted_by_def sorted_wrt_take sorted_wrt_drop)

lemma sorted_by_nth:
  "sorted_by cmp xs \<Longrightarrow> i < j \<Longrightarrow> j < length xs \<Longrightarrow> lt_by cmp (xs ! i) (xs ! j)"
  by (simp add: sorted_by_def sorted_wrt_iff_nth_less)

lemma below_append [simp]: "below cmp x (xs @ ys) = below cmp x xs @ below cmp x ys"
  by (simp add: below_def)

lemma above_append [simp]: "above cmp x (xs @ ys) = above cmp x xs @ above cmp x ys"
  by (simp add: above_def)

lemma below_simps [simp]:
  "below cmp x [] = []"
  "below cmp x (y # ys) = (if cmp y x = Some Less then y # below cmp x ys else below cmp x ys)"
  by (simp_all add: below_def)

lemma above_simps [simp]:
  "above cmp x [] = []"
  "above cmp x (y # ys) = (if cmp y x = Some Greater then y # above cmp x ys else above cmp x ys)"
  by (simp_all add: above_def)

lemma below_all: "(\<And>y. y \<in> set xs \<Longrightarrow> cmp y x = Some Less) \<Longrightarrow> below cmp x xs = xs"
  by (simp add: below_def)

lemma below_none: "(\<And>y. y \<in> set xs \<Longrightarrow> cmp y x \<noteq> Some Less) \<Longrightarrow> below cmp x xs = []"
  by (auto simp: below_def filter_empty_conv)

lemma above_all: "(\<And>y. y \<in> set xs \<Longrightarrow> cmp y x = Some Greater) \<Longrightarrow> above cmp x xs = xs"
  by (simp add: above_def)

lemma above_none: "(\<And>y. y \<in> set xs \<Longrightarrow> cmp y x \<noteq> Some Greater) \<Longrightarrow> above cmp x xs = []"
  by (auto simp: above_def filter_empty_conv)

lemma set_below: "set (below cmp x xs) = {y \<in> set xs. cmp y x = Some Less}"
  by (auto simp: below_def)

lemma set_above: "set (above cmp x xs) = {y \<in> set xs. cmp y x = Some Greater}"
  by (auto simp: above_def)

lemma get_by_append: "get_by cmp x (xs @ ys) =
    (case get_by cmp x xs of None \<Rightarrow> get_by cmp x ys | Some r \<Rightarrow> Some r)"
  by (induction xs) (auto simp: get_by_def)

lemma get_by_none: "(\<And>y. y \<in> set xs \<Longrightarrow> cmp y x \<noteq> Some Equal) \<Longrightarrow> get_by cmp x xs = None"
  by (auto simp: get_by_def find_None_iff)

section \<open>The contract\<close>

locale comparator_on =
  fixes D :: "'a set" and cmp :: "'a \<Rightarrow> 'a \<Rightarrow> ordering option"
  assumes cmp_total: "x \<in> D \<Longrightarrow> y \<in> D \<Longrightarrow> cmp x y \<noteq> None"
    and cmp_flip: "x \<in> D \<Longrightarrow> y \<in> D \<Longrightarrow> cmp y x = map_option reverse_ord (cmp x y)"
    and cmp_le_trans: "x \<in> D \<Longrightarrow> y \<in> D \<Longrightarrow> z \<in> D \<Longrightarrow> cmp x y \<noteq> Some Greater \<Longrightarrow>
      cmp y z \<noteq> Some Greater \<Longrightarrow> cmp x z \<noteq> Some Greater"
begin

lemma cmp_cases [consumes 2, case_names Less Equal Greater]:
  assumes "x \<in> D" "y \<in> D"
  obtains "cmp x y = Some Less" "cmp y x = Some Greater"
  | "cmp x y = Some Equal" "cmp y x = Some Equal"
  | "cmp x y = Some Greater" "cmp y x = Some Less"
proof -
  from cmp_total [OF assms] obtain c where c: "cmp x y = Some c" by auto
  then have "cmp y x = Some (reverse_ord c)" using cmp_flip [OF assms] by simp
  with c that show thesis by (cases c) auto
qed

lemma cmp_refl: "x \<in> D \<Longrightarrow> cmp x x = Some Equal"
  by (cases rule: cmp_cases [of x x]) auto

lemma cmp_gt_iff: "x \<in> D \<Longrightarrow> y \<in> D \<Longrightarrow> cmp x y = Some Greater \<longleftrightarrow> cmp y x = Some Less"
  by (cases rule: cmp_cases [of x y]) auto

lemma cmp_eq_sym: "x \<in> D \<Longrightarrow> y \<in> D \<Longrightarrow> cmp x y = Some Equal \<longleftrightarrow> cmp y x = Some Equal"
  by (cases rule: cmp_cases [of x y]) auto

lemma cmp_le_less_trans:
  assumes "x \<in> D" "y \<in> D" "z \<in> D" and le: "cmp x y \<noteq> Some Greater" and lt: "cmp y z = Some Less"
  shows "cmp x z = Some Less"
  using assms(1,3)
proof (cases rule: cmp_cases)
  case Equal
  then have "cmp z y \<noteq> Some Greater"
    using cmp_le_trans [of z x y] assms by auto
  with lt assms cmp_gt_iff [of z y] show ?thesis by simp
next
  case Greater
  then show ?thesis using cmp_le_trans [of x y z] assms by auto
qed

lemma cmp_less_le_trans:
  assumes "x \<in> D" "y \<in> D" "z \<in> D" and lt: "cmp x y = Some Less" and le: "cmp y z \<noteq> Some Greater"
  shows "cmp x z = Some Less"
  using assms(1,3)
proof (cases rule: cmp_cases)
  case Equal
  then have "cmp y x \<noteq> Some Greater"
    using cmp_le_trans [of y z x] assms by auto
  with lt assms cmp_gt_iff [of y x] show ?thesis by simp
next
  case Greater
  then show ?thesis using cmp_le_trans [of x y z] assms by auto
qed

lemma cmp_less_trans:
  "x \<in> D \<Longrightarrow> y \<in> D \<Longrightarrow> z \<in> D \<Longrightarrow> cmp x y = Some Less \<Longrightarrow> cmp y z = Some Less \<Longrightarrow> cmp x z = Some Less"
  using cmp_le_less_trans [of x y z] by simp

lemma cmp_eq_cong:
  assumes "x \<in> D" "y \<in> D" "z \<in> D" and eq: "cmp x y = Some Equal"
  shows "cmp x z = cmp y z"
proof -
  have yx: "cmp y x = Some Equal" using eq cmp_eq_sym assms by blast
  from assms(2,3) show ?thesis
  proof (cases rule: cmp_cases)
    case Less
    then show ?thesis using cmp_le_less_trans [of x y z] assms by simp
  next
    case Equal
    then have "cmp x z \<noteq> Some Greater" "cmp z x \<noteq> Some Greater"
      using cmp_le_trans [of x y z] cmp_le_trans [of z y x] assms yx by auto
    then show ?thesis
      using Equal cmp_gt_iff [of z x] cmp_total [of x z] assms by (auto simp: ordering_neq_cases)
  next
    case Greater
    then show ?thesis
      using cmp_less_le_trans [of z y x] cmp_gt_iff [of x z] assms yx by simp
  qed
qed

lemma cmp_eq_cong_right:
  assumes "x \<in> D" "y \<in> D" "z \<in> D" and eq: "cmp x y = Some Equal"
  shows "cmp z x = cmp z y"
  using cmp_eq_cong [OF assms] cmp_flip [of x z] cmp_flip [of y z] assms by simp

subsection \<open>Sorted lists over the carrier\<close>

lemma sorted_split_below:
  assumes "sorted_by cmp (xs @ y # ys)" and "set (xs @ y # ys) \<subseteq> D" and "x \<in> D"
    and "cmp y x \<noteq> Some Greater"
  shows "below cmp x xs = xs" and "above cmp x xs = []"
proof -
  have "cmp z x = Some Less" if "z \<in> set xs" for z
    using that assms cmp_less_le_trans [of z y x] by (auto simp: sorted_by_append)
  then show "below cmp x xs = xs" "above cmp x xs = []"
    by (simp_all add: below_all above_none)
qed

lemma sorted_split_above:
  assumes "sorted_by cmp (xs @ y # ys)" and "set (xs @ y # ys) \<subseteq> D" and "x \<in> D"
    and "cmp y x \<noteq> Some Less"
  shows "below cmp x ys = []" and "above cmp x ys = ys"
proof -
  have "cmp x y \<noteq> Some Greater"
    using assms cmp_gt_iff [of x y] by auto
  then have "cmp z x = Some Greater" if "z \<in> set ys" for z
    using that assms cmp_le_less_trans [of x y z] cmp_gt_iff [of z x] by (auto simp: sorted_by_append)
  then show "below cmp x ys = []" "above cmp x ys = ys"
    by (simp_all add: below_none above_all)
qed

lemma below_above_less:
  assumes "set xs \<subseteq> D" "x \<in> D" "y \<in> set (below cmp x xs)" "z \<in> set (above cmp x xs)"
  shows "lt_by cmp y x" and "lt_by cmp x z" and "lt_by cmp y z"
proof -
  from assms have yz: "y \<in> D" "z \<in> D" by (auto simp: set_below set_above)
  from assms show yx: "lt_by cmp y x" by (simp add: set_below)
  from assms yz show xz: "lt_by cmp x z" using cmp_gt_iff [of z x] by (simp add: set_above)
  from yx xz yz assms show "lt_by cmp y z" using cmp_less_trans by blast
qed

lemma sorted_ins_by:
  assumes "sorted_by cmp xs" "set xs \<subseteq> D" "x \<in> D"
  shows "sorted_by cmp (ins_by cmp x xs)"
proof -
  have "lt_by cmp x z" if "z \<in> set (above cmp x xs)" for z
    using that assms cmp_gt_iff [of z x] by (auto simp: set_above)
  moreover have "lt_by cmp y x" if "y \<in> set (below cmp x xs)" for y
    using that by (simp add: set_below)
  moreover have "sorted_by cmp (below cmp x xs)" "sorted_by cmp (above cmp x xs)"
    using assms(1) by (simp_all add: below_def above_def sorted_by_filter)
  ultimately show ?thesis
    using below_above_less(3) [OF assms(2,3)] by (simp add: ins_by_def sorted_by_append)
qed

lemma sorted_del_by:
  assumes "sorted_by cmp xs" "set xs \<subseteq> D" "x \<in> D"
  shows "sorted_by cmp (del_by cmp x xs)"
  using sorted_ins_by [OF assms] by (auto simp: ins_by_def del_by_def sorted_by_append)

lemma set_ins_by: "set (ins_by cmp x xs) \<subseteq> insert x (set xs)"
  by (auto simp: ins_by_def set_below set_above)

lemma set_del_by: "set (del_by cmp x xs) \<subseteq> set xs"
  by (auto simp: del_by_def set_below set_above)

lemma get_by_unique:
  assumes "sorted_by cmp (xs @ y # ys)" "set (xs @ y # ys) \<subseteq> D" "x \<in> D" "cmp y x = Some Equal"
  shows "get_by cmp x (xs @ y # ys) = Some y"
proof -
  have "below cmp x xs = xs" using sorted_split_below assms by simp
  then have "cmp z x = Some Less" if "z \<in> set xs" for z
    using that set_below [of cmp x xs] by auto
  then have "get_by cmp x xs = None" by (auto intro: get_by_none)
  then show ?thesis using assms by (simp add: get_by_append) (simp add: get_by_def)
qed

text \<open>The set effects of the abstract writes on a sorted list.\<close>

lemma cmp_three: "x \<in> D \<Longrightarrow> y \<in> D \<Longrightarrow> cmp x y = Some Less \<or> cmp x y = Some Equal \<or> cmp x y = Some Greater"
  by (rule cmp_cases [of x y]) auto

lemma set_ins_by_eq:
  assumes "set xs \<subseteq> D" "x \<in> D"
  shows "set (ins_by cmp x xs) = insert x {y \<in> set xs. cmp y x \<noteq> Some Equal}"
  using assms cmp_refl [of x] cmp_three [of _ x] by (fastforce simp: ins_by_def set_below set_above)

lemma set_del_by_eq:
  assumes "set xs \<subseteq> D" "x \<in> D"
  shows "set (del_by cmp x xs) = {y \<in> set xs. cmp y x \<noteq> Some Equal}"
  using assms cmp_three [of _ x] by (fastforce simp: del_by_def set_below set_above)

lemma sorted_unique:
  assumes "sorted_by cmp xs" "set xs \<subseteq> D" "x \<in> set xs" "y \<in> set xs" "cmp x y = Some Equal"
  shows "x = y"
proof (rule ccontr)
  assume ne: "x \<noteq> y"
  obtain i j where ij: "i < length xs" "j < length xs" "xs ! i = x" "xs ! j = y" using assms(3,4) by (auto simp: in_set_conv_nth)
  then have "i < j \<or> j < i" using ne by (metis nat_neq_iff)
  then have "cmp x y = Some Less \<or> cmp y x = Some Less" using ij assms(1) sorted_by_nth by metis
  then show False using assms cmp_eq_sym [of x y] by auto
qed

lemma sorted_by_distinct: "sorted_by cmp xs \<Longrightarrow> set xs \<subseteq> D \<Longrightarrow> distinct xs"
proof (induction xs)
  case (Cons x xs)
  then show ?case using cmp_refl [of x] by auto
qed simp

text \<open>Two strictly sorted lists with the same elements are the same list.\<close>

lemma sorted_set_unique: "sorted_by cmp xs \<Longrightarrow> sorted_by cmp ys \<Longrightarrow> set xs = set ys \<Longrightarrow> set xs \<subseteq> D \<Longrightarrow> xs = ys"
proof (induction xs arbitrary: ys)
  case (Cons x xs)
  then obtain y ys' where ys: "ys = y # ys'" by (cases ys) auto
  have "x = y"
  proof (rule ccontr)
    assume "x \<noteq> y"
    then have "cmp x y = Some Less" "cmp y x = Some Less" using Cons.prems(1-3) ys by auto
    moreover have "x \<in> D" "y \<in> D" using Cons.prems(3,4) ys by (metis insertI1 list.simps(15) subsetD)+
    ultimately show False using cmp_gt_iff [of x y] by simp
  qed
  moreover have "x \<notin> set xs" "y \<notin> set ys'"
    using sorted_by_distinct [OF Cons.prems(1,4)] sorted_by_distinct [OF Cons.prems(2)] Cons.prems(3,4) ys by auto
  ultimately have "set xs = set ys'" "x = y" using Cons.prems(3) ys by (auto simp: insert_ident)
  then show ?case using Cons.IH [of ys'] Cons.prems ys by simp
qed simp

end

text \<open>The contract is inherited by a smaller carrier and by a function that agrees on it.\<close>

lemma comparator_on_restrict:
  assumes "comparator_on D c" "D' \<subseteq> D" "\<And>x y. x \<in> D' \<Longrightarrow> y \<in> D' \<Longrightarrow> c' x y = c x y"
  shows "comparator_on D' c'"
proof -
  note flip = comparator_on.cmp_flip [OF assms(1)] and total = comparator_on.cmp_total [OF assms(1)]
    and trans = comparator_on.cmp_le_trans [OF assms(1)]
  show ?thesis
  proof
    fix x y assume xy: "x \<in> D'" "y \<in> D'"
    then have D: "x \<in> D" "y \<in> D" using assms(2) by auto
    show "c' x y \<noteq> None" using total [OF D] assms(3) [OF xy] by simp
    show "c' y x = map_option reverse_ord (c' x y)"
      using flip [OF D] assms(3) [OF xy] assms(3) [OF xy(2,1)] by simp
    fix z assume z: "z \<in> D'" and le: "c' x y \<noteq> Some Greater" "c' y z \<noteq> Some Greater"
    have "z \<in> D" using z assms(2) by auto
    from trans [OF D this] show "c' x z \<noteq> Some Greater"
      using le assms(3) [OF xy] assms(3) [OF xy(2) z] assms(3) [OF xy(1) z] by simp
  qed
qed

section \<open>Building comparators\<close>

definition cmp_then ::
  "('a \<Rightarrow> 'a \<Rightarrow> ordering option) \<Rightarrow> ('a \<Rightarrow> 'a \<Rightarrow> ordering option) \<Rightarrow> 'a \<Rightarrow> 'a \<Rightarrow> ordering option" where
  "cmp_then c d x y = do { r \<leftarrow> c x y; if r \<noteq> Equal then Some r else d x y }"

lemma cmp_then_simps:
  "c x y = Some Equal \<Longrightarrow> cmp_then c d x y = d x y"
  "c x y = Some r \<Longrightarrow> r \<noteq> Equal \<Longrightarrow> cmp_then c d x y = Some r"
  by (simp_all add: cmp_then_def)

lemma comparator_const_Equal: "comparator_on D (\<lambda>x y. Some Equal)"
  by unfold_locales simp_all

lemma comparator_reverse:
  assumes "comparator_on D c"
  shows "comparator_on D (\<lambda>x y. map_option reverse_ord (c x y))"
proof -
  note flip = comparator_on.cmp_flip [OF assms] and total = comparator_on.cmp_total [OF assms]
    and trans = comparator_on.cmp_le_trans [OF assms] and gt = comparator_on.cmp_gt_iff [OF assms]
  show ?thesis
  proof
    fix x y assume xy: "x \<in> D" "y \<in> D"
    show "map_option reverse_ord (c x y) \<noteq> None" using total [OF xy] by simp
    show "map_option reverse_ord (c y x) = map_option reverse_ord (map_option reverse_ord (c x y))"
      using flip [OF xy] by simp
    fix z assume z: "z \<in> D" and le: "map_option reverse_ord (c x y) \<noteq> Some Greater"
      "map_option reverse_ord (c y z) \<noteq> Some Greater"
    have "c z y \<noteq> Some Greater" "c y x \<noteq> Some Greater"
      using le gt [OF xy(2,1)] gt [OF z xy(2)] by auto
    from trans [OF z xy(2,1) this] show "map_option reverse_ord (c x z) \<noteq> Some Greater"
      using gt [OF z xy(1)] by (cases "c x z") auto
  qed
qed

lemma comparator_then:
  assumes c: "comparator_on D c" and d: "comparator_on D d"
  shows "comparator_on D (cmp_then c d)"
proof
  fix x y assume xy: "x \<in> D" "y \<in> D"
  note cx = comparator_on.cmp_total [OF c xy] comparator_on.cmp_flip [OF c xy]
  show "cmp_then c d x y \<noteq> None"
    using cx comparator_on.cmp_total [OF d xy] by (auto simp: cmp_then_def)
  show "cmp_then c d y x = map_option reverse_ord (cmp_then c d x y)"
    using cx comparator_on.cmp_flip [OF d xy] by (cases "c x y") (auto simp: cmp_then_def)
next
  fix x y z assume D: "x \<in> D" "y \<in> D" "z \<in> D"
    and le: "cmp_then c d x y \<noteq> Some Greater" "cmp_then c d y z \<noteq> Some Greater"
  have cle: "c x y \<noteq> Some Greater" "c y z \<noteq> Some Greater"
    using le by (auto simp: cmp_then_def)
  show "cmp_then c d x z \<noteq> Some Greater"
  proof (cases "c x y = Some Equal \<and> c y z = Some Equal")
    case True
    then have "c x z = Some Equal" using comparator_on.cmp_eq_cong [OF c, of x y z] D by simp
    moreover have "d x y \<noteq> Some Greater" "d y z \<noteq> Some Greater"
      using True le by (simp_all add: cmp_then_simps)
    ultimately show ?thesis using comparator_on.cmp_le_trans [OF d D] by (simp add: cmp_then_simps)
  next
    case False
    have "c x z = Some Less"
    proof (cases "c x y = Some Less")
      case True
      then show ?thesis using comparator_on.cmp_less_le_trans [OF c D] cle by simp
    next
      case nl: False
      then have "c x y = Some Equal"
        using cle(1) comparator_on.cmp_total [OF c D(1,2)] by (auto simp: ordering_neq_cases)
      then have "c y z = Some Less"
        using False cle(2) comparator_on.cmp_total [OF c D(2,3)] by (auto simp: ordering_neq_cases)
      then show ?thesis using comparator_on.cmp_le_less_trans [OF c D] cle by simp
    qed
    then show ?thesis by (simp add: cmp_then_simps(2))
  qed
qed

lemma comparator_vimage:
  assumes "comparator_on E c" "\<And>x. x \<in> D \<Longrightarrow> f x \<in> E"
  shows "comparator_on D (\<lambda>x y. c (f x) (f y))"
proof
  fix x y assume xy: "x \<in> D" "y \<in> D"
  show "c (f x) (f y) \<noteq> None" using comparator_on.cmp_total [OF assms(1)] assms(2) xy by simp
  show "c (f y) (f x) = map_option reverse_ord (c (f x) (f y))"
    using comparator_on.cmp_flip [OF assms(1)] assms(2) xy by blast
  fix z assume "z \<in> D" "c (f x) (f y) \<noteq> Some Greater" "c (f y) (f z) \<noteq> Some Greater"
  then show "c (f x) (f z) \<noteq> Some Greater"
    using comparator_on.cmp_le_trans [OF assms(1), of "f x" "f y" "f z"] assms(2) xy by blast
qed

section \<open>Cuts: bounds that are compared with elements\<close>

text \<open>
  A scan bound is no element: it is compared with elements by a function of its own. What the
  cursors rely on is that the bound cuts the order in two: once the bound is at most \<open>x\<close>,
  it is below everything greater than \<open>x\<close>.
\<close>

locale cut_on = comparator_on D cmp for D :: "'a set" and cmp +
  fixes cut :: "'a \<Rightarrow> ordering option"
  assumes cut_total: "x \<in> D \<Longrightarrow> cut x \<noteq> None"
    and cut_mono: "x \<in> D \<Longrightarrow> y \<in> D \<Longrightarrow> cmp x y = Some Less \<Longrightarrow> cut x \<noteq> Some Greater \<Longrightarrow> cut y = Some Less"
begin

text \<open>On a sorted list the tests \<open>bound > x\<close> and \<open>bound \<ge> x\<close> hold on prefixes.\<close>

lemma cut_prefix_Greater:
  assumes "sorted_by cmp xs" "set xs \<subseteq> D" "i < j" "j < length xs" "cut (xs ! j) = Some Greater"
  shows "cut (xs ! i) = Some Greater"
  using assms cut_mono [of "xs ! i" "xs ! j"] sorted_by_nth [of cmp xs i j]
  by (cases "cut (xs ! i) = Some Greater") (auto simp: subset_iff)

lemma cut_prefix_not_Less:
  assumes "sorted_by cmp xs" "set xs \<subseteq> D" "i < j" "j < length xs" "cut (xs ! j) \<noteq> Some Less"
  shows "cut (xs ! i) = Some Greater"
  using assms cut_mono [of "xs ! i" "xs ! j"] sorted_by_nth [of cmp xs i j]
  by (cases "cut (xs ! i) = Some Greater") (auto simp: subset_iff)

end

text \<open>An element of the carrier is a cut: the searches for a key are searches for a bound.\<close>

sublocale comparator_on \<subseteq> elem: cut_on D cmp "\<lambda>y. if x \<in> D then cmp x y else Some Less" for x
proof
  fix u v
  show "u \<in> D \<Longrightarrow> (if x \<in> D then cmp x u else Some Less) \<noteq> None" using cmp_total by simp
  assume "u \<in> D" "v \<in> D" "cmp u v = Some Less" "(if x \<in> D then cmp x u else Some Less) \<noteq> Some Greater"
  then show "(if x \<in> D then cmp x v else Some Less) = Some Less"
    using cmp_le_less_trans [of x u v] by (simp split: if_splits)
qed

section \<open>The bisection loop\<close>

text \<open>
  \<^verbatim>\<open>while lo < hi { let mid = (lo + hi) / 2; if P(keys[mid]) { lo = mid + 1 } else { hi = mid } }\<close>
  is the loop of every ordered search in \<open>btree.rs\<close>; the searches differ in the test \<open>P\<close>
  only. The test is a comparison, so it can panic, and so can the index.
\<close>

function bsearch_loop :: "('a \<Rightarrow> bool option) \<Rightarrow> 'a list \<Rightarrow> nat \<Rightarrow> nat \<Rightarrow> nat option" where
  "bsearch_loop p keys lo hi =
     (if lo < hi then do {
        let mid = (lo + hi) div 2;
        k \<leftarrow> vec_get keys mid;
        b \<leftarrow> p k;
        if b then bsearch_loop p keys (mid + 1) hi else bsearch_loop p keys lo mid
      } else Some lo)"
  by pat_completeness auto
termination
  by (relation "measure (\<lambda>(p, keys, lo, hi). hi - lo)") auto

declare bsearch_loop.simps [simp del]

lemma length_takeWhile_eqI:
  assumes "n \<le> length xs" and "\<And>i. i < n \<Longrightarrow> q (xs ! i)" and "n < length xs \<Longrightarrow> \<not> q (xs ! n)"
  shows "length (takeWhile q xs) = n"
proof -
  have "takeWhile q xs = take n xs"
    using assms by (intro takeWhile_eq_take_P_nth) auto
  with assms(1) show ?thesis by simp
qed

text \<open>On a list where the test holds on a prefix and on nothing after it, the loop returns
  the length of that prefix.\<close>

lemma bsearch_loop_prefix:
  assumes "\<And>k. k \<in> set keys \<Longrightarrow> p k = Some (q k)"
    and "\<And>i j. i < j \<Longrightarrow> j < length keys \<Longrightarrow> q (keys ! j) \<Longrightarrow> q (keys ! i)"
    and "lo \<le> hi" "hi \<le> length keys"
    and "\<And>i. i < lo \<Longrightarrow> q (keys ! i)" and "\<And>i. hi \<le> i \<Longrightarrow> i < length keys \<Longrightarrow> \<not> q (keys ! i)"
  shows "bsearch_loop p keys lo hi = Some (length (takeWhile q keys))"
  using assms
proof (induction p keys lo hi rule: bsearch_loop.induct)
  case (1 p keys lo hi)
  show ?case
  proof (cases "lo < hi")
    case False
    with "1.prems" have eq: "lo = hi" by simp
    then have "length (takeWhile q keys) = lo"
      using "1.prems" by (intro length_takeWhile_eqI) auto
    with False show ?thesis by (simp add: bsearch_loop.simps [of p keys lo hi])
  next
    case True
    define mid where "mid = (lo + hi) div 2"
    have mid: "lo \<le> mid" "mid < hi" "mid < length keys" using True "1.prems" by (auto simp: mid_def)
    have unf: "bsearch_loop p keys lo hi =
        (if q (keys ! mid) then bsearch_loop p keys (mid + 1) hi else bsearch_loop p keys lo mid)"
      using True mid "1.prems"(1) by (simp add: bsearch_loop.simps [of p keys lo hi] mid_def [symmetric])
    show ?thesis
    proof (cases "q (keys ! mid)")
      case q: True
      have "bsearch_loop p keys (mid + 1) hi = Some (length (takeWhile q keys))"
      proof (rule "1.IH"(1) [OF True mid_def, of "keys ! mid" True])
        show "q (keys ! i)" if "i < mid + 1" for i
          using that q mid "1.prems"(2) [of i mid] by (cases "i = mid") auto
      qed (use True mid "1.prems" q in auto)
      with unf q show ?thesis by simp
    next
      case q: False
      have "bsearch_loop p keys lo mid = Some (length (takeWhile q keys))"
      proof (rule "1.IH"(2) [OF True mid_def, of "keys ! mid" False])
        show "\<not> q (keys ! i)" if "mid \<le> i" "i < length keys" for i
          using that q mid "1.prems"(2) [of mid i] by (cases "i = mid") auto
      qed (use True mid "1.prems" q in auto)
      with unf q show ?thesis by simp
    qed
  qed
qed

lemmas bsearch_full = bsearch_loop_prefix [where lo = 0, OF _ _ le0 order_refl, simplified]

end
