(* ===== verification/Float64.thy ===== *)
theory Float64
  imports Prelude
begin

text \<open>
  The part of Rust's \<open>f64\<close> that the engine uses, on the 64-bit pattern: sign, exponent and
  fraction fields, \<open>is_nan\<close>, \<open>is_finite\<close>, the IEEE comparisons, \<open>trunc\<close>, the saturating
  cast \<open>as i64\<close> and \<open>total_cmp\<close>.

  A float is its bit pattern. The numeric value of a pattern is kept exact as an integer,
  scaled by \<open>2 ^ 1074\<close> (the reciprocal of the least positive subnormal), so that
  no rounding or real arithmetic occurs anywhere. The scaled value of an infinity is larger
  than that of every finite float, so the IEEE comparisons of non-NaN values are
  comparisons of scaled values. The section ends with the order key of a pattern: \<open>total_cmp\<close> is the
  comparison of keys.
\<close>

type_synonym f64 = "64 word"
type_synonym i64 = "64 word"

section \<open>Fields and values\<close>

definition f_sign :: "f64 \<Rightarrow> bool" where
  "f_sign b = bit b 63"

definition f_mag :: "f64 \<Rightarrow> nat" where
  "f_mag b = unat b mod 2 ^ 63"

definition f_exp :: "f64 \<Rightarrow> nat" where
  "f_exp b = f_mag b div 2 ^ 52"

definition f_frac :: "f64 \<Rightarrow> nat" where
  "f_frac b = f_mag b mod 2 ^ 52"

definition is_nan :: "f64 \<Rightarrow> bool" where
  "is_nan b = (f_exp b = 2047 \<and> f_frac b \<noteq> 0)"

definition is_finite :: "f64 \<Rightarrow> bool" where
  "is_finite b = (f_exp b < 2047)"

definition mag_val :: "nat \<Rightarrow> nat" where
  "mag_val n = (if n div 2 ^ 52 = 0 then n mod 2 ^ 52
                else (2 ^ 52 + n mod 2 ^ 52) * 2 ^ (n div 2 ^ 52 - 1))"

definition f_val :: "f64 \<Rightarrow> int" where
  "f_val b = (if f_sign b then - int (mag_val (f_mag b)) else int (mag_val (f_mag b)))"

abbreviation f_unit :: int where
  "f_unit \<equiv> 2 ^ 1074"

section \<open>Operations\<close>

definition f_lt :: "f64 \<Rightarrow> f64 \<Rightarrow> bool" where
  "f_lt a b = (\<not> is_nan a \<and> \<not> is_nan b \<and> f_val a < f_val b)"

definition f_ge :: "f64 \<Rightarrow> f64 \<Rightarrow> bool" where
  "f_ge a b = (\<not> is_nan a \<and> \<not> is_nan b \<and> f_val b \<le> f_val a)"

definition f_eq :: "f64 \<Rightarrow> f64 \<Rightarrow> bool" where
  "f_eq a b = (\<not> is_nan a \<and> \<not> is_nan b \<and> f_val a = f_val b)"

text \<open>\<open>trunc\<close> clears the fraction bits below the binary point and keeps the sign.\<close>

definition f_trunc :: "f64 \<Rightarrow> f64" where
  "f_trunc b =
     (if f_exp b < 1023 then push_bit 63 (drop_bit 63 b)
      else if 1075 \<le> f_exp b then b
      else push_bit (1075 - f_exp b) (drop_bit (1075 - f_exp b) b))"

definition trunc_int :: "int \<Rightarrow> int" where
  "trunc_int v = (if v < 0 then - ((- v) div f_unit) else v div f_unit)"

definition f_as_i64 :: "f64 \<Rightarrow> i64" where
  "f_as_i64 b =
     (if is_nan b then 0
      else word_of_int (max (- (2 ^ 63)) (min (2 ^ 63 - 1) (trunc_int (f_val b)))))"

definition total_key :: "f64 \<Rightarrow> i64" where
  "total_key b = xor b (drop_bit 1 (signed_drop_bit 63 b))"

definition total_cmp :: "f64 \<Rightarrow> f64 \<Rightarrow> ordering" where
  "total_cmp a b = cmp_of (sint (total_key a)) (sint (total_key b))"

text \<open>The constants \<open>2^63\<close> and \<open>-2^63\<close> as \<open>f64\<close> literals, and \<open>-0.0\<close>.\<close>

definition TWO_POW_63 :: f64 where
  "TWO_POW_63 = 0x43E0000000000000"

definition NEG_TWO_POW_63 :: f64 where
  "NEG_TWO_POW_63 = 0xC3E0000000000000"

definition MINUS_ZERO :: f64 where
  "MINUS_ZERO = 0x8000000000000000"

section \<open>The scaled value is strictly monotone in the magnitude\<close>

lemma significand_step:
  fixes B :: nat
  assumes "0 < B"
  shows "(if n div B = 0 then n mod B else (B + n mod B) * 2 ^ (n div B - 1)) <
     (if Suc n div B = 0 then Suc n mod B else (B + Suc n mod B) * 2 ^ (Suc n div B - 1))"
proof -
  have pow: "(2::nat) ^ e = 2 * 2 ^ (e - 1)" if "e \<noteq> 0" for e
    using that by (cases e) auto
  have lt: "n mod B < B" using assms by simp
  show ?thesis
  proof (cases "Suc (n mod B) = B")
    case True
    then have d: "Suc n div B = Suc (n div B)" "Suc n mod B = 0" by (simp_all add: div_Suc mod_Suc)
    show ?thesis
    proof (cases "n div B = 0")
      case True
      then show ?thesis using d lt by simp
    next
      case False
      have "(B + n mod B) * 2 ^ (n div B - 1) < (B + B) * 2 ^ (n div B - 1)" using lt by simp
      also have "\<dots> = B * 2 ^ (n div B)" using pow [OF False] by (simp add: algebra_simps)
      finally show ?thesis using d False by simp
    qed
  next
    case False
    then show ?thesis using assms by (simp add: div_Suc mod_Suc)
  qed
qed

lemma strict_mono_mag_val: "strict_mono mag_val"
  unfolding strict_mono_Suc_iff mag_val_def by (intro allI significand_step) simp

lemma mag_val_less_iff: "mag_val m < mag_val n \<longleftrightarrow> m < n"
  by (rule strict_mono_less [OF strict_mono_mag_val])

lemma mag_val_le_iff: "mag_val m \<le> mag_val n \<longleftrightarrow> m \<le> n"
  by (rule strict_mono_less_eq [OF strict_mono_mag_val])

lemma mag_val_eq_iff: "mag_val m = mag_val n \<longleftrightarrow> m = n"
  by (rule strict_mono_eq [OF strict_mono_mag_val])

lemma mag_val_0 [simp]: "mag_val 0 = 0"
  by (simp add: mag_val_def)

section \<open>The sign, the magnitude and the key of \<open>total_cmp\<close>\<close>

lemma sint_word_of_int_64:
  assumes "- (2 ^ 63) \<le> k" "k < 2 ^ 63"
  shows "sint (word_of_int k :: 64 word) = k"
  using assms by (simp add: signed_of_int signed_take_bit_int_eq_self)

lemma bit_63_uint: "bit (b::64 word) 63 \<longleftrightarrow> 2 ^ 63 \<le> uint b"
proof -
  have "bit b 63 \<longleftrightarrow> bit (uint b) 63" by (simp add: bit_uint_iff)
  then have "bit b 63 \<longleftrightarrow> odd (uint b div 2 ^ 63)" by (simp only: bit_iff_odd)
  moreover have "0 \<le> uint b" "uint b < 2 * 2 ^ 63" using uint_lt2p [of b] by simp_all
  ultimately show ?thesis by (cases "uint b < 2 ^ 63") (auto simp: div_pos_geq)
qed

lemma sint_uint_64: "sint (b :: 64 word) = uint b - (if bit b 63 then 2 ^ 64 else 0)"
proof -
  have "take_bit 64 (uint b) = uint b"
    using uint_lt2p [of b] by (simp add: take_bit_int_eq_self)
  then show ?thesis
    by (simp add: sint_uint signed_take_bit_eq_take_bit_minus bit_uint_iff)
qed

lemma f_mag_less: "f_mag b < 2 ^ 63"
  by (simp add: f_mag_def)

lemma f_sign_unat: "f_sign b \<longleftrightarrow> 2 ^ 63 \<le> unat b"
proof -
  define n where "n = unat b"
  have u: "uint b = int n" by (simp add: n_def)
  show ?thesis unfolding f_sign_def bit_63_uint u n_def [symmetric] by simp
qed

lemma unat_sign_mag: "unat b = (if f_sign b then 2 ^ 63 else 0) + f_mag b"
proof -
  have "unat b < 2 * 2 ^ 63" using unsigned_less [where ?'a = nat, of b] by simp
  then show ?thesis by (auto simp: f_sign_unat f_mag_def mod_if)
qed

lemma sign_mag_inject: "f_sign a = f_sign b \<Longrightarrow> f_mag a = f_mag b \<Longrightarrow> a = b"
  using unat_sign_mag [of a] unat_sign_mag [of b] by (simp add: word_unat_eq_iff)

lemma total_key_pos: "\<not> bit b 63 \<Longrightarrow> total_key b = b"
proof -
  assume a: "\<not> bit b 63"
  have "bit b (63 + n) = False" for n using a by (cases n) (auto dest: bit_imp_le_length)
  then have "signed_drop_bit 63 b = 0"
    by (intro bit_word_eqI) (use a in \<open>auto simp: bit_signed_drop_bit_iff\<close>)
  then show ?thesis by (simp add: total_key_def)
qed

lemma total_key_neg: "bit b 63 \<Longrightarrow> total_key b = not (take_bit 63 b)"
  unfolding total_key_def
proof (rule bit_word_eqI)
  fix n assume a: "bit b 63" "n < LENGTH(64)"
  have "bit b (64 + n) = False" by (auto dest: bit_imp_le_length)
  moreover have "n < 63 \<or> n = 63" using a by auto
  ultimately show "bit (xor b (drop_bit 1 (signed_drop_bit 63 b))) n = bit (not (take_bit 63 b)) n"
    using a by (auto simp: bit_simps)
qed

lemma sint_not_mag: "sint (not (take_bit 63 b)) = - 1 - int (f_mag b)"
proof -
  define m where "m = int (f_mag b)"
  have "take_bit 63 b = word_of_int m"
    by (simp add: m_def f_mag_def take_bit_eq_mod word_mod_def zmod_int)
  then have "not (take_bit 63 b) = word_of_int (- m - 1)"
    by (simp add: not_eq_complement)
  moreover have "0 \<le> m" "m < 2 ^ 63" using f_mag_less [of b] by (simp_all add: m_def)
  ultimately show ?thesis
    using sint_word_of_int_64 [of "- m - 1"] by (simp add: m_def)
qed

lemma sint_total_key: "sint (total_key b) = (if f_sign b then - 1 - int (f_mag b) else int (f_mag b))"
proof (cases "bit b 63")
  case True
  then show ?thesis by (simp add: total_key_neg sint_not_mag f_sign_def)
next
  case False
  then show ?thesis by (simp add: total_key_pos f_sign_def f_mag_def sint_uint_64 bit_63_uint zmod_int)
qed

section \<open>The order key of a pattern\<close>

text \<open>
  The key of a float is twice its scaled value plus one, except that \<open>-0.0\<close> comes just below
  \<open>+0.0\<close>, and a NaN lies beyond all other values on the side of its sign. Twice the
  (scaled) value of an integer plus one is the key of that integer, so a
  mixed comparison is one of keys as well.
\<close>

definition inf_mag :: nat where
  "inf_mag = 2047 * 2 ^ 52"

definition nan_gap :: int where
  "nan_gap = 2 * int (mag_val inf_mag) + 2"

definition f_key :: "f64 \<Rightarrow> int" where
  "f_key b =
     (if is_nan b then (if f_sign b then - nan_gap - int (f_mag b) else nan_gap + int (f_mag b))
      else 2 * f_val b + (if f_sign b \<and> f_mag b = 0 then 0 else 1))"

lemma not_nan_iff: "\<not> is_nan b \<longleftrightarrow> f_mag b \<le> inf_mag"
proof -
  define q r where "q = f_mag b div 2 ^ 52" and "r = f_mag b mod 2 ^ 52"
  have mag: "f_mag b = q * 2 ^ 52 + r" unfolding q_def r_def by (rule div_mult_mod_eq [symmetric])
  have "r < 2 ^ 52" by (simp add: r_def)
  moreover have "f_mag b < 2 ^ 11 * 2 ^ 52" using f_mag_less [of b] by simp
  ultimately show ?thesis
    unfolding is_nan_def f_exp_def f_frac_def inf_mag_def q_def [symmetric] r_def [symmetric] mag
    by auto
qed

lemma f_key_pos:
  "\<not> f_sign b \<Longrightarrow> f_key b =
     (if f_mag b \<le> inf_mag then 2 * int (mag_val (f_mag b)) + 1 else nan_gap + int (f_mag b))"
  using not_nan_iff [of b] by (auto simp: f_key_def f_val_def)

lemma f_key_neg:
  "f_sign b \<Longrightarrow> f_key b =
     (if f_mag b = 0 then 0 else if f_mag b \<le> inf_mag then 1 - 2 * int (mag_val (f_mag b))
      else - nan_gap - int (f_mag b))"
  using not_nan_iff [of b] by (auto simp: f_key_def f_val_def)

lemma nan_gap_above: "m \<le> inf_mag \<Longrightarrow> 2 * int (mag_val m) + 1 < nan_gap"
  using mag_val_le_iff [of m inf_mag] by (simp add: nan_gap_def)

lemma mag_val_pos: "m \<noteq> 0 \<Longrightarrow> 1 \<le> int (mag_val m)"
  using mag_val_less_iff [of 0 m] by simp

lemma f_key_mono_pos:
  assumes "\<not> f_sign a" "\<not> f_sign b" "f_mag a < f_mag b"
  shows "f_key a < f_key b"
proof -
  have "mag_val (f_mag a) < mag_val (f_mag b)" using assms by (simp add: mag_val_less_iff)
  then show ?thesis
    using assms nan_gap_above [of "f_mag a"] by (auto simp: f_key_pos)
qed

lemma f_key_mono_neg:
  assumes "f_sign a" "f_sign b" "f_mag b < f_mag a"
  shows "f_key a < f_key b"
proof -
  have "mag_val (f_mag b) < mag_val (f_mag a)" using assms by (simp add: mag_val_less_iff)
  moreover have "0 < nan_gap" by (simp add: nan_gap_def)
  ultimately show ?thesis
    using assms nan_gap_above [of "f_mag b"] mag_val_pos [of "f_mag a"] mag_val_pos [of "f_mag b"]
    by (auto simp: f_key_neg)
qed

lemma f_key_neg_pos:
  assumes "f_sign a" "\<not> f_sign b"
  shows "f_key a < f_key b"
proof -
  have "0 < nan_gap" by (simp add: nan_gap_def)
  then have "f_key a \<le> 0" "0 < f_key b"
    using assms mag_val_pos [of "f_mag a"] by (auto simp: f_key_neg f_key_pos)
  then show ?thesis by simp
qed

lemma f_key_less: "sint (total_key a) < sint (total_key b) \<Longrightarrow> f_key a < f_key b"
  by (cases "f_sign a"; cases "f_sign b")
    (auto simp: sint_total_key f_key_mono_pos f_key_mono_neg f_key_neg_pos)

lemma sint_total_key_eq: "sint (total_key a) = sint (total_key b) \<Longrightarrow> a = b"
  using sign_mag_inject [of a b] by (auto simp: sint_total_key split: if_splits)

text \<open>\<open>total_cmp\<close> is the comparison of keys, and it separates all bit patterns.\<close>

lemma total_cmp_key: "total_cmp a b = cmp_of (f_key a) (f_key b)"
proof (rule ordering_eqI)
  show "total_cmp a b = Less \<longleftrightarrow> cmp_of (f_key a) (f_key b) = Less"
    using f_key_less [of a b] f_key_less [of b a] sint_total_key_eq [of a b]
    by (cases rule: linorder_cases [of "sint (total_key a)" "sint (total_key b)"])
      (auto simp: total_cmp_def)
  show "total_cmp a b = Greater \<longleftrightarrow> cmp_of (f_key a) (f_key b) = Greater"
    using f_key_less [of a b] f_key_less [of b a] sint_total_key_eq [of a b]
    by (cases rule: linorder_cases [of "sint (total_key a)" "sint (total_key b)"])
      (auto simp: total_cmp_def)
qed

lemma total_cmp_Equal_iff: "total_cmp a b = Equal \<longleftrightarrow> a = b"
  using sint_total_key_eq by (auto simp: total_cmp_def)

section \<open>Truncation\<close>

lemma push_drop_sign_mag:
  assumes "k \<le> 63"
  shows "f_sign (push_bit k (drop_bit k b)) = f_sign b"
    and "f_mag (push_bit k (drop_bit k b)) = f_mag b div 2 ^ k * 2 ^ k"
proof -
  let ?w = "push_bit k (drop_bit k b)"
  have split63: "(2::nat) ^ 63 = 2 ^ (63 - k) * 2 ^ k"
    using assms by (simp only: power_add [symmetric]) simp
  have le: "unat b div 2 ^ k * 2 ^ k \<le> unat b" by (rule div_times_less_eq_dividend)
  moreover have "unat b < 2 ^ 64" using unsigned_less [where ?'a = nat, of b] by simp
  ultimately have "unat b div 2 ^ k * 2 ^ k < 2 ^ 64" by (rule le_less_trans)
  moreover have "unat ?w = take_bit 64 (push_bit k (drop_bit k (unat b)))"
    by (simp add: unsigned_push_bit_eq unat_drop_bit_eq)
  ultimately have w: "unat ?w = unat b div 2 ^ k * 2 ^ k"
    by (simp add: push_bit_eq_mult drop_bit_eq_div take_bit_nat_eq_self)
  have d: "unat b div 2 ^ k = (if f_sign b then 2 ^ (63 - k) else 0) + f_mag b div 2 ^ k"
    unfolding unat_sign_mag [of b] split63 by simp
  have m: "f_mag b div 2 ^ k * 2 ^ k < 2 ^ 63"
    using f_mag_less [of b] div_times_less_eq_dividend [of "f_mag b" "2 ^ k"] by linarith
  have "unat ?w = (if f_sign b then 2 ^ 63 else 0) + f_mag b div 2 ^ k * 2 ^ k"
    unfolding w d split63 by (simp add: algebra_simps)
  with m show "f_sign ?w = f_sign b" "f_mag ?w = f_mag b div 2 ^ k * 2 ^ k"
    by (auto simp: f_sign_unat [of ?w] f_mag_def [of ?w])
qed

lemma mag_val_exp:
  assumes "e \<noteq> 0" "r < 2 ^ 52" "n = e * 2 ^ 52 + r"
  shows "n div 2 ^ 52 = e" "n mod 2 ^ 52 = r" "mag_val n = (2 ^ 52 + r) * 2 ^ (e - 1)"
proof -
  show d: "n div 2 ^ 52 = e" and m: "n mod 2 ^ 52 = r" using assms(2,3) by simp_all
  show "mag_val n = (2 ^ 52 + r) * 2 ^ (e - 1)" unfolding mag_val_def d m using assms(1) by simp
qed

lemma mag_val_small:
  assumes "n < 1023 * 2 ^ 52"
  shows "mag_val n < 2 ^ 1074"
proof -
  have "mag_val (1023 * 2 ^ 52) = 2 ^ 52 * 2 ^ 1022"
    using mag_val_exp(3) [of 1023 0 "1023 * 2 ^ 52"] by simp
  also have "\<dots> = 2 ^ 1074" by (simp only: power_add [symmetric]) simp
  finally show ?thesis using assms mag_val_less_iff [of n "1023 * 2 ^ 52"] by simp
qed

lemma trunc_mag_mid:
  assumes "0 < k" "k \<le> 52" "r < 2 ^ 52" "n = (1075 - k) * 2 ^ 52 + r"
  shows "mag_val (n div 2 ^ k * 2 ^ k) = mag_val n div 2 ^ 1074 * 2 ^ 1074"
proof -
  define B where "B = (2::nat) ^ (52 - k)"
  have B: "(2::nat) ^ 52 = B * 2 ^ k" using assms(2) unfolding B_def by (simp only: power_add [symmetric]) simp
  have e: "1075 - k \<noteq> 0" and p: "(2::nat) ^ 1074 = 2 ^ k * 2 ^ (1075 - k - 1)"
    using assms(2) by (simp, simp only: power_add [symmetric]) simp
  have r: "r div 2 ^ k * 2 ^ k < 2 ^ 52"
    using assms(3) div_times_less_eq_dividend [of r "2 ^ k"] by linarith
  have dk: "(2 ^ 52 + r) div 2 ^ k = B + r div 2 ^ k" unfolding B by simp
  have "n div 2 ^ k = (1075 - k) * B + r div 2 ^ k"
    unfolding assms(4) B by (simp add: mult.assoc [symmetric])
  then have "n div 2 ^ k * 2 ^ k = (1075 - k) * 2 ^ 52 + r div 2 ^ k * 2 ^ k"
    unfolding B by (simp add: algebra_simps)
  from mag_val_exp(3) [OF e r this]
  have "mag_val (n div 2 ^ k * 2 ^ k) = (2 ^ 52 + r div 2 ^ k * 2 ^ k) * 2 ^ (1075 - k - 1)" .
  also have "\<dots> = (2 ^ 52 + r) div 2 ^ k * 2 ^ 1074"
    unfolding dk p unfolding B by (simp add: algebra_simps)
  also have "(2 ^ 52 + r) div 2 ^ k = mag_val n div 2 ^ 1074"
    unfolding mag_val_exp(3) [OF e assms(3,4)] p by simp
  finally show ?thesis .
qed

lemma mag_val_big:
  assumes "1075 * 2 ^ 52 \<le> n"
  shows "mag_val n div 2 ^ 1074 * 2 ^ 1074 = mag_val n"
proof -
  define e where "e = n div 2 ^ 52"
  have e: "1075 \<le> e" using div_le_mono [OF assms, of "2 ^ 52"] unfolding e_def by simp
  then have "(2::nat) ^ 1074 dvd 2 ^ (e - 1)" by (intro le_imp_power_dvd) simp
  moreover have "mag_val n = (2 ^ 52 + n mod 2 ^ 52) * 2 ^ (e - 1)"
    unfolding mag_val_def e_def [symmetric] using e by simp
  ultimately have "2 ^ 1074 dvd mag_val n" by (simp only: dvd_mult)
  then show ?thesis by (rule dvd_div_mult_self)
qed

text \<open>\<open>trunc\<close> keeps the sign and rounds the magnitude down to a multiple of the unit.\<close>

lemma f_trunc_sign_mag:
  "f_sign (f_trunc b) = f_sign b"
  "mag_val (f_mag (f_trunc b)) = mag_val (f_mag b) div 2 ^ 1074 * 2 ^ 1074"
proof -
  define e r where "e = f_mag b div 2 ^ 52" and "r = f_mag b mod 2 ^ 52"
  have mag: "f_mag b = e * 2 ^ 52 + r" unfolding e_def r_def by (rule div_mult_mod_eq [symmetric])
  have r: "r < 2 ^ 52" by (simp add: r_def)
  have unf: "f_trunc b = (if e < 1023 then push_bit 63 (drop_bit 63 b) else if 1075 \<le> e then b
      else push_bit (1075 - e) (drop_bit (1075 - e) b))"
    by (simp only: f_trunc_def f_exp_def e_def)
  show "f_sign (f_trunc b) = f_sign b"
    unfolding unf using push_drop_sign_mag(1) by simp
  consider "e < 1023" | "1023 \<le> e" "e < 1075" | "1075 \<le> e" by linarith
  then show "mag_val (f_mag (f_trunc b)) = mag_val (f_mag b) div 2 ^ 1074 * 2 ^ 1074"
  proof cases
    case 1
    then have "e * 2 ^ 52 \<le> 1022 * 2 ^ 52" by (intro mult_le_mono1) simp
    then have small: "f_mag b < 1023 * 2 ^ 52" unfolding mag using r by simp
    from 1 have "f_mag (f_trunc b) = 0"
      unfolding unf using push_drop_sign_mag(2) [of 63 b] f_mag_less [of b] by simp
    then show ?thesis using div_less [OF mag_val_small [OF small]] by (simp only: mag_val_0)
  next
    case 2
    then have "mag_val (f_mag (f_trunc b)) = mag_val (f_mag b div 2 ^ (1075 - e) * 2 ^ (1075 - e))"
      unfolding unf using push_drop_sign_mag(2) [of "1075 - e" b] by simp
    then show ?thesis using trunc_mag_mid [of "1075 - e" r "f_mag b"] 2 r mag by simp
  next
    case 3
    then have "1075 * 2 ^ 52 \<le> e * 2 ^ 52" by (rule mult_le_mono1)
    then have "1075 * 2 ^ 52 \<le> f_mag b" unfolding mag by simp
    then show ?thesis unfolding unf using 3 mag_val_big by simp
  qed
qed

lemma signed_floor:
  fixes m U :: int
  assumes "0 \<le> m"
  shows "(if s then - (m div U * U) else m div U * U) =
    (let v = (if s then - m else m) in (if v < 0 then - ((- v) div U) else v div U) * U)"
  using assms by (cases "m = 0") (auto simp: Let_def)

lemma f_val_trunc: "f_val (f_trunc b) = trunc_int (f_val b) * f_unit"
proof -
  have m: "int (mag_val (f_mag (f_trunc b))) = int (mag_val (f_mag b)) div f_unit * f_unit"
    unfolding f_trunc_sign_mag(2) by (simp only: of_nat_mult zdiv_int of_nat_power of_nat_numeral)
  show ?thesis
    unfolding f_val_def f_trunc_sign_mag(1) trunc_int_def m
    using signed_floor [of "int (mag_val (f_mag b))" "f_sign b" f_unit] by (simp only: Let_def of_nat_0_le_iff)
qed

end
