(* ===== verification/Values.thy ===== *)
theory Values
  imports Comparator Float64
begin

text \<open>
  Cell values (\<open>rust/src/value.rs\<close>) and their comparators: the panicking sort comparator
  \<open>compare_values\<close>, join equality \<open>values_equal\<close>, predicate identity
  \<open>values_identical\<close>, the exact mixed comparison \<open>compare_int_f64\<close>, and the total predicate
  order \<open>compare_predicate_values\<close> of \<open>rust/src/predicate.rs\<close>.

  \<open>Value\<close> (borrowed) and \<open>OwnedValue\<close> (owned) have the same variants and the same
  comparators, so one datatype models both; text is a list of bytes, an \<open>i64\<close> (constructor \<open>IntV\<close>, the
  source's \<open>Int\<close>) and an
  \<open>f64\<close> are 64-bit words.
\<close>

type_synonym byte = "8 word"

datatype cell_value =
    Absent
  | Null
  | Bool bool
  | IntV i64
  | Float f64
  | Str "byte list"
  | Json "byte list"

section \<open>Comparators\<close>

fun bytes_cmp :: "byte list \<Rightarrow> byte list \<Rightarrow> ordering" where
  "bytes_cmp [] [] = Equal"
| "bytes_cmp [] (y # ys) = Less"
| "bytes_cmp (x # xs) [] = Greater"
| "bytes_cmp (x # xs) (y # ys) = (if x = y then bytes_cmp xs ys else cmp_of x y)"

definition compare_int_f64 :: "i64 \<Rightarrow> f64 \<Rightarrow> ordering" where
  "compare_int_f64 x y =
     (if is_nan y then (if \<not> f_sign y then Less else Greater)
      else if f_ge y TWO_POW_63 then Less
      else if f_lt y NEG_TWO_POW_63 then Greater
      else let t = f_trunc y; ty = f_as_i64 t in
        case cmp_of (sint x) (sint ty) of
          Equal \<Rightarrow> if f_lt t y then Less
                   else if f_lt y t \<or> (x = 0 \<and> f_sign y) then Greater
                   else Equal
        | ord \<Rightarrow> ord)"

definition float_int_class :: "f64 \<Rightarrow> i64 option" where
  "float_int_class f =
     (if \<not> is_finite f \<or> \<not> f_eq (f_trunc f) f then None
      else if f_eq f 0 then (if f_sign f then None else Some 0)
      else if \<not> (f_ge f NEG_TWO_POW_63 \<and> f_lt f TWO_POW_63) then None
      else Some (f_as_i64 f))"

fun compare_values :: "cell_value \<Rightarrow> cell_value \<Rightarrow> ordering option" where
  "compare_values Absent Absent = Some Equal"
| "compare_values Absent _ = Some Less"
| "compare_values _ Absent = Some Greater"
| "compare_values Null Null = Some Equal"
| "compare_values Null _ = Some Less"
| "compare_values _ Null = Some Greater"
| "compare_values (Bool x) (Bool y) = Some (cmp_of x y)"
| "compare_values (IntV x) (IntV y) = Some (cmp_of (sint x) (sint y))"
| "compare_values (Float x) (Float y) = Some (total_cmp x y)"
| "compare_values (IntV x) (Float y) = Some (compare_int_f64 x y)"
| "compare_values (Float x) (IntV y) = Some (reverse_ord (compare_int_f64 y x))"
| "compare_values (Str x) (Str y) = Some (bytes_cmp x y)"
| "compare_values (Json x) (Json y) = Some (bytes_cmp x y)"
| "compare_values _ _ = None"

fun values_equal :: "cell_value \<Rightarrow> cell_value \<Rightarrow> bool option" where
  "values_equal Absent _ = Some False"
| "values_equal _ Absent = Some False"
| "values_equal Null _ = Some False"
| "values_equal _ Null = Some False"
| "values_equal a b = map_option (\<lambda>c. c = Equal) (compare_values a b)"

fun values_identical :: "cell_value \<Rightarrow> cell_value \<Rightarrow> bool" where
  "values_identical Absent Absent = True"
| "values_identical Absent _ = False"
| "values_identical _ Absent = False"
| "values_identical Null Null = True"
| "values_identical Null _ = False"
| "values_identical _ Null = False"
| "values_identical (Bool x) (Bool y) = (x = y)"
| "values_identical (IntV x) (IntV y) = (x = y)"
| "values_identical (Float x) (Float y) = (total_cmp x y = Equal)"
| "values_identical (IntV x) (Float y) = (compare_int_f64 x y = Equal)"
| "values_identical (Float x) (IntV y) = (compare_int_f64 y x = Equal)"
| "values_identical (Str x) (Str y) = (x = y)"
| "values_identical (Json x) (Json y) = (x = y)"
| "values_identical _ _ = False"

fun predicate_type_rank :: "cell_value \<Rightarrow> nat" where
  "predicate_type_rank Absent = 0"
| "predicate_type_rank Null = 1"
| "predicate_type_rank (Bool _) = 2"
| "predicate_type_rank (IntV _) = 3"
| "predicate_type_rank (Float _) = 3"
| "predicate_type_rank (Str _) = 4"
| "predicate_type_rank (Json _) = 5"

fun compare_predicate_values :: "cell_value \<Rightarrow> cell_value \<Rightarrow> ordering" where
  "compare_predicate_values Absent Absent = Equal"
| "compare_predicate_values Absent _ = Less"
| "compare_predicate_values _ Absent = Greater"
| "compare_predicate_values Null Null = Equal"
| "compare_predicate_values Null _ = Less"
| "compare_predicate_values _ Null = Greater"
| "compare_predicate_values (IntV x) (Float y) = compare_int_f64 x y"
| "compare_predicate_values (Float x) (IntV y) = reverse_ord (compare_int_f64 y x)"
| "compare_predicate_values (Bool x) (Bool y) = cmp_of x y"
| "compare_predicate_values (IntV x) (IntV y) = cmp_of (sint x) (sint y)"
| "compare_predicate_values (Float x) (Float y) = total_cmp x y"
| "compare_predicate_values (Str x) (Str y) = bytes_cmp x y"
| "compare_predicate_values (Json x) (Json y) = bytes_cmp x y"
| "compare_predicate_values a b = cmp_of (predicate_type_rank a) (predicate_type_rank b)"

section \<open>Bytes\<close>

lemma bytes_cmp_flip: "bytes_cmp ys xs = reverse_ord (bytes_cmp xs ys)"
  by (induction xs ys rule: bytes_cmp.induct) (auto intro: cmp_of_flip)

lemma bytes_cmp_Equal_iff [simp]: "bytes_cmp xs ys = Equal \<longleftrightarrow> xs = ys"
  by (induction xs ys rule: bytes_cmp.induct) auto

lemma bytes_cmp_less_trans: "bytes_cmp xs ys = Less \<Longrightarrow> bytes_cmp ys zs = Less \<Longrightarrow> bytes_cmp xs zs = Less"
proof (induction xs arbitrary: ys zs)
  case Nil
  then show ?case by (cases ys; cases zs) auto
next
  case (Cons x xs)
  then show ?case by (cases ys; cases zs) (auto split: if_splits)
qed

lemma bytes_cmp_le_trans:
  "bytes_cmp xs ys \<noteq> Greater \<Longrightarrow> bytes_cmp ys zs \<noteq> Greater \<Longrightarrow> bytes_cmp xs zs \<noteq> Greater"
  using bytes_cmp_less_trans [of xs ys zs] by (auto simp: ordering_neq_cases)

section \<open>The exact mixed comparison\<close>

lemma trunc_int_compare:
  fixes v x U :: int
  assumes "0 < U" and q: "q = (if v < 0 then - ((- v) div U) else v div U)"
  shows "x < q \<Longrightarrow> x * U < v" and "q < x \<Longrightarrow> v < x * U"
proof -
  define d r where "d = (if v < 0 then - v else v) div U" and "r = (if v < 0 then - v else v) mod U"
  have r: "0 \<le> r" "r < U" using assms(1) by (simp_all add: r_def)
  have v: "v = (if v < 0 then - (d * U + r) else d * U + r)" and qd: "q = (if v < 0 then - d else d)"
    by (auto simp: d_def r_def q)
  { assume "x < q"
    then have "x * U \<le> (q - 1) * U" using assms(1) by (intro mult_right_mono) auto
    then show "x * U < v" using v qd r by (auto simp: algebra_simps split: if_splits) }
  { assume "q < x"
    then have "(q + 1) * U \<le> x * U" using assms(1) by (intro mult_right_mono) auto
    then show "v < x * U" using v qd r assms(1) by (auto simp: algebra_simps split: if_splits) }
qed

lemma trunc_int_range:
  fixes v M U :: int
  assumes "0 < U" "- (M * U) \<le> v" "v < M * U"
    and q: "q = (if v < 0 then - ((- v) div U) else v div U)"
  shows "- M \<le> q" and "q < M"
proof -
  show "- M \<le> q"
  proof (rule ccontr)
    assume "\<not> - M \<le> q"
    then have "v < - M * U" using trunc_int_compare(2) [OF assms(1) q, of "- M"] by simp
    with assms(2) show False by simp
  qed
  show "q < M"
  proof (rule ccontr)
    assume "\<not> q < M"
    show False
    proof (cases "q = M")
      case False
      then have "M * U < v" using trunc_int_compare(1) [OF assms(1) q, of M] \<open>\<not> q < M\<close> by simp
      with assms(3) show False by simp
    next
      case True
      have M: "0 < M * U" using assms(2,3) by linarith
      then have "0 < q" using True assms(1) by (simp add: zero_less_mult_iff)
      then have nv: "\<not> v < 0" using q assms(1) by (auto simp: pos_imp_zdiv_neg_iff split: if_splits)
      then have "q * U + v mod U = v" using q by simp
      then have "q * U \<le> v" using pos_mod_sign [OF assms(1), of v] by linarith
      with True assms(3) show False by simp
    qed
  qed
qed

lemma f_unit_pos: "0 < f_unit"
  by simp

lemma two_pow_63_scaled: "(2::int) ^ 63 * f_unit = 2 ^ 1137"
  by (simp only: power_add [symmetric]) simp

lemma mag_val_two_pow_63: "mag_val (1086 * 2 ^ 52) = 2 ^ 1137"
proof -
  have "mag_val (1086 * 2 ^ 52) = 2 ^ 52 * 2 ^ 1085"
    using mag_val_exp(3) [of 1086 0 "1086 * 2 ^ 52"] by simp
  also have "\<dots> = 2 ^ 1137" by (simp only: power_add [symmetric]) simp
  finally show ?thesis .
qed

lemma two_pow_63_fields:
  "f_mag TWO_POW_63 = 1086 * 2 ^ 52" "\<not> f_sign TWO_POW_63"
  "f_mag NEG_TWO_POW_63 = 1086 * 2 ^ 52" "f_sign NEG_TWO_POW_63"
  by (simp_all add: f_mag_def f_sign_unat TWO_POW_63_def NEG_TWO_POW_63_def)

lemma f_val_two_pow_63:
  "f_val TWO_POW_63 = 2 ^ 63 * f_unit" "f_val NEG_TWO_POW_63 = - (2 ^ 63 * f_unit)"
  unfolding f_val_def two_pow_63_fields mag_val_two_pow_63 two_pow_63_scaled
  by (simp_all only: two_pow_63_fields if_True if_False of_nat_power of_nat_numeral)

lemma two_pow_63_not_nan: "\<not> is_nan TWO_POW_63" "\<not> is_nan NEG_TWO_POW_63"
  unfolding not_nan_iff two_pow_63_fields inf_mag_def by simp_all

lemma sint_inject: "sint (x :: i64) = sint y \<longleftrightarrow> x = y"
  using signed_word_eqI [of x y] by auto

lemma sint_bounds: "- (2 ^ 63) \<le> sint (x :: i64)" "sint (x :: i64) < 2 ^ 63"
  using sint_greater_eq [of x] sint_less [of x] by simp_all

lemma nan_gap_beyond_i64:
  "2 * (sint (x :: i64) * f_unit) + 1 < nan_gap" "- nan_gap < 2 * (sint (x :: i64) * f_unit) + 1"
proof -
  have "mag_val (1086 * 2 ^ 52) \<le> mag_val inf_mag"
    unfolding mag_val_le_iff inf_mag_def by simp
  then have "2 ^ 1137 \<le> int (mag_val inf_mag)"
    unfolding mag_val_two_pow_63 by (metis of_nat_le_iff of_nat_numeral of_nat_power)
  then have gap: "2 ^ 63 * f_unit \<le> int (mag_val inf_mag)" unfolding two_pow_63_scaled .
  have "sint x * f_unit \<le> 2 ^ 63 * f_unit" "- (2 ^ 63) * f_unit \<le> sint x * f_unit"
    using sint_bounds [of x] f_unit_pos by (intro mult_right_mono; linarith)+
  with gap show "2 * (sint x * f_unit) + 1 < nan_gap" "- nan_gap < 2 * (sint x * f_unit) + 1"
    unfolding nan_gap_def by linarith+
qed

text \<open>The truncation of an in-range float is not a NaN, and its cast is exact.\<close>

lemma f_trunc_not_nan: "\<not> is_nan y \<Longrightarrow> \<not> is_nan (f_trunc y)"
proof -
  assume "\<not> is_nan y"
  moreover have "mag_val (f_mag (f_trunc y)) \<le> mag_val (f_mag y)"
    unfolding f_trunc_sign_mag by (rule div_times_less_eq_dividend)
  ultimately show ?thesis unfolding not_nan_iff mag_val_le_iff by linarith
qed

lemma trunc_int_mult: "0 < (U::int) \<Longrightarrow> (if q * U < 0 then - ((- (q * U)) div U) else q * U div U) = q"
  by (auto simp: minus_mult_left simp del: mult_minus_left)

lemma sint_f_as_i64_trunc:
  assumes "\<not> is_nan y" "- (2 ^ 63 * f_unit) \<le> f_val y" "f_val y < 2 ^ 63 * f_unit"
  shows "sint (f_as_i64 (f_trunc y)) = trunc_int (f_val y)"
proof -
  define q where "q = trunc_int (f_val y)"
  have q: "- (2 ^ 63) \<le> q" "q < 2 ^ 63"
    using trunc_int_range [OF f_unit_pos assms(2,3) trunc_int_def [of "f_val y"]] unfolding q_def by simp_all
  have "trunc_int (f_val (f_trunc y)) = q"
    unfolding f_val_trunc q_def [symmetric] unfolding trunc_int_def by (rule trunc_int_mult) (rule f_unit_pos)
  moreover have "max (- (2 ^ 63)) (min (2 ^ 63 - 1) q) = q" using q by linarith
  ultimately have "f_as_i64 (f_trunc y) = word_of_int q"
    unfolding f_as_i64_def using f_trunc_not_nan [OF assms(1)] by (simp only: if_False)
  then show ?thesis using sint_word_of_int_64 q unfolding q_def by simp
qed

definition num_key :: "cell_value \<Rightarrow> int" where
  "num_key v = (case v of IntV x \<Rightarrow> 2 * (sint x * f_unit) + 1 | Float f \<Rightarrow> f_key f | _ \<Rightarrow> 0)"

lemma f_key_not_nan: "\<not> is_nan y \<Longrightarrow> f_key y = 2 * f_val y + (if f_sign y \<and> f_val y = 0 then 0 else 1)"
  using mag_val_eq_iff [of "f_mag y" 0] by (simp add: f_key_def f_val_def)

text \<open>The mixed comparison is the comparison of keys, on every branch.\<close>

lemma compare_int_f64_key: "compare_int_f64 x y = cmp_of (2 * (sint x * f_unit) + 1) (f_key y)"
proof (cases "is_nan y")
  case True
  then have "f_key y = (if f_sign y then - nan_gap - int (f_mag y) else nan_gap + int (f_mag y))"
    by (simp add: f_key_def)
  moreover have "compare_int_f64 x y = (if \<not> f_sign y then Less else Greater)"
    using True by (simp only: compare_int_f64_def if_True)
  ultimately show ?thesis
    using nan_gap_beyond_i64 [of x] by (auto simp: cmp_of_def)
next
  case nn: False
  define v U X where "v = f_val y" and "U = f_unit" and "X = sint x"
  have U: "0 < U" unfolding U_def by (rule f_unit_pos)
  have key: "f_key y = 2 * v + (if f_sign y \<and> v = 0 then 0 else 1)"
    unfolding v_def by (rule f_key_not_nan [OF nn])
  have ge: "f_ge y TWO_POW_63 \<longleftrightarrow> 2 ^ 63 * U \<le> v" and lt: "f_lt y NEG_TWO_POW_63 \<longleftrightarrow> v < - (2 ^ 63 * U)"
    using nn two_pow_63_not_nan unfolding f_ge_def f_lt_def f_val_two_pow_63 v_def U_def by blast+
  have X: "- (2 ^ 63) \<le> X" "X < 2 ^ 63" unfolding X_def by (rule sint_bounds)+
  have "X * U < 2 ^ 63 * U" using X(2) U by (rule mult_strict_right_mono)
  moreover have "- (2 ^ 63) * U \<le> X * U" using X(1) U by (intro mult_right_mono) auto
  ultimately have XU: "X * U < 2 ^ 63 * U" "- (2 ^ 63 * U) \<le> X * U" by simp_all
  consider "2 ^ 63 * U \<le> v" | "v < - (2 ^ 63 * U)" | "- (2 ^ 63 * U) \<le> v" "v < 2 ^ 63 * U" by linarith
  then show ?thesis
  proof cases
    case 1
    then have "compare_int_f64 x y = Less" using nn ge by (simp add: compare_int_f64_def)
    moreover have "2 * (X * U) + 1 < f_key y" unfolding key using 1 XU by auto
    ultimately show ?thesis unfolding X_def U_def by (simp add: cmp_of_def)
  next
    case 2
    then have "compare_int_f64 x y = Greater" using nn ge lt XU by (simp add: compare_int_f64_def)
    moreover have "f_key y < 2 * (X * U) + 1" unfolding key using 2 XU by auto
    ultimately show ?thesis unfolding X_def U_def by (simp add: cmp_of_def)
  next
    case 3
    define q where "q = trunc_int v"
    have cast: "sint (f_as_i64 (f_trunc y)) = q"
      unfolding q_def v_def using sint_f_as_i64_trunc nn 3 unfolding v_def U_def by blast
    have cmp: "f_lt (f_trunc y) y \<longleftrightarrow> q * U < v" "f_lt y (f_trunc y) \<longleftrightarrow> v < q * U"
      using nn f_trunc_not_nan [OF nn] unfolding f_lt_def f_val_trunc q_def v_def U_def by blast+
    have "x = 0 \<longleftrightarrow> X = 0" unfolding X_def using sint_inject [of x 0] by simp
    then have unf: "compare_int_f64 x y = (case cmp_of X q of
         Equal \<Rightarrow> if q * U < v then Less else if v < q * U \<or> (X = 0 \<and> f_sign y) then Greater else Equal
       | ord \<Rightarrow> ord)"
      unfolding compare_int_f64_def using nn ge lt 3 cmp cast
      by (simp only: Let_def X_def if_False not_less not_le) auto
    have less: "X < q \<Longrightarrow> X * U < v" and greater: "q < X \<Longrightarrow> v < X * U"
      using trunc_int_compare [OF U, of q v X] unfolding q_def trunc_int_def U_def by blast+
    have "compare_int_f64 x y = cmp_of (2 * (X * U) + 1) (f_key y)"
    proof (cases rule: linorder_cases [of X q])
      case less': less
      then show ?thesis using less unfolding unf key by (auto simp: cmp_of_def)
    next
      case greater': greater
      then show ?thesis using greater unfolding unf key by (auto simp: cmp_of_def)
    next
      case equal
      have "q * U = 0 \<longleftrightarrow> q = 0" using U by simp
      then show ?thesis using equal unfolding unf key
        by (cases rule: linorder_cases [of v "q * U"]) (auto simp: cmp_of_def)
    qed
    then show ?thesis unfolding X_def U_def .
  qed
qed

lemma compare_int_f64_Equal_iff:
  "compare_int_f64 i f = Equal \<longleftrightarrow>
     \<not> is_nan f \<and> f_val f = sint i * f_unit \<and> \<not> (f_sign f \<and> f_val f = 0)"
proof (cases "is_nan f")
  case True
  then show ?thesis
    using nan_gap_beyond_i64 [of i] by (auto simp: compare_int_f64_key f_key_def)
next
  case False
  define v u where "v = f_val f" and "u = sint i * f_unit"
  have "2 * u + 1 = 2 * v + (if f_sign f \<and> v = 0 then 0 else 1) \<longleftrightarrow> v = u \<and> \<not> (f_sign f \<and> v = 0)"
    by (cases "f_sign f \<and> v = 0") (simp, presburger, auto)
  then show ?thesis
    unfolding compare_int_f64_key f_key_not_nan [OF False] cmp_of_simps v_def u_def using False by blast
qed

lemma trunc_int_exact:
  fixes q v U :: int
  assumes "0 < U" "v = n * U"
  shows "(if v < 0 then - ((- v) div U) else v div U) = n"
  unfolding assms(2) by (rule trunc_int_mult [OF assms(1)])

text \<open>An infinity lies outside the range of \<open>i64\<close>.\<close>

lemma infinite_out_of_range:
  assumes "\<not> is_finite f" "\<not> is_nan f"
  shows "2 ^ 63 * f_unit < \<bar>f_val f\<bar>"
proof -
  have "f_mag f div 2 ^ 52 = 2047 \<or> 2047 < f_mag f div 2 ^ 52"
    using assms(1) unfolding is_finite_def f_exp_def by linarith
  then have "2047 * 2 ^ 52 \<le> f_mag f div 2 ^ 52 * 2 ^ 52" by (intro mult_le_mono1) linarith
  then have "1086 * 2 ^ 52 < f_mag f"
    using div_times_less_eq_dividend [of "f_mag f" "2 ^ 52"] by simp
  then have "2 ^ 1137 < mag_val (f_mag f)"
    using mag_val_less_iff [of "1086 * 2 ^ 52" "f_mag f"] unfolding mag_val_two_pow_63 by blast
  then have "2 ^ 1137 < int (mag_val (f_mag f))" by (metis of_nat_less_iff of_nat_numeral of_nat_power)
  then show ?thesis unfolding two_pow_63_scaled f_val_def by simp
qed

lemma float_int_class_correct: "float_int_class f = Some i \<longleftrightarrow> compare_int_f64 i f = Equal"
proof (cases "is_nan f")
  case True
  then have "\<not> f_eq (f_trunc f) f" by (simp add: f_eq_def)
  then have "float_int_class f = None" by (simp add: float_int_class_def)
  then show ?thesis using True compare_int_f64_Equal_iff [of i f] by simp
next
  case nn: False
  define v U n where "v = f_val f" and "U = f_unit" and "n = sint i"
  have U: "0 < U" unfolding U_def by (rule f_unit_pos)
  have eq: "compare_int_f64 i f = Equal \<longleftrightarrow> v = n * U \<and> \<not> (f_sign f \<and> v = 0)"
    unfolding compare_int_f64_Equal_iff v_def U_def n_def using nn by blast
  have n: "- (2 ^ 63) \<le> n" "n < 2 ^ 63" unfolding n_def by (rule sint_bounds)+
  have "n * U < 2 ^ 63 * U" using n(2) U by (rule mult_strict_right_mono)
  moreover have "- (2 ^ 63) * U \<le> n * U" using n(1) U by (intro mult_right_mono) auto
  ultimately have nU: "n * U < 2 ^ 63 * U" "- (2 ^ 63 * U) \<le> n * U" by simp_all
  have tr: "f_eq (f_trunc f) f \<longleftrightarrow> trunc_int v * U = v"
    unfolding f_eq_def f_val_trunc v_def U_def using nn f_trunc_not_nan [OF nn] by blast
  have z: "f_eq f 0 \<longleftrightarrow> v = 0"
    unfolding f_eq_def v_def using nn by (simp add: is_nan_def f_exp_def f_mag_def f_val_def f_sign_def)
  have ge: "f_ge f NEG_TWO_POW_63 \<longleftrightarrow> - (2 ^ 63 * U) \<le> v" and lt: "f_lt f TWO_POW_63 \<longleftrightarrow> v < 2 ^ 63 * U"
    using nn two_pow_63_not_nan unfolding f_ge_def f_lt_def f_val_two_pow_63 v_def U_def by blast+
  have exact: "v = n * U \<Longrightarrow> trunc_int v = n"
    using trunc_int_exact [OF U, of v n] unfolding trunc_int_def U_def .
  show ?thesis
  proof (cases "is_finite f \<and> trunc_int v * U = v")
    case False
    then have "float_int_class f = None" unfolding float_int_class_def tr by simp
    moreover have "v \<noteq> n * U"
    proof
      assume vn: "v = n * U"
      then have inf: "\<not> is_finite f" using False exact by auto
      have "2 ^ 63 * U < \<bar>v\<bar>" using infinite_out_of_range [OF inf nn] unfolding v_def U_def .
      then show False using nU unfolding vn by linarith
    qed
    ultimately show ?thesis using eq by simp
  next
    case fin: True
    then have cls: "float_int_class f = (if v = 0 then (if f_sign f then None else Some 0)
        else if \<not> (- (2 ^ 63 * U) \<le> v \<and> v < 2 ^ 63 * U) then None else Some (f_as_i64 f))"
      unfolding float_int_class_def tr z ge lt by simp
    show ?thesis
    proof (cases "v = 0 \<or> \<not> (- (2 ^ 63 * U) \<le> v \<and> v < 2 ^ 63 * U)")
      case True
      moreover have "n * U = 0 \<longleftrightarrow> i = 0" using U sint_inject [of i 0] unfolding n_def by simp
      ultimately show ?thesis unfolding cls eq using nU by auto
    next
      case False
      have rng: "- (2 ^ 63) \<le> trunc_int v" "trunc_int v < 2 ^ 63"
        using trunc_int_range [OF U, of "2 ^ 63" v "trunc_int v"] False unfolding trunc_int_def U_def by blast+
      have "max (- (2 ^ 63)) (min (2 ^ 63 - 1) (trunc_int v)) = trunc_int v" using rng by linarith
      then have "f_as_i64 f = word_of_int (trunc_int v)"
        unfolding f_as_i64_def v_def [symmetric] using nn by (simp only: if_False)
      then have "sint (f_as_i64 f) = trunc_int v" using sint_word_of_int_64 [OF rng] by simp
      then have "f_as_i64 f = i \<longleftrightarrow> trunc_int v = n" unfolding n_def by (metis sint_inject)
      also have "\<dots> \<longleftrightarrow> v = n * U" using exact fin by auto
      finally show ?thesis unfolding cls eq using False by auto
    qed
  qed
qed

section \<open>The predicate order is total, and it refines every other comparator\<close>

lemma compare_predicate_rank:
  "predicate_type_rank a \<noteq> predicate_type_rank b \<Longrightarrow>
   compare_predicate_values a b = cmp_of (predicate_type_rank a) (predicate_type_rank b)"
  by (cases a; cases b) (simp_all add: cmp_of_def)

lemma compare_predicate_num:
  assumes "predicate_type_rank a = 3" "predicate_type_rank b = 3"
  shows "compare_predicate_values a b = cmp_of (num_key a) (num_key b)"
  using assms
  by (cases a; cases b)
    (simp_all add: num_key_def compare_int_f64_key total_cmp_key cmp_of_flip [symmetric],
     simp add: cmp_of_def)

lemma compare_predicate_flip:
  "compare_predicate_values b a = reverse_ord (compare_predicate_values a b)"
proof (cases "predicate_type_rank a = 3 \<and> predicate_type_rank b = 3")
  case True
  then show ?thesis by (simp add: compare_predicate_num cmp_of_flip [symmetric])
next
  case False
  then show ?thesis by (cases a; cases b) (simp_all add: cmp_of_flip [symmetric] bytes_cmp_flip [symmetric])
qed

lemma compare_predicate_same_rank_trans:
  assumes "predicate_type_rank a = predicate_type_rank b" "predicate_type_rank b = predicate_type_rank c"
    and "compare_predicate_values a b \<noteq> Greater" "compare_predicate_values b c \<noteq> Greater"
  shows "compare_predicate_values a c \<noteq> Greater"
proof (cases "predicate_type_rank a = 3")
  case True
  then show ?thesis using assms by (simp add: compare_predicate_num not_less)
next
  case False
  then show ?thesis using assms
    by (cases a; cases b; cases c; simp add: not_less; (metis bytes_cmp_le_trans)?)
qed

lemma compare_predicate_trans:
  assumes "compare_predicate_values a b \<noteq> Greater" "compare_predicate_values b c \<noteq> Greater"
  shows "compare_predicate_values a c \<noteq> Greater"
proof -
  have le: "predicate_type_rank x \<le> predicate_type_rank y" if "compare_predicate_values x y \<noteq> Greater" for x y
    using that compare_predicate_rank [of x y] by (cases "predicate_type_rank x = predicate_type_rank y") auto
  show ?thesis
  proof (cases "predicate_type_rank a = predicate_type_rank c")
    case True
    then show ?thesis
      using compare_predicate_same_rank_trans [of a b c] assms le [of a b] le [of b c] by simp
  next
    case False
    then show ?thesis using compare_predicate_rank [of a c] le [of a b] le [of b c] assms by simp
  qed
qed

interpretation pred_order: comparator_on UNIV "\<lambda>a b. Some (compare_predicate_values a b)"
proof
  fix a b c
  show "Some (compare_predicate_values b a) = map_option reverse_ord (Some (compare_predicate_values a b))"
    using compare_predicate_flip [of b a] by simp
  show "Some (compare_predicate_values a b) \<noteq> Some Greater \<Longrightarrow>
      Some (compare_predicate_values b c) \<noteq> Some Greater \<Longrightarrow> Some (compare_predicate_values a c) \<noteq> Some Greater"
    using compare_predicate_trans [of a b c] by simp
qed simp

text \<open>Wherever the sort comparator does not panic, it agrees with the predicate order.\<close>

lemma compare_values_predicate:
  "compare_values a b = Some c \<Longrightarrow> compare_predicate_values a b = c"
  by (cases a; cases b) auto

lemma values_identical_iff: "values_identical a b \<longleftrightarrow> compare_predicate_values a b = Equal"
  by (cases a; cases b) (auto simp: sint_inject)

lemma values_equal_identical:
  "values_equal a b = Some e \<Longrightarrow> e \<longleftrightarrow> values_identical a b \<and> a \<notin> {Absent, Null}"
  by (cases a; cases b) (auto simp: sint_inject)

section \<open>The sort comparator on one column type\<close>

text \<open>
  The sort comparator panics on a pair of different types. The precondition of the B+tree
  (documented there) is that a sort column holds one type, apart from \<open>Null\<close> and
  \<open>Absent\<close>; numbers of both representations count as one type.
\<close>

datatype kind = KBool | KNum | KStr | KJson

fun conforms :: "kind \<Rightarrow> cell_value \<Rightarrow> bool" where
  "conforms k Absent = True"
| "conforms k Null = True"
| "conforms k (Bool _) = (k = KBool)"
| "conforms k (IntV _) = (k = KNum)"
| "conforms k (Float _) = (k = KNum)"
| "conforms k (Str _) = (k = KStr)"
| "conforms k (Json _) = (k = KJson)"

lemma compare_values_conforms:
  "conforms k a \<Longrightarrow> conforms k b \<Longrightarrow> compare_values a b = Some (compare_predicate_values a b)"
  by (cases a; cases b) auto

lemma compare_values_comparator: "comparator_on {v. conforms k v} compare_values"
  by (rule comparator_on_restrict [OF pred_order.comparator_on_axioms])
    (auto simp: compare_values_conforms)

interpretation cell_order: comparator_on "{v. conforms k v}" compare_values for k
  by (rule compare_values_comparator)

section \<open>Properties\<close>

text \<open>(C35) The mixed integer/float comparison is exact: it compares the integer with the real value of
  the float (both scaled by \<open>2^1074\<close>, which makes them integers) without any rounding; a NaN sorts outside
  all integers on the side of its sign, and \<open>-0.0\<close> sorts just below the integer zero.\<close>

theorem compare_int_f64_exact:
  "compare_int_f64 x y =
     (if is_nan y then (if f_sign y then Greater else Less)
      else if x = 0 \<and> f_sign y \<and> f_val y = 0 then Greater
      else cmp_of (sint x * f_unit) (f_val y))"
proof (cases "is_nan y")
  case True
  then show ?thesis by (simp add: compare_int_f64_def)
next
  case False
  define U where "U = f_unit"
  have U: "0 < U" unfolding U_def by (rule f_unit_pos)
  have key: "f_key y = 2 * f_val y + (if f_sign y \<and> f_val y = 0 then 0 else 1)" by (rule f_key_not_nan [OF False])
  have "sint x * U = 0 \<longleftrightarrow> x = 0" using U sint_inject [of x 0] by simp
  then show ?thesis
    using False unfolding compare_int_f64_key key U_def [symmetric] by (auto simp: cmp_of_def)
qed

text \<open>A float has an integer class exactly when some integer compares equal to it, and the class is
  that integer: hashing and indexing by the class agree with the mixed comparison.\<close>

theorem float_int_class_exact:
  "float_int_class f = Some i \<longleftrightarrow> compare_int_f64 i f = Equal"
  by (rule float_int_class_correct)

text \<open>The predicate comparator never panics and is a total order on all values of all types,
  numbers of both representations included; its equality is \<open>values_identical\<close>.\<close>

theorem predicate_order_total:
  "compare_predicate_values b a = reverse_ord (compare_predicate_values a b) \<and>
   (compare_predicate_values a b \<noteq> Greater \<longrightarrow> compare_predicate_values b c \<noteq> Greater \<longrightarrow>
      compare_predicate_values a c \<noteq> Greater) \<and>
   (compare_predicate_values a b = Equal \<longleftrightarrow> values_identical a b)"
  using compare_predicate_flip [of b a] compare_predicate_trans [of a b c] values_identical_iff [of a b] by blast

theorem predicate_order_total_witness:
  "compare_predicate_values (IntV 3) (Str [65]) \<noteq> Greater \<and> compare_predicate_values Null (Str [65]) \<noteq> Greater"
proof -
  have "compare_predicate_values Null (IntV 3) \<noteq> Greater" "compare_predicate_values (IntV 3) (Str [65]) \<noteq> Greater"
    by simp_all
  then show ?thesis using predicate_order_total [of "IntV 3" Null "Str [65]"] by blast
qed

text \<open>The sort comparator panics exactly on two present values of different types, and agrees with
  the predicate order on every other pair.\<close>

theorem compare_values_spec:
  "compare_values a b =
     (if a \<in> {Absent, Null} \<or> b \<in> {Absent, Null} \<or> predicate_type_rank a = predicate_type_rank b
      then Some (compare_predicate_values a b) else None)"
  by (cases a; cases b) simp_all

end
