(* ===== verification/Rows.thy ===== *)
theory Rows
  imports Values
begin

text \<open>
  Rows, sorts and scan bounds (\<open>rust/src/value.rs\<close>, \<open>rust/src/btree.rs\<close>,
  \<open>rust/src/change.rs\<close>).

  A row is its list of cells; the flat byte buffer that stores them is modelled, and shown to
  hold exactly these cells, in the theory \<open>Row_Codec\<close>. Reading a column out of range panics.
  The section on comparators shows that \<open>compare_rows\<close> satisfies the comparator contract on
  the rows that conform to a column typing, and that a scan bound is a cut of that order.
\<close>

type_synonym row = "cell_value list"
type_synonym col_id = nat
type_synonym sort = "(col_id \<times> bool) list"

definition row_col :: "row \<Rightarrow> col_id \<Rightarrow> cell_value option" where
  "row_col r c = vec_get r c"

definition apply_dir :: "ordering \<Rightarrow> bool \<Rightarrow> ordering" where
  "apply_dir c asc = (if asc then c else reverse_ord c)"

definition compare_cell :: "row \<Rightarrow> row \<Rightarrow> col_id \<Rightarrow> ordering option" where
  "compare_cell a b c = do { x \<leftarrow> row_col a c; y \<leftarrow> row_col b c; compare_values x y }"

fun compare_rows_loop :: "sort \<Rightarrow> row \<Rightarrow> row \<Rightarrow> ordering option" where
  "compare_rows_loop [] a b = Some Equal"
| "compare_rows_loop ((col, asc) # rest) a b = do {
     r \<leftarrow> compare_cell a b col;
     let c = apply_dir r asc;
     if c \<noteq> Equal then Some c else compare_rows_loop rest a b
   }"

fun compare_rows :: "sort \<Rightarrow> row \<Rightarrow> row \<Rightarrow> ordering option" where
  "compare_rows [] a b = Some Equal"
| "compare_rows [(c0, asc0)] a b = do { r \<leftarrow> compare_cell a b c0; Some (apply_dir r asc0) }"
| "compare_rows [(c0, asc0), (c1, asc1)] a b = do {
     r0 \<leftarrow> compare_cell a b c0;
     let r = apply_dir r0 asc0;
     if r \<noteq> Equal then Some r
     else do { r1 \<leftarrow> compare_cell a b c1; Some (apply_dir r1 asc1) }
   }"
| "compare_rows srt a b = compare_rows_loop srt a b"

fun same_pk :: "row \<Rightarrow> row \<Rightarrow> col_id list \<Rightarrow> bool option" where
  "same_pk a b [] = Some True"
| "same_pk a b (c # pk) = do {
     x \<leftarrow> row_col a c;
     y \<leftarrow> row_col b c;
     e \<leftarrow> values_equal x y;
     if e then same_pk a b pk else Some False
   }"

section \<open>Bounds\<close>

datatype bound = BMin | BMax | BVal cell_value

type_synonym row_bound = "(col_id \<times> bound) list"

fun row_bound_of :: "row \<Rightarrow> sort \<Rightarrow> row_bound option" where
  "row_bound_of r [] = Some []"
| "row_bound_of r ((c, asc) # srt) = do {
     v \<leftarrow> row_col r c;
     rest \<leftarrow> row_bound_of r srt;
     Some ((c, BVal v) # rest)
   }"

fun cmp_bound_row :: "sort \<Rightarrow> row_bound \<Rightarrow> row \<Rightarrow> ordering option" where
  "cmp_bound_row [] bnd r = Some Equal"
| "cmp_bound_row ((col, asc) # srt) bnd r = do {
     c \<leftarrow> (case map_of bnd col of
            None \<Rightarrow> Some Less
          | Some BMin \<Rightarrow> Some Less
          | Some BMax \<Rightarrow> Some Greater
          | Some (BVal v) \<Rightarrow> do { x \<leftarrow> row_col r col; compare_values v x });
     if c \<noteq> Equal then Some (if asc then c else reverse_ord c)
     else cmp_bound_row srt bnd r
   }"

section \<open>The unrolled comparison is the loop\<close>

lemma compare_rows_loop_eq: "compare_rows srt a b = compare_rows_loop srt a b"
  by (cases "(srt, a, b)" rule: compare_rows.cases)
    (auto simp: Let_def split: Option.bind_split)

section \<open>The row comparator\<close>

text \<open>A row conforms to a typing of the sort columns when it is wide enough and each of its
  sort cells has the type of its column (or is \<open>Null\<close> or \<open>Absent\<close>).\<close>

definition row_ok :: "(col_id \<Rightarrow> kind) \<Rightarrow> sort \<Rightarrow> row \<Rightarrow> bool" where
  "row_ok ty srt r = (\<forall>(c, asc) \<in> set srt. c < length r \<and> conforms (ty c) (r ! c))"

lemma row_ok_Nil [simp]: "row_ok ty [] r"
  by (simp add: row_ok_def)

lemma row_ok_Cons [simp]:
  "row_ok ty ((c, asc) # srt) r \<longleftrightarrow> c < length r \<and> conforms (ty c) (r ! c) \<and> row_ok ty srt r"
  by (simp add: row_ok_def)

lemma compare_rows_loop_then:
  "compare_rows_loop ((col, asc) # rest) = cmp_then
     (\<lambda>a b. map_option (\<lambda>r. apply_dir r asc) (compare_cell a b col)) (compare_rows_loop rest)"
  by (intro ext) (auto simp: cmp_then_def Let_def map_conv_bind_option)

lemma compare_cell_comparator:
  assumes "\<And>r. r \<in> D \<Longrightarrow> c < length r \<and> conforms k (r ! c)"
  shows "comparator_on D (\<lambda>a b. map_option (\<lambda>r. apply_dir r asc) (compare_cell a b c))"
proof -
  have base: "comparator_on D (\<lambda>a b. compare_values (a ! c) (b ! c))"
    by (rule comparator_vimage [OF compare_values_comparator [of k]]) (use assms in auto)
  have cell: "compare_cell a b c = compare_values (a ! c) (b ! c)" if "a \<in> D" "b \<in> D" for a b
    using that assms by (simp add: compare_cell_def row_col_def)
  show ?thesis
  proof (cases asc)
    case True
    then show ?thesis
      by (intro comparator_on_restrict [OF base]) (auto simp: cell apply_dir_def option.map_ident)
  next
    case False
    then show ?thesis
      by (intro comparator_on_restrict [OF comparator_reverse [OF base]]) (auto simp: cell apply_dir_def)
  qed
qed

lemma compare_rows_loop_comparator:
  assumes "\<And>r. r \<in> D \<Longrightarrow> row_ok ty srt r"
  shows "comparator_on D (compare_rows_loop srt)"
  using assms
proof (induction srt)
  case Nil
  then show ?case by (simp add: comparator_const_Equal cong: comparator_on_def)
next
  case (Cons ca srt)
  obtain c asc where ca: "ca = (c, asc)" by fastforce
  show ?case unfolding ca compare_rows_loop_then
    using Cons unfolding ca by (intro comparator_then compare_cell_comparator [where k = "ty c"]) auto
qed

lemma compare_rows_comparator: "comparator_on {r. row_ok ty srt r} (compare_rows srt)"
  unfolding compare_rows_loop_eq [abs_def] by (rule compare_rows_loop_comparator) simp

interpretation row_order: comparator_on "{r. row_ok ty srt r}" "compare_rows srt" for ty srt
  by (rule compare_rows_comparator)

section \<open>Bounds are cuts\<close>

definition bound_ok :: "(col_id \<Rightarrow> kind) \<Rightarrow> row_bound \<Rightarrow> bool" where
  "bound_ok ty bnd = (\<forall>c v. map_of bnd c = Some (BVal v) \<longrightarrow> conforms (ty c) v)"

lemma cmp_bound_row_total:
  "bound_ok ty bnd \<Longrightarrow> row_ok ty srt r \<Longrightarrow> cmp_bound_row srt bnd r \<noteq> None"
proof (induction srt)
  case (Cons ca srt)
  obtain c asc where ca: "ca = (c, asc)" by fastforce
  show ?case
  proof (cases "map_of bnd c")
    case None
    then show ?thesis by (simp add: ca)
  next
    case (Some b)
    then show ?thesis
    proof (cases b)
      case (BVal v)
      then have "conforms (ty c) v" using Some Cons.prems by (auto simp: bound_ok_def)
      then show ?thesis
        using Some BVal Cons cell_order.cmp_total [of v "ty c" "r ! c"] by (auto simp: ca row_col_def)
    qed (use Some in \<open>simp_all add: ca\<close>)
  qed
qed simp

lemma cmp_bound_row_mono:
  assumes "bound_ok ty bnd" "row_ok ty srt x" "row_ok ty srt y"
    and "compare_rows_loop srt x y = Some Less" "cmp_bound_row srt bnd x \<noteq> Some Greater"
  shows "cmp_bound_row srt bnd y = Some Less"
  using assms(2-)
proof (induction srt)
  case (Cons ca srt)
  obtain c asc where ca: "ca = (c, asc)" by fastforce
  have ok: "c < length x" "c < length y" "conforms (ty c) (x ! c)" "conforms (ty c) (y ! c)"
    "row_ok ty srt x" "row_ok ty srt y" using Cons.prems by (simp_all add: ca)
  then obtain r where r: "compare_values (x ! c) (y ! c) = Some r"
    using cell_order.cmp_total [of "x ! c" "ty c" "y ! c"] by auto
  have lt: "apply_dir r asc = Less \<or> (r = Equal \<and> compare_rows_loop srt x y = Some Less)"
    using Cons.prems(3) ok r
    by (cases asc) (auto simp: ca compare_cell_def row_col_def apply_dir_def Let_def split: if_splits)
  show ?case
  proof (cases "map_of bnd c")
    case None
    then show ?thesis using Cons.prems(4) by (auto simp: ca split: if_splits)
  next
    case (Some b)
    show ?thesis
    proof (cases b)
      case (BVal v)
      have v: "conforms (ty c) v" using assms(1) Some BVal by (auto simp: bound_ok_def)
      obtain p q where p: "compare_values v (x ! c) = Some p" and q: "compare_values v (y ! c) = Some q"
        using cell_order.cmp_total [of v "ty c"] v ok by fastforce
      have xeq: "cmp_bound_row ((c, asc) # srt) bnd x = (if p \<noteq> Equal then Some (if asc then p else reverse_ord p)
          else cmp_bound_row srt bnd x)"
        using Some BVal ok p by (simp add: row_col_def)
      have yeq: "cmp_bound_row ((c, asc) # srt) bnd y = (if q \<noteq> Equal then Some (if asc then q else reverse_ord q)
          else cmp_bound_row srt bnd y)"
        using Some BVal ok q by (simp add: row_col_def)
      note D = v ok(3,4)
      show ?thesis
      proof (cases "r = Equal")
        case True
        then have "p = q" using cell_order.cmp_eq_cong_right [of "x ! c" "ty c" "y ! c" v] D p q r by simp
        then show ?thesis
          using Cons.prems(4) Cons.IH ok lt True unfolding ca xeq yeq
          by (cases q) (auto simp: apply_dir_def split: if_splits)
      next
        case False
        then have dir: "apply_dir r asc = Less" using lt by simp
        have "q = (if asc then Less else Greater)"
        proof (cases asc)
          case True
          have "p \<noteq> Greater" using Cons.prems(4) True unfolding ca xeq by auto
          moreover have "r = Less" using dir True by (simp add: apply_dir_def)
          ultimately show ?thesis
            using cell_order.cmp_le_less_trans [of v "ty c" "x ! c" "y ! c"] D p q r True by simp
        next
          case desc: False
          have "p \<noteq> Less" using Cons.prems(4) desc unfolding ca xeq by auto
          moreover have "r = Greater" using dir desc by (simp add: apply_dir_def)
          ultimately show ?thesis
            using cell_order.cmp_less_le_trans [of "y ! c" "ty c" "x ! c" v]
              cell_order.cmp_gt_iff [of "x ! c" "ty c" "y ! c"] cell_order.cmp_gt_iff [of "x ! c" "ty c" v]
              cell_order.cmp_gt_iff [of v "ty c" "y ! c"] D p q r desc by auto
        qed
        then show ?thesis unfolding ca yeq by auto
      qed
    qed (use Some Cons.prems(4) in \<open>auto simp: ca split: if_splits\<close>)
  qed
qed simp

lemma bound_cut: "bound_ok ty bnd \<Longrightarrow> cut_on {r. row_ok ty srt r} (compare_rows srt) (cmp_bound_row srt bnd)"
  by unfold_locales
    (use cmp_bound_row_total cmp_bound_row_mono in \<open>auto simp: compare_rows_loop_eq\<close>)

text \<open>The bound of a row compares like the row itself.\<close>

lemma row_bound_of_map: "row_bound_of r srt = Some bnd \<Longrightarrow> (c, asc) \<in> set srt \<Longrightarrow>
    c < length r \<and> map_of bnd c = Some (BVal (r ! c))"
proof (induction srt arbitrary: bnd)
  case (Cons ca srt)
  obtain c' asc' where ca: "ca = (c', asc')" by fastforce
  from Cons.prems(1) obtain rest where rest: "row_bound_of r srt = Some rest" "c' < length r"
      "bnd = (c', BVal (r ! c')) # rest"
    by (auto simp: ca row_col_def vec_get_def split: if_splits Option.bind_splits)
  then show ?case using Cons by (auto simp: ca)
qed simp

lemma row_bound_of_ok: "row_ok ty srt r \<Longrightarrow> \<exists>bnd. row_bound_of r srt = Some bnd"
  by (induction srt) (auto simp: row_col_def)

lemma row_bound_of_dom: "row_bound_of r srt = Some bnd \<Longrightarrow> map_of bnd c = Some b \<Longrightarrow> \<exists>asc. (c, asc) \<in> set srt"
proof (induction srt arbitrary: bnd)
  case (Cons ca srt)
  obtain c' asc' where ca: "ca = (c', asc')" by fastforce
  from Cons.prems(1) obtain rest where rest: "row_bound_of r srt = Some rest" "bnd = (c', BVal (r ! c')) # rest"
    by (auto simp: ca row_col_def vec_get_def split: if_splits Option.bind_splits)
  show ?case
  proof (cases "c = c'")
    case False
    then show ?thesis using Cons.IH [OF rest(1)] Cons.prems(2) rest(2) by (auto simp: ca)
  qed (auto simp: ca)
qed simp

lemma row_bound_of_bound_ok: "row_ok ty srt r \<Longrightarrow> row_bound_of r srt = Some bnd \<Longrightarrow> bound_ok ty bnd"
  unfolding bound_ok_def
proof (intro allI impI)
  fix c v assume a: "row_ok ty srt r" "row_bound_of r srt = Some bnd" "map_of bnd c = Some (BVal v)"
  then obtain asc where "(c, asc) \<in> set srt" using row_bound_of_dom by blast
  with a show "conforms (ty c) v" using row_bound_of_map [OF a(2)] by (auto simp: row_ok_def)
qed

lemma cmp_bound_row_of:
  "\<forall>(c, asc) \<in> set srt. c < length r \<and> map_of bnd c = Some (BVal (r ! c)) \<Longrightarrow>
   cmp_bound_row srt bnd x = compare_rows srt r x"
  unfolding compare_rows_loop_eq
  by (induction srt) (auto simp: compare_cell_def row_col_def apply_dir_def Let_def split: Option.bind_split)

lemma row_bound_of_cmp: "row_bound_of r srt = Some bnd \<Longrightarrow> cmp_bound_row srt bnd x = compare_rows srt r x"
  by (rule cmp_bound_row_of) (use row_bound_of_map in fastforce)

section \<open>Properties\<close>

text \<open>(C36) On rows whose sort cells conform to the column types, the row comparator never panics, is
  antisymmetric in the sense of \<open>Ordering::reverse\<close>, and is transitive; the unrolled one- and two-column
  cases are the general loop.\<close>

theorem compare_rows_total_order:
  assumes "row_ok ty srt a" "row_ok ty srt b" "row_ok ty srt c"
  shows "(\<exists>o1. compare_rows srt a b = Some o1 \<and> compare_rows srt b a = Some (reverse_ord o1)) \<and>
    compare_rows srt a b = compare_rows_loop srt a b \<and>
    (compare_rows srt a b \<noteq> Some Greater \<longrightarrow> compare_rows srt b c \<noteq> Some Greater \<longrightarrow>
      compare_rows srt a c \<noteq> Some Greater)"
  using row_order.cmp_total [of a ty srt b] row_order.cmp_flip [of a ty srt b] row_order.cmp_le_trans [of a ty srt b c]
    assms compare_rows_loop_eq by auto

theorem compare_rows_total_order_witness:
  "compare_rows [(1, False), (0, True)] [IntV 2, Str [66]] [IntV 1, Str [65]] = Some Less \<and>
   compare_rows [(1, False), (0, True)] [IntV 2, Str [66]] [IntV 3, Str [65]] \<noteq> Some Greater"
proof -
  let ?ty = "\<lambda>c. if c = (0::nat) then KNum else KStr" and ?srt = "[(1, False), (0, True)]"
  let ?a = "[IntV 2, Str [66]]" and ?b = "[IntV 1, Str [65]]" and ?c = "[IntV 3, Str [65]]"
  have ok: "row_ok ?ty ?srt ?a" "row_ok ?ty ?srt ?b" "row_ok ?ty ?srt ?c" by simp_all
  have "compare_rows ?srt ?a ?b = Some Less" "compare_rows ?srt ?b ?c = Some Less"
    by (simp_all add: compare_cell_def row_col_def vec_get_def apply_dir_def cmp_of_def)
  then show ?thesis using compare_rows_total_order [OF ok] by simp
qed

end
