(* ===== verification/BTree.thy ===== *)
theory BTree
  imports Rows
begin

text \<open>
  The copy-on-write B+tree of \<open>rust/src/btree.rs\<close>: nodes, searches, insertion with splits,
  deletion with opportunistic merges, bulk load and the structural self-check.

  The tree is written over an arbitrary comparator \<open>cmp\<close>, which stands for
  \<open>compare_rows(sort, _, _)\<close> (every function of the source takes \<open>sort\<close> only to call that
  function). A \<open>&mut\<close> argument is returned updated. \<open>Rc\<close> sharing is invisible in this
  value model: \<open>Rc::make_mut\<close> copies a shared node before writing it, so a fork is the same
  value and a write produces a new one. Every index, \<open>expect\<close> and \<open>unreachable!\<close>
  is a possible panic (\<^term>\<open>None\<close>), and the correctness theorems show that none is reached.
\<close>

definition MAX_NODE_SIZE :: nat where
  "MAX_NODE_SIZE = 64"

section \<open>Nodes\<close>

datatype 'a bnode =
    Leaf "'a list"
  | Internal "'a list" "'a bnode list"

fun is_leaf :: "'a bnode \<Rightarrow> bool" where
  "is_leaf (Leaf _) = True"
| "is_leaf (Internal _ _) = False"

fun node_keys :: "'a bnode \<Rightarrow> 'a list" where
  "node_keys (Leaf ks) = ks"
| "node_keys (Internal ks _) = ks"

fun num_children :: "'a bnode \<Rightarrow> nat" where
  "num_children (Internal _ cs) = length cs"
| "num_children (Leaf _) = 0"

fun child :: "'a bnode \<Rightarrow> nat \<Rightarrow> 'a bnode option" where
  "child (Internal _ cs) i = vec_get cs i"
| "child (Leaf _) i = None"

definition max_key :: "'a bnode \<Rightarrow> 'a option" where
  "max_key n = vec_last (node_keys n)"

fun is_empty_node :: "'a bnode \<Rightarrow> bool" where
  "is_empty_node (Leaf ks) = (ks = [])"
| "is_empty_node (Internal _ cs) = (cs = [])"

section \<open>Searches\<close>

datatype search_result = Found nat | InsertAt nat

function search_loop :: "('a \<Rightarrow> 'a \<Rightarrow> ordering option) \<Rightarrow> 'a list \<Rightarrow> 'a \<Rightarrow> nat \<Rightarrow> nat \<Rightarrow> search_result option" where
  "search_loop cmp keys key lo hi =
     (if lo < hi then do {
        let mid = (lo + hi) div 2;
        k \<leftarrow> vec_get keys mid;
        c \<leftarrow> cmp k key;
        (case c of
           Less \<Rightarrow> search_loop cmp keys key (mid + 1) hi
         | Greater \<Rightarrow> search_loop cmp keys key lo mid
         | Equal \<Rightarrow> Some (Found mid))
      } else Some (InsertAt lo))"
  by pat_completeness auto
termination
  by (relation "measure (\<lambda>(cmp, keys, key, lo, hi). hi - lo)") auto

declare search_loop.simps [simp del]

definition search :: "('a \<Rightarrow> 'a \<Rightarrow> ordering option) \<Rightarrow> 'a list \<Rightarrow> 'a \<Rightarrow> search_result option" where
  "search cmp keys key = search_loop cmp keys key 0 (length keys)"

definition lower_bound :: "('a \<Rightarrow> 'a \<Rightarrow> ordering option) \<Rightarrow> 'a list \<Rightarrow> 'a \<Rightarrow> nat option" where
  "lower_bound cmp keys key =
     bsearch_loop (\<lambda>k. map_option (\<lambda>c. c = Less) (cmp k key)) keys 0 (length keys)"

definition child_index :: "('a \<Rightarrow> 'a \<Rightarrow> ordering option) \<Rightarrow> 'a list \<Rightarrow> 'a \<Rightarrow> nat option" where
  "child_index cmp keys key = do {
     lo \<leftarrow> bsearch_loop (\<lambda>k. map_option (\<lambda>c. c = Less) (cmp k key)) keys 0 (length keys);
     if lo = length keys then (if length keys = 0 then None else Some (length keys - 1)) else Some lo
   }"

text \<open>A lookup: the outer option is a panic, the inner one the answer.\<close>

fun find :: "('a \<Rightarrow> 'a \<Rightarrow> ordering option) \<Rightarrow> 'a bnode \<Rightarrow> 'a \<Rightarrow> 'a option option" where
  "find cmp (Leaf keys) key = do {
     r \<leftarrow> search cmp keys key;
     (case r of
        Found i \<Rightarrow> do { k \<leftarrow> vec_get keys i; Some (Some k) }
      | InsertAt _ \<Rightarrow> Some None)
   }"
| "find cmp (Internal keys children) key =
     (if children = [] then Some None
      else do {
        i \<leftarrow> child_index cmp keys key;
        c \<leftarrow> vec_get children i;
        find cmp c key
      })"

section \<open>Insertion\<close>

datatype 'a insert_result = Existed | Inserted | Split "'a bnode"

fun node_set :: "('a \<Rightarrow> 'a \<Rightarrow> ordering option) \<Rightarrow> 'a bnode \<Rightarrow> 'a \<Rightarrow> ('a bnode \<times> 'a insert_result) option" where
  "node_set cmp (Leaf keys) key = do {
     r \<leftarrow> search cmp keys key;
     (case r of
        Found i \<Rightarrow> do { keys' \<leftarrow> vec_set keys i key; Some (Leaf keys', Existed) }
      | InsertAt i \<Rightarrow> do {
          keys' \<leftarrow> vec_insert keys i key;
          if length keys' > MAX_NODE_SIZE then
            let mid = length keys' div 2
            in Some (Leaf (take mid keys'), Split (Leaf (drop mid keys')))
          else Some (Leaf keys', Inserted)
        })
   }"
| "node_set cmp (Internal keys children) key = do {
     i \<leftarrow> child_index cmp keys key;
     c \<leftarrow> vec_get children i;
     (c', res) \<leftarrow> node_set cmp c key;
     children' \<leftarrow> vec_set children i c';
     m \<leftarrow> max_key c';
     keys' \<leftarrow> vec_set keys i m;
     (case res of
        Existed \<Rightarrow> Some (Internal keys' children', Existed)
      | Inserted \<Rightarrow> Some (Internal keys' children', Inserted)
      | Split right \<Rightarrow> do {
          rmax \<leftarrow> max_key right;
          children'' \<leftarrow> vec_insert children' (i + 1) right;
          keys'' \<leftarrow> vec_insert keys' (i + 1) rmax;
          if length children'' > MAX_NODE_SIZE then
            let mid = length children'' div 2
            in Some (Internal (take mid keys'') (take mid children''),
                     Split (Internal (drop mid keys'') (drop mid children'')))
          else Some (Internal keys'' children'', Inserted)
        })
   }"

section \<open>Deletion\<close>

lemma size_nth_two: "Suc i < length xs \<Longrightarrow> size (xs ! i) + size (xs ! Suc i) < size_list size xs"
proof (induction xs arbitrary: i)
  case (Cons x xs)
  then show ?case by (cases i; cases xs) (fastforce simp: gr0_conv_Suc)+
qed simp

function try_merge :: "'a list \<Rightarrow> 'a bnode list \<Rightarrow> nat \<Rightarrow> ('a list \<times> 'a bnode list \<times> bool) option"
  and merge_into :: "'a bnode \<Rightarrow> 'a bnode \<Rightarrow> 'a bnode option" where
  "try_merge keys children i =
     (if i + 1 < length children then do {
        left \<leftarrow> vec_get children i;
        right \<leftarrow> vec_get children (Suc i);
        if length (node_keys left) + length (node_keys right) \<le> MAX_NODE_SIZE then do {
          children1 \<leftarrow> vec_remove children (Suc i);
          keys1 \<leftarrow> vec_remove keys (Suc i);
          left' \<leftarrow> merge_into left right;
          children2 \<leftarrow> vec_set children1 i left';
          m \<leftarrow> max_key left';
          keys2 \<leftarrow> vec_set keys1 i m;
          Some (keys2, children2, True)
        } else Some (keys, children, False)
      } else Some (keys, children, False))"
| "merge_into (Leaf lk) (Leaf rk) = Some (Leaf (lk @ rk))"
| "merge_into (Internal lk lc) (Internal rk rc) =
     (if lc = [] then None
      else do {
        let seam = length lc - 1;
        (keys, children, _) \<leftarrow> try_merge (lk @ rk) (lc @ rc) seam;
        Some (Internal keys children)
      })"
| "merge_into (Leaf lk) (Internal rk rc) = None"
| "merge_into (Internal lk lc) (Leaf rk) = None"
  by pat_completeness auto
termination
  by (relation "measure (\<lambda>a. case a of Inl (keys, children, i) \<Rightarrow> size_list size children
        | Inr (l, r) \<Rightarrow> size l + size r)")
    (auto simp: size_list_append size_nth_two)

declare try_merge.simps [simp del]

fun merge_scan :: "'a list \<Rightarrow> 'a bnode list \<Rightarrow> nat list \<Rightarrow> ('a list \<times> 'a bnode list) option" where
  "merge_scan keys children [] = Some (keys, children)"
| "merge_scan keys children (j # js) =
     (if j < length children then do {
        c \<leftarrow> vec_get children j;
        if length (node_keys c) \<le> MAX_NODE_SIZE div 2 then
          if is_empty_node c then do {
            children' \<leftarrow> vec_remove children j;
            keys' \<leftarrow> vec_remove keys j;
            merge_scan keys' children' js
          } else do {
            (keys', children', _) \<leftarrow> try_merge keys children j;
            merge_scan keys' children' js
          }
        else merge_scan keys children js
      } else merge_scan keys children js)"

fun node_delete :: "('a \<Rightarrow> 'a \<Rightarrow> ordering option) \<Rightarrow> 'a bnode \<Rightarrow> 'a \<Rightarrow> ('a bnode \<times> bool) option" where
  "node_delete cmp (Leaf keys) key = do {
     r \<leftarrow> search cmp keys key;
     (case r of
        Found i \<Rightarrow> do { keys' \<leftarrow> vec_remove keys i; Some (Leaf keys', True) }
      | InsertAt _ \<Rightarrow> Some (Leaf keys, False))
   }"
| "node_delete cmp (Internal keys children) key = do {
     i \<leftarrow> lower_bound cmp keys key;
     if i \<ge> length children then Some (Internal keys children, False)
     else do {
       c \<leftarrow> vec_get children i;
       (c', removed) \<leftarrow> node_delete cmp c key;
       children' \<leftarrow> vec_set children i c';
       keys' \<leftarrow> (if \<not> is_empty_node c' then do { m \<leftarrow> max_key c'; vec_set keys i m } else Some keys);
       (keys'', children'') \<leftarrow> merge_scan keys' children' (rev [i - 1..<i + 1]);
       Some (Internal keys'' children'', removed)
     }
   }"

section \<open>The tree\<close>

record 'a btree =
  root :: "'a bnode"
  tsize :: nat

definition btree_new :: "'a btree" where
  "btree_new = \<lparr> root = Leaf [], tsize = 0 \<rparr>"

definition btree_len :: "'a btree \<Rightarrow> nat" where
  "btree_len t = tsize t"

definition btree_is_empty :: "'a btree \<Rightarrow> bool" where
  "btree_is_empty t = (tsize t = 0)"

definition btree_fork :: "'a btree \<Rightarrow> 'a btree" where
  "btree_fork t = \<lparr> root = root t, tsize = tsize t \<rparr>"

definition btree_get :: "('a \<Rightarrow> 'a \<Rightarrow> ordering option) \<Rightarrow> 'a btree \<Rightarrow> 'a \<Rightarrow> 'a option option" where
  "btree_get cmp t key = find cmp (root t) key"

definition btree_has :: "('a \<Rightarrow> 'a \<Rightarrow> ordering option) \<Rightarrow> 'a btree \<Rightarrow> 'a \<Rightarrow> bool option" where
  "btree_has cmp t key = map_option (\<lambda>r. r \<noteq> None) (find cmp (root t) key)"

definition btree_add :: "('a \<Rightarrow> 'a \<Rightarrow> ordering option) \<Rightarrow> 'a btree \<Rightarrow> 'a \<Rightarrow> ('a btree \<times> bool) option" where
  "btree_add cmp t key = do {
     (root', res) \<leftarrow> node_set cmp (root t) key;
     (case res of
        Existed \<Rightarrow> Some (\<lparr> root = root', tsize = tsize t \<rparr>, False)
      | Inserted \<Rightarrow> Some (\<lparr> root = root', tsize = tsize t + 1 \<rparr>, True)
      | Split right \<Rightarrow> do {
          lk \<leftarrow> max_key root';
          rk \<leftarrow> max_key right;
          Some (\<lparr> root = Internal [lk, rk] [root', right], tsize = tsize t + 1 \<rparr>, True)
        })
   }"

fun collapse_loop :: "'a bnode \<Rightarrow> 'a bnode" where
  "collapse_loop (Internal ks [c]) = collapse_loop c"
| "collapse_loop n = n"

definition collapse_root :: "'a bnode \<Rightarrow> 'a bnode" where
  "collapse_root n = (case collapse_loop n of
       Internal ks [] \<Rightarrow> Leaf []
     | n' \<Rightarrow> n')"

definition btree_delete :: "('a \<Rightarrow> 'a \<Rightarrow> ordering option) \<Rightarrow> 'a btree \<Rightarrow> 'a \<Rightarrow> ('a btree \<times> bool) option" where
  "btree_delete cmp t key = do {
     (root', removed) \<leftarrow> node_delete cmp (root t) key;
     if removed then
       if tsize t = 0 then None
       else Some (\<lparr> root = collapse_root root', tsize = tsize t - 1 \<rparr>, True)
     else Some (\<lparr> root = root', tsize = tsize t \<rparr>, False)
   }"

section \<open>Bulk load\<close>

function chunks :: "nat \<Rightarrow> 'a list \<Rightarrow> 'a list list" where
  "chunks n xs = (if xs = [] \<or> n = 0 then [] else take n xs # chunks n (drop n xs))"
  by pat_completeness auto
termination
  by (relation "measure (\<lambda>(n, xs). length xs)") auto

declare chunks.simps [simp del]

fun windows_all :: "('a \<Rightarrow> 'a \<Rightarrow> bool option) \<Rightarrow> 'a list \<Rightarrow> bool option" where
  "windows_all p (x # y # ys) = do {
     b \<leftarrow> p x y;
     if b then windows_all p (y # ys) else Some False
   }"
| "windows_all p _ = Some True"

definition parent_of :: "'a bnode list \<Rightarrow> 'a bnode option" where
  "parent_of cs = do {
     keys \<leftarrow> those (map max_key cs);
     Some (Internal keys cs)
   }"

lemma length_chunks_le: "2 \<le> n \<Longrightarrow> 2 * length (chunks n xs) \<le> Suc (length xs)"
proof (induction n xs rule: chunks.induct)
  case (1 n xs)
  show ?case
  proof (cases "xs = []")
    case False
    then have len: "length (chunks n xs) = Suc (length (chunks n (drop n xs)))"
      using 1 by (simp add: chunks.simps [of n xs])
    show ?thesis
    proof (cases "n \<le> length xs")
      case True
      then show ?thesis using 1 False len by simp
    next
      case short: False
      then have "chunks n (drop n xs) = []" by (simp add: chunks.simps)
      then show ?thesis using False len by (cases xs) auto
    qed
  qed (simp add: chunks.simps)
qed

lemma those_length: "those xs = Some ys \<Longrightarrow> length ys = length xs"
  by (induction xs arbitrary: ys) (auto split: option.splits)

function build_levels :: "'a bnode list \<Rightarrow> 'a bnode option" where
  "build_levels level =
     (if length level > 1 then do {
        level' \<leftarrow> those (map parent_of (chunks MAX_NODE_SIZE level));
        build_levels level'
      } else vec_get level 0)"
  by pat_completeness auto
termination
proof (relation "measure length")
  fix level :: "'a bnode list" and level'
  assume a: "length level > 1" "those (map parent_of (chunks MAX_NODE_SIZE level)) = Some level'"
  have "length level' = length (chunks MAX_NODE_SIZE level)" using those_length [OF a(2)] by simp
  moreover have "2 * length (chunks MAX_NODE_SIZE level) \<le> Suc (length level)"
    by (rule length_chunks_le) (simp add: MAX_NODE_SIZE_def)
  ultimately show "(level', level) \<in> measure length" using a(1) by simp
qed simp

declare build_levels.simps [simp del]

text \<open>The debug assertion on the order of the input is checked in every build here: a release build would load an unsorted input.\<close>

definition from_sorted :: "('a \<Rightarrow> 'a \<Rightarrow> ordering option) \<Rightarrow> 'a list \<Rightarrow> 'a btree option" where
  "from_sorted cmp rows = do {
     ok \<leftarrow> windows_all (\<lambda>a b. map_option (\<lambda>c. c \<noteq> Greater) (cmp a b)) rows;
     if \<not> ok then None
     else if rows = [] then Some btree_new
     else do {
       r \<leftarrow> build_levels (map Leaf (chunks MAX_NODE_SIZE rows));
       Some \<lparr> root = r, tsize = length rows \<rparr>
     }
   }"

section \<open>The structural self-check\<close>

datatype invariant_error =
    EmptyNonRootLeaf
  | OverfullLeaf nat
  | LeafUnsorted
  | EmptyInternal
  | LengthMismatch nat nat
  | OverfullInternal nat
  | StaleMax nat
  | UnbalancedDepths
  | SeparatorsUnsorted
  | SizeMismatch nat nat

text \<open>The nested \<open>walk\<close> and its loop over the children; \<open>ptr_eq\<close> is \<open>Row::ptr_eq\<close>, the identity of
  row handles.\<close>

fun walk :: "('a \<Rightarrow> 'a \<Rightarrow> bool) \<Rightarrow> ('a \<Rightarrow> 'a \<Rightarrow> ordering option) \<Rightarrow> bool \<Rightarrow> 'a bnode \<Rightarrow> (invariant_error + nat \<times> nat) option"
  and walk_children :: "('a \<Rightarrow> 'a \<Rightarrow> bool) \<Rightarrow> ('a \<Rightarrow> 'a \<Rightarrow> ordering option) \<Rightarrow> 'a list \<Rightarrow> nat \<Rightarrow> 'a bnode list \<Rightarrow>
      nat option \<Rightarrow> nat \<Rightarrow> (invariant_error + nat option \<times> nat) option" where
  "walk ptr_eq cmp is_root (Leaf keys) =
     (if \<not> is_root \<and> keys = [] then Some (Inl EmptyNonRootLeaf)
      else if length keys > MAX_NODE_SIZE then Some (Inl (OverfullLeaf (length keys)))
      else do {
        ok \<leftarrow> windows_all (\<lambda>a b. map_option (\<lambda>c. c = Less) (cmp a b)) keys;
        if \<not> ok then Some (Inl LeafUnsorted) else Some (Inr (0, length keys))
      })"
| "walk ptr_eq cmp is_root (Internal keys children) =
     (if children = [] then Some (Inl EmptyInternal)
      else if length keys \<noteq> length children then Some (Inl (LengthMismatch (length keys) (length children)))
      else if length children > MAX_NODE_SIZE then Some (Inl (OverfullInternal (length children)))
      else do {
        r \<leftarrow> walk_children ptr_eq cmp keys 0 children None 0;
        (case r of
           Inl e \<Rightarrow> Some (Inl e)
         | Inr (depth, tot) \<Rightarrow> do {
             ok \<leftarrow> windows_all (\<lambda>a b. map_option (\<lambda>c. c = Less) (cmp a b)) keys;
             if \<not> ok then Some (Inl SeparatorsUnsorted)
             else do { d \<leftarrow> depth; Some (Inr (d + 1, tot)) }
           })
      })"
| "walk_children ptr_eq cmp keys i [] depth tot = Some (Inr (depth, tot))"
| "walk_children ptr_eq cmp keys i (c # cs) depth tot = do {
     k \<leftarrow> vec_get keys i;
     m \<leftarrow> max_key c;
     if \<not> ptr_eq k m then Some (Inl (StaleMax i))
     else do {
       r \<leftarrow> walk ptr_eq cmp False c;
       (case r of
          Inl e \<Rightarrow> Some (Inl e)
        | Inr (d, n) \<Rightarrow>
            (case depth of
               None \<Rightarrow> walk_children ptr_eq cmp keys (i + 1) cs (Some d) (tot + n)
             | Some dd \<Rightarrow>
                 if dd \<noteq> d then Some (Inl UnbalancedDepths)
                 else walk_children ptr_eq cmp keys (i + 1) cs (Some dd) (tot + n)))
     }
   }"

definition check_invariants ::
  "('a \<Rightarrow> 'a \<Rightarrow> bool) \<Rightarrow> ('a \<Rightarrow> 'a \<Rightarrow> ordering option) \<Rightarrow> 'a btree \<Rightarrow> (invariant_error + unit) option" where
  "check_invariants ptr_eq cmp t = do {
     r \<leftarrow> walk ptr_eq cmp True (root t);
     (case r of
        Inl e \<Rightarrow> Some (Inl e)
      | Inr (_, cnt) \<Rightarrow>
          if cnt \<noteq> tsize t then Some (Inl (SizeMismatch (tsize t) cnt)) else Some (Inr ()))
   }"

section \<open>The invariant\<close>

fun inorder :: "'a bnode \<Rightarrow> 'a list" where
  "inorder (Leaf ks) = ks"
| "inorder (Internal ks cs) = concat (map inorder cs)"

definition max_of :: "'a bnode \<Rightarrow> 'a" where
  "max_of n = last (node_keys n)"

text \<open>\<open>node_ok d n\<close>: all leaves at depth \<open>d\<close>, no empty node, occupancy at most
  \<open>MAX_NODE_SIZE\<close>, and every separator is the maximum of its child.\<close>

fun node_ok :: "nat \<Rightarrow> 'a bnode \<Rightarrow> bool" where
  "node_ok d (Leaf ks) = (d = 0 \<and> ks \<noteq> [] \<and> length ks \<le> MAX_NODE_SIZE)"
| "node_ok d (Internal ks cs) = (0 < d \<and> cs \<noteq> [] \<and> length cs \<le> MAX_NODE_SIZE \<and> ks = map max_of cs \<and>
     (\<forall>c\<in>set cs. node_ok (d - 1) c))"

definition root_ok :: "nat \<Rightarrow> 'a bnode \<Rightarrow> bool" where
  "root_ok d n \<longleftrightarrow> node_ok d n \<or> (d = 0 \<and> n = Leaf [])"

abbreviation seq_of :: "'a bnode list \<Rightarrow> 'a list" where
  "seq_of cs \<equiv> concat (map inorder cs)"

lemma max_of_simps [simp]: "max_of (Leaf ks) = last ks" "max_of (Internal ks cs) = last ks"
  by (simp_all add: max_of_def)

lemma node_ok_max:
  "node_ok d n \<Longrightarrow> inorder n \<noteq> [] \<and> node_keys n \<noteq> [] \<and> last (inorder n) = max_of n"
proof (induction n arbitrary: d)
  case (Internal ks cs)
  then have cs: "cs \<noteq> []" "ks = map max_of cs" and l: "node_ok (d - 1) (last cs)" by auto
  have IH: "inorder (last cs) \<noteq> []" "last (inorder (last cs)) = max_of (last cs)"
    using Internal.IH [of "last cs"] l cs by auto
  have "seq_of (butlast cs @ [last cs]) = seq_of (butlast cs) @ inorder (last cs)" by simp
  then have split: "seq_of cs = seq_of (butlast cs) @ inorder (last cs)" using cs by simp
  show ?case unfolding inorder.simps split
    using cs IH by (simp add: last_map)
qed simp

lemma node_ok_max_in: "node_ok d n \<Longrightarrow> max_of n \<in> set (inorder n)"
  using node_ok_max last_in_set by metis

lemma node_ok_max_key [simp]: "node_ok d n \<Longrightarrow> max_key n = Some (max_of n)"
  using node_ok_max [of d n] by (simp add: max_key_def max_of_def)

lemma node_ok_not_empty: "node_ok d n \<Longrightarrow> \<not> is_empty_node n"
  by (cases n) auto

lemma node_ok_keys_le: "node_ok d n \<Longrightarrow> length (node_keys n) \<le> MAX_NODE_SIZE"
  by (cases n) auto

lemma nth_seq_of:
  assumes "i < length cs"
  shows "seq_of cs = seq_of (take i cs) @ inorder (cs ! i) @ seq_of (drop (Suc i) cs)"
  using arg_cong [OF id_take_nth_drop [OF assms], of seq_of] by simp

section \<open>Searches find the key's place\<close>

text \<open>\<open>less_all\<close> and \<open>greater_all\<close>: a list lies entirely on one side of a key.\<close>

definition less_all :: "('a \<Rightarrow> 'a \<Rightarrow> ordering option) \<Rightarrow> 'a \<Rightarrow> 'a list \<Rightarrow> bool" where
  "less_all cmp x xs = (\<forall>y\<in>set xs. cmp y x = Some Less)"

definition greater_all :: "('a \<Rightarrow> 'a \<Rightarrow> ordering option) \<Rightarrow> 'a \<Rightarrow> 'a list \<Rightarrow> bool" where
  "greater_all cmp x xs = (\<forall>y\<in>set xs. cmp y x = Some Greater)"

lemma side_all_simps [simp]:
  "less_all cmp x []" "greater_all cmp x []"
  "less_all cmp x (y # ys) \<longleftrightarrow> cmp y x = Some Less \<and> less_all cmp x ys"
  "greater_all cmp x (y # ys) \<longleftrightarrow> cmp y x = Some Greater \<and> greater_all cmp x ys"
  "less_all cmp x (ys @ zs) \<longleftrightarrow> less_all cmp x ys \<and> less_all cmp x zs"
  "greater_all cmp x (ys @ zs) \<longleftrightarrow> greater_all cmp x ys \<and> greater_all cmp x zs"
  by (auto simp: less_all_def greater_all_def)

lemma below_eq_less_all: "below cmp x xs = xs \<Longrightarrow> less_all cmp x xs"
  by (simp add: below_def less_all_def filter_id_conv)

lemma above_eq_greater_all: "above cmp x xs = xs \<Longrightarrow> greater_all cmp x xs"
  by (simp add: above_def greater_all_def filter_id_conv)

text \<open>The abstract operations act inside the part of a list that is not on one side of the key.\<close>

lemma splice_ops:
  assumes "less_all cmp x A" "greater_all cmp x B"
  shows "ins_by cmp x (A @ M @ B) = A @ ins_by cmp x M @ B"
    and "del_by cmp x (A @ M @ B) = A @ del_by cmp x M @ B"
    and "get_by cmp x (A @ M @ B) = get_by cmp x M"
proof -
  have A: "below cmp x A = A" "above cmp x A = []" "get_by cmp x A = None"
    using assms(1) by (auto simp: less_all_def intro: below_all above_none get_by_none)
  have B: "below cmp x B = []" "above cmp x B = B" "get_by cmp x B = None"
    using assms(2) by (auto simp: greater_all_def intro: above_all below_none get_by_none)
  show "ins_by cmp x (A @ M @ B) = A @ ins_by cmp x M @ B"
    and "del_by cmp x (A @ M @ B) = A @ del_by cmp x M @ B"
    and "get_by cmp x (A @ M @ B) = get_by cmp x M"
    by (simp_all add: ins_by_def del_by_def get_by_append A B split: option.split)
qed

lemma splice_hit:
  assumes "less_all cmp x A" "greater_all cmp x B" "cmp k x = Some Equal"
  shows "ins_by cmp x (A @ k # B) = A @ x # B" "del_by cmp x (A @ k # B) = A @ B"
    "get_by cmp x (A @ k # B) = Some k"
  using splice_ops [OF assms(1,2), of "[k]"] assms(3)
  by (simp_all add: ins_by_def del_by_def get_by_def)

lemma splice_miss:
  assumes "less_all cmp x A" "greater_all cmp x B"
  shows "ins_by cmp x (A @ B) = A @ x # B" "del_by cmp x (A @ B) = A @ B" "get_by cmp x (A @ B) = None"
  using splice_ops [OF assms, of "[]"] by (simp_all add: ins_by_def del_by_def get_by_def)

context comparator_on
begin

lemma search_loop_correct:
  assumes "sorted_by cmp keys" "set keys \<subseteq> D" "x \<in> D" "lo \<le> hi" "hi \<le> length keys"
    and "less_all cmp x (take lo keys)" "greater_all cmp x (drop hi keys)"
  shows "(\<exists>i. search_loop cmp keys x lo hi = Some (Found i) \<and> i < length keys \<and>
            less_all cmp x (take i keys) \<and> cmp (keys ! i) x = Some Equal \<and> greater_all cmp x (drop (Suc i) keys)) \<or>
         (\<exists>i. search_loop cmp keys x lo hi = Some (InsertAt i) \<and> i \<le> length keys \<and>
            less_all cmp x (take i keys) \<and> greater_all cmp x (drop i keys))"
  using assms(4-)
proof (induction "hi - lo" arbitrary: lo hi rule: less_induct)
  case less
  show ?case
  proof (cases "lo < hi")
    case False
    then have "search_loop cmp keys x lo hi = Some (InsertAt lo)"
      by (simp add: search_loop.simps [of cmp keys x lo hi])
    with False show ?thesis using less.prems by auto
  next
    case True
    define mid where "mid = (lo + hi) div 2"
    have mid: "lo \<le> mid" "mid < hi" "mid < length keys" using True less.prems by (auto simp: mid_def)
    have sp: "sorted_by cmp (take mid keys @ keys ! mid # drop (Suc mid) keys)"
        "set (take mid keys @ keys ! mid # drop (Suc mid) keys) \<subseteq> D"
      using assms mid by (simp_all only: id_take_nth_drop [symmetric])
    have kD: "keys ! mid \<in> D" using mid assms(2) by (auto simp: subset_iff)
    have lessI: "less_all cmp x (take mid keys)" if "cmp (keys ! mid) x \<noteq> Some Greater"
      using sorted_split_below(1) [OF sp assms(3) that] by (rule below_eq_less_all)
    have greaterI: "greater_all cmp x (drop (Suc mid) keys)" if "cmp (keys ! mid) x \<noteq> Some Less"
      using sorted_split_above(2) [OF sp assms(3) that] by (rule above_eq_greater_all)
    have unf: "search_loop cmp keys x lo hi = (do { c \<leftarrow> cmp (keys ! mid) x;
        (case c of Less \<Rightarrow> search_loop cmp keys x (mid + 1) hi
         | Greater \<Rightarrow> search_loop cmp keys x lo mid | Equal \<Rightarrow> Some (Found mid)) })"
      using True mid by (simp add: search_loop.simps [of cmp keys x lo hi] mid_def [symmetric])
    from kD assms(3) show ?thesis
    proof (cases rule: cmp_cases)
      case Less
      have "less_all cmp x (take (mid + 1) keys)"
        using lessI Less mid by (simp add: take_Suc_conv_app_nth)
      then show ?thesis using less.hyps [of hi "mid + 1"] less.prems mid Less by (simp add: unf)
    next
      case Equal
      then show ?thesis using lessI greaterI mid by (simp add: unf)
    next
      case Greater
      have "greater_all cmp x (drop mid keys)"
        using greaterI Greater mid by (simp add: Cons_nth_drop_Suc [symmetric])
      then show ?thesis using less.hyps [of mid lo] less.prems mid Greater by (simp add: unf)
    qed
  qed
qed

lemma search_cases [consumes 3, case_names Found InsertAt]:
  assumes "sorted_by cmp keys" "set keys \<subseteq> D" "x \<in> D"
  obtains A k B where "keys = A @ k # B" "search cmp keys x = Some (Found (length A))"
    "less_all cmp x A" "cmp k x = Some Equal" "greater_all cmp x B"
  | A B where "keys = A @ B" "search cmp keys x = Some (InsertAt (length A))"
    "less_all cmp x A" "greater_all cmp x B"
proof -
  have "(\<exists>i. search cmp keys x = Some (Found i) \<and> i < length keys \<and>
            less_all cmp x (take i keys) \<and> cmp (keys ! i) x = Some Equal \<and> greater_all cmp x (drop (Suc i) keys)) \<or>
         (\<exists>i. search cmp keys x = Some (InsertAt i) \<and> i \<le> length keys \<and>
            less_all cmp x (take i keys) \<and> greater_all cmp x (drop i keys))"
    using search_loop_correct [OF assms, of 0 "length keys"] by (simp add: search_def)
  then show thesis
  proof (elim disjE exE conjE)
    fix i assume "search cmp keys x = Some (Found i)" "i < length keys" "less_all cmp x (take i keys)"
      "cmp (keys ! i) x = Some Equal" "greater_all cmp x (drop (Suc i) keys)"
    then show thesis using that(1) [of "take i keys" "keys ! i" "drop (Suc i) keys"]
      by (simp add: id_take_nth_drop [symmetric] min_def)
  next
    fix i assume "search cmp keys x = Some (InsertAt i)" "i \<le> length keys" "less_all cmp x (take i keys)"
      "greater_all cmp x (drop i keys)"
    then show thesis using that(2) [of "take i keys" "drop i keys"] by (simp add: min_def)
  qed
qed

text \<open>A lookup key splits a sorted list in at most three parts; what that says of the abstract
  operations.\<close>

lemma get_by_hit:
  assumes "sorted_by cmp xs" "set xs \<subseteq> D" "x \<in> D"
  shows "length (ins_by cmp x xs) = length xs + (if get_by cmp x xs = None then 1 else 0)"
    and "length xs = length (del_by cmp x xs) + (if get_by cmp x xs = None then 0 else 1)"
    and "get_by cmp x xs = None \<Longrightarrow> del_by cmp x xs = xs"
  using assms
  by (cases rule: search_cases; simp add: splice_hit splice_miss)+

lemma sorted_maxes:
  "(\<And>c. c \<in> set cs \<Longrightarrow> max_of c \<in> set (inorder c)) \<Longrightarrow> sorted_by cmp (seq_of cs) \<Longrightarrow>
   sorted_by cmp (map max_of cs)"
  by (induction cs) (auto simp: sorted_by_append)

lemma lower_bound_eq:
  assumes "sorted_by cmp keys" "set keys \<subseteq> D" "x \<in> D"
  shows "lower_bound cmp keys x = Some (length (takeWhile (\<lambda>k. cmp k x = Some Less) keys))"
  unfolding lower_bound_def
proof (rule bsearch_full)
  show "map_option (\<lambda>c. c = Less) (cmp k x) = Some (cmp k x = Some Less)" if "k \<in> set keys" for k
    using that assms cmp_total [of k x] by auto
  show "cmp (keys ! i) x = Some Less" if "i < j" "j < length keys" "cmp (keys ! j) x = Some Less" for i j
    using that assms cmp_less_trans [of "keys ! i" "keys ! j" x] sorted_by_nth [of cmp keys i j]
    by (auto simp: subset_iff)
qed simp

text \<open>Everything in a node is at most its maximum.\<close>

lemma max_or_less:
  assumes "node_ok d n" "sorted_by cmp (inorder n)" "y \<in> set (inorder n)"
  shows "y = max_of n \<or> cmp y (max_of n) = Some Less"
proof -
  define zs where "zs = butlast (inorder n)"
  have split: "inorder n = zs @ [max_of n]"
    unfolding zs_def using node_ok_max [OF assms(1)] append_butlast_last_id [of "inorder n"] by simp
  then show ?thesis using assms(2-) by (auto simp: sorted_by_append)
qed

lemma le_max_of:
  assumes "node_ok d n" "sorted_by cmp (inorder n)" "set (inorder n) \<subseteq> D" "y \<in> set (inorder n)"
  shows "cmp y (max_of n) \<noteq> Some Greater"
  using max_or_less [OF assms(1,2,4)] assms(3,4) cmp_refl [of "max_of n"] by auto

text \<open>The lower bound over the separators splits the subtree: smaller keys left of it, greater keys
  right of the child it names.\<close>

lemma lower_bound_children:
  assumes ok: "\<forall>c\<in>set cs. node_ok d c" and srt: "sorted_by cmp (seq_of cs)"
    and D: "set (seq_of cs) \<subseteq> D" "x \<in> D"
  obtains i where "lower_bound cmp (map max_of cs) x = Some i" "i \<le> length cs"
    "less_all cmp x (seq_of (take i cs))"
    "i < length cs \<Longrightarrow> greater_all cmp x (seq_of (drop (Suc i) cs))"
proof -
  let ?q = "\<lambda>k. cmp k x = Some Less"
  have max_in: "max_of c \<in> set (inorder c)" if "c \<in> set cs" for c using ok that node_ok_max_in by blast
  have maxes: "sorted_by cmp (map max_of cs)" "set (map max_of cs) \<subseteq> D"
    using sorted_maxes [OF max_in srt] max_in D by auto
  define i where "i = length (takeWhile ?q (map max_of cs))"
  have i: "lower_bound cmp (map max_of cs) x = Some i" "i \<le> length cs"
    using lower_bound_eq [OF maxes D(2)] length_takeWhile_le [of ?q "map max_of cs"] by (auto simp: i_def)
  have left: "less_all cmp x (seq_of (take i cs))"
    unfolding less_all_def
  proof
    fix y assume "y \<in> set (seq_of (take i cs))"
    then obtain c where c: "c \<in> set (take i cs)" "y \<in> set (inorder c)" by auto
    have "takeWhile ?q (map max_of cs) = map max_of (take i cs)"
      using takeWhile_eq_take [of ?q "map max_of cs"] unfolding i_def [symmetric] by (simp add: take_map)
    with c have "max_of c \<in> set (takeWhile ?q (map max_of cs))" by simp
    then have lt: "cmp (max_of c) x = Some Less" by (rule set_takeWhileD [THEN conjunct2])
    have cin: "c \<in> set cs" using c(1) by (rule in_set_takeD)
    then obtain k where "k < length cs" "c = cs ! k" by (metis in_set_conv_nth)
    then have "sorted_by cmp (inorder c)"
      using srt nth_seq_of [of k cs] by (simp add: sorted_by_append)
    moreover have cD: "set (inorder c) \<subseteq> D" using D(1) cin by auto
    ultimately have "cmp y (max_of c) \<noteq> Some Greater" using le_max_of ok cin c(2) by blast
    then show "cmp y x = Some Less" using cmp_le_less_trans [of y "max_of c" x] lt cD c(2) D(2) max_in [OF cin] by blast
  qed
  have right: "greater_all cmp x (seq_of (drop (Suc i) cs))" if len: "i < length cs"
    unfolding greater_all_def
  proof
    fix y assume y: "y \<in> set (seq_of (drop (Suc i) cs))"
    have "\<not> ?q (map max_of cs ! i)" using len unfolding i_def
      by (intro nth_length_takeWhile) simp
    then have "cmp (max_of (cs ! i)) x \<noteq> Some Less" using len by simp
    moreover have m: "max_of (cs ! i) \<in> set (inorder (cs ! i))" using max_in len by simp
    have "cmp (max_of (cs ! i)) y = Some Less"
      using srt nth_seq_of [OF len] m y by (auto simp: sorted_by_append)
    moreover have "max_of (cs ! i) \<in> D" "y \<in> D" using D(1) m y nth_seq_of [OF len] by auto
    ultimately show "cmp y x = Some Greater"
      using cmp_gt_iff [of x "max_of (cs ! i)"] cmp_le_less_trans [of x "max_of (cs ! i)" y]
        cmp_gt_iff [of y x] D(2) by auto
  qed
  show thesis using that [OF i left right] by blast
qed

lemma child_index_children:
  assumes ok: "\<forall>c\<in>set cs. node_ok d c" and srt: "sorted_by cmp (seq_of cs)"
    and D: "set (seq_of cs) \<subseteq> D" "x \<in> D" and ne: "cs \<noteq> []"
  obtains i where "child_index cmp (map max_of cs) x = Some i" "i < length cs"
    "less_all cmp x (seq_of (take i cs))" "greater_all cmp x (seq_of (drop (Suc i) cs))"
proof -
  obtain i where i: "lower_bound cmp (map max_of cs) x = Some i" "i \<le> length cs"
    "less_all cmp x (seq_of (take i cs))"
    "i < length cs \<Longrightarrow> greater_all cmp x (seq_of (drop (Suc i) cs))"
    using lower_bound_children [OF ok srt D] by blast
  have ci: "child_index cmp (map max_of cs) x = Some (if i = length cs then length cs - 1 else i)"
    using i(1) ne by (simp add: child_index_def lower_bound_def)
  show thesis
  proof (cases "i = length cs")
    case True
    then have "seq_of cs = seq_of (take (length cs - 1) cs) @ inorder (cs ! (length cs - 1))"
      using nth_seq_of [of "length cs - 1" cs] ne by simp
    then have "less_all cmp x (seq_of (take (length cs - 1) cs))" using i(3) True by simp
    then show thesis using that [of "length cs - 1"] ci True ne by simp
  next
    case False
    then show thesis using that [of i] ci i by simp
  qed
qed

section \<open>Lookup\<close>

lemma seq_child:
  assumes "sorted_by cmp (seq_of cs)" "set (seq_of cs) \<subseteq> D" "i < length cs"
  shows "sorted_by cmp (inorder (cs ! i))" "set (inorder (cs ! i)) \<subseteq> D"
  using assms(1,2) unfolding nth_seq_of [OF assms(3)] by (auto simp: sorted_by_append)

lemma find_correct:
  "root_ok d n \<Longrightarrow> sorted_by cmp (inorder n) \<Longrightarrow> set (inorder n) \<subseteq> D \<Longrightarrow> x \<in> D \<Longrightarrow>
   find cmp n x = Some (get_by cmp x (inorder n))"
proof (induction n arbitrary: d)
  case (Leaf keys)
  have "sorted_by cmp keys" "set keys \<subseteq> D" "x \<in> D" using Leaf by simp_all
  then show ?case by (cases rule: search_cases) (auto simp: splice_hit splice_miss)
next
  case (Internal keys cs)
  have cs: "cs \<noteq> []" "keys = map max_of cs" "\<forall>c\<in>set cs. node_ok (d - 1) c"
    using Internal.prems by (auto simp: root_ok_def)
  have srt: "sorted_by cmp (seq_of cs)" "set (seq_of cs) \<subseteq> D" using Internal.prems by simp_all
  obtain i where i: "child_index cmp (map max_of cs) x = Some i" "i < length cs"
    "less_all cmp x (seq_of (take i cs))" "greater_all cmp x (seq_of (drop (Suc i) cs))"
    using child_index_children [OF cs(3) srt Internal.prems(4) cs(1)] by blast
  have "find cmp (cs ! i) x = Some (get_by cmp x (inorder (cs ! i)))"
    using Internal.IH [of "cs ! i" "d - 1"] i(2) cs(3) seq_child [OF srt i(2)] Internal.prems(4)
    by (simp add: root_ok_def)
  then show ?case
    using cs i splice_ops(3) [OF i(3,4), of "inorder (cs ! i)"] nth_seq_of [OF i(2)] by simp
qed

section \<open>Insertion\<close>

text \<open>What an insertion into a subtree of depth \<open>d\<close> with contents \<open>xs\<close> returns.\<close>

definition set_post :: "nat \<Rightarrow> 'a \<Rightarrow> 'a list \<Rightarrow> 'a bnode \<times> 'a insert_result \<Rightarrow> bool" where
  "set_post d x xs p = (case p of (n, r) \<Rightarrow> node_ok d n \<and> (case r of
       Existed \<Rightarrow> inorder n = ins_by cmp x xs \<and> get_by cmp x xs \<noteq> None
     | Inserted \<Rightarrow> inorder n = ins_by cmp x xs \<and> get_by cmp x xs = None
     | Split right \<Rightarrow> node_ok d right \<and> inorder n @ inorder right = ins_by cmp x xs \<and> get_by cmp x xs = None))"

lemma leaf_set_post:
  assumes "length keys \<le> MAX_NODE_SIZE" "sorted_by cmp keys" "set keys \<subseteq> D" "x \<in> D"
  shows "\<exists>p. node_set cmp (Leaf keys) x = Some p \<and> set_post 0 x keys p"
  using assms(2-)
proof (cases rule: search_cases)
  case (Found A k B)
  then show ?thesis using assms(1) by (simp add: set_post_def splice_hit)
next
  case (InsertAt A B)
  show ?thesis
  proof (cases "length keys < MAX_NODE_SIZE")
    case True
    then show ?thesis using InsertAt by (simp add: set_post_def splice_miss)
  next
    case False
    then have len: "Suc (length A + length B) = 65" using assms(1) InsertAt by (simp add: MAX_NODE_SIZE_def)
    define keys' where "keys' = A @ x # B"
    have len': "length keys' = 65" using len by (simp add: keys'_def)
    have "node_set cmp (Leaf keys) x = Some (Leaf (take 32 keys'), Split (Leaf (drop 32 keys')))"
      using InsertAt len len' by (simp add: MAX_NODE_SIZE_def keys'_def [symmetric])
    moreover have "set_post 0 x keys (Leaf (take 32 keys'), Split (Leaf (drop 32 keys')))"
      using InsertAt len' by (auto simp: set_post_def splice_miss MAX_NODE_SIZE_def keys'_def [symmetric])
    ultimately show ?thesis by blast
  qed
qed

end

text \<open>Replacing child \<open>i\<close> of a node by one or two subtrees keeps the separators in step.\<close>

lemma map_max_update: "i < length cs \<Longrightarrow> (map max_of cs)[i := max_of c] = map max_of (cs[i := c])"
  by (simp add: map_update)

lemma map_max_insert:
  "take i (map max_of cs) @ max_of c # drop i (map max_of cs) = map max_of (take i cs @ c # drop i cs)"
  by (simp add: take_map drop_map)

lemma set_list_update_subset_UNION:
  "i < length cs \<Longrightarrow> (\<forall>c\<in>set cs. P c) \<Longrightarrow> P c' \<Longrightarrow> \<forall>c\<in>set (cs[i := c']). P c"
  using set_update_subset_insert [of cs i c'] by blast

lemma seq_of_update: "i < length cs \<Longrightarrow>
    seq_of (cs[i := c]) = seq_of (take i cs) @ inorder c @ seq_of (drop (Suc i) cs)"
  by (simp add: upd_conv_take_nth_drop)

lemma split_internal_ok:
  assumes "\<forall>c\<in>set cs. node_ok d c" "length cs = Suc MAX_NODE_SIZE"
  shows "node_ok (Suc d) (Internal (take (length cs div 2) (map max_of cs)) (take (length cs div 2) cs))"
    and "node_ok (Suc d) (Internal (drop (length cs div 2) (map max_of cs)) (drop (length cs div 2) cs))"
  using assms by (auto simp: MAX_NODE_SIZE_def take_map drop_map dest: in_set_takeD in_set_dropD)

context comparator_on
begin

lemma node_set_correct:
  "root_ok d n \<Longrightarrow> sorted_by cmp (inorder n) \<Longrightarrow> set (inorder n) \<subseteq> D \<Longrightarrow> x \<in> D \<Longrightarrow>
   \<exists>p. node_set cmp n x = Some p \<and> set_post d x (inorder n) p"
proof (induction n arbitrary: d)
  case (Leaf keys)
  then have "d = 0" "length keys \<le> MAX_NODE_SIZE" by (auto simp: root_ok_def MAX_NODE_SIZE_def)
  then show ?case using leaf_set_post [of keys x] Leaf by simp
next
  case (Internal keys cs)
  have cs: "cs \<noteq> []" "keys = map max_of cs" "\<forall>c\<in>set cs. node_ok (d - 1) c" "0 < d" "length cs \<le> MAX_NODE_SIZE"
    using Internal.prems by (auto simp: root_ok_def)
  have srt: "sorted_by cmp (seq_of cs)" "set (seq_of cs) \<subseteq> D" using Internal.prems by simp_all
  obtain i where i: "child_index cmp (map max_of cs) x = Some i" "i < length cs"
    "less_all cmp x (seq_of (take i cs))" "greater_all cmp x (seq_of (drop (Suc i) cs))"
    using child_index_children [OF cs(3) srt Internal.prems(4) cs(1)] by blast
  have "root_ok (d - 1) (cs ! i)" using i(2) cs(3) by (simp add: root_ok_def)
  then obtain c' r where set: "node_set cmp (cs ! i) x = Some (c', r)" "set_post (d - 1) x (inorder (cs ! i)) (c', r)"
    using Internal.IH [of "cs ! i" "d - 1"] i(2) seq_child [OF srt i(2)] Internal.prems(4)
    by (metis nth_mem surj_pair)
  have c': "node_ok (d - 1) c'" using set(2) by (simp add: set_post_def)
  note ops = splice_ops [OF i(3,4), of "inorder (cs ! i)", folded nth_seq_of [OF i(2)]]
  define cs' where "cs' = cs[i := c']"
  have cs': "map max_of cs' = (map max_of cs)[i := max_of c']" "length cs' = length cs" "\<forall>c\<in>set cs'. node_ok (d - 1) c"
    unfolding cs'_def using set_list_update_subset_UNION [of i cs "node_ok (d - 1)" c'] i(2) c' cs(3)
    by (simp_all add: map_update)
  have unf: "node_set cmp (Internal keys cs) x = (case r of
        Existed \<Rightarrow> Some (Internal (map max_of cs') cs', Existed)
      | Inserted \<Rightarrow> Some (Internal (map max_of cs') cs', Inserted)
      | Split right \<Rightarrow> do {
          rmax \<leftarrow> max_key right;
          children'' \<leftarrow> vec_insert cs' (i + 1) right;
          keys'' \<leftarrow> vec_insert (map max_of cs') (i + 1) rmax;
          if length children'' > MAX_NODE_SIZE then
            let mid = length children'' div 2
            in Some (Internal (take mid keys'') (take mid children''),
                     Split (Internal (drop mid keys'') (drop mid children'')))
          else Some (Internal keys'' children'', Inserted)
        })"
    unfolding cs'(1) unfolding cs'_def using i cs(1,2) set(1) c' by simp
  have Existing: "inorder (Internal ks cs') = seq_of (take i cs) @ inorder c' @ seq_of (drop (Suc i) cs)" for ks
    unfolding cs'_def inorder.simps by (rule seq_of_update [OF i(2)])
  show ?case
  proof (cases r)
    case (Split right)
    define cs'' where "cs'' = take (i + 1) cs' @ right # drop (i + 1) cs'"
    have right: "node_ok (d - 1) right" "inorder c' @ inorder right = ins_by cmp x (inorder (cs ! i))"
      "get_by cmp x (inorder (cs ! i)) = None" using set(2) Split by (simp_all add: set_post_def)
    have all: "\<forall>c\<in>set cs''. node_ok (d - 1) c"
      unfolding cs''_def using cs'(3) right(1) by (auto dest: in_set_takeD in_set_dropD)
    have len: "length cs'' = Suc (length cs)" using i(2) cs'(2) by (simp add: cs''_def)
    have "take (i + 1) cs' = take i cs @ [c']" "drop (i + 1) cs' = drop (Suc i) cs"
      using i(2) by (simp_all add: cs'_def take_Suc_conv_app_nth)
    then have contents: "seq_of cs'' = ins_by cmp x (seq_of cs)"
      using ops(1) right(2) [symmetric] by (simp add: cs''_def)
    have run: "node_set cmp (Internal keys cs) x =
        (if length cs'' > MAX_NODE_SIZE then
           Some (Internal (take (length cs'' div 2) (map max_of cs'')) (take (length cs'' div 2) cs''),
             Split (Internal (drop (length cs'' div 2) (map max_of cs'')) (drop (length cs'' div 2) cs'')))
         else Some (Internal (map max_of cs'') cs'', Inserted))"
    proof -
      have "vec_insert cs' (i + 1) right = Some cs''"
        "vec_insert (map max_of cs') (i + 1) (max_of right) = Some (map max_of cs'')"
        unfolding cs''_def map_max_insert [symmetric] using i(2) cs'(2) by (simp_all only: vec_insert_le length_map)
      then show ?thesis unfolding unf Split using node_ok_max_key [OF right(1)] by (simp add: Let_def)
    qed
    show ?thesis
    proof (cases "length cs'' > MAX_NODE_SIZE")
      case True
      then have "length cs'' = Suc MAX_NODE_SIZE" using len cs(5) by simp
      from split_internal_ok [OF all this] have ok2:
        "node_ok d (Internal (take (length cs'' div 2) (map max_of cs'')) (take (length cs'' div 2) cs''))"
        "node_ok d (Internal (drop (length cs'' div 2) (map max_of cs'')) (drop (length cs'' div 2) cs''))"
        using cs(4) by simp_all
      have "seq_of (take (length cs'' div 2) cs'') @ seq_of (drop (length cs'' div 2) cs'') = ins_by cmp x (seq_of cs)"
        unfolding contents [symmetric] concat_append [symmetric] map_append [symmetric] append_take_drop_id ..
      then show ?thesis using True ok2 run right(3) ops(3) by (simp add: set_post_def)
    next
      case False
      have "cs'' \<noteq> []" by (simp add: cs''_def)
      then show ?thesis using False run all contents right(3) ops(3) cs(4)
        by (simp add: set_post_def)
    qed
  qed (use set(2) cs cs' ops unf Existing in \<open>auto simp: set_post_def\<close>)
qed

end

section \<open>Deletion\<close>

lemma node_ok_keys_children: "node_ok d (Internal ks cs) \<Longrightarrow> length ks = length cs"
  by simp

lemma remove_update: "i < length xs \<Longrightarrow>
    (take (Suc i) xs @ drop (Suc (Suc i)) xs)[i := y] = take i xs @ y # drop (Suc (Suc i)) xs"
  by (simp add: list_update_append take_Suc_conv_app_nth)

text \<open>Merging two siblings of the same depth whose sizes fit, given that a merge below works.\<close>

lemma try_merge_step:
  fixes cs :: "'a bnode list"
  assumes merge: "\<And>l r :: 'a bnode. node_ok d l \<Longrightarrow> node_ok d r \<Longrightarrow> length (node_keys l) + length (node_keys r) \<le> MAX_NODE_SIZE \<Longrightarrow>
      \<exists>n. merge_into l r = Some n \<and> node_ok d n \<and> inorder n = inorder l @ inorder r"
    and ok: "\<forall>c\<in>set cs. node_ok d c"
  shows "\<exists>cs' b. try_merge (map max_of cs) cs i = Some (map max_of cs', cs', b) \<and> (\<forall>c\<in>set cs'. node_ok d c) \<and>
    seq_of cs' = seq_of cs \<and> length cs' \<le> length cs \<and> (cs' = [] \<longleftrightarrow> cs = [])"
proof (cases "Suc i < length cs \<and> length (node_keys (cs ! i)) + length (node_keys (cs ! Suc i)) \<le> MAX_NODE_SIZE")
  case False
  then have "try_merge (map max_of cs) cs i = Some (map max_of cs, cs, False)"
    by (auto simp: try_merge.simps)
  with ok show ?thesis by blast
next
  case True
  then have i: "Suc i < length cs" "i < length cs" by simp_all
  then obtain n where n: "merge_into (cs ! i) (cs ! Suc i) = Some n" "node_ok d n"
    "inorder n = inorder (cs ! i) @ inorder (cs ! Suc i)"
    using merge [of "cs ! i" "cs ! Suc i"] True ok by auto
  define cs' where "cs' = take i cs @ n # drop (Suc (Suc i)) cs"
  have split: "cs = take i cs @ cs ! i # cs ! Suc i # drop (Suc (Suc i)) cs"
    using i by (simp add: Cons_nth_drop_Suc)
  have "try_merge (map max_of cs) cs i = Some (map max_of cs', cs', True)"
    using True n i remove_update [of i cs n] remove_update [of i "map max_of cs" "max_of n"]
    by (simp add: try_merge.simps cs'_def take_map drop_map)
  moreover have "\<forall>c\<in>set cs'. node_ok d c"
    unfolding cs'_def using ok n(2) by (auto dest: in_set_takeD in_set_dropD)
  moreover have "seq_of cs' = seq_of cs"
    using arg_cong [OF split, of seq_of] by (simp add: cs'_def n(3))
  moreover have "length cs' \<le> length cs" "cs' \<noteq> []" "cs \<noteq> []" using i by (auto simp: cs'_def)
  ultimately show ?thesis by blast
qed

lemma merge_into_correct:
  "node_ok d l \<Longrightarrow> node_ok d r \<Longrightarrow> length (node_keys l) + length (node_keys r) \<le> MAX_NODE_SIZE \<Longrightarrow>
   \<exists>n. merge_into l r = Some n \<and> node_ok d n \<and> inorder n = inorder l @ inorder r"
proof (induction d arbitrary: l r)
  case 0
  then show ?case by (cases l; cases r) auto
next
  case (Suc d)
  then obtain lk lc rk rc where lr: "l = Internal lk lc" "r = Internal rk rc" by (cases l; cases r) auto
  have ok: "lk = map max_of lc" "rk = map max_of rc" "lc \<noteq> []" "\<forall>c\<in>set (lc @ rc). node_ok d c"
    using Suc.prems by (auto simp: lr)
  obtain cs' b where m: "try_merge (map max_of (lc @ rc)) (lc @ rc) (length lc - 1) = Some (map max_of cs', cs', b)"
    "\<forall>c\<in>set cs'. node_ok d c" "seq_of cs' = seq_of (lc @ rc)" "length cs' \<le> length (lc @ rc)" "cs' \<noteq> []"
    using try_merge_step [OF Suc.IH ok(4), of "length lc - 1"] ok(3) by auto
  then show ?case using Suc.prems(3) ok by (simp add: lr)
qed

lemmas try_merge_correct = try_merge_step [OF merge_into_correct]

lemma merge_scan_correct:
  "\<forall>c\<in>set cs. node_ok d c \<Longrightarrow>
   \<exists>cs'. merge_scan (map max_of cs) cs js = Some (map max_of cs', cs') \<and> (\<forall>c\<in>set cs'. node_ok d c) \<and>
     seq_of cs' = seq_of cs \<and> length cs' \<le> length cs \<and> (cs' = [] \<longleftrightarrow> cs = [])"
proof (induction js arbitrary: cs)
  case (Cons j js)
  show ?case
  proof (cases "j < length cs \<and> length (node_keys (cs ! j)) \<le> MAX_NODE_SIZE div 2")
    case True
    then have ne: "\<not> is_empty_node (cs ! j)" using Cons.prems node_ok_not_empty [of d "cs ! j"] by simp
    obtain cs1 b where m: "try_merge (map max_of cs) cs j = Some (map max_of cs1, cs1, b)"
      "\<forall>c\<in>set cs1. node_ok d c" "seq_of cs1 = seq_of cs" "length cs1 \<le> length cs" "cs1 = [] \<longleftrightarrow> cs = []"
      using try_merge_correct [OF _ _ _ Cons.prems, of j] by auto
    obtain cs' where s: "merge_scan (map max_of cs1) cs1 js = Some (map max_of cs', cs')"
      "\<forall>c\<in>set cs'. node_ok d c" "seq_of cs' = seq_of cs1" "length cs' \<le> length cs1" "cs' = [] \<longleftrightarrow> cs1 = []"
      using Cons.IH [OF m(2)] by blast
    have "merge_scan (map max_of cs) cs (j # js) = Some (map max_of cs', cs')"
      using True ne m(1) s(1) by simp
    moreover have "seq_of cs' = seq_of cs" "length cs' \<le> length cs" "cs' = [] \<longleftrightarrow> cs = []"
      using m s by simp_all
    ultimately show ?thesis using s(2) by blast
  next
    case False
    then have "merge_scan (map max_of cs) cs (j # js) = merge_scan (map max_of cs) cs js"
      by auto
    then show ?thesis using Cons.IH [OF Cons.prems] by simp
  qed
qed auto

text \<open>A subtree may come back empty from a deletion; its parent drops it.\<close>

definition emptied :: "nat \<Rightarrow> 'a bnode \<Rightarrow> bool" where
  "emptied d n \<longleftrightarrow> (if d = 0 then n = Leaf [] else n = Internal [] [])"

lemma emptied_facts: "emptied d n \<Longrightarrow> is_empty_node n \<and> inorder n = [] \<and> node_keys n = []"
  by (auto simp: emptied_def split: if_splits)

text \<open>The merge scan after a deletion below child \<open>i\<close>.\<close>

lemma delete_scan:
  assumes ok: "\<forall>c\<in>set cs. node_ok d c" and i: "i < length cs" and c': "node_ok d c' \<or> emptied d c'"
  shows "\<exists>keys' cs'. (if \<not> is_empty_node c' then do { m \<leftarrow> max_key c'; vec_set (map max_of cs) i m }
         else Some (map max_of cs)) = Some keys' \<and>
      merge_scan keys' (cs[i := c']) (rev [i - 1..<i + 1]) = Some (map max_of cs', cs') \<and> (\<forall>c\<in>set cs'. node_ok d c) \<and> length cs' \<le> length cs \<and>
      seq_of cs' = seq_of (take i cs) @ inorder c' @ seq_of (drop (Suc i) cs)"
proof (cases "node_ok d c'")
  case True
  define cs1 where "cs1 = cs[i := c']"
  have "\<forall>c\<in>set cs1. node_ok d c"
    unfolding cs1_def by (rule set_list_update_subset_UNION [where P = "node_ok d"]) (use i ok True in auto)
  from merge_scan_correct [OF this, of "rev [i - 1..<i + 1]"]
  obtain cs' where s: "merge_scan (map max_of cs1) cs1 (rev [i - 1..<i + 1]) = Some (map max_of cs', cs')"
    "\<forall>c\<in>set cs'. node_ok d c" "seq_of cs' = seq_of cs1" "length cs' \<le> length cs1" by blast
  have "map max_of cs1 = (map max_of cs)[i := max_of c']" by (simp add: cs1_def map_update)
  then show ?thesis
    using s True i node_ok_not_empty [OF True] seq_of_update [OF i, of c']
    by (simp add: cs1_def [symmetric] del: upt_Suc) (simp add: cs1_def)
next
  case False
  then have e: "is_empty_node c'" "inorder c' = []" "node_keys c' = []" using c' emptied_facts by auto
  define cs1 where "cs1 = take i cs @ drop (Suc i) cs"
  have "\<forall>c\<in>set cs1. node_ok d c" unfolding cs1_def using ok by (auto dest: in_set_takeD in_set_dropD)
  from merge_scan_correct [OF this, of "rev [i - 1..<i]"]
  obtain cs' where s: "merge_scan (map max_of cs1) cs1 (rev [i - 1..<i]) = Some (map max_of cs', cs')"
    "\<forall>c\<in>set cs'. node_ok d c" "seq_of cs' = seq_of cs1" "length cs' \<le> length cs1" by blast
  have "rev [i - 1..<i + 1] = i # rev [i - 1..<i]" by simp
  moreover have "take i (map max_of cs) @ drop (Suc i) (map max_of cs) = map max_of cs1"
    by (simp add: cs1_def take_map drop_map)
  moreover have "take i (cs[i := c']) @ drop (Suc i) (cs[i := c']) = cs1" by (simp add: cs1_def)
  ultimately have "merge_scan (map max_of cs) (cs[i := c']) (rev [i - 1..<i + 1]) = Some (map max_of cs', cs')"
    using e i s(1) by simp
  then show ?thesis using s e by (auto simp: cs1_def)
qed

context comparator_on
begin

lemma node_delete_correct:
  "root_ok d n \<Longrightarrow> sorted_by cmp (inorder n) \<Longrightarrow> set (inorder n) \<subseteq> D \<Longrightarrow> x \<in> D \<Longrightarrow>
   \<exists>n'. node_delete cmp n x = Some (n', get_by cmp x (inorder n) \<noteq> None) \<and> (node_ok d n' \<or> emptied d n') \<and>
     inorder n' = del_by cmp x (inorder n)"
proof (induction n arbitrary: d)
  case (Leaf keys)
  then have d: "d = 0" "length keys \<le> MAX_NODE_SIZE" by (auto simp: root_ok_def MAX_NODE_SIZE_def)
  have "sorted_by cmp keys" "set keys \<subseteq> D" "x \<in> D" using Leaf by simp_all
  then show ?case
  proof (cases rule: search_cases)
    case (Found A k B)
    then show ?thesis using d by (auto simp: splice_hit emptied_def)
  next
    case (InsertAt A B)
    then show ?thesis using d by (auto simp: splice_miss emptied_def)
  qed
next
  case (Internal keys cs)
  have cs: "cs \<noteq> []" "keys = map max_of cs" "\<forall>c\<in>set cs. node_ok (d - 1) c" "0 < d" "length cs \<le> MAX_NODE_SIZE"
    using Internal.prems by (auto simp: root_ok_def)
  have srt: "sorted_by cmp (seq_of cs)" "set (seq_of cs) \<subseteq> D" using Internal.prems by simp_all
  obtain i where i: "lower_bound cmp (map max_of cs) x = Some i" "i \<le> length cs"
    "less_all cmp x (seq_of (take i cs))"
    "i < length cs \<Longrightarrow> greater_all cmp x (seq_of (drop (Suc i) cs))"
    using lower_bound_children [OF cs(3) srt Internal.prems(4)] by blast
  show ?case
  proof (cases "i = length cs")
    case True
    then have "node_delete cmp (Internal keys cs) x = Some (Internal keys cs, False)" using i cs by simp
    moreover have "get_by cmp x (seq_of cs) = None" "del_by cmp x (seq_of cs) = seq_of cs"
      using splice_miss [of cmp x "seq_of cs" "[]"] i(3) True by simp_all
    moreover have "node_ok d (Internal keys cs)" using Internal.prems(1) by (simp add: root_ok_def)
    ultimately show ?thesis by (intro exI [of _ "Internal keys cs"]) (simp del: node_delete.simps)
  next
    case False
    then have len: "i < length cs" using i(2) by simp
    note ops = splice_ops [OF i(3) i(4) [OF len], of "inorder (cs ! i)", folded nth_seq_of [OF len]]
    have "root_ok (d - 1) (cs ! i)" using len cs(3) by (simp add: root_ok_def)
    then obtain c' where c': "node_delete cmp (cs ! i) x = Some (c', get_by cmp x (inorder (cs ! i)) \<noteq> None)"
      "node_ok (d - 1) c' \<or> emptied (d - 1) c'" "inorder c' = del_by cmp x (inorder (cs ! i))"
      using Internal.IH [of "cs ! i" "d - 1"] len seq_child [OF srt len] Internal.prems(4) by auto
    obtain keys' cs' where k: "(if \<not> is_empty_node c' then do { m \<leftarrow> max_key c'; vec_set (map max_of cs) i m }
         else Some (map max_of cs)) = Some keys'"
      and s: "merge_scan keys' (cs[i := c']) (rev [i - 1..<i + 1]) = Some (map max_of cs', cs')" "\<forall>c\<in>set cs'. node_ok (d - 1) c" "length cs' \<le> length cs"
        "seq_of cs' = seq_of (take i cs) @ inorder c' @ seq_of (drop (Suc i) cs)"
      using delete_scan [OF cs(3) len c'(2)] by blast
    have "node_delete cmp (Internal keys cs) x =
        Some (Internal (map max_of cs') cs', get_by cmp x (inorder (cs ! i)) \<noteq> None)"
      using k s(1) c'(1) i(1) len cs(2) by (simp del: upt_Suc)
    moreover have "inorder (Internal (map max_of cs') cs') = del_by cmp x (seq_of cs)"
      using s(4) c'(3) ops(2) by simp
    moreover have "node_ok d (Internal (map max_of cs') cs') \<or> emptied d (Internal (map max_of cs') cs')"
      using s(2,3) cs(4,5) by (auto simp: emptied_def)
    ultimately show ?thesis
      using ops(3) by (intro exI [of _ "Internal (map max_of cs') cs'"]) (simp del: node_delete.simps)
  qed
qed

end

section \<open>The tree invariant and its operations\<close>

fun height :: "'a bnode \<Rightarrow> nat" where
  "height (Leaf _) = 0"
| "height (Internal _ []) = 1"
| "height (Internal _ (c # _)) = Suc (height c)"

lemma node_ok_height: "node_ok d n \<Longrightarrow> height n = d"
proof (induction n arbitrary: d rule: height.induct)
  case (3 ks c cs)
  then have "height c = d - 1" by simp
  with 3 show ?case by simp
qed auto

definition contents :: "'a btree \<Rightarrow> 'a list" where
  "contents t = inorder (root t)"

definition btree_ok :: "('a \<Rightarrow> 'a \<Rightarrow> ordering option) \<Rightarrow> 'a btree \<Rightarrow> bool" where
  "btree_ok cmp t \<longleftrightarrow> root_ok (height (root t)) (root t) \<and> sorted_by cmp (contents t) \<and>
     tsize t = length (contents t)"

lemma btree_okI:
  "root_ok d (root t) \<Longrightarrow> sorted_by cmp (contents t) \<Longrightarrow> tsize t = length (contents t) \<Longrightarrow> btree_ok cmp t"
  using node_ok_height by (fastforce simp: btree_ok_def root_ok_def)

lemma collapse_loop_ok:
  "node_ok d n \<Longrightarrow> node_ok (height (collapse_loop n)) (collapse_loop n) \<and> inorder (collapse_loop n) = inorder n"
proof (induction n arbitrary: d rule: collapse_loop.induct)
  case (1 ks c)
  then show ?case by auto
qed (auto simp: node_ok_height)

lemma collapse_root_ok:
  assumes "node_ok d n \<or> emptied d n"
  shows "root_ok (height (collapse_root n)) (collapse_root n) \<and> inorder (collapse_root n) = inorder n"
proof (cases "node_ok d n")
  case True
  define m where "m = collapse_loop n"
  have m: "node_ok (height m) m" "inorder m = inorder n" using collapse_loop_ok [OF True] by (simp_all add: m_def)
  then have "collapse_root n = m"
    unfolding collapse_root_def m_def [symmetric] by (cases m) (auto split: list.split)
  with m show ?thesis by (simp add: root_ok_def)
next
  case False
  with assms show ?thesis by (auto simp: emptied_def collapse_root_def root_ok_def split: if_splits)
qed

lemma btree_new_ok [simp]: "btree_ok cmp btree_new" "contents btree_new = []"
  by (simp_all add: btree_ok_def btree_new_def contents_def root_ok_def)

lemma btree_fork_id [simp]: "btree_fork t = t"
  by (simp add: btree_fork_def)

context comparator_on
begin

lemma btree_get_ok:
  assumes "btree_ok cmp t" "set (contents t) \<subseteq> D" "x \<in> D"
  shows "btree_get cmp t x = Some (get_by cmp x (contents t))"
    and "btree_has cmp t x = Some (get_by cmp x (contents t) \<noteq> None)"
  using assms find_correct [of "height (root t)" "root t" x]
  by (simp_all add: btree_get_def btree_has_def btree_ok_def contents_def)

lemma btree_add_ok:
  assumes "btree_ok cmp t" "set (contents t) \<subseteq> D" "x \<in> D"
  shows "\<exists>t'. btree_add cmp t x = Some (t', get_by cmp x (contents t) = None) \<and> btree_ok cmp t' \<and>
    contents t' = ins_by cmp x (contents t)"
proof -
  define d where "d = height (root t)"
  have t: "root_ok d (root t)" "sorted_by cmp (contents t)" "tsize t = length (contents t)"
    using assms by (simp_all add: btree_ok_def d_def)
  then obtain n r where n: "node_set cmp (root t) x = Some (n, r)" "set_post d x (contents t) (n, r)"
    using node_set_correct [of d "root t" x] assms by (auto simp: contents_def)
  note len = get_by_hit(1) [OF t(2) assms(2,3)] and srt = sorted_ins_by [OF t(2) assms(2,3)]
  have nok: "node_ok d n" using n(2) by (simp add: set_post_def)
  show ?thesis
  proof (cases r)
    case (Split right)
    define t' where "t' = \<lparr> root = Internal [max_of n, max_of right] [n, right], tsize = tsize t + 1 \<rparr>"
    have r: "node_ok d right" "inorder n @ inorder right = ins_by cmp x (contents t)" "get_by cmp x (contents t) = None"
      using n(2) Split by (simp_all add: set_post_def)
    have "btree_add cmp t x = Some (t', True)"
      using n(1) Split node_ok_max_key [OF nok] node_ok_max_key [OF r(1)] by (simp add: btree_add_def t'_def)
    moreover have c: "contents t' = ins_by cmp x (contents t)" using r(2) by (simp add: t'_def contents_def)
    moreover have "btree_ok cmp t'"
    proof (rule btree_okI [of "Suc d"])
      show "root_ok (Suc d) (root t')" using nok r(1) by (simp add: t'_def root_ok_def MAX_NODE_SIZE_def)
      show "sorted_by cmp (contents t')" "tsize t' = length (contents t')"
        using srt len t(3) r(3) by (simp_all add: c) (simp add: t'_def)
    qed
    ultimately show ?thesis using r(3) by simp
  next
    case Existed
    then show ?thesis using n nok srt len t(3)
      by (auto simp: btree_add_def set_post_def contents_def root_ok_def intro!: btree_okI [of d])
  next
    case Inserted
    then show ?thesis using n nok srt len t(3)
      by (auto simp: btree_add_def set_post_def contents_def root_ok_def intro!: btree_okI [of d])
  qed
qed

lemma btree_delete_ok:
  assumes "btree_ok cmp t" "set (contents t) \<subseteq> D" "x \<in> D"
  shows "\<exists>t'. btree_delete cmp t x = Some (t', get_by cmp x (contents t) \<noteq> None) \<and> btree_ok cmp t' \<and>
    contents t' = del_by cmp x (contents t)"
proof -
  define d where "d = height (root t)"
  have t: "root_ok d (root t)" "sorted_by cmp (contents t)" "tsize t = length (contents t)"
    using assms by (simp_all add: btree_ok_def d_def)
  then obtain n where n: "node_delete cmp (root t) x = Some (n, get_by cmp x (contents t) \<noteq> None)"
    "node_ok d n \<or> emptied d n" "inorder n = del_by cmp x (contents t)"
    using node_delete_correct [of d "root t" x] assms by (auto simp: contents_def)
  note len = get_by_hit(2,3) [OF t(2) assms(2,3)] and srt = sorted_del_by [OF t(2) assms(2,3)]
  show ?thesis
  proof (cases "get_by cmp x (contents t) = None")
    case True
    have same: "inorder n = contents t" using n(3) len(2) [OF True] by simp
    have "root_ok d n"
    proof (cases "node_ok d n")
      case False
      then have "emptied d n" using n(2) by simp
      then have "contents t = []" using emptied_facts same by metis
      then have "d = 0" using t(1) node_ok_max [of d "root t"] by (auto simp: root_ok_def contents_def)
      then show ?thesis using \<open>emptied d n\<close> by (simp add: emptied_def root_ok_def)
    qed (simp add: root_ok_def)
    then have "btree_ok cmp \<lparr> root = n, tsize = tsize t \<rparr>"
      using t same by (intro btree_okI [of d]) (simp_all add: contents_def)
    then show ?thesis using True n(1,3) by (simp add: btree_delete_def contents_def)
  next
    case False
    then have ts: "tsize t = Suc (length (del_by cmp x (contents t)))" using t(3) len(1) by simp
    have "btree_ok cmp \<lparr> root = collapse_root n, tsize = tsize t - 1 \<rparr>"
      using collapse_root_ok [OF n(2)] n(3) ts srt by (simp add: btree_ok_def contents_def)
    then show ?thesis using False n(1,3) ts collapse_root_ok [OF n(2)] by (simp add: btree_delete_def contents_def)
  qed
qed

end

section \<open>Bulk load\<close>

lemma chunks_facts: "0 < n \<Longrightarrow> concat (chunks n xs) = xs \<and> (\<forall>c\<in>set (chunks n xs). c \<noteq> [] \<and> length c \<le> n)"
proof (induction n xs rule: chunks.induct)
  case (1 n xs)
  then show ?case by (cases "xs = []") (auto simp: chunks.simps [of n xs] chunks.simps [of n "[]"])
qed

lemma those_map_Some: "(\<And>x. x \<in> set xs \<Longrightarrow> f x = Some (g x)) \<Longrightarrow> those (map f xs) = Some (map g xs)"
  by (induction xs) auto

lemma parent_of_ok:
  assumes "\<forall>c\<in>set cs. node_ok d c"
  shows "parent_of cs = Some (Internal (map max_of cs) cs)"
proof -
  have "those (map max_key cs) = Some (map max_of cs)"
    by (rule those_map_Some) (use assms node_ok_max_key in blast)
  then show ?thesis by (simp add: parent_of_def)
qed

lemma seq_of_parents: "concat (map inorder (map (\<lambda>cs. Internal (map max_of cs) cs) css)) = seq_of (concat css)"
  by (induction css) auto

lemma build_levels_ok:
  "\<forall>c\<in>set level. node_ok d c \<Longrightarrow> level \<noteq> [] \<Longrightarrow>
   \<exists>n e. build_levels level = Some n \<and> node_ok e n \<and> inorder n = seq_of level"
proof (induction level arbitrary: d rule: build_levels.induct)
  case (1 level)
  show ?case
  proof (cases "length level > 1")
    case False
    with "1.prems" obtain c where c: "level = [c]" by (cases level) auto
    have "build_levels level = Some c" unfolding c by (subst build_levels.simps) simp
    then show ?thesis using "1.prems" c by auto
  next
    case True
    let ?f = "\<lambda>cs :: 'a bnode list. Internal (map max_of cs) cs"
    define css where "css = chunks MAX_NODE_SIZE level"
    have css: "concat css = level" "\<forall>c\<in>set css. c \<noteq> [] \<and> length c \<le> MAX_NODE_SIZE"
      using chunks_facts [of MAX_NODE_SIZE level] by (simp_all add: css_def MAX_NODE_SIZE_def)
    have ok: "\<forall>c\<in>set cs. node_ok d c" if "cs \<in> set css" for cs
      using "1.prems"(1) that unfolding css(1) [symmetric] by auto
    have lvl: "those (map parent_of css) = Some (map ?f css)"
      using ok parent_of_ok by (intro those_map_Some) blast
    have "\<forall>c\<in>set (map ?f css). node_ok (Suc d) c" using ok css(2) by auto
    moreover have "map ?f css \<noteq> []" using css(1) "1.prems"(2) by auto
    ultimately obtain n e where n: "build_levels (map ?f css) = Some n" "node_ok e n" "inorder n = seq_of (map ?f css)"
      using "1.IH" [OF True lvl [unfolded css_def], folded css_def] by blast
    have "build_levels level = Some n"
      using True lvl n(1) by (subst build_levels.simps) (simp add: css_def [symmetric])
    then show ?thesis using n seq_of_parents [of css] css(1) by auto
  qed
qed

lemma windows_all_sorted:
  "sorted_by cmp xs \<Longrightarrow> (\<And>x y. lt_by cmp x y \<Longrightarrow> p x y = Some True) \<Longrightarrow> windows_all p xs = Some True"
  by (induction p xs rule: windows_all.induct) auto

lemma from_sorted_ok:
  assumes "sorted_by cmp rows"
  shows "\<exists>t. from_sorted cmp rows = Some t \<and> btree_ok cmp t \<and> contents t = rows"
proof (cases "rows = []")
  case True
  then show ?thesis by (simp add: from_sorted_def)
next
  case False
  let ?ls = "chunks MAX_NODE_SIZE rows"
  have ls: "concat ?ls = rows" "\<forall>c\<in>set ?ls. c \<noteq> [] \<and> length c \<le> MAX_NODE_SIZE"
    using chunks_facts [of MAX_NODE_SIZE rows] by (simp_all add: MAX_NODE_SIZE_def)
  have "\<forall>c\<in>set (map Leaf ?ls). node_ok 0 c" using ls(2) by auto
  moreover have "map Leaf ?ls \<noteq> []" using ls(1) False by auto
  ultimately obtain n e where n: "build_levels (map Leaf ?ls) = Some n" "node_ok e n" "inorder n = seq_of (map Leaf ?ls)"
    using build_levels_ok by blast
  have "inorder n = rows" using n(3) ls(1) by (simp add: comp_def)
  moreover have "windows_all (\<lambda>a b. map_option (\<lambda>c. c \<noteq> Greater) (cmp a b)) rows = Some True"
    by (rule windows_all_sorted [OF assms]) simp
  ultimately show ?thesis
    using n assms False btree_okI [of e "\<lparr> root = n, tsize = length rows \<rparr>" cmp]
    by (simp add: from_sorted_def contents_def root_ok_def)
qed

section \<open>The self-check accepts every well-formed tree\<close>

lemma walk_children_ok:
  assumes "\<And>c. c \<in> set cs \<Longrightarrow> node_ok d c \<and> walk ptr_eq cmp False c = Some (Inr (d, length (inorder c)))"
    and "\<And>x. ptr_eq x x" and "depth = None \<or> depth = Some d"
  shows "walk_children ptr_eq cmp (pre @ map max_of cs) (length pre) cs depth tot =
    Some (Inr (if cs = [] then depth else Some d, tot + length (seq_of cs)))"
  using assms
proof (induction cs arbitrary: pre depth tot)
  case (Cons c cs)
  have c: "max_key c = Some (max_of c)" "walk ptr_eq cmp False c = Some (Inr (d, length (inorder c)))"
    using Cons.prems(1) [of c] by auto
  have "walk_children ptr_eq cmp (pre @ map max_of (c # cs)) (length pre) (c # cs) depth tot =
      walk_children ptr_eq cmp ((pre @ [max_of c]) @ map max_of cs) (length (pre @ [max_of c])) cs (Some d)
        (tot + length (inorder c))"
    using Cons.prems(2,3) c by (auto simp: nth_append)
  also have "\<dots> = Some (Inr (Some d, tot + length (inorder c) + length (seq_of cs)))"
    using Cons.IH [of "Some d" "pre @ [max_of c]"] Cons.prems by simp
  finally show ?case by simp
qed simp

context comparator_on
begin

lemma walk_ok:
  assumes "\<And>x. ptr_eq x x"
  shows "node_ok d n \<or> (is_root \<and> root_ok d n) \<Longrightarrow> sorted_by cmp (inorder n) \<Longrightarrow>
    walk ptr_eq cmp is_root n = Some (Inr (d, length (inorder n)))"
proof (induction n arbitrary: d is_root)
  case (Leaf ks)
  have "windows_all (\<lambda>a b. map_option (\<lambda>c. c = Less) (cmp a b)) ks = Some True"
    using Leaf.prems(2) by (intro windows_all_sorted) simp_all
  then show ?case using Leaf.prems(1) by (auto simp: root_ok_def MAX_NODE_SIZE_def)
next
  case (Internal ks cs)
  have n: "0 < d" "cs \<noteq> []" "ks = map max_of cs" "length cs \<le> MAX_NODE_SIZE" "\<forall>c\<in>set cs. node_ok (d - 1) c"
    using Internal.prems(1) by (auto simp: root_ok_def)
  have srt: "sorted_by cmp (seq_of cs)" using Internal.prems(2) by simp
  have sub: "sorted_by cmp (inorder c)" if "c \<in> set cs" for c
  proof -
    obtain k where k: "k < length cs" "c = cs ! k" using \<open>c \<in> set cs\<close> by (metis in_set_conv_nth)
    then show ?thesis using srt unfolding nth_seq_of [OF k(1)] by (simp add: sorted_by_append)
  qed
  have "sorted_by cmp ks"
    unfolding n(3) using n(5) node_ok_max_in srt by (intro sorted_maxes) blast+
  then have win: "windows_all (\<lambda>a b. map_option (\<lambda>c. c = Less) (cmp a b)) ks = Some True"
    by (rule windows_all_sorted) simp
  have "walk_children ptr_eq cmp ([] @ map max_of cs) (length ([] :: 'a list)) cs None 0 =
      Some (Inr (if cs = [] then None else Some (d - 1), 0 + length (seq_of cs)))"
    by (rule walk_children_ok [OF _ assms]) (use Internal.IH n(5) sub in auto)
  then show ?case using n win by simp
qed

lemma check_invariants_ok:
  assumes "\<And>x. ptr_eq x x" "btree_ok cmp t"
  shows "check_invariants ptr_eq cmp t = Some (Inr ())"
  using walk_ok [where ptr_eq = ptr_eq and d = "height (root t)" and n = "root t" and is_root = True, OF assms(1)] assms(2)
  by (simp add: check_invariants_def btree_ok_def contents_def)

end

end
