(* ===== verification/Cursor.thy ===== *)
theory Cursor
  imports BTree
begin

text \<open>
  The ordered cursors of \<open>rust/src/btree.rs\<close>: forward and reverse scans from an optional
  bound. As in the tree, the comparator is a parameter; \<open>bcmp\<close> stands for
  \<open>cmp_bound_row(sort, bound, _)\<close>. The spine (a \<open>Vec\<close> used as a stack) is a list whose head
  is the top. The keep-alive field \<open>_snapshot\<close> has no counterpart: a value of this model
  never changes.
\<close>

section \<open>Searches for a bound\<close>

definition child_index_bound :: "('a \<Rightarrow> ordering option) \<Rightarrow> 'a list \<Rightarrow> nat option" where
  "child_index_bound bcmp keys = do {
     lo \<leftarrow> bsearch_loop (\<lambda>k. map_option (\<lambda>c. c = Greater) (bcmp k)) keys 0 (length keys);
     if lo = length keys then (if length keys = 0 then None else Some (length keys - 1)) else Some lo
   }"

definition leaf_lower_bound :: "('a \<Rightarrow> ordering option) \<Rightarrow> 'a list \<Rightarrow> nat option" where
  "leaf_lower_bound bcmp keys =
     bsearch_loop (\<lambda>k. map_option (\<lambda>c. c = Greater) (bcmp k)) keys 0 (length keys)"

definition leaf_upper_bound :: "('a \<Rightarrow> ordering option) \<Rightarrow> 'a list \<Rightarrow> nat option" where
  "leaf_upper_bound bcmp keys =
     bsearch_loop (\<lambda>k. map_option (\<lambda>c. c \<noteq> Less) (bcmp k)) keys 0 (length keys)"

section \<open>The cursor\<close>

type_synonym 'a spine = "('a bnode \<times> nat) list"

record 'a cursor =
  stack :: "'a spine"
  leaf :: "'a bnode option"
  pos :: nat
  rvs :: bool
  started :: bool

definition cursor_empty :: "bool \<Rightarrow> 'a cursor" where
  "cursor_empty rv = \<lparr> stack = [], leaf = None, pos = 0, rvs = rv, started = False \<rparr>"

definition current :: "'a cursor \<Rightarrow> 'a option" where
  "current c = (case leaf c of
       None \<Rightarrow> None
     | Some l \<Rightarrow> if pos c < length (node_keys l) then Some (node_keys l ! pos c) else None)"

fun path_first :: "'a bnode \<Rightarrow> 'a spine \<Rightarrow> ('a bnode \<times> 'a spine) option" where
  "path_first (Leaf ks) st = Some (Leaf ks, st)"
| "path_first (Internal ks cs) st = do {
     c \<leftarrow> vec_get cs 0;
     path_first c ((Internal ks cs, 0) # st)
   }"

definition descend_first :: "'a cursor \<Rightarrow> 'a bnode \<Rightarrow> 'a cursor option" where
  "descend_first c node = do {
     (l, st) \<leftarrow> path_first node (stack c);
     Some (c \<lparr> stack := st, leaf := Some l, pos := 0 \<rparr>)
   }"

lemma size_last_offset [termination_simp]:
  "xs \<noteq> [] \<Longrightarrow> size (xs ! (length xs - Suc 0)) < Suc (n + size_list size xs)"
  by (rule size_nth_offset) (cases xs, auto)

fun path_last :: "'a bnode \<Rightarrow> 'a spine \<Rightarrow> ('a bnode \<times> 'a spine) option" where
  "path_last (Leaf ks) st = Some (Leaf ks, st)"
| "path_last (Internal ks cs) st =
     (if cs = [] then None
      else do {
        c \<leftarrow> vec_get cs (length cs - 1);
        path_last c ((Internal ks cs, length cs - 1) # st)
      })"

definition descend_last :: "'a cursor \<Rightarrow> 'a bnode \<Rightarrow> 'a cursor option" where
  "descend_last c node = do {
     (l, st) \<leftarrow> path_last node (stack c);
     Some (c \<lparr> stack := st, leaf := Some l, pos := length (node_keys l) - 1 \<rparr>)
   }"

fun path_seek :: "('a \<Rightarrow> ordering option) \<Rightarrow> 'a bnode \<Rightarrow> 'a spine \<Rightarrow> ('a bnode \<times> 'a spine) option" where
  "path_seek bcmp (Leaf ks) st = Some (Leaf ks, st)"
| "path_seek bcmp (Internal ks cs) st = do {
     idx \<leftarrow> child_index_bound bcmp ks;
     c \<leftarrow> vec_get cs idx;
     path_seek bcmp c ((Internal ks cs, idx) # st)
   }"

definition descend_seek :: "('a \<Rightarrow> ordering option) \<Rightarrow> bool \<Rightarrow> 'a cursor \<Rightarrow> 'a bnode \<Rightarrow> 'a cursor option" where
  "descend_seek bcmp inclusive c node = do {
     (l, st) \<leftarrow> path_seek bcmp node (stack c);
     let keys = node_keys l;
     p \<leftarrow> leaf_lower_bound bcmp keys;
     p' \<leftarrow> (if \<not> inclusive \<and> p < length keys then do {
               k \<leftarrow> vec_get keys p;
               o1 \<leftarrow> bcmp k;
               Some (if o1 = Equal then p + 1 else p)
             } else Some p);
     Some (c \<lparr> stack := st, pos := p', leaf := Some l \<rparr>)
   }"

fun pop_next :: "'a spine \<Rightarrow> ('a bnode \<times> 'a spine) option option" where
  "pop_next [] = Some None"
| "pop_next ((node, descended) # st) =
     (if descended + 1 < num_children node then do {
        c \<leftarrow> child node (descended + 1);
        r \<leftarrow> path_first c ((node, descended + 1) # st);
        Some (Some r)
      } else pop_next st)"

definition next_leaf :: "'a cursor \<Rightarrow> 'a cursor option" where
  "next_leaf c = do {
     r \<leftarrow> pop_next (stack c);
     Some (case r of
         None \<Rightarrow> c \<lparr> stack := [], leaf := None \<rparr>
       | Some (l, st) \<Rightarrow> c \<lparr> stack := st, leaf := Some l, pos := 0 \<rparr>)
   }"

fun pop_prev :: "'a spine \<Rightarrow> ('a bnode \<times> 'a spine) option option" where
  "pop_prev [] = Some None"
| "pop_prev ((node, descended) # st) =
     (if descended > 0 then do {
        c \<leftarrow> child node (descended - 1);
        r \<leftarrow> path_last c ((node, descended - 1) # st);
        Some (Some r)
      } else pop_prev st)"

definition prev_leaf :: "'a cursor \<Rightarrow> 'a cursor option" where
  "prev_leaf c = do {
     r \<leftarrow> pop_prev (stack c);
     Some (case r of
         None \<Rightarrow> c \<lparr> stack := [], leaf := None \<rparr>
       | Some (l, st) \<Rightarrow> c \<lparr> stack := st, leaf := Some l, pos := length (node_keys l) - 1 \<rparr>)
   }"

definition descend_seek_reverse :: "('a \<Rightarrow> ordering option) \<Rightarrow> bool \<Rightarrow> 'a cursor \<Rightarrow> 'a bnode \<Rightarrow> 'a cursor option" where
  "descend_seek_reverse bcmp inclusive c node = do {
     (l, st) \<leftarrow> path_seek bcmp node (stack c);
     let keys = node_keys l;
     j \<leftarrow> (if inclusive then leaf_upper_bound bcmp keys else leaf_lower_bound bcmp keys);
     let c' = c \<lparr> stack := st, leaf := Some l \<rparr>;
     if j = 0 then prev_leaf c' else Some (c' \<lparr> pos := j - 1 \<rparr>)
   }"

subsection \<open>Normalization loops\<close>

text \<open>The work left on a spine, as a measure: the nodes not yet visited.\<close>

fun kids :: "'a bnode \<Rightarrow> 'a bnode list" where
  "kids (Leaf _) = []"
| "kids (Internal _ cs) = cs"

fun fwd_work :: "'a spine \<Rightarrow> nat" where
  "fwd_work [] = 0"
| "fwd_work ((n, i) # st) = size_list size (drop (Suc i) (kids n)) + fwd_work st"

fun bwd_work :: "'a spine \<Rightarrow> nat" where
  "bwd_work [] = 0"
| "bwd_work ((n, i) # st) = size_list size (take i (kids n)) + bwd_work st"

lemma path_first_work: "path_first n st = Some (l, st') \<Longrightarrow> fwd_work st' < Suc (size n + fwd_work st)"
proof (induction n st rule: path_first.induct)
  case (2 ks cs st)
  then obtain c rest where "cs = c # rest" by (cases cs) auto
  with 2 show ?case by simp
qed simp

lemma path_last_work: "path_last n st = Some (l, st') \<Longrightarrow> bwd_work st' < Suc (size n + bwd_work st)"
proof (induction n st rule: path_last.induct)
  case (2 ks cs st)
  then have ne: "cs \<noteq> []" by auto
  have "size_list size (butlast cs @ [last cs]) = size_list size cs" using ne by simp
  then have "size_list size (take (length cs - 1) cs) + size (last cs) < size_list size cs"
    by (simp add: size_list_append butlast_conv_take)
  moreover have "cs ! (length cs - 1) = last cs" using ne by (simp add: last_conv_nth)
  ultimately show ?case using 2 ne by fastforce
qed simp

lemma child_kids: "child n i = Some c \<longleftrightarrow> i < length (kids n) \<and> c = kids n ! i"
  by (cases n) (auto simp: vec_get_Some_iff)

lemma pop_next_work: "pop_next st = Some (Some (l, st')) \<Longrightarrow> fwd_work st' < fwd_work st"
proof (induction st rule: pop_next.induct)
  case (2 n i st)
  show ?case
  proof (cases "i + 1 < num_children n")
    case True
    with 2 obtain c where c: "child n (Suc i) = Some c" "path_first c ((n, Suc i) # st) = Some (l, st')"
      by (auto split: Option.bind_splits)
    then have "drop (Suc i) (kids n) = c # drop (Suc (Suc i)) (kids n)"
      by (auto simp: child_kids Cons_nth_drop_Suc)
    then show ?thesis using path_first_work [OF c(2)] by simp
  qed (use 2 in auto)
qed simp

lemma pop_prev_work: "pop_prev st = Some (Some (l, st')) \<Longrightarrow> bwd_work st' < bwd_work st"
proof (induction st rule: pop_prev.induct)
  case (2 n i st)
  show ?case
  proof (cases "i > 0")
    case True
    with 2 obtain c where c: "child n (i - 1) = Some c" "path_last c ((n, i - 1) # st) = Some (l, st')"
      by (auto split: Option.bind_splits)
    then have "take i (kids n) = take (i - 1) (kids n) @ [c]"
      using True take_Suc_conv_app_nth [of "i - 1" "kids n"] by (simp add: child_kids)
    then show ?thesis using path_last_work [OF c(2)] by (simp add: size_list_append)
  qed (use 2 in auto)
qed simp

function normalize_forward :: "'a cursor \<Rightarrow> 'a cursor option" where
  "normalize_forward c = (case leaf c of
       None \<Rightarrow> Some c
     | Some l \<Rightarrow> if pos c < length (node_keys l) then Some c
                 else do { c' \<leftarrow> next_leaf c; normalize_forward c' })"
  by pat_completeness auto
termination
  by (relation "measure (\<lambda>c. fwd_work (stack c) + (if leaf c = None then 0 else 1))")
    (auto simp: next_leaf_def dest: pop_next_work split: Option.bind_splits option.splits)

declare normalize_forward.simps [simp del]

function normalize_reverse :: "'a cursor \<Rightarrow> 'a cursor option" where
  "normalize_reverse c = (case leaf c of
       None \<Rightarrow> Some c
     | Some l \<Rightarrow> if node_keys l \<noteq> [] \<and> pos c < length (node_keys l) then Some c
                 else do { c' \<leftarrow> prev_leaf c; normalize_reverse c' })"
  by pat_completeness auto
termination
  by (relation "measure (\<lambda>c. bwd_work (stack c) + (if leaf c = None then 0 else 1))")
    (auto simp: prev_leaf_def dest: pop_prev_work split: Option.bind_splits option.splits)

declare normalize_reverse.simps [simp del]

definition step :: "'a cursor \<Rightarrow> 'a cursor option" where
  "step c =
     (if rvs c then
        (if pos c = 0 then prev_leaf c else Some (c \<lparr> pos := pos c - 1 \<rparr>))
      else
        let c' = c \<lparr> pos := pos c + 1 \<rparr>;
            in_leaf = (case leaf c' of None \<Rightarrow> False | Some l \<Rightarrow> pos c' < length (node_keys l))
        in if \<not> in_leaf then next_leaf c' else Some c')"

definition next_row :: "'a cursor \<Rightarrow> ('a cursor \<times> 'a option) option" where
  "next_row c = do {
     c' \<leftarrow> (if started c then step c else Some (c \<lparr> started := True \<rparr>));
     Some (c', current c')
   }"

section \<open>Opening a scan\<close>

definition values_from :: "'a btree \<Rightarrow> ('a \<Rightarrow> ordering option) option \<Rightarrow> bool \<Rightarrow> 'a cursor option" where
  "values_from t bnd inclusive =
     (if tsize t = 0 then Some (cursor_empty False)
      else do {
        let c = cursor_empty False;
        c' \<leftarrow> (case bnd of
                None \<Rightarrow> descend_first c (root t)
              | Some bcmp \<Rightarrow> descend_seek bcmp inclusive c (root t));
        normalize_forward c'
      })"

definition values_from_reversed :: "'a btree \<Rightarrow> ('a \<Rightarrow> ordering option) option \<Rightarrow> bool \<Rightarrow> 'a cursor option" where
  "values_from_reversed t bnd inclusive =
     (if tsize t = 0 then Some (cursor_empty True)
      else do {
        let c = cursor_empty True;
        c' \<leftarrow> (case bnd of
                None \<Rightarrow> descend_last c (root t)
              | Some bcmp \<Rightarrow> descend_seek_reverse bcmp inclusive c (root t));
        normalize_reverse c'
      })"

text \<open>\<open>while let Some(row) = stream.next_row()\<close>, as every consumer of a cursor runs it; the fuel
  counts pulls.\<close>

fun drain :: "nat \<Rightarrow> 'a cursor \<Rightarrow> 'a list option" where
  "drain 0 c = None"
| "drain (Suc fuel) c = do {
     (c', r) \<leftarrow> next_row c;
     (case r of
        None \<Rightarrow> Some []
      | Some x \<Rightarrow> do { xs \<leftarrow> drain fuel c'; Some (x # xs) })
   }"

section \<open>Spines\<close>

text \<open>What a spine still holds, after and before the current leaf, and the spines of well-formed
  trees.\<close>

fun spine_after :: "'a spine \<Rightarrow> 'a list" where
  "spine_after [] = []"
| "spine_after ((n, i) # st) = seq_of (drop (Suc i) (kids n)) @ spine_after st"

fun spine_before :: "'a spine \<Rightarrow> 'a list" where
  "spine_before [] = []"
| "spine_before ((n, i) # st) = spine_before st @ seq_of (take i (kids n))"

fun spine_ok :: "nat \<Rightarrow> 'a spine \<Rightarrow> bool" where
  "spine_ok d [] = True"
| "spine_ok d ((n, i) # st) = (i < length (kids n) \<and> (\<forall>c\<in>set (kids n). node_ok d c) \<and> spine_ok (Suc d) st)"

lemma num_children_kids [simp]: "num_children n = length (kids n)"
  by (cases n) simp_all

lemma node_ok_Suc: "node_ok (Suc d) n \<Longrightarrow> \<exists>ks cs. n = Internal ks cs \<and> cs \<noteq> [] \<and> ks = map max_of cs \<and> (\<forall>c\<in>set cs. node_ok d c)"
  by (cases n) auto

lemma node_ok_0: "node_ok 0 n \<Longrightarrow> \<exists>ks. n = Leaf ks \<and> ks \<noteq> []"
  by (cases n) auto

lemma path_first_ok:
  "node_ok d n \<Longrightarrow> spine_ok d st \<Longrightarrow> \<exists>l st'. path_first n st = Some (l, st') \<and> node_ok 0 l \<and> spine_ok 0 st' \<and>
     node_keys l @ spine_after st' = inorder n @ spine_after st"
proof (induction d arbitrary: n st)
  case 0
  then show ?case using node_ok_0 [of n] by auto
next
  case (Suc d)
  then obtain ks c cs where n: "n = Internal ks (c # cs)" "\<forall>c\<in>set (c # cs). node_ok d c"
    using node_ok_Suc [of d n] by (metis neq_Nil_conv)
  then have "spine_ok d ((n, 0) # st)" using Suc.prems by simp
  from Suc.IH [OF _ this, of c] n show ?case by auto
qed

lemma path_last_ok:
  "node_ok d n \<Longrightarrow> spine_ok d st \<Longrightarrow> \<exists>l st'. path_last n st = Some (l, st') \<and> node_ok 0 l \<and> spine_ok 0 st' \<and>
     spine_before st' @ node_keys l = spine_before st @ inorder n"
proof (induction d arbitrary: n st)
  case 0
  then show ?case using node_ok_0 [of n] by auto
next
  case (Suc d)
  then obtain ks cs where n: "n = Internal ks cs" "cs \<noteq> []" "\<forall>c\<in>set cs. node_ok d c"
    using node_ok_Suc [of d n] by blast
  then have i: "length cs - 1 < length cs" by simp
  then have "spine_ok d ((n, length cs - 1) # st)" using Suc.prems n by simp
  from Suc.IH [OF _ this, of "cs ! (length cs - 1)"] n i nth_seq_of [OF i] show ?case by auto
qed

lemma pop_next_ok:
  "spine_ok d st \<Longrightarrow> (pop_next st = Some None \<and> spine_after st = []) \<or>
     (\<exists>l st'. pop_next st = Some (Some (l, st')) \<and> node_ok 0 l \<and> spine_ok 0 st' \<and>
        node_keys l @ spine_after st' = spine_after st)"
proof (induction st arbitrary: d rule: pop_next.induct)
  case (2 n i st)
  show ?case
  proof (cases "i + 1 < length (kids n)")
    case True
    then have c: "child n (i + 1) = Some (kids n ! (i + 1))" by (simp add: child_kids)
    have "node_ok d (kids n ! (i + 1))" "spine_ok d ((n, i + 1) # st)" using True 2(2) by simp_all
    from path_first_ok [OF this] obtain l st' where r: "path_first (kids n ! (i + 1)) ((n, i + 1) # st) = Some (l, st')"
      "node_ok 0 l" "spine_ok 0 st'"
      "node_keys l @ spine_after st' = inorder (kids n ! (i + 1)) @ spine_after ((n, i + 1) # st)" by blast
    have "drop (Suc i) (kids n) = kids n ! (i + 1) # drop (Suc (i + 1)) (kids n)"
      using True by (simp add: Cons_nth_drop_Suc)
    then show ?thesis using True c r by simp
  next
    case False
    moreover have "spine_ok (Suc d) st" using 2(2) by simp
    ultimately show ?thesis using 2(1) [of "Suc d"] by auto
  qed
qed simp

lemma pop_prev_ok:
  "spine_ok d st \<Longrightarrow> (pop_prev st = Some None \<and> spine_before st = []) \<or>
     (\<exists>l st'. pop_prev st = Some (Some (l, st')) \<and> node_ok 0 l \<and> spine_ok 0 st' \<and>
        spine_before st' @ node_keys l = spine_before st)"
proof (induction st arbitrary: d rule: pop_prev.induct)
  case (2 n i st)
  show ?case
  proof (cases "i > 0")
    case True
    then have len: "i - 1 < length (kids n)" using 2(2) by auto
    then have c: "child n (i - 1) = Some (kids n ! (i - 1))" by (simp add: child_kids)
    have "node_ok d (kids n ! (i - 1))" "spine_ok d ((n, i - 1) # st)" using len 2(2) by simp_all
    from path_last_ok [OF this] obtain l st' where r: "path_last (kids n ! (i - 1)) ((n, i - 1) # st) = Some (l, st')"
      "node_ok 0 l" "spine_ok 0 st'"
      "spine_before st' @ node_keys l = spine_before ((n, i - 1) # st) @ inorder (kids n ! (i - 1))" by blast
    have "take i (kids n) = take (i - 1) (kids n) @ [kids n ! (i - 1)]"
      using True take_Suc_conv_app_nth [OF len] by simp
    then show ?thesis using True c r by simp
  next
    case False
    moreover have "spine_ok (Suc d) st" using 2(2) by simp
    ultimately show ?thesis using 2(1) [of "Suc d"] by auto
  qed
qed simp

section \<open>Stepping a cursor\<close>

definition cursor_ok :: "'a cursor \<Rightarrow> bool" where
  "cursor_ok c = (case leaf c of
       None \<Rightarrow> stack c = []
     | Some l \<Rightarrow> pos c < length (node_keys l) \<and> spine_ok 0 (stack c))"

text \<open>The rows a cursor has yet to return, in scan order, the one under the cursor first.\<close>

definition ahead :: "'a cursor \<Rightarrow> 'a list" where
  "ahead c = (case leaf c of
       None \<Rightarrow> []
     | Some l \<Rightarrow> if rvs c then rev (spine_before (stack c) @ take (Suc (pos c)) (node_keys l))
                 else drop (pos c) (node_keys l) @ spine_after (stack c))"

lemma cursor_empty_ok [simp]: "cursor_ok (cursor_empty rv)" "ahead (cursor_empty rv) = []"
  by (simp_all add: cursor_ok_def ahead_def cursor_empty_def)

lemma current_ahead: "cursor_ok c \<Longrightarrow> current c = (case ahead c of [] \<Rightarrow> None | x # _ \<Rightarrow> Some x)"
  by (auto simp: cursor_ok_def current_def ahead_def take_Suc_conv_app_nth Cons_nth_drop_Suc [symmetric]
      split: option.splits)

text \<open>Moving to the neighbouring leaf.\<close>

lemma next_leaf_ok:
  assumes "spine_ok 0 (stack c)" "\<not> rvs c"
  shows "\<exists>c'. next_leaf c = Some c' \<and> cursor_ok c' \<and> ahead c' = spine_after (stack c) \<and>
    rvs c' = rvs c \<and> started c' = started c"
  using pop_next_ok [OF assms(1)] assms(2)
proof (elim disjE exE conjE)
  fix l st' assume "pop_next (stack c) = Some (Some (l, st'))" "node_ok 0 l" "spine_ok 0 st'"
    "node_keys l @ spine_after st' = spine_after (stack c)"
  then show ?thesis using assms(2) node_ok_0 [of l] by (auto simp: next_leaf_def cursor_ok_def ahead_def)
qed (simp add: next_leaf_def cursor_ok_def ahead_def)

lemma prev_leaf_ok:
  assumes "spine_ok 0 (stack c)" "rvs c"
  shows "\<exists>c'. prev_leaf c = Some c' \<and> cursor_ok c' \<and> ahead c' = rev (spine_before (stack c)) \<and>
    rvs c' = rvs c \<and> started c' = started c"
  using pop_prev_ok [OF assms(1)] assms(2)
proof (elim disjE exE conjE)
  fix l st' assume a: "pop_prev (stack c) = Some (Some (l, st'))" "node_ok 0 l" "spine_ok 0 st'"
    "spine_before st' @ node_keys l = spine_before (stack c)"
  then obtain ks where "l = Leaf ks" "ks \<noteq> []" using node_ok_0 by blast
  then show ?thesis using a assms(2) unfolding a(4) [symmetric]
    by (simp add: prev_leaf_def cursor_ok_def ahead_def)
qed (simp add: prev_leaf_def cursor_ok_def ahead_def)

lemma step_ok:
  assumes "cursor_ok c"
  shows "\<exists>c'. step c = Some c' \<and> cursor_ok c' \<and> ahead c' = tl (ahead c) \<and> rvs c' = rvs c \<and> started c' = started c"
proof (cases "leaf c")
  case None
  then show ?thesis using assms by (auto simp: step_def cursor_ok_def ahead_def next_leaf_def prev_leaf_def)
next
  case (Some l)
  then have ok: "pos c < length (node_keys l)" "spine_ok 0 (stack c)" using assms by (simp_all add: cursor_ok_def)
  show ?thesis
  proof (cases "rvs c")
    case True
    then have tl: "tl (ahead c) = rev (spine_before (stack c) @ take (pos c) (node_keys l))"
      using Some ok by (simp add: ahead_def take_Suc_conv_app_nth)
    show ?thesis
    proof (cases "pos c = 0")
      case pos: True
      then show ?thesis using prev_leaf_ok [OF ok(2) True] tl True by (simp add: step_def)
    next
      case False
      then show ?thesis using tl True Some ok by (auto simp: step_def cursor_ok_def ahead_def)
    qed
  next
    case False
    then have tl: "tl (ahead c) = drop (Suc (pos c)) (node_keys l) @ spine_after (stack c)"
      using Some ok by (simp add: ahead_def Cons_nth_drop_Suc [symmetric])
    show ?thesis
    proof (cases "Suc (pos c) < length (node_keys l)")
      case True
      then show ?thesis using tl False Some ok by (simp add: step_def cursor_ok_def ahead_def)
    next
      case end_of_leaf: False
      then show ?thesis
        using next_leaf_ok [of "c \<lparr> pos := pos c + 1 \<rparr>"] tl False Some ok by (simp add: step_def)
    qed
  qed
qed

lemma drain_started:
  "cursor_ok c \<Longrightarrow> started c \<Longrightarrow> length (ahead c) < fuel + 1 \<Longrightarrow> ahead c \<noteq> [] \<Longrightarrow> drain fuel c = Some (tl (ahead c))"
proof (induction fuel arbitrary: c)
  case (Suc fuel)
  obtain c' where c': "step c = Some c'" "cursor_ok c'" "ahead c' = tl (ahead c)" "started c'"
    using step_ok [OF Suc.prems(1)] Suc.prems(2) by auto
  show ?case
  proof (cases "ahead c'")
    case Nil
    then show ?thesis using c' Suc.prems current_ahead [OF c'(2)] by (simp add: next_row_def)
  next
    case (Cons x xs)
    have "drain fuel c' = Some xs" using Suc.IH [OF c'(2,4)] Cons Suc.prems(3,4) c'(3) by (cases "ahead c") auto
    moreover have "tl (ahead c) = x # xs" using Cons c'(3) by simp
    ultimately show ?thesis using c' Suc.prems(2) current_ahead [OF c'(2)] by (simp add: next_row_def)
  qed
qed simp

lemma drain_ok:
  assumes "cursor_ok c" "\<not> started c" "length (ahead c) < fuel"
  shows "drain fuel c = Some (ahead c)"
proof -
  obtain f where f: "fuel = Suc f" using assms(3) by (cases fuel) auto
  define c' where "c' = c \<lparr> started := True \<rparr>"
  have c': "cursor_ok c'" "ahead c' = ahead c" "started c'"
    using assms(1) by (simp_all add: c'_def cursor_ok_def ahead_def split: option.splits)
  show ?thesis
  proof (cases "ahead c")
    case Nil
    then show ?thesis using f assms(2) current_ahead [OF c'(1)] c' by (simp add: next_row_def c'_def [symmetric])
  next
    case (Cons x xs)
    have "drain f c' = Some xs" using drain_started [OF c'(1,3), of f] Cons c'(2) assms(3) f by simp
    then show ?thesis using f Cons assms(2) current_ahead [OF c'(1)] c' by (simp add: next_row_def c'_def [symmetric])
  qed
qed

section \<open>Seeking a bound\<close>

context cut_on
begin

text \<open>A bound splits a sorted list: below it, at most one row at it, above it.\<close>

lemma cut_split:
  assumes "sorted_by cmp xs" "set xs \<subseteq> D"
  obtains A M B where "xs = A @ M @ B" "\<forall>a\<in>set A. cut a = Some Greater" "\<forall>m\<in>set M. cut m = Some Equal"
    "length M \<le> 1" "\<forall>b\<in>set B. cut b = Some Less"
proof -
  have "\<exists>A M B. xs = A @ M @ B \<and> (\<forall>a\<in>set A. cut a = Some Greater) \<and> (\<forall>m\<in>set M. cut m = Some Equal) \<and>
    length M \<le> 1 \<and> (\<forall>b\<in>set B. cut b = Some Less)"
    using assms
  proof (induction xs)
    case (Cons x xs)
    have rest: "\<forall>b\<in>set xs. cut b = Some Less" if "cut x \<noteq> Some Greater"
      using that Cons.prems cut_mono [of x] by auto
    obtain c where c: "cut x = Some c" using cut_total [of x] Cons.prems by auto
    show ?case
    proof (cases c)
      case Less
      then show ?thesis using c rest by (intro exI [of _ "[]"] exI [of _ "x # xs"]) auto
    next
      case Equal
      then show ?thesis using c rest by (intro exI [of _ "[]"] exI [of _ "[x]"] exI [of _ xs]) auto
    next
      case Greater
      obtain A M B where "xs = A @ M @ B" "\<forall>a\<in>set A. cut a = Some Greater" "\<forall>m\<in>set M. cut m = Some Equal"
        "length M \<le> 1" "\<forall>b\<in>set B. cut b = Some Less" using Cons by auto
      then show ?thesis using c Greater by (intro exI [of _ "x # A"] exI [of _ M] exI [of _ B]) auto
    qed
  qed simp
  then show thesis using that by blast
qed

lemma leaf_bounds:
  assumes "sorted_by cmp keys" "set keys \<subseteq> D"
  shows "leaf_lower_bound cut keys = Some (length (takeWhile (\<lambda>k. cut k = Some Greater) keys))"
    and "leaf_upper_bound cut keys = Some (length (takeWhile (\<lambda>k. cut k \<noteq> Some Less) keys))"
proof -
  have tot: "\<exists>c. cut k = Some c" if "k \<in> set keys" for k using that assms(2) cut_total [of k] by auto
  show "leaf_lower_bound cut keys = Some (length (takeWhile (\<lambda>k. cut k = Some Greater) keys))"
    unfolding leaf_lower_bound_def
    by (rule bsearch_full) (use tot cut_prefix_Greater [OF assms] in fastforce)+
  show "leaf_upper_bound cut keys = Some (length (takeWhile (\<lambda>k. cut k \<noteq> Some Less) keys))"
    unfolding leaf_upper_bound_def
  proof (rule bsearch_full)
    show "map_option (\<lambda>c. c \<noteq> Less) (cut k) = Some (cut k \<noteq> Some Less)" if "k \<in> set keys" for k
      using tot [OF that] by auto
    show "cut (keys ! i) \<noteq> Some Less" if "i < j" "j < length keys" "cut (keys ! j) \<noteq> Some Less" for i j
      using cut_prefix_not_Less [OF assms that] by simp
  qed simp
qed

lemma child_index_bound_children:
  assumes ok: "\<forall>c\<in>set cs. node_ok d c" and srt: "sorted_by cmp (seq_of cs)"
    and D: "set (seq_of cs) \<subseteq> D" and ne: "cs \<noteq> []"
  obtains i where "child_index_bound cut (map max_of cs) = Some i" "i < length cs"
    "\<forall>a\<in>set (seq_of (take i cs)). cut a = Some Greater" "\<forall>b\<in>set (seq_of (drop (Suc i) cs)). cut b = Some Less"
proof -
  let ?q = "\<lambda>k. cut k = Some Greater"
  have max_in: "max_of c \<in> set (inorder c)" if "c \<in> set cs" for c using ok that node_ok_max_in by blast
  have maxes: "sorted_by cmp (map max_of cs)" "set (map max_of cs) \<subseteq> D"
    using sorted_maxes [OF max_in srt] max_in D by auto
  define n where "n = length (takeWhile ?q (map max_of cs))"
  have n: "n \<le> length cs" using length_takeWhile_le [of ?q "map max_of cs"] by (simp add: n_def)
  define i where "i = (if n = length cs then length cs - 1 else n)"
  have ci: "child_index_bound cut (map max_of cs) = Some i" "i < length cs" "i \<le> n"
    using leaf_bounds(1) [OF maxes] ne n
    by (auto simp: child_index_bound_def leaf_lower_bound_def n_def [symmetric] i_def)
  have left: "cut a = Some Greater" if "a \<in> set (seq_of (take i cs))" for a
  proof -
    from that obtain c where c: "c \<in> set (take i cs)" "a \<in> set (inorder c)" by auto
    have cin: "c \<in> set cs" using c(1) by (rule in_set_takeD)
    have "takeWhile ?q (map max_of cs) = map max_of (take n cs)"
      using takeWhile_eq_take [of ?q "map max_of cs"] unfolding n_def [symmetric] by (simp add: take_map)
    moreover have "c \<in> set (take n cs)" using c(1) set_take_subset_set_take [OF ci(3), of cs] by blast
    ultimately have "max_of c \<in> set (takeWhile ?q (map max_of cs))" by simp
    then have gt: "cut (max_of c) = Some Greater" by (rule set_takeWhileD [THEN conjunct2])
    obtain k where "k < length cs" "c = cs ! k" using cin by (metis in_set_conv_nth)
    then have "sorted_by cmp (inorder c)" "set (inorder c) \<subseteq> D" using seq_child [OF srt D] by simp_all
    then have "a = max_of c \<or> cmp a (max_of c) = Some Less" "a \<in> D" "max_of c \<in> D"
      using max_or_less ok cin c(2) max_in [OF cin] by blast+
    then show ?thesis using gt cut_mono [of a "max_of c"] by fastforce
  qed
  have right: "cut b = Some Less" if b: "b \<in> set (seq_of (drop (Suc i) cs))" for b
  proof -
    have "n \<noteq> length cs" using b ne by (auto simp: i_def)
    then have len: "n < length cs" "i = n" using n by (simp_all add: i_def)
    have "\<not> ?q (map max_of cs ! n)" using len(1) unfolding n_def by (intro nth_length_takeWhile) simp
    then have "cut (max_of (cs ! i)) \<noteq> Some Greater" using len by simp
    moreover have m: "max_of (cs ! i) \<in> set (inorder (cs ! i))" using max_in ci(2) by simp
    moreover have "cmp (max_of (cs ! i)) b = Some Less"
      using srt nth_seq_of [OF ci(2)] m b by (auto simp: sorted_by_append)
    moreover have "max_of (cs ! i) \<in> D" "b \<in> D" using D m b nth_seq_of [OF ci(2)] by auto
    ultimately show ?thesis using cut_mono by blast
  qed
  show thesis using that [OF ci(1,2)] left right by blast
qed

lemma path_seek_ok:
  "node_ok d n \<Longrightarrow> spine_ok d st \<Longrightarrow> sorted_by cmp (inorder n) \<Longrightarrow> set (inorder n) \<subseteq> D \<Longrightarrow>
   \<exists>l st' A B. path_seek cut n st = Some (l, st') \<and> node_ok 0 l \<and> spine_ok 0 st' \<and>
     inorder n = A @ node_keys l @ B \<and> (\<forall>a\<in>set A. cut a = Some Greater) \<and> (\<forall>b\<in>set B. cut b = Some Less) \<and>
     spine_after st' = B @ spine_after st \<and> spine_before st' = spine_before st @ A"
proof (induction d arbitrary: n st)
  case 0
  then obtain ks where "n = Leaf ks" using node_ok_0 by blast
  then show ?case using 0 by (intro exI [of _ n] exI [of _ st] exI [of _ "[]"]) simp
next
  case (Suc d)
  then obtain ks cs where n: "n = Internal ks cs" "cs \<noteq> []" "ks = map max_of cs" "\<forall>c\<in>set cs. node_ok d c"
    using node_ok_Suc [of d n] by blast
  have srt: "sorted_by cmp (seq_of cs)" "set (seq_of cs) \<subseteq> D" using Suc.prems n by simp_all
  obtain i where i: "child_index_bound cut (map max_of cs) = Some i" "i < length cs"
    "\<forall>a\<in>set (seq_of (take i cs)). cut a = Some Greater" "\<forall>b\<in>set (seq_of (drop (Suc i) cs)). cut b = Some Less"
    using child_index_bound_children [OF n(4) srt n(2)] by blast
  have "node_ok d (cs ! i)" "spine_ok d ((n, i) # st)" using n i Suc.prems by simp_all
  from Suc.IH [OF this seq_child [OF srt i(2)]]
  obtain l st' A B where r: "path_seek cut (cs ! i) ((n, i) # st) = Some (l, st')" "node_ok 0 l" "spine_ok 0 st'"
     "inorder (cs ! i) = A @ node_keys l @ B" "\<forall>a\<in>set A. cut a = Some Greater" "\<forall>b\<in>set B. cut b = Some Less"
     "spine_after st' = B @ spine_after ((n, i) # st)" "spine_before st' = spine_before ((n, i) # st) @ A"
    by blast
  have "path_seek cut n st = Some (l, st')" using r(1) i n by simp
  moreover have "inorder n = (seq_of (take i cs) @ A) @ node_keys l @ (B @ seq_of (drop (Suc i) cs))"
    using nth_seq_of [OF i(2)] r(4) n(1) by simp
  moreover have "\<forall>a\<in>set (seq_of (take i cs) @ A). cut a = Some Greater"
    "\<forall>b\<in>set (B @ seq_of (drop (Suc i) cs)). cut b = Some Less" using r i by auto
  ultimately show ?case using r(2,3,7,8) n(1)
    by (intro exI [of _ l] exI [of _ st'] exI [of _ "seq_of (take i cs) @ A"] exI [of _ "B @ seq_of (drop (Suc i) cs)"]) simp
qed

end

section \<open>Scans\<close>

text \<open>What a scan returns, as a filter of the sorted contents.\<close>

definition scan_forward :: "('a \<Rightarrow> ordering option) option \<Rightarrow> bool \<Rightarrow> 'a list \<Rightarrow> 'a list" where
  "scan_forward bnd inclusive xs = (case bnd of
       None \<Rightarrow> xs
     | Some b \<Rightarrow> filter (\<lambda>r. if inclusive then b r \<noteq> Some Greater else b r = Some Less) xs)"

definition scan_reverse :: "('a \<Rightarrow> ordering option) option \<Rightarrow> bool \<Rightarrow> 'a list \<Rightarrow> 'a list" where
  "scan_reverse bnd inclusive xs = rev (case bnd of
       None \<Rightarrow> xs
     | Some b \<Rightarrow> filter (\<lambda>r. if inclusive then b r \<noteq> Some Less else b r = Some Greater) xs)"

lemma normalize_forward_ok:
  assumes "leaf c = Some l" "spine_ok 0 (stack c)" "\<not> rvs c"
  shows "\<exists>c'. normalize_forward c = Some c' \<and> cursor_ok c' \<and> rvs c' = rvs c \<and> started c' = started c \<and>
    ahead c' = drop (pos c) (node_keys l) @ spine_after (stack c)"
proof (cases "pos c < length (node_keys l)")
  case True
  then show ?thesis using assms by (simp add: normalize_forward.simps [of c] cursor_ok_def ahead_def)
next
  case False
  obtain c' where c': "next_leaf c = Some c'" "cursor_ok c'" "ahead c' = spine_after (stack c)"
    "rvs c' = rvs c" "started c' = started c" using next_leaf_ok [OF assms(2,3)] by blast
  have "normalize_forward c' = Some c'"
    using c'(2) by (auto simp: normalize_forward.simps [of c'] cursor_ok_def split: option.splits)
  then show ?thesis using False assms c' by (simp add: normalize_forward.simps [of c])
qed

lemma normalize_reverse_id: "cursor_ok c \<Longrightarrow> normalize_reverse c = Some c"
  by (auto simp: normalize_reverse.simps [of c] cursor_ok_def split: option.splits)

lemma btree_ok_node: "btree_ok cmp t \<Longrightarrow> tsize t \<noteq> 0 \<Longrightarrow> node_ok (height (root t)) (root t)"
  by (auto simp: btree_ok_def root_ok_def contents_def)

lemma values_from_unbounded:
  assumes "btree_ok cmp t"
  shows "\<exists>c. values_from t None inclusive = Some c \<and> cursor_ok c \<and> \<not> started c \<and> ahead c = contents t"
    and "\<exists>c. values_from_reversed t None inclusive = Some c \<and> cursor_ok c \<and> \<not> started c \<and> ahead c = rev (contents t)"
proof -
  show "\<exists>c. values_from t None inclusive = Some c \<and> cursor_ok c \<and> \<not> started c \<and> ahead c = contents t"
  proof (cases "tsize t = 0")
    case True
    then show ?thesis using assms by (simp add: values_from_def btree_ok_def) (simp add: cursor_empty_def)
  next
    case False
    obtain l st where p: "path_first (root t) [] = Some (l, st)" "node_ok 0 l" "spine_ok 0 st"
      "node_keys l @ spine_after st = inorder (root t)"
      using path_first_ok [OF btree_ok_node [OF assms False], of "[]"] by auto
    define c where "c = cursor_empty False \<lparr> stack := st, leaf := Some l, pos := 0 \<rparr>"
    have "values_from t None inclusive = normalize_forward c"
      using False p(1) by (simp add: values_from_def descend_first_def c_def) (simp add: cursor_empty_def)
    moreover have "leaf c = Some l" "spine_ok 0 (stack c)" "\<not> rvs c" "\<not> started c" "pos c = 0" "stack c = st"
      using p(3) by (simp_all add: c_def cursor_empty_def)
    ultimately show ?thesis using normalize_forward_ok [of c l] p(4) by (auto simp: contents_def)
  qed
  show "\<exists>c. values_from_reversed t None inclusive = Some c \<and> cursor_ok c \<and> \<not> started c \<and> ahead c = rev (contents t)"
  proof (cases "tsize t = 0")
    case True
    then show ?thesis using assms by (simp add: values_from_reversed_def btree_ok_def) (simp add: cursor_empty_def)
  next
    case False
    obtain l st where p: "path_last (root t) [] = Some (l, st)" "node_ok 0 l" "spine_ok 0 st"
      "spine_before st @ node_keys l = inorder (root t)"
      using path_last_ok [OF btree_ok_node [OF assms False], of "[]"] by auto
    define c where "c = cursor_empty True \<lparr> stack := st, leaf := Some l, pos := length (node_keys l) - 1 \<rparr>"
    have "values_from_reversed t None inclusive = normalize_reverse c"
      using False p(1) by (simp add: values_from_reversed_def descend_last_def c_def) (simp add: cursor_empty_def)
    moreover have "cursor_ok c" "\<not> started c" "ahead c = rev (contents t)"
      using p(3,4) node_ok_0 [OF p(2)] by (auto simp: c_def cursor_empty_def cursor_ok_def ahead_def contents_def)
    ultimately show ?thesis using normalize_reverse_id [of c] by auto
  qed
qed

lemma takeWhile_prefix: "(\<forall>x\<in>set A. p x) \<Longrightarrow> (\<forall>x\<in>set B. \<not> p x) \<Longrightarrow> takeWhile p (A @ B) = A"
  by (induction A) (auto simp: takeWhile_eq_Nil_iff dest: hd_in_set)

context cut_on
begin

lemma leaf_bounds_split:
  assumes "sorted_by cmp keys" "set keys \<subseteq> D" "keys = A @ M @ B" "\<forall>a\<in>set A. cut a = Some Greater"
    "\<forall>m\<in>set M. cut m = Some Equal" "\<forall>b\<in>set B. cut b = Some Less"
  shows "leaf_lower_bound cut keys = Some (length A)" "leaf_upper_bound cut keys = Some (length (A @ M))"
proof -
  have "takeWhile (\<lambda>k. cut k = Some Greater) (A @ (M @ B)) = A" using assms by (intro takeWhile_prefix) auto
  moreover have "takeWhile (\<lambda>k. cut k \<noteq> Some Less) ((A @ M) @ B) = A @ M" using assms by (intro takeWhile_prefix) auto
  ultimately show "leaf_lower_bound cut keys = Some (length A)" "leaf_upper_bound cut keys = Some (length (A @ M))"
    using leaf_bounds [OF assms(1,2)] assms(3) by simp_all
qed

lemma descend_seek_ok:
  assumes "node_ok d n" "sorted_by cmp (inorder n)" "set (inorder n) \<subseteq> D" "stack c = []" "\<not> rvs c"
  shows "\<exists>c' c''. descend_seek cut inclusive c n = Some c' \<and> normalize_forward c' = Some c'' \<and>
    cursor_ok c'' \<and> started c'' = started c \<and> ahead c'' = scan_forward (Some cut) inclusive (inorder n)"
proof -
  obtain l st A B where p: "path_seek cut n (stack c) = Some (l, st)" "node_ok 0 l" "spine_ok 0 st"
     "inorder n = A @ node_keys l @ B" "\<forall>a\<in>set A. cut a = Some Greater" "\<forall>b\<in>set B. cut b = Some Less"
     "spine_after st = B"
    using path_seek_ok [OF assms(1) _ assms(2,3), of "stack c"] assms(4) by auto
  have keys: "sorted_by cmp (node_keys l)" "set (node_keys l) \<subseteq> D"
    using assms(2,3) p(4) by (auto simp: sorted_by_append)
  obtain LA M LB where k: "node_keys l = LA @ M @ LB" "\<forall>a\<in>set LA. cut a = Some Greater"
    "\<forall>m\<in>set M. cut m = Some Equal" "length M \<le> 1" "\<forall>b\<in>set LB. cut b = Some Less"
    using cut_split [OF keys] by blast
  have lb: "leaf_lower_bound cut (node_keys l) = Some (length LA)"
    using leaf_bounds_split [OF keys k(1,2,3,5)] by simp
  define q where "q = length LA + (if inclusive then 0 else length M)"
  have "(if \<not> inclusive \<and> length LA < length (node_keys l) then do {
               x \<leftarrow> vec_get (node_keys l) (length LA);
               o1 \<leftarrow> cut x;
               Some (if o1 = Equal then length LA + 1 else length LA)
             } else Some (length LA)) = Some q"
    using k by (cases M; cases LB) (auto simp: q_def nth_append)
  then have run: "descend_seek cut inclusive c n = Some (c \<lparr> stack := st, pos := q, leaf := Some l \<rparr>)"
    using p(1) lb by (simp add: descend_seek_def Let_def)
  have "drop q (node_keys l) @ B = scan_forward (Some cut) inclusive (inorder n)"
    using k p(4-6) by (auto simp: q_def scan_forward_def filter_empty_conv filter_id_conv)
  moreover obtain c'' where "normalize_forward (c \<lparr> stack := st, pos := q, leaf := Some l \<rparr>) = Some c''" "cursor_ok c''"
      "started c'' = started c" "ahead c'' = drop q (node_keys l) @ B"
    using normalize_forward_ok [of "c \<lparr> stack := st, pos := q, leaf := Some l \<rparr>" l] p(3,7) assms(5) by auto
  ultimately show ?thesis using run by auto
qed

lemma descend_seek_reverse_ok:
  assumes "node_ok d n" "sorted_by cmp (inorder n)" "set (inorder n) \<subseteq> D" "stack c = []" "rvs c"
  shows "\<exists>c'. descend_seek_reverse cut inclusive c n = Some c' \<and> cursor_ok c' \<and> started c' = started c \<and>
    ahead c' = scan_reverse (Some cut) inclusive (inorder n)"
proof -
  obtain l st A B where p: "path_seek cut n (stack c) = Some (l, st)" "node_ok 0 l" "spine_ok 0 st"
     "inorder n = A @ node_keys l @ B" "\<forall>a\<in>set A. cut a = Some Greater" "\<forall>b\<in>set B. cut b = Some Less"
     "spine_before st = A"
    using path_seek_ok [OF assms(1) _ assms(2,3), of "stack c"] assms(4) by auto
  have keys: "sorted_by cmp (node_keys l)" "set (node_keys l) \<subseteq> D"
    using assms(2,3) p(4) by (auto simp: sorted_by_append)
  obtain LA M LB where k: "node_keys l = LA @ M @ LB" "\<forall>a\<in>set LA. cut a = Some Greater"
    "\<forall>m\<in>set M. cut m = Some Equal" "length M \<le> 1" "\<forall>b\<in>set LB. cut b = Some Less"
    using cut_split [OF keys] by blast
  define q where "q = (if inclusive then LA @ M else LA)"
  have lb: "(if inclusive then leaf_upper_bound cut (node_keys l) else leaf_lower_bound cut (node_keys l)) = Some (length q)"
    using leaf_bounds_split [OF keys k(1,2,3,5)] by (simp add: q_def)
  have res: "scan_reverse (Some cut) inclusive (inorder n) = rev (A @ q)"
    using k p(4-6) by (auto simp: q_def scan_reverse_def filter_empty_conv filter_id_conv)
  define c1 where "c1 = c \<lparr> stack := st, leaf := Some l \<rparr>"
  have run: "descend_seek_reverse cut inclusive c n =
      (if length q = 0 then prev_leaf c1 else Some (c1 \<lparr> pos := length q - 1 \<rparr>))"
    using p(1) lb by (simp add: descend_seek_reverse_def Let_def c1_def)
  show ?thesis
  proof (cases "q = []")
    case True
    then show ?thesis using run prev_leaf_ok [of c1] p(3,7) assms(5) res by (auto simp: c1_def)
  next
    case False
    then have "length q = Suc (length q - 1)" by (cases q) simp_all
    moreover have "take (length q) (node_keys l) = q" "length q \<le> length (node_keys l)" using k(1) by (auto simp: q_def)
    ultimately have "take (Suc (length q - 1)) (node_keys l) = q" "length q - 1 < length (node_keys l)" by simp_all
    then show ?thesis using False run p(3,7) assms(5) res by (simp add: c1_def cursor_ok_def ahead_def)
  qed
qed

lemma values_from_bounded:
  assumes "btree_ok cmp t" "set (contents t) \<subseteq> D"
  shows "\<exists>c. values_from t (Some cut) inclusive = Some c \<and> cursor_ok c \<and> \<not> started c \<and>
      ahead c = scan_forward (Some cut) inclusive (contents t)"
    and "\<exists>c. values_from_reversed t (Some cut) inclusive = Some c \<and> cursor_ok c \<and> \<not> started c \<and>
      ahead c = scan_reverse (Some cut) inclusive (contents t)"
proof -
  have srt: "sorted_by cmp (inorder (root t))" "set (inorder (root t)) \<subseteq> D" and len: "tsize t = length (contents t)"
    using assms by (simp_all add: btree_ok_def contents_def)
  have empty: "stack (cursor_empty rv) = []" "rvs (cursor_empty rv) = rv" "started (cursor_empty rv) = False" for rv
    by (simp_all add: cursor_empty_def)
  show "\<exists>c. values_from t (Some cut) inclusive = Some c \<and> cursor_ok c \<and> \<not> started c \<and>
      ahead c = scan_forward (Some cut) inclusive (contents t)"
  proof (cases "tsize t = 0")
    case True
    then show ?thesis using len by (simp add: values_from_def scan_forward_def empty)
  next
    case False
    then show ?thesis
      using descend_seek_ok [OF btree_ok_node [OF assms(1) False] srt empty(1), of False inclusive] empty
      by (fastforce simp: values_from_def contents_def)
  qed
  show "\<exists>c. values_from_reversed t (Some cut) inclusive = Some c \<and> cursor_ok c \<and> \<not> started c \<and>
      ahead c = scan_reverse (Some cut) inclusive (contents t)"
  proof (cases "tsize t = 0")
    case True
    then show ?thesis using len by (simp add: values_from_reversed_def scan_reverse_def empty)
  next
    case False
    then show ?thesis
      using descend_seek_reverse_ok [OF btree_ok_node [OF assms(1) False] srt empty(1), of True inclusive] empty
        normalize_reverse_id
      by (fastforce simp: values_from_reversed_def contents_def)
  qed
qed

end

end
