(* ===== verification/Ordered_Set.thy ===== *)
theory Ordered_Set
  imports Comparator
begin

text \<open>
  The contract of an ordered set of rows, as its clients (the row sources) rely on it: the
  abstract value of a set is a list that is strictly sorted by the comparator; insertion,
  deletion and lookup never panic on the carrier and act as \<open>ins_by\<close>, \<open>del_by\<close> and
  \<open>get_by\<close> on it. The B+tree implements this contract (theory \<open>Row_Index\<close>).
\<close>

section \<open>Lookups after writes\<close>

context comparator_on
begin

lemma get_by_cong_key:
  assumes "set xs \<subseteq> D" "x \<in> D" "y \<in> D" "cmp x y = Some Equal"
  shows "get_by cmp x xs = get_by cmp y xs"
  using assms(1)
proof (induction xs)
  case (Cons z zs)
  then have "cmp z x = cmp z y" using assms cmp_eq_cong_right [of x y z] by simp
  then show ?case using Cons by (simp add: get_by_def)
qed (simp add: get_by_def)

lemma find_filter_irrelevant:
  "(\<And>z. z \<in> set xs \<Longrightarrow> p z \<Longrightarrow> q z) \<Longrightarrow> List.find p (filter q xs) = List.find p xs"
  by (induction xs) auto

lemma get_by_del_same:
  "set xs \<subseteq> D \<Longrightarrow> x \<in> D \<Longrightarrow> get_by cmp x (del_by cmp x xs) = None"
  by (auto intro!: get_by_none simp: del_by_def set_below set_above)

text \<open>In a sorted list the rows below and above a key are everything but the row at the key.\<close>

lemma below_above_filter:
  assumes "sorted_by cmp xs" "set xs \<subseteq> D" "x \<in> D"
  shows "del_by cmp x xs = filter (\<lambda>z. cmp z x \<noteq> Some Equal) xs"
  using assms(1,2)
proof (induction xs)
  case (Cons z zs)
  from Cons.prems have z: "z \<in> D" by simp
  from z assms(3) show ?case
  proof (cases rule: cmp_cases)
    case Less
    then show ?thesis using Cons by (simp add: del_by_def)
  next
    case Equal
    then have "below cmp x zs = [] \<and> above cmp x zs = zs"
      using sorted_split_above [of "[]" z zs x] Cons.prems assms(3) by simp
    then show ?thesis using Equal Cons by (simp add: del_by_def)
  next
    case Greater
    then have "below cmp x zs = [] \<and> above cmp x zs = zs"
      using sorted_split_above [of "[]" z zs x] Cons.prems assms(3) by simp
    then show ?thesis using Greater Cons by (simp add: del_by_def)
  qed
qed (simp add: del_by_def)

lemma get_by_del_other:
  assumes "sorted_by cmp xs" "set xs \<subseteq> D" "x \<in> D" "y \<in> D" "cmp x y \<noteq> Some Equal"
  shows "get_by cmp y (del_by cmp x xs) = get_by cmp y xs"
  unfolding below_above_filter [OF assms(1-3)] get_by_def
proof (rule find_filter_irrelevant)
  fix z assume z: "z \<in> set xs" "cmp z y = Some Equal"
  then have "cmp x z = cmp x y" using cmp_eq_cong_right [of z y x] assms by auto
  then show "cmp z x \<noteq> Some Equal" using cmp_eq_sym [of z x] z assms by auto
qed

lemma get_by_ins:
  assumes "sorted_by cmp xs" "set xs \<subseteq> D" "x \<in> D" "y \<in> D"
  shows "get_by cmp y (ins_by cmp x xs) = (if cmp x y = Some Equal then Some x else get_by cmp y xs)"
proof (cases "cmp x y = Some Equal")
  case True
  have "sorted_by cmp (below cmp x xs @ x # above cmp x xs)" "set (below cmp x xs @ x # above cmp x xs) \<subseteq> D"
    using sorted_ins_by [OF assms(1-3)] assms by (auto simp: ins_by_def set_below set_above)
  then show ?thesis using get_by_unique True assms(4) by (simp add: ins_by_def)
next
  case False
  have "get_by cmp y (x # zs) = get_by cmp y zs" for zs using False by (simp add: get_by_def)
  then have "get_by cmp y (ins_by cmp x xs) = get_by cmp y (del_by cmp x xs)"
    by (simp add: ins_by_def del_by_def get_by_append split: option.split)
  then show ?thesis using False get_by_del_other [OF assms False] by simp
qed

end

section \<open>Histories of writes\<close>

datatype 'a write_op = Put 'a | Del 'a

fun run_writes :: "('s \<Rightarrow> 'a \<Rightarrow> ('s \<times> bool) option) \<Rightarrow> ('s \<Rightarrow> 'a \<Rightarrow> ('s \<times> bool) option) \<Rightarrow> 's \<Rightarrow> 'a write_op list \<Rightarrow> 's option" where
  "run_writes add del s [] = Some s"
| "run_writes add del s (Put x # ws) = do { (s', _) \<leftarrow> add s x; run_writes add del s' ws }"
| "run_writes add del s (Del x # ws) = do { (s', _) \<leftarrow> del s x; run_writes add del s' ws }"

fun apply_writes :: "('a \<Rightarrow> 'a \<Rightarrow> ordering option) \<Rightarrow> 'a list \<Rightarrow> 'a write_op list \<Rightarrow> 'a list" where
  "apply_writes cmp xs [] = xs"
| "apply_writes cmp xs (Put x # ws) = apply_writes cmp (ins_by cmp x xs) ws"
| "apply_writes cmp xs (Del x # ws) = apply_writes cmp (del_by cmp x xs) ws"

fun write_key :: "'a write_op \<Rightarrow> 'a" where
  "write_key (Put x) = x"
| "write_key (Del x) = x"

section \<open>The contract\<close>

locale ordered_set = comparator_on D cmp for D :: "'a set" and cmp +
  fixes good :: "'s \<Rightarrow> bool" and elems :: "'s \<Rightarrow> 'a list"
    and lookup :: "'s \<Rightarrow> 'a \<Rightarrow> 'a option option"
    and add :: "'s \<Rightarrow> 'a \<Rightarrow> ('s \<times> bool) option" and del :: "'s \<Rightarrow> 'a \<Rightarrow> ('s \<times> bool) option"
  assumes good_elems: "good s \<Longrightarrow> sorted_by cmp (elems s) \<and> set (elems s) \<subseteq> D"
    and lookup_ok: "good s \<Longrightarrow> x \<in> D \<Longrightarrow> lookup s x = Some (get_by cmp x (elems s))"
    and add_ok: "good s \<Longrightarrow> x \<in> D \<Longrightarrow>
      \<exists>s'. add s x = Some (s', get_by cmp x (elems s) = None) \<and> good s' \<and> elems s' = ins_by cmp x (elems s)"
    and del_ok: "good s \<Longrightarrow> x \<in> D \<Longrightarrow>
      \<exists>s'. del s x = Some (s', get_by cmp x (elems s) \<noteq> None) \<and> good s' \<and> elems s' = del_by cmp x (elems s)"
begin

lemma lookup_add:
  assumes "good s" "x \<in> D" "y \<in> D"
  shows "\<exists>s' b. add s x = Some (s', b) \<and>
    lookup s' y = (if cmp x y = Some Equal then Some (Some x) else lookup s y)"
proof -
  obtain s' where s': "add s x = Some (s', get_by cmp x (elems s) = None)" "good s'" "elems s' = ins_by cmp x (elems s)"
    using add_ok assms by blast
  have "lookup s' y = Some (if cmp x y = Some Equal then Some x else get_by cmp y (elems s))"
    using lookup_ok [OF s'(2) assms(3)] s'(3) get_by_ins [of "elems s" x y] good_elems [OF assms(1)] assms by simp
  then show ?thesis using s'(1) lookup_ok assms by auto
qed

lemma lookup_del:
  assumes "good s" "x \<in> D" "y \<in> D"
  shows "\<exists>s' b. del s x = Some (s', b) \<and>
    lookup s' y = (if cmp x y = Some Equal then Some None else lookup s y)"
proof -
  obtain s' where s': "del s x = Some (s', get_by cmp x (elems s) \<noteq> None)" "good s'" "elems s' = del_by cmp x (elems s)"
    using del_ok assms by blast
  note g = good_elems [OF assms(1)]
  have "get_by cmp y (del_by cmp x (elems s)) = (if cmp x y = Some Equal then None else get_by cmp y (elems s))"
  proof (cases "cmp x y = Some Equal")
    case True
    have "set (del_by cmp x (elems s)) \<subseteq> D" using g by (auto simp: del_by_def set_below set_above)
    then show ?thesis using True get_by_cong_key [of "del_by cmp x (elems s)" x y] get_by_del_same g assms by simp
  next
    case False
    then show ?thesis using get_by_del_other [of "elems s" x y] g assms by simp
  qed
  then show ?thesis using s' lookup_ok [OF s'(2) assms(3)] lookup_ok [OF assms(1,3)] by auto
qed

text \<open>Every history of writes runs to completion and computes the abstract history.\<close>

lemma run_writes_ok:
  "good s \<Longrightarrow> \<forall>w\<in>set ws. write_key w \<in> D \<Longrightarrow>
   \<exists>s'. run_writes add del s ws = Some s' \<and> good s' \<and> elems s' = apply_writes cmp (elems s) ws"
proof (induction ws arbitrary: s)
  case (Cons w ws)
  show ?case
  proof (cases w)
    case (Put x)
    then obtain s1 b where "add s x = Some (s1, b)" "good s1" "elems s1 = ins_by cmp x (elems s)"
      using add_ok [of s x] Cons.prems by auto
    then show ?thesis using Cons.IH [of s1] Cons.prems Put by auto
  next
    case (Del x)
    then obtain s1 b where "del s x = Some (s1, b)" "good s1" "elems s1 = del_by cmp x (elems s)"
      using del_ok [of s x] Cons.prems by auto
    then show ?thesis using Cons.IH [of s1] Cons.prems Del by auto
  qed
qed simp

end

end
