(* ===== verification/Row_Index.thy ===== *)
theory Row_Index
  imports Cursor Ordered_Set
begin

text \<open>
  A row index: the B+tree of \<open>rust/src/btree.rs\<close> ordered by \<open>compare_rows\<close>, scanned from row
  bounds. The tree is shown to implement the ordered-set contract on the rows that
  conform to a typing of the sort columns, which is the documented precondition of the
  tree; the properties of this theory are the row-level correctness statements.
\<close>

definition index_ok :: "(col_id \<Rightarrow> kind) \<Rightarrow> sort \<Rightarrow> row btree \<Rightarrow> bool" where
  "index_ok ty srt t = (btree_ok (compare_rows srt) t \<and> (\<forall>r\<in>set (contents t). row_ok ty srt r))"

lemma set_ins_del_conform:
  "(\<forall>r\<in>set xs. P r) \<Longrightarrow> P x \<Longrightarrow> \<forall>r\<in>set (ins_by cmp x xs). P r"
  "(\<forall>r\<in>set xs. P r) \<Longrightarrow> \<forall>r\<in>set (del_by cmp x xs). P r"
  by (auto simp: ins_by_def del_by_def set_below set_above)

interpretation tree_set: ordered_set "{r. row_ok ty srt r}" "compare_rows srt" "index_ok ty srt" contents
    "btree_get (compare_rows srt)" "btree_add (compare_rows srt)" "btree_delete (compare_rows srt)" for ty srt
proof
  fix t :: "row btree" and x :: row
  assume t: "index_ok ty srt t"
  then have ok: "btree_ok (compare_rows srt) t" "set (contents t) \<subseteq> {r. row_ok ty srt r}" by (auto simp: index_ok_def)
  have all: "\<forall>r\<in>set (contents t). row_ok ty srt r" using t by (simp add: index_ok_def)
  from ok show "sorted_by (compare_rows srt) (contents t) \<and> set (contents t) \<subseteq> {r. row_ok ty srt r}"
    by (simp add: btree_ok_def)
  assume x: "x \<in> {r. row_ok ty srt r}"
  show "btree_get (compare_rows srt) t x = Some (get_by (compare_rows srt) x (contents t))"
    by (rule row_order.btree_get_ok [OF ok x])
  show "\<exists>s'. btree_add (compare_rows srt) t x = Some (s', get_by (compare_rows srt) x (contents t) = None) \<and>
      index_ok ty srt s' \<and> contents s' = ins_by (compare_rows srt) x (contents t)"
    using row_order.btree_add_ok [OF ok x] x set_ins_del_conform(1) [OF all, of x] by (auto simp: index_ok_def)
  show "\<exists>s'. btree_delete (compare_rows srt) t x = Some (s', get_by (compare_rows srt) x (contents t) \<noteq> None) \<and>
      index_ok ty srt s' \<and> contents s' = del_by (compare_rows srt) x (contents t)"
    using row_order.btree_delete_ok [OF ok x] set_ins_del_conform(2) [OF all] by (auto simp: index_ok_def)
qed

lemma index_ok_new [simp]: "index_ok ty srt btree_new"
  by (simp add: index_ok_def)

lemma index_ok_check:
  "(\<And>r. ptr_eq r r) \<Longrightarrow> index_ok ty srt t \<Longrightarrow> check_invariants ptr_eq (compare_rows srt) t = Some (Inr ())"
  using row_order.check_invariants_ok [of ptr_eq srt t] by (simp add: index_ok_def)

text \<open>A conforming row bound is a cut of the row order; a bound that does not conform is replaced
  by the bound below every row, so that the interpretation needs no premise.\<close>

definition row_cut :: "(col_id \<Rightarrow> kind) \<Rightarrow> sort \<Rightarrow> row_bound \<Rightarrow> row \<Rightarrow> ordering option" where
  "row_cut ty srt b = (if bound_ok ty b then cmp_bound_row srt b else (\<lambda>_. Some Less))"

interpretation bound_scan: cut_on "{r. row_ok ty srt r}" "compare_rows srt" "row_cut ty srt b" for ty srt b
proof (cases "bound_ok ty b")
  case True
  then show "cut_on {r. row_ok ty srt r} (compare_rows srt) (row_cut ty srt b)"
    using bound_cut [of ty b srt] by (simp add: row_cut_def)
next
  case False
  then show "cut_on {r. row_ok ty srt r} (compare_rows srt) (row_cut ty srt b)"
    by unfold_locales (simp_all add: row_cut_def)
qed

lemma index_scan_ok:
  assumes "index_ok ty srt t" "\<And>b. bnd = Some b \<Longrightarrow> bound_ok ty b"
  shows "\<exists>c. values_from t (map_option (cmp_bound_row srt) bnd) inclusive = Some c \<and> cursor_ok c \<and> \<not> started c \<and>
      ahead c = scan_forward (map_option (cmp_bound_row srt) bnd) inclusive (contents t)"
    and "\<exists>c. values_from_reversed t (map_option (cmp_bound_row srt) bnd) inclusive = Some c \<and> cursor_ok c \<and> \<not> started c \<and>
      ahead c = scan_reverse (map_option (cmp_bound_row srt) bnd) inclusive (contents t)"
proof -
  have ok: "btree_ok (compare_rows srt) t" "set (contents t) \<subseteq> {r. row_ok ty srt r}"
    using assms(1) by (auto simp: index_ok_def)
  have cut: "bnd = Some b \<Longrightarrow> row_cut ty srt b = cmp_bound_row srt b" for b
    using assms(2) by (simp add: row_cut_def)
  show "\<exists>c. values_from t (map_option (cmp_bound_row srt) bnd) inclusive = Some c \<and> cursor_ok c \<and> \<not> started c \<and>
      ahead c = scan_forward (map_option (cmp_bound_row srt) bnd) inclusive (contents t)"
  proof (cases bnd)
    case None
    then show ?thesis using values_from_unbounded(1) [OF ok(1), of inclusive] by (simp add: scan_forward_def)
  next
    case (Some b)
    then show ?thesis using bound_scan.values_from_bounded(1) [OF ok, of b inclusive] cut by simp
  qed
  show "\<exists>c. values_from_reversed t (map_option (cmp_bound_row srt) bnd) inclusive = Some c \<and> cursor_ok c \<and> \<not> started c \<and>
      ahead c = scan_reverse (map_option (cmp_bound_row srt) bnd) inclusive (contents t)"
  proof (cases bnd)
    case None
    then show ?thesis using values_from_unbounded(2) [OF ok(1), of inclusive] by (simp add: scan_reverse_def)
  next
    case (Some b)
    then show ?thesis using bound_scan.values_from_bounded(2) [OF ok, of b inclusive] cut by simp
  qed
qed

lemma length_scans:
  "length (scan_forward bnd inclusive xs) \<le> length xs" "length (scan_reverse bnd inclusive xs) \<le> length xs"
  by (auto simp: scan_forward_def scan_reverse_def split: option.split)

lemma index_scan_drain:
  assumes "index_ok ty srt t" "\<And>b. bnd = Some b \<Longrightarrow> bound_ok ty b" "length (contents t) < fuel"
  shows "(do { c \<leftarrow> values_from t (map_option (cmp_bound_row srt) bnd) inclusive; drain fuel c }) =
      Some (scan_forward (map_option (cmp_bound_row srt) bnd) inclusive (contents t))"
    and "(do { c \<leftarrow> values_from_reversed t (map_option (cmp_bound_row srt) bnd) inclusive; drain fuel c }) =
      Some (scan_reverse (map_option (cmp_bound_row srt) bnd) inclusive (contents t))"
proof -
  obtain c where c: "values_from t (map_option (cmp_bound_row srt) bnd) inclusive = Some c" "cursor_ok c" "\<not> started c"
    "ahead c = scan_forward (map_option (cmp_bound_row srt) bnd) inclusive (contents t)"
    using index_scan_ok(1) [of ty srt t bnd inclusive] assms by blast
  have "length (ahead c) < fuel" using c(4) length_scans(1) assms(3) by (metis le_less_trans)
  then show "(do { c \<leftarrow> values_from t (map_option (cmp_bound_row srt) bnd) inclusive; drain fuel c }) =
      Some (scan_forward (map_option (cmp_bound_row srt) bnd) inclusive (contents t))"
    using c drain_ok [OF c(2,3)] by simp
  obtain d where d: "values_from_reversed t (map_option (cmp_bound_row srt) bnd) inclusive = Some d" "cursor_ok d" "\<not> started d"
    "ahead d = scan_reverse (map_option (cmp_bound_row srt) bnd) inclusive (contents t)"
    using index_scan_ok(2) [of ty srt t bnd inclusive] assms by blast
  have "length (ahead d) < fuel" using d(4) length_scans(2) assms(3) by (metis le_less_trans)
  then show "(do { c \<leftarrow> values_from_reversed t (map_option (cmp_bound_row srt) bnd) inclusive; drain fuel c }) =
      Some (scan_reverse (map_option (cmp_bound_row srt) bnd) inclusive (contents t))"
    using d drain_ok [OF d(2,3)] by simp
qed

section \<open>Properties\<close>

text \<open>A small typing, sort and tree for the concrete instances: one numeric key column.\<close>

abbreviation key_ty :: "col_id \<Rightarrow> kind" where
  "key_ty \<equiv> (\<lambda>_. KNum)"

abbreviation key_sort :: sort where
  "key_sort \<equiv> [(0, True)]"

definition sample_tree :: "row btree" where
  "sample_tree = \<lparr> root = Internal [[IntV 2], [IntV 5]] [Leaf [[IntV 1], [IntV 2]], Leaf [[IntV 5]]], tsize = 3 \<rparr>"

lemmas eval_rows = compare_cell_def row_col_def vec_get_def apply_dir_def cmp_of_def

lemma sample_tree_ok: "index_ok key_ty key_sort sample_tree" "contents sample_tree = [[IntV 1], [IntV 2], [IntV 5]]"
  by (simp_all add: sample_tree_def index_ok_def btree_ok_def contents_def root_ok_def MAX_NODE_SIZE_def eval_rows)

text \<open>(C4) Every history of insertions and deletions of conforming rows, started on the empty tree,
  runs without a panic, keeps the tree invariant (balance, occupancy, cached maxima, order, size) and leaves
  exactly the rows that the same history leaves in a sorted list.\<close>

theorem btree_history_refines:
  assumes "\<forall>w\<in>set ws. row_ok ty srt (write_key w)"
  shows "\<exists>t. run_writes (btree_add (compare_rows srt)) (btree_delete (compare_rows srt)) btree_new ws = Some t \<and>
    index_ok ty srt t \<and> contents t = apply_writes (compare_rows srt) [] ws \<and> btree_len t = length (contents t)"
  using tree_set.run_writes_ok [OF index_ok_new, of ws ty srt] assms
  by (auto simp: btree_len_def index_ok_def btree_ok_def)

theorem btree_history_refines_witness:
  "\<exists>t. run_writes (btree_add (compare_rows key_sort)) (btree_delete (compare_rows key_sort)) btree_new
      [Put [IntV 2], Put [IntV 7], Del [IntV 2]] = Some t \<and> contents t = [[IntV 7]] \<and> btree_len t = 1"
  using btree_history_refines [of "[Put [IntV 2], Put [IntV 7], Del [IntV 2]]" key_ty key_sort]
  by (auto simp: ins_by_def del_by_def eval_rows)

text \<open>Inserting into a well-formed index never panics, reports whether the key was new, keeps the
  index well-formed, and a later lookup finds the inserted row under its key and every other row unchanged.\<close>

theorem btree_add_get:
  assumes "index_ok ty srt t" "row_ok ty srt x" "row_ok ty srt y"
  shows "\<exists>t'. btree_add (compare_rows srt) t x = Some (t', btree_has (compare_rows srt) t x = Some False) \<and>
    index_ok ty srt t' \<and> contents t' = ins_by (compare_rows srt) x (contents t) \<and>
    btree_get (compare_rows srt) t' y =
      (if compare_rows srt x y = Some Equal then Some (Some x) else btree_get (compare_rows srt) t y)"
proof -
  have D: "x \<in> {r. row_ok ty srt r}" "y \<in> {r. row_ok ty srt r}" using assms by simp_all
  have ok: "btree_ok (compare_rows srt) t" "set (contents t) \<subseteq> {r. row_ok ty srt r}"
    using assms(1) by (auto simp: index_ok_def)
  show ?thesis
    using tree_set.add_ok [OF assms(1) D(1)] tree_set.lookup_add [OF assms(1) D]
      row_order.btree_get_ok(2) [OF ok D(1)] by fastforce
qed

theorem btree_add_get_witness:
  "\<exists>t'. btree_add (compare_rows key_sort) sample_tree [IntV 3] = Some (t', True) \<and>
     contents t' = [[IntV 1], [IntV 2], [IntV 3], [IntV 5]] \<and>
     btree_get (compare_rows key_sort) t' [IntV 3] = Some (Some [IntV 3])"
proof -
  have has: "btree_has (compare_rows key_sort) sample_tree [IntV 3] = Some False"
    using row_order.btree_get_ok(2) [of key_sort sample_tree key_ty "[IntV 3]"] sample_tree_ok
    by (simp add: index_ok_def get_by_def eval_rows)
  have "row_ok key_ty key_sort [IntV 3]" by simp
  from btree_add_get [OF sample_tree_ok(1) this this]
  show ?thesis using sample_tree_ok(2) by (auto simp: has ins_by_def eval_rows)
qed

text \<open>Deleting from a well-formed index never panics, reports whether the key was present, keeps
  the index well-formed through merges and root collapses, and removes exactly the row with that key.\<close>

theorem btree_delete_get:
  assumes "index_ok ty srt t" "row_ok ty srt x" "row_ok ty srt y"
  shows "\<exists>t'. btree_delete (compare_rows srt) t x = Some (t', btree_has (compare_rows srt) t x = Some True) \<and>
    index_ok ty srt t' \<and> contents t' = del_by (compare_rows srt) x (contents t) \<and>
    btree_get (compare_rows srt) t' y =
      (if compare_rows srt x y = Some Equal then Some None else btree_get (compare_rows srt) t y)"
proof -
  have D: "x \<in> {r. row_ok ty srt r}" "y \<in> {r. row_ok ty srt r}" using assms by simp_all
  have ok: "btree_ok (compare_rows srt) t" "set (contents t) \<subseteq> {r. row_ok ty srt r}"
    using assms(1) by (auto simp: index_ok_def)
  show ?thesis
    using tree_set.del_ok [OF assms(1) D(1)] tree_set.lookup_del [OF assms(1) D]
      row_order.btree_get_ok(2) [OF ok D(1)] by fastforce
qed

theorem btree_delete_get_witness:
  "\<exists>t'. btree_delete (compare_rows key_sort) sample_tree [IntV 5] = Some (t', True) \<and>
     contents t' = [[IntV 1], [IntV 2]] \<and> btree_get (compare_rows key_sort) t' [IntV 5] = Some None"
proof -
  have has: "btree_has (compare_rows key_sort) sample_tree [IntV 5] = Some True"
    using row_order.btree_get_ok(2) [of key_sort sample_tree key_ty "[IntV 5]"] sample_tree_ok
    by (simp add: index_ok_def get_by_def eval_rows)
  have "row_ok key_ty key_sort [IntV 5]" by simp
  from btree_delete_get [OF sample_tree_ok(1) this this]
  show ?thesis using sample_tree_ok(2) by (auto simp: has del_by_def eval_rows)
qed

text \<open>Bulk loading strictly sorted rows builds a well-formed tree that holds exactly those rows.\<close>

theorem from_sorted_correct:
  assumes "sorted_by (compare_rows srt) rows" "\<forall>r\<in>set rows. row_ok ty srt r"
  shows "\<exists>t. from_sorted (compare_rows srt) rows = Some t \<and> index_ok ty srt t \<and> contents t = rows"
  using from_sorted_ok [OF assms(1)] assms(2) by (auto simp: index_ok_def)

theorem from_sorted_correct_witness:
  "\<exists>t. from_sorted (compare_rows key_sort) [[IntV 1], [IntV 4]] = Some t \<and> index_ok key_ty key_sort t \<and>
     contents t = [[IntV 1], [IntV 4]]"
  by (rule from_sorted_correct) (simp_all add: eval_rows)

text \<open>The structural self-check accepts every well-formed index. (Row handles are compared with
  \<open>ptr_eq\<close>, of which only reflexivity is used: a cloned handle is the same handle.)\<close>

theorem check_invariants_accepts:
  assumes "\<And>r. ptr_eq r r" "index_ok ty srt t"
  shows "check_invariants ptr_eq (compare_rows srt) t = Some (Inr ())"
  using assms by (rule index_ok_check)

theorem check_invariants_accepts_witness:
  "check_invariants (=) (compare_rows key_sort) sample_tree = Some (Inr ())"
  by (rule check_invariants_accepts [OF refl sample_tree_ok(1)])

text \<open>A forward scan from a bound, drained, returns exactly the rows at or after the bound
  (strictly after it when exclusive), in index order, and the cursor never panics; one pull more than the number of rows
  is enough.\<close>

theorem values_from_drain:
  assumes "index_ok ty srt t" "\<And>b. bnd = Some b \<Longrightarrow> bound_ok ty b" "length (contents t) < fuel"
  shows "(do { c \<leftarrow> values_from t (map_option (cmp_bound_row srt) bnd) inclusive; drain fuel c }) =
    Some (scan_forward (map_option (cmp_bound_row srt) bnd) inclusive (contents t))"
  by (rule index_scan_drain(1) [OF assms])

theorem values_from_drain_witness:
  "(do { c \<leftarrow> values_from sample_tree (Some (cmp_bound_row key_sort [(0, BVal (IntV 2))])) False; drain 4 c }) =
     Some [[IntV 5]]"
  using values_from_drain [OF sample_tree_ok(1), of "Some [(0, BVal (IntV 2))]" 4 False] sample_tree_ok(2)
  by (simp add: bound_ok_def scan_forward_def) (simp add: eval_rows)

text \<open>A reverse scan from a bound returns exactly the rows at or before the bound (strictly before
  it when exclusive), in descending order.\<close>

theorem values_from_reversed_drain:
  assumes "index_ok ty srt t" "\<And>b. bnd = Some b \<Longrightarrow> bound_ok ty b" "length (contents t) < fuel"
  shows "(do { c \<leftarrow> values_from_reversed t (map_option (cmp_bound_row srt) bnd) inclusive; drain fuel c }) =
    Some (scan_reverse (map_option (cmp_bound_row srt) bnd) inclusive (contents t))"
  by (rule index_scan_drain(2) [OF assms])

theorem values_from_reversed_drain_witness:
  "(do { c \<leftarrow> values_from_reversed sample_tree (Some (cmp_bound_row key_sort [(0, BVal (IntV 2))])) True; drain 4 c }) =
     Some [[IntV 2], [IntV 1]]"
  using values_from_reversed_drain [OF sample_tree_ok(1), of "Some [(0, BVal (IntV 2))]" 4 True] sample_tree_ok(2)
  by (simp add: bound_ok_def scan_reverse_def) (simp add: eval_rows)

end
