(* ===== verification/Predicates.thy ===== *)
theory Predicates
  imports Rows
begin

text \<open>
  The compiled leaf predicate of \<open>rust/src/predicate.rs\<close>: comparisons, \<open>IN\<close> sets, \<open>IS\<close>,
  \<open>LIKE\<close>/\<open>ILIKE\<close> with its pattern compiler and its backtracking matcher.

  The matcher's loop is a total function: its termination measure counts how far the restart
  point of the last \<open>%\<close> has advanced. It is shown to decide the declarative meaning of the
  pattern, read byte by byte with the backslash escape.
\<close>

section \<open>The \<open>LIKE\<close> matcher\<close>

datatype like_tok = Lit "byte list" | One | Any

record like_matcher =
  toks :: "like_tok list"
  case_insensitive :: bool

definition flush :: "byte list \<Rightarrow> like_tok list \<Rightarrow> byte list \<times> like_tok list" where
  "flush lit ts = (if lit \<noteq> [] then ([], ts @ [Lit lit]) else (lit, ts))"

definition backslash :: byte where "backslash = 92"
definition percent :: byte where "percent = 37"
definition underscore :: byte where "underscore = 95"

lemmas byte_codes = backslash_def percent_def underscore_def

text \<open>The compile loop; the list argument is the rest of the pattern from index \<open>i\<close>.\<close>

fun compile_loop :: "byte list \<Rightarrow> byte list \<Rightarrow> like_tok list \<Rightarrow> byte list \<times> like_tok list" where
  "compile_loop [] lit ts = (lit, ts)"
| "compile_loop (b # rest) lit ts =
     (if b = backslash then
        (case rest of
           n # rest' \<Rightarrow>
             if n = percent \<or> n = underscore \<or> n = backslash then compile_loop rest' (lit @ [n]) ts
             else compile_loop rest' (lit @ [backslash, n]) ts
         | [] \<Rightarrow> compile_loop rest (lit @ [backslash]) ts)
      else if b = percent then
        let (lit', ts') = flush lit ts in
        compile_loop rest lit' (if ts' \<noteq> [] \<and> last ts' = Any then ts' else ts' @ [Any])
      else if b = underscore then
        let (lit', ts') = flush lit ts in compile_loop rest lit' (ts' @ [One])
      else compile_loop rest (lit @ [b]) ts)"

definition compile_with_case :: "byte list \<Rightarrow> bool \<Rightarrow> like_matcher" where
  "compile_with_case pattern ci =
     (let (lit, ts) = compile_loop pattern [] []
      in \<lparr> toks = snd (flush lit ts), case_insensitive = ci \<rparr>)"

definition compile :: "byte list \<Rightarrow> like_matcher" where
  "compile pattern = compile_with_case pattern False"

definition compile_case_insensitive :: "byte list \<Rightarrow> like_matcher" where
  "compile_case_insensitive pattern = compile_with_case pattern True"

definition ascii_lower :: "byte \<Rightarrow> byte" where
  "ascii_lower b = (if 65 \<le> b \<and> b \<le> 90 then b + 32 else b)"

definition lit_matches :: "bool \<Rightarrow> byte list \<Rightarrow> nat \<Rightarrow> byte list \<Rightarrow> bool" where
  "lit_matches ci tx start run =
     (let stop = start + length run in
      if stop > length tx then False
      else if ci then map ascii_lower (take (stop - start) (drop start tx)) = map ascii_lower run
      else take (length run) (drop start tx) = run)"

definition star_bad :: "nat \<Rightarrow> (nat \<times> nat) option \<Rightarrow> nat" where
  "star_bad ti star = (case star of None \<Rightarrow> 0 | Some (st, ss) \<Rightarrow> if st \<le> ti then 0 else 1)"

definition star_left :: "nat \<Rightarrow> (nat \<times> nat) option \<Rightarrow> nat" where
  "star_left n star = (case star of None \<Rightarrow> Suc n | Some (st, ss) \<Rightarrow> n - st)"

definition star_text :: "nat \<Rightarrow> (nat \<times> nat) option \<Rightarrow> nat" where
  "star_text n star = (case star of None \<Rightarrow> 0 | Some (st, ss) \<Rightarrow> n - ss)"

function matches_loop :: "bool \<Rightarrow> like_tok list \<Rightarrow> byte list \<Rightarrow> nat \<Rightarrow> nat \<Rightarrow> (nat \<times> nat) option \<Rightarrow> bool" where
  "matches_loop ci ts tx ti si star =
     (if ti < length ts then
        (case ts ! ti of
           Lit run \<Rightarrow>
             if lit_matches ci tx si run then matches_loop ci ts tx (ti + 1) (si + length run) star
             else (case star of
                 Some (st, ss) \<Rightarrow> if ss + 1 > length tx then False
                                 else matches_loop ci ts tx st (ss + 1) (Some (st, ss + 1))
               | None \<Rightarrow> False)
         | One \<Rightarrow>
             if si < length tx then matches_loop ci ts tx (ti + 1) (si + 1) star
             else (case star of
                 Some (st, ss) \<Rightarrow> if ss + 1 > length tx then False
                                 else matches_loop ci ts tx st (ss + 1) (Some (st, ss + 1))
               | None \<Rightarrow> False)
         | Any \<Rightarrow> matches_loop ci ts tx (ti + 1) si (Some (ti + 1, si)))
      else if si = length tx then True
      else (case star of
          Some (st, ss) \<Rightarrow> if ss + 1 > length tx then False
                          else matches_loop ci ts tx st (ss + 1) (Some (st, ss + 1))
        | None \<Rightarrow> False))"
  by pat_completeness auto
termination
  by (relation "measures [\<lambda>(ci, ts, tx, ti, si, star). star_bad ti star,
        \<lambda>(ci, ts, tx, ti, si, star). star_left (length ts) star,
        \<lambda>(ci, ts, tx, ti, si, star). star_text (length tx) star,
        \<lambda>(ci, ts, tx, ti, si, star). length ts - ti]")
    (auto simp: star_bad_def star_left_def star_text_def split: option.splits if_splits)

declare matches_loop.simps [simp del]

definition matches :: "like_matcher \<Rightarrow> byte list \<Rightarrow> bool" where
  "matches m tx = matches_loop (case_insensitive m) (toks m) tx 0 0 None"

section \<open>Predicates\<close>

datatype cmp_op = Eq | Ne | Lt | Le | Gt | Ge

record value_set =
  members :: "cell_value list"

definition value_set_contains :: "value_set \<Rightarrow> cell_value \<Rightarrow> bool" where
  "value_set_contains s needle = list_ex (\<lambda>v. values_identical v needle) (members s)"

datatype compiled_predicate =
    Cmp col_id cmp_op cell_value
  | In col_id value_set bool
  | Like col_id like_matcher bool
  | Is col_id cell_value bool
  | IsNull col_id bool
  | Const bool

definition is_null :: "cell_value \<Rightarrow> bool" where
  "is_null v = (v = Null)"

fun cmp_op_matches :: "cmp_op \<Rightarrow> ordering \<Rightarrow> bool" where
  "cmp_op_matches Lt Less = True"
| "cmp_op_matches Le Less = True"
| "cmp_op_matches Le Equal = True"
| "cmp_op_matches Gt Greater = True"
| "cmp_op_matches Ge Greater = True"
| "cmp_op_matches Ge Equal = True"
| "cmp_op_matches _ _ = False"

fun eval :: "compiled_predicate \<Rightarrow> row \<Rightarrow> bool option" where
  "eval (Const b) r = Some b"
| "eval (Is col v negated) r = do { cell \<leftarrow> row_col r col; Some (values_identical cell v \<noteq> negated) }"
| "eval (IsNull col negated) r = do { cell \<leftarrow> row_col r col; Some (is_null cell \<noteq> negated) }"
| "eval (Cmp col oper v) r = do {
     cell \<leftarrow> row_col r col;
     if is_null cell then Some False
     else (case oper of
         Eq \<Rightarrow> Some (values_identical cell v)
       | Ne \<Rightarrow> Some (\<not> values_identical cell v)
       | _ \<Rightarrow> if is_null v then Some False
              else Some (cmp_op_matches oper (compare_predicate_values cell v)))
   }"
| "eval (In col s negated) r = do {
     cell \<leftarrow> row_col r col;
     if is_null cell then Some False else Some (value_set_contains s cell \<noteq> negated)
   }"
| "eval (Like col m negated) r = do {
     cell \<leftarrow> row_col r col;
     if is_null cell then Some False
     else
       let hit = (case cell of Str b \<Rightarrow> matches m b | Json b \<Rightarrow> matches m b | _ \<Rightarrow> False)
       in Some (hit \<noteq> negated)
   }"

section \<open>The meaning of a pattern\<close>

definition run_eq :: "bool \<Rightarrow> byte list \<Rightarrow> byte list \<Rightarrow> bool" where
  "run_eq ci a b = (if ci then map ascii_lower a = map ascii_lower b else a = b)"

text \<open>Declarative matching of a token list: \<open>Any\<close> stands for any run of bytes.\<close>

fun toks_match :: "bool \<Rightarrow> like_tok list \<Rightarrow> byte list \<Rightarrow> bool" where
  "toks_match ci [] t = (t = [])"
| "toks_match ci (Lit run # ts) t =
     (length run \<le> length t \<and> run_eq ci (take (length run) t) run \<and> toks_match ci ts (drop (length run) t))"
| "toks_match ci (One # ts) t = (t \<noteq> [] \<and> toks_match ci ts (tl t))"
| "toks_match ci (Any # ts) t = (\<exists>k\<le>length t. toks_match ci ts (drop k t))"

text \<open>The meaning of a raw pattern, one pattern byte at a time.\<close>

fun like_pattern :: "bool \<Rightarrow> byte list \<Rightarrow> byte list \<Rightarrow> bool" where
  "like_pattern ci [] t = (t = [])"
| "like_pattern ci (b # rest) t =
     (if b = backslash then
        (case rest of
           n # rest' \<Rightarrow>
             if n = percent \<or> n = underscore \<or> n = backslash
             then t \<noteq> [] \<and> run_eq ci [hd t] [n] \<and> like_pattern ci rest' (tl t)
             else 2 \<le> length t \<and> run_eq ci (take 2 t) [backslash, n] \<and> like_pattern ci rest' (drop 2 t)
         | [] \<Rightarrow> t \<noteq> [] \<and> run_eq ci [hd t] [backslash] \<and> tl t = [])
      else if b = percent then \<exists>k\<le>length t. like_pattern ci rest (drop k t)
      else if b = underscore then t \<noteq> [] \<and> like_pattern ci rest (tl t)
      else t \<noteq> [] \<and> run_eq ci [hd t] [b] \<and> like_pattern ci rest (tl t))"

section \<open>The matcher decides the token list\<close>

lemma lit_matches_iff:
  "lit_matches ci tx si run \<longleftrightarrow> si + length run \<le> length tx \<and> run_eq ci (take (length run) (drop si tx)) run"
  by (auto simp: lit_matches_def run_eq_def Let_def)

fun tok_width :: "like_tok \<Rightarrow> nat" where
  "tok_width (Lit run) = length run"
| "tok_width One = 1"
| "tok_width Any = 0"

definition width :: "like_tok list \<Rightarrow> nat" where
  "width ts = sum_list (map tok_width ts)"

lemma width_simps [simp]: "width [] = 0" "width (t # ts) = tok_width t + width ts" "width (ts @ us) = width ts + width us"
  by (simp_all add: width_def)

text \<open>Tokens other than \<open>Any\<close> consume a fixed number of bytes.\<close>

lemma toks_match_fixed:
  "Any \<notin> set seg \<Longrightarrow> toks_match ci (seg @ ts) t \<Longrightarrow> width seg \<le> length t \<and> toks_match ci ts (drop (width seg) t)"
proof (induction seg arbitrary: t)
  case (Cons tok seg)
  show ?case
  proof (cases tok)
    case (Lit run)
    then have "length run \<le> length t" "toks_match ci (seg @ ts) (drop (length run) t)" using Cons.prems by simp_all
    then show ?thesis using Cons.IH [of "drop (length run) t"] Cons.prems(1) Lit by (auto simp: add.commute)
  next
    case One
    then have "t \<noteq> []" "toks_match ci (seg @ ts) (tl t)" using Cons.prems by simp_all
    then show ?thesis using Cons.IH [of "tl t"] Cons.prems(1) One by (cases t) auto
  qed (use Cons.prems in simp)
qed simp

text \<open>The alternatives that a restart point still stands for.\<close>

definition later_match :: "bool \<Rightarrow> like_tok list \<Rightarrow> byte list \<Rightarrow> (nat \<times> nat) option \<Rightarrow> bool" where
  "later_match ci ts tx star = (case star of None \<Rightarrow> False
     | Some (st, ss) \<Rightarrow> \<exists>k. ss < k \<and> k \<le> length tx \<and> toks_match ci (drop st ts) (drop k tx))"

definition star_inv :: "like_tok list \<Rightarrow> nat \<Rightarrow> nat \<Rightarrow> (nat \<times> nat) option \<Rightarrow> bool" where
  "star_inv ts ti si star = (case star of None \<Rightarrow> True
     | Some (st, ss) \<Rightarrow> st \<le> ti \<and> Any \<notin> set (take (ti - st) (drop st ts)) \<and>
         si = ss + width (take (ti - st) (drop st ts)))"

lemma later_match_step:
  "later_match ci ts tx (Some (st, ss)) \<longleftrightarrow> ss + 1 \<le> length tx \<and>
     (toks_match ci (drop st ts) (drop (ss + 1) tx) \<or> later_match ci ts tx (Some (st, ss + 1)))"
proof -
  have "(\<exists>k. ss < k \<and> k \<le> n \<and> P k) \<longleftrightarrow> ss + 1 \<le> n \<and> (P (ss + 1) \<or> (\<exists>k. ss + 1 < k \<and> k \<le> n \<and> P k))" for n P
  proof
    assume "\<exists>k. ss < k \<and> k \<le> n \<and> P k"
    then obtain k where k: "ss < k" "k \<le> n" "P k" by blast
    then show "ss + 1 \<le> n \<and> (P (ss + 1) \<or> (\<exists>k. ss + 1 < k \<and> k \<le> n \<and> P k))"
      by (cases "k = ss + 1") auto
  next
    assume "ss + 1 \<le> n \<and> (P (ss + 1) \<or> (\<exists>k. ss + 1 < k \<and> k \<le> n \<and> P k))"
    then show "\<exists>k. ss < k \<and> k \<le> n \<and> P k" by (metis Suc_eq_plus1 Suc_lessD lessI)
  qed
  then show ?thesis by (simp add: later_match_def)
qed

lemma star_inv_advance:
  assumes "star_inv ts ti si star" "ti < length ts" "ts ! ti \<noteq> Any"
  shows "star_inv ts (ti + 1) (si + tok_width (ts ! ti)) star"
proof (cases star)
  case (Some p)
  obtain st ss where p: "p = (st, ss)" by fastforce
  have st: "st \<le> ti" using assms(1) Some p by (simp add: star_inv_def)
  then have "take (Suc ti - st) (drop st ts) = take (ti - st) (drop st ts) @ [ts ! ti]"
    using assms(2) by (simp add: Suc_diff_le take_Suc_conv_app_nth)
  then show ?thesis using assms Some p st by (auto simp: star_inv_def)
qed (simp add: star_inv_def)

text \<open>When the loop meets \<open>%\<close>, the older restart point is subsumed by the new one.\<close>

lemma later_match_subsumed:
  assumes inv: "star_inv ts ti si star" and ti: "ti < length ts" "ts ! ti = Any"
    and later: "later_match ci ts tx star"
  shows "\<exists>k. si < k \<and> k \<le> length tx \<and> toks_match ci (drop (ti + 1) ts) (drop k tx)"
proof -
  obtain st ss where star: "star = Some (st, ss)" using later by (cases star) (auto simp: later_match_def)
  obtain k where k: "ss < k" "k \<le> length tx" "toks_match ci (drop st ts) (drop k tx)"
    using later by (auto simp: later_match_def star)
  define seg where "seg = take (ti - st) (drop st ts)"
  have seg: "st \<le> ti" "Any \<notin> set seg" "si = ss + width seg" using inv by (auto simp: star_inv_def star seg_def)
  have "drop st ts = seg @ drop ti ts"
    using seg(1) append_take_drop_id [of "ti - st" "drop st ts"] by (simp add: seg_def)
  then have "drop st ts = seg @ Any # drop (ti + 1) ts" using ti by (simp add: Cons_nth_drop_Suc [symmetric])
  then have m: "width seg \<le> length (drop k tx)" "toks_match ci (Any # drop (ti + 1) ts) (drop (width seg) (drop k tx))"
    using toks_match_fixed [OF seg(2), of ci "Any # drop (ti + 1) ts" "drop k tx"] k(3) by simp_all
  then obtain j where j: "j \<le> length tx - (width seg + k)"
    "toks_match ci (drop (ti + 1) ts) (drop (j + (width seg + k)) tx)" by auto
  then have "toks_match ci (drop (ti + 1) ts) (drop (k + width seg + j) tx)"
    by (simp add: ac_simps)
  moreover have "si < k + width seg + j" "k + width seg + j \<le> length tx" using seg(3) k m(1) j(1) by auto
  ultimately show ?thesis by blast
qed

lemma matches_loop_correct:
  "star_inv ts ti si star \<Longrightarrow> si \<le> length tx \<Longrightarrow> ti \<le> length ts \<Longrightarrow>
   matches_loop ci ts tx ti si star \<longleftrightarrow> toks_match ci (drop ti ts) (drop si tx) \<or> later_match ci ts tx star"
proof (induction ci ts tx ti si star rule: matches_loop.induct)
  case (1 ci ts tx ti si star)
  note unf = matches_loop.simps [of ci ts tx ti si star]
  have later_None [simp]: "\<not> later_match ci ts tx None" by (simp add: later_match_def)
  have inv_restart: "star_inv ts st ss' (Some (st, ss'))" for st ss' by (simp add: star_inv_def)
  show ?case
  proof (cases "ti < length ts")
    case ti: True
    have dr: "drop ti ts = ts ! ti # drop (ti + 1) ts" using ti by (simp add: Cons_nth_drop_Suc)
    show ?thesis
    proof (cases "ts ! ti")
      case (Lit run)
      show ?thesis
      proof (cases "lit_matches ci tx si run")
        case True
        then have "matches_loop ci ts tx ti si star = matches_loop ci ts tx (ti + 1) (si + length run) star"
          using ti Lit by (simp add: unf)
        also have "\<dots> \<longleftrightarrow> toks_match ci (drop (ti + 1) ts) (drop (si + length run) tx) \<or> later_match ci ts tx star"
          using "1.IH"(1) [OF ti Lit True] star_inv_advance [OF "1.prems"(1) ti] ti Lit True
          by (simp add: lit_matches_iff)
        finally show ?thesis using True Lit by (auto simp: dr lit_matches_iff add.commute)
      next
        case False
        then have no: "\<not> toks_match ci (drop ti ts) (drop si tx)"
          using "1.prems"(2) Lit by (auto simp: dr lit_matches_iff)
        show ?thesis
        proof (cases star)
          case None
          then show ?thesis unfolding unf using no False ti Lit by simp
        next
          case (Some p)
          obtain st ss where p: "p = (st, ss)" by fastforce
          have "st \<le> length ts" using "1.prems" Some p by (auto simp: star_inv_def)
          then show ?thesis
            using no False ti Lit Some p "1.IH"(2) [OF ti Lit False Some p [symmetric]] inv_restart later_match_step [of ci ts tx st ss]
            unfolding unf by auto
        qed
      qed
    next
      case One
      show ?thesis
      proof (cases "si < length tx")
        case True
        then have "matches_loop ci ts tx ti si star = matches_loop ci ts tx (ti + 1) (si + 1) star"
          using ti One by (simp add: unf)
        also have "\<dots> \<longleftrightarrow> toks_match ci (drop (ti + 1) ts) (drop (si + 1) tx) \<or> later_match ci ts tx star"
          using "1.IH"(3) [OF ti One True] star_inv_advance [OF "1.prems"(1) ti] ti One True by simp
        finally show ?thesis using True One by (simp add: dr tl_drop drop_Suc)
      next
        case False
        then have no: "\<not> toks_match ci (drop ti ts) (drop si tx)" using One by (simp add: dr)
        show ?thesis
        proof (cases star)
          case None
          then show ?thesis unfolding unf using no False ti One by simp
        next
          case (Some p)
          obtain st ss where p: "p = (st, ss)" by fastforce
          have "st \<le> length ts" using "1.prems" Some p by (auto simp: star_inv_def)
          then show ?thesis
            using no False ti One Some p "1.IH"(4) [OF ti One False Some p [symmetric]] inv_restart later_match_step [of ci ts tx st ss]
            unfolding unf by auto
        qed
      qed
    next
      case Any
      have ex: "(\<exists>k\<ge>si. k \<le> length tx \<and> toks_match ci (drop (ti + 1) ts) (drop k tx)) \<longleftrightarrow>
          toks_match ci (drop ti ts) (drop si tx)"
      proof
        assume "\<exists>k\<ge>si. k \<le> length tx \<and> toks_match ci (drop (ti + 1) ts) (drop k tx)"
        then obtain k where "si \<le> k" "k \<le> length tx" "toks_match ci (drop (ti + 1) ts) (drop k tx)" by blast
        then show "toks_match ci (drop ti ts) (drop si tx)" using Any by (auto simp: dr intro!: exI [of _ "k - si"])
      next
        assume "toks_match ci (drop ti ts) (drop si tx)"
        then obtain j where "j \<le> length tx - si" "toks_match ci (drop (ti + 1) ts) (drop (j + si) tx)"
          using Any by (auto simp: dr)
        then show "\<exists>k\<ge>si. k \<le> length tx \<and> toks_match ci (drop (ti + 1) ts) (drop k tx)"
          using "1.prems"(2) by (intro exI [of _ "j + si"]) auto
      qed
      have "matches_loop ci ts tx ti si star = matches_loop ci ts tx (ti + 1) si (Some (ti + 1, si))"
        using ti Any by (simp add: unf)
      also have "\<dots> \<longleftrightarrow> toks_match ci (drop (ti + 1) ts) (drop si tx) \<or> later_match ci ts tx (Some (ti + 1, si))"
        using "1.IH"(5) [OF ti Any] "1.prems"(2) ti inv_restart by simp
      also have "\<dots> \<longleftrightarrow> (\<exists>k\<ge>si. k \<le> length tx \<and> toks_match ci (drop (ti + 1) ts) (drop k tx))"
        using "1.prems"(2) by (auto simp: later_match_def le_less)
      also note ex
      finally have main: "matches_loop ci ts tx ti si star \<longleftrightarrow> toks_match ci (drop ti ts) (drop si tx)" .
      have "later_match ci ts tx star \<Longrightarrow> toks_match ci (drop ti ts) (drop si tx)"
        using later_match_subsumed [OF "1.prems"(1) ti Any, of ci tx] unfolding ex [symmetric]
        by (meson less_imp_le)
      then show ?thesis using main by blast
    qed
  next
    case False
    then have dr: "drop ti ts = []" by simp
    show ?thesis
    proof (cases "si = length tx")
      case True
      then show ?thesis unfolding unf using False by simp
    next
      case si: False
      then have no: "\<not> toks_match ci (drop ti ts) (drop si tx)" using "1.prems"(2) by (simp add: dr)
      show ?thesis
      proof (cases star)
        case None
        then show ?thesis unfolding unf using no False si by simp
      next
        case (Some p)
        obtain st ss where p: "p = (st, ss)" by fastforce
        have "st \<le> length ts" using "1.prems" Some p by (auto simp: star_inv_def)
        then show ?thesis
          using no False si Some p "1.IH"(6) [OF False si Some p [symmetric]] inv_restart later_match_step [of ci ts tx st ss]
          unfolding unf by auto
      qed
    qed
  qed
qed

lemma matches_toks: "matches m tx \<longleftrightarrow> toks_match (case_insensitive m) (toks m) tx"
  using matches_loop_correct [of "toks m" 0 0 None tx "case_insensitive m"]
  by (simp add: matches_def star_inv_def later_match_def)

section \<open>The compiler keeps the meaning of the pattern\<close>

fun raw_toks :: "byte list \<Rightarrow> like_tok list" where
  "raw_toks [] = []"
| "raw_toks (b # rest) =
     (if b = backslash then
        (case rest of
           n # rest' \<Rightarrow> (if n = percent \<or> n = underscore \<or> n = backslash then Lit [n] else Lit [backslash, n]) # raw_toks rest'
         | [] \<Rightarrow> [Lit [backslash]])
      else if b = percent then Any # raw_toks rest
      else if b = underscore then One # raw_toks rest
      else Lit [b] # raw_toks rest)"

lemma take_one: "t \<noteq> [] \<Longrightarrow> take (Suc 0) t = [hd t]"
  by (cases t) simp_all

lemma one_le_length: "Suc 0 \<le> length t \<longleftrightarrow> t \<noteq> []"
  by (cases t) simp_all

lemma like_pattern_raw: "like_pattern ci p t \<longleftrightarrow> toks_match ci (raw_toks p) t"
proof (induction ci p t rule: like_pattern.induct)
  case (2 ci b rest t)
  show ?case
  proof (cases "b = backslash")
    case True
    then show ?thesis
    proof (cases rest)
      case Nil
      then show ?thesis using True by (cases t) (auto simp: run_eq_def)
    next
      case (Cons n rest')
      show ?thesis
      proof (cases "n = percent \<or> n = underscore \<or> n = backslash")
        case special: True
        then show ?thesis using True Cons 2(1) [OF True Cons] by (auto simp: one_le_length take_one drop_Suc)
      next
        case False
        then show ?thesis using True Cons 2(2) [OF True Cons False] by (simp add: numeral_2_eq_2)
      qed
    qed
  next
    case nb: False
    show ?thesis
    proof (cases "b = percent")
      case True
      then show ?thesis using nb 2(3) [OF nb True] by simp
    next
      case np: False
      then show ?thesis
        using nb 2(4) [OF nb np] 2(5) [OF nb np] by (cases "b = underscore") (auto simp: one_le_length take_one drop_Suc)
    qed
  qed
qed simp

definition toks_equiv :: "bool \<Rightarrow> like_tok list \<Rightarrow> like_tok list \<Rightarrow> bool" where
  "toks_equiv ci a b = (\<forall>t. toks_match ci a t = toks_match ci b t)"

lemma toks_equiv_refl [simp]: "toks_equiv ci a a"
  by (simp add: toks_equiv_def)

lemma toks_equiv_trans: "toks_equiv ci a b \<Longrightarrow> toks_equiv ci b c \<Longrightarrow> toks_equiv ci a c"
  by (simp add: toks_equiv_def)

lemma toks_match_prefix: "toks_equiv ci a b \<Longrightarrow> toks_match ci (pre @ a) t = toks_match ci (pre @ b) t"
proof (induction pre arbitrary: t)
  case (Cons tok pre)
  then show ?case by (cases tok) auto
qed (simp add: toks_equiv_def)

lemma toks_equiv_prefix: "toks_equiv ci a b \<Longrightarrow> toks_equiv ci (pre @ a) (pre @ b)"
  using toks_match_prefix by (simp add: toks_equiv_def [of ci "pre @ a"])

lemma run_eq_append:
  assumes "length a \<le> length t"
  shows "run_eq ci (take (length a + n) t) (a @ b) \<longleftrightarrow>
    run_eq ci (take (length a) t) a \<and> run_eq ci (take n (drop (length a) t)) b"
  using assms by (auto simp: run_eq_def take_add append_eq_append_conv)

lemma Lit_append: "toks_equiv ci (Lit a # Lit b # ts) (Lit (a @ b) # ts)"
  unfolding toks_equiv_def
  by (auto simp: run_eq_append add.commute [of "length b"])

lemma Lit_empty: "toks_equiv ci (Lit [] # ts) ts"
  by (simp add: toks_equiv_def run_eq_def)

lemma Any_Any: "toks_equiv ci (Any # Any # ts) (Any # ts)"
  unfolding toks_equiv_def
proof
  fix t
  show "toks_match ci (Any # Any # ts) t = toks_match ci (Any # ts) t"
  proof
    assume "toks_match ci (Any # Any # ts) t"
    then obtain k j where "k \<le> length t" "j \<le> length t - k" "toks_match ci ts (drop (j + k) t)" by auto
    then show "toks_match ci (Any # ts) t" by (auto intro!: exI [of _ "j + k"])
  next
    assume "toks_match ci (Any # ts) t"
    then have "toks_match ci (Any # ts) (drop 0 t)" by simp
    then show "toks_match ci (Any # Any # ts) t" unfolding toks_match.simps(4) [of ci "Any # ts"] by blast
  qed
qed

lemma flush_equiv: "toks_equiv ci (snd (flush lit ts) @ us) (ts @ Lit lit # us)"
proof (cases "lit = []")
  case True
  have "toks_equiv ci us (Lit [] # us)" using Lit_empty [of ci us] by (simp add: toks_equiv_def)
  then show ?thesis using True toks_equiv_prefix by (simp add: flush_def)
qed (simp add: flush_def)

lemma flush_lit: "fst (flush lit ts) = []"
  by (simp add: flush_def)

lemma compile_loop_equiv:
  "toks_equiv ci (case compile_loop p lit ts of (l, us) \<Rightarrow> snd (flush l us)) (ts @ Lit lit # raw_toks p)"
proof (induction p lit ts rule: compile_loop.induct)
  case (1 lit ts)
  then show ?case using flush_equiv [of ci lit ts "[]"] by simp
next
  case (2 b rest lit ts)
  have ext: "toks_equiv ci (ts @ Lit (lit @ x) # us) (ts @ Lit lit # Lit x # us)" for x us
    by (rule toks_equiv_prefix) (use Lit_append [of ci lit x us] in \<open>simp add: toks_equiv_def\<close>)
  obtain lit' ts' where fl: "flush lit ts = (lit', ts')" by fastforce
  have lit': "lit' = []" using flush_lit [of lit ts] fl by simp
  have fe: "toks_equiv ci (ts' @ us) (ts @ Lit lit # us)" for us
    using flush_equiv [of ci lit ts us] fl by simp
  have empty: "toks_equiv ci (us @ Lit [] # vs) (us @ vs)" for us vs
    by (rule toks_equiv_prefix [OF Lit_empty])
  show ?case
  proof (cases "b = backslash")
    case True
    show ?thesis
    proof (cases rest)
      case Nil
      then show ?thesis using True flush_equiv [of ci "lit @ [backslash]" ts "[]"] ext [of "[backslash]" "[]"]
        by (auto intro: toks_equiv_trans)
    next
      case (Cons n rest')
      show ?thesis
      proof (cases "n = percent \<or> n = underscore \<or> n = backslash")
        case special: True
        then show ?thesis
          using True Cons toks_equiv_trans [OF 2(2) [OF True Cons special] ext [of "[n]" "raw_toks rest'"]] by simp
      next
        case False
        then show ?thesis
          using True Cons toks_equiv_trans [OF 2(3) [OF True Cons False] ext [of "[backslash, n]" "raw_toks rest'"]] by simp
      qed
    qed
  next
    case nb: False
    show ?thesis
    proof (cases "b = percent")
      case True
      define ts2 where "ts2 = (if ts' \<noteq> [] \<and> last ts' = Any then ts' else ts' @ [Any])"
      have ts2: "toks_equiv ci (ts2 @ us) (ts' @ Any # us)" for us
      proof (cases "ts' \<noteq> [] \<and> last ts' = Any")
        case collapse: True
        then obtain zs where zs: "ts' = zs @ [Any]" by (metis append_butlast_last_id)
        show ?thesis using toks_equiv_prefix [OF Any_Any, of ci zs us] by (simp add: ts2_def zs toks_equiv_def)
      qed (auto simp: ts2_def)
      have "toks_equiv ci (case compile_loop rest [] ts2 of (l, us) \<Rightarrow> snd (flush l us)) (ts2 @ Lit [] # raw_toks rest)"
        using 2(4) [OF nb True fl [symmetric] refl] lit' by (simp add: ts2_def)
      then have "toks_equiv ci (case compile_loop rest [] ts2 of (l, us) \<Rightarrow> snd (flush l us)) (ts @ Lit lit # Any # raw_toks rest)"
        using empty ts2 fe by (meson toks_equiv_trans)
      then show ?thesis using nb True fl lit' by (simp add: ts2_def)
    next
      case np: False
      show ?thesis
      proof (cases "b = underscore")
        case True
        have "toks_equiv ci (case compile_loop rest [] (ts' @ [One]) of (l, us) \<Rightarrow> snd (flush l us))
            ((ts' @ [One]) @ Lit [] # raw_toks rest)"
          using 2(5) [OF nb np True fl [symmetric] refl] lit' by simp
        then have "toks_equiv ci (case compile_loop rest [] (ts' @ [One]) of (l, us) \<Rightarrow> snd (flush l us))
            (ts @ Lit lit # One # raw_toks rest)"
          using empty [of "ts' @ [One]" "raw_toks rest"] fe [of "One # raw_toks rest"]
          by (auto intro: toks_equiv_trans)
        then show ?thesis using nb np True fl lit' by simp
      next
        case False
        then show ?thesis using nb np toks_equiv_trans [OF 2(6) [OF nb np False] ext [of "[b]" "raw_toks rest"]] by simp
      qed
    qed
  qed
qed

lemma compile_correct: "toks_match ci (toks (compile_with_case p ci)) t = like_pattern ci p t"
proof -
  have "toks_equiv ci (toks (compile_with_case p ci)) (Lit [] # raw_toks p)"
    using compile_loop_equiv [of ci p "[]" "[]"] by (simp add: compile_with_case_def Let_def split: prod.splits)
  then show ?thesis using Lit_empty [of ci "raw_toks p"] by (simp add: toks_equiv_def like_pattern_raw)
qed

section \<open>Properties\<close>

text \<open>(C37) The compiled \<open>LIKE\<close>/\<open>ILIKE\<close> matcher always terminates and decides exactly the meaning of the
  raw pattern: \<open>%\<close> is any run of bytes, \<open>_\<close> one byte, a backslash makes the next wildcard or backslash
  literal (any other escaped byte keeps the backslash), every other byte is itself, up to ASCII case for \<open>ILIKE\<close>.\<close>

theorem like_matches_pattern:
  "matches (compile_with_case p ci) t \<longleftrightarrow> like_pattern ci p t"
proof -
  have "case_insensitive (compile_with_case p ci) = ci"
    by (simp add: compile_with_case_def Let_def split: prod.splits)
  then show ?thesis using matches_toks [of "compile_with_case p ci" t] compile_correct by simp
qed

text \<open>On a present, non-null cell and literal, the six comparison operators read off one and the
  same total order: exactly one of less, equal and greater holds, and the others are their unions and complements.\<close>

theorem eval_cmp_ordering:
  assumes "col < length r" "r ! col \<noteq> Null" "v \<noteq> Null"
  shows "let o1 = compare_predicate_values (r ! col) v in
    eval (Cmp col Lt v) r = Some (o1 = Less) \<and> eval (Cmp col Eq v) r = Some (o1 = Equal) \<and>
    eval (Cmp col Gt v) r = Some (o1 = Greater) \<and> eval (Cmp col Ne v) r = Some (o1 \<noteq> Equal) \<and>
    eval (Cmp col Le v) r = Some (o1 \<noteq> Greater) \<and> eval (Cmp col Ge v) r = Some (o1 \<noteq> Less)"
  using assms values_identical_iff [of "r ! col" v]
  by (cases "compare_predicate_values (r ! col) v") (simp_all add: Let_def row_col_def is_null_def)

theorem eval_cmp_ordering_witness:
  "eval (Cmp 0 Lt (IntV 5)) [IntV 3] = Some True \<and> eval (Cmp 0 Ge (IntV 5)) [IntV 3] = Some False"
  using eval_cmp_ordering [of 0 "[IntV 3]" "IntV 5"] by (simp add: Let_def cmp_of_def)

text \<open>A null cell makes every comparison, membership and pattern test false, also the negated
  ones; only \<open>IS\<close> and \<open>IS NULL\<close> see the null.\<close>

theorem eval_null_cell:
  assumes "col < length r" "r ! col = Null"
  shows "eval (Cmp col oper v) r = Some False \<and> eval (In col s negated) r = Some False \<and>
    eval (Like col m negated) r = Some False \<and> eval (IsNull col negated) r = Some (\<not> negated) \<and>
    eval (Is col v negated) r = Some ((v = Null) \<noteq> negated)"
  using assms by (cases v) (simp_all add: row_col_def is_null_def)

theorem eval_null_cell_witness:
  "eval (In 1 \<lparr> members = [IntV 1] \<rparr> True) [IntV 7, Null] = Some False"
  using eval_null_cell [of 1 "[IntV 7, Null]" Eq "IntV 1" "\<lparr> members = [IntV 1] \<rparr>" True] by simp

end
