(* ===== verification/Ordered_Map.thy ===== *)
theory Ordered_Map
  imports Comparator
begin

text \<open>
  The standard library's \<open>BTreeMap\<close> as the engine uses it: an association list in ascending key
  order. Two keys are the same key when the key comparison is \<open>Equal\<close>; inserting under an
  existing key keeps the stored key and replaces the value.
\<close>

type_synonym ('k, 'v) omap = "('k \<times> 'v) list"

fun om_get :: "('k \<Rightarrow> 'k \<Rightarrow> ordering) \<Rightarrow> 'k \<Rightarrow> ('k, 'v) omap \<Rightarrow> 'v option" where
  "om_get kcmp k [] = None"
| "om_get kcmp k ((k', v) # m) = (if kcmp k' k = Equal then Some v else om_get kcmp k m)"

fun om_put :: "('k \<Rightarrow> 'k \<Rightarrow> ordering) \<Rightarrow> 'k \<Rightarrow> 'v \<Rightarrow> ('k, 'v) omap \<Rightarrow> ('k, 'v) omap" where
  "om_put kcmp k v [] = [(k, v)]"
| "om_put kcmp k v ((k', v') # m) = (case kcmp k' k of
      Less \<Rightarrow> (k', v') # om_put kcmp k v m
    | Equal \<Rightarrow> (k', v) # m
    | Greater \<Rightarrow> (k, v) # (k', v') # m)"

definition om_del :: "('k \<Rightarrow> 'k \<Rightarrow> ordering) \<Rightarrow> 'k \<Rightarrow> ('k, 'v) omap \<Rightarrow> ('k, 'v) omap" where
  "om_del kcmp k m = filter (\<lambda>(k', v). kcmp k' k \<noteq> Equal) m"

definition om_ok :: "('k \<Rightarrow> 'k \<Rightarrow> ordering) \<Rightarrow> ('k, 'v) omap \<Rightarrow> bool" where
  "om_ok kcmp m = sorted_wrt (\<lambda>a b. kcmp (fst a) (fst b) = Less) m"

lemma om_ok_simps [simp]:
  "om_ok kcmp []"
  "om_ok kcmp ((k, v) # m) \<longleftrightarrow> (\<forall>p\<in>set m. kcmp k (fst p) = Less) \<and> om_ok kcmp m"
  by (simp_all add: om_ok_def)

lemma om_ok_del: "om_ok kcmp m \<Longrightarrow> om_ok kcmp (om_del kcmp k m)"
  by (simp add: om_ok_def om_del_def sorted_wrt_filter)

lemma set_om_del: "set (om_del kcmp k m) \<subseteq> set m"
  by (auto simp: om_del_def)

lemma set_om_put: "p \<in> set (om_put kcmp k v m) \<Longrightarrow> snd p = v \<or> p \<in> set m"
  by (induction m) (auto split: ordering.splits)

lemma fst_om_put: "p \<in> set (om_put kcmp k v m) \<Longrightarrow> fst p = k \<or> fst p \<in> fst ` set m"
  by (induction m) (auto split: ordering.splits)

locale ordered_key = comparator_on UNIV "\<lambda>a b. Some (kcmp a b)" for kcmp :: "'k \<Rightarrow> 'k \<Rightarrow> ordering"
begin

lemma key_refl [simp]: "kcmp k k = Equal"
  using cmp_refl [of k] by simp

lemma key_eq_cong: "kcmp a b = Equal \<Longrightarrow> kcmp a c = kcmp b c"
  using cmp_eq_cong [of a b c] by simp

lemma key_eq_cong_right: "kcmp a b = Equal \<Longrightarrow> kcmp c a = kcmp c b"
  using cmp_eq_cong_right [of a b c] by simp

lemma key_eq_sym: "kcmp a b = Equal \<longleftrightarrow> kcmp b a = Equal"
  using cmp_eq_sym [of a b] by simp

lemma key_gt: "kcmp a b = Greater \<longleftrightarrow> kcmp b a = Less"
  using cmp_gt_iff [of a b] by simp

lemma key_less_trans: "kcmp a b = Less \<Longrightarrow> kcmp b c = Less \<Longrightarrow> kcmp a c = Less"
  using cmp_less_trans [of a b c] by simp

lemma om_get_put: "om_get kcmp k' (om_put kcmp k v m) = (if kcmp k k' = Equal then Some v else om_get kcmp k' m)"
proof (induction m)
  case (Cons p m)
  obtain a w where p: "p = (a, w)" by fastforce
  show ?case
  proof (cases "kcmp a k")
    case Less
    then have "kcmp k k' = Equal \<Longrightarrow> kcmp a k' \<noteq> Equal" using key_eq_cong_right [of k k' a] by simp
    then show ?thesis using Cons Less by (auto simp: p)
  next
    case Equal
    then show ?thesis using key_eq_cong [of a k k'] by (simp add: p)
  next
    case Greater
    then show ?thesis by (simp add: p)
  qed
qed simp

lemma om_get_del: "om_get kcmp k' (om_del kcmp k m) = (if kcmp k k' = Equal then None else om_get kcmp k' m)"
proof (induction m)
  case (Cons p m)
  obtain a w where p: "p = (a, w)" by fastforce
  show ?case
  proof (cases "kcmp a k = Equal")
    case True
    then show ?thesis using Cons key_eq_cong [of a k k'] by (simp add: p om_del_def)
  next
    case False
    then have "kcmp k k' = Equal \<Longrightarrow> kcmp a k' \<noteq> Equal" using key_eq_cong_right [of k k' a] by simp
    then show ?thesis using Cons False by (auto simp: p om_del_def)
  qed
qed (simp add: om_del_def)

lemma om_put_entries: "p \<in> set (om_put kcmp k v m) \<Longrightarrow> kcmp (fst p) k = Equal \<or> p \<in> set m"
  by (induction m) (auto split: ordering.splits)

lemma om_del_put_entries: "p \<in> set (om_del kcmp k (om_put kcmp k v m)) \<Longrightarrow> p \<in> set m"
  using om_put_entries [of p k v m] by (auto simp: om_del_def)

lemma om_ok_put: "om_ok kcmp m \<Longrightarrow> om_ok kcmp (om_put kcmp k v m)"
proof (induction m)
  case (Cons p m)
  obtain a w where p: "p = (a, w)" by fastforce
  show ?case
  proof (cases "kcmp a k")
    case Less
    have "kcmp a (fst q) = Less" if "q \<in> set (om_put kcmp k v m)" for q
      using fst_om_put [OF that] Less Cons.prems by (auto simp: p)
    then show ?thesis using Cons Less by (simp add: p)
  next
    case Equal
    then show ?thesis using Cons.prems by (simp add: p)
  next
    case Greater
    then have "kcmp k a = Less" by (simp add: key_gt)
    then show ?thesis using Cons.prems Greater key_less_trans by (auto simp: p)
  qed
qed simp

lemma om_get_Some_iff: "om_ok kcmp m \<Longrightarrow> om_get kcmp k m = Some v \<longleftrightarrow> (\<exists>a. (a, v) \<in> set m \<and> kcmp a k = Equal)"
proof (induction m)
  case (Cons p m)
  obtain a w where p: "p = (a, w)" by fastforce
  show ?case
  proof (cases "kcmp a k = Equal")
    case True
    have "kcmp b k \<noteq> Equal" if "(b, u) \<in> set m" for b u
    proof -
      have "kcmp a b = Less" using that Cons.prems by (auto simp: p)
      moreover have "kcmp b a = kcmp b k" using key_eq_cong_right [OF True] .
      ultimately show ?thesis using key_eq_sym [of a b] by simp
    qed
    then show ?thesis using True by (auto simp: p)
  next
    case False
    then show ?thesis using Cons by (auto simp: p)
  qed
qed simp

end

section \<open>Maps keyed by integers\<close>

interpretation nat_key: ordered_key "cmp_of :: nat \<Rightarrow> nat \<Rightarrow> ordering"
  by unfold_locales (auto intro: cmp_of_flip simp: not_less)

end
