(* ===== verification/Changes.thy ===== *)
theory Changes
  imports Rows
begin

text \<open>
  Source changes, constraints and fetch requests (\<open>rust/src/change.rs\<close>).

  A constraint is a conjunction of column equalities under the join comparator
  \<open>values_equal\<close>, in which a null matches nothing; that comparator panics on values of
  different types, so every test of a row against a constraint can panic.
\<close>

section \<open>Changes\<close>

datatype source_change =
    AddRow row
  | RemoveRow row
  | EditRow row row

fun change_row :: "source_change \<Rightarrow> row" where
  "change_row (AddRow r) = r"
| "change_row (RemoveRow r) = r"
| "change_row (EditRow r old) = r"

section \<open>Constraints\<close>

type_synonym row_constraint = "(col_id \<times> cell_value) list"
type_synonym multi_constraint = "row_constraint list"

fun constraint_matches :: "row \<Rightarrow> row_constraint \<Rightarrow> bool option" where
  "constraint_matches r [] = Some True"
| "constraint_matches r ((col, v) # c) = do {
     x \<leftarrow> row_col r col;
     e \<leftarrow> values_equal x v;
     if e then constraint_matches r c else Some False
   }"

definition constraint_matches_primary_key :: "row_constraint \<Rightarrow> col_id list \<Rightarrow> bool" where
  "constraint_matches_primary_key c pk =
     (if length c \<noteq> length pk then False
      else list_all (\<lambda>p. list_ex (\<lambda>(col, _). col = p) c) pk)"

fun constraints_are_compatible :: "row_constraint \<Rightarrow> row_constraint \<Rightarrow> bool option" where
  "constraints_are_compatible [] b = Some True"
| "constraints_are_compatible ((col, va) # a) b = do {
     ok \<leftarrow> (case map_of b col of None \<Rightarrow> Some True | Some vb \<Rightarrow> values_equal va vb);
     if ok then constraints_are_compatible a b else Some False
   }"

definition merge_constraints :: "row_constraint option \<Rightarrow> row_constraint \<Rightarrow> row_constraint" where
  "merge_constraints base extra = (case base of
       None \<Rightarrow> extra
     | Some b \<Rightarrow>
         map (\<lambda>(col, v). case map_of extra col of Some ev \<Rightarrow> (col, ev) | None \<Rightarrow> (col, v)) b @
         filter (\<lambda>(col, v). \<not> list_ex (\<lambda>(c, _). c = col) b) extra)"

text \<open>The result's outer option is a panic (a key column out of range or \<open>to_key\<close> too short), the
  inner one \<open>None\<close> when a key cell is null.\<close>

fun build_join_constraint :: "row \<Rightarrow> col_id list \<Rightarrow> col_id list \<Rightarrow> row_constraint option option" where
  "build_join_constraint r [] to_key = Some (Some [])"
| "build_join_constraint r (f # from_key) to_key = do {
     v \<leftarrow> row_col r f;
     if v = Null then Some None
     else do {
       t \<leftarrow> vec_get to_key 0;
       rest \<leftarrow> build_join_constraint r from_key (tl to_key);
       Some (map_option (\<lambda>c. (t, v) # c) rest)
     }
   }"

section \<open>Fetch requests\<close>

datatype basis = At | After

record start_bound =
  start_row :: row
  start_basis :: basis

record fetch_request =
  req_constraint :: "row_constraint option"
  multi_constraints :: "multi_constraint list"
  req_start :: "start_bound option"
  req_reverse :: bool

definition fetch_all :: fetch_request where
  "fetch_all = \<lparr> req_constraint = None, multi_constraints = [], req_start = None, req_reverse = False \<rparr>"

definition fetch_with_constraint :: "row_constraint \<Rightarrow> fetch_request" where
  "fetch_with_constraint c = fetch_all \<lparr> req_constraint := Some c \<rparr>"

definition has_multi :: "fetch_request \<Rightarrow> bool" where
  "has_multi req = list_ex (\<lambda>mc. mc \<noteq> []) (multi_constraints req)"

section \<open>What constraints mean\<close>

text \<open>A row is typed when its cells conform to the column types; a constraint is typed when its
  values do. On typed operands nothing panics.\<close>

definition typed_row :: "(col_id \<Rightarrow> kind) \<Rightarrow> nat \<Rightarrow> row \<Rightarrow> bool" where
  "typed_row ty n r = (length r = n \<and> (\<forall>c<n. conforms (ty c) (r ! c)))"

definition typed_constraint :: "(col_id \<Rightarrow> kind) \<Rightarrow> nat \<Rightarrow> row_constraint \<Rightarrow> bool" where
  "typed_constraint ty n c = (\<forall>(col, v)\<in>set c. col < n \<and> conforms (ty col) v)"

definition cells_join :: "cell_value \<Rightarrow> cell_value \<Rightarrow> bool" where
  "cells_join a b = (a \<notin> {Absent, Null} \<and> compare_predicate_values a b = Equal)"

lemma values_equal_conforms:
  "conforms k a \<Longrightarrow> conforms k b \<Longrightarrow> values_equal a b = Some (cells_join a b)"
  by (cases a; cases b) (auto simp: cells_join_def)

lemma cells_join_sym: "cells_join a b = cells_join b a"
proof -
  have "compare_predicate_values a b = Equal \<longleftrightarrow> compare_predicate_values b a = Equal"
    using compare_predicate_flip [of a b] by simp
  moreover have "compare_predicate_values a b = Equal \<Longrightarrow> a \<in> {Absent, Null} \<longleftrightarrow> b \<in> {Absent, Null}"
    by (cases a; cases b) auto
  ultimately show ?thesis by (auto simp: cells_join_def)
qed

lemma cells_join_trans: "cells_join a b \<Longrightarrow> cells_join b c \<Longrightarrow> cells_join a c"
  using pred_order.cmp_eq_cong [of a b c] by (simp add: cells_join_def)

lemma constraint_matches_typed:
  "typed_row ty n r \<Longrightarrow> typed_constraint ty n c \<Longrightarrow>
   constraint_matches r c = Some (\<forall>(col, v)\<in>set c. cells_join (r ! col) v)"
proof (induction c)
  case (Cons cv c)
  obtain col v where cv: "cv = (col, v)" by fastforce
  have ok: "col < length r" "conforms (ty col) (r ! col)" "conforms (ty col) v" "typed_constraint ty n c"
    using Cons.prems by (auto simp: typed_row_def typed_constraint_def cv)
  then show ?case using Cons.IH [OF Cons.prems(1) ok(4)] values_equal_conforms [of "ty col" "r ! col" v]
    by (simp add: cv row_col_def)
qed simp

lemma map_of_in: "distinct (map fst m) \<Longrightarrow> (k, v) \<in> set m \<longleftrightarrow> map_of m k = Some v"
  by auto

lemma merge_constraints_set:
  assumes "distinct (map fst extra)"
  shows "set (merge_constraints (Some base) extra) =
    set (filter (\<lambda>(c, v). map_of extra c = None) base) \<union> set extra"
proof (rule set_eqI)
  fix p :: "col_id \<times> cell_value"
  obtain c v where p: "p = (c, v)" by fastforce
  have ex: "list_ex (\<lambda>(c', _). c' = c) base \<longleftrightarrow> c \<in> fst ` set base" by (force simp: list_ex_iff)
  have pair: "(case map_of extra col of Some ev \<Rightarrow> (col, ev) | None \<Rightarrow> (col, w)) =
      (col, case map_of extra col of Some ev \<Rightarrow> ev | None \<Rightarrow> w)" for col w
    by (simp split: option.split)
  have "p \<in> set (merge_constraints (Some base) extra) \<longleftrightarrow>
      (\<exists>w. (c, w) \<in> set base \<and> v = (case map_of extra c of Some ev \<Rightarrow> ev | None \<Rightarrow> w)) \<or>
      ((c, v) \<in> set extra \<and> c \<notin> fst ` set base)"
    unfolding merge_constraints_def p option.case pair using ex by (auto simp: image_iff)
  also have "\<dots> \<longleftrightarrow> ((c, v) \<in> set base \<and> map_of extra c = None) \<or> (c, v) \<in> set extra"
    using map_of_in [OF assms, of c v] by (cases "map_of extra c") force+
  finally show "p \<in> set (merge_constraints (Some base) extra) \<longleftrightarrow>
      p \<in> set (filter (\<lambda>(c, v). map_of extra c = None) base) \<union> set extra" by (auto simp: p)
qed

lemma build_join_constraint_ok:
  "\<forall>f\<in>set from_key. f < length r \<Longrightarrow> length to_key = length from_key \<Longrightarrow>
   build_join_constraint r from_key to_key =
     Some (if \<exists>f\<in>set from_key. r ! f = Null then None else Some (zip to_key (map ((!) r) from_key)))"
proof (induction from_key arbitrary: to_key)
  case (Cons f from_key)
  then obtain t ts where t: "to_key = t # ts" by (cases to_key) auto
  show ?case using Cons.IH [of ts] Cons.prems by (auto simp: t row_col_def)
qed simp

section \<open>Properties\<close>

text \<open>The constraint built for a join hop matches a typed target row exactly when every key cell
  of the target joins with the corresponding key cell of the source row (no nulls on either side); a null key builds no
  constraint at all.\<close>

theorem join_constraint_matches:
  assumes "typed_row ty n r" "typed_row ty m r'" "length to_key = length from_key"
    and "\<forall>f\<in>set from_key. f < n" "\<forall>t\<in>set to_key. t < m"
    and "\<forall>(f, t)\<in>set (zip from_key to_key). ty f = ty t"
  shows "\<exists>c. build_join_constraint r from_key to_key = Some c \<and>
    (c = None \<longleftrightarrow> (\<exists>f\<in>set from_key. r ! f = Null)) \<and>
    (\<forall>c'. c = Some c' \<longrightarrow> constraint_matches r' c' = Some (\<forall>(f, t)\<in>set (zip from_key to_key). cells_join (r' ! t) (r ! f)))"
proof -
  let ?c = "zip to_key (map ((!) r) from_key)"
  have len: "\<forall>f\<in>set from_key. f < length r" using assms(1,4) by (simp add: typed_row_def)
  have zip_iff: "(t, v) \<in> set ?c \<longleftrightarrow> (\<exists>f. (f, t) \<in> set (zip from_key to_key) \<and> v = r ! f)" for t v
    using assms(3) by (auto simp: set_zip)
  have "typed_constraint ty m ?c"
    unfolding typed_constraint_def
  proof (clarify, unfold zip_iff)
    fix t v assume "\<exists>f. (f, t) \<in> set (zip from_key to_key) \<and> v = r ! f"
    then obtain f where f: "(f, t) \<in> set (zip from_key to_key)" "v = r ! f" by blast
    then have "f < n" "t < m" "ty f = ty t" using assms(4-6) by (auto dest: set_zip_leftD set_zip_rightD)
    then show "t < m \<and> conforms (ty t) v" using f(2) assms(1) by (auto simp: typed_row_def)
  qed
  then have "constraint_matches r' ?c = Some (\<forall>(t, v)\<in>set ?c. cells_join (r' ! t) v)"
    using constraint_matches_typed assms(2) by blast
  moreover have "(\<forall>(t, v)\<in>set ?c. cells_join (r' ! t) v) \<longleftrightarrow> (\<forall>(f, t)\<in>set (zip from_key to_key). cells_join (r' ! t) (r ! f))"
    using zip_iff by fastforce
  ultimately show ?thesis using build_join_constraint_ok [OF len assms(3)] by auto
qed

theorem join_constraint_matches_witness:
  "\<exists>c. build_join_constraint [IntV 4, IntV 7] [0] [1] = Some (Some c) \<and>
     constraint_matches [IntV 1, IntV 4] c = Some True"
proof -
  have "\<exists>c. build_join_constraint [IntV 4, IntV 7] [0] [1] = Some c \<and>
    (c = None \<longleftrightarrow> (\<exists>f\<in>set [0]. [IntV 4, IntV 7] ! f = Null)) \<and>
    (\<forall>c'. c = Some c' \<longrightarrow> constraint_matches [IntV 1, IntV 4] c' =
      Some (\<forall>(f, t)\<in>set (zip [0] [1]). cells_join ([IntV 1, IntV 4] ! t) ([IntV 4, IntV 7] ! f)))"
    by (rule join_constraint_matches [where ty = "\<lambda>_. KNum" and n = 2 and m = 2])
      (auto simp: typed_row_def less_2_cases_iff)
  then show ?thesis by (auto simp: cells_join_def)
qed

text \<open>Merging constraints: a typed row matches the merged constraint exactly when it matches the
  overriding constraint and every column of the base constraint that is not overridden.\<close>

theorem merge_constraints_matches:
  assumes "typed_row ty n r" "typed_constraint ty n base" "typed_constraint ty n extra" "distinct (map fst extra)"
  shows "constraint_matches r (merge_constraints (Some base) extra) =
    Some (constraint_matches r extra = Some True \<and>
      constraint_matches r (filter (\<lambda>(c, v). map_of extra c = None) base) = Some True)"
proof -
  have sub: "typed_constraint ty n (filter (\<lambda>(c, v). map_of extra c = None) base)"
    using assms(2) by (auto simp: typed_constraint_def)
  have "typed_constraint ty n (merge_constraints (Some base) extra)"
    using assms(2,3) by (auto simp: typed_constraint_def merge_constraints_set [OF assms(4)])
  then have "constraint_matches r (merge_constraints (Some base) extra) =
      Some (\<forall>(col, v)\<in>set (filter (\<lambda>(c, v). map_of extra c = None) base) \<union> set extra. cells_join (r ! col) v)"
    using constraint_matches_typed [OF assms(1)] merge_constraints_set [OF assms(4), of base] by metis
  also have "\<dots> = Some (constraint_matches r extra = Some True \<and>
      constraint_matches r (filter (\<lambda>(c, v). map_of extra c = None) base) = Some True)"
    unfolding constraint_matches_typed [OF assms(1,3)] constraint_matches_typed [OF assms(1) sub] ball_Un by blast
  finally show ?thesis .
qed

theorem merge_constraints_matches_witness:
  "constraint_matches [IntV 1, IntV 2] (merge_constraints (Some [(0, IntV 9), (1, IntV 2)]) [(0, IntV 1)]) = Some True"
  using merge_constraints_matches [of "\<lambda>_. KNum" 2 "[IntV 1, IntV 2]" "[(0, IntV 9), (1, IntV 2)]" "[(0, IntV 1)]"]
  by (simp add: typed_row_def typed_constraint_def row_col_def less_2_cases_iff)

end
