(* ===== verification/Push_Index.thy ===== *)
theory Push_Index
  imports Ordered_Map Changes
begin

text \<open>
  The reverse predicate index of \<open>rust/src/push_index.rs\<close>, which prunes the push fan-out to the
  connections a change could match. A slot is a \<open>u32\<close>.

  The abstract value of an index is the list of its registrations (slot, guard, split-edit
  keys); the invariant relates every bucket, the scan list and the reference counts to it.
\<close>

type_synonym slot = "32 word"

record push_guard =
  guard_col :: col_id
  guard_values :: "cell_value list"

interpretation guard_key: ordered_key compare_predicate_values
  by (rule ordered_key.intro) (rule pred_order.comparator_on_axioms)

record push_index =
  eq_map :: "(col_id, (cell_value, slot list) omap) omap"
  scan :: "slot list"
  split_map :: "(col_id, nat) omap"

definition push_index_new :: push_index where
  "push_index_new = \<lparr> eq_map = [], scan = [], split_map = [] \<rparr>"

definition or_default :: "'a list option \<Rightarrow> 'a list" where
  "or_default x = (case x of None \<Rightarrow> [] | Some l \<Rightarrow> l)"

lemma or_default_simps [simp]: "or_default None = []" "or_default (Some l) = l"
  by (simp_all add: or_default_def)

text \<open>\<open>BTreeSet\<close> insertion and removal on an ascending list.\<close>

definition set_insert :: "slot \<Rightarrow> slot list \<Rightarrow> slot list" where
  "set_insert x xs = (if x \<in> set xs then xs else insort x xs)"

definition bucket_push :: "slot \<Rightarrow> cell_value \<Rightarrow> (cell_value, slot list) omap \<Rightarrow> (cell_value, slot list) omap" where
  "bucket_push s v m = om_put compare_predicate_values v (or_default (om_get compare_predicate_values v m) @ [s]) m"

text \<open>The code counts in \<open>u32\<close>; a count is at most the number of registered keys, and a number here.\<close>

definition split_inc :: "col_id \<Rightarrow> (col_id, nat) omap \<Rightarrow> (col_id, nat) omap" where
  "split_inc k m = om_put cmp_of k ((case om_get cmp_of k m of None \<Rightarrow> 0 | Some n \<Rightarrow> n) + 1) m"

definition push_index_insert :: "slot \<Rightarrow> push_guard option \<Rightarrow> col_id list \<Rightarrow> push_index \<Rightarrow> push_index" where
  "push_index_insert s guard split_edit_keys idx =
     (let idx1 = (case guard of
          Some g \<Rightarrow>
            if guard_values g = [] then idx
            else
              let col_map = or_default (om_get cmp_of (guard_col g) (eq_map idx));
                  col_map' = fold (bucket_push s) (guard_values g) col_map
              in idx \<lparr> eq_map := om_put cmp_of (guard_col g) col_map' (eq_map idx) \<rparr>
        | None \<Rightarrow> idx \<lparr> scan := set_insert s (scan idx) \<rparr>)
      in idx1 \<lparr> split_map := fold split_inc split_edit_keys (split_map idx1) \<rparr>)"

fun position :: "('a \<Rightarrow> bool) \<Rightarrow> 'a list \<Rightarrow> nat option" where
  "position p [] = None"
| "position p (x # xs) = (if p x then Some 0 else map_option Suc (position p xs))"

definition swap_remove :: "'a list \<Rightarrow> nat \<Rightarrow> 'a list" where
  "swap_remove xs i = butlast (xs[i := last xs])"

definition bucket_remove :: "slot \<Rightarrow> cell_value \<Rightarrow> (cell_value, slot list) omap \<Rightarrow> (cell_value, slot list) omap" where
  "bucket_remove s v m = (case om_get compare_predicate_values v m of
       None \<Rightarrow> m
     | Some bucket \<Rightarrow>
         let bucket' = (case position (\<lambda>x. x = s) bucket of None \<Rightarrow> bucket | Some i \<Rightarrow> swap_remove bucket i);
             m' = om_put compare_predicate_values v bucket' m
         in if bucket' = [] then om_del compare_predicate_values v m' else m')"

definition split_dec :: "col_id \<Rightarrow> (col_id, nat) omap \<Rightarrow> (col_id, nat) omap" where
  "split_dec k m = (case om_get cmp_of k m of
       None \<Rightarrow> m
     | Some rc \<Rightarrow> if rc - 1 = 0 then om_del cmp_of k m else om_put cmp_of k (rc - 1) m)"

definition push_index_remove :: "slot \<Rightarrow> push_guard option \<Rightarrow> col_id list \<Rightarrow> push_index \<Rightarrow> push_index" where
  "push_index_remove s guard split_edit_keys idx =
     (let idx1 = (case guard of
          Some g \<Rightarrow>
            if guard_values g = [] then idx
            else (case om_get cmp_of (guard_col g) (eq_map idx) of
                None \<Rightarrow> idx
              | Some col_map \<Rightarrow>
                  let col_map' = fold (bucket_remove s) (guard_values g) col_map
                  in idx \<lparr> eq_map := (if col_map' = [] then om_del cmp_of (guard_col g) (eq_map idx)
                                     else om_put cmp_of (guard_col g) col_map' (eq_map idx)) \<rparr>)
        | None \<Rightarrow> idx \<lparr> scan := remove1 s (scan idx) \<rparr>)
      in idx1 \<lparr> split_map := fold split_dec split_edit_keys (split_map idx1) \<rparr>)"

definition collect_bucket :: "(cell_value, slot list) omap \<Rightarrow> cell_value \<Rightarrow> slot list \<Rightarrow> slot list" where
  "collect_bucket buckets cell out = out @ or_default (om_get compare_predicate_values cell buckets)"

fun collect_cols :: "source_change \<Rightarrow> (col_id, (cell_value, slot list) omap) omap \<Rightarrow> slot list \<Rightarrow> slot list option" where
  "collect_cols change [] out = Some out"
| "collect_cols change ((col, buckets) # m) out = do {
     out' \<leftarrow> (case change of
         AddRow r \<Rightarrow> do { x \<leftarrow> row_col r col; Some (collect_bucket buckets x out) }
       | RemoveRow r \<Rightarrow> do { x \<leftarrow> row_col r col; Some (collect_bucket buckets x out) }
       | EditRow r old \<Rightarrow> do {
           x \<leftarrow> row_col r col;
           y \<leftarrow> row_col old col;
           Some (collect_bucket buckets y (collect_bucket buckets x out))
         });
     collect_cols change m out'
   }"

definition push_candidates :: "push_index \<Rightarrow> source_change \<Rightarrow> slot list option" where
  "push_candidates idx change = do {
     out \<leftarrow> collect_cols change (eq_map idx) (scan idx);
     Some (remdups_adj (List.sort out))
   }"

definition split_keys :: "push_index \<Rightarrow> col_id list" where
  "split_keys idx = map fst (split_map idx)"

definition has_split_keys :: "push_index \<Rightarrow> bool" where
  "has_split_keys idx = (split_map idx \<noteq> [])"

section \<open>Buckets\<close>

definition lookup_bucket :: "cell_value \<Rightarrow> (cell_value, slot list) omap \<Rightarrow> slot list" where
  "lookup_bucket v m = or_default (om_get compare_predicate_values v m)"

definition occurrences :: "cell_value list \<Rightarrow> cell_value \<Rightarrow> nat" where
  "occurrences vs v = length (filter (\<lambda>w. compare_predicate_values w v = Equal) vs)"

lemma occurrences_simps [simp]:
  "occurrences [] v = 0"
  "occurrences (w # vs) v = (if compare_predicate_values w v = Equal then 1 else 0) + occurrences vs v"
  by (simp_all add: occurrences_def)

lemma lookup_bucket_push:
  "lookup_bucket v (bucket_push s w m) =
     (if compare_predicate_values w v = Equal then lookup_bucket w m @ [s] else lookup_bucket v m)"
  by (simp add: lookup_bucket_def bucket_push_def guard_key.om_get_put or_default_def)

lemma om_get_guard_cong:
  "compare_predicate_values w v = Equal \<Longrightarrow> om_get compare_predicate_values w m = om_get compare_predicate_values v m"
proof (induction m)
  case (Cons p m)
  obtain a b where p: "p = (a, b)" by fastforce
  have "compare_predicate_values a w = compare_predicate_values a v"
    using guard_key.key_eq_cong_right [OF Cons.prems] .
  then show ?case using Cons by (simp add: p)
qed simp

lemma lookup_bucket_cong: "compare_predicate_values w v = Equal \<Longrightarrow> lookup_bucket w m = lookup_bucket v m"
  by (simp add: lookup_bucket_def om_get_guard_cong)

lemma mset_fold_bucket_push:
  "mset (lookup_bucket v (fold (bucket_push s) vs m)) = mset (lookup_bucket v m) + replicate_mset (occurrences vs v) s"
  by (induction vs arbitrary: m) (auto simp: lookup_bucket_push lookup_bucket_cong)

lemma om_ok_fold_bucket_push: "om_ok compare_predicate_values m \<Longrightarrow> om_ok compare_predicate_values (fold (bucket_push s) vs m)"
  by (induction vs arbitrary: m) (simp_all add: bucket_push_def guard_key.om_ok_put)

lemma position_Some: "position p xs = Some i \<Longrightarrow> i < length xs \<and> p (xs ! i)"
  by (induction xs arbitrary: i) (auto split: if_splits)

lemma position_None: "position p xs = None \<longleftrightarrow> (\<forall>x\<in>set xs. \<not> p x)"
  by (induction xs) auto

lemma mset_swap_remove: "i < length xs \<Longrightarrow> mset (swap_remove xs i) = mset xs - {#xs ! i#}"
proof -
  assume i: "i < length xs"
  then have ne: "xs[i := last xs] \<noteq> []" by auto
  have l: "last (xs[i := last xs]) = last xs"
  proof -
    have "xs \<noteq> []" using i by auto
    then show ?thesis by (simp add: last_list_update)
  qed
  have "mset (xs[i := last xs]) = add_mset (last xs) (mset xs - {#xs ! i#})" by (rule mset_update [OF i])
  moreover have "mset (xs[i := last xs]) = add_mset (last xs) (mset (butlast (xs[i := last xs])))"
    using ne l append_butlast_last_id [OF ne] by (metis mset.simps(2) mset_append add.commute union_mset_add_mset_left mset_single_iff append.right_neutral mset.simps(1) union_commute add_mset_add_single)
  ultimately show ?thesis by (simp add: swap_remove_def)
qed

lemma mset_lookup_bucket_remove:
  "mset (lookup_bucket v (bucket_remove s w m)) =
     (if compare_predicate_values w v = Equal then mset (lookup_bucket v m) - {#s#} else mset (lookup_bucket v m))"
proof (cases "om_get compare_predicate_values w m")
  case None
  then have "compare_predicate_values w v = Equal \<Longrightarrow> lookup_bucket v m = []"
    using lookup_bucket_cong [of w v m] by (simp add: lookup_bucket_def or_default_def)
  then show ?thesis using None by (simp add: bucket_remove_def)
next
  case (Some b)
  define b' where "b' = (case position (\<lambda>x. x = s) b of None \<Rightarrow> b | Some i \<Rightarrow> swap_remove b i)"
  have b': "mset b' = mset b - {#s#}"
  proof (cases "position (\<lambda>x. x = s) b")
    case None
    then have "s \<notin> set b" by (auto simp: position_None)
    then show ?thesis using None by (simp add: b'_def diff_single_trivial)
  next
    case (Some i)
    then show ?thesis using position_Some [OF Some] mset_swap_remove [of i b] by (simp add: b'_def)
  qed
  have get: "om_get compare_predicate_values v (bucket_remove s w m) =
      (if compare_predicate_values w v = Equal then (if b' = [] then None else Some b') else om_get compare_predicate_values v m)"
    using Some by (simp add: bucket_remove_def b'_def [symmetric] Let_def guard_key.om_get_put guard_key.om_get_del)
  show ?thesis
  proof (cases "compare_predicate_values w v = Equal")
    case True
    then have "lookup_bucket v m = b" using Some lookup_bucket_cong [OF True, of m] by (simp add: lookup_bucket_def or_default_def)
    then show ?thesis using True get b' by (auto simp: lookup_bucket_def or_default_def)
  qed (simp add: lookup_bucket_def get)
qed

lemma mset_fold_bucket_remove:
  "mset (lookup_bucket v (fold (bucket_remove s) vs m)) = mset (lookup_bucket v m) - replicate_mset (occurrences vs v) s"
  by (induction vs arbitrary: m) (auto simp: mset_lookup_bucket_remove)

lemma om_ok_bucket_remove: "om_ok compare_predicate_values m \<Longrightarrow> om_ok compare_predicate_values (bucket_remove s w m)"
  by (auto simp: bucket_remove_def Let_def guard_key.om_ok_put om_ok_del split: option.split)

lemma om_ok_fold_bucket_remove: "om_ok compare_predicate_values m \<Longrightarrow> om_ok compare_predicate_values (fold (bucket_remove s) vs m)"
  by (induction vs arbitrary: m) (simp_all add: om_ok_bucket_remove)

text \<open>Pruning: no bucket is empty.\<close>

definition full_buckets :: "(cell_value, slot list) omap \<Rightarrow> bool" where
  "full_buckets m = (\<forall>(v, b)\<in>set m. b \<noteq> [])"

lemma full_fold_bucket_push: "full_buckets m \<Longrightarrow> full_buckets (fold (bucket_push s) vs m)"
proof (induction vs arbitrary: m)
  case (Cons v vs)
  have "full_buckets (bucket_push s v m)"
    using Cons.prems unfolding full_buckets_def bucket_push_def
    by (auto dest!: set_om_put)
  then show ?case using Cons.IH by simp
qed simp

lemma om_put_not_Nil [simp]: "om_put kcmp k v m \<noteq> []"
  by (cases m) (auto split: prod.splits ordering.splits)

lemma fold_bucket_push_not_Nil: "vs \<noteq> [] \<or> m \<noteq> [] \<Longrightarrow> fold (bucket_push s) vs m \<noteq> []"
  by (induction vs arbitrary: m) (auto simp: bucket_push_def)

lemma full_bucket_remove: "full_buckets m \<Longrightarrow> full_buckets (bucket_remove s v m)"
  unfolding full_buckets_def
  by (auto simp: bucket_remove_def Let_def split: option.splits if_splits
      dest!: set_om_put guard_key.om_del_put_entries)

lemma full_fold_bucket_remove: "full_buckets m \<Longrightarrow> full_buckets (fold (bucket_remove s) vs m)"
  by (induction vs arbitrary: m) (simp_all add: full_bucket_remove)

section \<open>Registrations\<close>

type_synonym registration = "slot \<times> push_guard option \<times> col_id list"

fun reg_hits :: "col_id \<Rightarrow> cell_value \<Rightarrow> registration \<Rightarrow> slot multiset" where
  "reg_hits col v (s, g, ks) = (case g of
       None \<Rightarrow> {#}
     | Some g' \<Rightarrow> if guard_col g' = col then replicate_mset (occurrences (guard_values g') v) s else {#})"

definition reg_bucket :: "registration list \<Rightarrow> col_id \<Rightarrow> cell_value \<Rightarrow> slot multiset" where
  "reg_bucket regs col v = sum_list (map (reg_hits col v) regs)"

definition key_count :: "registration list \<Rightarrow> col_id \<Rightarrow> nat" where
  "key_count regs k = sum_list (map (\<lambda>(s, g, ks). count_list ks k) regs)"

definition index_bucket :: "push_index \<Rightarrow> col_id \<Rightarrow> cell_value \<Rightarrow> slot list" where
  "index_bucket idx col v = lookup_bucket v (or_default (om_get cmp_of col (eq_map idx)))"

definition index_rel :: "push_index \<Rightarrow> registration list \<Rightarrow> bool" where
  "index_rel idx regs \<longleftrightarrow>
     om_ok cmp_of (eq_map idx) \<and> (\<forall>(col, m)\<in>set (eq_map idx). om_ok compare_predicate_values m) \<and>
     (\<forall>(col, m)\<in>set (eq_map idx). m \<noteq> [] \<and> full_buckets m) \<and>
     (\<forall>col v. mset (index_bucket idx col v) = reg_bucket regs col v) \<and>
     sorted (scan idx) \<and> distinct (scan idx) \<and> set (scan idx) = {s. \<exists>ks. (s, None, ks) \<in> set regs} \<and>
     om_ok cmp_of (split_map idx) \<and>
     (\<forall>k. om_get cmp_of k (split_map idx) = (if key_count regs k = 0 then None else Some (key_count regs k)))"

lemma reg_bucket_simps [simp]:
  "reg_bucket [] col v = {#}" "reg_bucket (r # regs) col v = reg_hits col v r + reg_bucket regs col v"
  by (simp_all add: reg_bucket_def)

lemma key_count_simps [simp]:
  "key_count [] k = 0" "key_count ((s, g, ks) # regs) k = count_list ks k + key_count regs k"
  by (simp_all add: key_count_def)

lemma index_rel_new: "index_rel push_index_new []"
  by (simp add: index_rel_def push_index_new_def index_bucket_def or_default_def lookup_bucket_def)

lemma om_get_fold_split_inc:
  "om_get cmp_of k (fold split_inc ks m) =
     (if count_list ks k = 0 then om_get cmp_of k m
      else Some (count_list ks k + (case om_get cmp_of k m of None \<Rightarrow> 0 | Some n \<Rightarrow> n)))"
proof (induction ks arbitrary: m)
  case (Cons a ks)
  show ?case unfolding fold_Cons comp_apply Cons
    by (auto simp: split_inc_def nat_key.om_get_put split: option.splits)
qed simp

lemma om_ok_fold_split: "om_ok cmp_of m \<Longrightarrow> om_ok cmp_of (fold split_inc ks m)"
  "om_ok cmp_of m \<Longrightarrow> om_ok cmp_of (fold split_dec ks m)"
  by (induction ks arbitrary: m)
    (auto simp: split_inc_def split_dec_def nat_key.om_ok_put om_ok_del split: option.split)

lemma om_get_fold_split_dec:
  "om_get cmp_of k m = (if n = 0 then None else Some n) \<Longrightarrow> count_list ks k \<le> n \<Longrightarrow>
   om_get cmp_of k (fold split_dec ks m) = (if n - count_list ks k = 0 then None else Some (n - count_list ks k))"
proof (induction ks arbitrary: m n)
  case (Cons a ks)
  show ?case
  proof (cases "a = k")
    case True
    then have n: "0 < n" using Cons.prems(2) by simp
    then have "om_get cmp_of k (split_dec a m) = (if n - 1 = 0 then None else Some (n - 1))"
      using True Cons.prems(1) by (simp add: split_dec_def nat_key.om_get_put nat_key.om_get_del)
    from Cons.IH [OF this] show ?thesis using True Cons.prems(2) n by simp
  next
    case False
    then have "om_get cmp_of k (split_dec a m) = om_get cmp_of k m"
      by (simp add: split_dec_def nat_key.om_get_put nat_key.om_get_del split: option.split)
    then show ?thesis using Cons False by simp
  qed
qed simp

text \<open>A map value found under a column is well-formed; so is the default.\<close>

lemma col_map_ok:
  assumes "om_ok cmp_of (eq_map idx)" "\<forall>(col, m)\<in>set (eq_map idx). om_ok compare_predicate_values m"
  shows "om_ok compare_predicate_values (or_default (om_get cmp_of col (eq_map idx)))"
  using assms nat_key.om_get_Some_iff [OF assms(1), of col]
  by (cases "om_get cmp_of col (eq_map idx)") (auto simp: or_default_def)

lemma all_om_put:
  "(\<forall>(col, m)\<in>set M. P m) \<Longrightarrow> P m' \<Longrightarrow> \<forall>(col, m)\<in>set (om_put cmp_of c m' M). P m"
  using set_om_put [of _ cmp_of c m' M] by fastforce

lemma all_om_del: "(\<forall>(col, m)\<in>set M. P m) \<Longrightarrow> \<forall>(col, m)\<in>set (om_del cmp_of c M). P m"
  using set_om_del [of cmp_of c M] by blast

lemma index_rel_insert:
  assumes "index_rel idx regs" "s \<notin> fst ` set regs"
  shows "index_rel (push_index_insert s guard ks idx) ((s, guard, ks) # regs)"
proof -
  define idx1 where "idx1 = (case guard of
          Some g \<Rightarrow>
            if guard_values g = [] then idx
            else
              let col_map = or_default (om_get cmp_of (guard_col g) (eq_map idx));
                  col_map' = fold (bucket_push s) (guard_values g) col_map
              in idx \<lparr> eq_map := om_put cmp_of (guard_col g) col_map' (eq_map idx) \<rparr>
        | None \<Rightarrow> idx \<lparr> scan := set_insert s (scan idx) \<rparr>)"
  have res: "push_index_insert s guard ks idx = idx1 \<lparr> split_map := fold split_inc ks (split_map idx) \<rparr>"
    by (auto simp: push_index_insert_def idx1_def Let_def split: option.split)
  note R = assms(1) [unfolded index_rel_def]
  have eq: "om_ok cmp_of (eq_map idx1)" "\<forall>(col, m)\<in>set (eq_map idx1). om_ok compare_predicate_values m"
    using R col_map_ok [of idx] by (auto simp: idx1_def Let_def om_ok_fold_bucket_push nat_key.om_ok_put split: option.split
      dest!: set_om_put)
  have full: "\<forall>(col, m)\<in>set (eq_map idx1). m \<noteq> [] \<and> full_buckets m"
  proof (cases guard)
    case (Some g)
    define cm where "cm = or_default (om_get cmp_of (guard_col g) (eq_map idx))"
    have "om_get cmp_of (guard_col g) (eq_map idx) = Some m \<Longrightarrow> full_buckets m" for m
      using R nat_key.om_get_Some_iff [of "eq_map idx" "guard_col g" m] by auto
    then have "full_buckets cm"
      by (cases "om_get cmp_of (guard_col g) (eq_map idx)") (auto simp: cm_def full_buckets_def [of "[]"])
    moreover have "guard_values g \<noteq> [] \<Longrightarrow> [] \<noteq> fold (bucket_push s) (guard_values g) cm"
      using fold_bucket_push_not_Nil [of "guard_values g" cm s] by auto
    ultimately show ?thesis using R Some
      by (auto simp: idx1_def cm_def [symmetric] Let_def full_fold_bucket_push dest!: set_om_put)
  qed (use R in \<open>auto simp: idx1_def\<close>)
  have b: "mset (index_bucket idx1 col v) = reg_bucket ((s, guard, ks) # regs) col v" for col v
  proof (cases guard)
    case None
    then show ?thesis using R by (simp add: idx1_def index_bucket_def)
  next
    case (Some g)
    show ?thesis
    proof (cases "guard_values g = []")
      case True
      then show ?thesis using R Some by (simp add: idx1_def)
    next
      case False
      then show ?thesis using R Some
        by (auto simp: idx1_def index_bucket_def Let_def nat_key.om_get_put or_default_def [of "Some _"] mset_fold_bucket_push)
    qed
  qed
  have sc: "sorted (scan idx1)" "distinct (scan idx1)" "set (scan idx1) = {s'. \<exists>ks'. (s', None, ks') \<in> set ((s, guard, ks) # regs)}"
    using R by (auto simp: idx1_def Let_def set_insert_def sorted_insort distinct_insort set_insort_key split: option.split)
  show ?thesis unfolding res index_rel_def
    using eq full b sc R om_get_fold_split_inc [of _ ks "split_map idx"]
    by (simp add: index_bucket_def om_ok_fold_split(1))
qed

text \<open>Registrations are told apart by their slots.\<close>

lemma reg_hits_sub: "r \<in> set regs \<Longrightarrow> reg_hits col v r \<subseteq># reg_bucket regs col v"
  by (induction regs) (auto intro: subset_mset.add_increasing)

lemma reg_bucket_remove1:
  "r \<in> set regs \<Longrightarrow> reg_bucket (remove1 r regs) col v = reg_bucket regs col v - reg_hits col v r"
proof (induction regs)
  case (Cons q regs)
  then show ?case
    using reg_hits_sub [of r regs col v] by (auto simp: subset_mset.add_diff_assoc simp del: reg_hits.simps)
qed simp

lemma key_count_remove1:
  "(s, g, ks) \<in> set regs \<Longrightarrow> key_count (remove1 (s, g, ks) regs) k = key_count regs k - count_list ks k \<and>
    count_list ks k \<le> key_count regs k"
  by (induction regs) auto

lemma index_rel_remove:
  assumes "index_rel idx regs" "(s, guard, ks) \<in> set regs" "distinct (map fst regs)"
  shows "index_rel (push_index_remove s guard ks idx) (remove1 (s, guard, ks) regs)"
proof -
  define idx1 where "idx1 = (case guard of
          Some g \<Rightarrow>
            if guard_values g = [] then idx
            else (case om_get cmp_of (guard_col g) (eq_map idx) of
                None \<Rightarrow> idx
              | Some col_map \<Rightarrow>
                  let col_map' = fold (bucket_remove s) (guard_values g) col_map
                  in idx \<lparr> eq_map := (if col_map' = [] then om_del cmp_of (guard_col g) (eq_map idx)
                                     else om_put cmp_of (guard_col g) col_map' (eq_map idx)) \<rparr>)
        | None \<Rightarrow> idx \<lparr> scan := remove1 s (scan idx) \<rparr>)"
  have res: "push_index_remove s guard ks idx = idx1 \<lparr> split_map := fold split_dec ks (split_map idx) \<rparr>"
    by (auto simp: push_index_remove_def idx1_def Let_def split: option.split)
  note R = assms(1) [unfolded index_rel_def]
  have eq: "om_ok cmp_of (eq_map idx1)" "\<forall>(col, m)\<in>set (eq_map idx1). om_ok compare_predicate_values m"
  proof -
    have cm: "om_get cmp_of c (eq_map idx) = Some m \<Longrightarrow> om_ok compare_predicate_values m" for c m
      using col_map_ok [of idx c] R by (simp add: or_default_def)
    show "om_ok cmp_of (eq_map idx1)"
      using R by (auto simp: idx1_def Let_def om_ok_del nat_key.om_ok_put split: option.split)
    show "\<forall>(col, m)\<in>set (eq_map idx1). om_ok compare_predicate_values m"
      using R cm by (auto simp: idx1_def Let_def om_ok_fold_bucket_remove split: option.split
        dest!: set_om_put subsetD [OF set_om_del])
  qed
  have full: "\<forall>(col, m)\<in>set (eq_map idx1). m \<noteq> [] \<and> full_buckets m"
  proof -
    have "om_get cmp_of c (eq_map idx) = Some m \<Longrightarrow> full_buckets m" for c m
      using R nat_key.om_get_Some_iff [of "eq_map idx" c m] by auto
    then show ?thesis using R
      by (auto simp: idx1_def Let_def full_fold_bucket_remove split: option.split
        dest!: set_om_put subsetD [OF set_om_del])
  qed
  have b: "mset (index_bucket idx1 col v) = reg_bucket (remove1 (s, guard, ks) regs) col v" for col v
  proof -
    have R': "mset (index_bucket idx col v) = reg_bucket regs col v" using R by blast
    show ?thesis
    proof (cases guard)
      case None
      then show ?thesis using R' reg_bucket_remove1 [OF assms(2)] by (simp add: idx1_def index_bucket_def)
    next
      case (Some g)
      have hits: "reg_bucket (remove1 (s, guard, ks) regs) col v =
          mset (index_bucket idx col v) - (if guard_col g = col then replicate_mset (occurrences (guard_values g) v) s else {#})"
        using R' reg_bucket_remove1 [OF assms(2), of col v] Some by simp
      show ?thesis
      proof (cases "guard_values g = [] \<or> om_get cmp_of (guard_col g) (eq_map idx) = None")
        case True
        then have "idx1 = idx" using Some by (auto simp: idx1_def)
        moreover have "guard_col g = col \<Longrightarrow> guard_values g \<noteq> [] \<Longrightarrow> index_bucket idx col v = []"
          using True by (simp add: index_bucket_def or_default_def lookup_bucket_def)
        ultimately show ?thesis using hits by (cases "guard_values g = []") auto
      next
        case False
        then obtain cm where cm: "om_get cmp_of (guard_col g) (eq_map idx) = Some cm" by auto
        define cm' where "cm' = fold (bucket_remove s) (guard_values g) cm"
        have get: "or_default (om_get cmp_of c (eq_map idx1)) = (if guard_col g = c then cm' else or_default (om_get cmp_of c (eq_map idx)))" for c
          using Some False cm
          by (auto simp: idx1_def cm'_def [symmetric] Let_def nat_key.om_get_put nat_key.om_get_del or_default_def)
        show ?thesis
          using hits cm mset_fold_bucket_remove [of v s "guard_values g" cm]
          by (auto simp: index_bucket_def get cm'_def)
      qed
    qed
  qed
  have uniq: "(s', None, ks') \<in> set regs \<Longrightarrow> (s', None, ks') \<noteq> (s, guard, ks) \<Longrightarrow> s' \<noteq> s" for s' ks'
    using assms(2,3) by (metis eq_key_imp_eq_value fst_conv)
  have sc: "sorted (scan idx1)" "distinct (scan idx1)"
      "set (scan idx1) = {s'. \<exists>ks'. (s', None, ks') \<in> set (remove1 (s, guard, ks) regs)}"
  proof -
    have d: "distinct regs" using assms(3) by (simp add: distinct_map)
    have "scan idx1 = (if guard = None then remove1 s (scan idx) else scan idx)"
      by (auto simp: idx1_def Let_def split: option.split)
    moreover have "set (remove1 s (scan idx)) = set (scan idx) - {s}" using R by (simp add: set_remove1_eq)
    ultimately show "sorted (scan idx1)" "distinct (scan idx1)"
      "set (scan idx1) = {s'. \<exists>ks'. (s', None, ks') \<in> set (remove1 (s, guard, ks) regs)}"
      using R uniq d assms(2) by (auto simp: sorted_remove1 set_remove1_eq)
  qed
  have "om_get cmp_of k (fold split_dec ks (split_map idx)) =
      (if key_count (remove1 (s, guard, ks) regs) k = 0 then None else Some (key_count (remove1 (s, guard, ks) regs) k))" for k
    using om_get_fold_split_dec [of k "split_map idx" "key_count regs k" ks] key_count_remove1 [OF assms(2), of k] R by simp
  then show ?thesis unfolding res index_rel_def
    using eq full b sc R by (simp add: index_bucket_def om_ok_fold_split(2))
qed

section \<open>Candidates\<close>

fun change_rows :: "source_change \<Rightarrow> row list" where
  "change_rows (AddRow r) = [r]"
| "change_rows (RemoveRow r) = [r]"
| "change_rows (EditRow r old) = [r, old]"

definition guard_admits :: "push_guard option \<Rightarrow> source_change \<Rightarrow> bool" where
  "guard_admits guard change = (case guard of
       None \<Rightarrow> True
     | Some g \<Rightarrow> list_ex (\<lambda>r. list_ex (\<lambda>w. compare_predicate_values w (r ! guard_col g) = Equal) (guard_values g))
                  (change_rows change))"

lemma collect_cols_ok:
  "\<forall>(col, m)\<in>set M. \<forall>r\<in>set (change_rows change). col < length r \<Longrightarrow>
   \<exists>out'. collect_cols change M out = Some out' \<and>
     set out' = set out \<union> (\<Union>(col, m)\<in>set M. \<Union>r\<in>set (change_rows change). set (lookup_bucket (r ! col) m))"
proof (induction M arbitrary: out)
  case (Cons cm M)
  obtain col m where cm: "cm = (col, m)" by fastforce
  define out1 where "out1 = out @ concat (map (\<lambda>r. lookup_bucket (r ! col) m) (change_rows change))"
  have "collect_cols change ((col, m) # M) out = collect_cols change M out1"
    using Cons.prems by (cases change) (auto simp: cm row_col_def collect_bucket_def out1_def lookup_bucket_def)
  moreover obtain out' where "collect_cols change M out1 = Some out'"
    "set out' = set out1 \<union> (\<Union>(col, m)\<in>set M. \<Union>r\<in>set (change_rows change). set (lookup_bucket (r ! col) m))"
    using Cons.IH [of out1] Cons.prems by auto
  ultimately show ?case by (auto simp: cm out1_def)
qed simp

lemma reg_bucket_member:
  "s \<in># reg_bucket regs col v \<longleftrightarrow> (\<exists>g ks. (s, Some g, ks) \<in> set regs \<and> guard_col g = col \<and>
     (\<exists>w\<in>set (guard_values g). compare_predicate_values w v = Equal))"
proof (induction regs)
  case (Cons r regs)
  obtain s' g' ks' where r: "r = (s', g', ks')" by (metis prod_cases3)
  have "s \<in># reg_hits col v r \<longleftrightarrow> (\<exists>g. s = s' \<and> g' = Some g \<and> guard_col g = col \<and>
      (\<exists>w\<in>set (guard_values g). compare_predicate_values w v = Equal))"
    by (cases g') (auto simp: r occurrences_def filter_empty_conv)
  then show ?case using Cons by (auto simp: r simp del: reg_hits.simps)
qed simp

lemma sorted_distinct_adj: "sorted (xs :: 'a :: linorder list) \<Longrightarrow> distinct (remdups_adj xs)"
proof (induction xs rule: remdups_adj.induct)
  case (3 x y xs)
  then show ?case by (cases "x = y") (auto simp: remdups_adj_set)
qed auto

lemma push_candidates_ok:
  assumes "index_rel idx regs" "\<forall>(s, g, ks)\<in>set regs. \<forall>g'. g = Some g' \<longrightarrow> (\<forall>r\<in>set (change_rows change). guard_col g' < length r)"
  shows "\<exists>xs. push_candidates idx change = Some xs \<and> sorted xs \<and> distinct xs \<and>
    set xs = {s. \<exists>g ks. (s, g, ks) \<in> set regs \<and> guard_admits g change}"
proof -
  note R = assms(1) [unfolded index_rel_def]
  have get: "(col, m) \<in> set (eq_map idx) \<Longrightarrow> om_get cmp_of col (eq_map idx) = Some m" for col m
    using R nat_key.om_get_Some_iff [of "eq_map idx" col m] by auto
  have bucket: "(col, m) \<in> set (eq_map idx) \<Longrightarrow> s \<in> set (lookup_bucket v m) \<longleftrightarrow> s \<in># reg_bucket regs col v" for col m s v
    using get [of col m] R by (metis index_bucket_def or_default_simps(2) set_mset_mset)
  have none: "om_get cmp_of col (eq_map idx) = None \<Longrightarrow> reg_bucket regs col v = {#}" for col v
    using R by (metis index_bucket_def lookup_bucket_def mset.simps(1) om_get.simps(1) or_default_simps(1))
  have cols: "\<forall>(col, m)\<in>set (eq_map idx). \<forall>r\<in>set (change_rows change). col < length r"
  proof clarify
    fix col m r assume m: "(col, m) \<in> set (eq_map idx)" and r: "r \<in> set (change_rows change)"
    have ok: "om_ok compare_predicate_values m" and "m \<noteq> []" "full_buckets m" using m R by auto
    then obtain v b where vb: "(v, b) \<in> set m" "b \<noteq> []" unfolding full_buckets_def by (cases m) auto
    then have "om_get compare_predicate_values v m = Some b" using guard_key.om_get_Some_iff [OF ok] by auto
    then obtain s where "s \<in> set (lookup_bucket v m)" using vb(2) by (cases b) (auto simp: lookup_bucket_def)
    then obtain g ks where "(s, Some g, ks) \<in> set regs" "guard_col g = col"
      using bucket [OF m] reg_bucket_member by blast
    then show "col < length r" using assms(2) r by fastforce
  qed
  obtain out where out: "collect_cols change (eq_map idx) (scan idx) = Some out"
    "set out = set (scan idx) \<union> (\<Union>(col, m)\<in>set (eq_map idx). \<Union>r\<in>set (change_rows change). set (lookup_bucket (r ! col) m))"
    using collect_cols_ok [OF cols, of "scan idx"] by blast
  have "(\<Union>(col, m)\<in>set (eq_map idx). \<Union>r\<in>set (change_rows change). set (lookup_bucket (r ! col) m)) =
      {s. \<exists>g ks. (s, Some g, ks) \<in> set regs \<and> guard_admits (Some g) change}"
  proof (intro set_eqI iffI)
    fix s assume "s \<in> (\<Union>(col, m)\<in>set (eq_map idx). \<Union>r\<in>set (change_rows change). set (lookup_bucket (r ! col) m))"
    then obtain col m r where "(col, m) \<in> set (eq_map idx)" "r \<in> set (change_rows change)" "s \<in># reg_bucket regs col (r ! col)"
      using bucket by blast
    then show "s \<in> {s. \<exists>g ks. (s, Some g, ks) \<in> set regs \<and> guard_admits (Some g) change}"
      unfolding reg_bucket_member by (auto simp: guard_admits_def list_ex_iff)
  next
    fix s assume "s \<in> {s. \<exists>g ks. (s, Some g, ks) \<in> set regs \<and> guard_admits (Some g) change}"
    then obtain g ks r where g: "(s, Some g, ks) \<in> set regs" "r \<in> set (change_rows change)"
      "\<exists>w\<in>set (guard_values g). compare_predicate_values w (r ! guard_col g) = Equal"
      by (auto simp: guard_admits_def list_ex_iff)
    then have in_b: "s \<in># reg_bucket regs (guard_col g) (r ! guard_col g)" unfolding reg_bucket_member by blast
    then obtain m where m: "om_get cmp_of (guard_col g) (eq_map idx) = Some m"
      using none [of "guard_col g" "r ! guard_col g"] by (cases "om_get cmp_of (guard_col g) (eq_map idx)") auto
    then have mem: "(guard_col g, m) \<in> set (eq_map idx)"
      using R nat_key.om_get_Some_iff [of "eq_map idx" "guard_col g" m] by auto
    then show "s \<in> (\<Union>(col, m)\<in>set (eq_map idx). \<Union>r\<in>set (change_rows change). set (lookup_bucket (r ! col) m))"
      using g(2) in_b bucket [OF mem, of s "r ! guard_col g"] by (intro UN_I [OF mem]) auto
  qed
  then have "set out = {s. \<exists>ks. (s, None, ks) \<in> set regs} \<union>
      {s. \<exists>g ks. (s, Some g, ks) \<in> set regs \<and> guard_admits (Some g) change}"
    using out(2) R by simp
  also have "\<dots> = {s. \<exists>g ks. (s, g, ks) \<in> set regs \<and> guard_admits g change}"
    by (auto simp: split_option_ex guard_admits_def [of None])
  finally have "set out = {s. \<exists>g ks. (s, g, ks) \<in> set regs \<and> guard_admits g change}" .
  moreover have "sorted (remdups_adj (List.sort out))" "distinct (remdups_adj (List.sort out))"
    using sorted_distinct_adj [of "List.sort out"] by simp_all
  ultimately show ?thesis using out(1) by (simp add: push_candidates_def)
qed

end
