(* ===== verification/Conn_Table.thy ===== *)
theory Conn_Table
  imports Push_Index
begin

text \<open>
  The connection registry of a source (\<open>ConnTable\<close> in \<open>rust/src/source_common.rs\<close>): connection
  slots with a generational free list, and the push index kept in step with them.

  A connection handle is a slot index and a generation, both \<open>u32\<close>; the generation wraps. The
  registry's invariant says which slots are live, that the free list holds exactly the
  others, and that the push index holds exactly the live connections' guards.
\<close>

section \<open>Connections\<close>

datatype sql_op = SqlEq | SqlNe | SqlLt | SqlLe | SqlGt | SqlGe | SqlIs | SqlIsNot | SqlIn | SqlNotIn
  | SqlLike | SqlNotLike | SqlIlike | SqlNotIlike

datatype operand = Column col_id | Literal cell_value

datatype sql_condition = Simple operand sql_op operand | SqlAnd "sql_condition list" | SqlOr "sql_condition list"

type_synonym row_predicate = "row \<Rightarrow> bool"

record connection_filters =
  predicate :: row_predicate
  pk_constraint :: "row_constraint option"
  fully_applied :: bool
  sql_cond :: "sql_condition option"
  filter_guard :: "push_guard option"

record node_id =
  node_idx :: "32 word"
  node_gen :: "32 word"

datatype port = Single | JoinParent | JoinChild

record out_edge =
  edge_node :: node_id
  edge_port :: port

record connection =
  conn_sort :: sort
  unordered :: bool
  split_edit_keys :: "col_id list"
  filters :: "connection_filters option"
  last_pushed_epoch :: "32 word"
  conn_output :: "out_edge option"

record conn_id =
  cid_idx :: slot
  cid_gen :: "32 word"

record conn_table =
  conns :: "connection list"
  gens :: "32 word list"
  free :: "slot list"
  push_idx :: push_index

definition conn_table_new :: conn_table where
  "conn_table_new = \<lparr> conns = [], gens = [], free = [], push_idx = push_index_new \<rparr>"

definition conn_guard :: "connection \<Rightarrow> push_guard option" where
  "conn_guard c = Option.bind (filters c) filter_guard"

text \<open>The free list is a stack: the last element pushed is the head here.\<close>

definition connect :: "conn_table \<Rightarrow> connection \<Rightarrow> (conn_table \<times> conn_id) option" where
  "connect t conn = (case free t of
       idx # free' \<Rightarrow> do {
         let i = unat idx;
         conns' \<leftarrow> vec_set (conns t) i conn;
         g \<leftarrow> vec_get (gens t) i;
         Some (t \<lparr> conns := conns', free := free',
                 push_idx := push_index_insert idx (conn_guard conn) (split_edit_keys conn) (push_idx t) \<rparr>,
               \<lparr> cid_idx = idx, cid_gen = g \<rparr>)
       }
     | [] \<Rightarrow>
         let idx = of_nat (length (conns t))
         in Some (t \<lparr> conns := conns t @ [conn], gens := gens t @ [0],
                    push_idx := push_index_insert idx (conn_guard conn) (split_edit_keys conn) (push_idx t) \<rparr>,
                  \<lparr> cid_idx = idx, cid_gen = 0 \<rparr>))"

definition destroy :: "conn_table \<Rightarrow> conn_id \<Rightarrow> conn_table option" where
  "destroy t cid = (let i = unat (cid_idx cid) in
     if vec_get (gens t) i \<noteq> Some (cid_gen cid) then Some t
     else do {
       let t1 = (case vec_get (conns t) i of
           None \<Rightarrow> t
         | Some c \<Rightarrow> t \<lparr> push_idx := push_index_remove (cid_idx cid) (conn_guard c) (split_edit_keys c) (push_idx t),
                         conns := (conns t)[i := c \<lparr> conn_output := None \<rparr>] \<rparr>);
       g \<leftarrow> vec_get (gens t1) i;
       gens' \<leftarrow> vec_set (gens t1) i (g + 1);
       Some (t1 \<lparr> gens := gens', free := of_nat i # free t1 \<rparr>)
     })"

definition live_ix :: "conn_table \<Rightarrow> conn_id \<Rightarrow> nat option" where
  "live_ix t cid = (let i = unat (cid_idx cid) in
     if vec_get (gens t) i = Some (cid_gen cid) then Some i else None)"

definition set_output :: "conn_table \<Rightarrow> conn_id \<Rightarrow> out_edge \<Rightarrow> conn_table option" where
  "set_output t cid edge = do {
     i \<leftarrow> live_ix t cid;
     c \<leftarrow> vec_get (conns t) i;
     Some (t \<lparr> conns := (conns t)[i := c \<lparr> conn_output := Some edge \<rparr>] \<rparr>)
   }"

definition table_sort :: "conn_table \<Rightarrow> conn_id \<Rightarrow> sort option" where
  "table_sort t cid = do { i \<leftarrow> live_ix t cid; c \<leftarrow> vec_get (conns t) i; Some (conn_sort c) }"

definition table_len :: "conn_table \<Rightarrow> nat" where
  "table_len t = length (conns t)"

definition table_is_empty :: "conn_table \<Rightarrow> bool" where
  "table_is_empty t = (conns t = [])"

definition live_conn_count :: "conn_table \<Rightarrow> nat" where
  "live_conn_count t = length (filter (\<lambda>c. conn_output c \<noteq> None) (conns t))"

definition table_candidates :: "conn_table \<Rightarrow> source_change \<Rightarrow> slot list option" where
  "table_candidates t change = push_candidates (push_idx t) change"

definition table_split_edit_keys :: "conn_table \<Rightarrow> col_id list" where
  "table_split_edit_keys t = split_keys (push_idx t)"

definition has_split_edit_keys :: "conn_table \<Rightarrow> bool" where
  "has_split_edit_keys t = has_split_keys (push_idx t)"

section \<open>The invariant\<close>

definition live_slots :: "conn_table \<Rightarrow> nat list" where
  "live_slots t = filter (\<lambda>i. of_nat i \<notin> set (free t)) [0..<length (conns t)]"

definition reg_of :: "conn_table \<Rightarrow> nat \<Rightarrow> registration" where
  "reg_of t i = (of_nat i, conn_guard (conns t ! i), split_edit_keys (conns t ! i))"

definition table_regs :: "conn_table \<Rightarrow> registration list" where
  "table_regs t = map (reg_of t) (live_slots t)"

definition table_ok :: "conn_table \<Rightarrow> bool" where
  "table_ok t \<longleftrightarrow> length (gens t) = length (conns t) \<and> length (conns t) < 2 ^ 32 \<and>
     distinct (free t) \<and> (\<forall>s\<in>set (free t). unat s < length (conns t) \<and> conn_output (conns t ! unat s) = None) \<and>
     (\<exists>regs. mset regs = mset (table_regs t) \<and> index_rel (push_idx t) regs)"

lemma index_rel_mset:
  assumes "index_rel idx regs" "mset regs = mset regs'"
  shows "index_rel idx regs'"
proof -
  have set: "set regs = set regs'" using assms(2) by (metis set_mset_mset)
  have "reg_bucket regs col v = reg_bucket regs' col v" for col v
    unfolding reg_bucket_def by (metis assms(2) mset_map sum_mset_sum_list)
  moreover have "key_count regs k = key_count regs' k" for k
    unfolding key_count_def by (metis assms(2) mset_map sum_mset_sum_list)
  ultimately show ?thesis using assms(1) set by (simp add: index_rel_def)
qed

lemma table_ok_rel: "table_ok t \<Longrightarrow> index_rel (push_idx t) (table_regs t)"
  using index_rel_mset by (auto simp: table_ok_def)

lemma unat_of_nat_slot: "n < 2 ^ 32 \<Longrightarrow> unat (of_nat n :: slot) = n"
  by (simp add: unsigned_of_nat take_bit_nat_eq_self)

lemma of_nat_slot_inject: "m < 2 ^ 32 \<Longrightarrow> n < 2 ^ 32 \<Longrightarrow> (of_nat m :: slot) = of_nat n \<longleftrightarrow> m = n"
  by (metis unat_of_nat_slot)

lemma of_nat_unat_slot: "of_nat (unat s) = (s :: slot)"
  by simp

lemma table_ok_new: "table_ok conn_table_new"
  by (auto simp: table_ok_def conn_table_new_def table_regs_def live_slots_def index_rel_new)

lemma live_slots_iff: "i \<in> set (live_slots t) \<longleftrightarrow> i < length (conns t) \<and> of_nat i \<notin> set (free t)"
  by (auto simp: live_slots_def)

lemma distinct_live_slots [simp]: "distinct (live_slots t)"
  by (simp add: live_slots_def)

lemma regs_distinct: "length (conns t) < 2 ^ 32 \<Longrightarrow> distinct (map fst (table_regs t))"
  by (auto simp: table_regs_def comp_def reg_of_def distinct_map inj_on_def live_slots_iff of_nat_slot_inject)

lemma reg_slot_fresh:
  assumes "length (conns t) < 2 ^ 32" "\<not> (unat s < length (conns t) \<and> s \<notin> set (free t))"
  shows "s \<notin> fst ` set (table_regs t)"
proof
  assume "s \<in> fst ` set (table_regs t)"
  then obtain i where "i \<in> set (live_slots t)" "s = of_nat i" by (auto simp: table_regs_def reg_of_def)
  then show False using assms by (auto simp: live_slots_iff unat_of_nat_slot)
qed

lemma mset_map_filter_insert:
  assumes "distinct xs" "i \<in> set xs" "\<not> P i" "\<And>j. j \<in> set xs \<Longrightarrow> j \<noteq> i \<Longrightarrow> (Q j \<longleftrightarrow> P j)" "Q i"
    and "\<And>j. j \<in> set xs \<Longrightarrow> P j \<Longrightarrow> f j = g j"
  shows "mset (map g (filter Q xs)) = add_mset (g i) (mset (map f (filter P xs)))"
proof -
  have "mset (filter Q xs) = add_mset i (mset (filter P xs))"
    using assms(1-5)
  proof (induction xs)
    case (Cons x xs)
    show ?case
    proof (cases "x = i")
      case True
      then have "filter Q xs = filter P xs" using Cons.prems by (intro filter_cong) auto
      then show ?thesis using True Cons.prems by simp
    next
      case False
      then have "mset (filter Q xs) = add_mset i (mset (filter P xs))" using Cons by auto
      moreover have "Q x \<longleftrightarrow> P x" using Cons.prems(4) [of x] False by simp
      ultimately show ?thesis by simp
    qed
  qed simp
  moreover have "map f (filter P xs) = map g (filter P xs)" using assms(6) by simp
  ultimately show ?thesis by (metis image_mset_add_mset mset_map)
qed

text \<open>Connecting registers exactly the new connection and yields a live handle.\<close>

lemma connect_ok:
  assumes "table_ok t" "length (conns t) + 1 < 2 ^ 32"
  shows "\<exists>t' cid. connect t conn = Some (t', cid) \<and> table_ok t' \<and> live_ix t' cid = Some (unat (cid_idx cid)) \<and>
    conns t' ! unat (cid_idx cid) = conn \<and> unat (cid_idx cid) \<notin> set (live_slots t) \<and>
    set (live_slots t') = insert (unat (cid_idx cid)) (set (live_slots t)) \<and>
    (\<forall>i\<in>set (live_slots t). conns t' ! i = conns t ! i) \<and>
    length (conns t') = (if free t = [] then Suc (length (conns t)) else length (conns t)) \<and>
    (\<forall>i<length (gens t). gens t' ! i = gens t ! i)"
proof (cases "free t")
  case Nil
  define n where "n = length (conns t)"
  define t' where "t' = t \<lparr> conns := conns t @ [conn], gens := gens t @ [0],
      push_idx := push_index_insert (of_nat n) (conn_guard conn) (split_edit_keys conn) (push_idx t) \<rparr>"
  have n: "unat (of_nat n :: slot) = n" using assms(2) by (intro unat_of_nat_slot) (simp add: n_def)
  have slots: "live_slots t = [0..<n]" "live_slots t' = [0..<n] @ [n]"
    using Nil by (auto simp: live_slots_def t'_def n_def)
  have regs: "table_regs t' = table_regs t @ [(of_nat n, conn_guard conn, split_edit_keys conn)]"
    unfolding table_regs_def slots by (simp add: reg_of_def t'_def n_def nth_append)
  have "(of_nat n :: slot) \<notin> fst ` set (table_regs t)"
    by (rule reg_slot_fresh) (use assms(2) n in \<open>auto simp: n_def\<close>)
  then have "index_rel (push_idx t') ((of_nat n, conn_guard conn, split_edit_keys conn) # table_regs t)"
    using index_rel_insert [OF table_ok_rel [OF assms(1)]] by (simp add: t'_def)
  then have "table_ok t'" using assms Nil unfolding table_ok_def regs
    by (auto simp: t'_def intro!: exI [of _ "(of_nat n, conn_guard conn, split_edit_keys conn) # table_regs t"])
  moreover have "connect t conn = Some (t', \<lparr> cid_idx = of_nat n, cid_gen = 0 \<rparr>)"
    using Nil by (simp add: connect_def t'_def n_def Let_def)
  moreover have "length (gens t) = n" using assms(1) by (simp add: table_ok_def n_def)
  ultimately show ?thesis using n slots Nil
    by (auto simp: live_ix_def t'_def n_def nth_append Let_def)
next
  case (Cons s free')
  define i where "i = unat s"
  have i: "i < length (conns t)" "i < length (gens t)" "of_nat i = s" "s \<notin> set free'"
    using assms(1) Cons by (auto simp: table_ok_def i_def)
  define t' where "t' = t \<lparr> conns := (conns t)[i := conn], free := free',
      push_idx := push_index_insert s (conn_guard conn) (split_edit_keys conn) (push_idx t) \<rparr>"
  have sl: "of_nat j = s \<longleftrightarrow> j = i" if "j < length (conns t)" for j
    using that i assms(2) of_nat_slot_inject [of j i] by auto
  have regs: "mset (table_regs t') = add_mset (s, conn_guard conn, split_edit_keys conn) (mset (table_regs t))"
  proof -
    have "mset (map (reg_of t') (filter (\<lambda>j. of_nat j \<notin> set free') [0..<length (conns t)])) =
        add_mset (reg_of t' i) (mset (map (reg_of t) (filter (\<lambda>j. of_nat j \<notin> set (free t)) [0..<length (conns t)])))"
    proof (rule mset_map_filter_insert)
      show "(of_nat j \<notin> set free') = (of_nat j \<notin> set (free t))" if "j \<in> set [0..<length (conns t)]" "j \<noteq> i" for j
        using that sl [of j] Cons by auto
      show "reg_of t j = reg_of t' j" if "j \<in> set [0..<length (conns t)]" "of_nat j \<notin> set (free t)" for j
        using that Cons i by (auto simp: reg_of_def t'_def nth_list_update)
    qed (use i Cons in auto)
    then show ?thesis using i by (simp add: table_regs_def live_slots_def t'_def reg_of_def)
  qed
  have "s \<notin> fst ` set (table_regs t)"
    by (rule reg_slot_fresh) (use assms Cons in auto)
  then have "index_rel (push_idx t') ((s, conn_guard conn, split_edit_keys conn) # table_regs t)"
    using index_rel_insert [OF table_ok_rel [OF assms(1)]] by (simp add: t'_def)
  moreover have "\<forall>s'\<in>set free'. unat s' < length (conns t) \<and> conn_output ((conns t)[i := conn] ! unat s') = None"
  proof
    fix s' assume s': "s' \<in> set free'"
    then have "unat s' \<noteq> i" using i(4) i_def by (metis of_nat_unat_slot)
    then show "unat s' < length (conns t) \<and> conn_output ((conns t)[i := conn] ! unat s') = None"
      using s' Cons assms(1) by (simp add: table_ok_def)
  qed
  ultimately have "table_ok t'" using assms(1) Cons regs unfolding table_ok_def
    by (auto simp: t'_def intro!: exI [of _ "(s, conn_guard conn, split_edit_keys conn) # table_regs t"])
  moreover have "connect t conn = Some (t', \<lparr> cid_idx = s, cid_gen = gens t ! i \<rparr>)"
    using Cons i by (simp add: connect_def t'_def i_def [symmetric])
  moreover have "set (live_slots t') = insert i (set (live_slots t))"
  proof (intro set_eqI)
    fix j
    have "of_nat i \<notin> set free'" using i(3,4) by simp
    moreover have "j < length (conns t) \<Longrightarrow> of_nat j \<in> set (free t) \<longleftrightarrow> j = i \<or> of_nat j \<in> set free'"
      using sl [of j] Cons by auto
    ultimately show "j \<in> set (live_slots t') \<longleftrightarrow> j \<in> insert i (set (live_slots t))"
      using i(1) by (auto simp: live_slots_iff t'_def)
  qed
  moreover have "i \<notin> set (live_slots t)" using i Cons by (simp add: live_slots_iff)
  ultimately show ?thesis using i Cons
    by (auto simp: live_ix_def t'_def i_def [symmetric] live_slots_iff nth_list_update)
qed

text \<open>Destroying a live handle un-registers exactly that connection and makes the handle stale; a stale
  handle changes nothing.\<close>

lemma mset_remove_reg:
  assumes "distinct xs" "i \<in> set xs" "P i" "\<And>j. j \<in> set xs \<Longrightarrow> j \<noteq> i \<Longrightarrow> (Q j \<longleftrightarrow> P j)" "\<not> Q i"
    and "\<And>j. j \<in> set xs \<Longrightarrow> Q j \<Longrightarrow> g j = f j"
  shows "mset (map g (filter Q xs)) = mset (remove1 (f i) (map f (filter P xs)))"
proof -
  have "mset (map f (filter P xs)) = add_mset (f i) (mset (map g (filter Q xs)))"
    by (rule mset_map_filter_insert) (use assms in auto)
  then show ?thesis by simp
qed

lemma destroy_live_ok:
  assumes "table_ok t" "live_ix t cid = Some i" "i \<in> set (live_slots t)"
  shows "\<exists>t'. destroy t cid = Some t' \<and> table_ok t' \<and> live_ix t' cid = None \<and>
    set (live_slots t') = set (live_slots t) - {i} \<and>
    (\<forall>j\<in>set (live_slots t'). conns t' ! j = conns t ! j \<and> gens t' ! j = gens t ! j) \<and>
    length (conns t') = length (conns t) \<and> free t' = cid_idx cid # free t"
proof -
  let ?s = "cid_idx cid"
  have i: "i = unat ?s" "i < length (gens t)" "gens t ! i = cid_gen cid" "i < length (conns t)" "of_nat i \<notin> set (free t)"
      "of_nat i = ?s"
    using assms(2,3) by (auto simp: live_ix_def Let_def vec_get_def live_slots_iff split: if_splits)
  define c where "c = conns t ! i"
  define t' where "t' = t \<lparr> push_idx := push_index_remove ?s (conn_guard c) (split_edit_keys c) (push_idx t),
      conns := (conns t)[i := c \<lparr> conn_output := None \<rparr>], gens := (gens t)[i := cid_gen cid + 1], free := ?s # free t \<rparr>"
  have run: "destroy t cid = Some t'"
    using i by (simp add: destroy_def Let_def i(1) [symmetric] c_def t'_def)
  have sl: "of_nat j = ?s \<longleftrightarrow> j = i" if "j < length (conns t)" for j
    using that i assms(1) of_nat_slot_inject [of j i] by (auto simp: table_ok_def)
  have len: "length (conns t) < 2 ^ 32" using assms(1) by (simp add: table_ok_def)
  have slots: "set (live_slots t') = set (live_slots t) - {i}"
    using sl i by (auto simp: live_slots_iff t'_def)
  have regs: "mset (table_regs t') = mset (remove1 (reg_of t i) (table_regs t))"
  proof -
    have "mset (map (reg_of t') (filter (\<lambda>j. of_nat j \<notin> set (?s # free t)) [0..<length (conns t)])) =
        mset (remove1 (reg_of t i) (map (reg_of t) (filter (\<lambda>j. of_nat j \<notin> set (free t)) [0..<length (conns t)])))"
    proof (rule mset_remove_reg)
      show "(of_nat j \<notin> set (?s # free t)) = (of_nat j \<notin> set (free t))" if "j \<in> set [0..<length (conns t)]" "j \<noteq> i" for j
        using that sl [of j] by auto
      show "reg_of t' j = reg_of t j" if "j \<in> set [0..<length (conns t)]" "of_nat j \<notin> set (?s # free t)" for j
        using that i by (auto simp: reg_of_def t'_def nth_list_update)
    qed (use i in auto)
    then show ?thesis by (simp add: table_regs_def live_slots_def t'_def)
  qed
  have "reg_of t i \<in> set (table_regs t)" using assms(3) by (simp add: table_regs_def)
  then have "index_rel (push_idx t') (remove1 (reg_of t i) (table_regs t))"
    using index_rel_remove [OF table_ok_rel [OF assms(1)], of ?s "conn_guard c" "split_edit_keys c"] regs_distinct [OF len]
    by (simp add: reg_of_def t'_def c_def i(6))
  moreover have "\<forall>s\<in>set (?s # free t). unat s < length (conns t) \<and> conn_output ((conns t)[i := c \<lparr> conn_output := None \<rparr>] ! unat s) = None"
    using assms(1) i by (auto simp: table_ok_def nth_list_update)
  ultimately have "table_ok t'" using assms(1) i regs unfolding table_ok_def
    by (auto simp: t'_def intro!: exI [of _ "remove1 (reg_of t i) (table_regs t)"])
  moreover have "cid_gen cid + 1 \<noteq> cid_gen cid" by simp
  then have "live_ix t' cid = None" using i by (simp add: live_ix_def Let_def t'_def i(1) [symmetric])
  moreover have "\<forall>j\<in>set (live_slots t'). conns t' ! j = conns t ! j \<and> gens t' ! j = gens t ! j"
    unfolding slots by (simp add: t'_def)
  ultimately show ?thesis using run slots by (simp add: t'_def)
qed

lemma destroy_stale:
  assumes "live_ix t cid = None"
  shows "destroy t cid = Some t"
  using assms by (simp add: destroy_def live_ix_def Let_def split: if_splits)

text \<open>Wiring an output changes neither guards nor slots.\<close>

lemma set_output_ok:
  assumes "table_ok t" "live_ix t cid = Some i" "i \<in> set (live_slots t)"
  shows "\<exists>t'. set_output t cid edge = Some t' \<and> table_ok t' \<and> live_slots t' = live_slots t \<and>
    conn_output (conns t' ! i) = Some edge \<and> gens t' = gens t \<and>
    (\<forall>j. j \<noteq> i \<longrightarrow> conns t' ! j = conns t ! j)"
proof -
  have i: "i < length (conns t)" "of_nat i \<notin> set (free t)" using assms(3) by (auto simp: live_slots_iff)
  define t' where "t' = t \<lparr> conns := (conns t)[i := (conns t ! i) \<lparr> conn_output := Some edge \<rparr>] \<rparr>"
  have "set_output t cid edge = Some t'" using assms(2) i by (simp add: set_output_def t'_def)
  moreover have slots: "live_slots t' = live_slots t" by (simp add: live_slots_def t'_def)
  moreover have "table_regs t' = table_regs t"
    unfolding table_regs_def slots using i by (auto simp: reg_of_def t'_def nth_list_update conn_guard_def)
  moreover have "\<forall>s\<in>set (free t). unat s \<noteq> i" using i(2) of_nat_unat_slot by metis
  ultimately show ?thesis using assms(1) i
    by (auto simp: table_ok_def t'_def)
qed

section \<open>Histories of handles\<close>

text \<open>The registry is driven through handles it issued: \<open>conn_reach t hs\<close> says that \<open>t\<close> is reached from
  the empty registry by a sequence of calls that leaves exactly the handles \<open>hs\<close> in use. Tear-down with
  a stale handle is a call like any other.\<close>

inductive conn_reach :: "conn_table \<Rightarrow> conn_id list \<Rightarrow> bool" where
  reach_new: "conn_reach conn_table_new []"
| reach_connect: "conn_reach t hs \<Longrightarrow> length (conns t) + 1 < 2 ^ 32 \<Longrightarrow> connect t conn = Some (t', cid) \<Longrightarrow>
    conn_reach t' (cid # hs)"
| reach_destroy: "conn_reach t hs \<Longrightarrow> cid \<in> set hs \<Longrightarrow> destroy t cid = Some t' \<Longrightarrow> conn_reach t' (remove1 cid hs)"
| reach_stale: "conn_reach t hs \<Longrightarrow> live_ix t cid = None \<Longrightarrow> destroy t cid = Some t' \<Longrightarrow> conn_reach t' hs"
| reach_output: "conn_reach t hs \<Longrightarrow> cid \<in> set hs \<Longrightarrow> set_output t cid edge = Some t' \<Longrightarrow> conn_reach t' hs"

definition handle_live :: "conn_table \<Rightarrow> conn_id \<Rightarrow> bool" where
  "handle_live t cid \<longleftrightarrow> (\<exists>i\<in>set (live_slots t). live_ix t cid = Some i)"

lemma live_ix_iff:
  "live_ix t cid = Some i \<longleftrightarrow> i = unat (cid_idx cid) \<and> i < length (gens t) \<and> gens t ! i = cid_gen cid"
  by (auto simp: live_ix_def Let_def vec_get_def)

lemma handle_live_iff:
  assumes "table_ok t"
  shows "handle_live t cid \<longleftrightarrow> unat (cid_idx cid) \<in> set (live_slots t) \<and> gens t ! unat (cid_idx cid) = cid_gen cid"
  using assms by (auto simp: handle_live_def live_ix_iff live_slots_iff table_ok_def)

lemma unat_eq_iff_slot: "(a :: slot) = b \<longleftrightarrow> unat a = unat b"
  by (metis of_nat_unat_slot)

lemma conn_id_eq: "cid = (cid' :: conn_id) \<longleftrightarrow> unat (cid_idx cid) = unat (cid_idx cid') \<and> cid_gen cid = cid_gen cid'"
  by (cases cid; cases cid') (simp add: unat_eq_iff_slot)

definition handles_ok :: "conn_table \<Rightarrow> conn_id list \<Rightarrow> bool" where
  "handles_ok t hs \<longleftrightarrow> table_ok t \<and> distinct hs \<and> set hs = {cid. handle_live t cid}"

lemma handles_ok_connect:
  assumes "handles_ok t hs" "length (conns t) + 1 < 2 ^ 32" "connect t conn = Some (t', cid)"
  shows "handles_ok t' (cid # hs)"
proof -
  have ok: "table_ok t" using assms(1) by (simp add: handles_ok_def)
  have C: "table_ok t'" "live_ix t' cid = Some (unat (cid_idx cid))" "unat (cid_idx cid) \<notin> set (live_slots t)"
    "set (live_slots t') = insert (unat (cid_idx cid)) (set (live_slots t))" "\<forall>i<length (gens t). gens t' ! i = gens t ! i"
    using connect_ok [OF ok assms(2), of conn] assms(3) by auto
  have g: "gens t' ! i = gens t ! i" if "i \<in> set (live_slots t)" for i
    using that C(5) ok by (auto simp: live_slots_iff table_ok_def)
  have "handle_live t' h \<longleftrightarrow> h = cid \<or> handle_live t h" for h
    unfolding handle_live_iff [OF ok] handle_live_iff [OF C(1)] conn_id_eq [of h cid]
    using C(2-4) g by (auto simp: live_ix_iff)
  moreover have "\<not> handle_live t cid" unfolding handle_live_iff [OF ok] using C(3) by simp
  ultimately show ?thesis using assms(1) C(1) by (auto simp: handles_ok_def)
qed

lemma handles_ok_destroy:
  assumes "handles_ok t hs" "cid \<in> set hs" "destroy t cid = Some t'"
  shows "handles_ok t' (remove1 cid hs)"
proof -
  have ok: "table_ok t" and hl: "handle_live t cid" using assms(1,2) by (auto simp: handles_ok_def)
  then obtain i where i: "live_ix t cid = Some i" "i \<in> set (live_slots t)" by (auto simp: handle_live_def)
  have D: "table_ok t'" "live_ix t' cid = None" "set (live_slots t') = set (live_slots t) - {i}"
    "\<forall>j\<in>set (live_slots t'). conns t' ! j = conns t ! j \<and> gens t' ! j = gens t ! j"
    using destroy_live_ok [OF ok i] assms(3) by auto
  have "handle_live t' h \<longleftrightarrow> h \<noteq> cid \<and> handle_live t h" for h
    unfolding handle_live_iff [OF ok] handle_live_iff [OF D(1)] conn_id_eq [of h cid]
    using D(3,4) i(1) by (cases "unat (cid_idx h) = i") (auto simp: live_ix_iff)
  then show ?thesis using assms(1) D(1) by (auto simp: handles_ok_def)
qed

lemma handles_ok_set_output:
  assumes "handles_ok t hs" "cid \<in> set hs" "set_output t cid edge = Some t'"
  shows "handles_ok t' hs"
proof -
  have ok: "table_ok t" and "handle_live t cid" using assms(1,2) by (auto simp: handles_ok_def)
  then obtain i where i: "live_ix t cid = Some i" "i \<in> set (live_slots t)" by (auto simp: handle_live_def)
  have S: "table_ok t'" "live_slots t' = live_slots t" "gens t' = gens t"
    using set_output_ok [OF ok i, of edge] assms(3) by auto
  then have "handle_live t' h \<longleftrightarrow> handle_live t h" for h
    unfolding handle_live_iff [OF ok] handle_live_iff [OF S(1)] by simp
  then show ?thesis using assms(1) S(1) by (simp add: handles_ok_def)
qed

lemma conn_reach_handles: "conn_reach t hs \<Longrightarrow> handles_ok t hs"
proof (induction rule: conn_reach.induct)
  case reach_new
  show ?case by (simp add: handles_ok_def table_ok_new handle_live_iff) (simp add: live_slots_def conn_table_new_def)
next
  case (reach_stale t hs cid t')
  then show ?case by (simp add: destroy_stale)
qed (auto intro: handles_ok_connect handles_ok_destroy handles_ok_set_output)

text \<open>The same calls with the torn-down handles kept: \<open>conn_hist t hs ds\<close> says that the history leaves the handles \<open>hs\<close> in use and
  has torn down the handles \<open>ds\<close>, each of which may be used again for a tear-down at any later time. The generation of a slot is a \<open>u32\<close>
  and wraps: the history tears no slot down while its generation is the last one, \<open>2 ^ 32 - 1\<close>.\<close>

inductive conn_hist :: "conn_table \<Rightarrow> conn_id list \<Rightarrow> conn_id list \<Rightarrow> bool" where
  hist_new: "conn_hist conn_table_new [] []"
| hist_connect: "conn_hist t hs ds \<Longrightarrow> length (conns t) + 1 < 2 ^ 32 \<Longrightarrow> connect t conn = Some (t', cid) \<Longrightarrow>
    conn_hist t' (cid # hs) ds"
| hist_destroy: "conn_hist t hs ds \<Longrightarrow> cid \<in> set hs \<Longrightarrow> cid_gen cid \<noteq> - 1 \<Longrightarrow> destroy t cid = Some t' \<Longrightarrow>
    conn_hist t' (remove1 cid hs) (cid # ds)"
| hist_again: "conn_hist t hs ds \<Longrightarrow> cid \<in> set ds \<Longrightarrow> destroy t cid = Some t' \<Longrightarrow> conn_hist t' hs ds"
| hist_output: "conn_hist t hs ds \<Longrightarrow> cid \<in> set hs \<Longrightarrow> set_output t cid edge = Some t' \<Longrightarrow> conn_hist t' hs ds"

text \<open>A torn-down handle carries a generation its slot has left behind.\<close>

definition handle_gone :: "conn_table \<Rightarrow> conn_id \<Rightarrow> bool" where
  "handle_gone t cid \<longleftrightarrow> unat (cid_idx cid) < length (gens t) \<and> cid_gen cid < gens t ! unat (cid_idx cid)"

lemma gone_stale: "handle_gone t cid \<Longrightarrow> live_ix t cid = None"
  by (auto simp: handle_gone_def live_ix_def Let_def vec_get_def)

lemma gone_mono:
  assumes "handle_gone t cid" "length (gens t) \<le> length (gens t')" "\<And>i. i < length (gens t) \<Longrightarrow> gens t ! i \<le> gens t' ! i"
  shows "handle_gone t' cid"
  using assms by (auto simp: handle_gone_def intro: less_le_trans)

lemma destroy_gens: "live_ix t cid = Some i \<Longrightarrow> destroy t cid = Some t' \<Longrightarrow> gens t' = (gens t)[i := cid_gen cid + 1]"
  by (auto simp: destroy_def live_ix_iff vec_get_def vec_set_def Let_def split: if_splits option.splits Option.bind_splits)

lemma next_gen_above: "g \<noteq> - 1 \<Longrightarrow> g < g + (1 :: 32 word)"
proof -
  assume "g \<noteq> - 1"
  then have "1 + g \<noteq> 0" by (metis add.commute add_eq_0_iff)
  then show ?thesis using unatSuc [of g] by (simp add: word_less_nat_alt add.commute)
qed

lemma gone_destroy:
  assumes "handle_live t cid" "cid_gen cid \<noteq> - 1" "destroy t cid = Some t'"
  shows "handle_gone t' cid" and "handle_gone t h \<Longrightarrow> handle_gone t' h"
proof -
  obtain i where i: "live_ix t cid = Some i" using assms(1) by (auto simp: handle_live_def)
  have g: "gens t' = (gens t)[i := cid_gen cid + 1]" by (rule destroy_gens [OF i assms(3)])
  have lt: "cid_gen cid < cid_gen cid + 1" by (rule next_gen_above [OF assms(2)])
  show "handle_gone t' cid" using i lt by (simp add: handle_gone_def g live_ix_iff)
  show "handle_gone t' h" if "handle_gone t h"
    by (rule gone_mono [OF that]) (use i lt in \<open>auto simp: g live_ix_iff nth_list_update\<close>)
qed

lemma gone_connect:
  assumes "table_ok t" "length (conns t) + 1 < 2 ^ 32" "connect t conn = Some (t', cid)" "handle_gone t h"
  shows "handle_gone t' h"
proof -
  have "\<forall>i<length (gens t). gens t' ! i = gens t ! i" "length (conns t) \<le> length (conns t')" "table_ok t'"
    using connect_ok [OF assms(1,2), of conn] assms(3) by auto
  then show ?thesis using assms(1) by (intro gone_mono [OF assms(4)]) (auto simp: table_ok_def)
qed

lemma gone_output:
  assumes "set_output t cid edge = Some t'" "handle_gone t h"
  shows "handle_gone t' h"
proof -
  have "gens t' = gens t" using assms(1) by (auto simp: set_output_def split: Option.bind_splits)
  then show ?thesis using assms(2) by (simp add: handle_gone_def)
qed

lemma conn_hist_handles: "conn_hist t hs ds \<Longrightarrow> handles_ok t hs \<and> (\<forall>h\<in>set ds. handle_gone t h)"
proof (induction rule: conn_hist.induct)
  case hist_new
  show ?case using conn_reach_handles [OF reach_new] by simp
next
  case (hist_connect t hs ds conn t' cid)
  then have "handles_ok t hs" "table_ok t" by (simp_all add: handles_ok_def)
  then show ?case using handles_ok_connect [OF _ hist_connect(2,3)] gone_connect [OF _ hist_connect(2,3)] hist_connect.IH by blast
next
  case (hist_destroy t hs ds cid t')
  then have "handle_live t cid" by (auto simp: handles_ok_def)
  from gone_destroy [OF this hist_destroy(3,4)] hist_destroy show ?case using handles_ok_destroy by auto
next
  case (hist_again t hs ds cid t')
  then have "destroy t cid = Some t" by (intro destroy_stale gone_stale) simp
  then show ?case using hist_again by simp
next
  case (hist_output t hs ds cid edge t')
  then show ?case using handles_ok_set_output gone_output by blast
qed

lemma handles_ok_slots:
  assumes "handles_ok t hs"
  shows "set (live_slots t) = (\<lambda>cid. unat (cid_idx cid)) ` set hs"
proof -
  have ok: "table_ok t" and hs: "set hs = {cid. handle_live t cid}" using assms by (simp_all add: handles_ok_def)
  have "i \<in> (\<lambda>cid. unat (cid_idx cid)) ` set hs" if i: "i \<in> set (live_slots t)" for i
  proof
    have "i < 2 ^ 32" using i ok by (simp add: live_slots_iff table_ok_def)
    then show u: "i = unat (cid_idx \<lparr> cid_idx = of_nat i, cid_gen = gens t ! i \<rparr>)" by (simp add: unat_of_nat_slot)
    show "\<lparr> cid_idx = of_nat i, cid_gen = gens t ! i \<rparr> \<in> set hs"
      unfolding hs mem_Collect_eq handle_live_iff [OF ok] using i u by simp
  qed
  then show ?thesis using hs handle_live_iff [OF ok] by auto
qed

lemma candidates_exact:
  assumes "table_ok t" "\<forall>i\<in>set (live_slots t). \<forall>g. conn_guard (conns t ! i) = Some g \<longrightarrow>
      (\<forall>r\<in>set (change_rows change). guard_col g < length r)"
  shows "\<exists>xs. table_candidates t change = Some xs \<and> sorted xs \<and> distinct xs \<and>
    set xs = {of_nat i |i. i \<in> set (live_slots t) \<and> guard_admits (conn_guard (conns t ! i)) change}"
proof -
  have "\<forall>(s, g, ks)\<in>set (table_regs t). \<forall>g'. g = Some g' \<longrightarrow> (\<forall>r\<in>set (change_rows change). guard_col g' < length r)"
    using assms(2) by (auto simp: table_regs_def reg_of_def)
  from push_candidates_ok [OF table_ok_rel [OF assms(1)] this]
  obtain xs where "push_candidates (push_idx t) change = Some xs" "sorted xs" "distinct xs"
    "set xs = {s. \<exists>g ks. (s, g, ks) \<in> set (table_regs t) \<and> guard_admits g change}" by auto
  moreover have "{s. \<exists>g ks. (s, g, ks) \<in> set (table_regs t) \<and> guard_admits g change} =
      {of_nat i |i. i \<in> set (live_slots t) \<and> guard_admits (conn_guard (conns t ! i)) change}"
    by (auto simp: table_regs_def reg_of_def)
  ultimately show ?thesis by (simp add: table_candidates_def)
qed

section \<open>Properties of the registry\<close>

definition sample_conn :: "cell_value list \<Rightarrow> connection" where
  "sample_conn vs = \<lparr> conn_sort = [(0, True)], unordered = False, split_edit_keys = [1],
     filters = Some \<lparr> predicate = (\<lambda>r. True), pk_constraint = None, fully_applied = True, sql_cond = None,
       filter_guard = Some \<lparr> guard_col = 0, guard_values = vs \<rparr> \<rparr>,
     last_pushed_epoch = 0, conn_output = None \<rparr>"

definition sample_table :: conn_table where
  "sample_table = fst (the (connect conn_table_new (sample_conn [IntV 7])))"

definition sample_handle :: conn_id where
  "sample_handle = \<lparr> cid_idx = 0, cid_gen = 0 \<rparr>"

lemma sample_connect: "connect conn_table_new (sample_conn [IntV 7]) = Some (sample_table, sample_handle)"
  by (simp add: sample_table_def sample_handle_def connect_def conn_table_new_def Let_def)

lemma sample_reach: "conn_reach sample_table [sample_handle]"
  by (rule reach_connect [OF reach_new _ sample_connect]) (simp add: conn_table_new_def)

definition reused_handle :: conn_id where
  "reused_handle = \<lparr> cid_idx = 0, cid_gen = 1 \<rparr>"

definition torn_table :: conn_table where
  "torn_table = the (destroy sample_table sample_handle)"

definition reused_table :: conn_table where
  "reused_table = fst (the (connect torn_table (sample_conn [IntV 3])))"

lemma torn_destroy: "destroy sample_table sample_handle = Some torn_table"
  by (simp add: torn_table_def destroy_def sample_table_def sample_handle_def connect_def conn_table_new_def Let_def)

lemma reused_connect: "connect torn_table (sample_conn [IntV 3]) = Some (reused_table, reused_handle)"
  by (simp add: reused_table_def reused_handle_def torn_table_def destroy_def sample_table_def sample_handle_def
      connect_def conn_table_new_def Let_def)

lemma reused_hist: "conn_hist reused_table [reused_handle] [sample_handle]"
proof -
  have "conn_hist sample_table [sample_handle] []"
    by (rule hist_connect [OF hist_new _ sample_connect]) (simp add: conn_table_new_def)
  then have "conn_hist torn_table (remove1 sample_handle [sample_handle]) [sample_handle]"
    by (rule hist_destroy [OF _ _ _ torn_destroy]) (simp_all add: sample_handle_def)
  then have "conn_hist torn_table [] [sample_handle]" by simp
  then show ?thesis
    by (rule hist_connect [OF _ _ reused_connect]) (simp add: torn_table_def destroy_def sample_table_def
      sample_handle_def connect_def conn_table_new_def Let_def)
qed

text \<open>(C32) Whatever sequence of connects, tear-downs (repeated ones with a torn-down handle included) and output wirings the registry
  has seen, its invariant holds: the free list names exactly the unused slots, a freed slot has no output, and the push index holds
  exactly the live connections' guards and split-edit keys. Of the handles it has issued, the lookup every entry point starts with accepts
  exactly those not yet torn down, each at a live slot of its own, and a tear-down with a torn-down one changes nothing. The history
  tears no slot down \<open>2 ^ 32\<close> times, where the generation would wrap; a handle that was never issued is not spoken of.\<close>

theorem conn_table_invariant:
  assumes "conn_hist t hs ds"
  shows "table_ok t \<and> distinct hs \<and> set hs \<inter> set ds = {} \<and>
    (\<forall>cid \<in> set hs. live_ix t cid = Some (unat (cid_idx cid))) \<and>
    (\<forall>cid \<in> set ds. live_ix t cid = None \<and> destroy t cid = Some t) \<and>
    set (live_slots t) = (\<lambda>cid. unat (cid_idx cid)) ` set hs \<and> length (live_slots t) = length hs"
proof -
  have H: "handles_ok t hs" and D: "\<forall>h\<in>set ds. handle_gone t h" using conn_hist_handles [OF assms] by simp_all
  then have ok: "table_ok t" "distinct hs" and live: "\<And>cid. cid \<in> set hs \<Longrightarrow> live_ix t cid = Some (unat (cid_idx cid))"
    by (auto simp: handles_ok_def handle_live_def live_ix_iff)
  have dead: "\<forall>cid \<in> set ds. live_ix t cid = None \<and> destroy t cid = Some t"
    using D gone_stale destroy_stale by blast
  have slots: "set (live_slots t) = (\<lambda>cid. unat (cid_idx cid)) ` set hs" by (rule handles_ok_slots [OF H])
  have "inj_on (\<lambda>cid. unat (cid_idx cid)) (set hs)"
    by (intro inj_onI) (metis live live_ix_iff conn_id_eq)
  then have "card (set (live_slots t)) = card (set hs)" unfolding slots by (rule card_image)
  then have "length (live_slots t) = length hs" using ok(2) by (simp add: distinct_card)
  moreover have "set hs \<inter> set ds = {}" using live dead by force
  ultimately show ?thesis using ok live dead slots by blast
qed

theorem conn_table_invariant_witness:
  "table_ok reused_table \<and> live_ix reused_table sample_handle = None \<and> destroy reused_table sample_handle = Some reused_table \<and>
    live_ix reused_table reused_handle = Some 0 \<and> length (live_slots reused_table) = 1"
  using conn_table_invariant [OF reused_hist] by (simp add: reused_handle_def)

text \<open>(C33) Tear-down of a handle in use succeeds, makes that handle stale, and the slot's next tenant gets a
  different handle: a torn-down handle neither resolves to nor tears down the connection that reuses
  its slot.\<close>

theorem destroyed_handle_stays_stale:
  assumes "conn_reach t hs" "cid \<in> set hs" "length (conns t) + 1 < 2 ^ 32"
  shows "\<exists>t' t'' cid'. destroy t cid = Some t' \<and> connect t' conn = Some (t'', cid') \<and>
    cid_idx cid' = cid_idx cid \<and> cid' \<noteq> cid \<and> live_ix t'' cid = None \<and> destroy t'' cid = Some t'' \<and>
    live_ix t'' cid' = Some (unat (cid_idx cid'))"
proof -
  have ok: "table_ok t" and "handle_live t cid"
    using conn_reach_handles [OF assms(1)] assms(2) by (auto simp: handles_ok_def)
  then obtain i where i: "live_ix t cid = Some i" "i \<in> set (live_slots t)" by (auto simp: handle_live_def)
  from destroy_live_ok [OF ok i] obtain t' where D: "destroy t cid = Some t'" "table_ok t'" "live_ix t' cid = None"
    "length (conns t') = length (conns t)" "free t' = cid_idx cid # free t" by auto
  from connect_ok [OF D(2), of conn] obtain t'' cid' where
    C: "connect t' conn = Some (t'', cid')" "live_ix t'' cid' = Some (unat (cid_idx cid'))"
      "\<forall>i<length (gens t'). gens t'' ! i = gens t' ! i" "length (conns t'') = length (conns t')" "table_ok t''"
    using D(4,5) assms(3) by auto
  have idx: "cid_idx cid' = cid_idx cid" using C(1) D(5) by (auto simp: connect_def Let_def split: Option.bind_splits)
  have "length (gens t'') = length (gens t')" using C(4,5) D(2) by (simp add: table_ok_def)
  then have "live_ix t'' cid = None" using C(3) D(3) by (auto simp: live_ix_def Let_def vec_get_def)
  moreover from this have "cid' \<noteq> cid" using C(2) by auto
  ultimately show ?thesis using C(1,2) D(1) idx destroy_stale [of t'' cid]
    by (intro exI [of _ t'] exI [of _ t''] exI [of _ cid']) simp
qed

theorem destroyed_handle_stays_stale_witness:
  "\<exists>t' t'' cid'. destroy sample_table sample_handle = Some t' \<and> connect t' (sample_conn [IntV 3]) = Some (t'', cid') \<and>
    cid_idx cid' = cid_idx sample_handle \<and> cid' \<noteq> sample_handle \<and> live_ix t'' sample_handle = None \<and>
    destroy t'' sample_handle = Some t'' \<and> live_ix t'' cid' = Some (unat (cid_idx cid'))"
  by (rule destroyed_handle_stays_stale [OF sample_reach])
    (simp_all add: sample_table_def connect_def conn_table_new_def Let_def)

text \<open>In every reachable registry the candidate slots of a change are, in ascending order and without
  repetition, exactly the live connections without a guard together with those whose guard column
  holds one of the guard's values in a changed row: a freed slot is never visited.\<close>

theorem table_candidates_exact:
  assumes "conn_reach t hs"
    and "\<forall>i\<in>set (live_slots t). \<forall>g. conn_guard (conns t ! i) = Some g \<longrightarrow>
      (\<forall>r\<in>set (change_rows change). guard_col g < length r)"
  shows "\<exists>xs. table_candidates t change = Some xs \<and> sorted xs \<and> distinct xs \<and>
    set xs = {of_nat i |i. i \<in> set (live_slots t) \<and> guard_admits (conn_guard (conns t ! i)) change}"
  using candidates_exact conn_reach_handles [OF assms(1)] assms(2) by (simp add: handles_ok_def)

theorem table_candidates_exact_witness:
  "\<exists>xs. table_candidates sample_table (AddRow [IntV 7, Null]) = Some xs \<and> sorted xs \<and> distinct xs \<and>
    set xs = {of_nat i |i. i \<in> set (live_slots sample_table) \<and>
      guard_admits (conn_guard (conns sample_table ! i)) (AddRow [IntV 7, Null])}"
  by (rule table_candidates_exact [OF sample_reach])
    (simp add: sample_table_def connect_def conn_table_new_def Let_def live_slots_def sample_conn_def conn_guard_def)

end
