(* ===== verification/Overlay.thy ===== *)
theory Overlay
  imports Changes
begin

text \<open>
  The overlay that makes an in-flight change visible to fetches before it is written, and the row
  generators of a fetch (\<open>rust/src/source_common.rs\<close>).

  A row flow is modelled by the list of rows it yields when it is drained; the iterator of the
  ordered splice is modelled pull by pull (\<open>splice_next\<close>) and then drained. Generators that
  compare rows can panic and return an option.
\<close>

section \<open>Overlays and their narrowing\<close>

record overlay =
  ov_epoch :: "32 word"
  ov_change :: source_change

record overlays =
  ov_add :: "row option"
  ov_remove :: "row option"

definition overlays_is_empty :: "overlays \<Rightarrow> bool" where
  "overlays_is_empty o' \<longleftrightarrow> ov_add o' = None \<and> ov_remove o' = None"

definition compare_rows_rev :: "sort \<Rightarrow> bool \<Rightarrow> row \<Rightarrow> row \<Rightarrow> ordering option" where
  "compare_rows_rev srt rev' a b = do {
     c \<leftarrow> compare_rows srt a b;
     Some (if rev' then reverse_ord c else c)
   }"

fun overlays_from_change :: "overlay option \<Rightarrow> overlays" where
  "overlays_from_change None = \<lparr> ov_add = None, ov_remove = None \<rparr>"
| "overlays_from_change (Some o') = (case ov_change o' of
       AddRow r \<Rightarrow> \<lparr> ov_add = Some r, ov_remove = None \<rparr>
     | RemoveRow r \<Rightarrow> \<lparr> ov_add = None, ov_remove = Some r \<rparr>
     | EditRow r old \<Rightarrow> \<lparr> ov_add = Some r, ov_remove = Some old \<rparr>)"

text \<open>\<open>Option::filter\<close> with a test that can panic.\<close>

fun opt_filter :: "('a \<Rightarrow> bool option) \<Rightarrow> 'a option \<Rightarrow> 'a option option" where
  "opt_filter p None = Some None"
| "opt_filter p (Some x) = do { b \<leftarrow> p x; Some (if b then Some x else None) }"

definition overlays_filter :: "(row \<Rightarrow> bool option) \<Rightarrow> overlays \<Rightarrow> overlays option" where
  "overlays_filter p o' = do {
     a \<leftarrow> opt_filter p (ov_add o');
     r \<leftarrow> opt_filter p (ov_remove o');
     Some \<lparr> ov_add = a, ov_remove = r \<rparr>
   }"

definition overlays_for_start_at :: "overlays \<Rightarrow> row \<Rightarrow> sort \<Rightarrow> bool \<Rightarrow> overlays option" where
  "overlays_for_start_at o' start_at srt rev' =
     overlays_filter (\<lambda>r. do { c \<leftarrow> compare_rows_rev srt rev' r start_at; Some (c \<noteq> Less) }) o'"

definition overlays_for_constraint :: "overlays \<Rightarrow> row_constraint \<Rightarrow> overlays option" where
  "overlays_for_constraint o' c = overlays_filter (\<lambda>r. constraint_matches r c) o'"

fun any_matches :: "row \<Rightarrow> multi_constraint \<Rightarrow> bool option" where
  "any_matches r [] = Some False"
| "any_matches r (c # mc) = do { b \<leftarrow> constraint_matches r c; if b then Some True else any_matches r mc }"

definition overlays_for_multi_constraint :: "overlays \<Rightarrow> multi_constraint \<Rightarrow> overlays option" where
  "overlays_for_multi_constraint o' mc = overlays_filter (\<lambda>r. any_matches r mc) o'"

definition overlays_for_filter_predicate :: "overlays \<Rightarrow> (row \<Rightarrow> bool) \<Rightarrow> overlays option" where
  "overlays_for_filter_predicate o' p = overlays_filter (\<lambda>r. Some (p r)) o'"

fun narrow_multi :: "overlays \<Rightarrow> multi_constraint list \<Rightarrow> overlays option" where
  "narrow_multi o' [] = Some o'"
| "narrow_multi o' (mc # mcs) = do {
     o1 \<leftarrow> (if mc \<noteq> [] then overlays_for_multi_constraint o' mc else Some o');
     narrow_multi o1 mcs
   }"

definition compute_overlays ::
  "row option \<Rightarrow> row_constraint option \<Rightarrow> overlay option \<Rightarrow> sort \<Rightarrow> bool \<Rightarrow> (row \<Rightarrow> bool) option \<Rightarrow>
   multi_constraint list \<Rightarrow> overlays option" where
  "compute_overlays start_at constr ovl srt rev' pred mcs = do {
     let o0 = overlays_from_change ovl;
     o1 \<leftarrow> (case start_at of None \<Rightarrow> Some o0 | Some s \<Rightarrow> overlays_for_start_at o0 s srt rev');
     o2 \<leftarrow> (case constr of None \<Rightarrow> Some o1 | Some c \<Rightarrow> overlays_for_constraint o1 c);
     o3 \<leftarrow> narrow_multi o2 mcs;
     (case pred of None \<Rightarrow> Some o3 | Some p \<Rightarrow> overlays_for_filter_predicate o3 p)
   }"

section \<open>The ordered splice\<close>

record splice =
  sp_inner :: "row list"
  sp_add :: "row option"
  sp_remove :: "row option"
  sp_sort :: sort
  sp_reverse :: bool
  add_yielded :: bool
  remove_skipped :: bool
  buffered :: "row option"

text \<open>\<open>buffered.take().or_else(|| inner.next())\<close>.\<close>

definition splice_pull :: "splice \<Rightarrow> (row \<times> splice) option" where
  "splice_pull s = (case buffered s of
       Some r \<Rightarrow> Some (r, s \<lparr> buffered := None \<rparr>)
     | None \<Rightarrow> (case sp_inner s of [] \<Rightarrow> None | r # rs \<Rightarrow> Some (r, s \<lparr> sp_inner := rs \<rparr>)))"

definition splice_pending :: "splice \<Rightarrow> nat" where
  "splice_pending s = length (sp_inner s) + (if buffered s = None then 0 else 1)"

lemma splice_pull_pending: "splice_pull s = Some (r, s') \<Longrightarrow> splice_pending s = Suc (splice_pending s')"
  by (auto simp: splice_pull_def splice_pending_def split: option.splits list.splits)

text \<open>The test of the loop that emits the add ahead of \<open>row\<close>, and the one that suppresses the remove.\<close>

definition add_goes_first :: "splice \<Rightarrow> row \<Rightarrow> bool option" where
  "add_goes_first s r = (case (add_yielded s, sp_add s) of
       (False, Some a) \<Rightarrow> do { c \<leftarrow> compare_rows_rev (sp_sort s) (sp_reverse s) a r; Some (c = Less) }
     | _ \<Rightarrow> Some False)"

definition remove_hits :: "splice \<Rightarrow> row \<Rightarrow> bool option" where
  "remove_hits s r = (case (remove_skipped s, sp_remove s) of
       (False, Some d) \<Rightarrow> do { c \<leftarrow> compare_rows_rev (sp_sort s) (sp_reverse s) d r; Some (c = Equal) }
     | _ \<Rightarrow> Some False)"

function splice_next :: "splice \<Rightarrow> (row option \<times> splice) option" where
  "splice_next s = (case splice_pull s of
       None \<Rightarrow>
         (case (add_yielded s, sp_add s) of
            (False, Some a) \<Rightarrow> Some (Some a, s \<lparr> sp_add := None, add_yielded := True \<rparr>)
          | _ \<Rightarrow> Some (None, s))
     | Some (r, s1) \<Rightarrow> do {
         first \<leftarrow> add_goes_first s1 r;
         if first then Some (sp_add s1, s1 \<lparr> add_yielded := True, buffered := Some r \<rparr>)
         else do {
           hit \<leftarrow> remove_hits s1 r;
           if hit then splice_next (s1 \<lparr> remove_skipped := True \<rparr>)
           else Some (Some r, s1)
         }
       })"
  by pat_completeness auto
termination
  by (relation "measure splice_pending") (auto dest!: splice_pull_pending simp: splice_pending_def)

declare splice_next.simps [simp del]

text \<open>Draining the iterator: pull until it yields nothing.\<close>

definition splice_left :: "splice \<Rightarrow> nat" where
  "splice_left s = splice_pending s + (if add_yielded s \<or> sp_add s = None then 0 else 1)"

lemma splice_next_left:
  "splice_next s = Some (Some r, s') \<Longrightarrow> splice_left s' < splice_left s"
proof (induction s arbitrary: r s' rule: splice_next.induct)
  case (1 s)
  show ?case
  proof (cases "splice_pull s")
    case None
    then show ?thesis using 1(2) by (subst (asm) splice_next.simps)
      (auto simp: splice_left_def splice_pending_def split: bool.splits option.splits)
  next
    case (Some p)
    obtain q s1 where p: "p = (q, s1)" by fastforce
    have pend: "splice_pending s = Suc (splice_pending s1)" using Some p splice_pull_pending by auto
    have flags: "add_yielded s1 = add_yielded s" "sp_add s1 = sp_add s" "buffered s1 = None"
      using Some p by (auto simp: splice_pull_def split: option.splits list.splits)
    obtain first where first: "add_goes_first s1 q = Some first"
      using 1(2) Some p by (subst (asm) splice_next.simps) (auto split: Option.bind_splits)
    show ?thesis
    proof (cases first)
      case True
      then have "\<not> add_yielded s1" "sp_add s1 \<noteq> None"
        using first by (auto simp: add_goes_first_def split: bool.splits option.splits)
      moreover have "s' = s1 \<lparr> add_yielded := True, buffered := Some q \<rparr>"
        using 1(2) Some p first True by (subst (asm) splice_next.simps) simp
      ultimately show ?thesis using pend flags by (simp add: splice_left_def splice_pending_def)
    next
      case False
      obtain hit where hit: "remove_hits s1 q = Some hit"
        using 1(2) Some p first False by (subst (asm) splice_next.simps) (auto split: Option.bind_splits)
      show ?thesis
      proof (cases hit)
        case True
        then have "splice_next (s1 \<lparr> remove_skipped := True \<rparr>) = Some (Some r, s')"
          using 1(2) Some p first False hit by (subst (asm) splice_next.simps) simp
        then have "splice_left s' < splice_left (s1 \<lparr> remove_skipped := True \<rparr>)"
          using 1(1) Some p first False hit True by simp
        then show ?thesis using pend flags by (simp add: splice_left_def splice_pending_def)
      next
        case nohit: False
        then have "s' = s1" using 1(2) Some p first False hit by (subst (asm) splice_next.simps) simp
        then show ?thesis using pend flags by (simp add: splice_left_def splice_pending_def)
      qed
    qed
  qed
qed

function splice_drain :: "splice \<Rightarrow> row list option" where
  "splice_drain s = (case splice_next s of
       None \<Rightarrow> None
     | Some (None, s') \<Rightarrow> Some []
     | Some (Some r, s') \<Rightarrow> map_option (Cons r) (splice_drain s'))"
  by pat_completeness auto
termination
  by (relation "measure splice_left") (auto dest: splice_next_left)

declare splice_drain.simps [simp del]

definition generate_with_overlay_inner :: "row list \<Rightarrow> overlays \<Rightarrow> sort \<Rightarrow> bool \<Rightarrow> row list option" where
  "generate_with_overlay_inner inner o' srt rev' =
     (if overlays_is_empty o' then Some inner
      else splice_drain \<lparr> sp_inner = inner, sp_add = ov_add o', sp_remove = ov_remove o', sp_sort = srt,
             sp_reverse = rev', add_yielded = False, remove_skipped = False, buffered = None \<rparr>)"

definition gate_overlay :: "overlay option \<Rightarrow> 32 word \<Rightarrow> overlay option" where
  "gate_overlay ovl last_epoch = (case ovl of
       None \<Rightarrow> None
     | Some o' \<Rightarrow> if last_epoch \<ge> ov_epoch o' then Some o' else None)"

definition generate_with_overlay ::
  "row option \<Rightarrow> row list \<Rightarrow> row_constraint option \<Rightarrow> overlay option \<Rightarrow> 32 word \<Rightarrow> sort \<Rightarrow> bool \<Rightarrow>
   (row \<Rightarrow> bool) option \<Rightarrow> multi_constraint list \<Rightarrow> row list option" where
  "generate_with_overlay start_at rows constr ovl last_epoch srt rev' pred mcs = do {
     o' \<leftarrow> compute_overlays start_at constr (gate_overlay ovl last_epoch) srt rev' pred mcs;
     generate_with_overlay_inner rows o' srt rev'
   }"

section \<open>The unordered splice\<close>

text \<open>The iterator of the unordered splice yields the add first and then the rows, without the first one
  that has the remove's primary key.\<close>

fun suppress_pk :: "col_id list \<Rightarrow> row option \<Rightarrow> row list \<Rightarrow> row list option" where
  "suppress_pk pk rem [] = Some []"
| "suppress_pk pk None (r # rs) = map_option (Cons r) (suppress_pk pk None rs)"
| "suppress_pk pk (Some d) (r # rs) = do {
     same \<leftarrow> same_pk r d pk;
     if same then suppress_pk pk None rs
     else map_option (Cons r) (suppress_pk pk (Some d) rs)
   }"

definition generate_with_overlay_inner_unordered :: "row list \<Rightarrow> overlays \<Rightarrow> col_id list \<Rightarrow> row list option" where
  "generate_with_overlay_inner_unordered inner o' pk =
     (if overlays_is_empty o' then Some inner
      else do {
        rest \<leftarrow> suppress_pk pk (ov_remove o') inner;
        Some ((case ov_add o' of None \<Rightarrow> [] | Some a \<Rightarrow> [a]) @ rest)
      })"

definition generate_with_overlay_unordered ::
  "row list \<Rightarrow> row_constraint option \<Rightarrow> overlay option \<Rightarrow> 32 word \<Rightarrow> col_id list \<Rightarrow> (row \<Rightarrow> bool) option \<Rightarrow>
   multi_constraint list \<Rightarrow> row list option" where
  "generate_with_overlay_unordered rows constr ovl last_epoch pk pred mcs = do {
     let o0 = overlays_from_change (gate_overlay ovl last_epoch);
     o1 \<leftarrow> (case constr of None \<Rightarrow> Some o0 | Some c \<Rightarrow> overlays_for_constraint o0 c);
     o2 \<leftarrow> narrow_multi o1 mcs;
     o3 \<leftarrow> (case pred of None \<Rightarrow> Some o2 | Some p \<Rightarrow> overlays_for_filter_predicate o2 p);
     generate_with_overlay_inner_unordered rows o3 pk
   }"

section \<open>The generators after the scan\<close>

fun start_latch :: "(row \<Rightarrow> bool option) \<Rightarrow> bool \<Rightarrow> row list \<Rightarrow> row list option" where
  "start_latch reached started [] = Some []"
| "start_latch reached started (r # rs) = do {
     started' \<leftarrow> (if started then Some True else reached r);
     rest \<leftarrow> start_latch reached started' rs;
     Some (if started' then r # rest else rest)
   }"

definition start_reached :: "start_bound \<Rightarrow> sort \<Rightarrow> bool \<Rightarrow> row \<Rightarrow> bool option" where
  "start_reached st srt rev' r = do {
     c \<leftarrow> compare_rows_rev srt rev' r (start_row st);
     Some (case start_basis st of At \<Rightarrow> c \<noteq> Less | After \<Rightarrow> c = Greater)
   }"

definition generate_with_start :: "row list \<Rightarrow> start_bound option \<Rightarrow> sort \<Rightarrow> bool \<Rightarrow> row list option" where
  "generate_with_start rows start srt rev' = (case start of
       None \<Rightarrow> Some rows
     | Some st \<Rightarrow> start_latch (start_reached st srt rev') False rows)"

fun take_while_opt :: "('a \<Rightarrow> bool option) \<Rightarrow> 'a list \<Rightarrow> 'a list option" where
  "take_while_opt p [] = Some []"
| "take_while_opt p (x # xs) = do { b \<leftarrow> p x; if b then map_option (Cons x) (take_while_opt p xs) else Some [] }"

definition generate_with_constraint :: "row list \<Rightarrow> row_constraint option \<Rightarrow> row list option" where
  "generate_with_constraint rows constr = (case constr of
       None \<Rightarrow> Some rows
     | Some c \<Rightarrow> take_while_opt (\<lambda>r. constraint_matches r c) rows)"

definition generate_with_filter :: "row list \<Rightarrow> (row \<Rightarrow> bool) \<Rightarrow> row list" where
  "generate_with_filter rows p = filter p rows"

section \<open>What the splice yields\<close>

text \<open>The rows still to come from a splice, as a function of the add and remove still pending.\<close>

function emits :: "('a \<Rightarrow> 'a \<Rightarrow> ordering option) \<Rightarrow> 'a option \<Rightarrow> 'a option \<Rightarrow> 'a list \<Rightarrow> 'a list" where
  "emits cmp A R [] = (case A of None \<Rightarrow> [] | Some a \<Rightarrow> [a])"
| "emits cmp A R (x # xs) =
     (if (\<exists>a. A = Some a \<and> cmp a x = Some Less) then the A # emits cmp None R (x # xs)
      else if (\<exists>d. R = Some d \<and> cmp d x = Some Equal) then emits cmp A None xs
      else x # emits cmp A R xs)"
  by pat_completeness auto
termination
  by (relation "measure (\<lambda>(cmp, A, R, xs). length xs + (if A = None then 0 else 1))") auto

definition active :: "bool \<Rightarrow> row option \<Rightarrow> row option" where
  "active done_flag x = (if done_flag then None else x)"

definition splice_stream :: "splice \<Rightarrow> row list" where
  "splice_stream s = (case buffered s of None \<Rightarrow> [] | Some r \<Rightarrow> [r]) @ sp_inner s"

definition splice_emits :: "splice \<Rightarrow> row list" where
  "splice_emits s = emits (compare_rows_rev (sp_sort s) (sp_reverse s)) (active (add_yielded s) (sp_add s))
     (active (remove_skipped s) (sp_remove s)) (splice_stream s)"

text \<open>No comparison of the splice panics.\<close>

definition splice_safe :: "splice \<Rightarrow> bool" where
  "splice_safe s \<longleftrightarrow> (\<forall>x\<in>set (splice_stream s).
     (\<forall>a. sp_add s = Some a \<longrightarrow> compare_rows_rev (sp_sort s) (sp_reverse s) a x \<noteq> None) \<and>
     (\<forall>d. sp_remove s = Some d \<longrightarrow> compare_rows_rev (sp_sort s) (sp_reverse s) d x \<noteq> None))"

lemma splice_pull_stream:
  "splice_pull s = None \<longleftrightarrow> splice_stream s = []"
  "splice_pull s = Some (r, s1) \<Longrightarrow> splice_stream s = r # splice_stream s1 \<and> buffered s1 = None \<and>
     sp_add s1 = sp_add s \<and> sp_remove s1 = sp_remove s \<and> sp_sort s1 = sp_sort s \<and> sp_reverse s1 = sp_reverse s \<and>
     add_yielded s1 = add_yielded s \<and> remove_skipped s1 = remove_skipped s"
  by (auto simp: splice_pull_def splice_stream_def split: option.splits list.splits)

lemma splice_next_emits:
  "splice_safe s \<Longrightarrow> \<exists>out s'. splice_next s = Some (out, s') \<and> splice_safe s' \<and>
     (case out of None \<Rightarrow> splice_emits s = [] | Some r \<Rightarrow> splice_emits s = r # splice_emits s')"
proof (induction s rule: splice_next.induct)
  case (1 s)
  show ?case
  proof (cases "splice_pull s")
    case None
    then have "splice_stream s = []" using splice_pull_stream(1) by blast
    then show ?thesis using None 1(2)
      by (subst splice_next.simps) (auto simp: splice_emits_def active_def splice_safe_def splice_stream_def split: bool.splits option.splits)
  next
    case (Some p)
    obtain r s1 where p: "p = (r, s1)" by fastforce
    note pull = splice_pull_stream(2) [OF Some [unfolded p]]
    let ?c = "compare_rows_rev (sp_sort s) (sp_reverse s)"
    have safe1: "splice_safe s1" using 1(2) pull by (simp add: splice_safe_def)
    have a: "add_goes_first s1 r = Some (\<exists>a. active (add_yielded s) (sp_add s) = Some a \<and> ?c a r = Some Less)"
      using 1(2) pull by (auto simp: add_goes_first_def splice_safe_def active_def split: bool.splits option.splits)
    have d: "remove_hits s1 r = Some (\<exists>d. active (remove_skipped s) (sp_remove s) = Some d \<and> ?c d r = Some Equal)"
      using 1(2) pull by (auto simp: remove_hits_def splice_safe_def active_def split: bool.splits option.splits)
    show ?thesis
    proof (cases "\<exists>a. active (add_yielded s) (sp_add s) = Some a \<and> ?c a r = Some Less")
      case True
      define s' where "s' = s1 \<lparr> add_yielded := True, buffered := Some r \<rparr>"
      have "splice_next s = Some (sp_add s1, s')"
        using Some p a True by (subst splice_next.simps) (simp add: s'_def)
      moreover have "splice_stream s' = splice_stream s" using pull by (simp add: s'_def splice_stream_def)
      moreover from this have "splice_safe s'" using 1(2) pull unfolding splice_safe_def by (simp add: s'_def)
      ultimately show ?thesis using True pull
        by (auto simp: splice_emits_def s'_def active_def split: option.splits if_splits)
    next
      case False
      show ?thesis
      proof (cases "\<exists>d. active (remove_skipped s) (sp_remove s) = Some d \<and> ?c d r = Some Equal")
        case True
        define s' where "s' = s1 \<lparr> remove_skipped := True \<rparr>"
        have run: "splice_next s = splice_next s'"
          using Some p a d False True by (subst splice_next.simps) (simp add: s'_def)
        have em: "splice_emits s = splice_emits s'"
        proof -
          have "splice_emits s = emits ?c (active (add_yielded s) (sp_add s)) (active (remove_skipped s) (sp_remove s)) (r # splice_stream s1)"
            using pull by (simp add: splice_emits_def del: emits.simps)
          also have "\<dots> = emits ?c (active (add_yielded s) (sp_add s)) None (splice_stream s1)"
            by (subst emits.simps(2)) (simp only: if_not_P [OF False] if_P [OF True])
          also have "\<dots> = splice_emits s'"
            using pull by (simp add: splice_emits_def s'_def splice_stream_def active_def del: emits.simps)
          finally show ?thesis .
        qed
        have "splice_safe s'" using safe1 unfolding splice_safe_def by (simp add: s'_def splice_stream_def)
        moreover have "add_goes_first s1 r = Some False" using a False by simp
        moreover have "remove_hits s1 r = Some True" using d True by simp
        ultimately have "\<exists>out s''. splice_next s' = Some (out, s'') \<and> splice_safe s'' \<and>
            (case out of None \<Rightarrow> splice_emits s' = [] | Some r \<Rightarrow> splice_emits s' = r # splice_emits s'')"
          using 1(1) [OF Some p [symmetric], of False True] unfolding s'_def by simp
        then show ?thesis unfolding run em .
      next
        case nohit: False
        have "splice_next s = Some (Some r, s1)"
          using Some p a d False nohit by (subst splice_next.simps) simp
        moreover have "splice_emits s = r # splice_emits s1"
        proof -
          have "splice_emits s = emits ?c (active (add_yielded s) (sp_add s)) (active (remove_skipped s) (sp_remove s)) (r # splice_stream s1)"
            using pull by (simp add: splice_emits_def del: emits.simps)
          also have "\<dots> = r # splice_emits s1"
            using pull by (subst emits.simps(2)) (simp only: if_not_P [OF False] if_not_P [OF nohit] splice_emits_def)
          finally show ?thesis .
        qed
        ultimately show ?thesis using safe1 by simp
      qed
    qed
  qed
qed

lemma splice_drain_emits: "splice_safe s \<Longrightarrow> splice_drain s = Some (splice_emits s)"
proof (induction s rule: splice_drain.induct)
  case (1 s)
  obtain out s' where o': "splice_next s = Some (out, s')" "splice_safe s'"
    "case out of None \<Rightarrow> splice_emits s = [] | Some r \<Rightarrow> splice_emits s = r # splice_emits s'"
    using splice_next_emits [OF 1(2)] by blast
  then show ?case using 1(1) by (subst splice_drain.simps) (cases out; simp)
qed

text \<open>The abstract effect of an overlay on a sorted list: delete the removed row, insert the added one.\<close>

definition overlay_rows :: "('a \<Rightarrow> 'a \<Rightarrow> ordering option) \<Rightarrow> 'a option \<Rightarrow> 'a option \<Rightarrow> 'a list \<Rightarrow> 'a list" where
  "overlay_rows cmp A R xs =
     (let ys = (case R of None \<Rightarrow> xs | Some d \<Rightarrow> del_by cmp d xs)
      in case A of None \<Rightarrow> ys | Some a \<Rightarrow> ins_by cmp a ys)"

context comparator_on
begin

lemma overlay_rows_del:
  assumes "sorted_by cmp xs" "set xs \<subseteq> D" "d \<in> D"
  shows "del_by cmp d xs = filter (\<lambda>x. cmp d x \<noteq> Some Equal) xs"
  using assms
proof (induction xs)
  case (Cons x xs)
  have x: "x \<in> D" "set xs \<subseteq> D" using Cons.prems by auto
  have IH: "del_by cmp d xs = filter (\<lambda>x. cmp d x \<noteq> Some Equal) xs" using Cons by simp
  show ?case
  proof (cases rule: cmp_cases [OF Cons.prems(3) x(1)])
    case 1
    then have "below cmp d xs = []" "above cmp d xs = xs"
      using sorted_split_above [of "[]" x xs d] Cons.prems by auto
    then show ?thesis using 1 IH by (simp add: del_by_def)
  next
    case 2
    then have "below cmp d xs = []" "above cmp d xs = xs"
      using sorted_split_above [of "[]" x xs d] Cons.prems by auto
    then show ?thesis using 2 IH by (simp add: del_by_def)
  next
    case 3
    then show ?thesis using IH by (simp add: del_by_def)
  qed
qed (simp add: del_by_def)

lemma overlay_rows_ins:
  assumes "set ys \<subseteq> D" "a \<in> D" "get_by cmp a ys = None"
  shows "ins_by cmp a ys = filter (\<lambda>y. cmp a y \<noteq> Some Less) ys @ a # filter (\<lambda>y. cmp a y = Some Less) ys"
proof -
  have "cmp y a \<noteq> Some Equal" if "y \<in> set ys" for y
    using that assms(3) by (auto simp: get_by_def find_None_iff)
  note ne = this
  have "(cmp y a = Some Less) = (cmp a y \<noteq> Some Less) \<and> (cmp y a = Some Greater) = (cmp a y = Some Less)"
    if y: "y \<in> set ys" for y
  proof -
    have "y \<in> D" using y assms(1) by blast
    from this assms(2) show ?thesis by (cases rule: cmp_cases) (use ne [OF y] in auto)
  qed
  then have "filter (\<lambda>y. cmp y a = Some Less) ys = filter (\<lambda>y. cmp a y \<noteq> Some Less) ys"
    "filter (\<lambda>y. cmp y a = Some Greater) ys = filter (\<lambda>y. cmp a y = Some Less) ys"
    by (auto intro!: filter_cong)
  then show ?thesis by (simp add: ins_by_def below_def above_def)
qed

lemma overlay_removed_later:
  assumes "sorted_by cmp (x # xs)" "set (x # xs) \<subseteq> D" "d \<in> D" "cmp d x = Some Equal"
  shows "filter (\<lambda>x. cmp d x \<noteq> Some Equal) xs = xs"
proof -
  have "cmp d y \<noteq> Some Equal" if "y \<in> set xs" for y
    using that assms cmp_eq_cong [of d x y] by auto
  then show ?thesis by (simp add: filter_id_conv)
qed

lemma emits_remove:
  assumes "sorted_by cmp xs" "set xs \<subseteq> D" "set_option R \<subseteq> D"
  shows "emits cmp None R xs = (case R of None \<Rightarrow> xs | Some d \<Rightarrow> del_by cmp d xs)"
proof -
  have none: "emits cmp None None ys = ys" for ys by (induction ys) simp_all
  show ?thesis
  proof (cases R)
    case (Some d)
    have "emits cmp None (Some d) xs = filter (\<lambda>x. cmp d x \<noteq> Some Equal) xs"
      using assms(1,2)
    proof (induction xs)
      case (Cons x xs)
      then show ?case using overlay_removed_later [of x xs d] assms(3) Some
        by (cases "cmp d x = Some Equal") (simp_all add: none)
    qed simp
    then show ?thesis using Some overlay_rows_del [OF assms(1,2)] assms(3) by simp
  qed (simp add: none)
qed

lemma emits_add:
  assumes "sorted_by cmp xs" "set xs \<subseteq> D" "a \<in> D"
  shows "emits cmp (Some a) R xs =
    filter (\<lambda>y. cmp a y \<noteq> Some Less) (emits cmp None R xs) @ a # filter (\<lambda>y. cmp a y = Some Less) (emits cmp None R xs)"
  using assms(1,2)
proof (induction xs arbitrary: R)
  case (Cons x xs)
  have sub: "set (emits cmp None R' ys) \<subseteq> set ys" for R' ys by (induction ys arbitrary: R') auto
  show ?case
  proof (cases "cmp a x = Some Less")
    case True
    have "cmp a y = Some Less" if "y \<in> set (x # xs)" for y
      using that True Cons.prems assms(3) cmp_less_trans [of a x y] by auto
    then have "\<forall>y\<in>set (emits cmp None R (x # xs)). cmp a y = Some Less" using sub [of R "x # xs"] by blast
    then show ?thesis using True by (simp add: filter_id_conv del: emits.simps(2)) (simp add: True)
  next
    case False
    then show ?thesis using Cons by auto
  qed
qed simp

text \<open>When the added row has no equal among the rows that stay, the splice is delete followed by insert.\<close>

lemma emits_overlay_rows:
  assumes "sorted_by cmp xs" "set xs \<subseteq> D" "set_option A \<subseteq> D" "set_option R \<subseteq> D"
    and "\<And>a. A = Some a \<Longrightarrow> get_by cmp a (overlay_rows cmp None R xs) = None"
  shows "emits cmp A R xs = overlay_rows cmp A R xs"
proof -
  have R: "emits cmp None R xs = overlay_rows cmp None R xs"
    using emits_remove [OF assms(1,2), of R] assms(4) by (auto simp: overlay_rows_def)
  have sub: "set (overlay_rows cmp None R xs) \<subseteq> D"
    using assms(2) set_del_by by (fastforce simp: overlay_rows_def split: option.splits)
  show ?thesis
  proof (cases A)
    case (Some a)
    then show ?thesis using emits_add [OF assms(1,2), of a R] R assms(3,5) overlay_rows_ins [OF sub, of a]
      by (simp add: overlay_rows_def)
  qed (simp add: R)
qed

end

section \<open>Conforming rows\<close>

lemma compare_rows_rev_eq:
  "compare_rows_rev srt False = compare_rows srt"
  "compare_rows_rev srt True = (\<lambda>a b. map_option reverse_ord (compare_rows srt a b))"
  by (intro ext; simp add: compare_rows_rev_def map_conv_bind_option comp_def)+

interpretation rev_order: comparator_on "{r. row_ok ty srt r}" "compare_rows_rev srt rev'" for ty srt rev'
  using compare_rows_comparator [of ty srt] comparator_reverse [OF compare_rows_comparator [of ty srt]]
  by (cases rev') (simp_all add: compare_rows_rev_eq)

definition overlays_conform :: "(col_id \<Rightarrow> kind) \<Rightarrow> sort \<Rightarrow> overlays \<Rightarrow> bool" where
  "overlays_conform ty srt o' \<longleftrightarrow> (\<forall>r\<in>set_option (ov_add o') \<union> set_option (ov_remove o'). row_ok ty srt r)"

lemma emits_nothing [simp]: "emits cmp None None xs = xs"
  by (induction xs) simp_all

lemma overlay_inner_emits:
  assumes "\<forall>r\<in>set rows. row_ok ty srt r" "overlays_conform ty srt o'"
  shows "generate_with_overlay_inner rows o' srt rev' =
    Some (emits (compare_rows_rev srt rev') (ov_add o') (ov_remove o') rows)"
proof (cases "overlays_is_empty o'")
  case True
  then show ?thesis by (simp add: generate_with_overlay_inner_def overlays_is_empty_def)
next
  case False
  define s where "s = \<lparr> sp_inner = rows, sp_add = ov_add o', sp_remove = ov_remove o', sp_sort = srt,
    sp_reverse = rev', add_yielded = False, remove_skipped = False, buffered = None \<rparr>"
  have "splice_safe s" unfolding splice_safe_def
    using assms rev_order.cmp_total [of _ ty srt _ rev']
    by (auto simp: s_def splice_stream_def overlays_conform_def simp del: not_None_eq)
  then have "splice_drain s = Some (splice_emits s)" by (rule splice_drain_emits)
  then show ?thesis using False
    by (simp add: generate_with_overlay_inner_def s_def splice_emits_def splice_stream_def active_def del: emits.simps)
qed

section \<open>Properties of the splice\<close>

text \<open>Splicing an overlay into the rows of an ordered scan, in either direction, yields exactly the rows the
  scan would yield had the change been written: the removed row is deleted, the added row is inserted at its
  sort position, and the order stays strict. The add must have no equal among the rows that stay, which is
  what the existence check of a push establishes.\<close>

theorem overlay_splice_correct:
  assumes "\<forall>r\<in>set rows. row_ok ty srt r" "overlays_conform ty srt o'" "sorted_by (compare_rows_rev srt rev') rows"
    and "\<forall>a. ov_add o' = Some a \<longrightarrow>
      get_by (compare_rows_rev srt rev') a (overlay_rows (compare_rows_rev srt rev') None (ov_remove o') rows) = None"
  shows "\<exists>out. generate_with_overlay_inner rows o' srt rev' = Some out \<and>
    out = overlay_rows (compare_rows_rev srt rev') (ov_add o') (ov_remove o') rows \<and>
    sorted_by (compare_rows_rev srt rev') out"
proof -
  let ?c = "compare_rows_rev srt rev'" and ?D = "{r. row_ok ty srt r}"
  have D: "set rows \<subseteq> ?D" "set_option (ov_add o') \<subseteq> ?D" "set_option (ov_remove o') \<subseteq> ?D"
    using assms(1,2) by (auto simp: overlays_conform_def)
  define ys where "ys = (case ov_remove o' of None \<Rightarrow> rows | Some d \<Rightarrow> del_by ?c d rows)"
  have ys: "sorted_by ?c ys" "set ys \<subseteq> ?D"
  proof -
    have "sorted_by ?c ys \<and> set ys \<subseteq> ?D"
    proof (cases "ov_remove o'")
      case None
      then show ?thesis using D(1) assms(3) by (simp add: ys_def)
    next
      case (Some d)
      have "d \<in> ?D" using D(3) Some by simp
      from rev_order.sorted_del_by [OF assms(3) D(1) this] show ?thesis
        using rev_order.set_del_by [of srt rev' d rows] D(1) Some by (simp add: ys_def subset_trans)
    qed
    then show "sorted_by ?c ys" "set ys \<subseteq> ?D" by simp_all
  qed
  have "sorted_by ?c (overlay_rows ?c (ov_add o') (ov_remove o') rows)"
    using ys D(2) rev_order.sorted_ins_by [OF ys] by (auto simp: overlay_rows_def ys_def [symmetric] split: option.split)
  then show ?thesis
    using overlay_inner_emits [OF assms(1,2), of rev'] rev_order.emits_overlay_rows [OF assms(3) D] assms(4) by simp
qed

theorem overlay_splice_correct_witness:
  "generate_with_overlay_inner [[IntV 7], [IntV 5], [IntV 1]] \<lparr> ov_add = Some [IntV 3], ov_remove = Some [IntV 7] \<rparr>
     [(0, True)] True = Some [[IntV 5], [IntV 3], [IntV 1]]"
  using overlay_splice_correct [of "[[IntV 7], [IntV 5], [IntV 1]]" "\<lambda>_. KNum" "[(0, True)]"
      "\<lparr> ov_add = Some [IntV 3], ov_remove = Some [IntV 7] \<rparr>" True]
  by (simp add: overlays_conform_def overlay_rows_def compare_rows_rev_def compare_cell_def row_col_def vec_get_def
      apply_dir_def cmp_of_def ins_by_def del_by_def get_by_def)

text \<open>The unordered splice yields the added row first and then the committed rows without the first row
  that has the removed row's primary key, all other rows unchanged and in their order.\<close>

theorem overlay_unordered_correct:
  assumes "\<forall>r\<in>set rows. same_pk r d pk \<noteq> None"
  shows "generate_with_overlay_inner_unordered rows \<lparr> ov_add = A, ov_remove = Some d \<rparr> pk =
    Some (case_option [] (\<lambda>a. [a]) A @ takeWhile (\<lambda>r. same_pk r d pk = Some False) rows @
      tl (dropWhile (\<lambda>r. same_pk r d pk = Some False) rows))"
proof -
  have keep: "suppress_pk pk None xs = Some xs" for xs by (induction xs) simp_all
  have "suppress_pk pk (Some d) rows = Some (takeWhile (\<lambda>r. same_pk r d pk = Some False) rows @
      tl (dropWhile (\<lambda>r. same_pk r d pk = Some False) rows))"
    using assms by (induction rows) (auto simp: keep)
  then show ?thesis by (simp add: generate_with_overlay_inner_unordered_def overlays_is_empty_def)
qed

theorem overlay_unordered_correct_witness:
  "generate_with_overlay_inner_unordered [[IntV 1], [IntV 2]] \<lparr> ov_add = Some [IntV 9], ov_remove = Some [IntV 2] \<rparr> [0] =
     Some [[IntV 9], [IntV 1]]"
  using overlay_unordered_correct [of "[[IntV 1], [IntV 2]]" "[IntV 2]" "[0]" "Some [IntV 9]"]
  by (auto simp: row_col_def vec_get_def)

end
