(* ===== verification/Merge.thy ===== *)
theory Merge
  imports Overlay "HOL-Library.Multiset"
begin

text \<open>
  The k-way merge of sorted row streams (\<open>MergeSorted\<close> in \<open>rust/src/source_common.rs\<close>): a binary
  min-heap in a vector, whose entries remember the stream to refill from.

  Indexing and \<open>swap\<close> panic out of range and every comparison can panic; on rows of the comparator's
  carrier neither happens. The heap invariant is weakened at one index while an entry moves.
\<close>

section \<open>The heap\<close>

record 'a heap_entry =
  he_row :: 'a
  he_idx :: nat

definition heap_less :: "('a \<Rightarrow> 'a \<Rightarrow> ordering option) \<Rightarrow> 'a heap_entry list \<Rightarrow> nat \<Rightarrow> nat \<Rightarrow> bool option" where
  "heap_less cmp h a b = do {
     x \<leftarrow> vec_get h a;
     y \<leftarrow> vec_get h b;
     c \<leftarrow> cmp (he_row x) (he_row y);
     Some (c = Less)
   }"

definition heap_swap :: "'a list \<Rightarrow> nat \<Rightarrow> nat \<Rightarrow> 'a list option" where
  "heap_swap h i j = do { x \<leftarrow> vec_get h i; y \<leftarrow> vec_get h j; Some (h[i := y, j := x]) }"

lemma heap_swap_length: "heap_swap h i j = Some h' \<Longrightarrow> length h' = length h"
  by (auto simp: heap_swap_def split: Option.bind_splits)

function sift_up :: "('a \<Rightarrow> 'a \<Rightarrow> ordering option) \<Rightarrow> 'a heap_entry list \<Rightarrow> nat \<Rightarrow> 'a heap_entry list option" where
  "sift_up cmp h i =
     (if i = 0 then Some h
      else let p = (i - 1) div 2 in do {
        b \<leftarrow> heap_less cmp h i p;
        if \<not> b then Some h
        else do { h' \<leftarrow> heap_swap h i p; sift_up cmp h' p }
      })"
  by pat_completeness auto
termination
  by (relation "measure (\<lambda>(cmp, h, i). i)") auto

definition smallest_child :: "('a \<Rightarrow> 'a \<Rightarrow> ordering option) \<Rightarrow> 'a heap_entry list \<Rightarrow> nat \<Rightarrow> nat option" where
  "smallest_child cmp h i = (let n = length h; l = 2 * i + 1; r = l + 1 in do {
     s1 \<leftarrow> (if l < n then do { b \<leftarrow> heap_less cmp h l i; Some (if b then l else i) } else Some i);
     (if r < n then do { b \<leftarrow> heap_less cmp h r s1; Some (if b then r else s1) } else Some s1)
   })"

lemma smallest_child_range:
  "smallest_child cmp h i = Some s \<Longrightarrow> s = i \<or> (i < s \<and> s < length h)"
  by (auto simp: smallest_child_def Let_def split: if_splits Option.bind_splits)

function sift_down :: "('a \<Rightarrow> 'a \<Rightarrow> ordering option) \<Rightarrow> 'a heap_entry list \<Rightarrow> nat \<Rightarrow> 'a heap_entry list option" where
  "sift_down cmp h i = do {
     s \<leftarrow> smallest_child cmp h i;
     if s = i then Some h
     else do { h' \<leftarrow> heap_swap h i s; sift_down cmp h' s }
   }"
  by pat_completeness auto
termination
proof (relation "measure (\<lambda>(cmp, h, i). length h - i)", goal_cases)
  case (2 cmp h i s h')
  then have "i < s" "s < length h" "length h' = length h"
    using smallest_child_range [of cmp h i s] heap_swap_length [of h i s h'] by auto
  then show ?case by simp
qed simp

declare sift_up.simps [simp del] sift_down.simps [simp del]

section \<open>The merge\<close>

record 'a merge_state =
  m_streams :: "'a list list"
  m_heap :: "'a heap_entry list"
  m_primed :: bool

fun prime_loop :: "('a \<Rightarrow> 'a \<Rightarrow> ordering option) \<Rightarrow> nat list \<Rightarrow> 'a merge_state \<Rightarrow> 'a merge_state option" where
  "prime_loop cmp [] s = Some s"
| "prime_loop cmp (i # is) s = do {
     st \<leftarrow> vec_get (m_streams s) i;
     (case st of
        [] \<Rightarrow> prime_loop cmp is s
      | r # rest \<Rightarrow> do {
          let h = m_heap s @ [\<lparr> he_row = r, he_idx = i \<rparr>];
          h' \<leftarrow> sift_up cmp h (length h - 1);
          prime_loop cmp is (s \<lparr> m_streams := (m_streams s)[i := rest], m_heap := h' \<rparr>)
        })
   }"

definition prime :: "('a \<Rightarrow> 'a \<Rightarrow> ordering option) \<Rightarrow> 'a merge_state \<Rightarrow> 'a merge_state option" where
  "prime cmp s = prime_loop cmp [0..<length (m_streams s)] s"

definition merge_pop :: "('a \<Rightarrow> 'a \<Rightarrow> ordering option) \<Rightarrow> 'a merge_state \<Rightarrow> ('a option \<times> 'a merge_state) option" where
  "merge_pop cmp s = (case m_heap s of
       [] \<Rightarrow> Some (None, s)
     | entry # hs \<Rightarrow> do {
         st \<leftarrow> vec_get (m_streams s) (he_idx entry);
         (case st of
            new_row # rest \<Rightarrow> do {
              h' \<leftarrow> sift_down cmp (entry \<lparr> he_row := new_row \<rparr> # hs) 0;
              Some (Some (he_row entry), s \<lparr> m_streams := (m_streams s)[he_idx entry := rest], m_heap := h' \<rparr>)
            }
          | [] \<Rightarrow>
              (case butlast (entry # hs) of
                 [] \<Rightarrow> Some (Some (he_row (last (entry # hs))), s \<lparr> m_heap := [] \<rparr>)
               | _ # mid \<Rightarrow> do {
                   h' \<leftarrow> sift_down cmp (last (entry # hs) # mid) 0;
                   Some (Some (he_row entry), s \<lparr> m_heap := h' \<rparr>)
                 }))
       })"

definition merge_next :: "('a \<Rightarrow> 'a \<Rightarrow> ordering option) \<Rightarrow> 'a merge_state \<Rightarrow> ('a option \<times> 'a merge_state) option" where
  "merge_next cmp s = do {
     s1 \<leftarrow> (if \<not> m_primed s then prime cmp (s \<lparr> m_primed := True \<rparr>) else Some s);
     merge_pop cmp s1
   }"

text \<open>Pulling until the merge yields nothing; the fuel bounds the number of pulls.\<close>

fun merge_drain :: "nat \<Rightarrow> ('a \<Rightarrow> 'a \<Rightarrow> ordering option) \<Rightarrow> 'a merge_state \<Rightarrow> 'a list option" where
  "merge_drain 0 cmp s = None"
| "merge_drain (Suc fuel) cmp s = do {
     (out, s') \<leftarrow> merge_next cmp s;
     (case out of None \<Rightarrow> Some [] | Some r \<Rightarrow> map_option (Cons r) (merge_drain fuel cmp s'))
   }"

definition merge_sorted_streams :: "row list list \<Rightarrow> sort \<Rightarrow> bool \<Rightarrow> row list option" where
  "merge_sorted_streams streams srt rev' =
     merge_drain (Suc (sum_list (map length streams))) (compare_rows_rev srt rev')
       \<lparr> m_streams = streams, m_heap = [], m_primed = False \<rparr>"

section \<open>The heap invariant\<close>

definition parent :: "nat \<Rightarrow> nat" where
  "parent j = (j - 1) div 2"

definition heap_ok :: "('a \<Rightarrow> 'a \<Rightarrow> ordering option) \<Rightarrow> 'a heap_entry list \<Rightarrow> bool" where
  "heap_ok cmp h \<longleftrightarrow> (\<forall>j. 0 < j \<longrightarrow> j < length h \<longrightarrow> cmp (he_row (h ! parent j)) (he_row (h ! j)) \<noteq> Some Greater)"

text \<open>The invariant with a hole at \<open>i\<close> that may be too small for its ancestors, or too big for its
  children.\<close>

definition heap_up :: "('a \<Rightarrow> 'a \<Rightarrow> ordering option) \<Rightarrow> 'a heap_entry list \<Rightarrow> nat \<Rightarrow> bool" where
  "heap_up cmp h i \<longleftrightarrow> (\<forall>j. 0 < j \<longrightarrow> j < length h \<longrightarrow>
     (j \<noteq> i \<longrightarrow> cmp (he_row (h ! parent j)) (he_row (h ! j)) \<noteq> Some Greater) \<and>
     (parent j = i \<longrightarrow> 0 < i \<longrightarrow> cmp (he_row (h ! parent i)) (he_row (h ! j)) \<noteq> Some Greater))"

definition heap_down :: "('a \<Rightarrow> 'a \<Rightarrow> ordering option) \<Rightarrow> 'a heap_entry list \<Rightarrow> nat \<Rightarrow> bool" where
  "heap_down cmp h i \<longleftrightarrow> (\<forall>j. 0 < j \<longrightarrow> j < length h \<longrightarrow>
     (parent j \<noteq> i \<longrightarrow> cmp (he_row (h ! parent j)) (he_row (h ! j)) \<noteq> Some Greater) \<and>
     (parent j = i \<longrightarrow> 0 < i \<longrightarrow> cmp (he_row (h ! parent i)) (he_row (h ! j)) \<noteq> Some Greater))"

lemma parent_less: "0 < j \<Longrightarrow> parent j < j"
  by (auto simp: parent_def)

lemma parent_eq_iff: "0 < j \<Longrightarrow> parent j = i \<longleftrightarrow> j = 2 * i + 1 \<or> j = 2 * i + 2"
  by (auto simp: parent_def)

lemma parent_child [simp]: "parent (2 * i + 1) = i" "parent (Suc (2 * i)) = i" "parent (2 * i + 2) = i" "parent (Suc (Suc (2 * i))) = i"
  by (auto simp: parent_def)

lemma heap_swap_ok:
  assumes "i < length h" "p < length h" "i \<noteq> p"
  shows "\<exists>h'. heap_swap h i p = Some h' \<and> mset h' = mset h \<and> length h' = length h \<and>
    (\<forall>j<length h. h' ! j = (if j = i then h ! p else if j = p then h ! i else h ! j))"
  using assms mset_swap [of p h i] by (auto simp: heap_swap_def nth_list_update)

context comparator_on
begin

definition heap_in where
  "heap_in h \<longleftrightarrow> he_row ` set h \<subseteq> D"

lemma heap_in_nth: "heap_in h \<Longrightarrow> j < length h \<Longrightarrow> he_row (h ! j) \<in> D"
  by (auto simp: heap_in_def)

lemma heap_in_mset: "heap_in h \<Longrightarrow> mset h' = mset h \<Longrightarrow> heap_in h'"
  by (metis heap_in_def set_mset_mset)

lemma heap_less_ok:
  assumes "heap_in h" "a < length h" "b < length h"
  shows "heap_less cmp h a b = Some (cmp (he_row (h ! a)) (he_row (h ! b)) = Some Less)"
  using assms cmp_total [OF heap_in_nth heap_in_nth, of h a h b] by (auto simp: heap_less_def)

lemma not_less_le: "x \<in> D \<Longrightarrow> y \<in> D \<Longrightarrow> cmp x y \<noteq> Some Less \<Longrightarrow> cmp y x \<noteq> Some Greater"
  using cmp_gt_iff by blast

lemma heap_up_step:
  assumes up: "heap_up cmp h i" and "heap_in h" "0 < i" "i < length h"
    and less: "cmp (he_row (h ! i)) (he_row (h ! parent i)) = Some Less"
    and h': "length h' = length h" "\<forall>j<length h. h' ! j = (if j = i then h ! parent i else if j = parent i then h ! i else h ! j)"
  shows "heap_up cmp h' (parent i)"
  unfolding heap_up_def
proof (intro allI impI conjI)
  let ?p = "parent i" and ?K = "\<lambda>j. he_row (h ! j)"
  have p: "?p < i" "?p < length h" using assms(3,4) parent_less [of i] by auto
  fix j assume j: "0 < j" "j < length h'"
  have jl: "j < length h" "parent j < length h" "parent j < j" using j h'(1) parent_less [of j] by auto
  note at = h'(2) [rule_format, OF jl(1)] h'(2) [rule_format, OF jl(2)] h'(2) [rule_format, OF p(2)] h'(2) [rule_format, OF assms(4)]
  have D: "?K j \<in> D" "?K i \<in> D" "?K ?p \<in> D" using heap_in_nth [OF assms(2)] jl assms(4) p by auto
  have le: "j' \<noteq> i \<Longrightarrow> 0 < j' \<Longrightarrow> j' < length h \<Longrightarrow> cmp (?K (parent j')) (?K j') \<noteq> Some Greater" for j'
    using up unfolding heap_up_def by blast
  have gp: "parent j' = i \<Longrightarrow> 0 < j' \<Longrightarrow> j' < length h \<Longrightarrow> cmp (?K ?p) (?K j') \<noteq> Some Greater" for j'
    using up assms(3) unfolding heap_up_def by blast
  show "cmp (he_row (h' ! parent j)) (he_row (h' ! j)) \<noteq> Some Greater" if "j \<noteq> ?p"
  proof -
    consider "j = i" | "j \<noteq> i" "parent j = i" | "j \<noteq> i" "parent j = ?p" | "j \<noteq> i" "parent j \<noteq> i" "parent j \<noteq> ?p" by blast
    then show ?thesis
    proof cases
      case 1
      then show ?thesis using at less p by simp
    next
      case 2
      then show ?thesis using at gp [of j] jl j that p by simp
    next
      case 3
      then have "cmp (?K i) (?K j) = Some Less"
        using cmp_less_le_trans [OF D(2,3,1) less] le [of j] jl j by simp
      then show ?thesis using 3 at p that by simp
    next
      case 4
      then show ?thesis using at le [of j] jl j that by simp
    qed
  qed
  show "cmp (he_row (h' ! parent ?p)) (he_row (h' ! j)) \<noteq> Some Greater" if pj: "parent j = ?p" "0 < ?p"
  proof -
    have pp: "parent ?p < ?p" "parent ?p < length h" using that p parent_less [of ?p] by auto
    have gpp: "cmp (?K (parent ?p)) (?K ?p) \<noteq> Some Greater" using le [of ?p] that p by simp
    show ?thesis
    proof (cases "j = i")
      case True
      then show ?thesis using gpp at h'(2) pp p by simp
    next
      case False
      have "cmp (?K (parent ?p)) (?K j) \<noteq> Some Greater"
        using cmp_le_trans [OF heap_in_nth [OF assms(2) pp(2)] D(3,1) gpp] le [of j] False pj jl j by simp
      then show ?thesis using False at h'(2) pp p pj jl by simp
    qed
  qed
qed

lemma sift_up_ok:
  "heap_in h \<Longrightarrow> i < length h \<Longrightarrow> heap_up cmp h i \<Longrightarrow>
   \<exists>h'. sift_up cmp h i = Some h' \<and> mset h' = mset h \<and> heap_ok cmp h'"
proof (induction i arbitrary: h rule: less_induct)
  case (less i)
  show ?case
  proof (cases "i = 0")
    case True
    then have "heap_ok cmp h" using less.prems(3) by (simp add: heap_up_def heap_ok_def)
    then show ?thesis using True by (simp add: sift_up.simps)
  next
    case False
    then have p: "parent i < i" "parent i < length h" using less.prems parent_less [of i] by auto
    let ?b = "cmp (he_row (h ! i)) (he_row (h ! parent i)) = Some Less"
    have hl: "heap_less cmp h i (parent i) = Some ?b" using heap_less_ok less.prems p by blast
    show ?thesis
    proof (cases ?b)
      case True
      obtain h' where h': "heap_swap h i (parent i) = Some h'" "mset h' = mset h" "length h' = length h"
        "\<forall>j<length h. h' ! j = (if j = i then h ! parent i else if j = parent i then h ! i else h ! j)"
        using heap_swap_ok [of i h "parent i"] less.prems p by auto
      have "heap_up cmp h' (parent i)"
        using heap_up_step [OF less.prems(3,1) _ less.prems(2) True h'(3,4)] False by simp
      then obtain h'' where "sift_up cmp h' (parent i) = Some h''" "mset h'' = mset h'" "heap_ok cmp h''"
        using less.IH [OF p(1), of h'] heap_in_mset [OF less.prems(1) h'(2)] h'(3) p by auto
      then show ?thesis using False hl True h' by (subst sift_up.simps) (simp add: Let_def parent_def)
    next
      case nl: False
      have "heap_ok cmp h" unfolding heap_ok_def
      proof (intro allI impI)
        fix j assume "0 < j" "j < length h"
        then show "cmp (he_row (h ! parent j)) (he_row (h ! j)) \<noteq> Some Greater"
          using less.prems(3) not_less_le [OF heap_in_nth heap_in_nth nl] less.prems(1,2) p
          by (cases "j = i") (auto simp: heap_up_def)
      qed
      then show ?thesis using False hl nl by (subst sift_up.simps) (simp add: Let_def parent_def)
    qed
  qed
qed

lemma smallest_child_ok:
  assumes "heap_in h" "i < length h"
  shows "\<exists>s. smallest_child cmp h i = Some s \<and>
    (s = i \<or> s < length h \<and> 0 < s \<and> parent s = i \<and> cmp (he_row (h ! s)) (he_row (h ! i)) = Some Less) \<and>
    (\<forall>j. 0 < j \<longrightarrow> j < length h \<longrightarrow> parent j = i \<longrightarrow> cmp (he_row (h ! s)) (he_row (h ! j)) \<noteq> Some Greater)"
proof -
  let ?K = "\<lambda>j. he_row (h ! j)" and ?n = "length h"
  have D: "j < ?n \<Longrightarrow> ?K j \<in> D" for j using heap_in_nth [OF assms(1)] by blast
  define s1 where "s1 = (if 2 * i + 1 < ?n \<and> cmp (?K (2 * i + 1)) (?K i) = Some Less then 2 * i + 1 else i)"
  define s where "s = (if 2 * i + 2 < ?n \<and> cmp (?K (2 * i + 2)) (?K s1) = Some Less then 2 * i + 2 else s1)"
  have s1: "s1 < ?n" using assms(2) by (simp add: s1_def)
  have le1: "cmp (?K s1) (?K i) \<noteq> Some Greater" "2 * i + 1 < ?n \<Longrightarrow> cmp (?K s1) (?K (2 * i + 1)) \<noteq> Some Greater"
    using D assms(2) cmp_refl not_less_le by (auto simp: s1_def)
  have les: "cmp (?K s) (?K s1) \<noteq> Some Greater" "2 * i + 2 < ?n \<Longrightarrow> cmp (?K s) (?K (2 * i + 2)) \<noteq> Some Greater"
    using D s1 cmp_refl not_less_le by (auto simp: s_def)
  have sn: "s < ?n" using s1 by (simp add: s_def)
  have run: "smallest_child cmp h i = Some s"
    using assms s1 heap_less_ok [OF assms(1)] by (auto simp: smallest_child_def Let_def s_def s1_def numeral_2_eq_2)
  have pos: "s = i \<or> s < ?n \<and> 0 < s \<and> parent s = i \<and> cmp (?K s) (?K i) = Some Less"
  proof (cases "s = s1")
    case True
    then show ?thesis using s1 by (auto simp: s1_def split: if_splits)
  next
    case False
    then have "s = 2 * i + 2" "cmp (?K s) (?K s1) = Some Less" by (auto simp: s_def split: if_splits)
    moreover from this have "cmp (?K s) (?K i) = Some Less"
      using cmp_less_le_trans [OF D [OF sn] D [OF s1] D [OF assms(2)]] le1(1) by blast
    ultimately show ?thesis using sn by simp
  qed
  have "cmp (?K s) (?K j) \<noteq> Some Greater" if j: "0 < j" "j < ?n" "parent j = i" for j
  proof (cases "j = 2 * i + 2")
    case True
    then show ?thesis using les(2) j by simp
  next
    case False
    then have "j = 2 * i + 1" using j parent_eq_iff by auto
    then show ?thesis using cmp_le_trans [OF D [OF sn] D [OF s1] D [OF j(2)] les(1)] le1(2) j by simp
  qed
  then show ?thesis using run pos by blast
qed

lemma heap_down_step:
  assumes down: "heap_down cmp h i" and "heap_in h" "i < length h" "c < length h" "0 < c" "parent c = i"
    and less: "cmp (he_row (h ! c)) (he_row (h ! i)) = Some Less"
    and small: "\<forall>j. 0 < j \<longrightarrow> j < length h \<longrightarrow> parent j = i \<longrightarrow> cmp (he_row (h ! c)) (he_row (h ! j)) \<noteq> Some Greater"
    and h': "length h' = length h" "\<forall>j<length h. h' ! j = (if j = i then h ! c else if j = c then h ! i else h ! j)"
  shows "heap_down cmp h' c"
  unfolding heap_down_def
proof (intro allI impI conjI)
  let ?K = "\<lambda>j. he_row (h ! j)"
  have ic: "i < c" using assms(5,6) parent_less [of c] by simp
  fix j assume j: "0 < j" "j < length h'"
  have jl: "j < length h" "parent j < length h" "parent j < j" using j h'(1) parent_less [of j] by auto
  note at = h'(2) [rule_format, OF jl(1)] h'(2) [rule_format, OF jl(2)] h'(2) [rule_format, OF assms(3)] h'(2) [rule_format, OF assms(4)]
  have le: "parent j' \<noteq> i \<Longrightarrow> 0 < j' \<Longrightarrow> j' < length h \<Longrightarrow> cmp (?K (parent j')) (?K j') \<noteq> Some Greater" for j'
    using down unfolding heap_down_def by blast
  have gp: "parent j' = i \<Longrightarrow> 0 < i \<Longrightarrow> 0 < j' \<Longrightarrow> j' < length h \<Longrightarrow> cmp (?K (parent i)) (?K j') \<noteq> Some Greater" for j'
    using down unfolding heap_down_def by blast
  show "cmp (he_row (h' ! parent j)) (he_row (h' ! j)) \<noteq> Some Greater" if "parent j \<noteq> c"
  proof -
    consider "j = c" | "j \<noteq> c" "parent j = i" | "j = i" | "j \<noteq> c" "j \<noteq> i" "parent j \<noteq> i" by blast
    then show ?thesis
    proof cases
      case 1
      then show ?thesis using at less ic assms(6) by simp
    next
      case 2
      then show ?thesis using at small jl j ic by auto
    next
      case 3
      then show ?thesis using at gp [of c] assms(4-6) j ic jl(3) by auto
    next
      case 4
      then show ?thesis using at le [of j] jl j that by simp
    qed
  qed
  show "cmp (he_row (h' ! parent c)) (he_row (h' ! j)) \<noteq> Some Greater" if "parent j = c"
    using that at assms(6) le [of j] ic jl j by auto
qed

lemma sift_down_ok:
  "heap_in h \<Longrightarrow> i < length h \<Longrightarrow> heap_down cmp h i \<Longrightarrow>
   \<exists>h'. sift_down cmp h i = Some h' \<and> mset h' = mset h \<and> heap_ok cmp h'"
proof (induction "length h - i" arbitrary: h i rule: less_induct)
  case less
  obtain s where s: "smallest_child cmp h i = Some s"
    "s = i \<or> s < length h \<and> 0 < s \<and> parent s = i \<and> cmp (he_row (h ! s)) (he_row (h ! i)) = Some Less"
    "\<forall>j. 0 < j \<longrightarrow> j < length h \<longrightarrow> parent j = i \<longrightarrow> cmp (he_row (h ! s)) (he_row (h ! j)) \<noteq> Some Greater"
    using smallest_child_ok [OF less.prems(1,2)] by blast
  show ?case
  proof (cases "s = i")
    case True
    have "heap_ok cmp h" unfolding heap_ok_def
      using less.prems(3) s(3) True by (metis heap_down_def)
    then show ?thesis using True s(1) by (subst sift_down.simps) simp
  next
    case False
    then have c: "s < length h" "0 < s" "parent s = i" "cmp (he_row (h ! s)) (he_row (h ! i)) = Some Less" "i < s"
      using s(2) False parent_less [of s] by auto
    obtain h' where h': "heap_swap h i s = Some h'" "mset h' = mset h" "length h' = length h"
      "\<forall>j<length h. h' ! j = (if j = i then h ! s else if j = s then h ! i else h ! j)"
      using heap_swap_ok [of i h s] less.prems c by auto
    have "heap_down cmp h' s"
      by (rule heap_down_step [OF less.prems(3,1,2) c(1-4) s(3) h'(3,4)])
    moreover have "length h' - s < length h - i" using c(1,5) h'(3) by simp
    ultimately obtain h'' where "sift_down cmp h' s = Some h''" "mset h'' = mset h'" "heap_ok cmp h''"
      using less.hyps [of h' s] heap_in_mset [OF less.prems(1) h'(2)] h'(3) c(1) by auto
    then show ?thesis using False s(1) h' by (subst sift_down.simps) simp
  qed
qed

lemma heap_root_min:
  "heap_in h \<Longrightarrow> heap_ok cmp h \<Longrightarrow> j < length h \<Longrightarrow> cmp (he_row (h ! 0)) (he_row (h ! j)) \<noteq> Some Greater"
proof (induction j rule: less_induct)
  case (less j)
  have D: "he_row (h ! 0) \<in> D" "he_row (h ! j) \<in> D" 
    using heap_in_nth [OF less.prems(1), of 0] heap_in_nth [OF less.prems(1), of j] less.prems(3) by (cases h; auto)+
  show ?case
  proof (cases "j = 0")
    case True
    then show ?thesis using cmp_refl D by simp
  next
    case False
    then have p: "parent j < j" "parent j < length h" using parent_less [of j] less.prems by auto
    have "cmp (he_row (h ! parent j)) (he_row (h ! j)) \<noteq> Some Greater"
      using less.prems False by (simp add: heap_ok_def)
    then show ?thesis using cmp_le_trans [OF D(1) heap_in_nth [OF less.prems(1) p(2)] D(2)] less.IH [OF p(1)] less.prems p by blast
  qed
qed

lemma heap_down_root: "heap_ok cmp (e # hs) \<Longrightarrow> heap_down cmp (e' # hs) 0"
  unfolding heap_ok_def heap_down_def by (auto simp: nth_Cons' split: if_splits)

lemma heap_ok_prefix: "heap_ok cmp (hs @ xs) \<Longrightarrow> heap_ok cmp hs"
proof -
  assume h: "heap_ok cmp (hs @ xs)"
  show "heap_ok cmp hs" unfolding heap_ok_def
  proof (intro allI impI)
    fix j assume j: "0 < j" "j < length hs"
    then have "parent j < length hs" using parent_less [of j] by simp
    then show "cmp (he_row (hs ! parent j)) (he_row (hs ! j)) \<noteq> Some Greater"
      using h j by (auto simp: heap_ok_def nth_append dest!: spec [of _ j])
  qed
qed

lemma heap_up_snoc:
  assumes "heap_ok cmp hs"
  shows "heap_up cmp (hs @ [e]) (length hs)"
  unfolding heap_up_def
proof (intro allI impI conjI)
  fix j assume j: "0 < j" "j < length (hs @ [e])"
  then have p: "parent j < j" "parent j < length hs" using parent_less [of j] by auto
  show "cmp (he_row ((hs @ [e]) ! parent j)) (he_row ((hs @ [e]) ! j)) \<noteq> Some Greater" if "j \<noteq> length hs"
    using that j p assms by (simp add: heap_ok_def nth_append)
  show "cmp (he_row ((hs @ [e]) ! parent (length hs))) (he_row ((hs @ [e]) ! j)) \<noteq> Some Greater" if "parent j = length hs"
    using that p by simp
qed

end

section \<open>The merge invariant\<close>

definition merge_left :: "'a merge_state \<Rightarrow> 'a multiset" where
  "merge_left s = mset (map he_row (m_heap s)) + sum_list (map mset (m_streams s))"

lemma merge_streams_pop:
  "i < length ss \<Longrightarrow> ss ! i = r # rest \<Longrightarrow>
   sum_list (map mset ss) = add_mset r (sum_list (map mset (ss[i := rest])))"
  by (induction ss arbitrary: i) (auto split: nat.splits simp: nth_Cons')

lemma sum_list_mset_empty: "(\<And>st. st \<in> set ss \<Longrightarrow> st = []) \<Longrightarrow> sum_list (map mset ss) = {#}"
  by (induction ss) auto

lemma sum_list_mset_member: "x \<in># sum_list (map mset ss) \<longleftrightarrow> (\<exists>st\<in>set ss. x \<in> set st)"
  by (induction ss) auto

context comparator_on
begin

abbreviation le_by where
  "le_by x y \<equiv> cmp x y \<noteq> Some Greater"

definition entry_ok where
  "entry_ok ss e \<longleftrightarrow> he_idx e < length ss \<and> (\<forall>x\<in>set (ss ! he_idx e). le_by (he_row e) x)"

definition merge_ok where
  "merge_ok s \<longleftrightarrow> heap_in (m_heap s) \<and> heap_ok cmp (m_heap s) \<and> distinct (map he_idx (m_heap s)) \<and>
     (\<forall>e\<in>set (m_heap s). entry_ok (m_streams s) e) \<and>
     (\<forall>st\<in>set (m_streams s). set st \<subseteq> D \<and> sorted_wrt le_by st)"

definition all_primed where
  "all_primed s \<longleftrightarrow> (\<forall>i<length (m_streams s). m_streams s ! i \<noteq> [] \<longrightarrow> i \<in> he_idx ` set (m_heap s))"

lemma heap_mset_facts:
  assumes "mset h' = mset h"
  shows "set h' = set h" "distinct (map he_idx h') = distinct (map he_idx h)"
    "mset (map he_row h') = mset (map he_row h)" "heap_in h' = heap_in h"
proof -
  show "set h' = set h" using assms by (metis set_mset_mset)
  then show "heap_in h' = heap_in h" by (simp add: heap_in_def)
  show "mset (map he_row h') = mset (map he_row h)" using assms by simp
  have "mset (map he_idx h') = mset (map he_idx h)" using assms by simp
  then show "distinct (map he_idx h') = distinct (map he_idx h)" by (rule mset_eq_imp_distinct_iff)
qed

lemma streams_update_ok:
  assumes "\<forall>st\<in>set ss. set st \<subseteq> D \<and> sorted_wrt le_by st" "i < length ss" "ss ! i = r # rest"
  shows "\<forall>st\<in>set (ss[i := rest]). set st \<subseteq> D \<and> sorted_wrt le_by st" "r \<in> D" "\<forall>x\<in>set rest. le_by r x"
proof -
  have "set (r # rest) \<subseteq> D \<and> sorted_wrt le_by (r # rest)" using assms by (metis nth_mem)
  then show "\<forall>st\<in>set (ss[i := rest]). set st \<subseteq> D \<and> sorted_wrt le_by st" "r \<in> D" "\<forall>x\<in>set rest. le_by r x"
    using assms(1) set_update_subset_insert [of ss i rest] by auto
qed

lemma entry_ok_update: "entry_ok ss e \<Longrightarrow> he_idx e \<noteq> i \<Longrightarrow> entry_ok (ss[i := rest]) e"
  by (simp add: entry_ok_def)

lemma merge_root_least:
  assumes "merge_ok s" "all_primed s" "m_heap s = e # hs" "x \<in># merge_left s"
  shows "le_by (he_row e) x"
proof -
  have ok: "heap_in (m_heap s)" "heap_ok cmp (m_heap s)" using assms(1) by (auto simp: merge_ok_def)
  have root: "le_by (he_row e) (he_row e')" if "e' \<in> set (m_heap s)" for e'
    using heap_root_min [OF ok] that assms(3) by (metis in_set_conv_nth nth_Cons_0)
  show ?thesis
  proof (cases "x \<in> he_row ` set (m_heap s)")
    case True
    then show ?thesis using root by auto
  next
    case False
    then obtain i where i: "i < length (m_streams s)" "x \<in> set (m_streams s ! i)"
      using assms(4) in_set_conv_nth [of _ "m_streams s"] by (auto simp: merge_left_def sum_list_mset_member)
    then have "m_streams s ! i \<noteq> []" by auto
    then obtain e' where e': "e' \<in> set (m_heap s)" "he_idx e' = i" using assms(2) i by (auto simp: all_primed_def)
    have "le_by (he_row e') x" using e' i assms(1) by (auto simp: merge_ok_def entry_ok_def)
    moreover have "he_row e \<in> D" "he_row e' \<in> D" using ok(1) e' assms(3) by (auto simp: heap_in_def)
    moreover have "x \<in> D" using i assms(1) nth_mem by (fastforce simp: merge_ok_def)
    ultimately show ?thesis using cmp_le_trans root [OF e'(1)] by blast
  qed
qed

lemma prime_loop_ok:
  "merge_ok s \<Longrightarrow> distinct is \<Longrightarrow> set is \<inter> he_idx ` set (m_heap s) = {} \<Longrightarrow> set is \<subseteq> {..<length (m_streams s)} \<Longrightarrow>
   (\<And>i. i < length (m_streams s) \<Longrightarrow> m_streams s ! i \<noteq> [] \<Longrightarrow> i \<in> set is \<union> he_idx ` set (m_heap s)) \<Longrightarrow>
   \<exists>s'. prime_loop cmp is s = Some s' \<and> merge_ok s' \<and> all_primed s' \<and> merge_left s' = merge_left s \<and> m_primed s' = m_primed s"
proof (induction "is" arbitrary: s)
  case Nil
  then show ?case by (simp add: all_primed_def)
next
  case (Cons i "is")
  have i: "i < length (m_streams s)" using Cons.prems(4) by simp
  show ?case
  proof (cases "m_streams s ! i")
    case Nil
    then have "i' < length (m_streams s) \<Longrightarrow> m_streams s ! i' \<noteq> [] \<Longrightarrow> i' \<in> set is \<union> he_idx ` set (m_heap s)" for i'
      using Cons.prems(5) [of i'] by auto
    then show ?thesis using Cons.IH [of s] Cons.prems(1-4) i Nil by auto
  next
    case (Cons r rest)
    define e where "e = \<lparr> he_row = r, he_idx = i \<rparr>"
    note ok = Cons.prems(1) [unfolded merge_ok_def]
    note su = streams_update_ok [OF conjunct2 [OF conjunct2 [OF conjunct2 [OF conjunct2 [OF ok]]]] i Cons]
    have hin: "heap_in (m_heap s @ [e])" using ok su(2) by (auto simp: heap_in_def e_def)
    have up: "heap_up cmp (m_heap s @ [e]) (length (m_heap s))" using heap_up_snoc ok by blast
    obtain h' where h': "sift_up cmp (m_heap s @ [e]) (length (m_heap s)) = Some h'"
      "mset h' = mset (m_heap s @ [e])" "heap_ok cmp h'" using sift_up_ok [OF hin _ up] by auto
    note hf = heap_mset_facts [OF h'(2)]
    define s1 where "s1 = s \<lparr> m_streams := (m_streams s)[i := rest], m_heap := h' \<rparr>"
    have notin: "i \<notin> he_idx ` set (m_heap s)" using Cons.prems(3) by auto
    have "entry_ok ((m_streams s)[i := rest]) e'" if "e' \<in> set (m_heap s)" for e'
      using that ok notin by (intro entry_ok_update) auto
    moreover have "entry_ok ((m_streams s)[i := rest]) e" using i su(3) by (simp add: entry_ok_def e_def)
    ultimately have "merge_ok s1"
      using h'(3) hf hin ok su(1) notin by (auto simp: merge_ok_def s1_def e_def)
    moreover have "merge_left s1 = merge_left s"
      using hf(3) merge_streams_pop [OF i Cons] by (simp add: merge_left_def s1_def e_def)
    moreover have "i' \<in> set is \<union> he_idx ` set (m_heap s1)" if "i' < length (m_streams s1)" "m_streams s1 ! i' \<noteq> []" for i'
      using that Cons.prems(5) [of i'] hf(1) by (cases "i' = i") (auto simp: s1_def e_def)
    moreover have "set is \<inter> he_idx ` set (m_heap s1) = {}" using Cons.prems(2,3) hf(1) by (auto simp: s1_def e_def)
    moreover have "set is \<subseteq> {..<length (m_streams s1)}" using Cons.prems(4) by (simp add: s1_def)
    ultimately obtain s' where "prime_loop cmp is s1 = Some s'" "merge_ok s'" "all_primed s'" "merge_left s' = merge_left s"
        "m_primed s' = m_primed s1"
      using Cons.IH [of s1] Cons.prems(2) by auto
    moreover have "prime_loop cmp (i # is) s = prime_loop cmp is s1"
      using i Cons h'(1) by (simp add: s1_def e_def)
    ultimately show ?thesis by (simp add: s1_def)
  qed
qed

lemma merge_pop_ok:
  assumes "merge_ok s" "all_primed s"
  shows "\<exists>out s'. merge_pop cmp s = Some (out, s') \<and> merge_ok s' \<and> all_primed s' \<and> m_primed s' = m_primed s \<and>
    (case out of None \<Rightarrow> merge_left s = {#} | Some r \<Rightarrow> merge_left s = add_mset r (merge_left s'))"
proof (cases "m_heap s")
  case Nil
  then have "st = []" if "st \<in> set (m_streams s)" for st
    using assms(2) that by (auto simp: all_primed_def in_set_conv_nth)
  then have "sum_list (map mset (m_streams s)) = {#}" using sum_list_mset_empty by blast
  then show ?thesis using Nil assms by (simp add: merge_pop_def merge_left_def)
next
  case heap: (Cons e hs)
  note ok = assms(1) [unfolded merge_ok_def]
  have e: "entry_ok (m_streams s) e" "he_row e \<in> D" using ok heap by (auto simp: heap_in_def)
  then have i: "he_idx e < length (m_streams s)" by (simp add: entry_ok_def)
  show ?thesis
  proof (cases "m_streams s ! he_idx e")
    case (Cons r rest)
    note su = streams_update_ok [OF conjunct2 [OF conjunct2 [OF conjunct2 [OF conjunct2 [OF ok]]]] i Cons]
    define h where "h = e \<lparr> he_row := r \<rparr> # hs"
    have "heap_in h" using ok heap su(2) by (auto simp: h_def heap_in_def)
    moreover have "heap_down cmp h 0" using heap_down_root [of e hs] ok heap by (simp add: h_def)
    ultimately obtain h' where h': "sift_down cmp h 0 = Some h'" "mset h' = mset h" "heap_ok cmp h'"
      using sift_down_ok [of h 0] by (auto simp: h_def)
    note hf = heap_mset_facts [OF h'(2)]
    define s' where "s' = s \<lparr> m_streams := (m_streams s)[he_idx e := rest], m_heap := h' \<rparr>"
    have "entry_ok ((m_streams s)[he_idx e := rest]) e'" if "e' \<in> set hs" for e'
    proof (rule entry_ok_update)
      show "entry_ok (m_streams s) e'" using that ok heap by simp
      have "he_idx e \<notin> he_idx ` set hs" using ok heap by simp
      then show "he_idx e' \<noteq> he_idx e" using that by (metis imageI)
    qed
    moreover have "entry_ok ((m_streams s)[he_idx e := rest]) (e \<lparr> he_row := r \<rparr>)" using i su(3) by (simp add: entry_ok_def)
    ultimately have "merge_ok s'" using h'(3) hf su(1) ok heap \<open>heap_in h\<close> by (auto simp: merge_ok_def s'_def h_def)
    moreover have "all_primed s'"
      using assms(2) heap hf(1) by (auto simp: all_primed_def s'_def h_def nth_list_update)
    moreover have "merge_left s = add_mset (he_row e) (merge_left s')"
      using hf(3) heap merge_streams_pop [OF i Cons] by (simp add: merge_left_def s'_def h_def)
    moreover have "merge_pop cmp s = Some (Some (he_row e), s')"
      using heap i Cons h'(1) by (simp add: merge_pop_def s'_def h_def)
    ultimately show ?thesis by (auto simp: s'_def)
  next
    case Nil
    show ?thesis
    proof (cases hs rule: rev_cases)
      case empty: Nil
      define s' where "s' = s \<lparr> m_heap := [] \<rparr>"
      have "merge_ok s'" using ok by (simp add: merge_ok_def s'_def heap_in_def heap_ok_def)
      moreover have "all_primed s'" using assms(2) heap empty Nil by (auto simp: all_primed_def s'_def)
      moreover have "merge_left s = add_mset (he_row e) (merge_left s')" using heap empty by (simp add: merge_left_def s'_def)
      moreover have "merge_pop cmp s = Some (Some (he_row e), s')" using heap empty i Nil by (simp add: merge_pop_def s'_def)
      ultimately show ?thesis by (auto simp: s'_def)
    next
      case (snoc mid l)
      define h where "h = l # mid"
      have "heap_in h" using ok heap snoc by (auto simp: h_def heap_in_def)
      moreover have "heap_ok cmp (e # mid)" using heap_ok_prefix [of "e # mid" "[l]"] ok heap snoc by simp
      then have "heap_down cmp h 0" using heap_down_root by (simp add: h_def)
      ultimately obtain h' where h': "sift_down cmp h 0 = Some h'" "mset h' = mset h" "heap_ok cmp h'"
        using sift_down_ok [of h 0] by (auto simp: h_def)
      note hf = heap_mset_facts [OF h'(2)]
      define s' where "s' = s \<lparr> m_heap := h' \<rparr>"
      have "merge_ok s'" using h'(3) hf ok heap snoc \<open>heap_in h\<close> by (auto simp: merge_ok_def s'_def h_def)
      moreover have "all_primed s'"
        using assms(2) heap snoc hf(1) Nil by (fastforce simp: all_primed_def s'_def h_def)
      moreover have "merge_left s = add_mset (he_row e) (merge_left s')"
        using hf(3) heap snoc by (simp add: merge_left_def s'_def h_def)
      moreover have "merge_pop cmp s = Some (Some (he_row e), s')"
        using heap snoc i Nil h'(1) by (simp add: merge_pop_def s'_def h_def butlast_append)
      ultimately show ?thesis by (auto simp: s'_def)
    qed
  qed
qed

lemma merge_pop_least:
  assumes "merge_ok s" "all_primed s" "merge_pop cmp s = Some (Some r, s')" "x \<in># merge_left s"
  shows "le_by r x"
proof (cases "m_heap s")
  case Nil
  then show ?thesis using assms(3) by (simp add: merge_pop_def)
next
  case (Cons e hs)
  then have "r = he_row e"
    using assms(3) by (auto simp: merge_pop_def split: Option.bind_splits list.splits if_splits)
  then show ?thesis using merge_root_least [OF assms(1,2) Cons assms(4)] by simp
qed

lemma merge_drain_primed:
  "merge_ok s \<Longrightarrow> all_primed s \<Longrightarrow> m_primed s \<Longrightarrow> size (merge_left s) < fuel \<Longrightarrow>
   \<exists>ys. merge_drain fuel cmp s = Some ys \<and> mset ys = merge_left s \<and> sorted_wrt le_by ys"
proof (induction fuel arbitrary: s)
  case (Suc fuel)
  obtain out s' where s': "merge_pop cmp s = Some (out, s')" "merge_ok s'" "all_primed s'" "m_primed s' = m_primed s"
    "case out of None \<Rightarrow> merge_left s = {#} | Some r \<Rightarrow> merge_left s = add_mset r (merge_left s')"
    using merge_pop_ok [OF Suc.prems(1,2)] by blast
  show ?case
  proof (cases out)
    case None
    then show ?thesis using s' Suc.prems(3) by (simp add: merge_next_def)
  next
    case (Some r)
    then have left: "merge_left s = add_mset r (merge_left s')" using s'(5) by simp
    then have "size (merge_left s') < fuel" using Suc.prems(4) by simp
    then obtain ys where ys: "merge_drain fuel cmp s' = Some ys" "mset ys = merge_left s'" "sorted_wrt le_by ys"
      using Suc.IH [OF s'(2,3)] s'(4) Suc.prems(3) by auto
    have "le_by r x" if "x \<in> set ys" for x
      using merge_pop_least [OF Suc.prems(1,2) s'(1) [unfolded Some]] left ys(2) that
      by (metis set_mset_mset union_iff add_mset_add_single)
    then show ?thesis using s'(1) Some ys left Suc.prems(3) by (simp add: merge_next_def)
  qed
qed simp

lemma merge_drain_ok:
  assumes "\<forall>st\<in>set streams. set st \<subseteq> D \<and> sorted_wrt le_by st"
  shows "\<exists>ys. merge_drain (Suc (sum_list (map length streams))) cmp \<lparr> m_streams = streams, m_heap = [], m_primed = False \<rparr> = Some ys \<and>
    mset ys = sum_list (map mset streams) \<and> sorted_wrt le_by ys"
proof -
  define s where "s = \<lparr> m_streams = streams, m_heap = [], m_primed = True \<rparr>"
  have "merge_ok s" using assms by (simp add: s_def merge_ok_def heap_in_def heap_ok_def)
  then obtain s1 where s1: "prime cmp s = Some s1" "merge_ok s1" "all_primed s1" "merge_left s1 = merge_left s" "m_primed s1"
    using prime_loop_ok [of s "[0..<length streams]"] by (auto simp: prime_def s_def lessThan_atLeast0)
  have size: "size (merge_left s1) = sum_list (map length streams)"
    unfolding s1(4) by (simp add: merge_left_def s_def) (induction streams; simp)
  then obtain ys where ys: "merge_drain (Suc (sum_list (map length streams))) cmp s1 = Some ys"
      "mset ys = merge_left s1" "sorted_wrt le_by ys"
    using merge_drain_primed [OF s1(2,3,5), of "Suc (sum_list (map length streams))"] by (auto simp del: merge_drain.simps)
  have "merge_drain (Suc (sum_list (map length streams))) cmp \<lparr> m_streams = streams, m_heap = [], m_primed = False \<rparr> =
      merge_drain (Suc (sum_list (map length streams))) cmp s1"
    using s1(1,5) by (simp add: merge_next_def s_def)
  then show ?thesis using ys s1(4) by (simp add: merge_left_def s_def)
qed

end

section \<open>Properties of the merge\<close>

lemma merge_rows_ok:
  assumes "\<forall>st\<in>set streams. (\<forall>r\<in>set st. row_ok ty srt r) \<and> sorted_wrt (\<lambda>x y. compare_rows_rev srt rev' x y \<noteq> Some Greater) st"
  shows "\<exists>ys. merge_sorted_streams streams srt rev' = Some ys \<and> mset ys = sum_list (map mset streams) \<and>
    sorted_wrt (\<lambda>x y. compare_rows_rev srt rev' x y \<noteq> Some Greater) ys"
  using rev_order.merge_drain_ok [of streams ty srt rev'] assms by (auto simp: merge_sorted_streams_def)

text \<open>(C31) Merging sorted streams of conforming rows never panics, always ends, and yields every row of every
  stream exactly as often as the streams hold it, in order.\<close>

theorem merge_sorted_streams_correct:
  assumes "\<forall>st\<in>set streams. (\<forall>r\<in>set st. row_ok ty srt r) \<and>
      sorted_wrt (\<lambda>x y. compare_rows_rev srt rev' x y \<noteq> Some Greater) st"
  shows "\<exists>ys. merge_sorted_streams streams srt rev' = Some ys \<and> mset ys = sum_list (map mset streams) \<and>
    sorted_wrt (\<lambda>x y. compare_rows_rev srt rev' x y \<noteq> Some Greater) ys"
  by (rule merge_rows_ok [OF assms])

theorem merge_sorted_streams_correct_witness:
  "\<exists>ys. merge_sorted_streams [[[IntV 1], [IntV 4]], [], [[IntV 2], [IntV 4]]] [(0, True)] False = Some ys \<and>
    mset ys = {#[IntV 1], [IntV 4], [IntV 2], [IntV 4]#} \<and>
    sorted_wrt (\<lambda>x y. compare_rows_rev [(0, True)] False x y \<noteq> Some Greater) ys"
proof -
  have "\<forall>st\<in>set [[[IntV 1], [IntV 4]], [], [[IntV 2], [IntV 4]]]. (\<forall>r\<in>set st. row_ok (\<lambda>_. KNum) [(0, True)] r) \<and>
      sorted_wrt (\<lambda>x y. compare_rows_rev [(0, True)] False x y \<noteq> Some Greater) st"
    by (simp add: compare_rows_rev_def compare_cell_def row_col_def vec_get_def apply_dir_def cmp_of_def)
  from merge_sorted_streams_correct [OF this] show ?thesis by (simp add: add_mset_commute)
qed

end
