(* ===== verification/Push.thy ===== *)
theory Push
  imports Conn_Table Overlay
begin

text \<open>
  The push orchestration shared by the source backends (\<open>rust/src/source_common.rs\<close>): filtering a change
  through a connection's predicate, fanning it out to the candidate connections while the overlay is
  live, splitting edits, and writing after the drain.

  The callbacks the code receives are the fields of an environment over an arbitrary state. The flag
  \<open>debug\<close> says whether the build checks debug assertions; a failed assertion is a panic. A
  fallible operation returns an error or a value.
\<close>

section \<open>Errors\<close>

datatype rindle_error =
    Sqlite string string
  | UnsupportedValue string
  | InvalidUtf8 string string
  | Storage string
  | ConsistencyViolation string
  | SchemaViolation string
  | PushDeadlineExceeded string

type_synonym 'a fallible = "(rindle_error + 'a) option"

definition try_bind :: "'a fallible \<Rightarrow> ('a \<Rightarrow> 'b fallible) \<Rightarrow> 'b fallible" where
  "try_bind m f = (case m of None \<Rightarrow> None | Some (Inl e) \<Rightarrow> Some (Inl e) | Some (Inr x) \<Rightarrow> f x)"

lemma try_bind_simps [simp]:
  "try_bind None f = None" "try_bind (Some (Inl e)) f = Some (Inl e)" "try_bind (Some (Inr x)) f = f x"
  by (simp_all add: try_bind_def)

section \<open>Filtering\<close>

fun filter_push :: "source_change \<Rightarrow> row_predicate option \<Rightarrow> source_change option" where
  "filter_push change None = Some change"
| "filter_push (AddRow r) (Some p) = (if p r then Some (AddRow r) else None)"
| "filter_push (RemoveRow r) (Some p) = (if p r then Some (RemoveRow r) else None)"
| "filter_push (EditRow r old) (Some p) =
     (if p old \<and> p r then Some (EditRow r old)
      else if p old then Some (RemoveRow old)
      else if p r then Some (AddRow r)
      else None)"

section \<open>Fan-out\<close>

record 's push_env =
  env_table :: "'s \<Rightarrow> conn_table"
  env_put_table :: "conn_table \<Rightarrow> 's \<Rightarrow> 's"
  env_set_overlay :: "overlay option \<Rightarrow> 's \<Rightarrow> 's"
  env_next_epoch :: "'s \<Rightarrow> (32 word \<times> 's) option"
  env_push_one :: "slot \<Rightarrow> connection \<Rightarrow> source_change \<Rightarrow> 's \<Rightarrow> 's option"

definition bump_epoch :: "slot \<Rightarrow> 32 word \<Rightarrow> conn_table \<Rightarrow> conn_table" where
  "bump_epoch s e t = t \<lparr> conns := (conns t)[unat s := (conns t ! unat s) \<lparr> last_pushed_epoch := e \<rparr>] \<rparr>"

fun fan_out :: "'s push_env \<Rightarrow> source_change \<Rightarrow> 32 word \<Rightarrow> slot list \<Rightarrow> 's \<Rightarrow> 's option" where
  "fan_out env change epoch [] st = Some st"
| "fan_out env change epoch (slot # slots) st = do {
     conn \<leftarrow> vec_get (conns (env_table env st)) (unat slot);
     if conn_output conn \<noteq> None then do {
       let st1 = env_put_table env (bump_epoch slot epoch (env_table env st)) st;
       let st2 = env_set_overlay env (Some \<lparr> ov_epoch = epoch, ov_change = change \<rparr>) st1;
       st3 \<leftarrow> (case filter_push change (map_option predicate (filters conn)) of
                None \<Rightarrow> Some st2
              | Some sc \<Rightarrow> env_push_one env slot conn sc st2);
       fan_out env change epoch slots st3
     }
     else fan_out env change epoch slots st
   }"

text \<open>The debug-only net under the push index: every wired connection that is no candidate must reject
  the changed rows.\<close>

definition rejects :: "connection \<Rightarrow> source_change \<Rightarrow> bool" where
  "rejects conn change = (case filters conn of
       None \<Rightarrow> False
     | Some f \<Rightarrow> (case change of
           AddRow r \<Rightarrow> \<not> predicate f r
         | RemoveRow r \<Rightarrow> \<not> predicate f r
         | EditRow r old \<Rightarrow> \<not> predicate f r \<and> \<not> predicate f old))"

definition debug_assert_index_sound :: "bool \<Rightarrow> connection list \<Rightarrow> slot list \<Rightarrow> source_change \<Rightarrow> unit option" where
  "debug_assert_index_sound debug cs candidates change =
     (if debug \<and> \<not> list_all (\<lambda>i. conn_output (cs ! i) = None \<or> of_nat i \<in> set candidates \<or> rejects (cs ! i) change) [0..<length cs]
      then None else Some ())"

definition debug_check :: "bool \<Rightarrow> bool option \<Rightarrow> unit option" where
  "debug_check debug c = (if debug then do { b \<leftarrow> c; if b then Some () else None } else Some ())"

definition gen_push ::
  "'s push_env \<Rightarrow> ('s \<Rightarrow> row \<Rightarrow> bool option) \<Rightarrow> bool \<Rightarrow> source_change \<Rightarrow> 32 word \<Rightarrow> 's \<Rightarrow> 's option" where
  "gen_push env exists debug change epoch st = do {
     (case change of
        AddRow r \<Rightarrow> debug_check debug (map_option Not (exists st r))
      | RemoveRow r \<Rightarrow> debug_check debug (exists st r)
      | EditRow r old \<Rightarrow> debug_check debug (exists st old));
     candidates \<leftarrow> table_candidates (env_table env st) change;
     debug_assert_index_sound debug (conns (env_table env st)) candidates change;
     st1 \<leftarrow> fan_out env change epoch candidates st;
     Some (env_set_overlay env None st1)
   }"

definition gen_push_and_write ::
  "'s push_env \<Rightarrow> ('s \<Rightarrow> row \<Rightarrow> bool option) \<Rightarrow> (source_change \<Rightarrow> 's \<Rightarrow> 's option) \<Rightarrow> bool \<Rightarrow> source_change \<Rightarrow> 32 word \<Rightarrow> 's \<Rightarrow>
   's option" where
  "gen_push_and_write env exists commit debug change epoch st = do {
     st1 \<leftarrow> gen_push env exists debug change epoch st;
     commit change st1
   }"

section \<open>Splitting edits\<close>

fun any_key_differs :: "row \<Rightarrow> row \<Rightarrow> col_id list \<Rightarrow> bool option" where
  "any_key_differs r old [] = Some False"
| "any_key_differs r old (k # ks) = do {
     x \<leftarrow> row_col r k;
     y \<leftarrow> row_col old k;
     e \<leftarrow> values_equal x y;
     if \<not> e then Some True else any_key_differs r old ks
   }"

definition should_split_edit :: "conn_table \<Rightarrow> row \<Rightarrow> row \<Rightarrow> bool option" where
  "should_split_edit t r old =
     (if has_split_edit_keys t then any_key_differs r old (table_split_edit_keys t) else Some False)"

definition gen_push_and_write_with_split_edit ::
  "'s push_env \<Rightarrow> ('s \<Rightarrow> row \<Rightarrow> bool option) \<Rightarrow> (source_change \<Rightarrow> 's \<Rightarrow> 's option) \<Rightarrow> bool \<Rightarrow> source_change \<Rightarrow> 's \<Rightarrow> 's option" where
  "gen_push_and_write_with_split_edit env exists commit debug change st = do {
     split \<leftarrow> (case change of EditRow r old \<Rightarrow> should_split_edit (env_table env st) r old | _ \<Rightarrow> Some False);
     (case change of
        EditRow r old \<Rightarrow>
          if split then do {
            (e1, st1) \<leftarrow> env_next_epoch env st;
            st2 \<leftarrow> gen_push_and_write env exists commit debug (RemoveRow old) e1 st1;
            (e2, st3) \<leftarrow> env_next_epoch env st2;
            gen_push_and_write env exists commit debug (AddRow r) e2 st3
          }
          else do {
            (e1, st1) \<leftarrow> env_next_epoch env st;
            gen_push_and_write env exists commit debug change e1 st1
          }
      | _ \<Rightarrow> do {
            (e1, st1) \<leftarrow> env_next_epoch env st;
            gen_push_and_write env exists commit debug change e1 st1
          })
   }"

section \<open>The fallible siblings\<close>

definition consistency_check :: "bool \<Rightarrow> bool \<Rightarrow> bool \<Rightarrow> string \<Rightarrow> unit fallible" where
  "consistency_check debug strict ok kind =
     (if ok then Some (Inr ())
      else if strict then Some (Inl (ConsistencyViolation kind))
      else if debug then None
      else Some (Inr ()))"

definition assert_change_existence_checked ::
  "bool \<Rightarrow> bool \<Rightarrow> source_change \<Rightarrow> (row \<Rightarrow> bool fallible) \<Rightarrow> unit fallible" where
  "assert_change_existence_checked debug strict change exists = (case change of
       AddRow r \<Rightarrow> try_bind (exists r) (\<lambda>b. consistency_check debug strict (\<not> b) ''ADD row already exists'')
     | RemoveRow r \<Rightarrow> try_bind (exists r) (\<lambda>b. consistency_check debug strict b ''REMOVE row not found'')
     | EditRow r old \<Rightarrow> try_bind (exists old) (\<lambda>b. consistency_check debug strict b ''EDIT old row not found''))"

text \<open>A fallible step on the state keeps the effects it had before it failed.\<close>

type_synonym 's outcome = "('s \<times> rindle_error option) option"

definition and_then :: "'s outcome \<Rightarrow> ('s \<Rightarrow> 's outcome) \<Rightarrow> 's outcome" where
  "and_then m f = (case m of None \<Rightarrow> None | Some (st, Some e) \<Rightarrow> Some (st, Some e) | Some (st, None) \<Rightarrow> f st)"

lemma and_then_simps [simp]:
  "and_then None f = None" "and_then (Some (st, Some e)) f = Some (st, Some e)" "and_then (Some (st, None)) f = f st"
  by (simp_all add: and_then_def)

definition try_gen_push ::
  "'s push_env \<Rightarrow> ('s \<Rightarrow> row \<Rightarrow> bool fallible) \<Rightarrow> bool \<Rightarrow> bool \<Rightarrow> source_change \<Rightarrow> 32 word \<Rightarrow> 's \<Rightarrow> 's outcome" where
  "try_gen_push env exists debug strict change epoch st =
     (case assert_change_existence_checked debug strict change (exists st) of
        None \<Rightarrow> None
      | Some (Inl e) \<Rightarrow> Some (st, Some e)
      | Some (Inr _) \<Rightarrow> do {
          candidates \<leftarrow> table_candidates (env_table env st) change;
          debug_assert_index_sound debug (conns (env_table env st)) candidates change;
          st1 \<leftarrow> fan_out env change epoch candidates st;
          Some (env_set_overlay env None st1, None)
        })"

definition try_gen_push_and_write ::
  "'s push_env \<Rightarrow> ('s \<Rightarrow> row \<Rightarrow> bool fallible) \<Rightarrow> (source_change \<Rightarrow> 's \<Rightarrow> 's outcome) \<Rightarrow> bool \<Rightarrow> bool \<Rightarrow> source_change \<Rightarrow>
   32 word \<Rightarrow> 's \<Rightarrow> 's outcome" where
  "try_gen_push_and_write env exists commit debug strict change epoch st =
     and_then (try_gen_push env exists debug strict change epoch st) (commit change)"

definition try_gen_push_and_write_with_split_edit ::
  "'s push_env \<Rightarrow> ('s \<Rightarrow> row \<Rightarrow> bool fallible) \<Rightarrow> (source_change \<Rightarrow> 's \<Rightarrow> 's outcome) \<Rightarrow> bool \<Rightarrow> bool \<Rightarrow> source_change \<Rightarrow>
   's \<Rightarrow> 's outcome" where
  "try_gen_push_and_write_with_split_edit env exists commit debug strict change st = do {
     split \<leftarrow> (case change of EditRow r old \<Rightarrow> should_split_edit (env_table env st) r old | _ \<Rightarrow> Some False);
     (case change of
        EditRow r old \<Rightarrow>
          if split then do {
            (e1, st1) \<leftarrow> env_next_epoch env st;
            and_then (try_gen_push_and_write env exists commit debug strict (RemoveRow old) e1 st1) (\<lambda>st2. do {
              (e2, st3) \<leftarrow> env_next_epoch env st2;
              try_gen_push_and_write env exists commit debug strict (AddRow r) e2 st3
            })
          }
          else do {
            (e1, st1) \<leftarrow> env_next_epoch env st;
            try_gen_push_and_write env exists commit debug strict change e1 st1
          }
      | _ \<Rightarrow> do {
            (e1, st1) \<leftarrow> env_next_epoch env st;
            try_gen_push_and_write env exists commit debug strict change e1 st1
          })
   }"

section \<open>Which connections a change reaches\<close>

definition delivery :: "conn_table \<Rightarrow> source_change \<Rightarrow> slot \<Rightarrow> (slot \<times> source_change) option" where
  "delivery t change s =
     (let conn = conns t ! unat s
      in if conn_output conn \<noteq> None
         then map_option (Pair s) (filter_push change (map_option predicate (filters conn)))
         else None)"

definition deliveries :: "conn_table \<Rightarrow> source_change \<Rightarrow> slot list \<Rightarrow> (slot \<times> source_change) list" where
  "deliveries t change ss = List.map_filter (delivery t change) ss"

definition all_slots :: "conn_table \<Rightarrow> slot list" where
  "all_slots t = map of_nat [0..<length (conns t)]"

text \<open>The contract of a guard: a row the predicate accepts has a guarded value in the guard column.\<close>

definition guard_sound :: "connection \<Rightarrow> row \<Rightarrow> bool" where
  "guard_sound conn r \<longleftrightarrow> (\<forall>f g. filters conn = Some f \<longrightarrow> filter_guard f = Some g \<longrightarrow> predicate f r \<longrightarrow>
     guard_col g < length r \<and> list_ex (\<lambda>w. compare_predicate_values w (r ! guard_col g) = Equal) (guard_values g))"

lemma filter_push_None_iff:
  "filter_push change (Some p) = None \<longleftrightarrow> (\<forall>r\<in>set (change_rows change). \<not> p r)"
  by (cases change) auto

lemma guard_rejects:
  assumes "\<forall>r\<in>set (change_rows change). guard_sound conn r" "\<not> guard_admits (conn_guard conn) change"
  shows "filter_push change (map_option predicate (filters conn)) = None" "rejects conn change"
proof -
  obtain g where g: "conn_guard conn = Some g"
    "\<forall>r\<in>set (change_rows change). \<not> list_ex (\<lambda>w. compare_predicate_values w (r ! guard_col g) = Equal) (guard_values g)"
    using assms(2) by (cases "conn_guard conn") (auto simp: guard_admits_def list_ex_iff)
  then obtain f where f: "filters conn = Some f" "filter_guard f = Some g"
    by (cases "filters conn") (auto simp: conn_guard_def)
  have "\<not> predicate f r" if "r \<in> set (change_rows change)" for r
    using that assms(1) g(2) f by (auto simp: guard_sound_def)
  then show "filter_push change (map_option predicate (filters conn)) = None" "rejects conn change"
    using f(1) filter_push_None_iff [of change "predicate f"] by (auto simp: rejects_def split: source_change.split)
qed

lemma map_filter_filter:
  "(\<And>x. x \<in> set xs \<Longrightarrow> \<not> P x \<Longrightarrow> f x = None) \<Longrightarrow> List.map_filter f (filter P xs) = List.map_filter f xs"
  by (induction xs) (auto simp: List.map_filter_simps split: option.split)

lemma of_nat_slot_mono: "i < 2 ^ 32 \<Longrightarrow> j < 2 ^ 32 \<Longrightarrow> (of_nat i :: slot) < of_nat j \<longleftrightarrow> i < j"
  by (simp add: word_less_nat_alt unat_of_nat_slot)

lemma all_slots_sorted: "length (conns t) < 2 ^ 32 \<Longrightarrow> sorted (all_slots t) \<and> distinct (all_slots t)"
  by (auto simp: all_slots_def sorted_map distinct_map inj_on_def of_nat_slot_inject
      word_le_nat_alt unat_of_nat_slot sorted_wrt_iff_nth_less)

lemma candidates_filter:
  assumes "length (conns t) < 2 ^ 32" "sorted xs" "distinct xs" "set xs \<subseteq> set (all_slots t)"
  shows "filter (\<lambda>s. s \<in> set xs) (all_slots t) = xs"
  by (rule sorted_distinct_set_unique)
    (use all_slots_sorted [OF assms(1)] assms in \<open>auto intro: sorted_wrt_filter\<close>)

lemma deliveries_pruned:
  assumes "table_ok t" "\<forall>i\<in>set (live_slots t). \<forall>g. conn_guard (conns t ! i) = Some g \<longrightarrow>
      (\<forall>r\<in>set (change_rows change). guard_col g < length r)"
    and sound: "\<forall>i\<in>set (live_slots t). \<forall>r\<in>set (change_rows change). guard_sound (conns t ! i) r"
  shows "\<exists>cs. table_candidates t change = Some cs \<and> deliveries t change cs = deliveries t change (all_slots t) \<and>
    debug_assert_index_sound debug (conns t) cs change = Some () \<and> set cs \<subseteq> set (all_slots t) \<and> distinct cs"
proof -
  obtain cs where cs: "table_candidates t change = Some cs" "sorted cs" "distinct cs"
    "set cs = {of_nat i |i. i \<in> set (live_slots t) \<and> guard_admits (conn_guard (conns t ! i)) change}"
    using candidates_exact [OF assms(1,2)] by blast
  have len: "length (conns t) < 2 ^ 32" using assms(1) by (simp add: table_ok_def)
  have sub: "set cs \<subseteq> set (all_slots t)" using cs(4) by (auto simp: all_slots_def live_slots_iff)
  have skip: "(conn_output (conns t ! i) = None) \<or> filter_push change (map_option predicate (filters (conns t ! i))) = None \<and> rejects (conns t ! i) change"
    if "i < length (conns t)" "of_nat i \<notin> set cs" for i
  proof (cases "i \<in> set (live_slots t)")
    case True
    then have "\<not> guard_admits (conn_guard (conns t ! i)) change" using that cs(4) by auto
    then show ?thesis using guard_rejects sound True by blast
  next
    case False
    then have "(of_nat i :: slot) \<in> set (free t)" using that by (simp add: live_slots_iff)
    then show ?thesis using assms(1) len that unat_of_nat_slot [of i] by (auto simp: table_ok_def)
  qed
  have "delivery t change s = None" if s: "s \<in> set (all_slots t)" "s \<notin> set cs" for s
  proof -
    obtain i where i: "i < length (conns t)" "s = of_nat i" using s(1) by (auto simp: all_slots_def)
    then show ?thesis using skip [OF i(1)] s(2) len unat_of_nat_slot [of i] by (auto simp: delivery_def Let_def)
  qed
  then have "deliveries t change (filter (\<lambda>s. s \<in> set cs) (all_slots t)) = deliveries t change (all_slots t)"
    unfolding deliveries_def by (intro map_filter_filter) auto
  moreover have "debug_assert_index_sound debug (conns t) cs change = Some ()"
    using skip by (fastforce simp: debug_assert_index_sound_def list_all_iff)
  ultimately show ?thesis using candidates_filter [OF len cs(2,3) sub] cs(1,3) sub by auto
qed

section \<open>The split trigger\<close>

lemma key_count_pos: "key_count regs k \<noteq> 0 \<longleftrightarrow> (\<exists>(s, g, ks)\<in>set regs. k \<in> set ks)"
  by (induction regs) (auto simp: count_list_0_iff)

lemma split_keys_set:
  assumes "table_ok t"
  shows "set (table_split_edit_keys t) = (\<Union>i\<in>set (live_slots t). set (split_edit_keys (conns t ! i)))"
proof -
  note R = table_ok_rel [OF assms, unfolded index_rel_def]
  have ok: "om_ok cmp_of (split_map (push_idx t))" using R by simp
  have "k \<in> set (table_split_edit_keys t) \<longleftrightarrow> om_get cmp_of k (split_map (push_idx t)) \<noteq> None" for k
  proof -
    have "k \<in> set (table_split_edit_keys t) \<longleftrightarrow> (\<exists>v. (k, v) \<in> set (split_map (push_idx t)))"
      by (force simp: table_split_edit_keys_def split_keys_def)
    then show ?thesis using nat_key.om_get_Some_iff [OF ok, of k] by auto
  qed
  then have "k \<in> set (table_split_edit_keys t) \<longleftrightarrow> key_count (table_regs t) k \<noteq> 0" for k using R by simp
  then show ?thesis unfolding key_count_pos by (auto simp: table_regs_def reg_of_def)
qed

lemma any_key_differs_typed:
  assumes "typed_row ty n r" "typed_row ty n old" "\<forall>k\<in>set ks. k < n"
  shows "any_key_differs r old ks = Some (\<exists>k\<in>set ks. \<not> cells_join (r ! k) (old ! k))"
  using assms(3)
proof (induction ks)
  case (Cons k ks)
  have "k < n" using Cons.prems by simp
  then have "values_equal (r ! k) (old ! k) = Some (cells_join (r ! k) (old ! k))" "k < length r" "k < length old"
    using assms(1,2) values_equal_conforms by (auto simp: typed_row_def)
  then show ?case using Cons by (auto simp: row_col_def)
qed simp

lemma should_split_edit_iff:
  assumes "table_ok t" "typed_row ty n r" "typed_row ty n old"
    and "\<forall>i\<in>set (live_slots t). \<forall>k\<in>set (split_edit_keys (conns t ! i)). k < n"
  shows "should_split_edit t r old =
    Some (\<exists>i\<in>set (live_slots t). \<exists>k\<in>set (split_edit_keys (conns t ! i)). \<not> cells_join (r ! k) (old ! k))"
proof -
  have "\<forall>k\<in>set (table_split_edit_keys t). k < n" using assms(4) split_keys_set [OF assms(1)] by auto
  moreover have "\<not> has_split_edit_keys t \<Longrightarrow> table_split_edit_keys t = []"
    by (simp add: has_split_edit_keys_def has_split_keys_def table_split_edit_keys_def split_keys_def)
  ultimately show ?thesis
    using any_key_differs_typed [OF assms(2,3)] split_keys_set [OF assms(1)]
    by (cases "has_split_edit_keys t") (fastforce simp: should_split_edit_def)+
qed

section \<open>Epoch bumps\<close>

lemma bump_epoch_simps [simp]:
  "length (conns (bump_epoch s e t)) = length (conns t)" "gens (bump_epoch s e t) = gens t"
  "free (bump_epoch s e t) = free t" "push_idx (bump_epoch s e t) = push_idx t"
  "live_slots (bump_epoch s e t) = live_slots t"
  by (simp_all add: bump_epoch_def live_slots_def)

lemma bump_epoch_conn:
  "i < length (conns t) \<Longrightarrow> conns (bump_epoch s e t) ! i =
     (if i = unat s then (conns t ! i) \<lparr> last_pushed_epoch := e \<rparr> else conns t ! i)"
  by (simp add: bump_epoch_def nth_list_update)

lemma bump_epoch_fields:
  assumes "i < length (conns t)"
  shows "conn_output (conns (bump_epoch s e t) ! i) = conn_output (conns t ! i)"
    "filters (conns (bump_epoch s e t) ! i) = filters (conns t ! i)"
    "split_edit_keys (conns (bump_epoch s e t) ! i) = split_edit_keys (conns t ! i)"
    "conn_sort (conns (bump_epoch s e t) ! i) = conn_sort (conns t ! i)"
  using assms by (simp_all add: bump_epoch_conn)

lemma bump_epoch_table_ok: "table_ok t \<Longrightarrow> table_ok (bump_epoch s e t)"
proof -
  assume ok: "table_ok t"
  have "table_regs (bump_epoch s e t) = table_regs t"
    by (auto simp: table_regs_def reg_of_def conn_guard_def bump_epoch_fields live_slots_iff)
  then show ?thesis using ok by (auto simp: table_ok_def bump_epoch_fields)
qed

definition bump_wired :: "32 word \<Rightarrow> slot list \<Rightarrow> conn_table \<Rightarrow> conn_table" where
  "bump_wired e ss t = fold (\<lambda>s t. if conn_output (conns t ! unat s) \<noteq> None then bump_epoch s e t else t) ss t"

lemma delivery_bump:
  "unat s < length (conns t) \<Longrightarrow> delivery (bump_epoch s' e t) change s = delivery t change s"
  by (simp add: delivery_def Let_def bump_epoch_fields)

lemma deliveries_bump:
  "\<forall>s\<in>set ss. unat s < length (conns t) \<Longrightarrow> deliveries (bump_epoch s' e t) change ss = deliveries t change ss"
  unfolding deliveries_def by (induction ss) (auto simp: List.map_filter_simps delivery_bump split: option.split)

section \<open>What the orchestration relies on, and what it does\<close>

text \<open>The contract between the orchestration and a backend: the table and the overlay are state of the
  backend, and delivering a change to a connection re-enters the backend only through reads (it keeps the
  registry, the overlay and the committed rows).\<close>

locale push_backend =
  fixes env :: "'s push_env" and inv :: "'s \<Rightarrow> bool" and same :: "'s \<Rightarrow> 's \<Rightarrow> bool" and ovl :: "'s \<Rightarrow> overlay option"
  assumes table_put: "env_table env (env_put_table env t st) = t"
    and table_overlay: "env_table env (env_set_overlay env x st) = env_table env st"
    and ovl_overlay: "ovl (env_set_overlay env x st) = x"
    and ovl_put: "ovl (env_put_table env t st) = ovl st"
    and inv_bump: "inv st \<Longrightarrow> inv (env_put_table env (bump_epoch s e (env_table env st)) st)"
    and inv_overlay: "inv st \<Longrightarrow> inv (env_set_overlay env x st)"
    and same_refl: "same st st"
    and same_trans: "same st st1 \<Longrightarrow> same st1 st2 \<Longrightarrow> same st st2"
    and same_put: "same st (env_put_table env t st)"
    and same_overlay: "same st (env_set_overlay env x st)"
    and push_one: "inv st \<Longrightarrow> \<exists>st'. env_push_one env slot conn sc st = Some st' \<and> inv st' \<and>
      env_table env st' = env_table env st \<and> ovl st' = ovl st \<and> same st st'"
begin

lemma fan_out_ok:
  "inv st \<Longrightarrow> \<forall>s\<in>set slots. unat s < length (conns (env_table env st)) \<Longrightarrow>
   \<exists>st'. fan_out env change epoch slots st = Some st' \<and> inv st' \<and> same st st' \<and>
     env_table env st' = bump_wired epoch slots (env_table env st)"
proof (induction slots arbitrary: st)
  case Nil
  then show ?case by (simp add: same_refl bump_wired_def)
next
  case (Cons s slots)
  let ?t = "env_table env st"
  define conn where "conn = conns ?t ! unat s"
  have get: "vec_get (conns ?t) (unat s) = Some conn" using Cons.prems by (simp add: conn_def)
  show ?case
  proof (cases "conn_output conn = None")
    case True
    then show ?thesis using Cons.IH [of st] Cons.prems get by (simp add: bump_wired_def conn_def [symmetric])
  next
    case False
    define st2 where "st2 = env_set_overlay env (Some \<lparr> ov_epoch = epoch, ov_change = change \<rparr>)
        (env_put_table env (bump_epoch s epoch ?t) st)"
    have i2: "inv st2" "same st st2" "env_table env st2 = bump_epoch s epoch ?t"
      using Cons.prems(1) inv_bump inv_overlay same_trans [OF same_put same_overlay]
      by (auto simp: st2_def table_overlay table_put)
    obtain st3 where st3: "(case filter_push change (map_option predicate (filters conn)) of
                None \<Rightarrow> Some st2 | Some sc \<Rightarrow> env_push_one env s conn sc st2) = Some st3"
      "inv st3" "same st2 st3" "env_table env st3 = bump_epoch s epoch ?t"
      using push_one [OF i2(1), of s conn] i2 same_refl
      by (cases "filter_push change (map_option predicate (filters conn))") force+
    obtain st' where "fan_out env change epoch slots st3 = Some st'" "inv st'" "same st3 st'"
        "env_table env st' = bump_wired epoch slots (bump_epoch s epoch ?t)"
      using Cons.IH [OF st3(2)] Cons.prems(2) st3(4) by auto
    moreover have "fan_out env change epoch (s # slots) st = fan_out env change epoch slots st3"
      using get False st3(1) unfolding fan_out.simps Let_def st2_def by simp
    moreover have "same st st'" using calculation same_trans i2(2) st3(3) by blast
    ultimately show ?thesis using False by (auto simp: bump_wired_def conn_def)
  qed
qed

lemma gen_push_ok:
  assumes "inv st" "table_ok (env_table env st)"
    and "\<forall>i\<in>set (live_slots (env_table env st)). \<forall>g. conn_guard (conns (env_table env st) ! i) = Some g \<longrightarrow>
      (\<forall>r\<in>set (change_rows change). guard_col g < length r)"
    and "\<forall>i\<in>set (live_slots (env_table env st)). \<forall>r\<in>set (change_rows change). guard_sound (conns (env_table env st) ! i) r"
    and ex: "(case change of AddRow r \<Rightarrow> exists st r = Some False | RemoveRow r \<Rightarrow> exists st r = Some True
      | EditRow r old \<Rightarrow> exists st old = Some True)"
  shows "\<exists>st'. gen_push env exists debug change epoch st = Some st' \<and> inv st' \<and> same st st' \<and> ovl st' = None \<and>
    (\<exists>cs. table_candidates (env_table env st) change = Some cs \<and> set cs \<subseteq> set (all_slots (env_table env st)) \<and>
      env_table env st' = bump_wired epoch cs (env_table env st))"
proof -
  obtain cs where cs: "table_candidates (env_table env st) change = Some cs" "set cs \<subseteq> set (all_slots (env_table env st))"
    "debug_assert_index_sound debug (conns (env_table env st)) cs change = Some ()"
    using deliveries_pruned [OF assms(2-4)] by blast
  have len: "length (conns (env_table env st)) < 2 ^ 32" using assms(2) by (simp add: table_ok_def)
  have "\<forall>s\<in>set cs. unat s < length (conns (env_table env st))"
  proof
    fix s assume "s \<in> set cs"
    then obtain i where "i < length (conns (env_table env st))" "s = of_nat i" using cs(2) by (auto simp: all_slots_def)
    then show "unat s < length (conns (env_table env st))" using len unat_of_nat_slot [of i] by simp
  qed
  then obtain st' where st': "fan_out env change epoch cs st = Some st'" "inv st'" "same st st'"
      "env_table env st' = bump_wired epoch cs (env_table env st)"
    using fan_out_ok [OF assms(1)] by blast
  have "gen_push env exists debug change epoch st = Some (env_set_overlay env None st')"
    using cs st'(1) ex by (cases change) (simp_all add: gen_push_def debug_check_def)
  then show ?thesis using st' cs inv_overlay same_trans [OF st'(3) same_overlay]
    by (auto simp: ovl_overlay table_overlay)
qed

end

text \<open>A backend that records what each delivery could see.\<close>

locale push_logger = push_backend env inv same ovl for env :: "'s push_env" and inv same ovl +
  fixes log :: "'s \<Rightarrow> (slot \<times> source_change \<times> overlay option) list"
  assumes log_put: "log (env_put_table env t st) = log st"
    and log_overlay: "log (env_set_overlay env x st) = log st"
    and log_push_one: "env_push_one env slot conn sc st = Some st' \<Longrightarrow> log st' = log st @ [(slot, sc, ovl st)]"
begin

lemma fan_out_log:
  "inv st \<Longrightarrow> \<forall>s\<in>set slots. unat s < length (conns (env_table env st)) \<Longrightarrow> fan_out env change epoch slots st = Some st' \<Longrightarrow>
   log st' = log st @ map (\<lambda>(s, sc). (s, sc, Some \<lparr> ov_epoch = epoch, ov_change = change \<rparr>))
     (deliveries (env_table env st) change slots)"
proof (induction slots arbitrary: st)
  case Nil
  then show ?case by (simp add: deliveries_def List.map_filter_simps)
next
  case (Cons s slots)
  let ?t = "env_table env st"
  define conn where "conn = conns ?t ! unat s"
  have get: "vec_get (conns ?t) (unat s) = Some conn" using Cons.prems by (simp add: conn_def)
  show ?case
  proof (cases "conn_output conn = None")
    case True
    then have "delivery ?t change s = None" by (simp add: delivery_def conn_def Let_def)
    then show ?thesis using Cons.IH [of st] Cons.prems get True by (simp add: deliveries_def List.map_filter_simps)
  next
    case False
    define st2 where "st2 = env_set_overlay env (Some \<lparr> ov_epoch = epoch, ov_change = change \<rparr>)
        (env_put_table env (bump_epoch s epoch ?t) st)"
    have i2: "inv st2" "env_table env st2 = bump_epoch s epoch ?t" "log st2 = log st"
        "ovl st2 = Some \<lparr> ov_epoch = epoch, ov_change = change \<rparr>"
      using Cons.prems(1) inv_bump inv_overlay
      by (auto simp: st2_def table_overlay table_put log_put log_overlay ovl_overlay)
    obtain st3 where st3: "(case filter_push change (map_option predicate (filters conn)) of
                None \<Rightarrow> Some st2 | Some sc \<Rightarrow> env_push_one env s conn sc st2) = Some st3"
      "fan_out env change epoch slots st3 = Some st'"
      using Cons.prems(3) get False unfolding st2_def by (auto simp: Let_def split: Option.bind_splits)
    have "inv st3 \<and> env_table env st3 = bump_epoch s epoch ?t"
    proof (cases "filter_push change (map_option predicate (filters conn))")
      case None
      then show ?thesis using st3(1) i2(1,2) by simp
    next
      case (Some sc)
      then show ?thesis using st3(1) push_one [OF i2(1), of s conn sc] i2(2) by auto
    qed
    then have st3': "inv st3" "env_table env st3 = bump_epoch s epoch ?t" by simp_all
    have "deliveries ?t change (s # slots) = (case delivery ?t change s of None \<Rightarrow> [] | Some d \<Rightarrow> [d]) @ deliveries ?t change slots"
      by (simp add: deliveries_def List.map_filter_simps split: option.split)
    moreover have "log st3 = log st @ map (\<lambda>(s, sc). (s, sc, Some \<lparr> ov_epoch = epoch, ov_change = change \<rparr>))
        (case delivery ?t change s of None \<Rightarrow> [] | Some d \<Rightarrow> [d])"
      using st3(1) False i2(3,4) log_push_one [of s conn _ st2 st3]
      by (cases "filter_push change (map_option predicate (filters conn))") (auto simp: delivery_def conn_def [symmetric] Let_def)
    moreover have "log st' = log st3 @ map (\<lambda>(s, sc). (s, sc, Some \<lparr> ov_epoch = epoch, ov_change = change \<rparr>))
        (deliveries ?t change slots)"
      using Cons.IH [OF st3'(1) _ st3(2)] Cons.prems(2) st3'(2) by (simp add: deliveries_bump)
    ultimately show ?thesis by simp
  qed
qed

end

section \<open>Properties of the orchestration\<close>

fun change_set :: "source_change \<Rightarrow> row set \<Rightarrow> row set" where
  "change_set (AddRow r) R = insert r R"
| "change_set (RemoveRow r) R = R - {r}"
| "change_set (EditRow r old) R = insert r (R - {old})"

text \<open>What a connection receives keeps its filtered view exact: applying the filtered (possibly transformed
  or dropped) change to the rows that pass the predicate gives the rows that pass it after the original change.\<close>

theorem filter_push_tracks_view:
  "{x \<in> change_set change R. p x} =
     (case filter_push change (Some p) of
        None \<Rightarrow> {x \<in> R. p x}
      | Some sc \<Rightarrow> change_set sc {x \<in> R. p x})"
  by (cases change) auto

text \<open>(C30) In every reachable registry whose guards over-approximate their predicates, the fan-out over the
  index-pruned candidates delivers the same changes to the same connections in the same order as a scan over all
  slots, and the debug check of the index never fires.\<close>

theorem pruned_fan_out_equiv:
  assumes "conn_reach t hs"
    and "\<forall>i\<in>set (live_slots t). \<forall>g. conn_guard (conns t ! i) = Some g \<longrightarrow>
      (\<forall>r\<in>set (change_rows change). guard_col g < length r)"
    and "\<forall>i\<in>set (live_slots t). \<forall>r\<in>set (change_rows change). guard_sound (conns t ! i) r"
  shows "\<exists>cs. table_candidates t change = Some cs \<and> deliveries t change cs = deliveries t change (all_slots t) \<and>
    debug_assert_index_sound True (conns t) cs change = Some ()"
proof -
  have "table_ok t" using conn_reach_handles [OF assms(1)] by (simp add: handles_ok_def)
  from deliveries_pruned [OF this assms(2,3), of True] show ?thesis by blast
qed

lemma sample_live: "live_slots sample_table = [0]" "conns sample_table = [sample_conn [IntV 7]]"
  by (simp_all add: sample_table_def connect_def conn_table_new_def Let_def live_slots_def)

theorem pruned_fan_out_equiv_witness:
  "\<exists>cs. table_candidates sample_table (AddRow [IntV 7, Null]) = Some cs \<and>
    deliveries sample_table (AddRow [IntV 7, Null]) cs = deliveries sample_table (AddRow [IntV 7, Null]) (all_slots sample_table) \<and>
    debug_assert_index_sound True (conns sample_table) cs (AddRow [IntV 7, Null]) = Some ()"
  by (rule pruned_fan_out_equiv [OF sample_reach])
    (simp_all add: sample_live sample_conn_def conn_guard_def guard_sound_def cmp_of_def)

text \<open>An edit is split into a remove and an add exactly when some live connection lists a split-edit key whose
  cell the edit changes under the join comparator (two nulls count as different): the reference-counted union of
  keys is equivalent to scanning every connection's list.\<close>

theorem should_split_edit_exact:
  assumes "conn_reach t hs" "typed_row ty n r" "typed_row ty n old"
    and "\<forall>i\<in>set (live_slots t). \<forall>k\<in>set (split_edit_keys (conns t ! i)). k < n"
  shows "should_split_edit t r old =
    Some (\<exists>i\<in>set (live_slots t). \<exists>k\<in>set (split_edit_keys (conns t ! i)). \<not> cells_join (r ! k) (old ! k))"
  using should_split_edit_iff [OF _ assms(2-4)] conn_reach_handles [OF assms(1)] by (simp add: handles_ok_def)

theorem should_split_edit_exact_witness:
  "should_split_edit sample_table [IntV 7, Null] [IntV 7, Null] = Some True"
  using should_split_edit_exact [OF sample_reach, of "\<lambda>_. KNum" 2 "[IntV 7, Null]" "[IntV 7, Null]"]
  by (auto simp: sample_live sample_conn_def typed_row_def less_2_cases_iff cells_join_def numeral_2_eq_2 less_Suc_eq)

definition infallible :: "'s option \<Rightarrow> 's outcome" where
  "infallible m = map_option (\<lambda>st. (st, None)) m"

lemma infallible_simps [simp]: "infallible None = None" "infallible (Some st) = Some (st, None)"
  by (simp_all add: infallible_def)

lemma infallible_bind: "infallible (Option.bind m f) = Option.bind m (\<lambda>x. infallible (f x))"
  by (cases m) simp_all

lemma and_then_infallible: "and_then (infallible m) f = Option.bind m f"
  by (cases m) simp_all

fun checked_row :: "source_change \<Rightarrow> row" where
  "checked_row (AddRow r) = r"
| "checked_row (RemoveRow r) = r"
| "checked_row (EditRow r old) = old"

definition existence_ok :: "source_change \<Rightarrow> bool \<Rightarrow> bool" where
  "existence_ok change b = (case change of AddRow _ \<Rightarrow> \<not> b | _ \<Rightarrow> b)"

lemma checked_nonstrict:
  assumes "exists (checked_row change) = Some (Inr b)"
  shows "assert_change_existence_checked debug False change exists =
    (if debug \<and> \<not> existence_ok change b then None else Some (Inr ()))"
  using assms by (cases change) (auto simp: assert_change_existence_checked_def consistency_check_def existence_ok_def)

lemma gen_push_checked:
  assumes "exists st (checked_row change) = Some b"
  shows "gen_push env exists debug change epoch st = (if debug \<and> \<not> existence_ok change b then None else do {
     candidates \<leftarrow> table_candidates (env_table env st) change;
     debug_assert_index_sound debug (conns (env_table env st)) candidates change;
     st1 \<leftarrow> fan_out env change epoch candidates st;
     Some (env_set_overlay env None st1) })"
  using assms by (cases change) (auto simp: gen_push_def debug_check_def existence_ok_def)

lemma try_gen_push_infallible:
  assumes "\<And>st r. exists st r \<noteq> None"
  shows "try_gen_push env (\<lambda>st r. map_option Inr (exists st r)) debug False change epoch st =
    infallible (gen_push env exists debug change epoch st)"
proof -
  obtain b where b: "exists st (checked_row change) = Some b" using assms by blast
  then have "assert_change_existence_checked debug False change (\<lambda>r. map_option Inr (exists st r)) =
      (if debug \<and> \<not> existence_ok change b then None else Some (Inr ()))"
    by (intro checked_nonstrict) simp
  then show ?thesis unfolding try_gen_push_def gen_push_checked [of exists st change b, OF b] by (simp add: infallible_bind)
qed

text \<open>Without strict validation the fallible orchestration is the infallible one: with callbacks that
  cannot fail it panics, delivers, splits, writes and ends in the same state.\<close>

theorem nonstrict_push_equiv:
  assumes "\<forall>st r. exists st r \<noteq> None"
  shows "try_gen_push_and_write_with_split_edit env (\<lambda>st r. map_option Inr (exists st r)) (\<lambda>c st. infallible (commit c st))
      debug False change st =
    infallible (gen_push_and_write_with_split_edit env exists commit debug change st)"
proof -
  have one: "try_gen_push_and_write env (\<lambda>st r. map_option Inr (exists st r)) (\<lambda>c st. infallible (commit c st)) debug False c e s =
      infallible (gen_push_and_write env exists commit debug c e s)" for c e s
    using try_gen_push_infallible [of exists env debug c e s] assms
    by (simp add: try_gen_push_and_write_def gen_push_and_write_def and_then_infallible infallible_bind)
  show ?thesis
    unfolding try_gen_push_and_write_with_split_edit_def gen_push_and_write_with_split_edit_def
    by (cases change) (auto simp: one infallible_bind and_then_infallible case_prod_unfold intro!: Option.bind_cong)
qed

definition unit_env :: "conn_table push_env" where
  "unit_env = \<lparr> env_table = id, env_put_table = (\<lambda>t _. t), env_set_overlay = (\<lambda>_ t. t), env_next_epoch = (\<lambda>t. Some (1, t)),
     env_push_one = (\<lambda>_ _ _ t. Some t) \<rparr>"

theorem nonstrict_push_equiv_witness:
  "try_gen_push_and_write_with_split_edit unit_env (\<lambda>st r. map_option Inr (Some True)) (\<lambda>c st. infallible (Some st))
      True False (RemoveRow [IntV 7, Null]) sample_table =
    infallible (gen_push_and_write_with_split_edit unit_env (\<lambda>st r. Some True) (\<lambda>c st. Some st) True (RemoveRow [IntV 7, Null]) sample_table)"
  by (rule nonstrict_push_equiv) simp

text \<open>With strict validation a change that fails the existence check is refused before it has any effect on the state.\<close>

lemma strict_write_refused:
  assumes "exists st (checked_row change) = Some (Inr b)" "\<not> existence_ok change b"
  shows "\<exists>kind. try_gen_push_and_write env exists commit debug True change epoch st = Some (st, Some (ConsistencyViolation kind))"
  using assms
  by (cases change) (auto simp: try_gen_push_and_write_def try_gen_push_def assert_change_existence_checked_def
      consistency_check_def existence_ok_def)

end
