(* ===== verification/Memory_Source.thy ===== *)
theory Memory_Source
  imports Row_Index Merge Push
begin

text \<open>
  The in-memory source (\<open>rust/src/memory_source.rs\<close>): one copy-on-write B+tree per sort, the connection
  registry, the overlay of the change in flight and the push epoch.

  The map from sorts to indexes is an association list in insertion order; the code never depends on the
  iteration order of its hash map. A cursor is drained at once, so the count of open cursors rises and
  falls within one fetch.
\<close>

section \<open>State\<close>

record table_schema =
  sch_columns :: "string list"
  sch_primary_key :: "col_id list"
  sch_sort :: sort

record row_index =
  ix_sort :: sort
  ix_data :: "row btree"

record memory_source =
  ms_schema :: table_schema
  ms_primary_key :: "col_id list"
  primary_index_sort :: sort
  ms_indexes :: "(sort \<times> row_index) list"
  ms_conns :: conn_table
  ms_overlay :: "overlay option"
  ms_epoch :: "32 word"
  ms_cursors_open :: int

section \<open>Construction\<close>

fun nat_str :: "nat \<Rightarrow> string" where
  "nat_str n = (if n < 10 then [char_of (48 + n)] else nat_str (n div 10) @ [char_of (48 + n mod 10)])"

declare nat_str.simps [simp del]

definition width_message :: "nat \<Rightarrow> nat \<Rightarrow> nat \<Rightarrow> string" where
  "width_message i got want = ''ingest row '' @ nat_str i @ '' has '' @ nat_str got @
     '' cells but the schema declares '' @ nat_str want @ '' columns''"

fun validate_loop :: "nat \<Rightarrow> nat \<Rightarrow> row list \<Rightarrow> rindle_error + unit" where
  "validate_loop want i [] = Inr ()"
| "validate_loop want i (r # rs) =
     (if length r \<noteq> want then Inl (SchemaViolation (width_message i (length r) want))
      else validate_loop want (Suc i) rs)"

definition validate_rows :: "table_schema \<Rightarrow> row list \<Rightarrow> rindle_error + unit" where
  "validate_rows schema rows = validate_loop (length (sch_columns schema)) 0 rows"

text \<open>The standard library's stable sort, as an insertion sort that compares with a fallible comparator.\<close>

fun insert_by :: "('a \<Rightarrow> 'a \<Rightarrow> ordering option) \<Rightarrow> 'a \<Rightarrow> 'a list \<Rightarrow> 'a list option" where
  "insert_by cmp x [] = Some [x]"
| "insert_by cmp x (y # ys) = do {
     c \<leftarrow> cmp x y;
     if c \<noteq> Greater then Some (x # y # ys) else map_option (Cons y) (insert_by cmp x ys)
   }"

fun sort_by :: "('a \<Rightarrow> 'a \<Rightarrow> ordering option) \<Rightarrow> 'a list \<Rightarrow> 'a list option" where
  "sort_by cmp [] = Some []"
| "sort_by cmp (x # xs) = do { ys \<leftarrow> sort_by cmp xs; insert_by cmp x ys }"

definition try_new :: "table_schema \<Rightarrow> row list \<Rightarrow> memory_source fallible" where
  "try_new schema initial = (case validate_rows schema initial of
       Inl e \<Rightarrow> Some (Inl e)
     | Inr _ \<Rightarrow> do {
         let psort = map (\<lambda>c. (c, True)) (sch_primary_key schema);
         data \<leftarrow> sort_by (compare_rows psort) initial;
         tree \<leftarrow> from_sorted (compare_rows psort) data;
         Some (Inr \<lparr> ms_schema = schema, ms_primary_key = sch_primary_key schema, primary_index_sort = psort,
           ms_indexes = [(psort, \<lparr> ix_sort = psort, ix_data = tree \<rparr>)], ms_conns = conn_table_new, ms_overlay = None,
           ms_epoch = 0, ms_cursors_open = 0 \<rparr>)
       })"

text \<open>The panicking wrapper: an error becomes a panic.\<close>

definition ms_new :: "table_schema \<Rightarrow> row list \<Rightarrow> memory_source option" where
  "ms_new schema initial = (case try_new schema initial of Some (Inr s) \<Rightarrow> Some s | _ \<Rightarrow> None)"

definition primary_index :: "memory_source \<Rightarrow> row_index option" where
  "primary_index s = map_of (ms_indexes s) (primary_index_sort s)"

definition fork :: "memory_source \<Rightarrow> memory_source option" where
  "fork s = do {
     ix \<leftarrow> primary_index s;
     Some \<lparr> ms_schema = ms_schema s, ms_primary_key = ms_primary_key s, primary_index_sort = primary_index_sort s,
       ms_indexes = [(primary_index_sort s, \<lparr> ix_sort = primary_index_sort s, ix_data = btree_fork (ix_data ix) \<rparr>)],
       ms_conns = conn_table_new, ms_overlay = None, ms_epoch = 0, ms_cursors_open = 0 \<rparr>
   }"

definition fork_with_indexes :: "memory_source \<Rightarrow> memory_source" where
  "fork_with_indexes s = \<lparr> ms_schema = ms_schema s, ms_primary_key = ms_primary_key s, primary_index_sort = primary_index_sort s,
     ms_indexes = map (\<lambda>(srt, ix). (srt, \<lparr> ix_sort = ix_sort ix, ix_data = btree_fork (ix_data ix) \<rparr>)) (ms_indexes s),
     ms_conns = conn_table_new, ms_overlay = None, ms_epoch = 0, ms_cursors_open = 0 \<rparr>"

definition get_index_keys :: "memory_source \<Rightarrow> sort list" where
  "get_index_keys s = map fst (ms_indexes s)"

definition fork_primary :: "memory_source \<Rightarrow> row btree option" where
  "fork_primary s = do { ix \<leftarrow> primary_index s; Some (btree_fork (ix_data ix)) }"

section \<open>Reads by key\<close>

definition get_by_pk :: "memory_source \<Rightarrow> row \<Rightarrow> row option option" where
  "get_by_pk s probe = do { ix \<leftarrow> primary_index s; btree_get (compare_rows (primary_index_sort s)) (ix_data ix) probe }"

definition row_exists :: "memory_source \<Rightarrow> row \<Rightarrow> bool option" where
  "row_exists s r = do { ix \<leftarrow> primary_index s; btree_has (compare_rows (primary_index_sort s)) (ix_data ix) r }"

fun set_cells :: "(col_id \<times> cell_value) list \<Rightarrow> row \<Rightarrow> row option" where
  "set_cells [] cells = Some cells"
| "set_cells ((col, v) # bs) cells = do { cells' \<leftarrow> vec_set cells col v; set_cells bs cells' }"

definition unique_keys :: "memory_source \<Rightarrow> col_id list list" where
  "unique_keys s = [ms_primary_key s]"

definition lookup_unique :: "memory_source \<Rightarrow> (col_id \<times> cell_value) list \<Rightarrow> row option option" where
  "lookup_unique s bnd = do {
     cells \<leftarrow> set_cells bnd (replicate (length (sch_columns (ms_schema s))) Null);
     get_by_pk s cells
   }"

section \<open>Writes\<close>

definition write_index :: "bool \<Rightarrow> source_change \<Rightarrow> row_index \<Rightarrow> row_index option" where
  "write_index debug change ix = (let cmp = compare_rows (ix_sort ix) in case change of
       AddRow r \<Rightarrow> do {
         (t, ok) \<leftarrow> btree_add cmp (ix_data ix) r;
         debug_check debug (Some ok);
         Some (ix \<lparr> ix_data := t \<rparr>)
       }
     | RemoveRow r \<Rightarrow> do {
         (t, ok) \<leftarrow> btree_delete cmp (ix_data ix) r;
         debug_check debug (Some ok);
         Some (ix \<lparr> ix_data := t \<rparr>)
       }
     | EditRow r old \<Rightarrow> do {
         (t, ok) \<leftarrow> btree_delete cmp (ix_data ix) old;
         debug_check debug (Some ok);
         (t', _) \<leftarrow> btree_add cmp t r;
         Some (ix \<lparr> ix_data := t' \<rparr>)
       })"

fun update_indexes :: "(row_index \<Rightarrow> row_index option) \<Rightarrow> (sort \<times> row_index) list \<Rightarrow> (sort \<times> row_index) list option" where
  "update_indexes f [] = Some []"
| "update_indexes f ((srt, ix) # ixs) = do {
     ix' \<leftarrow> f ix;
     ixs' \<leftarrow> update_indexes f ixs;
     Some ((srt, ix') # ixs')
   }"

definition write_change :: "bool \<Rightarrow> source_change \<Rightarrow> memory_source \<Rightarrow> memory_source option" where
  "write_change debug change s = do {
     ixs \<leftarrow> update_indexes (write_index debug change) (ms_indexes s);
     Some (s \<lparr> ms_indexes := ixs \<rparr>)
   }"

definition apply_index :: "source_change \<Rightarrow> row_index \<Rightarrow> row_index option" where
  "apply_index change ix = (let cmp = compare_rows (ix_sort ix) in case change of
       AddRow r \<Rightarrow> do { (t, _) \<leftarrow> btree_add cmp (ix_data ix) r; Some (ix \<lparr> ix_data := t \<rparr>) }
     | RemoveRow r \<Rightarrow> do { (t, _) \<leftarrow> btree_delete cmp (ix_data ix) r; Some (ix \<lparr> ix_data := t \<rparr>) }
     | EditRow r old \<Rightarrow> do {
         (t, _) \<leftarrow> btree_delete cmp (ix_data ix) old;
         (t', _) \<leftarrow> btree_add cmp t r;
         Some (ix \<lparr> ix_data := t' \<rparr>)
       })"

definition apply_change :: "source_change \<Rightarrow> memory_source \<Rightarrow> memory_source option" where
  "apply_change change s = do {
     ixs \<leftarrow> update_indexes (apply_index change) (ms_indexes s);
     Some (s \<lparr> ms_indexes := ixs \<rparr>)
   }"

section \<open>Lazy indexes\<close>

definition ensure_index :: "sort \<Rightarrow> memory_source \<Rightarrow> memory_source option" where
  "ensure_index index_sort s =
     (if map_of (ms_indexes s) index_sort \<noteq> None then Some s
      else do {
        primary \<leftarrow> primary_index s;
        cur \<leftarrow> values_from (ix_data primary) None True;
        rows \<leftarrow> drain (Suc (btree_len (ix_data primary))) cur;
        rows' \<leftarrow> sort_by (compare_rows index_sort) rows;
        t \<leftarrow> from_sorted (compare_rows index_sort) rows';
        Some (s \<lparr> ms_indexes := (index_sort, \<lparr> ix_sort = index_sort, ix_data = t \<rparr>) # ms_indexes s \<rparr>)
      })"

section \<open>Connections\<close>

fun assert_ordering_includes_pk :: "sort \<Rightarrow> col_id list \<Rightarrow> unit option" where
  "assert_ordering_includes_pk srt [] = Some ()"
| "assert_ordering_includes_pk srt (p # pk) =
     (if list_ex (\<lambda>(c, _). c = p) srt then assert_ordering_includes_pk srt pk else None)"

definition source_connect ::
  "sort option \<Rightarrow> connection_filters option \<Rightarrow> col_id list \<Rightarrow> memory_source \<Rightarrow> (memory_source \<times> conn_id) option" where
  "source_connect srt flt edit_keys s = do {
     let unord = (srt = None);
     let internal_sort = (case srt of None \<Rightarrow> primary_index_sort s | Some x \<Rightarrow> x);
     (if \<not> unord then assert_ordering_includes_pk internal_sort (ms_primary_key s) else Some ());
     (t, cid) \<leftarrow> connect (ms_conns s) \<lparr> conn_sort = internal_sort, unordered = unord, split_edit_keys = edit_keys,
       filters = flt, last_pushed_epoch = 0, conn_output = None \<rparr>;
     Some (s \<lparr> ms_conns := t \<rparr>, cid)
   }"

definition source_destroy :: "conn_id \<Rightarrow> memory_source \<Rightarrow> memory_source option" where
  "source_destroy cid s = do { t \<leftarrow> destroy (ms_conns s) cid; Some (s \<lparr> ms_conns := t \<rparr>) }"

definition set_conn_output :: "conn_id \<Rightarrow> out_edge \<Rightarrow> memory_source \<Rightarrow> memory_source option" where
  "set_conn_output cid edge s = do { t \<leftarrow> set_output (ms_conns s) cid edge; Some (s \<lparr> ms_conns := t \<rparr>) }"

definition conn_count :: "memory_source \<Rightarrow> nat" where
  "conn_count s = table_len (ms_conns s)"

definition source_conn_sort :: "memory_source \<Rightarrow> conn_id \<Rightarrow> sort option" where
  "source_conn_sort s cid = table_sort (ms_conns s) cid"

section \<open>Fetch\<close>

definition build_scan_start :: "row_constraint \<Rightarrow> sort \<Rightarrow> bool \<Rightarrow> row_bound" where
  "build_scan_start c index_sort rev' =
     map (\<lambda>(col, asc). case map_of c col of
            Some v \<Rightarrow> (col, BVal v)
          | None \<Rightarrow> (col, if rev' then (if asc then BMax else BMin) else (if asc then BMin else BMax))) index_sort"

definition fetch_index_sort :: "col_id list \<Rightarrow> row_constraint option \<Rightarrow> sort \<Rightarrow> sort" where
  "fetch_index_sort pk constr srt =
     (case constr of None \<Rightarrow> [] | Some c \<Rightarrow> map (\<lambda>(col, _). (col, True)) c) @
     (if length pk > 1 \<or> constr = None \<or> \<not> constraint_matches_primary_key (the constr) pk then srt else [])"

definition cursor_guard_new :: "memory_source \<Rightarrow> memory_source" where
  "cursor_guard_new s = s \<lparr> ms_cursors_open := ms_cursors_open s + 1 \<rparr>"

definition cursor_guard_drop :: "memory_source \<Rightarrow> memory_source" where
  "cursor_guard_drop s = s \<lparr> ms_cursors_open := ms_cursors_open s - 1 \<rparr>"

definition fetch_one :: "conn_id \<Rightarrow> fetch_request \<Rightarrow> memory_source \<Rightarrow> (row list \<times> memory_source) option" where
  "fetch_one cid req s = do {
     i \<leftarrow> live_ix (ms_conns s) cid;
     conn \<leftarrow> vec_get (conns (ms_conns s)) i;
     let srt = conn_sort conn;
     let pred = map_option predicate (filters conn);
     let pkc = Option.bind (filters conn) pk_constraint;
     let last_epoch = last_pushed_epoch conn;
     let fetch_or_pk = (case pkc of Some c \<Rightarrow> Some c | None \<Rightarrow> req_constraint req);
     let index_sort = fetch_index_sort (ms_primary_key s) fetch_or_pk srt;
     s1 \<leftarrow> ensure_index index_sort s;
     scan_start \<leftarrow> (case fetch_or_pk of
         Some c \<Rightarrow> Some (Some (build_scan_start c index_sort (req_reverse req)))
       | None \<Rightarrow> (case req_start req of
           None \<Rightarrow> Some None
         | Some st \<Rightarrow> map_option Some (row_bound_of (start_row st) index_sort)));
     index \<leftarrow> map_of (ms_indexes s1) index_sort;
     let bnd = map_option (cmp_bound_row index_sort) scan_start;
     cursor \<leftarrow> (if req_reverse req then values_from_reversed (ix_data index) bnd True
                else values_from (ix_data index) bnd True);
     let s2 = cursor_guard_new s1;
     scanned \<leftarrow> drain (Suc (btree_len (ix_data index))) cursor;
     rows1 \<leftarrow> generate_with_overlay (map_option start_row (req_start req)) scanned (req_constraint req) (ms_overlay s2)
       last_epoch index_sort (req_reverse req) pred [];
     rows2 \<leftarrow> generate_with_start rows1 (req_start req) srt (req_reverse req);
     rows3 \<leftarrow> generate_with_constraint rows2 (req_constraint req);
     let rows4 = (case pred of None \<Rightarrow> rows3 | Some p \<Rightarrow> generate_with_filter rows3 p);
     Some (rows4, cursor_guard_drop s2)
   }"

fun fetch_subs :: "conn_id \<Rightarrow> fetch_request \<Rightarrow> row_constraint list \<Rightarrow> memory_source \<Rightarrow> (row list list \<times> memory_source) option" where
  "fetch_subs cid req [] s = Some ([], s)"
| "fetch_subs cid req (c # cs) s = do {
     let merged = merge_constraints (req_constraint req) c;
     (rows, s1) \<leftarrow> fetch_one cid \<lparr> req_constraint = Some merged, multi_constraints = [], req_start = req_start req,
       req_reverse = req_reverse req \<rparr> s;
     (rest, s2) \<leftarrow> fetch_subs cid req cs s1;
     Some (rows # rest, s2)
   }"

fun all_match :: "row \<Rightarrow> multi_constraint list \<Rightarrow> bool option" where
  "all_match r [] = Some True"
| "all_match r (mc # mcs) = do { b \<leftarrow> any_matches r mc; if b then all_match r mcs else Some False }"

fun filter_opt :: "('a \<Rightarrow> bool option) \<Rightarrow> 'a list \<Rightarrow> 'a list option" where
  "filter_opt p [] = Some []"
| "filter_opt p (x # xs) = do { b \<leftarrow> p x; ys \<leftarrow> filter_opt p xs; Some (if b then x # ys else ys) }"

definition fetch_multi :: "conn_id \<Rightarrow> fetch_request \<Rightarrow> memory_source \<Rightarrow> (row list \<times> memory_source) option" where
  "fetch_multi cid req s = (case filter (\<lambda>mc. mc \<noteq> []) (multi_constraints req) of
       [] \<Rightarrow> None
     | primary # rest \<Rightarrow> do {
         (subs, s1) \<leftarrow> fetch_subs cid req primary s;
         srt \<leftarrow> table_sort (ms_conns s1) cid;
         merged \<leftarrow> merge_sorted_streams subs srt (req_reverse req);
         rows \<leftarrow> (if rest = [] then Some merged else filter_opt (\<lambda>r. all_match r rest) merged);
         Some (rows, s1)
       })"

definition fetch :: "conn_id \<Rightarrow> fetch_request \<Rightarrow> memory_source \<Rightarrow> (row list \<times> memory_source) option" where
  "fetch cid req s = (if has_multi req then fetch_multi cid req s else fetch_one cid req s)"

section \<open>Push\<close>

text \<open>The increment of the epoch is checked in debug builds and wraps in release builds.\<close>

definition next_epoch :: "bool \<Rightarrow> memory_source \<Rightarrow> (32 word \<times> memory_source) option" where
  "next_epoch debug s =
     (if debug \<and> ms_epoch s = - 1 then None
      else let e = ms_epoch s + 1 in Some (e, s \<lparr> ms_epoch := e \<rparr>))"

text \<open>The source together with the state \<open>'w\<close> of what lies downstream, which the delivery callback may change.\<close>

type_synonym 'w deliver = "slot \<Rightarrow> connection \<Rightarrow> source_change \<Rightarrow> memory_source \<times> 'w \<Rightarrow> (memory_source \<times> 'w) option"

definition source_env :: "bool \<Rightarrow> 'w deliver \<Rightarrow> (memory_source \<times> 'w) push_env" where
  "source_env debug push_one = \<lparr>
     env_table = (\<lambda>(s, w). ms_conns s),
     env_put_table = (\<lambda>t (s, w). (s \<lparr> ms_conns := t \<rparr>, w)),
     env_set_overlay = (\<lambda>x (s, w). (s \<lparr> ms_overlay := x \<rparr>, w)),
     env_next_epoch = (\<lambda>(s, w). map_option (\<lambda>(e, s'). (e, (s', w))) (next_epoch debug s)),
     env_push_one = push_one \<rparr>"

definition push :: "bool \<Rightarrow> 'w deliver \<Rightarrow> source_change \<Rightarrow> memory_source \<times> 'w \<Rightarrow> (memory_source \<times> 'w) option" where
  "push debug push_one change st =
     gen_push_and_write_with_split_edit (source_env debug push_one) (\<lambda>(s, w). row_exists s)
       (\<lambda>c (s, w). map_option (\<lambda>s'. (s', w)) (write_change debug c s)) debug change st"

definition try_push :: "bool \<Rightarrow> 'w deliver \<Rightarrow> source_change \<Rightarrow> bool \<Rightarrow> memory_source \<times> 'w \<Rightarrow> (memory_source \<times> 'w) outcome" where
  "try_push debug push_one change strict st =
     try_gen_push_and_write_with_split_edit (source_env debug push_one) (\<lambda>(s, w) r. map_option Inr (row_exists s r))
       (\<lambda>c (s, w). infallible (map_option (\<lambda>s'. (s', w)) (write_change debug c s))) debug strict change st"

end
