(* ===== verification/Source_State.thy ===== *)
theory Source_State
  imports Memory_Source
begin

text \<open>
  The invariant of the in-memory source and what keeps it: every index holds the same set of rows, sorted
  by its own sort, which always includes the primary key. Construction, index building, writes and forks
  preserve it, and a write changes the set of rows exactly as the change says.
\<close>

section \<open>Equality under a sort\<close>

lemma compare_rows_Equal_iff:
  "row_ok ty srt a \<Longrightarrow> row_ok ty srt b \<Longrightarrow>
   compare_rows srt a b = Some Equal \<longleftrightarrow> (\<forall>(c, asc)\<in>set srt. compare_values (a ! c) (b ! c) = Some Equal)"
  unfolding compare_rows_loop_eq
proof (induction srt)
  case (Cons ca srt)
  obtain c asc where ca: "ca = (c, asc)" by fastforce
  have cells: "c < length a" "c < length b" "conforms (ty c) (a ! c)" "conforms (ty c) (b ! c)" "row_ok ty srt a" "row_ok ty srt b"
    using Cons.prems by (auto simp: ca)
  obtain o' where o': "compare_values (a ! c) (b ! c) = Some o'"
    using cells compare_values_comparator [of "ty c"] comparator_on.cmp_total by (metis mem_Collect_eq not_None_eq)
  show ?case using Cons.IH [OF cells(5,6)] cells(1,2) o'
    by (cases o'; cases asc) (auto simp: ca compare_cell_def row_col_def apply_dir_def)
qed simp

definition sort_cols :: "nat \<Rightarrow> sort \<Rightarrow> bool" where
  "sort_cols n srt \<longleftrightarrow> (\<forall>(c, asc)\<in>set srt. c < n)"

definition covers :: "sort \<Rightarrow> col_id list \<Rightarrow> bool" where
  "covers srt pk \<longleftrightarrow> set pk \<subseteq> fst ` set srt"

definition pk_sort :: "col_id list \<Rightarrow> sort" where
  "pk_sort pk = map (\<lambda>c. (c, True)) pk"

definition same_key :: "col_id list \<Rightarrow> row \<Rightarrow> row \<Rightarrow> bool" where
  "same_key pk a b \<longleftrightarrow> (\<forall>c\<in>set pk. compare_values (a ! c) (b ! c) = Some Equal)"

lemma typed_row_ok: "typed_row ty n r \<Longrightarrow> sort_cols n srt \<Longrightarrow> row_ok ty srt r"
  by (auto simp: typed_row_def sort_cols_def row_ok_def)

lemma same_key_sort:
  assumes "typed_row ty n a" "typed_row ty n b" "sort_cols n srt" "covers srt pk" "compare_rows srt a b = Some Equal"
  shows "same_key pk a b"
  using compare_rows_Equal_iff [OF typed_row_ok typed_row_ok, OF assms(1,3,2,3)] assms(4,5)
  by (fastforce simp: same_key_def covers_def)

lemma same_key_pk_sort:
  assumes "typed_row ty n a" "typed_row ty n b" "\<forall>c\<in>set pk. c < n"
  shows "compare_rows (pk_sort pk) a b = Some Equal \<longleftrightarrow> same_key pk a b"
proof -
  have "sort_cols n (pk_sort pk)" using assms(3) by (auto simp: sort_cols_def pk_sort_def)
  then show ?thesis using compare_rows_Equal_iff [OF typed_row_ok typed_row_ok, OF assms(1) _ assms(2)]
    by (auto simp: same_key_def pk_sort_def)
qed

lemma typed_rows_comparator: "sort_cols n srt \<Longrightarrow> comparator_on {r. typed_row ty n r} (compare_rows srt)"
  by (rule comparator_on_restrict [OF compare_rows_comparator]) (auto intro: typed_row_ok)

lemma same_key_refl: "typed_row ty n r \<Longrightarrow> \<forall>c\<in>set pk. c < n \<Longrightarrow> same_key pk r r"
proof -
  assume r: "typed_row ty n r" and pk: "\<forall>c\<in>set pk. c < n"
  have "sort_cols n (pk_sort pk)" using pk by (auto simp: sort_cols_def pk_sort_def)
  from comparator_on.cmp_refl [OF typed_rows_comparator [OF this, of ty], of r]
  show ?thesis using same_key_pk_sort [OF r r pk] r by simp
qed

section \<open>Sorting\<close>

context comparator_on
begin

lemma insert_by_ok:
  "x \<in> D \<Longrightarrow> set ys \<subseteq> D \<Longrightarrow> sorted_by cmp ys \<Longrightarrow> \<forall>y\<in>set ys. cmp x y \<noteq> Some Equal \<Longrightarrow>
   \<exists>zs. insert_by cmp x ys = Some zs \<and> sorted_by cmp zs \<and> set zs = insert x (set ys)"
proof (induction ys)
  case (Cons y ys)
  have y: "y \<in> D" "set ys \<subseteq> D" using Cons.prems by auto
  show ?case
  proof (cases rule: cmp_cases [OF Cons.prems(1) y(1)])
    case 1
    then have "\<forall>z\<in>set (y # ys). lt_by cmp x z" using Cons.prems y cmp_less_trans [of x y] by auto
    then show ?thesis using 1 Cons.prems by auto
  next
    case 2
    then show ?thesis using Cons.prems by simp
  next
    case 3
    obtain zs where "insert_by cmp x ys = Some zs" "sorted_by cmp zs" "set zs = insert x (set ys)"
      using Cons.IH Cons.prems y by auto
    then show ?thesis using 3 Cons.prems(3) by auto
  qed
qed simp

lemma sort_by_ok:
  "set xs \<subseteq> D \<Longrightarrow> distinct xs \<Longrightarrow> (\<And>x y. x \<in> set xs \<Longrightarrow> y \<in> set xs \<Longrightarrow> cmp x y = Some Equal \<Longrightarrow> x = y) \<Longrightarrow>
   \<exists>ys. sort_by cmp xs = Some ys \<and> sorted_by cmp ys \<and> set ys = set xs"
proof (induction xs)
  case (Cons x xs)
  obtain ys where ys: "sort_by cmp xs = Some ys" "sorted_by cmp ys" "set ys = set xs"
    using Cons by auto
  have "\<forall>y\<in>set ys. cmp x y \<noteq> Some Equal" using Cons.prems ys(3) by auto
  then show ?case using insert_by_ok [of x ys] ys Cons.prems by auto
qed simp

end

section \<open>The invariant\<close>

definition src_rows :: "memory_source \<Rightarrow> row list" where
  "src_rows s = (case primary_index s of None \<Rightarrow> [] | Some ix \<Rightarrow> contents (ix_data ix))"

definition src_width :: "memory_source \<Rightarrow> nat" where
  "src_width s = length (sch_columns (ms_schema s))"

definition rows_ok :: "(col_id \<Rightarrow> kind) \<Rightarrow> nat \<Rightarrow> col_id list \<Rightarrow> row set \<Rightarrow> bool" where
  "rows_ok ty n pk R \<longleftrightarrow> (\<forall>r\<in>R. typed_row ty n r) \<and> (\<forall>a\<in>R. \<forall>b\<in>R. same_key pk a b \<longrightarrow> a = b)"

definition holds_rows :: "(col_id \<Rightarrow> kind) \<Rightarrow> nat \<Rightarrow> col_id list \<Rightarrow> row set \<Rightarrow> sort \<times> row_index \<Rightarrow> bool" where
  "holds_rows ty n pk R p \<longleftrightarrow> (case p of (srt, ix) \<Rightarrow> ix_sort ix = srt \<and> sort_cols n srt \<and> covers srt pk \<and>
     index_ok ty srt (ix_data ix) \<and> set (contents (ix_data ix)) = R)"

definition conn_ok :: "nat \<Rightarrow> col_id list \<Rightarrow> connection \<Rightarrow> bool" where
  "conn_ok n pk c \<longleftrightarrow> sort_cols n (conn_sort c) \<and> covers (conn_sort c) pk \<and> (\<forall>k\<in>set (split_edit_keys c). k < n) \<and>
     (\<forall>g. conn_guard c = Some g \<longrightarrow> guard_col g < n)"

definition src_ok :: "(col_id \<Rightarrow> kind) \<Rightarrow> memory_source \<Rightarrow> bool" where
  "src_ok ty s \<longleftrightarrow> primary_index_sort s = pk_sort (ms_primary_key s) \<and> (\<forall>c\<in>set (ms_primary_key s). c < src_width s) \<and>
     distinct (map fst (ms_indexes s)) \<and> primary_index s \<noteq> None \<and>
     rows_ok ty (src_width s) (ms_primary_key s) (set (src_rows s)) \<and>
     (\<forall>p\<in>set (ms_indexes s). holds_rows ty (src_width s) (ms_primary_key s) (set (src_rows s)) p) \<and>
     table_ok (ms_conns s) \<and> (\<forall>i<length (conns (ms_conns s)). conn_ok (src_width s) (ms_primary_key s) (conns (ms_conns s) ! i))"

text \<open>A change that fits the stored rows: what the existence checks and the schema promise.\<close>

definition change_fits :: "(col_id \<Rightarrow> kind) \<Rightarrow> nat \<Rightarrow> col_id list \<Rightarrow> row set \<Rightarrow> source_change \<Rightarrow> bool" where
  "change_fits ty n pk R change \<longleftrightarrow> (\<forall>r\<in>set (change_rows change). typed_row ty n r) \<and> (case change of
       AddRow r \<Rightarrow> \<forall>x\<in>R. \<not> same_key pk x r
     | RemoveRow d \<Rightarrow> d \<in> R
     | EditRow r d \<Rightarrow> d \<in> R \<and> (\<forall>x\<in>R - {d}. \<not> same_key pk x r))"

lemma change_set_rows_ok:
  assumes "rows_ok ty n pk R" "change_fits ty n pk R change" "\<forall>c\<in>set pk. c < n"
  shows "rows_ok ty n pk (change_set change R)"
proof -
  have sym: "same_key pk a b = same_key pk b a" if "typed_row ty n a" "typed_row ty n b" for a b
  proof -
    have "sort_cols n (pk_sort pk)" using assms(3) by (auto simp: sort_cols_def pk_sort_def)
    from comparator_on.cmp_eq_sym [OF typed_rows_comparator [OF this], of a ty b]
    show ?thesis using that same_key_pk_sort [OF that assms(3)] same_key_pk_sort [OF that(2,1) assms(3)] by simp
  qed
  show ?thesis
    using assms(1,2) sym unfolding rows_ok_def change_fits_def by (cases change) auto
qed

section \<open>Writes\<close>

lemma index_typed:
  assumes "holds_rows ty n pk R (srt, ix)" "rows_ok ty n pk R"
  shows "comparator_on {r. typed_row ty n r} (compare_rows srt)" "set (contents (ix_data ix)) \<subseteq> {r. typed_row ty n r}"
    "sorted_by (compare_rows srt) (contents (ix_data ix))"
  using assms by (auto simp: holds_rows_def rows_ok_def index_ok_def btree_ok_def intro: typed_rows_comparator)

lemma index_key_unique:
  assumes "holds_rows ty n pk R (srt, ix)" "rows_ok ty n pk R" "y \<in> R" "typed_row ty n x" "compare_rows srt y x = Some Equal"
  shows "same_key pk y x"
  using assms same_key_sort [of ty n y x srt pk] by (auto simp: holds_rows_def rows_ok_def)

lemma index_add_ok:
  assumes H: "holds_rows ty n pk R (srt, ix)" and R: "rows_ok ty n pk R" and x: "typed_row ty n x"
    and new: "\<forall>y\<in>R. \<not> same_key pk y x"
  shows "\<exists>t. btree_add (compare_rows srt) (ix_data ix) x = Some (t, True) \<and>
    holds_rows ty n pk (insert x R) (srt, ix \<lparr> ix_data := t \<rparr>)"
proof -
  note T = index_typed [OF H R]
  have h: "index_ok ty srt (ix_data ix)" "sort_cols n srt" "set (contents (ix_data ix)) = R" using H by (auto simp: holds_rows_def)
  have D: "x \<in> {r. row_ok ty srt r}" using typed_row_ok [OF x h(2)] by simp
  have ne: "\<forall>y\<in>R. compare_rows srt y x \<noteq> Some Equal" using index_key_unique [OF H R _ x] new by blast
  then have none: "get_by (compare_rows srt) x (contents (ix_data ix)) = None" using h(3) by (auto intro: get_by_none)
  have "set (ins_by (compare_rows srt) x (contents (ix_data ix))) = insert x R"
    using comparator_on.set_ins_by_eq [OF T(1,2), of x] x ne h(3) by auto
  then show ?thesis using tree_set.add_ok [OF h(1) D] none H by (auto simp: holds_rows_def)
qed

lemma index_delete_ok:
  assumes H: "holds_rows ty n pk R (srt, ix)" and R: "rows_ok ty n pk R" and x: "x \<in> R"
  shows "\<exists>t. btree_delete (compare_rows srt) (ix_data ix) x = Some (t, True) \<and>
    holds_rows ty n pk (R - {x}) (srt, ix \<lparr> ix_data := t \<rparr>)"
proof -
  note T = index_typed [OF H R]
  have h: "index_ok ty srt (ix_data ix)" "sort_cols n srt" "set (contents (ix_data ix)) = R" using H by (auto simp: holds_rows_def)
  have xt: "typed_row ty n x" using x R by (simp add: rows_ok_def)
  have D: "x \<in> {r. row_ok ty srt r}" using typed_row_ok [OF xt h(2)] by simp
  have eq: "y \<in> R \<Longrightarrow> compare_rows srt y x = Some Equal \<longleftrightarrow> y = x" for y
    using index_key_unique [OF H R _ xt] x R comparator_on.cmp_refl [OF T(1), of x] xt by (auto simp: rows_ok_def)
  then have some: "get_by (compare_rows srt) x (contents (ix_data ix)) \<noteq> None" using x h(3)
    by (auto simp: get_by_def find_None_iff)
  have "set (del_by (compare_rows srt) x (contents (ix_data ix))) = R - {x}"
    using comparator_on.set_del_by_eq [OF T(1,2), of x] xt eq h(3) by auto
  then show ?thesis using tree_set.del_ok [OF h(1) D] some H by (auto simp: holds_rows_def)
qed

lemma rows_ok_remove: "rows_ok ty n pk R \<Longrightarrow> rows_ok ty n pk (R - {x})"
  by (auto simp: rows_ok_def)

lemma write_index_ok:
  assumes H: "holds_rows ty n pk R (srt, ix)" and R: "rows_ok ty n pk R" and fits: "change_fits ty n pk R change"
  shows "\<exists>ix'. write_index debug change ix = Some ix' \<and> apply_index change ix = Some ix' \<and>
    holds_rows ty n pk (change_set change R) (srt, ix')"
proof -
  have s: "ix_sort ix = srt" using H by (simp add: holds_rows_def)
  show ?thesis
  proof (cases change)
    case (AddRow r)
    then show ?thesis using index_add_ok [OF H R, of r] fits s
      by (auto simp: change_fits_def write_index_def apply_index_def debug_check_def)
  next
    case (RemoveRow d)
    then show ?thesis using index_delete_ok [OF H R, of d] fits s
      by (auto simp: change_fits_def write_index_def apply_index_def debug_check_def)
  next
    case (EditRow r d)
    have f: "d \<in> R" "typed_row ty n r" "\<forall>y\<in>R - {d}. \<not> same_key pk y r" using fits EditRow by (auto simp: change_fits_def)
    obtain t where t: "btree_delete (compare_rows srt) (ix_data ix) d = Some (t, True)"
      "holds_rows ty n pk (R - {d}) (srt, ix \<lparr> ix_data := t \<rparr>)" using index_delete_ok [OF H R f(1)] by blast
    then show ?thesis using index_add_ok [OF t(2) rows_ok_remove [OF R] f(2,3)] EditRow s
      by (auto simp: write_index_def apply_index_def debug_check_def)
  qed
qed

lemma update_indexes_ok:
  assumes "\<forall>p\<in>set ixs. P p" "\<And>srt ix. P (srt, ix) \<Longrightarrow> \<exists>ix'. f ix = Some ix' \<and> Q (srt, ix')"
  shows "\<exists>ixs'. update_indexes f ixs = Some ixs' \<and> map fst ixs' = map fst ixs \<and> (\<forall>p\<in>set ixs'. Q p)"
  using assms(1)
proof (induction ixs)
  case (Cons p ixs)
  obtain srt ix where p: "p = (srt, ix)" by fastforce
  then show ?case using Cons assms(2) [of srt ix] by fastforce
qed simp

lemma map_of_set_eq: "map_of xs k \<noteq> None \<longleftrightarrow> k \<in> fst ` set xs"
  by (simp add: map_of_eq_None_iff)

lemma src_update_ok:
  assumes ok: "src_ok ty s" and fits: "change_fits ty (src_width s) (ms_primary_key s) (set (src_rows s)) change"
    and f: "\<And>srt ix. holds_rows ty (src_width s) (ms_primary_key s) (set (src_rows s)) (srt, ix) \<Longrightarrow>
      \<exists>ix'. f ix = Some ix' \<and> holds_rows ty (src_width s) (ms_primary_key s) (change_set change (set (src_rows s))) (srt, ix')"
  shows "\<exists>ixs. update_indexes f (ms_indexes s) = Some ixs \<and> src_ok ty (s \<lparr> ms_indexes := ixs \<rparr>) \<and>
    set (src_rows (s \<lparr> ms_indexes := ixs \<rparr>)) = change_set change (set (src_rows s))"
proof -
  let ?H = "holds_rows ty (src_width s) (ms_primary_key s)"
  have all: "\<forall>p\<in>set (ms_indexes s). ?H (set (src_rows s)) p" using ok by (simp add: src_ok_def)
  obtain ixs where ixs: "update_indexes f (ms_indexes s) = Some ixs" "map fst ixs = map fst (ms_indexes s)"
    "\<forall>p\<in>set ixs. ?H (change_set change (set (src_rows s))) p"
    using update_indexes_ok [of "ms_indexes s" "?H (set (src_rows s))" f, OF all f] by blast
  define s' where "s' = s \<lparr> ms_indexes := ixs \<rparr>"
  have "map_of ixs (primary_index_sort s) \<noteq> None"
    using ok ixs(2) unfolding map_of_set_eq src_ok_def primary_index_def by (metis list.set_map)
  then obtain ix where ix: "map_of ixs (primary_index_sort s) = Some ix" by blast
  then have rows: "set (src_rows s') = change_set change (set (src_rows s))"
    using ixs(3) map_of_SomeD [OF ix] by (auto simp: s'_def src_rows_def primary_index_def holds_rows_def)
  have "rows_ok ty (src_width s) (ms_primary_key s) (change_set change (set (src_rows s)))"
    using change_set_rows_ok [OF _ fits] ok by (simp add: src_ok_def)
  then have "src_ok ty s'" using ok ixs ix rows unfolding src_ok_def
    by (simp add: s'_def src_width_def primary_index_def)
  then show ?thesis using ixs(1) rows by (auto simp: s'_def)
qed

lemma write_change_ok:
  assumes "src_ok ty s" "change_fits ty (src_width s) (ms_primary_key s) (set (src_rows s)) change"
  shows "\<exists>ixs. write_change debug change s = Some (s \<lparr> ms_indexes := ixs \<rparr>) \<and> apply_change change s = Some (s \<lparr> ms_indexes := ixs \<rparr>) \<and>
    src_ok ty (s \<lparr> ms_indexes := ixs \<rparr>) \<and>
    set (src_rows (s \<lparr> ms_indexes := ixs \<rparr>)) = change_set change (set (src_rows s))"
proof -
  have R: "rows_ok ty (src_width s) (ms_primary_key s) (set (src_rows s))" using assms(1) by (simp add: src_ok_def)
  obtain ixs where ixs: "update_indexes (write_index debug change) (ms_indexes s) = Some ixs" "src_ok ty (s \<lparr> ms_indexes := ixs \<rparr>)"
    "set (src_rows (s \<lparr> ms_indexes := ixs \<rparr>)) = change_set change (set (src_rows s))"
    using src_update_ok [OF assms, of "write_index debug change"] write_index_ok [OF _ R assms(2), of _ _ debug] by blast
  have "update_indexes (apply_index change) xs = update_indexes (write_index debug change) xs"
    if "\<forall>p\<in>set xs. holds_rows ty (src_width s) (ms_primary_key s) (set (src_rows s)) p" for xs
    using that
  proof (induction xs)
    case (Cons p xs)
    obtain srt ix where p: "p = (srt, ix)" by fastforce
    have "apply_index change ix = write_index debug change ix"
      using write_index_ok [OF _ R assms(2), of srt ix debug] Cons.prems p by auto
    then show ?case using Cons by (simp add: p)
  qed simp
  then have "update_indexes (apply_index change) (ms_indexes s) = Some ixs"
    using ixs(1) assms(1) by (simp add: src_ok_def)
  then show ?thesis using ixs by (auto simp: write_change_def apply_change_def)
qed

section \<open>Building indexes\<close>

lemma src_rows_typed:
  assumes "src_ok ty s"
  shows "rows_ok ty (src_width s) (ms_primary_key s) (set (src_rows s))" "\<forall>r\<in>set (src_rows s). typed_row ty (src_width s) r"
    "distinct (src_rows s)"
proof -
  show R: "rows_ok ty (src_width s) (ms_primary_key s) (set (src_rows s))" using assms by (simp add: src_ok_def)
  then show "\<forall>r\<in>set (src_rows s). typed_row ty (src_width s) r" by (simp add: rows_ok_def)
  obtain ix where ix: "primary_index s = Some ix" using assms by (auto simp: src_ok_def)
  then have H: "holds_rows ty (src_width s) (ms_primary_key s) (set (src_rows s)) (primary_index_sort s, ix)"
    using assms by (auto simp: src_ok_def primary_index_def dest: map_of_SomeD)
  from index_typed [OF H R] show "distinct (src_rows s)"
    using comparator_on.sorted_by_distinct ix by (fastforce simp: src_rows_def)
qed

lemma sort_rows_ok:
  assumes "\<forall>r\<in>set rows. typed_row ty n r" "distinct rows" "\<forall>a\<in>set rows. \<forall>b\<in>set rows. same_key pk a b \<longrightarrow> a = b"
    "sort_cols n srt" "covers srt pk"
  shows "\<exists>ys t. sort_by (compare_rows srt) rows = Some ys \<and> from_sorted (compare_rows srt) ys = Some t \<and>
    holds_rows ty n pk (set rows) (srt, \<lparr> ix_sort = srt, ix_data = t \<rparr>) \<and> contents t = ys"
proof -
  have sub: "set rows \<subseteq> {r. typed_row ty n r}" using assms(1) by auto
  obtain ys where ys: "sort_by (compare_rows srt) rows = Some ys" "sorted_by (compare_rows srt) ys" "set ys = set rows"
    using comparator_on.sort_by_ok [OF typed_rows_comparator [OF assms(4)] sub assms(2)]
      same_key_sort [OF _ _ assms(4,5)] assms(1,3) by blast
  obtain t where t: "from_sorted (compare_rows srt) ys = Some t" "btree_ok (compare_rows srt) t" "contents t = ys"
    using from_sorted_ok [OF ys(2)] by blast
  have "\<forall>r\<in>set ys. row_ok ty srt r" using ys(3) assms(1,4) typed_row_ok by blast
  then show ?thesis using ys t assms(4,5) by (auto simp: holds_rows_def index_ok_def)
qed

lemma ensure_index_ok:
  assumes ok: "src_ok ty s" and "sort_cols (src_width s) srt" "covers srt (ms_primary_key s)"
  shows "\<exists>ixs ix. ensure_index srt s = Some (s \<lparr> ms_indexes := ixs \<rparr>) \<and> src_ok ty (s \<lparr> ms_indexes := ixs \<rparr>) \<and>
    src_rows (s \<lparr> ms_indexes := ixs \<rparr>) = src_rows s \<and> map_of ixs srt = Some ix \<and>
    holds_rows ty (src_width s) (ms_primary_key s) (set (src_rows s)) (srt, ix)"
proof (cases "map_of (ms_indexes s) srt")
  case None
  obtain p where p: "primary_index s = Some p" using ok by (auto simp: src_ok_def)
  have pix: "index_ok ty (primary_index_sort s) (ix_data p)"
    using ok p by (auto simp: src_ok_def primary_index_def holds_rows_def dest!: map_of_SomeD)
  have rows: "contents (ix_data p) = src_rows s" using p by (simp add: src_rows_def)
  have "btree_len (ix_data p) = length (src_rows s)"
    using pix rows by (simp add: index_ok_def btree_ok_def btree_len_def)
  then have scan: "(do { c \<leftarrow> values_from (ix_data p) None True; drain (Suc (btree_len (ix_data p))) c }) = Some (src_rows s)"
    using index_scan_drain(1) [OF pix, of None "Suc (btree_len (ix_data p))" True] rows by (simp add: scan_forward_def)
  note R = src_rows_typed [OF ok]
  obtain ys t where yt: "sort_by (compare_rows srt) (src_rows s) = Some ys" "from_sorted (compare_rows srt) ys = Some t"
    "holds_rows ty (src_width s) (ms_primary_key s) (set (src_rows s)) (srt, \<lparr> ix_sort = srt, ix_data = t \<rparr>)"
    using sort_rows_ok [OF R(2,3) _ assms(2,3)] R(1) by (auto simp: rows_ok_def)
  define ixs where "ixs = (srt, \<lparr> ix_sort = srt, ix_data = t \<rparr>) # ms_indexes s"
  have run: "ensure_index srt s = Some (s \<lparr> ms_indexes := ixs \<rparr>)"
    using None p scan yt(1,2) by (auto simp: ensure_index_def ixs_def split: Option.bind_splits)
  have "primary_index_sort s \<noteq> srt" using None p by (auto simp: primary_index_def)
  then have prim: "primary_index (s \<lparr> ms_indexes := ixs \<rparr>) = primary_index s" by (auto simp: primary_index_def ixs_def)
  have "srt \<notin> fst ` set (ms_indexes s)" using None by (simp add: map_of_eq_None_iff)
  then have "src_ok ty (s \<lparr> ms_indexes := ixs \<rparr>)"
    using ok yt(3) unfolding src_ok_def src_rows_def prim by (simp add: ixs_def src_width_def src_rows_def)
  then show ?thesis using run prim yt(3) by (auto simp: src_rows_def ixs_def)
next
  case (Some ix)
  then have "(srt, ix) \<in> set (ms_indexes s)" by (rule map_of_SomeD)
  then show ?thesis using Some ok by (auto simp: ensure_index_def src_ok_def intro!: exI [of _ "ms_indexes s"])
qed

section \<open>Construction\<close>

lemma validate_loop_ok:
  "validate_loop want i rows = Inr () \<longleftrightarrow> (\<forall>r\<in>set rows. length r = want)"
  by (induction rows arbitrary: i) auto

lemma try_new_ok:
  assumes "\<forall>r\<in>set rows. typed_row ty (length (sch_columns schema)) r" "distinct rows"
    "\<forall>a\<in>set rows. \<forall>b\<in>set rows. same_key (sch_primary_key schema) a b \<longrightarrow> a = b"
    "\<forall>c\<in>set (sch_primary_key schema). c < length (sch_columns schema)"
  shows "\<exists>s. try_new schema rows = Some (Inr s) \<and> src_ok ty s \<and> set (src_rows s) = set rows \<and> ms_overlay s = None \<and>
    ms_conns s = conn_table_new \<and> ms_schema s = schema \<and> ms_primary_key s = sch_primary_key schema \<and> ms_epoch s = 0"
proof -
  let ?n = "length (sch_columns schema)" and ?pk = "sch_primary_key schema"
  have v: "validate_rows schema rows = Inr ()" using assms(1) by (auto simp: validate_rows_def validate_loop_ok typed_row_def)
  have srt: "sort_cols ?n (pk_sort ?pk)" "covers (pk_sort ?pk) ?pk"
    using assms(4) by (auto simp: sort_cols_def pk_sort_def covers_def image_image)
  obtain ys t where yt: "sort_by (compare_rows (pk_sort ?pk)) rows = Some ys" "from_sorted (compare_rows (pk_sort ?pk)) ys = Some t"
    "holds_rows ty ?n ?pk (set rows) (pk_sort ?pk, \<lparr> ix_sort = pk_sort ?pk, ix_data = t \<rparr>)"
    using sort_rows_ok [OF assms(1-3) srt] by blast
  define s where "s = \<lparr> ms_schema = schema, ms_primary_key = ?pk, primary_index_sort = pk_sort ?pk,
     ms_indexes = [(pk_sort ?pk, \<lparr> ix_sort = pk_sort ?pk, ix_data = t \<rparr>)], ms_conns = conn_table_new, ms_overlay = None,
     ms_epoch = 0, ms_cursors_open = 0 \<rparr>"
  have "try_new schema rows = Some (Inr s)"
    using v yt(1,2) by (simp add: try_new_def s_def pk_sort_def Let_def)
  moreover have rows: "set (src_rows s) = set rows"
    using yt(3) by (simp add: s_def src_rows_def primary_index_def holds_rows_def)
  moreover have "src_ok ty s"
    using assms yt(3) table_ok_new unfolding src_ok_def rows
    by (simp add: s_def src_width_def primary_index_def rows_ok_def conn_table_new_def)
  ultimately show ?thesis by (simp add: s_def)
qed

section \<open>Lookups\<close>

lemma primary_holds:
  assumes "src_ok ty s"
  obtains ix where "primary_index s = Some ix" "contents (ix_data ix) = src_rows s"
    "holds_rows ty (src_width s) (ms_primary_key s) (set (src_rows s)) (pk_sort (ms_primary_key s), ix)"
proof -
  obtain ix where ix: "primary_index s = Some ix" using assms by (auto simp: src_ok_def)
  then have "holds_rows ty (src_width s) (ms_primary_key s) (set (src_rows s)) (primary_index_sort s, ix)"
    using assms by (auto simp: src_ok_def primary_index_def dest!: map_of_SomeD)
  then show thesis using that ix assms by (simp add: src_rows_def src_ok_def)
qed

lemma get_by_pk_ok:
  assumes ok: "src_ok ty s" and x: "typed_row ty (src_width s) x"
  shows "get_by_pk s x = Some (List.find (\<lambda>r. same_key (ms_primary_key s) r x) (src_rows s))"
    and "row_exists s x = Some (\<exists>r\<in>set (src_rows s). same_key (ms_primary_key s) r x)"
proof -
  let ?n = "src_width s" and ?pk = "ms_primary_key s"
  obtain ix where ix: "primary_index s = Some ix" "contents (ix_data ix) = src_rows s"
    "holds_rows ty ?n ?pk (set (src_rows s)) (pk_sort ?pk, ix)" using primary_holds [OF ok] by blast
  have h: "index_ok ty (pk_sort ?pk) (ix_data ix)" "sort_cols ?n (pk_sort ?pk)" using ix(3) by (auto simp: holds_rows_def)
  have D: "x \<in> {r. row_ok ty (pk_sort ?pk) r}" using typed_row_ok [OF x h(2)] by simp
  have pk: "\<forall>c\<in>set ?pk. c < ?n" "primary_index_sort s = pk_sort ?pk" using ok by (simp_all add: src_ok_def)
  have eq: "compare_rows (pk_sort ?pk) r x = Some Equal \<longleftrightarrow> same_key ?pk r x" if "r \<in> set (src_rows s)" for r
    using same_key_pk_sort [OF _ x pk(1)] src_rows_typed(2) [OF ok] that by blast
  have get: "get_by (compare_rows (pk_sort ?pk)) x (src_rows s) = List.find (\<lambda>r. same_key ?pk r x) (src_rows s)"
    unfolding get_by_def by (rule find_cong) (simp_all add: eq)
  have ok': "btree_ok (compare_rows (pk_sort ?pk)) (ix_data ix)" "set (contents (ix_data ix)) \<subseteq> {r. row_ok ty (pk_sort ?pk) r}"
    using h(1) by (auto simp: index_ok_def)
  show "get_by_pk s x = Some (List.find (\<lambda>r. same_key ?pk r x) (src_rows s))"
    using row_order.btree_get_ok(1) [OF ok' D] get ix(1,2) pk(2) by (simp add: get_by_pk_def)
  show "row_exists s x = Some (\<exists>r\<in>set (src_rows s). same_key ?pk r x)"
    using row_order.btree_get_ok(2) [OF ok' D] get ix(1,2) pk(2)
    by (auto simp: row_exists_def find_None_iff)
qed

end
