(* ===== verification/Source_Push.thy ===== *)
theory Source_Push
  imports Source_State
begin

text \<open>
  Pushing a change through the in-memory source. The source is shown to be a backend in the sense of the push
  orchestration, for every delivery callback that re-enters the source only through reads; the recording
  callback is the concrete instance on which the order of effects is observed.
\<close>

section \<open>The source as a backend\<close>

definition same_source :: "memory_source \<times> 'w \<Rightarrow> memory_source \<times> 'w \<Rightarrow> bool" where
  "same_source st st' \<longleftrightarrow> set (src_rows (fst st')) = set (src_rows (fst st)) \<and> ms_schema (fst st') = ms_schema (fst st) \<and>
     ms_primary_key (fst st') = ms_primary_key (fst st) \<and> ms_epoch (fst st') = ms_epoch (fst st)"

text \<open>What the source relies on of a delivery callback: it returns, and re-enters the source only through reads,
  which may build indexes.\<close>

definition deliver_ok :: "(col_id \<Rightarrow> kind) \<Rightarrow> 'w deliver \<Rightarrow> bool" where
  "deliver_ok ty f \<longleftrightarrow> (\<forall>slot conn sc st. src_ok ty (fst st) \<longrightarrow>
     (\<exists>st'. f slot conn sc st = Some st' \<and> src_ok ty (fst st') \<and> ms_conns (fst st') = ms_conns (fst st) \<and>
        ms_overlay (fst st') = ms_overlay (fst st) \<and> same_source st st'))"

text \<open>The same, with an invariant \<open>G\<close> of the world downstream and a relation \<open>F\<close> that every delivery keeps.\<close>

definition deliver_keeps :: "(col_id \<Rightarrow> kind) \<Rightarrow> ('w \<Rightarrow> bool) \<Rightarrow> ('w \<Rightarrow> 'w \<Rightarrow> bool) \<Rightarrow> 'w deliver \<Rightarrow> bool" where
  "deliver_keeps ty G F f \<longleftrightarrow> (\<forall>slot conn sc st. src_ok ty (fst st) \<longrightarrow> G (snd st) \<longrightarrow>
     (\<exists>st'. f slot conn sc st = Some st' \<and> src_ok ty (fst st') \<and> ms_conns (fst st') = ms_conns (fst st) \<and>
        ms_overlay (fst st') = ms_overlay (fst st) \<and> same_source st st' \<and> G (snd st') \<and> F (snd st) (snd st')))"

lemma deliver_ok_keeps: "deliver_ok ty f \<Longrightarrow> deliver_keeps ty (\<lambda>_. True) (\<lambda>_ _. True) f"
  by (simp add: deliver_ok_def deliver_keeps_def)

lemma always_refl_trans: "reflp (\<lambda>_ _. True)" "transp (\<lambda>_ _. True)"
  by (simp_all add: reflp_def transp_def)

lemma src_ok_conns:
  "src_ok ty (s \<lparr> ms_conns := t \<rparr>) \<longleftrightarrow> src_ok ty s \<and> table_ok t \<and>
     (\<forall>i<length (conns t). conn_ok (src_width s) (ms_primary_key s) (conns t ! i))"
  if "src_ok ty s"
  using that by (auto simp: src_ok_def src_rows_def primary_index_def src_width_def)

lemma src_ok_untouched [simp]:
  "src_ok ty (s \<lparr> ms_overlay := x \<rparr>) = src_ok ty s" "src_ok ty (s \<lparr> ms_epoch := e \<rparr>) = src_ok ty s"
  "src_ok ty (s \<lparr> ms_cursors_open := c \<rparr>) = src_ok ty s"
  "src_rows (s \<lparr> ms_overlay := x \<rparr>) = src_rows s" "src_rows (s \<lparr> ms_epoch := e \<rparr>) = src_rows s"
  "src_rows (s \<lparr> ms_conns := t \<rparr>) = src_rows s" "src_rows (s \<lparr> ms_cursors_open := c \<rparr>) = src_rows s"
  by (auto simp: src_ok_def src_rows_def primary_index_def src_width_def)

lemma conn_ok_bump: "i < length (conns t) \<Longrightarrow> conn_ok n pk (conns (bump_epoch sl e t) ! i) = conn_ok n pk (conns t ! i)"
  by (simp add: conn_ok_def conn_guard_def bump_epoch_fields)

lemma src_ok_bump: "src_ok ty s \<Longrightarrow> src_ok ty (s \<lparr> ms_conns := bump_epoch sl e (ms_conns s) \<rparr>)"
  by (simp add: src_ok_conns conn_ok_bump) (simp add: src_ok_def bump_epoch_table_ok)

lemma source_backend_keeps:
  fixes f :: "'w deliver"
  assumes "deliver_keeps ty G F f" "reflp F" "transp F"
  shows "push_backend (source_env debug f) (\<lambda>st. src_ok ty (fst st) \<and> G (snd st)) (\<lambda>st st'. same_source st st' \<and> F (snd st) (snd st'))
    (\<lambda>st. ms_overlay (fst st))"
proof
  fix st :: "memory_source \<times> 'w" and slot conn sc
  assume "src_ok ty (fst st) \<and> G (snd st)"
  then show "\<exists>st'. env_push_one (source_env debug f) slot conn sc st = Some st' \<and> (src_ok ty (fst st') \<and> G (snd st')) \<and>
      env_table (source_env debug f) st' = env_table (source_env debug f) st \<and> ms_overlay (fst st') = ms_overlay (fst st) \<and>
      (same_source st st' \<and> F (snd st) (snd st'))"
    using assms(1) [unfolded deliver_keeps_def, rule_format, of st slot conn sc] by (auto simp: source_env_def split_beta)
qed (use assms(2,3) in \<open>auto simp: source_env_def same_source_def split_beta src_ok_bump reflp_def intro: transpD [of F]\<close>)

lemma source_backend:
  assumes "deliver_ok ty f"
  shows "push_backend (source_env debug f) (\<lambda>st. src_ok ty (fst st)) same_source (\<lambda>st. ms_overlay (fst st))"
  using source_backend_keeps [OF deliver_ok_keeps [OF assms] always_refl_trans] by simp

text \<open>The recording callback.\<close>

definition record_deliver :: "(slot \<times> source_change \<times> overlay option) list deliver" where
  "record_deliver slot conn sc st = Some (fst st, snd st @ [(slot, sc, ms_overlay (fst st))])"

lemma record_deliver_ok: "deliver_ok ty record_deliver"
  by (simp add: deliver_ok_def record_deliver_def same_source_def)

interpretation recorder: push_logger "source_env debug record_deliver" "\<lambda>st. src_ok ty (fst st)" same_source
    "\<lambda>st. ms_overlay (fst st)" snd for ty debug
  by (intro push_logger.intro push_logger_axioms.intro source_backend [OF record_deliver_ok])
    (auto simp: source_env_def record_deliver_def split_beta)

section \<open>One push and write\<close>

lemma bump_wired_same:
  "live_slots (bump_wired e ss t) = live_slots t \<and> length (conns (bump_wired e ss t)) = length (conns t) \<and>
   (\<forall>i<length (conns t). filters (conns (bump_wired e ss t) ! i) = filters (conns t ! i) \<and>
      conn_output (conns (bump_wired e ss t) ! i) = conn_output (conns t ! i) \<and>
      split_edit_keys (conns (bump_wired e ss t) ! i) = split_edit_keys (conns t ! i))"
proof (induction ss arbitrary: t)
  case Nil
  then show ?case by (simp add: bump_wired_def)
next
  case (Cons s ss)
  define t1 where "t1 = (if conn_output (conns t ! unat s) \<noteq> None then bump_epoch s e t else t)"
  have "bump_wired e (s # ss) t = bump_wired e ss t1" by (simp add: bump_wired_def t1_def)
  moreover have "live_slots t1 = live_slots t" "length (conns t1) = length (conns t)" by (simp_all add: t1_def)
  moreover have "filters (conns t1 ! i) = filters (conns t ! i) \<and> conn_output (conns t1 ! i) = conn_output (conns t ! i) \<and>
      split_edit_keys (conns t1 ! i) = split_edit_keys (conns t ! i)" if "i < length (conns t)" for i
    using that by (simp add: t1_def bump_epoch_fields)
  ultimately show ?case using Cons.IH [of t1] by simp
qed

text \<open>The guards of the live connections over-approximate their predicates on the rows of a change.\<close>

definition guards_sound :: "conn_table \<Rightarrow> source_change \<Rightarrow> bool" where
  "guards_sound t change \<longleftrightarrow> (\<forall>i\<in>set (live_slots t). \<forall>r\<in>set (change_rows change). guard_sound (conns t ! i) r)"

definition fits :: "(col_id \<Rightarrow> kind) \<Rightarrow> memory_source \<Rightarrow> source_change \<Rightarrow> bool" where
  "fits ty s change \<longleftrightarrow> change_fits ty (src_width s) (ms_primary_key s) (set (src_rows s)) change"

lemma fits_exists:
  assumes ok: "src_ok ty s" and fit: "fits ty s change"
  shows "case change of AddRow r \<Rightarrow> row_exists s r = Some False | RemoveRow r \<Rightarrow> row_exists s r = Some True
      | EditRow r old \<Rightarrow> row_exists s old = Some True"
proof -
  have self: "r \<in> set (src_rows s) \<Longrightarrow> row_exists s r = Some True" for r
    using get_by_pk_ok(2) [OF ok, of r] src_rows_typed(2) [OF ok] same_key_refl [of ty "src_width s" r "ms_primary_key s"] ok
    by (auto simp: src_ok_def)
  show ?thesis using fit self get_by_pk_ok(2) [OF ok] by (cases change) (auto simp: fits_def change_fits_def)
qed

lemma guards_in_range:
  assumes "src_ok ty s" "fits ty s change"
  shows "\<forall>i\<in>set (live_slots (ms_conns s)). \<forall>g. conn_guard (conns (ms_conns s) ! i) = Some g \<longrightarrow>
    (\<forall>r\<in>set (change_rows change). guard_col g < length r)"
proof (intro ballI allI impI)
  fix i g r assume "i \<in> set (live_slots (ms_conns s))" "conn_guard (conns (ms_conns s) ! i) = Some g" "r \<in> set (change_rows change)"
  then have "guard_col g < src_width s" "length r = src_width s"
    using assms by (auto simp: src_ok_def conn_ok_def live_slots_iff fits_def change_fits_def typed_row_def)
  then show "guard_col g < length r" by simp
qed

text \<open>One push and write, and what it leaves behind.\<close>

abbreviation write_step :: "bool \<Rightarrow> 'w deliver \<Rightarrow> source_change \<Rightarrow> 32 word \<Rightarrow> memory_source \<times> 'w \<Rightarrow> (memory_source \<times> 'w) option" where
  "write_step debug f \<equiv> gen_push_and_write (source_env debug f) (\<lambda>(s, w). row_exists s)
     (\<lambda>c (s, w). map_option (\<lambda>s'. (s', w)) (write_change debug c s)) debug"

definition write_done :: "(col_id \<Rightarrow> kind) \<Rightarrow> ('w \<Rightarrow> bool) \<Rightarrow> ('w \<Rightarrow> 'w \<Rightarrow> bool) \<Rightarrow> source_change \<Rightarrow> 32 word \<Rightarrow> memory_source \<times> 'w \<Rightarrow> memory_source \<times> 'w \<Rightarrow> bool" where
  "write_done ty G F change epoch st st' \<longleftrightarrow> src_ok ty (fst st') \<and>
     set (src_rows (fst st')) = change_set change (set (src_rows (fst st))) \<and> ms_overlay (fst st') = None \<and>
     ms_primary_key (fst st') = ms_primary_key (fst st) \<and> ms_schema (fst st') = ms_schema (fst st) \<and> ms_epoch (fst st') = ms_epoch (fst st) \<and>
     G (snd st') \<and> F (snd st) (snd st') \<and> (\<exists>cs. ms_conns (fst st') = bump_wired epoch cs (ms_conns (fst st)))"

lemma try_write_fits:
  assumes "src_ok ty (fst st)" "fits ty (fst st) change"
  shows "try_gen_push_and_write env (\<lambda>(s, w) r. map_option Inr (row_exists s r)) (\<lambda>c (s, w). infallible (map_option (\<lambda>s'. (s', w)) (write_change debug c s)))
      debug strict change epoch st =
    infallible (gen_push_and_write env (\<lambda>(s, w). row_exists s) (\<lambda>c (s, w). map_option (\<lambda>s'. (s', w)) (write_change debug c s)) debug change epoch st)"
proof -
  obtain s w where st: "st = (s, w)" by fastforce
  define b where "b = (case change of AddRow _ \<Rightarrow> False | _ \<Rightarrow> True)"
  have b: "row_exists s (checked_row change) = Some b" "existence_ok change b"
    using fits_exists [OF assms] by (cases change; simp add: st b_def existence_ok_def)+
  then have "assert_change_existence_checked debug strict change (\<lambda>r. map_option Inr (row_exists s r)) = Some (Inr ())"
    by (cases change) (simp_all add: assert_change_existence_checked_def consistency_check_def existence_ok_def)
  then have "try_gen_push env (\<lambda>(s, w) r. map_option Inr (row_exists s r)) debug strict change epoch st =
      infallible (gen_push env (\<lambda>(s, w). row_exists s) debug change epoch st)"
    using gen_push_checked [of "\<lambda>(s, w). row_exists s" st change b env debug epoch] b by (simp add: try_gen_push_def st infallible_bind)
  then show ?thesis
    by (simp add: try_gen_push_and_write_def gen_push_and_write_def and_then_infallible infallible_bind case_prod_unfold)
qed

lemma push_write_keeps:
  assumes ok: "src_ok ty (fst st)" and G: "G (snd st)" and D: "deliver_keeps ty G F f" "reflp F" "transp F" and fit: "fits ty (fst st) change"
    and snd: "guards_sound (ms_conns (fst st)) change"
  shows "\<exists>st'. write_step debug f change epoch st = Some st' \<and> write_done ty G F change epoch st st'"
proof -
  let ?env = "source_env debug f" and ?t = "ms_conns (fst st)"
  have et: "env_table ?env st' = ms_conns (fst st')" for st' by (simp add: source_env_def split_beta)
  have tok: "table_ok ?t" using ok by (simp add: src_ok_def)
  note wide = guards_in_range [OF ok fit]
  have ex: "case change of AddRow r \<Rightarrow> (\<lambda>(s, w). row_exists s) st r = Some False
      | RemoveRow r \<Rightarrow> (\<lambda>(s, w). row_exists s) st r = Some True | EditRow r old \<Rightarrow> (\<lambda>(s, w). row_exists s) st old = Some True"
    using fits_exists [OF ok fit] by (cases st; cases change) simp_all
  obtain st1 cs where st1: "gen_push ?env (\<lambda>(s, w). row_exists s) debug change epoch st = Some st1" "src_ok ty (fst st1)"
    "same_source st st1" "ms_overlay (fst st1) = None" "ms_conns (fst st1) = bump_wired epoch cs ?t" "G (snd st1)" "F (snd st) (snd st1)"
    using push_backend.gen_push_ok [OF source_backend_keeps [OF D], of st debug change "\<lambda>(s, w). row_exists s" debug epoch] ok G tok wide snd ex
    unfolding et guards_sound_def by blast
  have fit1: "change_fits ty (src_width (fst st1)) (ms_primary_key (fst st1)) (set (src_rows (fst st1))) change"
    using fit st1(3) by (simp add: fits_def same_source_def src_width_def)
  obtain ixs where w: "write_change debug change (fst st1) = Some (fst st1 \<lparr> ms_indexes := ixs \<rparr>)"
    "src_ok ty (fst st1 \<lparr> ms_indexes := ixs \<rparr>)"
    "set (src_rows (fst st1 \<lparr> ms_indexes := ixs \<rparr>)) = change_set change (set (src_rows (fst st1)))"
    using write_change_ok [OF st1(2) fit1, of debug] by blast
  then show ?thesis using st1
    by (auto simp: gen_push_and_write_def split_beta same_source_def write_done_def)
qed

section \<open>Whole pushes\<close>

lemma guards_sound_sub:
  assumes "guards_sound t change" "set (change_rows c') \<subseteq> set (change_rows change)"
    "live_slots t' = live_slots t" "\<forall>i<length (conns t). filters (conns t' ! i) = filters (conns t ! i)"
  shows "guards_sound t' c'"
proof -
  have "guard_sound (conns t' ! i) r = guard_sound (conns t ! i) r" if "i \<in> set (live_slots t)" for i r
    using that assms(4) by (simp add: guard_sound_def live_slots_iff)
  then show ?thesis using assms(1-3) by (auto simp: guards_sound_def)
qed

lemma split_decided_typed:
  assumes "src_ok ty s" "typed_row ty (src_width s) r" "typed_row ty (src_width s) old"
  shows "\<exists>b. should_split_edit (ms_conns s) r old = Some b"
proof -
  have "table_ok (ms_conns s)" using assms(1) by (simp add: src_ok_def)
  moreover have "\<forall>i\<in>set (live_slots (ms_conns s)). \<forall>k\<in>set (split_edit_keys (conns (ms_conns s) ! i)). k < src_width s"
    using assms(1) by (auto simp: src_ok_def conn_ok_def live_slots_iff)
  ultimately show ?thesis using should_split_edit_iff assms(2,3) by blast
qed

lemma split_decided:
  assumes "src_ok ty s" "fits ty s (EditRow r old)"
  shows "\<exists>b. should_split_edit (ms_conns s) r old = Some b"
  by (rule split_decided_typed [OF assms(1)]) (use assms(2) in \<open>auto simp: fits_def change_fits_def\<close>)

lemma next_epoch_ok:
  assumes "unat (ms_epoch s) + 1 < 2 ^ 32"
  shows "next_epoch debug s = Some (ms_epoch s + 1, s \<lparr> ms_epoch := ms_epoch s + 1 \<rparr>)" "unat (ms_epoch s + 1) = unat (ms_epoch s) + 1"
proof -
  have "ms_epoch s \<noteq> - 1" using assms by (auto simp: unsigned_minus_1_eq_mask mask_eq_exp_minus_1)
  then show "next_epoch debug s = Some (ms_epoch s + 1, s \<lparr> ms_epoch := ms_epoch s + 1 \<rparr>)"
    by (simp add: next_epoch_def Let_def)
  show "unat (ms_epoch s + 1) = unat (ms_epoch s) + 1"
    using assms by (simp add: unat_word_ariths)
qed

text \<open>What a whole push leaves behind; the fallible entry point returns the same state and no error.\<close>

definition push_done :: "(col_id \<Rightarrow> kind) \<Rightarrow> ('w \<Rightarrow> bool) \<Rightarrow> ('w \<Rightarrow> 'w \<Rightarrow> bool) \<Rightarrow> bool \<Rightarrow> 'w deliver \<Rightarrow> source_change \<Rightarrow> memory_source \<times> 'w \<Rightarrow> memory_source \<times> 'w \<Rightarrow> bool" where
  "push_done ty G F debug f change st st' \<longleftrightarrow> push debug f change st = Some st' \<and> (\<forall>strict. try_push debug f change strict st = Some (st', None)) \<and>
     src_ok ty (fst st') \<and> set (src_rows (fst st')) = change_set change (set (src_rows (fst st))) \<and> ms_overlay (fst st') = None \<and>
     ms_primary_key (fst st') = ms_primary_key (fst st) \<and> ms_schema (fst st') = ms_schema (fst st) \<and>
     unat (ms_epoch (fst st')) \<le> unat (ms_epoch (fst st)) + 2 \<and> G (snd st') \<and> F (snd st) (snd st') \<and>
     (\<forall>c. guards_sound (ms_conns (fst st)) c \<longrightarrow> guards_sound (ms_conns (fst st')) c)"

lemma guards_sound_bump: "guards_sound t c \<Longrightarrow> guards_sound (bump_wired e ss t) c"
  using bump_wired_same [of e ss t] by (elim guards_sound_sub) auto

lemma env_epoch:
  assumes "unat (ms_epoch (fst st)) + 1 < 2 ^ 32" "src_ok ty (fst st)"
  defines "st1 \<equiv> (fst st \<lparr> ms_epoch := ms_epoch (fst st) + 1 \<rparr>, snd st)"
  shows "env_next_epoch (source_env debug f) st = Some (ms_epoch (fst st) + 1, st1)" "src_ok ty (fst st1)" "ms_conns (fst st1) = ms_conns (fst st)"
    "src_rows (fst st1) = src_rows (fst st)" "unat (ms_epoch (fst st1)) = unat (ms_epoch (fst st)) + 1" "fits ty (fst st1) c = fits ty (fst st) c"
    "ms_primary_key (fst st1) = ms_primary_key (fst st)" "ms_schema (fst st1) = ms_schema (fst st)" "snd st1 = snd st"
  using next_epoch_ok [OF assms(1)] assms(2) by (simp_all add: source_env_def split_beta st1_def fits_def src_width_def)

lemma env_table_source [simp]: "env_table (source_env debug f) st = ms_conns (fst st)"
  by (simp add: source_env_def split_beta)

lemma push_unsplit:
  assumes ok: "src_ok ty (fst st)" and G: "G (snd st)" and D: "deliver_keeps ty G F f" "reflp F" "transp F" and fit: "fits ty (fst st) change"
    and snd: "guards_sound (ms_conns (fst st)) change" and ep: "unat (ms_epoch (fst st)) + 2 < 2 ^ 32"
    and no: "\<nexists>r old. change = EditRow r old \<and> should_split_edit (ms_conns (fst st)) r old = Some True"
  shows "\<exists>st'. push_done ty G F debug f change st st'"
proof -
  have "unat (ms_epoch (fst st)) + 1 < 2 ^ 32" using ep by simp
  note n = env_epoch [OF this ok]
  define st1 where "st1 = (fst st \<lparr> ms_epoch := ms_epoch (fst st) + 1 \<rparr>, snd st)"
  note n = n [folded st1_def]
  obtain st' where st': "write_step debug f change (ms_epoch (fst st) + 1) st1 = Some st'" "write_done ty G F change (ms_epoch (fst st) + 1) st1 st'"
    using push_write_keeps [OF n(2) _ D, of change debug "ms_epoch (fst st) + 1"] G n(3,6,9) fit snd by metis
  have t: "try_gen_push_and_write (source_env debug f) (\<lambda>(s, w) r. map_option Inr (row_exists s r))
      (\<lambda>c (s, w). infallible (map_option (\<lambda>s'. (s', w)) (write_change debug c s))) debug strict change (ms_epoch (fst st) + 1) st1 = Some (st', None)" for strict
    using try_write_fits [OF n(2)] n(6) fit st'(1) by simp
  have split: "(case change of EditRow r old \<Rightarrow> should_split_edit (ms_conns (fst st)) r old | _ \<Rightarrow> Some False) = Some False"
  proof (cases change)
    case (EditRow r old)
    then show ?thesis using no split_decided [OF ok, of r old] fit by auto
  qed simp_all
  have "push debug f change st = Some st'" "\<forall>strict. try_push debug f change strict st = Some (st', None)"
    unfolding push_def try_push_def gen_push_and_write_with_split_edit_def try_gen_push_and_write_with_split_edit_def env_table_source split n(1)
    using st'(1) t by (cases change; simp)+
  then show ?thesis using st'(2) n guards_sound_bump unfolding push_done_def write_done_def by fastforce
qed

lemma push_split:
  assumes ok: "src_ok ty (fst st)" and G: "G (snd st)" and D: "deliver_keeps ty G F f" "reflp F" "transp F" and fit: "fits ty (fst st) (EditRow r old)"
    and snd: "guards_sound (ms_conns (fst st)) (EditRow r old)" and ep: "unat (ms_epoch (fst st)) + 2 < 2 ^ 32"
    and yes: "should_split_edit (ms_conns (fst st)) r old = Some True"
  shows "\<exists>st'. push_done ty G F debug f (EditRow r old) st st'"
proof -
  let ?attempt = "\<lambda>strict. try_gen_push_and_write (source_env debug f) (\<lambda>(s, w) r. map_option Inr (row_exists s r))
      (\<lambda>c (s, w). infallible (map_option (\<lambda>s'. (s', w)) (write_change debug c s))) debug strict"
  have "unat (ms_epoch (fst st)) + 1 < 2 ^ 32" using ep by simp
  note n = env_epoch [OF this ok]
  define st1 where "st1 = (fst st \<lparr> ms_epoch := ms_epoch (fst st) + 1 \<rparr>, snd st)"
  note n = n [folded st1_def]
  have f: "fits ty (fst st1) (RemoveRow old)" unfolding n(6) using fit by (simp add: fits_def change_fits_def)
  have g: "guards_sound (ms_conns (fst st1)) (RemoveRow old)" by (rule guards_sound_sub [OF snd]) (simp_all add: n(3))
  obtain st2 where st2: "write_step debug f (RemoveRow old) (ms_epoch (fst st) + 1) st1 = Some st2" "write_done ty G F (RemoveRow old) (ms_epoch (fst st) + 1) st1 st2"
    using push_write_keeps [OF n(2) _ D f g, of debug "ms_epoch (fst st) + 1"] G n(9) by metis
  note w2 = st2(2) [unfolded write_done_def]
  have "unat (ms_epoch (fst st2)) + 1 < 2 ^ 32" "src_ok ty (fst st2)" using w2 n(5) ep by simp_all
  note m = env_epoch [OF this]
  define st3 where "st3 = (fst st2 \<lparr> ms_epoch := ms_epoch (fst st2) + 1 \<rparr>, snd st2)"
  note m = m [folded st3_def]
  have f3: "fits ty (fst st3) (AddRow r)" unfolding m(6) using fit w2 n by (auto simp: fits_def change_fits_def src_width_def)
  have g3: "guards_sound (ms_conns (fst st3)) (AddRow r)"
    by (rule guards_sound_sub [OF snd]) (use w2 n(3) m(3) bump_wired_same in auto)
  obtain st4 where st4: "write_step debug f (AddRow r) (ms_epoch (fst st2) + 1) st3 = Some st4" "write_done ty G F (AddRow r) (ms_epoch (fst st2) + 1) st3 st4"
    using push_write_keeps [OF m(2) _ D f3 g3, of debug "ms_epoch (fst st2) + 1"] w2 m(9) by metis
  have t: "?attempt strict (RemoveRow old) (ms_epoch (fst st) + 1) st1 = Some (st2, None)" "?attempt strict (AddRow r) (ms_epoch (fst st2) + 1) st3 = Some (st4, None)" for strict
    using try_write_fits [OF n(2) f] try_write_fits [OF m(2) f3] st2(1) st4(1) by simp_all
  have "push debug f (EditRow r old) st = Some st4" "\<forall>strict. try_push debug f (EditRow r old) strict st = Some (st4, None)"
    using yes n(1) m(1) st2(1) st4(1) t
    by (simp_all add: push_def try_push_def gen_push_and_write_with_split_edit_def try_gen_push_and_write_with_split_edit_def)
  moreover have "\<forall>c. guards_sound (ms_conns (fst st)) c \<longrightarrow> guards_sound (ms_conns (fst st4)) c"
    using w2 st4(2) n(3) m(3) guards_sound_bump unfolding write_done_def by metis
  moreover have "F (snd st) (snd st4)" using w2 st4(2) n(9) m(9) transpD [OF D(3)] unfolding write_done_def by metis
  ultimately show ?thesis using w2 st4(2) n m unfolding push_done_def write_done_def by auto
qed

lemma push_keeps:
  assumes "src_ok ty (fst st)" "G (snd st)" "deliver_keeps ty G F f" "reflp F" "transp F" "fits ty (fst st) change"
    "guards_sound (ms_conns (fst st)) change" "unat (ms_epoch (fst st)) + 2 < 2 ^ 32"
  shows "\<exists>st'. push_done ty G F debug f change st st'"
proof (cases "\<exists>r old. change = EditRow r old \<and> should_split_edit (ms_conns (fst st)) r old = Some True")
  case True
  then obtain r old where e: "change = EditRow r old" "should_split_edit (ms_conns (fst st)) r old = Some True" by blast
  show ?thesis unfolding e(1) by (rule push_split [where G = G and F = F, OF assms(1-5) assms(6-8) [unfolded e(1)] e(2)])
qed (rule push_unsplit [where G = G and F = F, OF assms])

lemma push_ok:
  assumes "src_ok ty (fst st)" "deliver_ok ty f" "fits ty (fst st) change" "guards_sound (ms_conns (fst st)) change" "unat (ms_epoch (fst st)) + 2 < 2 ^ 32"
  shows "\<exists>st'. push debug f change st = Some st' \<and> src_ok ty (fst st') \<and>
    set (src_rows (fst st')) = change_set change (set (src_rows (fst st))) \<and> ms_overlay (fst st') = None"
  using push_keeps [OF assms(1) TrueI deliver_ok_keeps [OF assms(2)] always_refl_trans assms(3-5)] unfolding push_done_def by blast

section \<open>What each delivery sees\<close>

definition delivery_log :: "conn_table \<Rightarrow> source_change \<Rightarrow> 32 word \<Rightarrow> (slot \<times> source_change \<times> overlay option) list" where
  "delivery_log t change e = map (\<lambda>(s, sc). (s, sc, Some \<lparr> ov_epoch = e, ov_change = change \<rparr>)) (deliveries t change (all_slots t))"

lemma delivery_log_bump:
  assumes "length (conns t) < 2 ^ 32"
  shows "delivery_log (bump_wired e ss t) change e' = delivery_log t change e'"
proof -
  have all: "all_slots (bump_wired e ss t) = all_slots t" using bump_wired_same [of e ss t] by (simp add: all_slots_def)
  have "delivery (bump_wired e ss t) change s = delivery t change s" if s: "s \<in> set (all_slots t)" for s
  proof -
    obtain i where "i < length (conns t)" "unat s = i" using s assms unat_of_nat_slot by (auto simp: all_slots_def)
    then show ?thesis using bump_wired_same [of e ss t] by (simp add: delivery_def Let_def)
  qed
  then have "deliveries (bump_wired e ss t) change (all_slots t) = deliveries t change (all_slots t)"
    unfolding deliveries_def List.map_filter_def by (auto intro!: map_cong filter_cong)
  then show ?thesis by (simp add: delivery_log_def all)
qed

lemma all_slots_in_range: "length (conns t) < 2 ^ 32 \<Longrightarrow> s \<in> set (all_slots t) \<Longrightarrow> unat s < length (conns t)"
  using unat_of_nat_slot by (auto simp: all_slots_def)

lemma push_write_log:
  assumes ok: "src_ok ty (fst st)" and fit: "fits ty (fst st) change" and snd: "guards_sound (ms_conns (fst st)) change"
    and run: "gen_push_and_write (source_env debug record_deliver) ex (\<lambda>c (s, w). map_option (\<lambda>s'. (s', w)) (wr c s)) debug change epoch st = Some st'"
  shows "snd st' = snd st @ delivery_log (ms_conns (fst st)) change epoch"
proof -
  let ?env = "source_env debug record_deliver" and ?t = "ms_conns (fst st)"
  have et: "env_table ?env st = ?t" by (simp add: source_env_def split_beta)
  have tok: "table_ok ?t" using ok by (simp add: src_ok_def)
  then have len: "length (conns ?t) < 2 ^ 32" by (simp add: table_ok_def)
  obtain cs where cs: "table_candidates ?t change = Some cs" "deliveries ?t change cs = deliveries ?t change (all_slots ?t)"
    "set cs \<subseteq> set (all_slots ?t)"
    using deliveries_pruned [OF tok guards_in_range [OF ok fit]] snd unfolding guards_sound_def by blast
  obtain st1 where st1: "fan_out ?env change epoch cs st = Some st1" "snd st' = snd (env_set_overlay ?env None st1)"
    using run cs(1) unfolding gen_push_and_write_def gen_push_def et
    by (auto simp: split_beta split: Option.bind_splits)
  have "\<forall>s\<in>set cs. unat s < length (conns (env_table ?env st))" using cs(3) all_slots_in_range [OF len] et by auto
  then have "snd st1 = snd st @ delivery_log ?t change epoch"
    using recorder.fan_out_log [where ty = ty, OF ok _ st1(1)] cs(2) et by (simp add: delivery_log_def)
  then show ?thesis using st1(2) by (simp add: source_env_def split_beta)
qed

text \<open>The deliveries of a whole push, in order.\<close>

definition push_log :: "memory_source \<Rightarrow> source_change \<Rightarrow> (slot \<times> source_change \<times> overlay option) list" where
  "push_log s change = (let t = ms_conns s; e = ms_epoch s + 1 in case change of
       EditRow r old \<Rightarrow>
         if should_split_edit t r old = Some True
         then delivery_log t (RemoveRow old) e @ delivery_log t (AddRow r) (e + 1)
         else delivery_log t change e
     | _ \<Rightarrow> delivery_log t change e)"

lemma push_recorded:
  assumes ok: "src_ok ty (fst st)" and fit: "fits ty (fst st) change" and snd: "guards_sound (ms_conns (fst st)) change"
    and run: "push debug record_deliver change st = Some st'"
  shows "snd st' = snd st @ push_log (fst st) change"
proof -
  let ?env = "source_env debug record_deliver" and ?ex = "\<lambda>(s, w). row_exists s"
    and ?wr = "\<lambda>c (s, w). map_option (\<lambda>s'. (s', w)) (write_change debug c s)" and ?t = "ms_conns (fst st)"
  have et: "env_table ?env st' = ms_conns (fst st')" for st' by (simp add: source_env_def split_beta)
  have ne: "env_next_epoch ?env st' = Some (e, st1) \<Longrightarrow> e = ms_epoch (fst st') + 1 \<and> st1 = (fst st' \<lparr> ms_epoch := e \<rparr>, snd st')" for st' e st1
    by (auto simp: source_env_def split_beta next_epoch_def Let_def split: if_splits)
  have one: "snd st2 = snd st @ delivery_log ?t c (ms_epoch (fst st) + 1)"
    if "env_next_epoch ?env st = Some (e, st1)" "gen_push_and_write ?env ?ex ?wr debug c e st1 = Some st2"
      "fits ty (fst st) c" "guards_sound ?t c" for c e st1 st2
    using push_write_log [of ty st1 c debug ?ex "write_change debug" e st2] ne [OF that(1)] that ok
    by (simp add: fits_def src_width_def)
  show ?thesis
  proof (cases "\<exists>r old. change = EditRow r old \<and> should_split_edit ?t r old = Some True")
    case True
    then obtain r old where e: "change = EditRow r old" "should_split_edit ?t r old = Some True" by blast
    obtain e1 st1 st2 e2 st3 where r: "env_next_epoch ?env st = Some (e1, st1)"
      "gen_push_and_write ?env ?ex ?wr debug (RemoveRow old) e1 st1 = Some st2" "env_next_epoch ?env st2 = Some (e2, st3)"
      "gen_push_and_write ?env ?ex ?wr debug (AddRow r) e2 st3 = Some st'"
      using run e unfolding push_def gen_push_and_write_with_split_edit_def
      by (auto simp: et split: Option.bind_splits)
    have n1: "e1 = ms_epoch (fst st) + 1" "st1 = (fst st \<lparr> ms_epoch := e1 \<rparr>, snd st)" using ne [OF r(1)] by auto
    have f: "fits ty (fst st) (RemoveRow old)" using fit e(1) by (simp add: fits_def change_fits_def)
    have g: "guards_sound ?t (RemoveRow old)" by (rule guards_sound_sub [OF snd]) (simp_all add: e(1))
    have l2: "snd st2 = snd st @ delivery_log ?t (RemoveRow old) e1" using one [OF r(1,2) f g] n1 by simp
    obtain cs where st2: "src_ok ty (fst st2)" "set (src_rows (fst st2)) = set (src_rows (fst st)) - {old}"
      "ms_primary_key (fst st2) = ms_primary_key (fst st)" "ms_schema (fst st2) = ms_schema (fst st)" "ms_epoch (fst st2) = e1"
      "ms_conns (fst st2) = bump_wired e1 cs ?t"
      using push_write_keeps [OF _ TrueI deliver_ok_keeps [OF record_deliver_ok] always_refl_trans, of ty st1 "RemoveRow old" debug e1] r(2) n1 f g ok
      by (auto simp: fits_def src_width_def write_done_def)
    have n3: "e2 = e1 + 1" "st3 = (fst st2 \<lparr> ms_epoch := e2 \<rparr>, snd st2)" using ne [OF r(3)] st2(5) by auto
    have f3: "fits ty (fst st3) (AddRow r)"
      using fit e(1) st2 n3 by (auto simp: fits_def change_fits_def src_width_def)
    have g3: "guards_sound (ms_conns (fst st3)) (AddRow r)"
      by (rule guards_sound_sub [OF snd]) (use st2(6) bump_wired_same n3 in \<open>simp_all add: e(1)\<close>)
    have "length (conns ?t) < 2 ^ 32" using ok by (simp add: src_ok_def table_ok_def)
    then have "snd st' = snd st2 @ delivery_log ?t (AddRow r) e2"
      using push_write_log [OF _ f3 g3 r(4)] st2(1,6) n3 delivery_log_bump [of ?t e1 cs] by simp
    then show ?thesis using l2 e n1 n3 by (simp add: push_log_def Let_def)
  next
    case False
    obtain e1 st1 where r: "env_next_epoch ?env st = Some (e1, st1)" "gen_push_and_write ?env ?ex ?wr debug change e1 st1 = Some st'"
      using run False unfolding push_def gen_push_and_write_with_split_edit_def
      by (cases change) (auto simp: et split: Option.bind_splits if_splits)
    have "push_log (fst st) change = delivery_log ?t change (ms_epoch (fst st) + 1)"
      using False by (cases change) (auto simp: push_log_def Let_def)
    then show ?thesis using one [OF r fit snd] by simp
  qed
qed

section \<open>Refused pushes\<close>







section \<open>Properties\<close>

definition demo_schema :: table_schema where
  "demo_schema = \<lparr> sch_columns = [''id'', ''owner''], sch_primary_key = [0], sch_sort = [(0, True)] \<rparr>"

abbreviation demo_ty :: "col_id \<Rightarrow> kind" where
  "demo_ty \<equiv> (\<lambda>_. KNum)"

definition demo_rows :: "row list" where
  "demo_rows = [[IntV 2, IntV 7], [IntV 1, IntV 7]]"

lemma demo_typed: "typed_row demo_ty 2 [IntV a, IntV b]"
  by (auto simp: typed_row_def less_2_cases_iff numeral_2_eq_2 less_Suc_eq)

lemma demo_source: "\<exists>s. try_new demo_schema demo_rows = Some (Inr s) \<and> src_ok demo_ty s \<and> set (src_rows s) = set demo_rows \<and>
    ms_overlay s = None \<and> ms_conns s = conn_table_new \<and> ms_schema s = demo_schema \<and> ms_primary_key s = [0] \<and> ms_epoch s = 0"
proof -
  have eqs: "length (sch_columns demo_schema) = 2" "sch_primary_key demo_schema = [0]" by (simp_all add: demo_schema_def)
  have h: "\<forall>r\<in>set demo_rows. typed_row demo_ty 2 r" "distinct demo_rows"
    "\<forall>a\<in>set demo_rows. \<forall>b\<in>set demo_rows. same_key [0] a b \<longrightarrow> a = b" "\<forall>c\<in>set [0]. c < (2::nat)"
    using demo_typed by (simp_all add: demo_rows_def same_key_def cmp_of_def)
  show ?thesis using try_new_ok [of demo_rows demo_ty demo_schema, unfolded eqs, OF h] by blast
qed

lemma demo_fits:
  assumes "set (src_rows s) = set demo_rows" "ms_schema s = demo_schema" "ms_primary_key s = [0]" "ms_conns s = conn_table_new"
  shows "fits demo_ty s (AddRow [IntV 5, IntV 6])" "guards_sound (ms_conns s) (AddRow [IntV 5, IntV 6])"
proof -
  have "src_width s = 2" using assms(2) by (simp add: src_width_def demo_schema_def)
  then show "fits demo_ty s (AddRow [IntV 5, IntV 6])" using assms(1,3) demo_typed
    by (simp add: fits_def change_fits_def demo_rows_def same_key_def cmp_of_def)
  show "guards_sound (ms_conns s) (AddRow [IntV 5, IntV 6])"
    using assms(4) by (simp add: guards_sound_def live_slots_def conn_table_new_def)
qed

text \<open>(C1) Pushing a change that fits the stored rows, through any delivery callback that re-enters the source only
  through reads, always returns; afterwards the source invariant holds (every index sorted by its own sort and holding
  the same rows), the rows are exactly the old rows with the change applied, whether or not the edit was split, and no
  overlay is left.\<close>

theorem push_commits:
  assumes "src_ok ty s" "deliver_ok ty f" "fits ty s change" "guards_sound (ms_conns s) change" "unat (ms_epoch s) + 2 < 2 ^ 32"
  shows "\<exists>s' w'. push debug f change (s, w) = Some (s', w') \<and> src_ok ty s' \<and>
    set (src_rows s') = change_set change (set (src_rows s)) \<and> ms_overlay s' = None"
  using push_ok [of ty "(s, w)" f change debug] assms by auto

theorem push_commits_witness:
  "\<exists>s s' w'. src_ok demo_ty s \<and> set (src_rows s) = set demo_rows \<and> push True record_deliver (AddRow [IntV 5, IntV 6]) (s, []) = Some (s', w') \<and>
    src_ok demo_ty s' \<and> set (src_rows s') = {[IntV 5, IntV 6], [IntV 2, IntV 7], [IntV 1, IntV 7]} \<and> ms_overlay s' = None"
proof -
  obtain s where s: "src_ok demo_ty s" "set (src_rows s) = set demo_rows" "ms_conns s = conn_table_new" "ms_schema s = demo_schema"
      "ms_primary_key s = [0]" "ms_epoch s = 0"
    using demo_source by blast
  note fit = demo_fits [OF s(2,4,5,3)]
  show ?thesis
    using push_commits [OF s(1) record_deliver_ok fit, of True "[]"] s by (auto simp: demo_rows_def)
qed

text \<open>(C6) The order of effects of a push: the changes delivered are those of a full scan over all connections in slot
  order, each filtered by its connection's predicate, and every delivery happens while the overlay carries exactly the
  change in flight under the epoch of this push and nothing of it is written yet; a split edit delivers the removal to
  everyone, and only then the addition under the next epoch.\<close>

theorem push_delivers:
  assumes "src_ok ty s" "fits ty s change" "guards_sound (ms_conns s) change" "unat (ms_epoch s) + 2 < 2 ^ 32"
  shows "\<exists>s'. push debug record_deliver change (s, w) = Some (s', w @ push_log s change)"
proof -
  obtain st' where "push debug record_deliver change (s, w) = Some st'"
    using push_ok [of ty "(s, w)" record_deliver change debug] assms record_deliver_ok by auto
  moreover from this have "snd st' = w @ push_log s change"
    using push_recorded [of ty "(s, w)" change debug st'] assms by simp
  ultimately show ?thesis by (metis prod.collapse)
qed

theorem push_delivers_witness:
  "\<exists>s s'. src_ok demo_ty s \<and> push True record_deliver (AddRow [IntV 5, IntV 6]) (s, []) = Some (s', push_log s (AddRow [IntV 5, IntV 6]))"
proof -
  obtain s where s: "src_ok demo_ty s" "set (src_rows s) = set demo_rows" "ms_conns s = conn_table_new" "ms_schema s = demo_schema"
      "ms_primary_key s = [0]" "ms_epoch s = 0"
    using demo_source by blast
  note fit = demo_fits [OF s(2,4,5,3)]
  show ?thesis
    using push_delivers [OF s(1) fit, of True "[]"] s by auto
qed



end
