(* ===== verification/Fetch.thy ===== *)
theory Fetch
  imports Source_Push Merge
begin

text \<open>
  Fetching from the in-memory source: the seek into an index, the overlay splice, the start gate, the
  constraint cut and the filter together return exactly the rows a reader may see.

  The first sections are about lists; they isolate why the cut at the first row that fails the constraint is
  safe, and why narrowing the overlay before the splice loses nothing.
\<close>

section \<open>The splice as a gap insertion\<close>

definition gap :: "('a \<Rightarrow> 'a \<Rightarrow> ordering option) \<Rightarrow> 'a option \<Rightarrow> 'a list \<Rightarrow> 'a list" where
  "gap cmp A ys = (case A of None \<Rightarrow> ys
     | Some a \<Rightarrow> filter (\<lambda>y. cmp a y \<noteq> Some Less) ys @ a # filter (\<lambda>y. cmp a y = Some Less) ys)"

definition hit :: "('a \<Rightarrow> 'a \<Rightarrow> ordering option) \<Rightarrow> 'a option \<Rightarrow> 'a \<Rightarrow> bool" where
  "hit cmp R y \<longleftrightarrow> (\<exists>d. R = Some d \<and> cmp d y = Some Equal)"

definition keep :: "('a \<Rightarrow> bool) \<Rightarrow> 'a option \<Rightarrow> 'a option" where
  "keep N A = (case A of None \<Rightarrow> None | Some a \<Rightarrow> if N a then Some a else None)"

context comparator_on
begin

lemma emits_gap:
  assumes "sorted_by cmp xs" "set xs \<subseteq> D" "set_option A \<subseteq> D" "set_option R \<subseteq> D"
  shows "emits cmp A R xs = gap cmp A (filter (\<lambda>y. \<not> hit cmp R y) xs)"
proof -
  have "emits cmp None R xs = filter (\<lambda>y. \<not> hit cmp R y) xs"
  proof (cases R)
    case (Some d)
    then show ?thesis using emits_remove [OF assms(1,2,4)] overlay_rows_del [OF assms(1,2), of d] assms(4)
      by (simp add: hit_def)
  qed (simp add: hit_def)
  then show ?thesis using emits_add [OF assms(1,2)] assms(3) by (cases A) (simp_all add: gap_def)
qed

lemma gap_parts:
  assumes "sorted_by cmp ys" "set ys \<subseteq> D" "a \<in> D"
  shows "filter (\<lambda>y. cmp a y \<noteq> Some Less) ys @ filter (\<lambda>y. cmp a y = Some Less) ys = ys"
  using assms(1,2)
proof (induction ys)
  case (Cons y ys)
  show ?case
  proof (cases "cmp a y = Some Less")
    case True
    then have "\<forall>z\<in>set ys. cmp a z = Some Less" using Cons.prems assms(3) cmp_less_trans [of a y] by auto
    then show ?thesis using True by (simp add: filter_id_conv filter_empty_conv)
  next
    case False
    then show ?thesis using Cons by simp
  qed
qed simp

lemma filter_gap:
  assumes "sorted_by cmp ys" "set ys \<subseteq> D" "set_option A \<subseteq> D"
  shows "filter Q (gap cmp A ys) = gap cmp (keep Q A) (filter Q ys)"
proof (cases A)
  case (Some a)
  have "filter Q ys = filter Q (filter (\<lambda>y. cmp a y \<noteq> Some Less) ys) @ filter Q (filter (\<lambda>y. cmp a y = Some Less) ys)"
    using gap_parts [OF assms(1,2), of a] assms(3) Some by (metis filter_append insertI1 option.simps(15) subsetD)
  note parts = this
  show ?thesis
  proof (cases "Q a")
    case True
    then show ?thesis using Some by (simp add: gap_def keep_def conj_commute)
  next
    case False
    then show ?thesis using Some parts by (simp add: gap_def keep_def)
  qed
qed (simp add: gap_def keep_def)

lemma gap_sorted:
  assumes "sorted_by cmp ys" "set ys \<subseteq> D" "set_option A \<subseteq> D"
  shows "sorted_wrt (\<lambda>x y. cmp x y \<noteq> Some Greater) (gap cmp A ys)" "set (gap cmp A ys) = set ys \<union> set_option A"
proof -
  have weak: "sorted_wrt (\<lambda>x y. cmp x y \<noteq> Some Greater) zs" if "sorted_by cmp zs" for zs
    using that unfolding sorted_by_def by (rule sorted_wrt_mono_rel [rotated]) simp
  show "sorted_wrt (\<lambda>x y. cmp x y \<noteq> Some Greater) (gap cmp A ys)"
  proof (cases A)
    case (Some a)
    have a: "a \<in> D" using assms(3) Some by simp
    have le: "cmp y a \<noteq> Some Greater" if "y \<in> set ys" "cmp a y \<noteq> Some Less" for y
      using that assms(2) a not_less_le by blast
    have "cmp y z \<noteq> Some Greater" if "y \<in> set ys" "z \<in> set ys" "cmp a y \<noteq> Some Less" "cmp a z = Some Less" for y z
      using cmp_le_trans [of y a z] le [OF that(1,3)] that assms(2) a by auto
    then show ?thesis using weak [OF sorted_by_filter [OF assms(1)]] le Some by (auto simp: gap_def sorted_wrt_append)
  qed (simp add: gap_def weak [OF assms(1)])
  show "set (gap cmp A ys) = set ys \<union> set_option A" by (cases A) (auto simp: gap_def)
qed

lemma gap_strict:
  assumes "sorted_by cmp ys" "set ys \<subseteq> D" "set_option A \<subseteq> D" "\<forall>a\<in>set_option A. \<forall>y\<in>set ys. cmp a y \<noteq> Some Equal"
  shows "sorted_by cmp (gap cmp A ys)"
proof (cases A)
  case (Some a)
  have a: "a \<in> D" using assms(3) Some by simp
  have lt: "cmp y a = Some Less" if "y \<in> set ys" "cmp a y \<noteq> Some Less" for y
    using cmp_cases [of a y] cmp_gt_iff [of a y] that assms(2,4) a Some by auto
  have "cmp y z = Some Less" if "y \<in> set ys" "z \<in> set ys" "cmp a y \<noteq> Some Less" "cmp a z = Some Less" for y z
    using cmp_less_trans [of y a z] lt [OF that(1,3)] that assms(2) a by auto
  then show ?thesis using sorted_by_filter [OF assms(1)] lt Some
    by (auto simp: gap_def sorted_by_def sorted_wrt_append)
qed (simp add: gap_def assms(1))

lemma spliced_rows_ok:
  assumes L: "sorted_by cmp L" "set L \<subseteq> D" "set_option A \<subseteq> D" "set_option R \<subseteq> set L"
    and new: "\<forall>a\<in>set_option A. \<forall>x\<in>set L - set_option R. cmp a x \<noteq> Some Equal"
  shows "sorted_by cmp (emits cmp A R L)" "set (emits cmp A R L) = (set L - set_option R) \<union> set_option A"
proof -
  have RD: "set_option R \<subseteq> D" using L(2,4) by blast
  have hit: "hit cmp R y \<longleftrightarrow> y \<in> set_option R" if "y \<in> set L" for y
    using sorted_unique [OF L(1,2)] cmp_refl [of y] that L(2,4) by (auto simp: hit_def)
  define ys where "ys = filter (\<lambda>y. \<not> hit cmp R y) L"
  have ys: "sorted_by cmp ys" "set ys \<subseteq> D" "set ys = set L - set_option R"
    using L(1,2) hit by (auto simp: ys_def sorted_by_filter)
  have g: "emits cmp A R L = gap cmp A ys" using emits_gap [OF L(1-3) RD] by (simp add: ys_def)
  show "set (emits cmp A R L) = (set L - set_option R) \<union> set_option A"
    using gap_sorted(2) [OF ys(1,2) L(3)] g ys(3) by simp
  show "sorted_by cmp (emits cmp A R L)"
    using gap_strict [OF ys(1,2) L(3)] new g ys(3) by simp
qed

text \<open>Narrowing the overlay and the scan to anything the final test implies does not change what passes it.\<close>

lemma narrowed_splice:
  assumes L: "sorted_by cmp L" "set L \<subseteq> D" "set_option A \<subseteq> D" "set_option R \<subseteq> D"
    and N: "\<And>r. r \<in> set_option A \<union> set_option R \<Longrightarrow> Q r \<Longrightarrow> N r" "\<And>y. y \<in> set L \<Longrightarrow> Q y \<Longrightarrow> sc y"
    and R: "set_option R \<subseteq> set L"
  shows "filter Q (emits cmp (keep N A) (keep N R) (filter sc L)) = filter Q (emits cmp A R L)"
proof -
  have k: "set_option (keep N A) \<subseteq> D" "set_option (keep N R) \<subseteq> D"
    using L(3,4) by (auto simp: keep_def split: option.splits if_splits)
  have sL: "sorted_by cmp (filter sc L)" "set (filter sc L) \<subseteq> D" using L(1,2) by (auto simp: sorted_by_filter)
  have hits: "hit cmp (keep N R) y = hit cmp R y" if y: "y \<in> set L" "Q y" for y
  proof (cases R)
    case (Some d)
    have "cmp d y = Some Equal \<Longrightarrow> d = y" using sorted_unique [OF L(1,2), of d y] R Some y by auto
    then show ?thesis using N(1) [of d] y Some by (auto simp: hit_def keep_def)
  qed (simp add: hit_def keep_def)
  have "filter Q (filter (\<lambda>y. \<not> hit cmp (keep N R) y) (filter sc L)) = filter Q (filter (\<lambda>y. \<not> hit cmp R y) L)"
    using hits N(2) by (auto intro!: filter_cong)
  moreover have "keep Q (keep N A) = keep Q A" using N(1) by (auto simp: keep_def split: option.split)
  ultimately show ?thesis
    unfolding emits_gap [OF sL k] emits_gap [OF L]
    using filter_gap [OF sorted_by_filter [OF sL(1)] _ k(1)] filter_gap [OF sorted_by_filter [OF L(1)] _ L(3)] sL(2) L(2)
    by (auto simp: subset_iff)
qed

end

section \<open>The generators after the splice\<close>

lemma start_latch_drop:
  "\<forall>r\<in>set xs. reached r = Some (p r) \<Longrightarrow> start_latch reached False xs = Some (dropWhile (\<lambda>r. \<not> p r) xs)"
proof (induction xs)
  case (Cons x xs)
  have on: "start_latch reached True ys = Some ys" for ys by (induction ys) simp_all
  show ?case using Cons by (simp add: on)
qed simp

lemma take_while_opt_total:
  "\<forall>r\<in>set xs. q r = Some (c r) \<Longrightarrow> take_while_opt q xs = Some (takeWhile c xs)"
  by (induction xs) auto

text \<open>When the rows that pass the cut come first, and passing the start gate is monotone among them, the gate and the
  cut are filters.\<close>

lemma gate_and_cut:
  assumes "sorted_wrt (\<lambda>x y. c y \<longrightarrow> c x) xs" "sorted_wrt (\<lambda>x y. c x \<longrightarrow> c y \<longrightarrow> p x \<longrightarrow> p y) xs"
  shows "takeWhile c (dropWhile (\<lambda>r. \<not> p r) xs) = filter (\<lambda>r. c r \<and> p r) xs"
  using assms
proof (induction xs)
  case (Cons x xs)
  have none: "filter (\<lambda>r. c r \<and> p r) xs = []" if "\<not> c x" using that Cons.prems(1) by (auto simp: filter_empty_conv)
  have tw: "takeWhile c xs = filter c xs" if "sorted_wrt (\<lambda>x y. c y \<longrightarrow> c x) xs" for xs
    using that by (induction xs) (auto simp: filter_empty_conv)
  show ?case
  proof (cases "p x")
    case True
    show ?thesis
    proof (cases "c x")
      case cx: True
      then have "filter (\<lambda>r. c r \<and> p r) xs = filter c xs" using Cons.prems(2) True by (auto intro!: filter_cong)
      then show ?thesis using True cx tw Cons.prems(1) by simp
    next
      case False
      then show ?thesis using True none by simp
    qed
  next
    case False
    then show ?thesis using Cons by simp
  qed
qed simp

section \<open>Seeking a constraint\<close>

definition row_matches :: "row_constraint \<Rightarrow> row \<Rightarrow> bool" where
  "row_matches c r \<longleftrightarrow> (\<forall>(col, v)\<in>set c. cells_join (r ! col) v)"

definition seek_bound :: "row_constraint \<Rightarrow> bool \<Rightarrow> col_id \<Rightarrow> bool \<Rightarrow> bound" where
  "seek_bound c rev' col asc = (case map_of c col of Some v \<Rightarrow> BVal v | None \<Rightarrow> if rev' = asc then BMax else BMin)"

lemma scan_start_map: "build_scan_start c srt rev' = map (\<lambda>(col, asc). (col, seek_bound c rev' col asc)) srt"
  by (auto simp: build_scan_start_def seek_bound_def split: option.split)

lemma map_of_pairs: "map_of (map (\<lambda>(col, asc). (col, f col asc)) srt) col = map_option (f col) (map_of srt col)"
  by (induction srt) auto

lemma scan_start_val:
  assumes "map_of c col = Some v" "(col, asc) \<in> set srt"
  shows "map_of (build_scan_start c srt rev') col = Some (BVal v)"
proof -
  obtain asc' where "map_of srt col = Some asc'" using assms(2) weak_map_of_SomeI by force
  then show ?thesis using assms(1) by (simp add: scan_start_map map_of_pairs seek_bound_def)
qed

lemma scan_start_ok:
  assumes "typed_constraint ty n c"
  shows "bound_ok ty (build_scan_start c srt rev')"
  unfolding bound_ok_def
proof (intro allI impI)
  fix col v assume "map_of (build_scan_start c srt rev') col = Some (BVal v)"
  then obtain asc where "seek_bound c rev' col asc = BVal v" by (auto simp: scan_start_map map_of_pairs)
  then have "map_of c col = Some v" by (simp add: seek_bound_def split: option.splits if_splits)
  then show "conforms (ty col) v" using assms by (auto simp: typed_constraint_def dest!: map_of_SomeD)
qed

text \<open>Cells that join compare equal.\<close>

lemma joined_equal: "conforms k a \<Longrightarrow> conforms k b \<Longrightarrow> cells_join a b \<Longrightarrow> compare_values a b = Some Equal"
  by (simp add: compare_values_conforms cells_join_def)

lemma equal_joins:
  assumes "conforms k a" "conforms k b" "compare_values a b = Some Equal" "cells_join b w"
  shows "cells_join a w"
proof -
  have "compare_predicate_values b a = Equal" 
    using compare_values_conforms [OF assms(1,2)] assms(3) compare_predicate_flip [of a b]
    by (cases "compare_predicate_values b a") auto
  then have "cells_join b a" using assms(4) by (simp add: cells_join_def)
  then show ?thesis using cells_join_sym cells_join_trans assms(4) by blast
qed

text \<open>A row that matches the constraint lies at or after the seek bound; a row at or after it that does not match
  comes strictly after every row that matches.\<close>

definition dir :: "bool \<Rightarrow> ordering" where
  "dir rev' = (if rev' then Greater else Less)"

lemma seek_includes_loop:
  assumes "typed_row ty n r" "typed_constraint ty n c" "row_matches c r" "sort_cols n srt"
    and "srt' = pre @ srt" "\<forall>(col, asc)\<in>set pre. map_of c col \<noteq> None"
  shows "cmp_bound_row srt (build_scan_start c srt' rev') r \<in> {Some Equal, Some (dir rev')}"
  using assms(4-6)
proof (induction srt arbitrary: pre)
  case (Cons ca srt)
  obtain col asc where ca: "ca = (col, asc)" by fastforce
  have mem: "(col, asc) \<in> set srt'" and colN: "col < n" using Cons.prems by (auto simp: ca sort_cols_def)
  show ?case
  proof (cases "map_of c col")
    case (Some v)
    have IH: "cmp_bound_row srt (build_scan_start c srt' rev') r \<in> {Some Equal, Some (dir rev')}"
      using Cons.IH [of "pre @ [ca]"] Cons.prems Some by (simp add: sort_cols_def ca)
    have v: "(col, v) \<in> set c" using Some by (rule map_of_SomeD)
    have "compare_values v (r ! col) = Some Equal"
      using assms(1-3) v colN joined_equal [of "ty col" v "r ! col"] cells_join_sym
      by (fastforce simp: typed_row_def typed_constraint_def row_matches_def)
    then show ?thesis using scan_start_val [OF Some mem, of rev'] IH colN assms(1)
      by (simp add: ca row_col_def typed_row_def)
  next
    case None
    then have "col \<notin> fst ` set pre" using Cons.prems(3) by fastforce
    then have "map_of pre col = None" by (simp add: map_of_eq_None_iff)
    then have "map_of srt' col = Some asc" using Cons.prems(2) by (simp add: ca map_add_def)
    then have "map_of (build_scan_start c srt' rev') col = Some (if rev' = asc then BMax else BMin)"
      using None by (simp add: scan_start_map map_of_pairs seek_bound_def)
    then show ?thesis by (cases asc; cases rev') (simp_all add: ca dir_def)
  qed
qed simp

lemma seek_includes:
  assumes "typed_row ty n r" "typed_constraint ty n c" "row_matches c r" "sort_cols n srt"
  shows "cmp_bound_row srt (build_scan_start c srt rev') r \<noteq> Some (if rev' then Less else Greater)"
  using seek_includes_loop [OF assms, of srt "[]" rev'] by (auto simp: dir_def)

definition eq_sort :: "row_constraint \<Rightarrow> sort" where
  "eq_sort c = map (\<lambda>(col, v). (col, True)) c"

lemma seek_orders_loop:
  assumes "typed_row ty n x" "typed_row ty n y" "typed_constraint ty n c" "distinct (map fst c)" "row_matches c y"
    and "set c' \<subseteq> set c" "set (eq_sort c') \<subseteq> set srt'" "\<not> row_matches c' x"
    and "cmp_bound_row (eq_sort c' @ rest) (build_scan_start c srt' rev') x \<noteq> Some (if rev' then Less else Greater)"
  shows "compare_rows_loop (eq_sort c' @ rest) y x = Some (dir rev')"
  using assms(6-9)
proof (induction c')
  case Nil
  then show ?case by (simp add: row_matches_def)
next
  case (Cons cv c')
  obtain col v where cv: "cv = (col, v)" by fastforce
  have mem: "(col, v) \<in> set c" "(col, True) \<in> set srt'" using Cons.prems(1,2) by (auto simp: cv eq_sort_def)
  have colN: "col < n" "conforms (ty col) v" using mem(1) assms(3) by (auto simp: typed_constraint_def)
  have cx: "conforms (ty col) (x ! col)" "conforms (ty col) (y ! col)" "col < length x" "col < length y"
    using colN assms(1,2) by (auto simp: typed_row_def)
  have mo: "map_of c col = Some v" using mem(1) assms(4) by simp
  have vb: "map_of (build_scan_start c srt' rev') col = Some (BVal v)" using scan_start_val [OF mo mem(2)] .
  have yv: "cells_join (y ! col) v" using assms(5) mem(1) by (auto simp: row_matches_def)
  then have eq: "compare_values (y ! col) v = Some Equal" using joined_equal cx(2) colN(2) by blast
  have yx: "compare_values (y ! col) (x ! col) = compare_values v (x ! col)"
    using cell_order.cmp_eq_cong [of "y ! col" "ty col" v "x ! col"] eq cx colN by simp
  obtain o' where o': "compare_values v (x ! col) = Some o'"
    using cell_order.cmp_total [of v "ty col" "x ! col"] cx colN by auto
  have bnd: "cmp_bound_row (eq_sort (cv # c') @ rest) (build_scan_start c srt' rev') x =
      (if o' \<noteq> Equal then Some o' else cmp_bound_row (eq_sort c' @ rest) (build_scan_start c srt' rev') x)"
    using vb o' cx by (simp add: eq_sort_def cv row_col_def)
  have loop: "compare_rows_loop (eq_sort (cv # c') @ rest) y x =
      (if o' \<noteq> Equal then Some o' else compare_rows_loop (eq_sort c' @ rest) y x)"
    using yx o' cx by (simp add: eq_sort_def cv compare_cell_def row_col_def apply_dir_def)
  show ?case
  proof (cases "o' = Equal")
    case True
    then have "compare_values (x ! col) v = Some Equal"
      using o' cell_order.cmp_eq_sym [of v "ty col" "x ! col"] cx colN by simp
    moreover have "cells_join v v" using yv cells_join_sym cells_join_trans by blast
    ultimately have "cells_join (x ! col) v" using equal_joins [of "ty col" "x ! col" v v] cx colN by blast
    then have "\<not> row_matches c' x" using Cons.prems(3) by (auto simp: row_matches_def cv)
    then have "compare_rows_loop (eq_sort c' @ rest) y x = Some (dir rev')"
      using Cons.IH Cons.prems bnd True by (simp add: eq_sort_def)
    then show ?thesis using loop True by simp
  next
    case False
    then have "o' = dir rev'" using Cons.prems(4) bnd by (cases o'; cases rev') (auto simp: dir_def)
    then show ?thesis using loop False by simp
  qed
qed

lemma seek_orders:
  assumes "typed_row ty n x" "typed_row ty n y" "typed_constraint ty n c" "distinct (map fst c)" "row_matches c y" "\<not> row_matches c x"
    and "cmp_bound_row (eq_sort c @ rest) (build_scan_start c (eq_sort c @ rest) rev') x \<noteq> Some (if rev' then Less else Greater)"
  shows "compare_rows_rev (eq_sort c @ rest) rev' y x = Some Less"
proof -
  have "compare_rows_loop (eq_sort c @ rest) y x = Some (dir rev')"
    by (rule seek_orders_loop [OF assms(1-5) _ _ assms(6,7)]) auto
  then show ?thesis by (cases rev') (simp_all add: compare_rows_rev_def compare_rows_loop_eq dir_def)
qed

text \<open>Among matching rows the constraint's columns do not matter.\<close>

lemma matching_rows_compare:
  assumes "typed_row ty n x" "typed_row ty n y" "typed_constraint ty n c" "row_matches c x" "row_matches c y"
  shows "compare_rows (eq_sort c @ srt) x y = compare_rows srt x y"
  unfolding compare_rows_loop_eq using assms(3-5)
proof (induction c)
  case (Cons cv c)
  obtain col v where cv: "cv = (col, v)" by fastforce
  have j: "cells_join (x ! col) v" "cells_join (y ! col) v" using Cons.prems by (auto simp: row_matches_def cv)
  then have "cells_join (x ! col) (y ! col)" using cells_join_sym cells_join_trans by blast
  moreover have c: "conforms (ty col) (x ! col)" "conforms (ty col) (y ! col)" "col < length x" "col < length y"
    using Cons.prems(1) assms(1,2) by (auto simp: typed_constraint_def typed_row_def cv)
  ultimately have "compare_values (x ! col) (y ! col) = Some Equal" using joined_equal by blast
  then show ?case using Cons c
    by (auto simp: eq_sort_def cv compare_cell_def row_col_def apply_dir_def typed_constraint_def row_matches_def)
qed (simp add: eq_sort_def)

section \<open>Narrowing\<close>

lemma opt_filter_keep: "\<forall>r\<in>set_option x. p r = Some (N r) \<Longrightarrow> opt_filter p x = Some (keep N x)"
  by (cases x) (auto simp: keep_def)

lemma overlays_filter_keep:
  "\<forall>r\<in>set_option (ov_add o') \<union> set_option (ov_remove o'). p r = Some (N r) \<Longrightarrow>
   overlays_filter p o' = Some \<lparr> ov_add = keep N (ov_add o'), ov_remove = keep N (ov_remove o') \<rparr>"
  using opt_filter_keep [of "ov_add o'" p N] opt_filter_keep [of "ov_remove o'" p N] by (simp add: overlays_filter_def)

lemma keep_keep: "keep N2 (keep N1 x) = keep (\<lambda>r. N1 r \<and> N2 r) x"
  by (auto simp: keep_def split: option.split)

lemma keep_True: "keep (\<lambda>r. True) x = x"
  by (simp add: keep_def split: option.split)

lemma set_keep: "set_option (keep N x) \<subseteq> set_option x"
  by (auto simp: keep_def split: option.splits if_splits)

definition constraint_ok :: "row_constraint option \<Rightarrow> row \<Rightarrow> bool" where
  "constraint_ok constr r \<longleftrightarrow> (\<forall>c. constr = Some c \<longrightarrow> row_matches c r)"

definition predicate_ok :: "(row \<Rightarrow> bool) option \<Rightarrow> row \<Rightarrow> bool" where
  "predicate_ok pred r \<longleftrightarrow> (\<forall>p. pred = Some p \<longrightarrow> p r)"

definition narrow :: "row option \<Rightarrow> row_constraint option \<Rightarrow> sort \<Rightarrow> bool \<Rightarrow> (row \<Rightarrow> bool) option \<Rightarrow> row \<Rightarrow> bool" where
  "narrow start_at constr srt rev' pred r \<longleftrightarrow> (\<forall>st. start_at = Some st \<longrightarrow> compare_rows_rev srt rev' r st \<noteq> Some Less) \<and>
     constraint_ok constr r \<and> predicate_ok pred r"

lemma constraint_matches_row: "typed_row ty n r \<Longrightarrow> typed_constraint ty n c \<Longrightarrow> constraint_matches r c = Some (row_matches c r)"
  using constraint_matches_typed by (simp add: row_matches_def)

lemma rev_total:
  assumes "typed_row ty n a" "typed_row ty n b" "sort_cols n srt"
  shows "\<exists>o'. compare_rows_rev srt rev' a b = Some o'"
  using rev_order.cmp_total [of a ty srt b rev'] typed_row_ok [OF assms(1,3)] typed_row_ok [OF assms(2,3)] by auto

lemma compute_overlays_keep:
  assumes "sort_cols n srt" "\<And>st. start_at = Some st \<Longrightarrow> typed_row ty n st" "\<And>c. constr = Some c \<Longrightarrow> typed_constraint ty n c"
    and "overlays_from_change ovl = o0" "\<forall>r\<in>set_option (ov_add o0) \<union> set_option (ov_remove o0). typed_row ty n r"
  shows "compute_overlays start_at constr ovl srt rev' pred [] =
    Some \<lparr> ov_add = keep (narrow start_at constr srt rev' pred) (ov_add o0),
           ov_remove = keep (narrow start_at constr srt rev' pred) (ov_remove o0) \<rparr>"
proof -
  define N1 where "N1 r \<longleftrightarrow> (\<forall>st. start_at = Some st \<longrightarrow> compare_rows_rev srt rev' r st \<noteq> Some Less)" for r
  let ?rows = "\<lambda>x. set_option (ov_add x) \<union> set_option (ov_remove x)"
  define o1 where "o1 = \<lparr> ov_add = keep N1 (ov_add o0), ov_remove = keep N1 (ov_remove o0) \<rparr>"
  have 1: "(case start_at of None \<Rightarrow> Some o0 | Some s \<Rightarrow> overlays_for_start_at o0 s srt rev') = Some o1"
  proof (cases start_at)
    case (Some st)
    have "(do { c \<leftarrow> compare_rows_rev srt rev' r st; Some (c \<noteq> Less) }) = Some (N1 r)" if "r \<in> ?rows o0" for r
      using rev_total [OF _ assms(2) [OF Some] assms(1), of r rev'] assms(5) that by (auto simp: N1_def Some)
    then show ?thesis using Some overlays_filter_keep [of o0 _ N1] by (simp add: overlays_for_start_at_def o1_def)
  next
    case None
    then have "N1 = (\<lambda>r. True)" by (intro ext) (simp add: N1_def)
    then show ?thesis using None by (simp add: o1_def keep_True)
  qed
  define o2 where "o2 = \<lparr> ov_add = keep (\<lambda>r. N1 r \<and> constraint_ok constr r) (ov_add o0), ov_remove = keep (\<lambda>r. N1 r \<and> constraint_ok constr r) (ov_remove o0) \<rparr>"
  have sub1: "?rows o1 \<subseteq> ?rows o0" using set_keep [of N1] by (auto simp: o1_def)
  have 2: "(case constr of None \<Rightarrow> Some o1 | Some c \<Rightarrow> overlays_for_constraint o1 c) = Some o2"
  proof (cases constr)
    case (Some c)
    have "constraint_matches r c = Some (constraint_ok constr r)" if "r \<in> ?rows o1" for r
      using constraint_matches_row [OF _ assms(3) [OF Some]] assms(5) that sub1 by (auto simp: constraint_ok_def Some)
    then show ?thesis using Some overlays_filter_keep [of o1 _ "constraint_ok constr"]
      by (simp add: overlays_for_constraint_def o1_def o2_def keep_keep)
  qed (simp add: o1_def o2_def constraint_ok_def)
  have 3: "(case pred of None \<Rightarrow> Some o2 | Some p \<Rightarrow> overlays_for_filter_predicate o2 p) =
      Some \<lparr> ov_add = keep (\<lambda>r. (N1 r \<and> constraint_ok constr r) \<and> predicate_ok pred r) (ov_add o0),
             ov_remove = keep (\<lambda>r. (N1 r \<and> constraint_ok constr r) \<and> predicate_ok pred r) (ov_remove o0) \<rparr>"
  proof (cases pred)
    case (Some p)
    then show ?thesis using overlays_filter_keep [of o2 _ "predicate_ok pred"]
      by (simp add: overlays_for_filter_predicate_def o2_def keep_keep predicate_ok_def)
  qed (simp add: o2_def predicate_ok_def)
  have "narrow start_at constr srt rev' pred = (\<lambda>r. (N1 r \<and> constraint_ok constr r) \<and> predicate_ok pred r)"
    by (intro ext) (auto simp: narrow_def N1_def)
  then show ?thesis using 1 2 3 by (simp add: compute_overlays_def Let_def assms(4))
qed

section \<open>Scans\<close>

definition in_scan :: "sort \<Rightarrow> row_bound option \<Rightarrow> bool \<Rightarrow> row \<Rightarrow> bool" where
  "in_scan srt bnd rev' r \<longleftrightarrow> (\<forall>b. bnd = Some b \<longrightarrow> cmp_bound_row srt b r \<noteq> Some (if rev' then Less else Greater))"

definition directed :: "bool \<Rightarrow> 'a list \<Rightarrow> 'a list" where
  "directed rev' xs = (if rev' then rev xs else xs)"

lemma set_directed [simp]: "set (directed rev' xs) = set xs"
  by (simp add: directed_def)

lemma index_scan_directed:
  assumes "index_ok ty srt t" "\<And>b. bnd = Some b \<Longrightarrow> bound_ok ty b"
  shows "(do { c \<leftarrow> (if rev' then values_from_reversed t (map_option (cmp_bound_row srt) bnd) True
                   else values_from t (map_option (cmp_bound_row srt) bnd) True);
              drain (Suc (btree_len t)) c }) = Some (filter (in_scan srt bnd rev') (directed rev' (contents t)))"
proof -
  have "length (contents t) < Suc (btree_len t)" using assms(1) by (simp add: index_ok_def btree_ok_def btree_len_def)
  note scan = index_scan_drain [where inclusive = True and bnd = bnd, OF assms(1) _ this] 
  have "scan_forward (map_option (cmp_bound_row srt) bnd) True (contents t) = filter (in_scan srt bnd False) (contents t)"
    by (cases bnd) (auto simp: scan_forward_def in_scan_def intro!: filter_cong)
  moreover have "scan_reverse (map_option (cmp_bound_row srt) bnd) True (contents t) = filter (in_scan srt bnd True) (rev (contents t))"
    by (cases bnd) (auto simp: scan_reverse_def in_scan_def rev_filter intro!: filter_cong)
  ultimately show ?thesis using scan assms(2) by (cases rev') (simp_all add: directed_def del: drain.simps)
qed

lemma directed_sorted:
  assumes "sorted_by (compare_rows srt) xs" "\<forall>r\<in>set xs. row_ok ty srt r"
  shows "sorted_by (compare_rows_rev srt rev') (directed rev' xs)"
proof (cases rev')
  case True
  have "sorted_wrt (\<lambda>x y. compare_rows srt y x = Some Less) (rev xs)"
    using assms(1) by (simp add: sorted_by_def sorted_wrt_rev)
  moreover have "compare_rows_rev srt True x y = Some Less" if "x \<in> set xs" "y \<in> set xs" "compare_rows srt y x = Some Less" for x y
    using row_order.cmp_gt_iff [of x ty srt y] that assms(2) by (simp add: compare_rows_rev_def)
  ultimately have "sorted_wrt (\<lambda>x y. compare_rows_rev srt True x y = Some Less) (rev xs)"
    by (elim sorted_wrt_mono_rel [rotated]) auto
  then show ?thesis using True by (simp add: sorted_by_def directed_def)
qed (use assms(1) in \<open>simp add: directed_def compare_rows_rev_eq\<close>)

section \<open>What a reader may see\<close>

definition wants :: "fetch_request \<Rightarrow> connection \<Rightarrow> row \<Rightarrow> bool" where
  "wants req conn r \<longleftrightarrow> constraint_ok (req_constraint req) r \<and> predicate_ok (map_option predicate (filters conn)) r \<and>
     (\<forall>st. req_start req = Some st \<longrightarrow> start_reached st (conn_sort conn) (req_reverse req) r = Some True)"

text \<open>The rows visible through a connection: the committed rows, with the change in flight applied when the push has
  reached this connection.\<close>

definition visible_rows :: "memory_source \<Rightarrow> connection \<Rightarrow> row set" where
  "visible_rows s conn = (case gate_overlay (ms_overlay s) (last_pushed_epoch conn) of
       None \<Rightarrow> set (src_rows s)
     | Some o' \<Rightarrow> change_set (ov_change o') (set (src_rows s)))"

text \<open>A request that fits the table: typed, with each column constrained once.\<close>

definition request_typed :: "(col_id \<Rightarrow> kind) \<Rightarrow> nat \<Rightarrow> fetch_request \<Rightarrow> bool" where
  "request_typed ty n req \<longleftrightarrow> (\<forall>c. req_constraint req = Some c \<longrightarrow> typed_constraint ty n c \<and> distinct (map fst c)) \<and>
     (\<forall>st. req_start req = Some st \<longrightarrow> typed_row ty n (start_row st))"

text \<open>One that resumes inside its constraint as well. When the constraint is the whole single-column key there is at most one row,
  and no start bound to resume from.\<close>

definition request_ok :: "(col_id \<Rightarrow> kind) \<Rightarrow> nat \<Rightarrow> col_id list \<Rightarrow> fetch_request \<Rightarrow> bool" where
  "request_ok ty n pk req \<longleftrightarrow>
     (\<forall>c. req_constraint req = Some c \<longrightarrow> typed_constraint ty n c \<and> distinct (map fst c)) \<and>
     (\<forall>st. req_start req = Some st \<longrightarrow> typed_row ty n (start_row st) \<and> constraint_ok (req_constraint req) (start_row st) \<and>
        (\<forall>c. req_constraint req = Some c \<longrightarrow> length pk > 1 \<or> \<not> constraint_matches_primary_key c pk))"

lemma request_ok_typed: "request_ok ty n pk req \<Longrightarrow> request_typed ty n req"
  by (auto simp: request_ok_def request_typed_def)

lemma start_reached_total:
  assumes "typed_row ty n r" "typed_row ty n (start_row st)" "sort_cols n srt"
  shows "start_reached st srt rev' r = Some (start_reached st srt rev' r = Some True)"
  using rev_total [OF assms, of rev'] by (auto simp: start_reached_def)

lemma start_reached_mono:
  assumes "typed_row ty n x" "typed_row ty n y" "typed_row ty n (start_row st)" "sort_cols n srt"
    and "compare_rows_rev srt rev' x y \<noteq> Some Greater" "start_reached st srt rev' x = Some True"
  shows "start_reached st srt rev' y = Some True"
proof -
  let ?c = "compare_rows_rev srt rev'" and ?s = "start_row st"
  have D: "x \<in> {r. row_ok ty srt r}" "y \<in> {r. row_ok ty srt r}" "?s \<in> {r. row_ok ty srt r}"
    using typed_row_ok assms(1-4) by auto
  obtain o1 where o1: "?c x ?s = Some o1" using rev_total [OF assms(1,3,4)] by blast
  obtain o2 where o2: "?c y ?s = Some o2" using rev_total [OF assms(2,3,4)] by blast
  have le: "?c ?s x \<noteq> Some Greater \<Longrightarrow> ?c ?s y \<noteq> Some Greater" using rev_order.cmp_le_trans [OF D(3,1,2)] assms(5) by blast
  have lt: "?c ?s x = Some Less \<Longrightarrow> ?c ?s y = Some Less" using rev_order.cmp_less_le_trans [OF D(3,1,2)] assms(5) by blast
  have g: "?c x ?s = Some Greater \<longleftrightarrow> ?c ?s x = Some Less" "?c y ?s = Some Greater \<longleftrightarrow> ?c ?s y = Some Less"
    "?c x ?s = Some Less \<longleftrightarrow> ?c ?s x = Some Greater" "?c y ?s = Some Less \<longleftrightarrow> ?c ?s y = Some Greater"
    using rev_order.cmp_gt_iff D by blast+
  show ?thesis using assms(6) o1 o2 le lt g by (cases "start_basis st") (auto simp: start_reached_def)
qed

text \<open>The index a request uses, and where it seeks: by the constraint that drives the scan, or else from the start row.\<close>

definition seek_of :: "row_constraint option \<Rightarrow> sort \<Rightarrow> fetch_request \<Rightarrow> row_bound option option" where
  "seek_of fc index_sort req = (case fc of
       Some c \<Rightarrow> Some (Some (build_scan_start c index_sort (req_reverse req)))
     | None \<Rightarrow> (case req_start req of
         None \<Rightarrow> Some None
       | Some st \<Rightarrow> map_option Some (row_bound_of (start_row st) index_sort)))"

lemma fetch_sort_cases:
  "fetch_index_sort pk None srt = srt"
  "fetch_index_sort pk (Some c) srt = eq_sort c @ (if length pk > 1 \<or> \<not> constraint_matches_primary_key c pk then srt else [])"
  by (simp_all add: fetch_index_sort_def eq_sort_def)

lemma pk_constraint_covers:
  "constraint_matches_primary_key c pk \<Longrightarrow> set pk \<subseteq> fst ` set c"
  by (force simp: constraint_matches_primary_key_def list_all_iff list_ex_iff split: if_splits)

definition constraint_typed :: "(col_id \<Rightarrow> kind) \<Rightarrow> nat \<Rightarrow> row_constraint option \<Rightarrow> bool" where
  "constraint_typed ty n fc \<longleftrightarrow> (\<forall>c. fc = Some c \<longrightarrow> typed_constraint ty n c \<and> distinct (map fst c))"

lemma request_constraint_typed: "request_typed ty n req \<Longrightarrow> constraint_typed ty n (req_constraint req)"
  by (simp add: request_typed_def constraint_typed_def)

lemma index_sort_ok:
  assumes "constraint_typed ty n fc" "sort_cols n srt" "covers srt pk"
  shows "sort_cols n (fetch_index_sort pk fc srt)" "covers (fetch_index_sort pk fc srt) pk"
proof -
  have "sort_cols n (eq_sort c)" if "fc = Some c" for c
    using that assms(1) by (auto simp: constraint_typed_def typed_constraint_def sort_cols_def eq_sort_def)
  then show "sort_cols n (fetch_index_sort pk fc srt)"
    using assms(2) by (cases fc) (auto simp: fetch_sort_cases sort_cols_def)
  have "constraint_matches_primary_key c pk \<Longrightarrow> covers (eq_sort c) pk" for c
    using pk_constraint_covers [of c pk] by (force simp: covers_def eq_sort_def)
  then show "covers (fetch_index_sort pk fc srt) pk"
    using assms(3) by (cases fc) (auto simp: fetch_sort_cases covers_def)
qed

section \<open>One fetch\<close>

text \<open>The bound a request seeks: it is well typed, every wanted row is at or after it, and a row at or after it that
  fails the constraint comes after every row that passes.\<close>

lemma seek_of_ok:
  assumes req: "request_typed ty n req" and fc: "constraint_typed ty n fc" and srt: "sort_cols n srt"
    and isort: "I = fetch_index_sort pk fc srt" "sort_cols n I"
  obtains bnd where "seek_of fc I req = Some bnd" "\<And>b. bnd = Some b \<Longrightarrow> bound_ok ty b"
    "\<And>r. typed_row ty n r \<Longrightarrow> constraint_ok fc r \<Longrightarrow>
       (\<And>st. req_start req = Some st \<Longrightarrow> start_reached st srt (req_reverse req) r = Some True) \<Longrightarrow> in_scan I bnd (req_reverse req) r"
    "\<And>x y. typed_row ty n x \<Longrightarrow> typed_row ty n y \<Longrightarrow> in_scan I bnd (req_reverse req) x \<Longrightarrow> constraint_ok fc y \<Longrightarrow>
       \<not> constraint_ok fc x \<Longrightarrow> compare_rows_rev I (req_reverse req) y x = Some Less"
proof (cases fc)
  case (Some c)
  let ?b = "build_scan_start c I (req_reverse req)"
  obtain rest where I: "I = eq_sort c @ rest" using isort(1) Some by (simp add: fetch_sort_cases)
  have c: "typed_constraint ty n c" "distinct (map fst c)" using fc Some by (auto simp: constraint_typed_def)
  show thesis
  proof (rule that [of "Some ?b"])
    show "seek_of fc I req = Some (Some ?b)" by (simp add: seek_of_def Some)
    show "in_scan I (Some ?b) (req_reverse req) r" if "typed_row ty n r" "constraint_ok fc r" for r
      using seek_includes [OF that(1) c(1) _ isort(2), of "req_reverse req"] that(2) by (simp add: in_scan_def constraint_ok_def Some)
    show "compare_rows_rev I (req_reverse req) y x = Some Less" if "typed_row ty n x" "typed_row ty n y"
      "in_scan I (Some ?b) (req_reverse req) x" "constraint_ok fc y" "\<not> constraint_ok fc x" for x y
      using seek_orders [OF that(1,2) c, of rest "req_reverse req"] that(3-5) by (simp add: in_scan_def constraint_ok_def Some I)
  qed (use scan_start_ok [OF c(1)] in auto)
next
  case None
  then have I: "I = srt" using isort(1) by (simp add: fetch_sort_cases)
  show thesis
  proof (cases "req_start req")
    case (Some st)
    have t: "typed_row ty n (start_row st)" using req Some by (simp add: request_typed_def)
    then have ok: "row_ok ty srt (start_row st)" using typed_row_ok srt by blast
    then obtain b where b: "row_bound_of (start_row st) srt = Some b" using row_bound_of_ok by blast
    show thesis
    proof (rule that [of "Some b"])
      show "seek_of fc I req = Some (Some b)" using b by (simp add: seek_of_def None Some I)
      show "in_scan I (Some b) (req_reverse req) r" if r: "typed_row ty n r"
        "\<And>st'. req_start req = Some st' \<Longrightarrow> start_reached st' srt (req_reverse req) r = Some True" for r
      proof -
        have "compare_rows_rev srt (req_reverse req) r (start_row st) \<noteq> Some Less"
          using r(2) [OF Some] by (auto simp: start_reached_def split: basis.splits Option.bind_splits)
        then have "compare_rows srt (start_row st) r \<noteq> Some (if req_reverse req then Less else Greater)"
          using row_order.cmp_gt_iff [of "start_row st" ty srt r] row_order.cmp_gt_iff [of r ty srt "start_row st"] typed_row_ok [OF r(1) srt] ok
          by (auto simp: compare_rows_rev_def)
        then show ?thesis using row_bound_of_cmp [OF b] by (simp add: in_scan_def I)
      qed
    qed (use row_bound_of_bound_ok [OF ok b] None in \<open>auto simp: constraint_ok_def\<close>)
  next
    case ns: None
    show thesis by (rule that [of None]) (auto simp: seek_of_def None ns in_scan_def constraint_ok_def)
  qed
qed

lemma index_conn_compare:
  assumes "constraint_typed ty n fc" "typed_row ty n x" "typed_row ty n y" "constraint_ok fc x" "constraint_ok fc y"
    and I_def: "I = fetch_index_sort pk fc srt"
  shows "compare_rows_rev I rev' x y = compare_rows_rev srt rev' x y \<or>
    (\<exists>c. fc = Some c \<and> constraint_matches_primary_key c pk \<and> \<not> length pk > 1) \<and> compare_rows_rev I rev' x y = Some Equal"
proof (cases fc)
  case (Some c)
  then have c: "typed_constraint ty n c" "row_matches c x" "row_matches c y"
    using assms by (auto simp: constraint_typed_def constraint_ok_def)
  note m = matching_rows_compare [OF assms(2,3) c]
  show ?thesis
  proof (cases "length pk > 1 \<or> \<not> constraint_matches_primary_key c pk")
    case True
    then show ?thesis using m [of srt] by (simp add: I_def Some fetch_sort_cases compare_rows_rev_def)
  next
    case False
    then have "I = eq_sort c @ []" by (simp add: I_def Some fetch_sort_cases)
    moreover have "compare_rows [] x y = Some Equal" by (simp add: compare_rows_loop_eq)
    ultimately show ?thesis using m [of "[]"] False Some by (simp add: compare_rows_rev_def)
  qed
qed (simp add: I_def fetch_sort_cases)

text \<open>At most one row satisfies a constraint of the whole primary key.\<close>

lemma key_match_unique:
  assumes V: "rows_ok ty n pk V" and pk: "\<forall>c\<in>set pk. c < n" and c: "typed_constraint ty n c" "constraint_matches_primary_key c pk"
    and x: "x \<in> V" "row_matches c x" and y: "y \<in> V" "row_matches c y"
  shows "x = y"
proof -
  have t: "typed_row ty n x" "typed_row ty n y" using V x(1) y(1) by (auto simp: rows_ok_def)
  have I: "sort_cols n (eq_sort c)" "covers (eq_sort c) pk"
    using c(1) pk_constraint_covers [OF c(2)] by (auto simp: typed_constraint_def sort_cols_def eq_sort_def) (force simp: covers_def eq_sort_def)
  have "compare_rows (eq_sort c @ []) x y = compare_rows [] x y" by (rule matching_rows_compare [OF t c(1) x(2) y(2)])
  then have "compare_rows (eq_sort c) x y = Some Equal" by (simp add: compare_rows_loop_eq)
  then have "same_key pk x y" using same_key_sort [OF t I] by blast
  then show ?thesis using V x(1) y(1) by (auto simp: rows_ok_def)
qed

text \<open>The overlay of a change that fits the rows: what it adds has no key among the rows that stay, what it removes is
  there, and together they are the change.\<close>

definition gated_fits :: "(col_id \<Rightarrow> kind) \<Rightarrow> memory_source \<Rightarrow> connection \<Rightarrow> bool" where
  "gated_fits ty s conn \<longleftrightarrow> (\<forall>o'. gate_overlay (ms_overlay s) (last_pushed_epoch conn) = Some o' \<longrightarrow>
     change_fits ty (src_width s) (ms_primary_key s) (set (src_rows s)) (ov_change o'))"

lemma gated_overlay_ok:
  assumes "gated_fits ty s conn" "overlays_from_change (gate_overlay (ms_overlay s) (last_pushed_epoch conn)) = o0"
  shows "\<forall>r\<in>set_option (ov_add o0) \<union> set_option (ov_remove o0). typed_row ty (src_width s) r"
    and "set_option (ov_remove o0) \<subseteq> set (src_rows s)"
    and "visible_rows s conn = (set (src_rows s) - set_option (ov_remove o0)) \<union> set_option (ov_add o0)"
    and "\<forall>a\<in>set_option (ov_add o0). \<forall>x\<in>set (src_rows s) - set_option (ov_remove o0). \<not> same_key (ms_primary_key s) x a"
proof (atomize (full), goal_cases)
  case 1
  show ?case
  proof (cases "gate_overlay (ms_overlay s) (last_pushed_epoch conn)")
    case (Some o')
    then show ?thesis using assms by (cases "ov_change o'") (auto simp: gated_fits_def change_fits_def visible_rows_def)
  qed (use assms in \<open>auto simp: visible_rows_def\<close>)
qed

definition started_at :: "fetch_request \<Rightarrow> sort \<Rightarrow> row \<Rightarrow> bool" where
  "started_at req srt r \<longleftrightarrow> (\<forall>st. req_start req = Some st \<longrightarrow> start_reached st srt (req_reverse req) r = Some True)"

lemma wants_alt: "wants req conn r \<longleftrightarrow> constraint_ok (req_constraint req) r \<and> started_at req (conn_sort conn) r \<and>
    predicate_ok (map_option predicate (filters conn)) r"
  by (auto simp: wants_def started_at_def)

lemma started_at_mono:
  assumes req: "request_typed ty n req" and t: "typed_row ty n x" "typed_row ty n y" and srt: "sort_cols n srt"
    and c: "constraint_ok (req_constraint req) x" "constraint_ok (req_constraint req) y"
    and le: "compare_rows_rev (fetch_index_sort pk (req_constraint req) srt) (req_reverse req) x y \<noteq> Some Greater"
    and many: "(\<exists>c. req_constraint req = Some c \<and> constraint_matches_primary_key c pk \<and> \<not> length pk > 1) \<Longrightarrow> req_start req = None"
    and x: "started_at req srt x"
  shows "started_at req srt y"
  unfolding started_at_def
proof (intro allI impI)
  fix st assume st: "req_start req = Some st"
  then have "compare_rows_rev srt (req_reverse req) x y \<noteq> Some Greater"
    using index_conn_compare [OF request_constraint_typed [OF req] t c refl, of pk srt "req_reverse req"] le many by auto
  then show "start_reached st srt (req_reverse req) y = Some True"
    using start_reached_mono [OF t _ srt] req st x by (auto simp: request_typed_def started_at_def)
qed

lemma started_narrow:
  assumes req: "request_ok ty n pk req" and t: "typed_row ty n r" and c: "constraint_ok (req_constraint req) r"
    and "started_at req srt r" "predicate_ok pred r" and I: "I = fetch_index_sort pk (req_constraint req) srt"
  shows "narrow (map_option start_row (req_start req)) (req_constraint req) I (req_reverse req) pred r"
proof -
  have "compare_rows_rev I (req_reverse req) r (start_row st) \<noteq> Some Less" if st: "req_start req = Some st" for st
  proof -
    have "typed_row ty n (start_row st)" "constraint_ok (req_constraint req) (start_row st)" using req st by (auto simp: request_ok_def)
    then have "compare_rows_rev I (req_reverse req) r (start_row st) = compare_rows_rev srt (req_reverse req) r (start_row st)"
      using index_conn_compare [OF request_constraint_typed [OF request_ok_typed [OF req]] t _ c _ I] st req by (fastforce simp: request_ok_def)
    then show ?thesis using assms(4) st by (auto simp: started_at_def start_reached_def split: basis.splits Option.bind_splits)
  qed
  then show ?thesis using c assms(5) by (auto simp: narrow_def)
qed

lemma spliced_typed:
  assumes "sort_cols n I" "sorted_by (compare_rows_rev I rev') L" "\<forall>r\<in>set L. typed_row ty n r"
    "\<forall>r\<in>set_option A \<union> set_option R. typed_row ty n r"
  shows "\<forall>r\<in>set (emits (compare_rows_rev I rev') (keep N A) (keep N R) (filter sc L)). typed_row ty n r"
proof -
  let ?c = "compare_rows_rev I rev'" and ?D = "{r. row_ok ty I r}"
  have D: "typed_row ty n r \<Longrightarrow> r \<in> ?D" for r using typed_row_ok [OF _ assms(1)] by simp
  have kD: "set_option (keep N A) \<subseteq> ?D" "set_option (keep N R) \<subseteq> ?D" using set_keep [of N] assms(4) D by blast+
  have f: "sorted_by ?c (filter P L)" "set (filter P L) \<subseteq> ?D" for P using assms(2,3) D by (auto simp: sorted_by_filter)
  have "emits ?c (keep N A) (keep N R) (filter sc L) = gap ?c (keep N A) (filter (\<lambda>y. \<not> hit ?c (keep N R) y) (filter sc L))"
    by (rule rev_order.emits_gap [OF f kD])
  moreover have "set (gap ?c (keep N A) (filter (\<lambda>y. \<not> hit ?c (keep N R) y) (filter sc L))) =
      set (filter (\<lambda>y. \<not> hit ?c (keep N R) y) (filter sc L)) \<union> set_option (keep N A)"
    using rev_order.gap_sorted(2) [OF sorted_by_filter [OF f(1)] _ kD(1)] f(2) by auto
  ultimately show ?thesis using assms(3,4) set_keep [of N A] by auto
qed

lemma start_gate_ok:
  assumes "\<forall>r\<in>set xs. typed_row ty n r" "request_typed ty n req" "sort_cols n srt"
  shows "generate_with_start xs (req_start req) srt (req_reverse req) = Some (dropWhile (\<lambda>r. \<not> started_at req srt r) xs)"
proof (cases "req_start req")
  case (Some st)
  have "\<forall>r\<in>set xs. start_reached st srt (req_reverse req) r = Some (started_at req srt r)"
    using start_reached_total [OF _ _ assms(3), of ty _ st "req_reverse req"] assms(1,2) Some
    by (simp add: started_at_def request_typed_def)
  then show ?thesis using Some start_latch_drop by (simp add: generate_with_start_def)
qed (simp add: generate_with_start_def started_at_def dropWhile_eq_self_iff)

lemma constraint_cut_ok:
  assumes "\<forall>r\<in>set xs. typed_row ty n r" "request_typed ty n req"
  shows "generate_with_constraint xs (req_constraint req) = Some (takeWhile (constraint_ok (req_constraint req)) xs)"
proof (cases "req_constraint req")
  case (Some c)
  have "\<forall>r\<in>set xs. constraint_matches r c = Some (constraint_ok (req_constraint req) r)"
    using constraint_matches_row [of ty n _ c] assms Some by (auto simp: constraint_ok_def request_typed_def)
  then show ?thesis using Some take_while_opt_total by (simp add: generate_with_constraint_def)
qed (simp add: generate_with_constraint_def constraint_ok_def takeWhile_eq_all_conv [THEN iffD2])

lemma filter_gate_ok:
  "(case pred of None \<Rightarrow> xs | Some p \<Rightarrow> generate_with_filter xs p) = filter (predicate_ok pred) xs"
  by (cases pred) (auto simp: generate_with_filter_def predicate_ok_def intro!: filter_cong)

lemma spliced_scan:
  assumes "sort_cols n I" "request_typed ty n req"
    and "overlays_from_change (gate_overlay ovl last_epoch) = o0" "\<forall>r\<in>set_option (ov_add o0) \<union> set_option (ov_remove o0). typed_row ty n r"
    and "\<forall>r\<in>set rows. typed_row ty n r"
    and "N = narrow (map_option start_row (req_start req)) (req_constraint req) I (req_reverse req) pred"
    and "X = emits (compare_rows_rev I (req_reverse req)) (keep N (ov_add o0)) (keep N (ov_remove o0)) rows"
  shows "generate_with_overlay (map_option start_row (req_start req)) rows (req_constraint req) ovl last_epoch I (req_reverse req) pred [] = Some X"
proof -
  have "compute_overlays (map_option start_row (req_start req)) (req_constraint req) (gate_overlay ovl last_epoch) I (req_reverse req) pred [] =
      Some \<lparr> ov_add = keep N (ov_add o0), ov_remove = keep N (ov_remove o0) \<rparr>"
    unfolding assms(6) by (rule compute_overlays_keep [OF assms(1) _ _ assms(3,4)]) (use assms(2) in \<open>auto simp: request_typed_def\<close>)
  moreover have "overlays_conform ty I \<lparr> ov_add = keep N (ov_add o0), ov_remove = keep N (ov_remove o0) \<rparr>"
    using set_keep [of N] typed_row_ok [OF _ assms(1)] assms(4) unfolding overlays_conform_def overlays.simps by blast
  moreover have "\<forall>r\<in>set rows. row_ok ty I r" using typed_row_ok [OF _ assms(1)] assms(5) by blast
  ultimately show ?thesis using overlay_inner_emits by (simp add: generate_with_overlay_def assms(7) del: emits.simps)
qed

text \<open>What one run of \<open>fetch_one\<close> computes, whatever constraint \<open>fc\<close> drives the scan: the key constraint of the connection's filter, if it
  has one, or that of the request. The rows of the index that the seek keeps are spliced with the narrowed overlay, gated by the
  start bound, cut by the constraint of the request and filtered.\<close>

definition driving :: "fetch_request \<Rightarrow> connection \<Rightarrow> row_constraint option" where
  "driving req conn = (case Option.bind (filters conn) pk_constraint of Some c \<Rightarrow> Some c | None \<Rightarrow> req_constraint req)"

lemma fetch_one_run:
  assumes ok: "src_ok ty s" and live: "live_ix (ms_conns s) cid = Some i" and conn: "conn = conns (ms_conns s) ! i"
    and fits: "gated_fits ty s conn" and req: "request_typed ty (src_width s) req" and fc: "constraint_typed ty (src_width s) (driving req conn)"
    and I: "I = fetch_index_sort (ms_primary_key s) (driving req conn) (conn_sort conn)"
    and bnd: "seek_of (driving req conn) I req = Some bnd" "\<And>b. bnd = Some b \<Longrightarrow> bound_ok ty b"
    and o0: "overlays_from_change (gate_overlay (ms_overlay s) (last_pushed_epoch conn)) = o0"
    and N: "N = narrow (map_option start_row (req_start req)) (req_constraint req) I (req_reverse req) (map_option predicate (filters conn))"
  obtains ixs L where "src_ok ty (s \<lparr> ms_indexes := ixs \<rparr>)" "src_rows (s \<lparr> ms_indexes := ixs \<rparr>) = src_rows s"
    "sorted_by (compare_rows_rev I (req_reverse req)) L" "set L = set (src_rows s)" "\<forall>r\<in>set L. typed_row ty (src_width s) r"
    "fetch_one cid req s = Some (filter (predicate_ok (map_option predicate (filters conn)))
       (takeWhile (constraint_ok (req_constraint req)) (dropWhile (\<lambda>r. \<not> started_at req (conn_sort conn) r)
         (emits (compare_rows_rev I (req_reverse req)) (keep N (ov_add o0)) (keep N (ov_remove o0)) (filter (in_scan I bnd (req_reverse req)) L)))),
       s \<lparr> ms_indexes := ixs \<rparr>)"
proof -
  let ?n = "src_width s" and ?pk = "ms_primary_key s" and ?rev = "req_reverse req" and ?pred = "map_option predicate (filters conn)"
  have i: "i < length (conns (ms_conns s))" using live ok by (auto simp: src_ok_def live_ix_iff table_ok_def)
  then have c: "sort_cols ?n (conn_sort conn)" "covers (conn_sort conn) ?pk" using ok conn by (auto simp: src_ok_def conn_ok_def)
  have I': "sort_cols ?n I" "covers I ?pk" using index_sort_ok [OF fc c] by (simp_all add: I)
  obtain ixs ix where e: "ensure_index I s = Some (s \<lparr> ms_indexes := ixs \<rparr>)" "src_ok ty (s \<lparr> ms_indexes := ixs \<rparr>)"
    "src_rows (s \<lparr> ms_indexes := ixs \<rparr>) = src_rows s" "map_of ixs I = Some ix"
    "holds_rows ty ?n ?pk (set (src_rows s)) (I, ix)" using ensure_index_ok [OF ok I'] by blast
  have h: "index_ok ty I (ix_data ix)" "set (contents (ix_data ix)) = set (src_rows s)" using e(5) by (auto simp: holds_rows_def)
  have R: "rows_ok ty ?n ?pk (set (src_rows s))" using ok by (simp add: src_ok_def)
  define L where "L = directed ?rev (contents (ix_data ix))"
  have L: "sorted_by (compare_rows_rev I ?rev) L" "set L = set (src_rows s)" "\<forall>r\<in>set L. typed_row ty ?n r"
    using directed_sorted [of I "contents (ix_data ix)" ty ?rev] h R by (auto simp: L_def index_ok_def btree_ok_def rows_ok_def)
  note o = gated_overlay_ok [OF fits o0]
  define X where "X = emits (compare_rows_rev I ?rev) (keep N (ov_add o0)) (keep N (ov_remove o0)) (filter (in_scan I bnd ?rev) L)"
  have X: "\<forall>r\<in>set X. typed_row ty ?n r" unfolding X_def by (rule spliced_typed [OF I'(1) L(1,3) o(1)])
  have ov: "generate_with_overlay (map_option start_row (req_start req)) (filter (in_scan I bnd ?rev) L) (req_constraint req)
      (ms_overlay s) (last_pushed_epoch conn) I ?rev ?pred [] = Some X"
    by (rule spliced_scan [OF I'(1) req o0 o(1) _ N X_def]) (use L(3) in auto)
  obtain cur where cur: "(if ?rev then values_from_reversed (ix_data ix) (map_option (cmp_bound_row I) bnd) True
       else values_from (ix_data ix) (map_option (cmp_bound_row I) bnd) True) = Some cur"
    "drain (Suc (btree_len (ix_data ix))) cur = Some (filter (in_scan I bnd ?rev) L)"
    using index_scan_directed [where bnd = bnd and rev' = ?rev, OF h(1) bnd(2)] by (auto simp: L_def bind_eq_Some_conv simp del: drain.simps)
  let ?g = "dropWhile (\<lambda>r. \<not> started_at req (conn_sort conn) r) X"
  have gate: "generate_with_start X (req_start req) (conn_sort conn) ?rev = Some ?g" by (rule start_gate_ok [OF X req c(1)])
  have cut: "generate_with_constraint ?g (req_constraint req) = Some (takeWhile (constraint_ok (req_constraint req)) ?g)"
    by (rule constraint_cut_ok [OF _ req]) (use X set_dropWhileD in fastforce)
  have "fetch_one cid req s = Some (filter (predicate_ok ?pred) (takeWhile (constraint_ok (req_constraint req)) ?g), s \<lparr> ms_indexes := ixs \<rparr>)"
    using live i e(1,4) bnd(1) cur ov gate cut
    by (simp add: fetch_one_def conn [symmetric] driving_def [symmetric] I [symmetric] seek_of_def [symmetric]
        cursor_guard_new_def cursor_guard_drop_def filter_gate_ok del: drain.simps)
  then show thesis using that [OF e(2,3) L] unfolding X_def by blast
qed

text \<open>A connection's key constraint, when it has one, is a constraint of the whole primary key that its predicate implies.\<close>

definition pk_filter_ok :: "(col_id \<Rightarrow> kind) \<Rightarrow> nat \<Rightarrow> col_id list \<Rightarrow> connection \<Rightarrow> bool" where
  "pk_filter_ok ty n pk conn \<longleftrightarrow> (\<forall>f c. filters conn = Some f \<longrightarrow> pk_constraint f = Some c \<longrightarrow>
     typed_constraint ty n c \<and> distinct (map fst c) \<and> constraint_matches_primary_key c pk \<and> (\<forall>r. predicate f r \<longrightarrow> row_matches c r))"

text \<open>What the reader may ask. Between pushes, and through a connection that the change in flight has not reached, any typed request. While
  the overlay is up: a request that resumes inside its constraint, or, when the connection has a key constraint, one without
  constraint and start.\<close>

definition read_ok :: "(col_id \<Rightarrow> kind) \<Rightarrow> memory_source \<Rightarrow> connection \<Rightarrow> fetch_request \<Rightarrow> bool" where
  "read_ok ty s conn req \<longleftrightarrow> request_typed ty (src_width s) req \<and> pk_filter_ok ty (src_width s) (ms_primary_key s) conn \<and>
     (gate_overlay (ms_overlay s) (last_pushed_epoch conn) \<noteq> None \<longrightarrow>
       (if Option.bind (filters conn) pk_constraint = None then request_ok ty (src_width s) (ms_primary_key s) req
        else req_constraint req = None \<and> req_start req = None))"

lemma read_ok_driving: "read_ok ty s conn req \<Longrightarrow> constraint_typed ty (src_width s) (driving req conn)"
  by (auto simp: read_ok_def driving_def constraint_typed_def pk_filter_ok_def request_typed_def bind_eq_Some_conv split: option.splits)

text \<open>A list in which only the first row can pass both the cut and the filter.\<close>

lemma head_only:
  assumes "sorted_wrt (\<lambda>x y. \<not> (c y \<and> q y)) xs"
  shows "filter q (takeWhile c (dropWhile (\<lambda>r. \<not> p r) xs)) = filter (\<lambda>r. (c r \<and> p r) \<and> q r) xs"
proof (cases xs)
  case (Cons x ys)
  have no: "\<not> (c y \<and> q y)" if "y \<in> set ys" for y using assms that Cons by simp
  have "filter q (takeWhile c zs) = []" if "set zs \<subseteq> set ys" for zs
    using no that by (auto simp: filter_empty_conv dest: set_takeWhileD)
  moreover have "set (dropWhile P ys) \<subseteq> set ys" for P using set_dropWhileD by fastforce
  moreover have "filter (\<lambda>r. (c r \<and> p r) \<and> q r) ys = []" using no by (auto simp: filter_empty_conv)
  ultimately show ?thesis using Cons by simp
qed simp

section \<open>Fetches between pushes\<close>

lemma committed_pipeline:
  assumes req: "request_typed ty n req" and fc: "constraint_typed ty n (driving req conn)" and pkf: "pk_filter_ok ty n pk conn"
    and srt: "sort_cols n (conn_sort conn)" and pk: "\<forall>c\<in>set pk. c < n"
    and I: "I = fetch_index_sort pk (driving req conn) (conn_sort conn)" "sort_cols n I"
    and L: "sorted_by (compare_rows_rev I (req_reverse req)) L" "rows_ok ty n pk (set L)"
    and sc: "\<And>x y. typed_row ty n x \<Longrightarrow> typed_row ty n y \<Longrightarrow> sc x \<Longrightarrow> constraint_ok (driving req conn) y \<Longrightarrow>
       \<not> constraint_ok (driving req conn) x \<Longrightarrow> compare_rows_rev I (req_reverse req) y x = Some Less"
  shows "filter (predicate_ok (map_option predicate (filters conn)))
      (takeWhile (constraint_ok (req_constraint req)) (dropWhile (\<lambda>r. \<not> started_at req (conn_sort conn) r) (filter sc L))) =
    filter (wants req conn) (filter sc L)"
proof -
  let ?c = "compare_rows_rev I (req_reverse req)" and ?C = "constraint_ok (req_constraint req)" and ?P = "started_at req (conn_sort conn)"
    and ?Q = "predicate_ok (map_option predicate (filters conn))"
  have t: "typed_row ty n r" if "r \<in> set L" for r using that L(2) by (simp add: rows_ok_def)
  have D: "r \<in> {r. row_ok ty I r}" if "r \<in> set L" for r using typed_row_ok [OF t [OF that] I(2)] by simp
  have gt: "?c y x \<noteq> Some Less" if "?c x y = Some Less" "x \<in> set L" "y \<in> set L" for x y
    using rev_order.cmp_gt_iff [OF D [OF that(3)] D [OF that(2)]] that(1) by (metis option.inject ordering.distinct(3))
  have s: "sorted_wrt (\<lambda>x y. ?c x y = Some Less) (filter sc L)" using L(1) by (simp add: sorted_by_def sorted_wrt_filter)
  have w: "wants req conn = (\<lambda>r. (?C r \<and> ?P r) \<and> ?Q r)" by (intro ext) (simp add: wants_alt)
  have drv: "constraint_ok (driving req conn) r" if "?C r" "?Q r" for r
    using that pkf by (auto simp: driving_def constraint_ok_def predicate_ok_def pk_filter_ok_def bind_eq_Some_conv split: option.splits)
  show ?thesis
  proof (cases "\<exists>c. driving req conn = Some c \<and> constraint_matches_primary_key c pk")
    case True
    then obtain c where c: "driving req conn = Some c" "constraint_matches_primary_key c pk" by blast
    have ct: "typed_constraint ty n c" using fc c(1) by (simp add: constraint_typed_def)
    have "\<not> (?C y \<and> ?Q y)" if "x \<in> set (filter sc L)" "y \<in> set (filter sc L)" "?c x y = Some Less" for x y
    proof
      assume "?C y \<and> ?Q y"
      then have y: "constraint_ok (driving req conn) y" using drv by blast
      have xy: "x \<in> set L" "y \<in> set L" "sc x" using that by auto
      show False
      proof (cases "constraint_ok (driving req conn) x")
        case True
        then have "x = y" using key_match_unique [OF L(2) pk ct c(2) xy(1) _ xy(2)] y by (simp add: constraint_ok_def c(1))
        then show False using that(3) rev_order.cmp_refl [OF D [OF xy(1)]] by simp
      next
        case False
        then show False using sc [OF t t xy(3) y False] gt [OF that(3)] xy by blast
      qed
    qed
    then have "sorted_wrt (\<lambda>x y. \<not> (?C y \<and> ?Q y)) (filter sc L)" by (intro sorted_wrt_mono_rel [OF _ s]) blast
    from head_only [OF this, of ?P] show ?thesis by (simp only: w)
  next
    case False
    have "Option.bind (filters conn) pk_constraint = None"
    proof (rule ccontr)
      assume "Option.bind (filters conn) pk_constraint \<noteq> None"
      then obtain f c where "filters conn = Some f" "pk_constraint f = Some c" by (auto simp: bind_eq_Some_conv)
      then show False using False pkf by (auto simp: driving_def pk_filter_ok_def)
    qed
    then have d: "driving req conn = req_constraint req" by (simp add: driving_def)
    have pre: "sorted_wrt (\<lambda>x y. ?C y \<longrightarrow> ?C x) (filter sc L)"
    proof (rule sorted_wrt_mono_rel [OF _ s], intro impI)
      fix x y assume xy: "x \<in> set (filter sc L)" "y \<in> set (filter sc L)" "?c x y = Some Less" "?C y"
      then have "x \<in> set L" "y \<in> set L" "sc x" by auto
      then show "?C x" using sc [OF t t, of x y, unfolded d] gt [OF xy(3)] xy(4) by blast
    qed
    have mono: "sorted_wrt (\<lambda>x y. ?C x \<longrightarrow> ?C y \<longrightarrow> ?P x \<longrightarrow> ?P y) (filter sc L)"
    proof (rule sorted_wrt_mono_rel [OF _ s], intro impI)
      fix x y assume xy: "x \<in> set (filter sc L)" "y \<in> set (filter sc L)" "?c x y = Some Less" "?C x" "?C y" "?P x"
      show "?P y" by (rule started_at_mono [OF req _ _ srt xy(4,5) _ _ xy(6)]) (use xy t I(1) d False in auto)
    qed
    show ?thesis unfolding gate_and_cut [OF pre mono] by (simp add: w)
  qed
qed

lemma fetch_committed_ok:
  assumes ok: "src_ok ty s" and live: "live_ix (ms_conns s) cid = Some i" and conn: "conn = conns (ms_conns s) ! i"
    and read: "read_ok ty s conn req" and none: "gate_overlay (ms_overlay s) (last_pushed_epoch conn) = None"
  shows "\<exists>xs ixs. fetch_one cid req s = Some (xs, s \<lparr> ms_indexes := ixs \<rparr>) \<and> src_ok ty (s \<lparr> ms_indexes := ixs \<rparr>) \<and>
    src_rows (s \<lparr> ms_indexes := ixs \<rparr>) = src_rows s \<and>
    sorted_by (compare_rows_rev (conn_sort conn) (req_reverse req)) xs \<and> set xs = {r \<in> visible_rows s conn. wants req conn r}"
proof -
  let ?n = "src_width s" and ?pk = "ms_primary_key s" and ?rev = "req_reverse req" and ?fc = "driving req conn"
  define I where "I = fetch_index_sort ?pk ?fc (conn_sort conn)"
  have req: "request_typed ty ?n req" and pkf: "pk_filter_ok ty ?n ?pk conn" using read by (simp_all add: read_ok_def)
  note fc = read_ok_driving [OF read]
  have "i < length (conns (ms_conns s))" using live ok by (auto simp: src_ok_def live_ix_iff table_ok_def)
  then have c: "sort_cols ?n (conn_sort conn)" "covers (conn_sort conn) ?pk" using ok conn by (auto simp: src_ok_def conn_ok_def)
  have I: "sort_cols ?n I" "covers I ?pk" using index_sort_ok [OF fc c] by (simp_all add: I_def)
  obtain bnd where bnd: "seek_of ?fc I req = Some bnd" "\<And>b. bnd = Some b \<Longrightarrow> bound_ok ty b"
    "\<And>r. typed_row ty ?n r \<Longrightarrow> constraint_ok ?fc r \<Longrightarrow> started_at req (conn_sort conn) r \<Longrightarrow> in_scan I bnd ?rev r"
    "\<And>x y. typed_row ty ?n x \<Longrightarrow> typed_row ty ?n y \<Longrightarrow> in_scan I bnd ?rev x \<Longrightarrow> constraint_ok ?fc y \<Longrightarrow>
       \<not> constraint_ok ?fc x \<Longrightarrow> compare_rows_rev I ?rev y x = Some Less"
    using seek_of_ok [OF req fc c(1) I_def I(1)] unfolding started_at_def by blast
  have fits: "gated_fits ty s conn" using none by (simp add: gated_fits_def)
  obtain ixs L where run: "src_ok ty (s \<lparr> ms_indexes := ixs \<rparr>)" "src_rows (s \<lparr> ms_indexes := ixs \<rparr>) = src_rows s"
    "sorted_by (compare_rows_rev I ?rev) L" "set L = set (src_rows s)" "\<forall>r\<in>set L. typed_row ty ?n r"
    "fetch_one cid req s = Some (filter (predicate_ok (map_option predicate (filters conn)))
       (takeWhile (constraint_ok (req_constraint req)) (dropWhile (\<lambda>r. \<not> started_at req (conn_sort conn) r) (filter (in_scan I bnd ?rev) L))),
       s \<lparr> ms_indexes := ixs \<rparr>)"
    using fetch_one_run [OF ok live conn fits req fc I_def bnd(1,2) refl refl] none by (auto simp: keep_def)
  have R: "rows_ok ty ?n ?pk (set L)" "\<forall>c\<in>set ?pk. c < ?n" using ok run(4) by (simp_all add: src_ok_def)
  note pipe = committed_pipeline [OF req fc pkf c(1) R(2) I_def I(1) run(3) R(1) bnd(4)]
  have drv: "constraint_ok ?fc r" if "wants req conn r" for r
    using that pkf by (auto simp: wants_def driving_def constraint_ok_def predicate_ok_def pk_filter_ok_def bind_eq_Some_conv split: option.splits)
  have "in_scan I bnd ?rev r" if "r \<in> set L" "wants req conn r" for r
    using bnd(3) [OF _ drv [OF that(2)]] run(5) that by (simp add: wants_alt)
  then have eq: "filter (wants req conn) (filter (in_scan I bnd ?rev) L) = filter (wants req conn) L" by (auto intro!: filter_cong)
  have set: "set (filter (wants req conn) L) = {r \<in> visible_rows s conn. wants req conn r}"
    using run(4) none by (auto simp: visible_rows_def)
  have "sorted_wrt (\<lambda>x y. compare_rows_rev I ?rev x y = Some Less) (filter (wants req conn) L)"
    using run(3) by (simp add: sorted_by_def sorted_wrt_filter)
  then have "sorted_wrt (\<lambda>x y. compare_rows_rev (conn_sort conn) ?rev x y = Some Less) (filter (wants req conn) L)"
    by (rule sorted_wrt_mono_rel [rotated])
      (use index_conn_compare [OF fc _ _ _ _ I_def, of _ _ ?rev] run(5) drv in fastforce)
  then show ?thesis using run(1,2,6) set pipe eq by (auto simp: sorted_by_def)
qed

section \<open>Fetches while a change is in flight\<close>

text \<open>The spliced rows of the scan, gated, cut and filtered, are the wanted rows of the whole spliced table.\<close>

lemma fetch_pipeline:
  assumes req: "request_ok ty n pk req" and srt: "sort_cols n (conn_sort conn)"
    and I: "I = fetch_index_sort pk (req_constraint req) (conn_sort conn)" "sort_cols n I"
    and L: "sorted_by (compare_rows_rev I (req_reverse req)) L" "\<forall>r\<in>set L. typed_row ty n r"
    and AR: "\<forall>r\<in>set_option A \<union> set_option R. typed_row ty n r" "set_option R \<subseteq> set L"
    and sc: "\<And>r. typed_row ty n r \<Longrightarrow> constraint_ok (req_constraint req) r \<Longrightarrow> started_at req (conn_sort conn) r \<Longrightarrow> sc r"
      "\<And>x y. typed_row ty n x \<Longrightarrow> typed_row ty n y \<Longrightarrow> sc x \<Longrightarrow> constraint_ok (req_constraint req) y \<Longrightarrow>
       \<not> constraint_ok (req_constraint req) x \<Longrightarrow> compare_rows_rev I (req_reverse req) y x = Some Less"
    and N: "N = narrow (map_option start_row (req_start req)) (req_constraint req) I (req_reverse req) (map_option predicate (filters conn))"
    and X: "X = emits (compare_rows_rev I (req_reverse req)) (keep N A) (keep N R) (filter sc L)"
  shows "filter (predicate_ok (map_option predicate (filters conn)))
      (takeWhile (constraint_ok (req_constraint req)) (dropWhile (\<lambda>r. \<not> started_at req (conn_sort conn) r) X)) =
    filter (wants req conn) (emits (compare_rows_rev I (req_reverse req)) A R L)" (is ?eq)
    and "\<forall>r\<in>set X. typed_row ty n r"
proof -
  let ?c = "compare_rows_rev I (req_reverse req)" and ?D = "{r. row_ok ty I r}" and ?C = "constraint_ok (req_constraint req)"
  let ?P = "started_at req (conn_sort conn)"
  define ys where "ys = filter (\<lambda>y. \<not> hit ?c (keep N R) y) (filter sc L)"
  have D: "typed_row ty n r \<Longrightarrow> r \<in> ?D" for r using typed_row_ok [OF _ I(2)] by simp
  have LD: "set L \<subseteq> ?D" "set_option A \<subseteq> ?D" "set_option R \<subseteq> ?D" using L(2) AR D by auto
  have kD: "set_option (keep N A) \<subseteq> ?D" "set_option (keep N R) \<subseteq> ?D" using set_keep [of N] LD by blast+
  have ys: "sorted_by ?c ys" "set ys \<subseteq> ?D" "\<forall>r\<in>set ys. typed_row ty n r \<and> sc r"
    using L LD(1) by (auto simp: ys_def sorted_by_filter)
  have Xg: "X = gap ?c (keep N A) ys"
    unfolding X ys_def by (rule rev_order.emits_gap) (use L(1) LD(1) kD in \<open>auto simp: sorted_by_filter\<close>)
  have mem: "typed_row ty n r \<and> (\<not> ?C r \<longrightarrow> sc r)" if "r \<in> set X" for r
  proof -
    have "r \<in> set ys \<or> r \<in> set_option (keep N A)" using that rev_order.gap_sorted(2) [OF ys(1,2) kD(1)] Xg by auto
    then show ?thesis using ys(3) AR(1) by (auto simp: keep_def N narrow_def split: option.splits if_splits)
  qed
  then show "\<forall>r\<in>set X. typed_row ty n r" by blast
  have weak: "sorted_wrt (\<lambda>x y. ?c x y \<noteq> Some Greater) X" using rev_order.gap_sorted(1) [OF ys(1,2) kD(1)] Xg by simp
  have pre: "sorted_wrt (\<lambda>x y. ?C y \<longrightarrow> ?C x) X"
    by (rule sorted_wrt_mono_rel [OF _ weak]) (use sc(2) rev_order.cmp_gt_iff D mem in blast)
  have mono: "sorted_wrt (\<lambda>x y. ?C x \<longrightarrow> ?C y \<longrightarrow> ?P x \<longrightarrow> ?P y) X"
  proof (rule sorted_wrt_mono_rel [OF _ weak], intro impI)
    fix x y assume xy: "x \<in> set X" "y \<in> set X" "?c x y \<noteq> Some Greater" "?C x" "?C y" "?P x"
    show "?P y" by (rule started_at_mono [OF request_ok_typed [OF req] _ _ srt xy(4,5) _ _ xy(6)]) (use xy mem I(1) req in \<open>auto simp: request_ok_def\<close>)
  qed
  have "filter (wants req conn) X = filter (wants req conn) (emits ?c A R L)"
    unfolding X by (rule rev_order.narrowed_splice [OF L(1) LD])
      (use started_narrow [OF req _ _ _ _ I(1)] AR L(2) sc(1) N in \<open>auto simp: wants_alt\<close>)
  moreover have "wants req conn = (\<lambda>r. (?C r \<and> ?P r) \<and> predicate_ok (map_option predicate (filters conn)) r)"
    by (intro ext) (simp add: wants_alt)
  ultimately show ?eq unfolding gate_and_cut [OF pre mono] by simp
qed

lemma wanted_rows:
  assumes fc: "constraint_typed ty n fc" and I: "I = fetch_index_sort pk fc (conn_sort conn)" "sort_cols n I" "covers I pk"
    and L: "sorted_by (compare_rows_rev I (req_reverse req)) L" "\<forall>r\<in>set L. typed_row ty n r"
    and AR: "\<forall>r\<in>set_option A \<union> set_option R. typed_row ty n r" "set_option R \<subseteq> set L"
    and new: "\<forall>a\<in>set_option A. \<forall>x\<in>set L - set_option R. \<not> same_key pk x a"
    and want: "\<And>r. wants req conn r \<Longrightarrow> constraint_ok fc r"
    and V: "V = (set L - set_option R) \<union> set_option A"
  shows "set (filter (wants req conn) (emits (compare_rows_rev I (req_reverse req)) A R L)) = {r \<in> V. wants req conn r} \<and>
    sorted_by (compare_rows_rev (conn_sort conn) (req_reverse req)) (filter (wants req conn) (emits (compare_rows_rev I (req_reverse req)) A R L))"
proof -
  let ?c = "compare_rows_rev I (req_reverse req)" and ?D = "{r. row_ok ty I r}"
  have D: "typed_row ty n r \<Longrightarrow> r \<in> ?D" for r using typed_row_ok [OF _ I(2)] by simp
  have new': "?c a x \<noteq> Some Equal" if a: "a \<in> set_option A" and x: "x \<in> set L - set_option R" for a x
  proof
    have t: "typed_row ty n a" "typed_row ty n x" using a x L(2) AR by auto
    assume "?c a x = Some Equal"
    then have "?c x a = Some Equal" using rev_order.cmp_eq_sym D t by blast
    then have "compare_rows I x a = Some Equal"
      by (auto simp: compare_rows_rev_def split: Option.bind_splits if_splits)
    then show False using same_key_sort [OF t(2,1) I(2,3)] new a x by blast
  qed
  have LD: "set L \<subseteq> ?D" "set_option A \<subseteq> ?D" using D L(2) AR(1) by auto
  have "\<forall>a\<in>set_option A. \<forall>x\<in>set L - set_option R. ?c a x \<noteq> Some Equal" using new' by blast
  note sp = rev_order.spliced_rows_ok [OF L(1) LD AR(2) this]
  have t: "\<forall>r\<in>set (emits ?c A R L). typed_row ty n r" unfolding sp(2) using L(2) AR(1) by auto
  have "sorted_wrt (\<lambda>x y. ?c x y = Some Less) (filter (wants req conn) (emits ?c A R L))"
    using sp(1) by (simp add: sorted_by_def sorted_wrt_filter)
  then have "sorted_wrt (\<lambda>x y. compare_rows_rev (conn_sort conn) (req_reverse req) x y = Some Less) (filter (wants req conn) (emits ?c A R L))"
    by (rule sorted_wrt_mono_rel [rotated])
      (use index_conn_compare [OF fc _ _ _ _ I(1), of _ _ "req_reverse req"] t want in fastforce)
  then show ?thesis using sp(2) V by (auto simp: sorted_by_def)
qed

lemma fetch_inflight_ok:
  assumes ok: "src_ok ty s" and live: "live_ix (ms_conns s) cid = Some i" and conn: "conn = conns (ms_conns s) ! i"
    and nopk: "Option.bind (filters conn) pk_constraint = None" and fits: "gated_fits ty s conn"
    and req: "request_ok ty (src_width s) (ms_primary_key s) req"
  shows "\<exists>xs ixs. fetch_one cid req s = Some (xs, s \<lparr> ms_indexes := ixs \<rparr>) \<and> src_ok ty (s \<lparr> ms_indexes := ixs \<rparr>) \<and>
    src_rows (s \<lparr> ms_indexes := ixs \<rparr>) = src_rows s \<and>
    sorted_by (compare_rows_rev (conn_sort conn) (req_reverse req)) xs \<and> set xs = {r \<in> visible_rows s conn. wants req conn r}"
proof -
  let ?n = "src_width s" and ?pk = "ms_primary_key s" and ?rev = "req_reverse req"
  have drv: "driving req conn = req_constraint req" using nopk by (simp add: driving_def)
  note rt = request_ok_typed [OF req]
  note fc = request_constraint_typed [OF rt]
  define I where "I = fetch_index_sort ?pk (req_constraint req) (conn_sort conn)"
  have "i < length (conns (ms_conns s))" using live ok by (auto simp: src_ok_def live_ix_iff table_ok_def)
  then have c: "sort_cols ?n (conn_sort conn)" "covers (conn_sort conn) ?pk" using ok conn by (auto simp: src_ok_def conn_ok_def)
  have I: "sort_cols ?n I" "covers I ?pk" using index_sort_ok [OF fc c] by (simp_all add: I_def)
  obtain bnd where bnd: "seek_of (req_constraint req) I req = Some bnd" "\<And>b. bnd = Some b \<Longrightarrow> bound_ok ty b"
    "\<And>r. typed_row ty ?n r \<Longrightarrow> constraint_ok (req_constraint req) r \<Longrightarrow> started_at req (conn_sort conn) r \<Longrightarrow> in_scan I bnd ?rev r"
    "\<And>x y. typed_row ty ?n x \<Longrightarrow> typed_row ty ?n y \<Longrightarrow> in_scan I bnd ?rev x \<Longrightarrow> constraint_ok (req_constraint req) y \<Longrightarrow>
       \<not> constraint_ok (req_constraint req) x \<Longrightarrow> compare_rows_rev I ?rev y x = Some Less"
    using seek_of_ok [OF rt fc c(1) I_def I(1)] unfolding started_at_def by blast
  obtain o0 where o0: "overlays_from_change (gate_overlay (ms_overlay s) (last_pushed_epoch conn)) = o0" by blast
  note o = gated_overlay_ok [OF fits o0]
  obtain ixs L where run: "src_ok ty (s \<lparr> ms_indexes := ixs \<rparr>)" "src_rows (s \<lparr> ms_indexes := ixs \<rparr>) = src_rows s"
    "sorted_by (compare_rows_rev I ?rev) L" "set L = set (src_rows s)" "\<forall>r\<in>set L. typed_row ty ?n r"
    and one: "fetch_one cid req s = Some (filter (predicate_ok (map_option predicate (filters conn)))
       (takeWhile (constraint_ok (req_constraint req)) (dropWhile (\<lambda>r. \<not> started_at req (conn_sort conn) r)
         (emits (compare_rows_rev I ?rev)
           (keep (narrow (map_option start_row (req_start req)) (req_constraint req) I ?rev (map_option predicate (filters conn))) (ov_add o0))
           (keep (narrow (map_option start_row (req_start req)) (req_constraint req) I ?rev (map_option predicate (filters conn))) (ov_remove o0))
           (filter (in_scan I bnd ?rev) L)))),
       s \<lparr> ms_indexes := ixs \<rparr>)"
    using fetch_one_run [OF ok live conn fits rt, unfolded drv, OF fc I_def bnd(1,2) o0 refl] by blast
  have "set_option (ov_remove o0) \<subseteq> set L" using o(2) run(4) by simp
  note pipe = fetch_pipeline [OF req c(1) I_def I(1) run(3,5) o(1) this bnd(3,4) refl refl]
  have "set (filter (wants req conn) (emits (compare_rows_rev I ?rev) (ov_add o0) (ov_remove o0) L)) = {r \<in> visible_rows s conn. wants req conn r} \<and>
      sorted_by (compare_rows_rev (conn_sort conn) ?rev) (filter (wants req conn) (emits (compare_rows_rev I ?rev) (ov_add o0) (ov_remove o0) L))"
    by (rule wanted_rows [OF fc I_def I run(3,5) o(1) _ o(4) [folded run(4)]]) (use o(2,3) run(4) in \<open>auto simp: wants_def\<close>)
  moreover have "fetch_one cid req s = Some (filter (wants req conn) (emits (compare_rows_rev I ?rev) (ov_add o0) (ov_remove o0) L), s \<lparr> ms_indexes := ixs \<rparr>)"
    using one pipe(1) by simp
  ultimately show ?thesis using run(1,2) by blast
qed

lemma fetch_inflight_pk_ok:
  assumes ok: "src_ok ty s" and live: "live_ix (ms_conns s) cid = Some i" and conn: "conn = conns (ms_conns s) ! i"
    and pkc: "filters conn = Some f" "pk_constraint f = Some c" and pkf: "pk_filter_ok ty (src_width s) (ms_primary_key s) conn"
    and fits: "gated_fits ty s conn" and plain: "req_constraint req = None" "req_start req = None"
  shows "\<exists>xs ixs. fetch_one cid req s = Some (xs, s \<lparr> ms_indexes := ixs \<rparr>) \<and> src_ok ty (s \<lparr> ms_indexes := ixs \<rparr>) \<and>
    src_rows (s \<lparr> ms_indexes := ixs \<rparr>) = src_rows s \<and>
    sorted_by (compare_rows_rev (conn_sort conn) (req_reverse req)) xs \<and> set xs = {r \<in> visible_rows s conn. wants req conn r}"
proof -
  let ?n = "src_width s" and ?pk = "ms_primary_key s" and ?rev = "req_reverse req"
  have drv: "driving req conn = Some c" using pkc by (simp add: driving_def)
  have rt: "request_typed ty ?n req" using plain by (simp add: request_typed_def)
  have pc: "typed_constraint ty ?n c" "distinct (map fst c)" "constraint_matches_primary_key c ?pk" "\<And>r. predicate f r \<Longrightarrow> row_matches c r"
    using pkf pkc by (auto simp: pk_filter_ok_def)
  have fc: "constraint_typed ty ?n (Some c)" using pc by (simp add: constraint_typed_def)
  define I where "I = fetch_index_sort ?pk (Some c) (conn_sort conn)"
  have "i < length (conns (ms_conns s))" using live ok by (auto simp: src_ok_def live_ix_iff table_ok_def)
  then have co: "sort_cols ?n (conn_sort conn)" "covers (conn_sort conn) ?pk" using ok conn by (auto simp: src_ok_def conn_ok_def)
  have I: "sort_cols ?n I" "covers I ?pk" using index_sort_ok [OF fc co] by (simp_all add: I_def)
  obtain bnd where bnd: "seek_of (Some c) I req = Some bnd" "\<And>b. bnd = Some b \<Longrightarrow> bound_ok ty b"
    "\<And>r. typed_row ty ?n r \<Longrightarrow> constraint_ok (Some c) r \<Longrightarrow> started_at req (conn_sort conn) r \<Longrightarrow> in_scan I bnd ?rev r"
    "\<And>x y. typed_row ty ?n x \<Longrightarrow> typed_row ty ?n y \<Longrightarrow> in_scan I bnd ?rev x \<Longrightarrow> constraint_ok (Some c) y \<Longrightarrow>
       \<not> constraint_ok (Some c) x \<Longrightarrow> compare_rows_rev I ?rev y x = Some Less"
    using seek_of_ok [OF rt fc co(1) I_def I(1)] unfolding started_at_def by blast
  obtain o0 where o0: "overlays_from_change (gate_overlay (ms_overlay s) (last_pushed_epoch conn)) = o0" by blast
  note o = gated_overlay_ok [OF fits o0]
  define N where "N = narrow (map_option start_row (req_start req)) (req_constraint req) I ?rev (map_option predicate (filters conn))"
  have w: "wants req conn = predicate_ok (map_option predicate (filters conn))" "N = predicate_ok (map_option predicate (filters conn))"
    using plain by (auto simp: wants_def constraint_ok_def N_def narrow_def fun_eq_iff)
  obtain ixs L where run: "src_ok ty (s \<lparr> ms_indexes := ixs \<rparr>)" "src_rows (s \<lparr> ms_indexes := ixs \<rparr>) = src_rows s"
    "sorted_by (compare_rows_rev I ?rev) L" "set L = set (src_rows s)" "\<forall>r\<in>set L. typed_row ty ?n r"
    and one: "fetch_one cid req s = Some (filter (predicate_ok (map_option predicate (filters conn)))
       (takeWhile (constraint_ok (req_constraint req)) (dropWhile (\<lambda>r. \<not> started_at req (conn_sort conn) r)
         (emits (compare_rows_rev I ?rev) (keep N (ov_add o0)) (keep N (ov_remove o0)) (filter (in_scan I bnd ?rev) L)))),
       s \<lparr> ms_indexes := ixs \<rparr>)"
    using fetch_one_run [OF ok live conn fits rt, unfolded drv, OF fc I_def bnd(1,2) o0 N_def] by blast
  let ?E = "emits (compare_rows_rev I ?rev) (ov_add o0) (ov_remove o0) L"
  have D: "typed_row ty ?n r \<Longrightarrow> r \<in> {r. row_ok ty I r}" for r using typed_row_ok [OF _ I(1)] by simp
  have q: "row_matches c r" if "wants req conn r" for r using that pc(4) pkc by (simp add: w(1) predicate_ok_def)
  have "filter (wants req conn) (emits (compare_rows_rev I ?rev) (keep N (ov_add o0)) (keep N (ov_remove o0)) (filter (in_scan I bnd ?rev) L)) =
      filter (wants req conn) ?E"
    by (rule rev_order.narrowed_splice [where ty = ty, OF run(3)])
      (use run(4,5) o(1,2) D w q bnd(3) plain in \<open>auto simp: constraint_ok_def started_at_def\<close>)
  moreover have "constraint_ok (req_constraint req) = (\<lambda>_. True)" "started_at req (conn_sort conn) = (\<lambda>_. True)"
    using plain by (simp_all add: constraint_ok_def started_at_def fun_eq_iff)
  ultimately have xs: "fetch_one cid req s = Some (filter (wants req conn) ?E, s \<lparr> ms_indexes := ixs \<rparr>)"
    using one w(1) by (simp add: takeWhile_eq_all_conv [THEN iffD2])
  have "set (filter (wants req conn) ?E) = {r \<in> visible_rows s conn. wants req conn r} \<and>
      sorted_by (compare_rows_rev (conn_sort conn) ?rev) (filter (wants req conn) ?E)"
    by (rule wanted_rows [OF fc I_def I run(3,5) o(1) _ o(4) [folded run(4)]]) (use o(2,3) run(4) q in \<open>auto simp: constraint_ok_def\<close>)
  then show ?thesis using xs run(1,2) by blast
qed

lemma fetch_one_ok:
  assumes ok: "src_ok ty s" and live: "live_ix (ms_conns s) cid = Some i" and conn: "conn = conns (ms_conns s) ! i"
    and fits: "gated_fits ty s conn" and read: "read_ok ty s conn req"
  shows "\<exists>xs ixs. fetch_one cid req s = Some (xs, s \<lparr> ms_indexes := ixs \<rparr>) \<and> src_ok ty (s \<lparr> ms_indexes := ixs \<rparr>) \<and>
    src_rows (s \<lparr> ms_indexes := ixs \<rparr>) = src_rows s \<and>
    sorted_by (compare_rows_rev (conn_sort conn) (req_reverse req)) xs \<and> set xs = {r \<in> visible_rows s conn. wants req conn r}"
proof (cases "gate_overlay (ms_overlay s) (last_pushed_epoch conn) = None")
  case True
  then show ?thesis by (rule fetch_committed_ok [OF ok live conn read])
next
  case up: False
  show ?thesis
  proof (cases "Option.bind (filters conn) pk_constraint = None")
    case True
    then have "request_ok ty (src_width s) (ms_primary_key s) req" using read up by (simp add: read_ok_def)
    then show ?thesis by (rule fetch_inflight_ok [OF ok live conn True fits])
  next
    case False
    then obtain f c where "filters conn = Some f" "pk_constraint f = Some c" by (auto simp: bind_eq_Some_conv)
    moreover have "pk_filter_ok ty (src_width s) (ms_primary_key s) conn" "req_constraint req = None" "req_start req = None"
      using read up False by (simp_all add: read_ok_def)
    ultimately show ?thesis using fetch_inflight_pk_ok [OF ok live conn _ _ _ fits] by blast
  qed
qed

section \<open>A fetch with multi-constraints\<close>

definition sub_request :: "fetch_request \<Rightarrow> row_constraint \<Rightarrow> fetch_request" where
  "sub_request req c = \<lparr> req_constraint = Some (merge_constraints (req_constraint req) c), multi_constraints = [],
     req_start = req_start req, req_reverse = req_reverse req \<rparr>"

lemma index_update_same [simp]:
  "src_width (s \<lparr> ms_indexes := ixs \<rparr>) = src_width s"
  by (simp add: src_width_def)

lemma index_update_read:
  "src_rows (s \<lparr> ms_indexes := ixs \<rparr>) = src_rows s \<Longrightarrow> visible_rows (s \<lparr> ms_indexes := ixs \<rparr>) conn = visible_rows s conn"
  "src_rows (s \<lparr> ms_indexes := ixs \<rparr>) = src_rows s \<Longrightarrow> gated_fits ty (s \<lparr> ms_indexes := ixs \<rparr>) conn = gated_fits ty s conn"
  "read_ok ty (s \<lparr> ms_indexes := ixs \<rparr>) conn req = read_ok ty s conn req"
  by (simp_all add: visible_rows_def gated_fits_def read_ok_def cong: option.case_cong)

lemma fetch_subs_ok:
  assumes "src_ok ty s" "live_ix (ms_conns s) cid = Some i" "conn = conns (ms_conns s) ! i" "gated_fits ty s conn"
    "\<forall>c\<in>set cs. read_ok ty s conn (sub_request req c)"
  shows "\<exists>xss ixs. fetch_subs cid req cs s = Some (xss, s \<lparr> ms_indexes := ixs \<rparr>) \<and> src_ok ty (s \<lparr> ms_indexes := ixs \<rparr>) \<and>
    src_rows (s \<lparr> ms_indexes := ixs \<rparr>) = src_rows s \<and>
    list_all2 (\<lambda>c xs. sorted_by (compare_rows_rev (conn_sort conn) (req_reverse req)) xs \<and>
      set xs = {r \<in> visible_rows s conn. wants (sub_request req c) conn r}) cs xss"
  using assms
proof (induction cs arbitrary: s)
  case Nil
  then show ?case by (auto intro!: exI [of _ "ms_indexes s"])
next
  case (Cons c cs)
  obtain xs ixs where x: "fetch_one cid (sub_request req c) s = Some (xs, s \<lparr> ms_indexes := ixs \<rparr>)" "src_ok ty (s \<lparr> ms_indexes := ixs \<rparr>)"
    "src_rows (s \<lparr> ms_indexes := ixs \<rparr>) = src_rows s" "sorted_by (compare_rows_rev (conn_sort conn) (req_reverse req)) xs"
    "set xs = {r \<in> visible_rows s conn. wants (sub_request req c) conn r}"
    using fetch_one_ok [OF Cons.prems(1-4), of "sub_request req c"] Cons.prems(5) by (auto simp: sub_request_def)
  let ?s = "s \<lparr> ms_indexes := ixs \<rparr>"
  note v = index_update_read(1,2) [OF x(3)]
  have r: "\<forall>c\<in>set cs. read_ok ty ?s conn (sub_request req c)" using Cons.prems(5) by (simp add: index_update_read(3))
  obtain xss ixs' where y: "fetch_subs cid req cs ?s = Some (xss, ?s \<lparr> ms_indexes := ixs' \<rparr>)" "src_ok ty (?s \<lparr> ms_indexes := ixs' \<rparr>)"
    "src_rows (?s \<lparr> ms_indexes := ixs' \<rparr>) = src_rows ?s"
    "list_all2 (\<lambda>c xs. sorted_by (compare_rows_rev (conn_sort conn) (req_reverse req)) xs \<and>
      set xs = {r \<in> visible_rows ?s conn. wants (sub_request req c) conn r}) cs xss"
    using Cons.IH [OF x(2) _ _ _ r] Cons.prems(2-4) v(2) by auto
  have "fetch_subs cid req (c # cs) s = Some (xs # xss, s \<lparr> ms_indexes := ixs' \<rparr>)"
    using x(1) y(1) by (simp add: sub_request_def)
  moreover have "list_all2 (\<lambda>c xs. sorted_by (compare_rows_rev (conn_sort conn) (req_reverse req)) xs \<and>
      set xs = {r \<in> visible_rows s conn. wants (sub_request req c) conn r}) (c # cs) (xs # xss)"
    using x(4,5) y(4) v(1) by simp
  ultimately show ?case using y(2,3) x(3) by auto
qed

lemma filter_opt_total: "\<forall>r\<in>set xs. p r = Some (q r) \<Longrightarrow> filter_opt p xs = Some (filter q xs)"
  by (induction xs) auto

definition matches_some :: "multi_constraint \<Rightarrow> row \<Rightarrow> bool" where
  "matches_some mc r \<longleftrightarrow> (\<exists>c\<in>set mc. row_matches c r)"

lemma any_matches_row:
  assumes "typed_row ty n r" "\<forall>c\<in>set mc. typed_constraint ty n c"
  shows "any_matches r mc = Some (matches_some mc r)"
  using assms(2) by (induction mc) (auto simp: constraint_matches_row [OF assms(1)] matches_some_def)

lemma all_match_row:
  assumes "typed_row ty n r" "\<forall>mc\<in>set mcs. \<forall>c\<in>set mc. typed_constraint ty n c"
  shows "all_match r mcs = Some (\<forall>mc\<in>set mcs. matches_some mc r)"
  using assms(2) by (induction mcs) (auto simp: any_matches_row [OF assms(1)])

definition multi_ok :: "(col_id \<Rightarrow> kind) \<Rightarrow> memory_source \<Rightarrow> connection \<Rightarrow> fetch_request \<Rightarrow> multi_constraint \<Rightarrow> multi_constraint list \<Rightarrow> bool" where
  "multi_ok ty s conn req primary rest \<longleftrightarrow> filter (\<lambda>mc. mc \<noteq> []) (multi_constraints req) = primary # rest \<and>
     (\<forall>c\<in>set primary. read_ok ty s conn (sub_request req c)) \<and> (\<forall>mc\<in>set rest. \<forall>c\<in>set mc. typed_constraint ty (src_width s) c)"

lemma streams_count:
  assumes "list_all2 (\<lambda>c xs. sorted_by cmp xs \<and> set xs = {r \<in> V. w c r}) cs xss" "\<And>xs. sorted_by cmp xs \<Longrightarrow> set xs \<subseteq> V \<Longrightarrow> distinct xs"
  shows "count (sum_list (map mset xss)) r = (if r \<in> V then length (filter (\<lambda>c. w c r) cs) else 0)"
  using assms(1)
proof (induction rule: list_all2_induct)
  case (Cons c cs xs xss)
  then have "distinct xs" "set xs = {r \<in> V. w c r}" using assms(2) by auto
  then have "count (mset xs) r = (if r \<in> V \<and> w c r then 1 else 0)" by (simp add: distinct_count_atmost_1)
  then show ?case using Cons by simp
qed simp

lemma visible_typed:
  assumes "src_ok ty s" "gated_fits ty s conn" "r \<in> visible_rows s conn"
  shows "typed_row ty (src_width s) r"
  using gated_overlay_ok(1,3) [OF assms(2) refl] src_rows_typed(2) [OF assms(1)] assms(3) by auto

lemma fetch_multi_ok:
  assumes ok: "src_ok ty s" and live: "live_ix (ms_conns s) cid = Some i" and conn: "conn = conns (ms_conns s) ! i"
    and fits: "gated_fits ty s conn" and req: "multi_ok ty s conn req primary rest"
  shows "\<exists>xs ixs. fetch_multi cid req s = Some (xs, s \<lparr> ms_indexes := ixs \<rparr>) \<and> src_ok ty (s \<lparr> ms_indexes := ixs \<rparr>) \<and>
    src_rows (s \<lparr> ms_indexes := ixs \<rparr>) = src_rows s \<and>
    sorted_wrt (\<lambda>x y. compare_rows_rev (conn_sort conn) (req_reverse req) x y \<noteq> Some Greater) xs \<and>
    (\<forall>r. count (mset xs) r = (if r \<in> visible_rows s conn \<and> (\<forall>mc\<in>set rest. matches_some mc r)
       then length (filter (\<lambda>c. wants (sub_request req c) conn r) primary) else 0))"
proof -
  let ?c = "compare_rows_rev (conn_sort conn) (req_reverse req)" and ?V = "visible_rows s conn"
  have mk: "filter (\<lambda>mc. mc \<noteq> []) (multi_constraints req) = primary # rest" using req by (simp add: multi_ok_def)
  obtain xss ixs where x: "fetch_subs cid req primary s = Some (xss, s \<lparr> ms_indexes := ixs \<rparr>)" "src_ok ty (s \<lparr> ms_indexes := ixs \<rparr>)"
    "src_rows (s \<lparr> ms_indexes := ixs \<rparr>) = src_rows s"
    "list_all2 (\<lambda>c xs. sorted_by ?c xs \<and> set xs = {r \<in> ?V. wants (sub_request req c) conn r}) primary xss"
    using fetch_subs_ok [OF ok live conn fits, of primary req] req by (auto simp: multi_ok_def)
  have i: "i < length (conns (ms_conns s))" using live ok by (auto simp: src_ok_def live_ix_iff table_ok_def)
  have srt: "sort_cols (src_width s) (conn_sort conn)" using i ok conn by (auto simp: src_ok_def conn_ok_def)
  have V: "typed_row ty (src_width s) r" "row_ok ty (conn_sort conn) r" if "r \<in> ?V" for r
    using visible_typed [OF ok fits that] typed_row_ok srt by auto
  have st: "\<forall>st\<in>set xss. sorted_by ?c st \<and> set st \<subseteq> ?V"
    using x(4) by (induction rule: list_all2_induct) auto
  have "\<forall>st\<in>set xss. (\<forall>r\<in>set st. row_ok ty (conn_sort conn) r) \<and> sorted_wrt (\<lambda>x y. ?c x y \<noteq> Some Greater) st"
    using st V(2) by (fastforce simp: sorted_by_def intro: sorted_wrt_mono_rel [rotated])
  then obtain ys where ys: "merge_sorted_streams xss (conn_sort conn) (req_reverse req) = Some ys"
    "mset ys = sum_list (map mset xss)" "sorted_wrt (\<lambda>x y. ?c x y \<noteq> Some Greater) ys" using merge_rows_ok by blast
  have dist: "distinct xs" if "sorted_by ?c xs" "set xs \<subseteq> ?V" for xs
    using rev_order.sorted_by_distinct [OF that(1), of ty] that(2) V(2) by blast
  note cnt = streams_count [OF x(4) dist, folded ys(2)]
  then have ysV: "set ys \<subseteq> ?V" by (metis count_greater_zero_iff less_irrefl set_mset_mset subsetI)
  define q where "q r \<longleftrightarrow> (\<forall>mc\<in>set rest. matches_some mc r)" for r
  have "(if rest = [] then Some ys else filter_opt (\<lambda>r. all_match r rest) ys) = Some (filter q ys)"
    using filter_opt_total [of ys "\<lambda>r. all_match r rest" q] all_match_row [OF V(1)] ysV req by (auto simp: q_def multi_ok_def)
  then have "fetch_multi cid req s = Some (filter q ys, s \<lparr> ms_indexes := ixs \<rparr>)"
    using mk x(1) live i ys(1) by (simp add: fetch_multi_def table_sort_def conn)
  moreover have "count (mset (filter q ys)) r = (if r \<in> ?V \<and> q r then length (filter (\<lambda>c. wants (sub_request req c) conn r) primary) else 0)" for r
    using cnt [of r] by (simp add: mset_filter)
  ultimately show ?thesis using x(2,3) sorted_wrt_filter [OF ys(3), of q] unfolding q_def by blast
qed

section \<open>The answer of a fetch\<close>

text \<open>What a list of rows must be to answer a request among the rows \<open>V\<close>. Without multi-constraints: the wanted rows, each once, in the
  order of the connection or its reverse. With them: every row that matches each further multi-constraint, once per alternative of
  the first one that admits it, in that order.\<close>

definition answers :: "fetch_request \<Rightarrow> connection \<Rightarrow> row set \<Rightarrow> row list \<Rightarrow> bool" where
  "answers req conn V xs \<longleftrightarrow> (case filter (\<lambda>mc. mc \<noteq> []) (multi_constraints req) of
       [] \<Rightarrow> sorted_by (compare_rows_rev (conn_sort conn) (req_reverse req)) xs \<and> set xs = {r \<in> V. wants req conn r}
     | primary # rest \<Rightarrow> sorted_wrt (\<lambda>x y. compare_rows_rev (conn_sort conn) (req_reverse req) x y \<noteq> Some Greater) xs \<and>
         (\<forall>r. count (mset xs) r = (if r \<in> V \<and> (\<forall>mc\<in>set rest. matches_some mc r)
            then length (filter (\<lambda>c. wants (sub_request req c) conn r) primary) else 0)))"

definition fetch_ok :: "(col_id \<Rightarrow> kind) \<Rightarrow> memory_source \<Rightarrow> connection \<Rightarrow> fetch_request \<Rightarrow> bool" where
  "fetch_ok ty s conn req \<longleftrightarrow> (case filter (\<lambda>mc. mc \<noteq> []) (multi_constraints req) of
       [] \<Rightarrow> read_ok ty s conn req | primary # rest \<Rightarrow> multi_ok ty s conn req primary rest)"

lemma fetch_answers:
  assumes "src_ok ty s" "live_ix (ms_conns s) cid = Some i" "conn = conns (ms_conns s) ! i" "gated_fits ty s conn" "fetch_ok ty s conn req"
  shows "\<exists>xs ixs. fetch cid req s = Some (xs, s \<lparr> ms_indexes := ixs \<rparr>) \<and> src_ok ty (s \<lparr> ms_indexes := ixs \<rparr>) \<and>
    src_rows (s \<lparr> ms_indexes := ixs \<rparr>) = src_rows s \<and> answers req conn (visible_rows s conn) xs"
proof (cases "filter (\<lambda>mc. mc \<noteq> []) (multi_constraints req)")
  case Nil
  then have "\<not> has_multi req" by (auto simp: has_multi_def list_ex_iff filter_empty_conv)
  then show ?thesis using fetch_one_ok [OF assms(1-4)] assms(5) Nil by (auto simp: fetch_ok_def answers_def fetch_def)
next
  case (Cons primary rest)
  then have "filter (\<lambda>mc. mc \<noteq> []) (multi_constraints req) \<noteq> []" by simp
  then have "has_multi req" by (auto simp: has_multi_def list_ex_iff filter_empty_conv)
  then show ?thesis using fetch_multi_ok [OF assms(1-4), of req primary rest] assms(5) Cons by (auto simp: fetch_ok_def answers_def fetch_def)
qed

context comparator_on
begin

lemma weak_sorted_unique:
  assumes "sorted_wrt (\<lambda>x y. cmp x y \<noteq> Some Greater) xs" "sorted_wrt (\<lambda>x y. cmp x y \<noteq> Some Greater) ys" "mset xs = mset ys"
    "set xs \<subseteq> D" "\<And>x y. x \<in> set xs \<Longrightarrow> y \<in> set xs \<Longrightarrow> cmp x y = Some Equal \<Longrightarrow> x = y"
  shows "xs = ys"
  using assms
proof (induction xs arbitrary: ys)
  case (Cons x xs)
  obtain y ys' where ys: "ys = y # ys'" using Cons.prems(3) by (cases ys) auto
  have mem: "y \<in> set (x # xs)" "x \<in> set (y # ys')" using Cons.prems(3) ys by (metis list.set_intros(1) set_mset_mset)+
  have "x = y"
  proof (rule ccontr)
    assume ne: "x \<noteq> y"
    then have xy: "y \<in> set xs" "x \<in> set ys'" using mem by auto
    have D: "x \<in> D" "y \<in> D" using Cons.prems(4) xy(1) by auto
    have "cmp x y \<noteq> Some Greater" "cmp y x \<noteq> Some Greater" using Cons.prems(1,2) xy ys by auto
    then have "cmp x y = Some Equal" using cmp_cases [OF D] cmp_gt_iff [OF D(2,1)] by auto
    then show False using Cons.prems(5) [of x y] mem ne by auto
  qed
  moreover have "xs = ys'" by (rule Cons.IH) (use Cons.prems ys \<open>x = y\<close> in auto)
  ultimately show ?case using ys by simp
qed simp

end

lemma answers_unique:
  assumes x: "answers req conn V xs" and y: "answers req conn V ys"
    and V: "rows_ok ty n pk V" and srt: "sort_cols n (conn_sort conn)" "covers (conn_sort conn) pk"
  shows "xs = ys"
proof -
  let ?c = "compare_rows_rev (conn_sort conn) (req_reverse req)"
  have D: "V \<subseteq> {r. row_ok ty (conn_sort conn) r}" using V typed_row_ok [OF _ srt(1)] by (auto simp: rows_ok_def)
  have eq: "a = b" if "a \<in> V" "b \<in> V" "?c a b = Some Equal" for a b
  proof -
    have "compare_rows (conn_sort conn) a b = Some Equal" using that(3) by (auto simp: compare_rows_rev_def split: Option.bind_splits if_splits)
    moreover have "typed_row ty n a" "typed_row ty n b" using V that(1,2) by (simp_all add: rows_ok_def)
    ultimately have "same_key pk a b" using same_key_sort [OF _ _ srt] by blast
    then show ?thesis using V that(1,2) by (simp add: rows_ok_def)
  qed
  show ?thesis
  proof (cases "filter (\<lambda>mc. mc \<noteq> []) (multi_constraints req)")
    case Nil
    then have "sorted_by ?c xs" "sorted_by ?c ys" "set xs = set ys" "set xs \<subseteq> V" using x y by (auto simp: answers_def)
    then show ?thesis using rev_order.sorted_set_unique [of "conn_sort conn" "req_reverse req" xs ys ty] D by blast
  next
    case (Cons primary rest)
    have sx: "sorted_wrt (\<lambda>x y. ?c x y \<noteq> Some Greater) xs" "sorted_wrt (\<lambda>x y. ?c x y \<noteq> Some Greater) ys" using x y Cons by (simp_all add: answers_def)
    have "count (mset xs) r = count (mset ys) r" for r using x y Cons by (simp add: answers_def)
    then have "mset xs = mset ys" by (rule multiset_eqI)
    moreover have xV: "set xs \<subseteq> V"
    proof
      fix r assume "r \<in> set xs"
      then have "count (mset xs) r \<noteq> 0" by simp
      then show "r \<in> V" using x Cons by (auto simp: answers_def split: if_splits)
    qed
    ultimately show ?thesis using rev_order.weak_sorted_unique [OF sx, of ty] D eq by blast
  qed
qed

text \<open>Between pushes the only demands on a request are that it is typed, and that the key constraint of the connection, if it has one, is
  what its contract says.\<close>

definition request_fits :: "(col_id \<Rightarrow> kind) \<Rightarrow> nat \<Rightarrow> fetch_request \<Rightarrow> bool" where
  "request_fits ty n req \<longleftrightarrow> (case filter (\<lambda>mc. mc \<noteq> []) (multi_constraints req) of
       [] \<Rightarrow> request_typed ty n req
     | primary # rest \<Rightarrow> (\<forall>c\<in>set primary. request_typed ty n (sub_request req c)) \<and> (\<forall>mc\<in>set rest. \<forall>c\<in>set mc. typed_constraint ty n c))"

lemma fetch_ok_committed:
  assumes "ms_overlay s = None" "request_fits ty (src_width s) req" "pk_filter_ok ty (src_width s) (ms_primary_key s) conn"
  shows "fetch_ok ty s conn req"
proof -
  have "read_ok ty s conn q" if "request_typed ty (src_width s) q" for q
    using that assms(1,3) by (simp add: read_ok_def gate_overlay_def)
  then show ?thesis using assms(2) by (auto simp: fetch_ok_def multi_ok_def request_fits_def split: list.splits)
qed

lemma fetch_ok_written:
  assumes "fetch_ok ty s conn req" "ms_overlay s' = None" "src_width s' = src_width s" "ms_primary_key s' = ms_primary_key s"
  shows "fetch_ok ty s' conn req"
proof -
  have "read_ok ty s' conn q" if "read_ok ty s conn q" for q
    using that assms(2-4) by (simp add: read_ok_def gate_overlay_def)
  then show ?thesis using assms(1,3) by (auto simp: fetch_ok_def multi_ok_def split: list.splits)
qed

end
