(* ===== verification/Source_Life.thy ===== *)
theory Source_Life
  imports Fetch
begin

text \<open>
  The life of an in-memory source: connections come and go, rows are read and written, and the invariant of
  \<open>Source_State\<close> holds throughout. Holds the properties of \<open>fetch\<close> and of the histories of a source.
\<close>

section \<open>Connections\<close>

lemma connect_conns:
  assumes "connect t conn = Some (t', cid)"
  shows "set (conns t') \<subseteq> insert conn (set (conns t))"
  using assms set_update_subset_insert [of "conns t" _ conn]
  by (fastforce simp: connect_def Let_def vec_set_def split: list.splits Option.bind_splits if_splits)

lemma assert_ordering_ok: "assert_ordering_includes_pk srt pk = (if covers srt pk then Some () else None)"
  by (induction pk) (force simp: covers_def list_ex_iff split: if_splits)+

lemma conns_all: "(\<forall>i<length xs. P (xs ! i)) \<longleftrightarrow> (\<forall>x\<in>set xs. P x)"
  by (metis in_set_conv_nth)

lemma src_conns_ok:
  assumes "src_ok ty s" "table_ok t" "\<forall>c\<in>set (conns t). conn_ok (src_width s) (ms_primary_key s) c"
  shows "src_ok ty (s \<lparr> ms_conns := t \<rparr>)" "src_rows (s \<lparr> ms_conns := t \<rparr>) = src_rows s"
proof -
  have eq: "src_rows (s \<lparr> ms_conns := t \<rparr>) = src_rows s" "primary_index (s \<lparr> ms_conns := t \<rparr>) = primary_index s"
    "src_width (s \<lparr> ms_conns := t \<rparr>) = src_width s"
    by (simp_all add: src_rows_def src_width_def primary_index_def)
  then show "src_rows (s \<lparr> ms_conns := t \<rparr>) = src_rows s" by simp
  show "src_ok ty (s \<lparr> ms_conns := t \<rparr>)" using assms unfolding src_ok_def conns_all eq by simp
qed

lemma source_connect_ok:
  assumes ok: "src_ok ty s" and room: "length (conns (ms_conns s)) + 1 < 2 ^ 32"
    and c: "c = \<lparr> conn_sort = (case srt of None \<Rightarrow> pk_sort (ms_primary_key s) | Some x \<Rightarrow> x), unordered = (srt = None),
      split_edit_keys = keys, filters = flt, last_pushed_epoch = 0, conn_output = None \<rparr>"
    and "conn_ok (src_width s) (ms_primary_key s) c"
  shows "\<exists>t cid i. source_connect srt flt keys s = Some (s \<lparr> ms_conns := t \<rparr>, cid) \<and> src_ok ty (s \<lparr> ms_conns := t \<rparr>) \<and>
    src_rows (s \<lparr> ms_conns := t \<rparr>) = src_rows s \<and> live_ix t cid = Some i \<and> conns t ! i = c"
proof -
  have tok: "table_ok (ms_conns s)" "\<forall>c\<in>set (conns (ms_conns s)). conn_ok (src_width s) (ms_primary_key s) c"
    "primary_index_sort s = pk_sort (ms_primary_key s)"
    using ok unfolding src_ok_def conns_all by auto
  obtain t cid where t: "connect (ms_conns s) c = Some (t, cid)" "table_ok t" "live_ix t cid = Some (unat (cid_idx cid))"
    "conns t ! unat (cid_idx cid) = c" using connect_ok [OF tok(1) room, of c] by blast
  have cs: "\<forall>c\<in>set (conns t). conn_ok (src_width s) (ms_primary_key s) c" using connect_conns [OF t(1)] tok(2) assms(4) by blast
  have "source_connect srt flt keys s = Some (s \<lparr> ms_conns := t \<rparr>, cid)"
    using t(1) assms(4) tok(3) c by (cases srt) (simp_all add: source_connect_def assert_ordering_ok conn_ok_def)
  then show ?thesis using src_conns_ok [OF ok t(2) cs] t by blast
qed

lemma destroy_conns:
  assumes "destroy t cid = Some t'" "x \<in> set (conns t')"
  shows "\<exists>c\<in>set (conns t). x = c \<or> x = c \<lparr> conn_output := None \<rparr>"
proof (cases "vec_get (gens t) (unat (cid_idx cid)) \<noteq> Some (cid_gen cid)")
  case False
  have x: "x \<in> set (case vec_get (conns t) (unat (cid_idx cid)) of None \<Rightarrow> conns t
      | Some c \<Rightarrow> (conns t)[unat (cid_idx cid) := c \<lparr> conn_output := None \<rparr>])"
    using assms False by (auto simp: destroy_def Let_def split: Option.bind_splits option.splits)
  show ?thesis
  proof (cases "vec_get (conns t) (unat (cid_idx cid))")
    case (Some c)
    then have "c \<in> set (conns t)" by (auto simp: vec_get_def split: if_splits)
    then show ?thesis using x Some set_update_subset_insert by fastforce
  qed (use x in auto)
qed (use assms in \<open>auto simp: destroy_def Let_def\<close>)

lemma conn_ok_output [simp]: "conn_ok n pk (c \<lparr> conn_output := e \<rparr>) = conn_ok n pk c"
  by (simp add: conn_ok_def conn_guard_def)

lemma source_destroy_ok:
  assumes ok: "src_ok ty s" and "handle_live (ms_conns s) cid \<or> live_ix (ms_conns s) cid = None"
  shows "\<exists>t. source_destroy cid s = Some (s \<lparr> ms_conns := t \<rparr>) \<and> src_ok ty (s \<lparr> ms_conns := t \<rparr>) \<and>
    src_rows (s \<lparr> ms_conns := t \<rparr>) = src_rows s \<and> live_ix t cid = None"
proof -
  have tok: "table_ok (ms_conns s)" "\<forall>c\<in>set (conns (ms_conns s)). conn_ok (src_width s) (ms_primary_key s) c"
    using ok unfolding src_ok_def conns_all by auto
  have "\<exists>t. destroy (ms_conns s) cid = Some t \<and> table_ok t \<and> live_ix t cid = None"
    using assms(2) destroy_live_ok [OF tok(1), of cid] destroy_stale [of "ms_conns s" cid] tok(1) unfolding handle_live_def by blast
  then obtain t where t: "destroy (ms_conns s) cid = Some t" "table_ok t" "live_ix t cid = None" by blast
  have "\<forall>c\<in>set (conns t). conn_ok (src_width s) (ms_primary_key s) c" using destroy_conns [OF t(1)] tok(2) by fastforce
  then show ?thesis using src_conns_ok [OF ok t(2)] t by (auto simp: source_destroy_def)
qed

lemma set_conn_output_ok:
  assumes ok: "src_ok ty s" and "handle_live (ms_conns s) cid"
  shows "\<exists>t. set_conn_output cid edge s = Some (s \<lparr> ms_conns := t \<rparr>) \<and> src_ok ty (s \<lparr> ms_conns := t \<rparr>) \<and>
    src_rows (s \<lparr> ms_conns := t \<rparr>) = src_rows s"
proof -
  have tok: "table_ok (ms_conns s)" "\<forall>c\<in>set (conns (ms_conns s)). conn_ok (src_width s) (ms_primary_key s) c"
    using ok unfolding src_ok_def conns_all by auto
  obtain i where i: "live_ix (ms_conns s) cid = Some i" "i \<in> set (live_slots (ms_conns s))" using assms(2) by (auto simp: handle_live_def)
  have il: "i < length (conns (ms_conns s))" using i(2) by (simp add: live_slots_iff)
  define t where "t = ms_conns s \<lparr> conns := (conns (ms_conns s))[i := (conns (ms_conns s) ! i) \<lparr> conn_output := Some edge \<rparr>] \<rparr>"
  have t: "set_output (ms_conns s) cid edge = Some t" using i(1) il by (simp add: set_output_def t_def)
  then have "table_ok t" using set_output_ok [OF tok(1) i, of edge] by auto
  moreover have "\<forall>c\<in>set (conns t). conn_ok (src_width s) (ms_primary_key s) c"
    using tok(2) il set_update_subset_insert [of "conns (ms_conns s)" i] by (fastforce simp: t_def)
  ultimately show ?thesis using src_conns_ok [OF ok] t by (auto simp: set_conn_output_def)
qed

section \<open>Histories\<close>

text \<open>\<open>source_reach ty schema R s w\<close>: the source \<open>s\<close>, with \<open>w\<close> downstream of it, was built over \<open>schema\<close> and then driven by calls that respect the
  callers' side of the contract, after which it should hold the rows \<open>R\<close>.\<close>

inductive source_reach :: "(col_id \<Rightarrow> kind) \<Rightarrow> table_schema \<Rightarrow> row set \<Rightarrow> memory_source \<Rightarrow> 'w \<Rightarrow> bool" for ty schema where
  life_new: "\<forall>r\<in>set rows. typed_row ty (length (sch_columns schema)) r \<Longrightarrow> distinct rows \<Longrightarrow>
    \<forall>a\<in>set rows. \<forall>b\<in>set rows. same_key (sch_primary_key schema) a b \<longrightarrow> a = b \<Longrightarrow>
    \<forall>c\<in>set (sch_primary_key schema). c < length (sch_columns schema) \<Longrightarrow>
    try_new schema rows = Some (Inr s) \<Longrightarrow> source_reach ty schema (set rows) s w"
| life_connect: "source_reach ty schema R s w \<Longrightarrow> length (conns (ms_conns s)) + 1 < 2 ^ 32 \<Longrightarrow>
    conn_ok (src_width s) (ms_primary_key s) \<lparr> conn_sort = (case srt of None \<Rightarrow> pk_sort (ms_primary_key s) | Some x \<Rightarrow> x),
      unordered = (srt = None), split_edit_keys = keys, filters = flt, last_pushed_epoch = 0, conn_output = None \<rparr> \<Longrightarrow>
    source_connect srt flt keys s = Some (s', cid) \<Longrightarrow> source_reach ty schema R s' w"
| life_output: "source_reach ty schema R s w \<Longrightarrow> handle_live (ms_conns s) cid \<Longrightarrow> set_conn_output cid edge s = Some s' \<Longrightarrow>
    source_reach ty schema R s' w"
| life_destroy: "source_reach ty schema R s w \<Longrightarrow> handle_live (ms_conns s) cid \<or> live_ix (ms_conns s) cid = None \<Longrightarrow>
    source_destroy cid s = Some s' \<Longrightarrow> source_reach ty schema R s' w"
| life_index: "source_reach ty schema R s w \<Longrightarrow> sort_cols (src_width s) srt \<Longrightarrow> covers srt (ms_primary_key s) \<Longrightarrow>
    ensure_index srt s = Some s' \<Longrightarrow> source_reach ty schema R s' w"
| life_fetch: "source_reach ty schema R s w \<Longrightarrow> live_ix (ms_conns s) cid = Some i \<Longrightarrow>
    pk_filter_ok ty (src_width s) (ms_primary_key s) (conns (ms_conns s) ! i) \<Longrightarrow> request_fits ty (src_width s) req \<Longrightarrow> fetch cid req s = Some (xs, s') \<Longrightarrow> source_reach ty schema R s' w"
| life_push: "source_reach ty schema R s w \<Longrightarrow> deliver_ok ty f \<Longrightarrow> fits ty s change \<Longrightarrow> guards_sound (ms_conns s) change \<Longrightarrow>
    unat (ms_epoch s) + 2 < 2 ^ 32 \<Longrightarrow> push debug f change (s, w) = Some (s', w') \<Longrightarrow>
    source_reach ty schema (change_set change R) s' w'"

lemma no_overlay_fits: "ms_overlay s = None \<Longrightarrow> gated_fits ty s conn \<and> visible_rows s conn = set (src_rows s)"
  by (simp add: gated_fits_def gate_overlay_def visible_rows_def)

lemma source_reach_ok:
  "source_reach ty schema R s w \<Longrightarrow> src_ok ty s \<and> set (src_rows s) = R \<and> ms_overlay s = None"
proof (induction rule: source_reach.induct)
  case (life_new rows s w)
  then show ?case using try_new_ok [of rows ty schema] by auto
next
  case (life_connect R s w srt keys flt s' cid)
  then show ?case using source_connect_ok [OF _ _ refl, of ty s srt keys flt] by auto
next
  case (life_output R s w cid edge s')
  then show ?case using set_conn_output_ok [of ty s cid edge] by auto
next
  case (life_destroy R s w cid s')
  then show ?case using source_destroy_ok [of ty s cid] by auto
next
  case (life_index R s w srt s')
  then show ?case using ensure_index_ok [of ty s srt] by auto
next
  case (life_fetch R s w cid i req xs s')
  then have "gated_fits ty s (conns (ms_conns s) ! i)" "fetch_ok ty s (conns (ms_conns s) ! i) req"
    using no_overlay_fits fetch_ok_committed by blast+
  then show ?case using fetch_answers [OF _ life_fetch(2) refl, of ty req] life_fetch by auto
next
  case (life_push R s w f change debug s' w')
  then show ?case using push_ok [of ty "(s, w)" f change debug] by auto
qed

section \<open>Properties\<close>


definition demo_conn :: connection where
  "demo_conn = \<lparr> conn_sort = [(0, True)], unordered = False, split_edit_keys = [], filters = None, last_pushed_epoch = 0,
     conn_output = None \<rparr>"

lemma demo_connected:
  obtains s cid i where "src_ok demo_ty s" "set (src_rows s) = set demo_rows" "ms_schema s = demo_schema" "ms_primary_key s = [0]"
    "ms_overlay s = None" "live_ix (ms_conns s) cid = Some i" "conns (ms_conns s) ! i = demo_conn"
    "source_reach demo_ty demo_schema (set demo_rows) s ()"
proof -
  obtain s where s: "try_new demo_schema demo_rows = Some (Inr s)" "src_ok demo_ty s" "set (src_rows s) = set demo_rows"
    "ms_schema s = demo_schema" "ms_primary_key s = [0]" "ms_overlay s = None" "ms_conns s = conn_table_new" "ms_epoch s = 0"
    using demo_source by blast
  have n: "src_width s = 2" by (simp add: src_width_def s(4) demo_schema_def)
  have r0: "source_reach demo_ty demo_schema (set demo_rows) s ()"
    by (rule life_new [OF _ _ _ _ s(1)]) (use demo_typed in \<open>simp_all add: demo_rows_def demo_schema_def same_key_def cmp_of_def numeral_2_eq_2\<close>)
  have c: "conn_ok (src_width s) (ms_primary_key s) demo_conn"
    by (simp add: conn_ok_def demo_conn_def sort_cols_def covers_def n s(5) conn_guard_def)
  have "length (conns (ms_conns s)) + 1 < 2 ^ 32" by (simp add: s(7) conn_table_new_def)
  moreover have eq: "demo_conn = \<lparr> conn_sort = (case Some [(0, True)] of None \<Rightarrow> pk_sort (ms_primary_key s) | Some x \<Rightarrow> x),
      unordered = (Some [(0, True)] = None), split_edit_keys = [], filters = None, last_pushed_epoch = 0, conn_output = None \<rparr>"
    by (simp add: demo_conn_def)
  ultimately obtain t cid i where t: "source_connect (Some [(0, True)]) None [] s = Some (s \<lparr> ms_conns := t \<rparr>, cid)"
    "src_ok demo_ty (s \<lparr> ms_conns := t \<rparr>)" "src_rows (s \<lparr> ms_conns := t \<rparr>) = src_rows s" "live_ix t cid = Some i" "conns t ! i = demo_conn"
    using source_connect_ok [OF s(2) _ eq c] by blast
  have "source_reach demo_ty demo_schema (set demo_rows) (s \<lparr> ms_conns := t \<rparr>) ()"
    by (rule life_connect [OF r0 _ _ t(1)]) (use c eq in \<open>simp_all add: s(7) conn_table_new_def\<close>)
  then show thesis using that [of "s \<lparr> ms_conns := t \<rparr>" cid i] t s by simp
qed










text \<open>(C5) Whatever a source goes through (connections opened, wired and torn down, indexes built, rows fetched with and without
  multi-constraints and through connections with and without a key constraint, changes pushed), its invariant holds, it holds exactly the
  initial rows with the pushed changes applied in order, no overlay is left between pushes, and every typed fetch through a live
  connection returns and answers its request among exactly those rows. The side of the callers: rows and requests are typed, pushed
  changes fit the rows, delivery callbacks return and only read, the guard and the key constraint of a connection are implied by its
  predicate.\<close>

theorem source_history_correct:
  assumes "source_reach ty schema R s w"
  shows "src_ok ty s \<and> set (src_rows s) = R \<and> ms_overlay s = None \<and>
    (\<forall>cid i req. live_ix (ms_conns s) cid = Some i \<longrightarrow> pk_filter_ok ty (src_width s) (ms_primary_key s) (conns (ms_conns s) ! i) \<longrightarrow>
      request_fits ty (src_width s) req \<longrightarrow>
      (\<exists>xs s'. fetch cid req s = Some (xs, s') \<and> answers req (conns (ms_conns s) ! i) R xs))"
proof (intro conjI allI impI)
  note ok = source_reach_ok [OF assms]
  fix cid i req assume a: "live_ix (ms_conns s) cid = Some i" "pk_filter_ok ty (src_width s) (ms_primary_key s) (conns (ms_conns s) ! i)"
    "request_fits ty (src_width s) req"
  have g: "gated_fits ty s (conns (ms_conns s) ! i)" "visible_rows s (conns (ms_conns s) ! i) = R"
    using no_overlay_fits ok by blast+
  have f: "fetch_ok ty s (conns (ms_conns s) ! i) req" by (rule fetch_ok_committed [OF _ a(3,2)]) (use ok in simp)
  have "src_ok ty s" using ok by simp
  from fetch_answers [OF this a(1) refl g(1) f, unfolded g(2)]
  show "\<exists>xs s'. fetch cid req s = Some (xs, s') \<and> answers req (conns (ms_conns s) ! i) R xs" by blast
qed (use source_reach_ok [OF assms] in auto)

theorem source_history_correct_witness:
  "\<exists>s. source_reach demo_ty demo_schema (set demo_rows) s () \<and> src_ok demo_ty s \<and> set (src_rows s) = set demo_rows"
proof -
  obtain s cid i where r: "live_ix (ms_conns s) cid = Some i" "source_reach demo_ty demo_schema (set demo_rows) s ()" by (rule demo_connected)
  from source_history_correct [OF r(2)] have "src_ok demo_ty s \<and> set (src_rows s) = set demo_rows" by (elim conjE) (intro conjI)
  then show ?thesis using r(2) by blast
qed

lemma same_key_both:
  assumes "typed_row ty n a" "typed_row ty n b" "typed_row ty n x" "\<forall>c\<in>set pk. c < n" "same_key pk a x" "same_key pk b x"
  shows "same_key pk a b"
  unfolding same_key_def
proof
  fix c assume c: "c \<in> set pk"
  then have k: "conforms (ty c) (a ! c)" "conforms (ty c) (b ! c)" "conforms (ty c) (x ! c)" using assms by (auto simp: typed_row_def)
  have e: "compare_values (a ! c) (x ! c) = Some Equal" "compare_values (b ! c) (x ! c) = Some Equal" using assms c by (auto simp: same_key_def)
  show "compare_values (a ! c) (b ! c) = Some Equal"
    using cell_order.cmp_eq_cong [of "a ! c" "ty c" "x ! c" "b ! c"] cell_order.cmp_eq_sym [of "b ! c" "ty c" "x ! c"] k e by simp
qed

text \<open>Looking a row up by primary key finds the stored row with that key exactly when there is one; the existence
  check that guards a push agrees with it.\<close>

theorem lookup_exact:
  assumes "src_ok ty s" "typed_row ty (src_width s) x"
  shows "\<exists>found. get_by_pk s x = Some found \<and> row_exists s x = Some (found \<noteq> None) \<and>
    (\<forall>r. found = Some r \<longleftrightarrow> r \<in> set (src_rows s) \<and> same_key (ms_primary_key s) r x)"
proof -
  let ?k = "\<lambda>r. same_key (ms_primary_key s) r x"
  have key: "r = r'" if "r \<in> set (src_rows s)" "r' \<in> set (src_rows s)" "?k r" "?k r'" for r r'
  proof -
    have "same_key (ms_primary_key s) r r'"
      by (rule same_key_both [OF _ _ assms(2) _ that(3,4)]) (use src_rows_typed(2) [OF assms(1)] that assms(1) in \<open>auto simp: src_ok_def\<close>)
    then show ?thesis using src_rows_typed(1) [OF assms(1)] that by (simp add: rows_ok_def)
  qed
  have "List.find ?k (src_rows s) = Some r \<longleftrightarrow> r \<in> set (src_rows s) \<and> ?k r" for r
  proof
    assume "List.find ?k (src_rows s) = Some r"
    then show "r \<in> set (src_rows s) \<and> ?k r" by (auto simp: find_Some_iff)
  next
    assume r: "r \<in> set (src_rows s) \<and> ?k r"
    then obtain r' where r': "List.find ?k (src_rows s) = Some r'" by (metis find_None_iff option.exhaust)
    then have "r' \<in> set (src_rows s) \<and> ?k r'" by (auto simp: find_Some_iff)
    then show "List.find ?k (src_rows s) = Some r" using r' key r by blast
  qed
  moreover have "(\<exists>r\<in>set (src_rows s). ?k r) \<longleftrightarrow> List.find ?k (src_rows s) \<noteq> None" by (auto simp: find_None_iff)
  ultimately show ?thesis using get_by_pk_ok [OF assms] by simp
qed

theorem lookup_exact_witness:
  "\<exists>s. src_ok demo_ty s \<and> row_exists s [IntV 2, IntV 0] = Some True \<and> row_exists s [IntV 3, IntV 0] = Some False"
proof -
  obtain s where s: "src_ok demo_ty s" "set (src_rows s) = set demo_rows" "ms_schema s = demo_schema" "ms_primary_key s = [0]"
    using demo_source by blast
  have t: "typed_row demo_ty (src_width s) [IntV a, IntV b]" for a b
    using demo_typed by (simp add: src_width_def s(3) demo_schema_def numeral_2_eq_2)
  have k: "[IntV 2, IntV 7] \<in> set (src_rows s) \<and> same_key (ms_primary_key s) [IntV 2, IntV 7] [IntV 2, IntV 0]"
    "\<forall>r\<in>set (src_rows s). \<not> same_key (ms_primary_key s) r [IntV 3, IntV 0]"
    by (simp_all add: s(2,4) demo_rows_def same_key_def cmp_of_def)
  have "row_exists s [IntV 2, IntV 0] = Some True" using lookup_exact [OF s(1) t [of 2 0]] k(1) by auto
  moreover have "row_exists s [IntV 3, IntV 0] = Some False" using lookup_exact [OF s(1) t [of 3 0]] k(2) by (metis not_None_eq)
  ultimately show ?thesis using s(1) by blast
qed

lemma validate_loop_error:
  "validate_loop want k rows = Inl e \<longleftrightarrow> (\<exists>i<length rows. length (rows ! i) \<noteq> want \<and> (\<forall>j<i. length (rows ! j) = want) \<and>
     e = SchemaViolation (width_message (k + i) (length (rows ! i)) want))"
proof (induction rows arbitrary: k)
  case (Cons r rows)
  show ?case
  proof (cases "length r = want")
    case True
    have "(\<exists>i<length (r # rows). length ((r # rows) ! i) \<noteq> want \<and> (\<forall>j<i. length ((r # rows) ! j) = want) \<and>
        e = SchemaViolation (width_message (k + i) (length ((r # rows) ! i)) want)) \<longleftrightarrow>
      (\<exists>i<length rows. length (rows ! i) \<noteq> want \<and> (\<forall>j<i. length (rows ! j) = want) \<and>
        e = SchemaViolation (width_message (Suc k + i) (length (rows ! i)) want))"
      using True by (simp add: Ex_less_Suc2 All_less_Suc2)
    then show ?thesis using True Cons.IH [of "Suc k"] by simp
  next
    case False
    have "(\<forall>j<i. length ((r # rows) ! j) = want) \<longleftrightarrow> i = 0" for i using False by (cases i) auto
    then show ?thesis using False by auto
  qed
qed simp

text \<open>Building a source reports an error exactly when some initial row has the wrong number of cells, and the error
  names the first such row, its width and the declared width.\<close>

theorem try_new_rejects:
  "try_new schema rows = Some (Inl e) \<longleftrightarrow> (\<exists>i<length rows. length (rows ! i) \<noteq> length (sch_columns schema) \<and>
     (\<forall>j<i. length (rows ! j) = length (sch_columns schema)) \<and>
     e = SchemaViolation (width_message i (length (rows ! i)) (length (sch_columns schema))))"
proof -
  have "try_new schema rows = Some (Inl e) \<longleftrightarrow> validate_rows schema rows = Inl e"
    by (auto simp: try_new_def Let_def split: sum.splits Option.bind_splits)
  then show ?thesis using validate_loop_error [of "length (sch_columns schema)" 0 rows e] by (simp add: validate_rows_def)
qed

theorem try_new_rejects_witness:
  "try_new demo_schema [[IntV 1, IntV 2], [IntV 3]] =
     Some (Inl (SchemaViolation ''ingest row 1 has 1 cells but the schema declares 2 columns''))"
proof -
  have m: "''ingest row 1 has 1 cells but the schema declares 2 columns'' = width_message 1 1 2" by code_simp
  have "length (sch_columns demo_schema) = 2" by (simp add: demo_schema_def)
  then show ?thesis unfolding m
    by (intro try_new_rejects [THEN iffD2] exI [of _ "1 :: nat"]) (simp add: less_Suc_eq)
qed

end
