(* ===== verification/Nodes.thy ===== *)
theory Nodes
  imports Changes
begin

text \<open>
  The values that flow through the operator graph (\<open>rust/src/change.rs\<close>, \<open>rust/src/changes.rs\<close>): nodes
  with their relationships, the changes pushed downstream, and the owned copies of both.

  A relationship of the program is a thunk that yields a fresh stream of nodes; a node of the model holds
  what its thunks yield at the moment it is inspected. With the thunks run, \<open>Node\<close> and \<open>OwnedNode\<close> have the
  same content, so that one datatype models both and copying a node is the identity; what the copies of a
  \<^emph>\<open>change\<close> drop is modelled.
\<close>

type_synonym rel_id = nat

datatype node = Node (node_row: row) (node_rels: "(rel_id \<times> node list) list")

definition leaf :: "row \<Rightarrow> node" where
  "leaf r = Node r []"

datatype change =
    Add node
  | Remove node
  | Edit node node
  | Child node rel_id change

datatype change_type = TAdd | TRemove | TEdit | TChild

fun change_type_of :: "change \<Rightarrow> change_type" where
  "change_type_of (Add n) = TAdd"
| "change_type_of (Remove n) = TRemove"
| "change_type_of (Edit n old) = TEdit"
| "change_type_of (Child n rel c) = TChild"

fun primary_row :: "change \<Rightarrow> row" where
  "primary_row (Add n) = node_row n"
| "primary_row (Remove n) = node_row n"
| "primary_row (Edit n old) = node_row n"
| "primary_row (Child n rel c) = node_row n"

fun for_child_change :: "change \<Rightarrow> source_change option" where
  "for_child_change (Add n) = Some (AddRow (node_row n))"
| "for_child_change (Remove n) = Some (RemoveRow (node_row n))"
| "for_child_change (Edit n old) = Some (EditRow (node_row n) (node_row old))"
| "for_child_change (Child n rel c) = None"

section \<open>Owned copies\<close>

fun materialize_change :: "change \<Rightarrow> change" where
  "materialize_change (Add n) = Add n"
| "materialize_change (Remove n) = Remove n"
| "materialize_change (Edit n old) = Edit n old"
| "materialize_change (Child n rel c) = Child (Node (node_row n) []) rel (materialize_change c)"

fun materialize_change_preserving_node :: "change \<Rightarrow> change" where
  "materialize_change_preserving_node (Child n rel c) = Child n rel (materialize_change c)"
| "materialize_change_preserving_node c = materialize_change c"

fun materialize_change_edit_old_row_only :: "change \<Rightarrow> change" where
  "materialize_change_edit_old_row_only (Edit n old) = Edit n (Node (node_row old) [])"
| "materialize_change_edit_old_row_only c = materialize_change c"

section \<open>Caught changes\<close>

text \<open>The change a sink receives: the relationships of a node are keyed by slot, a later one for the same
  slot replacing an earlier one, in ascending order of slots.\<close>

datatype caught_node = CaughtNode (caught_row: row) (caught_rels: "(rel_id \<times> caught_node list) list")

datatype caught_change =
    CaughtAdd caught_node
  | CaughtRemove caught_node
  | CaughtEdit row row
  | CaughtChild row rel_id caught_change

fun slot_insert :: "rel_id \<Rightarrow> 'a \<Rightarrow> (rel_id \<times> 'a) list \<Rightarrow> (rel_id \<times> 'a) list" where
  "slot_insert s v [] = [(s, v)]"
| "slot_insert s v ((s', v') # m) =
     (if s' < s then (s', v') # slot_insert s v m else if s' = s then (s, v) # m else (s, v) # (s', v') # m)"

fun slots_from :: "(rel_id \<times> 'a) list \<Rightarrow> (rel_id \<times> 'a) list \<Rightarrow> (rel_id \<times> 'a) list" where
  "slots_from m [] = m"
| "slots_from m ((s, v) # rs) = slots_from (slot_insert s v m) rs"

primrec expand_node :: "node \<Rightarrow> caught_node" where
  "expand_node (Node r rels) = CaughtNode r (slots_from [] (map (map_prod id (map expand_node)) rels))"

fun expand_change :: "change \<Rightarrow> caught_change" where
  "expand_change (Add n) = CaughtAdd (expand_node n)"
| "expand_change (Remove n) = CaughtRemove (expand_node n)"
| "expand_change (Edit n old) = CaughtEdit (node_row old) (node_row n)"
| "expand_change (Child n rel c) = CaughtChild (node_row n) rel (expand_change c)"

fun cells_eq :: "row \<Rightarrow> row \<Rightarrow> bool option" where
  "cells_eq (x # xs) (y # ys) = do { c \<leftarrow> compare_values x y; if c = Equal then cells_eq xs ys else Some False }"
| "cells_eq _ _ = Some True"

definition row_eq :: "row \<Rightarrow> row \<Rightarrow> bool option" where
  "row_eq a b = (if length a = length b then cells_eq a b else Some False)"

section \<open>What the copies keep\<close>

lemma materialize_keeps [simp]:
  "change_type_of (materialize_change c) = change_type_of c" "primary_row (materialize_change c) = primary_row c"
  "for_child_change (materialize_change c) = for_child_change c"
  by (cases c; simp)+

lemma expand_materialize: "expand_change (materialize_change c) = expand_change c"
  by (induction c) simp_all

lemma set_slot_insert: "fst ` set (slot_insert s v m) = insert s (fst ` set m)"
proof (induction m)
  case (Cons p m)
  obtain a w where p: "p = (a, w)" by fastforce
  consider "a < s" | "a = s" | "s < a" by (rule linorder_cases)
  then show ?case by cases (use Cons in \<open>auto simp: p insert_commute\<close>)
qed simp

lemma slot_insert_keys: "sorted_wrt (<) (map fst m) \<Longrightarrow> sorted_wrt (<) (map fst (slot_insert s v m))"
proof (induction m)
  case (Cons p m)
  obtain a w where p: "p = (a, w)" by fastforce
  have lt: "\<forall>k\<in>fst ` set m. a < k" using Cons.prems by (simp add: p)
  show ?case
  proof (cases "a < s")
    case True
    then have "\<forall>k\<in>fst ` set (slot_insert s v m). a < k" using lt unfolding set_slot_insert by simp
    then show ?thesis using Cons True by (simp add: p)
  next
    case False
    then show ?thesis using Cons.prems lt by (auto simp: p)
  qed
qed simp

lemma slot_insert_get: "sorted_wrt (<) (map fst m) \<Longrightarrow> map_of (slot_insert s v m) = (map_of m)(s \<mapsto> v)"
proof (induction m)
  case (Cons p m)
  obtain a w where p: "p = (a, w)" by fastforce
  have "a \<noteq> s \<Longrightarrow> \<not> a < s \<Longrightarrow> map_of m s = None" using Cons.prems by (force simp: p map_of_eq_None_iff)
  then show ?case using Cons by (auto simp: p)
qed simp

lemma slots_from_get:
  "sorted_wrt (<) (map fst m) \<Longrightarrow> sorted_wrt (<) (map fst (slots_from m rs)) \<and>
    map_of (slots_from m rs) = map_of m ++ map_of (rev rs)"
proof (induction m rs rule: slots_from.induct)
  case (2 m s v rs)
  then show ?case using slot_insert_keys [of m s v] slot_insert_get [of m s v]
    by (simp add: map_add_assoc [symmetric]) (simp add: map_add_def fun_eq_iff split: option.split)
qed simp

text \<open>The owned tree a sink receives does not depend on which copy of a change was pushed: dropping the relationships
  of a \<open>Child\<close> node or of an edit's old node is invisible to it. Its slots are strictly ascending and hold, for each
  slot, the children of the last relationship with that slot.\<close>

theorem caught_change_stable:
  "expand_change (materialize_change c) = expand_change c \<and>
   expand_change (materialize_change_preserving_node c) = expand_change c \<and>
   expand_change (materialize_change_edit_old_row_only c) = expand_change c \<and>
   sorted_wrt (<) (map fst (caught_rels (expand_node n))) \<and>
   map_of (caught_rels (expand_node n)) = map_of (rev (map (map_prod id (map expand_node)) (node_rels n)))"
proof -
  have "expand_change (materialize_change_preserving_node c) = expand_change c"
    "expand_change (materialize_change_edit_old_row_only c) = expand_change c"
    by (cases c; simp add: expand_materialize)+
  then show ?thesis using slots_from_get [of "[]" "map (map_prod id (map expand_node)) (node_rels n)"] expand_materialize
    by (cases n) simp
qed

end
