(* ===== verification/Storage.thy ===== *)
theory Storage
  imports Rows Ordered_Map
begin

text \<open>
  Operator scratch state (\<open>rust/src/storage.rs\<close>): the values the stateful operators keep, the in-memory
  store as a map in byte order of its keys, and its prefix scan. The locale \<open>storage_contract\<close> is the
  \<open>Storage\<close> trait: what its clients may rely on, with the trait's default \<open>clear\<close> proved once from the
  other operations; the in-memory store is an instance.
\<close>

section \<open>Values and operations\<close>

record reduce_acc =
  int_sum :: "128 word"
  float_sum :: f64
  non_null :: i64
  float_count :: i64

datatype storage_value =
    TakeState "32 word" "row option"
  | BoundRow row
  | CapState "32 word" "byte list list"
  | ReduceState i64 "reduce_acc list"

type_synonym memory_storage = "(byte list, storage_value) omap"

definition storage_new :: memory_storage where
  "storage_new = []"

definition storage_set :: "byte list \<Rightarrow> storage_value \<Rightarrow> memory_storage \<Rightarrow> memory_storage" where
  "storage_set k v m = om_put bytes_cmp k v m"

definition storage_get :: "byte list \<Rightarrow> memory_storage \<Rightarrow> storage_value option" where
  "storage_get k m = om_get bytes_cmp k m"

definition storage_del :: "byte list \<Rightarrow> memory_storage \<Rightarrow> memory_storage" where
  "storage_del k m = om_del bytes_cmp k m"

fun starts_with :: "byte list \<Rightarrow> byte list \<Rightarrow> bool" where
  "starts_with [] k = True"
| "starts_with (p # ps) [] = False"
| "starts_with (p # ps) (b # k) \<longleftrightarrow> p = b \<and> starts_with ps k"

definition storage_scan :: "byte list \<Rightarrow> memory_storage \<Rightarrow> (byte list \<times> storage_value) list" where
  "storage_scan prefix m =
     takeWhile (\<lambda>(k, v). starts_with prefix k) (dropWhile (\<lambda>(k, v). bytes_cmp k prefix = Less) m)"

definition storage_clear :: "memory_storage \<Rightarrow> memory_storage" where
  "storage_clear m = fold storage_del (map fst (storage_scan [] m)) m"

section \<open>The contract of a store\<close>

locale storage_contract =
  fixes get :: "byte list \<Rightarrow> 'm \<Rightarrow> 'v option"
    and put :: "byte list \<Rightarrow> 'v \<Rightarrow> 'm \<Rightarrow> 'm"
    and del :: "byte list \<Rightarrow> 'm \<Rightarrow> 'm"
    and scan :: "byte list \<Rightarrow> 'm \<Rightarrow> (byte list \<times> 'v) list"
    and good :: "'m \<Rightarrow> bool"
  assumes good_put: "good m \<Longrightarrow> good (put k v m)"
    and good_del: "good m \<Longrightarrow> good (del k m)"
    and get_put: "get k' (put k v m) = (if k = k' then Some v else get k' m)"
    and get_del: "get k' (del k m) = (if k = k' then None else get k' m)"
    and scan_sound: "good m \<Longrightarrow> (k, v) \<in> set (scan p m) \<longleftrightarrow> get k m = Some v \<and> starts_with p k"
    and scan_sorted: "good m \<Longrightarrow> sorted_wrt (\<lambda>a b. bytes_cmp (fst a) (fst b) = Less) (scan p m)"
begin

lemma get_del_all: "get k (fold del ks m) = (if k \<in> set ks then None else get k m)"
  by (induction ks arbitrary: m) (auto simp: get_del)

lemma good_del_all: "good m \<Longrightarrow> good (fold del ks m)"
  by (induction ks arbitrary: m) (auto simp: good_del)

text \<open>The default \<open>clear\<close> of the trait: collect every key, then delete each.\<close>

lemma clear_empties:
  assumes "good m"
  shows "get k (fold del (map fst (scan [] m)) m) = None"
proof (cases "get k m")
  case (Some v)
  then have "(k, v) \<in> set (scan [] m)" using scan_sound [OF assms, of k v "[]"] by simp
  then have "k \<in> set (map fst (scan [] m))" by force
  then show ?thesis by (simp add: get_del_all)
qed (simp add: get_del_all)

lemma scan_keys_distinct: "good m \<Longrightarrow> distinct (map fst (scan p m))"
proof -
  have "distinct (map fst xs)" if "sorted_wrt (\<lambda>a b. bytes_cmp (fst a) (fst b) = Less) xs" for xs :: "(byte list \<times> 'v) list"
    using that
  proof (induction xs)
    case (Cons a xs)
    have "fst a \<noteq> fst b" if "b \<in> set xs" for b
      using Cons.prems that bytes_cmp_Equal_iff [of "fst a" "fst b"] by auto
    then show ?case using Cons by auto
  qed simp
  then show "good m \<Longrightarrow> distinct (map fst (scan p m))" using scan_sorted by blast
qed

end

section \<open>The in-memory store keeps the contract\<close>

interpretation byte_key: ordered_key bytes_cmp
proof unfold_locales
  fix x y z
  show "Some (bytes_cmp x y) \<noteq> None" by simp
  show "Some (bytes_cmp y x) = map_option reverse_ord (Some (bytes_cmp x y))" using bytes_cmp_flip [of x y] by simp
  assume le: "Some (bytes_cmp x y) \<noteq> Some Greater" "Some (bytes_cmp y z) \<noteq> Some Greater"
  show "Some (bytes_cmp x z) \<noteq> Some Greater"
  proof (cases "bytes_cmp x y = Equal \<or> bytes_cmp y z = Equal")
    case False
    then have "bytes_cmp x y = Less" "bytes_cmp y z = Less" using le by (metis ordering.exhaust)+
    then show ?thesis using bytes_cmp_less_trans [of x y z] by simp
  qed (use le in auto)
qed

text \<open>The keys that start with a prefix lie side by side, from the prefix on.\<close>

lemma bytes_cmp_Nil [simp]: "bytes_cmp k [] \<noteq> Less"
  by (cases k) simp_all

lemma prefix_not_less: "starts_with p k \<Longrightarrow> bytes_cmp k p \<noteq> Less"
  by (induction p k rule: starts_with.induct) auto

lemma prefix_contiguous:
  "bytes_cmp k p \<noteq> Less \<Longrightarrow> \<not> starts_with p k \<Longrightarrow> starts_with p k' \<Longrightarrow> bytes_cmp k k' = Greater"
proof (induction p k arbitrary: k' rule: starts_with.induct)
  case (3 p ps b k)
  then obtain b' k'' where k': "k' = b' # k''" by (cases k') auto
  show ?case using 3 by (auto simp: k' cmp_of_def split: if_splits)
qed auto

lemma scan_filter:
  assumes "om_ok bytes_cmp m"
  shows "storage_scan p m = filter (\<lambda>(k, v). starts_with p k) m"
  using assms unfolding storage_scan_def
proof (induction m)
  case (Cons e m)
  obtain k v where e: "e = (k, v)" by fastforce
  have tw: "takeWhile (\<lambda>(k, v). starts_with p k) m' = filter (\<lambda>(k, v). starts_with p k) m'"
    if "om_ok bytes_cmp m'" "\<forall>q\<in>set m'. bytes_cmp (fst q) p \<noteq> Less" for m' :: memory_storage
    using that
  proof (induction m')
    case (Cons q m')
    obtain k1 v1 where q: "q = (k1, v1)" by fastforce
    have "\<not> starts_with p k2" if "\<not> starts_with p k1" "(k2, v2) \<in> set m'" for k2 v2
      using prefix_contiguous [of k1 p k2] that Cons.prems by (auto simp: q)
    then have "\<not> starts_with p k1 \<Longrightarrow> filter (\<lambda>(k, v). starts_with p k) m' = []" by (auto simp: filter_empty_conv)
    then show ?case using Cons by (auto simp: q)
  qed simp
  show ?case
  proof (cases "bytes_cmp k p = Less")
    case True
    then show ?thesis using Cons prefix_not_less [of p k] by (auto simp: e)
  next
    case False
    have "bytes_cmp k2 p \<noteq> Less" if "(k2, v2) \<in> set m" for k2 v2
      using byte_key.key_less_trans [of k k2 p] that Cons.prems False by (auto simp: e)
    then have "\<forall>q\<in>set (e # m). bytes_cmp (fst q) p \<noteq> Less" using False by (auto simp: e)
    then show ?thesis using tw [OF Cons.prems] False by (simp add: e)
  qed
qed simp

interpretation mem_store: storage_contract storage_get storage_set storage_del storage_scan "om_ok bytes_cmp"
proof unfold_locales
  fix m :: memory_storage and p k v assume ok: "om_ok bytes_cmp m"
  show "om_ok bytes_cmp (storage_set k v m)" unfolding storage_set_def using byte_key.om_ok_put [OF ok] .
  show "om_ok bytes_cmp (storage_del k m)" unfolding storage_del_def using om_ok_del [OF ok] .
  show "(k, v) \<in> set (storage_scan p m) \<longleftrightarrow> storage_get k m = Some v \<and> starts_with p k"
    using byte_key.om_get_Some_iff [OF ok, of k v] by (auto simp: scan_filter [OF ok] storage_get_def)
  show "sorted_wrt (\<lambda>a b. bytes_cmp (fst a) (fst b) = Less) (storage_scan p m)"
    using ok by (simp add: scan_filter [OF ok] om_ok_def sorted_wrt_filter)
next
  fix m :: memory_storage and k k' v
  show "storage_get k' (storage_set k v m) = (if k = k' then Some v else storage_get k' m)"
    by (simp add: storage_get_def storage_set_def byte_key.om_get_put)
  show "storage_get k' (storage_del k m) = (if k = k' then None else storage_get k' m)"
    by (simp add: storage_get_def storage_del_def byte_key.om_get_del)
qed

section \<open>Property\<close>

inductive store_reach :: "memory_storage \<Rightarrow> bool" where
  store_empty: "store_reach storage_new"
| store_write: "store_reach m \<Longrightarrow> store_reach (storage_set k v m)"
| store_delete: "store_reach m \<Longrightarrow> store_reach (storage_del k m)"

lemma store_reach_ok: "store_reach m \<Longrightarrow> om_ok bytes_cmp m"
  by (induction rule: store_reach.induct) (auto simp: storage_new_def intro: mem_store.good_put mem_store.good_del)

text \<open>After every history of writes and deletes on the empty store, a prefix scan lists exactly the entries whose key
  starts with the prefix, in strictly ascending byte order, and clearing the store leaves no key behind.\<close>

theorem storage_scan_exact:
  assumes "store_reach m"
  shows "storage_scan p m = filter (\<lambda>(k, v). starts_with p k) m \<and>
    sorted_wrt (\<lambda>a b. bytes_cmp (fst a) (fst b) = Less) (storage_scan p m) \<and>
    (\<forall>k v. (k, v) \<in> set (storage_scan p m) \<longleftrightarrow> storage_get k m = Some v \<and> starts_with p k) \<and>
    (\<forall>k. storage_get k (storage_clear m) = None)"
  using store_reach_ok [OF assms] scan_filter mem_store.scan_sorted mem_store.scan_sound mem_store.clear_empties
  by (simp add: storage_clear_def)

theorem storage_scan_exact_witness:
  "storage_scan [97] (storage_set [98] (BoundRow []) (storage_set [97, 49] (TakeState 1 None) storage_new)) = [([97, 49], TakeState 1 None)]"
proof -
  have "store_reach (storage_set [98] (BoundRow []) (storage_set [97, 49] (TakeState 1 None) storage_new))"
    by (intro store_write store_empty)
  then show ?thesis using storage_scan_exact [of _ "[97]"] by (simp add: storage_set_def storage_new_def cmp_of_def)
qed

end
