(* ===== verification/State_Keys.thy ===== *)
theory State_Keys
  imports Changes
begin

text \<open>
  The keys the stateful operators use: the partition helpers of \<open>rust/src/op/partition.rs\<close>, the join
  helpers and canonical keys of \<open>rust/src/op/join_util.rs\<close>, and the reversible primary-key text of
  \<open>rust/src/op/cap.rs\<close>. Text is a list of bytes as in \<open>Values\<close>; it is valid UTF-8 by construction of
  a row, so \<open>String::from_utf8_lossy\<close> and \<open>str_of_validated\<close> are the identity on it.
\<close>

section \<open>Decimal text\<close>

text \<open>\<open>to_string\<close> on integers, and the parsers that read it back.\<close>

fun dec :: "nat \<Rightarrow> byte list" where
  "dec n = (if n < 10 then [of_nat (48 + n)] else dec (n div 10) @ [of_nat (48 + n mod 10)])"

declare dec.simps [simp del]

definition dec_i64 :: "i64 \<Rightarrow> byte list" where
  "dec_i64 i = (if sint i < 0 then 45 # dec (nat (- sint i)) else dec (nat (sint i)))"

definition digit_of :: "byte \<Rightarrow> nat option" where
  "digit_of b = (if 48 \<le> b \<and> b \<le> 57 then Some (unat (b - 48)) else None)"

fun read_digits :: "nat \<Rightarrow> byte list \<Rightarrow> nat option" where
  "read_digits acc [] = Some acc"
| "read_digits acc (b # bs) = do { d \<leftarrow> digit_of b; read_digits (acc * 10 + d) bs }"

definition parse_nat :: "byte list \<Rightarrow> nat option" where
  "parse_nat bs = (if bs = [] then None else read_digits 0 bs)"

definition strip_plus :: "byte list \<Rightarrow> byte list" where
  "strip_plus bs = (if bs \<noteq> [] \<and> hd bs = 43 then tl bs else bs)"

definition parse_u64 :: "byte list \<Rightarrow> 64 word option" where
  "parse_u64 bs = do { n \<leftarrow> parse_nat (strip_plus bs); if n < 2 ^ 64 then Some (of_nat n) else None }"

definition parse_i64 :: "byte list \<Rightarrow> i64 option" where
  "parse_i64 bs = (if bs \<noteq> [] \<and> hd bs = 45
     then do { n \<leftarrow> parse_nat (tl bs); if n \<le> 2 ^ 63 then Some (- of_nat n) else None }
     else do { n \<leftarrow> parse_nat (strip_plus bs); if n < 2 ^ 63 then Some (of_nat n) else None })"

section \<open>Partition keys\<close>

definition constraint_matches_partition_key :: "row_constraint \<Rightarrow> col_id list \<Rightarrow> bool" where
  "constraint_matches_partition_key c pk \<longleftrightarrow>
     length c = length pk \<and> list_all (\<lambda>p. list_ex (\<lambda>(col, _). col = p) c) pk"

fun cols_equal :: "row \<Rightarrow> row \<Rightarrow> col_id list \<Rightarrow> bool option" where
  "cols_equal a b [] = Some True"
| "cols_equal a b (c # cs) = do {
     x \<leftarrow> row_col a c; y \<leftarrow> row_col b c; ord \<leftarrow> compare_values x y;
     if ord = Equal then cols_equal a b cs else Some False }"

definition partition_key_unchanged :: "row \<Rightarrow> row \<Rightarrow> col_id list \<Rightarrow> bool option" where
  "partition_key_unchanged old new pk = cols_equal old new pk"

definition encode_value :: "cell_value \<Rightarrow> byte list" where
  "encode_value v = (case v of
       Absent \<Rightarrow> [97]
     | Null \<Rightarrow> [110]
     | Bool b \<Rightarrow> [98, if b then 49 else 48]
     | IntV i \<Rightarrow> 105 # dec_i64 i
     | Float f \<Rightarrow> (case float_int_class f of
           Some i \<Rightarrow> 105 # dec_i64 i
         | None \<Rightarrow> 102 # dec (unat f))
     | Str x \<Rightarrow> 115 # dec (length x) @ 58 # x
     | Json x \<Rightarrow> 106 # dec (length x) @ 58 # x)"

fun encode_values :: "cell_value list \<Rightarrow> byte list" where
  "encode_values [] = []"
| "encode_values (v # vs) = 31 # encode_value v @ encode_values vs"

definition encode_state_key :: "byte list \<Rightarrow> cell_value list \<Rightarrow> byte list" where
  "encode_state_key prefix vs = prefix @ encode_values vs"

section \<open>Join keys\<close>

fun is_join_match :: "row \<Rightarrow> col_id list \<Rightarrow> row \<Rightarrow> col_id list \<Rightarrow> bool option" where
  "is_join_match parent (pk # pks) child (ck # cks) = do {
     x \<leftarrow> row_col parent pk; y \<leftarrow> row_col child ck; e \<leftarrow> values_equal x y;
     if e then is_join_match parent pks child cks else Some False }"
| "is_join_match parent _ child _ = Some True"

definition row_equals_for_compound_key :: "row \<Rightarrow> row \<Rightarrow> col_id list \<Rightarrow> bool option" where
  "row_equals_for_compound_key a b key = cols_equal a b key"

datatype canon_val =
    CAbsent
  | CNull
  | CBool bool
  | CInt i64
  | CFloat "64 word"
  | CStr "byte list"
  | CJson "byte list"

fun canon_of :: "cell_value \<Rightarrow> canon_val" where
  "canon_of Absent = CAbsent"
| "canon_of Null = CNull"
| "canon_of (Bool b) = CBool b"
| "canon_of (IntV i) = CInt i"
| "canon_of (Float f) = (case float_int_class f of Some i \<Rightarrow> CInt i | None \<Rightarrow> CFloat f)"
| "canon_of (Str s) = CStr s"
| "canon_of (Json j) = CJson j"

fun canonical_key :: "row \<Rightarrow> col_id list \<Rightarrow> canon_val list option" where
  "canonical_key r [] = Some []"
| "canonical_key r (c # cs) = do { v \<leftarrow> row_col r c; k \<leftarrow> canonical_key r cs; Some (canon_of v # k) }"

definition canonical_key_of_constraint :: "row_constraint \<Rightarrow> canon_val list" where
  "canonical_key_of_constraint c = map (\<lambda>(_, v). canon_of v) c"

section \<open>The primary-key text of Cap\<close>

definition pk_part :: "cell_value \<Rightarrow> byte \<times> byte list" where
  "pk_part v = (case v of
       Absent \<Rightarrow> (97, [])
     | Null \<Rightarrow> (110, [])
     | Bool b \<Rightarrow> (98, [if b then 49 else 48])
     | IntV i \<Rightarrow> (105, dec_i64 i)
     | Float f \<Rightarrow> (102, dec (unat f))
     | Str x \<Rightarrow> (115, x)
     | Json x \<Rightarrow> (106, x))"

fun serialize_pk :: "row \<Rightarrow> col_id list \<Rightarrow> byte list option" where
  "serialize_pk r [] = Some []"
| "serialize_pk r (c # cs) = do {
     v \<leftarrow> row_col r c;
     let (tag, content) = pk_part v;
     rest \<leftarrow> serialize_pk r cs;
     Some (tag # dec (length content) @ 58 # content @ rest) }"

text \<open>The length loop stops at the colon; a byte that is no digit would underflow the subtraction.\<close>

fun read_len :: "nat \<Rightarrow> byte list \<Rightarrow> (nat \<times> byte list) option" where
  "read_len acc [] = None"
| "read_len acc (b # bs) = (if b = 58 then Some (acc, bs) else do { d \<leftarrow> digit_of b; read_len (acc * 10 + d) bs })"

definition pk_value :: "byte \<Rightarrow> byte list \<Rightarrow> cell_value option" where
  "pk_value tag content =
     (if tag = 97 then Some Absent
      else if tag = 110 then Some Null
      else if tag = 98 then Some (Bool (content = [49]))
      else if tag = 105 then map_option IntV (parse_i64 content)
      else if tag = 102 then map_option Float (parse_u64 content)
      else if tag = 115 then Some (Str content)
      else if tag = 106 then Some (Json content)
      else None)"

fun deserialize_pk :: "byte list \<Rightarrow> col_id list \<Rightarrow> row_constraint option" where
  "deserialize_pk bs [] = Some []"
| "deserialize_pk [] (c # cs) = None"
| "deserialize_pk (tag # bs) (c # cs) = do {
     (len, rest) \<leftarrow> read_len 0 bs;
     content \<leftarrow> (if len \<le> length rest then Some (take len rest) else None);
     v \<leftarrow> pk_value tag content;
     out \<leftarrow> deserialize_pk (drop len rest) cs;
     Some ((c, v) # out) }"

section \<open>Decimal text reads back\<close>

lemma unat_digit: "d < 10 \<Longrightarrow> unat (48 + of_nat d :: byte) = 48 + d"
proof -
  assume "d < 10"
  then have "unat (of_nat (48 + d) :: byte) = 48 + d" by (simp only: unat_of_nat take_bit_nat_def) simp
  then show ?thesis by simp
qed

lemma digit_of_digit: "d < 10 \<Longrightarrow> digit_of (of_nat (48 + d)) = Some d"
  using unat_digit [of d] by (auto simp: digit_of_def word_le_nat_alt unat_of_nat take_bit_nat_def)

lemma read_digits_append: "read_digits acc (xs @ ys) = Option.bind (read_digits acc xs) (\<lambda>a. read_digits a ys)"
  by (induction xs arbitrary: acc) (auto split: Option.bind_splits)

lemma read_digits_dec: "read_digits 0 (dec n) = Some n"
proof (induction n rule: less_induct)
  case (less n)
  show ?case
  proof (cases "n < 10")
    case True
    then show ?thesis using digit_of_digit [of n] by (simp add: dec.simps [of n])
  next
    case False
    then have "read_digits 0 (dec (n div 10)) = Some (n div 10)" by (intro less) simp
    then show ?thesis using False digit_of_digit [of "n mod 10"]
      by (simp add: dec.simps [of n] read_digits_append)
  qed
qed

lemma dec_ne [simp]: "dec n \<noteq> []"
  by (subst dec.simps) simp

lemma dec_digits: "b \<in> set (dec n) \<Longrightarrow> 48 \<le> b \<and> b \<le> 57"
proof (induction n rule: less_induct)
  case (less n)
  have d: "48 \<le> (of_nat (48 + k) :: byte) \<and> (of_nat (48 + k) :: byte) \<le> 57" if "k < 10" for k
    using unat_digit [OF that] that by (simp add: word_le_nat_alt)
  show ?case using less.prems less.IH [of "n div 10"] d [of n] d [of "n mod 10"]
    by (subst (asm) dec.simps) (auto split: if_splits)
qed

lemma dec_not [simp]: "b \<notin> set (dec n)" if "b < 48 \<or> 57 < b"
  using dec_digits [of b n] that by auto

lemma dec_inject [simp]: "dec m = dec n \<longleftrightarrow> m = n"
  by (metis option.inject read_digits_dec)

lemma dec_i64_cases:
  obtains "sint i < 0" "dec_i64 i = 45 # dec (nat (- sint i))" | "0 \<le> sint i" "dec_i64 i = dec (nat (sint i))"
  by (cases "sint i < 0") (simp_all add: dec_i64_def)

lemma hd_dec_not: "hd (dec n) \<noteq> 45" "hd (dec n) \<noteq> 43"
  using dec_digits [of "hd (dec n)" n] by (auto simp: word_le_nat_alt)

lemma dec_i64_inject [simp]: "dec_i64 i = dec_i64 j \<longleftrightarrow> i = j"
proof
  assume e: "dec_i64 i = dec_i64 j"
  have "sint i = sint j"
    by (cases i rule: dec_i64_cases; cases j rule: dec_i64_cases)
      (use e hd_dec_not(1) in \<open>auto simp: nat_eq_iff split: if_splits, (metis list.sel(1))+\<close>)
  then show "i = j" by (simp add: sint_inject)
qed simp

lemma dec_i64_not [simp]: "b \<notin> set (dec_i64 i)" if "b < 45 \<or> b = 58"
  using that by (cases i rule: dec_i64_cases) (auto simp: word_less_nat_alt)

lemma parse_nat_dec [simp]: "parse_nat (dec n) = Some n"
  by (simp add: parse_nat_def read_digits_dec)

lemma strip_plus_dec [simp]: "strip_plus (dec n) = dec n"
  using hd_dec_not(2) by (simp add: strip_plus_def)

lemma parse_u64_dec: "parse_u64 (dec (unat w)) = Some w"
  using unsigned_less [of w] by (simp add: parse_u64_def)

lemma parse_i64_dec: "parse_i64 (dec_i64 i) = Some i"
proof (cases i rule: dec_i64_cases)
  case 1
  have "- (2 ^ 63) \<le> sint i" using sint_ge [of i] by simp
  then have "nat (- sint i) \<le> 2 ^ 63" by (simp add: nat_le_iff)
  moreover have "- of_nat (nat (- sint i)) = i" using 1(1) by (simp add: of_nat_nat)
  ultimately show ?thesis using 1(2) by (simp add: parse_i64_def)
next
  case 2
  have "sint i < 2 ^ 63" using sint_lt [of i] by simp
  then have "nat (sint i) < 2 ^ 63" using 2(1) by (simp add: nat_less_iff)
  moreover have "of_nat (nat (sint i)) = i" using 2(1) by (simp add: of_nat_nat)
  ultimately show ?thesis using 2(2) hd_dec_not(1) by (simp add: parse_i64_def)
qed

section \<open>State keys separate exactly the distinct values\<close>

fun encode_canon :: "canon_val \<Rightarrow> byte list" where
  "encode_canon CAbsent = [97]"
| "encode_canon CNull = [110]"
| "encode_canon (CBool b) = [98, if b then 49 else 48]"
| "encode_canon (CInt i) = 105 # dec_i64 i"
| "encode_canon (CFloat f) = 102 # dec (unat f)"
| "encode_canon (CStr x) = 115 # dec (length x) @ 58 # x"
| "encode_canon (CJson x) = 106 # dec (length x) @ 58 # x"

lemma encode_value_canon: "encode_value v = encode_canon (canon_of v)"
  by (cases v) (simp_all add: encode_value_def split: option.split)

lemma float_class_inject:
  assumes "float_int_class f = Some i" "float_int_class g = Some i"
  shows "f = g"
proof -
  have "compare_predicate_values (Float f) (IntV i) = Equal" "compare_predicate_values (IntV i) (Float g) = Equal"
    using assms by (simp_all add: float_int_class_correct)
  then have "compare_predicate_values (Float f) (Float g) = Equal"
    using pred_order.cmp_eq_cong [of "Float f" "IntV i" "Float g"] by simp
  then show ?thesis by (simp add: total_cmp_Equal_iff)
qed

lemma canon_of_eq_iff: "canon_of a = canon_of b \<longleftrightarrow> values_identical a b"
proof -
  note fc = float_int_class_correct [symmetric]
  have num: "canon_of a = canon_of b \<longleftrightarrow> values_identical a b" if "a \<in> range IntV \<union> range Float" "b \<in> range IntV \<union> range Float"
    using that float_class_inject by (auto simp: fc total_cmp_Equal_iff split: option.splits)
  show ?thesis
  proof (cases "a \<in> range IntV \<union> range Float \<and> b \<in> range IntV \<union> range Float")
    case False
    then show ?thesis by (cases a; cases b) (auto split: option.splits)
  qed (use num in blast)
qed

text \<open>An encoded value is delimited: what follows it is empty or starts with the separator.\<close>

definition delimited :: "byte list \<Rightarrow> bool" where
  "delimited r \<longleftrightarrow> r = [] \<or> hd r = 31"

lemma delimited_values [simp]: "delimited (encode_values vs)"
  by (cases vs) (simp_all add: delimited_def)

lemma stop_inject:
  assumes "xs @ r = ys @ r'" "z \<notin> set xs" "z \<notin> set ys" "r = [] \<or> hd r = z" "r' = [] \<or> hd r' = z"
  shows "xs = ys \<and> r = r'"
proof -
  have "takeWhile (\<lambda>b. b \<noteq> z) (us @ q) = us" if "z \<notin> set us" "q = [] \<or> hd q = z" for us q
    using that by (induction us) (cases q; auto)+
  then have "xs = ys" using assms by metis
  then show ?thesis using assms(1) by simp
qed

lemma text_inject:
  fixes x y :: "byte list"
  assumes "dec (length x) @ 58 # x @ r = dec (length y) @ 58 # y @ r'"
  shows "x = y \<and> r = r'"
proof -
  have "dec (length x) = dec (length y) \<and> 58 # x @ r = 58 # y @ r'"
    by (rule stop_inject [OF assms, of 58]) (simp_all add: word_less_nat_alt)
  then show ?thesis using append_eq_append_conv by auto
qed

lemma encode_canon_inject:
  assumes "encode_canon c @ r = encode_canon d @ r'" "delimited r" "delimited r'"
  shows "c = d \<and> r = r'"
proof -
  have int: "i = j \<and> r = r'" if "dec_i64 i @ r = dec_i64 j @ r'" for i j
    using stop_inject [OF that, of 31] assms(2,3) by (simp add: delimited_def word_less_nat_alt)
  have flt: "f = g \<and> r = r'" if "dec (unat (f :: 64 word)) @ r = dec (unat (g :: 64 word)) @ r'" for f g
    using stop_inject [OF that, of 31] assms(2,3) by (auto simp: delimited_def word_less_nat_alt unsigned_word_eqI)
  show ?thesis using assms(1) by (cases c; cases d) (auto split: if_splits dest!: int flt text_inject)
qed

lemma encode_values_inject: "encode_values vs = encode_values ws \<longleftrightarrow> map canon_of vs = map canon_of ws"
proof (induction vs arbitrary: ws)
  case Nil
  then show ?case by (cases ws) auto
next
  case (Cons v vs)
  show ?case
  proof (cases ws)
    case w: (Cons w ws')
    show ?thesis
      using encode_canon_inject [of "canon_of v" "encode_values vs" "canon_of w" "encode_values ws'"] Cons.IH [of ws']
      by (auto simp: w encode_value_canon)
  qed simp
qed

section \<open>Round trip of the primary-key text\<close>

lemma read_len_digits:
  assumes "read_digits acc ds = Some n" "58 \<notin> set ds"
  shows "read_len acc (ds @ 58 # r) = Some (n, r)"
  using assms by (induction ds arbitrary: acc) (auto split: Option.bind_splits)

lemma read_len_dec: "read_len 0 (dec n @ 58 # r) = Some (n, r)"
  by (rule read_len_digits [OF read_digits_dec]) (simp add: word_less_nat_alt)

lemma pk_value_part: "pk_value (fst (pk_part v)) (snd (pk_part v)) = Some v"
  by (cases v) (auto simp: pk_part_def pk_value_def parse_i64_dec parse_u64_dec)

lemma deserialize_serialize:
  "serialize_pk r pk = Some bs \<Longrightarrow> deserialize_pk (bs @ zs) pk = Some (map (\<lambda>c. (c, r ! c)) pk)"
proof (induction pk arbitrary: bs)
  case (Cons c pk)
  then obtain v rest where v: "row_col r c = Some v" "serialize_pk r pk = Some rest"
    "bs = fst (pk_part v) # dec (length (snd (pk_part v))) @ 58 # snd (pk_part v) @ rest"
    by (auto simp: case_prod_beta Let_def split: Option.bind_splits)
  have "v = r ! c" using v(1) by (auto simp: row_col_def vec_get_def split: if_splits)
  then show ?case using Cons.IH [OF v(2)] v(3) by (simp add: read_len_dec pk_value_part)
qed simp

lemma serialize_pk_total: "\<forall>c\<in>set pk. c < length r \<Longrightarrow> \<exists>bs. serialize_pk r pk = Some bs"
  by (induction pk) (auto simp: row_col_def case_prod_beta Let_def)

section \<open>Join keys\<close>

definition key_pairs_typed :: "row \<Rightarrow> col_id list \<Rightarrow> row \<Rightarrow> col_id list \<Rightarrow> bool" where
  "key_pairs_typed a ka b kb \<longleftrightarrow> list_all2 (\<lambda>p c. p < length a \<and> c < length b \<and> (\<exists>k. conforms k (a ! p) \<and> conforms k (b ! c))) ka kb"

lemma is_join_match_typed:
  "key_pairs_typed a ka b kb \<Longrightarrow> is_join_match a ka b kb = Some (list_all2 (\<lambda>p c. cells_join (a ! p) (b ! c)) ka kb)"
  unfolding key_pairs_typed_def
  by (induction rule: list_all2_induct) (auto simp: row_col_def values_equal_conforms)

lemma canonical_key_map: "\<forall>c\<in>set key. c < length r \<Longrightarrow> canonical_key r key = Some (map (\<lambda>c. canon_of (r ! c)) key)"
  by (induction key) (auto simp: row_col_def)

lemma cells_join_canon: "a \<notin> {Absent, Null} \<Longrightarrow> cells_join a b \<longleftrightarrow> canon_of a = canon_of b"
  by (simp add: cells_join_def canon_of_eq_iff values_identical_iff)

lemma encode_state_key_iff: "encode_state_key p vs = encode_state_key p ws \<longleftrightarrow> list_all2 values_identical vs ws"
proof -
  have "map canon_of vs = map canon_of ws \<longleftrightarrow> list_all2 (\<lambda>a b. canon_of a = canon_of b) vs ws"
    by (auto simp: list_eq_iff_nth_eq list_all2_conv_all_nth)
  then show ?thesis unfolding encode_state_key_def by (simp add: encode_values_inject canon_of_eq_iff)
qed

section \<open>Properties\<close>

text \<open>The state key of a partition identifies its values: two value tuples get the same key under one prefix exactly
  when they have the same length and agree position by position in predicate identity, so an integer and the float it
  equals share their state, and nothing else is ever confused, whatever bytes the texts hold.\<close>

theorem encode_state_key_exact:
  "encode_state_key p vs = encode_state_key p ws \<longleftrightarrow> list_all2 values_identical vs ws"
  by (rule encode_state_key_iff)

text \<open>(C38) The text under which \<open>Cap\<close> tracks a primary key reads back as the constraint that pins exactly the row's key
  cells, for every cell value.\<close>

theorem pk_text_roundtrip:
  assumes "\<forall>c\<in>set pk. c < length r"
  shows "\<exists>bs. serialize_pk r pk = Some bs \<and> deserialize_pk bs pk = Some (map (\<lambda>c. (c, r ! c)) pk)"
  using serialize_pk_total [OF assms] deserialize_serialize [of r pk _ "[]"] by auto

theorem pk_text_roundtrip_witness:
  "\<exists>bs. serialize_pk [IntV (-7), Str [58, 49]] [0, 1] = Some bs \<and>
    deserialize_pk bs [0, 1] = Some [(0, IntV (-7)), (1, Str [58, 49])]"
  using pk_text_roundtrip [of "[0, 1]" "[IntV (-7), Str [58, 49]]"] by simp

text \<open>Canonical keys decide joins: when the parent's key cells are present and not null, parent and child get the same
  canonical key exactly when they join on the compound key.\<close>

theorem canonical_key_join:
  assumes "key_pairs_typed a ka b kb" "\<forall>p\<in>set ka. a ! p \<notin> {Absent, Null}"
  shows "is_join_match a ka b kb = Some (canonical_key a ka = canonical_key b kb)"
proof -
  have range: "\<forall>p\<in>set ka. p < length a" "\<forall>c\<in>set kb. c < length b"
    using assms(1) by (auto simp: key_pairs_typed_def list_all2_conv_all_nth in_set_conv_nth)
  have len: "length ka = length kb" using assms(1) by (auto simp: key_pairs_typed_def list_all2_lengthD)
  have "list_all2 (\<lambda>p c. cells_join (a ! p) (b ! c)) ka kb \<longleftrightarrow>
      map (\<lambda>c. canon_of (a ! c)) ka = map (\<lambda>c. canon_of (b ! c)) kb"
    using len assms(2) cells_join_canon by (auto simp: list_eq_iff_nth_eq list_all2_conv_all_nth)
  then show ?thesis using is_join_match_typed [OF assms(1)] canonical_key_map [OF range(1)] canonical_key_map [OF range(2)] by simp
qed

theorem canonical_key_join_witness:
  "is_join_match [IntV 1, Str [97]] [0, 1] [Str [97], Float 0x3FF0000000000000] [1, 0] = Some
     (canonical_key [IntV 1, Str [97]] [0, 1] = canonical_key [Str [97], Float 0x3FF0000000000000] [1, 0])"
  by (rule canonical_key_join) (auto simp: key_pairs_typed_def intro: exI [of _ KNum] exI [of _ KStr])

end
