(* ===== verification/Op_Env.thy ===== *)
theory Op_Env
  imports Nodes Storage State_Keys Push
begin

text \<open>
  What an operator of the graph sees of the rest of it: its input, its output edge, its slot of the storage
  arena, the row hidden from its fetches while a displacement is in flight, and the push deadline. The
  operators of \<open>rust/src/op\<close> reach these through \<open>&Graph\<close>; a record of callbacks over an opaque state
  \<open>'s\<close> stands for them, so that an operator is modelled once for every graph around it.

  A stream of the program is lazy; here it is drained. An output that is not wired is a callback that fails.
\<close>

record 's graph_env =
  g_fetch :: "fetch_request \<Rightarrow> 's \<Rightarrow> (node list \<times> 's) option"
  g_push :: "change \<Rightarrow> 's \<Rightarrow> 's option"
  g_storage :: "'s \<Rightarrow> memory_storage"
  g_put_storage :: "memory_storage \<Rightarrow> 's \<Rightarrow> 's"
  g_hidden :: "'s \<Rightarrow> row option"
  g_put_hidden :: "row option \<Rightarrow> 's \<Rightarrow> 's"
  g_deadline :: "'s \<Rightarrow> bool \<times> 's"
  g_park :: "string \<Rightarrow> 's \<Rightarrow> 's"

section \<open>Ordered inputs\<close>

abbreviation node_cmp :: "sort \<Rightarrow> node \<Rightarrow> node \<Rightarrow> ordering option" where
  "node_cmp srt a b \<equiv> compare_rows srt (node_row a) (node_row b)"

abbreviation node_dom :: "(col_id \<Rightarrow> kind) \<Rightarrow> sort \<Rightarrow> node set" where
  "node_dom ty srt \<equiv> {n. row_ok ty srt (node_row n)}"

interpretation node_order: comparator_on "node_dom ty srt" "node_cmp srt" for ty srt
  by (rule comparator_vimage [OF row_order.comparator_on_axioms]) simp

text \<open>The direction of a scan, and the nodes a start bound admits.\<close>

definition scan_dir :: "bool \<Rightarrow> 'a list \<Rightarrow> 'a list" where
  "scan_dir rev' xs = (if rev' then rev xs else xs)"

definition admits_start :: "sort \<Rightarrow> fetch_request \<Rightarrow> node \<Rightarrow> bool" where
  "admits_start srt req n \<longleftrightarrow>
     (\<forall>st. req_start req = Some st \<longrightarrow> start_reached st srt (req_reverse req) (node_row n) = Some True)"

text \<open>A state that records what is pushed, for stating what an operator emits.\<close>

record op_state =
  os_storage :: memory_storage
  os_hidden :: "row option"
  os_log :: "change list"

definition log_env :: "(fetch_request \<Rightarrow> node list option) \<Rightarrow> op_state graph_env" where
  "log_env f = \<lparr>
     g_fetch = (\<lambda>req st. map_option (\<lambda>ns. (ns, st)) (f req)),
     g_push = (\<lambda>c st. Some (st \<lparr> os_log := os_log st @ [c] \<rparr>)),
     g_storage = os_storage,
     g_put_storage = (\<lambda>m st. st \<lparr> os_storage := m \<rparr>),
     g_hidden = os_hidden,
     g_put_hidden = (\<lambda>h st. st \<lparr> os_hidden := h \<rparr>),
     g_deadline = (\<lambda>st. (False, st)),
     g_park = (\<lambda>site st. st) \<rparr>"

lemma log_env_simps [simp]:
  "g_fetch (log_env f) req st = map_option (\<lambda>ns. (ns, st)) (f req)"
  "g_push (log_env f) c st = Some (st \<lparr> os_log := os_log st @ [c] \<rparr>)"
  "g_storage (log_env f) st = os_storage st"
  "g_put_storage (log_env f) m st = st \<lparr> os_storage := m \<rparr>"
  "g_hidden (log_env f) st = os_hidden st"
  "g_put_hidden (log_env f) h st = st \<lparr> os_hidden := h \<rparr>"
  "g_deadline (log_env f) st = (False, st)"
  by (simp_all add: log_env_def)

section \<open>What downstream sees\<close>

text \<open>A stream of changes replayed on the set of nodes a downstream view holds: an addition must be new, a removal or an
  edit must name a node that is there (by its row), and no more than \<open>limit\<close> nodes may be held at any moment.\<close>

fun replay :: "nat \<Rightarrow> change list \<Rightarrow> row set \<Rightarrow> row set option" where
  "replay limit [] V = Some V"
| "replay limit (Add n # cs) V = (if node_row n \<notin> V \<and> card V < limit then replay limit cs (insert (node_row n) V) else None)"
| "replay limit (Remove n # cs) V = (if node_row n \<in> V then replay limit cs (V - {node_row n}) else None)"
| "replay limit (Edit n old # cs) V = (if node_row old \<in> V \<and> (node_row n \<in> V \<longrightarrow> node_row n = node_row old)
     then replay limit cs (insert (node_row n) (V - {node_row old})) else None)"
| "replay limit (Child n rel c # cs) V = (if node_row n \<in> V then replay limit cs V else None)"

end
