(* ===== verification/Op_Take.thy ===== *)
theory Op_Take
  imports Op_Env
begin

text \<open>
  The bounded window operator \<open>Take\<close> (\<open>rust/src/op/take.rs\<close>): the first \<open>limit\<close> rows of its input, per
  partition, kept up to date from a size and a bound. The input, the output edge and the storage slot are
  reached through \<open>graph_env\<close>; the flag \<open>debug\<close> tells whether debug assertions are compiled in.
\<close>

record take_op =
  tk_limit :: "32 word"
  tk_partition_key :: "col_id list option"
  tk_sort :: sort

definition MAX_BOUND_KEY :: "byte list" where
  "MAX_BOUND_KEY = [109, 97, 120, 66, 111, 117, 110, 100]"

definition take_prefix :: "byte list" where
  "take_prefix = [116, 97, 107, 101]"

section \<open>State\<close>

definition get_state :: "'s graph_env \<Rightarrow> byte list \<Rightarrow> 's \<Rightarrow> (32 word \<times> row option) option option" where
  "get_state env key st = (case storage_get key (g_storage env st) of
       None \<Rightarrow> Some None
     | Some (TakeState sz bnd) \<Rightarrow> Some (Some (sz, bnd))
     | Some _ \<Rightarrow> None)"

definition get_max_bound :: "'s graph_env \<Rightarrow> 's \<Rightarrow> row option option" where
  "get_max_bound env st = (case storage_get MAX_BOUND_KEY (g_storage env st) of
       None \<Rightarrow> Some None
     | Some (BoundRow r) \<Rightarrow> Some (Some r)
     | Some _ \<Rightarrow> None)"

definition set_state :: "'s graph_env \<Rightarrow> take_op \<Rightarrow> byte list \<Rightarrow> 32 word \<Rightarrow> row option \<Rightarrow> row option \<Rightarrow> 's \<Rightarrow> 's option" where
  "set_state env tk key sz bnd max_bnd st = do {
     let st1 = g_put_storage env (storage_set key (TakeState sz bnd) (g_storage env st)) st;
     case bnd of None \<Rightarrow> Some st1
     | Some b \<Rightarrow> do {
         bump \<leftarrow> (case max_bnd of None \<Rightarrow> Some True | Some mb \<Rightarrow> map_option (\<lambda>c. c = Greater) (compare_rows (tk_sort tk) b mb));
         Some (if bump then g_put_storage env (storage_set MAX_BOUND_KEY (BoundRow b) (g_storage env st1)) st1 else st1)
       }
   }"

fun cells_of :: "row \<Rightarrow> col_id list \<Rightarrow> cell_value list option" where
  "cells_of r [] = Some []"
| "cells_of r (c # cs) = do { v \<leftarrow> row_col r c; vs \<leftarrow> cells_of r cs; Some (v # vs) }"

definition key_from_row :: "take_op \<Rightarrow> row \<Rightarrow> byte list option" where
  "key_from_row tk r = (case tk_partition_key tk of
       None \<Rightarrow> Some (encode_state_key take_prefix [])
     | Some pk \<Rightarrow> map_option (encode_state_key take_prefix) (cells_of r pk))"

definition key_from_constraint :: "take_op \<Rightarrow> row_constraint option \<Rightarrow> byte list" where
  "key_from_constraint tk c = (case (tk_partition_key tk, c) of
       (Some pk, Some c) \<Rightarrow> encode_state_key take_prefix (map (\<lambda>col. case map_of c col of Some v \<Rightarrow> v | None \<Rightarrow> Null) pk)
     | _ \<Rightarrow> encode_state_key take_prefix [])"

definition constraint_for :: "take_op \<Rightarrow> row \<Rightarrow> row_constraint option option" where
  "constraint_for tk r = (case tk_partition_key tk of
       None \<Rightarrow> Some None
     | Some pk \<Rightarrow> map_option (\<lambda>vs. Some (zip pk vs)) (cells_of r pk))"

definition fetch_n ::
  "'s graph_env \<Rightarrow> row \<Rightarrow> basis \<Rightarrow> row_constraint option \<Rightarrow> bool \<Rightarrow> nat \<Rightarrow> 's \<Rightarrow> (node list \<times> 's) option" where
  "fetch_n env bnd bs constr rev' n st = do {
     (ns, st1) \<leftarrow> g_fetch env \<lparr> req_constraint = constr, multi_constraints = [],
       req_start = Some \<lparr> start_row = bnd, start_basis = bs \<rparr>, req_reverse = rev' \<rparr> st;
     Some (take n ns, st1)
   }"

section \<open>Fetch\<close>

fun initial_loop :: "32 word \<Rightarrow> 32 word \<Rightarrow> row option \<Rightarrow> node list \<Rightarrow> node list \<Rightarrow> 32 word \<times> row option \<times> node list" where
  "initial_loop limit sz bnd out [] = (sz, bnd, out)"
| "initial_loop limit sz bnd out (n # ns) =
     (let sz' = sz + 1
      in if sz' = limit then (sz', Some (node_row n), out @ [n])
         else initial_loop limit sz' (Some (node_row n)) (out @ [n]) ns)"

definition initial_fetch :: "bool \<Rightarrow> 's graph_env \<Rightarrow> take_op \<Rightarrow> fetch_request \<Rightarrow> 's \<Rightarrow> (node list \<times> 's) option" where
  "initial_fetch debug env tk req st = do {
     debug_check debug (Some (req_start req = None));
     debug_check debug (Some (\<not> req_reverse req));
     if tk_limit tk = 0 then Some ([], st)
     else do {
       let key = key_from_constraint tk (req_constraint req);
       debug_check debug (map_option (\<lambda>x. x = None) (get_state env key st));
       (ns, st1) \<leftarrow> g_fetch env req st;
       let (sz, bnd, out) = initial_loop (tk_limit tk) 0 None [] ns;
       max_bnd \<leftarrow> get_max_bound env st1;
       st2 \<leftarrow> set_state env tk key sz bnd max_bnd st1;
       Some (out, st2)
     }
   }"

fun take_while_nodes :: "(node \<Rightarrow> bool option) \<Rightarrow> node list \<Rightarrow> node list option" where
  "take_while_nodes p [] = Some []"
| "take_while_nodes p (n # ns) = do { b \<leftarrow> p n; if b then map_option (Cons n) (take_while_nodes p ns) else Some [] }"

fun filter_nodes :: "(node \<Rightarrow> bool option) \<Rightarrow> node list \<Rightarrow> node list option" where
  "filter_nodes p [] = Some []"
| "filter_nodes p (n # ns) = do { b \<leftarrow> p n; rest \<leftarrow> filter_nodes p ns; Some (if b then n # rest else rest) }"

definition within_own_bound :: "'s graph_env \<Rightarrow> take_op \<Rightarrow> 's \<Rightarrow> node \<Rightarrow> bool option" where
  "within_own_bound env tk st n = do {
     key \<leftarrow> key_from_row tk (node_row n);
     state \<leftarrow> get_state env key st;
     case state of
       Some (_, Some b) \<Rightarrow> map_option (\<lambda>c. c \<noteq> Less) (compare_rows (tk_sort tk) b (node_row n))
     | _ \<Rightarrow> Some False
   }"

definition take_fetch :: "bool \<Rightarrow> 's graph_env \<Rightarrow> take_op \<Rightarrow> fetch_request \<Rightarrow> 's \<Rightarrow> (node list \<times> 's) option" where
  "take_fetch debug env tk req st =
     (if (case tk_partition_key tk of None \<Rightarrow> True
          | Some pk \<Rightarrow> (case req_constraint req of None \<Rightarrow> False | Some c \<Rightarrow> constraint_matches_partition_key c pk))
      then do {
        let key = key_from_constraint tk (req_constraint req);
        state \<leftarrow> get_state env key st;
        case state of
          None \<Rightarrow> initial_fetch debug env tk req st
        | Some (_, None) \<Rightarrow> Some ([], st)
        | Some (_, Some b) \<Rightarrow> do {
            let hidden = g_hidden env st;
            (ns, st1) \<leftarrow> g_fetch env req st;
            ns1 \<leftarrow> take_while_nodes (\<lambda>n. map_option (\<lambda>c. c \<noteq> Less) (compare_rows (tk_sort tk) b (node_row n))) ns;
            ns2 \<leftarrow> filter_nodes (\<lambda>n. case hidden of None \<Rightarrow> Some True
              | Some h \<Rightarrow> map_option (\<lambda>c. c \<noteq> Equal) (compare_rows (tk_sort tk) h (node_row n))) ns1;
            Some (ns2, st1)
          }
      }
      else do {
        max_bnd \<leftarrow> get_max_bound env st;
        case max_bnd of
          None \<Rightarrow> Some ([], st)
        | Some mb \<Rightarrow> do {
            (ns, st1) \<leftarrow> g_fetch env req st;
            ns1 \<leftarrow> take_while_nodes (\<lambda>n. map_option (\<lambda>c. c \<noteq> Greater) (compare_rows (tk_sort tk) (node_row n) mb)) ns;
            ns2 \<leftarrow> filter_nodes (within_own_bound env tk st1) ns1;
            Some (ns2, st1)
          }
      })"

definition evict_partition :: "'s graph_env \<Rightarrow> take_op \<Rightarrow> row_constraint \<Rightarrow> 's \<Rightarrow> 's" where
  "evict_partition env tk c st = (case tk_partition_key tk of
       None \<Rightarrow> st
     | Some pk \<Rightarrow> if constraint_matches_partition_key c pk
         then g_put_storage env (storage_del (key_from_constraint tk (Some c)) (g_storage env st)) st else st)"

section \<open>Push\<close>

definition push_with_row_hidden :: "'s graph_env \<Rightarrow> row \<Rightarrow> change \<Rightarrow> 's \<Rightarrow> 's option" where
  "push_with_row_hidden env r c st = do {
     st1 \<leftarrow> g_push env c (g_put_hidden env (Some r) st);
     Some (g_put_hidden env None st1)
   }"

definition push_add ::
  "'s graph_env \<Rightarrow> take_op \<Rightarrow> node \<Rightarrow> byte list \<Rightarrow> 32 word \<Rightarrow> row option \<Rightarrow> row option \<Rightarrow> row_constraint option \<Rightarrow> 's \<Rightarrow> 's option" where
  "push_add env tk n key sz bnd max_bnd constr st =
     (if sz < tk_limit tk then do {
        new_bnd \<leftarrow> (case bnd of
            Some b \<Rightarrow> map_option (\<lambda>c. if c \<noteq> Less then b else node_row n) (compare_rows (tk_sort tk) b (node_row n))
          | None \<Rightarrow> Some (node_row n));
        st1 \<leftarrow> set_state env tk key (sz + 1) (Some new_bnd) max_bnd st;
        g_push env (Add n) st1
      }
      else do {
        inside \<leftarrow> (case bnd of None \<Rightarrow> Some None
          | Some b \<Rightarrow> map_option (\<lambda>c. if c = Less then Some b else None) (compare_rows (tk_sort tk) (node_row n) b));
        case inside of
          None \<Rightarrow> Some st
        | Some b \<Rightarrow> do {
            (found, st1) \<leftarrow> (if tk_limit tk = 1 then fetch_n env b At constr False 1 st else fetch_n env b At constr True 2 st);
            case found of
              [] \<Rightarrow> None
            | bound_node # rest \<Rightarrow> do {
                new_bnd \<leftarrow> (case rest of
                    bbn # _ \<Rightarrow> map_option (\<lambda>c. if c \<noteq> Greater then node_row bbn else node_row n)
                      (compare_rows (tk_sort tk) (node_row n) (node_row bbn))
                  | [] \<Rightarrow> Some (node_row n));
                st2 \<leftarrow> set_state env tk key sz (Some new_bnd) max_bnd st1;
                st3 \<leftarrow> push_with_row_hidden env (node_row n) (Remove bound_node) st2;
                g_push env (Add n) st3
              }
          }
      })"

text \<open>The scan for a refill: the last row seen and whether it lies past the bound, or an expired deadline.\<close>

fun refill_loop :: "'s graph_env \<Rightarrow> sort \<Rightarrow> row \<Rightarrow> (node \<times> bool) option \<Rightarrow> node list \<Rightarrow> 's \<Rightarrow> ((node \<times> bool) option \<times> bool \<times> 's) option" where
  "refill_loop env srt b acc [] st = Some (acc, False, st)"
| "refill_loop env srt b acc (n # ns) st = (case g_deadline env st of (expired, st1) \<Rightarrow>
     if expired then Some (acc, True, st1)
     else do {
       c \<leftarrow> compare_rows srt (node_row n) b;
       if c = Greater then Some (Some (n, True), False, st1) else refill_loop env srt b (Some (n, False)) ns st1
     })"

definition push_remove ::
  "bool \<Rightarrow> 's graph_env \<Rightarrow> take_op \<Rightarrow> node \<Rightarrow> byte list \<Rightarrow> 32 word \<Rightarrow> row option \<Rightarrow> row option \<Rightarrow> row_constraint option \<Rightarrow> 's \<Rightarrow> 's option" where
  "push_remove debug env tk n key sz bnd max_bnd constr st = (case bnd of
       None \<Rightarrow> Some st
     | Some b \<Rightarrow> do {
         c \<leftarrow> compare_rows (tk_sort tk) (node_row n) b;
         if c = Greater then Some st
         else do {
           (before, st1) \<leftarrow> fetch_n env b After constr True 1 st;
           new0 \<leftarrow> (case before of [] \<Rightarrow> Some None
             | bbn # _ \<Rightarrow> map_option (\<lambda>c. Some (bbn, c = Greater)) (compare_rows (tk_sort tk) (node_row bbn) b));
           (new1, expired, st2) \<leftarrow> (case new0 of
               Some (bbn, True) \<Rightarrow> Some (new0, False, st1)
             | _ \<Rightarrow> do {
                 (ns, st') \<leftarrow> g_fetch env \<lparr> req_constraint = constr, multi_constraints = [],
                   req_start = Some \<lparr> start_row = b, start_basis = At \<rparr>, req_reverse = False \<rparr> st1;
                 refill_loop env (tk_sort tk) b new0 ns st'
               });
           if expired then Some (g_park env ''take backfill scan'' st2)
           else case new1 of
             Some (refill, True) \<Rightarrow> do {
               st3 \<leftarrow> g_push env (Remove n) st2;
               st4 \<leftarrow> set_state env tk key sz (Some (node_row refill)) max_bnd st3;
               g_push env (Add refill) st4
             }
           | other \<Rightarrow> do {
               let new_b = map_option (\<lambda>(m, _). node_row m) other;
               st3 \<leftarrow> (if tk_partition_key tk \<noteq> None \<and> sz - 1 = 0
                 then do {
                   debug_check debug (Some (new_b = None));
                   Some (g_put_storage env (storage_del key (g_storage env st2)) st2)
                 }
                 else set_state env tk key (sz - 1) new_b max_bnd st2);
               g_push env (Remove n) st3
             }
         }
       })"

definition replace_and_forward ::
  "'s graph_env \<Rightarrow> take_op \<Rightarrow> byte list \<Rightarrow> 32 word \<Rightarrow> row option \<Rightarrow> node \<Rightarrow> node \<Rightarrow> 's \<Rightarrow> 's option" where
  "replace_and_forward env tk key sz max_bnd n old st = do {
     st1 \<leftarrow> set_state env tk key sz (Some (node_row n)) max_bnd st;
     g_push env (Edit n old) st1
   }"

text \<open>The edit matrix, by where the old and the new row lie relative to the bound.\<close>

definition edit_at_bound ::
  "'s graph_env \<Rightarrow> take_op \<Rightarrow> node \<Rightarrow> node \<Rightarrow> ordering \<Rightarrow> byte list \<Rightarrow> 32 word \<Rightarrow> row \<Rightarrow> row option \<Rightarrow> row_constraint option \<Rightarrow> 's \<Rightarrow> 's option" where
  "edit_at_bound env tk n old new_cmp key sz b max_bnd constr st = (case new_cmp of
       Equal \<Rightarrow> g_push env (Edit n old) st
     | Less \<Rightarrow> if tk_limit tk = 1 then replace_and_forward env tk key sz max_bnd n old st
         else do {
           (found, st1) \<leftarrow> fetch_n env b After constr True 1 st;
           case found of [] \<Rightarrow> None
           | bbn # _ \<Rightarrow> do {
               st2 \<leftarrow> set_state env tk key sz (Some (node_row bbn)) max_bnd st1;
               g_push env (Edit n old) st2
             }
         }
     | Greater \<Rightarrow> do {
         (found, st1) \<leftarrow> fetch_n env b At constr False 1 st;
         case found of [] \<Rightarrow> None
         | nbn # _ \<Rightarrow> do {
             c \<leftarrow> compare_rows (tk_sort tk) (node_row nbn) (node_row n);
             if c = Equal then replace_and_forward env tk key sz max_bnd n old st1
             else do {
               st2 \<leftarrow> set_state env tk key sz (Some (node_row nbn)) max_bnd st1;
               st3 \<leftarrow> push_with_row_hidden env (node_row nbn) (Remove old) st2;
               g_push env (Add nbn) st3
             }
           }
       })"

definition edit_outside ::
  "bool \<Rightarrow> 's graph_env \<Rightarrow> take_op \<Rightarrow> node \<Rightarrow> ordering \<Rightarrow> byte list \<Rightarrow> 32 word \<Rightarrow> row \<Rightarrow> row option \<Rightarrow> row_constraint option \<Rightarrow> 's \<Rightarrow> 's option" where
  "edit_outside debug env tk n new_cmp key sz b max_bnd constr st = do {
     debug_check debug (Some (new_cmp \<noteq> Equal));
     if new_cmp = Greater then Some st
     else do {
       (found, st1) \<leftarrow> fetch_n env b At constr True 2 st;
       case found of
         old_bound_node # new_bound_node # _ \<Rightarrow> do {
           st2 \<leftarrow> set_state env tk key sz (Some (node_row new_bound_node)) max_bnd st1;
           st3 \<leftarrow> push_with_row_hidden env (node_row n) (Remove old_bound_node) st2;
           g_push env (Add n) st3
         }
       | _ \<Rightarrow> None
     }
   }"

definition edit_inside ::
  "bool \<Rightarrow> 's graph_env \<Rightarrow> take_op \<Rightarrow> node \<Rightarrow> node \<Rightarrow> ordering \<Rightarrow> byte list \<Rightarrow> 32 word \<Rightarrow> row \<Rightarrow> row option \<Rightarrow> row_constraint option \<Rightarrow> 's \<Rightarrow> 's option" where
  "edit_inside debug env tk n old new_cmp key sz b max_bnd constr st = do {
     debug_check debug (Some (new_cmp \<noteq> Equal));
     if new_cmp = Less then g_push env (Edit n old) st
     else do {
       (found, st1) \<leftarrow> fetch_n env b After constr False 1 st;
       case found of [] \<Rightarrow> None
       | abn # _ \<Rightarrow> do {
           c \<leftarrow> compare_rows (tk_sort tk) (node_row abn) (node_row n);
           if c = Equal then replace_and_forward env tk key sz max_bnd n old st1
           else do {
             st2 \<leftarrow> g_push env (Remove old) st1;
             st3 \<leftarrow> set_state env tk key sz (Some (node_row abn)) max_bnd st2;
             g_push env (Add abn) st3
           }
         }
     }
   }"

definition push_edit :: "bool \<Rightarrow> 's graph_env \<Rightarrow> take_op \<Rightarrow> node \<Rightarrow> node \<Rightarrow> 's \<Rightarrow> 's option" where
  "push_edit debug env tk n old st = do {
     (case tk_partition_key tk of None \<Rightarrow> Some ()
      | Some pk \<Rightarrow> debug_check debug (partition_key_unchanged (node_row old) (node_row n) pk));
     key \<leftarrow> key_from_row tk (node_row old);
     state \<leftarrow> get_state env key st;
     case state of
       None \<Rightarrow> Some st
     | Some (sz, bnd) \<Rightarrow> do {
         b \<leftarrow> bnd;
         max_bnd \<leftarrow> get_max_bound env st;
         constr \<leftarrow> constraint_for tk (node_row old);
         old_cmp \<leftarrow> compare_rows (tk_sort tk) (node_row old) b;
         new_cmp \<leftarrow> compare_rows (tk_sort tk) (node_row n) b;
         case old_cmp of
           Equal \<Rightarrow> edit_at_bound env tk n old new_cmp key sz b max_bnd constr st
         | Greater \<Rightarrow> edit_outside debug env tk n new_cmp key sz b max_bnd constr st
         | Less \<Rightarrow> edit_inside debug env tk n old new_cmp key sz b max_bnd constr st
       }
   }"

definition take_push :: "bool \<Rightarrow> 's graph_env \<Rightarrow> take_op \<Rightarrow> change \<Rightarrow> 's \<Rightarrow> 's option" where
  "take_push debug env tk c st = (case c of
       Edit n old \<Rightarrow> push_edit debug env tk n old st
     | _ \<Rightarrow> do {
         key \<leftarrow> key_from_row tk (primary_row c);
         state \<leftarrow> get_state env key st;
         case state of
           None \<Rightarrow> Some st
         | Some (sz, bnd) \<Rightarrow> do {
             max_bnd \<leftarrow> get_max_bound env st;
             constr \<leftarrow> constraint_for tk (primary_row c);
             case c of
               Add n \<Rightarrow> push_add env tk n key sz bnd max_bnd constr st
             | Remove n \<Rightarrow> push_remove debug env tk n key sz bnd max_bnd constr st
             | Child n rel ch \<Rightarrow> do {
                 inside \<leftarrow> (case bnd of None \<Rightarrow> Some False
                   | Some b \<Rightarrow> map_option (\<lambda>c. c \<noteq> Greater) (compare_rows (tk_sort tk) (node_row n) b));
                 if inside then g_push env c st else Some st
               }
             | Edit n old \<Rightarrow> None
           }
       })"

end
