(* ===== verification/Window.thy ===== *)
theory Window
  imports Op_Env
begin

text \<open>
  Windows over a sorted list: how a list splits at a bound, what the split becomes when an element is added,
  removed or replaced, and what the scans from the bound return. These are the facts a limiter rests on.
\<close>

definition at_bound :: "('a \<Rightarrow> 'a \<Rightarrow> ordering option) \<Rightarrow> 'a \<Rightarrow> 'a list \<Rightarrow> 'a list" where
  "at_bound cmp b xs = filter (\<lambda>y. cmp y b = Some Equal) xs"

context comparator_on
begin

text \<open>A sorted list is its part below, at and above any bound.\<close>

lemma split_at_bound:
  assumes "sorted_by cmp xs" "set xs \<subseteq> D" "b \<in> D"
  shows "xs = below cmp b xs @ at_bound cmp b xs @ above cmp b xs"
  using assms(1,2)
proof (induction xs)
  case (Cons x xs)
  have xD: "x \<in> D" "set xs \<subseteq> D" using Cons.prems by auto
  have nxt: "cmp y b = Some Greater" if "y \<in> set xs" "cmp x b \<noteq> Some Less" for y
  proof -
    have "cmp b x \<noteq> Some Greater" using that cmp_gt_iff [of b x] xD assms(3) by simp
    then have "cmp b y = Some Less" using cmp_le_less_trans [of b x y] that Cons.prems xD assms(3) by auto
    then show ?thesis using cmp_gt_iff [of y b] that xD assms(3) by auto
  qed
  have IH: "xs = below cmp b xs @ at_bound cmp b xs @ above cmp b xs" using Cons xD by simp
  show ?case
  proof (cases "cmp x b = Some Less")
    case True
    then show ?thesis using IH by (simp add: at_bound_def)
  next
    case False
    then have all: "below cmp b xs = []" "at_bound cmp b xs = []" "above cmp b xs = xs"
      using nxt by (auto simp: below_none above_all at_bound_def filter_empty_conv)
    show ?thesis using False all cmp_cases [OF xD(1) assms(3)] by (cases "cmp x b = Some Equal") (auto simp: at_bound_def)
  qed
qed (simp add: at_bound_def)

lemma bound_parts:
  assumes "sorted_by cmp (A @ b0 # B)" "set (A @ b0 # B) \<subseteq> D" "b \<in> D" "cmp b0 b = Some Equal"
  shows "below cmp b (A @ b0 # B) = A" "at_bound cmp b (A @ b0 # B) = [b0]" "above cmp b (A @ b0 # B) = B"
proof -
  have l: "cmp x b = Some Less" if "x \<in> set A" for x
    using that assms cmp_less_le_trans [of x b0 b] by (auto simp: sorted_by_append)
  have g: "cmp x b = Some Greater" if "x \<in> set B" for x
  proof -
    have "cmp b b0 = Some Equal" using assms cmp_eq_sym [of b0 b] by simp
    then have "cmp b x = Some Less" using that assms cmp_le_less_trans [of b b0 x] by (auto simp: sorted_by_append)
    then show ?thesis using cmp_gt_iff [of x b] that assms by auto
  qed
  show "below cmp b (A @ b0 # B) = A" "above cmp b (A @ b0 # B) = B" "at_bound cmp b (A @ b0 # B) = [b0]"
    using l g assms(4) by (simp_all add: below_all below_none above_all above_none at_bound_def filter_empty_conv)
qed

text \<open>Deleting commutes with the split; inserting goes to one side.\<close>

lemma parts_del:
  "below cmp b (del_by cmp d xs) = del_by cmp d (below cmp b xs)" "above cmp b (del_by cmp d xs) = del_by cmp d (above cmp b xs)"
  "at_bound cmp b (del_by cmp d xs) = del_by cmp d (at_bound cmp b xs)"
  by (simp_all add: del_by_def below_def above_def at_bound_def conj_commute)

lemma parts_ins_less:
  assumes "set xs \<subseteq> D" "n \<in> D" "b \<in> D" "cmp n b = Some Less" "\<forall>x\<in>set xs. cmp x n \<noteq> Some Equal"
  shows "below cmp b (ins_by cmp n xs) = ins_by cmp n (below cmp b xs)" "above cmp b (ins_by cmp n xs) = above cmp b xs"
    "at_bound cmp b (ins_by cmp n xs) = at_bound cmp b xs"
proof -
  have ge: "cmp y n = Some Greater" if "y \<in> set xs" "cmp y b \<noteq> Some Less" for y
  proof -
    have "cmp b y \<noteq> Some Greater" using that cmp_gt_iff [of b y] assms by auto
    then have "cmp n y = Some Less" using cmp_less_le_trans [of n b y] that assms by auto
    then show ?thesis using cmp_gt_iff [of y n] that assms by auto
  qed
  then have "filter (\<lambda>y. cmp y b = Some Greater \<and> cmp y n = Some Less) xs = []"
    "filter (\<lambda>y. cmp y b = Some Greater \<and> cmp y n = Some Greater) xs = filter (\<lambda>y. cmp y b = Some Greater) xs"
    "filter (\<lambda>y. cmp y b = Some Equal \<and> cmp y n = Some Less) xs = []"
    "filter (\<lambda>y. cmp y b = Some Equal \<and> cmp y n = Some Greater) xs = filter (\<lambda>y. cmp y b = Some Equal) xs"
    by (fastforce simp: filter_empty_conv intro!: filter_cong)+
  then show "below cmp b (ins_by cmp n xs) = ins_by cmp n (below cmp b xs)" "above cmp b (ins_by cmp n xs) = above cmp b xs"
    "at_bound cmp b (ins_by cmp n xs) = at_bound cmp b xs"
    using assms(4) by (simp_all add: ins_by_def below_def above_def at_bound_def conj_commute)
qed

lemma parts_ins_greater:
  assumes "set xs \<subseteq> D" "n \<in> D" "b \<in> D" "cmp n b = Some Greater" "\<forall>x\<in>set xs. cmp x n \<noteq> Some Equal"
  shows "below cmp b (ins_by cmp n xs) = below cmp b xs" "above cmp b (ins_by cmp n xs) = ins_by cmp n (above cmp b xs)"
    "at_bound cmp b (ins_by cmp n xs) = at_bound cmp b xs"
proof -
  have bn: "cmp b n = Some Less" using assms(4) cmp_gt_iff [of n b] assms by simp
  have le: "cmp y n = Some Less" if "y \<in> set xs" "cmp y b \<noteq> Some Greater" for y
    using cmp_le_less_trans [of y b n] that bn assms by auto
  then have "filter (\<lambda>y. cmp y b = Some Less \<and> cmp y n = Some Greater) xs = []"
    "filter (\<lambda>y. cmp y b = Some Less \<and> cmp y n = Some Less) xs = filter (\<lambda>y. cmp y b = Some Less) xs"
    "filter (\<lambda>y. cmp y b = Some Equal \<and> cmp y n = Some Greater) xs = []"
    "filter (\<lambda>y. cmp y b = Some Equal \<and> cmp y n = Some Less) xs = filter (\<lambda>y. cmp y b = Some Equal) xs"
    by (fastforce simp: filter_empty_conv intro!: filter_cong)+
  then show "below cmp b (ins_by cmp n xs) = below cmp b xs" "above cmp b (ins_by cmp n xs) = ins_by cmp n (above cmp b xs)"
    "at_bound cmp b (ins_by cmp n xs) = at_bound cmp b xs"
    using assms(4) by (simp_all add: ins_by_def below_def above_def at_bound_def conj_commute)
qed

lemma length_ins_by:
  assumes "set xs \<subseteq> D" "n \<in> D" "\<forall>x\<in>set xs. cmp x n \<noteq> Some Equal"
  shows "length (ins_by cmp n xs) = Suc (length xs)" "set (ins_by cmp n xs) = insert n (set xs)"
proof -
  have "length (below cmp n xs) + length (above cmp n xs) = length xs \<and> set (below cmp n xs) \<union> set (above cmp n xs) = set xs"
    using assms(1,3)
  proof (induction xs)
    case (Cons x xs)
    then show ?case using cmp_cases [of x n] assms(2) by (auto simp: below_def above_def)
  qed (simp add: below_def above_def)
  then show "length (ins_by cmp n xs) = Suc (length xs)" "set (ins_by cmp n xs) = insert n (set xs)"
    by (auto simp: ins_by_def)
qed

lemma del_by_split:
  assumes "sorted_by cmp (A @ d0 # B)" "set (A @ d0 # B) \<subseteq> D" "d \<in> D" "cmp d0 d = Some Equal"
  shows "del_by cmp d (A @ d0 # B) = A @ B"
  using bound_parts [OF assms] by (simp add: del_by_def)

lemma del_by_id: "set xs \<subseteq> D \<Longrightarrow> sorted_by cmp xs \<Longrightarrow> d \<in> D \<Longrightarrow> \<forall>x\<in>set xs. cmp x d \<noteq> Some Equal \<Longrightarrow> del_by cmp d xs = xs"
  using split_at_bound [of xs d] by (auto simp: del_by_def at_bound_def filter_empty_conv)

end

section \<open>Scans from the bound\<close>

abbreviation bound_request :: "row_constraint option \<Rightarrow> row \<Rightarrow> basis \<Rightarrow> bool \<Rightarrow> fetch_request" where
  "bound_request constr b bs rev' \<equiv> \<lparr> req_constraint = constr, multi_constraints = [],
     req_start = Some \<lparr> start_row = b, start_basis = bs \<rparr>, req_reverse = rev' \<rparr>"

lemma node_row_leaf [simp]: "node_row (leaf r) = r"
  by (simp add: leaf_def)

lemma reached_cases:
  assumes "row_ok ty srt r" "row_ok ty srt b"
  shows "start_reached \<lparr> start_row = b, start_basis = At \<rparr> srt False r = Some True \<longleftrightarrow> compare_rows srt r b \<noteq> Some Less"
    "start_reached \<lparr> start_row = b, start_basis = After \<rparr> srt False r = Some True \<longleftrightarrow> compare_rows srt r b = Some Greater"
    "start_reached \<lparr> start_row = b, start_basis = At \<rparr> srt True r = Some True \<longleftrightarrow> compare_rows srt r b \<noteq> Some Greater"
    "start_reached \<lparr> start_row = b, start_basis = After \<rparr> srt True r = Some True \<longleftrightarrow> compare_rows srt r b = Some Less"
proof -
  obtain c where "compare_rows srt r b = Some c" using row_order.cmp_total [of r ty srt b] assms by auto
  then show "start_reached \<lparr> start_row = b, start_basis = At \<rparr> srt False r = Some True \<longleftrightarrow> compare_rows srt r b \<noteq> Some Less"
    "start_reached \<lparr> start_row = b, start_basis = After \<rparr> srt False r = Some True \<longleftrightarrow> compare_rows srt r b = Some Greater"
    "start_reached \<lparr> start_row = b, start_basis = At \<rparr> srt True r = Some True \<longleftrightarrow> compare_rows srt r b \<noteq> Some Greater"
    "start_reached \<lparr> start_row = b, start_basis = After \<rparr> srt True r = Some True \<longleftrightarrow> compare_rows srt r b = Some Less"
    by (cases c; simp add: start_reached_def compare_rows_rev_def)+
qed

lemma scans_from_bound:
  assumes P: "sorted_by (node_cmp srt) P" "set P \<subseteq> node_dom ty srt" and b: "row_ok ty srt b"
  shows "filter (admits_start srt (bound_request constr b At False)) (scan_dir False P) =
      at_bound (node_cmp srt) (leaf b) P @ above (node_cmp srt) (leaf b) P"
    and "filter (admits_start srt (bound_request constr b After False)) (scan_dir False P) = above (node_cmp srt) (leaf b) P"
    and "filter (admits_start srt (bound_request constr b At True)) (scan_dir True P) =
      rev (at_bound (node_cmp srt) (leaf b) P) @ rev (below (node_cmp srt) (leaf b) P)"
    and "filter (admits_start srt (bound_request constr b After True)) (scan_dir True P) = rev (below (node_cmp srt) (leaf b) P)"
proof -
  let ?c = "node_cmp srt" and ?b = "leaf b"
  let ?L = "below ?c ?b P" and ?M = "at_bound ?c ?b P" and ?H = "above ?c ?b P"
  have split: "P = ?L @ ?M @ ?H" using node_order.split_at_bound [OF P, of ?b] b by simp
  have ok: "row_ok ty srt (node_row x)" if "x \<in> set P" for x using P(2) that by auto
  have adm: "admits_start srt (bound_request constr b At False) x \<longleftrightarrow> ?c x ?b \<noteq> Some Less"
    "admits_start srt (bound_request constr b After False) x \<longleftrightarrow> ?c x ?b = Some Greater"
    "admits_start srt (bound_request constr b At True) x \<longleftrightarrow> ?c x ?b \<noteq> Some Greater"
    "admits_start srt (bound_request constr b After True) x \<longleftrightarrow> ?c x ?b = Some Less" if "x \<in> set P" for x
    using reached_cases [OF ok [OF that] b] by (simp_all add: admits_start_def)
  have f: "filter Q P = filter Q ?L @ filter Q ?M @ filter Q ?H" for Q using split by (metis filter_append)
  have L: "?c x ?b = Some Less \<and> x \<in> set P" if "x \<in> set ?L" for x using that by (simp add: below_def)
  have M: "?c x ?b = Some Equal \<and> x \<in> set P" if "x \<in> set ?M" for x using that by (simp add: at_bound_def)
  have H: "?c x ?b = Some Greater \<and> x \<in> set P" if "x \<in> set ?H" for x using that by (simp add: above_def)
  have gen: "filter Q P = (if l then ?L else []) @ (if m then ?M else []) @ (if h then ?H else [])"
    if "\<And>x. x \<in> set P \<Longrightarrow> ?c x ?b = Some Less \<Longrightarrow> Q x = l" "\<And>x. x \<in> set P \<Longrightarrow> ?c x ?b = Some Equal \<Longrightarrow> Q x = m"
      "\<And>x. x \<in> set P \<Longrightarrow> ?c x ?b = Some Greater \<Longrightarrow> Q x = h" for Q l m h
  proof -
    have "filter Q ?L = (if l then ?L else [])" "filter Q ?M = (if m then ?M else [])" "filter Q ?H = (if h then ?H else [])"
      using L M H that by (auto simp: filter_empty_conv filter_id_conv)
    then show ?thesis unfolding f by simp
  qed
  show "filter (admits_start srt (bound_request constr b At False)) (scan_dir False P) = ?M @ ?H"
    unfolding scan_dir_def if_False by (subst gen [of _ False True True]) (simp_all add: adm)
  show "filter (admits_start srt (bound_request constr b After False)) (scan_dir False P) = ?H"
    unfolding scan_dir_def if_False by (subst gen [of _ False False True]) (simp_all add: adm)
  have "filter (admits_start srt (bound_request constr b At True)) P = ?L @ ?M"
    by (subst gen [of _ True True False]) (simp_all add: adm)
  then show "filter (admits_start srt (bound_request constr b At True)) (scan_dir True P) = rev ?M @ rev ?L"
    by (simp add: scan_dir_def rev_filter [symmetric])
  have "filter (admits_start srt (bound_request constr b After True)) P = ?L"
    by (subst gen [of _ True False False]) (simp_all add: adm)
  then show "filter (admits_start srt (bound_request constr b After True)) (scan_dir True P) = rev ?L"
    by (simp add: scan_dir_def rev_filter [symmetric])
qed

end
