(* ===== verification/Take_Window.thy ===== *)
theory Take_Window
  imports Op_Take Window
begin

text \<open>
  \<open>Take\<close> keeps exactly the window it promises: its size and bound describe the first \<open>limit\<close> rows of the
  partition, and what it pushes turns the old window into the new one without ever exceeding the limit.
\<close>

section \<open>Keys and state\<close>

lemma take_key_not_max: "encode_state_key take_prefix vs \<noteq> MAX_BOUND_KEY"
  by (simp add: encode_state_key_def take_prefix_def MAX_BOUND_KEY_def)

lemma key_from_row_not_max: "key_from_row tk r = Some key \<Longrightarrow> key \<noteq> MAX_BOUND_KEY"
  using take_key_not_max by (auto simp: key_from_row_def split: option.splits)

definition max_ok :: "(col_id \<Rightarrow> kind) \<Rightarrow> sort \<Rightarrow> memory_storage \<Rightarrow> bool" where
  "max_ok ty srt m \<longleftrightarrow> (case storage_get MAX_BOUND_KEY m of None \<Rightarrow> True | Some (BoundRow r) \<Rightarrow> row_ok ty srt r | _ \<Rightarrow> False)"

lemma get_max_bound_ok:
  assumes "max_ok ty srt (os_storage st)"
  obtains mb where "get_max_bound (log_env f) st = Some mb" "\<And>r. mb = Some r \<Longrightarrow> row_ok ty srt r"
  using assms that unfolding max_ok_def get_max_bound_def
  by (cases "storage_get MAX_BOUND_KEY (os_storage st)") (auto split: storage_value.splits)

lemma set_state_ok:
  assumes "key \<noteq> MAX_BOUND_KEY" "\<And>b. bnd = Some b \<Longrightarrow> row_ok ty (tk_sort tk) b" "\<And>r. mb = Some r \<Longrightarrow> row_ok ty (tk_sort tk) r"
    and max: "max_ok ty (tk_sort tk) (os_storage st)"
  shows "\<exists>m. set_state (log_env f) tk key sz bnd mb st = Some (st \<lparr> os_storage := m \<rparr>) \<and>
    storage_get key m = Some (TakeState sz bnd) \<and> max_ok ty (tk_sort tk) m"
proof -
  let ?m1 = "storage_set key (TakeState sz bnd) (os_storage st)"
  have m1: "max_ok ty (tk_sort tk) ?m1" using max assms(1) by (simp add: max_ok_def mem_store.get_put)
  show ?thesis
  proof (cases bnd)
    case None
    then show ?thesis using m1 by (auto simp: set_state_def mem_store.get_put)
  next
    case (Some b)
    have b: "row_ok ty (tk_sort tk) b" using assms(2) Some by simp
    obtain bump where bump: "(case mb of None \<Rightarrow> Some True | Some mb \<Rightarrow> map_option (\<lambda>c. c = Greater) (compare_rows (tk_sort tk) b mb)) = Some bump"
    proof (cases mb)
      case (Some r)
      then show ?thesis using that row_order.cmp_total [of b ty "tk_sort tk" r] b assms(3) by auto
    qed (use that in simp)
    let ?m = "if bump then storage_set MAX_BOUND_KEY (BoundRow b) ?m1 else ?m1"
    have "set_state (log_env f) tk key sz bnd mb st = Some (st \<lparr> os_storage := ?m \<rparr>)"
      using bump Some by (simp add: set_state_def)
    moreover have "storage_get key ?m = Some (TakeState sz bnd)" using assms(1) by (simp add: mem_store.get_put)
    moreover have "max_ok ty (tk_sort tk) ?m" using m1 b by (simp add: max_ok_def mem_store.get_put)
    ultimately show ?thesis by blast
  qed
qed

section \<open>The window\<close>

definition take_ok :: "(col_id \<Rightarrow> kind) \<Rightarrow> sort \<Rightarrow> 32 word \<Rightarrow> node list \<Rightarrow> 32 word \<Rightarrow> row option \<Rightarrow> bool" where
  "take_ok ty srt limit P sz bnd \<longleftrightarrow> (case bnd of
       None \<Rightarrow> P = [] \<and> sz = 0
     | Some b \<Rightarrow> row_ok ty srt b \<and> (\<exists>A b0 B. P = A @ b0 # B \<and> unat sz = Suc (length A) \<and>
         compare_rows srt (node_row b0) b = Some Equal \<and> unat sz \<le> unat limit \<and> (B \<noteq> [] \<longrightarrow> sz = limit)))"

definition holds_window :: "(col_id \<Rightarrow> kind) \<Rightarrow> take_op \<Rightarrow> byte list \<Rightarrow> node list \<Rightarrow> op_state \<Rightarrow> bool" where
  "holds_window ty tk key P st \<longleftrightarrow> max_ok ty (tk_sort tk) (os_storage st) \<and>
     (\<exists>sz bnd. storage_get key (os_storage st) = Some (TakeState sz bnd) \<and> take_ok ty (tk_sort tk) (tk_limit tk) P sz bnd)"

definition vacated :: "(col_id \<Rightarrow> kind) \<Rightarrow> take_op \<Rightarrow> byte list \<Rightarrow> op_state \<Rightarrow> bool" where
  "vacated ty tk key st \<longleftrightarrow> max_ok ty (tk_sort tk) (os_storage st) \<and> tk_partition_key tk \<noteq> None \<and> storage_get key (os_storage st) = None"

abbreviation rows_of :: "node list \<Rightarrow> row set" where
  "rows_of ns \<equiv> node_row ` set ns"

lemma take_okI:
  assumes "P = A @ b0 # B" "unat sz = Suc (length A)" "row_ok ty srt b" "compare_rows srt (node_row b0) b = Some Equal"
    "unat sz \<le> unat limit" "B \<noteq> [] \<longrightarrow> sz = limit"
  shows "take_ok ty srt limit P sz (Some b)"
  unfolding take_ok_def option.case using assms by blast

lemma take_ok_window:
  assumes "P = A @ b0 # B" "unat sz = Suc (length A)" "unat sz \<le> unat limit" "B \<noteq> [] \<longrightarrow> sz = limit"
  shows "take (unat limit) P = A @ [b0]"
  using assms by (cases "B = []") auto

lemma rows_inj:
  assumes "sorted_by (node_cmp srt) P" "set P \<subseteq> node_dom ty srt"
  shows "inj_on node_row (set P)" "distinct P" "card (rows_of P) = length P"
proof -
  show d: "distinct P" using node_order.sorted_by_distinct [OF assms] .
  show i: "inj_on node_row (set P)"
  proof (rule inj_onI)
    fix x y assume xy: "x \<in> set P" "y \<in> set P" "node_row x = node_row y"
    then have "node_cmp srt x y = Some Equal" using row_order.cmp_refl [of "node_row x" ty srt] assms(2) by auto
    then show "x = y" using node_order.sorted_unique [OF assms xy(1,2)] by simp
  qed
  show "card (rows_of P) = length P" using d i by (simp add: card_image distinct_card)
qed

definition input_window :: "(fetch_request \<Rightarrow> node list option) \<Rightarrow> (col_id \<Rightarrow> kind) \<Rightarrow> sort \<Rightarrow> row_constraint option \<Rightarrow> node list \<Rightarrow> bool" where
  "input_window f ty srt constr P \<longleftrightarrow> (\<forall>b bs rev'. row_ok ty srt b \<longrightarrow>
     f (bound_request constr b bs rev') = Some (filter (admits_start srt (bound_request constr b bs rev')) (scan_dir rev' P)))"

text \<open>The scans of \<open>Take\<close>, as parts of the input around the bound.\<close>

lemma fetch_n_parts:
  assumes "input_window f ty srt constr P" "sorted_by (node_cmp srt) P" "set P \<subseteq> node_dom ty srt" "row_ok ty srt b"
  defines "lo \<equiv> below (node_cmp srt) (leaf b) P" and "mid \<equiv> at_bound (node_cmp srt) (leaf b) P" and "hi \<equiv> above (node_cmp srt) (leaf b) P"
  shows "fetch_n (log_env f) b At constr False k st = Some (take k (mid @ hi), st)"
    "fetch_n (log_env f) b After constr False k st = Some (take k hi, st)"
    "fetch_n (log_env f) b At constr True k st = Some (take k (rev mid @ rev lo), st)"
    "fetch_n (log_env f) b After constr True k st = Some (take k (rev lo), st)"
    "f (bound_request constr b At False) = Some (mid @ hi)"
  using assms(1,4) scans_from_bound [OF assms(2-4), of constr]
  by (simp_all add: fetch_n_def input_window_def lo_def mid_def hi_def)

text \<open>What every push of \<open>Take\<close> must achieve.\<close>

definition take_result ::
  "(col_id \<Rightarrow> kind) \<Rightarrow> take_op \<Rightarrow> byte list \<Rightarrow> node list \<Rightarrow> node list \<Rightarrow> op_state \<Rightarrow> op_state option \<Rightarrow> bool" where
  "take_result ty tk key P P' st r \<longleftrightarrow> (\<exists>st' outs. r = Some st' \<and> os_log st' = os_log st @ outs \<and> os_hidden st' = None \<and>
     replay (unat (tk_limit tk)) outs (rows_of (take (unat (tk_limit tk)) P)) = Some (rows_of (take (unat (tk_limit tk)) P')) \<and>
     (holds_window ty tk key P' st' \<or> P' = [] \<and> vacated ty tk key st'))"

lemma result_unchanged:
  assumes "os_hidden st = None" "holds_window ty tk key P' st" "rows_of (take (unat (tk_limit tk)) P) = rows_of (take (unat (tk_limit tk)) P')"
  shows "take_result ty tk key P P' st (Some st)"
  using assms by (auto simp: take_result_def intro!: exI [of _ "[] :: change list"])

text \<open>Writing the state and pushing some changes, in whatever order.\<close>

lemma window_of:
  assumes "P' = A @ b0 # B" "unat sz = Suc (length A)" "unat sz \<le> unat limit" "B \<noteq> [] \<longrightarrow> sz = limit" "set P' \<subseteq> node_dom ty srt"
  shows "take_ok ty srt limit P' sz (Some (node_row b0))" "take (unat limit) P' = A @ [b0]"
proof -
  have "row_ok ty srt (node_row b0)" using assms(1,5) by auto
  then show "take_ok ty srt limit P' sz (Some (node_row b0))"
    using assms row_order.cmp_refl [of "node_row b0" ty srt] by (fastforce simp: take_ok_def)
  show "take (unat limit) P' = A @ [b0]" by (rule take_ok_window [OF assms(1-4)])
qed

lemma sorted_bound_cases:
  assumes "sorted_by (node_cmp srt) P" "set P \<subseteq> node_dom ty srt" "P = A @ b0 # B" "row_ok ty srt b"
    "compare_rows srt (node_row b0) b = Some Equal"
  shows "below (node_cmp srt) (leaf b) P = A" "at_bound (node_cmp srt) (leaf b) P = [b0]" "above (node_cmp srt) (leaf b) P = B"
  using node_order.bound_parts [of srt A b0 B ty "leaf b"] assms by simp_all

text \<open>The situation in which a change reaches a hydrated partition: \<open>P\<close> is the input before it, \<open>P'\<close> after it, and the scans
  see \<open>P'\<close>.\<close>

definition take_pre ::
  "(col_id \<Rightarrow> kind) \<Rightarrow> take_op \<Rightarrow> byte list \<Rightarrow> node list \<Rightarrow> node list \<Rightarrow> row_constraint option \<Rightarrow> (fetch_request \<Rightarrow> node list option) \<Rightarrow>
   op_state \<Rightarrow> 32 word \<Rightarrow> row option \<Rightarrow> row option \<Rightarrow> bool" where
  "take_pre ty tk key P P' constr f st sz bnd mb \<longleftrightarrow>
     sorted_by (node_cmp (tk_sort tk)) P \<and> set P \<subseteq> node_dom ty (tk_sort tk) \<and>
     sorted_by (node_cmp (tk_sort tk)) P' \<and> set P' \<subseteq> node_dom ty (tk_sort tk) \<and>
     input_window f ty (tk_sort tk) constr P' \<and> key \<noteq> MAX_BOUND_KEY \<and> max_ok ty (tk_sort tk) (os_storage st) \<and>
     storage_get key (os_storage st) = Some (TakeState sz bnd) \<and> os_hidden st = None \<and>
     take_ok ty (tk_sort tk) (tk_limit tk) P sz bnd \<and> tk_limit tk \<noteq> 0 \<and> (\<forall>r. mb = Some r \<longrightarrow> row_ok ty (tk_sort tk) r)"

lemma pre_set_state:
  assumes "take_pre ty tk key P P' constr f st sz bnd mb" "s = st \<lparr> os_log := l, os_hidden := h \<rparr>"
    and "take_ok ty (tk_sort tk) (tk_limit tk) P' sz' (Some b)"
  shows "\<exists>m. set_state (log_env f) tk key sz' (Some b) mb s = Some (s \<lparr> os_storage := m \<rparr>) \<and>
    holds_window ty tk key P' (s \<lparr> os_storage := m, os_log := l', os_hidden := h' \<rparr>)"
proof -
  have "row_ok ty (tk_sort tk) b" using assms(3) by (simp add: take_ok_def)
  then show ?thesis using set_state_ok [of key "Some b" ty tk mb s f sz'] assms by (auto simp: take_pre_def holds_window_def)
qed

lemma bound_facts:
  assumes "take_pre ty tk key P P' constr f st sz (Some b) mb"
  obtains A b0 B where "P = A @ b0 # B" "unat sz = Suc (length A)" "row_ok ty (tk_sort tk) b"
    "compare_rows (tk_sort tk) (node_row b0) b = Some Equal" "unat sz \<le> unat (tk_limit tk)" "B \<noteq> [] \<longrightarrow> sz = tk_limit tk"
    "take (unat (tk_limit tk)) P = A @ [b0]"
    "below (node_cmp (tk_sort tk)) (leaf b) P = A" "at_bound (node_cmp (tk_sort tk)) (leaf b) P = [b0]"
    "above (node_cmp (tk_sort tk)) (leaf b) P = B" "compare_rows (tk_sort tk) b (node_row b0) = Some Equal"
proof -
  have t: "take_ok ty (tk_sort tk) (tk_limit tk) P sz (Some b)" "sorted_by (node_cmp (tk_sort tk)) P"
    "set P \<subseteq> node_dom ty (tk_sort tk)" using assms by (auto simp: take_pre_def)
  from t(1) obtain A b0 B where a: "P = A @ b0 # B" "unat sz = Suc (length A)" "row_ok ty (tk_sort tk) b"
    "compare_rows (tk_sort tk) (node_row b0) b = Some Equal" "unat sz \<le> unat (tk_limit tk)" "B \<noteq> [] \<longrightarrow> sz = tk_limit tk"
    by (auto simp: take_ok_def)
  have "compare_rows (tk_sort tk) b (node_row b0) = Some Equal"
    using row_order.cmp_eq_sym [of b ty "tk_sort tk" "node_row b0"] a t(3) by simp
  then show thesis using that [of A b0 B] a take_ok_window [OF a(1,2,5,6)] sorted_bound_cases [OF t(2,3) a(1,3,4)] by blast
qed

lemma bound_sides:
  assumes "below (node_cmp srt) (leaf b) P = A" "above (node_cmp srt) (leaf b) P = B"
  shows "\<forall>x\<in>set A. compare_rows srt (node_row x) b = Some Less" "\<forall>x\<in>set B. compare_rows srt (node_row x) b = Some Greater"
  using assms by (auto simp: below_def above_def)

lemma side_parts:
  assumes "\<forall>x\<in>set L. compare_rows srt (node_row x) b = Some Less" "\<forall>x\<in>set M. compare_rows srt (node_row x) b = Some Equal"
    "\<forall>x\<in>set H. compare_rows srt (node_row x) b = Some Greater"
  shows "below (node_cmp srt) (leaf b) (L @ M @ H) = L" "at_bound (node_cmp srt) (leaf b) (L @ M @ H) = M"
    "above (node_cmp srt) (leaf b) (L @ M @ H) = H"
  using assms by (simp_all add: below_def above_def at_bound_def filter_empty_conv filter_id_conv)

lemma pre_parts:
  assumes "take_pre ty tk key P P' constr f st sz bnd mb" "row_ok ty (tk_sort tk) b"
  defines "c \<equiv> node_cmp (tk_sort tk)"
  shows "fetch_n (log_env f) b At constr False k st = Some (take k (at_bound c (leaf b) P' @ above c (leaf b) P'), st)"
    "fetch_n (log_env f) b After constr False k st = Some (take k (above c (leaf b) P'), st)"
    "fetch_n (log_env f) b At constr True k st = Some (take k (rev (at_bound c (leaf b) P') @ rev (below c (leaf b) P')), st)"
    "fetch_n (log_env f) b After constr True k st = Some (take k (rev (below c (leaf b) P')), st)"
    "f (bound_request constr b At False) = Some (at_bound c (leaf b) P' @ above c (leaf b) P')"
    "P' = below c (leaf b) P' @ at_bound c (leaf b) P' @ above c (leaf b) P'"
proof -
  have w: "input_window f ty (tk_sort tk) constr P'" "sorted_by (node_cmp (tk_sort tk)) P'" "set P' \<subseteq> node_dom ty (tk_sort tk)"
    using assms(1) by (auto simp: take_pre_def)
  show "fetch_n (log_env f) b At constr False k st = Some (take k (at_bound c (leaf b) P' @ above c (leaf b) P'), st)"
    "fetch_n (log_env f) b After constr False k st = Some (take k (above c (leaf b) P'), st)"
    "fetch_n (log_env f) b At constr True k st = Some (take k (rev (at_bound c (leaf b) P') @ rev (below c (leaf b) P')), st)"
    "fetch_n (log_env f) b After constr True k st = Some (take k (rev (below c (leaf b) P')), st)"
    "f (bound_request constr b At False) = Some (at_bound c (leaf b) P' @ above c (leaf b) P')"
    using fetch_n_parts [OF w assms(2)] by (simp_all add: c_def)
  show "P' = below c (leaf b) P' @ at_bound c (leaf b) P' @ above c (leaf b) P'"
    using node_order.split_at_bound [OF w(2,3), of "leaf b"] assms(2) by (simp add: c_def)
qed

text \<open>The scans, once the input is known as a part before, at and after the bound.\<close>

lemma scans:
  assumes "take_pre ty tk key P P' constr f st sz bnd mb" "row_ok ty (tk_sort tk) b" "P' = L @ M @ H"
    "\<forall>x\<in>set L. compare_rows (tk_sort tk) (node_row x) b = Some Less" "\<forall>x\<in>set M. compare_rows (tk_sort tk) (node_row x) b = Some Equal"
    "\<forall>x\<in>set H. compare_rows (tk_sort tk) (node_row x) b = Some Greater"
  shows "fetch_n (log_env f) b At constr False k st = Some (take k (M @ H), st)"
    "fetch_n (log_env f) b After constr False k st = Some (take k H, st)"
    "fetch_n (log_env f) b At constr True k st = Some (take k (rev M @ rev L), st)"
    "fetch_n (log_env f) b After constr True k st = Some (take k (rev L), st)"
    "f (bound_request constr b At False) = Some (M @ H)"
  using pre_parts [OF assms(1,2)] unfolding side_parts [OF assms(4-6)] assms(3) by simp_all

lemma split_within:
  assumes "sorted_by (node_cmp srt) W" "set W \<subseteq> node_dom ty srt" "row_ok ty srt b"
    "\<forall>x\<in>set W. compare_rows srt (node_row x) b \<noteq> Some Greater"
  obtains L M where "W = L @ M" "\<forall>x\<in>set L. compare_rows srt (node_row x) b = Some Less"
    "\<forall>x\<in>set M. compare_rows srt (node_row x) b = Some Equal"
proof (rule that [of "below (node_cmp srt) (leaf b) W" "at_bound (node_cmp srt) (leaf b) W"])
  have "above (node_cmp srt) (leaf b) W = []" using assms(4) by (intro above_none) simp
  then show "W = below (node_cmp srt) (leaf b) W @ at_bound (node_cmp srt) (leaf b) W"
    using node_order.split_at_bound [OF assms(1,2), of "leaf b"] assms(3) by simp
qed (auto simp: below_def at_bound_def)

lemma new_row:
  assumes "row_ok ty srt (node_row n)" "\<forall>x\<in>set P. node_cmp srt x n \<noteq> Some Equal"
  shows "node_row n \<notin> rows_of P"
  using assms row_order.cmp_refl [of "node_row n" ty srt] by force

lemma unat_incr: "unat (a :: 32 word) < unat (b :: 32 word) \<Longrightarrow> unat (a + 1) = Suc (unat a)"
proof -
  have "unat b < 2 ^ LENGTH(32)" by (rule unsigned_less)
  then show "unat a < unat b \<Longrightarrow> unat (a + 1) = Suc (unat a)" by (simp add: unat_word_ariths(1))
qed

lemma unat_decr: "unat (a :: 32 word) = Suc k \<Longrightarrow> unat (a - 1) = k"
  by (metis add_diff_cancel_left' plus_1_eq_Suc unat_minus_one unat_0 nat.distinct(1))

text \<open>A row that no stored row equals is strictly on one side of the bound.\<close>

lemma off_bound:
  assumes "row_ok ty srt (node_row b0)" "row_ok ty srt b" "row_ok ty srt (node_row n)" "compare_rows srt (node_row b0) b = Some Equal"
    "node_cmp srt b0 n \<noteq> Some Equal"
  shows "compare_rows srt (node_row n) b = Some Less \<or> compare_rows srt (node_row n) b = Some Greater"
proof -
  have "compare_rows srt (node_row n) b \<noteq> Some Equal"
    using row_order.cmp_eq_cong [of "node_row b0" ty srt b "node_row n"] row_order.cmp_eq_sym [of "node_row n" ty srt b] assms by auto
  then show ?thesis using row_order.cmp_cases [of "node_row n" ty srt b] assms by auto
qed

lemma ins_by_Nil: "ins_by c n [] = [n]"
  by (simp add: ins_by_def below_def above_def)

section \<open>Additions\<close>

lemma add_with_room:
  assumes pre: "take_pre ty tk key P P' constr f st sz bnd mb"
    and n: "row_ok ty (tk_sort tk) (node_row n)" "\<forall>x\<in>set P. node_cmp (tk_sort tk) x n \<noteq> Some Equal"
    and P': "P' = ins_by (node_cmp (tk_sort tk)) n P" and room: "sz < tk_limit tk"
  shows "take_result ty tk key P P' st (push_add (log_env f) tk n key sz bnd mb constr st)"
proof -
  let ?c = "node_cmp (tk_sort tk)" and ?k = "unat (tk_limit tk)"
  have P: "sorted_by ?c P" "set P \<subseteq> node_dom ty (tk_sort tk)" "set P' \<subseteq> node_dom ty (tk_sort tk)" using pre by (auto simp: take_pre_def)
  have nD: "n \<in> node_dom ty (tk_sort tk)" using n(1) by simp
  have P's: "set P' = insert n (set P)" "length P' = Suc (length P)"
    using node_order.length_ins_by [OF P(2) nD n(2)] by (simp_all add: P')
  have lenP: "length P = unat sz"
  proof (cases bnd)
    case None
    then show ?thesis using pre by (simp add: take_pre_def take_ok_def)
  next
    case (Some b)
    then show ?thesis using pre room by (auto simp: take_pre_def take_ok_def)
  qed
  have lt: "unat sz < ?k" using room by (simp add: word_less_nat_alt)
  have sz': "unat (sz + 1) = Suc (unat sz)" using lt by (rule unat_incr)
  have fits: "unat (sz + 1) \<le> ?k" using sz' lt by simp
  have full: "take ?k P = P" "take ?k P' = P'" using lenP P's(2) lt by simp_all
  obtain nb where nb: "(case bnd of Some b \<Rightarrow> map_option (\<lambda>c. if c \<noteq> Less then b else node_row n) (compare_rows (tk_sort tk) b (node_row n))
      | None \<Rightarrow> Some (node_row n)) = Some nb" "take_ok ty (tk_sort tk) (tk_limit tk) P' (sz + 1) (Some nb)"
  proof (cases bnd)
    case None
    then have "P = []" "sz = 0" using pre by (simp_all add: take_pre_def take_ok_def)
    then have "P' = [] @ n # []" by (simp add: P' ins_by_Nil)
    from window_of(1) [OF this, of "sz + 1" "tk_limit tk" ty "tk_sort tk"] show thesis
      using that [of "node_row n"] None sz' fits P(3) \<open>sz = 0\<close> by simp
  next
    case (Some b)
    obtain A b0 B where b: "P = A @ b0 # B" "unat sz = Suc (length A)" "row_ok ty (tk_sort tk) b"
      "compare_rows (tk_sort tk) (node_row b0) b = Some Equal" "unat sz \<le> ?k" "B \<noteq> [] \<longrightarrow> sz = tk_limit tk"
      "take ?k P = A @ [b0]" "below ?c (leaf b) P = A" "at_bound ?c (leaf b) P = [b0]" "above ?c (leaf b) P = B"
      by (rule bound_facts [OF pre [unfolded Some]])
    have B: "B = []" using b(6) room by auto
    have bD: "leaf b \<in> node_dom ty (tk_sort tk)" using b(3) by simp
    note split = pre_parts(6) [OF pre b(3)]
    have b0: "row_ok ty (tk_sort tk) (node_row b0)" "?c b0 n \<noteq> Some Equal" using b(1) P(2) n(2) by simp_all
    consider "compare_rows (tk_sort tk) (node_row n) b = Some Less" | "compare_rows (tk_sort tk) (node_row n) b = Some Greater"
      using off_bound [OF b0(1) b(3) n(1) b(4) b0(2)] by blast
    then show thesis
    proof cases
      case 1
      have "P' = ins_by ?c n A @ b0 # []"
        using split node_order.parts_ins_less [OF P(2) nD bD _ n(2)] 1 b(8-10) B by (simp add: P')
      moreover have "length (ins_by ?c n A) = Suc (length A)"
        using node_order.length_ins_by(1) [of A ty "tk_sort tk" n] P(2) nD n(2) b(1) by simp
      ultimately have "take_ok ty (tk_sort tk) (tk_limit tk) P' (sz + 1) (Some b)"
        using b(2-4) sz' fits by (intro take_okI [of _ "ins_by ?c n A" b0 "[]"]) auto
      moreover have "compare_rows (tk_sort tk) b (node_row n) = Some Greater"
        using 1 row_order.cmp_gt_iff [of b ty "tk_sort tk" "node_row n"] n(1) b(3) by simp
      ultimately show thesis using that [of b] Some by simp
    next
      case 2
      have "P' = (A @ [b0]) @ n # []"
        using split node_order.parts_ins_greater [OF P(2) nD bD _ n(2)] 2 b(8-10) B by (simp add: P' ins_by_Nil)
      moreover have "compare_rows (tk_sort tk) b (node_row n) = Some Less"
        using 2 row_order.cmp_gt_iff [of "node_row n" ty "tk_sort tk" b] n(1) b(3) by simp
      ultimately show thesis
        using that [of "node_row n"] Some window_of(1) [of P' "A @ [b0]" n "[]" "sz + 1" "tk_limit tk" ty "tk_sort tk"] b(2) sz' fits P(3) by simp
    qed
  qed
  obtain m where m: "set_state (log_env f) tk key (sz + 1) (Some nb) mb st = Some (st \<lparr> os_storage := m \<rparr>)"
    "holds_window ty tk key P' (st \<lparr> os_storage := m, os_log := os_log st @ [Add n] \<rparr>)"
    using pre_set_state [OF pre, where s = st and l = "os_log st" and h = "os_hidden st", OF _ nb(2), where l' = "os_log st @ [Add n]" and h' = "os_hidden st"] by auto
  have "card (rows_of P) < ?k" using rows_inj(3) [OF P(1,2)] lenP lt by simp
  then have "replay ?k [Add n] (rows_of (take ?k P)) = Some (rows_of (take ?k P'))"
    using new_row [OF n] P's(1) full by simp
  moreover have "push_add (log_env f) tk n key sz bnd mb constr st = Some (st \<lparr> os_storage := m, os_log := os_log st @ [Add n] \<rparr>)"
    using room nb(1) m(1) by (simp add: push_add_def)
  ultimately show ?thesis using m(2) pre by (auto simp: take_result_def take_pre_def intro!: exI [of _ "[Add n]"])
qed

lemma push_hidden_log:
  "os_hidden st = None \<Longrightarrow> push_with_row_hidden (log_env f) r c st = Some (st \<lparr> os_log := os_log st @ [c] \<rparr>)"
  by (simp add: push_with_row_hidden_def)

text \<open>Replacing one row of a full window by another.\<close>

lemma replay_swap:
  assumes "node_row d \<in> V" "node_row n \<notin> V" "card V \<le> k" "finite V"
  shows "replay k [Remove d, Add n] V = Some (insert (node_row n) (V - {node_row d}))"
proof -
  have "card (V - {node_row d}) < k" using assms by (metis card_Diff1_less less_le_trans)
  then show ?thesis using assms by simp
qed

lemma add_when_full:
  assumes pre: "take_pre ty tk key P P' constr f st sz bnd mb"
    and n: "row_ok ty (tk_sort tk) (node_row n)" "\<forall>x\<in>set P. node_cmp (tk_sort tk) x n \<noteq> Some Equal"
    and P': "P' = ins_by (node_cmp (tk_sort tk)) n P" and full: "\<not> sz < tk_limit tk"
  shows "take_result ty tk key P P' st (push_add (log_env f) tk n key sz bnd mb constr st)"
proof -
  let ?c = "node_cmp (tk_sort tk)" and ?k = "unat (tk_limit tk)"
  have P: "sorted_by ?c P" "set P \<subseteq> node_dom ty (tk_sort tk)" "sorted_by ?c P'" "set P' \<subseteq> node_dom ty (tk_sort tk)"
    "tk_limit tk \<noteq> 0" "os_hidden st = None" "max_ok ty (tk_sort tk) (os_storage st)" "storage_get key (os_storage st) = Some (TakeState sz bnd)"
    using pre by (auto simp: take_pre_def)
  have nD: "n \<in> node_dom ty (tk_sort tk)" using n(1) by simp
  have "bnd \<noteq> None"
  proof
    assume "bnd = None"
    then have "sz = 0" using pre by (simp add: take_pre_def take_ok_def)
    then show False using full P(5) by (simp add: word_less_nat_alt unat_eq_0)
  qed
  then obtain b where Some: "bnd = Some b" by blast
  obtain A b0 B where b: "P = A @ b0 # B" "unat sz = Suc (length A)" "row_ok ty (tk_sort tk) b"
    "compare_rows (tk_sort tk) (node_row b0) b = Some Equal" "unat sz \<le> ?k" "B \<noteq> [] \<longrightarrow> sz = tk_limit tk" "take ?k P = A @ [b0]"
    "below ?c (leaf b) P = A" "at_bound ?c (leaf b) P = [b0]" "above ?c (leaf b) P = B"
    by (rule bound_facts [OF pre [unfolded Some]])
  have sz: "sz = tk_limit tk" using full b(5) by (simp add: word_less_nat_alt unsigned_word_eqI)
  have bD: "leaf b \<in> node_dom ty (tk_sort tk)" using b(3) by simp
  note split = pre_parts(6) [OF pre b(3)]
  have fin: "finite (rows_of (A @ [b0]))" "card (rows_of (A @ [b0])) \<le> ?k"
    using card_image_le [of "set (A @ [b0])" node_row] card_length [of "A @ [b0]"] b(2,5) by simp_all
  have notin: "node_row n \<notin> rows_of (A @ [b0])" using new_row [OF n] b(1) by auto
  have b0: "row_ok ty (tk_sort tk) (node_row b0)" "?c b0 n \<noteq> Some Equal" using b(1) P(2) n(2) by simp_all
  consider "compare_rows (tk_sort tk) (node_row n) b = Some Less" | "compare_rows (tk_sort tk) (node_row n) b = Some Greater"
    using off_bound [OF b0(1) b(3) n(1) b(4) b0(2)] by blast
  then show ?thesis
  proof cases
    case 2
    have "P' = A @ b0 # ins_by ?c n B"
      using split node_order.parts_ins_greater [OF P(2) nD bD _ n(2)] 2 b(8-10) by (simp add: P')
    moreover from this have "take ?k P' = A @ [b0]" using b(2) sz by simp
    moreover have "push_add (log_env f) tk n key sz bnd mb constr st = Some st" using full Some 2 by (simp add: push_add_def)
    moreover have "take_ok ty (tk_sort tk) (tk_limit tk) P' sz (Some b)"
      using calculation(1) b(2-5) sz by (intro take_okI [of _ A b0 "ins_by ?c n B"]) auto
    ultimately show ?thesis using b(7) P(6-8) Some
      by (auto intro!: result_unchanged simp: holds_window_def)
  next
    case 1
    let ?A = "ins_by ?c n A"
    have AD: "set A \<subseteq> node_dom ty (tk_sort tk)" "\<forall>x\<in>set A. ?c x n \<noteq> Some Equal" using b(1) P(2) n(2) by auto
    have len: "length ?A = Suc (length A)" "set ?A = insert n (set A)" using node_order.length_ins_by [OF AD(1) nD AD(2)] by simp_all
    have parts: "below ?c (leaf b) P' = ?A" "at_bound ?c (leaf b) P' = [b0]" "above ?c (leaf b) P' = B"
      using node_order.parts_ins_less [OF P(2) nD bD _ n(2)] 1 b(8-10) by (simp_all add: P')
    obtain X l where X: "?A = X @ [l]" using len(1) by (metis length_Suc_conv_rev)
    have P'X: "P' = X @ l # b0 # B" using split parts X by simp
    have lenX: "unat sz = Suc (length X)" using len(1) X b(2) by simp
    have win: "take_ok ty (tk_sort tk) (tk_limit tk) P' sz (Some (node_row l))" "take ?k P' = X @ [l]"
      using window_of [OF P'X lenX b(5) _ P(4)] sz by simp_all
    have nl: "?c n l \<noteq> Some Greater"
    proof -
      have "sorted_by ?c (X @ [l])" using P(3) P'X by (simp add: sorted_by_append)
      moreover have "n \<in> set (X @ [l])" using len(2) X by auto
      ultimately show ?thesis using node_order.cmp_refl [of n ty "tk_sort tk"] n(1) by (auto simp: sorted_by_append)
    qed
    have nbnd: "(if tk_limit tk = 1 then fetch_n (log_env f) b At constr False 1 st else fetch_n (log_env f) b At constr True 2 st) =
        Some (b0 # (if tk_limit tk = 1 then [] else [l]), st)"
      using pre_parts(1,3) [OF pre b(3)] parts X by simp
    have one: "tk_limit tk = 1 \<Longrightarrow> l = n" using len X lenX sz by (auto simp: unat_1)
    have nb: "(case (if tk_limit tk = 1 then [] else [l]) of
          bbn # _ \<Rightarrow> map_option (\<lambda>c. if c \<noteq> Greater then node_row bbn else node_row n) (compare_rows (tk_sort tk) (node_row n) (node_row bbn))
        | [] \<Rightarrow> Some (node_row n)) = Some (node_row l)"
      using nl one node_order.cmp_total [of n ty "tk_sort tk" l] n(1) P(4) P'X by (auto split: option.splits)
    let ?l1 = "os_log st @ [Remove b0]" and ?l2 = "(os_log st @ [Remove b0]) @ [Add n]"
    obtain m where m: "set_state (log_env f) tk key sz (Some (node_row l)) mb st = Some (st \<lparr> os_storage := m \<rparr>)"
      "holds_window ty tk key P' (st \<lparr> os_storage := m, os_log := ?l2 \<rparr>)"
      using pre_set_state [OF pre, where s = st and l = "os_log st" and h = "os_hidden st", OF _ win(1), where l' = "?l2" and h' = "os_hidden st"] by auto
    have "push_add (log_env f) tk n key sz bnd mb constr st = Some (st \<lparr> os_storage := m, os_log := ?l2 \<rparr>)"
      using full Some 1 nbnd nb m(1) P(6) by (simp add: push_add_def push_hidden_log)
    moreover have "replay ?k [Remove b0, Add n] (rows_of (take ?k P)) = Some (rows_of (take ?k P'))"
    proof -
      have "node_row b0 \<notin> rows_of A" using rows_inj(1,2) [OF P(1,2)] b(1) by (auto simp: inj_on_def)
      then have "insert (node_row n) (rows_of (A @ [b0]) - {node_row b0}) = rows_of (X @ [l])"
        unfolding X [symmetric] using len(2) by auto
      then show ?thesis using replay_swap [of b0 "rows_of (A @ [b0])" n ?k] notin fin b(7) win(2) by simp
    qed
    ultimately show ?thesis using m(2) P(6) by (auto simp: take_result_def intro!: exI [of _ "[Remove b0, Add n]"])
  qed
qed

section \<open>Removals\<close>

lemma set_state_log: "set_state (log_env f) tk key sz bnd mb (st \<lparr> os_log := l \<rparr>) =
    map_option (\<lambda>s. s \<lparr> os_log := l \<rparr>) (set_state (log_env f) tk key sz bnd mb st)"
proof (cases bnd)
  case (Some b)
  let ?bump = "case mb of None \<Rightarrow> Some True | Some mb \<Rightarrow> map_option (\<lambda>c. c = Greater) (compare_rows (tk_sort tk) b mb)"
  show ?thesis by (cases ?bump) (simp_all add: set_state_def Some Let_def)
qed (simp add: set_state_def)

text \<open>A new window with its state written, whatever was pushed before and after the write.\<close>

lemma result_written:
  assumes pre: "take_pre ty tk key P P' constr f st sz bnd mb"
    and P': "P' = X @ l # Y" "unat sz' = Suc (length X)" "unat sz' \<le> unat (tk_limit tk)" "Y \<noteq> [] \<longrightarrow> sz' = tk_limit tk"
    and replay: "replay (unat (tk_limit tk)) outs (rows_of (take (unat (tk_limit tk)) P)) = Some (rows_of (X @ [l]))"
    and r: "\<And>m. set_state (log_env f) tk key sz' (Some (node_row l)) mb st = Some (st \<lparr> os_storage := m \<rparr>) \<Longrightarrow>
      r = Some (st \<lparr> os_storage := m, os_log := os_log st @ outs \<rparr>)"
  shows "take_result ty tk key P P' st r"
proof -
  have P: "set P' \<subseteq> node_dom ty (tk_sort tk)" "os_hidden st = None" using pre by (auto simp: take_pre_def)
  note win = window_of [OF P' P(1)]
  obtain m where m: "set_state (log_env f) tk key sz' (Some (node_row l)) mb st = Some (st \<lparr> os_storage := m \<rparr>)"
    "holds_window ty tk key P' (st \<lparr> os_storage := m, os_log := os_log st @ outs \<rparr>)"
    using pre_set_state [OF pre, where s = st and l = "os_log st" and h = "os_hidden st", OF _ win(1), where l' = "os_log st @ outs" and h' = "os_hidden st"] by auto
  then show ?thesis using r [OF m(1)] replay P(2) win(2) by (auto simp: take_result_def intro!: exI [of _ outs])
qed

text \<open>A window whose bound stays where it is.\<close>

lemma result_kept:
  assumes pre: "take_pre ty tk key P P' constr f st sz (Some b) mb"
    and P': "P' = X @ l # Y" "unat sz = Suc (length X)" "unat sz \<le> unat (tk_limit tk)" "Y \<noteq> [] \<longrightarrow> sz = tk_limit tk"
    and l: "compare_rows (tk_sort tk) (node_row l) b = Some Equal"
    and replay: "replay (unat (tk_limit tk)) outs (rows_of (take (unat (tk_limit tk)) P)) = Some (rows_of (X @ [l]))"
    and r: "r = Some (st \<lparr> os_log := os_log st @ outs \<rparr>)"
  shows "take_result ty tk key P P' st r"
proof -
  have P: "max_ok ty (tk_sort tk) (os_storage st)" "storage_get key (os_storage st) = Some (TakeState sz (Some b))" "os_hidden st = None"
    "row_ok ty (tk_sort tk) b" using pre by (auto simp: take_pre_def take_ok_def)
  have "take_ok ty (tk_sort tk) (tk_limit tk) P' sz (Some b)" using take_okI [OF P'(1,2) P(4) l P'(3,4)] .
  then have "holds_window ty tk key P' (st \<lparr> os_log := os_log st @ outs \<rparr>)" using P by (auto simp: holds_window_def)
  then show ?thesis using r replay P(3) take_ok_window [OF P'] by (auto simp: take_result_def intro!: exI [of _ outs])
qed

lemma refill_loop_result:
  assumes "\<forall>x\<in>set M. \<exists>c. compare_rows srt (node_row x) b = Some c \<and> c \<noteq> Greater" "\<forall>x\<in>set H. compare_rows srt (node_row x) b = Some Greater"
  shows "refill_loop (log_env f) srt b acc (M @ H) st =
    Some (if H \<noteq> [] then Some (hd H, True) else if M \<noteq> [] then Some (last M, False) else acc, False, st)"
  using assms
proof (induction M arbitrary: acc)
  case Nil
  then show ?case by (cases H) auto
next
  case (Cons x M)
  then show ?case by auto
qed

text \<open>Taking one row out of the window.\<close>

lemma window_without:
  assumes P: "sorted_by (node_cmp srt) P" "set P \<subseteq> node_dom ty srt" "P = V @ B"
    and x: "x \<in> set V" "node_row x = node_row d"
  obtains U Z where "V = U @ x # Z" "del_by (node_cmp srt) d P = (U @ Z) @ B" "rows_of (U @ Z) = rows_of V - {node_row d}"
    "del_by (node_cmp srt) d V = U @ Z"
proof -
  obtain U Z where V: "V = U @ x # Z" using x(1) by (auto simp: in_set_conv_decomp)
  have xD: "row_ok ty srt (node_row x)" using P(2,3) x(1) by auto
  have eq: "node_cmp srt x d = Some Equal" using row_order.cmp_refl [of "node_row x" ty srt] xD x(2) by simp
  have s: "sorted_by (node_cmp srt) (U @ x # (Z @ B))" "set (U @ x # (Z @ B)) \<subseteq> node_dom ty srt" using P V by simp_all
  have sV: "sorted_by (node_cmp srt) (U @ x # Z)" "set (U @ x # Z) \<subseteq> node_dom ty srt" using P V by (auto simp: sorted_by_append)
  have d: "del_by (node_cmp srt) d P = (U @ Z) @ B" "del_by (node_cmp srt) d V = U @ Z"
    using node_order.del_by_split [OF s, of d] node_order.del_by_split [OF sV, of d] eq xD x(2) P(3) V by simp_all
  have "rows_of (U @ Z) = rows_of V - {node_row d}"
    using rows_inj(1,2) [OF sV] x(2) V by (auto simp: inj_on_def)
  then show thesis using that V d by blast
qed

text \<open>A row beyond the bound leaves the window alone.\<close>

lemma remove_outside:
  assumes pre: "take_pre ty tk key P P' constr f st sz (Some b) mb"
    and d: "x \<in> set P" "node_row x = node_row d" and P': "P' = del_by (node_cmp (tk_sort tk)) d P"
    and out: "compare_rows (tk_sort tk) (node_row d) b = Some Greater"
  shows "take_result ty tk key P P' st (push_remove debug (log_env f) tk d key sz (Some b) mb constr st)"
proof -
  let ?c = "node_cmp (tk_sort tk)" and ?k = "unat (tk_limit tk)"
  have P: "sorted_by ?c P" "set P \<subseteq> node_dom ty (tk_sort tk)" using pre by (auto simp: take_pre_def)
  obtain A b0 B where b: "P = A @ b0 # B" "unat sz = Suc (length A)" "row_ok ty (tk_sort tk) b"
    "compare_rows (tk_sort tk) (node_row b0) b = Some Equal" "unat sz \<le> ?k" "B \<noteq> [] \<longrightarrow> sz = tk_limit tk" "take ?k P = A @ [b0]"
    "below ?c (leaf b) P = A" "at_bound ?c (leaf b) P = [b0]" "above ?c (leaf b) P = B"
    by (rule bound_facts [OF pre])
  have "x \<in> set (above ?c (leaf b) P)" using d out by (simp add: above_def)
  then have xB: "x \<in> set B" using b(10) by simp
  then obtain U Z where B: "B = U @ x # Z" by (auto simp: in_set_conv_decomp)
  have "P' = (A @ b0 # U) @ Z"
    using window_without [OF P, of P "[]" x d] d node_order.del_by_split [of "tk_sort tk" "A @ b0 # U" x Z ty d] P b(1) B
      row_order.cmp_refl [of "node_row x" ty "tk_sort tk"] by (simp add: P')
  then show ?thesis
    using out b(2,4-7) xB by (intro result_kept [OF pre, of A b0 "U @ Z" "[]"]) (auto simp: push_remove_def)
qed

text \<open>What \<open>push_remove\<close> does once its scans have run.\<close>

lemma push_remove_scanned:
  assumes pre: "take_pre ty tk key P P' constr f st sz (Some b) mb"
    and b: "row_ok ty (tk_sort tk) b" and P': "P' = L @ M @ H"
    and sides: "\<forall>x\<in>set L. compare_rows (tk_sort tk) (node_row x) b = Some Less" "\<forall>x\<in>set M. compare_rows (tk_sort tk) (node_row x) b = Some Equal"
      "\<forall>x\<in>set H. compare_rows (tk_sort tk) (node_row x) b = Some Greater"
    and d: "compare_rows (tk_sort tk) (node_row d) b = Some c" "c \<noteq> Greater"
  shows "push_remove debug (log_env f) tk d key sz (Some b) mb constr st =
    (if H \<noteq> [] then map_option (\<lambda>s. s \<lparr> os_log := os_log st @ [Remove d, Add (hd H)] \<rparr>) (set_state (log_env f) tk key sz (Some (node_row (hd H))) mb st)
     else let nb = if L @ M = [] then None else Some (node_row (last (L @ M)))
       in map_option (\<lambda>s. s \<lparr> os_log := os_log st @ [Remove d] \<rparr>)
         (if tk_partition_key tk \<noteq> None \<and> sz - 1 = 0 then (if debug \<and> nb \<noteq> None then None else Some (st \<lparr> os_storage := storage_del key (os_storage st) \<rparr>))
          else set_state (log_env f) tk key (sz - 1) nb mb st))"
proof -
  note scan = scans [OF pre b P' sides]
  have loop: "refill_loop (log_env f) (tk_sort tk) b acc (M @ H) st =
      Some (if H \<noteq> [] then Some (hd H, True) else if M \<noteq> [] then Some (last M, False) else acc, False, st)" for acc
    using refill_loop_result [OF _ sides(3), of M f acc st] sides(2) by simp
  have before: "(case take 1 (rev L) of [] \<Rightarrow> Some None
      | bbn # _ \<Rightarrow> map_option (\<lambda>c. Some (bbn, c = Greater)) (compare_rows (tk_sort tk) (node_row bbn) b)) =
      Some (if L = [] then None else Some (last L, False))"
    using sides(1) by (cases L rule: rev_cases) simp_all
  have same_log: "os_log s = os_log st" if "set_state (log_env f) tk key z nb mb st = Some s" for s z nb
    using set_state_log [of f tk key z nb mb "os_log st" st] that by (cases s) simp
  show ?thesis
  proof (cases H)
    case (Cons h H')
    then show ?thesis using d loop before scan(4,5)
      by (cases "set_state (log_env f) tk key sz (Some (node_row h)) mb st"; cases "L = []")
        (simp_all add: push_remove_def set_state_log)
  next
    case Nil
    define nb where "nb = (if L @ M = [] then None else Some (node_row (last (L @ M))))"
    show ?thesis using d loop before scan(4,5) Nil same_log
      by (cases "set_state (log_env f) tk key (sz - 1) nb mb st"; cases "L = []"; cases "M = []")
        (simp_all add: push_remove_def nb_def debug_check_def Let_def)
  qed
qed

lemma remove_inside:
  assumes pre: "take_pre ty tk key P P' constr f st sz (Some b) mb"
    and d: "x \<in> set P" "node_row x = node_row d" and P': "P' = del_by (node_cmp (tk_sort tk)) d P"
    and within: "compare_rows (tk_sort tk) (node_row d) b \<noteq> Some Greater"
  shows "take_result ty tk key P P' st (push_remove debug (log_env f) tk d key sz (Some b) mb constr st)"
proof -
  let ?c = "node_cmp (tk_sort tk)" and ?k = "unat (tk_limit tk)"
  have P: "sorted_by ?c P" "set P \<subseteq> node_dom ty (tk_sort tk)" "set P' \<subseteq> node_dom ty (tk_sort tk)" "os_hidden st = None"
    "key \<noteq> MAX_BOUND_KEY" "max_ok ty (tk_sort tk) (os_storage st)" "\<forall>r. mb = Some r \<longrightarrow> row_ok ty (tk_sort tk) r"
    using pre by (auto simp: take_pre_def)
  obtain A b0 B where b: "P = A @ b0 # B" "unat sz = Suc (length A)" "row_ok ty (tk_sort tk) b"
    "compare_rows (tk_sort tk) (node_row b0) b = Some Equal" "unat sz \<le> ?k" "B \<noteq> [] \<longrightarrow> sz = tk_limit tk" "take ?k P = A @ [b0]"
    "below ?c (leaf b) P = A" "at_bound ?c (leaf b) P = [b0]" "above ?c (leaf b) P = B"
    by (rule bound_facts [OF pre])
  have dok: "row_ok ty (tk_sort tk) (node_row d)" using P(2) d by auto
  obtain c where c: "compare_rows (tk_sort tk) (node_row d) b = Some c" "c \<noteq> Greater"
    using within row_order.cmp_total [of "node_row d" ty "tk_sort tk" b] dok b(3) by auto
  note sides = bound_sides [OF b(8,10)]
  have xV: "x \<in> set (A @ [b0])" using d within sides(2) b(1) by auto
  have PV: "P = (A @ [b0]) @ B" using b(1) by simp
  obtain U Z where V: "A @ [b0] = U @ x # Z" "del_by ?c d P = (U @ Z) @ B" "rows_of (U @ Z) = rows_of (A @ [b0]) - {node_row d}"
    by (rule window_without [OF P(1,2) PV xV d(2)])
  have UZ: "set (U @ Z) \<subseteq> set (A @ [b0])" "sorted_by ?c (U @ Z)" "set (U @ Z) \<subseteq> node_dom ty (tk_sort tk)"
    using V(1,2) P(1-3) pre unfolding P' take_pre_def by (auto simp: sorted_by_append)
  have "\<forall>y\<in>set (U @ Z). compare_rows (tk_sort tk) (node_row y) b \<noteq> Some Greater" using UZ(1) sides(1) b(4) by auto
  then obtain L M where LM: "U @ Z = L @ M" "\<forall>x\<in>set L. compare_rows (tk_sort tk) (node_row x) b = Some Less"
    "\<forall>x\<in>set M. compare_rows (tk_sort tk) (node_row x) b = Some Equal" by (rule split_within [OF UZ(2,3) b(3)])
  have P'LM: "P' = L @ M @ B" using V(2) P' LM(1) by simp
  note run = push_remove_scanned [OF pre b(3) P'LM LM(2,3) sides(2) c]
  have len: "length (L @ M) = length A" using arg_cong [OF V(1), of length] unfolding LM(1) [symmetric] by simp
  have gone: "node_row d \<in> rows_of (A @ [b0])" "rows_of (L @ M) = rows_of (A @ [b0]) - {node_row d}"
    using xV d(2) V(3) LM(1) by (metis image_eqI, simp)
  show ?thesis
  proof (cases B)
    case (Cons r R)
    have "node_row r \<notin> rows_of (A @ [b0])" using rows_inj(1,2) [OF P(1,2)] b(1) Cons by (auto simp: inj_on_def)
    moreover have "card (rows_of (A @ [b0])) \<le> ?k" using card_image_le [of "set (A @ [b0])" node_row] card_length [of "A @ [b0]"] b(2,5) by simp
    ultimately have "replay ?k [Remove d, Add r] (rows_of (A @ [b0])) = Some (rows_of ((L @ M) @ [r]))"
      using replay_swap [of d "rows_of (A @ [b0])" r ?k] gone by simp
    then have rep: "replay ?k [Remove d, Add r] (rows_of (take ?k P)) = Some (rows_of ((L @ M) @ [r]))" unfolding b(7) .
    have run': "push_remove debug (log_env f) tk d key sz (Some b) mb constr st =
        Some (st \<lparr> os_storage := m, os_log := os_log st @ [Remove d, Add r] \<rparr>)"
      if "set_state (log_env f) tk key sz (Some (node_row r)) mb st = Some (st \<lparr> os_storage := m \<rparr>)" for m
      using run that Cons by simp
    show ?thesis by (rule result_written [OF pre _ _ b(5) _ rep run']) (use Cons b(2,6) P'LM len in simp_all)
  next
    case Nil
    have P'W: "P' = L @ M" using P'LM Nil by simp
    have sz: "unat (sz - 1) = length (L @ M)" using unat_decr b(2) len by simp
    have rep: "replay ?k [Remove d] (rows_of (take ?k P)) = Some (rows_of P')" using gone b(7) P'W by simp
    show ?thesis
    proof (cases "L @ M" rule: rev_cases)
      case (snoc X l)
      then have "sz - 1 \<noteq> 0" using sz by auto
      moreover have "unat (sz - 1) \<le> ?k" using sz len b(2,5) by simp
      ultimately show ?thesis using snoc Nil sz P'W rep
        by (intro result_written [OF pre, of X l "[]" "sz - 1" "[Remove d]"]) (auto simp: run)
    next
      case empty: Nil
      then have z: "sz - 1 = 0" using sz by (simp add: unat_eq_0)
      let ?r = "push_remove debug (log_env f) tk d key sz (Some b) mb constr st"
      have "\<exists>m. ?r = Some (st \<lparr> os_storage := m, os_log := os_log st @ [Remove d] \<rparr>) \<and> max_ok ty (tk_sort tk) m \<and>
        (storage_get key m = Some (TakeState 0 None) \<or> tk_partition_key tk \<noteq> None \<and> storage_get key m = None)"
      proof (cases "tk_partition_key tk")
        case None
        then show ?thesis using set_state_ok [of key None ty tk mb st f 0] P(5-7) z run empty Nil by auto
      next
        case (Some pk)
        then show ?thesis using z run empty Nil P(5,6) by (auto simp: max_ok_def mem_store.get_del)
      qed
      then show ?thesis using rep P(4) P'W empty
        by (auto simp: take_result_def holds_window_def vacated_def take_ok_def intro!: exI [of _ "[Remove d]"])
    qed
  qed
qed

end
