(* ===== verification/Take_Edit.thy ===== *)
theory Take_Edit
  imports Take_Window
begin

text \<open>
  The edit matrix of \<open>Take\<close> and the statement for every change: the window after a push is the window of
  the new input, and what was pushed turns the old window into it.
\<close>

section \<open>Edits\<close>

text \<open>An edit of a row in the window, and a swap of a row of the window for one outside.\<close>

lemma replay_edit:
  assumes "node_row old \<in> V" "node_row n \<in> V \<Longrightarrow> node_row n = node_row old"
  shows "replay k [Edit n old] V = Some (insert (node_row n) (V - {node_row old}))"
  using assms by auto

text \<open>What an edit needs beyond \<open>take_pre\<close>: the old row is there, and the new one is new apart from it.\<close>

definition edit_pre :: "(col_id \<Rightarrow> kind) \<Rightarrow> sort \<Rightarrow> node list \<Rightarrow> node list \<Rightarrow> node \<Rightarrow> node \<Rightarrow> bool" where
  "edit_pre ty srt P P' n old \<longleftrightarrow> (\<exists>x\<in>set P. node_row x = node_row old) \<and> row_ok ty srt (node_row n) \<and>
     (\<forall>y\<in>set (del_by (node_cmp srt) old P). node_cmp srt y n \<noteq> Some Equal) \<and>
     P' = ins_by (node_cmp srt) n (del_by (node_cmp srt) old P)"

text \<open>Inserting into a list that is known by its sides.\<close>

lemma ins_sides:
  assumes ok: "set (L @ M @ H) \<subseteq> node_dom ty srt" "row_ok ty srt (node_row n)" "row_ok ty srt b"
    and sides: "\<forall>x\<in>set L. compare_rows srt (node_row x) b = Some Less" "\<forall>x\<in>set M. compare_rows srt (node_row x) b = Some Equal"
      "\<forall>x\<in>set H. compare_rows srt (node_row x) b = Some Greater"
  shows "compare_rows srt (node_row n) b = Some Less \<Longrightarrow> ins_by (node_cmp srt) n (L @ M @ H) = ins_by (node_cmp srt) n L @ M @ H"
    "compare_rows srt (node_row n) b = Some Greater \<Longrightarrow> ins_by (node_cmp srt) n (L @ M @ H) = L @ M @ ins_by (node_cmp srt) n H"
    "compare_rows srt (node_row n) b = Some Equal \<Longrightarrow> ins_by (node_cmp srt) n (L @ H) = L @ n # H"
proof -
  let ?c = "node_cmp srt"
  have gt: "?c y n = Some Greater" if "y \<in> set (L @ M @ H)" "compare_rows srt (node_row y) b \<noteq> Some Less" "compare_rows srt (node_row n) b = Some Less" for y
    using that row_order.cmp_gt_iff [of b ty srt "node_row y"] row_order.cmp_less_le_trans [of "node_row n" ty srt b "node_row y"]
      row_order.cmp_gt_iff [of "node_row y" ty srt "node_row n"] ok by auto
  have gt': "?c y n = Some Greater" if "y \<in> set (L @ M @ H)" "compare_rows srt (node_row y) b = Some Greater" "compare_rows srt (node_row n) b \<noteq> Some Greater" for y
    using that row_order.cmp_gt_iff [of "node_row y" ty srt b] row_order.cmp_le_less_trans [of "node_row n" ty srt b "node_row y"]
      row_order.cmp_gt_iff [of "node_row y" ty srt "node_row n"] ok by auto
  have lt: "?c y n = Some Less" if "y \<in> set (L @ M @ H)" "compare_rows srt (node_row y) b \<noteq> Some Greater" "compare_rows srt (node_row n) b = Some Greater" for y
    using that row_order.cmp_gt_iff [of "node_row n" ty srt b] row_order.cmp_le_less_trans [of "node_row y" ty srt b "node_row n"] ok by auto
  have lt': "?c y n = Some Less" if "y \<in> set (L @ M @ H)" "compare_rows srt (node_row y) b = Some Less" "compare_rows srt (node_row n) b \<noteq> Some Less" for y
    using that row_order.cmp_gt_iff [of b ty srt "node_row n"] row_order.cmp_less_le_trans [of "node_row y" ty srt b "node_row n"] ok by auto
  show "ins_by ?c n (L @ M @ H) = ins_by ?c n L @ M @ H" if "compare_rows srt (node_row n) b = Some Less"
  proof -
    have "below ?c n M = []" "below ?c n H = []" "above ?c n M = M" "above ?c n H = H"
      using gt that sides by (auto intro!: below_none above_all)
    then show ?thesis by (simp add: ins_by_def)
  qed
  show "ins_by ?c n (L @ M @ H) = L @ M @ ins_by ?c n H" if "compare_rows srt (node_row n) b = Some Greater"
  proof -
    have "below ?c n M = M" "below ?c n L = L" "above ?c n M = []" "above ?c n L = []"
      using lt that sides by (auto intro!: below_all above_none)
    then show ?thesis by (simp add: ins_by_def)
  qed
  show "ins_by ?c n (L @ H) = L @ n # H" if "compare_rows srt (node_row n) b = Some Equal"
  proof -
    have "below ?c n H = []" "above ?c n H = H" "below ?c n L = L" "above ?c n L = []"
      using lt' gt' that sides by (auto intro!: below_all above_all below_none above_none)
    then show ?thesis by (simp add: ins_by_def)
  qed
qed

text \<open>The window of the old input, taken apart at the bound.\<close>

definition split_pre ::
  "(col_id \<Rightarrow> kind) \<Rightarrow> take_op \<Rightarrow> byte list \<Rightarrow> node list \<Rightarrow> node list \<Rightarrow> row_constraint option \<Rightarrow> (fetch_request \<Rightarrow> node list option) \<Rightarrow>
   op_state \<Rightarrow> 32 word \<Rightarrow> row \<Rightarrow> row option \<Rightarrow> node list \<Rightarrow> node \<Rightarrow> node list \<Rightarrow> bool" where
  "split_pre ty tk key P P' constr f st sz b mb A b0 B \<longleftrightarrow> take_pre ty tk key P P' constr f st sz (Some b) mb \<and>
     P = A @ b0 # B \<and> unat sz = Suc (length A) \<and> row_ok ty (tk_sort tk) b \<and> compare_rows (tk_sort tk) (node_row b0) b = Some Equal \<and>
     unat sz \<le> unat (tk_limit tk) \<and> (B \<noteq> [] \<longrightarrow> sz = tk_limit tk) \<and> take (unat (tk_limit tk)) P = A @ [b0] \<and>
     (\<forall>x\<in>set A. compare_rows (tk_sort tk) (node_row x) b = Some Less) \<and> (\<forall>x\<in>set B. compare_rows (tk_sort tk) (node_row x) b = Some Greater)"

lemma split_preI:
  assumes "take_pre ty tk key P P' constr f st sz (Some b) mb"
  shows "\<exists>A b0 B. split_pre ty tk key P P' constr f st sz b mb A b0 B"
proof -
  let ?c = "node_cmp (tk_sort tk)" and ?k = "unat (tk_limit tk)"
  obtain A b0 B where b: "P = A @ b0 # B" "unat sz = Suc (length A)" "row_ok ty (tk_sort tk) b"
    "compare_rows (tk_sort tk) (node_row b0) b = Some Equal" "unat sz \<le> ?k" "B \<noteq> [] \<longrightarrow> sz = tk_limit tk" "take ?k P = A @ [b0]"
    "below ?c (leaf b) P = A" "at_bound ?c (leaf b) P = [b0]" "above ?c (leaf b) P = B"
    by (rule bound_facts [OF assms])
  note sides = bound_sides [OF b(8,10)]
  show ?thesis unfolding split_pre_def using assms b(1-7) sides by blast
qed

lemma split_preD:
  assumes "split_pre ty tk key P P' constr f st sz b mb A b0 B"
  shows "take_pre ty tk key P P' constr f st sz (Some b) mb" "P = A @ b0 # B" "unat sz = Suc (length A)" "row_ok ty (tk_sort tk) b"
    "compare_rows (tk_sort tk) (node_row b0) b = Some Equal" "unat sz \<le> unat (tk_limit tk)" "B \<noteq> [] \<longrightarrow> sz = tk_limit tk"
    "take (unat (tk_limit tk)) P = A @ [b0]" "\<forall>x\<in>set A. compare_rows (tk_sort tk) (node_row x) b = Some Less"
    "\<forall>x\<in>set B. compare_rows (tk_sort tk) (node_row x) b = Some Greater" "sorted_by (node_cmp (tk_sort tk)) P"
    "set P \<subseteq> node_dom ty (tk_sort tk)" "os_hidden st = None" "set P' \<subseteq> node_dom ty (tk_sort tk)" "sorted_by (node_cmp (tk_sort tk)) P'"
  using assms unfolding split_pre_def take_pre_def by blast+

text \<open>Where the edited row was, and what is left without it.\<close>

lemma edited_place:
  assumes s: "split_pre ty tk key P P' constr f st sz b mb A b0 B" and e: "edit_pre ty (tk_sort tk) P P' n old"
  obtains "compare_rows (tk_sort tk) (node_row old) b = Some Equal" "del_by (node_cmp (tk_sort tk)) old P = A @ B" "node_row b0 = node_row old"
  | U x Z where "compare_rows (tk_sort tk) (node_row old) b = Some Greater" "B = U @ x # Z" "node_row x = node_row old"
      "del_by (node_cmp (tk_sort tk)) old P = A @ b0 # U @ Z"
  | U x Z where "compare_rows (tk_sort tk) (node_row old) b = Some Less" "A = U @ x # Z" "node_row x = node_row old"
      "del_by (node_cmp (tk_sort tk)) old P = (U @ Z) @ b0 # B" "rows_of (U @ Z) = rows_of A - {node_row old}"
proof -
  note S = split_preD [OF s]
  let ?c = "node_cmp (tk_sort tk)"
  obtain x where x: "x \<in> set P" "node_row x = node_row old" using e by (auto simp: edit_pre_def)
  have eq: "?c x old = Some Equal" "row_ok ty (tk_sort tk) (node_row old)"
    using row_order.cmp_refl [of "node_row x" ty "tk_sort tk"] S(12) x by auto
  have del: "del_by ?c old (C @ x # D) = C @ D" if "P = C @ x # D" for C D
    using node_order.del_by_split [of "tk_sort tk" C x D ty old] S(11,12) that eq by simp
  consider "x = b0" | "x \<in> set B" | "x \<in> set A" using x(1) S(2) by auto
  then show thesis
  proof cases
    case 1
    then show thesis using that(1) S(2,5) del [of A B] x(2) by simp
  next
    case 2
    then obtain U Z where B: "B = U @ x # Z" by (auto simp: in_set_conv_decomp)
    have "del_by ?c old P = A @ b0 # U @ Z" using del [of "A @ b0 # U" Z] S(2) B by simp
    then show thesis using that(2) [OF _ B x(2)] bspec [OF S(10) 2] x(2) by simp
  next
    case 3
    then obtain U Z where A: "A = U @ x # Z" by (auto simp: in_set_conv_decomp)
    have d: "del_by ?c old P = (U @ Z) @ b0 # B" using del [of U "Z @ b0 # B"] S(2) A by simp
    have "rows_of (U @ Z) = rows_of A - {node_row old}"
      using rows_inj(1,2) [OF S(11,12)] S(2) A x(2) by (auto simp: inj_on_def)
    then show thesis using that(3) [OF _ A x(2) d] bspec [OF S(9) 3] x(2) by simp
  qed
qed

text \<open>The edited row was the bound.\<close>

lemma at_bound_edit:
  assumes s: "split_pre ty tk key P P' constr f st sz b mb A b0 B" and e: "edit_pre ty (tk_sort tk) P P' n old"
    and Q: "del_by (node_cmp (tk_sort tk)) old P = A @ B" and old: "node_row b0 = node_row old"
    and cmp: "compare_rows (tk_sort tk) (node_row n) b = Some c"
  shows "take_result ty tk key P P' st (edit_at_bound (log_env f) tk n old c key sz b mb constr st)"
proof -
  note S = split_preD [OF s]
  let ?c = "node_cmp (tk_sort tk)" and ?k = "unat (tk_limit tk)"
  have n: "row_ok ty (tk_sort tk) (node_row n)" "\<forall>y\<in>set (A @ B). ?c y n \<noteq> Some Equal" "P' = ins_by ?c n (A @ B)"
    using e Q by (auto simp: edit_pre_def)
  have AB: "set (A @ [] @ B) \<subseteq> node_dom ty (tk_sort tk)" "set A \<subseteq> node_dom ty (tk_sort tk)" "set B \<subseteq> node_dom ty (tk_sort tk)" using S(2,12) by auto
  note ins = ins_sides [OF AB(1) n(1) S(4,9) _ S(10)]
  have V: "node_row old \<in> rows_of (A @ [b0])" "rows_of A = rows_of (A @ [b0]) - {node_row old}"
    using rows_inj(1,2) [OF S(11,12)] S(2) old by (auto simp: inj_on_def)
  have nV: "node_row n \<in> rows_of (A @ [b0]) \<Longrightarrow> node_row n = node_row old"
    using new_row [OF n(1), of A] n(2) old by auto
  have ed: "replay ?k [Edit n old] (rows_of (take ?k P)) = Some (insert (node_row n) (rows_of A))"
    unfolding S(8) V(2) by (rule replay_edit [OF V(1) nV])
  have len: "card (rows_of (A @ [b0])) \<le> ?k" using card_image_le [of "set (A @ [b0])" node_row] card_length [of "A @ [b0]"] S(3,6) by simp
  show ?thesis
  proof (cases c)
    case Equal
    have "P' = A @ n # B" using ins(3) n(3) cmp Equal by simp
    then show ?thesis
      by (rule result_kept [OF S(1) _ S(3,6,7), of n "[Edit n old]"]) (use ed cmp Equal in \<open>simp_all add: edit_at_bound_def\<close>)
  next
    case Less
    have P': "P' = ins_by ?c n A @ [] @ B" using ins(1) n(3) cmp Less by simp
    have A': "length (ins_by ?c n A) = Suc (length A)" "set (ins_by ?c n A) = insert n (set A)"
      using node_order.length_ins_by [of A ty "tk_sort tk" n] AB(2) n(1,2) by auto
    have less: "\<forall>x\<in>set (ins_by ?c n A). compare_rows (tk_sort tk) (node_row x) b = Some Less" using A'(2) S(9) cmp Less by simp
    obtain X l where X: "ins_by ?c n A = X @ [l]" using A'(1) by (metis length_Suc_conv_rev)
    have rep: "replay ?k [Edit n old] (rows_of (take ?k P)) = Some (rows_of (X @ [l]))" unfolding ed X [symmetric] using A'(2) by simp
    have fetch: "fetch_n (log_env f) b After constr True 1 st = Some ([l], st)"
      using scans(4) [OF S(1,4) P' less _ S(10)] X by simp
    have one: "tk_limit tk = 1 \<Longrightarrow> l = n" using A' X S(3,6) by (auto simp: unat_1)
    have "edit_at_bound (log_env f) tk n old Less key sz b mb constr st = Some (st \<lparr> os_storage := m, os_log := os_log st @ [Edit n old] \<rparr>)"
      if "set_state (log_env f) tk key sz (Some (node_row l)) mb st = Some (st \<lparr> os_storage := m \<rparr>)" for m
      using that fetch one by (cases "tk_limit tk = 1") (simp_all add: edit_at_bound_def replace_and_forward_def)
    then show ?thesis using P' X A'(1) S(3,6,7) by (intro result_written [OF S(1) _ _ S(6) _ rep]) (auto simp: Less)
  next
    case Greater
    have P': "P' = A @ [] @ ins_by ?c n B" using ins(2) n(3) cmp Greater by simp
    have B': "length (ins_by ?c n B) = Suc (length B)" "set (ins_by ?c n B) = insert n (set B)"
      using node_order.length_ins_by [of B ty "tk_sort tk" n] AB(3) n(1,2) by auto
    have gr: "\<forall>x\<in>set (ins_by ?c n B). compare_rows (tk_sort tk) (node_row x) b = Some Greater" using B'(2) S(10) cmp Greater by simp
    obtain l Y where Y: "ins_by ?c n B = l # Y" using B'(1) by (cases "ins_by ?c n B") auto
    have fetch: "fetch_n (log_env f) b At constr False 1 st = Some ([l], st)"
      using scans(1) [OF S(1,4) P' S(9) _ gr] Y by simp
    have last: "Y \<noteq> [] \<longrightarrow> sz = tk_limit tk" using B'(1) Y S(7) by auto
    obtain k where k: "?c l n = Some k" using node_order.cmp_total [of l ty "tk_sort tk" n] n(1) S(14) P' Y by auto
    show ?thesis
    proof (cases "l = n")
      case True
      have "k = Equal" using k True row_order.cmp_refl [of "node_row n" ty "tk_sort tk"] n(1) by simp
      then have run: "edit_at_bound (log_env f) tk n old c key sz b mb constr st = Some (st \<lparr> os_storage := m, os_log := os_log st @ [Edit n old] \<rparr>)"
        if "set_state (log_env f) tk key sz (Some (node_row n)) mb st = Some (st \<lparr> os_storage := m \<rparr>)" for m
        using that fetch k True Greater by (simp add: edit_at_bound_def replace_and_forward_def)
      have rep: "replay ?k [Edit n old] (rows_of (take ?k P)) = Some (rows_of (A @ [n]))" unfolding ed by simp
      show ?thesis by (rule result_written [OF S(1) _ S(3,6) last rep run]) (use P' Y True in simp)
    next
      case False
      then have lB: "l \<in> set B" using B'(2) Y by auto
      then have "k \<noteq> Equal" using k n(2) by auto
      then have run: "edit_at_bound (log_env f) tk n old c key sz b mb constr st = Some (st \<lparr> os_storage := m, os_log := os_log st @ [Remove old, Add l] \<rparr>)"
        if "set_state (log_env f) tk key sz (Some (node_row l)) mb st = Some (st \<lparr> os_storage := m \<rparr>)" for m
        using that fetch k Greater S(13) by (simp add: edit_at_bound_def push_hidden_log)
      have "node_row l \<notin> rows_of (A @ [b0])" using rows_inj(1,2) [OF S(11,12)] S(2) lB by (auto simp: inj_on_def)
      then have "replay ?k [Remove old, Add l] (rows_of (take ?k P)) = Some (insert (node_row l) (rows_of A))"
        unfolding S(8) V(2) using replay_swap [OF V(1) _ len, of l] by simp
      then have rep: "replay ?k [Remove old, Add l] (rows_of (take ?k P)) = Some (rows_of (A @ [l]))" by simp
      show ?thesis by (rule result_written [OF S(1) _ S(3,6) last rep run]) (use P' Y in simp)
    qed
  qed
qed

text \<open>The edited row was beyond the bound.\<close>

lemma outside_edit:
  assumes s: "split_pre ty tk key P P' constr f st sz b mb A b0 B" and e: "edit_pre ty (tk_sort tk) P P' n old"
    and Q: "del_by (node_cmp (tk_sort tk)) old P = A @ b0 # U @ Z" and B: "B = U @ x # Z"
    and cmp: "compare_rows (tk_sort tk) (node_row n) b = Some c"
  shows "take_result ty tk key P P' st (edit_outside debug (log_env f) tk n c key sz b mb constr st)"
proof -
  note S = split_preD [OF s]
  let ?c = "node_cmp (tk_sort tk)" and ?k = "unat (tk_limit tk)"
  have n: "row_ok ty (tk_sort tk) (node_row n)" "\<forall>y\<in>set (A @ [b0] @ (U @ Z)). ?c y n \<noteq> Some Equal" "P' = ins_by ?c n (A @ [b0] @ (U @ Z))"
    using e Q by (auto simp: edit_pre_def)
  have D: "set (A @ [b0] @ (U @ Z)) \<subseteq> node_dom ty (tk_sort tk)" "set A \<subseteq> node_dom ty (tk_sort tk)" "row_ok ty (tk_sort tk) (node_row b0)"
    using S(2,12) B by auto
  have hi: "\<forall>x\<in>set (U @ Z). compare_rows (tk_sort tk) (node_row x) b = Some Greater" "\<forall>x\<in>set [b0]. compare_rows (tk_sort tk) (node_row x) b = Some Equal"
    using S(5,10) B by auto
  note ins = ins_sides [OF D(1) n(1) S(4,9) hi(2,1)]
  have sz: "sz = tk_limit tk" using S(7) B by simp
  have c: "c = Less \<or> c = Greater" using off_bound [OF D(3) S(4) n(1) S(5)] n(2) cmp by auto
  show ?thesis
  proof (cases "c = Greater")
    case True
    have "P' = A @ b0 # ins_by ?c n (U @ Z)" using ins(2) n(3) cmp True by simp
    then show ?thesis
      by (rule result_kept [OF S(1) _ S(3,6) _ S(5), of _ "[]"]) (use sz S(8) True in \<open>simp_all add: edit_outside_def debug_check_def\<close>)
  next
    case False
    then have less: "c = Less" using c by simp
    have A': "length (ins_by ?c n A) = Suc (length A)" "set (ins_by ?c n A) = insert n (set A)"
      using node_order.length_ins_by [of A ty "tk_sort tk" n] D(2) n(1,2) by auto
    obtain X l where X: "ins_by ?c n A = X @ [l]" using A'(1) by (metis length_Suc_conv_rev)
    have P': "P' = ins_by ?c n A @ [b0] @ (U @ Z)" using ins(1) n(3) cmp less by simp
    have lo: "\<forall>x\<in>set (ins_by ?c n A). compare_rows (tk_sort tk) (node_row x) b = Some Less" using A'(2) S(9) cmp less by simp
    have "fetch_n (log_env f) b At constr True 2 st = Some ([b0, l], st)" using scans(3) [OF S(1,4) P' lo hi(2,1)] X by simp
    then have run: "edit_outside debug (log_env f) tk n c key sz b mb constr st = Some (st \<lparr> os_storage := m, os_log := os_log st @ [Remove b0, Add n] \<rparr>)"
      if "set_state (log_env f) tk key sz (Some (node_row l)) mb st = Some (st \<lparr> os_storage := m \<rparr>)" for m
      using that less S(13) by (simp add: edit_outside_def debug_check_def push_hidden_log)
    have "node_row b0 \<notin> rows_of A" using rows_inj(1,2) [OF S(11,12)] S(2) by (auto simp: inj_on_def)
    moreover have "node_row n \<notin> rows_of (A @ [b0])" using new_row [OF n(1), of "A @ [b0]"] n(2) by auto
    moreover have "card (rows_of (A @ [b0])) \<le> ?k" using card_image_le [of "set (A @ [b0])" node_row] card_length [of "A @ [b0]"] S(3,6) by simp
    ultimately have rep: "replay ?k [Remove b0, Add n] (rows_of (take ?k P)) = Some (rows_of (X @ [l]))"
      unfolding S(8) X [symmetric] using replay_swap [of b0 "rows_of (A @ [b0])" n ?k] A'(2) by simp
    show ?thesis by (rule result_written [OF S(1) _ _ S(6) _ rep run]) (use P' X A'(1) S(3) sz in simp_all)
  qed
qed

text \<open>The edited row was inside the window, before the bound.\<close>

lemma inside_edit:
  assumes s: "split_pre ty tk key P P' constr f st sz b mb A b0 B" and e: "edit_pre ty (tk_sort tk) P P' n old"
    and Q: "del_by (node_cmp (tk_sort tk)) old P = (U @ Z) @ b0 # B" and A: "A = U @ x # Z" "node_row x = node_row old"
      "rows_of (U @ Z) = rows_of A - {node_row old}"
    and cmp: "compare_rows (tk_sort tk) (node_row n) b = Some c"
  shows "take_result ty tk key P P' st (edit_inside debug (log_env f) tk n old c key sz b mb constr st)"
proof -
  note S = split_preD [OF s]
  let ?c = "node_cmp (tk_sort tk)" and ?k = "unat (tk_limit tk)"
  have n: "row_ok ty (tk_sort tk) (node_row n)" "\<forall>y\<in>set ((U @ Z) @ [b0] @ B). ?c y n \<noteq> Some Equal" "P' = ins_by ?c n ((U @ Z) @ [b0] @ B)"
    using e Q by (auto simp: edit_pre_def)
  have D: "set ((U @ Z) @ [b0] @ B) \<subseteq> node_dom ty (tk_sort tk)" "set (U @ Z) \<subseteq> node_dom ty (tk_sort tk)" "set B \<subseteq> node_dom ty (tk_sort tk)"
      "row_ok ty (tk_sort tk) (node_row b0)" using S(2,12) A(1) by auto
  have lo: "\<forall>x\<in>set (U @ Z). compare_rows (tk_sort tk) (node_row x) b = Some Less" "\<forall>x\<in>set [b0]. compare_rows (tk_sort tk) (node_row x) b = Some Equal"
    using S(5,9) A(1) by auto
  note ins = ins_sides [OF D(1) n(1) S(4) lo S(10)]
  have len: "unat sz = Suc (Suc (length (U @ Z)))" using S(3) A(1) by simp
  have c: "c = Less \<or> c = Greater" using off_bound [OF D(4) S(4) n(1) S(5)] n(2) cmp by auto
  have "node_row b0 \<noteq> node_row old" using rows_inj(1,2) [OF S(11,12)] S(2) A(1,2) by (auto simp: inj_on_def)
  then have V2: "rows_of ((U @ Z) @ [b0]) = rows_of (A @ [b0]) - {node_row old}" using A(3) by (simp add: insert_Diff_if)
  have V1: "node_row old \<in> rows_of (A @ [b0])" using A(1,2) by simp
  note V = V1 V2
  have nV: "node_row n \<in> rows_of (A @ [b0]) \<Longrightarrow> node_row n = node_row old"
    using new_row [OF n(1), of "(U @ Z) @ [b0]"] n(2) V(2) by auto
  have ed: "replay ?k [Edit n old] (rows_of (take ?k P)) = Some (insert (node_row n) (rows_of ((U @ Z) @ [b0])))"
    unfolding S(8) V(2) by (rule replay_edit [OF V(1) nV])
  have card: "card (rows_of (A @ [b0])) \<le> ?k" using card_image_le [of "set (A @ [b0])" node_row] card_length [of "A @ [b0]"] S(3,6) by simp
  show ?thesis
  proof (cases "c = Less")
    case True
    have A': "length (ins_by ?c n (U @ Z)) = Suc (length (U @ Z))" "set (ins_by ?c n (U @ Z)) = insert n (set (U @ Z))"
      using node_order.length_ins_by [of "U @ Z" ty "tk_sort tk" n] D(2) n(1,2) by auto
    have "P' = ins_by ?c n (U @ Z) @ b0 # B" using ins(1) n(3) cmp True by simp
    then show ?thesis
      by (rule result_kept [OF S(1) _ _ S(6,7,5), of _ "[Edit n old]"])
        (use ed A' True len in \<open>simp_all add: edit_inside_def debug_check_def insert_commute\<close>)
  next
    case False
    then have gr: "c = Greater" using c by simp
    have P': "P' = (U @ Z) @ [b0] @ ins_by ?c n B" using ins(2) n(3) cmp gr by simp
    have B': "length (ins_by ?c n B) = Suc (length B)" "set (ins_by ?c n B) = insert n (set B)"
      using node_order.length_ins_by [of B ty "tk_sort tk" n] D(3) n(1,2) by auto
    have hi: "\<forall>x\<in>set (ins_by ?c n B). compare_rows (tk_sort tk) (node_row x) b = Some Greater" using B'(2) S(10) cmp gr by simp
    obtain l Y where Y: "ins_by ?c n B = l # Y" using B'(1) by (cases "ins_by ?c n B") auto
    have fetch: "fetch_n (log_env f) b After constr False 1 st = Some ([l], st)" using scans(2) [OF S(1,4) P' lo hi] Y by simp
    have last: "Y \<noteq> [] \<longrightarrow> sz = tk_limit tk" using B'(1) Y S(7) by auto
    have P'': "P' = ((U @ Z) @ [b0]) @ l # Y" "unat sz = Suc (length ((U @ Z) @ [b0]))" using P' Y len by simp_all
    obtain k where k: "?c l n = Some k" using node_order.cmp_total [of l ty "tk_sort tk" n] n(1) S(14) P'' by auto
    show ?thesis
    proof (cases "l = n")
      case True
      have "k = Equal" using k True row_order.cmp_refl [of "node_row n" ty "tk_sort tk"] n(1) by simp
      then have run: "edit_inside debug (log_env f) tk n old c key sz b mb constr st = Some (st \<lparr> os_storage := m, os_log := os_log st @ [Edit n old] \<rparr>)"
        if "set_state (log_env f) tk key sz (Some (node_row l)) mb st = Some (st \<lparr> os_storage := m \<rparr>)" for m
        using that fetch k True gr by (simp add: edit_inside_def debug_check_def replace_and_forward_def)
      have rep: "replay ?k [Edit n old] (rows_of (take ?k P)) = Some (rows_of (((U @ Z) @ [b0]) @ [l]))" unfolding ed using True by (simp add: insert_commute)
      show ?thesis by (rule result_written [OF S(1) P'' S(6) last rep run])
    next
      case False
      then have lB: "l \<in> set B" using B'(2) Y by auto
      then have "k \<noteq> Equal" using k n(2) by auto
      then have run: "edit_inside debug (log_env f) tk n old c key sz b mb constr st = Some (st \<lparr> os_storage := m, os_log := os_log st @ [Remove old, Add l] \<rparr>)"
        if "set_state (log_env f) tk key sz (Some (node_row l)) mb st = Some (st \<lparr> os_storage := m \<rparr>)" for m
        using that fetch k gr by (simp add: edit_inside_def debug_check_def set_state_log)
      have "node_row l \<notin> rows_of (A @ [b0])" using rows_inj(1,2) [OF S(11,12)] S(2) lB by (auto simp: inj_on_def)
      then have "replay ?k [Remove old, Add l] (rows_of (take ?k P)) = Some (insert (node_row l) (rows_of ((U @ Z) @ [b0])))"
        unfolding S(8) V(2) using replay_swap [OF V(1) _ card, of l] by simp
      then have rep: "replay ?k [Remove old, Add l] (rows_of (take ?k P)) = Some (rows_of (((U @ Z) @ [b0]) @ [l]))" by (simp add: insert_commute)
      show ?thesis by (rule result_written [OF S(1) P'' S(6) last rep run])
    qed
  qed
qed

section \<open>Every change\<close>

text \<open>The input after a change, and the changes a consistent input can send.\<close>

fun after_change :: "sort \<Rightarrow> change \<Rightarrow> node list \<Rightarrow> node list" where
  "after_change srt (Add n) P = ins_by (node_cmp srt) n P"
| "after_change srt (Remove d) P = del_by (node_cmp srt) d P"
| "after_change srt (Edit n old) P = ins_by (node_cmp srt) n (del_by (node_cmp srt) old P)"
| "after_change srt (Child n rel c) P = P"

fun push_fits :: "(col_id \<Rightarrow> kind) \<Rightarrow> sort \<Rightarrow> change \<Rightarrow> node list \<Rightarrow> bool" where
  "push_fits ty srt (Add n) P \<longleftrightarrow> row_ok ty srt (node_row n) \<and> (\<forall>x\<in>set P. node_cmp srt x n \<noteq> Some Equal)"
| "push_fits ty srt (Remove d) P \<longleftrightarrow> node_row d \<in> rows_of P"
| "push_fits ty srt (Edit n old) P \<longleftrightarrow> node_row old \<in> rows_of P \<and> row_ok ty srt (node_row n) \<and>
     (\<forall>x\<in>set (del_by (node_cmp srt) old P). node_cmp srt x n \<noteq> Some Equal)"
| "push_fits ty srt (Child n rel c) P \<longleftrightarrow> node_row n \<in> rows_of P"

fun key_row :: "change \<Rightarrow> row" where
  "key_row (Edit n old) = node_row old"
| "key_row c = primary_row c"

lemma after_change_ok:
  assumes "sorted_by (node_cmp srt) P" "set P \<subseteq> node_dom ty srt" "push_fits ty srt c P"
  shows "sorted_by (node_cmp srt) (after_change srt c P)" "set (after_change srt c P) \<subseteq> node_dom ty srt"
proof -
  have row: "node_row d \<in> rows_of P \<Longrightarrow> d \<in> node_dom ty srt" for d using assms(2) by auto
  have del: "sorted_by (node_cmp srt) (del_by (node_cmp srt) d P)" "set (del_by (node_cmp srt) d P) \<subseteq> node_dom ty srt" if "node_row d \<in> rows_of P" for d
    using node_order.sorted_del_by [OF assms(1,2) row [OF that]] node_order.set_del_by_eq [OF assms(2) row [OF that]] assms(2) by auto
  have ins: "sorted_by (node_cmp srt) (ins_by (node_cmp srt) n Q)" "set (ins_by (node_cmp srt) n Q) \<subseteq> node_dom ty srt"
    if "sorted_by (node_cmp srt) Q" "set Q \<subseteq> node_dom ty srt" "row_ok ty srt (node_row n)" for n Q
    using node_order.sorted_ins_by [OF that(1,2), of n] node_order.set_ins_by_eq [OF that(2), of n] that by auto
  show "sorted_by (node_cmp srt) (after_change srt c P)" "set (after_change srt c P) \<subseteq> node_dom ty srt"
    using assms by (cases c; simp add: del ins)+
qed

lemma push_edit_window:
  assumes pre: "take_pre ty tk key P P' constr f st sz bnd mb" and e: "edit_pre ty (tk_sort tk) P P' n old"
    and key: "key_from_row tk (node_row old) = Some key" "constraint_for tk (node_row old) = Some constr" "get_max_bound (log_env f) st = Some mb"
    and pk: "debug \<longrightarrow> (\<forall>pk. tk_partition_key tk = Some pk \<longrightarrow> partition_key_unchanged (node_row old) (node_row n) pk = Some True)"
  shows "take_result ty tk key P P' st (push_edit debug (log_env f) tk n old st)"
proof -
  have "P \<noteq> []" using e by (auto simp: edit_pre_def)
  then obtain b where b: "bnd = Some b" using pre by (cases bnd) (auto simp: take_pre_def take_ok_def)
  obtain A b0 B where s: "split_pre ty tk key P P' constr f st sz b mb A b0 B" using split_preI [OF pre [unfolded b]] by blast
  note S = split_preD [OF s]
  obtain c where c: "compare_rows (tk_sort tk) (node_row n) b = Some c"
    using row_order.cmp_total [of "node_row n" ty "tk_sort tk" b] e S(4) by (auto simp: edit_pre_def)
  have st: "get_state (log_env f) key st = Some (Some (sz, Some b))" using pre b by (simp add: take_pre_def get_state_def)
  have dbg: "(case tk_partition_key tk of None \<Rightarrow> Some () | Some pk \<Rightarrow> debug_check debug (partition_key_unchanged (node_row old) (node_row n) pk)) = Some ()"
    using pk by (cases "tk_partition_key tk") (auto simp: debug_check_def)
  note run = push_edit_def dbg key st c bind_simps option.case prod.case
  show ?thesis
  proof (cases rule: edited_place [OF s e])
    case 1
    have "push_edit debug (log_env f) tk n old st = edit_at_bound (log_env f) tk n old c key sz b mb constr st" using 1(1) by (simp add: run)
    then show ?thesis using at_bound_edit [OF s e 1(2,3) c] by simp
  next
    case (2 U x Z)
    have "push_edit debug (log_env f) tk n old st = edit_outside debug (log_env f) tk n c key sz b mb constr st" using 2(1) by (simp add: run)
    then show ?thesis using outside_edit [OF s e 2(4,2) c] by simp
  next
    case (3 U x Z)
    have "push_edit debug (log_env f) tk n old st = edit_inside debug (log_env f) tk n old c key sz b mb constr st" using 3(1) by (simp add: run)
    then show ?thesis using inside_edit [OF s e 3(4,2,3,5) c] by simp
  qed
qed

lemma take_push_result:
  assumes "sorted_by (node_cmp (tk_sort tk)) P" "set P \<subseteq> node_dom ty (tk_sort tk)" "push_fits ty (tk_sort tk) c P"
    and "key_from_row tk (key_row c) = Some key" "constraint_for tk (key_row c) = Some constr" "tk_limit tk \<noteq> 0"
    and "holds_window ty tk key P st" "os_hidden st = None"
    and "input_window f ty (tk_sort tk) constr (after_change (tk_sort tk) c P)"
    and "debug \<longrightarrow> (\<forall>n old pk. c = Edit n old \<longrightarrow> tk_partition_key tk = Some pk \<longrightarrow> partition_key_unchanged (node_row old) (node_row n) pk = Some True)"
  shows "take_result ty tk key P (after_change (tk_sort tk) c P) st (take_push debug (log_env f) tk c st)"
proof -
  obtain sz bnd where w: "storage_get key (os_storage st) = Some (TakeState sz bnd)" "take_ok ty (tk_sort tk) (tk_limit tk) P sz bnd"
    "max_ok ty (tk_sort tk) (os_storage st)" using assms(7) by (auto simp: holds_window_def)
  obtain mb where mb: "get_max_bound (log_env f) st = Some mb" "\<And>r. mb = Some r \<Longrightarrow> row_ok ty (tk_sort tk) r"
    using get_max_bound_ok [OF w(3)] by blast
  let ?P' = "after_change (tk_sort tk) c P"
  have pre: "take_pre ty tk key P ?P' constr f st sz bnd mb"
    unfolding take_pre_def using assms(1,2,6,8,9) after_change_ok [OF assms(1-3)] key_from_row_not_max [OF assms(4)] w mb(2) by blast
  have st: "get_state (log_env f) key st = Some (Some (sz, bnd))" using w(1) by (simp add: get_state_def)
  show ?thesis
  proof (cases c)
    case (Add n)
    have n: "row_ok ty (tk_sort tk) (node_row n)" "\<forall>x\<in>set P. node_cmp (tk_sort tk) x n \<noteq> Some Equal" using assms(3) Add by simp_all
    have "take_push debug (log_env f) tk c st = push_add (log_env f) tk n key sz bnd mb constr st"
      using Add assms(4,5) st mb(1) by (simp add: take_push_def)
    then show ?thesis using add_with_room [OF pre n] add_when_full [OF pre n] Add by (cases "sz < tk_limit tk") simp_all
  next
    case (Remove d)
    obtain x where x: "x \<in> set P" "node_row x = node_row d" using assms(3) Remove by auto
    obtain b where b: "bnd = Some b" using w(2) x(1) by (cases bnd) (auto simp: take_ok_def)
    have "take_push debug (log_env f) tk c st = push_remove debug (log_env f) tk d key sz (Some b) mb constr st"
      using Remove assms(4,5) st mb(1) b by (simp add: take_push_def)
    then show ?thesis using remove_outside [OF pre [unfolded b] x] remove_inside [OF pre [unfolded b] x] Remove
      by (cases "compare_rows (tk_sort tk) (node_row d) b = Some Greater") simp_all
  next
    case (Edit n old)
    have e: "edit_pre ty (tk_sort tk) P ?P' n old" using assms(3) Edit by (auto simp: edit_pre_def)
    show ?thesis using push_edit_window [OF pre e _ _ mb(1), of debug] assms(4,5,10) Edit by (simp add: take_push_def)
  next
    case (Child n rel ch)
    obtain x where x: "x \<in> set P" "node_row x = node_row n" using assms(3) Child by auto
    obtain b where b: "bnd = Some b" using w(2) x(1) by (cases bnd) (auto simp: take_ok_def)
    obtain A b0 B where s: "split_pre ty tk key P ?P' constr f st sz b mb A b0 B" using split_preI [OF pre [unfolded b]] by blast
    note S = split_preD [OF s]
    have "row_ok ty (tk_sort tk) (node_row n)" using subsetD [OF S(12) x(1)] x(2) by simp
    then obtain k where k: "compare_rows (tk_sort tk) (node_row n) b = Some k"
      using row_order.cmp_total [of "node_row n" ty "tk_sort tk" b] S(4) by auto
    have run: "take_push debug (log_env f) tk c st = Some (st \<lparr> os_log := os_log st @ (if k \<noteq> Greater then [c] else []) \<rparr>)"
      using Child assms(4,5) st mb(1) b k by (simp add: take_push_def)
    have "node_row n \<in> rows_of (A @ [b0])" if "k \<noteq> Greater"
    proof (rule rev_image_eqI)
      show "x \<in> set (A @ [b0])" using that x k S(2,10) by auto
    qed (simp add: x(2))
    then have rep: "replay (unat (tk_limit tk)) (if k \<noteq> Greater then [c] else []) (rows_of (take (unat (tk_limit tk)) P)) = Some (rows_of (A @ [b0]))"
      unfolding S(8) using Child by simp
    have P': "?P' = A @ b0 # B" using Child S(2) by simp
    show ?thesis by (rule result_kept [OF S(1) P' S(3,6,7,5) rep run])
  qed
qed

text \<open>(C16) A push into a hydrated partition. Let \<open>P\<close> be the rows of the partition before a change, in the order of the input,
  and let the operator hold the window of \<open>P\<close>: its size and bound describe the first \<open>limit\<close> rows. For every addition,
  removal, edit and child change that fits \<open>P\<close>, with scans that see the input after the change, the push succeeds;
  replaying what it emits turns the old window, row by row, into exactly the first \<open>limit\<close> rows of the new input, never
  removing or editing a row that is not there, adding one that is, or holding more than \<open>limit\<close> rows; and the operator holds
  the window of the new input, or has dropped the state of a partition that became empty.\<close>

theorem take_push_window:
  assumes "sorted_by (node_cmp (tk_sort tk)) P" "set P \<subseteq> node_dom ty (tk_sort tk)" "push_fits ty (tk_sort tk) c P"
    and "key_from_row tk (key_row c) = Some key" "constraint_for tk (key_row c) = Some constr" "tk_limit tk \<noteq> 0"
    and "holds_window ty tk key P st" "os_hidden st = None"
    and "input_window f ty (tk_sort tk) constr (after_change (tk_sort tk) c P)"
    and "debug \<longrightarrow> (\<forall>n old pk. c = Edit n old \<longrightarrow> tk_partition_key tk = Some pk \<longrightarrow> partition_key_unchanged (node_row old) (node_row n) pk = Some True)"
  shows "take_result ty tk key P (after_change (tk_sort tk) c P) st (take_push debug (log_env f) tk c st)"
  by (rule take_push_result [OF assms])

definition demo_take :: take_op where
  "demo_take = \<lparr> tk_limit = 2, tk_partition_key = None, tk_sort = [(0, True)] \<rparr>"

definition demo_input :: "node list \<Rightarrow> fetch_request \<Rightarrow> node list option" where
  "demo_input P req = Some (filter (admits_start [(0, True)] req) (scan_dir (req_reverse req) P))"

lemma storage_get_new: "storage_get k storage_new = None"
  by (simp add: storage_get_def storage_new_def)

lemma demo_cmp:
  "compare_rows [(0, True)] [IntV 1] [IntV 0] = Some Greater" "compare_rows [(0, True)] [IntV 2] [IntV 0] = Some Greater"
  "compare_rows [(0, True)] [IntV 3] [IntV 0] = Some Greater" "compare_rows [(0, True)] [IntV 1] [IntV 2] = Some Less"
  "compare_rows [(0, True)] [IntV 1] [IntV 3] = Some Less" "compare_rows [(0, True)] [IntV 2] [IntV 3] = Some Less"
  "compare_rows [(0, True)] [IntV 2] [IntV 2] = Some Equal"
  by code_simp+

theorem take_push_window_witness:
  "\<exists>st st'. holds_window (\<lambda>_. KNum) demo_take (encode_state_key take_prefix []) (map (\<lambda>i. leaf [IntV i]) [1, 2, 3]) st \<and>
     take_push True (log_env (demo_input (map (\<lambda>i. leaf [IntV i]) [0, 1, 2, 3]))) demo_take (Add (leaf [IntV 0])) st = Some st' \<and>
     holds_window (\<lambda>_. KNum) demo_take (encode_state_key take_prefix []) (map (\<lambda>i. leaf [IntV i]) [0, 1, 2, 3]) st'"
proof -
  let ?key = "encode_state_key take_prefix []" and ?P = "map (\<lambda>i. leaf [IntV i]) [1, 2, 3]" and ?P' = "map (\<lambda>i. leaf [IntV i]) [0, 1, 2, 3]"
  define st where "st = \<lparr> os_storage = storage_set ?key (TakeState 2 (Some [IntV 2])) storage_new, os_hidden = None, os_log = [] \<rparr>"
  have P': "after_change (tk_sort demo_take) (Add (leaf [IntV 0])) ?P = ?P'"
    by (simp add: demo_take_def ins_by_def demo_cmp del: compare_rows.simps)
  have "take_ok (\<lambda>_. KNum) [(0, True)] 2 ?P 2 (Some [IntV 2])"
    by (rule take_okI [of _ "[leaf [IntV 1]]" "leaf [IntV 2]" "[leaf [IntV 3]]"]) (simp_all add: demo_cmp del: compare_rows.simps)
  then have h: "holds_window (\<lambda>_. KNum) demo_take ?key ?P st"
    using take_key_not_max [of "[]"]
    by (simp add: holds_window_def st_def demo_take_def mem_store.get_put max_ok_def storage_get_new)
  have w: "input_window (demo_input ?P') (\<lambda>_. KNum) (tk_sort demo_take) None ?P'"
    by (simp add: input_window_def demo_input_def demo_take_def)
  have "take_result (\<lambda>_. KNum) demo_take ?key ?P ?P' st (take_push True (log_env (demo_input ?P')) demo_take (Add (leaf [IntV 0])) st)"
    unfolding P' [symmetric]
    by (rule take_push_window [where key = ?key and constr = None, OF _ _ _ _ _ _ h])
      (use w P' in \<open>simp_all add: st_def demo_take_def key_from_row_def constraint_for_def demo_cmp del: compare_rows.simps\<close>)
  then show ?thesis using h by (auto simp: take_result_def)
qed

section \<open>Fetches\<close>

lemma initial_loop_eq:
  assumes "unat sz < unat limit"
  shows "initial_loop limit sz bnd out ns = (sz + of_nat (length (take (unat limit - unat sz) ns)),
    if ns = [] then bnd else Some (node_row (last (take (unat limit - unat sz) ns))), out @ take (unat limit - unat sz) ns)"
  using assms
proof (induction ns arbitrary: sz bnd out)
  case (Cons n ns)
  have sz': "unat (sz + 1) = Suc (unat sz)" using Cons.prems by (rule unat_incr)
  obtain k where k: "unat limit - unat sz = Suc k" "k = unat limit - unat (sz + 1)" using Cons.prems sz' by (cases "unat limit - unat sz") auto
  show ?case
  proof (cases "sz + 1 = limit")
    case True
    then have "k = 0" using k(2) by simp
    then show ?thesis using True k(1) by simp
  next
    case False
    then have lt: "unat (sz + 1) < unat limit" using sz' Cons.prems by (metis Suc_lessI word_unat_eq_iff)
    then have "k \<noteq> 0" using k(2) by simp
    then show ?thesis using Cons.IH [OF lt, of "Some (node_row n)" "out @ [n]"] False k
      by (simp add: Let_def add.assoc)
  qed
qed simp

lemma take_while_window:
  assumes "\<forall>x\<in>set V. \<exists>c. compare_rows srt b (node_row x) = Some c \<and> c \<noteq> Less" "\<forall>x\<in>set B. compare_rows srt b (node_row x) = Some Less"
  shows "take_while_nodes (\<lambda>n. map_option (\<lambda>c. c \<noteq> Less) (compare_rows srt b (node_row n))) (V @ B) = Some V"
  using assms(1)
proof (induction V)
  case Nil
  then show ?case using assms(2) by (cases B) auto
qed auto

lemma filter_nodes_all: "filter_nodes (\<lambda>n. Some True) ns = Some ns"
  by (induction ns) simp_all

text \<open>(C19) A forward fetch of one partition returns exactly the first \<open>limit\<close> rows of the input. If the partition is hydrated, its
  bound cuts the input there and the state is left alone; if it is not, the fetch hydrates it: afterwards the operator holds
  the window of the partition.\<close>

theorem take_fetch_window:
  assumes "sorted_by (node_cmp (tk_sort tk)) P" "set P \<subseteq> node_dom ty (tk_sort tk)" "f req = Some P"
    and "req_start req = None" "\<not> req_reverse req" "tk_limit tk \<noteq> 0" "os_hidden st = None" "max_ok ty (tk_sort tk) (os_storage st)"
    and "\<forall>pk. tk_partition_key tk = Some pk \<longrightarrow> (\<exists>cs. req_constraint req = Some cs \<and> constraint_matches_partition_key cs pk)"
    and "key = key_from_constraint tk (req_constraint req)"
    and "holds_window ty tk key P st \<or> storage_get key (os_storage st) = None"
  shows "\<exists>st'. take_fetch debug (log_env f) tk req st = Some (take (unat (tk_limit tk)) P, st') \<and> holds_window ty tk key P st' \<and>
    (holds_window ty tk key P st \<longrightarrow> st' = st)"
proof -
  let ?k = "unat (tk_limit tk)"
  have route: "(case tk_partition_key tk of None \<Rightarrow> True
      | Some pk \<Rightarrow> (case req_constraint req of None \<Rightarrow> False | Some c \<Rightarrow> constraint_matches_partition_key c pk))"
    using assms(9) by (auto split: option.split)
  have key: "key \<noteq> MAX_BOUND_KEY" using assms(10) take_key_not_max by (simp add: key_from_constraint_def split: option.split)
  have pos: "0 < ?k" using assms(6) by (simp add: unat_gt_0)
  show ?thesis
  proof (cases "storage_get key (os_storage st)")
    case None
    obtain mb where mb: "get_max_bound (log_env f) st = Some mb" "\<And>r. mb = Some r \<Longrightarrow> row_ok ty (tk_sort tk) r"
      using get_max_bound_ok [OF assms(8)] by blast
    define sz bnd where "sz = (of_nat (length (take ?k P)) :: 32 word)" and "bnd = (if P = [] then None else Some (node_row (last (take ?k P))))"
    have loop: "initial_loop (tk_limit tk) 0 None [] P = (sz, bnd, take ?k P)"
      using initial_loop_eq [of 0 "tk_limit tk" None "[]" P] pos by (simp add: sz_def bnd_def)
    have "length (take ?k P) < 2 ^ 32" using unsigned_less [of "tk_limit tk", where ?'a = nat] by simp
    then have sz: "unat sz = length (take ?k P)" by (simp add: sz_def unat_of_nat take_bit_nat_def)
    have ok: "take_ok ty (tk_sort tk) (tk_limit tk) P sz bnd"
    proof (cases "take ?k P" rule: rev_cases)
      case Nil
      then show ?thesis using pos by (simp add: take_ok_def sz_def bnd_def)
    next
      case (snoc X l)
      have P: "P = X @ l # drop ?k P" using append_take_drop_id [of ?k P] unfolding snoc by simp
      have sz': "unat sz = Suc (length X)" using sz unfolding snoc by simp
      have le: "unat sz \<le> ?k" unfolding sz by simp
      have full: "drop ?k P \<noteq> [] \<longrightarrow> sz = tk_limit tk" using sz by (auto simp: word_unat_eq_iff)
      have "bnd = Some (node_row l)" using snoc by (auto simp: bnd_def)
      then show ?thesis using window_of(1) [OF P sz' le full assms(2)] by simp
    qed
    have "row_ok ty (tk_sort tk) b" if "bnd = Some b" for b using ok that by (simp add: take_ok_def)
    from set_state_ok [where f = f and sz = sz, OF key this mb(2) assms(8)]
    obtain m where m: "set_state (log_env f) tk key sz bnd mb st = Some (st \<lparr> os_storage := m \<rparr>)"
      "storage_get key m = Some (TakeState sz bnd)" "max_ok ty (tk_sort tk) m" by blast
    have "take_fetch debug (log_env f) tk req st = Some (take ?k P, st \<lparr> os_storage := m \<rparr>)"
      using route None assms(3-6,10) loop mb(1) m(1)
      by (simp add: take_fetch_def initial_fetch_def get_state_def debug_check_def)
    then show ?thesis using m(2,3) ok None by (auto simp: holds_window_def)
  next
    case (Some v)
    then have h: "holds_window ty tk key P st" using assms(11) by simp
    then obtain sz bnd where w: "storage_get key (os_storage st) = Some (TakeState sz bnd)" "take_ok ty (tk_sort tk) (tk_limit tk) P sz bnd"
      by (auto simp: holds_window_def)
    have st: "get_state (log_env f) key st = Some (Some (sz, bnd))" using w(1) by (simp add: get_state_def)
    show ?thesis
    proof (cases bnd)
      case None
      then show ?thesis using h w(2) st route assms(10) by (simp add: take_fetch_def take_ok_def)
    next
      case (Some b)
      obtain A b0 B where a: "P = A @ b0 # B" "unat sz = Suc (length A)" "row_ok ty (tk_sort tk) b"
        "compare_rows (tk_sort tk) (node_row b0) b = Some Equal" "unat sz \<le> ?k" "B \<noteq> [] \<longrightarrow> sz = tk_limit tk"
        using w(2) Some by (auto simp: take_ok_def)
      note parts = sorted_bound_cases [OF assms(1,2) a(1,3,4)]
      note sides = bound_sides [OF parts(1,3)]
      have ok: "row_ok ty (tk_sort tk) (node_row x)" if "x \<in> set P" for x using assms(2) that by auto
      have win: "take ?k P = A @ [b0]" by (rule take_ok_window [OF a(1,2,5,6)])
      have "take_while_nodes (\<lambda>n. map_option (\<lambda>c. c \<noteq> Less) (compare_rows (tk_sort tk) b (node_row n))) ((A @ [b0]) @ B) = Some (A @ [b0])"
      proof (rule take_while_window)
        show "\<forall>x\<in>set (A @ [b0]). \<exists>c. compare_rows (tk_sort tk) b (node_row x) = Some c \<and> c \<noteq> Less"
        proof
          fix x assume x: "x \<in> set (A @ [b0])"
          then have "compare_rows (tk_sort tk) (node_row x) b \<noteq> Some Greater" using sides(1) a(4) by auto
          then show "\<exists>c. compare_rows (tk_sort tk) b (node_row x) = Some c \<and> c \<noteq> Less"
            using row_order.cmp_gt_iff [of "node_row x" ty "tk_sort tk" b] row_order.cmp_total [of b ty "tk_sort tk" "node_row x"] ok [of x] x a(1,3)
            by auto
        qed
        show "\<forall>x\<in>set B. compare_rows (tk_sort tk) b (node_row x) = Some Less"
          using sides(2) row_order.cmp_gt_iff [of _ ty "tk_sort tk" b] ok a(1,3) by auto
      qed
      then show ?thesis using h st route assms(3,7,10) Some a(1) win by (simp add: take_fetch_def filter_nodes_all)
    qed
  qed
qed

theorem take_fetch_window_witness:
  "\<exists>st'. take_fetch True (log_env (demo_input (map (\<lambda>i. leaf [IntV i]) [1, 2, 3]))) demo_take
       \<lparr> req_constraint = None, multi_constraints = [], req_start = None, req_reverse = False \<rparr>
       \<lparr> os_storage = storage_new, os_hidden = None, os_log = [] \<rparr> = Some ([leaf [IntV 1], leaf [IntV 2]], st') \<and>
     holds_window (\<lambda>_. KNum) demo_take (encode_state_key take_prefix []) (map (\<lambda>i. leaf [IntV i]) [1, 2, 3]) st'"
proof -
  let ?P = "map (\<lambda>i. leaf [IntV i]) [1, 2, 3]" and ?req = "\<lparr> req_constraint = None, multi_constraints = [], req_start = None, req_reverse = False \<rparr>"
  have "\<exists>st'. take_fetch True (log_env (demo_input ?P)) demo_take ?req \<lparr> os_storage = storage_new, os_hidden = None, os_log = [] \<rparr> =
      Some (take (unat (tk_limit demo_take)) ?P, st') \<and> holds_window (\<lambda>_. KNum) demo_take (encode_state_key take_prefix []) ?P st' \<and>
      (holds_window (\<lambda>_. KNum) demo_take (encode_state_key take_prefix []) ?P \<lparr> os_storage = storage_new, os_hidden = None, os_log = [] \<rparr> \<longrightarrow>
        st' = \<lparr> os_storage = storage_new, os_hidden = None, os_log = [] \<rparr>)"
    by (rule take_fetch_window)
      (simp_all add: demo_take_def demo_input_def demo_cmp admits_start_def scan_dir_def max_ok_def storage_get_new key_from_constraint_def del: compare_rows.simps)
  then show ?thesis by (auto simp: demo_take_def)
qed

end
