(* ===== verification/Op_Skip.thy ===== *)
theory Op_Skip
  imports Op_Take Window
begin

text \<open>
  The start-bound operator \<open>Skip\<close> (\<open>rust/src/op/skip.rs\<close>): it drops the rows before a bound. A fetch merges the
  bound with the start of the request and hands the result to the input; a push is gated by the bound, and an
  edit that crosses it becomes a removal or an addition. The sort of the input (\<open>Graph::input_sort\<close>) is an argument.
\<close>

record skip_op =
  sk_bound :: start_bound

definition should_be_present :: "skip_op \<Rightarrow> sort \<Rightarrow> row \<Rightarrow> bool option" where
  "should_be_present sk srt r =
     map_option (\<lambda>c. case c of Less \<Rightarrow> True | Equal \<Rightarrow> start_basis (sk_bound sk) = At | Greater \<Rightarrow> False)
       (compare_rows srt (start_row (sk_bound sk)) r)"

datatype resolved = ResolvedEmpty | ResolvedUse "start_bound option"

definition get_start :: "skip_op \<Rightarrow> sort \<Rightarrow> fetch_request \<Rightarrow> resolved option" where
  "get_start sk srt req =
     (let exclusive = (start_basis (sk_bound sk) = After); after_bound = \<lparr> start_row = start_row (sk_bound sk), start_basis = After \<rparr>
      in case req_start req of
        None \<Rightarrow> Some (if req_reverse req then ResolvedUse None else ResolvedUse (Some (sk_bound sk)))
      | Some rs \<Rightarrow> do {
          c \<leftarrow> compare_rows srt (start_row (sk_bound sk)) (start_row rs);
          Some (if \<not> req_reverse req then (case c of
              Greater \<Rightarrow> ResolvedUse (Some (sk_bound sk))
            | Equal \<Rightarrow> if exclusive \<or> start_basis rs = After then ResolvedUse (Some after_bound) else ResolvedUse (Some (sk_bound sk))
            | Less \<Rightarrow> ResolvedUse (Some rs))
          else (case c of
              Greater \<Rightarrow> ResolvedEmpty
            | Equal \<Rightarrow> if \<not> exclusive \<and> start_basis rs = At then ResolvedUse (Some (sk_bound sk)) else ResolvedEmpty
            | Less \<Rightarrow> ResolvedUse (Some rs)))
        })"

definition skip_fetch :: "'s graph_env \<Rightarrow> skip_op \<Rightarrow> sort \<Rightarrow> fetch_request \<Rightarrow> 's \<Rightarrow> (node list \<times> 's) option" where
  "skip_fetch env sk srt req st = do {
     start \<leftarrow> get_start sk srt req;
     case start of
       ResolvedEmpty \<Rightarrow> Some ([], st)
     | ResolvedUse s \<Rightarrow> do {
         (ns, st1) \<leftarrow> g_fetch env (req \<lparr> req_start := s \<rparr>) st;
         if req_reverse req then do {
           ns1 \<leftarrow> take_while_nodes (\<lambda>n. should_be_present sk srt (node_row n)) ns;
           Some (ns1, st1)
         }
         else Some (ns, st1)
       }
   }"

definition skip_push :: "'s graph_env \<Rightarrow> skip_op \<Rightarrow> sort \<Rightarrow> change \<Rightarrow> 's \<Rightarrow> 's option" where
  "skip_push env sk srt c st = (case c of
       Edit n old \<Rightarrow> do {
         was \<leftarrow> should_be_present sk srt (node_row old);
         stays \<leftarrow> should_be_present sk srt (node_row n);
         if was \<and> stays then g_push env (Edit n old) st
         else if was then g_push env (Remove old) st
         else if stays then g_push env (Add n) st
         else Some st
       }
     | _ \<Rightarrow> do {
         b \<leftarrow> should_be_present sk srt (primary_row c);
         if b then g_push env c st else Some st
       })"

end
