(* ===== verification/Skip_Window.thy ===== *)
theory Skip_Window
  imports Op_Skip Take_Edit
begin

text \<open>
  \<open>Skip\<close> serves exactly the rows at or after its bound, for every request it is sent, and forwards exactly the changes
  of those rows; so a \<open>Take\<close> above it keeps the window of the rows past the bound.
\<close>

section \<open>Ordered inputs\<close>

text \<open>An input serves a list of nodes when every request gets the nodes its start bound admits, in the direction it asks for.\<close>

definition serves :: "(col_id \<Rightarrow> kind) \<Rightarrow> sort \<Rightarrow> row_constraint option \<Rightarrow> (fetch_request \<Rightarrow> node list option) \<Rightarrow> node list \<Rightarrow> bool" where
  "serves ty srt constr f P \<longleftrightarrow> sorted_by (node_cmp srt) P \<and> set P \<subseteq> node_dom ty srt \<and>
     (\<forall>req. req_constraint req = constr \<longrightarrow> multi_constraints req = [] \<longrightarrow>
        (\<forall>s. req_start req = Some s \<longrightarrow> row_ok ty srt (start_row s)) \<longrightarrow>
        f req = Some (filter (admits_start srt req) (scan_dir (req_reverse req) P)))"

lemma serves_window: "serves ty srt constr f P \<Longrightarrow> input_window f ty srt constr P"
  by (auto simp: serves_def input_window_def)

text \<open>The rows past the bound.\<close>

definition present :: "skip_op \<Rightarrow> sort \<Rightarrow> node \<Rightarrow> bool" where
  "present sk srt n \<longleftrightarrow> should_be_present sk srt (node_row n) = Some True"

lemma present_iff:
  assumes "row_ok ty srt (start_row (sk_bound sk))" "row_ok ty srt (node_row n)"
  shows "should_be_present sk srt (node_row n) = Some (present sk srt n)"
    "present sk srt n \<longleftrightarrow> (if start_basis (sk_bound sk) = At then compare_rows srt (node_row n) (start_row (sk_bound sk)) \<noteq> Some Less
       else compare_rows srt (node_row n) (start_row (sk_bound sk)) = Some Greater)"
proof -
  consider "compare_rows srt (node_row n) (start_row (sk_bound sk)) = Some Less" "compare_rows srt (start_row (sk_bound sk)) (node_row n) = Some Greater"
    | "compare_rows srt (node_row n) (start_row (sk_bound sk)) = Some Equal" "compare_rows srt (start_row (sk_bound sk)) (node_row n) = Some Equal"
    | "compare_rows srt (node_row n) (start_row (sk_bound sk)) = Some Greater" "compare_rows srt (start_row (sk_bound sk)) (node_row n) = Some Less"
    using row_order.cmp_cases [of "node_row n" ty srt "start_row (sk_bound sk)"] assms by blast
  then have "should_be_present sk srt (node_row n) = Some (present sk srt n) \<and>
    (present sk srt n \<longleftrightarrow> (if start_basis (sk_bound sk) = At then compare_rows srt (node_row n) (start_row (sk_bound sk)) \<noteq> Some Less
       else compare_rows srt (node_row n) (start_row (sk_bound sk)) = Some Greater))"
    by cases (cases "start_basis (sk_bound sk)"; simp add: present_def should_be_present_def)+
  then show "should_be_present sk srt (node_row n) = Some (present sk srt n)"
    "present sk srt n \<longleftrightarrow> (if start_basis (sk_bound sk) = At then compare_rows srt (node_row n) (start_row (sk_bound sk)) \<noteq> Some Less
       else compare_rows srt (node_row n) (start_row (sk_bound sk)) = Some Greater)" by blast+
qed

text \<open>How two bounds compare decides which of them matters.\<close>

lemma bounds_order:
  assumes "row_ok ty srt r" "row_ok ty srt b" "row_ok ty srt s"
  shows "compare_rows srt b s = Some Less \<Longrightarrow> compare_rows srt r s \<noteq> Some Less \<Longrightarrow> compare_rows srt r b = Some Greater"
    "compare_rows srt b s = Some Greater \<Longrightarrow> compare_rows srt r b \<noteq> Some Less \<Longrightarrow> compare_rows srt r s = Some Greater"
    "compare_rows srt b s = Some Equal \<Longrightarrow> compare_rows srt r b = compare_rows srt r s"
proof -
  have gt: "compare_rows srt y x = Some Less \<Longrightarrow> compare_rows srt r x \<noteq> Some Less \<Longrightarrow> compare_rows srt r y = Some Greater"
    if "row_ok ty srt x" "row_ok ty srt y" for x y
    using row_order.cmp_less_le_trans [of y ty srt x r] row_order.cmp_gt_iff [of x ty srt r] row_order.cmp_gt_iff [of r ty srt y] that assms by simp
  show "compare_rows srt b s = Some Less \<Longrightarrow> compare_rows srt r s \<noteq> Some Less \<Longrightarrow> compare_rows srt r b = Some Greater"
    using gt [of s b] assms by simp
  show "compare_rows srt b s = Some Greater \<Longrightarrow> compare_rows srt r b \<noteq> Some Less \<Longrightarrow> compare_rows srt r s = Some Greater"
    using gt [of b s] row_order.cmp_gt_iff [of b ty srt s] assms by simp
  show "compare_rows srt b s = Some Equal \<Longrightarrow> compare_rows srt r b = compare_rows srt r s"
    using row_order.cmp_eq_cong_right [of b ty srt s r] assms by simp
qed

lemma admits_cases:
  assumes "row_ok ty srt (node_row n)" "row_ok ty srt (start_row s)" "req_start req = Some s"
  shows "admits_start srt req n \<longleftrightarrow> (if req_reverse req
      then if start_basis s = At then compare_rows srt (node_row n) (start_row s) \<noteq> Some Greater else compare_rows srt (node_row n) (start_row s) = Some Less
      else if start_basis s = At then compare_rows srt (node_row n) (start_row s) \<noteq> Some Less else compare_rows srt (node_row n) (start_row s) = Some Greater)"
proof -
  obtain r b where s: "s = \<lparr> start_row = r, start_basis = b \<rparr>" by (cases s)
  show ?thesis using reached_cases [OF assms(1), of r] assms(2,3) s
    by (cases b; cases "req_reverse req") (simp_all add: admits_start_def)
qed

text \<open>What \<open>get_start\<close> returns admits, together with the bound, what the request and the bound admit.\<close>

lemma get_start_admits:
  assumes b: "row_ok ty srt (start_row (sk_bound sk))" and s: "\<forall>s. req_start req = Some s \<longrightarrow> row_ok ty srt (start_row s)"
  obtains "get_start sk srt req = Some ResolvedEmpty" "\<forall>n\<in>node_dom ty srt. present sk srt n \<longrightarrow> \<not> admits_start srt req n"
  | s' where "get_start sk srt req = Some (ResolvedUse s')" "\<forall>x. s' = Some x \<longrightarrow> row_ok ty srt (start_row x)"
      "\<forall>n\<in>node_dom ty srt. admits_start srt (req \<lparr> req_start := s' \<rparr>) n \<and> present sk srt n \<longleftrightarrow> admits_start srt req n \<and> present sk srt n"
      "\<not> req_reverse req \<longrightarrow> (\<forall>n\<in>node_dom ty srt. admits_start srt (req \<lparr> req_start := s' \<rparr>) n \<longrightarrow> present sk srt n)"
proof (cases "req_start req")
  case None
  then show thesis
  proof (cases "req_reverse req")
    case True
    then show thesis using that(2) [of None] None by (simp add: get_start_def Let_def admits_start_def)
  next
    case False
    then show thesis using that(2) [of "Some (sk_bound sk)"] None b present_iff(2) [OF b] admits_cases [OF _ b, of _ "req \<lparr> req_start := Some (sk_bound sk) \<rparr>"]
      by (simp add: get_start_def Let_def admits_start_def)
  qed
next
  case (Some rs)
  have rs: "row_ok ty srt (start_row rs)" using s Some by simp
  note adm = admits_cases [OF _ rs Some] and pre = present_iff(2) [OF b] and ord = bounds_order [OF _ b rs]
  have adm': "admits_start srt (req \<lparr> req_start := Some x \<rparr>) n \<longleftrightarrow> (if req_reverse req
      then if start_basis x = At then compare_rows srt (node_row n) (start_row x) \<noteq> Some Greater else compare_rows srt (node_row n) (start_row x) = Some Less
      else if start_basis x = At then compare_rows srt (node_row n) (start_row x) \<noteq> Some Less else compare_rows srt (node_row n) (start_row x) = Some Greater)"
    if "row_ok ty srt (node_row n)" "row_ok ty srt (start_row x)" for n x
    using admits_cases [OF that, of "req \<lparr> req_start := Some x \<rparr>"] by simp
  obtain c where c: "compare_rows srt (start_row (sk_bound sk)) (start_row rs) = Some c"
    using row_order.cmp_total [of "start_row (sk_bound sk)" ty srt "start_row rs"] b rs by auto
  consider (Less) "c = Less" | (Eq) "c = Equal" | (Gr) "c = Greater" by (cases c)
  then show thesis
  proof cases
    case Less
    have "get_start sk srt req = Some (ResolvedUse (Some rs))" using c Less Some by (simp add: get_start_def Let_def)
    moreover have "req \<lparr> req_start := Some rs \<rparr> = req" using Some by simp
    moreover have "present sk srt n" if "n \<in> node_dom ty srt" "\<not> req_reverse req" "admits_start srt req n" for n
      using that adm [of n] pre [of n] ord(1) [of "node_row n"] c Less by (auto split: if_splits)
    ultimately show thesis using that(2) [of "Some rs"] rs by auto
  next
    case Gr
    show thesis
    proof (cases "req_reverse req")
      case True
      have "\<not> admits_start srt req n" if "n \<in> node_dom ty srt" "present sk srt n" for n
        using that adm [of n] pre [of n] ord(2) [of "node_row n"] c Gr True by (auto split: if_splits)
      then show thesis using that(1) c Gr Some True by (simp add: get_start_def Let_def)
    next
      case False
      have "get_start sk srt req = Some (ResolvedUse (Some (sk_bound sk)))" using c Gr Some False by (simp add: get_start_def Let_def)
      moreover have "admits_start srt (req \<lparr> req_start := Some (sk_bound sk) \<rparr>) n = present sk srt n" if "n \<in> node_dom ty srt" for n
        using that adm' [of n "sk_bound sk"] pre [of n] b False by simp
      moreover have "admits_start srt req n" if "n \<in> node_dom ty srt" "present sk srt n" for n
        using that adm [of n] pre [of n] ord(2) [of "node_row n"] c Gr False by (auto split: if_splits)
      ultimately show thesis using that(2) [of "Some (sk_bound sk)"] b by auto
    qed
  next
    case Eq
    have same: "compare_rows srt (node_row n) (start_row (sk_bound sk)) = compare_rows srt (node_row n) (start_row rs)" if "n \<in> node_dom ty srt" for n
      using ord(3) [of "node_row n"] c Eq that by simp
    let ?after = "\<lparr> start_row = start_row (sk_bound sk), start_basis = After \<rparr>"
    let ?excl = "start_basis (sk_bound sk) = After \<or> start_basis rs = After"
    consider "\<not> req_reverse req" ?excl | "\<not> ?excl" | "req_reverse req" ?excl by blast
    then show thesis
    proof cases
      case 1
      have "get_start sk srt req = Some (ResolvedUse (Some ?after))" using c Eq Some 1 by (auto simp: get_start_def Let_def)
      moreover have "admits_start srt (req \<lparr> req_start := Some ?after \<rparr>) n \<longleftrightarrow> compare_rows srt (node_row n) (start_row rs) = Some Greater"
        if "n \<in> node_dom ty srt" for n using adm' [of n ?after] b 1(1) that same [OF that] by simp
      moreover have "compare_rows srt (node_row n) (start_row rs) = Some Greater \<longleftrightarrow> admits_start srt req n \<and> present sk srt n"
        if "n \<in> node_dom ty srt" for n
        using adm [of n] pre [of n] same [OF that] that 1 by (cases "start_basis rs"; cases "start_basis (sk_bound sk)") auto
      ultimately show thesis using that(2) [of "Some ?after"] b by auto
    next
      case 2
      then have at: "start_basis (sk_bound sk) = At" "start_basis rs = At" by (cases "start_basis rs"; cases "start_basis (sk_bound sk)"; simp)+
      have "get_start sk srt req = Some (ResolvedUse (Some (sk_bound sk)))" using c Eq Some at by (simp add: get_start_def Let_def)
      moreover have "admits_start srt (req \<lparr> req_start := Some (sk_bound sk) \<rparr>) n \<longleftrightarrow> admits_start srt req n" if "n \<in> node_dom ty srt" for n
        using adm' [of n "sk_bound sk"] adm [of n] same [OF that] that b at by simp
      moreover have "\<not> req_reverse req \<Longrightarrow> admits_start srt req n \<Longrightarrow> present sk srt n" if "n \<in> node_dom ty srt" for n
        using adm [of n] pre [of n] same [OF that] that at by simp
      ultimately show thesis using that(2) [of "Some (sk_bound sk)"] b by auto
    next
      case 3
      have "get_start sk srt req = Some ResolvedEmpty" using c Eq Some 3 by (auto simp: get_start_def Let_def)
      moreover have "\<not> admits_start srt req n" if "n \<in> node_dom ty srt" "present sk srt n" for n
        using adm [of n] pre [of n] same [OF that(1)] that 3 by (cases "start_basis rs"; cases "start_basis (sk_bound sk)") auto
      ultimately show thesis using that(1) by blast
    qed
  qed
qed

text \<open>Rows past the bound are at the end of a sorted list, so cutting a descending scan at the first other row is filtering it.\<close>

lemma take_while_descending:
  assumes "sorted_by (node_cmp srt) Q" "set Q \<subseteq> node_dom ty srt" "row_ok ty srt (start_row (sk_bound sk))"
  shows "take_while_nodes (\<lambda>n. should_be_present sk srt (node_row n)) (rev Q) = Some (filter (present sk srt) (rev Q))"
  using assms(1,2)
proof (induction Q rule: rev_induct)
  case (snoc x Q)
  have Q: "sorted_by (node_cmp srt) Q" "set Q \<subseteq> node_dom ty srt" "row_ok ty srt (node_row x)" "\<forall>y\<in>set Q. node_cmp srt y x = Some Less"
    using snoc.prems by (auto simp: sorted_by_append)
  have p: "should_be_present sk srt (node_row x) = Some (present sk srt x)" using present_iff(1) [OF assms(3) Q(3)] .
  show ?case
  proof (cases "present sk srt x")
    case True
    then show ?thesis using snoc.IH [OF Q(1,2)] p by simp
  next
    case False
    have "\<not> present sk srt y" if "y \<in> set Q" for y
    proof -
      have yok: "row_ok ty srt (node_row y)" "node_cmp srt y x = Some Less" using Q that by auto
      have "compare_rows srt (node_row y) (start_row (sk_bound sk)) = Some Less" if "compare_rows srt (node_row x) (start_row (sk_bound sk)) \<noteq> Some Greater"
        using row_order.cmp_less_le_trans [of "node_row y" ty srt "node_row x" "start_row (sk_bound sk)"] yok Q(3) assms(3) that by simp
      then show ?thesis using False present_iff(2) [OF assms(3) Q(3)] present_iff(2) [OF assms(3) yok(1)] by (auto split: if_splits)
    qed
    then show ?thesis using False p by (simp add: filter_empty_conv)
  qed
qed simp

lemma serves_past_bound:
  assumes "serves ty srt constr f P" "row_ok ty srt (start_row (sk_bound sk))"
  shows "serves ty srt constr (\<lambda>req. map_option fst (skip_fetch (log_env f) sk srt req st)) (filter (present sk srt) P)"
  unfolding serves_def
proof (intro conjI allI impI)
  have P: "sorted_by (node_cmp srt) P" "set P \<subseteq> node_dom ty srt" using assms(1) by (auto simp: serves_def)
  show "sorted_by (node_cmp srt) (filter (present sk srt) P)" using P(1) by (simp add: sorted_by_def sorted_wrt_filter)
  show "set (filter (present sk srt) P) \<subseteq> node_dom ty srt" using P(2) by auto
  fix req :: fetch_request
  assume r: "req_constraint req = constr" "multi_constraints req = []" "\<forall>s. req_start req = Some s \<longrightarrow> row_ok ty srt (start_row s)"
  have swap: "filter p (scan_dir v xs) = scan_dir v (filter p xs)" for p v and xs :: "node list" by (simp add: scan_dir_def rev_filter)
  show "map_option fst (skip_fetch (log_env f) sk srt req st) =
      Some (filter (admits_start srt req) (scan_dir (req_reverse req) (filter (present sk srt) P)))"
  proof (cases rule: get_start_admits [OF assms(2) r(3)])
    case 1
    then have "filter (admits_start srt req) (filter (present sk srt) P) = []" using P(2) by (auto simp: filter_empty_conv)
    then show ?thesis using 1(1) by (simp add: skip_fetch_def swap) (simp add: scan_dir_def)
  next
    case (2 s')
    have f: "f (req \<lparr> req_start := s' \<rparr>) = Some (scan_dir (req_reverse req) (filter (admits_start srt (req \<lparr> req_start := s' \<rparr>)) P))"
      using assms(1) r(1,2) 2(2) by (simp add: serves_def swap)
    let ?Q = "filter (admits_start srt (req \<lparr> req_start := s' \<rparr>)) P"
    have eq: "filter (present sk srt) ?Q = filter (admits_start srt req) (filter (present sk srt) P)"
      unfolding filter_filter using 2(3) P(2) by (intro filter_cong) auto
    show ?thesis
    proof (cases "req_reverse req")
      case True
      have "take_while_nodes (\<lambda>n. should_be_present sk srt (node_row n)) (rev ?Q) = Some (filter (present sk srt) (rev ?Q))"
        by (rule take_while_descending [OF _ _ assms(2)]) (use P in \<open>auto simp: sorted_by_def sorted_wrt_filter\<close>)
      then show ?thesis using 2(1) f True eq by (simp add: skip_fetch_def scan_dir_def swap rev_filter [symmetric])
    next
      case False
      have "filter (present sk srt) ?Q = ?Q" unfolding filter_filter using 2(4) False P(2) by (intro filter_cong) auto
      then show ?thesis using 2(1) f False eq by (simp add: skip_fetch_def scan_dir_def)
    qed
  qed
qed

text \<open>\<open>Skip\<close> as an input. If the input serves a list of rows, then \<open>Skip\<close> serves exactly those of them at or after its bound:
  every request, forward or reverse, with or without a start of its own before, at or after the bound, gets the rows that
  both bounds admit, in order.\<close>

theorem skip_serves:
  assumes "serves ty srt constr f P" "row_ok ty srt (start_row (sk_bound sk))"
  shows "serves ty srt constr (\<lambda>req. map_option fst (skip_fetch (log_env f) sk srt req st)) (filter (present sk srt) P)"
  by (rule serves_past_bound [OF assms])

theorem skip_serves_witness:
  "serves (\<lambda>_. KNum) [(0, True)] None
     (\<lambda>req. map_option fst (skip_fetch (log_env (demo_input (map (\<lambda>i. leaf [IntV i]) [1, 2, 3])))
        \<lparr> sk_bound = \<lparr> start_row = [IntV 2], start_basis = At \<rparr> \<rparr> [(0, True)] req \<lparr> os_storage = storage_new, os_hidden = None, os_log = [] \<rparr>))
     [leaf [IntV 2], leaf [IntV 3]]"
proof -
  let ?sk = "\<lparr> sk_bound = \<lparr> start_row = [IntV 2], start_basis = At \<rparr> \<rparr>" and ?P = "map (\<lambda>i. leaf [IntV i]) [1, 2, 3]"
  have "serves (\<lambda>_. KNum) [(0, True)] None (demo_input ?P) ?P"
    by (simp add: serves_def demo_input_def demo_cmp del: compare_rows.simps)
  moreover have "filter (present ?sk [(0, True)]) ?P = [leaf [IntV 2], leaf [IntV 3]]"
  proof -
    have "compare_rows [(0, True)] [IntV 2] [IntV 1] = Some Greater" by code_simp
    then show ?thesis by (simp add: present_def should_be_present_def demo_cmp del: compare_rows.simps)
  qed
  ultimately show ?thesis
    using skip_serves [of "\<lambda>_. KNum" "[(0, True)]" None "demo_input ?P" ?P ?sk "\<lparr> os_storage = storage_new, os_hidden = None, os_log = [] \<rparr>"] by simp
qed

section \<open>Pushes\<close>

text \<open>The change \<open>Skip\<close> forwards, if any.\<close>

fun forwarded :: "(node \<Rightarrow> bool) \<Rightarrow> change \<Rightarrow> change option" where
  "forwarded p (Add n) = (if p n then Some (Add n) else None)"
| "forwarded p (Remove n) = (if p n then Some (Remove n) else None)"
| "forwarded p (Edit n old) = (if p old \<and> p n then Some (Edit n old) else if p old then Some (Remove old) else if p n then Some (Add n) else None)"
| "forwarded p (Child n rel c) = (if p n then Some (Child n rel c) else None)"

fun change_dom :: "(col_id \<Rightarrow> kind) \<Rightarrow> sort \<Rightarrow> change \<Rightarrow> bool" where
  "change_dom ty srt (Edit n old) \<longleftrightarrow> row_ok ty srt (node_row n) \<and> row_ok ty srt (node_row old)"
| "change_dom ty srt c \<longleftrightarrow> row_ok ty srt (primary_row c)"

lemma skip_push_forwards:
  assumes "change_dom ty srt c" "row_ok ty srt (start_row (sk_bound sk))"
  shows "skip_push env sk srt c st = (case forwarded (present sk srt) c of None \<Rightarrow> Some st | Some c' \<Rightarrow> g_push env c' st)"
proof (cases c)
  case (Edit n old)
  then show ?thesis using assms present_iff(1) [OF assms(2), of n] present_iff(1) [OF assms(2), of old] by (simp add: skip_push_def)
qed (use assms present_iff(1) [OF assms(2)] in \<open>simp_all add: skip_push_def\<close>)

text \<open>A predicate on nodes that does not distinguish nodes that compare equal.\<close>

definition order_blind :: "(col_id \<Rightarrow> kind) \<Rightarrow> sort \<Rightarrow> (node \<Rightarrow> bool) \<Rightarrow> bool" where
  "order_blind ty srt p \<longleftrightarrow> (\<forall>x\<in>node_dom ty srt. \<forall>y\<in>node_dom ty srt. node_cmp srt x y = Some Equal \<longrightarrow> p x = p y)"

lemma present_blind: "row_ok ty srt (start_row (sk_bound sk)) \<Longrightarrow> order_blind ty srt (present sk srt)"
  unfolding order_blind_def
proof (intro ballI impI)
  fix x y assume b: "row_ok ty srt (start_row (sk_bound sk))" and xy: "x \<in> node_dom ty srt" "y \<in> node_dom ty srt" "node_cmp srt x y = Some Equal"
  then have "compare_rows srt (node_row x) (start_row (sk_bound sk)) = compare_rows srt (node_row y) (start_row (sk_bound sk))"
    using row_order.cmp_eq_cong [of "node_row x" ty srt "node_row y" "start_row (sk_bound sk)"] by simp
  then show "present sk srt x = present sk srt y" using present_iff(2) [OF b, of x] present_iff(2) [OF b, of y] xy by simp
qed

lemma filter_del:
  assumes "order_blind ty srt p" "sorted_by (node_cmp srt) P" "set P \<subseteq> node_dom ty srt" "d \<in> node_dom ty srt"
  shows "filter p (del_by (node_cmp srt) d P) = (if p d then del_by (node_cmp srt) d (filter p P) else filter p P)"
proof -
  have comm: "filter p (del_by (node_cmp srt) d P) = del_by (node_cmp srt) d (filter p P)"
    by (simp add: del_by_def below_def above_def conj_commute)
  have "del_by (node_cmp srt) d (filter p P) = filter p P" if "\<not> p d"
    by (rule node_order.del_by_id [of _ ty]) (use assms that in \<open>auto simp: order_blind_def sorted_by_def sorted_wrt_filter\<close>)
  then show ?thesis using comm by auto
qed

lemma filter_ins:
  assumes "sorted_by (node_cmp srt) P" "set P \<subseteq> node_dom ty srt" "n \<in> node_dom ty srt" "\<forall>x\<in>set P. node_cmp srt x n \<noteq> Some Equal"
  shows "filter p (ins_by (node_cmp srt) n P) = (if p n then ins_by (node_cmp srt) n (filter p P) else filter p P)"
proof -
  have "del_by (node_cmp srt) n P = P" using node_order.del_by_id [OF assms(2,1,3,4)] .
  then have "filter p P = filter p (below (node_cmp srt) n P) @ filter p (above (node_cmp srt) n P)"
    by (metis del_by_def filter_append)
  moreover have "filter p (below (node_cmp srt) n P) = below (node_cmp srt) n (filter p P)"
    "filter p (above (node_cmp srt) n P) = above (node_cmp srt) n (filter p P)" by (simp_all add: below_def above_def conj_commute)
  ultimately show ?thesis by (cases "p n") (simp_all only: ins_by_def filter_append filter.simps if_True if_False)
qed

lemma forwarded_fits:
  assumes p: "order_blind ty srt p" and P: "sorted_by (node_cmp srt) P" "set P \<subseteq> node_dom ty srt" and c: "push_fits ty srt c P"
  shows "case forwarded p c of None \<Rightarrow> filter p (after_change srt c P) = filter p P
    | Some c' \<Rightarrow> push_fits ty srt c' (filter p P) \<and> after_change srt c' (filter p P) = filter p (after_change srt c P)"
proof -
  have dom: "d \<in> node_dom ty srt" if "node_row d \<in> rows_of P" for d using P(2) that by auto
  have there: "node_row d \<in> rows_of (filter p P)" if m: "node_row d \<in> rows_of P" "p d" for d
  proof -
    obtain x where x: "x \<in> set P" "node_row x = node_row d" using m(1) by auto
    have "node_cmp srt x d = Some Equal" using row_order.cmp_refl [of "node_row d" ty srt] dom [OF m(1)] x(2) by simp
    moreover have "p x = p d" if "node_cmp srt x d = Some Equal"
      using bspec [OF bspec [OF p [unfolded order_blind_def] subsetD [OF P(2) x(1)]] dom [OF m(1)]] that by blast
    ultimately have "x \<in> set (filter p P)" using x(1) m(2) by simp
    then show ?thesis by (rule rev_image_eqI) (simp add: x(2))
  qed
  have del: "filter p (del_by (node_cmp srt) d P) = (if p d then del_by (node_cmp srt) d (filter p P) else filter p P)" if "node_row d \<in> rows_of P" for d
    by (rule filter_del [OF p P dom [OF that]])
  show ?thesis
  proof (cases c)
    case (Add n)
    then show ?thesis using c filter_ins [OF P, of n p] by simp
  next
    case (Remove d)
    then show ?thesis using c del [of d] there [of d] by simp
  next
    case (Edit n old)
    let ?Q = "del_by (node_cmp srt) old P"
    have e: "node_row old \<in> rows_of P" "row_ok ty srt (node_row n)" "\<forall>x\<in>set ?Q. node_cmp srt x n \<noteq> Some Equal" using c Edit by auto
    have Q: "sorted_by (node_cmp srt) ?Q" "set ?Q \<subseteq> node_dom ty srt"
      using after_change_ok [OF P, of "Remove old"] e(1) by simp_all
    have ins: "filter p (ins_by (node_cmp srt) n ?Q) = (if p n then ins_by (node_cmp srt) n (filter p ?Q) else filter p ?Q)"
      using filter_ins [OF Q, of n p] e(2,3) by simp
    have sub: "\<forall>x\<in>set (filter p ?Q). node_cmp srt x n \<noteq> Some Equal" using e(3) by auto
    show ?thesis using Edit ins sub del [OF e(1)] there [OF e(1)] e(2) by simp
  next
    case (Child n rel ch)
    then show ?thesis using c there [of n] by simp
  qed
qed

section \<open>Take over Skip\<close>

definition skip_take_env :: "bool \<Rightarrow> (fetch_request \<Rightarrow> node list option) \<Rightarrow> skip_op \<Rightarrow> take_op \<Rightarrow> op_state graph_env" where
  "skip_take_env debug f sk tk = (log_env f) \<lparr> g_push := (\<lambda>c st.
     take_push debug (log_env (\<lambda>req. map_option fst (skip_fetch (log_env f) sk (tk_sort tk) req st))) tk c st) \<rparr>"

text \<open>(C20) A limit over a start bound. A \<open>Take\<close> without partitions reads from a \<open>Skip\<close>, which reads from an input that serves \<open>P\<close>.
  After a change of the input, pushed through \<open>Skip\<close> into \<open>Take\<close> while the input already serves the new rows, \<open>Take\<close> holds the
  first \<open>limit\<close> of the new rows at or after the bound, and what came out turns the old page into the new one.\<close>

theorem skip_take_window:
  assumes "sorted_by (node_cmp (tk_sort tk)) P" "set P \<subseteq> node_dom ty (tk_sort tk)" "push_fits ty (tk_sort tk) c P"
    and "change_dom ty (tk_sort tk) c" "row_ok ty (tk_sort tk) (start_row (sk_bound sk))"
    and "tk_partition_key tk = None" "tk_limit tk \<noteq> 0" "key = encode_state_key take_prefix []"
    and "holds_window ty tk key (filter (present sk (tk_sort tk)) P) st" "os_hidden st = None"
    and "serves ty (tk_sort tk) None f (after_change (tk_sort tk) c P)"
  shows "take_result ty tk key (filter (present sk (tk_sort tk)) P) (filter (present sk (tk_sort tk)) (after_change (tk_sort tk) c P)) st
    (skip_push (skip_take_env debug f sk tk) sk (tk_sort tk) c st)"
proof -
  let ?p = "present sk (tk_sort tk)" and ?s = "tk_sort tk"
  let ?f = "\<lambda>req. map_option fst (skip_fetch (log_env f) sk ?s req st)"
  note fits = forwarded_fits [OF present_blind [OF assms(5)] assms(1-3)]
  have run: "skip_push (skip_take_env debug f sk tk) sk ?s c st = (case forwarded ?p c of None \<Rightarrow> Some st | Some c' \<Rightarrow> take_push debug (log_env ?f) tk c' st)"
    unfolding skip_push_forwards [OF assms(4,5)] by (simp add: skip_take_env_def split: option.split)
  have FP: "sorted_by (node_cmp ?s) (filter ?p P)" "set (filter ?p P) \<subseteq> node_dom ty ?s"
    using assms(1,2) by (auto simp: sorted_by_def sorted_wrt_filter)
  show ?thesis
  proof (cases "forwarded ?p c")
    case None
    then show ?thesis using fits run assms(9,10) by (auto intro!: result_unchanged)
  next
    case (Some c')
    have c': "push_fits ty ?s c' (filter ?p P)" "after_change ?s c' (filter ?p P) = filter ?p (after_change ?s c P)" using fits Some by simp_all
    have w: "input_window ?f ty ?s None (after_change ?s c' (filter ?p P))"
      unfolding c'(2) by (rule serves_window [OF serves_past_bound [OF assms(11,5)]])
    have "take_result ty tk key (filter ?p P) (after_change ?s c' (filter ?p P)) st (take_push debug (log_env ?f) tk c' st)"
      by (rule take_push_result [OF FP c'(1) _ _ assms(7,9,10) w]) (simp_all add: key_from_row_def constraint_for_def assms(6,8))
    then show ?thesis using run Some c'(2) by simp
  qed
qed

theorem skip_take_window_witness:
  "\<exists>st st'. holds_window (\<lambda>_. KNum) demo_take (encode_state_key take_prefix []) [leaf [IntV 2], leaf [IntV 3]] st \<and>
     skip_push (skip_take_env True (demo_input [leaf [IntV 1], leaf [IntV 3]]) \<lparr> sk_bound = \<lparr> start_row = [IntV 2], start_basis = At \<rparr> \<rparr> demo_take)
       \<lparr> sk_bound = \<lparr> start_row = [IntV 2], start_basis = At \<rparr> \<rparr> [(0, True)] (Remove (leaf [IntV 2])) st = Some st' \<and>
     holds_window (\<lambda>_. KNum) demo_take (encode_state_key take_prefix []) [leaf [IntV 3]] st'"
proof -
  let ?sk = "\<lparr> sk_bound = \<lparr> start_row = [IntV 2], start_basis = At \<rparr> \<rparr>" and ?P = "[leaf [IntV 1], leaf [IntV 2], leaf [IntV 3]]"
  let ?key = "encode_state_key take_prefix []" and ?srt = "[(0 :: nat, True)]"
  define st where "st = \<lparr> os_storage = storage_set ?key (TakeState 2 (Some [IntV 3])) storage_new, os_hidden = None, os_log = [] \<rparr>"
  have cmp: "compare_rows ?srt [IntV 2] [IntV 1] = Some Greater" "compare_rows ?srt [IntV 3] [IntV 2] = Some Greater"
    "compare_rows ?srt [IntV 3] [IntV 3] = Some Equal" by code_simp+
  note ev = demo_cmp cmp
  have tk: "tk_sort demo_take = ?srt" "tk_limit demo_take = 2" "tk_partition_key demo_take = None" by (simp_all add: demo_take_def)
  have P': "after_change ?srt (Remove (leaf [IntV 2])) ?P = [leaf [IntV 1], leaf [IntV 3]]"
    by (simp add: del_by_def ev del: compare_rows.simps)
  have F: "filter (present ?sk ?srt) ?P = [leaf [IntV 2], leaf [IntV 3]]" "filter (present ?sk ?srt) [leaf [IntV 1], leaf [IntV 3]] = [leaf [IntV 3]]"
    by (simp_all add: present_def should_be_present_def ev del: compare_rows.simps)
  have "take_ok (\<lambda>_. KNum) ?srt 2 [leaf [IntV 2], leaf [IntV 3]] 2 (Some [IntV 3])"
    by (rule take_okI [of _ "[leaf [IntV 2]]" "leaf [IntV 3]" "[]"]) (simp_all add: ev del: compare_rows.simps)
  then have h: "holds_window (\<lambda>_. KNum) demo_take ?key [leaf [IntV 2], leaf [IntV 3]] st"
    using take_key_not_max [of "[]"] by (simp add: holds_window_def st_def tk mem_store.get_put max_ok_def storage_get_new)
  have "take_result (\<lambda>_. KNum) demo_take ?key (filter (present ?sk ?srt) ?P) (filter (present ?sk ?srt) [leaf [IntV 1], leaf [IntV 3]]) st
      (skip_push (skip_take_env True (demo_input [leaf [IntV 1], leaf [IntV 3]]) ?sk demo_take) ?sk ?srt (Remove (leaf [IntV 2])) st)"
    using skip_take_window [where tk = demo_take and P = ?P and c = "Remove (leaf [IntV 2])" and ty = "\<lambda>_. KNum" and sk = ?sk and key = ?key
        and st = st and f = "demo_input [leaf [IntV 1], leaf [IntV 3]]" and debug = True] h
    unfolding tk P' F by (simp add: ev st_def serves_def demo_input_def del: compare_rows.simps)
  then show ?thesis unfolding F using h by (auto simp: take_result_def vacated_def tk)
qed

end
