(* ===== verification/Op_Cap.thy ===== *)
theory Op_Cap
  imports Op_Take
begin

text \<open>
  The unordered limiter \<open>Cap\<close> (\<open>rust/src/op/cap.rs\<close>): up to \<open>limit\<close> rows of a partition, tracked by the text of their
  primary keys instead of a bound. It serves the \<open>EXISTS\<close> gates, which only count.
\<close>

record cap_op =
  cp_limit :: "32 word"
  cp_partition_key :: "col_id list option"
  cp_primary_key :: "col_id list"

definition cap_prefix :: "byte list" where
  "cap_prefix = [99, 97, 112]"

section \<open>State\<close>

definition cap_get_state :: "'s graph_env \<Rightarrow> byte list \<Rightarrow> 's \<Rightarrow> (32 word \<times> byte list list) option option" where
  "cap_get_state env key st = (case storage_get key (g_storage env st) of
       None \<Rightarrow> Some None
     | Some (CapState sz pks) \<Rightarrow> Some (Some (sz, pks))
     | Some _ \<Rightarrow> None)"

definition cap_set_state :: "'s graph_env \<Rightarrow> byte list \<Rightarrow> 32 word \<Rightarrow> byte list list \<Rightarrow> 's \<Rightarrow> 's" where
  "cap_set_state env key sz pks st = g_put_storage env (storage_set key (CapState sz pks) (g_storage env st)) st"

definition cap_key_from_row :: "cap_op \<Rightarrow> row \<Rightarrow> byte list option" where
  "cap_key_from_row cp r = (case cp_partition_key cp of
       None \<Rightarrow> Some (encode_state_key cap_prefix [])
     | Some pk \<Rightarrow> map_option (encode_state_key cap_prefix) (cells_of r pk))"

definition cap_key_from_constraint :: "cap_op \<Rightarrow> row_constraint option \<Rightarrow> byte list" where
  "cap_key_from_constraint cp c = (case (cp_partition_key cp, c) of
       (Some pk, Some c) \<Rightarrow> encode_state_key cap_prefix (map (\<lambda>col. case map_of c col of Some v \<Rightarrow> v | None \<Rightarrow> Null) pk)
     | _ \<Rightarrow> encode_state_key cap_prefix [])"

definition cap_constraint_for :: "cap_op \<Rightarrow> row \<Rightarrow> row_constraint option option" where
  "cap_constraint_for cp r = (case cp_partition_key cp of
       None \<Rightarrow> Some None
     | Some pk \<Rightarrow> map_option (\<lambda>vs. Some (zip pk vs)) (cells_of r pk))"

definition cap_evict_partition :: "'s graph_env \<Rightarrow> cap_op \<Rightarrow> row_constraint \<Rightarrow> 's \<Rightarrow> 's" where
  "cap_evict_partition env cp c st = (case cp_partition_key cp of
       None \<Rightarrow> st
     | Some pk \<Rightarrow> if constraint_matches_partition_key c pk
         then g_put_storage env (storage_del (cap_key_from_constraint cp (Some c)) (g_storage env st)) st else st)"

section \<open>Fetch\<close>

fun cap_initial_loop :: "32 word \<Rightarrow> col_id list \<Rightarrow> 32 word \<Rightarrow> byte list list \<Rightarrow> node list \<Rightarrow> node list \<Rightarrow> (32 word \<times> byte list list \<times> node list) option" where
  "cap_initial_loop limit pk sz pks out [] = Some (sz, pks, out)"
| "cap_initial_loop limit pk sz pks out (n # ns) = do {
     t \<leftarrow> serialize_pk (node_row n) pk;
     let sz' = sz + 1;
     if sz' = limit then Some (sz', pks @ [t], out @ [n])
     else cap_initial_loop limit pk sz' (pks @ [t]) (out @ [n]) ns
   }"

definition cap_initial_fetch :: "bool \<Rightarrow> 's graph_env \<Rightarrow> cap_op \<Rightarrow> fetch_request \<Rightarrow> 's \<Rightarrow> (node list \<times> 's) option" where
  "cap_initial_fetch debug env cp req st =
     (if cp_limit cp = 0 then Some ([], st)
      else do {
        let key = cap_key_from_constraint cp (req_constraint req);
        debug_check debug (map_option (\<lambda>x. x = None) (cap_get_state env key st));
        (ns, st1) \<leftarrow> g_fetch env req st;
        (sz, pks, out) \<leftarrow> cap_initial_loop (cp_limit cp) (cp_primary_key cp) 0 [] [] ns;
        Some (out, cap_set_state env key sz pks st1)
      })"

text \<open>The point lookups of the tracked keys.\<close>

fun cap_lookups :: "'s graph_env \<Rightarrow> col_id list \<Rightarrow> byte list list \<Rightarrow> 's \<Rightarrow> (node list \<times> 's) option" where
  "cap_lookups env pk [] st = Some ([], st)"
| "cap_lookups env pk (t # ts) st = do {
     c \<leftarrow> deserialize_pk t pk;
     (ns, st1) \<leftarrow> g_fetch env (fetch_with_constraint c) st;
     (rest, st2) \<leftarrow> cap_lookups env pk ts st1;
     Some (ns @ rest, st2)
   }"

definition cap_fetch :: "bool \<Rightarrow> 's graph_env \<Rightarrow> cap_op \<Rightarrow> fetch_request \<Rightarrow> 's \<Rightarrow> (node list \<times> 's) option" where
  "cap_fetch debug env cp req st =
     (if req_start req \<noteq> None \<or> req_reverse req then None
      else do {
        debug_check debug (Some (case cp_partition_key cp of None \<Rightarrow> True
          | Some pk \<Rightarrow> (case req_constraint req of None \<Rightarrow> False | Some c \<Rightarrow> constraint_matches_partition_key c pk)));
        state \<leftarrow> cap_get_state env (cap_key_from_constraint cp (req_constraint req)) st;
        case state of
          None \<Rightarrow> cap_initial_fetch debug env cp req st
        | Some (sz, pks) \<Rightarrow> if sz = 0 then Some ([], st) else cap_lookups env (cp_primary_key cp) pks st
      })"

section \<open>Push\<close>

fun find_untracked :: "col_id list \<Rightarrow> byte list list \<Rightarrow> node list \<Rightarrow> node option option" where
  "find_untracked pk pks [] = Some None"
| "find_untracked pk pks (n # ns) = do {
     t \<leftarrow> serialize_pk (node_row n) pk;
     if t \<notin> set pks then Some (Some n) else find_untracked pk pks ns
   }"

definition cap_push_remove ::
  "'s graph_env \<Rightarrow> cap_op \<Rightarrow> node \<Rightarrow> byte list \<Rightarrow> 32 word \<Rightarrow> byte list list \<Rightarrow> byte list \<Rightarrow> 's \<Rightarrow> 's option" where
  "cap_push_remove env cp n key sz pks t st =
     (if t \<notin> set pks then Some st
      else do {
        let pks1 = remove1 t pks;
        let new_size = sz - 1;
        constr \<leftarrow> cap_constraint_for cp (node_row n);
        (ns, st1) \<leftarrow> g_fetch env \<lparr> req_constraint = constr, multi_constraints = [], req_start = None, req_reverse = False \<rparr> st;
        replacement \<leftarrow> find_untracked (cp_primary_key cp) pks1 ns;
        case replacement of
          Some repl \<Rightarrow> do {
            st2 \<leftarrow> g_push env (Remove n) (cap_set_state env key new_size pks1 st1);
            rt \<leftarrow> serialize_pk (node_row repl) (cp_primary_key cp);
            g_push env (Add repl) (cap_set_state env key (new_size + 1) (pks1 @ [rt]) st2)
          }
        | None \<Rightarrow> g_push env (Remove n) (cap_set_state env key new_size pks1 st1)
      })"

definition cap_push_edit :: "bool \<Rightarrow> 's graph_env \<Rightarrow> cap_op \<Rightarrow> node \<Rightarrow> node \<Rightarrow> 's \<Rightarrow> 's option" where
  "cap_push_edit debug env cp n old st = do {
     (case cp_partition_key cp of None \<Rightarrow> Some ()
      | Some pk \<Rightarrow> debug_check debug (partition_key_unchanged (node_row old) (node_row n) pk));
     key \<leftarrow> cap_key_from_row cp (node_row old);
     state \<leftarrow> cap_get_state env key st;
     case state of
       None \<Rightarrow> Some st
     | Some (sz, pks) \<Rightarrow> do {
         old_pk \<leftarrow> serialize_pk (node_row old) (cp_primary_key cp);
         if old_pk \<in> set pks then do {
           new_pk \<leftarrow> serialize_pk (node_row n) (cp_primary_key cp);
           let st1 = (if new_pk \<noteq> old_pk then cap_set_state env key sz (map (\<lambda>p. if p = old_pk then new_pk else p) pks) st else st);
           g_push env (Edit n old) st1
         }
         else Some st
       }
   }"

definition cap_push :: "bool \<Rightarrow> 's graph_env \<Rightarrow> cap_op \<Rightarrow> change \<Rightarrow> 's \<Rightarrow> 's option" where
  "cap_push debug env cp c st = (case c of
       Edit n old \<Rightarrow> cap_push_edit debug env cp n old st
     | _ \<Rightarrow> do {
         key \<leftarrow> cap_key_from_row cp (primary_row c);
         state \<leftarrow> cap_get_state env key st;
         case state of
           None \<Rightarrow> Some st
         | Some (sz, pks) \<Rightarrow> do {
             t \<leftarrow> serialize_pk (primary_row c) (cp_primary_key cp);
             case c of
               Add n \<Rightarrow> if sz < cp_limit cp then g_push env (Add n) (cap_set_state env key (sz + 1) (pks @ [t]) st) else Some st
             | Remove n \<Rightarrow> cap_push_remove env cp n key sz pks t st
             | Child n rel ch \<Rightarrow> if t \<in> set pks then g_push env c st else Some st
             | Edit n old \<Rightarrow> None
           }
       })"

end
