(* ===== verification/Cap_Window.thy ===== *)
theory Cap_Window
  imports Op_Cap Take_Edit
begin

text \<open>
  \<open>Cap\<close> tracks as many rows of a partition as it may: after every push the tracked keys are distinct keys of rows of the
  partition, \<open>min limit\<close> (rows of the partition) of them, and what it emits turns the rows tracked before into the rows
  tracked after. Two rows are the same to \<open>Cap\<close> when their primary keys have the same text.
\<close>

section \<open>Tracked rows\<close>

abbreviation pk_text :: "cap_op \<Rightarrow> node \<Rightarrow> byte list" where
  "pk_text cp n \<equiv> the (serialize_pk (node_row n) (cp_primary_key cp))"

definition keyed :: "cap_op \<Rightarrow> node list \<Rightarrow> bool" where
  "keyed cp P \<longleftrightarrow> (\<forall>n\<in>set P. serialize_pk (node_row n) (cp_primary_key cp) \<noteq> None) \<and> distinct (map (pk_text cp) P)"

definition cap_ok :: "cap_op \<Rightarrow> node list \<Rightarrow> 32 word \<Rightarrow> byte list list \<Rightarrow> bool" where
  "cap_ok cp P sz pks \<longleftrightarrow> unat sz = length pks \<and> distinct pks \<and> set pks \<subseteq> pk_text cp ` set P \<and> length pks = min (unat (cp_limit cp)) (length P)"

definition tracks :: "cap_op \<Rightarrow> byte list \<Rightarrow> node list \<Rightarrow> byte list list \<Rightarrow> op_state \<Rightarrow> bool" where
  "tracks cp key P pks st \<longleftrightarrow> (\<exists>sz. storage_get key (os_storage st) = Some (CapState sz pks) \<and> cap_ok cp P sz pks)"

definition tracked :: "cap_op \<Rightarrow> node list \<Rightarrow> byte list list \<Rightarrow> row set" where
  "tracked cp P pks = node_row ` {n \<in> set P. pk_text cp n \<in> set pks}"

definition cap_result :: "cap_op \<Rightarrow> byte list \<Rightarrow> node list \<Rightarrow> byte list list \<Rightarrow> node list \<Rightarrow> op_state \<Rightarrow> op_state option \<Rightarrow> bool" where
  "cap_result cp key P pks P' st r \<longleftrightarrow> (\<exists>st' outs pks'. r = Some st' \<and> os_log st' = os_log st @ outs \<and>
     replay (unat (cp_limit cp)) outs (tracked cp P pks) = Some (tracked cp P' pks') \<and> tracks cp key P' pks' st')"

text \<open>The input after a change, in whatever order.\<close>

fun cap_after :: "cap_op \<Rightarrow> change \<Rightarrow> node list \<Rightarrow> node list \<Rightarrow> bool" where
  "cap_after cp (Add n) P P' \<longleftrightarrow> set P' = insert n (set P) \<and> pk_text cp n \<notin> pk_text cp ` set P"
| "cap_after cp (Remove d) P P' \<longleftrightarrow> (\<exists>x\<in>set P. node_row x = node_row d \<and> set P' = set P - {x})"
| "cap_after cp (Edit n old) P P' \<longleftrightarrow> (\<exists>x\<in>set P. node_row x = node_row old \<and> set P' = insert n (set P - {x}) \<and> pk_text cp n \<notin> pk_text cp ` (set P - {x}))"
| "cap_after cp (Child n rel c) P P' \<longleftrightarrow> set P' = set P \<and> (\<exists>x\<in>set P. node_row x = node_row n)"

lemma keyed_facts:
  assumes "keyed cp P"
  shows "inj_on (pk_text cp) (set P)" "inj_on node_row (set P)" "length P = card (set P)" "length P = card (pk_text cp ` set P)"
    "\<And>n. n \<in> set P \<Longrightarrow> serialize_pk (node_row n) (cp_primary_key cp) = Some (pk_text cp n)"
proof -
  have d: "distinct P" "inj_on (pk_text cp) (set P)" using assms by (auto simp: keyed_def distinct_map)
  then show "inj_on (pk_text cp) (set P)" "length P = card (set P)" "length P = card (pk_text cp ` set P)"
    by (simp_all add: distinct_card card_image)
  show "inj_on node_row (set P)" using d(2) by (auto simp: inj_on_def)
  show "serialize_pk (node_row n) (cp_primary_key cp) = Some (pk_text cp n)" if "n \<in> set P" for n
    using assms that by (auto simp: keyed_def)
qed

lemma tracked_card:
  assumes "keyed cp P" "cap_ok cp P sz pks"
  shows "finite (tracked cp P pks)" "card (tracked cp P pks) \<le> length pks"
proof -
  let ?S = "{n \<in> set P. pk_text cp n \<in> set pks}"
  show "finite (tracked cp P pks)" by (simp add: tracked_def)
  have "card (tracked cp P pks) \<le> card ?S" by (simp add: tracked_def card_image_le)
  also have "\<dots> = card (pk_text cp ` ?S)" using keyed_facts(1) [OF assms(1)] by (intro card_image [symmetric]) (auto simp: inj_on_def)
  also have "\<dots> \<le> card (set pks)" by (intro card_mono) auto
  finally show "card (tracked cp P pks) \<le> length pks" using card_length le_trans by blast
qed

lemma in_tracked:
  assumes "keyed cp P" "x \<in> set P"
  shows "node_row x \<in> tracked cp P pks \<longleftrightarrow> pk_text cp x \<in> set pks"
  using assms keyed_facts(2) [OF assms(1)] by (auto simp: tracked_def inj_on_def)

lemma find_untracked_result:
  assumes "\<forall>n\<in>set ns. serialize_pk (node_row n) pk = Some (t n)"
  shows "find_untracked pk pks ns = Some (find (\<lambda>n. t n \<notin> set pks) ns)"
  using assms by (induction ns) auto

section \<open>Writing the state\<close>

lemma cap_storage [simp]:
  "cap_set_state (log_env f) key sz pks st = st \<lparr> os_storage := storage_set key (CapState sz pks) (os_storage st) \<rparr>"
  by (simp add: cap_set_state_def)

lemma cap_resultI:
  assumes "r = Some (st \<lparr> os_storage := m, os_log := os_log st @ outs \<rparr>)" "storage_get key m = Some (CapState sz' pks')" "cap_ok cp P' sz' pks'"
    "replay (unat (cp_limit cp)) outs (tracked cp P pks) = Some (tracked cp P' pks')"
  shows "cap_result cp key P pks P' st r"
  using assms by (auto simp: cap_result_def tracks_def intro!: exI [of _ outs] exI [of _ pks'])

section \<open>Each change\<close>

lemma cap_add:
  assumes k: "keyed cp P" "keyed cp P'" and c: "cap_ok cp P sz pks" "storage_get key (os_storage st) = Some (CapState sz pks)"
    and n: "set P' = insert n (set P)" "pk_text cp n \<notin> pk_text cp ` set P"
  shows "cap_result cp key P pks P' st (if sz < cp_limit cp
    then Some (st \<lparr> os_storage := storage_set key (CapState (sz + 1) (pks @ [pk_text cp n])) (os_storage st), os_log := os_log st @ [Add n] \<rparr>) else Some st)"
proof -
  let ?T = "pk_text cp"
  have len: "length P' = Suc (length P)" using keyed_facts(3) [OF k(1)] keyed_facts(3) [OF k(2)] n by (auto simp: card_insert_if)
  have c': "unat sz = length pks" "distinct pks" "set pks \<subseteq> ?T ` set P" "length pks = min (unat (cp_limit cp)) (length P)"
    using c(1) by (auto simp: cap_ok_def)
  show ?thesis
  proof (cases "sz < cp_limit cp")
    case True
    then have lt: "unat sz < unat (cp_limit cp)" by (simp add: word_less_nat_alt)
    have "unat (sz + 1) = Suc (length pks)" using unat_incr [OF lt] c'(1) by simp
    moreover have "?T n \<notin> set pks" using n(2) c'(3) by auto
    ultimately have ok: "cap_ok cp P' (sz + 1) (pks @ [?T n])" using c' n lt len by (auto simp: cap_ok_def)
    have eq: "tracked cp P' (pks @ [?T n]) = insert (node_row n) (tracked cp P pks)"
    proof -
      have "{x \<in> set P'. ?T x \<in> set (pks @ [?T n])} = insert n {x \<in> set P. ?T x \<in> set pks}"
        using n by (auto intro: rev_image_eqI)
      then show ?thesis by (simp add: tracked_def)
    qed
    have "node_row n \<notin> tracked cp P pks" using n(2) by (auto simp: tracked_def)
    moreover have "card (tracked cp P pks) < unat (cp_limit cp)" using tracked_card(2) [OF k(1) c(1)] lt c'(1) by simp
    ultimately have rep: "replay (unat (cp_limit cp)) [Add n] (tracked cp P pks) = Some (tracked cp P' (pks @ [?T n]))" using eq by simp
    show ?thesis using True by (intro cap_resultI [OF _ _ ok rep]) (auto simp: mem_store.get_put)
  next
    case False
    then have "length pks = unat (cp_limit cp)" "unat (cp_limit cp) \<le> length P" using c'(1,4) by (auto simp: word_less_nat_alt)
    then have ok: "cap_ok cp P' sz pks" using c' n len by (auto simp: cap_ok_def)
    have "tracked cp P' pks = tracked cp P pks" using n c'(3) by (auto simp: tracked_def)
    then have rep: "replay (unat (cp_limit cp)) [] (tracked cp P pks) = Some (tracked cp P' pks)" by simp
    show ?thesis using False by (intro cap_resultI [OF _ c(2) ok rep]) simp
  qed
qed

lemma cap_without:
  assumes k: "keyed cp P" "keyed cp P'" and c: "cap_ok cp P sz pks" and x: "x \<in> set P" "set P' = set P - {x}"
  shows "length P = Suc (length P')" "pk_text cp ` set P' = pk_text cp ` set P - {pk_text cp x}"
    "pk_text cp x \<notin> set pks \<Longrightarrow> tracked cp P' pks = tracked cp P pks"
    "pk_text cp x \<in> set pks \<Longrightarrow> tracked cp P' (remove1 (pk_text cp x) pks) = tracked cp P pks - {node_row x}"
proof -
  have "card (set P') = card (set P) - 1" using x by simp
  then show "length P = Suc (length P')" using keyed_facts(3) [OF k(1)] keyed_facts(3) [OF k(2)] x(1)
    by (metis List.finite_set card_Suc_Diff1 x(2))
  show "pk_text cp ` set P' = pk_text cp ` set P - {pk_text cp x}" using keyed_facts(1) [OF k(1)] x by (auto simp: inj_on_def)
  have d: "distinct pks" using c by (simp add: cap_ok_def)
  show "pk_text cp x \<notin> set pks \<Longrightarrow> tracked cp P' pks = tracked cp P pks" using x by (auto simp: tracked_def)
  show "pk_text cp x \<in> set pks \<Longrightarrow> tracked cp P' (remove1 (pk_text cp x) pks) = tracked cp P pks - {node_row x}"
    using x d keyed_facts(1,2) [OF k(1)] by (auto simp: tracked_def inj_on_def)
qed

lemma cap_remove:
  assumes k: "keyed cp P" "keyed cp P'" and c: "cap_ok cp P sz pks" "storage_get key (os_storage st) = Some (CapState sz pks)"
    and x: "x \<in> set P" "node_row x = node_row d" "set P' = set P - {x}"
    and f: "cap_constraint_for cp (node_row d) = Some constr"
      "f \<lparr> req_constraint = constr, multi_constraints = [], req_start = None, req_reverse = False \<rparr> = Some P'"
  shows "cap_result cp key P pks P' st (cap_push_remove (log_env f) cp d key sz pks (pk_text cp x) st)"
proof -
  let ?T = "pk_text cp" and ?k = "unat (cp_limit cp)"
  have c': "unat sz = length pks" "distinct pks" "set pks \<subseteq> ?T ` set P" "length pks = min ?k (length P)"
    using c(1) by (auto simp: cap_ok_def)
  note w = cap_without [OF k c(1) x(1,3)]
  show ?thesis
  proof (cases "?T x \<in> set pks")
    case False
    have "set pks \<subseteq> ?T ` set P'" using c'(3) False w(2) by auto
    moreover have "length pks \<le> length P'"
      using card_mono [OF _ calculation] distinct_card [OF c'(2)] keyed_facts(4) [OF k(2)] by simp
    ultimately have ok: "cap_ok cp P' sz pks" using c' w(1) by (auto simp: cap_ok_def)
    have rep: "replay ?k [] (tracked cp P pks) = Some (tracked cp P' pks)" using w(3) [OF False] by simp
    show ?thesis using False by (intro cap_resultI [OF _ c(2) ok rep]) (simp add: cap_push_remove_def)
  next
    case True
    let ?pks1 = "remove1 (?T x) pks"
    have p1: "distinct ?pks1" "set ?pks1 = set pks - {?T x}" "length pks = Suc (length ?pks1)" "set ?pks1 \<subseteq> ?T ` set P'"
      using c'(2,3) True w(2) length_pos_if_in_set [OF True] by (auto simp: length_remove1)
    have sz1: "unat (sz - 1) = length ?pks1" using unat_decr [of sz "length ?pks1"] c'(1) p1(3) by simp
    have inT: "node_row d \<in> tracked cp P pks" using in_tracked [OF k(1) x(1)] True x(2) by simp
    have find: "find_untracked (cp_primary_key cp) ?pks1 P' = Some (find (\<lambda>n. ?T n \<notin> set ?pks1) P')"
      using keyed_facts(5) [OF k(2)] by (intro find_untracked_result) auto
    have le: "length ?pks1 \<le> length P'" using c'(4) p1(3) w(1) by simp
    show ?thesis
    proof (cases "find (\<lambda>n. ?T n \<notin> set ?pks1) P'")
      case None
      then have all: "?T ` set P' \<subseteq> set ?pks1" by (auto simp: find_None_iff)
      have "length P' \<le> length ?pks1"
        using card_mono [OF _ all] keyed_facts(4) [OF k(2)] distinct_card [OF p1(1)] by simp
      then have ok: "cap_ok cp P' (sz - 1) ?pks1" using le sz1 p1 c'(4) by (auto simp: cap_ok_def)
      have rep: "replay ?k [Remove d] (tracked cp P pks) = Some (tracked cp P' ?pks1)" using w(4) [OF True] inT x(2) by simp
      show ?thesis using None True find f
        by (intro cap_resultI [OF _ _ ok rep, of _ st "storage_set key (CapState (sz - 1) ?pks1) (os_storage st)"])
          (auto simp: cap_push_remove_def mem_store.get_put)
    next
      case (Some y)
      then have y: "y \<in> set P'" "?T y \<notin> set ?pks1" by (auto simp: find_Some_iff)
      have yx: "?T y \<noteq> ?T x" using y(1) w(2) by auto
      then have ynot: "?T y \<notin> set pks" using y(2) p1(2) by auto
      have "?T y \<in> ?T ` set P" using y(1) x(3) by blast
      then have "set pks \<subset> ?T ` set P" using c'(3) ynot by blast
      then have "card (set pks) < card (?T ` set P)" by (simp add: psubset_card_mono)
      then have "length pks < length P" unfolding distinct_card [OF c'(2)] keyed_facts(4) [OF k(1)] .
      then have lim: "length pks = ?k" "?k \<le> length P'" using c'(4) w(1) by auto
      have ok: "cap_ok cp P' sz (?pks1 @ [?T y])" using p1 y c'(1) lim by (auto simp: cap_ok_def)
      have "{z \<in> set P'. ?T z \<in> set (?pks1 @ [?T y])} = insert y {z \<in> set P'. ?T z \<in> set ?pks1}"
        using y(1) inj_onD [OF keyed_facts(1) [OF k(2)]] unfolding set_append by (auto simp del: set_remove1_eq)
      then have "tracked cp P' (?pks1 @ [?T y]) = insert (node_row y) (tracked cp P' ?pks1)" by (simp add: tracked_def del: set_remove1_eq)
      then have eq: "tracked cp P' (?pks1 @ [?T y]) = insert (node_row y) (tracked cp P pks - {node_row d})" using w(4) [OF True] x(2) by simp
      have "node_row y \<notin> tracked cp P pks" using in_tracked [OF k(1), of y] y(1) x(3) ynot by simp
      then have rep: "replay ?k [Remove d, Add y] (tracked cp P pks) = Some (tracked cp P' (?pks1 @ [?T y]))"
        unfolding eq using replay_swap [OF inT _ _ tracked_card(1) [OF k(1) c(1)]] tracked_card(2) [OF k(1) c(1)] lim(1) by simp
      obtain ty where ty: "serialize_pk (node_row y) (cp_primary_key cp) = Some ty" "?T y = ty" using keyed_facts(5) [OF k(2) y(1)] by simp
      show ?thesis using Some True find f ty(1) ok rep unfolding ty(2)
        by (intro cap_resultI [OF _ _ ok rep, unfolded ty(2), of _ st "storage_set key (CapState sz (?pks1 @ [ty])) (storage_set key (CapState (sz - 1) ?pks1) (os_storage st))"])
          (simp_all add: cap_push_remove_def mem_store.get_put Let_def)
    qed
  qed
qed

lemma swap_image:
  assumes "inj_on T A" "x \<in> A" "T n \<notin> T ` (A - {x})"
  shows "{y \<in> insert n (A - {x}). T y \<in> insert (T n) (S - {T x})} = insert n ({y \<in> A. T y \<in> S} - {x})"
proof (rule set_eqI)
  fix y
  have "T y \<noteq> T x" if "y \<in> A" "y \<noteq> x" using inj_onD [OF assms(1) _ that(1) assms(2)] that(2) by blast
  moreover have "T y \<noteq> T n" if "y \<in> A" "y \<noteq> x" using assms(3) that by (metis DiffI image_eqI singletonD)
  ultimately show "y \<in> {y \<in> insert n (A - {x}). T y \<in> insert (T n) (S - {T x})} \<longleftrightarrow> y \<in> insert n ({y \<in> A. T y \<in> S} - {x})"
    by (cases "y = n") blast+
qed

lemma cap_edit:
  assumes k: "keyed cp P" "keyed cp P'" and c: "cap_ok cp P sz pks" "storage_get key (os_storage st) = Some (CapState sz pks)"
    and x: "x \<in> set P" "node_row x = node_row old" "set P' = insert n (set P - {x})" "pk_text cp n \<notin> pk_text cp ` (set P - {x})"
  shows "cap_result cp key P pks P' st (if pk_text cp x \<in> set pks
    then Some (st \<lparr> os_storage := (if pk_text cp n \<noteq> pk_text cp x
        then storage_set key (CapState sz (map (\<lambda>p. if p = pk_text cp x then pk_text cp n else p) pks)) (os_storage st) else os_storage st),
      os_log := os_log st @ [Edit n old] \<rparr>) else Some st)"
proof -
  let ?T = "pk_text cp" and ?k = "unat (cp_limit cp)"
  have c': "unat sz = length pks" "distinct pks" "set pks \<subseteq> ?T ` set P" "length pks = min ?k (length P)"
    using c(1) by (auto simp: cap_ok_def)
  have "n \<notin> set P - {x}" using x(4) by blast
  then have len: "length P' = length P"
    using keyed_facts(3) [OF k(1)] keyed_facts(3) [OF k(2)] x(3) card.remove [of "set P" x] x(1) by (simp del: card_Diff_insert card_Diff_singleton)
  have TP': "?T ` set P' = insert (?T n) (?T ` set P - {?T x})" using x(1,3) keyed_facts(1) [OF k(1)] by (auto simp: inj_on_def)
  have Tn: "?T n \<notin> ?T ` set P - {?T x}" using x(1,4) keyed_facts(1) [OF k(1)] by (auto simp: inj_on_def)
  show ?thesis
  proof (cases "?T x \<in> set pks")
    case False
    then have nn: "?T n \<notin> set pks" "set pks \<subseteq> ?T ` set P'" using c'(3) Tn TP' by auto
    have ok: "cap_ok cp P' sz pks" using c' nn(2) len by (auto simp: cap_ok_def)
    have "{y \<in> set P'. ?T y \<in> set pks} = {y \<in> set P. ?T y \<in> set pks}" using x(3) nn(1) False by auto
    then have rep: "replay ?k [] (tracked cp P pks) = Some (tracked cp P' pks)" by (simp add: tracked_def)
    show ?thesis using False by (intro cap_resultI [OF _ c(2) ok rep]) simp
  next
    case True
    let ?pks = "map (\<lambda>p. if p = ?T x then ?T n else p) pks"
    have set': "set ?pks = insert (?T n) (set pks - {?T x})" using True by auto
    have fresh: "?T n \<notin> set pks - {?T x}" using Tn c'(3) by auto
    have dist: "distinct ?pks" using c'(2) fresh by (auto simp: distinct_map inj_on_def)
    have sub: "set ?pks \<subseteq> ?T ` set P'" unfolding set' TP' using c'(3) by auto
    have ok: "cap_ok cp P' sz ?pks" using c' len dist sub by (simp add: cap_ok_def)
    have "{y \<in> set P'. ?T y \<in> set ?pks} = insert n ({y \<in> set P. ?T y \<in> set pks} - {x})"
      unfolding set' x(3) by (rule swap_image [OF keyed_facts(1) [OF k(1)] x(1,4)])
    moreover have "node_row ` ({y \<in> set P. ?T y \<in> set pks} - {x}) = tracked cp P pks - {node_row old}"
      using keyed_facts(2) [OF k(1)] x(1,2) by (auto simp: tracked_def inj_on_def)
    ultimately have eq: "tracked cp P' ?pks = insert (node_row n) (tracked cp P pks - {node_row old})" by (simp add: tracked_def)
    have old: "node_row old \<in> tracked cp P pks" using in_tracked [OF k(1) x(1)] True x(2) by simp
    have "node_row n = node_row old" if "node_row n \<in> tracked cp P pks"
    proof -
      obtain z where z: "z \<in> set P" "node_row n = node_row z" using \<open>node_row n \<in> tracked cp P pks\<close> by (auto simp: tracked_def)
      then have "?T n = ?T z" by simp
      then have "z = x" using x(4) z(1) by (metis DiffI image_eqI singletonD)
      then show ?thesis using z(2) x(2) by simp
    qed
    then have rep: "replay ?k [Edit n old] (tracked cp P pks) = Some (tracked cp P' ?pks)" unfolding eq by (rule replay_edit [OF old])
    have same: "?T n = ?T x \<Longrightarrow> ?pks = pks" by (auto intro: map_idI)
    show ?thesis using True c(2) same
      by (intro cap_resultI [OF _ _ ok rep, of _ st "if ?T n \<noteq> ?T x then storage_set key (CapState sz ?pks) (os_storage st) else os_storage st"])
        (auto simp: mem_store.get_put)
  qed
qed

section \<open>Every change\<close>

text \<open>(C22) A push into a hydrated partition of \<open>Cap\<close>: if the operator tracks \<open>min limit\<close> rows of the partition before the change, it tracks
  that many after it, for every addition, removal, edit and child change; the push succeeds, and replaying what it emits turns
  the rows tracked before into exactly the rows tracked after, never holding more than \<open>limit\<close> rows.\<close>

theorem cap_push_window:
  assumes "keyed cp P" "keyed cp P'" "cap_after cp c P P'" "tracks cp key P pks st"
    and "cap_key_from_row cp (key_row c) = Some key" "cap_constraint_for cp (key_row c) = Some constr"
    and "serialize_pk (primary_row c) (cp_primary_key cp) \<noteq> None"
    and "f \<lparr> req_constraint = constr, multi_constraints = [], req_start = None, req_reverse = False \<rparr> = Some P'"
    and "debug \<longrightarrow> (\<forall>n old pk. c = Edit n old \<longrightarrow> cp_partition_key cp = Some pk \<longrightarrow> partition_key_unchanged (node_row old) (node_row n) pk = Some True)"
  shows "cap_result cp key P pks P' st (cap_push debug (log_env f) cp c st)"
proof -
  obtain sz where c: "storage_get key (os_storage st) = Some (CapState sz pks)" "cap_ok cp P sz pks" using assms(4) by (auto simp: tracks_def)
  have g: "cap_get_state (log_env f) key st = Some (Some (sz, pks))" using c(1) by (simp add: cap_get_state_def)
  note facts = keyed_facts(5) [OF assms(1)] and facts' = keyed_facts(5) [OF assms(2)]
  show ?thesis
  proof (cases c)
    case (Add n)
    then obtain t where t: "serialize_pk (node_row n) (cp_primary_key cp) = Some t" using assms(7) by auto
    then have "cap_push debug (log_env f) cp c st = (if sz < cp_limit cp
        then Some (st \<lparr> os_storage := storage_set key (CapState (sz + 1) (pks @ [pk_text cp n])) (os_storage st), os_log := os_log st @ [Add n] \<rparr>) else Some st)"
      using Add assms(5) g by (simp add: cap_push_def)
    then show ?thesis using cap_add [OF assms(1,2) c(2,1)] assms(3) Add by simp
  next
    case (Remove d)
    then obtain x where x: "x \<in> set P" "node_row x = node_row d" "set P' = set P - {x}" using assms(3) by auto
    obtain t where t: "serialize_pk (node_row d) (cp_primary_key cp) = Some t" "pk_text cp x = t" using facts [OF x(1)] x(2) by simp
    then have "cap_push debug (log_env f) cp c st = cap_push_remove (log_env f) cp d key sz pks (pk_text cp x) st"
      using Remove assms(5) g by (simp add: cap_push_def)
    then show ?thesis using cap_remove [where f = f and constr = constr, OF assms(1,2) c(2,1) x _ assms(8)] assms(6) Remove by simp
  next
    case (Edit n old)
    then obtain x where x: "x \<in> set P" "node_row x = node_row old" "set P' = insert n (set P - {x})" "pk_text cp n \<notin> pk_text cp ` (set P - {x})"
      using assms(3) by auto
    obtain to tn where t: "serialize_pk (node_row old) (cp_primary_key cp) = Some to" "pk_text cp x = to"
        "serialize_pk (node_row n) (cp_primary_key cp) = Some tn" "pk_text cp n = tn"
      using facts [OF x(1)] x(2) facts' [of n] x(3) by simp
    have dbg: "(case cp_partition_key cp of None \<Rightarrow> Some () | Some pk \<Rightarrow> debug_check debug (partition_key_unchanged (node_row old) (node_row n) pk)) = Some ()"
      using assms(9) Edit by (cases "cp_partition_key cp") (auto simp: debug_check_def)
    have "cap_push debug (log_env f) cp c st = (if pk_text cp x \<in> set pks
        then Some (st \<lparr> os_storage := (if pk_text cp n \<noteq> pk_text cp x
            then storage_set key (CapState sz (map (\<lambda>p. if p = pk_text cp x then pk_text cp n else p) pks)) (os_storage st) else os_storage st),
          os_log := os_log st @ [Edit n old] \<rparr>) else Some st)"
      unfolding t(2,4) using Edit assms(5) g t(1,3) dbg by (simp add: cap_push_def cap_push_edit_def)
    then show ?thesis using cap_edit [OF assms(1,2) c(2,1) x] by simp
  next
    case (Child n rel ch)
    then obtain x where x: "x \<in> set P" "node_row x = node_row n" "set P' = set P" using assms(3) by auto
    obtain t where t: "serialize_pk (node_row n) (cp_primary_key cp) = Some t" "pk_text cp x = t" using facts [OF x(1)] x(2) by simp
    have run: "cap_push debug (log_env f) cp c st = Some (st \<lparr> os_storage := os_storage st, os_log := os_log st @ (if pk_text cp x \<in> set pks then [c] else []) \<rparr>)"
      using Child assms(5) g t by (simp add: cap_push_def)
    have "length P' = length P" using keyed_facts(3) [OF assms(1)] keyed_facts(3) [OF assms(2)] x(3) by simp
    then have ok: "cap_ok cp P' sz pks" using c(2) x(3) by (simp add: cap_ok_def)
    have "tracked cp P' pks = tracked cp P pks" using x(3) by (simp add: tracked_def)
    then have rep: "replay (unat (cp_limit cp)) (if pk_text cp x \<in> set pks then [c] else []) (tracked cp P pks) = Some (tracked cp P' pks)"
      using Child in_tracked [OF assms(1) x(1), of pks] x(2) by simp
    show ?thesis by (rule cap_resultI [OF run c(1) ok rep])
  qed
qed

theorem cap_push_window_witness:
  "\<exists>st st' pks'. tracks \<lparr> cp_limit = 1, cp_partition_key = None, cp_primary_key = [0] \<rparr> (encode_state_key cap_prefix [])
       [leaf [IntV 1], leaf [IntV 2]] [[105, 49, 58, 49]] st \<and>
     cap_push True (log_env (\<lambda>_. Some [leaf [IntV 2]])) \<lparr> cp_limit = 1, cp_partition_key = None, cp_primary_key = [0] \<rparr> (Remove (leaf [IntV 1])) st = Some st' \<and>
     tracks \<lparr> cp_limit = 1, cp_partition_key = None, cp_primary_key = [0] \<rparr> (encode_state_key cap_prefix []) [leaf [IntV 2]] pks' st'"
proof -
  let ?cp = "\<lparr> cp_limit = 1, cp_partition_key = None, cp_primary_key = [0] \<rparr>" and ?key = "encode_state_key cap_prefix []"
  have t: "serialize_pk [IntV 1] [0] = Some [105, 49, 58, 49]" "serialize_pk [IntV 2] [0] = Some [105, 49, 58, 50]" by code_simp+
  define st where "st = \<lparr> os_storage = storage_set ?key (CapState 1 [[105, 49, 58, 49]]) storage_new, os_hidden = None, os_log = [] \<rparr>"
  have h: "tracks ?cp ?key [leaf [IntV 1], leaf [IntV 2]] [[105, 49, 58, 49]] st"
    by (simp add: tracks_def st_def mem_store.get_put cap_ok_def t del: serialize_pk.simps)
  have k: "keyed ?cp [leaf [IntV 1], leaf [IntV 2]]" "keyed ?cp [leaf [IntV 2]]" by (simp_all add: keyed_def t del: serialize_pk.simps)
  have "cap_after ?cp (Remove (leaf [IntV 1])) [leaf [IntV 1], leaf [IntV 2]] [leaf [IntV 2]]" by (auto simp: leaf_def)
  from cap_push_window [OF k this h, of None "\<lambda>_. Some [leaf [IntV 2]]" True]
  have "cap_result ?cp ?key [leaf [IntV 1], leaf [IntV 2]] [[105, 49, 58, 49]] [leaf [IntV 2]] st
      (cap_push True (log_env (\<lambda>_. Some [leaf [IntV 2]])) ?cp (Remove (leaf [IntV 1])) st)"
    by (simp add: cap_key_from_row_def cap_constraint_for_def t del: serialize_pk.simps)
  then show ?thesis using h by (auto simp: cap_result_def)
qed

end
