(* ===== verification/Op_Exists.thy ===== *)
theory Op_Exists
  imports Op_Take
begin

text \<open>
  The relationship gate \<open>Exists\<close> (\<open>rust/src/op/exists.rs\<close>): a link of a filter chain that lets a node pass when one of its
  relationships is non-empty (\<open>EXISTS\<close>) or empty (\<open>NOT EXISTS\<close>). The rest of the chain is reached through callbacks; the
  cache of one fetch loop and the re-entrancy flag are the state of the operator.
\<close>

record exists_op =
  ex_rel :: rel_id
  ex_not :: bool
  ex_parent_join_key :: "col_id list"
  ex_no_size_reuse :: bool

record 's chain_env =
  c_begin :: "'s \<Rightarrow> 's option"
  c_end :: "'s \<Rightarrow> 's option"
  c_filter :: "node \<Rightarrow> 's \<Rightarrow> (bool \<times> 's) option"
  c_push :: "change \<Rightarrow> 's \<Rightarrow> (change list \<times> 's) option"
  c_cache :: "'s \<Rightarrow> (byte list \<rightharpoonup> bool)"
  c_put_cache :: "(byte list \<rightharpoonup> bool) \<Rightarrow> 's \<Rightarrow> 's"
  c_in_push :: "'s \<Rightarrow> bool"
  c_put_in_push :: "bool \<Rightarrow> 's \<Rightarrow> 's"

definition exists_new :: "rel_id \<Rightarrow> col_id list \<Rightarrow> bool \<Rightarrow> col_id list \<Rightarrow> exists_op" where
  "exists_new rel parent_join_key neg primary_key =
     \<lparr> ex_rel = rel, ex_not = neg, ex_parent_join_key = parent_join_key, ex_no_size_reuse = (parent_join_key = primary_key) \<rparr>"

section \<open>Size, gate and cache key\<close>

definition fetch_size :: "exists_op \<Rightarrow> node \<Rightarrow> nat option" where
  "fetch_size ex n = map_option (\<lambda>r. length (snd r)) (find (\<lambda>r. fst r = ex_rel ex) (node_rels n))"

definition fetch_exists :: "exists_op \<Rightarrow> node \<Rightarrow> bool option" where
  "fetch_exists ex n = map_option (\<lambda>k. k > 0) (fetch_size ex n)"

definition gate :: "exists_op \<Rightarrow> node \<Rightarrow> bool option \<Rightarrow> bool option" where
  "gate ex n ext = map_option (\<lambda>e. ex_not ex \<noteq> e) (case ext of Some e \<Rightarrow> Some e | None \<Rightarrow> fetch_exists ex n)"

definition cache_key :: "exists_op \<Rightarrow> node \<Rightarrow> byte list option" where
  "cache_key ex n = map_option (encode_state_key []) (cells_of (node_row n) (ex_parent_join_key ex))"

section \<open>The filter chain\<close>

definition exists_begin :: "'s chain_env \<Rightarrow> 's \<Rightarrow> 's option" where
  "exists_begin env st = c_begin env st"

definition exists_end :: "'s chain_env \<Rightarrow> 's \<Rightarrow> 's option" where
  "exists_end env st = c_end env (c_put_cache env Map.empty st)"

definition exists_filter :: "'s chain_env \<Rightarrow> exists_op \<Rightarrow> node \<Rightarrow> 's \<Rightarrow> (bool \<times> 's) option" where
  "exists_filter env ex n st = do {
     (ext, st1) \<leftarrow> (if \<not> ex_no_size_reuse ex \<and> \<not> c_in_push env st then do {
         key \<leftarrow> cache_key ex n;
         case c_cache env st key of
           Some e \<Rightarrow> Some (Some e, st)
         | None \<Rightarrow> do {
             e \<leftarrow> fetch_exists ex n;
             Some (Some e, c_put_cache env ((c_cache env st)(key \<mapsto> e)) st)
           }
       }
       else Some (None, st));
     g \<leftarrow> gate ex n ext;
     if g then c_filter env n st1 else Some (False, st1)
   }"

section \<open>Push\<close>

definition force_rel_single :: "node \<Rightarrow> rel_id \<Rightarrow> node \<Rightarrow> node" where
  "force_rel_single n slot ch = Node (node_row n) (filter (\<lambda>r. fst r \<noteq> slot) (node_rels n) @ [(slot, [ch])])"

definition force_rel_empty :: "node \<Rightarrow> rel_id \<Rightarrow> node" where
  "force_rel_empty n slot = Node (node_row n) (filter (\<lambda>r. fst r \<noteq> slot) (node_rels n) @ [(slot, [])])"

fun change_node :: "change \<Rightarrow> node" where
  "change_node (Add n) = n"
| "change_node (Remove n) = n"
| "change_node (Edit n old) = n"
| "change_node (Child n rel c) = n"

definition push_with_filter :: "'s chain_env \<Rightarrow> exists_op \<Rightarrow> change \<Rightarrow> bool option \<Rightarrow> 's \<Rightarrow> (change list \<times> 's) option" where
  "push_with_filter env ex c ext st = do {
     pass \<leftarrow> gate ex (change_node c) ext;
     if pass then c_push env c st else Some ([], st)
   }"

definition push_chain_body :: "'s chain_env \<Rightarrow> exists_op \<Rightarrow> change \<Rightarrow> 's \<Rightarrow> (change list \<times> 's) option" where
  "push_chain_body env ex c st = (case c of
       Child n rel ch \<Rightarrow>
         if rel \<noteq> ex_rel ex \<or> change_type_of ch = TEdit \<or> change_type_of ch = TChild then push_with_filter env ex c None st
         else do {
           k \<leftarrow> fetch_size ex n;
           (case ch of
              Add _ \<Rightarrow>
                if k = 1 then (if ex_not ex then c_push env (Remove (force_rel_empty n (ex_rel ex))) st else c_push env (Add n) st)
                else push_with_filter env ex c (Some (k > 0)) st
            | Remove removed \<Rightarrow>
                if k = 0 then (if ex_not ex then c_push env (Add n) st else c_push env (Remove (force_rel_single n (ex_rel ex) removed)) st)
                else push_with_filter env ex c (Some (k > 0)) st
            | _ \<Rightarrow> None)
         }
     | _ \<Rightarrow> push_with_filter env ex c None st)"

definition push_chain :: "'s chain_env \<Rightarrow> exists_op \<Rightarrow> change \<Rightarrow> 's \<Rightarrow> (change list \<times> 's) option" where
  "push_chain env ex c st =
     (if c_in_push env st then None
      else do {
        (out, st1) \<leftarrow> push_chain_body env ex c (c_put_in_push env True st);
        Some (out, c_put_in_push env False st1)
      })"

section \<open>Membership transitions\<close>

text \<open>A chain that records: what is pushed comes back, what is asked passes a fixed test.\<close>

record exists_state =
  xs_cache :: "byte list \<rightharpoonup> bool"
  xs_in_push :: bool

definition test_chain :: "(node \<Rightarrow> bool) \<Rightarrow> exists_state chain_env" where
  "test_chain d = \<lparr> c_begin = Some, c_end = Some, c_filter = (\<lambda>n st. Some (d n, st)), c_push = (\<lambda>c st. Some ([c], st)),
     c_cache = xs_cache, c_put_cache = (\<lambda>m st. st \<lparr> xs_cache := m \<rparr>),
     c_in_push = xs_in_push, c_put_in_push = (\<lambda>b st. st \<lparr> xs_in_push := b \<rparr>) \<rparr>"

lemma test_chain_simps [simp]:
  "c_begin (test_chain d) st = Some st" "c_end (test_chain d) st = Some st" "c_filter (test_chain d) n st = Some (d n, st)"
  "c_push (test_chain d) c st = Some ([c], st)" "c_cache (test_chain d) st = xs_cache st"
  "c_put_cache (test_chain d) m st = st \<lparr> xs_cache := m \<rparr>" "c_in_push (test_chain d) st = xs_in_push st"
  "c_put_in_push (test_chain d) b st = st \<lparr> xs_in_push := b \<rparr>"
  by (simp_all add: test_chain_def)

definition passes :: "exists_op \<Rightarrow> node list \<Rightarrow> bool" where
  "passes ex cs \<longleftrightarrow> ex_not ex \<noteq> (cs \<noteq> [])"

definition children :: "exists_op \<Rightarrow> node \<Rightarrow> node list option" where
  "children ex n = map_option snd (find (\<lambda>r. fst r = ex_rel ex) (node_rels n))"

lemma find_filter_neq: "find (\<lambda>r. fst r = k) (filter (\<lambda>r. fst r \<noteq> k) rs @ [(k, v)]) = Some (k, v)"
  by (induction rs) auto

text \<open>A change of a child of the gated relationship moves the parent across the gate exactly when it should.\<close>

lemma gated_child_transition:
  assumes "children ex n = Some cs" "\<not> xs_in_push st"
    and "ch = Add x \<and> (\<exists>as bs. before = as @ bs \<and> cs = as @ x # bs) \<or> ch = Remove x \<and> (\<exists>as bs. before = as @ x # bs \<and> cs = as @ bs)"
  shows "\<exists>n'. push_chain (test_chain d) ex (Child n (ex_rel ex) ch) st =
      Some (if passes ex before \<and> passes ex cs then [Child n (ex_rel ex) ch] else if passes ex cs then [Add n] else if passes ex before then [Remove n'] else [], st) \<and>
    node_row n' = node_row n \<and> (passes ex before \<and> \<not> passes ex cs \<longrightarrow> children ex n' = Some before)"
proof -
  have k: "fetch_size ex n = Some (length cs)" using assms(1) by (auto simp: children_def fetch_size_def)
  have st: "st \<lparr> xs_in_push := True, xs_in_push := False \<rparr> = st" "st \<lparr> xs_in_push := False \<rparr> = st" using assms(2) by (cases st; simp)+
  from assms(3) show ?thesis
  proof
    assume "ch = Add x \<and> (\<exists>as bs. before = as @ bs \<and> cs = as @ x # bs)"
    then obtain as bs where a: "ch = Add x" "before = as @ bs" "cs = as @ x # bs" by blast
    show ?thesis
    proof (cases "before = []")
      case True
      then have "length cs = 1" "cs \<noteq> []" using a by auto
      then show ?thesis using True a(1) k st assms(2)
        by (intro exI [of _ "force_rel_empty n (ex_rel ex)"])
          (simp add: push_chain_def push_chain_body_def passes_def force_rel_empty_def children_def find_filter_neq)
    next
      case False
      then have "length cs \<noteq> 1" "cs \<noteq> []" using a by auto
      then show ?thesis using False a(1) k st assms(2)
        by (intro exI [of _ n]) (simp add: push_chain_def push_chain_body_def passes_def push_with_filter_def gate_def)
    qed
  next
    assume "ch = Remove x \<and> (\<exists>as bs. before = as @ x # bs \<and> cs = as @ bs)"
    then obtain as bs where a: "ch = Remove x" "before = as @ x # bs" "cs = as @ bs" by blast
    show ?thesis
    proof (cases "cs = []")
      case True
      then have "before = [x]" using a by auto
      then show ?thesis using True a(1) k st assms(2)
        by (intro exI [of _ "force_rel_single n (ex_rel ex) x"])
          (simp add: push_chain_def push_chain_body_def passes_def force_rel_single_def children_def find_filter_neq)
    next
      case False
      then show ?thesis using a k st assms(2)
        by (intro exI [of _ n]) (simp add: push_chain_def push_chain_body_def passes_def push_with_filter_def gate_def)
    qed
  qed
qed

text \<open>Every other change is admitted by the state of the relationship alone.\<close>

definition gated_child :: "exists_op \<Rightarrow> change \<Rightarrow> bool" where
  "gated_child ex c = (case c of Child n rel ch \<Rightarrow> rel = ex_rel ex \<and> (change_type_of ch = TAdd \<or> change_type_of ch = TRemove) | _ \<Rightarrow> False)"

lemma ungated_push:
  assumes "children ex (change_node c) = Some cs" "\<not> xs_in_push st" "\<not> gated_child ex c"
  shows "push_chain (test_chain d) ex c st = Some (if passes ex cs then [c] else [], st)"
proof -
  have st: "st \<lparr> xs_in_push := True, xs_in_push := False \<rparr> = st" "st \<lparr> xs_in_push := False \<rparr> = st" using assms(2) by (cases st; simp)+
  have g: "gate ex (change_node c) None = Some (passes ex cs)"
    using assms(1) by (auto simp: gate_def fetch_exists_def fetch_size_def children_def passes_def)
  have "push_chain_body (test_chain d) ex c st' = push_with_filter (test_chain d) ex c None st'" for st'
  proof (cases c)
    case (Child n rel ch)
    then show ?thesis using assms(3) by (cases "change_type_of ch") (simp_all add: push_chain_body_def gated_child_def)
  qed (simp_all add: push_chain_body_def)
  then show ?thesis using assms(2) g st by (simp add: push_chain_def push_with_filter_def)
qed

text \<open>(C23) What the relationship gate does with every kind of push. Let \<open>cs\<close> be the children of the gated relationship at the changed
  node. A child added to or removed from that relationship, which had the children \<open>before\<close>, moves its parent across the gate exactly
  when it should: if the parent passes before and after, the change is forwarded as it is; if it newly passes, the parent is
  added; if it newly fails, the parent is removed, with exactly the children it had before; otherwise nothing is emitted. Every other
  change (of the parent itself, of another relationship, or an edit or nested change of a gated child) is forwarded as it is when
  the parent passes, and dropped when it does not. The operator is ready for the next push; a push from inside a push panics.\<close>

theorem exists_transition:
  assumes "children ex (change_node c) = Some cs" "\<not> xs_in_push st"
  shows "(\<forall>n ch x before. c = Child n (ex_rel ex) ch \<and>
        (ch = Add x \<and> (\<exists>as bs. before = as @ bs \<and> cs = as @ x # bs) \<or> ch = Remove x \<and> (\<exists>as bs. before = as @ x # bs \<and> cs = as @ bs)) \<longrightarrow>
      (\<exists>n'. push_chain (test_chain d) ex c st =
          Some (if passes ex before \<and> passes ex cs then [c] else if passes ex cs then [Add n] else if passes ex before then [Remove n'] else [], st) \<and>
        node_row n' = node_row n \<and> (passes ex before \<and> \<not> passes ex cs \<longrightarrow> children ex n' = Some before))) \<and>
    ((\<forall>n x. c \<noteq> Child n (ex_rel ex) (Add x) \<and> c \<noteq> Child n (ex_rel ex) (Remove x)) \<longrightarrow>
      push_chain (test_chain d) ex c st = Some (if passes ex cs then [c] else [], st)) \<and>
    push_chain (test_chain d) ex c (st \<lparr> xs_in_push := True \<rparr>) = None"
proof (intro conjI allI impI)
  fix n ch x before
  assume "c = Child n (ex_rel ex) ch \<and>
    (ch = Add x \<and> (\<exists>as bs. before = as @ bs \<and> cs = as @ x # bs) \<or> ch = Remove x \<and> (\<exists>as bs. before = as @ x # bs \<and> cs = as @ bs))"
  then have c: "c = Child n (ex_rel ex) ch"
    and ch: "ch = Add x \<and> (\<exists>as bs. before = as @ bs \<and> cs = as @ x # bs) \<or> ch = Remove x \<and> (\<exists>as bs. before = as @ x # bs \<and> cs = as @ bs)"
    by blast+
  have "children ex n = Some cs" using assms(1) by (simp add: c)
  then show "\<exists>n'. push_chain (test_chain d) ex c st =
      Some (if passes ex before \<and> passes ex cs then [c] else if passes ex cs then [Add n] else if passes ex before then [Remove n'] else [], st) \<and>
    node_row n' = node_row n \<and> (passes ex before \<and> \<not> passes ex cs \<longrightarrow> children ex n' = Some before)"
    unfolding c by (rule gated_child_transition [OF _ assms(2) ch])
next
  assume "\<forall>n x. c \<noteq> Child n (ex_rel ex) (Add x) \<and> c \<noteq> Child n (ex_rel ex) (Remove x)"
  then have "\<not> gated_child ex c" by (cases c) (auto simp: gated_child_def elim: change_type_of.elims)
  then show "push_chain (test_chain d) ex c st = Some (if passes ex cs then [c] else [], st)" by (rule ungated_push [OF assms])
qed (simp add: push_chain_def)

theorem exists_transition_witness:
  "let ex = exists_new 0 [0] False [0]; st = \<lparr> xs_cache = Map.empty, xs_in_push = False \<rparr> in
   (\<exists>n'. push_chain (test_chain (\<lambda>_. True)) ex (Child (Node [IntV 1] [(0, [])]) 0 (Remove (leaf [IntV 7]))) st = Some ([Remove n'], st) \<and>
     children ex n' = Some [leaf [IntV 7]]) \<and>
   push_chain (test_chain (\<lambda>_. True)) ex (Add (Node [IntV 1] [(0, [])])) st = Some ([], st)"
proof -
  let ?ex = "exists_new 0 [0] False [0]" and ?st = "\<lparr> xs_cache = Map.empty, xs_in_push = False \<rparr>"
  let ?c = "Child (Node [IntV 1] [(0, [])]) 0 (Remove (leaf [IntV 7]))"
  have "\<exists>n'. push_chain (test_chain (\<lambda>_. True)) ?ex ?c ?st = Some ([Remove n'], ?st) \<and> children ?ex n' = Some [leaf [IntV 7]]"
    using exists_transition [of ?ex ?c "[]" ?st "\<lambda>_. True"]
    by (simp add: exists_new_def children_def passes_def) (metis append_Nil)
  moreover have "push_chain (test_chain (\<lambda>_. True)) ?ex (Add (Node [IntV 1] [(0, [])])) ?st = Some ([], ?st)"
    using exists_transition [of ?ex "Add (Node [IntV 1] [(0, [])])" "[]" ?st "\<lambda>_. True"]
    by (simp add: exists_new_def children_def passes_def)
  ultimately show ?thesis unfolding Let_def by blast
qed

section \<open>The cache\<close>

fun filter_loop :: "'s chain_env \<Rightarrow> exists_op \<Rightarrow> node list \<Rightarrow> 's \<Rightarrow> (bool list \<times> 's) option" where
  "filter_loop env ex [] st = Some ([], st)"
| "filter_loop env ex (n # ns) st = do {
     (b, st1) \<leftarrow> exists_filter env ex n st;
     (bs, st2) \<leftarrow> filter_loop env ex ns st1;
     Some (b # bs, st2)
   }"

definition cache_sound :: "exists_op \<Rightarrow> node list \<Rightarrow> (byte list \<rightharpoonup> bool) \<Rightarrow> bool" where
  "cache_sound ex N m \<longleftrightarrow> (\<forall>n\<in>set N. \<forall>key e. cache_key ex n = Some key \<longrightarrow> m key = Some e \<longrightarrow> fetch_exists ex n = Some e)"

lemma filter_loop_sound:
  assumes "set ns \<subseteq> set N" "\<forall>n\<in>set N. cache_key ex n \<noteq> None \<and> children ex n \<noteq> None"
    "\<forall>n\<in>set N. \<forall>n'\<in>set N. cache_key ex n = cache_key ex n' \<longrightarrow> fetch_exists ex n = fetch_exists ex n'" "cache_sound ex N (xs_cache st)"
  shows "\<exists>m. filter_loop (test_chain d) ex ns st = Some (map (\<lambda>n. passes ex (the (children ex n)) \<and> d n) ns, st \<lparr> xs_cache := m \<rparr>) \<and> cache_sound ex N m"
  using assms(1,4)
proof (induction ns arbitrary: st)
  case Nil
  then show ?case by (auto intro!: exI [of _ "xs_cache st"])
next
  case (Cons n ns)
  obtain key where key: "cache_key ex n = Some key" using assms(2) Cons.prems by force
  obtain cs where cs: "children ex n = Some cs" using assms(2) Cons.prems by force
  have e: "fetch_exists ex n = Some (cs \<noteq> [])" using cs by (auto simp: children_def fetch_exists_def fetch_size_def)
  have hit: "xs_cache st key = Some b \<Longrightarrow> b = (cs \<noteq> [])" for b using Cons.prems key e by (fastforce simp: cache_sound_def)
  have "\<exists>m. exists_filter (test_chain d) ex n st = Some (passes ex cs \<and> d n, st \<lparr> xs_cache := m \<rparr>) \<and> cache_sound ex N m"
  proof (cases "\<not> ex_no_size_reuse ex \<and> \<not> xs_in_push st \<and> xs_cache st key = None")
    case True
    have "cache_sound ex N ((xs_cache st)(key \<mapsto> (cs \<noteq> [])))"
      using Cons.prems assms(3) key e unfolding cache_sound_def by (metis (mono_tags, lifting) fun_upd_apply list.set_intros(1) option.inject subsetD)
    then show ?thesis using True key e
      by (intro exI [of _ "(xs_cache st)(key \<mapsto> (cs \<noteq> []))"]) (auto simp: exists_filter_def gate_def passes_def)
  next
    case False
    then show ?thesis using Cons.prems key e hit
      by (intro exI [of _ "xs_cache st"]) (auto simp: exists_filter_def gate_def passes_def)
  qed
  then obtain m where m: "exists_filter (test_chain d) ex n st = Some (passes ex cs \<and> d n, st \<lparr> xs_cache := m \<rparr>)" "cache_sound ex N m" by blast
  from Cons.IH [of "st \<lparr> xs_cache := m \<rparr>"] Cons.prems m(2) obtain m' where
    "filter_loop (test_chain d) ex ns (st \<lparr> xs_cache := m \<rparr>) = Some (map (\<lambda>n. passes ex (the (children ex n)) \<and> d n) ns, st \<lparr> xs_cache := m' \<rparr>)" "cache_sound ex N m'"
    by auto
  then show ?case using m(1) cs by auto
qed

text \<open>The size cache of one fetch loop is invisible: whatever nodes a loop asks about, between the reset of the cache and its
  end, each gets the answer its own relationship and the rest of the chain give, provided that parents with identical join
  key cells have relationships that are empty together; and the end of the loop leaves the cache empty.\<close>

theorem exists_cache_transparent:
  assumes "\<forall>n\<in>set ns. children ex n \<noteq> None \<and> cells_of (node_row n) (ex_parent_join_key ex) \<noteq> None"
    and "\<forall>n\<in>set ns. \<forall>n'\<in>set ns. list_all2 values_identical (the (cells_of (node_row n) (ex_parent_join_key ex))) (the (cells_of (node_row n') (ex_parent_join_key ex))) \<longrightarrow>
      (children ex n = Some [] \<longleftrightarrow> children ex n' = Some [])"
    and "xs_cache st = Map.empty"
  shows "\<exists>st'. filter_loop (test_chain d) ex ns st = Some (map (\<lambda>n. passes ex (the (children ex n)) \<and> d n) ns, st') \<and>
    exists_end (test_chain d) st' = Some st"
proof -
  have keys: "\<forall>n\<in>set ns. cache_key ex n \<noteq> None \<and> children ex n \<noteq> None" using assms(1) by (auto simp: cache_key_def)
  have ext: "fetch_exists ex n = Some (children ex n \<noteq> Some [])" if "n \<in> set ns" for n
    using assms(1) that by (auto simp: children_def fetch_exists_def fetch_size_def)
  have same: "\<forall>n\<in>set ns. \<forall>n'\<in>set ns. cache_key ex n = cache_key ex n' \<longrightarrow> fetch_exists ex n = fetch_exists ex n'"
  proof (intro ballI impI)
    fix n n' assume n: "n \<in> set ns" "n' \<in> set ns" "cache_key ex n = cache_key ex n'"
    obtain vs vs' where v: "cells_of (node_row n) (ex_parent_join_key ex) = Some vs" "cells_of (node_row n') (ex_parent_join_key ex) = Some vs'"
      using assms(1) n by blast
    then have "encode_state_key [] vs = encode_state_key [] vs'" using n(3) by (simp add: cache_key_def)
    then have "children ex n = Some [] \<longleftrightarrow> children ex n' = Some []" using assms(2) n(1,2) v unfolding encode_state_key_iff by force
    then show "fetch_exists ex n = fetch_exists ex n'" using ext n by simp
  qed
  obtain m where "filter_loop (test_chain d) ex ns st = Some (map (\<lambda>n. passes ex (the (children ex n)) \<and> d n) ns, st \<lparr> xs_cache := m \<rparr>)"
    using filter_loop_sound [OF _ keys same, of ns st d] assms(3) by (auto simp: cache_sound_def)
  moreover have "st \<lparr> xs_cache := Map.empty \<rparr> = st" using assms(3) by (cases st) simp
  ultimately show ?thesis by (simp add: exists_end_def)
qed

theorem exists_cache_transparent_witness:
  "\<exists>st'. filter_loop (test_chain (\<lambda>_. True)) (exists_new 0 [0] False [1])
       [Node [IntV 1, IntV 5] [(0, [leaf [IntV 7]])], Node [IntV 1, IntV 6] [(0, [leaf [IntV 7]])], Node [IntV 2, IntV 5] [(0, [])]]
       \<lparr> xs_cache = Map.empty, xs_in_push = False \<rparr> = Some ([True, True, False], st') \<and>
    exists_end (test_chain (\<lambda>_. True)) st' = Some \<lparr> xs_cache = Map.empty, xs_in_push = False \<rparr>"
proof -
  let ?ex = "exists_new 0 [0] False [1]"
  let ?ns = "[Node [IntV 1, IntV 5] [(0, [leaf [IntV 7]])], Node [IntV 1, IntV 6] [(0, [leaf [IntV 7]])], Node [IntV 2, IntV 5] [(0, [])]]"
  have v: "\<not> values_identical (IntV 1) (IntV 2)" "\<not> values_identical (IntV 2) (IntV 1)" by code_simp+
  have "\<exists>st'. filter_loop (test_chain (\<lambda>_. True)) ?ex ?ns \<lparr> xs_cache = Map.empty, xs_in_push = False \<rparr> =
      Some (map (\<lambda>n. passes ?ex (the (children ?ex n)) \<and> True) ?ns, st') \<and>
    exists_end (test_chain (\<lambda>_. True)) st' = Some \<lparr> xs_cache = Map.empty, xs_in_push = False \<rparr>"
    by (rule exists_cache_transparent) (use v in \<open>simp_all add: exists_new_def children_def row_col_def\<close>)
  then show ?thesis by (simp add: exists_new_def children_def passes_def)
qed

end
