(* ===== verification/Bytes.thy ===== *)
theory Bytes
  imports Values
begin

text \<open>
  Fixed-width little-endian integers (\<open>to_le_bytes\<close>, \<open>from_le_bytes\<close>), shared by the wire formats, and the notion of an
  encoder whose output can be cut off the front of a longer stream.
\<close>

fun le_bytes :: "nat \<Rightarrow> nat \<Rightarrow> byte list" where
  "le_bytes 0 n = []"
| "le_bytes (Suc k) n = of_nat (n mod 256) # le_bytes k (n div 256)"

fun from_le :: "byte list \<Rightarrow> nat" where
  "from_le [] = 0"
| "from_le (b # bs) = unat b + 256 * from_le bs"

definition le32 :: "32 word \<Rightarrow> byte list" where
  "le32 w = le_bytes 4 (unat w)"

definition le64 :: "64 word \<Rightarrow> byte list" where
  "le64 w = le_bytes 8 (unat w)"

definition from_le32 :: "byte list \<Rightarrow> 32 word" where
  "from_le32 bs = of_nat (from_le bs)"

definition from_le64 :: "byte list \<Rightarrow> 64 word" where
  "from_le64 bs = of_nat (from_le bs)"

lemma length_le_bytes [simp]: "length (le_bytes k n) = k"
  by (induction k arbitrary: n) simp_all

lemma unat_byte_less: "unat (b :: byte) < 256"
  using unsigned_less [of b] by simp

lemma unat_u32_less: "unat (w :: 32 word) < 4294967296"
  using unsigned_less [of w] by simp

lemma unat_u64_less: "unat (w :: 64 word) < 18446744073709551616"
  using unsigned_less [of w] by simp

lemma unat_byte_of_nat: "unat (of_nat (n mod 256) :: byte) = n mod 256"
  by (simp add: unat_of_nat)

lemma from_le_bytes_mod: "from_le (le_bytes k n) = n mod 256 ^ k"
proof (induction k arbitrary: n)
  case (Suc k)
  then show ?case by (simp add: unat_byte_of_nat mod_mult2_eq)
qed simp

lemma le_bytes_from_le: "le_bytes (length bs) (from_le bs) = bs"
proof (induction bs)
  case (Cons b bs)
  have b: "unat b < 256" by (rule unat_byte_less)
  then have "(unat b + 256 * from_le bs) mod 256 = unat b" "(unat b + 256 * from_le bs) div 256 = from_le bs" by simp_all
  then show ?case using Cons by simp
qed simp

lemma from_le_less: "from_le bs < 256 ^ length bs"
proof -
  have "from_le bs = from_le (le_bytes (length bs) (from_le bs))" by (simp add: le_bytes_from_le)
  also have "\<dots> < 256 ^ length bs" unfolding from_le_bytes_mod by simp
  finally show ?thesis .
qed

lemma le_length [simp]: "length (le32 w) = 4" "length (le64 v) = 8"
  by (simp_all add: le32_def le64_def)

lemma from_le_of_le [simp]: "from_le32 (le32 w) = w" "from_le64 (le64 v) = v"
  using unat_u32_less [of w] unat_u64_less [of v] by (simp_all add: le32_def le64_def from_le32_def from_le64_def from_le_bytes_mod)

lemma le32_inject [simp]: "le32 a = le32 b \<longleftrightarrow> a = b"
  using from_le_of_le(1) by metis

lemma le_of_from_le: "length bs = 4 \<Longrightarrow> le32 (from_le32 bs) = bs" "length cs = 8 \<Longrightarrow> le64 (from_le64 cs) = cs"
  using from_le_less [of bs] from_le_less [of cs] le_bytes_from_le [of bs] le_bytes_from_le [of cs]
  by (simp_all add: le32_def le64_def from_le32_def from_le64_def unat_of_nat)

section \<open>Self-delimiting encoders\<close>

text \<open>An encoder is self-delimiting on a set of values when the encoding at the front of a stream determines the value and
  where it ends.\<close>

definition self_delim :: "'a set \<Rightarrow> ('a \<Rightarrow> byte list) \<Rightarrow> bool" where
  "self_delim A e \<longleftrightarrow> (\<forall>x\<in>A. \<forall>y\<in>A. \<forall>r s. e x @ r = e y @ s \<longrightarrow> x = y \<and> r = s)"

lemma self_delimD: "self_delim A e \<Longrightarrow> x \<in> A \<Longrightarrow> y \<in> A \<Longrightarrow> e x @ r = e y @ s \<Longrightarrow> x = y \<and> r = s"
  unfolding self_delim_def by blast

lemma self_delim_iff: "self_delim A e \<Longrightarrow> x \<in> A \<Longrightarrow> y \<in> A \<Longrightarrow> e x @ r = e y @ s \<longleftrightarrow> x = y \<and> r = s"
  using self_delimD [of A e x y r s] by auto

lemma self_delim_fixed: "inj_on e A \<Longrightarrow> (\<And>x. x \<in> A \<Longrightarrow> length (e x) = k) \<Longrightarrow> self_delim A e"
  unfolding self_delim_def by (metis append_eq_append_conv inj_onD)

lemma self_delim_le32: "self_delim UNIV le32"
  by (rule self_delim_fixed [of _ _ 4]) (auto intro: inj_on_inverseI [of _ from_le32])

text \<open>Elements one after the other, when the number of elements is known.\<close>

lemma self_delim_concat:
  assumes "self_delim A e" "set xs \<subseteq> A" "set ys \<subseteq> A" "length xs = length ys" "concat (map e xs) @ r = concat (map e ys) @ s"
  shows "xs = ys \<and> r = s"
  using assms(4,2,3,5)
proof (induction xs ys arbitrary: r s rule: list_induct2)
  case (Cons x xs y ys)
  have "e x @ concat (map e xs) @ r = e y @ concat (map e ys) @ s" using Cons.prems by simp
  then have "x = y \<and> concat (map e xs) @ r = concat (map e ys) @ s"
    by (intro self_delimD [OF assms(1)]) (use Cons.prems in auto)
  moreover from this have "xs = ys \<and> r = s" by (intro Cons.IH) (use Cons.prems in auto)
  ultimately show ?case by blast
qed simp

section \<open>Text\<close>

text \<open>\<open>std::str::from_utf8\<close> accepts the well-formed byte sequences of Unicode, table 3-7.\<close>

fun utf8_valid :: "byte list \<Rightarrow> bool" where
  "utf8_valid [] \<longleftrightarrow> True"
| "utf8_valid (a # r) \<longleftrightarrow>
     (let within = (\<lambda>b lo hi. lo \<le> b \<and> b \<le> (hi :: byte)) in
      if a \<le> 0x7F then utf8_valid r
      else (case r of
          [] \<Rightarrow> False
        | b # r1 \<Rightarrow>
            if within a 0xC2 0xDF then within b 0x80 0xBF \<and> utf8_valid r1
            else (case r1 of
                [] \<Rightarrow> False
              | c # r2 \<Rightarrow>
                  if within a 0xE0 0xEF then
                    within b (if a = 0xE0 then 0xA0 else 0x80) (if a = 0xED then 0x9F else 0xBF) \<and> within c 0x80 0xBF \<and> utf8_valid r2
                  else (case r2 of
                      [] \<Rightarrow> False
                    | d # r3 \<Rightarrow> within a 0xF0 0xF4 \<and> within b (if a = 0xF0 then 0x90 else 0x80) (if a = 0xF4 then 0x8F else 0xBF) \<and>
                        within c 0x80 0xBF \<and> within d 0x80 0xBF \<and> utf8_valid r3))))"

end
