(* ===== verification/Schemas.thy ===== *)
theory Schemas
  imports Rows Bytes
begin

text \<open>
  View schemas and their wire form (\<open>rust/src/value.rs\<close>, types \<open>Schema\<close>, \<open>RelDef\<close>, \<open>ScalarProjection\<close>;
  \<open>rust/src/wire_schema.rs\<close>). A schema is the shape of one level of a view with the schemas of its relationships below it.
  A subscription ships it once, and every batch carries its fingerprint, an FNV-1a hash of a byte stream. Names are lists of
  bytes, a \<open>ColId\<close> is a natural number and becomes a \<open>u32\<close> on the wire.
\<close>

type_synonym name = "byte list"

datatype value_type = TyString | TyNumber | TyBoolean | TyNull | TyJson | TyInt

record scalar_projection =
  proj_col :: col_id
  proj_identity :: cell_value

datatype schema = Schema
    (sch_columns: "name list")
    (sch_column_types: "value_type list")
    (sch_primary_key: "col_id list")
    (sch_sort: sort)
    (sch_relationships: "rel_def list")
    (sch_singular: bool)
    (sch_projection: "col_id list option")
  and rel_def = RelDef
    (rel_name: name)
    (rel_target: "schema option")
    (rel_project: "scalar_projection option")

definition schema_new :: "name list \<Rightarrow> col_id list \<Rightarrow> sort \<Rightarrow> schema" where
  "schema_new cols pk srt = Schema cols (replicate (length cols) TyNumber) pk srt [] False None"

definition rel_child :: "schema \<Rightarrow> nat \<Rightarrow> schema option" where
  "rel_child s slot = (if slot < length (sch_relationships s) then rel_target (sch_relationships s ! slot) else None)"

section \<open>The wire form\<close>

record wire_projection =
  wproj_col :: "32 word"
  wproj_identity :: cell_value

datatype wire_schema = WireSchema
    (ws_columns: "name list")
    (ws_primary_key: "32 word list")
    (ws_sort: "(32 word \<times> bool) list")
    (ws_singular: bool)
    (ws_relationships: "wire_rel list")
  and wire_rel = WireRel
    (wr_name: name)
    (wr_slot: "32 word")
    (wr_child: "wire_schema option")
    (wr_project: "wire_projection option")

primrec to_wire :: "schema \<Rightarrow> wire_schema" and rel_to_wire :: "rel_def \<Rightarrow> 32 word \<Rightarrow> wire_rel" where
  "to_wire (Schema cols tys pk srt rels single proj) =
     WireSchema cols (map of_nat pk) (map (map_prod of_nat id) srt) single
       (map (\<lambda>(i, f). f (of_nat i)) (enumerate 0 (map rel_to_wire rels)))"
| "rel_to_wire (RelDef nm ch pr) slot =
     WireRel nm slot (map_option to_wire ch)
       (map_option (\<lambda>p. \<lparr> wproj_col = of_nat (proj_col p), wproj_identity = proj_identity p \<rparr>) pr)"

primrec to_schema :: "wire_schema \<Rightarrow> schema" and rel_from_wire :: "wire_rel \<Rightarrow> rel_def" where
  "to_schema (WireSchema cols pk srt single rels) =
     Schema cols (replicate (length cols) TyNumber) (map unat pk) (map (map_prod unat id) srt) (map rel_from_wire rels) single None"
| "rel_from_wire (WireRel nm slot ch pr) =
     RelDef nm (map_option to_schema ch)
       (if ch = None then None
        else map_option (\<lambda>p. \<lparr> proj_col = unat (wproj_col p), proj_identity = wproj_identity p \<rparr>) pr)"

text \<open>What a schema from the wire has to satisfy to be the wire form of a schema: the slots are numbered in order and a slot
  without a child schema has no scalar projection.\<close>

primrec wire_ok :: "wire_schema \<Rightarrow> bool" and wire_rel_ok :: "wire_rel \<Rightarrow> bool" where
  "wire_ok (WireSchema cols pk srt single rels) \<longleftrightarrow>
     map wr_slot rels = map of_nat [0..<length rels] \<and> list_all id (map wire_rel_ok rels)"
| "wire_rel_ok (WireRel nm slot ch pr) \<longleftrightarrow> pred_option id (map_option wire_ok ch) \<and> (ch = None \<longrightarrow> pr = None)"

lemma numbered_map:
  "map (\<lambda>(i, f). f (of_nat i)) (enumerate n (map (rel_to_wire \<circ> g) rs)) = rs \<longleftrightarrow>
   map wr_slot rs = map of_nat [n..<n + length rs] \<and> (\<forall>r\<in>set rs. rel_to_wire (g r) (wr_slot r) = r)"
proof (induction rs arbitrary: n)
  case (Cons r rs)
  have slot: "wr_slot (rel_to_wire (g r) k) = k" for k by (cases "g r") simp
  have "[n..<n + length (r # rs)] = n # [Suc n..<Suc n + length rs]" using upt_conv_Cons [of n "n + length (r # rs)"] by simp
  then show ?case using Cons.IH [of "Suc n"] slot by auto (metis slot)+
qed simp

lemma wire_roundtrip:
  "to_wire (to_schema w) = w \<longleftrightarrow> wire_ok w"
  "rel_to_wire (rel_from_wire r) (wr_slot r) = r \<longleftrightarrow> wire_rel_ok r"
proof (induction w and r)
  case (WireSchema cols pk srt single rels)
  have "map (map_prod of_nat id \<circ> map_prod unat id) srt = (srt :: (32 word \<times> bool) list)" by (induction srt) auto
  moreover have "map (of_nat \<circ> unat) pk = (pk :: 32 word list)" by (induction pk) auto
  ultimately show ?case using WireSchema numbered_map [of 0 rel_from_wire rels] by (simp add: list_all_iff)
next
  case (WireRel nm slot ch pr)
  have "map_option (\<lambda>p. \<lparr>wproj_col = of_nat (unat (wproj_col p)), wproj_identity = wproj_identity p\<rparr>) pr = pr"
    by (cases pr) simp_all
  then show ?case using WireRel by (cases ch) (auto simp: option.map_comp comp_def)
qed

section \<open>The fingerprint\<close>

unbundle bit_operations_syntax

definition fnv_basis :: "64 word" where
  "fnv_basis = 0xcbf29ce484222325"

definition fnv_byte :: "64 word \<Rightarrow> byte \<Rightarrow> 64 word" where
  "fnv_byte h b = (h XOR ucast b) * 0x100000001b3"

definition fnv_bytes :: "64 word \<Rightarrow> byte list \<Rightarrow> 64 word" where
  "fnv_bytes h bs = foldl fnv_byte h bs"

definition fnv_u32 :: "64 word \<Rightarrow> 32 word \<Rightarrow> 64 word" where
  "fnv_u32 h v = fnv_bytes h (le32 v)"

definition fnv_s :: "64 word \<Rightarrow> name \<Rightarrow> 64 word" where
  "fnv_s h s = fnv_bytes (fnv_u32 h (of_nat (length s))) s"

fun fnv_cols :: "64 word \<Rightarrow> name list \<Rightarrow> 32 word list \<Rightarrow> 64 word option" where
  "fnv_cols h cols [] = Some h"
| "fnv_cols h cols (c # cs) = do { nm \<leftarrow> vec_get cols (unat c); fnv_cols (fnv_s h nm) cols cs }"

fun fnv_sort :: "64 word \<Rightarrow> name list \<Rightarrow> (32 word \<times> bool) list \<Rightarrow> 64 word option" where
  "fnv_sort h cols [] = Some h"
| "fnv_sort h cols ((c, asc) # cs) = do {
     nm \<leftarrow> vec_get cols (unat c);
     fnv_sort (fnv_byte (fnv_s h nm) (if asc then 1 else 0)) cols cs
   }"

fun hash_level :: "64 word \<Rightarrow> wire_schema \<Rightarrow> 64 word option" and hash_rels :: "64 word \<Rightarrow> wire_rel list \<Rightarrow> 64 word option" where
  "hash_level h (WireSchema cols pk srt single rels) = do {
     let h1 = foldl fnv_s (fnv_u32 (fnv_byte h 83) (of_nat (length cols))) cols;
     h2 \<leftarrow> fnv_cols (fnv_u32 h1 (of_nat (length pk))) cols pk;
     h3 \<leftarrow> fnv_sort (fnv_u32 h2 (of_nat (length srt))) cols srt;
     hash_rels (fnv_u32 (fnv_byte h3 (if single then 1 else 0)) (of_nat (length rels))) rels
   }"
| "hash_rels h [] = Some h"
| "hash_rels h (WireRel nm slot None pr # rs) = hash_rels (fnv_byte (fnv_s h nm) 0) rs"
| "hash_rels h (WireRel nm slot (Some ch) pr # rs) = do {
     h1 \<leftarrow> hash_level (fnv_byte (fnv_s h nm) 1) ch;
     h2 \<leftarrow> (case pr of
         Some p \<Rightarrow> do { c \<leftarrow> vec_get (ws_columns ch) (unat (wproj_col p)); Some (fnv_s (fnv_byte h1 1) c) }
       | None \<Rightarrow> Some (fnv_byte h1 0));
     hash_rels h2 rs
   }"

definition schema_fp :: "wire_schema \<Rightarrow> 64 word option" where
  "schema_fp ws = hash_level fnv_basis ws"

subsection \<open>What is hashed\<close>

text \<open>The meaning of a wire schema: everything by name, and nothing of the numbering.\<close>

datatype sem_schema = Sem
    (sem_columns: "name list")
    (sem_key: "name list")
    (sem_sort: "(name \<times> bool) list")
    (sem_single: bool)
    (sem_rels: "sem_rel list")
  and sem_rel = SemGate name | SemRel name sem_schema "name option"

fun names_of :: "name list \<Rightarrow> 32 word list \<Rightarrow> name list option" where
  "names_of cols [] = Some []"
| "names_of cols (c # cs) = do { nm \<leftarrow> vec_get cols (unat c); ns \<leftarrow> names_of cols cs; Some (nm # ns) }"

fun sem_of :: "wire_schema \<Rightarrow> sem_schema option" and sem_rels_of :: "wire_rel list \<Rightarrow> sem_rel list option" where
  "sem_of (WireSchema cols pk srt single rels) = do {
     k \<leftarrow> names_of cols pk;
     s \<leftarrow> names_of cols (map fst srt);
     rs \<leftarrow> sem_rels_of rels;
     Some (Sem cols k (zip s (map snd srt)) single rs)
   }"
| "sem_rels_of [] = Some []"
| "sem_rels_of (WireRel nm slot None pr # rs) = do { ms \<leftarrow> sem_rels_of rs; Some (SemGate nm # ms) }"
| "sem_rels_of (WireRel nm slot (Some ch) pr # rs) = do {
     m \<leftarrow> sem_of ch;
     p \<leftarrow> (case pr of
         Some p \<Rightarrow> do { c \<leftarrow> vec_get (ws_columns ch) (unat (wproj_col p)); Some (Some c) }
       | None \<Rightarrow> Some None);
     ms \<leftarrow> sem_rels_of rs;
     Some (SemRel nm m p # ms)
   }"

definition enc_name :: "name \<Rightarrow> byte list" where
  "enc_name s = le32 (of_nat (length s)) @ s"

definition enc_list :: "('a \<Rightarrow> byte list) \<Rightarrow> 'a list \<Rightarrow> byte list" where
  "enc_list e xs = le32 (of_nat (length xs)) @ concat (map e xs)"

definition enc_flag :: "bool \<Rightarrow> byte list" where
  "enc_flag b = [if b then 1 else 0]"

fun enc_opt :: "('a \<Rightarrow> byte list) \<Rightarrow> 'a option \<Rightarrow> byte list" where
  "enc_opt e None = [0]"
| "enc_opt e (Some x) = 1 # e x"

fun enc_sem :: "sem_schema \<Rightarrow> byte list" and enc_rels :: "sem_rel list \<Rightarrow> byte list" where
  "enc_sem (Sem cols k srt single rels) =
     83 # enc_list enc_name cols @ enc_list enc_name k @ enc_list (\<lambda>(n, b). enc_name n @ enc_flag b) srt @ enc_flag single @
     le32 (of_nat (length rels)) @ enc_rels rels"
| "enc_rels [] = []"
| "enc_rels (SemGate nm # rs) = enc_name nm @ 0 # enc_rels rs"
| "enc_rels (SemRel nm m p # rs) = enc_name nm @ 1 # enc_sem m @ enc_opt enc_name p @ enc_rels rs"

lemma fnv_append: "fnv_bytes h (xs @ ys) = fnv_bytes (fnv_bytes h xs) ys" "fnv_bytes h [] = h" "fnv_bytes h (b # ys) = fnv_bytes (fnv_byte h b) ys"
  by (simp_all add: fnv_bytes_def)

lemma fnv_s_enc: "fnv_s h s = fnv_bytes h (enc_name s)"
  by (simp add: fnv_s_def fnv_u32_def enc_name_def fnv_append)

lemma fnv_names: "foldl fnv_s h ns = fnv_bytes h (concat (map enc_name ns))"
  by (induction ns arbitrary: h) (simp_all add: fnv_append fnv_s_enc)

lemma fnv_cols_enc: "fnv_cols h cols cs = map_option (\<lambda>ns. fnv_bytes h (concat (map enc_name ns))) (names_of cols cs)"
  by (induction cs arbitrary: h) (auto simp: fnv_append fnv_s_enc Option.bind_map_option comp_def map_option_bind split: bind_split)

lemma names_of_length: "names_of cols cs = Some ns \<Longrightarrow> length ns = length cs"
  by (induction cs arbitrary: ns) (auto split: bind_splits)

lemma fnv_sort_enc:
  "fnv_sort h cols srt = map_option (\<lambda>ns. fnv_bytes h (concat (map (\<lambda>(n, b). enc_name n @ enc_flag b) (zip ns (map snd srt))))) (names_of cols (map fst srt))"
proof (induction srt arbitrary: h)
  case (Cons p srt)
  then show ?case by (cases p) (auto simp: fnv_append fnv_s_enc enc_flag_def split: bind_split)
qed (simp add: fnv_append)

lemma sem_rels_length: "sem_rels_of rs = Some ms \<Longrightarrow> length ms = length rs"
proof (induction rs arbitrary: ms)
  case (Cons r rs)
  then show ?case by (cases r; cases "wr_child r") (auto split: bind_splits)
qed simp

lemma hash_level_enc:
  "hash_level h w = map_option (\<lambda>m. fnv_bytes h (enc_sem m)) (sem_of w)"
  "hash_rels h rs = map_option (\<lambda>ms. fnv_bytes h (enc_rels ms)) (sem_rels_of rs)"
proof (induction h w and h rs rule: hash_level_hash_rels.induct)
  case (1 h cols pk srt single rels)
  show ?case
  proof (cases "names_of cols pk = None \<or> names_of cols (map fst srt) = None")
    case True
    then show ?thesis by (auto simp: fnv_cols_enc fnv_sort_enc Let_def)
  next
    case False
    then obtain k s where ks: "names_of cols pk = Some k" "names_of cols (map fst srt) = Some s" by auto
    define H where "H = fnv_bytes h (83 # enc_list enc_name cols @ enc_list enc_name k @
      enc_list (\<lambda>(n, b). enc_name n @ enc_flag b) (zip s (map snd srt)) @ enc_flag single @ le32 (of_nat (length rels)))"
    have len: "length k = length pk" "length (zip s (map snd srt)) = length srt"
      using names_of_length [OF ks(1)] names_of_length [OF ks(2)] by simp_all
    have "hash_level h (WireSchema cols pk srt single rels) = hash_rels H rels"
      using ks len by (simp add: fnv_cols_enc fnv_sort_enc fnv_names Let_def H_def enc_list_def enc_flag_def fnv_u32_def fnv_append)
    moreover have "hash_rels H rels = map_option (\<lambda>ms. fnv_bytes H (enc_rels ms)) (sem_rels_of rels)"
      unfolding H_def using 1 [of "foldl fnv_s (fnv_u32 (fnv_byte h 83) (of_nat (length cols))) cols"] ks len
      by (simp add: fnv_cols_enc fnv_sort_enc fnv_names enc_list_def enc_flag_def fnv_u32_def fnv_append)
    ultimately show ?thesis using ks
      by (cases "sem_rels_of rels") (auto simp: H_def fnv_append enc_list_def enc_flag_def dest: sem_rels_length)
  qed
next
  case (4 h nm slot ch pr rs)
  show ?case
  proof (cases "sem_of ch")
    case None
    then show ?thesis using 4(1) by simp
  next
    case (Some m)
    have lev: "hash_level (fnv_byte (fnv_s h nm) 1) ch = Some (fnv_bytes (fnv_byte (fnv_s h nm) 1) (enc_sem m))" using 4(1) Some by simp
    then show ?thesis using 4(2) [OF lev] Some
      by (cases pr) (auto simp: fnv_append fnv_s_enc split: bind_splits option.splits)
  qed
qed (auto simp: fnv_append fnv_s_enc option.map_comp comp_def split: bind_split)

text \<open>A schema fits the wire when every list and name has fewer than \<open>2 ^ 32\<close> elements.\<close>

definition small :: "'a list \<Rightarrow> bool" where
  "small xs \<longleftrightarrow> length xs < 2 ^ 32"

fun sem_small :: "sem_schema \<Rightarrow> bool" and rel_small :: "sem_rel \<Rightarrow> bool" where
  "sem_small (Sem cols k srt single rels) \<longleftrightarrow>
     small cols \<and> list_all small cols \<and> small k \<and> list_all small k \<and> small srt \<and> list_all (small \<circ> fst) srt \<and>
     small rels \<and> (\<forall>r\<in>set rels. rel_small r)"
| "rel_small (SemGate nm) \<longleftrightarrow> small nm"
| "rel_small (SemRel nm m p) \<longleftrightarrow> small nm \<and> sem_small m \<and> pred_option small p"

lemma small_len_eq: "small xs \<Longrightarrow> small ys \<Longrightarrow> (of_nat (length xs) :: 32 word) = of_nat (length ys) \<longleftrightarrow> length xs = length ys"
proof -
  have "unat (of_nat n :: 32 word) = n" if "n < 2 ^ 32" for n using that by (simp add: unat_of_nat)
  then show "small xs \<Longrightarrow> small ys \<Longrightarrow> ?thesis" unfolding small_def by metis
qed

lemma len_prefix_iff:
  "small xs \<Longrightarrow> small ys \<Longrightarrow> le32 (of_nat (length xs)) @ r = le32 (of_nat (length ys)) @ s \<longleftrightarrow> length xs = length ys \<and> r = s"
  by (simp add: small_len_eq)

lemma enc_name_iff: "small x \<Longrightarrow> small y \<Longrightarrow> enc_name x @ r = enc_name y @ s \<longleftrightarrow> x = y \<and> r = s"
  by (auto simp: enc_name_def small_len_eq)

lemma enc_list_iff:
  assumes "self_delim A e" "small xs" "small ys" "set xs \<subseteq> A" "set ys \<subseteq> A"
  shows "enc_list e xs @ r = enc_list e ys @ s \<longleftrightarrow> xs = ys \<and> r = s"
  using self_delim_concat [OF assms(1,4,5), of r s] assms(2,3) by (auto simp: enc_list_def small_len_eq)

lemma enc_flag_iff: "enc_flag a @ r = enc_flag b @ s \<longleftrightarrow> a = b \<and> r = s"
  by (simp add: enc_flag_def)

lemma self_delim_names: "self_delim {s. small s} enc_name"
  by (simp add: self_delim_def enc_name_iff)

lemma self_delim_sort: "self_delim {p. small (fst p)} (\<lambda>(n, b). enc_name n @ enc_flag b)"
  by (simp add: self_delim_def enc_name_iff enc_flag_iff split_beta prod_eq_iff)

lemmas enc_lists_iff = enc_list_iff [OF self_delim_names] enc_list_iff [OF self_delim_sort]

lemma enc_opt_iff: "pred_option small p \<Longrightarrow> pred_option small q \<Longrightarrow> enc_opt enc_name p @ r = enc_opt enc_name q @ s \<longleftrightarrow> p = q \<and> r = s"
  by (cases p; cases q) (auto simp: enc_name_iff)

lemma enc_sem_inj:
  "sem_small m \<Longrightarrow> sem_small m' \<Longrightarrow> enc_sem m @ r = enc_sem m' @ s \<Longrightarrow> m = m' \<and> r = s"
  "\<forall>x\<in>set rs. rel_small x \<Longrightarrow> \<forall>x\<in>set rs'. rel_small x \<Longrightarrow> length rs = length rs' \<Longrightarrow> enc_rels rs @ r = enc_rels rs' @ s \<Longrightarrow> rs = rs' \<and> r = s"
proof (induction m and rs arbitrary: m' r s and rs' r s rule: enc_sem_enc_rels.induct)
  case (1 cols k srt single rels)
  obtain cols' k' srt' single' rels' where m': "m' = Sem cols' k' srt' single' rels'" by (cases m')
  have sub: "set cols \<subseteq> {s. small s}" "set k \<subseteq> {s. small s}" "set srt \<subseteq> {p. small (fst p)}"
    "set cols' \<subseteq> {s. small s}" "set k' \<subseteq> {s. small s}" "set srt' \<subseteq> {p. small (fst p)}"
    and sm: "small cols" "small k" "small srt" "small rels" "small cols'" "small k'" "small srt'" "small rels'"
    and rel: "\<forall>r\<in>set rels. rel_small r" "\<forall>r\<in>set rels'. rel_small r"
    using 1(2,3) by (auto simp: m' list_all_iff)
  have e: "cols = cols' \<and> k = k' \<and> srt = srt' \<and> single = single' \<and> length rels = length rels' \<and> enc_rels rels @ r = enc_rels rels' @ s"
    using 1(4) unfolding m' enc_sem.simps append_assoc append_Cons list.inject
      enc_lists_iff(1) [OF sm(1,5) sub(1,4)] enc_lists_iff(1) [OF sm(2,6) sub(2,5)] enc_lists_iff(2) [OF sm(3,7) sub(3,6)]
    by (simp add: enc_flag_def len_prefix_iff [OF sm(4,8)] split: if_splits)
  moreover have "rels = rels' \<and> r = s" using 1(1) [OF rel] e by blast
  ultimately show ?case by (simp add: m')
next
  case (3 nm rs)
  obtain x xs where rs': "rs' = x # xs" using 3(4) by (cases rs') auto
  show ?case
  proof (cases x)
    case (SemGate nm')
    then have "nm = nm' \<and> enc_rels rs @ r = enc_rels xs @ s" using 3(2-5) by (simp add: rs' enc_name_iff)
    then show ?thesis using 3(1) [of xs r s] 3(2-4) SemGate by (simp add: rs')
  next
    case (SemRel nm' m' p')
    then show ?thesis using 3(2-5) by (simp add: rs' enc_name_iff)
  qed
next
  case (4 nm m p rs)
  obtain x xs where rs': "rs' = x # xs" using 4(5) by (cases rs') auto
  show ?case
  proof (cases x)
    case (SemGate nm')
    then show ?thesis using 4(3-6) by (simp add: rs' enc_name_iff)
  next
    case (SemRel nm' m' p')
    have sm: "sem_small m" "sem_small m'" "pred_option small p" "pred_option small p'" using 4(3,4) SemRel by (simp_all add: rs')
    have "nm = nm' \<and> enc_sem m @ enc_opt enc_name p @ enc_rels rs @ r = enc_sem m' @ enc_opt enc_name p' @ enc_rels xs @ s"
      using 4(3-6) SemRel by (simp add: rs' enc_name_iff)
    moreover from this have "m = m' \<and> enc_opt enc_name p @ enc_rels rs @ r = enc_opt enc_name p' @ enc_rels xs @ s"
      using 4(1) [OF sm(1,2)] by blast
    moreover from this have "p = p' \<and> enc_rels rs @ r = enc_rels xs @ s" using sm(3,4) by (simp add: enc_opt_iff)
    moreover from this have "rs = xs \<and> r = s" using 4(2) [of xs r s] 4(3-5) by (simp add: rs')
    ultimately show ?thesis using SemRel by (simp add: rs')
  qed
qed simp

lemma columns_rebuilt: "ws_columns (to_wire (to_schema w)) = ws_columns w"
  by (cases w) simp

lemma sem_rebuilt:
  "sem_of (to_wire (to_schema w)) = sem_of w"
  "sem_rels_of (map (\<lambda>(i, f). f (of_nat i)) (enumerate n (map (rel_to_wire \<circ> rel_from_wire) rs))) = sem_rels_of rs"
proof (induction w and rs arbitrary: and n rule: sem_of_sem_rels_of.induct)
  case (1 cols pk srt single rels)
  have "map (map_prod of_nat id \<circ> map_prod unat id) srt = (srt :: (32 word \<times> bool) list)" by (induction srt) auto
  moreover have "map (of_nat \<circ> unat) pk = (pk :: 32 word list)" by (induction pk) auto
  ultimately show ?case using 1
    by (cases "names_of cols pk"; cases "names_of cols (map fst srt)") (simp_all add: comp_def)
next
  case (4 nm slot ch pr rs)
  show ?case
  proof (cases "sem_of ch")
    case None
    then show ?thesis using 4(1) by simp
  next
    case (Some m)
    then show ?thesis using 4 by (cases pr; cases "vec_get (ws_columns ch) (unat (wproj_col (the pr)))") (simp_all add: columns_rebuilt comp_def)
  qed
qed (simp_all add: comp_def)

section \<open>Properties\<close>

text \<open>(C39) The fingerprint of a wire schema is the FNV-1a hash of a byte stream that is determined by the meaning of the schema
  (columns, key, sort, cardinality and relationships by name, numbering apart) and determines it: two schemas within the limits
  of the format have the same stream exactly when they mean the same. The schema a receiver rebuilds has the fingerprint of
  the one shipped, and its wire form is the one shipped exactly when that one numbers its slots in order and puts no scalar
  projection on a gating slot.\<close>

theorem fingerprint_semantic:
  assumes "sem_of w = Some m" "sem_of w' = Some m'" "sem_small m" "sem_small m'"
  shows "schema_fp w = Some (fnv_bytes fnv_basis (enc_sem m)) \<and> (enc_sem m = enc_sem m' \<longleftrightarrow> m = m') \<and>
    schema_fp (to_wire (to_schema w)) = schema_fp w \<and> (to_wire (to_schema w) = w \<longleftrightarrow> wire_ok w)"
  using enc_sem_inj(1) [OF assms(3,4), of "[]" "[]"] assms(1)
  by (auto simp: schema_fp_def hash_level_enc sem_rebuilt wire_roundtrip)

definition demo_wire :: wire_schema where
  "demo_wire = WireSchema [[105, 100], [118]] [0] [(1, True), (0, True)] False
     [WireRel [99] 0 (Some (WireSchema [[105, 100]] [0] [(0, True)] False [])) None, WireRel [103] 1 None None]"

definition demo_sem :: sem_schema where
  "demo_sem = Sem [[105, 100], [118]] [[105, 100]] [([118], True), ([105, 100], True)] False
     [SemRel [99] (Sem [[105, 100]] [[105, 100]] [([105, 100], True)] False []) None, SemGate [103]]"

theorem fingerprint_semantic_witness:
  "schema_fp demo_wire = Some (fnv_bytes fnv_basis (enc_sem demo_sem)) \<and> to_wire (to_schema demo_wire) = demo_wire"
proof -
  have "sem_of demo_wire = Some demo_sem" by code_simp
  moreover have "sem_small demo_sem" by (simp add: demo_sem_def small_def)
  moreover have "wire_ok demo_wire" by (simp add: demo_wire_def)
  ultimately show ?thesis using fingerprint_semantic [of demo_wire demo_sem demo_wire demo_sem] by simp
qed

end
