(* ===== verification/Slice_Search.thy ===== *)
theory Slice_Search
  imports BTree
begin

text \<open>
  The standard library's \<open>slice::binary_search_by\<close>: halve the range until one element is left, then compare once more. The sinks
  use it to locate a row in a sorted list of entries. \<open>Found\<close> is \<open>Ok\<close>, \<open>InsertAt\<close> is \<open>Err\<close>.
\<close>

function half_loop :: "('a \<Rightarrow> ordering option) \<Rightarrow> 'a list \<Rightarrow> nat \<Rightarrow> nat \<Rightarrow> nat option" where
  "half_loop f xs base sz =
     (if sz > 1 then do {
        let half = sz div 2;
        let mid = base + half;
        x \<leftarrow> vec_get xs mid;
        c \<leftarrow> f x;
        half_loop f xs (if c = Greater then base else mid) (sz - half)
      } else Some base)"
  by pat_completeness auto
termination
  by (relation "measure (\<lambda>(f, xs, base, sz). sz)") auto

declare half_loop.simps [simp del]

definition slice_search :: "('a \<Rightarrow> ordering option) \<Rightarrow> 'a list \<Rightarrow> search_result option" where
  "slice_search f xs =
     (if xs = [] then Some (InsertAt 0)
      else do {
        base \<leftarrow> half_loop f xs 0 (length xs);
        x \<leftarrow> vec_get xs base;
        c \<leftarrow> f x;
        Some (if c = Equal then Found base else InsertAt (base + (if c = Less then 1 else 0)))
      })"

text \<open>Vector accesses commute with a map over the elements.\<close>

lemma vec_map:
  "vec_get (map g xs) i = map_option g (vec_get xs i)" "vec_set (map g xs) i (g x) = map_option (map g) (vec_set xs i x)"
  "vec_insert (map g xs) i (g x) = map_option (map g) (vec_insert xs i x)" "vec_remove (map g xs) i = map_option (map g) (vec_remove xs i)"
  by (simp_all add: vec_get_def vec_set_def vec_insert_def vec_remove_def map_update take_map drop_map)

lemma vec_sets:
  "vec_get es i = Some e \<Longrightarrow> e \<in> set es" "vec_set es i e = Some es' \<Longrightarrow> set es' \<subseteq> insert e (set es)"
  "vec_insert es i e = Some es' \<Longrightarrow> set es' \<subseteq> insert e (set es)" "vec_remove es i = Some es' \<Longrightarrow> set es' \<subseteq> set es"
  using set_update_subset_insert [of es i e] set_take_subset [of i es] set_drop_subset [of i es] set_drop_subset [of "Suc i" es]
  by (auto simp: vec_get_def vec_set_def vec_insert_def vec_remove_def split: if_splits)

text \<open>The search looks at the elements through the comparison only.\<close>

lemma half_loop_map: "half_loop f (map g xs) base sz = half_loop (f \<circ> g) xs base sz"
proof (induction sz arbitrary: base rule: less_induct)
  case (less sz)
  have IH: "half_loop f (map g xs) b (sz - sz div 2) = half_loop (f \<circ> g) xs b (sz - sz div 2)" if "sz > 1" for b
    by (rule less.IH) (use that in simp)
  show ?case by (subst (1 2) half_loop.simps) (auto simp: Let_def vec_get_def IH split: bind_split)
qed

lemma slice_search_map: "slice_search f (map g xs) = slice_search (f \<circ> g) xs"
  by (auto simp: slice_search_def half_loop_map vec_get_def split: bind_split)

lemma slice_search_range: "slice_search f xs = Some (Found i) \<Longrightarrow> i < length xs" "slice_search f xs = Some (InsertAt i) \<Longrightarrow> i \<le> length xs"
  by (auto simp: slice_search_def vec_get_def Let_def split: if_splits bind_splits)

text \<open>On a list cut into elements before, at and after the key, the loop ends at the last element not after it.\<close>

definition cuts :: "('a \<Rightarrow> ordering option) \<Rightarrow> 'a list \<Rightarrow> 'a list \<Rightarrow> 'a list \<Rightarrow> bool" where
  "cuts f ls ms hs \<longleftrightarrow> (\<forall>x\<in>set ls. f x = Some Less) \<and> (\<forall>x\<in>set ms. f x = Some Equal) \<and> (\<forall>x\<in>set hs. f x = Some Greater)"

lemma cuts_nth:
  assumes "cuts f ls ms hs" "i < length (ls @ ms @ hs)"
  shows "f ((ls @ ms @ hs) ! i) = Some (if i < length ls then Less else if i < length ls + length ms then Equal else Greater)"
  using assms by (auto simp: cuts_def nth_append)

lemma half_loop_cuts:
  assumes "cuts f ls ms hs"
  shows "\<lbrakk>base < n; base = 0 \<or> base < length ls + length ms; n \<le> length (ls @ ms @ hs); length ls + length ms \<le> n; sz = n - base\<rbrakk> \<Longrightarrow>
    half_loop f (ls @ ms @ hs) base sz = Some (length ls + length ms - 1)"
proof (induction sz arbitrary: base n rule: less_induct)
  case (less sz)
  let ?xs = "ls @ ms @ hs" and ?k = "length ls + length ms"
  show ?case
  proof (cases "sz > 1")
    case True
    let ?half = "sz div 2" and ?mid = "base + sz div 2"
    have h: "0 < ?half" "?half < sz" "?mid < n" using True less.prems by auto
    then have mid: "?mid < length ?xs" using less.prems by simp
    show ?thesis
    proof (cases "?mid < ?k")
      case True
      have "half_loop f ?xs base sz = half_loop f ?xs ?mid (sz - ?half)"
        using \<open>sz > 1\<close> mid cuts_nth [OF assms mid] True by (subst half_loop.simps) (simp add: Let_def)
      also have "\<dots> = Some (?k - 1)" by (rule less.IH [where n = n]) (use h True less.prems in auto)
      finally show ?thesis .
    next
      case False
      have "half_loop f ?xs base sz = half_loop f ?xs base (sz - ?half)"
        using \<open>sz > 1\<close> mid cuts_nth [OF assms mid] False by (subst half_loop.simps) (simp add: Let_def)
      also have "\<dots> = Some (?k - 1)" by (rule less.IH [where n = "base + (sz - ?half)"]) (use h False less.prems in \<open>auto simp: algebra_simps\<close>)
      finally show ?thesis .
    qed
  next
    case False
    then show ?thesis using less.prems by (subst half_loop.simps) auto
  qed
qed

lemma slice_search_cuts:
  assumes "cuts f ls ms hs"
  shows "slice_search f (ls @ ms @ hs) = Some (if ms = [] then InsertAt (length ls) else Found (length ls + length ms - 1))"
proof (cases "ls @ ms @ hs = []")
  case False
  let ?xs = "ls @ ms @ hs" and ?k = "length ls + length ms"
  have loop: "half_loop f ?xs 0 (length ?xs) = Some (?k - 1)" by (rule half_loop_cuts [OF assms]) (use False in auto)
  have i: "?k - 1 < length ?xs" using False by (cases hs) auto
  show ?thesis using False loop cuts_nth [OF assms i] i by (cases "ls = []"; cases ms) (auto simp: slice_search_def)
qed (simp add: slice_search_def)

text \<open>In a strictly sorted list the search finds the element with the key, or where it belongs.\<close>

lemma slice_search_found: "cuts f ls [m] hs \<Longrightarrow> slice_search f (ls @ m # hs) = Some (Found (length ls))"
  using slice_search_cuts [of f ls "[m]" hs] by simp

lemma slice_search_absent: "cuts f ls [] hs \<Longrightarrow> slice_search f (ls @ hs) = Some (InsertAt (length ls))"
  using slice_search_cuts [of f ls "[]" hs] by simp

end
