(* ===== verification/View_Tree.thy ===== *)
theory View_Tree
  imports Slice_Search Schemas Nodes
begin

text \<open>
  The materialized view (\<open>rust/src/view.rs\<close>): the tree of entries and the differ \<open>apply_change\<close> that folds one change into it.

  The program shares entries and lists through \<open>Arc\<close>s and copies them before writing; \<open>Arc::make_mut\<close> and the explicit clone of
  \<open>entry_cow\<close> and \<open>list_cow\<close> leave the same content with the stamp of the running transaction, which is what the model keeps.
  Pointer identity is not modelled, nor is the stable id of an entry, which is present only when \<open>with_ids\<close> is set. The
  relationships of a node are drained thunks, as in \<open>Nodes\<close>. A panic is \<^term>\<open>None\<close>.
\<close>

type_synonym txn_gen = "64 word"

datatype mutate = Immutable | InPlace | Cow

definition can_mut :: "txn_gen \<Rightarrow> mutate \<Rightarrow> txn_gen \<Rightarrow> bool" where
  "can_mut created mode gen = (case mode of Immutable \<Rightarrow> False | InPlace \<Rightarrow> True | Cow \<Rightarrow> created = gen)"

section \<open>The entry tree\<close>

datatype entry = Entry (e_row: row) (e_rc: "32 word") (e_created: txn_gen) (e_rels: "entry_list list")
  and entry_list = EList (l_created: txn_gen) (l_items: "entry list")

datatype view_change =
    ViewAdd node
  | ViewRemove node
  | ViewChild row rel_id view_change
  | ViewEdit row row

fun from_change :: "change \<Rightarrow> view_change" where
  "from_change (Add n) = ViewAdd n"
| "from_change (Remove n) = ViewRemove n"
| "from_change (Edit n old) = ViewEdit (node_row n) (node_row old)"
| "from_change (Child n rel c) = ViewChild (node_row n) rel (from_change c)"

definition entry_cow :: "txn_gen \<Rightarrow> entry \<Rightarrow> entry" where
  "entry_cow gen e = Entry (e_row e) (e_rc e) gen (e_rels e)"

definition set_rc :: "32 word \<Rightarrow> entry \<Rightarrow> entry" where
  "set_rc rc e = Entry (e_row e) rc (e_created e) (e_rels e)"

text \<open>The items of a slot; writing them goes through the copy-on-write accessors of the entry and of the list.\<close>

definition slot_items :: "entry \<Rightarrow> rel_id \<Rightarrow> entry list option" where
  "slot_items p rel = do { l \<leftarrow> vec_get (e_rels p) rel; Some (l_items l) }"

definition put_items :: "txn_gen \<Rightarrow> rel_id \<Rightarrow> entry list \<Rightarrow> entry \<Rightarrow> entry option" where
  "put_items gen rel items p = do {
     rels \<leftarrow> vec_set (e_rels p) rel (EList gen items);
     Some (Entry (e_row p) (e_rc p) gen rels)
   }"

definition entry_search :: "entry list \<Rightarrow> row \<Rightarrow> sort \<Rightarrow> search_result option" where
  "entry_search items r srt = slice_search (\<lambda>e. compare_rows srt (e_row e) r) items"

definition make_new_entry :: "row \<Rightarrow> schema \<Rightarrow> 32 word \<Rightarrow> txn_gen \<Rightarrow> entry" where
  "make_new_entry r sch rc gen = Entry r rc gen (replicate (length (sch_relationships sch)) (EList 0 []))"

definition synthetic_root :: entry where
  "synthetic_root = Entry [] 0 0 [EList 0 []]"

function (sequential) init_rels_for_new_entry :: "txn_gen \<Rightarrow> schema \<Rightarrow> entry \<Rightarrow> (rel_id \<times> node list) list \<Rightarrow> entry option"
  and init_items :: "txn_gen \<Rightarrow> schema \<Rightarrow> entry list \<Rightarrow> node list \<Rightarrow> entry list option" where
  "init_rels_for_new_entry gen sch e [] = Some e"
| "init_rels_for_new_entry gen sch e ((slot, kids) # rs) =
     (case rel_child sch slot of
        None \<Rightarrow> init_rels_for_new_entry gen sch e rs
      | Some cs \<Rightarrow> do {
          items \<leftarrow> init_items gen cs [] kids;
          rels \<leftarrow> (if items = [] then Some (e_rels e) else vec_set (e_rels e) slot (EList gen items));
          init_rels_for_new_entry gen sch (Entry (e_row e) (e_rc e) (e_created e) rels) rs
        })"
| "init_items gen cs items [] = Some items"
| "init_items gen cs items (Node r rels # ks) = do {
     res \<leftarrow> entry_search items r (sch_sort cs);
     items' \<leftarrow> (case res of
         Found p \<Rightarrow> do { e \<leftarrow> vec_get items p; vec_set items p (set_rc (e_rc e + 1) e) }
       | InsertAt i \<Rightarrow> do {
           ce \<leftarrow> init_rels_for_new_entry gen cs (make_new_entry r cs 1 gen) rels;
           vec_insert items i ce
         });
     init_items gen cs items' ks
   }"
  by pat_completeness auto
termination
  by (relation "measure (case_sum (\<lambda>(gen, sch, e, rs). size_list (size_prod (\<lambda>_. 0) (size_list size)) rs)
        (\<lambda>(gen, cs, items, ks). size_list size ks))") auto

section \<open>The differ\<close>

definition view_add :: "txn_gen \<Rightarrow> node \<Rightarrow> schema \<Rightarrow> rel_id \<Rightarrow> entry \<Rightarrow> (entry \<times> bool) option" where
  "view_add gen n sch rel p = do {
     items \<leftarrow> slot_items p rel;
     res \<leftarrow> entry_search items (node_row n) (sch_sort sch);
     items' \<leftarrow> (case res of
         Found i \<Rightarrow> do { e \<leftarrow> vec_get items i; vec_set items i (set_rc (e_rc e + 1) (entry_cow gen e)) }
       | InsertAt i \<Rightarrow> do {
           e \<leftarrow> init_rels_for_new_entry gen sch (make_new_entry (node_row n) sch 1 gen) (node_rels n);
           vec_insert items i e
         });
     p' \<leftarrow> put_items gen rel items' p;
     Some (p', True)
   }"

definition view_remove :: "txn_gen \<Rightarrow> row \<Rightarrow> schema \<Rightarrow> rel_id \<Rightarrow> entry \<Rightarrow> (entry \<times> bool) option" where
  "view_remove gen r sch rel p = do {
     items \<leftarrow> slot_items p rel;
     res \<leftarrow> entry_search items r (sch_sort sch);
     (case res of
        InsertAt _ \<Rightarrow> None
      | Found pos \<Rightarrow> do {
          e \<leftarrow> vec_get items pos;
          items' \<leftarrow> (if e_rc e = 1 then vec_remove items pos else vec_set items pos (set_rc (e_rc e - 1) (entry_cow gen e)));
          p' \<leftarrow> put_items gen rel items' p;
          Some (p', True)
        })
   }"

text \<open>\<open>apply_edit\<close> merges the row in place when the entry may be mutated and the sort key is unchanged, and replaces the entry by a
  copy otherwise; the content is the same.\<close>

definition entry_edit :: "txn_gen \<Rightarrow> row \<Rightarrow> entry \<Rightarrow> entry" where
  "entry_edit gen r e = Entry r (e_rc e) gen (e_rels e)"

definition view_move :: "txn_gen \<Rightarrow> row \<Rightarrow> nat \<Rightarrow> search_result \<Rightarrow> entry \<Rightarrow> entry list \<Rightarrow> entry list option" where
  "view_move gen new old_pos raw old_entry items = do {
     let pos = (case raw of Found i \<Rightarrow> i | InsertAt i \<Rightarrow> i);
     let new_rc = e_rc old_entry - 1;
     (items1, adjusted) \<leftarrow> (if new_rc = 0 then do {
         items1 \<leftarrow> vec_remove items old_pos;
         Some (items1, if old_pos < pos then pos - 1 else pos)
       } else do {
         items1 \<leftarrow> vec_set items old_pos (set_rc new_rc (entry_cow gen old_entry));
         Some (items1, pos)
       });
     (case raw of
        Found _ \<Rightarrow> do {
          e \<leftarrow> vec_get items1 adjusted;
          vec_set items1 adjusted (set_rc (e_rc e + 1) (entry_edit gen new e))
        }
      | InsertAt _ \<Rightarrow> vec_insert items1 adjusted (set_rc 1 (entry_edit gen new old_entry)))
   }"

definition view_edit :: "txn_gen \<Rightarrow> row \<Rightarrow> row \<Rightarrow> schema \<Rightarrow> rel_id \<Rightarrow> entry \<Rightarrow> (entry \<times> bool) option" where
  "view_edit gen new old sch rel p = do {
     let srt = sch_sort sch;
     c \<leftarrow> compare_rows srt old new;
     items \<leftarrow> slot_items p rel;
     res \<leftarrow> entry_search items old srt;
     (case res of
        InsertAt _ \<Rightarrow> None
      | Found old_pos \<Rightarrow> do {
          e \<leftarrow> vec_get items old_pos;
          items' \<leftarrow> (if c \<noteq> Equal then do {
              raw \<leftarrow> entry_search items new srt;
              let pos = (case raw of Found i \<Rightarrow> i | InsertAt i \<Rightarrow> i);
              if e_rc e = 1 \<and> (pos = old_pos \<or> 0 < pos \<and> pos - 1 = old_pos)
              then vec_set items old_pos (entry_edit gen new e)
              else view_move gen new old_pos raw e items
            } else vec_set items old_pos (entry_edit gen new e));
          p' \<leftarrow> put_items gen rel items' p;
          Some (p', True)
        })
   }"

fun view_apply :: "mutate \<Rightarrow> txn_gen \<Rightarrow> view_change \<Rightarrow> schema \<Rightarrow> rel_id \<Rightarrow> entry \<Rightarrow> (entry \<times> bool) option"
  and view_child :: "mutate \<Rightarrow> txn_gen \<Rightarrow> row \<Rightarrow> rel_id \<Rightarrow> view_change \<Rightarrow> schema \<Rightarrow> rel_id \<Rightarrow> entry \<Rightarrow> (entry \<times> bool) option" where
  "view_apply mode gen (ViewAdd n) sch rel p = view_add gen n sch rel p"
| "view_apply mode gen (ViewRemove n) sch rel p = view_remove gen (node_row n) sch rel p"
| "view_apply mode gen (ViewChild r crel ch) sch rel p = view_child mode gen r crel ch sch rel p"
| "view_apply mode gen (ViewEdit r old) sch rel p = view_edit gen r old sch rel p"
| "view_child mode gen r crel ch sch rel p =
     (case rel_child sch crel of
        None \<Rightarrow> Some (p, False)
      | Some cs \<Rightarrow> do {
          lst \<leftarrow> vec_get (e_rels p) rel;
          res \<leftarrow> entry_search (l_items lst) r (sch_sort sch);
          (case res of
             InsertAt _ \<Rightarrow> None
           | Found pos \<Rightarrow> do {
               e \<leftarrow> vec_get (l_items lst) pos;
               (e', changed) \<leftarrow> view_apply mode gen ch cs crel e;
               if \<not> can_mut (l_created lst) mode gen \<and> \<not> changed then Some (p, False)
               else do {
                 items' \<leftarrow> vec_set (l_items lst) pos e';
                 p' \<leftarrow> put_items gen rel items' p;
                 Some (p', changed)
               }
             })
        })"

definition apply_change :: "mutate \<Rightarrow> txn_gen \<Rightarrow> view_change \<Rightarrow> schema \<Rightarrow> rel_id \<Rightarrow> entry \<Rightarrow> entry option" where
  "apply_change mode gen c sch rel p = map_option fst (view_apply mode gen c sch rel p)"

end
