(* ===== verification/Flat.thy ===== *)
theory Flat
  imports Slice_Search Schemas Nodes
begin

text \<open>
  Flat changes and the reference receiver (\<open>rust/src/flat.rs\<close>, \<open>rust/src/flat_receiver.rs\<close>): a caught change is flattened into a
  path of parent rows and one operation at its end, and the receiver folds flat changes into its own tree of rows. \<open>to_value_vec\<close>
  and \<open>owned_row\<close> copy the cells of a row.
\<close>

section \<open>Flat changes\<close>

datatype wire_node = WireNode (wn_row: row) (wn_rels: "(rel_id \<times> wire_node list) list")

record path_seg =
  seg_rel :: rel_id
  seg_parent_row :: row

datatype flat_op = FlatAdd wire_node | FlatRemove row | FlatEdit row row

record flat_change =
  fc_path :: "path_seg list"
  fc_op :: flat_op

primrec wire_node_of :: "caught_node \<Rightarrow> wire_node" where
  "wire_node_of (CaughtNode r rels) = WireNode r (map (map_prod id (map wire_node_of)) rels)"

fun flatten_loop :: "path_seg list \<Rightarrow> caught_change \<Rightarrow> flat_change" where
  "flatten_loop path (CaughtChild r rel c) = flatten_loop (path @ [\<lparr> seg_rel = rel, seg_parent_row = r \<rparr>]) c"
| "flatten_loop path (CaughtAdd n) = \<lparr> fc_path = path, fc_op = FlatAdd (wire_node_of n) \<rparr>"
| "flatten_loop path (CaughtRemove n) = \<lparr> fc_path = path, fc_op = FlatRemove (caught_row n) \<rparr>"
| "flatten_loop path (CaughtEdit old r) = \<lparr> fc_path = path, fc_op = FlatEdit old r \<rparr>"

definition flatten :: "caught_change \<Rightarrow> flat_change" where
  "flatten c = flatten_loop [] c"

definition flatten_all :: "caught_change list \<Rightarrow> flat_change list" where
  "flatten_all cs = map flatten cs"

section \<open>The receiver\<close>

datatype recv_node = RecvNode (rn_row: row) (rn_rc: "32 word") (rn_rels: "recv_node list list")

record receiver =
  rv_schema :: schema
  rv_top :: "recv_node list"

definition receiver_new :: "schema \<Rightarrow> receiver" where
  "receiver_new sch = \<lparr> rv_schema = sch, rv_top = [] \<rparr>"

definition recv_search :: "recv_node list \<Rightarrow> row \<Rightarrow> sort \<Rightarrow> search_result option" where
  "recv_search ns r srt = slice_search (\<lambda>n. compare_rows srt (rn_row n) r) ns"

definition recv_set_rc :: "32 word \<Rightarrow> recv_node \<Rightarrow> recv_node" where
  "recv_set_rc rc n = RecvNode (rn_row n) rc (rn_rels n)"

definition recv_set_row :: "row \<Rightarrow> recv_node \<Rightarrow> recv_node" where
  "recv_set_row r n = RecvNode r (rn_rc n) (rn_rels n)"

definition recv_set_rels :: "recv_node list list \<Rightarrow> recv_node \<Rightarrow> recv_node" where
  "recv_set_rels ls n = RecvNode (rn_row n) (rn_rc n) ls"

function (sequential) build_node :: "schema \<Rightarrow> wire_node \<Rightarrow> recv_node option"
  and build_rels :: "schema \<Rightarrow> recv_node list list \<Rightarrow> (rel_id \<times> wire_node list) list \<Rightarrow> recv_node list list option"
  and build_list :: "schema \<Rightarrow> recv_node list \<Rightarrow> wire_node list \<Rightarrow> recv_node list option" where
  "build_node sch (WireNode r rels) = do {
     ls \<leftarrow> build_rels sch (replicate (length (sch_relationships sch)) []) rels;
     Some (RecvNode r 1 ls)
   }"
| "build_rels sch ls [] = Some ls"
| "build_rels sch ls ((slot, children) # rs) =
     (case rel_child sch slot of
        None \<Rightarrow> build_rels sch ls rs
      | Some cs \<Rightarrow> do {
          built \<leftarrow> build_list cs [] children;
          ls' \<leftarrow> vec_set ls slot built;
          build_rels sch ls' rs
        })"
| "build_list cs built [] = Some built"
| "build_list cs built (ch # chs) = do {
     res \<leftarrow> recv_search built (wn_row ch) (sch_sort cs);
     built' \<leftarrow> (case res of
         Found p \<Rightarrow> do { n \<leftarrow> vec_get built p; vec_set built p (recv_set_rc (rn_rc n + 1) n) }
       | InsertAt i \<Rightarrow> do { n \<leftarrow> build_node cs ch; vec_insert built i n });
     build_list cs built' chs
   }"
  by pat_completeness auto
termination
  by (relation "measure (case_sum (\<lambda>(sch, n). size n) (case_sum (\<lambda>(sch, ls, rs). size_list (size_prod (\<lambda>_. 0) (size_list size)) rs)
        (\<lambda>(cs, built, ks). size_list size ks)))") auto

definition recv_add :: "schema \<Rightarrow> wire_node \<Rightarrow> recv_node list \<Rightarrow> recv_node list option" where
  "recv_add sch n ns = do {
     res \<leftarrow> recv_search ns (wn_row n) (sch_sort sch);
     (case res of
        Found p \<Rightarrow> do { x \<leftarrow> vec_get ns p; vec_set ns p (recv_set_rc (rn_rc x + 1) x) }
      | InsertAt i \<Rightarrow> do { x \<leftarrow> build_node sch n; vec_insert ns i x })
   }"

definition recv_remove :: "schema \<Rightarrow> row \<Rightarrow> recv_node list \<Rightarrow> recv_node list option" where
  "recv_remove sch r ns = do {
     res \<leftarrow> recv_search ns r (sch_sort sch);
     (case res of
        InsertAt _ \<Rightarrow> None
      | Found pos \<Rightarrow> do {
          x \<leftarrow> vec_get ns pos;
          if rn_rc x = 1 then vec_remove ns pos else vec_set ns pos (recv_set_rc (rn_rc x - 1) x)
        })
   }"

definition recv_move :: "row \<Rightarrow> nat \<Rightarrow> search_result \<Rightarrow> recv_node \<Rightarrow> recv_node list \<Rightarrow> recv_node list option" where
  "recv_move new old_pos raw old_entry ns = do {
     let pos = (case raw of Found i \<Rightarrow> i | InsertAt i \<Rightarrow> i);
     let new_rc = rn_rc old_entry - 1;
     (ns1, adjusted) \<leftarrow> (if new_rc = 0 then do {
         ns1 \<leftarrow> vec_remove ns old_pos;
         Some (ns1, if old_pos < pos then pos - 1 else pos)
       } else do {
         ns1 \<leftarrow> vec_set ns old_pos (recv_set_rc new_rc old_entry);
         Some (ns1, pos)
       });
     (case raw of
        Found _ \<Rightarrow> do {
          x \<leftarrow> vec_get ns1 adjusted;
          vec_set ns1 adjusted (recv_set_rc (rn_rc x + 1) (recv_set_row new x))
        }
      | InsertAt _ \<Rightarrow> vec_insert ns1 adjusted (recv_set_rc 1 (recv_set_row new old_entry)))
   }"

definition recv_edit :: "schema \<Rightarrow> row \<Rightarrow> row \<Rightarrow> recv_node list \<Rightarrow> recv_node list option" where
  "recv_edit sch old new ns = do {
     let srt = sch_sort sch;
     c \<leftarrow> compare_rows srt old new;
     if c = Equal then do {
       res \<leftarrow> recv_search ns old srt;
       (case res of
          InsertAt _ \<Rightarrow> None
        | Found pos \<Rightarrow> do { x \<leftarrow> vec_get ns pos; vec_set ns pos (recv_set_row new x) })
     }
     else do {
       res \<leftarrow> recv_search ns old srt;
       (case res of
          InsertAt _ \<Rightarrow> None
        | Found old_pos \<Rightarrow> do {
            raw \<leftarrow> recv_search ns new srt;
            x \<leftarrow> vec_get ns old_pos;
            let pos = (case raw of Found i \<Rightarrow> i | InsertAt i \<Rightarrow> i);
            if rn_rc x = 1 \<and> (pos = old_pos \<or> 0 < pos \<and> pos - 1 = old_pos)
            then vec_set ns old_pos (recv_set_row new x)
            else recv_move new old_pos raw x ns
          })
     }
   }"

fun apply_op :: "schema \<Rightarrow> flat_op \<Rightarrow> recv_node list \<Rightarrow> recv_node list option" where
  "apply_op sch (FlatAdd n) ns = recv_add sch n ns"
| "apply_op sch (FlatRemove r) ns = recv_remove sch r ns"
| "apply_op sch (FlatEdit old new) ns = recv_edit sch old new ns"

fun apply_at :: "schema \<Rightarrow> path_seg list \<Rightarrow> flat_op \<Rightarrow> recv_node list \<Rightarrow> recv_node list option" where
  "apply_at sch [] op ns = apply_op sch op ns"
| "apply_at sch (seg # rest) op ns =
     (case rel_child sch (seg_rel seg) of
        None \<Rightarrow> Some ns
      | Some cs \<Rightarrow> do {
          res \<leftarrow> recv_search ns (seg_parent_row seg) (sch_sort sch);
          (case res of
             InsertAt _ \<Rightarrow> None
           | Found pos \<Rightarrow> do {
               x \<leftarrow> vec_get ns pos;
               l \<leftarrow> vec_get (rn_rels x) (seg_rel seg);
               l' \<leftarrow> apply_at cs rest op l;
               ls \<leftarrow> vec_set (rn_rels x) (seg_rel seg) l';
               vec_set ns pos (recv_set_rels ls x)
             })
        })"

definition receiver_apply :: "receiver \<Rightarrow> flat_change \<Rightarrow> receiver option" where
  "receiver_apply rv c = do {
     t \<leftarrow> apply_at (rv_schema rv) (fc_path c) (fc_op c) (rv_top rv);
     Some (rv \<lparr> rv_top := t \<rparr>)
   }"

fun receiver_apply_all :: "receiver \<Rightarrow> flat_change list \<Rightarrow> receiver option" where
  "receiver_apply_all rv [] = Some rv"
| "receiver_apply_all rv (c # cs) = do { rv' \<leftarrow> receiver_apply rv c; receiver_apply_all rv' cs }"

lemma apply_all_append: "receiver_apply_all rv (cs @ ds) = do { rv' \<leftarrow> receiver_apply_all rv cs; receiver_apply_all rv' ds }"
  by (induction cs arbitrary: rv) (simp_all split: bind_split)

lemma flatten_loop_path:
  "flatten_loop path c = \<lparr> fc_path = path @ fc_path (flatten c), fc_op = fc_op (flatten c) \<rparr>"
  unfolding flatten_def
proof (induction c arbitrary: path)
  case (CaughtChild r rel c)
  show ?case
    using CaughtChild [of "path @ [\<lparr> seg_rel = rel, seg_parent_row = r \<rparr>]"] CaughtChild [of "[\<lparr> seg_rel = rel, seg_parent_row = r \<rparr>]"] by simp
qed simp_all

lemma flatten_simps [simp]:
  "flatten (CaughtAdd n) = \<lparr> fc_path = [], fc_op = FlatAdd (wire_node_of n) \<rparr>"
  "flatten (CaughtRemove n) = \<lparr> fc_path = [], fc_op = FlatRemove (caught_row n) \<rparr>"
  "flatten (CaughtEdit old r) = \<lparr> fc_path = [], fc_op = FlatEdit old r \<rparr>"
  "flatten (CaughtChild r rel c) = \<lparr> fc_path = \<lparr> seg_rel = rel, seg_parent_row = r \<rparr> # fc_path (flatten c), fc_op = fc_op (flatten c) \<rparr>"
  using flatten_loop_path [of "[\<lparr> seg_rel = rel, seg_parent_row = r \<rparr>]" c] by (simp_all add: flatten_def)

end
