(* ===== verification/View_Flat.thy ===== *)
theory View_Flat
  imports View_Tree Flat
begin

text \<open>
  The receiver of flat changes reconstructs the view: with the transaction stamps dropped, the tree of \<open>view.rs\<close> after a change is
  the tree of \<open>flat_receiver.rs\<close> after the flattened change, in every mode of mutation, and one panics exactly when the other does.
\<close>

primrec strip :: "entry \<Rightarrow> recv_node" and strip_list :: "entry_list \<Rightarrow> recv_node list" where
  "strip (Entry r rc g rels) = RecvNode r rc (map strip_list rels)"
| "strip_list (EList g es) = map strip es"

lemma strip_sels [simp]: "rn_row (strip e) = e_row e" "rn_rc (strip e) = e_rc e" "rn_rels (strip e) = map strip_list (e_rels e)"
  by (cases e; simp)+

lemma strip_list_items: "strip_list l = map strip (l_items l)"
  by (cases l) simp

lemma strip_updates [simp]:
  "strip (set_rc rc e) = recv_set_rc rc (strip e)" "strip (entry_cow gen e) = strip e" "strip (entry_edit gen r e) = recv_set_row r (strip e)"
  by (cases e; simp add: set_rc_def recv_set_rc_def entry_cow_def entry_edit_def recv_set_row_def)+

lemma strip_search: "recv_search (map strip items) r srt = entry_search items r srt"
  by (simp add: recv_search_def entry_search_def slice_search_map comp_def)

section \<open>Trees of the shape of a schema\<close>

primrec shaped :: "entry \<Rightarrow> schema \<Rightarrow> bool" and shaped_list :: "entry_list \<Rightarrow> schema \<Rightarrow> bool" where
  "shaped (Entry r rc g rels) sch \<longleftrightarrow>
     list_all2 (\<lambda>f rd. pred_option f (rel_target rd)) (map shaped_list rels) (sch_relationships sch)"
| "shaped_list (EList g es) sch \<longleftrightarrow> list_all (\<lambda>f. f sch) (map shaped es)"

lemma shaped_list_iff: "shaped_list l sch \<longleftrightarrow> (\<forall>e\<in>set (l_items l). shaped e sch)"
  by (cases l) (simp add: list_all_iff)

lemma shaped_iff:
  "shaped e sch \<longleftrightarrow> length (e_rels e) = length (sch_relationships sch) \<and>
    (\<forall>i cs. rel_child sch i = Some cs \<longrightarrow> shaped_list (e_rels e ! i) cs)"
  by (cases e) (auto simp: list_all2_conv_all_nth rel_child_def pred_option_def split: if_splits)

lemma rel_child_range: "rel_child sch i = Some cs \<Longrightarrow> i < length (sch_relationships sch)"
  by (simp add: rel_child_def split: if_splits)

section \<open>Added subtrees\<close>

primrec slots_distinct :: "node \<Rightarrow> bool" where
  "slots_distinct (Node r rels) \<longleftrightarrow>
     distinct (map fst rels) \<and> list_all (\<lambda>p. list_all id (snd p)) (map (map_prod id (map slots_distinct)) rels)"

lemma slots_distinct_iff:
  "slots_distinct n \<longleftrightarrow> distinct (map fst (node_rels n)) \<and> (\<forall>(s, ks)\<in>set (node_rels n). \<forall>k\<in>set ks. slots_distinct k)"
  by (cases n) (auto simp: list_all_iff)

lemma slots_distinctD:
  "slots_distinct (Node r rels) \<Longrightarrow> distinct (map fst rels)"
  "slots_distinct (Node r rels) \<Longrightarrow> (s, ks) \<in> set rels \<Longrightarrow> k \<in> set ks \<Longrightarrow> slots_distinct k"
  using slots_distinct_iff [of "Node r rels"] by auto

declare slots_distinct.simps [simp del]

lemma slot_insert_mset: "s \<notin> fst ` set m \<Longrightarrow> mset (slot_insert s v m) = add_mset (s, v) (mset m)"
  by (induction s v m rule: slot_insert.induct) auto

lemma slots_from_mset: "distinct (map fst rs) \<Longrightarrow> fst ` set m \<inter> fst ` set rs = {} \<Longrightarrow> mset (slots_from m rs) = mset m + mset rs"
proof (induction m rs rule: slots_from.induct)
  case (2 m s v rs)
  have "fst ` set (slot_insert s v m) \<inter> fst ` set rs = {}" unfolding set_slot_insert using 2(2,3) by auto
  then show ?case using 2 slot_insert_mset [of s m v] by simp
qed simp

definition build_step :: "schema \<Rightarrow> rel_id \<times> wire_node list \<Rightarrow> recv_node list list option \<Rightarrow> recv_node list list option" where
  "build_step sch r acc = do {
     ls \<leftarrow> acc;
     (case rel_child sch (fst r) of
        None \<Rightarrow> Some ls
      | Some cs \<Rightarrow> do { built \<leftarrow> build_list cs [] (snd r); vec_set ls (fst r) built })
   }"

lemma build_step_None [simp]: "fold (build_step sch) rs None = None"
  by (induction rs) (simp_all add: build_step_def)

lemma build_rels_fold: "build_rels sch ls rs = fold (build_step sch) rs (Some ls)"
proof (induction rs arbitrary: ls)
  case (Cons r rs)
  obtain s ch where r: "r = (s, ch)" by fastforce
  have step: "build_step sch r (Some ls) = (case rel_child sch s of None \<Rightarrow> Some ls
    | Some cs \<Rightarrow> do { built \<leftarrow> build_list cs [] ch; vec_set ls s built })" by (simp add: build_step_def r split: option.split)
  show ?case by (simp add: step) (auto simp: r Cons split: option.splits bind_splits)
qed simp

lemma build_step_commute: "fst a \<noteq> fst b \<Longrightarrow> build_step sch a \<circ> build_step sch b = build_step sch b \<circ> build_step sch a"
  by (rule ext) (auto simp: build_step_def vec_set_def list_update_swap split: option.splits bind_splits if_splits)

lemma build_rels_slots: "distinct (map fst rs) \<Longrightarrow> build_rels sch ls (slots_from [] rs) = build_rels sch ls rs"
proof -
  assume d: "distinct (map fst rs)"
  have m: "mset rs = mset (slots_from [] rs)" using slots_from_mset [of rs "[]"] d by simp
  have "build_step sch a \<circ> build_step sch b = build_step sch b \<circ> build_step sch a" if "a \<in> set rs" "b \<in> set rs" for a b
    using that d build_step_commute [of a b sch] by (cases "a = b") (auto simp: distinct_map inj_on_def)
  then have "fold (build_step sch) rs = fold (build_step sch) (slots_from [] rs)" using m by (intro fold_multiset_equiv) auto
  then show ?thesis by (simp add: build_rels_fold)
qed

abbreviation wire_of :: "node \<Rightarrow> wire_node" where
  "wire_of n \<equiv> wire_node_of (expand_node n)"

lemma slot_insert_map: "map (apsnd f) (slot_insert s v m) = slot_insert s (f v) (map (apsnd f) m)"
  by (induction s v m rule: slot_insert.induct) auto

lemma slots_from_map: "map (apsnd f) (slots_from m rs) = slots_from (map (apsnd f) m) (map (apsnd f) rs)"
  by (induction m rs rule: slots_from.induct) (simp_all add: slot_insert_map)

lemma wire_of_Node: "wire_of (Node r rels) = WireNode r (slots_from [] (map (apsnd (map wire_of)) rels))"
proof -
  have "map (apsnd (map wire_node_of)) (map (apsnd (map expand_node)) rels) = map (apsnd (map wire_of)) rels"
    by (induction rels) auto
  then show ?thesis by (simp add: apsnd_def [symmetric] slots_from_map del: map_map)
qed

lemma wire_of_row [simp]: "wn_row (wire_of n) = node_row n"
  by (cases n) simp

lemma build_node_fresh:
  assumes "distinct (map fst rels)"
  shows "build_node sch (wire_of (Node r rels)) = map_option (\<lambda>ls. recv_set_rels ls (strip (make_new_entry r sch 1 gen)))
    (build_rels sch (map strip_list (e_rels (make_new_entry r sch 1 gen))) (map (apsnd (map wire_of)) rels))"
proof -
  have e: "map strip_list (e_rels (make_new_entry r sch 1 gen)) = replicate (length (sch_relationships sch)) []"
    "recv_set_rels ls (strip (make_new_entry r sch 1 gen)) = RecvNode r 1 ls" for ls by (simp_all add: make_new_entry_def recv_set_rels_def)
  have "distinct (map fst (map (apsnd (map wire_of)) rels))" using assms by (simp add: comp_def)
  then have "build_node sch (wire_of (Node r rels)) =
      do { ls \<leftarrow> build_rels sch (replicate (length (sch_relationships sch)) []) (map (apsnd (map wire_of)) rels); Some (RecvNode r 1 ls) }"
    unfolding wire_of_Node build_node.simps by (simp only: build_rels_slots)
  then show ?thesis unfolding e
    by (cases "build_rels sch (replicate (length (sch_relationships sch)) []) (map (apsnd (map wire_of)) rels)") simp_all
qed

lemma build_list_add: "build_list cs built (ch # chs) = do { b \<leftarrow> recv_add cs ch built; build_list cs b chs }"
  by (auto simp: recv_add_def split: bind_split search_result.split)

text \<open>One node is added to a list: the count of the entry with its key goes up, or a new entry is inserted.\<close>

definition add_item :: "(entry \<Rightarrow> entry) \<Rightarrow> entry option \<Rightarrow> row \<Rightarrow> sort \<Rightarrow> entry list \<Rightarrow> entry list option" where
  "add_item g E r srt items = do {
     res \<leftarrow> entry_search items r srt;
     (case res of
        Found i \<Rightarrow> do { e \<leftarrow> vec_get items i; vec_set items i (set_rc (e_rc e + 1) (g e)) }
      | InsertAt i \<Rightarrow> do { e \<leftarrow> E; vec_insert items i e })
   }"

lemma init_items_add:
  "init_items gen cs items (Node r rels # ks) =
     do { items' \<leftarrow> add_item id (init_rels_for_new_entry gen cs (make_new_entry r cs 1 gen) rels) r (sch_sort cs) items; init_items gen cs items' ks }"
  by (auto simp: add_item_def split: bind_split search_result.split)

lemma add_item_equiv:
  assumes "wn_row W = r" "\<And>e. strip (g e) = strip e"
    and "\<And>i. entry_search items r (sch_sort sch) = Some (InsertAt i) \<Longrightarrow> map_option strip E = build_node sch W"
  shows "map_option (map strip) (add_item g E r (sch_sort sch) items) = recv_add sch W (map strip items)"
proof (cases "entry_search items r (sch_sort sch)")
  case None
  then show ?thesis using assms(1) by (simp add: add_item_def recv_add_def strip_search)
next
  case (Some res)
  show ?thesis
  proof (cases res)
    case (Found i)
    have "strip (set_rc (e_rc e + 1) (g e)) = recv_set_rc (e_rc e + 1) (strip e)" for e using assms(2) by simp
    then show ?thesis using Some Found assms(1)
      by (cases "vec_get items i") (simp_all add: add_item_def recv_add_def strip_search vec_map vec_map(2) [where g = strip, symmetric])
  next
    case (InsertAt i)
    then have b: "build_node sch W = map_option strip E" using assms(3) Some by simp
    show ?thesis using Some InsertAt assms(1) by (cases E) (simp_all add: add_item_def recv_add_def strip_search vec_map b)
  qed
qed

text \<open>A new entry: both sides build its relationships from empty slots. The view leaves a slot alone when nothing was drained
  into it, the receiver writes the empty list.\<close>

lemma build_equiv:
  "\<lbrakk>distinct (map fst rs); length (e_rels e) = length (sch_relationships sch);
    \<And>s. s \<in> fst ` set rs \<Longrightarrow> s < length (e_rels e) \<Longrightarrow> l_items (e_rels e ! s) = [];
    \<And>s ks k. (s, ks) \<in> set rs \<Longrightarrow> k \<in> set ks \<Longrightarrow> slots_distinct k\<rbrakk> \<Longrightarrow>
   map_option strip (init_rels_for_new_entry gen sch e rs) =
     map_option (\<lambda>ls. recv_set_rels ls (strip e)) (build_rels sch (map strip_list (e_rels e)) (map (apsnd (map wire_of)) rs))"
  "(\<And>k. k \<in> set ks \<Longrightarrow> slots_distinct k) \<Longrightarrow>
   map_option (map strip) (init_items gen cs items ks) = build_list cs (map strip items) (map wire_of ks)"
proof (induction gen sch e rs and gen cs items ks rule: init_rels_for_new_entry_init_items.induct)
  case (1 gen sch e)
  show ?case by (cases e) (simp add: recv_set_rels_def)
next
  case (2 gen sch e slot kids rs)
  show ?case
  proof (cases "rel_child sch slot")
    case None
    have "map_option strip (init_rels_for_new_entry gen sch e rs) =
        map_option (\<lambda>ls. recv_set_rels ls (strip e)) (build_rels sch (map strip_list (e_rels e)) (map (apsnd (map wire_of)) rs))"
      by (rule 2(1) [OF None]) (use 2(4-7) in auto)
    then show ?thesis using None by simp
  next
    case (Some cs)
    have slot: "slot < length (e_rels e)" using rel_child_range [OF Some] 2(5) by simp
    have IH: "map_option (map strip) (init_items gen cs [] kids) = build_list cs [] (map wire_of kids)"
      using 2(2) [OF Some] 2(7) [of slot kids] by simp
    show ?thesis
    proof (cases "init_items gen cs [] kids")
      case None
      then show ?thesis using IH Some by simp
    next
      case items: (Some items)
      define rels where "rels = (if items = [] then e_rels e else (e_rels e)[slot := EList gen items])"
      let ?e' = "Entry (e_row e) (e_rc e) (e_created e) rels"
      have set: "(if items = [] then Some (e_rels e) else vec_set (e_rels e) slot (EList gen items)) = Some rels"
        using slot by (simp add: rels_def)
      have strip': "map strip_list rels = (map strip_list (e_rels e))[slot := map strip items]"
      proof (cases "items = []")
        case True
        have "strip_list (e_rels e ! slot) = []" using 2(6) [of slot] slot by (simp add: strip_list_items)
        then have "(map strip_list (e_rels e))[slot := []] = map strip_list (e_rels e)" using slot by (simp add: list_update_same_conv)
        then show ?thesis using True by (simp add: rels_def)
      qed (simp add: rels_def map_update)
      have empty': "l_items (rels ! s) = []" if "s \<in> fst ` set rs" "s < length rels" for s
      proof -
        have "s \<noteq> slot" using that(1) 2(4) by auto
        moreover have "length rels = length (e_rels e)" by (simp add: rels_def)
        ultimately show ?thesis using 2(6) [of s] that by (simp add: rels_def)
      qed
      have "map_option strip (init_rels_for_new_entry gen sch ?e' rs) =
          map_option (\<lambda>ls. recv_set_rels ls (strip ?e')) (build_rels sch (map strip_list (e_rels ?e')) (map (apsnd (map wire_of)) rs))"
      proof (rule 2(3) [OF Some items set])
        show "distinct (map fst rs)" "length (e_rels ?e') = length (sch_relationships sch)" using 2(4,5) by (simp_all add: rels_def)
        show "l_items (e_rels ?e' ! s) = []" if "s \<in> fst ` set rs" "s < length (e_rels ?e')" for s
          using empty' [of s] that by simp
        show "slots_distinct k" if "(s, ks) \<in> set rs" "k \<in> set ks" for s ks k using 2(7) that by auto
      qed
      moreover have "(\<lambda>ls. recv_set_rels ls (strip ?e')) = (\<lambda>ls. recv_set_rels ls (strip e))" by (simp add: recv_set_rels_def)
      moreover have "init_rels_for_new_entry gen sch e ((slot, kids) # rs) = init_rels_for_new_entry gen sch ?e' rs"
        using Some items set by simp
      moreover have "build_rels sch (map strip_list (e_rels e)) (map (apsnd (map wire_of)) ((slot, kids) # rs)) =
          build_rels sch (map strip_list rels) (map (apsnd (map wire_of)) rs)"
        unfolding strip' using Some items IH [symmetric] slot by simp
      ultimately show ?thesis by simp
    qed
  qed
next
  case (4 gen cs items r rels ks)
  let ?e = "make_new_entry r cs 1 gen"
  have d: "slots_distinct (Node r rels)" using 4(3) by simp
  have new: "map_option strip (init_rels_for_new_entry gen cs ?e rels) = build_node cs (wire_of (Node r rels))" if "entry_search items r (sch_sort cs) = Some (InsertAt i)" for i
  proof -
    have "map_option strip (init_rels_for_new_entry gen cs ?e rels) =
        map_option (\<lambda>ls. recv_set_rels ls (strip ?e)) (build_rels cs (map strip_list (e_rels ?e)) (map (apsnd (map wire_of)) rels))"
      by (rule 4(1) [OF that refl]) (use slots_distinctD [OF d] in \<open>auto simp: make_new_entry_def\<close>)
    also have "\<dots> = build_node cs (wire_of (Node r rels))" by (rule build_node_fresh [OF slots_distinctD(1) [OF d], symmetric])
    finally show ?thesis .
  qed
  have eq: "map_option (map strip) (add_item id (init_rels_for_new_entry gen cs ?e rels) r (sch_sort cs) items) =
      recv_add cs (wire_of (Node r rels)) (map strip items)" by (rule add_item_equiv) (use new in simp_all)
  show ?case
  proof (cases "add_item id (init_rels_for_new_entry gen cs ?e rels) r (sch_sort cs) items")
    case None
    then show ?thesis using eq unfolding list.map build_list_add init_items_add by simp
  next
    case (Some items')
    have "map_option (map strip) (init_items gen cs items' ks) = build_list cs (map strip items') (map wire_of ks)"
    proof (cases "entry_search items r (sch_sort cs)")
      case (Some res)
      show ?thesis by (rule 4(2) [OF Some]) (use \<open>add_item id _ _ _ _ = Some items'\<close> Some 4(3) in \<open>auto simp: add_item_def split: search_result.splits\<close>)
    qed (use Some in \<open>simp add: add_item_def\<close>)
    then show ?thesis using eq [symmetric] Some unfolding list.map build_list_add init_items_add by simp
  qed
qed simp

lemma new_entry_equiv:
  assumes "slots_distinct (Node r rels)"
  shows "map_option strip (init_rels_for_new_entry gen sch (make_new_entry r sch 1 gen) rels) = build_node sch (wire_of (Node r rels))"
proof -
  let ?e = "make_new_entry r sch 1 gen"
  have "map_option strip (init_rels_for_new_entry gen sch ?e rels) =
      map_option (\<lambda>ls. recv_set_rels ls (strip ?e)) (build_rels sch (map strip_list (e_rels ?e)) (map (apsnd (map wire_of)) rels))"
    by (rule build_equiv(1)) (use slots_distinctD [OF assms] in \<open>auto simp: make_new_entry_def\<close>)
  also have "\<dots> = build_node sch (wire_of (Node r rels))" by (rule build_node_fresh [OF slots_distinctD(1) [OF assms], symmetric])
  finally show ?thesis .
qed

section \<open>Changes\<close>

definition put_rel :: "rel_id \<Rightarrow> recv_node list \<Rightarrow> recv_node \<Rightarrow> recv_node" where
  "put_rel rel l n = recv_set_rels ((rn_rels n)[rel := l]) n"

lemma strip_put: "rel < length (e_rels p) \<Longrightarrow> map_option strip (put_items gen rel items p) = Some (put_rel rel (map strip items) (strip p))"
  by (simp add: put_items_def put_rel_def recv_set_rels_def map_update)

lemma put_rel_same: "rel < length (e_rels p) \<Longrightarrow> put_rel rel (strip_list (e_rels p ! rel)) (strip p) = strip p"
  by (cases p) (simp add: put_rel_def recv_set_rels_def list_update_same_conv)

text \<open>A slot is read, rewritten and put back.\<close>

lemma rewrite_slot:
  assumes "rel < length (e_rels p)" "map_option (map strip) (f (l_items (e_rels p ! rel))) = g (strip_list (e_rels p ! rel))"
  shows "map_option (strip \<circ> fst) (do { items \<leftarrow> slot_items p rel; items' \<leftarrow> f items; p' \<leftarrow> put_items gen rel items' p; Some (p', True) }) =
    map_option (\<lambda>l. put_rel rel l (strip p)) (g (strip_list (e_rels p ! rel)))"
proof (cases "f (l_items (e_rels p ! rel))")
  case None
  then show ?thesis using assms by (simp add: slot_items_def)
next
  case (Some items)
  then have "g (strip_list (e_rels p ! rel)) = Some (map strip items)" using assms(2) by simp
  then show ?thesis using Some assms(1) strip_put [OF assms(1), of gen items]
    by (auto simp: slot_items_def)
qed

lemma add_equiv:
  assumes "rel < length (e_rels p)" "slots_distinct n"
  shows "map_option (strip \<circ> fst) (view_add gen n sch rel p) =
    map_option (\<lambda>l. put_rel rel l (strip p)) (recv_add sch (wire_of n) (strip_list (e_rels p ! rel)))"
proof -
  obtain r rels where n: "n = Node r rels" by (cases n)
  let ?f = "add_item (entry_cow gen) (init_rels_for_new_entry gen sch (make_new_entry r sch 1 gen) rels) r (sch_sort sch)"
  have "map_option (map strip) (?f items) = recv_add sch (wire_of n) (map strip items)" for items
    by (rule add_item_equiv) (use new_entry_equiv [OF assms(2) [unfolded n]] in \<open>simp_all add: n\<close>)
  then have "map_option (strip \<circ> fst) (do { items \<leftarrow> slot_items p rel; items' \<leftarrow> ?f items; p' \<leftarrow> put_items gen rel items' p; Some (p', True) }) =
      map_option (\<lambda>l. put_rel rel l (strip p)) (recv_add sch (wire_of n) (strip_list (e_rels p ! rel)))"
    by (intro rewrite_slot [OF assms(1)]) (simp add: strip_list_items)
  moreover have "view_add gen n sch rel p = do { items \<leftarrow> slot_items p rel; items' \<leftarrow> ?f items; p' \<leftarrow> put_items gen rel items' p; Some (p', True) }"
    unfolding view_add_def n node.sel add_item_def by simp
  ultimately show ?thesis by simp
qed

lemma remove_equiv:
  assumes "rel < length (e_rels p)"
  shows "map_option (strip \<circ> fst) (view_remove gen r sch rel p) =
    map_option (\<lambda>l. put_rel rel l (strip p)) (recv_remove sch r (strip_list (e_rels p ! rel)))"
proof -
  let ?f = "\<lambda>items. do { res \<leftarrow> entry_search items r (sch_sort sch);
     (case res of
        InsertAt _ \<Rightarrow> None
      | Found pos \<Rightarrow> do { e \<leftarrow> vec_get items pos;
          if e_rc e = 1 then vec_remove items pos else vec_set items pos (set_rc (e_rc e - 1) (entry_cow gen e)) }) }"
  have strip: "strip (set_rc (e_rc e - 1) (entry_cow gen e)) = recv_set_rc (e_rc e - 1) (strip e)" for e by simp
  have "map_option (map strip) (?f items) = recv_remove sch r (map strip items)" for items
  proof (cases "entry_search items r (sch_sort sch)")
    case (Some res)
    show ?thesis
    proof (cases res)
      case (Found pos)
      show ?thesis using Some Found by (cases "vec_get items pos") (simp_all add: recv_remove_def strip_search vec_map strip [symmetric] del: strip_updates)
    qed (simp add: Some recv_remove_def strip_search)
  qed (simp add: recv_remove_def strip_search)
  then have "map_option (strip \<circ> fst) (do { items \<leftarrow> slot_items p rel; items' \<leftarrow> ?f items; p' \<leftarrow> put_items gen rel items' p; Some (p', True) }) =
      map_option (\<lambda>l. put_rel rel l (strip p)) (recv_remove sch r (strip_list (e_rels p ! rel)))"
    by (intro rewrite_slot [OF assms]) (simp add: strip_list_items)
  moreover have "view_remove gen r sch rel p = do { items \<leftarrow> slot_items p rel; items' \<leftarrow> ?f items; p' \<leftarrow> put_items gen rel items' p; Some (p', True) }"
    unfolding view_remove_def by (intro Option.bind_cong refl) (auto split: search_result.split bind_split)
  ultimately show ?thesis by simp
qed

lemma move_equiv: "map_option (map strip) (view_move gen new old_pos raw e items) = recv_move new old_pos raw (strip e) (map strip items)"
proof -
  have strips: "strip (set_rc a (entry_cow gen x)) = recv_set_rc a (strip x)" "strip (set_rc a (entry_edit gen new x)) = recv_set_rc a (recv_set_row new (strip x))" for a x
    by simp_all
  have ghost: "vec_set (map strip items) i (recv_set_rc a (strip x)) = map_option (map strip) (vec_set items i (set_rc a (entry_cow gen x)))" for i a x and items :: "entry list"
    using vec_map(2) [of strip items i "set_rc a (entry_cow gen x)"] by simp
  have edit: "vec_set (map strip items) i (recv_set_rc a (recv_set_row new (strip x))) = map_option (map strip) (vec_set items i (set_rc a (entry_edit gen new x)))" for i a x and items :: "entry list"
    using vec_map(2) [of strip items i "set_rc a (entry_edit gen new x)"] by simp
  have ins: "vec_insert (map strip items) i (recv_set_rc a (recv_set_row new (strip x))) = map_option (map strip) (vec_insert items i (set_rc a (entry_edit gen new x)))" for i a x and items :: "entry list"
    using vec_map(3) [of strip items i "set_rc a (entry_edit gen new x)"] by simp
  let ?cont = "\<lambda>items1 adjusted. case raw of
        Found _ \<Rightarrow> do { x \<leftarrow> vec_get items1 adjusted; vec_set items1 adjusted (set_rc (e_rc x + 1) (entry_edit gen new x)) }
      | InsertAt _ \<Rightarrow> vec_insert items1 adjusted (set_rc 1 (entry_edit gen new e))"
  let ?rcont = "\<lambda>ns1 adjusted. case raw of
        Found _ \<Rightarrow> do { x \<leftarrow> vec_get ns1 adjusted; vec_set ns1 adjusted (recv_set_rc (rn_rc x + 1) (recv_set_row new x)) }
      | InsertAt _ \<Rightarrow> vec_insert ns1 adjusted (recv_set_rc 1 (recv_set_row new (strip e)))"
  have cont: "map_option (map strip) (?cont items1 adj) = ?rcont (map strip items1) adj" for items1 adj
    by (cases raw; cases "vec_get items1 adj") (simp_all add: vec_map(1) edit ins)
  show ?thesis
  proof (cases "e_rc e - 1 = 0")
    case True
    then show ?thesis unfolding view_move_def recv_move_def
      by (cases "vec_remove items old_pos") (simp_all add: Let_def vec_map(4) cont)
  next
    case False
    then show ?thesis unfolding view_move_def recv_move_def
      by (cases "vec_set items old_pos (set_rc (e_rc e - 1) (entry_cow gen e))") (simp_all add: Let_def ghost cont)
  qed
qed

lemma edit_equiv:
  assumes "rel < length (e_rels p)"
  shows "map_option (strip \<circ> fst) (view_edit gen new old sch rel p) =
    map_option (\<lambda>l. put_rel rel l (strip p)) (recv_edit sch old new (strip_list (e_rels p ! rel)))"
proof (cases "compare_rows (sch_sort sch) old new")
  case None
  then show ?thesis by (simp add: view_edit_def recv_edit_def)
next
  case c: (Some c)
  let ?srt = "sch_sort sch"
  let ?f = "\<lambda>items. do { res \<leftarrow> entry_search items old ?srt;
     (case res of
        InsertAt _ \<Rightarrow> None
      | Found old_pos \<Rightarrow> do { e \<leftarrow> vec_get items old_pos;
          if c \<noteq> Equal then do {
              raw \<leftarrow> entry_search items new ?srt;
              let pos = (case raw of Found i \<Rightarrow> i | InsertAt i \<Rightarrow> i);
              if e_rc e = 1 \<and> (pos = old_pos \<or> 0 < pos \<and> pos - 1 = old_pos)
              then vec_set items old_pos (entry_edit gen new e)
              else view_move gen new old_pos raw e items
            } else vec_set items old_pos (entry_edit gen new e) }) }"
  have edit: "vec_set (map strip items) i (recv_set_row new (strip x)) = map_option (map strip) (vec_set items i (entry_edit gen new x))" for i x items
    using vec_map(2) [of strip items i "entry_edit gen new x"] by simp
  have "map_option (map strip) (?f items) = recv_edit sch old new (map strip items)" for items
  proof (cases "entry_search items old ?srt")
    case None
    then show ?thesis by (simp add: recv_edit_def Let_def strip_search c)
  next
    case (Some res)
    show ?thesis
    proof (cases res)
      case (InsertAt i)
      then show ?thesis using Some by (simp add: recv_edit_def Let_def strip_search c)
    next
      case (Found pos)
      show ?thesis
      proof (cases "vec_get items pos")
        case None
        then show ?thesis using Some Found by (cases "entry_search items new ?srt") (simp_all add: recv_edit_def Let_def strip_search c vec_map(1))
      next
        case e: (Some e)
        then show ?thesis using Some Found
          by (cases "entry_search items new ?srt") (auto simp: recv_edit_def strip_search c vec_map(1) edit move_equiv Let_def)
      qed
    qed
  qed
  then have "map_option (strip \<circ> fst) (do { items \<leftarrow> slot_items p rel; items' \<leftarrow> ?f items; p' \<leftarrow> put_items gen rel items' p; Some (p', True) }) =
      map_option (\<lambda>l. put_rel rel l (strip p)) (recv_edit sch old new (strip_list (e_rels p ! rel)))"
    by (intro rewrite_slot [OF assms]) (simp add: strip_list_items)
  moreover have "view_edit gen new old sch rel p = do { items \<leftarrow> slot_items p rel; items' \<leftarrow> ?f items; p' \<leftarrow> put_items gen rel items' p; Some (p', True) }"
    unfolding view_edit_def c Let_def bind.bind_lunit by (intro Option.bind_cong refl) (auto split: search_result.split bind_split)
  ultimately show ?thesis by simp
qed

text \<open>A change is well-formed when the relationships it adds have distinct slots.\<close>

fun adds_distinct :: "change \<Rightarrow> bool" where
  "adds_distinct (Add n) = slots_distinct n"
| "adds_distinct (Remove n) = True"
| "adds_distinct (Edit n old) = True"
| "adds_distinct (Child n rel c) = adds_distinct c"

abbreviation flat_of :: "change \<Rightarrow> flat_change" where
  "flat_of c \<equiv> flatten (expand_change c)"

text \<open>A change reported as no change leaves the content alone.\<close>

lemma unchanged_strip: "view_apply mode gen c sch rel p = Some (p', False) \<Longrightarrow> strip p' = strip p"
proof (induction c arbitrary: sch rel p p')
  case (ViewChild r crel c)
  show ?case
  proof (cases "p' = p")
    case False
    then obtain cs lst pos e e' where st: "vec_get (e_rels p) rel = Some lst" "vec_get (l_items lst) pos = Some e"
        "view_apply mode gen c cs crel e = Some (e', False)" "do { items' \<leftarrow> vec_set (l_items lst) pos e'; put_items gen rel items' p } = Some p'"
      using ViewChild.prems by (auto split: option.splits bind_splits search_result.splits if_splits)
    have "strip e' = strip e" by (rule ViewChild.IH [OF st(3)])
    then have "map strip ((l_items lst)[pos := e']) = map strip (l_items lst)" using st(2) by (simp add: map_update vec_get_Some_iff list_update_same_conv)
    moreover have "rel < length (e_rels p)" "lst = e_rels p ! rel" "pos < length (l_items lst)" using st(1,2) by (simp_all add: vec_get_Some_iff)
    ultimately show ?thesis using strip_put [of rel p gen "(l_items lst)[pos := e']"] st(4) put_rel_same [of rel p]
      by (simp add: strip_list_items)
  qed simp
qed (auto simp: view_add_def view_remove_def view_edit_def Let_def split: bind_splits search_result.splits)

lemma apply_equiv:
  assumes "rel < length (e_rels p)" "shaped_list (e_rels p ! rel) sch" "adds_distinct c"
  shows "map_option (strip \<circ> fst) (view_apply mode gen (from_change c) sch rel p) =
    map_option (\<lambda>l. put_rel rel l (strip p)) (apply_at sch (fc_path (flat_of c)) (fc_op (flat_of c)) (strip_list (e_rels p ! rel)))"
  using assms
proof (induction c arbitrary: sch rel p)
  case (Add n)
  then show ?case using add_equiv [of rel p n gen sch] by (simp add: comp_def)
next
  case (Remove n)
  then show ?case using remove_equiv [of rel p gen "node_row n" sch] by (cases n) (simp add: comp_def)
next
  case (Edit n old)
  then show ?case using edit_equiv [of rel p gen "node_row n" "node_row old" sch] by (simp add: comp_def)
next
  case (Child n crel c)
  let ?l = "e_rels p ! rel"
  show ?case
  proof (cases "rel_child sch crel")
    case None
    then show ?thesis using Child.prems by (simp add: put_rel_same)
  next
    case (Some cs)
    show ?thesis
    proof (cases "entry_search (l_items ?l) (node_row n) (sch_sort sch)")
      case None
      then show ?thesis using Some Child.prems(1) by (simp add: strip_list_items strip_search)
    next
      case s: (Some res)
      show ?thesis
      proof (cases res)
        case (InsertAt i)
        then show ?thesis using Some s Child.prems(1) by (simp add: strip_list_items strip_search)
      next
        case (Found pos)
        have pos: "pos < length (l_items ?l)" using s Found slice_search_range(1) by (auto simp: entry_search_def)
        let ?e = "l_items ?l ! pos"
        have sh: "shaped ?e sch" using Child.prems(2) pos by (simp add: shaped_list_iff)
        have crel: "crel < length (e_rels ?e)" "shaped_list (e_rels ?e ! crel) cs"
          using sh Some rel_child_range [OF Some] by (simp_all add: shaped_iff [of ?e])
        let ?A = "apply_at cs (fc_path (flat_of c)) (fc_op (flat_of c)) (strip_list (e_rels ?e ! crel))"
        have IH: "map_option (strip \<circ> fst) (view_apply mode gen (from_change c) cs crel ?e) = map_option (\<lambda>l. put_rel crel l (strip ?e)) ?A"
          using Child.IH [OF crel] Child.prems(3) by (simp add: comp_def)
        have R: "apply_at sch (fc_path (flat_of (Child n crel c))) (fc_op (flat_of (Child n crel c))) (strip_list ?l) =
            map_option (\<lambda>l'. (strip_list ?l)[pos := put_rel crel l' (strip ?e)]) ?A"
          using Some s Found pos crel(1) by (cases ?A) (simp_all add: strip_list_items strip_search put_rel_def)
        show ?thesis
        proof (cases "view_apply mode gen (from_change c) cs crel ?e")
          case None
          then have "?A = None" using IH by simp
          then show ?thesis unfolding R using Some s Found pos None Child.prems(1) by simp
        next
          case v: (Some r)
          obtain e' ch where r: "r = (e', ch)" by fastforce
          then obtain l' where A: "?A = Some l'" "strip e' = put_rel crel l' (strip ?e)" using IH v by (cases ?A) auto
          have items: "map strip ((l_items ?l)[pos := e']) = (strip_list ?l)[pos := put_rel crel l' (strip ?e)]"
            by (simp add: strip_list_items map_update A(2))
          show ?thesis
          proof (cases "can_mut (l_created ?l) mode gen \<or> ch")
            case True
            have "view_child mode gen (node_row n) crel (from_change c) sch rel p =
                do { p' \<leftarrow> put_items gen rel ((l_items ?l)[pos := e']) p; Some (p', ch) }"
              using Some s Found pos v r True Child.prems(1) by auto
            then show ?thesis unfolding R A(1) using strip_put [OF Child.prems(1), of gen "(l_items ?l)[pos := e']"]
              by (auto simp: items)
          next
            case False
            then have "strip e' = strip ?e" using unchanged_strip v r by simp
            then have "(strip_list ?l)[pos := put_rel crel l' (strip ?e)] = strip_list ?l"
              unfolding A(2) [symmetric] by (simp add: strip_list_items list_update_same_conv pos)
            moreover have "view_child mode gen (node_row n) crel (from_change c) sch rel p = Some (p, False)"
              using Some s Found pos v r False Child.prems(1) by simp
            ultimately show ?thesis unfolding R A(1) using put_rel_same [OF Child.prems(1)] by simp
          qed
        qed
      qed
    qed
  qed
qed

section \<open>The shape is kept\<close>

lemma shaped_updates [simp]:
  "shaped (set_rc rc e) sch = shaped e sch" "shaped (entry_cow gen e) sch = shaped e sch" "shaped (entry_edit gen r e) sch = shaped e sch"
  by (simp_all add: shaped_iff set_rc_def entry_cow_def entry_edit_def)

lemma shaped_new: "shaped (make_new_entry r sch rc gen) sch"
  unfolding shaped_iff [of "make_new_entry r sch rc gen"] using rel_child_range [of sch] by (simp add: make_new_entry_def shaped_list_iff)

definition all_shaped :: "schema \<Rightarrow> entry list \<Rightarrow> bool" where
  "all_shaped sch es \<longleftrightarrow> (\<forall>e\<in>set es. shaped e sch)"

lemma all_shaped_vec:
  "all_shaped sch es \<Longrightarrow> vec_get es i = Some e \<Longrightarrow> shaped e sch"
  "all_shaped sch es \<Longrightarrow> vec_set es i e = Some es' \<Longrightarrow> shaped e sch \<Longrightarrow> all_shaped sch es'"
  "all_shaped sch es \<Longrightarrow> vec_insert es i e = Some es' \<Longrightarrow> shaped e sch \<Longrightarrow> all_shaped sch es'"
  "all_shaped sch es \<Longrightarrow> vec_remove es i = Some es' \<Longrightarrow> all_shaped sch es'"
  unfolding all_shaped_def by (auto dest: vec_sets)

lemma shaped_slot:
  assumes "shaped e sch" "rel_child sch i = Some cs" "all_shaped cs items"
  shows "shaped (Entry r rc g ((e_rels e)[i := EList gen items])) sch"
  using assms rel_child_range [OF assms(2)] unfolding shaped_iff [of e] shaped_iff [of "Entry _ _ _ _"]
  by (auto simp: nth_list_update shaped_list_iff all_shaped_def)

lemma init_shaped:
  "shaped e sch \<Longrightarrow> init_rels_for_new_entry gen sch e rs = Some e' \<Longrightarrow> shaped e' sch"
  "all_shaped cs items \<Longrightarrow> init_items gen cs items ks = Some items' \<Longrightarrow> all_shaped cs items'"
proof (induction gen sch e rs and gen cs items ks arbitrary: e' and items' rule: init_rels_for_new_entry_init_items.induct)
  case (2 gen sch e slot kids rs)
  show ?case
  proof (cases "rel_child sch slot")
    case None
    then show ?thesis using 2 by simp
  next
    case (Some cs)
    then obtain items rels where st: "init_items gen cs [] kids = Some items"
        "(if items = [] then Some (e_rels e) else vec_set (e_rels e) slot (EList gen items)) = Some rels"
        "init_rels_for_new_entry gen sch (Entry (e_row e) (e_rc e) (e_created e) rels) rs = Some e'"
      using 2(5) by (auto split: bind_splits)
    have items: "all_shaped cs items" by (rule 2(2) [OF Some]) (simp_all add: st(1) all_shaped_def)
    have "shaped (Entry (e_row e) (e_rc e) (e_created e) rels) sch"
      using st(2) 2(4) shaped_slot [OF 2(4) Some items] by (cases e) (auto simp: vec_set_def split: if_splits)
    then show ?thesis using 2(3) [OF Some st(1,2)] st(3) by blast
  qed
next
  case (4 gen cs items r rels ks)
  obtain res items1 where st: "entry_search items r (sch_sort cs) = Some res"
      "(case res of Found p \<Rightarrow> do { e \<leftarrow> vec_get items p; vec_set items p (set_rc (e_rc e + 1) e) }
       | InsertAt i \<Rightarrow> do { ce \<leftarrow> init_rels_for_new_entry gen cs (make_new_entry r cs 1 gen) rels; vec_insert items i ce }) = Some items1"
      "init_items gen cs items1 ks = Some items'"
    using 4(4) by (auto split: bind_splits)
  have "all_shaped cs items1"
  proof (cases res)
    case (Found p)
    then obtain e where "vec_get items p = Some e" "vec_set items p (set_rc (e_rc e + 1) e) = Some items1"
      using st(2) by (auto split: bind_splits)
    then show ?thesis using all_shaped_vec(1,2) [OF 4(3)] by (metis shaped_updates(1))
  next
    case (InsertAt i)
    then obtain e where e: "init_rels_for_new_entry gen cs (make_new_entry r cs 1 gen) rels = Some e" "vec_insert items i e = Some items1"
      using st(2) by (auto split: bind_splits)
    have "shaped e cs" by (rule 4(1) [OF st(1) InsertAt shaped_new e(1)])
    then show ?thesis using all_shaped_vec(3) [OF 4(3) e(2)] by simp
  qed
  then show ?case using 4(2) [OF st(1,2)] st(3) by blast
qed simp_all

text \<open>What a change does to the entry it is applied at: it replaces one slot.\<close>

definition slot_replaced :: "schema \<Rightarrow> rel_id \<Rightarrow> entry \<Rightarrow> entry \<Rightarrow> bool" where
  "slot_replaced sch rel p p' \<longleftrightarrow> (\<exists>l. shaped_list l sch \<and> e_rels p' = (e_rels p)[rel := l] \<and> e_row p' = e_row p \<and> e_rc p' = e_rc p)"

lemma put_replaced: "put_items gen rel items p = Some p' \<Longrightarrow> all_shaped sch items \<Longrightarrow> slot_replaced sch rel p p'"
  by (auto simp: put_items_def slot_replaced_def vec_set_def shaped_list_iff all_shaped_def split: if_splits intro!: exI [of _ "EList gen items"])

lemma replaced_shaped:
  assumes "slot_replaced cs rel e e'" "shaped e sch" "rel_child sch rel = Some cs"
  shows "shaped e' sch"
  using assms rel_child_range [OF assms(3)] unfolding slot_replaced_def shaped_iff [of e] shaped_iff [of e'] by (auto simp: nth_list_update)

lemma replaced_slot: "slot_replaced sch rel p p' \<Longrightarrow> rel < length (e_rels p) \<Longrightarrow> shaped_list (e_rels p' ! rel) sch \<and> length (e_rels p') = length (e_rels p)"
  by (auto simp: slot_replaced_def)

lemma move_shaped:
  assumes "all_shaped sch items" "shaped e sch" "view_move gen new old_pos raw e items = Some items'"
  shows "all_shaped sch items'"
proof -
  let ?cont = "\<lambda>items1 adj. case raw of
        Found _ \<Rightarrow> do { x \<leftarrow> vec_get items1 adj; vec_set items1 adj (set_rc (e_rc x + 1) (entry_edit gen new x)) }
      | InsertAt _ \<Rightarrow> vec_insert items1 adj (set_rc 1 (entry_edit gen new e))"
  have cont: "all_shaped sch items'" if sh: "all_shaped sch items1" and run: "?cont items1 adj = Some items'" for items1 adj
    using run all_shaped_vec(1-3) [OF sh] assms(2) by (auto split: search_result.splits bind_splits)
  show ?thesis
  proof (cases "e_rc e - 1 = 0")
    case True
    then obtain items1 where i1: "vec_remove items old_pos = Some items1" using assms(3) by (cases "vec_remove items old_pos") (auto simp: view_move_def)
    show ?thesis by (rule cont [OF all_shaped_vec(4) [OF assms(1) i1]]) (use assms(3) True i1 in \<open>simp add: view_move_def Let_def\<close>)
  next
    case False
    let ?g = "set_rc (e_rc e - 1) (entry_cow gen e)"
    obtain items1 where i1: "vec_set items old_pos ?g = Some items1" using assms(3) False by (cases "vec_set items old_pos ?g") (auto simp: view_move_def)
    have "shaped ?g sch" using assms(2) by simp
    then show ?thesis by (intro cont [OF all_shaped_vec(2) [OF assms(1) i1]]) (use assms(3) False i1 in \<open>simp_all add: view_move_def Let_def\<close>)
  qed
qed

lemma apply_replaced:
  assumes "rel < length (e_rels p)" "shaped_list (e_rels p ! rel) sch" "view_apply mode gen c sch rel p = Some (p', b)"
  shows "slot_replaced sch rel p p'"
  using assms
proof (induction c arbitrary: sch rel p p' b)
  case (ViewAdd n)
  have sh: "all_shaped sch (l_items (e_rels p ! rel))" using ViewAdd(2) by (simp add: all_shaped_def shaped_list_iff)
  then show ?case using ViewAdd(1,3) all_shaped_vec(1-3) [OF sh] init_shaped(1) [OF shaped_new]
    by (auto simp: view_add_def slot_items_def split: bind_splits search_result.splits intro!: put_replaced)
next
  case (ViewRemove n)
  have sh: "all_shaped sch (l_items (e_rels p ! rel))" using ViewRemove(2) by (simp add: all_shaped_def shaped_list_iff)
  then show ?case using ViewRemove(1,3) all_shaped_vec(1,2,4) [OF sh]
    by (auto simp: view_remove_def slot_items_def split: bind_splits search_result.splits if_splits intro!: put_replaced)
next
  case (ViewEdit new old)
  have sh: "all_shaped sch (l_items (e_rels p ! rel))" using ViewEdit(2) by (simp add: all_shaped_def shaped_list_iff)
  show ?case using ViewEdit(1,3) all_shaped_vec(1,2) [OF sh]
    by (auto simp: view_edit_def slot_items_def Let_def split: bind_splits search_result.splits if_splits intro!: put_replaced
        intro: move_shaped [OF sh all_shaped_vec(1) [OF sh]])
next
  case (ViewChild r crel c)
  have sh: "all_shaped sch (l_items (e_rels p ! rel))" using ViewChild.prems(2) by (simp add: all_shaped_def shaped_list_iff)
  show ?case
  proof (cases "p' = p")
    case True
    then show ?thesis using ViewChild.prems(1,2) by (auto simp: slot_replaced_def intro!: exI [of _ "e_rels p ! rel"])
  next
    case False
    then obtain cs pos e e' ch where st: "rel_child sch crel = Some cs" "vec_get (l_items (e_rels p ! rel)) pos = Some e"
        "view_apply mode gen c cs crel e = Some (e', ch)"
        "do { items' \<leftarrow> vec_set (l_items (e_rels p ! rel)) pos e'; put_items gen rel items' p } = Some p'"
      using ViewChild.prems(1,3) by (auto split: option.splits bind_splits search_result.splits if_splits)
    have e: "shaped e sch" using all_shaped_vec(1) [OF sh st(2)] .
    then have "crel < length (e_rels e)" "shaped_list (e_rels e ! crel) cs" using st(1) rel_child_range [OF st(1)] by (simp_all add: shaped_iff [of e])
    then have "shaped e' sch" using ViewChild.IH [OF _ _ st(3)] replaced_shaped [OF _ e st(1)] by blast
    then show ?thesis using st(4) all_shaped_vec(2) [OF sh] by (auto split: bind_splits intro!: put_replaced)
  qed
qed

end
