(* ===== verification/View_Sink.thy ===== *)
theory View_Sink
  imports View_Flat
begin

text \<open>
  The view as a sink (\<open>rust/src/view.rs\<close>, type \<open>View\<close>): hydration, pushes, the flush at the end of a transaction and the
  listeners. A listener is a name; what it is called with goes to a log. A listener that calls back into the view is not modelled.
\<close>

datatype result_type = Unknown | Complete | Error

record view =
  vw_schema :: schema
  vw_root :: entry
  vw_listeners :: "nat list"
  vw_dirty :: bool
  vw_result_type :: result_type
  vw_txn :: txn_gen
  vw_log :: "(nat \<times> entry_list \<times> result_type) list"

definition view_new :: "schema \<Rightarrow> result_type \<Rightarrow> view" where
  "view_new sch rt = \<lparr> vw_schema = sch, vw_root = synthetic_root, vw_listeners = [], vw_dirty = False, vw_result_type = rt, vw_txn = 0, vw_log = [] \<rparr>"

definition view_data :: "view \<Rightarrow> entry_list option" where
  "view_data v = vec_get (e_rels (vw_root v)) 0"

definition fire_listeners :: "view \<Rightarrow> view option" where
  "fire_listeners v = do {
     d \<leftarrow> view_data v;
     Some (v \<lparr> vw_log := vw_log v @ map (\<lambda>l. (l, d, vw_result_type v)) (vw_listeners v) \<rparr>)
   }"

definition set_result_type :: "result_type \<Rightarrow> view \<Rightarrow> view option" where
  "set_result_type rt v = fire_listeners (v \<lparr> vw_result_type := rt \<rparr>)"

definition add_listener :: "nat \<Rightarrow> view \<Rightarrow> (view \<times> nat) option" where
  "add_listener l v = do {
     d \<leftarrow> view_data v;
     let v' = v \<lparr> vw_log := vw_log v @ [(l, d, vw_result_type v)], vw_listeners := vw_listeners v @ [l] \<rparr>;
     Some (v', length (vw_listeners v') - 1)
   }"

definition flush :: "view \<Rightarrow> view option" where
  "flush v =
     (if \<not> vw_dirty v then Some v
      else do {
        v' \<leftarrow> fire_listeners (v \<lparr> vw_dirty := False \<rparr>);
        Some (v' \<lparr> vw_txn := vw_txn v' + 1 \<rparr>)
      })"

fun hydrate_loop :: "txn_gen \<Rightarrow> schema \<Rightarrow> node list \<Rightarrow> entry \<Rightarrow> entry option" where
  "hydrate_loop gen sch [] p = Some p"
| "hydrate_loop gen sch (n # ns) p = do { p' \<leftarrow> apply_change InPlace gen (ViewAdd n) sch 0 p; hydrate_loop gen sch ns p' }"

definition hydrate_from :: "node list \<Rightarrow> view \<Rightarrow> view option" where
  "hydrate_from ns v = do {
     p \<leftarrow> hydrate_loop (vw_txn v) (vw_schema v) ns (vw_root v);
     flush (v \<lparr> vw_dirty := True, vw_root := p \<rparr>)
   }"

definition push_change :: "change \<Rightarrow> view \<Rightarrow> view option" where
  "push_change c v = do {
     p \<leftarrow> apply_change Cow (vw_txn v) (from_change c) (vw_schema v) 0 (vw_root v);
     Some (v \<lparr> vw_dirty := True, vw_root := p \<rparr>)
   }"

section \<open>Histories\<close>

datatype view_event = Pushed change | Flushed | Listened nat | Settled result_type

fun view_step :: "view_event \<Rightarrow> view \<Rightarrow> view option" where
  "view_step (Pushed c) v = push_change c v"
| "view_step Flushed v = flush v"
| "view_step (Listened l) v = map_option fst (add_listener l v)"
| "view_step (Settled rt) v = set_result_type rt v"

fun view_run :: "view_event list \<Rightarrow> view \<Rightarrow> view option" where
  "view_run [] v = Some v"
| "view_run (e # es) v = do { v' \<leftarrow> view_step e v; view_run es v' }"

fun changes_of :: "view_event list \<Rightarrow> change list" where
  "changes_of [] = []"
| "changes_of (Pushed c # es) = c # changes_of es"
| "changes_of (_ # es) = changes_of es"

text \<open>A view and a receiver in the same state.\<close>

definition in_step :: "schema \<Rightarrow> entry \<Rightarrow> receiver \<Rightarrow> bool" where
  "in_step sch p rv \<longleftrightarrow> rv_schema rv = sch \<and> length (e_rels p) = 1 \<and> shaped_list (e_rels p ! 0) sch \<and> rv_top rv = strip_list (e_rels p ! 0)"

lemma apply_in_step:
  assumes "in_step sch p rv" "adds_distinct c"
  shows "rel_option (in_step sch) (apply_change mode gen (from_change c) sch 0 p) (receiver_apply rv (flat_of c))"
proof -
  have p: "0 < length (e_rels p)" "shaped_list (e_rels p ! 0) sch" using assms(1) by (simp_all add: in_step_def)
  note eq = apply_equiv [OF p assms(2), of mode gen]
  show ?thesis
  proof (cases "view_apply mode gen (from_change c) sch 0 p")
    case None
    then show ?thesis using eq assms(1) by (simp add: apply_change_def receiver_apply_def in_step_def)
  next
    case (Some r)
    obtain p' b where r: "r = (p', b)" by fastforce
    have rep: "slot_replaced sch 0 p p'" using apply_replaced [OF p] Some r by blast
    obtain l where l: "apply_at sch (fc_path (flat_of c)) (fc_op (flat_of c)) (strip_list (e_rels p ! 0)) = Some l" "strip p' = put_rel 0 l (strip p)"
      using eq Some r by (cases "apply_at sch (fc_path (flat_of c)) (fc_op (flat_of c)) (strip_list (e_rels p ! 0))") auto
    have "map strip_list (e_rels p') = (map strip_list (e_rels p))[0 := l]" using l(2) strip_sels(3) [of p'] by (simp add: put_rel_def recv_set_rels_def)
    then have "strip_list (e_rels p' ! 0) = l" using replaced_slot [OF rep p(1)] p(1) by (metis length_list_update length_map nth_list_update_eq nth_map)
    then show ?thesis using Some r l(1) assms(1) replaced_slot [OF rep p(1)] by (simp add: apply_change_def receiver_apply_def in_step_def)
  qed
qed

lemma hydrate_in_step:
  assumes "in_step sch p rv" "\<forall>n\<in>set ns. slots_distinct n"
  shows "rel_option (in_step sch) (hydrate_loop gen sch ns p) (receiver_apply_all rv (map (flat_of \<circ> Add) ns))"
  using assms
proof (induction ns arbitrary: p rv)
  case (Cons n ns)
  have "rel_option (in_step sch) (apply_change InPlace gen (ViewAdd n) sch 0 p) (receiver_apply rv (flat_of (Add n)))"
    using apply_in_step [OF Cons.prems(1), of "Add n" InPlace gen] Cons.prems(2) by simp
  then show ?case using Cons.IH Cons.prems(2)
    by (cases "apply_change InPlace gen (ViewAdd n) sch 0 p"; cases "receiver_apply rv (flat_of (Add n))") auto
qed simp

lemma run_in_step:
  assumes "in_step (vw_schema v) (vw_root v) rv" "\<forall>c\<in>set (changes_of es). adds_distinct c"
  shows "rel_option (\<lambda>v' rv'. vw_schema v' = vw_schema v \<and> in_step (vw_schema v) (vw_root v') rv') (view_run es v)
    (receiver_apply_all rv (map flat_of (changes_of es)))"
  using assms
proof (induction es arbitrary: v rv)
  case (Cons e es)
  have d: "view_data v = Some (e_rels (vw_root v) ! 0)" using Cons.prems(1) by (simp add: view_data_def in_step_def)
  show ?case
  proof (cases e)
    case (Pushed c)
    have "rel_option (in_step (vw_schema v)) (apply_change Cow (vw_txn v) (from_change c) (vw_schema v) 0 (vw_root v)) (receiver_apply rv (flat_of c))"
      using apply_in_step [OF Cons.prems(1)] Cons.prems(2) Pushed by simp
    then show ?thesis using Cons.IH [of "v \<lparr> vw_dirty := True, vw_root := _ \<rparr>"] Cons.prems(2) Pushed
      by (cases "apply_change Cow (vw_txn v) (from_change c) (vw_schema v) 0 (vw_root v)"; cases "receiver_apply rv (flat_of c)")
        (auto simp: push_change_def)
  next
    case Flushed
    then obtain v' where v': "flush v = Some v'" "vw_schema v' = vw_schema v" "vw_root v' = vw_root v"
      using d by (cases "vw_dirty v") (auto simp: flush_def fire_listeners_def view_data_def)
    then show ?thesis using Cons.IH [of v' rv] Cons.prems Flushed by simp
  next
    case (Listened l)
    then obtain v' i where v': "add_listener l v = Some (v', i)" "vw_schema v' = vw_schema v" "vw_root v' = vw_root v"
      using d by (auto simp: add_listener_def Let_def)
    then show ?thesis using Cons.IH [of v' rv] Cons.prems Listened by simp
  next
    case (Settled rt)
    then obtain v' where v': "set_result_type rt v = Some v'" "vw_schema v' = vw_schema v" "vw_root v' = vw_root v"
      using d by (auto simp: set_result_type_def fire_listeners_def view_data_def)
    then show ?thesis using Cons.IH [of v' rv] Cons.prems Settled by simp
  qed
qed simp

lemma flush_keeps: "view_data v \<noteq> None \<Longrightarrow> \<exists>v'. flush v = Some v' \<and> vw_schema v' = vw_schema v \<and> vw_root v' = vw_root v"
  by (auto simp: flush_def fire_listeners_def view_data_def)

lemma view_receiver:
  assumes "\<forall>n\<in>set ns. slots_distinct n" "\<forall>c\<in>set (changes_of es). adds_distinct c"
  shows "map_option (\<lambda>v. map_option strip_list (view_data v)) (do { v \<leftarrow> hydrate_from ns (view_new sch rt); view_run es v }) =
    map_option (\<lambda>rv. Some (rv_top rv)) (receiver_apply_all (receiver_new sch) (flatten_all (map expand_change (map Add ns @ changes_of es))))"
proof -
  let ?v = "view_new sch rt" and ?A = "map (flat_of \<circ> Add) ns" and ?B = "map flat_of (changes_of es)"
  have fl: "flatten_all (map expand_change (map Add ns @ changes_of es)) = ?A @ ?B" by (simp add: flatten_all_def comp_def)
  have start: "in_step sch (vw_root ?v) (receiver_new sch)"
    by (simp add: in_step_def view_new_def synthetic_root_def receiver_new_def)
  have hyd: "rel_option (in_step sch) (hydrate_loop 0 sch ns (vw_root ?v)) (receiver_apply_all (receiver_new sch) ?A)"
    by (rule hydrate_in_step [OF start assms(1)])
  show ?thesis
  proof (cases "hydrate_loop 0 sch ns (vw_root ?v)")
    case None
    then have "receiver_apply_all (receiver_new sch) ?A = None" using hyd by simp
    then show ?thesis using None unfolding fl apply_all_append by (simp add: hydrate_from_def view_new_def)
  next
    case (Some p)
    then obtain rv where rv: "receiver_apply_all (receiver_new sch) ?A = Some rv" "in_step sch p rv" using hyd by (auto simp: option_rel_Some1)
    let ?w = "?v \<lparr> vw_dirty := True, vw_root := p \<rparr>"
    obtain v where v: "flush ?w = Some v" "vw_schema v = sch" "vw_root v = p"
      using flush_keeps [of ?w] rv(2) by (auto simp: view_data_def in_step_def view_new_def)
    have h: "hydrate_from ns ?v = Some v" using Some v(1) by (simp add: hydrate_from_def view_new_def)
    have "rel_option (\<lambda>v' rv'. vw_schema v' = vw_schema v \<and> in_step (vw_schema v) (vw_root v') rv') (view_run es v) (receiver_apply_all rv ?B)"
      by (rule run_in_step) (use rv(2) v assms(2) in simp_all)
    then show ?thesis unfolding fl apply_all_append using h rv(1)
      by (cases "view_run es v"; cases "receiver_apply_all rv ?B") (auto simp: view_data_def in_step_def)
  qed
qed

text \<open>(C18) The flat protocol reconstructs the view. Hydrate a view and run any history of pushes, flushes and listener calls; feed a
  receiver with the flattened additions of the hydration and the flattened changes of the pushes. Then the two panic on the same
  histories, and otherwise hold the same rows with the same counts in the same order at every level, whatever was copied or
  mutated in place on the way.\<close>

theorem view_receiver_equiv:
  assumes "\<forall>n\<in>set ns. slots_distinct n" "\<forall>c\<in>set (changes_of es). adds_distinct c"
  shows "map_option (\<lambda>v. map_option strip_list (view_data v)) (do { v \<leftarrow> hydrate_from ns (view_new sch rt); view_run es v }) =
    map_option (\<lambda>rv. Some (rv_top rv)) (receiver_apply_all (receiver_new sch) (flatten_all (map expand_change (map Add ns @ changes_of es))))"
  by (rule view_receiver [OF assms])

theorem view_receiver_equiv_witness:
  "\<exists>rv. receiver_apply_all (receiver_new (schema_new [[105]] [0] [(0, True)]))
       (flatten_all (map expand_change [Add (leaf [IntV 1]), Add (leaf [IntV 0]), Edit (leaf [IntV 2]) (leaf [IntV 0])])) = Some rv \<and>
     map_option (\<lambda>v. map_option strip_list (view_data v)) (do {
       v \<leftarrow> hydrate_from [leaf [IntV 1]] (view_new (schema_new [[105]] [0] [(0, True)]) Complete);
       view_run [Pushed (Add (leaf [IntV 0])), Flushed, Pushed (Edit (leaf [IntV 2]) (leaf [IntV 0]))] v }) = Some (Some (rv_top rv)) \<and>
     map rn_row (rv_top rv) = [[IntV 1], [IntV 2]]"
proof -
  let ?sch = "schema_new [[105]] [0] [(0, True)]" and ?es = "[Pushed (Add (leaf [IntV 0])), Flushed, Pushed (Edit (leaf [IntV 2]) (leaf [IntV 0]))]"
  have run: "map_option (\<lambda>rv. map rn_row (rv_top rv)) (receiver_apply_all (receiver_new ?sch)
      (flatten_all (map expand_change [Add (leaf [IntV 1]), Add (leaf [IntV 0]), Edit (leaf [IntV 2]) (leaf [IntV 0])]))) = Some [[IntV 1], [IntV 2]]"
    by code_simp
  have d: "slots_distinct (leaf r)" for r by (simp add: leaf_def slots_distinct.simps)
  show ?thesis using run view_receiver_equiv [of "[leaf [IntV 1]]" ?es ?sch Complete] by (auto simp: d)
qed

section \<open>Snapshots\<close>

text \<open>The stamps of a tree.\<close>

primrec aged :: "entry \<Rightarrow> txn_gen \<Rightarrow> bool" and aged_list :: "entry_list \<Rightarrow> txn_gen \<Rightarrow> bool" where
  "aged (Entry r rc g rels) gen \<longleftrightarrow> g \<le> gen \<and> list_all (\<lambda>f. f gen) (map aged_list rels)"
| "aged_list (EList g es) gen \<longleftrightarrow> g \<le> gen \<and> list_all (\<lambda>f. f gen) (map aged es)"

lemma aged_iff: "aged e gen \<longleftrightarrow> e_created e \<le> gen \<and> (\<forall>l\<in>set (e_rels e). aged_list l gen)"
  by (cases e) (simp add: list_all_iff)

lemma aged_list_iff: "aged_list l gen \<longleftrightarrow> l_created l \<le> gen \<and> (\<forall>e\<in>set (l_items l). aged e gen)"
  by (cases l) (simp add: list_all_iff)

lemma aged_updates [simp]:
  "aged (set_rc rc e) gen = aged e gen" "aged e gen \<Longrightarrow> aged (entry_cow gen e) gen" "aged e gen \<Longrightarrow> aged (entry_edit gen r e) gen"
  by (cases e; simp add: set_rc_def entry_cow_def entry_edit_def)+

lemma aged_new: "aged (make_new_entry r sch rc gen) gen"
  by (simp add: make_new_entry_def list_all_iff)

definition all_aged :: "txn_gen \<Rightarrow> entry list \<Rightarrow> bool" where
  "all_aged gen es \<longleftrightarrow> (\<forall>e\<in>set es. aged e gen)"

lemma all_aged_vec:
  "all_aged gen es \<Longrightarrow> vec_get es i = Some e \<Longrightarrow> aged e gen"
  "all_aged gen es \<Longrightarrow> vec_set es i e = Some es' \<Longrightarrow> aged e gen \<Longrightarrow> all_aged gen es'"
  "all_aged gen es \<Longrightarrow> vec_insert es i e = Some es' \<Longrightarrow> aged e gen \<Longrightarrow> all_aged gen es'"
  "all_aged gen es \<Longrightarrow> vec_remove es i = Some es' \<Longrightarrow> all_aged gen es'"
  unfolding all_aged_def by (auto dest: vec_sets)

lemma put_aged:
  assumes "aged p gen" "all_aged gen items" "put_items gen rel items p = Some p'"
  shows "aged p' gen"
proof -
  obtain rels where rels: "vec_set (e_rels p) rel (EList gen items) = Some rels" "p' = Entry (e_row p) (e_rc p) gen rels"
    using assms(3) by (auto simp: put_items_def split: bind_splits)
  have "aged_list (EList gen items) gen" using assms(2) by (simp add: all_aged_def list_all_iff)
  then show ?thesis using assms(1) vec_sets(2) [OF rels(1)] unfolding rels(2) aged_iff [of p] aged_iff [of "Entry _ _ _ _"] by auto
qed

lemma slot_aged: "aged p gen \<Longrightarrow> vec_get (e_rels p) rel = Some l \<Longrightarrow> all_aged gen (l_items l)"
  using vec_sets(1) [of "e_rels p" rel l] by (auto simp: aged_iff [of p] aged_list_iff all_aged_def)

lemma init_aged:
  "aged e gen \<Longrightarrow> init_rels_for_new_entry gen sch e rs = Some e' \<Longrightarrow> aged e' gen"
  "all_aged gen items \<Longrightarrow> init_items gen cs items ks = Some items' \<Longrightarrow> all_aged gen items'"
proof (induction gen sch e rs and gen cs items ks arbitrary: e' and items' rule: init_rels_for_new_entry_init_items.induct)
  case (2 gen sch e slot kids rs)
  show ?case
  proof (cases "rel_child sch slot")
    case None
    then show ?thesis using 2 by simp
  next
    case (Some cs)
    then obtain items rels where st: "init_items gen cs [] kids = Some items"
        "(if items = [] then Some (e_rels e) else vec_set (e_rels e) slot (EList gen items)) = Some rels"
        "init_rels_for_new_entry gen sch (Entry (e_row e) (e_rc e) (e_created e) rels) rs = Some e'"
      using 2(5) by (auto split: bind_splits)
    have "all_aged gen items" by (rule 2(2) [OF Some]) (simp_all add: st(1) all_aged_def)
    then have l: "aged_list (EList gen items) gen" by (simp add: all_aged_def list_all_iff)
    have "set rels \<subseteq> insert (EList gen items) (set (e_rels e))"
      using st(2) vec_sets(2) [of "e_rels e" slot "EList gen items" rels] by (cases "items = []") auto
    then have "aged (Entry (e_row e) (e_rc e) (e_created e) rels) gen" using 2(4) l unfolding aged_iff [of e] aged_iff [of "Entry _ _ _ _"] by auto
    then show ?thesis using 2(3) [OF Some st(1,2)] st(3) by blast
  qed
next
  case (4 gen cs items r rels ks)
  obtain res items1 where st: "entry_search items r (sch_sort cs) = Some res"
      "(case res of Found p \<Rightarrow> do { e \<leftarrow> vec_get items p; vec_set items p (set_rc (e_rc e + 1) e) }
       | InsertAt i \<Rightarrow> do { ce \<leftarrow> init_rels_for_new_entry gen cs (make_new_entry r cs 1 gen) rels; vec_insert items i ce }) = Some items1"
      "init_items gen cs items1 ks = Some items'"
    using 4(4) by (auto split: bind_splits)
  have "all_aged gen items1"
  proof (cases res)
    case (Found p)
    then show ?thesis using st(2) all_aged_vec(1,2) [OF 4(3)] by (auto split: bind_splits)
  next
    case (InsertAt i)
    then obtain e where e: "init_rels_for_new_entry gen cs (make_new_entry r cs 1 gen) rels = Some e" "vec_insert items i e = Some items1"
      using st(2) by (auto split: bind_splits)
    have "aged e gen" by (rule 4(1) [OF st(1) InsertAt aged_new e(1)])
    then show ?thesis using all_aged_vec(3) [OF 4(3) e(2)] by simp
  qed
  then show ?case using 4(2) [OF st(1,2)] st(3) by blast
qed simp_all

lemma move_aged:
  assumes "all_aged gen items" "aged e gen" "view_move gen new old_pos raw e items = Some items'"
  shows "all_aged gen items'"
proof -
  let ?cont = "\<lambda>items1 adj. case raw of
        Found _ \<Rightarrow> do { x \<leftarrow> vec_get items1 adj; vec_set items1 adj (set_rc (e_rc x + 1) (entry_edit gen new x)) }
      | InsertAt _ \<Rightarrow> vec_insert items1 adj (set_rc 1 (entry_edit gen new e))"
  have cont: "all_aged gen items'" if sh: "all_aged gen items1" and run: "?cont items1 adj = Some items'" for items1 adj
    using run all_aged_vec(1-3) [OF sh] assms(2) by (auto split: search_result.splits bind_splits)
  show ?thesis
  proof (cases "e_rc e - 1 = 0")
    case True
    then obtain items1 where i1: "vec_remove items old_pos = Some items1" using assms(3) by (cases "vec_remove items old_pos") (auto simp: view_move_def)
    show ?thesis by (rule cont [OF all_aged_vec(4) [OF assms(1) i1]]) (use assms(3) True i1 in \<open>simp add: view_move_def Let_def\<close>)
  next
    case False
    let ?g = "set_rc (e_rc e - 1) (entry_cow gen e)"
    obtain items1 where i1: "vec_set items old_pos ?g = Some items1" using assms(3) False by (cases "vec_set items old_pos ?g") (auto simp: view_move_def)
    have "aged ?g gen" using assms(2) by simp
    then show ?thesis by (intro cont [OF all_aged_vec(2) [OF assms(1) i1]]) (use assms(3) False i1 in \<open>simp_all add: view_move_def Let_def\<close>)
  qed
qed

lemma bumped: "all_aged gen es \<Longrightarrow> vec_get es i = Some e \<Longrightarrow> vec_set es i (set_rc rc (entry_cow gen e)) = Some es' \<Longrightarrow> all_aged gen es'"
  using all_aged_vec(1) [of gen es i e] all_aged_vec(2) [of gen es i "set_rc rc (entry_cow gen e)" es'] by simp

lemma inserted:
  "all_aged gen es \<Longrightarrow> init_rels_for_new_entry gen sch (make_new_entry r sch 1 gen) rs = Some e \<Longrightarrow> vec_insert es i e = Some es' \<Longrightarrow> all_aged gen es'"
  using init_aged(1) [OF aged_new, of gen sch r sch 1 rs e] all_aged_vec(3) [of gen es i e es'] by simp

lemma apply_aged: "aged p gen \<Longrightarrow> view_apply mode gen c sch rel p = Some (p', b) \<Longrightarrow> aged p' gen"
proof (induction c arbitrary: sch rel p p' b)
  case (ViewAdd n)
  obtain l where l: "vec_get (e_rels p) rel = Some l" using ViewAdd(2) by (auto simp: view_add_def slot_items_def split: bind_splits)
  have sh: "all_aged gen (l_items l)" by (rule slot_aged [OF ViewAdd(1) l])
  obtain items' where "all_aged gen items'" "put_items gen rel items' p = Some p'"
    using ViewAdd(2) l by (auto simp: view_add_def slot_items_def split: bind_splits search_result.splits dest: bumped [OF sh] inserted [OF sh])
  then show ?case using put_aged [OF ViewAdd(1)] by blast
next
  case (ViewRemove n)
  obtain l where l: "vec_get (e_rels p) rel = Some l" using ViewRemove(2) by (auto simp: view_remove_def slot_items_def split: bind_splits)
  have sh: "all_aged gen (l_items l)" by (rule slot_aged [OF ViewRemove(1) l])
  obtain items' where "all_aged gen items'" "put_items gen rel items' p = Some p'"
    using ViewRemove(2) l
    by (auto simp: view_remove_def slot_items_def split: bind_splits search_result.splits if_splits dest: bumped [OF sh] all_aged_vec(4) [OF sh])
  then show ?case using put_aged [OF ViewRemove(1)] by blast
next
  case (ViewEdit new old)
  obtain l where l: "vec_get (e_rels p) rel = Some l" using ViewEdit(2) by (auto simp: view_edit_def slot_items_def Let_def split: bind_splits)
  have sh: "all_aged gen (l_items l)" by (rule slot_aged [OF ViewEdit(1) l])
  have edited: "all_aged gen items'" if "vec_get (l_items l) pos = Some e"
    "vec_set (l_items l) pos (entry_edit gen new e) = Some items' \<or> view_move gen new pos raw e (l_items l) = Some items'" for items' pos e raw
  proof -
    have "aged e gen" by (rule all_aged_vec(1) [OF sh that(1)])
    then show ?thesis using that(2) all_aged_vec(2) [OF sh, of pos "entry_edit gen new e" items'] move_aged [OF sh, of e new pos raw items'] by auto
  qed
  obtain items' where "all_aged gen items'" "put_items gen rel items' p = Some p'"
    using ViewEdit(2) l
    by (auto simp: view_edit_def slot_items_def Let_def split: bind_splits search_result.splits if_splits dest: edited)
  then show ?case using put_aged [OF ViewEdit(1)] by blast
next
  case (ViewChild r crel c)
  show ?case
  proof (cases "p' = p")
    case False
    then obtain cs lst pos e e' ch where st: "vec_get (e_rels p) rel = Some lst" "vec_get (l_items lst) pos = Some e"
        "view_apply mode gen c cs crel e = Some (e', ch)" "do { items' \<leftarrow> vec_set (l_items lst) pos e'; put_items gen rel items' p } = Some p'"
      using ViewChild.prems(2) by (auto split: option.splits bind_splits search_result.splits if_splits)
    have sh: "all_aged gen (l_items lst)" by (rule slot_aged [OF ViewChild.prems(1) st(1)])
    have "aged e' gen" by (rule ViewChild.IH [OF all_aged_vec(1) [OF sh st(2)] st(3)])
    then obtain items' where "all_aged gen items'" "put_items gen rel items' p = Some p'"
      using st(4) all_aged_vec(2) [OF sh] by (auto split: bind_splits)
    then show ?thesis using put_aged [OF ViewChild.prems(1)] by blast
  qed (use ViewChild in simp)
qed

text \<open>A tree is frozen under a generation when the test for mutation in place fails on the stamp of each of its objects.\<close>

primrec frozen :: "entry \<Rightarrow> txn_gen \<Rightarrow> bool" and frozen_list :: "entry_list \<Rightarrow> txn_gen \<Rightarrow> bool" where
  "frozen (Entry r rc g rels) gen \<longleftrightarrow> \<not> can_mut g Cow gen \<and> list_all (\<lambda>f. f gen) (map frozen_list rels)"
| "frozen_list (EList g es) gen \<longleftrightarrow> \<not> can_mut g Cow gen \<and> list_all (\<lambda>f. f gen) (map frozen es)"

lemma aged_frozen: "aged e gen \<Longrightarrow> gen < gen' \<Longrightarrow> frozen e gen'" "aged_list l gen \<Longrightarrow> gen < gen' \<Longrightarrow> frozen_list l gen'"
  by (induction e and l) (auto simp: can_mut_def list_all_iff)

lemma aged_mono: "aged e gen \<Longrightarrow> gen \<le> gen' \<Longrightarrow> aged e gen'" "aged_list l gen \<Longrightarrow> gen \<le> gen' \<Longrightarrow> aged_list l gen'"
  by (induction e and l) (auto simp: list_all_iff)

lemma hydrate_aged: "aged p gen \<Longrightarrow> hydrate_loop gen sch ns p = Some p' \<Longrightarrow> aged p' gen"
proof (induction ns arbitrary: p)
  case (Cons n ns)
  obtain x b where x: "view_apply InPlace gen (ViewAdd n) sch 0 p = Some (x, b)" "hydrate_loop gen sch ns x = Some p'"
    using Cons.prems(2) by (auto simp: apply_change_def split: bind_splits)
  show ?case by (rule Cons.IH [OF apply_aged [OF Cons.prems(1) x(1)] x(2)])
qed simp

text \<open>The view invariant after at most \<open>k\<close> flushes.\<close>

definition view_young :: "nat \<Rightarrow> view \<Rightarrow> bool" where
  "view_young k v \<longleftrightarrow> aged (vw_root v) (vw_txn v) \<and> unat (vw_txn v) \<le> k"

lemma txn_next:
  assumes "unat (g :: txn_gen) \<le> k" "k < 2 ^ 64 - 1"
  shows "g < g + 1" "unat (g + 1) \<le> Suc k"
proof -
  have "unat (g + 1) = (unat g + 1) mod 2 ^ 64" by (simp add: unat_word_ariths)
  then have "unat (g + 1) = unat g + 1" using assms by simp
  then show "g < g + 1" "unat (g + 1) \<le> Suc k" using assms by (simp_all add: word_less_nat_alt)
qed

lemma flush_young: "view_young k v \<Longrightarrow> k < 2 ^ 64 - 1 \<Longrightarrow> flush v = Some v' \<Longrightarrow> view_young (Suc k) v'"
proof (cases "vw_dirty v")
  case True
  assume a: "view_young k v" "k < 2 ^ 64 - 1" "flush v = Some v'"
  then have v': "vw_root v' = vw_root v" "vw_txn v' = vw_txn v + 1" using True by (auto simp: flush_def fire_listeners_def split: bind_splits)
  show ?thesis using txn_next [of "vw_txn v" k] a(1,2) aged_mono(1) [of "vw_root v" "vw_txn v" "vw_txn v + 1"] by (simp add: view_young_def v')
qed (auto simp: flush_def view_young_def)

lemma run_young:
  "view_young k v \<Longrightarrow> k + length es < 2 ^ 64 - 1 \<Longrightarrow> view_run es v = Some v' \<Longrightarrow> view_young (k + length es) v'"
proof (induction es arbitrary: k v)
  case (Cons e es)
  obtain w where w: "view_step e v = Some w" "view_run es w = Some v'" using Cons.prems(3) by (auto split: bind_splits)
  have "view_young (Suc k) w"
  proof (cases e)
    case (Pushed c)
    then obtain p b where p: "view_apply Cow (vw_txn v) (from_change c) (vw_schema v) 0 (vw_root v) = Some (p, b)" "w = v \<lparr> vw_dirty := True, vw_root := p \<rparr>"
      using w(1) by (auto simp: push_change_def apply_change_def split: bind_splits)
    have "aged (vw_root v) (vw_txn v)" using Cons.prems(1) by (simp add: view_young_def)
    from apply_aged [OF this p(1)] show ?thesis using Cons.prems(1) by (simp add: view_young_def p(2))
  next
    case Flushed
    then show ?thesis using flush_young [of k v w] Cons.prems w(1) by simp
  qed (use w(1) Cons.prems(1) in \<open>auto simp: view_young_def add_listener_def set_result_type_def fire_listeners_def Let_def split: bind_splits\<close>)
  then show ?case using Cons.IH [of "Suc k" w] Cons.prems(2) w(2) by simp
qed simp

text \<open>After a view was hydrated and ran any history of fewer than \<open>2 ^ 64 - 2\<close> events, the flush that ends a transaction hands every
  listener, in order and once, the current result; and every stamp in that result is older than the generation of the next
  transaction, so that the test \<open>can_mut\<close> fails on it. The mutation in place that the test guards is not part of the model.\<close>

theorem flush_snapshot_frozen:
  assumes "hydrate_from ns (view_new sch rt) = Some v0" "view_run es v0 = Some v" "length es < 2 ^ 64 - 2"
    and "vw_dirty v" "flush v = Some v'"
  shows "\<exists>d. view_data v' = Some d \<and> vw_log v' = vw_log v @ map (\<lambda>l. (l, d, vw_result_type v)) (vw_listeners v) \<and>
    frozen_list d (vw_txn v') \<and> \<not> vw_dirty v'"
proof -
  obtain p where p: "hydrate_loop 0 sch ns synthetic_root = Some p" "flush (view_new sch rt \<lparr> vw_dirty := True, vw_root := p \<rparr>) = Some v0"
    using assms(1) by (auto simp: hydrate_from_def view_new_def split: bind_splits)
  have "aged synthetic_root 0" by (simp add: synthetic_root_def)
  then have "view_young 0 (view_new sch rt \<lparr> vw_dirty := True, vw_root := p \<rparr>)" using hydrate_aged p(1) by (simp add: view_young_def view_new_def)
  then have "view_young 1 v0" using flush_young [OF _ _ p(2), of 0] by simp
  then have y: "view_young (1 + length es) v" using run_young [of 1 v0 es v] assms(2,3) by simp
  have v': "vw_txn v' = vw_txn v + 1" "vw_root v' = vw_root v" "\<not> vw_dirty v'"
    "\<exists>d. view_data v = Some d \<and> vw_log v' = vw_log v @ map (\<lambda>l. (l, d, vw_result_type v)) (vw_listeners v)"
    using assms(4,5) by (auto simp: flush_def fire_listeners_def view_data_def split: bind_splits)
  then obtain d where d: "view_data v = Some d" "vw_log v' = vw_log v @ map (\<lambda>l. (l, d, vw_result_type v)) (vw_listeners v)" by blast
  have "d \<in> set (e_rels (vw_root v))" using d(1) vec_sets(1) by (auto simp: view_data_def)
  then have "aged_list d (vw_txn v)" using y by (simp add: view_young_def aged_iff [of "vw_root v"])
  then have "frozen_list d (vw_txn v')" using aged_frozen(2) txn_next(1) [of "vw_txn v" "1 + length es"] y assms(3) by (simp add: v'(1) view_young_def)
  then show ?thesis using d v' by (auto simp: view_data_def)
qed

theorem flush_snapshot_frozen_witness:
  "\<exists>v v' d. map_option Some (do { v0 \<leftarrow> hydrate_from [leaf [IntV 1]] (view_new (schema_new [[105]] [0] [(0, True)]) Complete);
       view_run [Listened 7, Pushed (Add (leaf [IntV 0]))] v0 }) = Some (Some v) \<and> flush v = Some v' \<and> view_data v' = Some d \<and>
     vw_log v' = vw_log v @ [(7, d, Complete)] \<and> frozen_list d (vw_txn v')"
proof -
  let ?sch = "schema_new [[105]] [0] [(0, True)]" and ?es = "[Listened 7, Pushed (Add (leaf [IntV 0]))]"
  let ?run = "do { v0 \<leftarrow> hydrate_from [leaf [IntV 1]] (view_new ?sch Complete); view_run ?es v0 }"
  have "map_option (\<lambda>v. (vw_dirty v, vw_listeners v, vw_result_type v, flush v = None)) ?run = Some (True, [7], Complete, False)"
    by code_simp
  then obtain v v' where v: "?run = Some v" "vw_dirty v" "vw_listeners v = [7]" "vw_result_type v = Complete" "flush v = Some v'" by fastforce
  then obtain v0 where "hydrate_from [leaf [IntV 1]] (view_new ?sch Complete) = Some v0" "view_run ?es v0 = Some v" by (auto split: bind_splits)
  from flush_snapshot_frozen [OF this _ v(2,5)] v show ?thesis by auto
qed

end
