(* ===== verification/Flat_Protocol.thy ===== *)
theory Flat_Protocol
  imports View_Sink "HOL-Library.Sublist"
begin

text \<open>
  The subscription protocol (\<open>rust/src/flat_protocol.rs\<close>): a publisher stamps what a view sends with an epoch, the schema
  fingerprint and a sequence number, and a subscriber folds it into a receiver, discarding what it has seen and refusing gaps. A
  panic of the fingerprint or the receiver is the outer \<^term>\<open>None\<close>; a protocol violation is \<^term>\<open>Inl\<close>.
\<close>

definition comparator_version :: "32 word" where
  "comparator_version = 2"

record hello =
  hl_epoch :: "64 word"
  hl_comparator_version :: "32 word"
  hl_schema :: wire_schema
  hl_fp :: "64 word"

record batch =
  bt_epoch :: "64 word"
  bt_seq :: "64 word"
  bt_fp :: "64 word"
  bt_events :: "flat_change list"

record snapshot_chunk =
  ck_epoch :: "64 word"
  ck_fp :: "64 word"
  ck_index :: "64 word"
  ck_last :: bool
  ck_adds :: "flat_change list"

datatype snap_status = SnapAccepted | SnapComplete | SnapDuplicate

datatype protocol_error =
    ComparatorMismatch "32 word" "32 word"
  | EpochMismatch "64 word" "64 word"
  | SchemaMismatch "64 word" "64 word"
  | Gap "64 word" "64 word"

datatype applied = Applied | Duplicate

section \<open>The publisher\<close>

record publisher =
  pb_epoch :: "64 word"
  pb_schema :: wire_schema
  pb_fp :: "64 word"
  pb_next_seq :: "64 word"

definition publisher_new :: "64 word \<Rightarrow> schema \<Rightarrow> publisher option" where
  "publisher_new epoch sch = do {
     fp \<leftarrow> schema_fp (to_wire sch);
     Some \<lparr> pb_epoch = epoch, pb_schema = to_wire sch, pb_fp = fp, pb_next_seq = 0 \<rparr>
   }"

definition publisher_hello :: "publisher \<Rightarrow> hello" where
  "publisher_hello pb = \<lparr> hl_epoch = pb_epoch pb, hl_comparator_version = comparator_version, hl_schema = pb_schema pb, hl_fp = pb_fp pb \<rparr>"

definition emit :: "caught_change list \<Rightarrow> publisher \<Rightarrow> batch \<times> publisher" where
  "emit caught pb =
     (\<lparr> bt_epoch = pb_epoch pb, bt_seq = pb_next_seq pb, bt_fp = pb_fp pb, bt_events = flatten_all caught \<rparr>,
      pb \<lparr> pb_next_seq := pb_next_seq pb + 1 \<rparr>)"

definition pub_snapshot :: "caught_change list \<Rightarrow> publisher \<Rightarrow> batch \<times> publisher" where
  "pub_snapshot caught pb = emit caught pb"

function chunks_of :: "nat \<Rightarrow> 'a list \<Rightarrow> 'a list list" where
  "chunks_of n xs = (if n = 0 \<or> xs = [] then [] else take n xs # chunks_of n (drop n xs))"
  by pat_completeness auto
termination
  by (relation "measure (\<lambda>(n, xs). length xs)") auto

declare chunks_of.simps [simp del]

definition div_ceil :: "nat \<Rightarrow> nat \<Rightarrow> nat" where
  "div_ceil a b = a div b + (if a mod b > 0 then 1 else 0)"

definition snapshot_chunks :: "caught_change list \<Rightarrow> nat \<Rightarrow> publisher \<Rightarrow> (snapshot_chunk list \<times> publisher) option" where
  "snapshot_chunks caught max_per_chunk pb =
     (if max_per_chunk = 0 then None
      else let pb' = pb \<lparr> pb_next_seq := 1 \<rparr>; events = flatten_all caught in
        if events = [] then
          Some ([\<lparr> ck_epoch = pb_epoch pb, ck_fp = pb_fp pb, ck_index = 0, ck_last = True, ck_adds = [] \<rparr>], pb')
        else let n = div_ceil (length events) max_per_chunk in
          Some (map (\<lambda>(i, slice). \<lparr> ck_epoch = pb_epoch pb, ck_fp = pb_fp pb, ck_index = of_nat i, ck_last = (i + 1 = n), ck_adds = slice \<rparr>)
            (enumerate 0 (chunks_of max_per_chunk events)), pb'))"

definition commit :: "caught_change list \<Rightarrow> publisher \<Rightarrow> batch option \<times> publisher" where
  "commit caught pb = (if caught = [] then (None, pb) else let (b, pb') = emit caught pb in (Some b, pb'))"

section \<open>The subscriber\<close>

datatype phase = Snapshot "64 word" | Live "64 word"

record subscriber =
  sb_epoch :: "64 word"
  sb_fp :: "64 word"
  sb_recv :: receiver
  sb_phase :: phase

definition subscriber_open :: "hello \<Rightarrow> (protocol_error + subscriber) option" where
  "subscriber_open h =
     (if hl_comparator_version h \<noteq> comparator_version then Some (Inl (ComparatorMismatch comparator_version (hl_comparator_version h)))
      else do {
        computed \<leftarrow> schema_fp (hl_schema h);
        if computed \<noteq> hl_fp h then Some (Inl (SchemaMismatch (hl_fp h) computed))
        else Some (Inr \<lparr> sb_epoch = hl_epoch h, sb_fp = hl_fp h, sb_recv = receiver_new (to_schema (hl_schema h)), sb_phase = Snapshot 0 \<rparr>)
      })"

definition check_frame :: "subscriber \<Rightarrow> 64 word \<Rightarrow> 64 word \<Rightarrow> protocol_error option" where
  "check_frame sb epoch fp =
     (if epoch \<noteq> sb_epoch sb then Some (EpochMismatch (sb_epoch sb) epoch)
      else if fp \<noteq> sb_fp sb then Some (SchemaMismatch (sb_fp sb) fp)
      else None)"

definition apply_snapshot_chunk :: "snapshot_chunk \<Rightarrow> subscriber \<Rightarrow> ((protocol_error + snap_status) \<times> subscriber) option" where
  "apply_snapshot_chunk ck sb = (case check_frame sb (ck_epoch ck) (ck_fp ck) of
       Some e \<Rightarrow> Some (Inl e, sb)
     | None \<Rightarrow> (case sb_phase sb of
           Live _ \<Rightarrow> Some (Inr SnapDuplicate, sb)
         | Snapshot next_chunk \<Rightarrow>
             if ck_index ck < next_chunk then Some (Inr SnapDuplicate, sb)
             else if ck_index ck > next_chunk then Some (Inl (Gap next_chunk (ck_index ck)), sb)
             else do {
               rv \<leftarrow> receiver_apply_all (sb_recv sb) (ck_adds ck);
               if ck_last ck then Some (Inr SnapComplete, sb \<lparr> sb_recv := rv, sb_phase := Live 0 \<rparr>)
               else Some (Inr SnapAccepted, sb \<lparr> sb_recv := rv, sb_phase := Snapshot (next_chunk + 1) \<rparr>)
             }))"

definition apply_batch :: "batch \<Rightarrow> subscriber \<Rightarrow> ((protocol_error + applied) \<times> subscriber) option" where
  "apply_batch b sb = (case check_frame sb (bt_epoch b) (bt_fp b) of
       Some e \<Rightarrow> Some (Inl e, sb)
     | None \<Rightarrow> (case sb_phase sb of
           Snapshot next_chunk \<Rightarrow>
             if next_chunk = 0 \<and> bt_seq b = 0 then do {
               rv \<leftarrow> receiver_apply_all (sb_recv sb) (bt_events b);
               Some (Inr Applied, sb \<lparr> sb_recv := rv, sb_phase := Live 0 \<rparr>)
             }
             else Some (Inl (Gap 0 (bt_seq b)), sb)
         | Live last_seq \<Rightarrow>
             let expected = last_seq + 1 in
             if bt_seq b < expected then Some (Inr Duplicate, sb)
             else if bt_seq b > expected then Some (Inl (Gap expected (bt_seq b)), sb)
             else do {
               rv \<leftarrow> receiver_apply_all (sb_recv sb) (bt_events b);
               Some (Inr Applied, sb \<lparr> sb_recv := rv, sb_phase := Live (bt_seq b) \<rparr>)
             }))"

definition subscriber_top :: "subscriber \<Rightarrow> recv_node list" where
  "subscriber_top sb = rv_top (sb_recv sb)"

definition snapshot_complete :: "subscriber \<Rightarrow> bool" where
  "snapshot_complete sb = (case sb_phase sb of Live _ \<Rightarrow> True | Snapshot _ \<Rightarrow> False)"

definition sub_last_seq :: "subscriber \<Rightarrow> 64 word option" where
  "sub_last_seq sb = (case sb_phase sb of Live s \<Rightarrow> Some s | Snapshot _ \<Rightarrow> None)"

section \<open>Channels\<close>

text \<open>What travels, and what a session of the publisher puts on the wire: the baseline in one batch or in chunks, then one
  batch for every non-empty transaction.\<close>

datatype frame = FChunk snapshot_chunk | FBatch batch

fun frame_epoch :: "frame \<Rightarrow> 64 word" where
  "frame_epoch (FChunk c) = ck_epoch c"
| "frame_epoch (FBatch b) = bt_epoch b"

fun frame_events :: "frame \<Rightarrow> flat_change list" where
  "frame_events (FChunk c) = ck_adds c"
| "frame_events (FBatch b) = bt_events b"

fun commits :: "caught_change list list \<Rightarrow> publisher \<Rightarrow> batch list" where
  "commits [] pb = []"
| "commits (t # ts) pb = (case commit t pb of (None, pb') \<Rightarrow> commits ts pb' | (Some b, pb') \<Rightarrow> b # commits ts pb')"

definition session :: "nat option \<Rightarrow> caught_change list \<Rightarrow> caught_change list list \<Rightarrow> publisher \<Rightarrow> frame list option" where
  "session chunking base txns pb = (case chunking of
       None \<Rightarrow> (let (b, pb') = pub_snapshot base pb in Some (FBatch b # map FBatch (commits txns pb')))
     | Some k \<Rightarrow> do { (cks, pb') \<leftarrow> snapshot_chunks base k pb; Some (map FChunk cks @ map FBatch (commits txns pb')) })"

text \<open>The subscriber takes what arrives; a violation leaves it as it is.\<close>

fun deliver_frame :: "frame \<Rightarrow> subscriber \<Rightarrow> subscriber option" where
  "deliver_frame (FChunk c) sb = map_option snd (apply_snapshot_chunk c sb)"
| "deliver_frame (FBatch b) sb = map_option snd (apply_batch b sb)"

fun deliver_all :: "frame list \<Rightarrow> subscriber \<Rightarrow> subscriber option" where
  "deliver_all [] sb = Some sb"
| "deliver_all (f # fs) sb = do { sb' \<leftarrow> deliver_frame f sb; deliver_all fs sb' }"

section \<open>The frames of a session\<close>

lemma chunks_concat: "n > 0 \<Longrightarrow> concat (chunks_of n xs) = xs"
proof (induction n xs rule: chunks_of.induct)
  case (1 n xs)
  then show ?case by (subst chunks_of.simps) auto
qed

lemma chunks_length: "n > 0 \<Longrightarrow> length (chunks_of n xs) = div_ceil (length xs) n"
proof (induction n xs rule: chunks_of.induct)
  case (1 n xs)
  show ?case
  proof (cases "xs = []")
    case False
    have IH: "length (chunks_of n (drop n xs)) = div_ceil (length xs - n) n" using 1 False by simp
    show ?thesis
    proof (cases "length xs < n")
      case True
      then show ?thesis using False IH 1(2) by (subst chunks_of.simps) (simp add: div_ceil_def)
    next
      case ge: False
      then have "div_ceil (length xs) n = Suc (div_ceil (length xs - n) n)" using 1(2) by (simp add: div_ceil_def le_div_geq le_mod_geq not_less)
      then show ?thesis using False IH 1(2) by (subst chunks_of.simps) simp
    qed
  qed (subst chunks_of.simps, simp add: div_ceil_def)
qed

text \<open>The frame at position \<open>i\<close> of a session whose baseline takes \<open>c\<close> frames.\<close>

fun frame_at :: "64 word \<Rightarrow> 64 word \<Rightarrow> nat \<Rightarrow> nat \<Rightarrow> frame \<Rightarrow> bool" where
  "frame_at e fp c i (FChunk ck) \<longleftrightarrow> ck_epoch ck = e \<and> ck_fp ck = fp \<and> i < c \<and> ck_index ck = of_nat i \<and> ck_last ck = (i + 1 = c)"
| "frame_at e fp c i (FBatch b) \<longleftrightarrow> bt_epoch b = e \<and> bt_fp b = fp \<and> (c \<le> i \<or> c = 1) \<and> bt_seq b = of_nat (i + 1 - c)"

definition frames_ok :: "64 word \<Rightarrow> 64 word \<Rightarrow> nat \<Rightarrow> frame list \<Rightarrow> bool" where
  "frames_ok e fp c fs \<longleftrightarrow> 0 < c \<and> c \<le> length fs \<and> (\<forall>i < length fs. frame_at e fp c i (fs ! i))"

lemma commits_events: "map bt_events (commits ts pb) = map flatten_all (filter (\<lambda>t. t \<noteq> []) ts)"
  by (induction ts arbitrary: pb) (auto simp: commit_def emit_def)

lemma commits_at:
  assumes "pb_next_seq pb = of_nat s" "i < length (commits ts pb)"
  shows "bt_epoch (commits ts pb ! i) = pb_epoch pb \<and> bt_fp (commits ts pb ! i) = pb_fp pb \<and> bt_seq (commits ts pb ! i) = of_nat (s + i)"
  using assms
proof (induction ts arbitrary: pb s i)
  case (Cons t ts)
  show ?case
  proof (cases "t = []")
    case True
    then show ?thesis using Cons by (simp add: commit_def)
  next
    case False
    then show ?thesis using Cons.prems Cons.IH [of "pb \<lparr> pb_next_seq := pb_next_seq pb + 1 \<rparr>" "Suc s" "i - 1"]
      by (cases i) (simp_all add: commit_def emit_def add.commute)
  qed
qed simp

lemma chunk_frames:
  assumes "snapshot_chunks base k pb = Some (cks, pb')"
  shows "cks \<noteq> []" "concat (map ck_adds cks) = flatten_all base" "pb' = pb \<lparr> pb_next_seq := 1 \<rparr>"
    "i < length cks \<Longrightarrow> frame_at (pb_epoch pb) (pb_fp pb) (length cks) i (FChunk (cks ! i))"
proof -
  have k: "k > 0" using assms by (auto simp: snapshot_chunks_def split: if_splits)
  have ne: "chunks_of k xs \<noteq> []" if "xs \<noteq> []" for xs :: "flat_change list" using that k by (subst chunks_of.simps) simp
  have en: "enumerate m xs = [] \<longleftrightarrow> xs = []" for m and xs :: "flat_change list list" by (cases xs) simp_all
  have mp: "concat (map (ck_adds \<circ> (\<lambda>(i, slice). \<lparr> ck_epoch = a, ck_fp = b, ck_index = of_nat i, ck_last = (Suc i = n), ck_adds = slice \<rparr>)) (enumerate m xs)) = concat xs"
    for a b n m and xs :: "flat_change list list" by (induction xs arbitrary: m) simp_all
  show "cks \<noteq> []" "pb' = pb \<lparr> pb_next_seq := 1 \<rparr>" using assms k ne en by (auto simp: snapshot_chunks_def Let_def split: if_splits)
  show "concat (map ck_adds cks) = flatten_all base"
    using assms k by (auto simp: snapshot_chunks_def Let_def mp chunks_concat simp del: comp_apply split: if_splits)
  show "i < length cks \<Longrightarrow> frame_at (pb_epoch pb) (pb_fp pb) (length cks) i (FChunk (cks ! i))"
    using assms k by (auto simp: snapshot_chunks_def Let_def nth_enumerate_eq chunks_length split: if_splits)
qed

text \<open>The frames of a session, and what the first of them carry.\<close>

lemma session_frames:
  assumes "session chunking base txns pb = Some fs" "pb_next_seq pb = 0"
  shows "\<exists>c. frames_ok (pb_epoch pb) (pb_fp pb) c fs \<and>
    (\<forall>k \<le> length fs. c \<le> k \<longrightarrow> concat (map frame_events (take k fs)) = flatten_all (base @ concat (take (k - c) (filter (\<lambda>t. t \<noteq> []) txns)))) \<and>
    length fs = c + length (filter (\<lambda>t. t \<noteq> []) txns)"
proof -
  let ?ts = "filter (\<lambda>t. t \<noteq> []) txns"
  have fl: "concat (map flatten_all ts) = flatten_all (concat ts)" "flatten_all (xs @ ys) = flatten_all xs @ flatten_all ys" for ts xs ys
    by (induction ts) (simp_all add: flatten_all_def)
  have key: "\<exists>c. frames_ok (pb_epoch pb) (pb_fp pb) c fs \<and>
      (\<forall>k \<le> length fs. c \<le> k \<longrightarrow> concat (map frame_events (take k fs)) = flatten_all (base @ concat (take (k - c) ?ts))) \<and> length fs = c + length ?ts"
    if fs: "fs = B @ map FBatch (commits txns pb')" and B: "B \<noteq> []" "concat (map frame_events B) = flatten_all base"
      "\<And>i. i < length B \<Longrightarrow> frame_at (pb_epoch pb) (pb_fp pb) (length B) i (B ! i)"
      and pb': "pb' = pb \<lparr> pb_next_seq := 1 \<rparr>" for B pb'
  proof (intro exI [of _ "length B"] conjI allI impI)
    have s: "pb_next_seq pb' = of_nat 1" by (simp add: pb')
    have ev: "map bt_events (commits txns pb') = map flatten_all ?ts" by (rule commits_events)
    show "length fs = length B + length ?ts" using arg_cong [OF ev, of length] by (simp add: fs)
    show "frames_ok (pb_epoch pb) (pb_fp pb) (length B) fs"
      using B commits_at [OF s, of _ txns] by (auto simp: frames_ok_def fs nth_append pb' Suc_diff_le not_less)
    fix k assume k: "length B \<le> k" "k \<le> length fs"
    have "map frame_events (take (k - length B) (map FBatch (commits txns pb'))) = take (k - length B) (map bt_events (commits txns pb'))"
      by (simp add: take_map comp_def)
    then show "concat (map frame_events (take k fs)) = flatten_all (base @ concat (take (k - length B) ?ts))"
      using k(1) B(2) by (simp add: fs ev fl take_map)
  qed
  show ?thesis
  proof (cases chunking)
    case None
    show ?thesis by (rule key [of "[FBatch (fst (emit base pb))]" "snd (emit base pb)"])
      (use assms None in \<open>auto simp: session_def pub_snapshot_def emit_def\<close>)
  next
    case (Some n)
    then obtain cks pb' where c: "snapshot_chunks base n pb = Some (cks, pb')" "fs = map FChunk cks @ map FBatch (commits txns pb')"
      using assms(1) by (auto simp: session_def split: bind_splits)
    show ?thesis by (rule key [of "map FChunk cks" pb'])
      (use c chunk_frames [OF c(1)] in \<open>auto simp: comp_def\<close>)
  qed
qed

section \<open>Delivery\<close>

text \<open>The subscriber has applied exactly the first \<open>k\<close> frames of a session.\<close>

definition sub_at :: "schema \<Rightarrow> 64 word \<Rightarrow> 64 word \<Rightarrow> nat \<Rightarrow> frame list \<Rightarrow> nat \<Rightarrow> subscriber \<Rightarrow> bool" where
  "sub_at sch e fp c fs k sb \<longleftrightarrow> k \<le> length fs \<and> sb_epoch sb = e \<and> sb_fp sb = fp \<and>
     sb_phase sb = (if k < c then Snapshot (of_nat k) else Live (of_nat (k - c))) \<and>
     receiver_apply_all (receiver_new sch) (concat (map frame_events (take k fs))) = Some (sb_recv sb)"

lemma of_nat_u64:
  assumes "a < 2 ^ 64" "b < 2 ^ 64"
  shows "(of_nat a :: 64 word) < of_nat b \<longleftrightarrow> a < b" "(of_nat a :: 64 word) = of_nat b \<longleftrightarrow> a = b"
proof -
  have u: "unat (of_nat n :: 64 word) = n" if "n < 2 ^ 64" for n using that by (simp add: unat_of_nat)
  show "(of_nat a :: 64 word) < of_nat b \<longleftrightarrow> a < b" using u [OF assms(1)] u [OF assms(2)] by (simp add: word_less_nat_alt)
  show "(of_nat a :: 64 word) = of_nat b \<longleftrightarrow> a = b" using u [OF assms(1)] u [OF assms(2)] by metis
qed

lemma next_recv:
  assumes "k < length fs" "receiver_apply_all rv0 (concat (map frame_events (take k fs))) = Some rv"
    and "receiver_apply_all rv0 (concat (map frame_events fs)) \<noteq> None"
  shows "\<exists>rv'. receiver_apply_all rv (frame_events (fs ! k)) = Some rv' \<and>
    receiver_apply_all rv0 (concat (map frame_events (take (Suc k) fs))) = Some rv'"
proof -
  have "fs = take k fs @ fs ! k # drop (Suc k) fs" using assms(1) by (rule id_take_nth_drop)
  then have "concat (map frame_events fs) = concat (map frame_events (take k fs)) @ frame_events (fs ! k) @ concat (map frame_events (drop (Suc k) fs))"
    by (metis concat.simps(2) concat_append list.simps(9) map_append)
  then have "receiver_apply_all rv (frame_events (fs ! k)) \<noteq> None" using assms(2,3)
    by (cases "receiver_apply_all rv (frame_events (fs ! k))") (simp_all add: apply_all_append)
  then show ?thesis using assms(1,2) by (auto simp: take_Suc_conv_app_nth apply_all_append)
qed

lemma live_other:
  assumes "check_frame sb (bt_epoch b) (bt_fp b) = None" "sb_phase sb = Live y" "bt_seq b < y + 1 \<or> y + 1 < bt_seq b"
  shows "deliver_frame (FBatch b) sb = Some sb"
  using assms by (auto simp: apply_batch_def Let_def)

lemma live_next:
  assumes "check_frame sb (bt_epoch b) (bt_fp b) = None" "sb_phase sb = Live y" "bt_seq b = y + 1" "receiver_apply_all (sb_recv sb) (bt_events b) = Some rv"
  shows "deliver_frame (FBatch b) sb = Some (sb \<lparr> sb_recv := rv, sb_phase := Live (y + 1) \<rparr>)"
  using assms by (simp add: apply_batch_def)

lemma deliver_at:
  assumes "frame_at e fp c j f" "j < 2 ^ 64 - 1" "k < 2 ^ 64 - 1" "0 < c"
    and "sb_epoch sb = e" "sb_fp sb = fp" "sb_phase sb = (if k < c then Snapshot (of_nat k) else Live (of_nat (k - c)))"
  shows "j \<noteq> k \<Longrightarrow> deliver_frame f sb = Some sb"
    and "j = k \<Longrightarrow> receiver_apply_all (sb_recv sb) (frame_events f) = Some rv \<Longrightarrow>
      deliver_frame f sb = Some (sb \<lparr> sb_recv := rv, sb_phase := (if Suc k < c then Snapshot (of_nat (Suc k)) else Live (of_nat (Suc k - c))) \<rparr>)"
proof -
  have cmp: "(of_nat j :: 64 word) < of_nat k \<longleftrightarrow> j < k" "(of_nat k :: 64 word) < of_nat j \<longleftrightarrow> k < j"
    "(of_nat (j + 1 - c) :: 64 word) < of_nat (k - c + 1) \<longleftrightarrow> j + 1 - c < k - c + 1" "(of_nat (k - c + 1) :: 64 word) < of_nat (j + 1 - c) \<longleftrightarrow> k - c + 1 < j + 1 - c"
    "(of_nat k :: 64 word) = of_nat 0 \<longleftrightarrow> k = 0" "(of_nat (j + 1 - c) :: 64 word) = of_nat 0 \<longleftrightarrow> j + 1 - c = 0"
    using assms(2,3) by (intro of_nat_u64; simp)+
  have fr: "check_frame sb e fp = None" using assms(5,6) by (simp add: check_frame_def)
  have suc: "(of_nat (k - c) :: 64 word) + 1 = of_nat (k - c + 1)" "(of_nat k :: 64 word) + 1 = of_nat (Suc k)" by (simp_all add: add.commute)
  show "deliver_frame f sb = Some sb" if "j \<noteq> k"
  proof (cases f)
    case (FChunk ck)
    then show ?thesis using assms(1,7) that cmp(1,2) fr by (auto simp: apply_snapshot_chunk_def)
  next
    case (FBatch b)
    have b: "bt_epoch b = e" "bt_fp b = fp" "c \<le> j \<or> c = 1" "bt_seq b = of_nat (j + 1 - c)" using assms(1) FBatch by simp_all
    show ?thesis
    proof (cases "k < c")
      case True
      have "\<not> (k = 0 \<and> j + 1 - c = 0)" using b(3) that True by auto
      then show ?thesis using FBatch b fr assms(7) True cmp(5,6) by (auto simp: apply_batch_def)
    next
      case False
      then have "j + 1 - c < k - c + 1 \<longleftrightarrow> j < k" "k - c + 1 < j + 1 - c \<longleftrightarrow> k < j" using b(3) by auto
      then have "bt_seq b < of_nat (k - c + 1) \<or> of_nat (k - c + 1) < bt_seq b" unfolding b(4) cmp(3,4) using that by auto
      then show ?thesis unfolding FBatch by (intro live_other [where y = "of_nat (k - c)"]) (use b fr assms(7) False suc(1) in \<open>simp_all add: add.commute\<close>)
    qed
  qed
  show "deliver_frame f sb = Some (sb \<lparr> sb_recv := rv, sb_phase := (if Suc k < c then Snapshot (of_nat (Suc k)) else Live (of_nat (Suc k - c))) \<rparr>)"
    if "j = k" "receiver_apply_all (sb_recv sb) (frame_events f) = Some rv"
  proof (cases f)
    case (FChunk ck)
    then show ?thesis using assms(1,7) that fr by (auto simp: apply_snapshot_chunk_def suc)
  next
    case (FBatch b)
    have b: "bt_epoch b = e" "bt_fp b = fp" "c \<le> k \<or> c = 1" "bt_seq b = of_nat (k + 1 - c)" using assms(1) FBatch that by simp_all
    show ?thesis
    proof (cases "k < c")
      case True
      then have "c = 1" "k = 0" using b(3) by auto
      then show ?thesis using FBatch b fr assms(7) that by (simp add: apply_batch_def)
    next
      case False
      then have e: "k + 1 - c = k - c + 1" "Suc k - c = k - c + 1" "\<not> Suc k < c" by auto
      have "deliver_frame f sb = Some (sb \<lparr> sb_recv := rv, sb_phase := Live (of_nat (k - c) + 1) \<rparr>)" unfolding FBatch
        by (rule live_next) (use b fr assms(7) False that FBatch e(1) suc(1) in simp_all)
      then show ?thesis using e(2,3) suc(1) by simp
    qed
  qed
qed

lemma deliver_step:
  assumes fs: "frames_ok e fp c fs" "length fs < 2 ^ 64 - 1" "receiver_apply_all (receiver_new sch) (concat (map frame_events fs)) \<noteq> None"
    and sb: "sub_at sch e fp c fs k sb" and f: "f \<in> set fs \<or> frame_epoch f \<noteq> e"
  shows "\<exists>sb'. deliver_frame f sb = Some sb' \<and> sub_at sch e fp c fs (if k < length fs \<and> f = fs ! k then Suc k else k) sb'"
proof -
  have S: "k \<le> length fs" "sb_epoch sb = e" "sb_fp sb = fp" "sb_phase sb = (if k < c then Snapshot (of_nat k) else Live (of_nat (k - c)))"
    "receiver_apply_all (receiver_new sch) (concat (map frame_events (take k fs))) = Some (sb_recv sb)" using sb by (simp_all add: sub_at_def)
  have c: "0 < c" and at: "\<And>i. i < length fs \<Longrightarrow> frame_at e fp c i (fs ! i)" using fs(1) by (simp_all add: frames_ok_def)
  have k: "k < 2 ^ 64 - 1" using S(1) fs(2) by linarith
  show ?thesis
  proof (cases "k < length fs \<and> f = fs ! k")
    case True
    then obtain rv where rv: "receiver_apply_all (sb_recv sb) (frame_events f) = Some rv"
        "receiver_apply_all (receiver_new sch) (concat (map frame_events (take (Suc k) fs))) = Some rv"
      using next_recv [OF _ S(5) fs(3)] by auto
    have "frame_at e fp c k f" using at True by simp
    from deliver_at(2) [OF this k k c S(2-4) refl rv(1)] show ?thesis using True rv(2) S(2,3) by (auto simp: sub_at_def)
  next
    case False
    have "deliver_frame f sb = Some sb"
    proof (cases "f \<in> set fs")
      case True
      then obtain j where j: "j < length fs" "fs ! j = f" by (auto simp: in_set_conv_nth)
      then have "j \<noteq> k" using False S(1) by auto
      then show ?thesis using deliver_at(1) [OF at [OF j(1)] _ k c S(2-4)] j fs(2) by simp
    next
      case False
      then have "frame_epoch f \<noteq> e" using f by simp
      then show ?thesis by (cases f) (simp_all add: apply_snapshot_chunk_def apply_batch_def check_frame_def S(2))
    qed
    then show ?thesis unfolding if_not_P [OF False] using sb by simp
  qed
qed

lemma deliver_run:
  assumes fs: "frames_ok e fp c fs" "length fs < 2 ^ 64 - 1" "receiver_apply_all (receiver_new sch) (concat (map frame_events fs)) \<noteq> None"
    and "sub_at sch e fp c fs k sb" "\<forall>g\<in>set gs. g \<in> set fs \<or> frame_epoch g \<noteq> e"
  shows "\<exists>sb' k'. deliver_all gs sb = Some sb' \<and> sub_at sch e fp c fs k' sb' \<and> k \<le> k' \<and> (subseq (drop k fs) gs \<longrightarrow> k' = length fs)"
  using assms(4,5)
proof (induction gs arbitrary: k sb)
  case Nil
  have "length (drop k fs) = 0 \<longrightarrow> k = length fs" using Nil.prems(1) by (simp add: sub_at_def)
  then have "subseq (drop k fs) [] \<longrightarrow> k = length fs" using list_emb_length [of "(=)" "drop k fs" "[]"] by fastforce
  then show ?case using Nil.prems(1) deliver_all.simps(1) by blast
next
  case (Cons g gs)
  let ?k = "if k < length fs \<and> g = fs ! k then Suc k else k"
  obtain sb1 where s1: "deliver_frame g sb = Some sb1" "sub_at sch e fp c fs ?k sb1"
    using deliver_step [OF fs Cons.prems(1), of g] Cons.prems(2) by auto
  then obtain sb' k' where s2: "deliver_all gs sb1 = Some sb'" "sub_at sch e fp c fs k' sb'" "?k \<le> k'" "subseq (drop ?k fs) gs \<longrightarrow> k' = length fs"
    using Cons.IH [OF s1(2)] Cons.prems(2) by auto
  have "subseq (drop ?k fs) gs" if "subseq (drop k fs) (g # gs)"
  proof (cases "k < length fs")
    case True
    then have "drop k fs = fs ! k # drop (Suc k) fs" by (rule Cons_nth_drop_Suc [symmetric])
    then show ?thesis using that True by (auto simp: subseq_Cons2_iff dest: subseq_Cons' split: if_splits)
  qed simp
  moreover have "k \<le> k'" using s2(3) by (simp split: if_splits)
  ultimately show ?case using s1(1) s2(1,2,4) by (intro exI [of _ sb'] exI [of _ k']) simp
qed

section \<open>The schema on the receiving side\<close>

primrec ids_small :: "schema \<Rightarrow> bool" and rel_ids_small :: "rel_def \<Rightarrow> bool" where
  "ids_small (Schema cols tys pk srt rels single proj) \<longleftrightarrow> (\<forall>c\<in>fst ` set srt. c < 2 ^ 32) \<and> list_all id (map rel_ids_small rels)"
| "rel_ids_small (RelDef nm ch pr) \<longleftrightarrow> pred_option id (map_option ids_small ch)"

abbreviation norm :: "schema \<Rightarrow> schema" where
  "norm sch \<equiv> to_schema (to_wire sch)"

lemma rels_norm: "map rel_from_wire (map (\<lambda>(i, f). f (of_nat i)) (enumerate n (map rel_to_wire rels))) = map (\<lambda>rd. rel_from_wire (rel_to_wire rd 0)) rels"
proof (induction rels arbitrary: n)
  case (Cons r rels)
  have "rel_from_wire (rel_to_wire r a) = rel_from_wire (rel_to_wire r b)" for a b by (cases r) simp
  then show ?case using Cons by auto
qed simp

lemma norm_rels: "sch_relationships (norm sch) = map (\<lambda>rd. rel_from_wire (rel_to_wire rd 0)) (sch_relationships sch)"
  by (cases sch) (simp only: to_wire.simps to_schema.simps schema.sel rels_norm)

lemma norm_child: "rel_child (norm sch) i = map_option norm (rel_child sch i)" "length (sch_relationships (norm sch)) = length (sch_relationships sch)"
proof -
  have "rel_target (rel_from_wire (rel_to_wire rd 0)) = map_option norm (rel_target rd)" for rd by (cases rd; cases "rel_target rd") auto
  then show "rel_child (norm sch) i = map_option norm (rel_child sch i)" by (simp add: rel_child_def norm_rels)
qed (simp add: norm_rels)

lemma norm_sort: "ids_small sch \<Longrightarrow> sch_sort (norm sch) = sch_sort sch"
proof (cases sch)
  case (Schema cols tys pk srt rels single proj)
  assume "ids_small sch"
  then have "\<forall>p\<in>set srt. fst p < 2 ^ 32" using Schema by auto
  then have "map (map_prod unat id \<circ> map_prod (of_nat :: nat \<Rightarrow> 32 word) id) srt = srt"
    by (intro map_idI) (auto simp: unat_of_nat)
  then show ?thesis using Schema by simp
qed

lemma small_child: "ids_small sch \<Longrightarrow> rel_child sch i = Some cs \<Longrightarrow> ids_small cs"
proof (cases sch)
  case (Schema cols tys pk srt rels single proj)
  assume a: "ids_small sch" "rel_child sch i = Some cs"
  then have "rel_ids_small (rels ! i)" "rel_target (rels ! i) = Some cs" using Schema by (auto simp: rel_child_def list_all_iff split: if_splits)
  then show ?thesis by (cases "rels ! i") simp
qed

lemma build_norm:
  "ids_small sch \<Longrightarrow> build_node (norm sch) n = build_node sch n"
  "ids_small sch \<Longrightarrow> build_rels (norm sch) ls rs = build_rels sch ls rs"
  "ids_small sch \<Longrightarrow> build_list (norm sch) built chs = build_list sch built chs"
proof (induction sch n and sch ls rs and sch built chs rule: build_node_build_rels_build_list.induct)
  case (3 sch ls slot ch rs)
  show ?case
  proof (cases "rel_child sch slot")
    case (Some cs)
    then have "build_list (norm cs) [] ch = build_list cs [] ch" using 3(2) small_child 3(4) by blast
    then show ?thesis using Some 3 by (auto simp: norm_child split: bind_split)
  qed (use 3 in \<open>simp add: norm_child\<close>)
next
  case (5 cs built ch chs)
  show ?case
  proof (cases "recv_search built (wn_row ch) (sch_sort cs)")
    case (Some res)
    show ?thesis using Some 5 by (cases res) (auto simp: norm_sort split: bind_split)
  qed (simp add: norm_sort 5)
qed (simp_all add: norm_child)

lemma apply_norm: "ids_small sch \<Longrightarrow> apply_at (norm sch) path op ns = apply_at sch path op ns"
proof (induction sch path op ns rule: apply_at.induct)
  case (1 sch op ns)
  show ?case
  proof (cases op)
    case (FlatAdd n)
    then show ?thesis using 1 by (auto simp: recv_add_def norm_sort build_norm split: bind_split search_result.split)
  qed (simp_all add: recv_remove_def recv_edit_def norm_sort 1)
next
  case (2 sch seg rest op ns)
  show ?case
  proof (cases "rel_child sch (seg_rel seg)")
    case (Some cs)
    have IH: "apply_at (norm cs) rest op l = apply_at cs rest op l" if "recv_search ns (seg_parent_row seg) (sch_sort sch) = Some (Found pos)"
      "vec_get ns pos = Some x" "vec_get (rn_rels x) (seg_rel seg) = Some l" for pos x l
      using 2(1) [OF Some that(1) refl that(2,3)] small_child [OF 2(2) Some] by simp
    show ?thesis using Some by (auto simp: norm_child norm_sort [OF 2(2)] IH split: bind_split search_result.split)
  qed (simp add: norm_child)
qed

lemma receiver_norm:
  assumes "ids_small sch"
  shows "map_option rv_top (receiver_apply_all (receiver_new (norm sch)) cs) = map_option rv_top (receiver_apply_all (receiver_new sch) cs)"
proof -
  have "map_option rv_top (receiver_apply_all \<lparr> rv_schema = norm sch, rv_top = t \<rparr> cs) = map_option rv_top (receiver_apply_all \<lparr> rv_schema = sch, rv_top = t \<rparr> cs)" for t
    by (induction cs arbitrary: t) (auto simp: receiver_apply_def apply_norm [OF assms] split: bind_split)
  then show ?thesis by (simp add: receiver_new_def)
qed

section \<open>End to end\<close>

definition txn_events :: "change list \<Rightarrow> view_event list" where
  "txn_events t = map Pushed t @ [Flushed]"

lemma changes_of_append: "changes_of (xs @ ys) = changes_of xs @ changes_of ys"
  by (induction xs rule: changes_of.induct) simp_all

lemma changes_of_txns: "changes_of (concat (map txn_events ts)) = concat ts"
proof -
  have "changes_of (txn_events t) = t" for t unfolding txn_events_def changes_of_append by (induction t) simp_all
  then show ?thesis by (induction ts) (simp_all add: changes_of_append)
qed

lemma view_run_append: "view_run (xs @ ys) v = do { v' \<leftarrow> view_run xs v; view_run ys v' }"
  by (induction xs arbitrary: v) (simp_all split: bind_split)

definition view_after :: "schema \<Rightarrow> result_type \<Rightarrow> node list \<Rightarrow> change list list \<Rightarrow> view option" where
  "view_after sch rt ns ts = do { v \<leftarrow> hydrate_from ns (view_new sch rt); view_run (concat (map txn_events ts)) v }"

lemma view_after_prefix: "view_after sch rt ns ts \<noteq> None \<Longrightarrow> view_after sch rt ns (take m ts) \<noteq> None"
proof -
  assume "view_after sch rt ns ts \<noteq> None"
  then have "view_after sch rt ns (take m ts @ drop m ts) \<noteq> None" by simp
  then show ?thesis by (auto simp: view_after_def view_run_append simp del: append_take_drop_id split: bind_splits)
qed

lemma view_after_tree:
  assumes "\<forall>n\<in>set ns. slots_distinct n" "\<forall>t\<in>set ts. \<forall>c\<in>set t. adds_distinct c" "view_after sch rt ns ts = Some v"
  shows "\<exists>rv d. receiver_apply_all (receiver_new sch) (flatten_all (map expand_change (map Add ns @ concat ts))) = Some rv \<and>
    view_data v = Some d \<and> rv_top rv = strip_list d"
proof -
  have "map_option (\<lambda>v. map_option strip_list (view_data v)) (Some v) =
      map_option (\<lambda>rv. Some (rv_top rv)) (receiver_apply_all (receiver_new sch) (flatten_all (map expand_change (map Add ns @ concat ts))))"
    unfolding assms(3) [symmetric] view_after_def using view_receiver [OF assms(1), of "concat (map txn_events ts)" sch rt] assms(2)
    by (simp add: changes_of_txns)
  then show ?thesis by (cases "receiver_apply_all (receiver_new sch) (flatten_all (map expand_change (map Add ns @ concat ts)))") auto
qed

lemma nonempty_prefix: "\<exists>m \<le> length ts. concat (take j (filter (\<lambda>t. t \<noteq> []) ts)) = concat (take m ts)"
proof (induction ts arbitrary: j)
  case (Cons t ts)
  show ?case
  proof (cases "t = [] \<or> j = 0")
    case True
    then show ?thesis using Cons [of j] by (cases "j = 0") (auto intro: exI [of _ "Suc _"])
  next
    case False
    obtain i m where "j = Suc i" "m \<le> length ts" "concat (take i (filter (\<lambda>t. t \<noteq> []) ts)) = concat (take m ts)"
      using Cons [of "j - 1"] False by (metis Suc_pred' gr0I)
    then show ?thesis using False by (intro exI [of _ "Suc m"]) simp
  qed
qed simp

lemma concat_nonempty: "concat (filter (\<lambda>t. t \<noteq> []) ts) = concat ts"
  by (induction ts) auto

lemma open_hello: "publisher_new epoch sch = Some pb \<Longrightarrow> \<exists>sb. subscriber_open (publisher_hello pb) = Some (Inr sb) \<and> pb_epoch pb = epoch \<and>
    pb_next_seq pb = 0 \<and> sb = \<lparr> sb_epoch = epoch, sb_fp = pb_fp pb, sb_recv = receiver_new (norm sch), sb_phase = Snapshot 0 \<rparr>"
  by (auto simp: publisher_new_def subscriber_open_def publisher_hello_def split: bind_splits)

lemma session_delivery:
  assumes "publisher_new epoch sch = Some pb" "session chunking base txns pb = Some fs" "length fs < 2 ^ 64 - 1"
    and "receiver_apply_all (receiver_new (norm sch)) (flatten_all (base @ concat txns)) \<noteq> None"
    and "\<forall>g\<in>set gs. g \<in> set fs \<or> frame_epoch g \<noteq> epoch" "subscriber_open (publisher_hello pb) = Some (Inr sb)"
  shows "\<exists>sb'. deliver_all gs sb = Some sb' \<and> (snapshot_complete sb' \<longrightarrow> (\<exists>j. receiver_apply_all (receiver_new (norm sch))
        (flatten_all (base @ concat (take j (filter (\<lambda>t. t \<noteq> []) txns)))) = Some (sb_recv sb'))) \<and>
      (subseq fs gs \<longrightarrow> snapshot_complete sb' \<and> receiver_apply_all (receiver_new (norm sch)) (flatten_all (base @ concat txns)) = Some (sb_recv sb'))"
proof -
  have sb: "sb = \<lparr> sb_epoch = epoch, sb_fp = pb_fp pb, sb_recv = receiver_new (norm sch), sb_phase = Snapshot 0 \<rparr>" "pb_epoch pb = epoch" "pb_next_seq pb = 0"
    using open_hello [OF assms(1)] assms(6) by auto
  let ?ts = "filter (\<lambda>t. t \<noteq> []) txns"
  obtain c where c: "frames_ok epoch (pb_fp pb) c fs"
      "\<And>k. k \<le> length fs \<Longrightarrow> c \<le> k \<Longrightarrow> concat (map frame_events (take k fs)) = flatten_all (base @ concat (take (k - c) ?ts))"
      "length fs = c + length ?ts"
    using session_frames [OF assms(2) sb(3)] sb(2) by auto
  have "concat (map frame_events fs) = flatten_all (base @ concat txns)" using c(2) [of "length fs"] c(3) by (simp add: concat_nonempty)
  then have tot: "receiver_apply_all (receiver_new (norm sch)) (concat (map frame_events fs)) \<noteq> None" using assms(4) by simp
  have "sub_at (norm sch) epoch (pb_fp pb) c fs 0 sb" using c(1) by (simp add: sub_at_def sb(1) frames_ok_def)
  from deliver_run [OF c(1) assms(3) tot this assms(5)] obtain sb' k where
    k: "deliver_all gs sb = Some sb'" "sub_at (norm sch) epoch (pb_fp pb) c fs k sb'" "subseq fs gs \<Longrightarrow> k = length fs" by auto
  have S: "k \<le> length fs" "sb_phase sb' = (if k < c then Snapshot (of_nat k) else Live (of_nat (k - c)))"
    "receiver_apply_all (receiver_new (norm sch)) (concat (map frame_events (take k fs))) = Some (sb_recv sb')" using k(2) by (simp_all add: sub_at_def)
  have comp: "snapshot_complete sb' \<longleftrightarrow> c \<le> k" by (simp add: snapshot_complete_def S(2))
  have "receiver_apply_all (receiver_new (norm sch)) (flatten_all (base @ concat (take (k - c) ?ts))) = Some (sb_recv sb')" if "c \<le> k"
    using c(2) [OF S(1) that] S(3) by simp
  then show ?thesis using k(1,3) comp c(3) by (intro exI [of _ sb'] conjI impI) (auto simp: concat_nonempty)
qed

text \<open>(C17) Whatever the channel does, the subscriber shows the view. A publisher sends the hydration of a view, in one batch or in
  chunks, and then its transactions; frames arrive in any order, repeated or not at all, mixed with frames of other epochs. The
  subscriber never panics; once it reports a complete snapshot, its tree is the view after some number of whole transactions;
  and if the frames of the session arrive in order somewhere among what arrives, it is the view after all of them.\<close>

theorem subscription_tracks_view:
  assumes "publisher_new epoch sch = Some pb" "ids_small sch"
    and "session chunking (map (expand_change \<circ> Add) ns) (map (map expand_change) ts) pb = Some fs" "length fs < 2 ^ 64 - 1"
    and "\<forall>n\<in>set ns. slots_distinct n" "\<forall>t\<in>set ts. \<forall>c\<in>set t. adds_distinct c" "view_after sch rt ns ts \<noteq> None"
    and "\<forall>g\<in>set gs. g \<in> set fs \<or> frame_epoch g \<noteq> epoch"
  shows "\<exists>sb sb'. subscriber_open (publisher_hello pb) = Some (Inr sb) \<and> deliver_all gs sb = Some sb' \<and>
    (snapshot_complete sb' \<longrightarrow> (\<exists>m v d. m \<le> length ts \<and> view_after sch rt ns (take m ts) = Some v \<and> view_data v = Some d \<and> subscriber_top sb' = strip_list d)) \<and>
    (subseq fs gs \<longrightarrow> snapshot_complete sb' \<and> (\<exists>v d. view_after sch rt ns ts = Some v \<and> view_data v = Some d \<and> subscriber_top sb' = strip_list d))"
proof -
  obtain sb where sb: "subscriber_open (publisher_hello pb) = Some (Inr sb)" using open_hello [OF assms(1)] by blast
  let ?base = "map (expand_change \<circ> Add) ns" and ?ts = "map (map expand_change) ts"
  have cat: "?base @ concat (map (map expand_change) us) = map expand_change (map Add ns @ concat us)" for us by (simp add: map_concat)
  have tree: "\<exists>v d. view_after sch rt ns (take m ts) = Some v \<and> view_data v = Some d \<and>
      map_option rv_top (receiver_apply_all (receiver_new (norm sch)) (flatten_all (?base @ concat (take m ?ts)))) = Some (strip_list d)" for m
  proof -
    obtain v where v: "view_after sch rt ns (take m ts) = Some v" using view_after_prefix [OF assms(7), of m] by auto
    have "\<forall>t\<in>set (take m ts). \<forall>c\<in>set t. adds_distinct c" using assms(6) by (auto dest: in_set_takeD)
    from view_after_tree [OF assms(5) this v] show ?thesis using v receiver_norm [OF assms(2)] by (auto simp: take_map cat)
  qed
  have "receiver_apply_all (receiver_new (norm sch)) (flatten_all (?base @ concat ?ts)) \<noteq> None" using tree [of "length ts"] by auto
  from session_delivery [OF assms(1,3,4) this assms(8) sb] obtain sb' where d: "deliver_all gs sb = Some sb'"
    "snapshot_complete sb' \<Longrightarrow> \<exists>j. receiver_apply_all (receiver_new (norm sch)) (flatten_all (?base @ concat (take j (filter (\<lambda>t. t \<noteq> []) ?ts)))) = Some (sb_recv sb')"
    "subseq fs gs \<Longrightarrow> snapshot_complete sb' \<and> receiver_apply_all (receiver_new (norm sch)) (flatten_all (?base @ concat ?ts)) = Some (sb_recv sb')"
    by blast
  have some: "\<exists>m v d. m \<le> length ts \<and> view_after sch rt ns (take m ts) = Some v \<and> view_data v = Some d \<and> subscriber_top sb' = strip_list d" if "snapshot_complete sb'"
  proof -
    obtain j where j: "receiver_apply_all (receiver_new (norm sch)) (flatten_all (?base @ concat (take j (filter (\<lambda>t. t \<noteq> []) ?ts)))) = Some (sb_recv sb')"
      using d(2) \<open>snapshot_complete sb'\<close> by blast
    obtain m where m: "m \<le> length ts" "concat (take j (filter (\<lambda>t. t \<noteq> []) ?ts)) = concat (take m ?ts)" using nonempty_prefix [of ?ts j] by auto
    then show ?thesis using tree [of m] j by (auto simp: subscriber_top_def)
  qed
  have all: "\<exists>v d. view_after sch rt ns ts = Some v \<and> view_data v = Some d \<and> subscriber_top sb' = strip_list d" if "subseq fs gs"
    using tree [of "length ts"] d(3) [OF that] by (auto simp: subscriber_top_def)
  show ?thesis using sb d(1,3) some all by blast
qed

definition demo_schema :: schema where
  "demo_schema = schema_new [[105]] [0] [(0, True)]"

theorem subscription_tracks_view_witness:
  "\<exists>pb fs sb sb'. publisher_new 7 demo_schema = Some pb \<and>
     session None [expand_change (Add (leaf [IntV 1]))] [[expand_change (Add (leaf [IntV 0]))]] pb = Some fs \<and>
     subscriber_open (publisher_hello pb) = Some (Inr sb) \<and> deliver_all (rev fs @ fs) sb = Some sb' \<and> snapshot_complete sb' \<and>
     map rn_row (subscriber_top sb') = [[IntV 0], [IntV 1]]"
proof -
  let ?ns = "[leaf [IntV 1]]" and ?ts = "[[Add (leaf [IntV 0])]]"
  obtain pb where pb: "publisher_new 7 demo_schema = Some pb"
  proof -
    have "sem_of (to_wire demo_schema) \<noteq> None" by code_simp
    then show ?thesis using that by (auto simp: publisher_new_def schema_fp_def hash_level_enc)
  qed
  obtain fs where fs: "session None (map (expand_change \<circ> Add) ?ns) (map (map expand_change) ?ts) pb = Some fs" "length fs = 2"
    by (simp add: session_def pub_snapshot_def emit_def commit_def)
  have ids: "ids_small demo_schema" by (simp add: demo_schema_def schema_new_def)
  have leaves: "slots_distinct (leaf r)" for r by (simp add: leaf_def slots_distinct.simps)
  have run: "map_option (\<lambda>v. map_option (map e_row \<circ> l_items) (view_data v)) (view_after demo_schema Complete ?ns ?ts) = Some (Some [[IntV 0], [IntV 1]])"
    by code_simp
  then have "view_after demo_schema Complete ?ns ?ts \<noteq> None" by auto
  from subscription_tracks_view [OF pb ids fs(1) _ _ _ this, of "rev fs @ fs"] leaves fs(2)
  obtain sb sb' v d where "subscriber_open (publisher_hello pb) = Some (Inr sb)" "deliver_all (rev fs @ fs) sb = Some sb'" "snapshot_complete sb'"
      "view_after demo_schema Complete ?ns ?ts = Some v" "view_data v = Some d" "subscriber_top sb' = strip_list d"
    by auto
  moreover from this run have "map rn_row (subscriber_top sb') = [[IntV 0], [IntV 1]]" by (simp add: strip_list_items comp_def)
  ultimately show ?thesis using pb fs(1) by auto
qed

end
