(* ===== verification/Flat_Counts.thy ===== *)
theory Flat_Counts
  imports Flat Op_Env Window
begin

text \<open>
  What one level of a receiver tree means: a count for every sort key. The operations of \<open>flat_receiver.rs\<close> keep the level strictly
  sorted and change the counts as the flat change says; through the equivalence of \<open>View_Flat\<close> the same holds of the view.
\<close>

abbreviation recv_cmp :: "sort \<Rightarrow> recv_node \<Rightarrow> recv_node \<Rightarrow> ordering option" where
  "recv_cmp srt a b \<equiv> compare_rows srt (rn_row a) (rn_row b)"

abbreviation recv_dom :: "(col_id \<Rightarrow> kind) \<Rightarrow> sort \<Rightarrow> recv_node set" where
  "recv_dom ty srt \<equiv> {n. row_ok ty srt (rn_row n)}"

interpretation recv_order: comparator_on "recv_dom ty srt" "recv_cmp srt" for ty srt
  by (rule comparator_vimage [OF row_order.comparator_on_axioms]) simp

definition level_ok :: "(col_id \<Rightarrow> kind) \<Rightarrow> sort \<Rightarrow> recv_node list \<Rightarrow> bool" where
  "level_ok ty srt ns \<longleftrightarrow> sorted_by (recv_cmp srt) ns \<and> set ns \<subseteq> recv_dom ty srt \<and> (\<forall>n\<in>set ns. rn_rc n \<noteq> 0)"

definition key_eq :: "sort \<Rightarrow> row \<Rightarrow> row \<Rightarrow> bool" where
  "key_eq srt a b \<longleftrightarrow> compare_rows srt a b = Some Equal"

primrec refs :: "sort \<Rightarrow> recv_node list \<Rightarrow> row \<Rightarrow> nat" where
  "refs srt [] r = 0"
| "refs srt (n # ns) r = (if key_eq srt (rn_row n) r then unat (rn_rc n) else 0) + refs srt ns r"

lemma refs_append [simp]: "refs srt (ms @ ns) r = refs srt ms r + refs srt ns r"
  by (induction ms) simp_all

lemma refs_none: "\<forall>n\<in>set ns. \<not> key_eq srt (rn_row n) r \<Longrightarrow> refs srt ns r = 0"
  by (induction ns) simp_all

lemma level_ok_append: "level_ok ty srt (xs @ ys) \<longleftrightarrow>
    level_ok ty srt xs \<and> level_ok ty srt ys \<and> (\<forall>x\<in>set xs. \<forall>y\<in>set ys. lt_by (recv_cmp srt) x y)"
  unfolding level_ok_def sorted_by_append by auto

lemma level_ok_Cons: "level_ok ty srt (x # ys) \<longleftrightarrow>
    row_ok ty srt (rn_row x) \<and> rn_rc x \<noteq> 0 \<and> (\<forall>y\<in>set ys. lt_by (recv_cmp srt) x y) \<and> level_ok ty srt ys"
  unfolding level_ok_def sorted_by_simps by auto

lemma level_ok_Nil [simp]: "level_ok ty srt []"
  by (simp add: level_ok_def)

lemmas level_ok_simps = level_ok_append level_ok_Cons

text \<open>A level seen from a row: the entries before it, the entry at it, if there is one, and the entries after it.\<close>

lemma cuts_refs: "cuts (\<lambda>n. compare_rows srt (rn_row n) r) ls ms hs \<Longrightarrow> refs srt ls r = 0 \<and> refs srt hs r = 0"
  by (intro conjI refs_none) (auto simp: cuts_def key_eq_def)

lemma level_split:
  assumes "level_ok ty srt ns" "row_ok ty srt r"
  obtains (absent) ls hs where "ns = ls @ hs" "cuts (\<lambda>n. compare_rows srt (rn_row n) r) ls [] hs"
  | (present) ls m hs where "ns = ls @ m # hs" "cuts (\<lambda>n. compare_rows srt (rn_row n) r) ls [m] hs"
proof -
  let ?b = "RecvNode r 1 []" and ?c = "recv_cmp srt"
  let ?ls = "below ?c ?b ns" and ?ms = "at_bound ?c ?b ns" and ?hs = "above ?c ?b ns"
  have s: "sorted_by ?c ns" "set ns \<subseteq> recv_dom ty srt" using assms(1) by (auto simp: level_ok_def)
  have split: "ns = ?ls @ ?ms @ ?hs" using recv_order.split_at_bound [OF s, of ?b] assms(2) by simp
  have cut: "cuts (\<lambda>n. compare_rows srt (rn_row n) r) ?ls ?ms ?hs" by (simp add: cuts_def below_def above_def at_bound_def)
  have le: "length ?ms \<le> 1"
  proof (rule ccontr)
    assume "\<not> length ?ms \<le> 1"
    then obtain x y zs where m: "?ms = x # y # zs" by (cases ?ms rule: remdups_adj.cases) auto
    have "sorted_by ?c ?ms" using sorted_by_filter [OF s(1)] by (simp add: at_bound_def)
    then have lt: "?c x y = Some Less" by (simp add: m)
    have "x \<in> set ?ms" "y \<in> set ?ms" by (simp_all add: m)
    then have eq: "?c x ?b = Some Equal" "?c y ?b = Some Equal" "x \<in> set ns" "y \<in> set ns" by (auto simp: at_bound_def)
    have "?c x y = ?c x ?b" by (rule recv_order.cmp_eq_cong_right [of y ty srt ?b x]) (use eq s(2) assms(2) in auto)
    then show False using lt eq(1) by simp
  qed
  show thesis
  proof (cases ?ms)
    case Nil
    then have "ns = ?ls @ ?hs" using split by simp
    then show thesis using cut Nil by (intro absent [of ?ls ?hs]) simp_all
  next
    case (Cons m zs)
    then have m: "?ms = [m]" using le by simp
    then have "ns = ?ls @ m # ?hs" using split by simp
    then show thesis using cut m by (intro present [of ?ls m ?hs]) simp_all
  qed
qed

lemma recv_search_cuts:
  "cuts (\<lambda>n. compare_rows srt (rn_row n) r) ls [] hs \<Longrightarrow> recv_search (ls @ hs) r srt = Some (InsertAt (length ls))"
  "cuts (\<lambda>n. compare_rows srt (rn_row n) r) ls [m] hs \<Longrightarrow> recv_search (ls @ m # hs) r srt = Some (Found (length ls))"
  unfolding recv_search_def by (rule slice_search_absent slice_search_found; assumption)+

lemma key_eq_compare:
  assumes "row_ok ty srt a" "row_ok ty srt b" "row_ok ty srt x" "key_eq srt a b"
  shows "compare_rows srt x a = compare_rows srt x b" "compare_rows srt a x = compare_rows srt b x"
  using row_order.cmp_eq_cong_right [of a ty srt b x] row_order.cmp_eq_cong [of a ty srt b x] assms by (simp_all add: key_eq_def)

text \<open>An entry with the cut's row fits between the two parts.\<close>

lemma fits_between:
  assumes "cuts (\<lambda>n. compare_rows srt (rn_row n) r) ls ms hs" "level_ok ty srt (ls @ hs)" "row_ok ty srt r"
    and "row_ok ty srt (rn_row e)" "key_eq srt (rn_row e) r" "rn_rc e \<noteq> 0"
  shows "level_ok ty srt (ls @ e # hs)"
proof -
  have "lt_by (recv_cmp srt) l e" if "l \<in> set ls" for l
  proof -
    have "row_ok ty srt (rn_row l)" using assms(2) that by (auto simp: level_ok_def)
    then show ?thesis using key_eq_compare(1) [OF assms(4,3) _ assms(5)] assms(1) that by (simp add: cuts_def)
  qed
  moreover have "lt_by (recv_cmp srt) e h" if "h \<in> set hs" for h
  proof -
    have h: "row_ok ty srt (rn_row h)" using assms(2) that by (auto simp: level_ok_def)
    then have "compare_rows srt (rn_row h) (rn_row e) = Some Greater"
      using key_eq_compare(1) [OF assms(4,3) h assms(5)] assms(1) that by (simp add: cuts_def)
    then show ?thesis using row_order.cmp_gt_iff [of "rn_row h" ty srt "rn_row e"] h assms(4) by simp
  qed
  ultimately show ?thesis using assms(2,4,6) by (simp add: level_ok_simps)
qed

section \<open>The operations on one level\<close>

fun op_gone :: "flat_op \<Rightarrow> row option" where
  "op_gone (FlatAdd n) = None"
| "op_gone (FlatRemove r) = Some r"
| "op_gone (FlatEdit old new) = Some old"

fun op_come :: "flat_op \<Rightarrow> row option" where
  "op_come (FlatAdd n) = Some (wn_row n)"
| "op_come (FlatRemove r) = None"
| "op_come (FlatEdit old new) = Some new"

fun hits :: "sort \<Rightarrow> row option \<Rightarrow> row \<Rightarrow> int" where
  "hits srt None x = 0"
| "hits srt (Some r) x = (if key_eq srt r x then 1 else 0)"

abbreviation counts_change :: "(col_id \<Rightarrow> kind) \<Rightarrow> sort \<Rightarrow> row option \<Rightarrow> row option \<Rightarrow> recv_node list \<Rightarrow> recv_node list \<Rightarrow> bool" where
  "counts_change ty srt gone come ns ns' \<equiv>
     level_ok ty srt ns' \<and> (\<forall>x. row_ok ty srt x \<longrightarrow> int (refs srt ns' x) = int (refs srt ns x) + hits srt come x - hits srt gone x)"

lemma rc_down: "rc \<noteq> 0 \<Longrightarrow> unat (rc - 1 :: 32 word) = unat rc - 1"
  by (metis unat_minus_one)

lemma rc_pos: "rc \<noteq> 0 \<longleftrightarrow> 0 < unat (rc :: 32 word)"
  by (simp add: unat_gt_0)

lemma rc_up: "unat (rc :: 32 word) + 1 < 2 ^ 32 \<Longrightarrow> unat (rc + 1) = unat rc + 1 \<and> rc + 1 \<noteq> 0"
  by (simp add: unat_word_ariths word_unat_eq_iff)

lemma key_eq_of_cut: "cuts (\<lambda>n. compare_rows srt (rn_row n) r) ls [m] hs \<Longrightarrow> key_eq srt (rn_row m) r"
  by (simp add: cuts_def key_eq_def)

lemma key_eq_trans:
  assumes "row_ok ty srt a" "row_ok ty srt b" "row_ok ty srt x" "key_eq srt a b"
  shows "key_eq srt a x \<longleftrightarrow> key_eq srt b x"
  using key_eq_compare(2) [OF assms] by (simp add: key_eq_def)

lemma key_eq_same: "row_ok ty srt r \<Longrightarrow> key_eq srt r r"
  using row_order.cmp_refl [of r ty srt] by (simp add: key_eq_def)

lemma recv_node_sel [simp]:
  "rn_row (recv_set_rc c n) = rn_row n" "rn_rc (recv_set_rc c n) = c" "rn_row (recv_set_row r n) = r" "rn_rc (recv_set_row r n) = rn_rc n"
  by (simp_all add: recv_set_rc_def recv_set_row_def)

lemma vec_at_cut [simp]:
  "vec_get (ls @ m # hs) (length ls) = Some m" "vec_set (ls @ m # hs) (length ls) e = Some (ls @ e # hs)"
  "vec_remove (ls @ m # hs) (length ls) = Some (ls @ hs)" "vec_insert (ls @ hs) (length ls) e = Some (ls @ e # hs)"
  by (simp_all add: vec_get_def vec_set_def vec_remove_def vec_insert_def)

text \<open>The list-level effects: a new entry, one more reference, one less, and a replaced row.\<close>

lemma put_absent:
  assumes "cuts (\<lambda>n. compare_rows srt (rn_row n) r) ls [] hs" "level_ok ty srt (ls @ hs)" "row_ok ty srt r" "rn_row e = r" "rn_rc e = 1"
  shows "counts_change ty srt None (Some r) (ls @ hs) (ls @ e # hs)"
  using fits_between [OF assms(1-3), of e] assms(3-5) key_eq_same [OF assms(3)] by simp

lemma put_present:
  assumes "cuts (\<lambda>n. compare_rows srt (rn_row n) r) ls [m] hs" "level_ok ty srt (ls @ m # hs)" "row_ok ty srt r"
    and "row_ok ty srt (rn_row e)" "key_eq srt (rn_row e) r" "rn_rc e = rn_rc m + 1" "unat (rn_rc m) + 1 < 2 ^ 32"
  shows "counts_change ty srt None (Some r) (ls @ m # hs) (ls @ e # hs)"
proof -
  have ok: "level_ok ty srt (ls @ hs)" "row_ok ty srt (rn_row m)" using assms(2) by (simp_all add: level_ok_simps)
  have "level_ok ty srt (ls @ e # hs)" by (rule fits_between [OF assms(1) ok(1) assms(3-5)]) (use assms(6) rc_up [OF assms(7)] in simp)
  moreover have "key_eq srt (rn_row m) x \<longleftrightarrow> key_eq srt r x" "key_eq srt (rn_row e) x \<longleftrightarrow> key_eq srt r x" if "row_ok ty srt x" for x
    using key_eq_trans [OF ok(2) assms(3) that key_eq_of_cut [OF assms(1)]] key_eq_trans [OF assms(4,3) that assms(5)] by simp_all
  ultimately show ?thesis using rc_up [OF assms(7)] by (simp add: assms(6))
qed

lemma drop_last:
  assumes "cuts (\<lambda>n. compare_rows srt (rn_row n) r) ls [m] hs" "level_ok ty srt (ls @ m # hs)" "row_ok ty srt r" "rn_rc m = 1"
  shows "counts_change ty srt (Some r) None (ls @ m # hs) (ls @ hs)"
  using assms(2,4) key_eq_trans [OF _ assms(3) _ key_eq_of_cut [OF assms(1)]] by (simp add: level_ok_simps)

lemma drop_one:
  assumes "cuts (\<lambda>n. compare_rows srt (rn_row n) r) ls [m] hs" "level_ok ty srt (ls @ m # hs)" "row_ok ty srt r" "rn_rc m \<noteq> 1"
  shows "counts_change ty srt (Some r) None (ls @ m # hs) (ls @ recv_set_rc (rn_rc m - 1) m # hs)"
proof -
  have ok: "level_ok ty srt (ls @ hs)" "row_ok ty srt (rn_row m)" "rn_rc m \<noteq> 0" using assms(2) by (simp_all add: level_ok_simps)
  have "level_ok ty srt (ls @ recv_set_rc (rn_rc m - 1) m # hs)"
    by (rule fits_between [OF assms(1) ok(1) assms(3)]) (use ok(2) key_eq_of_cut [OF assms(1)] assms(4) in auto)
  then show ?thesis using rc_down [OF ok(3)] ok(3) key_eq_trans [OF ok(2) assms(3) _ key_eq_of_cut [OF assms(1)]] by (simp add: rc_pos)
qed

lemma counts_change_trans:
  assumes "counts_change ty srt gone None ns ms" "counts_change ty srt None come ms ns'"
  shows "counts_change ty srt gone come ns ns'"
  using assms by simp

lemma recv_add_counts:
  assumes "level_ok ty (sch_sort sch) ns" "row_ok ty (sch_sort sch) (wn_row n)" "build_node sch n \<noteq> None"
    and "refs (sch_sort sch) ns (wn_row n) + 1 < 2 ^ 32"
  shows "\<exists>ns'. recv_add sch n ns = Some ns' \<and> counts_change ty (sch_sort sch) None (Some (wn_row n)) ns ns'"
  using assms(1,2)
proof (cases rule: level_split)
  case (absent ls hs)
  obtain r rels where n: "n = WireNode r rels" by (cases n)
  then obtain e where e: "build_node sch n = Some e" "rn_row e = wn_row n" "rn_rc e = 1" using assms(3) by (auto split: bind_splits)
  have "recv_add sch n ns = Some (ls @ e # hs)" using recv_search_cuts(1) [OF absent(2)] e(1) by (simp add: recv_add_def absent(1))
  then show ?thesis using put_absent [OF absent(2) _ assms(2) e(2,3)] assms(1) absent(1) by blast
next
  case (present ls m hs)
  let ?e = "recv_set_rc (rn_rc m + 1) m"
  have "recv_add sch n ns = Some (ls @ ?e # hs)" using recv_search_cuts(2) [OF present(2)] by (simp add: recv_add_def present(1))
  moreover have "row_ok ty (sch_sort sch) (rn_row m)" using assms(1) present(1) by (simp add: level_ok_simps)
  moreover have "unat (rn_rc m) + 1 < 2 ^ 32" using assms(4) key_eq_of_cut [OF present(2)] by (simp add: present(1))
  ultimately show ?thesis
    using put_present [OF present(2) _ assms(2), of ?e] assms(1) present(1) key_eq_of_cut [OF present(2)] by fastforce
qed

definition drop_ref :: "recv_node \<Rightarrow> recv_node list" where
  "drop_ref m = (if rn_rc m = 1 then [] else [recv_set_rc (rn_rc m - 1) m])"

lemma drop_ref_counts:
  assumes "cuts (\<lambda>n. compare_rows srt (rn_row n) r) ls [m] hs" "level_ok ty srt (ls @ m # hs)" "row_ok ty srt r"
  shows "counts_change ty srt (Some r) None (ls @ m # hs) (ls @ drop_ref m @ hs)"
proof (cases "rn_rc m = 1")
  case True
  then show ?thesis using drop_last [OF assms True] by (simp add: drop_ref_def)
next
  case False
  then show ?thesis using drop_one [OF assms False] by (simp add: drop_ref_def)
qed

lemma recv_remove_counts:
  assumes "level_ok ty (sch_sort sch) ns" "row_ok ty (sch_sort sch) r"
  shows "if refs (sch_sort sch) ns r = 0 then recv_remove sch r ns = None
    else \<exists>ns'. recv_remove sch r ns = Some ns' \<and> counts_change ty (sch_sort sch) (Some r) None ns ns'"
  using assms
proof (cases rule: level_split)
  case (absent ls hs)
  then show ?thesis using recv_search_cuts(1) [OF absent(2)] cuts_refs [OF absent(2)] by (simp add: recv_remove_def)
next
  case (present ls m hs)
  have "recv_remove sch r ns = Some (ls @ drop_ref m @ hs)"
    using recv_search_cuts(2) [OF present(2)] by (simp add: recv_remove_def present(1) drop_ref_def)
  moreover have "refs (sch_sort sch) ns r \<noteq> 0"
    using key_eq_of_cut [OF present(2)] assms(1) present(1) by (simp add: level_ok_simps rc_pos)
  ultimately show ?thesis using drop_ref_counts [OF present(2) _ assms(2)] assms(1) present(1) by auto
qed

subsection \<open>Edits that move\<close>

lemma move_later:
  assumes "rn_rc m \<noteq> 0"
  shows "recv_move new (length A) (InsertAt (length (A @ m # B))) m (A @ m # B @ hs) =
      Some ((A @ drop_ref m @ B) @ recv_set_rc 1 (recv_set_row new m) # hs)"
    and "recv_move new (length A) (Found (length (A @ m # B))) m (A @ m # B @ d # hs) =
      Some ((A @ drop_ref m @ B) @ recv_set_rc (rn_rc d + 1) (recv_set_row new d) # hs)"
  using vec_at_cut(4) [of "A @ drop_ref m @ B" hs] vec_at_cut(1,2) [of "A @ drop_ref m @ B" d hs] assms
  by (cases "rn_rc m = 1"; simp add: recv_move_def drop_ref_def)+

lemma move_earlier:
  assumes "rn_rc m \<noteq> 0"
  shows "recv_move new (length (A @ B)) (InsertAt (length A)) m (A @ B @ m # hs) =
      Some (A @ recv_set_rc 1 (recv_set_row new m) # B @ drop_ref m @ hs)"
    and "recv_move new (length (A @ d # B)) (Found (length A)) m (A @ d # B @ m # hs) =
      Some (A @ recv_set_rc (rn_rc d + 1) (recv_set_row new d) # B @ drop_ref m @ hs)"
  using vec_at_cut(2,3) [of "A @ B" m hs] vec_at_cut(2,3) [of "A @ d # B" m hs] vec_at_cut(4) [of A "B @ drop_ref m @ hs"]
    vec_at_cut(1,2) [of A d "B @ drop_ref m @ hs"] assms
  by (cases "rn_rc m = 1"; simp add: recv_move_def drop_ref_def)+

text \<open>The destination of an edit, searched in the level that still holds the old entry and in the level without that reference.\<close>

lemma drop_ref_rows: "x \<in> set (drop_ref m) \<Longrightarrow> rn_row x = rn_row m"
  by (auto simp: drop_ref_def split: if_splits)

lemma cuts_later:
  assumes "cuts (\<lambda>n. compare_rows srt (rn_row n) old) A [m] B" "level_ok ty srt (A @ m # B)" "row_ok ty srt old" "row_ok ty srt new"
    and "compare_rows srt old new = Some Less" "cuts (\<lambda>n. compare_rows srt (rn_row n) new) ls ms hs" "set ls \<subseteq> set B"
  shows "cuts (\<lambda>n. compare_rows srt (rn_row n) new) (A @ m # ls) ms hs" "cuts (\<lambda>n. compare_rows srt (rn_row n) new) (A @ drop_ref m @ ls) ms hs"
proof -
  have "compare_rows srt (rn_row x) new = Some Less" if "x \<in> insert m (set A)" for x
  proof -
    have "row_ok ty srt (rn_row x)" "compare_rows srt (rn_row x) old \<noteq> Some Greater" using that assms(1,2) by (auto simp: level_ok_def cuts_def)
    then show ?thesis using row_order.cmp_le_less_trans [of "rn_row x" ty srt old new] assms(3-5) by simp
  qed
  then show "cuts (\<lambda>n. compare_rows srt (rn_row n) new) (A @ m # ls) ms hs" "cuts (\<lambda>n. compare_rows srt (rn_row n) new) (A @ drop_ref m @ ls) ms hs"
    using assms(6) drop_ref_rows [of _ m] by (auto simp: cuts_def)
qed

lemma cuts_earlier:
  assumes "cuts (\<lambda>n. compare_rows srt (rn_row n) old) A [m] B" "level_ok ty srt (A @ m # B)" "row_ok ty srt old" "row_ok ty srt new"
    and "compare_rows srt old new = Some Greater" "cuts (\<lambda>n. compare_rows srt (rn_row n) new) ls ms hs" "set hs \<subseteq> set A"
  shows "cuts (\<lambda>n. compare_rows srt (rn_row n) new) ls ms (hs @ m # B)" "cuts (\<lambda>n. compare_rows srt (rn_row n) new) ls ms (hs @ drop_ref m @ B)"
proof -
  have "compare_rows srt (rn_row x) new = Some Greater" if "x \<in> insert m (set B)" for x
  proof -
    have x: "row_ok ty srt (rn_row x)" "compare_rows srt (rn_row x) old \<noteq> Some Less" using that assms(1,2) by (auto simp: level_ok_def cuts_def)
    have "compare_rows srt new old = Some Less" using row_order.cmp_gt_iff [of old ty srt new] assms(3-5) by simp
    moreover have "compare_rows srt old (rn_row x) \<noteq> Some Greater"
      using row_order.cmp_gt_iff [of old ty srt "rn_row x"] x assms(3) by simp
    ultimately have "compare_rows srt new (rn_row x) = Some Less"
      using row_order.cmp_less_le_trans [of new ty srt old "rn_row x"] x(1) assms(3,4) by simp
    then show ?thesis using row_order.cmp_gt_iff [of "rn_row x" ty srt new] x(1) assms(4) by simp
  qed
  then show "cuts (\<lambda>n. compare_rows srt (rn_row n) new) ls ms (hs @ m # B)" "cuts (\<lambda>n. compare_rows srt (rn_row n) new) ls ms (hs @ drop_ref m @ B)"
    using assms(6) drop_ref_rows [of _ m] by (auto simp: cuts_def)
qed

lemma recv_edit_found:
  assumes "compare_rows (sch_sort sch) old new = Some c" "c \<noteq> Equal" "recv_search (A @ m # B) old (sch_sort sch) = Some (Found (length A))"
    and "recv_search (A @ m # B) new (sch_sort sch) = Some raw"
  shows "recv_edit sch old new (A @ m # B) =
    (let pos = (case raw of Found i \<Rightarrow> i | InsertAt i \<Rightarrow> i) in
     if rn_rc m = 1 \<and> (pos = length A \<or> 0 < pos \<and> pos - 1 = length A) then Some (A @ recv_set_row new m # B)
     else recv_move new (length A) raw m (A @ m # B))"
  using assms by (auto simp: recv_edit_def Let_def)

lemma set_rc_same: "rn_rc m = 1 \<Longrightarrow> recv_set_rc 1 (recv_set_row new m) = recv_set_row new m"
  by (cases m) (simp add: recv_set_rc_def recv_set_row_def)

lemma edit_later:
  assumes "cuts (\<lambda>n. compare_rows (sch_sort sch) (rn_row n) old) A [m] B" "level_ok ty (sch_sort sch) (A @ m # B)"
    and "row_ok ty (sch_sort sch) old" "row_ok ty (sch_sort sch) new" "compare_rows (sch_sort sch) old new = Some Less"
    and "refs (sch_sort sch) (A @ m # B) new + 1 < 2 ^ 32" "refs (sch_sort sch) (A @ m # B) new = 0 \<or> rn_rc m \<noteq> 1"
  shows "\<exists>ns'. recv_edit sch old new (A @ m # B) = Some ns' \<and> counts_change ty (sch_sort sch) None (Some new) (A @ drop_ref m @ B) ns'"
proof -
  let ?srt = "sch_sort sch"
  have B: "level_ok ty ?srt B" "rn_rc m \<noteq> 0" using assms(2) by (simp_all add: level_ok_simps)
  have ok: "level_ok ty ?srt (A @ drop_ref m @ B)" using drop_ref_counts [OF assms(1-3)] by blast
  note found = recv_edit_found [OF assms(5) _ recv_search_cuts(2) [OF assms(1)], simplified]
  show ?thesis using B(1) assms(4)
  proof (cases rule: level_split)
    case (absent ls hs)
    have c: "cuts (\<lambda>n. compare_rows ?srt (rn_row n) new) (A @ m # ls) [] hs" "cuts (\<lambda>n. compare_rows ?srt (rn_row n) new) (A @ drop_ref m @ ls) [] hs"
      by (rule cuts_later [OF assms(1-5) absent(2)]; use absent(1) in simp)+
    let ?e = "recv_set_rc 1 (recv_set_row new m)"
    have s: "recv_search (A @ m # B) new ?srt = Some (InsertAt (length (A @ m # ls)))" using recv_search_cuts(1) [OF c(1)] absent(1) by simp
    have "recv_edit sch old new (A @ m # B) = Some ((A @ drop_ref m @ ls) @ ?e # hs)"
      unfolding found [OF s] using move_later(1) [OF B(2), of new A ls hs] set_rc_same [of m new] absent(1)
      by (cases "rn_rc m = 1 \<and> ls = []") (auto simp: Let_def drop_ref_def)
    then show ?thesis using put_absent [OF c(2) _ assms(4), of ?e] ok absent(1) by simp
  next
    case (present ls d hs)
    have c: "cuts (\<lambda>n. compare_rows ?srt (rn_row n) new) (A @ m # ls) [d] hs" "cuts (\<lambda>n. compare_rows ?srt (rn_row n) new) (A @ drop_ref m @ ls) [d] hs"
      by (rule cuts_later [OF assms(1-5) present(2)]; use present(1) in auto)+
    let ?e = "recv_set_rc (rn_rc d + 1) (recv_set_row new d)"
    have d: "rn_rc d \<noteq> 0" "key_eq ?srt (rn_row d) new" "unat (rn_rc d) + 1 < 2 ^ 32"
      using assms(2,6) present(1) key_eq_of_cut [OF c(1)] by (simp_all add: level_ok_simps)
    then have "rn_rc m \<noteq> 1" using assms(7) present(1) by (auto simp: rc_pos)
    moreover have s: "recv_search (A @ m # B) new ?srt = Some (Found (length (A @ m # ls)))" using recv_search_cuts(2) [OF c(1)] present(1) by simp
    ultimately have "recv_edit sch old new (A @ m # B) = Some ((A @ drop_ref m @ ls) @ ?e # hs)"
      unfolding found [OF s] using move_later(2) [OF B(2), of new A ls d hs] present(1) by (simp add: Let_def)
    then show ?thesis using put_present [OF c(2) _ assms(4), of ?e] ok present(1) d(3) assms(4) key_eq_same [OF assms(4)] by simp
  qed
qed

lemma edit_earlier:
  assumes "cuts (\<lambda>n. compare_rows (sch_sort sch) (rn_row n) old) A [m] B" "level_ok ty (sch_sort sch) (A @ m # B)"
    and "row_ok ty (sch_sort sch) old" "row_ok ty (sch_sort sch) new" "compare_rows (sch_sort sch) old new = Some Greater"
    and "refs (sch_sort sch) (A @ m # B) new + 1 < 2 ^ 32"
  shows "\<exists>ns'. recv_edit sch old new (A @ m # B) = Some ns' \<and> counts_change ty (sch_sort sch) None (Some new) (A @ drop_ref m @ B) ns'"
proof -
  let ?srt = "sch_sort sch"
  have A: "level_ok ty ?srt A" "rn_rc m \<noteq> 0" using assms(2) by (simp_all add: level_ok_simps)
  have ok: "level_ok ty ?srt (A @ drop_ref m @ B)" using drop_ref_counts [OF assms(1-3)] by blast
  note found = recv_edit_found [OF assms(5) _ recv_search_cuts(2) [OF assms(1)], simplified]
  show ?thesis using A(1) assms(4)
  proof (cases rule: level_split)
    case (absent ls hs)
    have c: "cuts (\<lambda>n. compare_rows ?srt (rn_row n) new) ls [] (hs @ m # B)" "cuts (\<lambda>n. compare_rows ?srt (rn_row n) new) ls [] (hs @ drop_ref m @ B)"
      by (rule cuts_earlier [OF assms(1-5) absent(2)]; use absent(1) in simp)+
    let ?e = "recv_set_rc 1 (recv_set_row new m)"
    have s: "recv_search (A @ m # B) new ?srt = Some (InsertAt (length ls))" using recv_search_cuts(1) [OF c(1)] absent(1) by simp
    have "length ls = length A \<or> 0 < length ls \<and> length ls - 1 = length A \<longleftrightarrow> hs = []" using absent(1) by (cases hs) auto
    then have "recv_edit sch old new (A @ m # B) = Some (ls @ ?e # hs @ drop_ref m @ B)"
      unfolding found [OF s] using move_earlier(1) [OF A(2), of new ls hs B] set_rc_same [of m new] absent(1)
      by (cases "rn_rc m = 1 \<and> hs = []") (auto simp: Let_def drop_ref_def)
    then show ?thesis using put_absent [OF c(2) _ assms(4), of ?e] ok absent(1) by simp
  next
    case (present ls d hs)
    have c: "cuts (\<lambda>n. compare_rows ?srt (rn_row n) new) ls [d] (hs @ m # B)" "cuts (\<lambda>n. compare_rows ?srt (rn_row n) new) ls [d] (hs @ drop_ref m @ B)"
      by (rule cuts_earlier [OF assms(1-5) present(2)]; use present(1) in auto)+
    let ?e = "recv_set_rc (rn_rc d + 1) (recv_set_row new d)"
    have d: "unat (rn_rc d) + 1 < 2 ^ 32" using assms(6) present(1) key_eq_of_cut [OF c(1)] by simp
    have s: "recv_search (A @ m # B) new ?srt = Some (Found (length ls))" using recv_search_cuts(2) [OF c(1)] present(1) by simp
    have "recv_edit sch old new (A @ m # B) = Some (ls @ ?e # hs @ drop_ref m @ B)"
      unfolding found [OF s] using move_earlier(2) [OF A(2), of new ls d hs B] present(1) by (auto simp: Let_def)
    then show ?thesis using put_present [OF c(2) _ assms(4), of ?e] ok present(1) d assms(4) key_eq_same [OF assms(4)] by simp
  qed
qed

lemma edit_in_place:
  assumes "level_ok ty (sch_sort sch) (A @ m # B)" "cuts (\<lambda>n. compare_rows (sch_sort sch) (rn_row n) old) A [m] B"
    and "row_ok ty (sch_sort sch) old" "row_ok ty (sch_sort sch) new" "compare_rows (sch_sort sch) old new = Some Equal"
  shows "recv_edit sch old new (A @ m # B) = Some (A @ recv_set_row new m # B) \<and>
    counts_change ty (sch_sort sch) (Some old) (Some new) (A @ m # B) (A @ recv_set_row new m # B)"
proof -
  let ?srt = "sch_sort sch"
  have ok: "level_ok ty ?srt (A @ B)" "row_ok ty ?srt (rn_row m)" "rn_rc m \<noteq> 0" using assms(1) by (simp_all add: level_ok_simps)
  have k: "key_eq ?srt old new" using assms(5) by (simp add: key_eq_def)
  have new: "key_eq ?srt new x \<longleftrightarrow> key_eq ?srt old x" "key_eq ?srt (rn_row m) x \<longleftrightarrow> key_eq ?srt old x" if "row_ok ty ?srt x" for x
    using key_eq_trans [OF assms(3,4) that k] key_eq_trans [OF ok(2) assms(3) that key_eq_of_cut [OF assms(2)]] by simp_all
  have "level_ok ty ?srt (A @ recv_set_row new m # B)"
    by (rule fits_between [OF assms(2) ok(1) assms(3)]) (use assms(4) new(1) [OF assms(3)] key_eq_same [OF assms(3)] ok(3) in simp_all)
  then show ?thesis using recv_search_cuts(2) [OF assms(2)] assms(5) new by (simp add: recv_edit_def)
qed

lemma recv_edit_counts:
  assumes "level_ok ty (sch_sort sch) ns" "row_ok ty (sch_sort sch) old" "row_ok ty (sch_sort sch) new"
    and "refs (sch_sort sch) ns new + 1 < 2 ^ 32"
    and "key_eq (sch_sort sch) old new \<or> refs (sch_sort sch) ns new = 0 \<or> refs (sch_sort sch) ns old \<noteq> 1"
  shows "if refs (sch_sort sch) ns old = 0 then recv_edit sch old new ns = None
    else \<exists>ns'. recv_edit sch old new ns = Some ns' \<and> counts_change ty (sch_sort sch) (Some old) (Some new) ns ns'"
  using assms(1,2)
proof (cases rule: level_split)
  case (absent ls hs)
  obtain c where "compare_rows (sch_sort sch) old new = Some c" using row_order.cmp_total [of old ty "sch_sort sch" new] assms(2,3) by auto
  then show ?thesis using recv_search_cuts(1) [OF absent(2)] cuts_refs [OF absent(2)] absent(1) by (simp add: recv_edit_def Let_def)
next
  case (present A m B)
  have m: "refs (sch_sort sch) ns old = unat (rn_rc m)" "rn_rc m \<noteq> 0" "level_ok ty (sch_sort sch) (A @ m # B)"
    using assms(1) present key_eq_of_cut [OF present(2)] cuts_refs [OF present(2)] by (simp_all add: level_ok_simps)
  have one: "rn_rc m = 1 \<longleftrightarrow> unat (rn_rc m) = 1" by (metis unat_1 word_unat_eq_iff)
  have moved: "\<exists>ns'. recv_edit sch old new ns = Some ns' \<and> counts_change ty (sch_sort sch) (Some old) (Some new) ns ns'"
    if ex: "\<exists>ns'. recv_edit sch old new (A @ m # B) = Some ns' \<and> counts_change ty (sch_sort sch) None (Some new) (A @ drop_ref m @ B) ns'"
  proof -
    obtain ns' where ns': "recv_edit sch old new (A @ m # B) = Some ns'" "counts_change ty (sch_sort sch) None (Some new) (A @ drop_ref m @ B) ns'"
      using ex by blast
    show ?thesis unfolding present(1) using ns'(1) counts_change_trans [OF drop_ref_counts [OF present(2) m(3) assms(2)] ns'(2)] by blast
  qed
  have "\<exists>ns'. recv_edit sch old new ns = Some ns' \<and> counts_change ty (sch_sort sch) (Some old) (Some new) ns ns'"
  proof -
    consider (later) "compare_rows (sch_sort sch) old new = Some Less" | (same) "compare_rows (sch_sort sch) old new = Some Equal"
      | (earlier) "compare_rows (sch_sort sch) old new = Some Greater"
      using row_order.cmp_three [of old ty "sch_sort sch" new] assms(2,3) by auto
    then show ?thesis
    proof cases
      case later
      then have "refs (sch_sort sch) (A @ m # B) new = 0 \<or> rn_rc m \<noteq> 1" using assms(5) m(1) one present(1) by (simp add: key_eq_def)
      then show ?thesis using edit_later [OF present(2) m(3) assms(2,3) later] assms(4) present(1) by (intro moved) simp
    next
      case same
      then show ?thesis using edit_in_place [OF m(3) present(2) assms(2,3) same] present(1) by blast
    next
      case earlier
      then show ?thesis using edit_earlier [OF present(2) m(3) assms(2,3) earlier] assms(4) present(1) by (intro moved) simp
    qed
  qed
  then show ?thesis using m(1,2) by (simp add: rc_pos)
qed

fun op_typed :: "(col_id \<Rightarrow> kind) \<Rightarrow> schema \<Rightarrow> flat_op \<Rightarrow> bool" where
  "op_typed ty sch (FlatAdd n) \<longleftrightarrow> row_ok ty (sch_sort sch) (wn_row n) \<and> build_node sch n \<noteq> None"
| "op_typed ty sch (FlatRemove r) \<longleftrightarrow> row_ok ty (sch_sort sch) r"
| "op_typed ty sch (FlatEdit old new) \<longleftrightarrow> row_ok ty (sch_sort sch) old \<and> row_ok ty (sch_sort sch) new"

fun edit_clear :: "sort \<Rightarrow> flat_op \<Rightarrow> recv_node list \<Rightarrow> bool" where
  "edit_clear srt (FlatEdit old new) ns \<longleftrightarrow> key_eq srt old new \<or> refs srt ns new = 0 \<or> refs srt ns old \<noteq> 1"
| "edit_clear srt _ ns \<longleftrightarrow> True"

text \<open>(C21) A level of the receiver counts references per sort key. An addition counts one more reference to its row, a removal one
  less, an edit moves one reference from the old key to the new one; the level stays strictly sorted with positive counts. The
  operation panics exactly when it takes away a reference that is not there. Edits that move the last reference of a row onto
  a key already present are excluded, since the code does not merge them.\<close>

theorem flat_op_counts:
  assumes "level_ok ty (sch_sort sch) ns" "op_typed ty sch op" "edit_clear (sch_sort sch) op ns"
    and "\<forall>r. op_come op = Some r \<longrightarrow> refs (sch_sort sch) ns r + 1 < 2 ^ 32"
  shows "case apply_op sch op ns of
      None \<Rightarrow> \<exists>r. op_gone op = Some r \<and> refs (sch_sort sch) ns r = 0
    | Some ns' \<Rightarrow> (\<forall>r. op_gone op = Some r \<longrightarrow> refs (sch_sort sch) ns r \<noteq> 0) \<and> level_ok ty (sch_sort sch) ns' \<and>
        (\<forall>x. row_ok ty (sch_sort sch) x \<longrightarrow>
          int (refs (sch_sort sch) ns' x) = int (refs (sch_sort sch) ns x) + hits (sch_sort sch) (op_come op) x - hits (sch_sort sch) (op_gone op) x)"
proof (cases op)
  case (FlatAdd n)
  then show ?thesis using recv_add_counts [OF assms(1), of n] assms(2,4) by auto
next
  case (FlatRemove r)
  then show ?thesis using recv_remove_counts [OF assms(1), of r] assms(2) by (auto split: if_splits)
next
  case (FlatEdit old new)
  then show ?thesis using recv_edit_counts [OF assms(1), of old new] assms(2-4) by (auto split: if_splits)
qed

theorem flat_op_counts_witness:
  "let sch = schema_new [[105], [118]] [0] [(1, True), (0, True)]; ns = [RecvNode [IntV 1, IntV 10] 2 [], RecvNode [IntV 2, IntV 20] 1 []] in
   \<exists>ns'. apply_op sch (FlatEdit [IntV 1, IntV 10] [IntV 2, IntV 20]) ns = Some ns' \<and> level_ok (\<lambda>_. KNum) (sch_sort sch) ns' \<and>
     refs (sch_sort sch) ns' [IntV 1, IntV 10] = 1 \<and> refs (sch_sort sch) ns' [IntV 2, IntV 20] = 2"
proof -
  let ?sch = "schema_new [[105], [118]] [0] [(1, True), (0, True)]" and ?ns = "[RecvNode [IntV 1, IntV 10] 2 [], RecvNode [IntV 2, IntV 20] 1 []]"
  let ?op = "FlatEdit [IntV 1, IntV 10] [IntV 2, IntV 20]" and ?ty = "\<lambda>_ :: col_id. KNum"
  have r: "row_ok ?ty (sch_sort ?sch) [IntV a, IntV b]" for a b by (simp add: row_ok_def schema_new_def)
  have c: "recv_cmp (sch_sort ?sch) (RecvNode [IntV 1, IntV 10] 2 []) (RecvNode [IntV 2, IntV 20] 1 []) = Some Less" by code_simp
  have counts: "refs (sch_sort ?sch) ?ns [IntV 1, IntV 10] = 2" "refs (sch_sort ?sch) ?ns [IntV 2, IntV 20] = 1" by code_simp+
  have hits: "hits (sch_sort ?sch) (op_come ?op) [IntV 1, IntV 10] = 0" "hits (sch_sort ?sch) (op_gone ?op) [IntV 1, IntV 10] = 1"
    "hits (sch_sort ?sch) (op_come ?op) [IntV 2, IntV 20] = 1" "hits (sch_sort ?sch) (op_gone ?op) [IntV 2, IntV 20] = 0" by code_simp+
  have "level_ok ?ty (sch_sort ?sch) ?ns" using c r [of 1 10] r [of 2 20] by (simp add: level_ok_def)
  note cnt = flat_op_counts [OF this, of ?op]
  have "apply_op ?sch ?op ?ns \<noteq> None" by code_simp
  then obtain ns' where ns': "apply_op ?sch ?op ?ns = Some ns'" by blast
  have fact: "level_ok ?ty (sch_sort ?sch) ns' \<and> (\<forall>x. row_ok ?ty (sch_sort ?sch) x \<longrightarrow>
      int (refs (sch_sort ?sch) ns' x) = int (refs (sch_sort ?sch) ?ns x) + hits (sch_sort ?sch) (op_come ?op) x - hits (sch_sort ?sch) (op_gone ?op) x)"
    using cnt unfolding ns' using counts r by (simp del: hits.simps)
  then have at: "int (refs (sch_sort ?sch) ns' x) = int (refs (sch_sort ?sch) ?ns x) + hits (sch_sort ?sch) (op_come ?op) x - hits (sch_sort ?sch) (op_gone ?op) x"
    if "row_ok ?ty (sch_sort ?sch) x" for x using that by blast
  have "int (refs (sch_sort ?sch) ns' [IntV 1, IntV 10]) = int 2 + 0 - 1" "int (refs (sch_sort ?sch) ns' [IntV 2, IntV 20]) = int 1 + 1 - 0"
    using at [OF r [of 1 10]] at [OF r [of 2 20]] unfolding counts hits .
  then show ?thesis using ns' fact by (simp add: Let_def)
qed

text \<open>The excluded edits: with two references to one row, both edited onto the same new key in turn, the second edit finds the new
  key right after the old one and overwrites the old entry there, so that the level ends with two entries of one key.\<close>

theorem edit_leaves_duplicate:
  "let sch = schema_new [[105], [118]] [0] [(1, True), (0, True)]; old = [IntV 1, IntV 10]; new = [IntV 1, IntV 20] in
   map_option rv_top (receiver_apply_all (receiver_new sch)
     [\<lparr> fc_path = [], fc_op = FlatAdd (WireNode old []) \<rparr>, \<lparr> fc_path = [], fc_op = FlatAdd (WireNode old []) \<rparr>,
      \<lparr> fc_path = [], fc_op = FlatEdit old new \<rparr>, \<lparr> fc_path = [], fc_op = FlatEdit old new \<rparr>]) =
   Some [RecvNode new 1 [], RecvNode new 1 []]"
  by code_simp

end
