(* ===== verification/Journal_Frame.thy ===== *)
theory Journal_Frame
  imports Bytes
begin

unbundle bit_operations_syntax

text \<open>
  The journal frame envelope (\<open>rust/src/journal_frame.rs\<close>): the container of opaque chunks, the typed frame header in front of it,
  and both decoders. An \<open>i64\<close> is its 64 bits; a \<open>String\<close> is its bytes, which \<open>std::str::from_utf8\<close> checks; \<open>usize\<close> has 64 bits.
\<close>

section \<open>The chunk container\<close>

datatype payload_encode_error = EncEmpty | EncTooManyChunks nat | EncChunkTooLarge nat | EncEmptyChunk | EncContainerTooLarge

datatype payload_decode_error =
  MissingSentinel | PayloadTruncated | InvalidMagic | UnknownVersion byte | DecEmpty | DecTooManyChunks nat | DecEmptyChunk | TrailingBytes nat

definition container_sentinel :: byte where
  "container_sentinel = 0x89"

definition container_magic :: "byte list" where
  "container_magic = [0x52, 0x4A, 0x50, 0]"

definition container_v1 :: byte where
  "container_v1 = 1"

definition container_header_len :: nat where
  "container_header_len = 1 + length container_magic + 1 + 4"

definition MAX_CONTAINER_CHUNKS :: nat where
  "MAX_CONTAINER_CHUNKS = 65536"

definition checked_add :: "nat \<Rightarrow> nat \<Rightarrow> nat option" where
  "checked_add a b = (if a + b < 2 ^ 64 then Some (a + b) else None)"

fun container_len_loop :: "nat \<Rightarrow> byte list list \<Rightarrow> payload_encode_error + nat" where
  "container_len_loop len [] = Inr len"
| "container_len_loop len (c # cs) =
     (if c = [] then Inl EncEmptyChunk
      else if \<not> length c < 2 ^ 32 then Inl (EncChunkTooLarge (length c))
      else (case do { n \<leftarrow> checked_add len 4; checked_add n (length c) } of
              None \<Rightarrow> Inl EncContainerTooLarge
            | Some len' \<Rightarrow> container_len_loop len' cs))"

definition payload_container_len :: "byte list list \<Rightarrow> payload_encode_error + nat" where
  "payload_container_len cs =
     (if cs = [] then Inl EncEmpty
      else if length cs > MAX_CONTAINER_CHUNKS then Inl (EncTooManyChunks (length cs))
      else container_len_loop container_header_len cs)"

definition encode_chunk :: "byte list \<Rightarrow> byte list" where
  "encode_chunk c = le32 (of_nat (length c)) @ c"

definition encode_payload_chunks_into :: "byte list list \<Rightarrow> byte list \<Rightarrow> payload_encode_error + byte list" where
  "encode_payload_chunks_into cs out = (case payload_container_len cs of
       Inl e \<Rightarrow> Inl e
     | Inr _ \<Rightarrow> Inr (out @ [container_sentinel] @ container_magic @ [container_v1] @ le32 (of_nat (length cs)) @ concat (map encode_chunk cs)))"

definition encode_payload_chunks :: "byte list list \<Rightarrow> payload_encode_error + byte list" where
  "encode_payload_chunks cs = (case payload_container_len cs of Inl e \<Rightarrow> Inl e | Inr _ \<Rightarrow> encode_payload_chunks_into cs [])"

fun decode_chunk_loop :: "nat \<Rightarrow> byte list \<Rightarrow> payload_decode_error + (byte list list \<times> byte list)" where
  "decode_chunk_loop 0 rest = Inr ([], rest)"
| "decode_chunk_loop (Suc n) rest =
     (if length rest < 4 then Inl PayloadTruncated
      else let len = unat (from_le32 (take 4 rest)); rest1 = drop 4 rest in
        if len = 0 then Inl DecEmptyChunk
        else if length rest1 < len then Inl PayloadTruncated
        else (case decode_chunk_loop n (drop len rest1) of
                Inl e \<Rightarrow> Inl e
              | Inr (cs, t) \<Rightarrow> Inr (take len rest1 # cs, t)))"

definition decode_payload_chunks :: "byte list \<Rightarrow> payload_decode_error + byte list list" where
  "decode_payload_chunks p =
     (if p = [] \<or> hd p \<noteq> container_sentinel then Inl MissingSentinel
      else if length p < container_header_len then Inl PayloadTruncated
      else if take 4 (drop 1 p) \<noteq> container_magic then Inl InvalidMagic
      else if p ! 5 \<noteq> container_v1 then Inl (UnknownVersion (p ! 5))
      else let n = unat (from_le32 (take 4 (drop 6 p))); rest = drop container_header_len p in
        if n = 0 then Inl DecEmpty
        else if n > MAX_CONTAINER_CHUNKS then Inl (DecTooManyChunks n)
        else if n > length rest div 4 then Inl PayloadTruncated
        else (case decode_chunk_loop n rest of
                Inl e \<Rightarrow> Inl e
              | Inr (cs, t) \<Rightarrow> if t \<noteq> [] then Inl (TrailingBytes (length t)) else Inr cs))"

section \<open>The frame header\<close>

datatype frame_kind = RowsFrame | DdlFrame | EmptyFrame

record run_totals =
  run_rows :: "64 word"
  rows_cum :: "64 word"

record frame_header =
  fh_kind :: frame_kind
  fh_committed_at :: "64 word"
  fh_run_id :: "byte list option"
  fh_run_totals :: "run_totals option"

datatype frame_encode_error = RunIdTooLong nat | EncEmptyWithPayload | EncPayload payload_encode_error

datatype frame_decode_error =
  FrameTruncated | UnknownFormat byte | UnknownKind byte | UnknownFlags byte | RunIdNotUtf8 | DecEmptyWithPayload | DecPayload payload_decode_error

definition FRAME_FORMAT_V1 :: byte where
  "FRAME_FORMAT_V1 = 1"

definition FRAME_FORMAT_V2 :: byte where
  "FRAME_FORMAT_V2 = 2"

definition FLAG_RUN_ID :: byte where
  "FLAG_RUN_ID = push_bit 0 1"

definition FLAG_RUN_TOTALS :: byte where
  "FLAG_RUN_TOTALS = push_bit 1 1"

definition KNOWN_FLAGS :: byte where
  "KNOWN_FLAGS = FLAG_RUN_ID OR FLAG_RUN_TOTALS"

definition empty_header :: frame_header where
  "empty_header = \<lparr> fh_kind = EmptyFrame, fh_committed_at = 0, fh_run_id = None, fh_run_totals = None \<rparr>"

fun kind_byte :: "frame_kind \<Rightarrow> byte" where
  "kind_byte RowsFrame = 0"
| "kind_byte DdlFrame = 1"
| "kind_byte EmptyFrame = 2"

definition header_flags :: "frame_header \<Rightarrow> byte" where
  "header_flags h =
     (let flags = 0; flags = (if fh_run_id h \<noteq> None then flags OR FLAG_RUN_ID else flags)
      in if fh_run_totals h \<noteq> None then flags OR FLAG_RUN_TOTALS else flags)"

fun encode_run_id :: "byte list option \<Rightarrow> byte list" where
  "encode_run_id None = []"
| "encode_run_id (Some s) = of_nat (length s) # s"

fun encode_totals :: "run_totals option \<Rightarrow> byte list" where
  "encode_totals None = []"
| "encode_totals (Some t) = le64 (run_rows t) @ le64 (rows_cum t)"

definition encode_header_into :: "frame_header \<Rightarrow> byte \<Rightarrow> byte list \<Rightarrow> frame_encode_error + byte list" where
  "encode_header_into h version out = (case fh_run_id h of
       Some s \<Rightarrow> if length s > 255 then Inl (RunIdTooLong (length s))
         else Inr (out @ [version, kind_byte (fh_kind h), header_flags h] @ le64 (fh_committed_at h) @ encode_run_id (Some s) @ encode_totals (fh_run_totals h))
     | None \<Rightarrow> Inr (out @ [version, kind_byte (fh_kind h), header_flags h] @ le64 (fh_committed_at h) @ encode_totals (fh_run_totals h)))"

definition frame_encode :: "frame_header \<Rightarrow> byte list \<Rightarrow> frame_encode_error + byte list" where
  "frame_encode h payload =
     (if fh_kind h = EmptyFrame \<and> payload \<noteq> [] then Inl EncEmptyWithPayload
      else (case encode_header_into h FRAME_FORMAT_V1 [] of Inl e \<Rightarrow> Inl e | Inr out \<Rightarrow> Inr (out @ payload)))"

definition encode_frame :: "frame_header \<Rightarrow> byte list list \<Rightarrow> frame_encode_error + byte list" where
  "encode_frame h cs =
     (if fh_kind h = EmptyFrame then (if cs \<noteq> [] then Inl EncEmptyWithPayload else encode_header_into h FRAME_FORMAT_V2 [])
      else (case payload_container_len cs of
              Inl e \<Rightarrow> Inl (EncPayload e)
            | Inr _ \<Rightarrow> (case encode_header_into h FRAME_FORMAT_V2 [] of
                  Inl e \<Rightarrow> Inl e
                | Inr out \<Rightarrow> (case encode_payload_chunks_into cs out of Inl e \<Rightarrow> Inl (EncPayload e) | Inr out' \<Rightarrow> Inr out'))))"

definition kind_of_byte :: "byte \<Rightarrow> frame_decode_error + frame_kind" where
  "kind_of_byte b = (if b = 0 then Inr RowsFrame else if b = 1 then Inr DdlFrame else if b = 2 then Inr EmptyFrame else Inl (UnknownKind b))"

definition decode_run_id :: "byte \<Rightarrow> byte list \<Rightarrow> frame_decode_error + (byte list option \<times> byte list)" where
  "decode_run_id flags rest =
     (if flags AND FLAG_RUN_ID \<noteq> 0 then (case rest of
          [] \<Rightarrow> Inl FrameTruncated
        | len # tail \<Rightarrow>
            if length tail < unat len then Inl FrameTruncated
            else if utf8_valid (take (unat len) tail) then Inr (Some (take (unat len) tail), drop (unat len) tail)
            else Inl RunIdNotUtf8)
      else Inr (None, rest))"

definition decode_totals :: "byte \<Rightarrow> byte list \<Rightarrow> frame_decode_error + (run_totals option \<times> byte list)" where
  "decode_totals flags rest =
     (if flags AND FLAG_RUN_TOTALS \<noteq> 0 then
        (if length rest < 16 then Inl FrameTruncated
         else let raw = take 16 rest in
           Inr (Some \<lparr> run_rows = from_le64 (take 8 raw), rows_cum = from_le64 (drop 8 raw) \<rparr>, drop 16 rest))
      else Inr (None, rest))"

definition frame_decode :: "byte list \<Rightarrow> frame_decode_error + (frame_header \<times> byte list)" where
  "frame_decode bs = (case bs of
       [] \<Rightarrow> Inl FrameTruncated
     | version # rest \<Rightarrow>
         if version \<noteq> FRAME_FORMAT_V1 \<and> version \<noteq> FRAME_FORMAT_V2 then Inl (UnknownFormat version)
         else (case rest of
           [] \<Rightarrow> Inl FrameTruncated
         | kb # rest \<Rightarrow> (case kind_of_byte kb of
             Inl e \<Rightarrow> Inl e
           | Inr kind \<Rightarrow> (case rest of
               [] \<Rightarrow> Inl FrameTruncated
             | flags # rest \<Rightarrow>
                 if flags AND NOT KNOWN_FLAGS \<noteq> 0 then Inl (UnknownFlags (flags AND NOT KNOWN_FLAGS))
                 else if length rest < 8 then Inl FrameTruncated
                 else (case decode_run_id flags (drop 8 rest) of
                   Inl e \<Rightarrow> Inl e
                 | Inr (rid, rest1) \<Rightarrow> (case decode_totals flags rest1 of
                     Inl e \<Rightarrow> Inl e
                   | Inr (totals, rest2) \<Rightarrow>
                       if kind = EmptyFrame \<and> rest2 \<noteq> [] then Inl DecEmptyWithPayload
                       else Inr (\<lparr> fh_kind = kind, fh_committed_at = from_le64 (take 8 rest), fh_run_id = rid, fh_run_totals = totals \<rparr>, rest2)))))))"

definition decode_chunks :: "byte list \<Rightarrow> frame_decode_error + (frame_header \<times> byte list list)" where
  "decode_chunks bs = (case bs of
       [] \<Rightarrow> Inl FrameTruncated
     | version # _ \<Rightarrow> (case frame_decode bs of
           Inl e \<Rightarrow> Inl e
         | Inr (h, payload) \<Rightarrow>
             if fh_kind h = EmptyFrame then Inr (h, [])
             else if version = FRAME_FORMAT_V1 then Inr (h, [payload])
             else (case decode_payload_chunks payload of Inl e \<Rightarrow> Inl (DecPayload e) | Inr cs \<Rightarrow> Inr (h, cs))))"

section \<open>Exact readers\<close>

text \<open>The contract of the field decoders: a reader accepts exactly the streams that start with the encoding of an admissible value,
  and returns the value and what follows it.\<close>

locale exact_reader =
  fixes rd :: "byte list \<Rightarrow> 'e + ('a \<times> byte list)" and wr :: "'a \<Rightarrow> byte list" and ok :: "'a \<Rightarrow> bool"
  assumes rd_iff: "rd s = Inr (x, t) \<longleftrightarrow> ok x \<and> s = wr x @ t"
begin

lemma rd_wr: "ok x \<Longrightarrow> rd (wr x @ t) = Inr (x, t)"
  by (simp add: rd_iff)

lemma wr_unique: "ok x \<Longrightarrow> ok y \<Longrightarrow> wr x @ s = wr y @ t \<Longrightarrow> x = y \<and> s = t"
  by (metis rd_wr Pair_inject sum.inject(2))

lemma rd_case: "(case rd s of Inl e \<Rightarrow> Inl e | Inr (x, t) \<Rightarrow> f x t) = Inr z \<longleftrightarrow> (\<exists>x t. ok x \<and> s = wr x @ t \<and> f x t = Inr z)"
proof (cases "rd s")
  case (Inl e)
  then show ?thesis using rd_iff [of s] by (metis old.sum.simps(5) Inl_Inr_False)
next
  case (Inr y)
  obtain a b where y: "y = (a, b)" by (cases y)
  then have ab: "x = a \<and> t = b \<longleftrightarrow> ok x \<and> s = wr x @ t" for x t using rd_iff [of s x t] Inr by auto
  have "(\<exists>x t. ok x \<and> s = wr x @ t \<and> f x t = Inr z) \<longleftrightarrow> (\<exists>x t. (x = a \<and> t = b) \<and> f x t = Inr z)" by (simp only: ab conj_assoc)
  then show ?thesis by (simp add: Inr y)
qed

end

definition chunk_ok :: "byte list \<Rightarrow> bool" where
  "chunk_ok c \<longleftrightarrow> c \<noteq> [] \<and> length c < 2 ^ 32"

lemma chunk_prefix:
  "4 \<le> length s \<and> unat (from_le32 (take 4 s)) \<noteq> 0 \<and> unat (from_le32 (take 4 s)) \<le> length (drop 4 s) \<and>
     c = take (unat (from_le32 (take 4 s))) (drop 4 s) \<and> r = drop (unat (from_le32 (take 4 s))) (drop 4 s) \<longleftrightarrow>
   chunk_ok c \<and> s = encode_chunk c @ r" (is "?L \<longleftrightarrow> ?R")
proof
  assume L: ?L
  let ?n = "unat (from_le32 (take 4 s))"
  have len: "length c = ?n" using L by simp
  have "le32 (of_nat (length c)) = take 4 s" using L le_of_from_le(1) [of "take 4 s"] len by simp
  moreover have "s = take 4 s @ c @ r" using L append_take_drop_id [of 4 s] append_take_drop_id [of ?n "drop 4 s"] by metis
  moreover have "chunk_ok c" using L len unat_u32_less [of "from_le32 (take 4 s)"] by (auto simp: chunk_ok_def)
  ultimately show ?R by (simp add: encode_chunk_def)
next
  assume R: ?R
  then have "unat (of_nat (length c) :: 32 word) = length c" by (simp add: chunk_ok_def unat_of_nat)
  then show ?L using R by (simp add: chunk_ok_def encode_chunk_def)
qed

lemma chunk_loop_iff:
  "decode_chunk_loop n s = Inr (cs, t) \<longleftrightarrow> (length cs = n \<and> list_all chunk_ok cs) \<and> s = concat (map encode_chunk cs) @ t"
proof (induction n arbitrary: s cs)
  case 0
  then show ?case by auto
next
  case (Suc n)
  let ?n = "unat (from_le32 (take 4 s))"
  have "decode_chunk_loop (Suc n) s = Inr (cs, t) \<longleftrightarrow>
      (\<exists>c ds. cs = c # ds \<and> (\<exists>r. (4 \<le> length s \<and> ?n \<noteq> 0 \<and> ?n \<le> length (drop 4 s) \<and> c = take ?n (drop 4 s) \<and> r = drop ?n (drop 4 s)) \<and>
        decode_chunk_loop n r = Inr (ds, t)))"
    by (auto simp: Let_def not_less split: sum.splits)
  also have "\<dots> \<longleftrightarrow> (\<exists>c ds. cs = c # ds \<and> (\<exists>r. (chunk_ok c \<and> s = encode_chunk c @ r) \<and> (length ds = n \<and> list_all chunk_ok ds) \<and> r = concat (map encode_chunk ds) @ t))"
    unfolding chunk_prefix Suc.IH ..
  also have "\<dots> \<longleftrightarrow> (length cs = Suc n \<and> list_all chunk_ok cs) \<and> s = concat (map encode_chunk cs) @ t"
    by (cases cs) auto
  finally show ?case .
qed

interpretation chunk_reader: exact_reader "decode_chunk_loop n" "\<lambda>cs. concat (map encode_chunk cs)" "\<lambda>cs. length cs = n \<and> list_all chunk_ok cs" for n
  by unfold_locales (rule chunk_loop_iff)

definition run_id_ok :: "byte list option \<Rightarrow> bool" where
  "run_id_ok i \<longleftrightarrow> (\<forall>s. i = Some s \<longrightarrow> length s \<le> 255 \<and> utf8_valid s)"

lemma run_id_iff:
  "decode_run_id flags s = Inr (i, t) \<longleftrightarrow> ((i \<noteq> None \<longleftrightarrow> flags AND FLAG_RUN_ID \<noteq> 0) \<and> run_id_ok i) \<and> s = encode_run_id i @ t"
proof (cases i)
  case None
  then show ?thesis by (auto simp: decode_run_id_def run_id_ok_def split: list.splits)
next
  case (Some x)
  have len: "unat (of_nat (length x) :: byte) = length x" if "length x \<le> 255" using that by (simp add: unat_of_nat)
  have "unat b \<le> 255" for b :: byte using unat_byte_less [of b] by simp
  then show ?thesis using Some len by (auto simp: decode_run_id_def run_id_ok_def split: list.splits if_splits)
qed

interpretation run_id_reader: exact_reader "decode_run_id flags" encode_run_id "\<lambda>i. (i \<noteq> None \<longleftrightarrow> flags AND FLAG_RUN_ID \<noteq> 0) \<and> run_id_ok i" for flags
  by unfold_locales (rule run_id_iff)

lemma totals_iff:
  "decode_totals flags s = Inr (i, t) \<longleftrightarrow> (i \<noteq> None \<longleftrightarrow> flags AND FLAG_RUN_TOTALS \<noteq> 0) \<and> s = encode_totals i @ t"
proof (cases i)
  case None
  then show ?thesis by (auto simp: decode_totals_def Let_def)
next
  case (Some x)
  show ?thesis
  proof
    assume L: "decode_totals flags s = Inr (i, t)"
    then have s: "16 \<le> length s" "x = \<lparr> run_rows = from_le64 (take 8 s), rows_cum = from_le64 (take 8 (drop 8 s)) \<rparr>" "t = drop 16 s" "flags AND FLAG_RUN_TOTALS \<noteq> 0"
      using Some by (auto simp: decode_totals_def Let_def drop_take split: if_splits)
    have "s = take 8 s @ take 8 (drop 8 s) @ drop 16 s" by (metis append_take_drop_id drop_drop numeral_Bit0)
    then show "(i \<noteq> None \<longleftrightarrow> flags AND FLAG_RUN_TOTALS \<noteq> 0) \<and> s = encode_totals i @ t"
      using s Some by (simp add: le_of_from_le(2))
  next
    assume "(i \<noteq> None \<longleftrightarrow> flags AND FLAG_RUN_TOTALS \<noteq> 0) \<and> s = encode_totals i @ t"
    then show "decode_totals flags s = Inr (i, t)" using Some by (simp add: decode_totals_def Let_def)
  qed
qed

interpretation totals_reader: exact_reader "decode_totals flags" encode_totals "\<lambda>i. (i \<noteq> None \<longleftrightarrow> flags AND FLAG_RUN_TOTALS \<noteq> 0)" for flags
  by unfold_locales (rule totals_iff)

section \<open>The container\<close>

lemma len_loop_iff:
  "container_len_loop len cs = Inr n \<longleftrightarrow> list_all chunk_ok cs \<and> n = len + length (concat (map encode_chunk cs)) \<and> (cs = [] \<or> n < 2 ^ 64)"
proof (induction cs arbitrary: len)
  case (Cons c cs)
  have "container_len_loop len (c # cs) = Inr n \<longleftrightarrow>
      chunk_ok c \<and> len + 4 + length c < 2 ^ 64 \<and> container_len_loop (len + 4 + length c) cs = Inr n"
    by (auto simp: chunk_ok_def checked_add_def)
  also have "\<dots> \<longleftrightarrow> list_all chunk_ok (c # cs) \<and> n = len + length (concat (map encode_chunk (c # cs))) \<and> n < 2 ^ 64"
    unfolding Cons.IH by (auto simp: encode_chunk_def)
  finally show ?case by simp
qed auto

definition container_bytes :: "byte list list \<Rightarrow> byte list" where
  "container_bytes cs = [container_sentinel] @ container_magic @ [container_v1] @ le32 (of_nat (length cs)) @ concat (map encode_chunk cs)"

definition container_ok :: "byte list list \<Rightarrow> bool" where
  "container_ok cs \<longleftrightarrow> cs \<noteq> [] \<and> length cs \<le> MAX_CONTAINER_CHUNKS \<and> list_all chunk_ok cs"

lemma container_len_iff:
  "payload_container_len cs = Inr n \<longleftrightarrow> container_ok cs \<and> n = length (container_bytes cs) \<and> n < 2 ^ 64"
  by (auto simp: payload_container_len_def len_loop_iff container_ok_def container_bytes_def container_header_len_def container_magic_def)

lemma container_len_Inl: "payload_container_len cs = Inl e \<Longrightarrow> \<not> (container_ok cs \<and> length (container_bytes cs) < 2 ^ 64)"
  using container_len_iff [of cs "length (container_bytes cs)"] by auto

lemma encode_into_iff:
  "encode_payload_chunks_into cs out = Inr p \<longleftrightarrow> container_ok cs \<and> p = out @ container_bytes cs \<and> length (container_bytes cs) < 2 ^ 64"
proof (cases "payload_container_len cs")
  case (Inl e)
  then show ?thesis using container_len_Inl [OF Inl] by (simp add: encode_payload_chunks_into_def)
next
  case (Inr n)
  then have "container_ok cs" "length (container_bytes cs) < 2 ^ 64" using container_len_iff [of cs n] by auto
  then show ?thesis using Inr by (auto simp: encode_payload_chunks_into_def container_bytes_def)
qed

lemma encode_payload_iff: "encode_payload_chunks cs = Inr p \<longleftrightarrow> container_ok cs \<and> p = container_bytes cs \<and> length p < 2 ^ 64"
proof (cases "payload_container_len cs")
  case (Inl e)
  then show ?thesis using container_len_Inl [OF Inl] by (auto simp: encode_payload_chunks_def)
next
  case (Inr n)
  then show ?thesis using encode_into_iff [of cs "[]" p] by (auto simp: encode_payload_chunks_def)
qed

lemma cut_front: "drop i s = take k (drop i s) @ drop (i + k) s"
  by (metis append_take_drop_id drop_drop add.commute)

lemma container_head:
  "p \<noteq> [] \<and> hd p = a \<and> container_header_len \<le> length p \<and> take 4 (drop 1 p) = container_magic \<and> p ! 5 = v \<and>
     from_le32 (take 4 (drop 6 p)) = n \<and> drop container_header_len p = r \<longleftrightarrow>
   p = [a] @ container_magic @ [v] @ le32 n @ r" (is "?L \<longleftrightarrow> ?R")
proof
  assume L: ?L
  have len: "length p \<ge> 10" using L by (simp add: container_header_len_def container_magic_def)
  have parts: "p = take 1 p @ drop 1 p" "drop 1 p = take 4 (drop 1 p) @ drop 5 p" "drop 5 p = take 1 (drop 5 p) @ drop 6 p" "drop 6 p = take 4 (drop 6 p) @ drop 10 p"
    using cut_front [of 1 p 4] cut_front [of 5 p 1] cut_front [of 6 p 4] by simp_all
  have "p = take 1 p @ take 4 (drop 1 p) @ take 1 (drop 5 p) @ take 4 (drop 6 p) @ drop 10 p"
    using parts by metis
  moreover have "take 1 p = [a]" using L by (cases p) auto
  moreover have "take 1 (drop 5 p) = [v]" using L len by (simp add: take_Suc_conv_app_nth)
  moreover have "take 4 (drop 6 p) = le32 n" using L len le_of_from_le(1) [of "take 4 (drop 6 p)"] by simp
  ultimately show ?R using L by (simp add: container_header_len_def container_magic_def)
qed (simp add: container_header_len_def container_magic_def)

lemma concat_chunks_length: "4 * length cs \<le> length (concat (map encode_chunk cs))"
  by (induction cs) (simp_all add: encode_chunk_def)

lemma decode_payload_iff: "decode_payload_chunks p = Inr cs \<longleftrightarrow> container_ok cs \<and> p = container_bytes cs"
proof -
  have small: "unat (of_nat (length cs) :: 32 word) = length cs" if "length cs \<le> MAX_CONTAINER_CHUNKS"
    using that by (simp add: unat_of_nat MAX_CONTAINER_CHUNKS_def)
  have "decode_payload_chunks p = Inr cs \<longleftrightarrow> (\<exists>n r. (p \<noteq> [] \<and> hd p = container_sentinel \<and> container_header_len \<le> length p \<and>
      take 4 (drop 1 p) = container_magic \<and> p ! 5 = container_v1 \<and> from_le32 (take 4 (drop 6 p)) = n \<and> drop container_header_len p = r) \<and>
      unat n \<noteq> 0 \<and> unat n \<le> MAX_CONTAINER_CHUNKS \<and> unat n \<le> length r div 4 \<and> decode_chunk_loop (unat n) r = Inr (cs, []))"
    by (auto simp: decode_payload_chunks_def Let_def not_less split: sum.splits)
  also have "\<dots> \<longleftrightarrow> (\<exists>n r. p = [container_sentinel] @ container_magic @ [container_v1] @ le32 n @ r \<and>
      unat n \<noteq> 0 \<and> unat n \<le> MAX_CONTAINER_CHUNKS \<and> unat n \<le> length r div 4 \<and> (length cs = unat n \<and> list_all chunk_ok cs) \<and> r = concat (map encode_chunk cs) @ [])"
    unfolding container_head chunk_loop_iff ..
  also have "\<dots> \<longleftrightarrow> container_ok cs \<and> p = container_bytes cs"
  proof
    assume R: "container_ok cs \<and> p = container_bytes cs"
    moreover have "length cs \<le> length (concat (map encode_chunk cs)) div 4" using concat_chunks_length [of cs] by simp
    ultimately show "\<exists>n r. p = [container_sentinel] @ container_magic @ [container_v1] @ le32 n @ r \<and>
      unat n \<noteq> 0 \<and> unat n \<le> MAX_CONTAINER_CHUNKS \<and> unat n \<le> length r div 4 \<and> (length cs = unat n \<and> list_all chunk_ok cs) \<and> r = concat (map encode_chunk cs) @ []"
      using small by (intro exI [of _ "of_nat (length cs)"] exI [of _ "concat (map encode_chunk cs)"]) (simp add: container_ok_def container_bytes_def)
  qed (auto simp: container_ok_def container_bytes_def)
  finally show ?thesis .
qed

section \<open>The frame\<close>

definition header_bytes :: "byte \<Rightarrow> frame_header \<Rightarrow> byte list" where
  "header_bytes version h =
     [version, kind_byte (fh_kind h), header_flags h] @ le64 (fh_committed_at h) @ encode_run_id (fh_run_id h) @ encode_totals (fh_run_totals h)"

definition header_fits :: "frame_header \<Rightarrow> bool" where
  "header_fits h \<longleftrightarrow> (\<forall>s. fh_run_id h = Some s \<longrightarrow> length s \<le> 255)"

lemma encode_header_iff: "encode_header_into h version out = Inr bs \<longleftrightarrow> header_fits h \<and> bs = out @ header_bytes version h"
  by (auto simp: encode_header_into_def header_fits_def header_bytes_def split: option.splits if_splits)

lemma encode_header_Inl: "encode_header_into h version out = Inl e \<Longrightarrow> \<not> header_fits h"
  using encode_header_iff [of h version out "out @ header_bytes version h"] by auto

lemma frame_encode_iff:
  "frame_encode h payload = Inr bs \<longleftrightarrow> header_fits h \<and> (fh_kind h = EmptyFrame \<longrightarrow> payload = []) \<and> bs = header_bytes FRAME_FORMAT_V1 h @ payload"
proof (cases "encode_header_into h FRAME_FORMAT_V1 []")
  case (Inl e)
  then show ?thesis using encode_header_Inl [OF Inl] by (simp add: frame_encode_def)
next
  case (Inr out)
  then show ?thesis using encode_header_iff [of h FRAME_FORMAT_V1 "[]" out] by (auto simp: frame_encode_def)
qed

definition frame_payload :: "frame_header \<Rightarrow> byte list list \<Rightarrow> byte list" where
  "frame_payload h cs = (if fh_kind h = EmptyFrame then [] else container_bytes cs)"

lemma encode_frame_iff:
  "encode_frame h cs = Inr bs \<longleftrightarrow> header_fits h \<and> (if fh_kind h = EmptyFrame then cs = [] else container_ok cs \<and> length (container_bytes cs) < 2 ^ 64) \<and>
     bs = header_bytes FRAME_FORMAT_V2 h @ frame_payload h cs"
proof (cases "fh_kind h = EmptyFrame")
  case True
  then show ?thesis using encode_header_iff [of h FRAME_FORMAT_V2 "[]" bs] by (auto simp: encode_frame_def frame_payload_def)
next
  case False
  show ?thesis
  proof (cases "payload_container_len cs")
    case (Inl e)
    then show ?thesis using False container_len_Inl [OF Inl] by (auto simp: encode_frame_def)
  next
    case (Inr n)
    show ?thesis
    proof (cases "encode_header_into h FRAME_FORMAT_V2 []")
      case Inl': (Inl e)
      then show ?thesis using False Inr encode_header_Inl [OF Inl'] by (simp add: encode_frame_def)
    next
      case Inr': (Inr out)
      have out: "header_fits h" "out = header_bytes FRAME_FORMAT_V2 h" using encode_header_iff [of h FRAME_FORMAT_V2 "[]" out] Inr' by auto
      have "encode_frame h cs = Inr bs \<longleftrightarrow> encode_payload_chunks_into cs out = Inr bs"
        using False Inr Inr' by (auto simp: encode_frame_def split: sum.splits)
      then show ?thesis using encode_into_iff [of cs out bs] out False by (auto simp: frame_payload_def)
    qed
  qed
qed

lemma flag_byte_iff:
  "f AND NOT KNOWN_FLAGS = 0 \<and> (a \<longleftrightarrow> f AND FLAG_RUN_ID \<noteq> 0) \<and> (b \<longleftrightarrow> f AND FLAG_RUN_TOTALS \<noteq> 0) \<longleftrightarrow>
   f = (if a then FLAG_RUN_ID else 0) OR (if b then FLAG_RUN_TOTALS else 0)"
proof -
  have all: "\<forall>n\<in>set [0..<256]. \<forall>a\<in>{False, True}. \<forall>b\<in>{False, True}. let f = (of_nat n :: byte) in
      (f AND NOT KNOWN_FLAGS = 0 \<and> (a \<longleftrightarrow> f AND FLAG_RUN_ID \<noteq> 0) \<and> (b \<longleftrightarrow> f AND FLAG_RUN_TOTALS \<noteq> 0)) =
      (f = (if a then FLAG_RUN_ID else 0) OR (if b then FLAG_RUN_TOTALS else 0))" by code_simp
  have "unat f \<in> set [0..<256]" using unat_byte_less [of f] by simp
  then have "let f = (of_nat (unat f) :: byte) in
      (f AND NOT KNOWN_FLAGS = 0 \<and> (a \<longleftrightarrow> f AND FLAG_RUN_ID \<noteq> 0) \<and> (b \<longleftrightarrow> f AND FLAG_RUN_TOTALS \<noteq> 0)) =
      (f = (if a then FLAG_RUN_ID else 0) OR (if b then FLAG_RUN_TOTALS else 0))"
    by (intro all [THEN bspec, THEN bspec, THEN bspec]) auto
  then show ?thesis by (simp add: Let_def)
qed

lemma header_flags_eq: "header_flags h = (if fh_run_id h \<noteq> None then FLAG_RUN_ID else 0) OR (if fh_run_totals h \<noteq> None then FLAG_RUN_TOTALS else 0)"
  by (simp add: header_flags_def Let_def)

lemma kind_of_byte_iff: "kind_of_byte b = Inr k \<longleftrightarrow> b = kind_byte k"
  by (cases k) (auto simp: kind_of_byte_def)

lemma ts_iff: "8 \<le> length s \<and> from_le64 (take 8 s) = w \<and> drop 8 s = r \<longleftrightarrow> s = le64 w @ r"
  using le_of_from_le(2) [of "take 8 s"] append_take_drop_id [of 8 s] by auto

lemma frame_decode_head:
  "frame_decode (v # k # f # s) = Inr (h, r) \<longleftrightarrow>
     (v = FRAME_FORMAT_V1 \<or> v = FRAME_FORMAT_V2) \<and> kind_of_byte k = Inr (fh_kind h) \<and> f AND NOT KNOWN_FLAGS = 0 \<and>
     (\<exists>s1 s2. (8 \<le> length s \<and> from_le64 (take 8 s) = fh_committed_at h \<and> drop 8 s = s1) \<and> decode_run_id f s1 = Inr (fh_run_id h, s2) \<and>
        decode_totals f s2 = Inr (fh_run_totals h, r)) \<and> (fh_kind h = EmptyFrame \<longrightarrow> r = [])"
  by (cases h) (auto simp: frame_decode_def not_less split: sum.splits)

lemma frame_decode_iff:
  "frame_decode bs = Inr (h, r) \<longleftrightarrow> run_id_ok (fh_run_id h) \<and> (fh_kind h = EmptyFrame \<longrightarrow> r = []) \<and>
     (bs = header_bytes FRAME_FORMAT_V1 h @ r \<or> bs = header_bytes FRAME_FORMAT_V2 h @ r)"
proof (cases "\<exists>v k f s. bs = v # k # f # s")
  case True
  then obtain v k f s where bs: "bs = v # k # f # s" by blast
  have "frame_decode bs = Inr (h, r) \<longleftrightarrow> (v = FRAME_FORMAT_V1 \<or> v = FRAME_FORMAT_V2) \<and> k = kind_byte (fh_kind h) \<and> run_id_ok (fh_run_id h) \<and>
      (f AND NOT KNOWN_FLAGS = 0 \<and> (fh_run_id h \<noteq> None \<longleftrightarrow> f AND FLAG_RUN_ID \<noteq> 0) \<and> (fh_run_totals h \<noteq> None \<longleftrightarrow> f AND FLAG_RUN_TOTALS \<noteq> 0)) \<and>
      s = le64 (fh_committed_at h) @ encode_run_id (fh_run_id h) @ encode_totals (fh_run_totals h) @ r \<and> (fh_kind h = EmptyFrame \<longrightarrow> r = [])"
    unfolding bs frame_decode_head kind_of_byte_iff ts_iff run_id_iff totals_iff by blast
  also have "\<dots> \<longleftrightarrow> run_id_ok (fh_run_id h) \<and> (fh_kind h = EmptyFrame \<longrightarrow> r = []) \<and> (bs = header_bytes FRAME_FORMAT_V1 h @ r \<or> bs = header_bytes FRAME_FORMAT_V2 h @ r)"
    unfolding flag_byte_iff bs header_bytes_def header_flags_eq by auto
  finally show ?thesis .
next
  case False
  have "frame_decode bs \<noteq> Inr (h, r)" using False by (auto simp: frame_decode_def split: list.splits sum.splits if_splits)
  moreover have "bs \<noteq> header_bytes v h @ r" for v using False by (auto simp: header_bytes_def)
  ultimately show ?thesis by blast
qed

text \<open>(C29) The journal codec is exact. The decoder accepts a buffer as a frame with given header and chunks exactly when the buffer is
  the current encoding of that header and those chunks, or the legacy encoding of that header with the one chunk as its opaque
  payload; the run identity is then valid UTF-8. So decoding inverts encoding for both versions, and whatever is truncated,
  trailing, of an unknown version, kind or flag, or not the encoding of anything is refused.\<close>

theorem frame_codec_exact:
  assumes "length bs < 2 ^ 64"
  shows "decode_chunks bs = Inr (h, cs) \<longleftrightarrow> (\<forall>s. fh_run_id h = Some s \<longrightarrow> utf8_valid s) \<and>
    (encode_frame h cs = Inr bs \<or> (\<exists>p. frame_encode h p = Inr bs \<and> cs = (if fh_kind h = EmptyFrame then [] else [p])))"
proof -
  have ok: "run_id_ok (fh_run_id h) \<longleftrightarrow> header_fits h \<and> (\<forall>s. fh_run_id h = Some s \<longrightarrow> utf8_valid s)"
    by (auto simp: run_id_ok_def header_fits_def)
  have ne: "header_bytes v h = v # tl (header_bytes v h)" for v by (simp add: header_bytes_def)
  have v: "FRAME_FORMAT_V1 \<noteq> FRAME_FORMAT_V2" by (simp add: FRAME_FORMAT_V1_def FRAME_FORMAT_V2_def)
  have head: "hd (header_bytes v h @ r) = v" "header_bytes v h @ r \<noteq> []" for v r using ne [of v] by (metis append_Cons list.sel(1), simp add: header_bytes_def)
  have "decode_chunks bs = Inr (h, cs) \<longleftrightarrow> (\<exists>r. frame_decode bs = Inr (h, r) \<and>
      (if fh_kind h = EmptyFrame then cs = [] else if hd bs = FRAME_FORMAT_V1 then cs = [r] else decode_payload_chunks r = Inr cs))"
    by (cases bs) (auto simp: decode_chunks_def frame_decode_def [of "[]"] split: sum.splits)
  also have "\<dots> \<longleftrightarrow> run_id_ok (fh_run_id h) \<and>
      ((\<exists>r. (fh_kind h = EmptyFrame \<longrightarrow> r = []) \<and> bs = header_bytes FRAME_FORMAT_V1 h @ r \<and> cs = (if fh_kind h = EmptyFrame then [] else [r])) \<or>
       (if fh_kind h = EmptyFrame then cs = [] else container_ok cs) \<and> bs = header_bytes FRAME_FORMAT_V2 h @ frame_payload h cs)"
    unfolding frame_decode_iff decode_payload_iff using v head by (auto simp: frame_payload_def)
  also have "\<dots> \<longleftrightarrow> (\<forall>s. fh_run_id h = Some s \<longrightarrow> utf8_valid s) \<and>
    (encode_frame h cs = Inr bs \<or> (\<exists>p. frame_encode h p = Inr bs \<and> cs = (if fh_kind h = EmptyFrame then [] else [p])))"
    unfolding ok encode_frame_iff frame_encode_iff using assms by (auto simp: frame_payload_def)
  finally show ?thesis .
qed

theorem frame_codec_exact_witness:
  "let h = \<lparr> fh_kind = RowsFrame, fh_committed_at = 1752000000123, fh_run_id = Some [0x77, 0x3A, 0xC3, 0xA9],
      fh_run_totals = Some \<lparr> run_rows = 42, rows_cum = 9000000001 \<rparr> \<rparr>; cs = [[0x5B, 0x5D], [0x31]]
   in \<exists>bs. encode_frame h cs = Inr bs \<and> decode_chunks bs = Inr (h, cs)"
proof -
  let ?h = "\<lparr> fh_kind = RowsFrame, fh_committed_at = 1752000000123, fh_run_id = Some [0x77, 0x3A, 0xC3, 0xA9],
      fh_run_totals = Some \<lparr> run_rows = 42, rows_cum = 9000000001 \<rparr> \<rparr>" and ?cs = "[[0x5B, 0x5D], [0x31]]"
  have "utf8_valid [0x77, 0x3A, 0xC3, 0xA9]" by code_simp
  moreover obtain bs where bs: "bs = header_bytes FRAME_FORMAT_V2 ?h @ frame_payload ?h ?cs" by blast
  have "length bs < 2 ^ 64" "encode_frame ?h ?cs = Inr bs"
    unfolding encode_frame_iff bs
    by (simp_all add: header_fits_def container_ok_def MAX_CONTAINER_CHUNKS_def chunk_ok_def frame_payload_def header_bytes_def container_bytes_def
        container_magic_def encode_chunk_def)
  ultimately show ?thesis using frame_codec_exact [of bs ?h ?cs] by (simp add: Let_def)
qed

end
