(* ===== verification/Op_Join.thy ===== *)
theory Op_Join
  imports Source_State Op_Env
begin

text \<open>
  The hierarchical join of \<open>rust/src/graph.rs\<close>: every parent row gets a relationship with the matching child rows. A change of
  a child is fanned out to its parents one by one; while that runs, the change and the parent being served are published in
  the operator, and a refetch from downstream reads the relationship of a parent that is still to be served as it was before.

  The inputs, the output edge, the live fields, the eviction walk over the child limiters, the push deadline and the error
  slot are reached through callbacks. A relationship thunk is drained where the node is built: during the push of that node
  the live fields do not change.
\<close>

record join_op =
  jn_parent_key :: "col_id list"
  jn_child_key :: "col_id list"
  jn_rel_slot :: rel_id
  jn_parent_pk :: "col_id list"
  jn_parent_sort :: sort
  jn_child_pk :: "col_id list"
  jn_child_sort :: sort

record 's join_env =
  je_parent_fetch :: "fetch_request \<Rightarrow> 's \<Rightarrow> (node list \<times> 's) option"
  je_child_fetch :: "fetch_request \<Rightarrow> 's \<Rightarrow> (node list \<times> 's) option"
  je_push :: "change \<Rightarrow> 's \<Rightarrow> 's option"
  je_overlay :: "'s \<Rightarrow> source_change option"
  je_put_overlay :: "source_change option \<Rightarrow> 's \<Rightarrow> 's"
  je_position :: "'s \<Rightarrow> row option"
  je_put_position :: "row option \<Rightarrow> 's \<Rightarrow> 's"
  je_evict :: "row_constraint \<Rightarrow> 's \<Rightarrow> 's option"
  je_deadline :: "'s \<Rightarrow> bool \<times> 's"
  je_park :: "rindle_error \<Rightarrow> 's \<Rightarrow> 's"
  je_validate :: "'s \<Rightarrow> bool"
  je_debug :: bool

section \<open>The overlay splices\<close>

fun any_same_pk :: "node list \<Rightarrow> row \<Rightarrow> col_id list \<Rightarrow> bool option" where
  "any_same_pk [] r pk = Some False"
| "any_same_pk (n # ns) r pk = do { e \<leftarrow> same_pk (node_row n) r pk; if e then Some True else any_same_pk ns r pk }"

fun retain_other_pk :: "node list \<Rightarrow> row \<Rightarrow> col_id list \<Rightarrow> node list option" where
  "retain_other_pk [] r pk = Some []"
| "retain_other_pk (n # ns) r pk = do {
     e \<leftarrow> same_pk (node_row n) r pk; rest \<leftarrow> retain_other_pk ns r pk; Some (if e then rest else n # rest) }"

fun suppress_node :: "node list \<Rightarrow> row \<Rightarrow> col_id list \<Rightarrow> node list option" where
  "suppress_node [] r pk = Some []"
| "suppress_node (n # ns) r pk = do {
     e \<leftarrow> same_pk (node_row n) r pk; if e then Some ns else map_option (Cons n) (suppress_node ns r pk) }"

definition readd_if_absent :: "node list \<Rightarrow> row \<Rightarrow> col_id list \<Rightarrow> node list option" where
  "readd_if_absent nodes r pk = do { e \<leftarrow> any_same_pk nodes r pk; Some (if e then nodes else nodes @ [leaf r]) }"

definition add_if_matches :: "row \<Rightarrow> col_id list \<Rightarrow> col_id list \<Rightarrow> col_id list \<Rightarrow> node list \<Rightarrow> row \<Rightarrow> node list option" where
  "add_if_matches parent_row parent_key child_key child_pk nodes add_row = do {
     m \<leftarrow> is_join_match parent_row parent_key add_row child_key;
     if m then readd_if_absent nodes add_row child_pk else Some nodes
   }"

definition splice_join_overlay :: "node list \<Rightarrow> source_change \<Rightarrow> row \<Rightarrow> col_id list \<Rightarrow> col_id list \<Rightarrow> col_id list \<Rightarrow> sort \<Rightarrow> node list option" where
  "splice_join_overlay base ov parent_row parent_key child_key child_pk child_sort = do {
     nodes \<leftarrow> (case ov of
         AddRow r \<Rightarrow> add_if_matches parent_row parent_key child_key child_pk base r
       | RemoveRow r \<Rightarrow> retain_other_pk base r child_pk
       | EditRow r old \<Rightarrow> do {
           kept \<leftarrow> retain_other_pk base old child_pk;
           add_if_matches parent_row parent_key child_key child_pk kept r
         });
     sort_by (node_cmp child_sort) nodes
   }"

definition splice_join_overlay_pre :: "node list \<Rightarrow> source_change \<Rightarrow> col_id list \<Rightarrow> sort \<Rightarrow> node list option" where
  "splice_join_overlay_pre base ov child_pk child_sort = do {
     nodes \<leftarrow> (case ov of
         AddRow r \<Rightarrow> suppress_node base r child_pk
       | RemoveRow r \<Rightarrow> readd_if_absent base r child_pk
       | EditRow r old \<Rightarrow> do {
           kept \<leftarrow> suppress_node base r child_pk;
           readd_if_absent kept old child_pk
         });
     sort_by (node_cmp child_sort) nodes
   }"

section \<open>Fetch\<close>

fun overlay_row :: "source_change \<Rightarrow> row" where
  "overlay_row (AddRow r) = r"
| "overlay_row (RemoveRow r) = r"
| "overlay_row (EditRow r old) = r"

definition join_overlay_for :: "'s join_env \<Rightarrow> join_op \<Rightarrow> row \<Rightarrow> 's \<Rightarrow> source_change option option" where
  "join_overlay_for env j parent_row st = (case (je_overlay env st, je_position env st) of
       (Some ov, Some at_row) \<Rightarrow> do {
         m \<leftarrow> is_join_match parent_row (jn_parent_key j) (overlay_row ov) (jn_child_key j);
         if \<not> m then Some None
         else do {
           c \<leftarrow> compare_rows (jn_parent_sort j) parent_row at_row;
           Some (if c = Greater then Some ov else None)
         }
       }
     | _ \<Rightarrow> Some None)"

definition child_stream :: "'s join_env \<Rightarrow> join_op \<Rightarrow> row \<Rightarrow> 's \<Rightarrow> (node list \<times> 's) option" where
  "child_stream env j pr st = do {
     c \<leftarrow> build_join_constraint pr (jn_parent_key j) (jn_child_key j);
     (base, st1) \<leftarrow> (case c of Some c \<Rightarrow> je_child_fetch env (fetch_with_constraint c) st | None \<Rightarrow> Some ([], st));
     ov \<leftarrow> join_overlay_for env j pr st1;
     (case ov of
        Some ov \<Rightarrow> do { ns \<leftarrow> splice_join_overlay_pre base ov (jn_child_pk j) (jn_child_sort j); Some (ns, st1) }
      | None \<Rightarrow> Some (base, st1))
   }"

definition process_parent_node :: "'s join_env \<Rightarrow> join_op \<Rightarrow> node \<Rightarrow> 's \<Rightarrow> (node \<times> 's) option" where
  "process_parent_node env j n st = do {
     (cs, st1) \<leftarrow> child_stream env j (node_row n) st;
     Some (Node (node_row n) (node_rels n @ [(jn_rel_slot j, cs)]), st1)
   }"

fun process_parents :: "'s join_env \<Rightarrow> join_op \<Rightarrow> node list \<Rightarrow> 's \<Rightarrow> (node list \<times> 's) option" where
  "process_parents env j [] st = Some ([], st)"
| "process_parents env j (n # ns) st = do {
     (n', st1) \<leftarrow> process_parent_node env j n st;
     (ns', st2) \<leftarrow> process_parents env j ns st1;
     Some (n' # ns', st2)
   }"

definition join_fetch :: "'s join_env \<Rightarrow> join_op \<Rightarrow> fetch_request \<Rightarrow> 's \<Rightarrow> (node list \<times> 's) option" where
  "join_fetch env j req st = do {
     (ns, st1) \<leftarrow> je_parent_fetch env req st;
     process_parents env j ns st1
   }"

section \<open>Push\<close>

fun fan_out_parents :: "'s join_env \<Rightarrow> join_op \<Rightarrow> change \<Rightarrow> node list \<Rightarrow> 's \<Rightarrow> 's option" where
  "fan_out_parents env j owned [] st = Some st"
| "fan_out_parents env j owned (p # ps) st =
     (let (late, st1) = je_deadline env st in
      if late then Some (je_park env (PushDeadlineExceeded ''join child fan-out'') st1)
      else do {
        (pn, st2) \<leftarrow> process_parent_node env j p (je_put_position env (Some (node_row p)) st1);
        st3 \<leftarrow> je_push env (Child pn (jn_rel_slot j) owned) st2;
        fan_out_parents env j owned ps st3
      })"

definition push_child_change :: "'s join_env \<Rightarrow> join_op \<Rightarrow> change \<Rightarrow> 's \<Rightarrow> 's option" where
  "push_child_change env j c st = do {
     constr \<leftarrow> build_join_constraint (primary_row c) (jn_child_key j) (jn_parent_key j);
     (case constr of
        None \<Rightarrow> Some st
      | Some k \<Rightarrow> do {
          let owned = materialize_change_edit_old_row_only c;
          (ps, st1) \<leftarrow> je_parent_fetch env (fetch_with_constraint k) (je_put_overlay env (for_child_change c) st);
          st2 \<leftarrow> fan_out_parents env j owned ps st1;
          Some (je_put_position env None (je_put_overlay env None st2))
        })
   }"

text \<open>Both ports refuse an edit that changes the join key: in strict mode the violation is parked and nothing is pushed,
  otherwise a debug build panics and a release build goes on.\<close>

definition key_guard :: "'s join_env \<Rightarrow> string \<Rightarrow> row \<Rightarrow> row \<Rightarrow> col_id list \<Rightarrow> ('s \<Rightarrow> 's option) \<Rightarrow> 's \<Rightarrow> 's option" where
  "key_guard env kind old new key k st = do {
     same \<leftarrow> row_equals_for_compound_key old new key;
     if same then k st
     else if je_validate env st then Some (je_park env (ConsistencyViolation kind) st)
     else if je_debug env then None
     else k st
   }"

fun join_push_parent :: "'s join_env \<Rightarrow> join_op \<Rightarrow> change \<Rightarrow> 's \<Rightarrow> 's option" where
  "join_push_parent env j (Add n) st = do {
     (pn, st1) \<leftarrow> process_parent_node env j n st; je_push env (Add pn) st1 }"
| "join_push_parent env j (Remove n) st = do {
     (pn, st1) \<leftarrow> process_parent_node env j n st;
     st2 \<leftarrow> je_push env (Remove pn) st1;
     if jn_parent_pk j = jn_parent_key j then do {
       c \<leftarrow> build_join_constraint (node_row n) (jn_parent_key j) (jn_child_key j);
       (case c of Some k \<Rightarrow> je_evict env k st2 | None \<Rightarrow> Some st2)
     }
     else Some st2
   }"
| "join_push_parent env j (Edit n old) st =
     key_guard env ''parent edit changed the join key'' (node_row old) (node_row n) (jn_parent_key j) (\<lambda>st. do {
       (pn, st1) \<leftarrow> process_parent_node env j n st;
       (po, st2) \<leftarrow> process_parent_node env j old st1;
       je_push env (Edit pn po) st2 }) st"
| "join_push_parent env j (Child n rel ch) st = do {
     (pn, st1) \<leftarrow> process_parent_node env j n st; je_push env (Child pn rel ch) st1 }"

definition join_push :: "'s join_env \<Rightarrow> join_op \<Rightarrow> change \<Rightarrow> port \<Rightarrow> 's \<Rightarrow> 's option" where
  "join_push env j c p st = (case p of
       JoinParent \<Rightarrow> join_push_parent env j c st
     | JoinChild \<Rightarrow> (case c of
           Edit n old \<Rightarrow> key_guard env ''child edit changed the join key'' (node_row old) (node_row n) (jn_child_key j) (push_child_change env j c) st
         | _ \<Rightarrow> push_child_change env j c st)
     | Single \<Rightarrow> None)"

end
