(* ===== verification/Join_View.thy ===== *)
theory Join_View
  imports Op_Join
begin

text \<open>
  What the join delivers: applying the changes it has pushed so far to the view gives, at every moment of a fan-out, exactly the
  tree a refetch through the join reads; the parent port attaches to a row the relationship a fetch would read.
\<close>

section \<open>One hop of a join\<close>

definition joins :: "join_op \<Rightarrow> row \<Rightarrow> row \<Rightarrow> bool" where
  "joins j p r \<longleftrightarrow> list_all2 (\<lambda>a b. cells_join (p ! a) (r ! b)) (jn_parent_key j) (jn_child_key j)"

lemma constraint_of_key:
  assumes "key_pairs_typed a ka b kb"
  shows "constraint_matches b (zip kb (map ((!) a) ka)) = Some (list_all2 (\<lambda>p c. cells_join (a ! p) (b ! c)) ka kb)"
  using assms unfolding key_pairs_typed_def
proof (induction rule: list_all2_induct)
  case (Cons p ks c cs)
  then show ?case using values_equal_conforms [of _ "b ! c" "a ! p"] by (auto simp: row_col_def cells_join_sym)
qed simp

lemma join_hop:
  assumes "key_pairs_typed a ka b kb"
  obtains k where "build_join_constraint a ka kb = Some k"
    "k = None \<Longrightarrow> \<not> list_all2 (\<lambda>p c. cells_join (a ! p) (b ! c)) ka kb"
    "\<And>c. k = Some c \<Longrightarrow> constraint_matches b c = Some (list_all2 (\<lambda>p c. cells_join (a ! p) (b ! c)) ka kb)"
proof -
  have range: "\<forall>p\<in>set ka. p < length a" "length kb = length ka"
    using assms by (auto simp: key_pairs_typed_def list_all2_conv_all_nth in_set_conv_nth)
  have null: "\<not> list_all2 (\<lambda>p c. cells_join (a ! p) (b ! c)) ka kb" if "\<exists>f\<in>set ka. a ! f = Null"
    using that by (auto simp: list_all2_conv_all_nth in_set_conv_nth cells_join_def)
  show ?thesis
    by (rule that [OF build_join_constraint_ok [OF range]]) (use null constraint_of_key [OF assms] in \<open>auto split: if_splits\<close>)
qed

lemma key_pairs_typed_flip: "key_pairs_typed a ka b kb \<longleftrightarrow> key_pairs_typed b kb a ka"
  unfolding key_pairs_typed_def list_all2_conv_all_nth by metis

lemma joins_flip: "list_all2 (\<lambda>c p. cells_join (r ! c) (a ! p)) (jn_child_key j) (jn_parent_key j) \<longleftrightarrow> joins j a r"
  by (auto simp: joins_def list_all2_conv_all_nth cells_join_sym)

lemma compare_values_equal: "compare_values x y = Some Equal \<Longrightarrow> cells_join a x = cells_join a y"
proof -
  assume "compare_values x y = Some Equal"
  then have eq: "compare_predicate_values x y = Equal" "x \<in> {Absent, Null} \<longleftrightarrow> y \<in> {Absent, Null}" by (cases x; cases y; auto)+
  show ?thesis
  proof (cases "x \<in> {Absent, Null}")
    case True
    then have "\<not> cells_join x a" "\<not> cells_join y a" using eq(2) by (auto simp: cells_join_def)
    then show ?thesis by (simp add: cells_join_sym)
  next
    case False
    then have "cells_join x y" using eq by (simp add: cells_join_def)
    then show ?thesis using cells_join_trans cells_join_sym by blast
  qed
qed

lemma key_unchanged_joins:
  assumes "row_equals_for_compound_key old new (jn_child_key j) = Some True"
  shows "joins j p old = joins j p new"
proof -
  have "\<forall>c\<in>set ks. compare_values (old ! c) (new ! c) = Some Equal" if "cols_equal old new ks = Some True" for ks
    using that by (induction ks) (auto simp: row_col_def vec_get_def split: bind_splits if_splits)
  then have "\<forall>c\<in>set (jn_child_key j). compare_values (old ! c) (new ! c) = Some Equal"
    using assms by (simp add: row_equals_for_compound_key_def)
  then have "cells_join a (old ! (jn_child_key j ! i)) = cells_join a (new ! (jn_child_key j ! i))" if "i < length (jn_child_key j)" for a i
    using that compare_values_equal by simp
  then show ?thesis by (auto simp: joins_def list_all2_conv_all_nth)
qed

section \<open>The stable sort keeps the elements\<close>

context comparator_on
begin

lemma sort_by_mset: "set xs \<subseteq> D \<Longrightarrow> \<exists>ys. sort_by cmp xs = Some ys \<and> mset ys = mset xs"
proof (induction xs)
  case (Cons x xs)
  have ins: "set ys \<subseteq> D \<Longrightarrow> x \<in> D \<Longrightarrow> \<exists>zs. insert_by cmp x ys = Some zs \<and> mset zs = add_mset x (mset ys)" for ys
  proof (induction ys)
    case (Cons y ys)
    have "x \<in> D" "y \<in> D" using Cons.prems by auto
    then show ?case by (cases rule: cmp_cases) (use Cons in auto)
  qed simp
  obtain ys where ys: "sort_by cmp xs = Some ys" "mset ys = mset xs" using Cons by auto
  then have "set ys \<subseteq> D" using Cons.prems mset_eq_setD by fastforce
  then show ?case using ins [of ys] ys Cons.prems by auto
qed simp

end

section \<open>What the views hold\<close>

text \<open>The rows of one relationship after a change of one of its nodes: an addition must be new, a removal or an edit must name a
  row that is there.\<close>

fun rows_after :: "change \<Rightarrow> row set \<Rightarrow> row set option" where
  "rows_after (Add n) K = (if node_row n \<in> K then None else Some (insert (node_row n) K))"
| "rows_after (Remove n) K = (if node_row n \<in> K then Some (K - {node_row n}) else None)"
| "rows_after (Edit n old) K = (if node_row old \<in> K \<and> (node_row n \<in> K \<longrightarrow> node_row n = node_row old)
     then Some (insert (node_row n) (K - {node_row old})) else None)"
| "rows_after (Child n rel c) K = (if node_row n \<in> K then Some K else None)"

text \<open>The rows a node holds in a slot: a later relationship of the same slot replaces an earlier one.\<close>

definition slot_rows :: "rel_id \<Rightarrow> node \<Rightarrow> row set" where
  "slot_rows slot n = (case map_of (rev (node_rels n)) slot of Some cs \<Rightarrow> node_row ` set cs | None \<Rightarrow> {})"

text \<open>A view of the join: for every parent row the rows of its relationship; and what a pushed change makes of it.\<close>

type_synonym join_tree = "row \<rightharpoonup> row set"

fun deliver :: "rel_id \<Rightarrow> change \<Rightarrow> join_tree \<Rightarrow> join_tree option" where
  "deliver slot (Add n) V = (if V (node_row n) = None then Some (V(node_row n \<mapsto> slot_rows slot n)) else None)"
| "deliver slot (Remove n) V = (if V (node_row n) = None then None else Some (V(node_row n := None)))"
| "deliver slot (Edit n old) V = (if V (node_row old) \<noteq> None \<and> (V (node_row n) \<noteq> None \<longrightarrow> node_row n = node_row old)
     then Some (V(node_row old := None, node_row n \<mapsto> slot_rows slot n)) else None)"
| "deliver slot (Child n rel c) V = do {
     K \<leftarrow> V (node_row n);
     if rel = slot then map_option (\<lambda>K'. V(node_row n \<mapsto> K')) (rows_after c K) else Some V
   }"

fun deliver_changes :: "rel_id \<Rightarrow> change list \<Rightarrow> join_tree \<Rightarrow> join_tree option" where
  "deliver_changes slot [] V = Some V"
| "deliver_changes slot (c # cs) V = do { V' \<leftarrow> deliver slot c V; deliver_changes slot cs V' }"

definition children_of :: "join_op \<Rightarrow> row set \<Rightarrow> row \<Rightarrow> row set" where
  "children_of j R p = {r \<in> R. joins j p r}"

definition join_tree_of :: "join_op \<Rightarrow> row set \<Rightarrow> row set \<Rightarrow> join_tree" where
  "join_tree_of j P R = (\<lambda>p. if p \<in> P then Some (children_of j R p) else None)"

section \<open>A graph that records\<close>

text \<open>Every push is recorded with the live fields of the join at that moment.\<close>

record join_state =
  js_overlay :: "source_change option"
  js_position :: "row option"
  js_log :: "(change \<times> source_change option \<times> row option) list"
  js_evicted :: "row_constraint list"
  js_errors :: "rindle_error list"

definition join_log_env :: "bool \<Rightarrow> (fetch_request \<Rightarrow> node list option) \<Rightarrow> (fetch_request \<Rightarrow> node list option) \<Rightarrow> join_state join_env" where
  "join_log_env strict pf cf = \<lparr>
     je_parent_fetch = (\<lambda>req st. map_option (\<lambda>ns. (ns, st)) (pf req)),
     je_child_fetch = (\<lambda>req st. map_option (\<lambda>ns. (ns, st)) (cf req)),
     je_push = (\<lambda>c st. Some (st \<lparr> js_log := js_log st @ [(c, js_overlay st, js_position st)] \<rparr>)),
     je_overlay = js_overlay, je_put_overlay = (\<lambda>ov st. st \<lparr> js_overlay := ov \<rparr>),
     je_position = js_position, je_put_position = (\<lambda>p st. st \<lparr> js_position := p \<rparr>),
     je_evict = (\<lambda>c st. Some (st \<lparr> js_evicted := js_evicted st @ [c] \<rparr>)),
     je_deadline = (\<lambda>st. (False, st)),
     je_park = (\<lambda>e st. st \<lparr> js_errors := js_errors st @ [e] \<rparr>),
     je_validate = (\<lambda>st. strict), je_debug = False \<rparr>"

lemma join_log_simps [simp]:
  "je_parent_fetch (join_log_env v pf cf) req st = map_option (\<lambda>ns. (ns, st)) (pf req)"
  "je_child_fetch (join_log_env v pf cf) req st = map_option (\<lambda>ns. (ns, st)) (cf req)"
  "je_push (join_log_env v pf cf) c st = Some (st \<lparr> js_log := js_log st @ [(c, js_overlay st, js_position st)] \<rparr>)"
  "je_overlay (join_log_env v pf cf) st = js_overlay st" "je_put_overlay (join_log_env v pf cf) ov st = st \<lparr> js_overlay := ov \<rparr>"
  "je_position (join_log_env v pf cf) st = js_position st" "je_put_position (join_log_env v pf cf) p st = st \<lparr> js_position := p \<rparr>"
  "je_evict (join_log_env v pf cf) k st = Some (st \<lparr> js_evicted := js_evicted st @ [k] \<rparr>)"
  "je_deadline (join_log_env v pf cf) st = (False, st)"
  "je_park (join_log_env v pf cf) e st = st \<lparr> js_errors := js_errors st @ [e] \<rparr>"
  "je_validate (join_log_env v pf cf) st = v" "je_debug (join_log_env v pf cf) = False"
  by (simp_all add: join_log_env_def)

text \<open>An input that answers a constraint with exactly its matching nodes, in order, and any request with some of its nodes.\<close>

definition keyed_input :: "(fetch_request \<Rightarrow> node list option) \<Rightarrow> node list \<Rightarrow> bool" where
  "keyed_input f N \<longleftrightarrow> (\<forall>c. f (fetch_with_constraint c) = Some (filter (\<lambda>n. constraint_matches (node_row n) c = Some True) N))"

definition scans :: "(fetch_request \<Rightarrow> node list option) \<Rightarrow> node list \<Rightarrow> bool" where
  "scans f N \<longleftrightarrow> (\<forall>req ns. f req = Some ns \<longrightarrow> set ns \<subseteq> set N)"

text \<open>Rows of a child input: comparable under its sort, and identified by the primary key.\<close>

definition child_rows_ok :: "(col_id \<Rightarrow> kind) \<Rightarrow> join_op \<Rightarrow> row set \<Rightarrow> bool" where
  "child_rows_ok ty j R \<longleftrightarrow> (\<forall>r\<in>R. row_ok ty (jn_child_sort j) r) \<and> (\<forall>r\<in>R. \<forall>s\<in>R. same_pk r s (jn_child_pk j) = Some (r = s))"

definition keys_typed :: "join_op \<Rightarrow> row set \<Rightarrow> row set \<Rightarrow> bool" where
  "keys_typed j P R \<longleftrightarrow> (\<forall>p\<in>P. \<forall>r\<in>R. key_pairs_typed p (jn_parent_key j) r (jn_child_key j)) \<and>
     length (jn_child_key j) = length (jn_parent_key j) \<and>
     (\<forall>p\<in>P. \<forall>c\<in>set (jn_parent_key j). c < length p) \<and> (\<forall>r\<in>R. \<forall>c\<in>set (jn_child_key j). c < length r)"

text \<open>What a refetch through the join reads.\<close>

definition reads_tree :: "bool \<Rightarrow> (fetch_request \<Rightarrow> node list option) \<Rightarrow> (fetch_request \<Rightarrow> node list option) \<Rightarrow> join_op \<Rightarrow> join_state \<Rightarrow> join_tree \<Rightarrow> bool" where
  "reads_tree v pf cf j st V \<longleftrightarrow> (\<forall>req ns. pf req = Some ns \<longrightarrow>
     (\<exists>ns'. join_fetch (join_log_env v pf cf) j req st = Some (ns', st) \<and> map node_row ns' = map node_row ns \<and>
       (\<forall>n\<in>set ns'. V (node_row n) = Some (slot_rows (jn_rel_slot j) n))))"

section \<open>The splice restores the relationship\<close>

lemma any_same_pk_iff:
  "\<forall>n\<in>set ns. same_pk (node_row n) r pk = Some (node_row n = r) \<Longrightarrow> any_same_pk ns r pk = Some (r \<in> node_row ` set ns)"
  by (induction ns) auto

lemma any_same_pk_none: "\<forall>n\<in>set ns. same_pk (node_row n) r pk = Some False \<Longrightarrow> any_same_pk ns r pk = Some False"
  by (induction ns) auto

lemma suppress_node_rows:
  "\<forall>n\<in>set ns. same_pk (node_row n) r pk = Some (node_row n = r) \<Longrightarrow> distinct (map node_row ns) \<Longrightarrow>
   \<exists>ms. suppress_node ns r pk = Some ms \<and> node_row ` set ms = node_row ` set ns - {r} \<and> set ms \<subseteq> set ns"
proof (induction ns)
  case (Cons n ns)
  then show ?case by (cases "node_row n = r") auto
qed simp

lemma sorted_rows:
  assumes "child_rows_ok ty j R" "node_row ` set ns \<subseteq> R"
  shows "\<exists>ms. sort_by (node_cmp (jn_child_sort j)) ns = Some ms \<and> node_row ` set ms = node_row ` set ns"
proof -
  have "set ns \<subseteq> node_dom ty (jn_child_sort j)" using assms by (auto simp: child_rows_ok_def)
  from node_order.sort_by_mset [OF this] obtain ms where "sort_by (node_cmp (jn_child_sort j)) ns = Some ms" "mset ms = mset ns" by blast
  then show ?thesis using mset_eq_setD by blast
qed

text \<open>The pull back to the relationship before the change.\<close>

lemma splice_pre_rows:
  assumes R: "child_rows_ok ty j R" and R': "child_rows_ok ty j R'" and step: "rows_after c R = Some R'" "for_child_change c = Some ov"
    and base: "node_row ` set base = children_of j R' p" "distinct (map node_row base)"
    and hit: "joins j p (overlay_row ov)" "\<And>n old. c = Edit n old \<Longrightarrow> joins j p (node_row old)"
  shows "\<exists>ms. splice_join_overlay_pre base ov (jn_child_pk j) (jn_child_sort j) = Some ms \<and> node_row ` set ms = children_of j R p"
proof -
  let ?pk = "jn_child_pk j"
  have sub: "node_row n \<in> R'" if "n \<in> set base" for n using base(1) that by (auto simp: children_of_def)
  have pk': "\<forall>n\<in>set base. same_pk (node_row n) r ?pk = Some (node_row n = r)" if "r \<in> R'" for r
    using R' sub that by (auto simp: child_rows_ok_def)
  have fin: ?thesis if "(case ov of AddRow r \<Rightarrow> suppress_node base r ?pk | RemoveRow r \<Rightarrow> readd_if_absent base r ?pk
      | EditRow r old \<Rightarrow> suppress_node base r ?pk \<bind> (\<lambda>kept. readd_if_absent kept old ?pk)) = Some ms"
    "node_row ` set ms = children_of j R p" for ms
    using that sorted_rows [OF R, of ms] by (auto simp: splice_join_overlay_pre_def children_of_def)
  show ?thesis
  proof (cases c)
    case (Add n)
    then have n: "node_row n \<in> R'" "R = R' - {node_row n}" "ov = AddRow (node_row n)" using step by (auto split: if_splits)
    obtain ms where ms: "suppress_node base (node_row n) ?pk = Some ms" "node_row ` set ms = node_row ` set base - {node_row n}"
      using suppress_node_rows [OF pk' [OF n(1)] base(2)] by blast
    show ?thesis by (rule fin [of ms]) (use n ms base(1) in \<open>auto simp: children_of_def\<close>)
  next
    case (Remove n)
    then have n: "node_row n \<in> R" "R' = R - {node_row n}" "ov = RemoveRow (node_row n)" using step by (auto split: if_splits)
    have "\<forall>m\<in>set base. same_pk (node_row m) (node_row n) ?pk = Some False" using sub R n by (auto simp: child_rows_ok_def)
    note no = any_same_pk_none [OF this]
    show ?thesis by (rule fin [of "base @ [leaf (node_row n)]"])
        (use n no base(1) hit(1) in \<open>auto simp: readd_if_absent_def leaf_def children_of_def\<close>)
  next
    case (Edit n old)
    then have n: "node_row old \<in> R" "R' = insert (node_row n) (R - {node_row old})" "node_row n \<in> R \<Longrightarrow> node_row n = node_row old"
      "ov = EditRow (node_row n) (node_row old)" using step by (auto split: if_splits)
    obtain ms where ms: "suppress_node base (node_row n) ?pk = Some ms" "node_row ` set ms = node_row ` set base - {node_row n}" "set ms \<subseteq> set base"
      using suppress_node_rows [OF pk' base(2), of "node_row n"] n(2) by auto
    have "node_row m \<in> R - {node_row old}" if "m \<in> set ms" for m
    proof -
      have "node_row m \<in> node_row ` set ms" using that by simp
      then have "node_row m \<noteq> node_row n" using ms(2) by simp
      then show ?thesis using sub [of m] that ms(3) n(2) by auto
    qed
    then have "\<forall>m\<in>set ms. same_pk (node_row m) (node_row old) ?pk = Some False" using R n(1) by (auto simp: child_rows_ok_def)
    note no = any_same_pk_none [OF this]
    have "insert (node_row old) (node_row ` set ms) = children_of j R p"
      using ms(2) base(1) n hit(2) [OF Edit] by (auto simp: children_of_def)
    then show ?thesis by (intro fin [of "ms @ [leaf (node_row old)]"]) (use n no ms in \<open>auto simp: readd_if_absent_def leaf_def\<close>)
  next
    case (Child n rel ch)
    then show ?thesis using step by simp
  qed
qed

section \<open>The relationship of one parent\<close>

lemma base_stream:
  assumes "keyed_input cf C" "keys_typed j P (node_row ` set C)" "p \<in> P" "distinct (map node_row C)"
  obtains k base where "build_join_constraint p (jn_parent_key j) (jn_child_key j) = Some k"
    "(case k of Some c \<Rightarrow> je_child_fetch (join_log_env v pf cf) (fetch_with_constraint c) st | None \<Rightarrow> Some ([], st)) = Some (base, st)"
    "node_row ` set base = children_of j (node_row ` set C) p" "distinct (map node_row base)"
proof -
  obtain k where k: "build_join_constraint p (jn_parent_key j) (jn_child_key j) = Some k"
    using assms(2,3) build_join_constraint_ok [of "jn_parent_key j" p "jn_child_key j"] by (auto simp: keys_typed_def)
  have typed: "key_pairs_typed p (jn_parent_key j) (node_row n) (jn_child_key j)" if "n \<in> set C" for n
    using assms(2,3) that by (auto simp: keys_typed_def)
  have hop: "(k = None \<longrightarrow> \<not> joins j p (node_row n)) \<and> (\<forall>c. k = Some c \<longrightarrow> constraint_matches (node_row n) c = Some (joins j p (node_row n)))"
    if "n \<in> set C" for n
    by (rule join_hop [OF typed [OF that]]) (use k in \<open>auto simp: joins_def\<close>)
  show ?thesis
  proof (cases k)
    case None
    then have "children_of j (node_row ` set C) p = {}" using hop by (auto simp: children_of_def)
    then show ?thesis using that [OF k, of "[]"] None by simp
  next
    case (Some c)
    let ?b = "filter (\<lambda>n. constraint_matches (node_row n) c = Some True) C"
    have "node_row ` set ?b = children_of j (node_row ` set C) p" using hop Some by (auto simp: children_of_def)
    moreover have "distinct (map node_row ?b)" using assms(4) by (simp add: distinct_map_filter)
    ultimately show ?thesis using that [OF k, of ?b] Some assms(1) by (simp add: keyed_input_def)
  qed
qed

text \<open>A change of one child that fits the inputs: the child input already answers with the rows after it.\<close>

definition child_step_ok :: "(col_id \<Rightarrow> kind) \<Rightarrow> (col_id \<Rightarrow> kind) \<Rightarrow> join_op \<Rightarrow> node list \<Rightarrow> node list \<Rightarrow> row set \<Rightarrow> change \<Rightarrow> bool" where
  "child_step_ok tp tc j P C R c \<longleftrightarrow>
     sorted_by (node_cmp (jn_parent_sort j)) P \<and> set P \<subseteq> node_dom tp (jn_parent_sort j) \<and> distinct (map node_row C) \<and>
     for_child_change c \<noteq> None \<and> rows_after c R = Some (node_row ` set C) \<and>
     child_rows_ok tc j R \<and> child_rows_ok tc j (node_row ` set C) \<and> keys_typed j (node_row ` set P) (R \<union> node_row ` set C) \<and>
     (\<forall>n old. c = Edit n old \<longrightarrow> row_equals_for_compound_key (node_row old) (node_row n) (jn_child_key j) = Some True)"

lemma changed_row_known:
  "child_step_ok tp tc j P C R c \<Longrightarrow> primary_row c \<in> R \<union> node_row ` set C"
  by (cases c) (auto simp: child_step_ok_def split: if_splits)

lemma overlay_row_change [simp]: "for_child_change c = Some ov \<Longrightarrow> overlay_row ov = primary_row c"
  by (cases c) auto

lemma keys_typed_mono: "keys_typed j P R \<Longrightarrow> Q \<subseteq> P \<Longrightarrow> S \<subseteq> R \<Longrightarrow> keys_typed j Q S"
  unfolding keys_typed_def by blast

lemma unrelated_parent:
  assumes "child_step_ok tp tc j P C R c" "\<not> joins j p (primary_row c)"
  shows "children_of j (node_row ` set C) p = children_of j R p"
proof -
  have step: "rows_after c R = Some (node_row ` set C)" using assms(1) by (simp add: child_step_ok_def)
  show ?thesis
  proof (cases c)
    case (Edit n old)
    then have "row_equals_for_compound_key (node_row old) (node_row n) (jn_child_key j) = Some True" using assms(1) by (simp add: child_step_ok_def)
    from key_unchanged_joins [OF this, of p] have "\<not> joins j p (node_row old)" using assms(2) Edit by simp
    moreover have "node_row ` set C = insert (node_row n) (R - {node_row old})" using step Edit by (auto split: if_splits)
    ultimately show ?thesis using assms(2) Edit by (auto simp: children_of_def)
  next
    case (Add n)
    then have "node_row ` set C = insert (node_row n) R" using step by (auto split: if_splits)
    then show ?thesis using assms(2) Add by (auto simp: children_of_def)
  next
    case (Remove n)
    then have "node_row ` set C = R - {node_row n}" using step by (auto split: if_splits)
    then show ?thesis using assms(2) Remove by (auto simp: children_of_def)
  next
    case (Child n rel ch)
    then have "node_row ` set C = R" using step by (auto split: if_splits)
    then show ?thesis by simp
  qed
qed

lemma staged_stream:
  assumes ok: "child_step_ok tp tc j P C R c" and cf: "keyed_input cf C" and ov: "for_child_change c = Some ov"
    and p: "p \<in> node_row ` set P" and q: "q \<in> node_row ` set P" and st: "js_overlay st = Some ov" "js_position st = Some q"
  shows "\<exists>cs. child_stream (join_log_env v pf cf) j p st = Some (cs, st) \<and>
    node_row ` set cs = children_of j (if joins j p (primary_row c) \<and> compare_rows (jn_parent_sort j) p q = Some Greater then R else node_row ` set C) p"
proof -
  note ok' = ok [unfolded child_step_ok_def]
  have "keys_typed j (node_row ` set P) (node_row ` set C)" using ok' keys_typed_mono by blast
  then obtain k base where kb: "build_join_constraint p (jn_parent_key j) (jn_child_key j) = Some k"
    "(case k of Some c \<Rightarrow> je_child_fetch (join_log_env v pf cf) (fetch_with_constraint c) st | None \<Rightarrow> Some ([], st)) = Some (base, st)"
    "node_row ` set base = children_of j (node_row ` set C) p" "distinct (map node_row base)"
    by (rule base_stream [OF cf _ p, where v = v and pf = pf and st = st]) (use ok' in simp)
  have "key_pairs_typed p (jn_parent_key j) (primary_row c) (jn_child_key j)" using ok' p changed_row_known [OF ok] by (auto simp: keys_typed_def)
  then have m: "is_join_match p (jn_parent_key j) (primary_row c) (jn_child_key j) = Some (joins j p (primary_row c))"
    by (simp add: is_join_match_typed joins_def)
  have "row_ok tp (jn_parent_sort j) p" "row_ok tp (jn_parent_sort j) q" using ok' p q by auto
  then obtain d where d: "compare_rows (jn_parent_sort j) p q = Some d" using row_order.cmp_cases by (metis mem_Collect_eq)
  show ?thesis
  proof (cases "joins j p (primary_row c) \<and> d = Greater")
    case True
    have old: "joins j p (node_row old)" if "c = Edit n old" for n old
      using ok' True that key_unchanged_joins [of "node_row old" "node_row n" j p] by simp
    obtain ms where "splice_join_overlay_pre base ov (jn_child_pk j) (jn_child_sort j) = Some ms" "node_row ` set ms = children_of j R p"
      using splice_pre_rows [of tc j R "node_row ` set C" c ov base p] ok' ov kb(3,4) True old by auto
    then show ?thesis using True kb(1,2) m d ov st by (simp add: child_stream_def join_overlay_for_def)
  next
    case False
    then show ?thesis using kb m d ov st by (auto simp: child_stream_def join_overlay_for_def)
  qed
qed

lemma plain_stream:
  assumes "keys_typed j P (node_row ` set C)" "distinct (map node_row C)" "keyed_input cf C" "p \<in> P" "js_overlay st = None"
  shows "\<exists>cs. child_stream (join_log_env v pf cf) j p st = Some (cs, st) \<and> node_row ` set cs = children_of j (node_row ` set C) p"
proof -
  obtain k base where kb: "build_join_constraint p (jn_parent_key j) (jn_child_key j) = Some k"
    "(case k of Some c \<Rightarrow> je_child_fetch (join_log_env v pf cf) (fetch_with_constraint c) st | None \<Rightarrow> Some ([], st)) = Some (base, st)"
    "node_row ` set base = children_of j (node_row ` set C) p"
    by (rule base_stream [OF assms(3,1,4,2), where v = v and pf = pf and st = st])
  then show ?thesis using kb assms(5) by (simp add: child_stream_def join_overlay_for_def)
qed

lemma processed_parents:
  assumes "\<And>n. n \<in> set ns \<Longrightarrow> \<exists>cs. child_stream env j (node_row n) st = Some (cs, st) \<and> V (node_row n) = Some (node_row ` set cs)"
  shows "\<exists>ns'. process_parents env j ns st = Some (ns', st) \<and> map node_row ns' = map node_row ns \<and>
    (\<forall>n\<in>set ns'. V (node_row n) = Some (slot_rows (jn_rel_slot j) n))"
  using assms
proof (induction ns)
  case (Cons n ns)
  obtain cs where cs: "child_stream env j (node_row n) st = Some (cs, st)" "V (node_row n) = Some (node_row ` set cs)" using Cons.prems [of n] by auto
  obtain ns' where "process_parents env j ns st = Some (ns', st)" "map node_row ns' = map node_row ns"
    "\<forall>n\<in>set ns'. V (node_row n) = Some (slot_rows (jn_rel_slot j) n)" using Cons by auto
  then show ?case using cs by (auto simp: process_parent_node_def slot_rows_def)
qed simp

lemma reads_treeI:
  assumes "scans pf P"
    and "\<And>p. p \<in> node_row ` set P \<Longrightarrow> \<exists>cs. child_stream (join_log_env v pf cf) j p st = Some (cs, st) \<and> V p = Some (node_row ` set cs)"
  shows "reads_tree v pf cf j st V"
  unfolding reads_tree_def
proof (intro allI impI)
  fix req ns assume "pf req = Some ns"
  moreover have "\<exists>cs. child_stream (join_log_env v pf cf) j (node_row n) st = Some (cs, st) \<and> V (node_row n) = Some (node_row ` set cs)" if "n \<in> set ns" for n
    using assms(1) calculation assms(2) that unfolding scans_def by blast
  ultimately show "\<exists>ns'. join_fetch (join_log_env v pf cf) j req st = Some (ns', st) \<and> map node_row ns' = map node_row ns \<and>
       (\<forall>n\<in>set ns'. V (node_row n) = Some (slot_rows (jn_rel_slot j) n))"
    using processed_parents [of ns "join_log_env v pf cf" j st V] by (simp add: join_fetch_def)
qed

lemma idle_reads:
  assumes "keys_typed j (node_row ` set P) (node_row ` set C)" "distinct (map node_row C)" "keyed_input cf C"
    "scans pf P" "js_overlay st = None"
  shows "reads_tree v pf cf j st (join_tree_of j (node_row ` set P) (node_row ` set C))"
proof (rule reads_treeI [OF assms(4)])
  fix p assume p: "p \<in> node_row ` set P"
  then show "\<exists>cs. child_stream (join_log_env v pf cf) j p st = Some (cs, st) \<and> join_tree_of j (node_row ` set P) (node_row ` set C) p = Some (node_row ` set cs)"
    using plain_stream [OF assms(1-3) p assms(5), of v pf] unfolding join_tree_of_def by auto
qed

section \<open>The fan-out\<close>

definition stage :: "join_op \<Rightarrow> node list \<Rightarrow> node list \<Rightarrow> row set \<Rightarrow> change \<Rightarrow> row set \<Rightarrow> join_tree" where
  "stage j P C R c D = (\<lambda>p. if p \<in> node_row ` set P
     then Some (children_of j (if joins j p (primary_row c) \<and> p \<notin> D then R else node_row ` set C) p) else None)"

abbreviation hit_parents :: "join_op \<Rightarrow> node list \<Rightarrow> change \<Rightarrow> node list" where
  "hit_parents j P c \<equiv> filter (\<lambda>n. joins j (node_row n) (primary_row c)) P"

lemma stage_ends:
  assumes "child_step_ok tp tc j P C R c"
  shows "stage j P C R c {} = join_tree_of j (node_row ` set P) R"
    "stage j P C R c (node_row ` set (hit_parents j P c)) = join_tree_of j (node_row ` set P) (node_row ` set C)"
  using unrelated_parent [OF assms] by (auto simp: stage_def join_tree_of_def fun_eq_iff)

lemma rows_after_owned [simp]: "rows_after (materialize_change_edit_old_row_only c) K = rows_after c K"
  by (cases c) auto

lemma rows_after_children:
  assumes "child_step_ok tp tc j P C R c" "joins j p (primary_row c)"
  shows "rows_after c (children_of j R p) = Some (children_of j (node_row ` set C) p)"
proof -
  have step: "rows_after c R = Some (node_row ` set C)" using assms(1) by (simp add: child_step_ok_def)
  show ?thesis
  proof (cases c)
    case (Edit n old)
    then have "row_equals_for_compound_key (node_row old) (node_row n) (jn_child_key j) = Some True" using assms(1) by (simp add: child_step_ok_def)
    from key_unchanged_joins [OF this, of p] have "joins j p (node_row old)" using assms(2) Edit by simp
    moreover have "node_row old \<in> R" "node_row n \<in> R \<longrightarrow> node_row n = node_row old" "insert (node_row n) (R - {node_row old}) = node_row ` set C"
      using step Edit by (auto split: if_splits)
    ultimately show ?thesis using assms(2) Edit by (auto simp: children_of_def)
  next
    case (Add n)
    then have "node_row n \<notin> R" "insert (node_row n) R = node_row ` set C" using step by (auto split: if_splits)
    then show ?thesis using assms(2) Add by (auto simp: children_of_def)
  next
    case (Remove n)
    then have "node_row n \<in> R" "R - {node_row n} = node_row ` set C" using step by (auto split: if_splits)
    then show ?thesis using assms(2) Remove by (auto simp: children_of_def)
  next
    case (Child n rel ch)
    then show ?thesis using assms(1) by (simp add: child_step_ok_def)
  qed
qed

text \<open>What one parent is sent, with the live fields at that moment.\<close>

definition entry_for :: "join_op \<Rightarrow> change \<Rightarrow> source_change \<Rightarrow> node \<Rightarrow> change \<times> source_change option \<times> row option \<Rightarrow> bool" where
  "entry_for j owned ov p e \<longleftrightarrow> (\<exists>n. node_row n = node_row p \<and> e = (Child n (jn_rel_slot j) owned, Some ov, Some (node_row p)))"

lemma deliver_stage:
  assumes ok: "child_step_ok tp tc j P C R c"
  shows "list_all2 (entry_for j (materialize_change_edit_old_row_only c) ov) ps es \<Longrightarrow> set ps \<subseteq> set (hit_parents j P c) \<Longrightarrow> distinct (map node_row ps) \<Longrightarrow>
    D \<inter> node_row ` set ps = {} \<Longrightarrow> deliver_changes (jn_rel_slot j) (map fst es) (stage j P C R c D) = Some (stage j P C R c (D \<union> node_row ` set ps))"
proof (induction ps es arbitrary: D rule: list_all2_induct)
  case (Cons p ps e es)
  let ?q = "node_row p"
  have q: "?q \<in> node_row ` set P" "joins j ?q (primary_row c)" "?q \<notin> D" using Cons.prems by auto
  have set: "(stage j P C R c D)(?q \<mapsto> children_of j (node_row ` set C) ?q) = stage j P C R c (insert ?q D)"
    using q by (auto simp: stage_def fun_eq_iff)
  have at: "stage j P C R c D ?q = Some (children_of j R ?q)" using q by (simp add: stage_def)
  obtain n where n: "node_row n = ?q" "fst e = Child n (jn_rel_slot j) (materialize_change_edit_old_row_only c)"
    using Cons.hyps(1) by (auto simp: entry_for_def)
  have "deliver (jn_rel_slot j) (fst e) (stage j P C R c D) = Some (stage j P C R c (insert ?q D))"
    by (simp add: n at rows_after_children [OF ok q(2)] set)
  moreover have "deliver_changes (jn_rel_slot j) (map fst es) (stage j P C R c (insert ?q D)) = Some (stage j P C R c (insert ?q D \<union> node_row ` set ps))"
    by (rule Cons.IH) (use Cons.prems in auto)
  ultimately show ?case by (simp add: Un_insert_left)
qed simp

lemma fan_out_entries:
  assumes ok: "child_step_ok tp tc j P C R c" and cf: "keyed_input cf C" and ov: "for_child_change c = Some ov"
  shows "set ps \<subseteq> set P \<Longrightarrow> js_overlay st = Some ov \<Longrightarrow>
    \<exists>es q. fan_out_parents (join_log_env v pf cf) j owned ps st = Some (st \<lparr> js_position := q, js_log := js_log st @ es \<rparr>) \<and>
      list_all2 (entry_for j owned ov) ps es"
proof (induction ps arbitrary: st)
  case Nil
  show ?case by (rule exI [of _ "[]"], rule exI [of _ "js_position st"]) simp
next
  case (Cons p ps)
  let ?st = "st \<lparr> js_position := Some (node_row p) \<rparr>"
  have p: "node_row p \<in> node_row ` set P" using Cons.prems by simp
  obtain cs where "child_stream (join_log_env v pf cf) j (node_row p) ?st = Some (cs, ?st)"
    using staged_stream [OF ok cf ov p p, of ?st v pf] Cons.prems by auto
  then have n: "process_parent_node (join_log_env v pf cf) j p ?st = Some (Node (node_row p) (node_rels p @ [(jn_rel_slot j, cs)]), ?st)"
    by (simp add: process_parent_node_def)
  let ?e = "(Child (Node (node_row p) (node_rels p @ [(jn_rel_slot j, cs)])) (jn_rel_slot j) owned, Some ov, Some (node_row p))"
  obtain es q where "fan_out_parents (join_log_env v pf cf) j owned ps (?st \<lparr> js_log := js_log st @ [?e] \<rparr>) =
      Some (?st \<lparr> js_position := q, js_log := (js_log st @ [?e]) @ es \<rparr>)" "list_all2 (entry_for j owned ov) ps es"
    using Cons.IH [of "?st \<lparr> js_log := js_log st @ [?e] \<rparr>"] Cons.prems by auto
  moreover have "entry_for j owned ov p ?e" unfolding entry_for_def by (rule exI [of _ "Node (node_row p) (node_rels p @ [(jn_rel_slot j, cs)])"]) simp
  ultimately show ?case using n Cons.prems by (intro exI [of _ "?e # es"] exI [of _ q]) simp
qed

lemma served_iff:
  assumes "sorted_by (node_cmp s) M" "set M \<subseteq> node_dom ty s" "n \<in> set M" "i < length M"
  shows "node_row n \<in> node_row ` set (take (Suc i) M) \<longleftrightarrow> node_cmp s n (M ! i) \<noteq> Some Greater"
proof -
  obtain k where k: "k < length M" "n = M ! k" using assms(3) by (metis in_set_conv_nth)
  have taken: "x \<in> set (take (Suc i) M) \<longleftrightarrow> (\<exists>m\<le>i. x = M ! m)" for x
    using assms(4) unfolding nth_image [of "Suc i" M, OF Suc_leI [OF assms(4)], symmetric] by (auto simp: less_Suc_eq_le)
  have dom: "M ! m \<in> node_dom ty s" if "m < length M" for m using assms(2) that nth_mem by blast
  have less: "node_cmp s (M ! a) (M ! b) = Some Less" if "a < b" "b < length M" for a b
    using assms(1) that by (simp add: sorted_by_def sorted_wrt_iff_nth_less)
  have refl: "node_cmp s (M ! a) (M ! a) = Some Equal" if "a < length M" for a
    using node_order.cmp_refl [OF dom [OF that]] .
  show ?thesis
  proof (cases "k \<le> i")
    case True
    then have "n \<in> set (take (Suc i) M)" using k taken by blast
    moreover have "node_cmp s n (M ! i) \<noteq> Some Greater" using True k assms(4) less [of k i] refl [of i] by (cases "k = i") auto
    ultimately show ?thesis by blast
  next
    case False
    have no: "node_row (M ! m) \<noteq> node_row n" if "m \<le> i" for m
      using less [of m k] refl [of k] that False k by auto
    then have "node_row n \<notin> node_row ` set (take (Suc i) M)" using taken by (metis imageE)
    moreover have "node_cmp s n (M ! i) = Some Greater"
      using less [of i k] False k assms(4) node_order.cmp_gt_iff [OF dom dom, of k i] by auto
    ultimately show ?thesis by blast
  qed
qed

lemma distinct_rows_sorted:
  assumes "sorted_by (node_cmp s) P" "set P \<subseteq> node_dom ty s"
  shows "distinct (map node_row P)"
  using assms
proof (induction P)
  case (Cons n P)
  have "node_row m \<noteq> node_row n" if "m \<in> set P" for m
    using Cons.prems that node_order.cmp_refl [of m ty s] by auto
  then show ?case using Cons by force
qed simp

lemma served_stage:
  assumes ok: "child_step_ok tp tc j P C R c" and i: "i < length (hit_parents j P c)" and p: "p \<in> node_row ` set P"
  defines "M \<equiv> hit_parents j P c"
  shows "stage j P C R c (node_row ` set (take (Suc i) M)) p = Some (children_of j
    (if joins j p (primary_row c) \<and> compare_rows (jn_parent_sort j) p (node_row (M ! i)) = Some Greater then R else node_row ` set C) p)"
proof -
  have M: "sorted_by (node_cmp (jn_parent_sort j)) M" "set M \<subseteq> node_dom tp (jn_parent_sort j)"
    using ok unfolding M_def child_step_ok_def by (auto simp: sorted_by_filter)
  have "p \<in> node_row ` set (take (Suc i) M) \<longleftrightarrow> compare_rows (jn_parent_sort j) p (node_row (M ! i)) \<noteq> Some Greater" if "joins j p (primary_row c)"
  proof -
    obtain n where "n \<in> set P" "p = node_row n" using p by blast
    then have "n \<in> set M" using that by (simp add: M_def)
    from served_iff [OF M this] show ?thesis using i \<open>p = node_row n\<close> by (simp add: M_def)
  qed
  then have "(joins j p (primary_row c) \<and> p \<notin> node_row ` set (take (Suc i) M)) \<longleftrightarrow>
      (joins j p (primary_row c) \<and> compare_rows (jn_parent_sort j) p (node_row (M ! i)) = Some Greater)" by blast
  then show ?thesis using p by (simp only: stage_def if_True)
qed

lemma parents_of_child:
  assumes ok: "child_step_ok tp tc j P C R c" and pf: "keyed_input pf P"
  obtains k where "build_join_constraint (primary_row c) (jn_child_key j) (jn_parent_key j) = Some k"
    "k = None \<Longrightarrow> hit_parents j P c = []" "\<And>d. k = Some d \<Longrightarrow> pf (fetch_with_constraint d) = Some (hit_parents j P c)"
proof -
  have typed: "keys_typed j (node_row ` set P) (R \<union> node_row ` set C)" "primary_row c \<in> R \<union> node_row ` set C"
    using ok changed_row_known [OF ok] by (simp_all add: child_step_ok_def)
  then obtain k where k: "build_join_constraint (primary_row c) (jn_child_key j) (jn_parent_key j) = Some k"
    using build_join_constraint_ok [of "jn_child_key j" "primary_row c" "jn_parent_key j"] by (auto simp: keys_typed_def)
  have hop: "(k = None \<longrightarrow> \<not> joins j (node_row n) (primary_row c)) \<and>
      (\<forall>d. k = Some d \<longrightarrow> constraint_matches (node_row n) d = Some (joins j (node_row n) (primary_row c)))" if "n \<in> set P" for n
  proof -
    have "key_pairs_typed (primary_row c) (jn_child_key j) (node_row n) (jn_parent_key j)"
      using typed that key_pairs_typed_flip [of "primary_row c"] by (simp add: keys_typed_def)
    then show ?thesis by (rule join_hop) (use k in \<open>auto simp: joins_flip\<close>)
  qed
  show ?thesis
    by (rule that [OF k]) (use hop pf in \<open>auto simp: keyed_input_def filter_empty_conv intro!: filter_cong\<close>)
qed

lemma child_push_entries:
  assumes ok: "child_step_ok tp tc j P C R c" and cf: "keyed_input cf C" and pf: "keyed_input pf P"
    and ov: "for_child_change c = Some ov" and st: "js_overlay st = None" "js_position st = None"
  shows "\<exists>es. join_push (join_log_env v pf cf) j c JoinChild st = Some (st \<lparr> js_log := js_log st @ es \<rparr>) \<and>
    list_all2 (entry_for j (materialize_change_edit_old_row_only c) ov) (hit_parents j P c) es"
proof -
  have same: "join_push (join_log_env v pf cf) j c JoinChild st = push_child_change (join_log_env v pf cf) j c st"
    using ok by (auto simp: join_push_def key_guard_def child_step_ok_def split: change.split)
  have clear: "st \<lparr> js_log := l, js_overlay := None, js_position := None \<rparr> = st \<lparr> js_log := l \<rparr>" for l using st by simp
  obtain k where k: "build_join_constraint (primary_row c) (jn_child_key j) (jn_parent_key j) = Some k"
    "k = None \<Longrightarrow> hit_parents j P c = []" "\<And>d. k = Some d \<Longrightarrow> pf (fetch_with_constraint d) = Some (hit_parents j P c)"
    using parents_of_child [OF ok pf] by metis
  show ?thesis
  proof (cases k)
    case None
    then show ?thesis using k by (simp add: same push_child_change_def)
  next
    case (Some d)
    obtain es q where "fan_out_parents (join_log_env v pf cf) j (materialize_change_edit_old_row_only c) (hit_parents j P c) (st \<lparr> js_overlay := Some ov \<rparr>) =
        Some (st \<lparr> js_overlay := Some ov, js_position := q, js_log := js_log st @ es \<rparr>)"
      "list_all2 (entry_for j (materialize_change_edit_old_row_only c) ov) (hit_parents j P c) es"
      using fan_out_entries [OF ok cf ov, of "hit_parents j P c" "st \<lparr> js_overlay := Some ov \<rparr>" v pf "materialize_change_edit_old_row_only c"] by auto
    then show ?thesis using Some k ov clear by (intro exI [of _ es]) (simp add: same push_child_change_def)
  qed
qed

lemma child_push_moments:
  assumes ok: "child_step_ok tp tc j P C R c" and cf: "keyed_input cf C" and sub: "scans pf P"
    and ov: "for_child_change c = Some ov" and es: "list_all2 (entry_for j (materialize_change_edit_old_row_only c) ov) (hit_parents j P c) es"
    and i: "i < length es"
  shows "\<exists>V. deliver_changes (jn_rel_slot j) (map fst (take (Suc i) es)) (join_tree_of j (node_row ` set P) R) = Some V \<and>
    reads_tree v pf cf j (st \<lparr> js_overlay := fst (snd (es ! i)), js_position := snd (snd (es ! i)) \<rparr>) V"
proof -
  let ?M = "hit_parents j P c" and ?D = "node_row ` set (take (Suc i) (hit_parents j P c))"
  have len: "i < length ?M" using es i by (simp add: list_all2_lengthD)
  have P: "sorted_by (node_cmp (jn_parent_sort j)) P" "set P \<subseteq> node_dom tp (jn_parent_sort j)" using ok by (auto simp: child_step_ok_def)
  have rows: "distinct (map node_row ?M)" using distinct_rows_sorted [OF P] by (simp add: distinct_map_filter)
  have "deliver_changes (jn_rel_slot j) (map fst (take (Suc i) es)) (stage j P C R c {}) = Some (stage j P C R c ?D)"
    using deliver_stage [OF ok list_all2_takeI [OF es, of "Suc i"] set_take_subset, of "{}"] rows by (simp add: take_map [symmetric])
  moreover have "reads_tree v pf cf j (st \<lparr> js_overlay := fst (snd (es ! i)), js_position := snd (snd (es ! i)) \<rparr>) (stage j P C R c ?D)"
  proof (rule reads_treeI [OF sub])
    fix p assume p: "p \<in> node_row ` set P"
    have e: "snd (es ! i) = (Some ov, Some (node_row (?M ! i)))" using list_all2_nthD2 [OF es i] by (auto simp: entry_for_def)
    have q: "node_row (?M ! i) \<in> node_row ` set P" using nth_mem [OF len] by auto
    from staged_stream [OF ok cf ov p q, of "st \<lparr> js_overlay := Some ov, js_position := Some (node_row (?M ! i)) \<rparr>" v pf]
    show "\<exists>cs. child_stream (join_log_env v pf cf) j p (st \<lparr> js_overlay := fst (snd (es ! i)), js_position := snd (snd (es ! i)) \<rparr>) =
        Some (cs, st \<lparr> js_overlay := fst (snd (es ! i)), js_position := snd (snd (es ! i)) \<rparr>) \<and> stage j P C R c ?D p = Some (node_row ` set cs)"
      unfolding served_stage [OF ok len p] e by auto
  qed
  ultimately show ?thesis using stage_ends(1) [OF ok] by auto
qed

text \<open>(C10) While a change of a child is fanned out to its parents, a refetch through the join at any moment reads exactly the tree
  that the changes delivered so far make of the view: parents that were served show the relationship after the change,
  matching parents still to come show it as it was before. Every delivered change fits the view it meets, at the end the view is the join of the
  new inputs, and the join is back in its idle state, in which a fetch reads that same tree.\<close>

theorem join_child_push_consistent:
  assumes ok: "child_step_ok tp tc j P C R c" and inputs: "keyed_input cf C" "keyed_input pf P" "scans pf P"
    and idle: "js_overlay st = None" "js_position st = None"
  shows "\<exists>es. join_push (join_log_env v pf cf) j c JoinChild st = Some (st \<lparr> js_log := js_log st @ es \<rparr>) \<and>
    (\<forall>i<length es. \<exists>V. deliver_changes (jn_rel_slot j) (map fst (take (Suc i) es)) (join_tree_of j (node_row ` set P) R) = Some V \<and>
       reads_tree v pf cf j (st \<lparr> js_overlay := fst (snd (es ! i)), js_position := snd (snd (es ! i)) \<rparr>) V) \<and>
    deliver_changes (jn_rel_slot j) (map fst es) (join_tree_of j (node_row ` set P) R) = Some (join_tree_of j (node_row ` set P) (node_row ` set C)) \<and>
    reads_tree v pf cf j st (join_tree_of j (node_row ` set P) (node_row ` set C))"
proof -
  obtain ov where ov: "for_child_change c = Some ov" using ok by (auto simp: child_step_ok_def)
  obtain es where es: "join_push (join_log_env v pf cf) j c JoinChild st = Some (st \<lparr> js_log := js_log st @ es \<rparr>)"
    "list_all2 (entry_for j (materialize_change_edit_old_row_only c) ov) (hit_parents j P c) es"
    using child_push_entries [OF ok inputs(1,2) ov idle] by blast
  have "distinct (map node_row (hit_parents j P c))" using ok distinct_rows_sorted by (auto simp: child_step_ok_def distinct_map_filter)
  then have "deliver_changes (jn_rel_slot j) (map fst es) (join_tree_of j (node_row ` set P) R) = Some (join_tree_of j (node_row ` set P) (node_row ` set C))"
    using deliver_stage [OF ok es(2), of "{}"] stage_ends [OF ok] by simp
  moreover have "keys_typed j (node_row ` set P) (node_row ` set C)" "distinct (map node_row C)"
    using ok keys_typed_mono [OF _ order.refl] by (auto simp: child_step_ok_def)
  note idle_reads [OF this inputs(1,3) idle(1)]
  ultimately show ?thesis using es(1) child_push_moments [OF ok inputs(1,3) ov es(2)] by blast
qed

text \<open>An input that holds a list.\<close>

definition list_input :: "node list \<Rightarrow> fetch_request \<Rightarrow> node list option" where
  "list_input N req = Some (case req_constraint req of Some c \<Rightarrow> filter (\<lambda>n. constraint_matches (node_row n) c = Some True) N | None \<Rightarrow> N)"

lemma list_input_ok: "keyed_input (list_input N) N" "scans (list_input N) N"
  by (auto simp: keyed_input_def scans_def list_input_def fetch_with_constraint_def split: option.splits)

definition idle_join :: join_state where
  "idle_join = \<lparr> js_overlay = None, js_position = None, js_log = [], js_evicted = [], js_errors = [] \<rparr>"

definition sample_join :: join_op where
  "sample_join = \<lparr> jn_parent_key = [1], jn_child_key = [1], jn_rel_slot = 0, jn_parent_pk = [0], jn_parent_sort = [(0, True)],
     jn_child_pk = [0], jn_child_sort = [(0, True)] \<rparr>"

theorem join_child_push_consistent_witness:
  "\<exists>es. join_push (join_log_env True (list_input [leaf [IntV 1, IntV 7], leaf [IntV 2, IntV 7]]) (list_input [leaf [IntV 3, IntV 7], leaf [IntV 4, IntV 7]]))
      sample_join (Add (leaf [IntV 4, IntV 7])) JoinChild idle_join = Some (idle_join \<lparr> js_log := es \<rparr>) \<and>
    deliver_changes 0 (map fst es) (join_tree_of sample_join {[IntV 1, IntV 7], [IntV 2, IntV 7]} {[IntV 3, IntV 7]}) =
      Some (join_tree_of sample_join {[IntV 1, IntV 7], [IntV 2, IntV 7]} {[IntV 3, IntV 7], [IntV 4, IntV 7]})"
proof -
  have ok: "child_step_ok (\<lambda>_. KNum) (\<lambda>_. KNum) sample_join [leaf [IntV 1, IntV 7], leaf [IntV 2, IntV 7]]
    [leaf [IntV 3, IntV 7], leaf [IntV 4, IntV 7]] {[IntV 3, IntV 7]} (Add (leaf [IntV 4, IntV 7]))"
    unfolding child_step_ok_def sample_join_def leaf_def
    by (auto simp: child_rows_ok_def keys_typed_def key_pairs_typed_def row_ok_def row_col_def vec_get_def compare_cell_def cmp_of_def apply_dir_def exI [of _ KNum])
  show ?thesis
    using join_child_push_consistent [OF ok list_input_ok(1) list_input_ok(1) list_input_ok(2), of idle_join True]
    by (auto simp: idle_join_def sample_join_def leaf_def)
qed

section \<open>The parent port\<close>

lemma attached:
  assumes "keys_typed j P (node_row ` set C)" "distinct (map node_row C)" "keyed_input cf C" "node_row n \<in> P" "js_overlay st = None"
  shows "\<exists>n'. process_parent_node (join_log_env v pf cf) j n st = Some (n', st) \<and> node_row n' = node_row n \<and>
    slot_rows (jn_rel_slot j) n' = children_of j (node_row ` set C) (node_row n)"
  using plain_stream [OF assms, of v pf] by (auto simp: process_parent_node_def slot_rows_def)

text \<open>The child partition of a parent that left, when the parent key is the primary key of the parent.\<close>

definition evicted_partition :: "join_op \<Rightarrow> change \<Rightarrow> row_constraint list" where
  "evicted_partition j c = (case c of
       Remove n \<Rightarrow> if jn_parent_pk j = jn_parent_key j
         then (case build_join_constraint (node_row n) (jn_parent_key j) (jn_child_key j) of Some (Some k) \<Rightarrow> [k] | _ \<Rightarrow> []) else []
     | _ \<Rightarrow> [])"

lemma parent_push_entry:
  assumes typed: "keys_typed j Q (node_row ` set C)" "distinct (map node_row C)" and cf: "keyed_input cf C" and idle: "js_overlay st = None" "js_position st = None"
    and rows: "primary_row c \<in> Q" "\<And>n old. c = Edit n old \<Longrightarrow> node_row old \<in> Q \<and> row_equals_for_compound_key (node_row old) (node_row n) (jn_parent_key j) = Some True"
    and "rows_after c P = Some P'" "\<And>n rel ch. c = Child n rel ch \<Longrightarrow> rel \<noteq> jn_rel_slot j"
  shows "\<exists>e. join_push (join_log_env v pf cf) j c JoinParent st = Some (st \<lparr> js_log := js_log st @ [(e, None, None)], js_evicted := js_evicted st @ evicted_partition j c \<rparr>) \<and>
    deliver (jn_rel_slot j) e (join_tree_of j P (node_row ` set C)) = Some (join_tree_of j P' (node_row ` set C))"
proof -
  note attach = attached [OF typed cf _ idle(1), of _ v pf]
  show ?thesis
  proof (cases c)
    case (Add n)
    then obtain n' where "process_parent_node (join_log_env v pf cf) j n st = Some (n', st)" "node_row n' = node_row n"
      "slot_rows (jn_rel_slot j) n' = children_of j (node_row ` set C) (node_row n)" using attach [of n] rows(1) by auto
    then show ?thesis using Add assms(8) idle
      by (intro exI [of _ "Add n'"]) (auto simp: join_push_def evicted_partition_def join_tree_of_def fun_eq_iff split: if_splits)
  next
    case (Remove n)
    then obtain n' where n': "process_parent_node (join_log_env v pf cf) j n st = Some (n', st)" "node_row n' = node_row n" using attach [of n] rows(1) by auto
    have "\<exists>k. build_join_constraint (node_row n) (jn_parent_key j) (jn_child_key j) = Some k"
      using build_join_constraint_ok [of "jn_parent_key j" "node_row n" "jn_child_key j"] typed(1) rows(1) Remove by (auto simp: keys_typed_def)
    then show ?thesis using Remove n' assms(8) idle
      by (intro exI [of _ "Remove n'"]) (auto simp: join_push_def evicted_partition_def join_tree_of_def fun_eq_iff split: if_splits option.split)
  next
    case (Edit n old)
    obtain n' where n': "process_parent_node (join_log_env v pf cf) j n st = Some (n', st)" "node_row n' = node_row n"
      "slot_rows (jn_rel_slot j) n' = children_of j (node_row ` set C) (node_row n)" using attach [of n] rows(1) Edit by auto
    obtain o' where o': "process_parent_node (join_log_env v pf cf) j old st = Some (o', st)" "node_row o' = node_row old" using attach [of old] rows(2) [OF Edit] by auto
    show ?thesis using Edit n' o' rows(2) [OF Edit] assms(8) idle
      by (intro exI [of _ "Edit n' o'"]) (auto simp: join_push_def key_guard_def evicted_partition_def join_tree_of_def fun_eq_iff split: if_splits)
  next
    case (Child n rel ch)
    then obtain n' where "process_parent_node (join_log_env v pf cf) j n st = Some (n', st)" "node_row n' = node_row n" using attach [of n] rows(1) by auto
    then show ?thesis using Child assms(8,9) idle
      by (intro exI [of _ "Child n' rel ch"]) (auto simp: join_push_def evicted_partition_def join_tree_of_def split: if_splits)
  qed
qed

lemma evicted_partition_of:
  assumes "k \<in> set (evicted_partition j c)"
  shows "\<exists>n. c = Remove n \<and> jn_parent_pk j = jn_parent_key j \<and> build_join_constraint (node_row n) (jn_parent_key j) (jn_child_key j) = Some (Some k)"
proof (cases c)
  case (Remove n)
  have pk: "jn_parent_pk j = jn_parent_key j" 
    by (rule ccontr) (use assms Remove in \<open>simp add: evicted_partition_def\<close>)
  then have "k \<in> set (case build_join_constraint (node_row n) (jn_parent_key j) (jn_child_key j) of Some (Some k) \<Rightarrow> [k] | _ \<Rightarrow> [])"
    using assms Remove by (simp add: evicted_partition_def)
  then have "build_join_constraint (node_row n) (jn_parent_key j) (jn_child_key j) = Some (Some k)"
    by (cases "build_join_constraint (node_row n) (jn_parent_key j) (jn_child_key j)"; cases "the (build_join_constraint (node_row n) (jn_parent_key j) (jn_child_key j))") simp_all
  then show ?thesis using Remove pk by blast
qed (use assms in \<open>simp_all add: evicted_partition_def\<close>)

lemma shared_key_same_pk:
  assumes "keys_typed j P R" "p \<in> P" "q \<in> P" "r \<in> R" "joins j p r" "joins j q r"
  shows "same_pk p q (jn_parent_key j) = Some True"
proof -
  let ?ka = "jn_parent_key j" and ?kb = "jn_child_key j"
  have typed: "key_pairs_typed p ?ka r ?kb" "key_pairs_typed q ?ka r ?kb" using assms(1-4) by (auto simp: keys_typed_def)
  have "c < length p \<and> c < length q \<and> (\<exists>k. conforms k (p ! c) \<and> conforms k (q ! c)) \<and> cells_join (p ! c) (q ! c)" if c: "c \<in> set ?ka" for c
  proof -
    obtain i where i: "i < length ?ka" "?ka ! i = c" using c by (metis in_set_conv_nth)
    have l: "length ?ka = length ?kb" using assms(5) by (simp add: joins_def list_all2_lengthD)
    have j: "cells_join (p ! c) (r ! (?kb ! i))" "cells_join (q ! c) (r ! (?kb ! i))"
      using assms(5,6) i by (auto simp: joins_def list_all2_conv_all_nth)
    then have pq: "cells_join (p ! c) (q ! c)" using cells_join_sym cells_join_trans by blast
    obtain k k' where k: "conforms k (p ! c)" "conforms k (r ! (?kb ! i))" "conforms k' (q ! c)" "conforms k' (r ! (?kb ! i))"
      using list_all2_nthD [OF typed(1) [unfolded key_pairs_typed_def] i(1)] list_all2_nthD [OF typed(2) [unfolded key_pairs_typed_def] i(1)] i(2) by blast
    have "k = k'" using k j(1) cells_join_sym [of "p ! c"] by (cases "r ! (?kb ! i)") (auto simp: cells_join_def)
    moreover have "c < length p" "c < length q" using typed i l by (auto simp: key_pairs_typed_def list_all2_conv_all_nth)
    ultimately show ?thesis using k pq by blast
  qed
  moreover have "\<forall>c\<in>set ks. c < length p \<and> c < length q \<and> (\<exists>k. conforms k (p ! c) \<and> conforms k (q ! c)) \<and> cells_join (p ! c) (q ! c) \<Longrightarrow> same_pk p q ks = Some True" for ks
    by (induction ks) (auto simp: row_col_def values_equal_conforms)
  ultimately show ?thesis by blast
qed

text \<open>(C11) A change of a parent is sent on as one change that turns the view of the join over the old parents into the view over the new
  ones: an added or edited parent carries exactly its matching children. When the removed parent's key is its primary key, its child partition is
  evicted, and no child row of that partition belongs to a parent that stays.\<close>

theorem join_parent_push_consistent:
  assumes typed: "keys_typed j (P \<union> P') (node_row ` set C)" "distinct (map node_row C)" and cf: "keyed_input cf C"
    and idle: "js_overlay st = None" "js_position st = None" and step: "rows_after c P = Some P'"
    and edit: "\<And>n old. c = Edit n old \<Longrightarrow> row_equals_for_compound_key (node_row old) (node_row n) (jn_parent_key j) = Some True"
    and other: "\<And>n rel ch. c = Child n rel ch \<Longrightarrow> rel \<noteq> jn_rel_slot j"
    and keyed: "\<And>p q. p \<in> P \<Longrightarrow> q \<in> P \<Longrightarrow> same_pk p q (jn_parent_pk j) = Some (p = q)"
  shows "(\<exists>e. join_push (join_log_env v pf cf) j c JoinParent st =
        Some (st \<lparr> js_log := js_log st @ [(e, None, None)], js_evicted := js_evicted st @ evicted_partition j c \<rparr>) \<and>
      deliver (jn_rel_slot j) e (join_tree_of j P (node_row ` set C)) = Some (join_tree_of j P' (node_row ` set C))) \<and>
    (\<forall>k\<in>set (evicted_partition j c). \<forall>r\<in>node_row ` set C. \<forall>q\<in>P'. constraint_matches r k = Some True \<longrightarrow> \<not> joins j q r)"
proof -
  have rows: "primary_row c \<in> P \<union> P'" "\<And>n old. c = Edit n old \<Longrightarrow> node_row old \<in> P \<union> P'"
    using step by (cases c; force split: if_splits) (use step in \<open>auto split: if_splits\<close>)
  have "\<not> joins j q r" if k: "k \<in> set (evicted_partition j c)" "r \<in> node_row ` set C" "q \<in> P'" "constraint_matches r k = Some True" for k r q
  proof
    assume q: "joins j q r"
    obtain n where n: "c = Remove n" "jn_parent_pk j = jn_parent_key j" "build_join_constraint (node_row n) (jn_parent_key j) (jn_child_key j) = Some (Some k)"
      using evicted_partition_of [OF k(1)] by blast
    have "node_row n \<in> P" "P' = P - {node_row n}" using step n(1) by (auto split: if_splits)
    moreover have "key_pairs_typed (node_row n) (jn_parent_key j) r (jn_child_key j)" using typed(1) k(2) calculation(1) by (auto simp: keys_typed_def)
    then have "joins j (node_row n) r" by (rule join_hop) (use n(3) k(4) in \<open>auto simp: joins_def\<close>)
    ultimately show False using shared_key_same_pk [OF typed(1), of "node_row n" q r] keyed [of "node_row n" q] q k(2,3) n(2) by auto
  qed
  moreover have "\<exists>e. join_push (join_log_env v pf cf) j c JoinParent st =
        Some (st \<lparr> js_log := js_log st @ [(e, None, None)], js_evicted := js_evicted st @ evicted_partition j c \<rparr>) \<and>
      deliver (jn_rel_slot j) e (join_tree_of j P (node_row ` set C)) = Some (join_tree_of j P' (node_row ` set C))"
    by (rule parent_push_entry [OF typed cf idle rows(1) _ step]) (use rows(2) edit other in blast)+
  ultimately show ?thesis by blast
qed

theorem join_parent_push_consistent_witness:
  "\<exists>e. join_push (join_log_env True (list_input []) (list_input [leaf [IntV 3, IntV 7], leaf [IntV 4, IntV 1]])) (sample_join \<lparr> jn_parent_key := [0] \<rparr>)
      (Remove (leaf [IntV 1, IntV 7])) JoinParent idle_join = Some (idle_join \<lparr> js_log := [(e, None, None)], js_evicted := [[(1, IntV 1)]] \<rparr>) \<and>
    deliver 0 e (join_tree_of (sample_join \<lparr> jn_parent_key := [0] \<rparr>) {[IntV 1, IntV 7], [IntV 2, IntV 7]} {[IntV 3, IntV 7], [IntV 4, IntV 1]}) =
      Some (join_tree_of (sample_join \<lparr> jn_parent_key := [0] \<rparr>) {[IntV 2, IntV 7]} {[IntV 3, IntV 7], [IntV 4, IntV 1]})"
proof -
  have "(\<exists>e. join_push (join_log_env True (list_input []) (list_input [leaf [IntV 3, IntV 7], leaf [IntV 4, IntV 1]])) (sample_join \<lparr> jn_parent_key := [0] \<rparr>)
        (Remove (leaf [IntV 1, IntV 7])) JoinParent idle_join =
        Some (idle_join \<lparr> js_log := js_log idle_join @ [(e, None, None)], js_evicted := js_evicted idle_join @ evicted_partition (sample_join \<lparr> jn_parent_key := [0] \<rparr>) (Remove (leaf [IntV 1, IntV 7])) \<rparr>) \<and>
      deliver (jn_rel_slot (sample_join \<lparr> jn_parent_key := [0] \<rparr>)) e (join_tree_of (sample_join \<lparr> jn_parent_key := [0] \<rparr>) {[IntV 1, IntV 7], [IntV 2, IntV 7]} (node_row ` set [leaf [IntV 3, IntV 7], leaf [IntV 4, IntV 1]])) =
      Some (join_tree_of (sample_join \<lparr> jn_parent_key := [0] \<rparr>) {[IntV 2, IntV 7]} (node_row ` set [leaf [IntV 3, IntV 7], leaf [IntV 4, IntV 1]])))"
    by (rule join_parent_push_consistent [THEN conjunct1, OF _ _ list_input_ok(1)])
      (auto simp: idle_join_def sample_join_def leaf_def keys_typed_def key_pairs_typed_def row_col_def vec_get_def exI [of _ KNum])
  then show ?thesis by (simp add: idle_join_def sample_join_def leaf_def evicted_partition_def row_col_def vec_get_def)
qed

end
