(* ===== verification/Op_Union.thy ===== *)
theory Op_Union
  imports Op_Env Merge Schemas
begin

text \<open>
  The union fan (\<open>rust/src/op/union.rs\<close>) and the merge of sorted node streams below it (\<open>rust/src/op/merge.rs\<close>): a change of the
  source is broadcast to the branches of an \<open>OR\<close>, each branch pushes what it keeps into the fan-in, and the fan-in collapses
  what it has accumulated into at most one change. The fan-in's fetch merges the branch fetches and drops repeated rows.

  \<open>debug\<close> says whether \<open>debug_assert!\<close> is compiled in. The branches, the input and the output edge are callbacks of an
  environment over a state \<open>'s\<close> that holds the fan-in, since a branch pushes back into it during the broadcast.
\<close>

section \<open>Merging node streams\<close>

text \<open>A heap entry compares by its row and, on equal rows, by the stream it came from; the stream elements carry that index.\<close>

definition branch_cmp :: "sort \<Rightarrow> bool \<Rightarrow> nat \<times> node \<Rightarrow> nat \<times> node \<Rightarrow> ordering option" where
  "branch_cmp srt rev' a b = do {
     c \<leftarrow> compare_rows_rev srt rev' (node_row (snd a)) (node_row (snd b));
     Some (if c = Equal then cmp_of (fst a) (fst b) else c)
   }"

fun dedup_nodes :: "col_id list option \<Rightarrow> row option \<Rightarrow> node list \<Rightarrow> node list option" where
  "dedup_nodes dedup_pk last_pk [] = Some []"
| "dedup_nodes dedup_pk last_pk (n # ns) = do {
     dup \<leftarrow> (case dedup_pk of
         Some pk \<Rightarrow> (case last_pk of Some l \<Rightarrow> same_pk (node_row n) l pk | None \<Rightarrow> Some False)
       | None \<Rightarrow> Some False);
     if dup then dedup_nodes dedup_pk last_pk ns
     else map_option (Cons n) (dedup_nodes dedup_pk (if dedup_pk \<noteq> None then Some (node_row n) else last_pk) ns)
   }"

definition tagged :: "node list list \<Rightarrow> (nat \<times> node) list list" where
  "tagged streams = map (\<lambda>(i, st). map (Pair i) st) (enumerate 0 streams)"

definition merge_node_streams :: "node list list \<Rightarrow> sort \<Rightarrow> bool \<Rightarrow> col_id list option \<Rightarrow> node list option" where
  "merge_node_streams streams srt rev' dedup_pk = do {
     ys \<leftarrow> merge_drain (Suc (sum_list (map length streams))) (branch_cmp srt rev') \<lparr> m_streams = tagged streams, m_heap = [], m_primed = False \<rparr>;
     dedup_nodes dedup_pk None (map snd ys)
   }"

section \<open>Collapsing the accumulated changes\<close>

type_synonym node_slots = "(rel_id \<times> node list) list"

fun merge_owned_rels :: "node_slots \<Rightarrow> node_slots \<Rightarrow> node_slots" where
  "merge_owned_rels left [] = left"
| "merge_owned_rels left ((slot, children) # right) =
     merge_owned_rels (if list_ex (\<lambda>(s, _). s = slot) left then left else left @ [(slot, children)]) right"

definition merge_into_node :: "node \<Rightarrow> node \<Rightarrow> node" where
  "merge_into_node existing incoming = Node (node_row existing) (merge_owned_rels (node_rels existing) (node_rels incoming))"

fun merge_node_into :: "node option \<Rightarrow> node \<Rightarrow> node option" where
  "merge_node_into (Some existing) incoming = Some (merge_into_node existing incoming)"
| "merge_node_into None incoming = Some incoming"

fun merge_edit_into :: "(node \<times> node) option \<Rightarrow> node \<Rightarrow> node \<Rightarrow> (node \<times> node) option" where
  "merge_edit_into (Some (en, eo)) n old = Some (merge_into_node en n, merge_into_node eo old)"
| "merge_edit_into None n old = Some (n, old)"

fun merge_child_into :: "(node \<times> rel_id \<times> change) option \<Rightarrow> node \<times> rel_id \<times> change \<Rightarrow> (node \<times> rel_id \<times> change) option" where
  "merge_child_into (Some (existing, rel, sub)) (n, _, _) = Some (merge_into_node existing n, rel, sub)"
| "merge_child_into None incoming = Some incoming"

definition fill_slots :: "schema \<Rightarrow> node \<Rightarrow> node" where
  "fill_slots sch n = foldl (\<lambda>m i. if list_ex (\<lambda>(s, _). s = i) (node_rels m) then m else Node (node_row m) (node_rels m @ [(i, [])]))
     n [0..<length (sch_relationships sch)]"

fun add_empty_relationships :: "schema \<Rightarrow> change \<Rightarrow> change" where
  "add_empty_relationships sch (Add n) = (if sch_relationships sch = [] then Add n else Add (fill_slots sch n))"
| "add_empty_relationships sch (Remove n) = (if sch_relationships sch = [] then Remove n else Remove (fill_slots sch n))"
| "add_empty_relationships sch (Edit n old) = (if sch_relationships sch = [] then Edit n old else Edit (fill_slots sch n) (fill_slots sch old))"
| "add_empty_relationships sch (Child n rel c) = Child n rel c"

record accumulation =
  acc_add :: "node option"
  acc_remove :: "node option"
  acc_edit :: "(node \<times> node) option"
  acc_child :: "(node \<times> rel_id \<times> change) option"

definition no_changes :: accumulation where
  "no_changes = \<lparr> acc_add = None, acc_remove = None, acc_edit = None, acc_child = None \<rparr>"

fun accumulate_all :: "bool \<Rightarrow> change_type \<Rightarrow> change list \<Rightarrow> accumulation \<Rightarrow> accumulation option" where
  "accumulate_all debug ft [] a = Some a"
| "accumulate_all debug ft (Add n # cs) a =
     (if debug \<and> ft = TChild \<and> acc_add a \<noteq> None then None
      else accumulate_all debug ft cs (a \<lparr> acc_add := merge_node_into (acc_add a) n \<rparr>))"
| "accumulate_all debug ft (Remove n # cs) a =
     (if debug \<and> ft = TChild \<and> acc_remove a \<noteq> None then None
      else accumulate_all debug ft cs (a \<lparr> acc_remove := merge_node_into (acc_remove a) n \<rparr>))"
| "accumulate_all debug ft (Edit n old # cs) a = accumulate_all debug ft cs (a \<lparr> acc_edit := merge_edit_into (acc_edit a) n old \<rparr>)"
| "accumulate_all debug ft (Child n rel c # cs) a = accumulate_all debug ft cs (a \<lparr> acc_child := merge_child_into (acc_child a) (n, rel, c) \<rparr>)"

definition debug_check :: "bool \<Rightarrow> bool \<Rightarrow> unit option" where
  "debug_check debug ok = (if debug \<and> \<not> ok then None else Some ())"

definition count_some :: "accumulation \<Rightarrow> nat" where
  "count_some a = (if acc_add a \<noteq> None then 1 else 0) + (if acc_remove a \<noteq> None then 1 else 0) + (if acc_child a \<noteq> None then 1 else 0)"

definition edit_survivor :: "accumulation \<Rightarrow> change option" where
  "edit_survivor a = (case acc_edit a of
       Some (en, eo) \<Rightarrow>
         Some (Edit (case acc_add a of None \<Rightarrow> en | Some x \<Rightarrow> merge_into_node en x) (case acc_remove a of None \<Rightarrow> eo | Some x \<Rightarrow> merge_into_node eo x))
     | None \<Rightarrow> (case (acc_add a, acc_remove a) of
           (Some x, Some r) \<Rightarrow> Some (Edit x r)
         | (Some x, None) \<Rightarrow> Some (Add x)
         | (None, Some r) \<Rightarrow> Some (Remove r)
         | (None, None) \<Rightarrow> None))"

text \<open>The outer option of the result is a failed assertion.\<close>

definition push_accumulated_changes :: "bool \<Rightarrow> change list \<Rightarrow> change_type \<Rightarrow> schema \<Rightarrow> change option option" where
  "push_accumulated_changes debug acc ft sch =
     (if acc = [] then Some None
      else do {
        a \<leftarrow> accumulate_all debug ft acc no_changes;
        (case ft of
           TRemove \<Rightarrow> do {
             _ \<leftarrow> debug_check debug (acc_add a = None \<and> acc_edit a = None \<and> acc_child a = None);
             Some (map_option (\<lambda>r. add_empty_relationships sch (Remove r)) (acc_remove a))
           }
         | TAdd \<Rightarrow> do {
             _ \<leftarrow> debug_check debug (acc_remove a = None \<and> acc_edit a = None \<and> acc_child a = None);
             Some (map_option (\<lambda>x. add_empty_relationships sch (Add x)) (acc_add a))
           }
         | TEdit \<Rightarrow> do {
             _ \<leftarrow> debug_check debug (acc_child a = None);
             Some (map_option (add_empty_relationships sch) (edit_survivor a))
           }
         | TChild \<Rightarrow> do {
             _ \<leftarrow> debug_check debug (acc_edit a = None);
             _ \<leftarrow> debug_check debug (count_some a \<le> 2);
             (case acc_child a of
                Some (n, rel, c) \<Rightarrow> Some (Some (Child n rel c))
              | None \<Rightarrow> do {
                  _ \<leftarrow> debug_check debug (\<not> (acc_add a \<noteq> None \<and> acc_remove a \<noteq> None));
                  (case (acc_add a, acc_remove a) of
                     (Some x, _) \<Rightarrow> Some (Some (add_empty_relationships sch (Add x)))
                   | (None, Some r) \<Rightarrow> Some (Some (add_empty_relationships sch (Remove r)))
                   | (None, None) \<Rightarrow> Some None)
                })
           })
      })"

section \<open>The operators\<close>

record union_fan_in =
  uf_inputs :: nat
  uf_branch_constraints :: "row_constraint list"
  uf_schema :: schema
  uf_fan_out_push_started :: bool
  uf_accumulated :: "change list"

definition union_fan_in_new :: "nat \<Rightarrow> row_constraint list \<Rightarrow> schema \<Rightarrow> union_fan_in option" where
  "union_fan_in_new inputs bcs sch =
     (if sch_sort sch \<noteq> [] \<and> inputs = length bcs
      then Some \<lparr> uf_inputs = inputs, uf_branch_constraints = bcs, uf_schema = sch, uf_fan_out_push_started = False, uf_accumulated = [] \<rparr>
      else None)"

text \<open>\<open>u_branch_fetch\<close> and \<open>u_branch_push\<close> reach the branch tails and heads by number; \<open>u_out\<close> is the edge after the fan.\<close>

record 's union_env =
  u_input_fetch :: "fetch_request \<Rightarrow> 's \<Rightarrow> (node list \<times> 's) option"
  u_branch_fetch :: "nat \<Rightarrow> fetch_request \<Rightarrow> 's \<Rightarrow> (node list \<times> 's) option"
  u_branch_push :: "nat \<Rightarrow> change \<Rightarrow> 's \<Rightarrow> 's option"
  u_out :: "change \<Rightarrow> 's \<Rightarrow> 's option"
  u_fan_in :: "'s \<Rightarrow> union_fan_in"
  u_put_fan_in :: "union_fan_in \<Rightarrow> 's \<Rightarrow> 's"

definition fetch_branch :: "'s union_env \<Rightarrow> nat \<Rightarrow> row_constraint \<Rightarrow> fetch_request \<Rightarrow> 's \<Rightarrow> (node list \<times> 's) option" where
  "fetch_branch env i bc req s =
     (if bc = [] then u_branch_fetch env i req s
      else do {
        ok \<leftarrow> (case req_constraint req of None \<Rightarrow> Some True | Some c \<Rightarrow> constraints_are_compatible c bc);
        if \<not> ok then Some ([], s)
        else u_branch_fetch env i \<lparr> req_constraint = Some (merge_constraints (req_constraint req) bc),
          multi_constraints = multi_constraints req, req_start = req_start req, req_reverse = req_reverse req \<rparr> s
      })"

fun fetch_branches :: "'s union_env \<Rightarrow> nat \<Rightarrow> row_constraint list \<Rightarrow> fetch_request \<Rightarrow> 's \<Rightarrow> (node list list \<times> 's) option" where
  "fetch_branches env i [] req s = Some ([], s)"
| "fetch_branches env i (bc # bcs) req s = do {
     (ns, s1) \<leftarrow> fetch_branch env i bc req s;
     (nss, s2) \<leftarrow> fetch_branches env (Suc i) bcs req s1;
     Some (ns # nss, s2)
   }"

definition union_fetch :: "'s union_env \<Rightarrow> fetch_request \<Rightarrow> 's \<Rightarrow> (node list \<times> 's) option" where
  "union_fetch env req s = do {
     let uf = u_fan_in env s;
     (streams, s1) \<leftarrow> fetch_branches env 0 (uf_branch_constraints uf) req s;
     ns \<leftarrow> merge_node_streams streams (sch_sort (uf_schema uf)) (req_reverse req) (Some (sch_primary_key (uf_schema uf)));
     Some (ns, s1)
   }"

definition fan_out_started :: "bool \<Rightarrow> 's union_env \<Rightarrow> 's \<Rightarrow> 's option" where
  "fan_out_started debug env s = (let uf = u_fan_in env s in
     if uf_fan_out_push_started uf then None
     else if debug \<and> uf_accumulated uf \<noteq> [] then None
     else Some (u_put_fan_in env (uf \<lparr> uf_fan_out_push_started := True \<rparr>) s))"

fun count_branches :: "'s union_env \<Rightarrow> nat list \<Rightarrow> row_constraint \<Rightarrow> 's \<Rightarrow> (nat \<times> 's) option" where
  "count_branches env [] c s = Some (0, s)"
| "count_branches env (i # is) c s = do {
     (ns, s1) \<leftarrow> u_branch_fetch env i (fetch_with_constraint c) s;
     (k, s2) \<leftarrow> count_branches env is c s1;
     Some ((if ns \<noteq> [] then 1 else 0) + k, s2)
   }"

definition pk_constraint_of :: "row \<Rightarrow> col_id list \<Rightarrow> row_constraint option" where
  "pk_constraint_of r pk = those (map (\<lambda>c. map_option (Pair c) (row_col r c)) pk)"

definition push_internal_change :: "bool \<Rightarrow> 's union_env \<Rightarrow> change \<Rightarrow> 's \<Rightarrow> 's option" where
  "push_internal_change debug env change s = do {
     let uf = u_fan_in env s;
     _ \<leftarrow> debug_check debug (uf_inputs uf \<noteq> 0);
     (forward, s1) \<leftarrow> (case change of
         Child _ _ _ \<Rightarrow> Some (True, s)
       | Edit _ _ \<Rightarrow> Some (True, s)
       | Add n \<Rightarrow> do {
           c \<leftarrow> pk_constraint_of (node_row n) (sch_primary_key (uf_schema uf));
           (k, s1) \<leftarrow> count_branches env [0..<uf_inputs uf] c s;
           Some (k = 1, s1)
         }
       | Remove n \<Rightarrow> do {
           c \<leftarrow> pk_constraint_of (node_row n) (sch_primary_key (uf_schema uf));
           (k, s1) \<leftarrow> count_branches env [0..<uf_inputs uf] c s;
           Some (k = 0, s1)
         });
     if forward then u_out env change s1 else Some s1
   }"

definition union_fan_in_push :: "bool \<Rightarrow> 's union_env \<Rightarrow> change \<Rightarrow> 's \<Rightarrow> 's option" where
  "union_fan_in_push debug env change s = (let uf = u_fan_in env s in
     if uf_fan_out_push_started uf
     then Some (u_put_fan_in env (uf \<lparr> uf_accumulated := uf_accumulated uf @ [materialize_change_preserving_node change] \<rparr>) s)
     else push_internal_change debug env change s)"

definition fan_out_done :: "bool \<Rightarrow> 's union_env \<Rightarrow> change_type \<Rightarrow> 's \<Rightarrow> 's option" where
  "fan_out_done debug env ft s = do {
     let uf = u_fan_in env s;
     let s1 = u_put_fan_in env (uf \<lparr> uf_fan_out_push_started := False, uf_accumulated := [] \<rparr>) s;
     if uf_inputs uf = 0 then Some s1
     else do {
       collapsed \<leftarrow> push_accumulated_changes debug (uf_accumulated uf) ft (uf_schema uf);
       (case collapsed of None \<Rightarrow> Some s1 | Some c \<Rightarrow> u_out env c s1)
     }
   }"

fun broadcast :: "'s union_env \<Rightarrow> nat list \<Rightarrow> change \<Rightarrow> 's \<Rightarrow> 's option" where
  "broadcast env [] c s = Some s"
| "broadcast env (b # bs) c s = do { s1 \<leftarrow> u_branch_push env b c s; broadcast env bs c s1 }"

definition union_fan_out_push :: "bool \<Rightarrow> 's union_env \<Rightarrow> nat list \<Rightarrow> change \<Rightarrow> 's \<Rightarrow> 's option" where
  "union_fan_out_push debug env branches change s = do {
     s1 \<leftarrow> fan_out_started debug env s;
     s2 \<leftarrow> broadcast env branches (materialize_change_preserving_node change) s1;
     fan_out_done debug env (change_type_of change) s2
   }"

definition union_fan_out_fetch :: "'s union_env \<Rightarrow> fetch_request \<Rightarrow> 's \<Rightarrow> (node list \<times> 's) option" where
  "union_fan_out_fetch env req s = u_input_fetch env req s"

section \<open>What the collapse keeps\<close>

text \<open>The slots of several nodes, the first node that has a slot winning; and with empty slots added up to a number.\<close>

primrec first_slots :: "node list \<Rightarrow> rel_id \<Rightarrow> node list option" where
  "first_slots [] = Map.empty"
| "first_slots (n # ns) = first_slots ns ++ map_of (node_rels n)"

definition filled :: "nat \<Rightarrow> (rel_id \<Rightarrow> node list option) \<Rightarrow> rel_id \<Rightarrow> node list option" where
  "filled k m s = (case m s of Some v \<Rightarrow> Some v | None \<Rightarrow> if s < k then Some [] else None)"

lemma slot_taken: "list_ex (\<lambda>(s, _). s = k) l \<longleftrightarrow> map_of l k \<noteq> None"
  by (induction l) auto

lemma map_of_merge_rels: "map_of (merge_owned_rels l r) = map_of r ++ map_of l"
proof (induction l r rule: merge_owned_rels.induct)
  case (2 l slot ch r)
  then show ?case by (auto simp: slot_taken fun_eq_iff map_add_def split: option.split)
qed simp

lemma node_of_merge [simp]: "node_row (merge_into_node a b) = node_row a" "map_of (node_rels (merge_into_node a b)) = map_of (node_rels b) ++ map_of (node_rels a)"
  by (simp_all add: merge_into_node_def map_of_merge_rels)

lemma first_slots_append: "first_slots (ms @ ns) = first_slots ns ++ first_slots ms"
  by (induction ms) (simp_all add: map_add_assoc)

lemma merge_fold:
  "node_row (foldl merge_into_node n ns) = node_row n" "map_of (node_rels (foldl merge_into_node n ns)) = first_slots (n # ns)"
  by (induction ns arbitrary: n) (simp_all add: map_add_assoc)

lemma merge_node_fold: "foldl merge_node_into (Some n) ns = Some (foldl merge_into_node n ns)"
  by (induction ns arbitrary: n) simp_all

lemma fill_prefix:
  "node_row (foldl (\<lambda>m i. if list_ex (\<lambda>(s, _). s = i) (node_rels m) then m else Node (node_row m) (node_rels m @ [(i, [])])) n [0..<k]) = node_row n \<and>
   map_of (node_rels (foldl (\<lambda>m i. if list_ex (\<lambda>(s, _). s = i) (node_rels m) then m else Node (node_row m) (node_rels m @ [(i, [])])) n [0..<k])) =
     filled k (map_of (node_rels n))"
proof (induction k)
  case 0
  show ?case by (auto simp: filled_def fun_eq_iff split: option.split)
next
  case (Suc k)
  then show ?case by (auto simp: slot_taken filled_def fun_eq_iff map_add_def less_Suc_eq split: option.splits if_splits)
qed

lemma fill_slots_node [simp]:
  "node_row (fill_slots sch n) = node_row n" "map_of (node_rels (fill_slots sch n)) = filled (length (sch_relationships sch)) (map_of (node_rels n))"
  unfolding fill_slots_def using fill_prefix by blast+

section \<open>Branches that filter and decorate\<close>

text \<open>A branch keeps the rows of a predicate and attaches relationships to their nodes. What it pushes for a change is the change
  as it is seen through the predicate.\<close>

type_synonym branch = "(row \<Rightarrow> bool) \<times> (node \<Rightarrow> node)"

abbreviation keeps :: "branch \<Rightarrow> node \<Rightarrow> bool" where
  "keeps b n \<equiv> fst b (node_row n)"

fun branch_out :: "branch \<Rightarrow> change \<Rightarrow> change option" where
  "branch_out b (Add n) = (if keeps b n then Some (Add (snd b n)) else None)"
| "branch_out b (Remove n) = (if keeps b n then Some (Remove (snd b n)) else None)"
| "branch_out b (Edit n old) =
     (if keeps b old \<and> keeps b n then Some (Edit (snd b n) (snd b old))
      else if keeps b old then Some (Remove (snd b old))
      else if keeps b n then Some (Add (snd b n))
      else None)"
| "branch_out b (Child n rel c) = (if keeps b n then Some (Child (snd b n) rel c) else None)"

definition kept_nodes :: "branch list \<Rightarrow> node \<Rightarrow> node list" where
  "kept_nodes bs n = map (\<lambda>b. snd b n) (filter (\<lambda>b. keeps b n) bs)"

definition gathers :: "nat \<Rightarrow> branch list \<Rightarrow> node \<Rightarrow> node \<Rightarrow> bool" where
  "gathers k bs n m \<longleftrightarrow> node_row m = node_row n \<and>
     (\<exists>ns. mset ns = mset (kept_nodes bs n) \<and> map_of (node_rels m) = filled k (first_slots ns))"

text \<open>The change through the disjunction of the predicates.\<close>

fun or_emits :: "nat \<Rightarrow> branch list \<Rightarrow> change \<Rightarrow> change list \<Rightarrow> bool" where
  "or_emits k bs (Add n) es \<longleftrightarrow> (if \<exists>b\<in>set bs. keeps b n then \<exists>m. es = [Add m] \<and> gathers k bs n m else es = [])"
| "or_emits k bs (Remove n) es \<longleftrightarrow> (if \<exists>b\<in>set bs. keeps b n then \<exists>m. es = [Remove m] \<and> gathers k bs n m else es = [])"
| "or_emits k bs (Edit n old) es \<longleftrightarrow>
     (if (\<exists>b\<in>set bs. keeps b n) \<and> (\<exists>b\<in>set bs. keeps b old) then \<exists>m m'. es = [Edit m m'] \<and> gathers k bs n m \<and> gathers k bs old m'
      else if \<exists>b\<in>set bs. keeps b n then \<exists>m. es = [Add m] \<and> gathers k bs n m
      else if \<exists>b\<in>set bs. keeps b old then \<exists>m. es = [Remove m] \<and> gathers k bs old m
      else es = [])"
| "or_emits k bs (Child n rel c) es \<longleftrightarrow> (if \<exists>b\<in>set bs. keeps b n then \<exists>m. es = [Child m rel (materialize_change c)] \<and> gathers 0 bs n m else es = [])"

fun added :: "change \<Rightarrow> node option" where
  "added (Add n) = Some n" | "added _ = None"

fun removed :: "change \<Rightarrow> node option" where
  "removed (Remove n) = Some n" | "removed _ = None"

fun edited :: "change \<Rightarrow> (node \<times> node) option" where
  "edited (Edit n old) = Some (n, old)" | "edited _ = None"

abbreviation merged :: "node list \<Rightarrow> node option" where
  "merged ns \<equiv> foldl merge_node_into None ns"

abbreviation merged_edits :: "(node \<times> node) option \<Rightarrow> (node \<times> node) list \<Rightarrow> (node \<times> node) option" where
  "merged_edits e es \<equiv> foldl (\<lambda>e (n, old). merge_edit_into e n old) e es"

lemma accumulate_plain:
  assumes "ft \<noteq> TChild" "\<forall>c\<in>set cs. change_type_of c \<noteq> TChild"
  shows "accumulate_all debug ft cs a = Some (a \<lparr> acc_add := foldl merge_node_into (acc_add a) (List.map_filter added cs),
    acc_remove := foldl merge_node_into (acc_remove a) (List.map_filter removed cs), acc_edit := merged_edits (acc_edit a) (List.map_filter edited cs) \<rparr>)"
  using assms(2)
proof (induction cs arbitrary: a)
  case (Cons c cs)
  then show ?case using assms(1) by (cases c) (simp_all add: List.map_filter_simps)
qed (simp add: List.map_filter_simps)

lemma merged_gathers:
  assumes "ns \<noteq> []" "\<forall>n\<in>set ns. node_row n = r"
  shows "\<exists>m. merged ns = Some m \<and> node_row m = r \<and> map_of (node_rels m) = first_slots ns"
proof (cases ns)
  case (Cons n ns')
  then show ?thesis using merge_fold [of n ns'] assms(2) by (simp add: merge_node_fold)
qed (use assms in simp)

lemma merged_edits_fold:
  "merged_edits (Some (n, old)) es = Some (foldl merge_into_node n (map fst es), foldl merge_into_node old (map snd es))"
  by (induction es arbitrary: n old) auto

lemma filled_id: "filled 0 m = m"
  by (auto simp: filled_def fun_eq_iff split: option.split)

text \<open>The survivor with empty slots added.\<close>

lemma add_empty:
  "\<exists>m'. add_empty_relationships sch (Add m) = Add m' \<and> node_row m' = node_row m \<and> map_of (node_rels m') = filled (length (sch_relationships sch)) (map_of (node_rels m))"
  "\<exists>m'. add_empty_relationships sch (Remove m) = Remove m' \<and> node_row m' = node_row m \<and> map_of (node_rels m') = filled (length (sch_relationships sch)) (map_of (node_rels m))"
  "\<exists>m' o''. add_empty_relationships sch (Edit m o') = Edit m' o'' \<and>
     (node_row m' = node_row m \<and> map_of (node_rels m') = filled (length (sch_relationships sch)) (map_of (node_rels m))) \<and>
     node_row o'' = node_row o' \<and> map_of (node_rels o'') = filled (length (sch_relationships sch)) (map_of (node_rels o'))"
  by (cases "sch_relationships sch"; simp add: filled_id)+

text \<open>What the branches push, by the type of the change.\<close>

definition both_kept :: "branch list \<Rightarrow> node \<Rightarrow> node \<Rightarrow> node list" where
  "both_kept bs n old = map (\<lambda>b. snd b n) (filter (\<lambda>b. keeps b n \<and> keeps b old) bs)"

definition only_kept :: "branch list \<Rightarrow> node \<Rightarrow> node \<Rightarrow> node list" where
  "only_kept bs n old = map (\<lambda>b. snd b n) (filter (\<lambda>b. keeps b n \<and> \<not> keeps b old) bs)"

lemma outs_plain:
  "List.map_filter (\<lambda>b. branch_out b (Add n)) bs = map Add (kept_nodes bs n)"
  "List.map_filter (\<lambda>b. branch_out b (Remove n)) bs = map Remove (kept_nodes bs n)"
  "List.map_filter (\<lambda>b. branch_out b (Child n rel c)) bs = map (\<lambda>m. Child m rel c) (kept_nodes bs n)"
  by (induction bs) (simp_all add: kept_nodes_def List.map_filter_simps)

abbreviation edit_outs :: "branch list \<Rightarrow> node \<Rightarrow> node \<Rightarrow> change list" where
  "edit_outs bs n old \<equiv> List.map_filter (\<lambda>b. branch_out b (Edit n old)) bs"

lemma outs_edit:
  "List.map_filter added (edit_outs bs n old) = only_kept bs n old" "List.map_filter removed (edit_outs bs n old) = only_kept bs old n"
  "map fst (List.map_filter edited (edit_outs bs n old)) = both_kept bs n old" "map snd (List.map_filter edited (edit_outs bs n old)) = both_kept bs old n"
  "\<forall>c\<in>set (edit_outs bs n old). change_type_of c \<noteq> TChild"
  by (induction bs) (auto simp: only_kept_def both_kept_def List.map_filter_simps)

lemma kept_split: "mset (both_kept bs n old @ only_kept bs n old) = mset (kept_nodes bs n)"
  by (induction bs) (auto simp: both_kept_def only_kept_def kept_nodes_def)

lemma select_plain:
  "List.map_filter added (map Add ns) = ns" "List.map_filter removed (map Add ns) = []" "List.map_filter edited (map Add ns) = []"
  "List.map_filter added (map Remove ns) = []" "List.map_filter removed (map Remove ns) = ns" "List.map_filter edited (map Remove ns) = []"
  by (induction ns) (simp_all add: List.map_filter_simps)

lemma accumulate_children:
  "accumulate_all debug TChild (map (\<lambda>m. Child m rel c) ns) a =
     Some (a \<lparr> acc_child := foldl merge_child_into (acc_child a) (map (\<lambda>m. (m, rel, c)) ns) \<rparr>)"
  by (induction ns arbitrary: a) simp_all

lemma child_fold: "foldl merge_child_into (Some (n, rel, c)) (map (\<lambda>m. (m, rel, c)) ns) = Some (foldl merge_into_node n ns, rel, c)"
  by (induction ns arbitrary: n) simp_all

lemma kept_rows: "\<forall>b\<in>set bs. \<forall>n. node_row (snd b n) = node_row n \<Longrightarrow> \<forall>m\<in>set (kept_nodes bs n). node_row m = node_row n"
  by (auto simp: kept_nodes_def)

lemma kept_nonempty: "(\<exists>b\<in>set bs. keeps b n) \<longleftrightarrow> kept_nodes bs n \<noteq> []"
  by (auto simp: kept_nodes_def filter_empty_conv)

lemma gathersI: "node_row m = node_row n \<Longrightarrow> mset ns = mset (kept_nodes bs n) \<Longrightarrow> map_of (node_rels m) = filled k (first_slots ns) \<Longrightarrow> gathers k bs n m"
  unfolding gathers_def by blast

lemma merged_kept:
  assumes "\<forall>b\<in>set bs. \<forall>n. node_row (snd b n) = node_row n" "kept_nodes bs n \<noteq> []"
  obtains m where "merged (kept_nodes bs n) = Some m"
    "\<And>m'. node_row m' = node_row m \<and> map_of (node_rels m') = filled k (map_of (node_rels m)) \<Longrightarrow> gathers k bs n m'"
  using merged_gathers [OF assms(2) kept_rows [OF assms(1)]] by (metis gathersI)

lemma collapse_plain:
  assumes "\<forall>b\<in>set bs. \<forall>n. node_row (snd b n) = node_row n"
  shows "\<exists>out. push_accumulated_changes debug (map Add (kept_nodes bs n)) TAdd sch = Some out \<and>
      or_emits (length (sch_relationships sch)) bs (Add n) (case out of None \<Rightarrow> [] | Some e \<Rightarrow> [e])" (is ?add)
    and "\<exists>out. push_accumulated_changes debug (map Remove (kept_nodes bs n)) TRemove sch = Some out \<and>
      or_emits (length (sch_relationships sch)) bs (Remove n) (case out of None \<Rightarrow> [] | Some e \<Rightarrow> [e])" (is ?remove)
proof -
  let ?k = "length (sch_relationships sch)"
  have "?add \<and> ?remove"
  proof (cases "kept_nodes bs n = []")
    case True
    then show ?thesis using kept_nonempty [of bs n] by (auto simp: push_accumulated_changes_def)
  next
    case False
    obtain m where m: "merged (kept_nodes bs n) = Some m"
      "\<And>m'. node_row m' = node_row m \<and> map_of (node_rels m') = filled ?k (map_of (node_rels m)) \<Longrightarrow> gathers ?k bs n m'"
      using merged_kept [OF assms False] by blast
    obtain a r where "add_empty_relationships sch (Add m) = Add a" "add_empty_relationships sch (Remove m) = Remove r" "gathers ?k bs n a" "gathers ?k bs n r"
      using add_empty(1,2) [of sch m] m(2) by blast
    then show ?thesis using m(1) False kept_nonempty [of bs n]
      by (simp add: push_accumulated_changes_def accumulate_plain select_plain no_changes_def debug_check_def)
  qed
  then show ?add ?remove by simp_all
qed

lemma collapse_child:
  assumes "\<forall>b\<in>set bs. \<forall>n. node_row (snd b n) = node_row n"
  shows "\<exists>out. push_accumulated_changes debug (map (\<lambda>m. Child m rel (materialize_change c)) (kept_nodes bs n)) TChild sch = Some out \<and>
    or_emits k bs (Child n rel c) (case out of None \<Rightarrow> [] | Some e \<Rightarrow> [e])"
proof (cases "kept_nodes bs n")
  case Nil
  then show ?thesis using kept_nonempty [of bs n] by (auto simp: push_accumulated_changes_def)
next
  case (Cons m ns)
  have "gathers 0 bs n (foldl merge_into_node m ns)"
    by (rule gathersI [of _ _ "kept_nodes bs n"]) (use kept_rows [OF assms] Cons in \<open>simp_all add: merge_fold filled_id\<close>)
  then show ?thesis using Cons kept_nonempty [of bs n] child_fold [of m rel "materialize_change c" ns]
      accumulate_children [of debug rel "materialize_change c" "m # ns" no_changes]
    by (simp add: push_accumulated_changes_def no_changes_def debug_check_def count_some_def)
qed

text \<open>One side of an edit: the nodes of the branches that keep both rows, then those of the branches that keep this row only.\<close>

definition side_node :: "branch list \<Rightarrow> node \<Rightarrow> node \<Rightarrow> node" where
  "side_node bs n old = (case both_kept bs n old of
       [] \<Rightarrow> the (merged (only_kept bs n old))
     | m # ms \<Rightarrow> (case merged (only_kept bs n old) of None \<Rightarrow> foldl merge_into_node m ms | Some x \<Rightarrow> merge_into_node (foldl merge_into_node m ms) x))"

lemma merged_Nil_iff: "merged ns = None \<longleftrightarrow> ns = []"
  by (cases ns) (simp_all add: merge_node_fold)

lemma side_gathers:
  assumes "\<forall>b\<in>set bs. \<forall>n. node_row (snd b n) = node_row n" "\<exists>b\<in>set bs. keeps b n"
    and "node_row m = node_row (side_node bs n old)" "map_of (node_rels m) = filled k (map_of (node_rels (side_node bs n old)))"
  shows "gathers k bs n m"
proof -
  let ?E = "both_kept bs n old" and ?A = "only_kept bs n old"
  have rows: "\<forall>x\<in>set (?E @ ?A). node_row x = node_row n" using assms(1) by (auto simp: both_kept_def only_kept_def)
  have ne: "?E @ ?A \<noteq> []" using assms(2) by (auto simp: both_kept_def only_kept_def filter_empty_conv)
  have "node_row (side_node bs n old) = node_row n \<and> map_of (node_rels (side_node bs n old)) = first_slots (?E @ ?A)"
  proof (cases ?E)
    case Nil
    then show ?thesis using merged_gathers [of ?A "node_row n"] rows ne by (auto simp: side_node_def)
  next
    case (Cons e es)
    show ?thesis
    proof (cases "?A = []")
      case True
      then show ?thesis using Cons rows by (simp add: side_node_def merge_fold)
    next
      case False
      then obtain x where "merged ?A = Some x" "map_of (node_rels x) = first_slots ?A" using merged_gathers [of ?A "node_row n"] rows by auto
      then show ?thesis using Cons rows by (simp add: side_node_def merge_fold first_slots_append map_add_assoc)
    qed
  qed
  then show ?thesis using assms(3,4) kept_split [of bs n old] by (intro gathersI [of _ _ "?E @ ?A"]) simp_all
qed

lemma collapse_edit:
  assumes "\<forall>b\<in>set bs. \<forall>n. node_row (snd b n) = node_row n"
  shows "\<exists>out. push_accumulated_changes debug (edit_outs bs n old) TEdit sch = Some out \<and>
    or_emits (length (sch_relationships sch)) bs (Edit n old) (case out of None \<Rightarrow> [] | Some e \<Rightarrow> [e])"
proof -
  let ?k = "length (sch_relationships sch)" and ?outs = "edit_outs bs n old"
  let ?E = "both_kept bs n old" and ?A = "only_kept bs n old" and ?F = "both_kept bs old n" and ?R = "only_kept bs old n"
  define a where "a = \<lparr> acc_add = merged ?A, acc_remove = merged ?R, acc_edit = merged_edits None (List.map_filter edited ?outs), acc_child = None \<rparr>"
  have acc: "accumulate_all debug TEdit ?outs no_changes = Some a"
    using accumulate_plain [of TEdit ?outs debug no_changes] outs_edit(1,2,5) [where bs = bs and n = n and old = old] by (simp add: no_changes_def a_def)
  have kn: "(\<exists>b\<in>set bs. keeps b n) \<longleftrightarrow> ?E \<noteq> [] \<or> ?A \<noteq> []" by (auto simp: both_kept_def only_kept_def filter_empty_conv)
  have ko: "(\<exists>b\<in>set bs. keeps b old) \<longleftrightarrow> ?E \<noteq> [] \<or> ?R \<noteq> []" by (auto simp: both_kept_def only_kept_def filter_empty_conv)
  have EF: "?E = [] \<longleftrightarrow> ?F = []" by (auto simp: both_kept_def filter_empty_conv)
  have outs: "?outs = [] \<longleftrightarrow> ?E = [] \<and> ?A = [] \<and> ?R = []"
    using kn ko by (auto simp: map_filter_def filter_empty_conv split: if_splits)
  let ?N = "side_node bs n old" and ?O = "side_node bs old n"
  have sv: "edit_survivor a = (if (\<exists>b\<in>set bs. keeps b n) \<and> (\<exists>b\<in>set bs. keeps b old) then Some (Edit ?N ?O)
      else if \<exists>b\<in>set bs. keeps b n then Some (Add ?N) else if \<exists>b\<in>set bs. keeps b old then Some (Remove ?O) else None)"
  proof (cases "List.map_filter edited ?outs")
    case Nil
    then have "?E = []" "?F = []" using outs_edit(3,4) [where bs = bs and n = n and old = old] by simp_all
    then show ?thesis using Nil merged_Nil_iff [of ?A] merged_Nil_iff [of ?R] unfolding kn ko
      by (cases "merged ?A"; cases "merged ?R") (auto simp: edit_survivor_def a_def side_node_def)
  next
    case (Cons e es)
    obtain en eo where e: "e = (en, eo)" by (cases e)
    have "?E = en # map fst es" "?F = eo # map snd es" using outs_edit(3,4) [where bs = bs and n = n and old = old] Cons e by simp_all
    then show ?thesis unfolding kn ko using Cons e by (simp add: edit_survivor_def a_def merged_edits_fold side_node_def)
  qed
  have push: "push_accumulated_changes debug ?outs TEdit sch = Some (map_option (add_empty_relationships sch) (edit_survivor a))"
    using acc outs sv kn ko by (auto simp: push_accumulated_changes_def debug_check_def a_def)
  note gn = side_gathers [OF assms, of n _ old ?k] and go = side_gathers [OF assms, of old _ n ?k]
  show ?thesis unfolding push sv
    using add_empty(1) [of sch ?N] add_empty(2) [of sch ?O] add_empty(3) [of sch ?N ?O] gn go
    by (cases "\<exists>b\<in>set bs. keeps b n"; cases "\<exists>b\<in>set bs. keeps b old"; fastforce)
qed

section \<open>The fan around filtering branches\<close>

record union_state =
  us_fan :: union_fan_in
  us_log :: "change list"

definition base_env :: "union_state union_env" where
  "base_env = \<lparr> u_input_fetch = (\<lambda>_ _. None), u_branch_fetch = (\<lambda>_ _ _. None), u_branch_push = (\<lambda>_ _ _. None),
     u_out = (\<lambda>c s. Some (s \<lparr> us_log := us_log s @ [c] \<rparr>)), u_fan_in = us_fan, u_put_fan_in = (\<lambda>f s. s \<lparr> us_fan := f \<rparr>) \<rparr>"

definition fan_env :: "bool \<Rightarrow> branch list \<Rightarrow> (nat \<Rightarrow> fetch_request \<Rightarrow> node list option) \<Rightarrow> union_state union_env" where
  "fan_env debug bs F = base_env \<lparr>
     u_branch_push := (\<lambda>i c s. case branch_out (bs ! i) c of None \<Rightarrow> Some s | Some c' \<Rightarrow> union_fan_in_push debug base_env c' s),
     u_branch_fetch := (\<lambda>i req s. map_option (\<lambda>ns. (ns, s)) (F i req)) \<rparr>"

lemma fan_env_simps [simp]:
  "u_branch_push (fan_env debug bs F) i c s = (case branch_out (bs ! i) c of None \<Rightarrow> Some s | Some c' \<Rightarrow> union_fan_in_push debug base_env c' s)"
  "u_branch_fetch (fan_env debug bs F) i req s = map_option (\<lambda>ns. (ns, s)) (F i req)"
  "u_out (fan_env debug bs F) c s = Some (s \<lparr> us_log := us_log s @ [c] \<rparr>)" "u_fan_in (fan_env debug bs F) s = us_fan s"
  "u_put_fan_in (fan_env debug bs F) f s = s \<lparr> us_fan := f \<rparr>" "u_fan_in base_env s = us_fan s" "u_put_fan_in base_env f s = s \<lparr> us_fan := f \<rparr>"
  by (simp_all add: fan_env_def base_env_def)

lemma materialize_twice: "materialize_change (materialize_change c) = materialize_change c"
  by (induction c) simp_all

lemma branch_out_owned:
  "branch_out b (materialize_change_preserving_node c) = Some c' \<Longrightarrow> materialize_change_preserving_node c' = c'"
  by (cases c) (auto simp: materialize_twice split: if_splits)

lemma broadcast_accumulates:
  assumes "uf_fan_out_push_started (us_fan s)" "set is \<subseteq> {..<length bs}"
  shows "broadcast (fan_env debug bs F) is (materialize_change_preserving_node c) s =
    Some (s \<lparr> us_fan := us_fan s \<lparr> uf_accumulated := uf_accumulated (us_fan s) @
      List.map_filter (\<lambda>i. branch_out (bs ! i) (materialize_change_preserving_node c)) is \<rparr> \<rparr>)"
  using assms
proof (induction "is" arbitrary: s)
  case (Cons i "is")
  then show ?case
    by (cases "branch_out (bs ! i) (materialize_change_preserving_node c)")
      (simp_all add: List.map_filter_simps union_fan_in_push_def branch_out_owned Let_def)
qed (simp add: List.map_filter_simps)

lemma map_filter_of_map: "List.map_filter f (map g xs) = List.map_filter (\<lambda>x. f (g x)) xs"
  by (induction xs) (simp_all add: List.map_filter_simps split: option.split)

lemma map_filter_nth: "List.map_filter (\<lambda>i. f (xs ! i)) [0..<length xs] = List.map_filter f xs"
  using map_filter_of_map [of f "(!) xs" "[0..<length xs]"] by (simp add: map_nth)

lemma collapse_or:
  assumes "\<forall>b\<in>set bs. \<forall>n. node_row (snd b n) = node_row n"
  shows "\<exists>out. push_accumulated_changes debug (List.map_filter (\<lambda>b. branch_out b (materialize_change_preserving_node c)) bs) (change_type_of c) sch = Some out \<and>
    or_emits (length (sch_relationships sch)) bs c (case out of None \<Rightarrow> [] | Some e \<Rightarrow> [e])"
proof (cases c)
  case (Add n)
  show ?thesis using collapse_plain(1) [OF assms] unfolding Add by (simp only: outs_plain materialize_change_preserving_node.simps materialize_change.simps change_type_of.simps)
next
  case (Remove n)
  show ?thesis using collapse_plain(2) [OF assms] unfolding Remove by (simp only: outs_plain materialize_change_preserving_node.simps materialize_change.simps change_type_of.simps)
next
  case (Edit n old)
  show ?thesis using collapse_edit [OF assms] unfolding Edit by (simp only: materialize_change_preserving_node.simps materialize_change.simps change_type_of.simps)
next
  case (Child n rel c')
  show ?thesis using collapse_child [OF assms] unfolding Child by (simp only: outs_plain materialize_change_preserving_node.simps change_type_of.simps)
qed

text \<open>(C24) The union fan computes the disjunction of its branches. When every branch filters by a predicate and attaches
  relationships of its own, a change broadcast through an idle fan leaves it idle and is forwarded exactly as the disjunction
  of the predicates sees it: at most one change, an edit splitting into an addition or a removal only when it enters or
  leaves the disjunction, with the relationships of all branches that keep the row and an empty slot for every other one.\<close>

theorem union_push_or:
  assumes "\<forall>b\<in>set bs. \<forall>n. node_row (snd b n) = node_row n"
    and "\<not> uf_fan_out_push_started (us_fan s)" "uf_accumulated (us_fan s) = []" "uf_inputs (us_fan s) = length bs"
  shows "\<exists>es. union_fan_out_push debug (fan_env debug bs F) [0..<length bs] c s = Some (s \<lparr> us_log := us_log s @ es \<rparr>) \<and>
    or_emits (length (sch_relationships (uf_schema (us_fan s)))) bs c es"
proof -
  let ?fan = "us_fan s" and ?outs = "List.map_filter (\<lambda>b. branch_out b (materialize_change_preserving_node c)) bs"
  have s1: "fan_out_started debug (fan_env debug bs F) s = Some (s \<lparr> us_fan := ?fan \<lparr> uf_fan_out_push_started := True \<rparr> \<rparr>)"
    using assms(2,3) by (simp add: fan_out_started_def Let_def)
  have s2: "broadcast (fan_env debug bs F) [0..<length bs] (materialize_change_preserving_node c) (s \<lparr> us_fan := ?fan \<lparr> uf_fan_out_push_started := True \<rparr> \<rparr>) =
      Some (s \<lparr> us_fan := ?fan \<lparr> uf_fan_out_push_started := True, uf_accumulated := ?outs \<rparr> \<rparr>)"
    by (subst broadcast_accumulates) (auto simp: assms(3) map_filter_nth [of "\<lambda>b. branch_out b (materialize_change_preserving_node c)"])
  have idle: "?fan \<lparr> uf_fan_out_push_started := False, uf_accumulated := [] \<rparr> = ?fan" "s \<lparr> us_fan := ?fan \<rparr> = s" using assms(2,3) by simp_all
  obtain out where out: "push_accumulated_changes debug ?outs (change_type_of c) (uf_schema ?fan) = Some out"
      "or_emits (length (sch_relationships (uf_schema ?fan))) bs c (case out of None \<Rightarrow> [] | Some e \<Rightarrow> [e])"
    using collapse_or [OF assms(1)] by blast
  have "fan_out_done debug (fan_env debug bs F) (change_type_of c) (s \<lparr> us_fan := ?fan \<lparr> uf_fan_out_push_started := True, uf_accumulated := ?outs \<rparr> \<rparr>) =
      Some (s \<lparr> us_log := us_log s @ (case out of None \<Rightarrow> [] | Some e \<Rightarrow> [e]) \<rparr>)"
  proof (cases "bs = []")
    case True
    then have "out = None" using out(1) by (simp add: List.map_filter_simps push_accumulated_changes_def)
    then show ?thesis using True assms(4) idle by (simp add: fan_out_done_def Let_def)
  next
    case False
    then show ?thesis using out(1) assms(4) idle by (cases out) (simp_all add: fan_out_done_def Let_def)
  qed
  then show ?thesis using s1 s2 out(2) by (auto simp: union_fan_out_push_def)
qed

theorem union_push_or_witness:
  "let bs = [(\<lambda>r. r = [IntV 1], id), (\<lambda>r. r = [IntV 2], id)];
       s = \<lparr> us_fan = \<lparr> uf_inputs = 2, uf_branch_constraints = [[], []], uf_schema = schema_new [[105]] [0] [(0, True)],
         uf_fan_out_push_started = False, uf_accumulated = [] \<rparr>, us_log = [] \<rparr>
   in \<exists>m m'. union_fan_out_push True (fan_env True bs (\<lambda>_ _. None)) [0..<2] (Edit (leaf [IntV 2]) (leaf [IntV 1])) s = Some (s \<lparr> us_log := [Edit m m'] \<rparr>) \<and>
     node_row m = [IntV 2] \<and> node_row m' = [IntV 1]"
proof -
  let ?bs = "[(\<lambda>r. r = [IntV 1], id), (\<lambda>r. r = [IntV 2], id)] :: branch list" and ?c = "Edit (leaf [IntV 2]) (leaf [IntV 1])"
  let ?s = "\<lparr> us_fan = \<lparr> uf_inputs = 2, uf_branch_constraints = [[], []], uf_schema = schema_new [[105]] [0] [(0, True)],
         uf_fan_out_push_started = False, uf_accumulated = [] \<rparr>, us_log = [] \<rparr> :: union_state"
  obtain es where es: "union_fan_out_push True (fan_env True ?bs (\<lambda>_ _. None)) [0..<length ?bs] ?c ?s = Some (?s \<lparr> us_log := us_log ?s @ es \<rparr>)"
      "or_emits (length (sch_relationships (uf_schema (us_fan ?s)))) ?bs ?c es"
    using union_push_or [of ?bs ?s True "\<lambda>_ _. None" ?c] by auto
  have two: "length ?bs = 2" by simp
  show ?thesis using es(2) es(1) [unfolded two] by (auto simp: leaf_def gathers_def Let_def)
qed

end
