(* ===== verification/Op_Flipped.thy ===== *)
theory Op_Flipped
  imports Op_Join Op_Union
begin

text \<open>
  The flipped join (\<open>rust/src/op/flipped_join.rs\<close>): the inner join behind a flipped \<open>EXISTS\<close>. A fetch reads all children first,
  asks for their parents in batches and keeps the parents some child points at; a push decides whether a parent enters or
  leaves the result with the changed child.

  It works between the same callbacks as the join; the key columns and the schema facts are those of the join record, its live fields are unused.
\<close>

definition DEFAULT_CHUNK_SIZE :: nat where
  "DEFAULT_CHUNK_SIZE = 256"

record flipped_join =
  fj_keys :: join_op
  fj_chunk_size :: nat

definition flipped_new :: "join_op \<Rightarrow> flipped_join" where
  "flipped_new j = \<lparr> fj_keys = j, fj_chunk_size = DEFAULT_CHUNK_SIZE \<rparr>"

definition with_chunk_size :: "nat \<Rightarrow> flipped_join \<Rightarrow> flipped_join" where
  "with_chunk_size k fj = fj \<lparr> fj_chunk_size := k \<rparr>"

section \<open>Attaching the relationship\<close>

definition related_children :: "'s join_env \<Rightarrow> join_op \<Rightarrow> row \<Rightarrow> 's \<Rightarrow> (node list \<times> 's) option" where
  "related_children env j pr st = do {
     c \<leftarrow> build_join_constraint pr (jn_parent_key j) (jn_child_key j);
     (case c of Some c \<Rightarrow> je_child_fetch env (fetch_with_constraint c) st | None \<Rightarrow> Some ([], st))
   }"

definition attach_child_rel :: "'s join_env \<Rightarrow> join_op \<Rightarrow> node \<Rightarrow> source_change option \<Rightarrow> 's \<Rightarrow> (node \<times> 's) option" where
  "attach_child_rel env j n overlay st = do {
     (base, st1) \<leftarrow> related_children env j (node_row n) st;
     cs \<leftarrow> (case overlay of
         None \<Rightarrow> Some base
       | Some ov \<Rightarrow> splice_join_overlay base ov (node_row n) (jn_parent_key j) (jn_child_key j) (jn_child_pk j) (jn_child_sort j));
     Some (Node (node_row n) (node_rels n @ [(jn_rel_slot j, cs)]), st1)
   }"

section \<open>Fetch\<close>

fun index_of :: "'a \<Rightarrow> 'a list \<Rightarrow> nat option" where
  "index_of x [] = None"
| "index_of x (y # ys) = (if y = x then Some 0 else map_option Suc (index_of x ys))"

fun translate_cols :: "join_op \<Rightarrow> row_constraint \<Rightarrow> row_constraint option" where
  "translate_cols j [] = Some []"
| "translate_cols j ((col, v) # c) = (case index_of col (jn_parent_key j) of
       None \<Rightarrow> translate_cols j c
     | Some i \<Rightarrow> do { k \<leftarrow> vec_get (jn_child_key j) i; rest \<leftarrow> translate_cols j c; Some ((k, v) # rest) })"

definition translate_constraint :: "join_op \<Rightarrow> row_constraint option \<Rightarrow> row_constraint option option" where
  "translate_constraint j c = (case c of
       None \<Rightarrow> Some None
     | Some c \<Rightarrow> do { out \<leftarrow> translate_cols j c; Some (if out = [] then None else Some out) })"

fun collect_batch :: "join_op \<Rightarrow> row_constraint option \<Rightarrow> node list \<Rightarrow> canon_val list list \<Rightarrow> multi_constraint \<Rightarrow> (canon_val list list \<times> multi_constraint) option" where
  "collect_batch j rc [] seen multi = Some (seen, multi)"
| "collect_batch j rc (n # ns) seen multi = do {
     c \<leftarrow> build_join_constraint (node_row n) (jn_child_key j) (jn_parent_key j);
     (case c of
        None \<Rightarrow> collect_batch j rc ns seen multi
      | Some k \<Rightarrow> do {
          ok \<leftarrow> (case rc of None \<Rightarrow> Some True | Some rc \<Rightarrow> constraints_are_compatible k rc);
          if \<not> ok then collect_batch j rc ns seen multi
          else if canonical_key_of_constraint k \<in> set seen then collect_batch j rc ns seen multi
          else collect_batch j rc ns (canonical_key_of_constraint k # seen) (multi @ [k])
        })
   }"

definition parent_batch_req :: "fetch_request \<Rightarrow> multi_constraint \<Rightarrow> fetch_request" where
  "parent_batch_req req batch = req \<lparr> multi_constraints := multi_constraints req @ [batch] \<rparr>"

fun fetch_windows :: "'s join_env \<Rightarrow> fetch_request \<Rightarrow> multi_constraint list \<Rightarrow> 's \<Rightarrow> (node list list \<times> 's) option" where
  "fetch_windows env req [] st = Some ([], st)"
| "fetch_windows env req (w # ws) st = do {
     (ns, st1) \<leftarrow> je_parent_fetch env (parent_batch_req req w) st;
     (rest, st2) \<leftarrow> fetch_windows env req ws st1;
     Some (ns # rest, st2)
   }"

fun attach_seen :: "'s join_env \<Rightarrow> join_op \<Rightarrow> canon_val list list \<Rightarrow> node list \<Rightarrow> 's \<Rightarrow> (node list \<times> 's) option" where
  "attach_seen env j seen [] st = Some ([], st)"
| "attach_seen env j seen (n # ns) st = do {
     k \<leftarrow> canonical_key (node_row n) (jn_parent_key j);
     if k \<notin> set seen then attach_seen env j seen ns st
     else do {
       (n', st1) \<leftarrow> attach_child_rel env j n None st;
       (ns', st2) \<leftarrow> attach_seen env j seen ns st1;
       Some (n' # ns', st2)
     }
   }"

text \<open>A chunk size of zero panics in \<open>chunks\<close>.\<close>

definition fetch_batched :: "'s join_env \<Rightarrow> flipped_join \<Rightarrow> fetch_request \<Rightarrow> node list \<Rightarrow> 's \<Rightarrow> (node list \<times> 's) option" where
  "fetch_batched env fj req children st = (let j = fj_keys fj in do {
     (seen, multi) \<leftarrow> collect_batch j (req_constraint req) children [] [];
     if multi = [] then Some ([], st)
     else do {
       (ps, st1) \<leftarrow> (if length multi \<le> fj_chunk_size fj then je_parent_fetch env (parent_batch_req req multi) st
         else if fj_chunk_size fj = 0 then None
         else do {
           (ss, st') \<leftarrow> fetch_windows env req (chunks (fj_chunk_size fj) multi) st;
           ns \<leftarrow> merge_node_streams ss (jn_parent_sort j) (req_reverse req) None;
           Some (ns, st')
         });
       attach_seen env j seen ps st1
     }
   })"

definition flipped_fetch :: "'s join_env \<Rightarrow> flipped_join \<Rightarrow> fetch_request \<Rightarrow> 's \<Rightarrow> (node list \<times> 's) option" where
  "flipped_fetch env fj req st = do {
     cc \<leftarrow> translate_constraint (fj_keys fj) (req_constraint req);
     (children, st1) \<leftarrow> je_child_fetch env (fetch_all \<lparr> req_constraint := cc \<rparr>) st;
     fetch_batched env fj req children st1
   }"

section \<open>Push\<close>

fun some_other_row :: "node list \<Rightarrow> row \<Rightarrow> col_id list \<Rightarrow> bool option" where
  "some_other_row [] r pk = Some False"
| "some_other_row (n # ns) r pk = do {
     same \<leftarrow> row_equals_for_compound_key (node_row n) r pk;
     if \<not> same then Some True else some_other_row ns r pk
   }"

definition parent_has_other_child :: "'s join_env \<Rightarrow> join_op \<Rightarrow> row \<Rightarrow> row \<Rightarrow> 's \<Rightarrow> (bool \<times> 's) option" where
  "parent_has_other_child env j parent_row changed_child st = do {
     (cs, st1) \<leftarrow> related_children env j parent_row st;
     other \<leftarrow> some_other_row cs changed_child (jn_child_pk j);
     Some (other, st1)
   }"

definition has_related_child :: "'s join_env \<Rightarrow> join_op \<Rightarrow> row \<Rightarrow> 's \<Rightarrow> (bool \<times> 's) option" where
  "has_related_child env j parent_row st = do {
     (cs, st1) \<leftarrow> related_children env j parent_row st;
     Some (cs \<noteq> [], st1)
   }"

definition parent_with_only_child :: "join_op \<Rightarrow> node \<Rightarrow> row \<Rightarrow> node" where
  "parent_with_only_child j n child_row = Node (node_row n) (node_rels n @ [(jn_rel_slot j, [leaf child_row])])"

definition serve_parent :: "'s join_env \<Rightarrow> join_op \<Rightarrow> change \<Rightarrow> bool \<Rightarrow> node \<Rightarrow> 's \<Rightarrow> 's option" where
  "serve_parent env j c ex p st =
     (if ex then do {
        (pn, st1) \<leftarrow> attach_child_rel env j p (for_child_change c) st;
        je_push env (Child pn (jn_rel_slot j) (materialize_change c)) st1
      }
      else (let pn = parent_with_only_child j p (primary_row c)
            in je_push env (if change_type_of c = TAdd then Add pn else Remove pn) st))"

fun flipped_fan_out :: "'s join_env \<Rightarrow> join_op \<Rightarrow> change \<Rightarrow> bool \<Rightarrow> node list \<Rightarrow> 's \<Rightarrow> 's option" where
  "flipped_fan_out env j c ex [] st = Some st"
| "flipped_fan_out env j c ex (p # ps) st =
     (let (late, st1) = je_deadline env st in
      if late then Some (je_park env (PushDeadlineExceeded ''flipped-join child fan-out'') st1)
      else do {
        (ex', st2) \<leftarrow> (if ex then Some (True, st1) else parent_has_other_child env j (node_row p) (primary_row c) st1);
        st3 \<leftarrow> serve_parent env j c ex' p st2;
        flipped_fan_out env j c ex' ps st3
      })"

definition flipped_push_child_change :: "'s join_env \<Rightarrow> join_op \<Rightarrow> change \<Rightarrow> bool \<Rightarrow> 's \<Rightarrow> 's option" where
  "flipped_push_child_change env j c exists_pre st = do {
     constr \<leftarrow> build_join_constraint (primary_row c) (jn_child_key j) (jn_parent_key j);
     (case constr of
        None \<Rightarrow> Some st
      | Some k \<Rightarrow> do {
          (ps, st1) \<leftarrow> je_parent_fetch env (fetch_with_constraint k) st;
          flipped_fan_out env j c exists_pre ps st1
        })
   }"

definition flipped_push_child :: "'s join_env \<Rightarrow> join_op \<Rightarrow> change \<Rightarrow> 's \<Rightarrow> 's option" where
  "flipped_push_child env j c st = (case c of
       Add _ \<Rightarrow> flipped_push_child_change env j c False st
     | Remove _ \<Rightarrow> flipped_push_child_change env j c False st
     | Edit n old \<Rightarrow> do {
         same \<leftarrow> row_equals_for_compound_key (node_row old) (node_row n) (jn_child_key j);
         if same then flipped_push_child_change env j c True st else None
       }
     | Child _ _ _ \<Rightarrow> flipped_push_child_change env j c True st)"

fun flipped_push_parent :: "'s join_env \<Rightarrow> join_op \<Rightarrow> change \<Rightarrow> 's \<Rightarrow> 's option" where
  "flipped_push_parent env j (Add n) st = do {
     (has, st1) \<leftarrow> has_related_child env j (node_row n) st;
     if \<not> has then Some st1 else do { (pn, st2) \<leftarrow> attach_child_rel env j n None st1; je_push env (Add pn) st2 }
   }"
| "flipped_push_parent env j (Remove n) st = do {
     (has, st1) \<leftarrow> has_related_child env j (node_row n) st;
     if \<not> has then Some st1 else do { (pn, st2) \<leftarrow> attach_child_rel env j n None st1; je_push env (Remove pn) st2 }
   }"
| "flipped_push_parent env j (Edit n old) st = do {
     same \<leftarrow> row_equals_for_compound_key (node_row old) (node_row n) (jn_parent_key j);
     if \<not> same then None
     else do {
       (has, st1) \<leftarrow> has_related_child env j (node_row n) st;
       if \<not> has then Some st1
       else do {
         (pn, st2) \<leftarrow> attach_child_rel env j n None st1;
         (po, st3) \<leftarrow> attach_child_rel env j old None st2;
         je_push env (Edit pn po) st3
       }
     }
   }"
| "flipped_push_parent env j (Child n rel ch) st = do {
     (has, st1) \<leftarrow> has_related_child env j (node_row n) st;
     if \<not> has then Some st1 else do { (pn, st2) \<leftarrow> attach_child_rel env j n None st1; je_push env (Child pn rel ch) st2 }
   }"

definition flipped_push :: "'s join_env \<Rightarrow> flipped_join \<Rightarrow> change \<Rightarrow> port \<Rightarrow> 's \<Rightarrow> 's option" where
  "flipped_push env fj c p st = (case p of
       JoinChild \<Rightarrow> flipped_push_child env (fj_keys fj) c st
     | JoinParent \<Rightarrow> flipped_push_parent env (fj_keys fj) c st
     | Single \<Rightarrow> None)"

end
