(* ===== verification/Union_Fetch.thy ===== *)
theory Union_Fetch
  imports Op_Union
begin

text \<open>
  What the fetch of the union fan returns: the rows that some branch keeps, each once, in the order of the scan, with the node of
  the first branch that keeps it; the constraints pushed into the branches change nothing but the rows they scan.
\<close>

section \<open>The merge of tagged streams\<close>

lemma comparator_index: "comparator_on UNIV (\<lambda>a b. Some (cmp_of a (b :: nat)))"
  by unfold_locales (auto simp: cmp_of_def split: if_splits)

lemma branch_cmp_then:
  "branch_cmp srt rev' = cmp_then (\<lambda>a b. compare_rows_rev srt rev' (node_row (snd a)) (node_row (snd b))) (\<lambda>a b. Some (cmp_of (fst a) (fst b)))"
proof (intro ext)
  fix a b
  show "branch_cmp srt rev' a b = cmp_then (\<lambda>a b. compare_rows_rev srt rev' (node_row (snd a)) (node_row (snd b))) (\<lambda>a b. Some (cmp_of (fst a) (fst b))) a b"
    by (cases "compare_rows_rev srt rev' (node_row (snd a)) (node_row (snd b))") (simp_all add: branch_cmp_def cmp_then_def)
qed

interpretation branch_order: comparator_on "{a. row_ok ty srt (node_row (snd a))}" "branch_cmp srt rev'" for ty srt rev'
  unfolding branch_cmp_then
  by (intro comparator_then comparator_vimage [OF rev_order.comparator_on_axioms] comparator_vimage [OF comparator_index]) auto

context comparator_on
begin

lemma sorted_same:
  "sorted_wrt (\<lambda>x y. cmp x y \<noteq> Some Greater) xs \<Longrightarrow> sorted_by cmp zs \<Longrightarrow> mset xs = mset zs \<Longrightarrow> set zs \<subseteq> D \<Longrightarrow> xs = zs"
proof (induction zs arbitrary: xs)
  case (Cons z zs)
  then obtain x ys where xs: "xs = x # ys" by (cases xs) auto
  have sets: "insert x (set ys) = insert z (set zs)" using Cons.prems(3) mset_eq_setD [of xs "z # zs"] by (simp add: xs)
  have "x = z"
  proof (rule ccontr)
    assume "x \<noteq> z"
    then have "x \<in> set zs" "z \<in> set ys" using sets by auto
    then have "cmp z x = Some Less" "cmp x z \<noteq> Some Greater" using Cons.prems(1,2) by (auto simp: xs)
    moreover have "x \<in> D" "z \<in> D" using \<open>x \<in> set zs\<close> Cons.prems(4) by auto
    ultimately show False using cmp_gt_iff by blast
  qed
  then show ?case using Cons by (simp add: xs)
qed simp

end

definition streams_at :: "nat \<Rightarrow> branch list \<Rightarrow> node list \<Rightarrow> (nat \<times> node) list list" where
  "streams_at k bs T = map (\<lambda>(i, b). map (\<lambda>n. (i, snd b n)) (filter (keeps b) T)) (enumerate k bs)"

definition kept_at :: "nat \<Rightarrow> branch list \<Rightarrow> node \<Rightarrow> (nat \<times> node) list" where
  "kept_at k bs n = map (\<lambda>(i, b). (i, snd b n)) (filter (\<lambda>(i, b). keeps b n) (enumerate k bs))"

lemma streams_simps:
  "streams_at k [] T = []" "streams_at k (b # bs) T = map (\<lambda>n. (k, snd b n)) (filter (keeps b) T) # streams_at (Suc k) bs T"
  "kept_at k [] n = []" "kept_at k (b # bs) n = (if keeps b n then [(k, snd b n)] else []) @ kept_at (Suc k) bs n"
  by (simp_all add: streams_at_def kept_at_def)

lemma tagged_streams: "map (\<lambda>(i, st). map (Pair i) st) (enumerate k (map (\<lambda>b. map (snd b) (filter (keeps b) T)) bs)) = streams_at k bs T"
  by (induction bs arbitrary: k) (simp_all add: streams_simps comp_def)

lemma streams_Cons: "sum_list (map mset (streams_at k bs (n # T))) = mset (kept_at k bs n) + sum_list (map mset (streams_at k bs T))"
  by (induction bs arbitrary: k) (simp_all add: streams_simps)

lemma streams_mset: "sum_list (map mset (streams_at k bs T)) = mset (concat (map (kept_at k bs) T))"
proof (induction T)
  case Nil
  show ?case by (induction bs arbitrary: k) (simp_all add: streams_simps)
qed (simp add: streams_Cons)

lemma kept_at_props:
  assumes "\<forall>b\<in>set bs. \<forall>n. node_row (snd b n) = node_row n" "x \<in> set (kept_at k bs n)"
  shows "node_row (snd x) = node_row n \<and> k \<le> fst x"
  using assms by (induction bs arbitrary: k) (auto simp: streams_simps split: if_splits, fastforce)

lemma kept_at_snd: "map snd (kept_at k bs n) = kept_nodes bs n"
  by (induction bs arbitrary: k) (simp_all add: streams_simps kept_nodes_def)

text \<open>The rows of a scan, strictly in order.\<close>

definition in_scan_order :: "sort \<Rightarrow> bool \<Rightarrow> node list \<Rightarrow> bool" where
  "in_scan_order srt rev' T \<longleftrightarrow> sorted_wrt (\<lambda>m n. compare_rows_rev srt rev' (node_row m) (node_row n) = Some Less) T"

lemma groups_sorted:
  assumes "\<forall>b\<in>set bs. \<forall>n. node_row (snd b n) = node_row n" "in_scan_order srt rev' T" "\<forall>n\<in>set T. row_ok ty srt (node_row n)"
  shows "sorted_by (branch_cmp srt rev') (concat (map (kept_at 0 bs) T))"
  using assms(2,3)
proof (induction T)
  case (Cons n T)
  have self: "compare_rows_rev srt rev' (node_row n) (node_row n) = Some Equal" using Cons.prems(2) by (simp add: rev_order.cmp_refl [of _ ty])
  have group: "sorted_by (branch_cmp srt rev') (kept_at k bs n)" for k
    using assms(1)
  proof (induction bs arbitrary: k)
    case inner: (Cons b bs)
    have "branch_cmp srt rev' (k, snd b n) x = Some Less" if "x \<in> set (kept_at (Suc k) bs n)" for x
      using kept_at_props [of bs x "Suc k" n] inner.prems that self by (auto simp: branch_cmp_def cmp_of_def)
    then show ?case using inner by (simp add: streams_simps)
  qed (simp add: streams_simps)
  have "branch_cmp srt rev' x y = Some Less" if "x \<in> set (kept_at 0 bs n)" "m \<in> set T" "y \<in> set (kept_at 0 bs m)" for x y m
    using kept_at_props [OF assms(1) that(1)] kept_at_props [OF assms(1) that(3)] Cons.prems(1) that(2)
    by (simp add: branch_cmp_def in_scan_order_def)
  then show ?case using Cons group by (auto simp: sorted_by_append in_scan_order_def)
qed simp

lemma streams_sorted:
  assumes "\<forall>b\<in>set bs. \<forall>n. node_row (snd b n) = node_row n" "in_scan_order srt rev' T" "\<forall>n\<in>set T. row_ok ty srt (node_row n)"
  shows "\<forall>st\<in>set (streams_at k bs T). set st \<subseteq> {a. row_ok ty srt (node_row (snd a))} \<and> sorted_wrt (\<lambda>x y. branch_cmp srt rev' x y \<noteq> Some Greater) st"
  using assms(1)
proof (induction bs arbitrary: k)
  case (Cons b bs)
  have "sorted_wrt (\<lambda>m n. compare_rows_rev srt rev' (node_row m) (node_row n) = Some Less) (filter (keeps b) T)"
    using assms(2) by (simp add: in_scan_order_def sorted_wrt_filter)
  then have "sorted_wrt (\<lambda>m n. branch_cmp srt rev' (k, snd b m) (k, snd b n) \<noteq> Some Greater) (filter (keeps b) T)"
    by (rule sorted_wrt_mono_rel [rotated]) (use Cons.prems in \<open>simp add: branch_cmp_def\<close>)
  then show ?case using Cons assms(3) by (auto simp: streams_simps sorted_wrt_map)
qed (simp add: streams_simps)

lemma merge_groups:
  assumes "\<forall>b\<in>set bs. \<forall>n. node_row (snd b n) = node_row n" "in_scan_order srt rev' T" "\<forall>n\<in>set T. row_ok ty srt (node_row n)"
  shows "merge_node_streams (map (\<lambda>b. map (snd b) (filter (keeps b) T)) bs) srt rev' dedup_pk = dedup_nodes dedup_pk None (concat (map (kept_nodes bs) T))"
proof -
  let ?ss = "map (\<lambda>b. map (snd b) (filter (keeps b) T)) bs"
  have tag: "tagged ?ss = streams_at 0 bs T" unfolding tagged_def by (rule tagged_streams)
  have len: "sum_list (map length (streams_at k bs T)) = sum_list (map length ?ss)" for k
    by (induction bs arbitrary: k) (simp_all add: streams_simps)
  obtain ys where ys: "merge_drain (Suc (sum_list (map length (streams_at 0 bs T)))) (branch_cmp srt rev') \<lparr> m_streams = streams_at 0 bs T, m_heap = [], m_primed = False \<rparr> = Some ys"
      "mset ys = mset (concat (map (kept_at 0 bs) T))" "sorted_wrt (\<lambda>x y. branch_cmp srt rev' x y \<noteq> Some Greater) ys"
    using branch_order.merge_drain_ok [OF streams_sorted [OF assms]] unfolding streams_mset by blast
  have "set (concat (map (kept_at 0 bs) T)) \<subseteq> {a. row_ok ty srt (node_row (snd a))}"
    using kept_at_props [OF assms(1)] assms(3) by fastforce
  then have "ys = concat (map (kept_at 0 bs) T)"
    using branch_order.sorted_same [OF ys(3) groups_sorted [OF assms] ys(2)] by blast
  then have "map snd ys = concat (map (kept_nodes bs) T)" by (simp add: map_concat kept_at_snd comp_def)
  then show ?thesis using ys(1) by (simp add: merge_node_streams_def tag len)
qed

lemma dedup_same:
  assumes "same_pk r r pk = Some True" "\<forall>m\<in>set ms. node_row m = r"
  shows "dedup_nodes (Some pk) (Some r) (ms @ ns) = dedup_nodes (Some pk) (Some r) ns"
  using assms(2) by (induction ms) (simp_all add: assms(1))

lemma dedup_groups:
  assumes "\<forall>b\<in>set bs. \<forall>n. node_row (snd b n) = node_row n"
    and "\<forall>n\<in>set T. same_pk (node_row n) (node_row n) pk = Some True"
    and "sorted_wrt (\<lambda>m n. same_pk (node_row n) (node_row m) pk = Some False) T"
    and "\<forall>r. last_pk = Some r \<longrightarrow> (\<forall>n\<in>set T. same_pk (node_row n) r pk = Some False)"
  shows "dedup_nodes (Some pk) last_pk (concat (map (kept_nodes bs) T)) = Some (map (\<lambda>n. hd (kept_nodes bs n)) (filter (\<lambda>n. \<exists>b\<in>set bs. keeps b n) T))"
  using assms(2-4)
proof (induction T arbitrary: last_pk)
  case (Cons n T)
  show ?case
  proof (cases "kept_nodes bs n")
    case Nil
    then show ?thesis using Cons kept_nonempty [of bs n] by auto
  next
    case more: (Cons m ms)
    have rows: "node_row m = node_row n" "\<forall>x\<in>set ms. node_row x = node_row n" using kept_rows [OF assms(1), of n] more by auto
    have new: "(case last_pk of Some l \<Rightarrow> same_pk (node_row m) l pk | None \<Rightarrow> Some False) = Some False"
      using Cons.prems(3) rows(1) by (cases last_pk) auto
    have "dedup_nodes (Some pk) last_pk (concat (map (kept_nodes bs) (n # T))) =
        map_option (Cons m) (dedup_nodes (Some pk) (Some (node_row n)) (ms @ concat (map (kept_nodes bs) T)))"
      using new rows(1) by (simp add: more)
    also have "\<dots> = map_option (Cons m) (dedup_nodes (Some pk) (Some (node_row n)) (concat (map (kept_nodes bs) T)))"
      using dedup_same [OF _ rows(2)] Cons.prems(1) by simp
    also have "\<dots> = Some (m # map (\<lambda>n. hd (kept_nodes bs n)) (filter (\<lambda>n. \<exists>b\<in>set bs. keeps b n) T))"
      using Cons.IH [of "Some (node_row n)"] Cons.prems(1,2) by simp
    finally show ?thesis using kept_nonempty [of bs n] more by auto
  qed
qed simp

section \<open>Constraints pushed into the branches\<close>

definition passes :: "fetch_request \<Rightarrow> (fetch_request \<Rightarrow> node \<Rightarrow> bool) \<Rightarrow> node \<Rightarrow> bool" where
  "passes req gate n \<longleftrightarrow> (\<forall>c. req_constraint req = Some c \<longrightarrow> constraint_matches (node_row n) c = Some True) \<and> gate req n"

lemma compatible_typed:
  assumes "typed_constraint ty w a" "typed_constraint ty w b"
  shows "constraints_are_compatible a b = Some (\<forall>(col, va)\<in>set a. \<forall>vb. map_of b col = Some vb \<longrightarrow> cells_join va vb)"
  using assms(1)
proof (induction a)
  case (Cons p a)
  obtain col va where p: "p = (col, va)" by fastforce
  have va: "conforms (ty col) va" "typed_constraint ty w a" using Cons.prems by (auto simp: typed_constraint_def p)
  show ?case
  proof (cases "map_of b col")
    case None
    then show ?thesis using Cons.IH [OF va(2)] by (simp add: p)
  next
    case (Some vb)
    then have "conforms (ty col) vb" using assms(2) map_of_SomeD [OF Some] by (auto simp: typed_constraint_def)
    then show ?thesis using Cons.IH [OF va(2)] values_equal_conforms [OF va(1)] Some by (simp add: p)
  qed
qed simp

lemma merged_constraint:
  assumes "typed_row ty w r" "typed_constraint ty w c" "typed_constraint ty w bc" "distinct (map fst bc)" "constraint_matches r bc = Some True"
    and "constraints_are_compatible c bc = Some True"
  shows "constraint_matches r (merge_constraints (Some c) bc) = Some True \<longleftrightarrow> constraint_matches r c = Some True"
proof -
  have typed: "typed_constraint ty w (merge_constraints (Some c) bc)"
    using assms(2,3) by (auto simp: typed_constraint_def merge_constraints_set [OF assms(4)])
  have bc: "\<forall>(col, v)\<in>set bc. cells_join (r ! col) v" using constraint_matches_typed [OF assms(1,3)] assms(5) by simp
  have "cells_join (r ! col) v" if c: "(col, v) \<in> set c" "map_of bc col \<noteq> None" for col v
  proof -
    obtain vb where vb: "map_of bc col = Some vb" using c(2) by blast
    then have "cells_join v vb" using compatible_typed [OF assms(2,3)] assms(6) c(1) by auto
    moreover have "cells_join (r ! col) vb" using bc map_of_SomeD [OF vb] by auto
    ultimately show ?thesis using cells_join_trans cells_join_sym by blast
  qed
  then show ?thesis unfolding constraint_matches_typed [OF assms(1) typed] constraint_matches_typed [OF assms(1,2)]
    using bc by (fastforce simp: merge_constraints_set [OF assms(4)])
qed

lemma incompatible_constraint:
  assumes "typed_row ty w r" "typed_constraint ty w c" "typed_constraint ty w bc" "constraint_matches r bc = Some True" "constraint_matches r c = Some True"
  shows "constraints_are_compatible c bc = Some True"
proof -
  have "\<forall>(col, v)\<in>set bc. cells_join (r ! col) v" "\<forall>(col, v)\<in>set c. cells_join (r ! col) v"
    using constraint_matches_typed [OF assms(1,3)] constraint_matches_typed [OF assms(1,2)] assms(4,5) by simp_all
  then have "cells_join va vb" if "(col, va) \<in> set c" "map_of bc col = Some vb" for col va vb
    using that map_of_SomeD [OF that(2)] cells_join_trans [of va "r ! col" vb] cells_join_sym [of va "r ! col"] by blast
  then show ?thesis unfolding compatible_typed [OF assms(2,3)] by blast
qed

text \<open>A branch serves the rows it keeps that pass the request, and its pushed constraint is necessary for keeping a row.\<close>

definition branch_serves :: "(col_id \<Rightarrow> kind) \<Rightarrow> nat \<Rightarrow> node list \<Rightarrow> (fetch_request \<Rightarrow> node \<Rightarrow> bool) \<Rightarrow> branch \<Rightarrow> row_constraint \<Rightarrow>
    (fetch_request \<Rightarrow> node list option) \<Rightarrow> bool" where
  "branch_serves ty w S gate b bc f \<longleftrightarrow> typed_constraint ty w bc \<and> distinct (map fst bc) \<and>
     (\<forall>n\<in>set S. keeps b n \<longrightarrow> constraint_matches (node_row n) bc = Some True) \<and>
     (\<forall>req. f req = Some (map (snd b) (filter (\<lambda>n. keeps b n \<and> passes req gate n) (scan_dir (req_reverse req) S))))"

lemma fetch_branch_pushes:
  assumes "branch_serves ty w S gate b bc (F i)" "\<forall>n\<in>set S. typed_row ty w (node_row n)" "\<forall>c. req_constraint req = Some c \<longrightarrow> typed_constraint ty w c"
    and "\<forall>c n. gate (req \<lparr> req_constraint := c \<rparr>) n = gate req n"
  shows "fetch_branch (fan_env debug bs F) i bc req s = Some (map (snd b) (filter (\<lambda>n. keeps b n \<and> passes req gate n) (scan_dir (req_reverse req) S)), s)"
proof (cases "bc = []")
  case True
  then show ?thesis using assms(1) by (simp add: fetch_branch_def branch_serves_def)
next
  case False
  have bc: "typed_constraint ty w bc" "distinct (map fst bc)" "\<And>n. n \<in> set S \<Longrightarrow> keeps b n \<Longrightarrow> constraint_matches (node_row n) bc = Some True"
    and F: "\<And>req. F i req = Some (map (snd b) (filter (\<lambda>n. keeps b n \<and> passes req gate n) (scan_dir (req_reverse req) S)))"
    using assms(1) by (auto simp: branch_serves_def)
  let ?req = "\<lambda>c. \<lparr> req_constraint = Some (merge_constraints c bc), multi_constraints = multi_constraints req, req_start = req_start req, req_reverse = req_reverse req \<rparr>"
  have same: "?req c = req \<lparr> req_constraint := Some (merge_constraints c bc) \<rparr>" for c by simp
  have gate: "gate (?req c) n = gate req n" for c n unfolding same using assms(4) by blast
  have S: "n \<in> set S" if "n \<in> set (scan_dir (req_reverse req) S)" for n using that by (simp add: scan_dir_def split: if_splits)
  show ?thesis
  proof (cases "req_constraint req")
    case None
    have "filter (\<lambda>n. keeps b n \<and> passes (?req None) gate n) (scan_dir (req_reverse req) S) = filter (\<lambda>n. keeps b n \<and> passes req gate n) (scan_dir (req_reverse req) S)"
      by (rule filter_cong) (use None gate [of None] bc(3) S in \<open>auto simp: passes_def merge_constraints_def\<close>)
    then show ?thesis using None False by (simp add: fetch_branch_def F)
  next
    case (Some c)
    have c: "typed_constraint ty w c" using assms(3) Some by blast
    obtain ok where ok: "constraints_are_compatible c bc = Some ok" using compatible_typed [OF c bc(1)] by blast
    show ?thesis
    proof (cases ok)
      case True
      have "filter (\<lambda>n. keeps b n \<and> passes (?req (Some c)) gate n) (scan_dir (req_reverse req) S) = filter (\<lambda>n. keeps b n \<and> passes req gate n) (scan_dir (req_reverse req) S)"
      proof (rule filter_cong)
        fix n assume n: "n \<in> set (scan_dir (req_reverse req) S)"
        show "(keeps b n \<and> passes (?req (Some c)) gate n) = (keeps b n \<and> passes req gate n)"
          using merged_constraint [OF assms(2) [rule_format, OF S [OF n]] c bc(1,2) bc(3) [OF S [OF n]]] ok True Some gate [of "Some c" n]
          by (auto simp: passes_def)
      qed simp
      then show ?thesis using Some False ok True by (simp add: fetch_branch_def F)
    next
      case no: False
      have "\<not> (keeps b n \<and> passes req gate n)" if "n \<in> set (scan_dir (req_reverse req) S)" for n
        using incompatible_constraint [OF assms(2) [rule_format, OF S [OF that]] c bc(1) bc(3) [OF S [OF that]]] ok no Some by (auto simp: passes_def)
      then have "filter (\<lambda>n. keeps b n \<and> passes req gate n) (scan_dir (req_reverse req) S) = []" by (simp add: filter_empty_conv)
      then show ?thesis using Some False ok no by (simp add: fetch_branch_def)
    qed
  qed
qed

section \<open>The fetch of the fan\<close>

definition keyed_scan :: "(col_id \<Rightarrow> kind) \<Rightarrow> nat \<Rightarrow> sort \<Rightarrow> col_id list \<Rightarrow> node list \<Rightarrow> bool" where
  "keyed_scan ty w srt pk S \<longleftrightarrow> (\<forall>(c, _)\<in>set srt. c < w) \<and> sorted_by (node_cmp srt) S \<and> (\<forall>c\<in>set pk. c < w) \<and>
     (\<forall>n\<in>set S. typed_row ty w (node_row n) \<and> (\<forall>c\<in>set pk. node_row n ! c \<notin> {Absent, Null})) \<and>
     (\<forall>m\<in>set S. \<forall>n\<in>set S. (\<forall>c\<in>set pk. cells_join (node_row m ! c) (node_row n ! c)) \<longrightarrow> m = n)"

lemma same_pk_typed:
  "typed_row ty w a \<Longrightarrow> typed_row ty w b \<Longrightarrow> \<forall>c\<in>set pk. c < w \<Longrightarrow> same_pk a b pk = Some (\<forall>c\<in>set pk. cells_join (a ! c) (b ! c))"
proof (induction pk)
  case (Cons c pk)
  have "values_equal (a ! c) (b ! c) = Some (cells_join (a ! c) (b ! c))"
    using values_equal_conforms [of "ty c" "a ! c" "b ! c"] Cons.prems by (auto simp: typed_row_def)
  then show ?case using Cons by (simp add: row_col_def typed_row_def)
qed simp

lemma scan_dir_order:
  assumes "sorted_by (node_cmp srt) S" "\<forall>n\<in>set S. row_ok ty srt (node_row n)"
  shows "in_scan_order srt rev' (scan_dir rev' S)"
proof (cases rev')
  case True
  have "sorted_wrt (\<lambda>n m. compare_rows_rev srt True (node_row m) (node_row n) = Some Less) S"
    using assms(1) unfolding sorted_by_def
  proof (rule sorted_wrt_mono_rel [rotated])
    fix n m assume nm: "n \<in> set S" "m \<in> set S" "node_cmp srt n m = Some Less"
    then have "compare_rows srt (node_row m) (node_row n) = Some Greater" using row_order.cmp_gt_iff [of "node_row m" ty srt "node_row n"] assms(2) by auto
    then show "compare_rows_rev srt True (node_row m) (node_row n) = Some Less" by (simp add: compare_rows_rev_def)
  qed
  then show ?thesis using True by (simp add: in_scan_order_def scan_dir_def sorted_wrt_rev)
next
  case False
  then show ?thesis using assms(1) by (simp add: in_scan_order_def scan_dir_def sorted_by_def compare_rows_rev_def)
qed

lemma fetch_branches_all:
  assumes "\<forall>n\<in>set S. typed_row ty w (node_row n)" "\<forall>c. req_constraint req = Some c \<longrightarrow> typed_constraint ty w c"
    and "\<forall>c n. gate (req \<lparr> req_constraint := c \<rparr>) n = gate req n"
    and "length xs = length bcs" "\<forall>j<length xs. branch_serves ty w S gate (xs ! j) (bcs ! j) (F (k + j))"
  shows "fetch_branches (fan_env debug bs F) k bcs req s =
    Some (map (\<lambda>b. map (snd b) (filter (\<lambda>n. keeps b n \<and> passes req gate n) (scan_dir (req_reverse req) S))) xs, s)"
  using assms(4,5)
proof (induction xs bcs arbitrary: k rule: list_induct2)
  case (Cons x xs bc bcs)
  have "\<forall>j<length xs. branch_serves ty w S gate (xs ! j) (bcs ! j) (F (Suc k + j))" using Cons.prems by (metis Suc_less_eq add_Suc_right add_Suc length_Cons nth_Cons_Suc)
  moreover have "branch_serves ty w S gate x bc (F k)" using Cons.prems [rule_format, of 0] by simp
  ultimately show ?case using Cons.IH [of "Suc k"] fetch_branch_pushes [OF _ assms(1-3), of x bc F k] by simp
qed simp

lemma union_fetch_result:
  assumes "keyed_scan ty w (sch_sort sch) (sch_primary_key sch) S" "\<forall>b\<in>set bs. \<forall>n. node_row (snd b n) = node_row n"
    and "uf_schema (us_fan s) = sch" "uf_branch_constraints (us_fan s) = bcs" "length bs = length bcs"
    and "\<forall>i<length bs. branch_serves ty w S gate (bs ! i) (bcs ! i) (F i)"
    and "\<forall>c. req_constraint req = Some c \<longrightarrow> typed_constraint ty w c" "\<forall>c n. gate (req \<lparr> req_constraint := c \<rparr>) n = gate req n"
  shows "union_fetch (fan_env debug bs F) req s =
    Some (map (\<lambda>n. hd (kept_nodes bs n)) (filter (\<lambda>n. (\<exists>b\<in>set bs. keeps b n) \<and> passes req gate n) (scan_dir (req_reverse req) S)), s)"
proof -
  let ?srt = "sch_sort sch" and ?pk = "sch_primary_key sch" and ?rev = "req_reverse req"
  define T where "T = filter (passes req gate) (scan_dir ?rev S)"
  have typed: "typed_row ty w (node_row n)" "row_ok ty ?srt (node_row n)" "\<forall>c\<in>set ?pk. node_row n ! c \<notin> {Absent, Null}" if "n \<in> set S" for n
    using assms(1) that by (auto simp: keyed_scan_def row_ok_def typed_row_def)
  have pk: "\<forall>c\<in>set ?pk. c < w" and sorted: "sorted_by (node_cmp ?srt) S" using assms(1) by (auto simp: keyed_scan_def)
  have unique: "m = n" if "m \<in> set S" "n \<in> set S" "\<forall>c\<in>set ?pk. cells_join (node_row m ! c) (node_row n ! c)" for m n
    using assms(1) that by (auto simp: keyed_scan_def)
  have TS: "set T \<subseteq> set S" by (auto simp: T_def scan_dir_def split: if_splits)
  have order: "in_scan_order ?srt ?rev T"
    using scan_dir_order [OF sorted, of ty ?rev] typed(2) by (simp add: in_scan_order_def T_def sorted_wrt_filter)
  have ok: "\<forall>n\<in>set T. row_ok ty ?srt (node_row n)" using TS typed(2) by blast
  have self: "\<forall>n\<in>set T. same_pk (node_row n) (node_row n) ?pk = Some True"
  proof
    fix n assume "n \<in> set T"
    then have "n \<in> set S" using TS by blast
    then show "same_pk (node_row n) (node_row n) ?pk = Some True"
      using same_pk_typed [OF typed(1,1) pk, of n n] typed(3) [of n] pred_order.cmp_refl by (auto simp: cells_join_def)
  qed
  have "sorted_wrt (\<lambda>m n. same_pk (node_row n) (node_row m) ?pk = Some False) T"
    using order unfolding in_scan_order_def
  proof (rule sorted_wrt_mono_rel [rotated])
    fix m n assume mn: "m \<in> set T" "n \<in> set T" "compare_rows_rev ?srt ?rev (node_row m) (node_row n) = Some Less"
    then have "m \<noteq> n" using rev_order.cmp_refl [of "node_row m" ty ?srt ?rev] ok by auto
    then have "\<not> (\<forall>c\<in>set ?pk. cells_join (node_row n ! c) (node_row m ! c))" using unique [of n m] mn TS by blast
    moreover have "n \<in> set S" "m \<in> set S" using mn TS by blast+
    ultimately show "same_pk (node_row n) (node_row m) ?pk = Some False" using same_pk_typed [OF typed(1,1) pk, of n m] by simp
  qed
  then have dedup: "dedup_nodes (Some ?pk) None (concat (map (kept_nodes bs) T)) = Some (map (\<lambda>n. hd (kept_nodes bs n)) (filter (\<lambda>n. \<exists>b\<in>set bs. keeps b n) T))"
    by (intro dedup_groups [OF assms(2) self]) simp_all
  have "fetch_branches (fan_env debug bs F) 0 bcs req s = Some (map (\<lambda>b. map (snd b) (filter (keeps b) T)) bs, s)"
    using fetch_branches_all [OF _ assms(7,8,5), of S F 0 debug bs s] assms(6) typed(1) by (simp add: T_def filter_filter conj_commute)
  then show ?thesis using merge_groups [OF assms(2) order ok, of "Some ?pk"] dedup
    by (simp add: union_fetch_def assms(3,4) T_def filter_filter conj_commute)
qed

text \<open>(C25) A fetch of the union fan returns the rows of the disjunction. When the branches serve the rows of one scan that they keep,
  and the constraint pushed into a branch is necessary for keeping a row, the fan returns every row that passes the request
  and is kept by some branch, once, in the order of the scan, in the form the first such branch gives it.\<close>

theorem union_fetch_or:
  assumes "keyed_scan ty w (sch_sort sch) (sch_primary_key sch) S" "\<forall>b\<in>set bs. \<forall>n. node_row (snd b n) = node_row n"
    and "uf_schema (us_fan s) = sch" "uf_branch_constraints (us_fan s) = bcs" "length bs = length bcs"
    and "\<forall>i<length bs. branch_serves ty w S gate (bs ! i) (bcs ! i) (F i)"
    and "\<forall>c. req_constraint req = Some c \<longrightarrow> typed_constraint ty w c" "\<forall>c n. gate (req \<lparr> req_constraint := c \<rparr>) n = gate req n"
  shows "union_fetch (fan_env debug bs F) req s =
    Some (map (\<lambda>n. hd (kept_nodes bs n)) (filter (\<lambda>n. (\<exists>b\<in>set bs. keeps b n) \<and> passes req gate n) (scan_dir (req_reverse req) S)), s)"
  by (rule union_fetch_result [OF assms])

theorem union_fetch_or_witness:
  "let S = [leaf [IntV 1], leaf [IntV 2], leaf [IntV 3]]; bs = [(\<lambda>r. r = [IntV 1], id), (\<lambda>r. r \<noteq> [IntV 2], id)];
       sch = schema_new [[105]] [0] [(0, True)];
       F = (\<lambda>i req. Some (filter (\<lambda>n. keeps (bs ! i) n \<and> passes req (\<lambda>_ _. True) n) (scan_dir (req_reverse req) S)));
       s = \<lparr> us_fan = \<lparr> uf_inputs = 2, uf_branch_constraints = [[(0, IntV 1)], []], uf_schema = sch, uf_fan_out_push_started = False, uf_accumulated = [] \<rparr>, us_log = [] \<rparr>
   in union_fetch (fan_env True bs F) (fetch_all \<lparr> req_reverse := True \<rparr>) s = Some ([leaf [IntV 3], leaf [IntV 1]], s)"
proof -
  let ?S = "[leaf [IntV 1], leaf [IntV 2], leaf [IntV 3]]" and ?bs = "[(\<lambda>r. r = [IntV 1], id), (\<lambda>r. r \<noteq> [IntV 2], id)] :: branch list"
  let ?sch = "schema_new [[105]] [0] [(0, True)]" and ?ty = "\<lambda>_ :: col_id. KNum" and ?gate = "\<lambda>_ _. True"
  let ?F = "\<lambda>i req. Some (filter (\<lambda>n. keeps (?bs ! i) n \<and> passes req ?gate n) (scan_dir (req_reverse req) ?S))"
  let ?bcs = "[[(0, IntV 1)], []] :: row_constraint list"
  let ?s = "\<lparr> us_fan = \<lparr> uf_inputs = 2, uf_branch_constraints = ?bcs, uf_schema = ?sch, uf_fan_out_push_started = False, uf_accumulated = [] \<rparr>, us_log = [] \<rparr>"
  have lt: "node_cmp (sch_sort ?sch) (leaf [IntV 1]) (leaf [IntV 2]) = Some Less" "node_cmp (sch_sort ?sch) (leaf [IntV 1]) (leaf [IntV 3]) = Some Less"
    "node_cmp (sch_sort ?sch) (leaf [IntV 2]) (leaf [IntV 3]) = Some Less" by code_simp+
  have "keyed_scan ?ty 1 (sch_sort ?sch) (sch_primary_key ?sch) ?S"
    using lt by (auto simp: keyed_scan_def schema_new_def typed_row_def leaf_def cells_join_def cmp_of_def split: if_splits)
  moreover have "\<forall>i<length ?bs. branch_serves ?ty 1 ?S ?gate (?bs ! i) (?bcs ! i) (?F i)"
    by (auto simp: less_Suc_eq branch_serves_def typed_constraint_def leaf_def row_col_def vec_get_def cells_join_def)
  ultimately have "union_fetch (fan_env True ?bs ?F) (fetch_all \<lparr> req_reverse := True \<rparr>) ?s =
      Some (map (\<lambda>n. hd (kept_nodes ?bs n)) (filter (\<lambda>n. (\<exists>b\<in>set ?bs. keeps b n) \<and> passes (fetch_all \<lparr> req_reverse := True \<rparr>) ?gate n) (scan_dir True ?S)), ?s)"
    using union_fetch_or [of ?ty 1 ?sch ?S ?bs ?s ?bcs ?gate ?F "fetch_all \<lparr> req_reverse := True \<rparr>" True] by (simp add: fetch_all_def)
  moreover have "map (\<lambda>n. hd (kept_nodes ?bs n)) (filter (\<lambda>n. (\<exists>b\<in>set ?bs. keeps b n) \<and> passes (fetch_all \<lparr> req_reverse := True \<rparr>) ?gate n) (scan_dir True ?S)) =
      [leaf [IntV 3], leaf [IntV 1]]"
    by (simp add: scan_dir_def passes_def fetch_all_def leaf_def kept_nodes_def)
  ultimately show ?thesis by (simp add: Let_def)
qed

end
