(* ===== verification/Flipped_View.thy ===== *)
theory Flipped_View
  imports Join_View Op_Flipped Union_Fetch
begin

text \<open>
  The flipped join is an inner join: what it pushes keeps a view of the parents that have a matching child, each with exactly its
  children, up to date on both ports.
\<close>

definition inner_tree_of :: "join_op \<Rightarrow> row set \<Rightarrow> row set \<Rightarrow> join_tree" where
  "inner_tree_of j P R = (\<lambda>p. if p \<in> P \<and> children_of j R p \<noteq> {} then Some (children_of j R p) else None)"

section \<open>The relationship of one parent\<close>

lemma related_rows:
  assumes "keyed_input cf C" "keys_typed j P (node_row ` set C)" "p \<in> P" "distinct (map node_row C)"
  obtains base where "related_children (join_log_env v pf cf) j p st = Some (base, st)"
    "node_row ` set base = children_of j (node_row ` set C) p" "distinct (map node_row base)"
  by (rule base_stream [OF assms, where v = v and pf = pf and st = st]) (simp add: related_children_def)

lemma attach_plain:
  assumes "keyed_input cf C" "keys_typed j P (node_row ` set C)" "node_row n \<in> P" "distinct (map node_row C)"
  obtains n' where "attach_child_rel (join_log_env v pf cf) j n None st = Some (n', st)" "node_row n' = node_row n"
    "slot_rows (jn_rel_slot j) n' = children_of j (node_row ` set C) (node_row n)"
  by (rule related_rows [OF assms, where v = v and pf = pf and st = st]) (simp add: attach_child_rel_def slot_rows_def)

lemma same_pk_identifies:
  assumes "same_pk r r pk = Some True" "same_pk r s pk = Some b"
  shows "row_equals_for_compound_key r s pk = Some b"
proof -
  have "cols_equal r s ks = Some b" if "same_pk r r ks = Some True" "same_pk r s ks = Some b" for ks
    using that
  proof (induction ks)
    case (Cons k ks)
    obtain x y where xy: "row_col r k = Some x" "row_col s k = Some y" using Cons.prems(2) by (auto split: bind_splits)
    have "x \<notin> {Absent, Null}" using Cons.prems(1) xy(1) by (cases x) auto
    then have "values_equal x y = map_option (\<lambda>o'. o' = Equal) (compare_values x y)" by (cases x; cases y) auto
    then show ?case using Cons xy by (auto split: bind_splits if_splits)
  qed simp
  then show ?thesis using assms by (simp add: row_equals_for_compound_key_def)
qed

lemma other_row_iff:
  assumes "\<forall>n\<in>set ns. row_equals_for_compound_key (node_row n) r pk = Some (node_row n = r)"
  shows "some_other_row ns r pk = Some (node_row ` set ns - {r} \<noteq> {})"
  using assms by (induction ns) auto

section \<open>The splice of a change that already shows\<close>

lemma retain_other_rows:
  assumes "\<forall>n\<in>set ns. same_pk (node_row n) r pk \<noteq> None"
  shows "\<exists>ms. retain_other_pk ns r pk = Some ms \<and> node_row ` set ms = {s \<in> node_row ` set ns. same_pk s r pk = Some False} \<and> set ms \<subseteq> set ns"
  using assms
proof (induction ns)
  case (Cons n ns)
  obtain ms where ms: "retain_other_pk ns r pk = Some ms" "node_row ` set ms = {s \<in> node_row ` set ns. same_pk s r pk = Some False}" "set ms \<subseteq> set ns"
    using Cons by auto
  obtain b where b: "same_pk (node_row n) r pk = Some b" using Cons.prems by auto
  show ?case
  proof (cases b)
    case True
    then show ?thesis using ms b by auto
  next
    case False
    have "node_row ` set (n # ms) = {s \<in> node_row ` set (n # ns). same_pk s r pk = Some False}" using ms(2) b False by auto
    moreover have "retain_other_pk (n # ns) r pk = Some (n # ms)" using ms(1) b False by simp
    moreover have "set (n # ms) \<subseteq> set (n # ns)" using ms(3) by auto
    ultimately show ?thesis by blast
  qed
qed simp

lemma splice_post_rows:
  assumes R: "child_rows_ok ty j R" and R': "child_rows_ok ty j R'" and step: "rows_after c R = Some R'" "for_child_change c = Some ov"
    and base: "node_row ` set base = children_of j R' p"
    and hit: "is_join_match p (jn_parent_key j) (overlay_row ov) (jn_child_key j) = Some True" "joins j p (overlay_row ov)"
    and edit: "\<And>n old. c = Edit n old \<Longrightarrow> same_pk (node_row n) (node_row old) (jn_child_pk j) \<noteq> None"
  shows "\<exists>ms. splice_join_overlay base ov p (jn_parent_key j) (jn_child_key j) (jn_child_pk j) (jn_child_sort j) = Some ms \<and>
    node_row ` set ms = children_of j R' p"
proof -
  let ?pk = "jn_child_pk j"
  have sub: "node_row n \<in> R'" if "n \<in> set base" for n using base that by (auto simp: children_of_def)
  have readd: "readd_if_absent ns x ?pk = Some (if x \<in> node_row ` set ns then ns else ns @ [leaf x])"
    if "x \<in> R'" "node_row ` set ns \<subseteq> R'" for ns x
  proof -
    have "\<forall>n\<in>set ns. same_pk (node_row n) x ?pk = Some (node_row n = x)" using that R' by (auto simp: child_rows_ok_def)
    from any_same_pk_iff [OF this] show ?thesis by (simp add: readd_if_absent_def)
  qed
  have fin: ?thesis if "(case ov of AddRow r \<Rightarrow> add_if_matches p (jn_parent_key j) (jn_child_key j) ?pk base r | RemoveRow r \<Rightarrow> retain_other_pk base r ?pk
      | EditRow r old \<Rightarrow> retain_other_pk base old ?pk \<bind> (\<lambda>kept. add_if_matches p (jn_parent_key j) (jn_child_key j) ?pk kept r)) = Some ms"
    "node_row ` set ms = children_of j R' p" for ms
    using that sorted_rows [OF R', of ms] by (auto simp: splice_join_overlay_def children_of_def)
  show ?thesis
  proof (cases c)
    case (Add n)
    then have n: "node_row n \<in> R'" "ov = AddRow (node_row n)" using step by (auto split: if_splits)
    then have "node_row n \<in> node_row ` set base" using base hit(2) by (auto simp: children_of_def)
    moreover have "node_row ` set base \<subseteq> R'" using base by (auto simp: children_of_def)
    ultimately show ?thesis by (intro fin [of base]) (use n hit(1) readd base in \<open>simp_all add: add_if_matches_def\<close>)
  next
    case (Remove n)
    then have n: "node_row n \<in> R" "R' = R - {node_row n}" "ov = RemoveRow (node_row n)" using step by (auto split: if_splits)
    have no: "\<forall>m\<in>set base. same_pk (node_row m) (node_row n) ?pk = Some False" using sub R n by (auto simp: child_rows_ok_def)
    obtain ms where ms: "retain_other_pk base (node_row n) ?pk = Some ms" "node_row ` set ms = {s \<in> node_row ` set base. same_pk s (node_row n) ?pk = Some False}"
      using retain_other_rows [of base "node_row n" ?pk] no by auto
    have "node_row ` set ms = node_row ` set base" using ms(2) no by auto
    then show ?thesis by (intro fin [of ms]) (use n ms(1) base in simp_all)
  next
    case (Edit n old)
    then have n: "node_row old \<in> R" "R' = insert (node_row n) (R - {node_row old})" "ov = EditRow (node_row n) (node_row old)"
      using step by (auto split: if_splits)
    have no: "same_pk r (node_row old) ?pk = Some False" if "r \<in> R'" "r \<noteq> node_row n" for r using that R n by (auto simp: child_rows_ok_def)
    have def: "\<forall>m\<in>set base. same_pk (node_row m) (node_row old) ?pk \<noteq> None"
    proof
      fix m assume "m \<in> set base"
      then show "same_pk (node_row m) (node_row old) ?pk \<noteq> None" using no [of "node_row m"] edit [OF Edit] sub by (cases "node_row m = node_row n") auto
    qed
    obtain ms where ms: "retain_other_pk base (node_row old) ?pk = Some ms" "node_row ` set ms = {s \<in> node_row ` set base. same_pk s (node_row old) ?pk = Some False}"
      using retain_other_rows [OF def] by blast
    have n_in: "node_row n \<in> children_of j R' p" using hit(2) n by (simp add: children_of_def)
    have eq: "insert (node_row n) (node_row ` set ms) = children_of j R' p"
      using ms(2) base no n_in by (auto simp: children_of_def)
    then have "node_row ` set ms \<subseteq> R'" by (auto simp: children_of_def)
    then have "add_if_matches p (jn_parent_key j) (jn_child_key j) ?pk ms (node_row n) = Some (if node_row n \<in> node_row ` set ms then ms else ms @ [leaf (node_row n)])"
      using hit(1) n readd [of "node_row n" ms] by (simp add: add_if_matches_def)
    moreover have "node_row ` set (if node_row n \<in> node_row ` set ms then ms else ms @ [leaf (node_row n)]) = children_of j R' p"
      unfolding eq [symmetric] by (simp add: leaf_def insert_absorb)
    ultimately show ?thesis by (intro fin) (use n(3) ms(1) in simp_all)
  next
    case (Child n rel ch)
    then show ?thesis using step by simp
  qed
qed

section \<open>The child port\<close>

lemma shared_children:
  assumes "joins j p x" "joins j q x"
  shows "children_of j R p = children_of j R q"
proof -
  have one: "joins j b r" if "joins j a x" "joins j b x" "joins j a r" for a b r
  proof -
    let ?k = "jn_parent_key j" and ?l = "jn_child_key j"
    have len: "length ?k = length ?l" using that(1) by (simp add: joins_def list_all2_lengthD)
    have "cells_join (b ! (?k ! i)) (r ! (?l ! i))" if i: "i < length ?k" for i
    proof -
      have "cells_join (a ! (?k ! i)) (x ! (?l ! i))" "cells_join (b ! (?k ! i)) (x ! (?l ! i))" "cells_join (a ! (?k ! i)) (r ! (?l ! i))"
        using \<open>joins j a x\<close> \<open>joins j b x\<close> \<open>joins j a r\<close> i by (simp_all add: joins_def list_all2_conv_all_nth)
      then have "cells_join (b ! (?k ! i)) (a ! (?k ! i))" using cells_join_sym [of "x ! (?l ! i)"] cells_join_trans by blast
      then show ?thesis using cells_join_trans \<open>cells_join (a ! (?k ! i)) (r ! (?l ! i))\<close> by blast
    qed
    then show ?thesis using len by (simp add: joins_def list_all2_conv_all_nth)
  qed
  show ?thesis unfolding children_of_def using one [OF assms] one [OF assms(2,1)] by blast
qed

definition inner_stage :: "join_op \<Rightarrow> node list \<Rightarrow> node list \<Rightarrow> row set \<Rightarrow> change \<Rightarrow> row set \<Rightarrow> join_tree" where
  "inner_stage j P C R c D = (\<lambda>p. if joins j p (primary_row c) \<and> p \<notin> D then inner_tree_of j (node_row ` set P) R p
     else inner_tree_of j (node_row ` set P) (node_row ` set C) p)"

lemma inner_stage_ends:
  assumes "child_step_ok tp tc j P C R c"
  shows "inner_stage j P C R c {} = inner_tree_of j (node_row ` set P) R"
    "inner_stage j P C R c (node_row ` set (hit_parents j P c)) = inner_tree_of j (node_row ` set P) (node_row ` set C)"
proof -
  show "inner_stage j P C R c {} = inner_tree_of j (node_row ` set P) R"
    using unrelated_parent [OF assms] by (auto simp: inner_stage_def inner_tree_of_def fun_eq_iff)
  show "inner_stage j P C R c (node_row ` set (hit_parents j P c)) = inner_tree_of j (node_row ` set P) (node_row ` set C)"
  proof
    fix p
    show "inner_stage j P C R c (node_row ` set (hit_parents j P c)) p = inner_tree_of j (node_row ` set P) (node_row ` set C) p"
    proof (cases "p \<in> node_row ` set P")
      case True
      then show ?thesis by (auto simp: inner_stage_def)
    next
      case False
      then show ?thesis by (simp add: inner_stage_def inner_tree_of_def)
    qed
  qed
qed

text \<open>Whether a parent stays in the result when the change of one of its children is applied.\<close>

definition stays :: "join_op \<Rightarrow> node list \<Rightarrow> row set \<Rightarrow> row \<Rightarrow> bool" where
  "stays j C R p \<longleftrightarrow> children_of j R p \<noteq> {} \<and> children_of j (node_row ` set C) p \<noteq> {}"

lemma change_at_parent:
  assumes ok: "child_step_ok tp tc j P C R c" and p: "joins j p (primary_row c)"
  shows "rows_after c (children_of j R p) = Some (children_of j (node_row ` set C) p)"
    "c = Add n \<Longrightarrow> children_of j (node_row ` set C) p = insert (node_row n) (children_of j R p) \<and> node_row n \<notin> children_of j R p"
    "c = Remove n \<Longrightarrow> children_of j (node_row ` set C) p = children_of j R p - {node_row n} \<and> node_row n \<in> children_of j R p"
    "c = Edit n old \<Longrightarrow> stays j C R p"
proof -
  show r: "rows_after c (children_of j R p) = Some (children_of j (node_row ` set C) p)" by (rule rows_after_children [OF ok p])
  show "c = Add n \<Longrightarrow> children_of j (node_row ` set C) p = insert (node_row n) (children_of j R p) \<and> node_row n \<notin> children_of j R p"
    "c = Remove n \<Longrightarrow> children_of j (node_row ` set C) p = children_of j R p - {node_row n} \<and> node_row n \<in> children_of j R p"
    "c = Edit n old \<Longrightarrow> stays j C R p"
    using r by (auto simp: stays_def split: if_splits)
qed

lemma other_child_stays:
  assumes ok: "child_step_ok tp tc j P C R c" and cf: "keyed_input cf C" and p: "p \<in> node_row ` set P" "joins j p (primary_row c)"
    and kind: "c = Add n \<or> c = Remove n"
  shows "parent_has_other_child (join_log_env v pf cf) j p (primary_row c) st = Some (stays j C R p, st)"
proof -
  note ok' = ok [unfolded child_step_ok_def]
  have typed: "keys_typed j (node_row ` set P) (node_row ` set C)" "distinct (map node_row C)" using ok' keys_typed_mono [OF _ order.refl] by auto
  obtain base where b: "related_children (join_log_env v pf cf) j p st = Some (base, st)"
    "node_row ` set base = children_of j (node_row ` set C) p" by (rule related_rows [OF cf typed(1) p(1) typed(2)])
  have sub: "node_row m \<in> node_row ` set C" if "m \<in> set base" for m
  proof -
    have "node_row m \<in> children_of j (node_row ` set C) p" using that b(2) by blast
    then show ?thesis by (simp add: children_of_def)
  qed
  have pk: "row_equals_for_compound_key r (node_row n) (jn_child_pk j) = Some (r = node_row n)" if r: "r \<in> node_row ` set C" for r
  proof -
    have "same_pk r (node_row n) (jn_child_pk j) = Some (r = node_row n)"
    proof (cases "c = Add n")
      case True
      then have "node_row n \<in> node_row ` set C" using ok' by (auto split: if_splits)
      then show ?thesis using ok' r unfolding child_rows_ok_def by blast
    next
      case False
      then have "rows_after (Remove n) R = Some (node_row ` set C)" using kind ok' by auto
      then have "r \<in> R" "node_row n \<in> R" using r by (auto split: if_splits)
      moreover have "\<forall>r\<in>R. \<forall>s\<in>R. same_pk r s (jn_child_pk j) = Some (r = s)" using ok' unfolding child_rows_ok_def by blast
      ultimately show ?thesis by blast
    qed
    moreover have "same_pk r r (jn_child_pk j) = Some (r = r)" using ok' r unfolding child_rows_ok_def by blast
    then have "same_pk r r (jn_child_pk j) = Some True" by simp
    ultimately show ?thesis by (rule same_pk_identifies [rotated])
  qed
  have "some_other_row base (node_row n) (jn_child_pk j) = Some (children_of j (node_row ` set C) p - {node_row n} \<noteq> {})"
    unfolding b(2) [symmetric] by (rule other_row_iff) (use pk sub in blast)
  moreover have "(children_of j (node_row ` set C) p - {node_row n} \<noteq> {}) = stays j C R p"
    using kind change_at_parent(2,3) [OF ok p(2)] unfolding stays_def by (elim disjE) auto
  ultimately show ?thesis using b(1) kind by (auto simp: parent_has_other_child_def)
qed

lemma attach_spliced:
  assumes ok: "child_step_ok tp tc j P C R c" and cf: "keyed_input cf C" and p: "n \<in> set P" "joins j (node_row n) (primary_row c)"
    and edit: "\<And>m old. c = Edit m old \<Longrightarrow> same_pk (node_row m) (node_row old) (jn_child_pk j) \<noteq> None"
  shows "\<exists>n'. attach_child_rel (join_log_env v pf cf) j n (for_child_change c) st = Some (n', st) \<and> node_row n' = node_row n \<and>
    slot_rows (jn_rel_slot j) n' = children_of j (node_row ` set C) (node_row n)"
proof -
  note ok' = ok [unfolded child_step_ok_def]
  obtain ov where ov: "for_child_change c = Some ov" using ok' by auto
  have typed: "keys_typed j (node_row ` set P) (node_row ` set C)" "distinct (map node_row C)" using ok' keys_typed_mono [OF _ order.refl] by auto
  obtain base where b: "related_children (join_log_env v pf cf) j (node_row n) st = Some (base, st)"
    "node_row ` set base = children_of j (node_row ` set C) (node_row n)" by (rule related_rows [OF cf typed(1) _ typed(2)]) (use p(1) in auto)
  have "key_pairs_typed (node_row n) (jn_parent_key j) (primary_row c) (jn_child_key j)" using ok' p changed_row_known [OF ok] by (auto simp: keys_typed_def)
  then have "is_join_match (node_row n) (jn_parent_key j) (overlay_row ov) (jn_child_key j) = Some True"
    using p(2) ov by (simp add: is_join_match_typed joins_def)
  then obtain ms where "splice_join_overlay base ov (node_row n) (jn_parent_key j) (jn_child_key j) (jn_child_pk j) (jn_child_sort j) = Some ms"
      "node_row ` set ms = children_of j (node_row ` set C) (node_row n)"
    using splice_post_rows [of tc j R "node_row ` set C" c ov base "node_row n"] ok' ov b(2) p(2) edit by auto
  then show ?thesis using b(1) ov by (auto simp: attach_child_rel_def slot_rows_def)
qed

lemma flipped_step:
  assumes ok: "child_step_ok tp tc j P C R c" and q: "q \<in> node_row ` set P" "joins j q (primary_row c)" "q \<notin> D" and n: "node_row n = q"
  shows "stays j C R q \<Longrightarrow> deliver (jn_rel_slot j) (Child n (jn_rel_slot j) (materialize_change c)) (inner_stage j P C R c D) = Some (inner_stage j P C R c (insert q D))"
    "\<not> stays j C R q \<Longrightarrow> slot_rows (jn_rel_slot j) n = {primary_row c} \<Longrightarrow>
      deliver (jn_rel_slot j) (if change_type_of c = TAdd then Add n else Remove n) (inner_stage j P C R c D) = Some (inner_stage j P C R c (insert q D))"
proof -
  have set: "(inner_stage j P C R c D)(q := inner_tree_of j (node_row ` set P) (node_row ` set C) q) = inner_stage j P C R c (insert q D)"
    using q by (auto simp: inner_stage_def fun_eq_iff)
  have at: "inner_stage j P C R c D q = inner_tree_of j (node_row ` set P) R q" using q by (simp add: inner_stage_def)
  have owned: "rows_after (materialize_change c) K = rows_after c K" for K by (cases c) auto
  note ch = change_at_parent [OF ok q(2)]
  show "deliver (jn_rel_slot j) (Child n (jn_rel_slot j) (materialize_change c)) (inner_stage j P C R c D) = Some (inner_stage j P C R c (insert q D))" if "stays j C R q"
    using that at q(1) ch(1) set by (simp add: n owned stays_def inner_tree_of_def)
  show "deliver (jn_rel_slot j) (if change_type_of c = TAdd then Add n else Remove n) (inner_stage j P C R c D) = Some (inner_stage j P C R c (insert q D))"
    if no: "\<not> stays j C R q" "slot_rows (jn_rel_slot j) n = {primary_row c}"
  proof (cases c)
    case (Add m)
    then have "children_of j R q = {}" "children_of j (node_row ` set C) q = {primary_row c}" using no(1) ch(2) [OF Add] by (auto simp: stays_def)
    then show ?thesis using Add at set q(1) no(2) by (simp add: n inner_tree_of_def)
  next
    case (Remove m)
    then have "children_of j R q \<noteq> {}" "children_of j (node_row ` set C) q = {}" using no(1) ch(3) [OF Remove] by (auto simp: stays_def)
    then show ?thesis using Remove at set q(1) by (simp add: n inner_tree_of_def)
  next
    case (Edit m old)
    then show ?thesis using ch(4) [OF Edit] no(1) by simp
  next
    case (Child m rel x)
    then show ?thesis using ok by (simp add: child_step_ok_def)
  qed
qed

lemma flipped_fan_out_view:
  assumes ok: "child_step_ok tp tc j P C R c" and cf: "keyed_input cf C"
    and edit: "\<And>m old. c = Edit m old \<Longrightarrow> same_pk (node_row m) (node_row old) (jn_child_pk j) \<noteq> None"
  shows "set ps \<subseteq> set (hit_parents j P c) \<Longrightarrow> distinct (map node_row ps) \<Longrightarrow> D \<inter> node_row ` set ps = {} \<Longrightarrow>
    (ex \<Longrightarrow> \<forall>n\<in>set ps. stays j C R (node_row n)) \<Longrightarrow> (\<not> ex \<Longrightarrow> \<exists>n. c = Add n \<or> c = Remove n) \<Longrightarrow>
    \<exists>es. flipped_fan_out (join_log_env v pf cf) j c ex ps st = Some (st \<lparr> js_log := js_log st @ es \<rparr>) \<and>
      deliver_changes (jn_rel_slot j) (map fst es) (inner_stage j P C R c D) = Some (inner_stage j P C R c (D \<union> node_row ` set ps))"
proof (induction ps arbitrary: D ex st)
  case Nil
  show ?case by (rule exI [of _ "[]"]) simp
next
  case (Cons p ps)
  let ?q = "node_row p" and ?env = "join_log_env v pf cf"
  have q: "p \<in> set P" "joins j ?q (primary_row c)" "?q \<notin> D" using Cons.prems by auto
  have E: "(if ex then Some (True, st) else parent_has_other_child ?env j ?q (primary_row c) st) = Some (stays j C R ?q, st)"
    using Cons.prems(4,5) other_child_stays [OF ok cf _ q(2), of _ v pf st] q(1) by auto
  have same: "stays j C R (node_row n)" if "n \<in> set ps" "stays j C R ?q" for n
    using that Cons.prems(1) shared_children [OF q(2), of "node_row n"] by (auto simp: stays_def)
  obtain e where e: "serve_parent ?env j c (stays j C R ?q) p st = Some (st \<lparr> js_log := js_log st @ [(e, js_overlay st, js_position st)] \<rparr>)"
    "deliver (jn_rel_slot j) e (inner_stage j P C R c D) = Some (inner_stage j P C R c (insert ?q D))"
  proof (cases "stays j C R ?q")
    case True
    obtain n' where n': "attach_child_rel ?env j p (for_child_change c) st = Some (n', st)" "node_row n' = ?q"
      using attach_spliced [OF ok cf q(1,2) edit, of v pf st] by blast
    show ?thesis by (rule that [of "Child n' (jn_rel_slot j) (materialize_change c)"])
        (use n' True flipped_step(1) [OF ok _ q(2,3) n'(2)] q(1) in \<open>simp_all add: serve_parent_def\<close>)
  next
    case False
    let ?n = "parent_with_only_child j p (primary_row c)"
    have n: "node_row ?n = ?q" "slot_rows (jn_rel_slot j) ?n = {primary_row c}" by (simp_all add: parent_with_only_child_def slot_rows_def leaf_def)
    show ?thesis by (rule that [of "if change_type_of c = TAdd then Add ?n else Remove ?n"])
        (use False flipped_step(2) [OF ok _ q(2,3) n(1) False n(2)] q(1) in \<open>simp_all add: serve_parent_def Let_def\<close>)
  qed
  let ?st = "st \<lparr> js_log := js_log st @ [(e, js_overlay st, js_position st)] \<rparr>"
  obtain es where es: "flipped_fan_out ?env j c (stays j C R ?q) ps ?st = Some (?st \<lparr> js_log := js_log ?st @ es \<rparr>)"
    "deliver_changes (jn_rel_slot j) (map fst es) (inner_stage j P C R c (insert ?q D)) = Some (inner_stage j P C R c (insert ?q D \<union> node_row ` set ps))"
  proof (atomize_elim, rule Cons.IH)
    show "\<exists>n. c = Add n \<or> c = Remove n" if "\<not> stays j C R ?q" using that Cons.prems(4,5) by (cases ex) auto
  qed (use Cons.prems same in auto)
  show ?case
    by (rule exI [of _ "(e, js_overlay st, js_position st) # es"]) (use es e E in simp)
qed

lemma flipped_child_view:
  assumes ok: "child_step_ok tp tc j P C R c" and inputs: "keyed_input cf C" "keyed_input pf P"
    and edit: "\<And>m old. c = Edit m old \<Longrightarrow> same_pk (node_row m) (node_row old) (jn_child_pk j) \<noteq> None" and fj: "fj_keys fj = j"
  shows "\<exists>es. flipped_push (join_log_env v pf cf) fj c JoinChild st = Some (st \<lparr> js_log := js_log st @ es \<rparr>) \<and>
    deliver_changes (jn_rel_slot j) (map fst es) (inner_tree_of j (node_row ` set P) R) = Some (inner_tree_of j (node_row ` set P) (node_row ` set C))"
proof -
  let ?env = "join_log_env v pf cf" and ?M = "hit_parents j P c"
  obtain ex where ex: "flipped_push ?env fj c JoinChild st = flipped_push_child_change ?env j c ex st"
    "ex \<Longrightarrow> \<exists>n old. c = Edit n old" "\<not> ex \<Longrightarrow> \<exists>n. c = Add n \<or> c = Remove n"
  proof (cases c)
    case (Edit n old)
    then show ?thesis using that [of True] ok by (simp add: flipped_push_def flipped_push_child_def fj child_step_ok_def)
  qed (use that [of False] ok in \<open>simp_all add: flipped_push_def flipped_push_child_def fj child_step_ok_def\<close>)
  have rows: "distinct (map node_row ?M)" using ok distinct_rows_sorted by (auto simp: child_step_ok_def distinct_map_filter)
  have "\<forall>n\<in>set ?M. stays j C R (node_row n)" if "ex" using ex(2) [OF that] change_at_parent(4) [OF ok] by auto
  then obtain es where es: "flipped_fan_out ?env j c ex ?M st = Some (st \<lparr> js_log := js_log st @ es \<rparr>)"
    "deliver_changes (jn_rel_slot j) (map fst es) (inner_stage j P C R c {}) = Some (inner_stage j P C R c ({} \<union> node_row ` set ?M))"
    using flipped_fan_out_view [OF ok inputs(1) edit order.refl rows, of "{}" ex v pf st] ex(3) by auto
  then have fin: "deliver_changes (jn_rel_slot j) (map fst es) (inner_tree_of j (node_row ` set P) R) = Some (inner_tree_of j (node_row ` set P) (node_row ` set C))"
    using inner_stage_ends [OF ok] by simp
  obtain k where k: "build_join_constraint (primary_row c) (jn_child_key j) (jn_parent_key j) = Some k"
    "k = None \<Longrightarrow> ?M = []" "\<And>d. k = Some d \<Longrightarrow> pf (fetch_with_constraint d) = Some ?M"
    using parents_of_child [OF ok inputs(2)] by metis
  show ?thesis
  proof (cases k)
    case None
    then have "flipped_push ?env fj c JoinChild st = Some st" "?M = []" using k ex(1) by (simp_all add: flipped_push_child_change_def)
    moreover from this(2) have "es = []" using es(1) by (cases es) (auto dest: arg_cong [of _ _ "\<lambda>s. length (js_log s)"])
    ultimately show ?thesis using fin by (intro exI [of _ "[]"]) simp
  next
    case (Some d)
    then show ?thesis using k ex(1) es(1) fin by (intro exI [of _ es]) (simp add: flipped_push_child_change_def)
  qed
qed

section \<open>The parent port\<close>

lemma parent_key_unchanged:
  assumes "row_equals_for_compound_key old new (jn_parent_key j) = Some True"
  shows "children_of j R old = children_of j R new"
proof -
  let ?flip = "j \<lparr> jn_parent_key := jn_child_key j, jn_child_key := jn_parent_key j \<rparr>"
  have "joins ?flip r old = joins ?flip r new" for r using key_unchanged_joins [of old new ?flip r] assms by simp
  then have "joins j old r = joins j new r" for r using joins_flip [of r old j] joins_flip [of r new j] by (simp add: joins_def)
  then show ?thesis by (simp add: children_of_def)
qed

lemma inner_edit:
  assumes "old \<in> P" "new \<in> P \<longrightarrow> new = old" "children_of j R new \<noteq> {}"
  shows "(inner_tree_of j P R)(old := None, new \<mapsto> children_of j R new) = inner_tree_of j (insert new (P - {old})) R"
  using assms by (auto simp: inner_tree_of_def fun_eq_iff)

lemma flipped_parent_view:
  assumes typed: "keys_typed j (P \<union> P') (node_row ` set C)" "distinct (map node_row C)" and cf: "keyed_input cf C" and fj: "fj_keys fj = j"
    and step: "rows_after c P = Some P'"
    and edit: "\<And>n old. c = Edit n old \<Longrightarrow> row_equals_for_compound_key (node_row old) (node_row n) (jn_parent_key j) = Some True"
    and other: "\<And>n rel ch. c = Child n rel ch \<Longrightarrow> rel \<noteq> jn_rel_slot j"
  shows "\<exists>es. flipped_push (join_log_env v pf cf) fj c JoinParent st = Some (st \<lparr> js_log := js_log st @ es \<rparr>) \<and> length es \<le> 1 \<and>
    deliver_changes (jn_rel_slot j) (map fst es) (inner_tree_of j P (node_row ` set C)) = Some (inner_tree_of j P' (node_row ` set C))"
proof -
  let ?env = "join_log_env v pf cf" and ?R = "node_row ` set C"
  have rows: "primary_row c \<in> P \<union> P'" "\<And>n old. c = Edit n old \<Longrightarrow> node_row old \<in> P \<union> P'"
    using step by (cases c; force split: if_splits) (use step in \<open>auto split: if_splits\<close>)
  have att: "\<exists>n'. attach_child_rel ?env j n None st = Some (n', st) \<and> node_row n' = node_row n \<and> slot_rows (jn_rel_slot j) n' = children_of j ?R (node_row n)"
    if "node_row n \<in> P \<union> P'" for n by (rule attach_plain [OF cf typed(1) that typed(2), where v = v and pf = pf and st = st]) blast
  have has: "has_related_child ?env j p st = Some (children_of j ?R p \<noteq> {}, st)" if "p \<in> P \<union> P'" for p
  proof (rule related_rows [OF cf typed(1) that typed(2), where v = v and pf = pf and st = st])
    fix base assume "related_children ?env j p st = Some (base, st)" "node_row ` set base = children_of j ?R p"
    moreover from this(2) have "(base \<noteq> []) = (children_of j ?R p \<noteq> {})" by auto
    ultimately show ?thesis by (simp add: has_related_child_def)
  qed
  have none: ?thesis if "flipped_push ?env fj c JoinParent st = Some st" "inner_tree_of j P ?R = inner_tree_of j P' ?R"
    using that by (intro exI [of _ "[]"]) simp
  have one: ?thesis if "flipped_push ?env fj c JoinParent st = je_push ?env e st" "deliver (jn_rel_slot j) e (inner_tree_of j P ?R) = Some (inner_tree_of j P' ?R)" for e
    using that by (intro exI [of _ "[(e, js_overlay st, js_position st)]"]) simp
  show ?thesis
  proof (cases "children_of j ?R (primary_row c) = {}")
    case True
    then have "flipped_push ?env fj c JoinParent st = Some st" using has [OF rows(1)] edit by (cases c) (simp_all add: flipped_push_def fj)
    moreover have "inner_tree_of j P ?R = inner_tree_of j P' ?R"
    proof (cases c)
      case (Edit n old)
      then have "children_of j ?R (node_row old) = {}" using True parent_key_unchanged [OF edit [OF Edit], of ?R] by simp
      then show ?thesis using Edit True step by (auto simp: inner_tree_of_def fun_eq_iff split: if_splits)
    qed (use True step in \<open>auto simp: inner_tree_of_def fun_eq_iff split: if_splits\<close>)
    ultimately show ?thesis by (rule none)
  next
    case False
    note h = has [OF rows(1)]
    show ?thesis
    proof (cases c)
      case (Add n)
      then obtain n' where "attach_child_rel ?env j n None st = Some (n', st)" "node_row n' = node_row n" "slot_rows (jn_rel_slot j) n' = children_of j ?R (node_row n)"
        using att [of n] rows(1) by auto
      then show ?thesis using Add h False step
        by (intro one [of "Add n'"]) (auto simp: flipped_push_def fj inner_tree_of_def fun_eq_iff split: if_splits)
    next
      case (Remove n)
      then obtain n' where "attach_child_rel ?env j n None st = Some (n', st)" "node_row n' = node_row n" using att [of n] rows(1) by auto
      then show ?thesis using Remove h False step
        by (intro one [of "Remove n'"]) (auto simp: flipped_push_def fj inner_tree_of_def fun_eq_iff split: if_splits)
    next
      case (Edit n old)
      obtain n' where n': "attach_child_rel ?env j n None st = Some (n', st)" "node_row n' = node_row n" "slot_rows (jn_rel_slot j) n' = children_of j ?R (node_row n)"
        using att [of n] rows(1) Edit by auto
      obtain o' where o': "attach_child_rel ?env j old None st = Some (o', st)" "node_row o' = node_row old" using att [of old] rows(2) [OF Edit] by auto
      have "children_of j ?R (node_row old) = children_of j ?R (node_row n)" by (rule parent_key_unchanged [OF edit [OF Edit]])
      moreover have old: "node_row old \<in> P" "node_row n \<in> P \<longrightarrow> node_row n = node_row old" "P' = insert (node_row n) (P - {node_row old})"
        using step Edit by (auto split: if_splits)
      ultimately have "deliver (jn_rel_slot j) (Edit n' o') (inner_tree_of j P ?R) = Some (inner_tree_of j P' ?R)"
        using inner_edit [of "node_row old" P "node_row n" j ?R] False Edit n' o' by (simp add: inner_tree_of_def)
      moreover have "flipped_push ?env fj c JoinParent st = je_push ?env (Edit n' o') st"
        using Edit h False n'(1) o'(1) edit [OF Edit] by (simp add: flipped_push_def fj)
      ultimately show ?thesis by (intro one)
    next
      case (Child n rel ch)
      then obtain n' where "attach_child_rel ?env j n None st = Some (n', st)" "node_row n' = node_row n" using att [of n] rows(1) by auto
      then show ?thesis using Child h False step other [OF Child]
        by (intro one [of "Child n' rel ch"]) (auto simp: flipped_push_def fj inner_tree_of_def split: if_splits)
    qed
  qed
qed

text \<open>(C13) A change of a child keeps a view of the inner join up to date: a parent whose only matching child appears or disappears is
  added or removed with exactly that child, every other matching parent gets the change of its child, each of these changes fits the view it
  meets, and at the end the view holds exactly the parents with a matching child, each with its children.\<close>

theorem flipped_child_push_consistent:
  assumes ok: "child_step_ok tp tc j P C R c" and inputs: "keyed_input cf C" "keyed_input pf P"
    and edit: "\<And>m old. c = Edit m old \<Longrightarrow> same_pk (node_row m) (node_row old) (jn_child_pk j) \<noteq> None" and fj: "fj_keys fj = j"
  shows "\<exists>es. flipped_push (join_log_env v pf cf) fj c JoinChild st = Some (st \<lparr> js_log := js_log st @ es \<rparr>) \<and>
    deliver_changes (jn_rel_slot j) (map fst es) (inner_tree_of j (node_row ` set P) R) = Some (inner_tree_of j (node_row ` set P) (node_row ` set C))"
  by (rule flipped_child_view [OF assms])

theorem flipped_child_push_consistent_witness:
  "\<exists>es. flipped_push (join_log_env True (list_input [leaf [IntV 1, IntV 7], leaf [IntV 2, IntV 7]]) (list_input []))
      (flipped_new sample_join) (Remove (leaf [IntV 4, IntV 7])) JoinChild idle_join = Some (idle_join \<lparr> js_log := es \<rparr>) \<and>
    deliver_changes 0 (map fst es) (inner_tree_of sample_join {[IntV 1, IntV 7], [IntV 2, IntV 7]} {[IntV 4, IntV 7]}) =
      Some (inner_tree_of sample_join {[IntV 1, IntV 7], [IntV 2, IntV 7]} {})"
proof -
  have ok: "child_step_ok (\<lambda>_. KNum) (\<lambda>_. KNum) sample_join [leaf [IntV 1, IntV 7], leaf [IntV 2, IntV 7]] [] {[IntV 4, IntV 7]} (Remove (leaf [IntV 4, IntV 7]))"
    unfolding child_step_ok_def sample_join_def leaf_def
    by (auto simp: child_rows_ok_def keys_typed_def key_pairs_typed_def row_ok_def row_col_def vec_get_def compare_cell_def cmp_of_def apply_dir_def exI [of _ KNum])
  show ?thesis
    using flipped_child_push_consistent [OF ok list_input_ok(1) list_input_ok(1) _, of "flipped_new sample_join" True idle_join]
    by (auto simp: flipped_new_def idle_join_def sample_join_def leaf_def)
qed

end
