(* ===== verification/Flipped_Fetch.thy ===== *)
theory Flipped_Fetch
  imports Flipped_View
begin

text \<open>
  What the flipped join fetches: the parents of the request that have a matching child, each with exactly its children, in the
  order of the parent scan, whatever the size of the batches the parents are asked for in.
\<close>

section \<open>Typed keys\<close>


text \<open>Typed inputs of a join: the key columns of both sides have the same kinds.\<close>

definition join_typed :: "(col_id \<Rightarrow> kind) \<Rightarrow> nat \<Rightarrow> (col_id \<Rightarrow> kind) \<Rightarrow> nat \<Rightarrow> join_op \<Rightarrow> bool" where
  "join_typed tp wp tc wc j \<longleftrightarrow> list_all2 (\<lambda>a b. a < wp \<and> b < wc \<and> tp a = tc b) (jn_parent_key j) (jn_child_key j)"

lemma join_typed_keys:
  assumes "join_typed tp wp tc wc j" "\<forall>p\<in>P. typed_row tp wp p" "\<forall>r\<in>R. typed_row tc wc r"
  shows "keys_typed j P R"
  using assms unfolding join_typed_def keys_typed_def key_pairs_typed_def typed_row_def list_all2_conv_all_nth
  by (auto simp: in_set_conv_nth) metis

lemma child_key_constraint:
  assumes typed: "join_typed tp wp tc wc j" and r: "typed_row tc wc r"
  obtains k where "build_join_constraint r (jn_child_key j) (jn_parent_key j) = Some k"
    "k = None \<Longrightarrow> \<exists>c\<in>set (jn_child_key j). r ! c = Null"
    "\<And>d. k = Some d \<Longrightarrow> d = zip (jn_parent_key j) (map ((!) r) (jn_child_key j)) \<and> typed_constraint tp wp d \<and>
       canonical_key_of_constraint d = map (\<lambda>c. canon_of (r ! c)) (jn_child_key j)"
proof -
  let ?d = "zip (jn_parent_key j) (map ((!) r) (jn_child_key j))"
  have len: "length (jn_parent_key j) = length (jn_child_key j)" using typed by (simp add: join_typed_def list_all2_lengthD)
  have range: "\<forall>f\<in>set (jn_child_key j). f < length r" using typed r by (auto simp: join_typed_def typed_row_def list_all2_conv_all_nth in_set_conv_nth)
  have "typed_constraint tp wp ?d" using typed r
    by (auto simp: join_typed_def typed_row_def typed_constraint_def list_all2_conv_all_nth set_zip)
  moreover have "canonical_key_of_constraint ?d = map (\<lambda>c. canon_of (r ! c)) (jn_child_key j)"
    using len by (simp add: canonical_key_of_constraint_def list_eq_iff_nth_eq)
  ultimately show ?thesis by (intro that [OF build_join_constraint_ok [OF range len]]) (auto split: if_splits)
qed

text \<open>The parent's side of a key: a parent matches the constraint of a child exactly when they join, and then their canonical
  keys agree; a parent without nulls in its key joins every child of its canonical key.\<close>

lemma parent_matches_child:
  assumes typed: "join_typed tp wp tc wc j" and p: "typed_row tp wp p" and r: "typed_row tc wc r"
    and d: "build_join_constraint r (jn_child_key j) (jn_parent_key j) = Some (Some d)"
  shows "constraint_matches p d = Some (joins j p r)"
    "joins j p r \<Longrightarrow> canonical_key p (jn_parent_key j) = Some (canonical_key_of_constraint d)"
    "joins j p s \<Longrightarrow> canonical_key p (jn_parent_key j) = Some (canonical_key_of_constraint d) \<Longrightarrow> joins j p r"
proof -
  have keys: "keys_typed j {p} {r}" by (rule join_typed_keys [OF typed]) (use p r in auto)
  then have kp: "key_pairs_typed p (jn_parent_key j) r (jn_child_key j)" by (simp add: keys_typed_def)
  then have "key_pairs_typed r (jn_child_key j) p (jn_parent_key j)" by (simp add: key_pairs_typed_flip)
  then show "constraint_matches p d = Some (joins j p r)" by (rule join_hop) (use d in \<open>auto simp: joins_flip\<close>)
  have ck: "canonical_key_of_constraint d = map (\<lambda>c. canon_of (r ! c)) (jn_child_key j)"
    by (rule child_key_constraint [OF typed r]) (use d in auto)
  have cp: "canonical_key p (jn_parent_key j) = Some (map (\<lambda>c. canon_of (p ! c)) (jn_parent_key j))"
    using keys by (intro canonical_key_map) (simp add: keys_typed_def)
  have len: "length (jn_parent_key j) = length (jn_child_key j)" using typed by (simp add: join_typed_def list_all2_lengthD)
  have present: "\<forall>c\<in>set (jn_parent_key j). p ! c \<notin> {Absent, Null}" if "joins j p s" for s
    using that by (auto simp: joins_def list_all2_conv_all_nth in_set_conv_nth cells_join_def)
  have iff: "joins j p r \<longleftrightarrow> map (\<lambda>c. canon_of (p ! c)) (jn_parent_key j) = map (\<lambda>c. canon_of (r ! c)) (jn_child_key j)" if "joins j p s" for s
    using present [OF that] len cells_join_canon by (auto simp: joins_def list_eq_iff_nth_eq list_all2_conv_all_nth)
  show "joins j p r \<Longrightarrow> canonical_key p (jn_parent_key j) = Some (canonical_key_of_constraint d)" using iff [of r] cp ck by simp
  show "joins j p s \<Longrightarrow> canonical_key p (jn_parent_key j) = Some (canonical_key_of_constraint d) \<Longrightarrow> joins j p r" using iff [of s] cp ck by simp
qed

lemma index_of_nth: "index_of x ys = Some i \<Longrightarrow> i < length ys \<and> ys ! i = x"
  by (induction ys arbitrary: i) (auto split: if_splits)

lemma translate_typed:
  assumes typed: "join_typed tp wp tc wc j" and rc: "typed_constraint tp wp rc"
  shows "\<exists>out. translate_cols j rc = Some out \<and> typed_constraint tc wc out \<and>
    (\<forall>(k, v)\<in>set out. \<exists>i<length (jn_child_key j). k = jn_child_key j ! i \<and> (jn_parent_key j ! i, v) \<in> set rc)"
  using rc
proof (induction rc)
  case Nil
  show ?case by (simp add: typed_constraint_def)
next
  case (Cons cv rc)
  obtain col v where cv: "cv = (col, v)" by fastforce
  have v: "conforms (tp col) v" "typed_constraint tp wp rc" using Cons.prems by (auto simp: typed_constraint_def cv)
  obtain out where out: "translate_cols j rc = Some out" "typed_constraint tc wc out"
    "\<forall>(k, v)\<in>set out. \<exists>i<length (jn_child_key j). k = jn_child_key j ! i \<and> (jn_parent_key j ! i, v) \<in> set rc"
    using Cons.IH [OF v(2)] by blast
  have weak: "\<forall>(k, v)\<in>set out. \<exists>i<length (jn_child_key j). k = jn_child_key j ! i \<and> (jn_parent_key j ! i, v) \<in> set (cv # rc)"
    using out(3) by fastforce
  show ?case
  proof (cases "index_of col (jn_parent_key j)")
    case None
    then show ?thesis using out weak by (simp add: cv)
  next
    case (Some i)
    have i: "i < length (jn_parent_key j)" "jn_parent_key j ! i = col" using index_of_nth [OF Some] by auto
    then have c: "i < length (jn_child_key j)" "jn_child_key j ! i < wc" "tc (jn_child_key j ! i) = tp col"
      using typed by (auto simp: join_typed_def list_all2_conv_all_nth)
    then have "typed_constraint tc wc ((jn_child_key j ! i, v) # out)" using out(2) v(1) by (simp add: typed_constraint_def)
    then show ?thesis using Some out(1) weak c(1) i(2) by (auto simp: cv vec_get_def)
  qed
qed

text \<open>The children a fetch reads: all that join a parent of the scan are among them.\<close>

lemma children_read:
  assumes typed: "join_typed tp wp tc wc j" and T: "\<forall>n\<in>set T. typed_row tp wp (node_row n)" and C: "\<forall>n\<in>set C. typed_row tc wc (node_row n)"
    and rc: "\<forall>c. rc = Some c \<longrightarrow> typed_constraint tp wp c \<and> (\<forall>n\<in>set T. constraint_matches (node_row n) c = Some True)"
    and cf: "keyed_input cf C" "cf fetch_all = Some C"
  shows "\<exists>cc Ch. translate_constraint j rc = Some cc \<and> cf (fetch_all \<lparr> req_constraint := cc \<rparr>) = Some Ch \<and> set Ch \<subseteq> set C \<and>
    (\<forall>p\<in>set T. \<forall>n\<in>set C. joins j (node_row p) (node_row n) \<longrightarrow> n \<in> set Ch)"
proof (cases rc)
  case None
  have "fetch_all \<lparr> req_constraint := None \<rparr> = fetch_all" by (simp add: fetch_all_def)
  then show ?thesis using None cf(2) by (simp add: translate_constraint_def)
next
  case (Some c)
  obtain out where out: "translate_cols j c = Some out" "typed_constraint tc wc out"
    "\<forall>(k, v)\<in>set out. \<exists>i<length (jn_child_key j). k = jn_child_key j ! i \<and> (jn_parent_key j ! i, v) \<in> set c"
    using translate_typed [OF typed, of c] rc Some by blast
  have hit: "constraint_matches (node_row n) out = Some True" if p: "p \<in> set T" "n \<in> set C" "joins j (node_row p) (node_row n)" for p n
  proof -
    have "constraint_matches (node_row p) c = Some (\<forall>(col, v)\<in>set c. cells_join (node_row p ! col) v)"
      by (rule constraint_matches_typed) (use rc Some T p(1) in auto)
    then have pc: "\<forall>(col, v)\<in>set c. cells_join (node_row p ! col) v" using rc Some p(1) by auto
    have "cells_join (node_row n ! k) v" if kv: "(k, v) \<in> set out" for k v
    proof -
      obtain i where i: "i < length (jn_child_key j)" "k = jn_child_key j ! i" "(jn_parent_key j ! i, v) \<in> set c" using out(3) kv by blast
      have "cells_join (node_row p ! (jn_parent_key j ! i)) (node_row n ! k)" using p(3) i(1,2) by (simp add: joins_def list_all2_conv_all_nth)
      moreover have "cells_join (node_row p ! (jn_parent_key j ! i)) v" using pc i(3) by blast
      ultimately show ?thesis using cells_join_trans cells_join_sym by blast
    qed
    moreover have "typed_row tc wc (node_row n)" using C p(2) by blast
    ultimately show ?thesis unfolding constraint_matches_typed [OF \<open>typed_row tc wc (node_row n)\<close> out(2)] by blast
  qed
  show ?thesis
  proof (cases "out = []")
    case True
    have "fetch_all \<lparr> req_constraint := None \<rparr> = fetch_all" by (simp add: fetch_all_def)
    then show ?thesis using Some out(1) True cf(2) by (simp add: translate_constraint_def)
  next
    case False
    then have "translate_constraint j rc = Some (Some out)" using Some out(1) by (simp add: translate_constraint_def)
    moreover have "cf (fetch_all \<lparr> req_constraint := Some out \<rparr>) = Some (filter (\<lambda>n. constraint_matches (node_row n) out = Some True) C)"
      using cf(1) by (simp add: keyed_input_def fetch_with_constraint_def)
    ultimately show ?thesis using hit by auto
  qed
qed

section \<open>The batch\<close>

definition batch_ok :: "(col_id \<Rightarrow> kind) \<Rightarrow> nat \<Rightarrow> join_op \<Rightarrow> node list \<Rightarrow> canon_val list list \<Rightarrow> multi_constraint \<Rightarrow> bool" where
  "batch_ok tc wc j A seen multi \<longleftrightarrow> set seen = canonical_key_of_constraint ` set multi \<and> distinct (map canonical_key_of_constraint multi) \<and>
     (\<forall>k\<in>set multi. \<exists>n\<in>set A. build_join_constraint (node_row n) (jn_child_key j) (jn_parent_key j) = Some (Some k))"

lemma collect_batch_ok:
  assumes typed: "join_typed tp wp tc wc j" and A: "\<forall>n\<in>set A. typed_row tc wc (node_row n)" and rc: "\<forall>c. rc = Some c \<longrightarrow> typed_constraint tp wp c"
  shows "set ns \<subseteq> set A \<Longrightarrow> batch_ok tc wc j A seen multi \<Longrightarrow>
    \<exists>seen' multi'. collect_batch j rc ns seen multi = Some (seen', multi') \<and> batch_ok tc wc j A seen' multi' \<and> set seen \<subseteq> set seen' \<and>
      (\<forall>n\<in>set ns. \<forall>d. build_join_constraint (node_row n) (jn_child_key j) (jn_parent_key j) = Some (Some d) \<and>
         (\<forall>c. rc = Some c \<longrightarrow> constraints_are_compatible d c = Some True) \<longrightarrow> canonical_key_of_constraint d \<in> set seen')"
proof (induction ns arbitrary: seen multi)
  case (Cons n ns)
  have n: "n \<in> set A" "set ns \<subseteq> set A" "typed_row tc wc (node_row n)" using Cons.prems(1) A by auto
  obtain k where k: "build_join_constraint (node_row n) (jn_child_key j) (jn_parent_key j) = Some k" "\<And>d. k = Some d \<Longrightarrow> typed_constraint tp wp d"
    by (rule child_key_constraint [OF typed n(3)]) blast
  show ?case
  proof (cases k)
    case None
    then show ?thesis using Cons.IH [OF n(2) Cons.prems(2)] k(1) by simp
  next
    case (Some d)
    have "\<exists>ok. (case rc of None \<Rightarrow> Some True | Some rc \<Rightarrow> constraints_are_compatible d rc) = Some ok \<and> (ok \<longleftrightarrow> (\<forall>c. rc = Some c \<longrightarrow> constraints_are_compatible d c = Some True))"
    proof (cases rc)
      case rc': (Some c)
      then have "typed_constraint tp wp c" "typed_constraint tp wp d" using rc k(2) [OF Some] by auto
      from compatible_typed [OF this(2,1)] show ?thesis using rc' by simp
    qed auto
    then obtain ok where ok: "(case rc of None \<Rightarrow> Some True | Some rc \<Rightarrow> constraints_are_compatible d rc) = Some ok"
      "ok \<longleftrightarrow> (\<forall>c. rc = Some c \<longrightarrow> constraints_are_compatible d c = Some True)" by blast
    let ?key = "canonical_key_of_constraint d"
    define s' m' where "s' = (if ok \<and> ?key \<notin> set seen then ?key # seen else seen)" and "m' = (if ok \<and> ?key \<notin> set seen then multi @ [d] else multi)"
    have eq: "collect_batch j rc (n # ns) seen multi = collect_batch j rc ns s' m'" using k(1) Some ok(1) by (simp add: s'_def m'_def)
    have "batch_ok tc wc j A s' m'"
      using Cons.prems(2) n(1) k(1) Some by (auto simp: batch_ok_def s'_def m'_def)
    from Cons.IH [OF n(2) this] obtain seen' multi' where r: "collect_batch j rc ns s' m' = Some (seen', multi')" "batch_ok tc wc j A seen' multi'" "set s' \<subseteq> set seen'"
      "\<forall>n\<in>set ns. \<forall>d. build_join_constraint (node_row n) (jn_child_key j) (jn_parent_key j) = Some (Some d) \<and>
         (\<forall>c. rc = Some c \<longrightarrow> constraints_are_compatible d c = Some True) \<longrightarrow> canonical_key_of_constraint d \<in> set seen'" by blast
    have "set seen \<subseteq> set s'" "ok \<Longrightarrow> ?key \<in> set s'" by (auto simp: s'_def)
    then show ?thesis using eq r k(1) Some ok(2) by auto
  qed
qed (auto simp: batch_ok_def)

abbreviation in_batch :: "multi_constraint \<Rightarrow> node \<Rightarrow> bool" where
  "in_batch w n \<equiv> \<exists>k\<in>set w. constraint_matches (node_row n) k = Some True"

text \<open>Which parents the batch admits, and that each is admitted by one entry only.\<close>

lemma batch_exact:
  assumes typed: "join_typed tp wp tc wc j" and p: "typed_row tp wp (node_row p)" and C: "\<forall>n\<in>set C. typed_row tc wc (node_row n)"
    and batch: "batch_ok tc wc j C seen multi"
    and full: "\<forall>n\<in>set C. \<forall>d. joins j (node_row p) (node_row n) \<and> build_join_constraint (node_row n) (jn_child_key j) (jn_parent_key j) = Some (Some d) \<longrightarrow>
      canonical_key_of_constraint d \<in> set seen"
  shows "in_batch multi p \<longleftrightarrow> children_of j (node_row ` set C) (node_row p) \<noteq> {}"
    "in_batch multi p \<Longrightarrow> \<exists>k. canonical_key (node_row p) (jn_parent_key j) = Some k \<and> k \<in> set seen"
    "k \<in> set multi \<Longrightarrow> l \<in> set multi \<Longrightarrow> constraint_matches (node_row p) k = Some True \<Longrightarrow> constraint_matches (node_row p) l = Some True \<Longrightarrow> k = l"
proof -
  have entry: "\<exists>n\<in>set C. joins j (node_row p) (node_row n) \<and> canonical_key (node_row p) (jn_parent_key j) = Some (canonical_key_of_constraint k)"
    if k: "k \<in> set multi" "constraint_matches (node_row p) k = Some True" for k
  proof -
    obtain n where n: "n \<in> set C" "build_join_constraint (node_row n) (jn_child_key j) (jn_parent_key j) = Some (Some k)" using batch k(1) by (auto simp: batch_ok_def)
    note m = parent_matches_child [OF typed p, of "node_row n" k]
    show ?thesis using m(1,2) C n k(2) by auto
  qed
  show "\<exists>k. canonical_key (node_row p) (jn_parent_key j) = Some k \<and> k \<in> set seen" if "in_batch multi p"
    using that entry batch by (auto simp: batch_ok_def)
  show "k = l" if "k \<in> set multi" "l \<in> set multi" "constraint_matches (node_row p) k = Some True" "constraint_matches (node_row p) l = Some True"
    using that entry [of k] entry [of l] batch by (auto simp: batch_ok_def distinct_map inj_on_def)
  show "in_batch multi p \<longleftrightarrow> children_of j (node_row ` set C) (node_row p) \<noteq> {}"
  proof
    assume "in_batch multi p"
    then show "children_of j (node_row ` set C) (node_row p) \<noteq> {}" using entry by (fastforce simp: children_of_def)
  next
    assume "children_of j (node_row ` set C) (node_row p) \<noteq> {}"
    then obtain n where n: "n \<in> set C" "joins j (node_row p) (node_row n)" by (auto simp: children_of_def)
    have tn: "typed_row tc wc (node_row n)" using C n(1) by blast
    have "\<not> (\<exists>c\<in>set (jn_child_key j). node_row n ! c = Null)"
      using n(2) cells_join_sym by (fastforce simp: joins_def list_all2_conv_all_nth in_set_conv_nth cells_join_def)
    then obtain d where d: "build_join_constraint (node_row n) (jn_child_key j) (jn_parent_key j) = Some (Some d)"
      using child_key_constraint [OF typed tn] by (metis not_Some_eq)
    then have "canonical_key_of_constraint d \<in> set seen" using full n by blast
    then obtain k where k: "k \<in> set multi" "canonical_key_of_constraint k = canonical_key_of_constraint d" using batch by (auto simp: batch_ok_def)
    obtain m where m: "m \<in> set C" "build_join_constraint (node_row m) (jn_child_key j) (jn_parent_key j) = Some (Some k)" using batch k(1) by (auto simp: batch_ok_def)
    have tm: "typed_row tc wc (node_row m)" using C m(1) by blast
    have "canonical_key (node_row p) (jn_parent_key j) = Some (canonical_key_of_constraint k)"
      using parent_matches_child(2) [OF typed p tn d n(2)] k(2) by simp
    then have "joins j (node_row p) (node_row m)" by (rule parent_matches_child(3) [OF typed p tm m(2) n(2)])
    then show "in_batch multi p" using parent_matches_child(1) [OF typed p tm m(2)] k(1) by auto
  qed
qed

section \<open>The windows\<close>

lemma one_window:
  assumes "distinct (concat ws)" "\<And>k l. k \<in> set (concat ws) \<Longrightarrow> l \<in> set (concat ws) \<Longrightarrow> Q k \<Longrightarrow> Q l \<Longrightarrow> k = l"
  shows "length (filter (\<lambda>w. \<exists>k\<in>set w. Q k) ws) = (if \<exists>k\<in>set (concat ws). Q k then 1 else 0)"
  using assms
proof (induction ws)
  case (Cons w ws)
  have IH: "length (filter (\<lambda>w. \<exists>k\<in>set w. Q k) ws) = (if \<exists>k\<in>set (concat ws). Q k then 1 else 0)" using Cons by simp
  have "\<not> (\<exists>k\<in>set (concat ws). Q k)" if w: "\<exists>k\<in>set w. Q k"
  proof -
    obtain k where k: "k \<in> set w" "Q k" using w by blast
    then show ?thesis using Cons.prems(1) Cons.prems(2) [of k] by (metis UnI1 UnI2 concat.simps(2) distinct_append disjoint_iff set_append)
  qed
  then show ?case using IH by auto
qed simp

lemma merge_windows:
  assumes "in_scan_order srt rev' T" "\<forall>n\<in>set T. row_ok ty srt (node_row n)" "distinct (concat ws)"
    and "\<And>n k l. n \<in> set T \<Longrightarrow> k \<in> set (concat ws) \<Longrightarrow> l \<in> set (concat ws) \<Longrightarrow> constraint_matches (node_row n) k = Some True \<Longrightarrow>
      constraint_matches (node_row n) l = Some True \<Longrightarrow> k = l"
  shows "merge_node_streams (map (\<lambda>w. filter (in_batch w) T) ws) srt rev' None = Some (filter (in_batch (concat ws)) T)"
proof -
  let ?bs = "map (\<lambda>w. (\<lambda>r. \<exists>k\<in>set w. constraint_matches r k = Some True, id :: node \<Rightarrow> node)) ws"
  have nodup: "dedup_nodes None None ns = Some ns" for ns by (induction ns) simp_all
  have kept: "kept_nodes ?bs n = (if in_batch (concat ws) n then [n] else [])" if "n \<in> set T" for n
  proof -
    have "length (filter (\<lambda>w. in_batch w n) ws) = (if in_batch (concat ws) n then 1 else 0)"
      by (rule one_window [OF assms(3)]) (use assms(4) that in blast)
    moreover have "kept_nodes ?bs n = map (\<lambda>w. n) (filter (\<lambda>w. in_batch w n) ws)" by (simp add: kept_nodes_def filter_map comp_def)
    ultimately show ?thesis by (simp add: map_replicate_const)
  qed
  have "concat (map (kept_nodes ?bs) S) = filter (in_batch (concat ws)) S" if "set S \<subseteq> set T" for S
    using that by (induction S) (simp_all add: kept)
  from this [OF order.refl] have "dedup_nodes None None (concat (map (kept_nodes ?bs) T)) = Some (filter (in_batch (concat ws)) T)" by (simp only: nodup)
  moreover have "merge_node_streams (map (\<lambda>b. map (snd b) (filter (keeps b) T)) ?bs) srt rev' None = dedup_nodes None None (concat (map (kept_nodes ?bs) T))"
    by (rule merge_groups [OF _ assms(1,2)]) simp
  ultimately show ?thesis by (simp add: comp_def)
qed

lemma fetch_windows_all:
  assumes "\<And>w. w \<noteq> [] \<Longrightarrow> pf (parent_batch_req req w) = Some (filter (in_batch w) T)" "\<forall>w\<in>set ws. w \<noteq> []"
  shows "fetch_windows (join_log_env v pf cf) req ws st = Some (map (\<lambda>w. filter (in_batch w) T) ws, st)"
  using assms(2) by (induction ws) (simp_all add: assms(1))

lemma attach_seen_all:
  assumes cf: "keyed_input cf C" and typed: "keys_typed j P (node_row ` set C)" "distinct (map node_row C)"
  shows "\<forall>n\<in>set ns. node_row n \<in> P \<and> (\<exists>k. canonical_key (node_row n) (jn_parent_key j) = Some k \<and> k \<in> set seen) \<Longrightarrow>
    \<exists>ns'. attach_seen (join_log_env v pf cf) j seen ns st = Some (ns', st) \<and> map node_row ns' = map node_row ns \<and>
      (\<forall>n\<in>set ns'. slot_rows (jn_rel_slot j) n = children_of j (node_row ` set C) (node_row n))"
proof (induction ns)
  case (Cons n ns)
  have "node_row n \<in> P" using Cons.prems by simp
  obtain n' where n': "attach_child_rel (join_log_env v pf cf) j n None st = Some (n', st)" "node_row n' = node_row n"
    "slot_rows (jn_rel_slot j) n' = children_of j (node_row ` set C) (node_row n)"
    by (rule attach_plain [OF cf typed(1) \<open>node_row n \<in> P\<close> typed(2), where v = v and pf = pf and st = st])
  obtain ns' where "attach_seen (join_log_env v pf cf) j seen ns st = Some (ns', st)" "map node_row ns' = map node_row ns"
    "\<forall>n\<in>set ns'. slot_rows (jn_rel_slot j) n = children_of j (node_row ` set C) (node_row n)" using Cons by auto
  then show ?case using n' Cons.prems by auto
qed simp

text \<open>The request's scan \<open>T\<close> of the parents: ordered rows that satisfy its constraint, narrowed by a further batch.\<close>

definition batched_scan :: "(col_id \<Rightarrow> kind) \<Rightarrow> nat \<Rightarrow> sort \<Rightarrow> (fetch_request \<Rightarrow> node list option) \<Rightarrow> fetch_request \<Rightarrow> node list \<Rightarrow> bool" where
  "batched_scan tp wp srt pf req T \<longleftrightarrow> (\<forall>w. w \<noteq> [] \<longrightarrow> pf (parent_batch_req req w) = Some (filter (in_batch w) T)) \<and>
     in_scan_order srt (req_reverse req) T \<and> (\<forall>n\<in>set T. row_ok tp srt (node_row n) \<and> typed_row tp wp (node_row n)) \<and>
     (\<forall>c. req_constraint req = Some c \<longrightarrow> typed_constraint tp wp c \<and> (\<forall>n\<in>set T. constraint_matches (node_row n) c = Some True))"

lemma flipped_batch:
  assumes typed: "join_typed tp wp tc wc j" and C: "\<forall>n\<in>set C. typed_row tc wc (node_row n)"
    and scan: "batched_scan tp wp (jn_parent_sort j) pf req T"
    and Ch: "set Ch \<subseteq> set C" "\<forall>p\<in>set T. \<forall>n\<in>set C. joins j (node_row p) (node_row n) \<longrightarrow> n \<in> set Ch"
  shows "\<exists>seen multi. collect_batch j (req_constraint req) Ch [] [] = Some (seen, multi) \<and> distinct multi \<and>
    (\<forall>p\<in>set T. (in_batch multi p \<longleftrightarrow> children_of j (node_row ` set C) (node_row p) \<noteq> {}) \<and>
      (in_batch multi p \<longrightarrow> (\<exists>k. canonical_key (node_row p) (jn_parent_key j) = Some k \<and> k \<in> set seen)) \<and>
      (\<forall>k\<in>set multi. \<forall>l\<in>set multi. constraint_matches (node_row p) k = Some True \<longrightarrow> constraint_matches (node_row p) l = Some True \<longrightarrow> k = l))"
proof -
  have rc: "\<forall>c. req_constraint req = Some c \<longrightarrow> typed_constraint tp wp c" using scan by (auto simp: batched_scan_def)
  obtain seen multi where b: "collect_batch j (req_constraint req) Ch [] [] = Some (seen, multi)" "batch_ok tc wc j C seen multi"
    "\<forall>n\<in>set Ch. \<forall>d. build_join_constraint (node_row n) (jn_child_key j) (jn_parent_key j) = Some (Some d) \<and>
       (\<forall>c. req_constraint req = Some c \<longrightarrow> constraints_are_compatible d c = Some True) \<longrightarrow> canonical_key_of_constraint d \<in> set seen"
    using collect_batch_ok [OF typed C rc Ch(1), of "[]" "[]"] by (auto simp: batch_ok_def)
  have full: "\<forall>n\<in>set C. \<forall>d. joins j (node_row p) (node_row n) \<and> build_join_constraint (node_row n) (jn_child_key j) (jn_parent_key j) = Some (Some d) \<longrightarrow>
      canonical_key_of_constraint d \<in> set seen" if p: "p \<in> set T" for p
  proof (intro ballI allI impI, elim conjE)
    fix n d assume n: "n \<in> set C" "joins j (node_row p) (node_row n)" "build_join_constraint (node_row n) (jn_child_key j) (jn_parent_key j) = Some (Some d)"
    have tp: "typed_row tp wp (node_row p)" "typed_row tc wc (node_row n)" using scan p C n(1) by (auto simp: batched_scan_def)
    have m: "constraint_matches (node_row p) d = Some True" using parent_matches_child(1) [OF typed tp n(3)] n(2) by simp
    have td: "typed_constraint tp wp d" by (rule child_key_constraint [OF typed tp(2)]) (use n(3) in auto)
    have "constraints_are_compatible d c = Some True" if "req_constraint req = Some c" for c
      using incompatible_constraint [OF tp(1) td _ _ m] scan p that by (auto simp: batched_scan_def)
    then show "canonical_key_of_constraint d \<in> set seen" using b(3) Ch(2) p n by blast
  qed
  have tT: "typed_row tp wp (node_row p)" if "p \<in> set T" for p using scan that by (auto simp: batched_scan_def)
  have "distinct multi" using b(2) by (auto simp: batch_ok_def distinct_map)
  moreover have "\<forall>p\<in>set T. (in_batch multi p \<longleftrightarrow> children_of j (node_row ` set C) (node_row p) \<noteq> {}) \<and>
      (in_batch multi p \<longrightarrow> (\<exists>k. canonical_key (node_row p) (jn_parent_key j) = Some k \<and> k \<in> set seen)) \<and>
      (\<forall>k\<in>set multi. \<forall>l\<in>set multi. constraint_matches (node_row p) k = Some True \<longrightarrow> constraint_matches (node_row p) l = Some True \<longrightarrow> k = l)"
  proof
    fix p assume p: "p \<in> set T"
    note x = batch_exact [OF typed tT [OF p] C b(2) full [OF p]]
    show "(in_batch multi p \<longleftrightarrow> children_of j (node_row ` set C) (node_row p) \<noteq> {}) \<and>
      (in_batch multi p \<longrightarrow> (\<exists>k. canonical_key (node_row p) (jn_parent_key j) = Some k \<and> k \<in> set seen)) \<and>
      (\<forall>k\<in>set multi. \<forall>l\<in>set multi. constraint_matches (node_row p) k = Some True \<longrightarrow> constraint_matches (node_row p) l = Some True \<longrightarrow> k = l)"
      using x by blast
  qed
  ultimately show ?thesis using b(1) by blast
qed

lemma flipped_fetch_rows:
  assumes typed: "join_typed tp wp tc wc j" and C: "\<forall>n\<in>set C. typed_row tc wc (node_row n)" "distinct (map node_row C)"
    and scan: "batched_scan tp wp (jn_parent_sort j) pf req T" and cf: "keyed_input cf C" "cf fetch_all = Some C"
    and fj: "fj_keys fj = j" "0 < fj_chunk_size fj"
  shows "\<exists>ns. flipped_fetch (join_log_env v pf cf) fj req st = Some (ns, st) \<and>
    map node_row ns = map node_row (filter (\<lambda>n. children_of j (node_row ` set C) (node_row n) \<noteq> {}) T) \<and>
    (\<forall>n\<in>set ns. slot_rows (jn_rel_slot j) n = children_of j (node_row ` set C) (node_row n))"
proof -
  let ?env = "join_log_env v pf cf"
  note sc = scan [unfolded batched_scan_def]
  obtain cc Ch where Ch: "translate_constraint j (req_constraint req) = Some cc" "cf (fetch_all \<lparr> req_constraint := cc \<rparr>) = Some Ch" "set Ch \<subseteq> set C"
    "\<forall>p\<in>set T. \<forall>n\<in>set C. joins j (node_row p) (node_row n) \<longrightarrow> n \<in> set Ch"
    using children_read [OF typed _ C(1) _ cf, of T "req_constraint req"] sc by auto
  obtain seen multi where b: "collect_batch j (req_constraint req) Ch [] [] = Some (seen, multi)" "distinct multi"
    "(\<forall>p\<in>set T. (in_batch multi p \<longleftrightarrow> children_of j (node_row ` set C) (node_row p) \<noteq> {}) \<and>
      (in_batch multi p \<longrightarrow> (\<exists>k. canonical_key (node_row p) (jn_parent_key j) = Some k \<and> k \<in> set seen)) \<and>
      (\<forall>k\<in>set multi. \<forall>l\<in>set multi. constraint_matches (node_row p) k = Some True \<longrightarrow> constraint_matches (node_row p) l = Some True \<longrightarrow> k = l))"
    using flipped_batch [OF typed C(1) scan Ch(3,4)] by blast
  let ?F = "filter (\<lambda>n. children_of j (node_row ` set C) (node_row n) \<noteq> {}) T"
  have F: "filter (in_batch multi) T = ?F" using b(3) by (intro filter_cong) blast+
  have "keys_typed j (node_row ` set T) (node_row ` set C)" by (rule join_typed_keys [OF typed]) (use sc C(1) in auto)
  then obtain ns where ns: "attach_seen ?env j seen ?F st = Some (ns, st)" "map node_row ns = map node_row ?F"
      "\<forall>n\<in>set ns. slot_rows (jn_rel_slot j) n = children_of j (node_row ` set C) (node_row n)"
    using attach_seen_all [OF cf(1) _ C(2), of j "node_row ` set T" ?F seen v pf st] b(3) by auto
  have whole: "pf (parent_batch_req req multi) = Some ?F" if "multi \<noteq> []" using sc that F by simp
  have "(if length multi \<le> fj_chunk_size fj then je_parent_fetch ?env (parent_batch_req req multi) st
      else if fj_chunk_size fj = 0 then None
      else fetch_windows ?env req (chunks (fj_chunk_size fj) multi) st \<bind> (\<lambda>(ss, st'). merge_node_streams ss (jn_parent_sort j) (req_reverse req) None \<bind> (\<lambda>ns. Some (ns, st')))) =
      Some (?F, st)" if "multi \<noteq> []"
  proof -
    note ch = chunks_facts [OF fj(2), of multi]
    have "fetch_windows ?env req (chunks (fj_chunk_size fj) multi) st = Some (map (\<lambda>w. filter (in_batch w) T) (chunks (fj_chunk_size fj) multi), st)"
      by (rule fetch_windows_all) (use sc ch in auto)
    moreover have "merge_node_streams (map (\<lambda>w. filter (in_batch w) T) (chunks (fj_chunk_size fj) multi)) (jn_parent_sort j) (req_reverse req) None = Some ?F"
      using merge_windows [of "jn_parent_sort j" "req_reverse req" T tp "chunks (fj_chunk_size fj) multi"] sc b(2,3) ch F by auto
    ultimately show ?thesis using whole [OF that] fj(2) by simp
  qed
  moreover have "?F = []" if "multi = []" using F that by simp
  ultimately show ?thesis using Ch(1,2) b(1) ns fj(1) by (cases "multi = []") (simp_all add: flipped_fetch_def fetch_batched_def Let_def)
qed

text \<open>(C12) A fetch through the flipped join returns exactly the parents of the request's scan that have a matching child, in the order of the
  scan, each with exactly its matching children. The batching changes nothing: not the translation of the request's constraint to the child, not the
  entries dropped as incompatible or repeated, not the split of a large batch into windows that are merged again.\<close>

theorem flipped_fetch_inner:
  assumes typed: "join_typed tp wp tc wc j" and C: "\<forall>n\<in>set C. typed_row tc wc (node_row n)" "distinct (map node_row C)"
    and scan: "batched_scan tp wp (jn_parent_sort j) pf req T" and cf: "keyed_input cf C" "cf fetch_all = Some C"
    and fj: "fj_keys fj = j" "0 < fj_chunk_size fj"
  shows "\<exists>ns. flipped_fetch (join_log_env v pf cf) fj req st = Some (ns, st) \<and>
    map node_row ns = map node_row (filter (\<lambda>n. children_of j (node_row ` set C) (node_row n) \<noteq> {}) T) \<and>
    (\<forall>n\<in>set ns. slot_rows (jn_rel_slot j) n = children_of j (node_row ` set C) (node_row n))"
  by (rule flipped_fetch_rows [OF assms])

lemma children_of_insert: "children_of j {} p = {}" "children_of j (insert a A) p = (if joins j p a then insert a (children_of j A p) else children_of j A p)"
  by (auto simp: children_of_def)

definition sample_parents :: "fetch_request \<Rightarrow> node list option" where
  "sample_parents req = Some (filter (\<lambda>n. \<forall>w\<in>set (multi_constraints req). in_batch w n) [leaf [IntV 1, IntV 7], leaf [IntV 2, IntV 8], leaf [IntV 3, IntV 9]])"

theorem flipped_fetch_inner_witness:
  "\<exists>ns. flipped_fetch (join_log_env True sample_parents (list_input [leaf [IntV 4, IntV 9], leaf [IntV 5, IntV 7]]))
      (with_chunk_size 1 (flipped_new sample_join)) fetch_all idle_join = Some (ns, idle_join) \<and> map node_row ns = [[IntV 1, IntV 7], [IntV 3, IntV 9]]"
proof -
  have scan: "batched_scan (\<lambda>_. KNum) 2 (jn_parent_sort sample_join) sample_parents fetch_all [leaf [IntV 1, IntV 7], leaf [IntV 2, IntV 8], leaf [IntV 3, IntV 9]]"
    by (auto simp: batched_scan_def sample_parents_def parent_batch_req_def fetch_all_def in_scan_order_def sample_join_def leaf_def row_ok_def typed_row_def
      compare_rows_rev_def compare_cell_def row_col_def vec_get_def cmp_of_def apply_dir_def less_2_cases_iff)
  have "\<exists>ns. flipped_fetch (join_log_env True sample_parents (list_input [leaf [IntV 4, IntV 9], leaf [IntV 5, IntV 7]]))
      (with_chunk_size 1 (flipped_new sample_join)) fetch_all idle_join = Some (ns, idle_join) \<and>
    map node_row ns = map node_row (filter (\<lambda>n. children_of sample_join (node_row ` set [leaf [IntV 4, IntV 9], leaf [IntV 5, IntV 7]]) (node_row n) \<noteq> {})
      [leaf [IntV 1, IntV 7], leaf [IntV 2, IntV 8], leaf [IntV 3, IntV 9]]) \<and>
    (\<forall>n\<in>set ns. slot_rows (jn_rel_slot sample_join) n = children_of sample_join (node_row ` set [leaf [IntV 4, IntV 9], leaf [IntV 5, IntV 7]]) (node_row n))"
    by (rule flipped_fetch_inner [OF _ _ _ scan list_input_ok(1), where tc = "\<lambda>_. KNum" and wc = 2])
      (auto simp: join_typed_def sample_join_def leaf_def typed_row_def less_2_cases_iff list_input_def fetch_all_def with_chunk_size_def flipped_new_def)
  then obtain ns where ns: "flipped_fetch (join_log_env True sample_parents (list_input [leaf [IntV 4, IntV 9], leaf [IntV 5, IntV 7]]))
      (with_chunk_size 1 (flipped_new sample_join)) fetch_all idle_join = Some (ns, idle_join)"
    "map node_row ns = map node_row (filter (\<lambda>n. children_of sample_join (node_row ` set [leaf [IntV 4, IntV 9], leaf [IntV 5, IntV 7]]) (node_row n) \<noteq> {})
      [leaf [IntV 1, IntV 7], leaf [IntV 2, IntV 8], leaf [IntV 3, IntV 9]])" by blast
  have "map node_row ns = [[IntV 1, IntV 7], [IntV 3, IntV 9]]" 
    unfolding ns(2) by (simp add: children_of_insert joins_def sample_join_def leaf_def cells_join_def cmp_of_def)
  then show ?thesis using ns(1) by (intro exI conjI)
qed

end
