(* ===== verification/Row_Codec.thy ===== *)
theory Row_Codec
  imports Push Bytes
begin

text \<open>
  The flat buffer of a stored row (\<open>OwnedRow\<close> and \<open>RowWriter\<close> in \<open>rust/src/value.rs\<close>): a cell count, a directory of nine bytes
  per cell and the text bytes behind it. The rest of the development works on the cells; here the buffer is shown to hold exactly them.

  The writer fills a buffer that is not initialized: \<open>None\<close> is such a byte, and declaring a buffer with one of them initialized is undefined
  behaviour, which is \<open>None\<close> here like a panic. Slicing out of range panics.
\<close>

definition ROW_HDR :: nat where "ROW_HDR = 4"
definition CELL_STRIDE :: nat where "CELL_STRIDE = 9"
definition TAG_ABSENT :: byte where "TAG_ABSENT = 0"
definition TAG_NULL :: byte where "TAG_NULL = 1"
definition TAG_BOOL :: byte where "TAG_BOOL = 2"
definition TAG_INT :: byte where "TAG_INT = 3"
definition TAG_FLOAT :: byte where "TAG_FLOAT = 4"
definition TAG_STR :: byte where "TAG_STR = 5"
definition TAG_JSON :: byte where "TAG_JSON = 6"

lemmas tag_defs = TAG_ABSENT_def TAG_NULL_def TAG_BOOL_def TAG_INT_def TAG_FLOAT_def TAG_STR_def TAG_JSON_def

definition u32_max :: nat where "u32_max = 4294967295"

definition slice :: "'a list \<Rightarrow> nat \<Rightarrow> nat \<Rightarrow> 'a list option" where
  "slice b off len = (if off + len \<le> length b then Some (take len (drop off b)) else None)"

section \<open>Reading\<close>

type_synonym flat_row = "byte list"

definition flat_len :: "flat_row \<Rightarrow> nat option" where
  "flat_len b = map_option (\<lambda>h. unat (from_le32 h)) (slice b 0 4)"

definition flat_is_empty :: "flat_row \<Rightarrow> bool option" where
  "flat_is_empty b = map_option (\<lambda>n. n = 0) (flat_len b)"

definition cell_raw :: "flat_row \<Rightarrow> nat \<Rightarrow> (byte \<times> byte list) option" where
  "cell_raw b c = do {
     n \<leftarrow> flat_len b;
     if n \<le> c then None
     else do {
       cell \<leftarrow> slice b (ROW_HDR + c * CELL_STRIDE) CELL_STRIDE;
       Some (hd cell, tl cell)
     }
   }"

definition decode_cell :: "flat_row \<Rightarrow> byte \<Rightarrow> byte list \<Rightarrow> cell_value option" where
  "decode_cell b tag payload =
     (if tag = TAG_ABSENT then Some Absent
      else if tag = TAG_NULL then Some Null
      else if tag = TAG_BOOL then Some (Bool (hd payload \<noteq> 0))
      else if tag = TAG_INT then Some (IntV (from_le64 payload))
      else if tag = TAG_FLOAT then Some (Float (from_le64 payload))
      else if tag = TAG_STR \<or> tag = TAG_JSON then do {
        bs \<leftarrow> slice b (unat (from_le32 (take 4 payload))) (unat (from_le32 (drop 4 payload)));
        Some (if tag = TAG_STR then Str bs else Json bs)
      }
      else None)"

definition flat_col :: "flat_row \<Rightarrow> nat \<Rightarrow> cell_value option" where
  "flat_col b c = do { (tag, payload) \<leftarrow> cell_raw b c; decode_cell b tag payload }"

definition flat_get :: "flat_row \<Rightarrow> nat \<Rightarrow> cell_value option option" where
  "flat_get b c = do { n \<leftarrow> flat_len b; if c < n then map_option Some (flat_col b c) else Some None }"

definition flat_cells :: "flat_row \<Rightarrow> cell_value list option" where
  "flat_cells b = do { n \<leftarrow> flat_len b; those (map (flat_col b) [0..<n]) }"

text \<open>The sort comparison reads integers and floats straight from the raw cells.\<close>

definition compare_cell_flat :: "flat_row \<Rightarrow> flat_row \<Rightarrow> nat \<Rightarrow> ordering option" where
  "compare_cell_flat a b c = do {
     (ta, pa) \<leftarrow> cell_raw a c;
     (tb, pb) \<leftarrow> cell_raw b c;
     if ta = tb \<and> ta = TAG_INT then Some (cmp_of (sint (from_le64 pa)) (sint (from_le64 pb)))
     else if ta = tb \<and> ta = TAG_FLOAT then Some (total_cmp (from_le64 pa) (from_le64 pb))
     else do { x \<leftarrow> decode_cell a ta pa; y \<leftarrow> decode_cell b tb pb; compare_values x y }
   }"

section \<open>Writing\<close>

record row_writer =
  rw_buf :: "byte option list"
  rw_cell :: nat
  rw_n :: nat
  rw_text_at :: nat

definition write_at :: "nat \<Rightarrow> byte list \<Rightarrow> row_writer \<Rightarrow> row_writer option" where
  "write_at at bs w = (if at + length bs \<le> length (rw_buf w)
     then Some (w \<lparr> rw_buf := take at (rw_buf w) @ map Some bs @ drop (at + length bs) (rw_buf w) \<rparr>) else None)"

definition writer_new :: "nat \<Rightarrow> nat \<Rightarrow> row_writer option" where
  "writer_new n text_bytes = (let dir_end = ROW_HDR + n * CELL_STRIDE; sz = dir_end + text_bytes in
     if n \<le> u32_max \<and> sz \<le> u32_max
     then write_at 0 (le32 (of_nat n)) \<lparr> rw_buf = replicate sz None, rw_cell = 0, rw_n = n, rw_text_at = dir_end \<rparr>
     else None)"

definition text_of :: "cell_value \<Rightarrow> byte list" where
  "text_of v = (case v of Str b \<Rightarrow> b | Json b \<Rightarrow> b | _ \<Rightarrow> [])"

definition writer_sized :: "cell_value list \<Rightarrow> row_writer option" where
  "writer_sized cells = writer_new (length cells) (sum_list (map (\<lambda>v. length (text_of v)) cells))"

definition cell_payload :: "nat \<Rightarrow> cell_value \<Rightarrow> byte \<times> byte list" where
  "cell_payload text_at v = (case v of
       Absent \<Rightarrow> (TAG_ABSENT, replicate 8 0)
     | Null \<Rightarrow> (TAG_NULL, replicate 8 0)
     | Bool b \<Rightarrow> (TAG_BOOL, (if b then 1 else 0) # replicate 7 0)
     | IntV i \<Rightarrow> (TAG_INT, le64 i)
     | Float f \<Rightarrow> (TAG_FLOAT, le64 f)
     | Str b \<Rightarrow> (TAG_STR, le32 (of_nat text_at) @ le32 (of_nat (length b)))
     | Json b \<Rightarrow> (TAG_JSON, le32 (of_nat text_at) @ le32 (of_nat (length b))))"

definition writer_push :: "bool \<Rightarrow> cell_value \<Rightarrow> row_writer \<Rightarrow> row_writer option" where
  "writer_push debug v w =
     (let base = ROW_HDR + rw_cell w * CELL_STRIDE; (tag, payload) = cell_payload (rw_text_at w) v in
      if debug \<and> \<not> rw_cell w < rw_n w then None
      else do {
        w1 \<leftarrow> (case v of
            Str b \<Rightarrow> write_at (rw_text_at w) b w
          | Json b \<Rightarrow> write_at (rw_text_at w) b w
          | _ \<Rightarrow> Some w);
        w2 \<leftarrow> write_at base [tag] w1;
        w3 \<leftarrow> write_at (base + 1) payload w2;
        Some (w3 \<lparr> rw_cell := rw_cell w + 1, rw_text_at := rw_text_at w + length (text_of v) \<rparr>)
      })"

definition writer_finish :: "row_writer \<Rightarrow> flat_row option" where
  "writer_finish w = (if rw_cell w = rw_n w \<and> rw_text_at w = length (rw_buf w) then those (rw_buf w) else None)"

fun push_all :: "bool \<Rightarrow> cell_value list \<Rightarrow> row_writer \<Rightarrow> row_writer option" where
  "push_all debug [] w = Some w"
| "push_all debug (v # vs) w = do { w' \<leftarrow> writer_push debug v w; push_all debug vs w' }"

definition from_owned_cells :: "bool \<Rightarrow> cell_value list \<Rightarrow> flat_row option" where
  "from_owned_cells debug cells = do { w \<leftarrow> writer_sized cells; w' \<leftarrow> push_all debug cells w; writer_finish w' }"

text \<open>A borrowed row is validated before anything is written; \<open>msg\<close> is what the standard library reports about bytes that are not UTF-8.\<close>

fun validate_cells :: "(byte list \<Rightarrow> string) \<Rightarrow> cell_value list \<Rightarrow> nat \<Rightarrow> rindle_error + nat" where
  "validate_cells msg [] txt_len = Inr txt_len"
| "validate_cells msg (v # vs) txt_len = (case v of
       Str b \<Rightarrow> if utf8_valid b then validate_cells msg vs (txt_len + length b) else Inl (InvalidUtf8 ''TEXT'' (msg b))
     | Json b \<Rightarrow> if utf8_valid b then validate_cells msg vs (txt_len + length b) else Inl (InvalidUtf8 ''JSON'' (msg b))
     | _ \<Rightarrow> validate_cells msg vs txt_len)"

definition try_from_row_ref :: "bool \<Rightarrow> (byte list \<Rightarrow> string) \<Rightarrow> cell_value list \<Rightarrow> flat_row fallible" where
  "try_from_row_ref debug msg r = (case validate_cells msg r 0 of
       Inl e \<Rightarrow> Some (Inl e)
     | Inr t \<Rightarrow> do { w \<leftarrow> writer_new (length r) t; w' \<leftarrow> push_all debug r w; b \<leftarrow> writer_finish w'; Some (Inr b) })"

section \<open>The layout\<close>

definition cell_entry :: "nat \<Rightarrow> cell_value \<Rightarrow> byte list" where
  "cell_entry off v = fst (cell_payload off v) # snd (cell_payload off v)"

fun dirs :: "nat \<Rightarrow> cell_value list \<Rightarrow> byte list" where
  "dirs off [] = []"
| "dirs off (v # vs) = cell_entry off v @ dirs (off + length (text_of v)) vs"

definition texts :: "cell_value list \<Rightarrow> byte list" where
  "texts vs = concat (map text_of vs)"

definition dir_end :: "nat \<Rightarrow> nat" where
  "dir_end n = ROW_HDR + n * CELL_STRIDE"

definition flat_of :: "cell_value list \<Rightarrow> byte list" where
  "flat_of vs = le32 (of_nat (length vs)) @ dirs (dir_end (length vs)) vs @ texts vs"

definition fits :: "cell_value list \<Rightarrow> bool" where
  "fits vs \<longleftrightarrow> dir_end (length vs) + length (texts vs) \<le> u32_max"

lemma length_cell_entry [simp]: "length (cell_entry off v) = 9"
  by (cases v) (simp_all add: cell_entry_def cell_payload_def)

lemma length_dirs [simp]: "length (dirs off vs) = 9 * length vs"
  by (induction vs arbitrary: off) simp_all

lemma texts_simps [simp]: "texts [] = []" "texts (v # vs) = text_of v @ texts vs" "texts (vs @ ws) = texts vs @ texts ws"
  by (simp_all add: texts_def)

lemma dirs_append: "dirs off (vs @ ws) = dirs off vs @ dirs (off + length (texts vs)) ws"
  by (induction vs arbitrary: off) (simp_all add: add.assoc)

lemma dirs_nth: "c < length vs \<Longrightarrow> take 9 (drop (9 * c) (dirs off vs)) = cell_entry (off + length (texts (take c vs))) (vs ! c)"
proof -
  assume "c < length vs"
  then have "vs = take c vs @ vs ! c # drop (Suc c) vs" by (simp add: id_take_nth_drop)
  then obtain ws where "dirs off vs = dirs off (take c vs) @ cell_entry (off + length (texts (take c vs))) (vs ! c) @ ws"
    by (metis dirs.simps(2) dirs_append)
  then show ?thesis using \<open>c < length vs\<close> by (simp add: min_def)
qed

lemma texts_nth: "c < length vs \<Longrightarrow> take (length (text_of (vs ! c))) (drop (length (texts (take c vs))) (texts vs)) = text_of (vs ! c)"
proof -
  assume "c < length vs"
  then have "texts vs = texts (take c vs) @ text_of (vs ! c) @ texts (drop (Suc c) vs)"
    by (metis id_take_nth_drop texts_simps(2,3))
  then show ?thesis by simp
qed

section \<open>The writer fills the layout\<close>

lemma write_gap:
  assumes "rw_buf w = A @ replicate m None @ B" "at = length A" "length bs \<le> m"
  shows "write_at at bs w = Some (w \<lparr> rw_buf := A @ map Some bs @ replicate (m - length bs) None @ B \<rparr>)"
  using assms by (simp add: write_at_def)

definition filled :: "nat \<Rightarrow> nat \<Rightarrow> cell_value list \<Rightarrow> row_writer" where
  "filled n t vs = \<lparr> rw_buf = map Some (le32 (of_nat n) @ dirs (dir_end n) vs) @ replicate (9 * (n - length vs)) None @
       map Some (texts vs) @ replicate (t - length (texts vs)) None,
     rw_cell = length vs, rw_n = n, rw_text_at = dir_end n + length (texts vs) \<rparr>"

lemma writer_new_filled:
  "writer_new n t = (if dir_end n + t \<le> u32_max then Some (filled n t []) else None)"
proof -
  have "replicate (ROW_HDR + n * CELL_STRIDE + t) None = replicate 4 None @ replicate (9 * n) None @ replicate t (None :: byte option)"
    by (simp add: replicate_add [symmetric] ROW_HDR_def CELL_STRIDE_def mult.commute)
  then have "write_at 0 (le32 (of_nat n)) \<lparr> rw_buf = replicate (ROW_HDR + n * CELL_STRIDE + t) None, rw_cell = 0, rw_n = n, rw_text_at = ROW_HDR + n * CELL_STRIDE \<rparr> = Some (filled n t [])"
    by (subst write_gap [of _ "[]" 4]) (simp_all add: filled_def dir_end_def)
  moreover have "n \<le> u32_max" if "dir_end n + t \<le> u32_max" using that by (simp add: dir_end_def CELL_STRIDE_def)
  ultimately show ?thesis by (auto simp: writer_new_def Let_def dir_end_def)
qed

lemma text_written:
  assumes "length (texts vs) + length (text_of v) \<le> t" "length vs \<le> n"
  shows "(case v of Str b \<Rightarrow> write_at (rw_text_at (filled n t vs)) b (filled n t vs) | Json b \<Rightarrow> write_at (rw_text_at (filled n t vs)) b (filled n t vs)
      | _ \<Rightarrow> Some (filled n t vs)) =
    Some (filled n t vs \<lparr> rw_buf := map Some (le32 (of_nat n) @ dirs (dir_end n) vs) @ replicate (9 * (n - length vs)) None @
       map Some (texts vs @ text_of v) @ replicate (t - length (texts vs) - length (text_of v)) None \<rparr>)"
proof -
  have "write_at (rw_text_at (filled n t vs)) (text_of v) (filled n t vs) =
      Some (filled n t vs \<lparr> rw_buf := map Some (le32 (of_nat n) @ dirs (dir_end n) vs) @ replicate (9 * (n - length vs)) None @
       map Some (texts vs @ text_of v) @ replicate (t - length (texts vs) - length (text_of v)) None \<rparr>)"
    by (subst write_gap [of _ "map Some (le32 (of_nat n) @ dirs (dir_end n) vs) @ replicate (9 * (n - length vs)) None @ map Some (texts vs)" "t - length (texts vs)" "[]"])
      (use assms in \<open>auto simp: filled_def dir_end_def ROW_HDR_def CELL_STRIDE_def algebra_simps diff_mult_distrib2\<close>)
  then show ?thesis by (cases v) (simp_all add: text_of_def filled_def)
qed

lemma push_filled:
  assumes "length vs < n" "length (texts vs) + length (text_of v) \<le> t"
  shows "writer_push debug v (filled n t vs) = Some (filled n t (vs @ [v]))"
proof -
  let ?A = "map Some (le32 (of_nat n) @ dirs (dir_end n) vs)" and ?e = "cell_payload (rw_text_at (filled n t vs)) v"
  let ?B = "map Some (texts vs @ text_of v) @ replicate (t - length (texts vs) - length (text_of v)) None"
  have len: "length (snd ?e) = 8" using length_cell_entry [of "rw_text_at (filled n t vs)" v] by (simp add: cell_entry_def)
  have gap: "9 * (n - length vs) = Suc (8 + 9 * (n - Suc (length vs)))" using assms(1) by simp
  let ?w1 = "filled n t vs \<lparr> rw_buf := ?A @ replicate (9 * (n - length vs)) None @ ?B \<rparr>"
  let ?w2 = "filled n t vs \<lparr> rw_buf := (?A @ [Some (fst ?e)]) @ replicate (8 + 9 * (n - Suc (length vs))) None @ ?B \<rparr>"
  let ?w3 = "filled n t vs \<lparr> rw_buf := (?A @ [Some (fst ?e)]) @ map Some (snd ?e) @ replicate (9 * (n - Suc (length vs))) None @ ?B \<rparr>"
  have at: "ROW_HDR + rw_cell (filled n t vs) * CELL_STRIDE = length ?A" by (simp add: filled_def ROW_HDR_def CELL_STRIDE_def)
  have w2: "write_at (ROW_HDR + rw_cell (filled n t vs) * CELL_STRIDE) [fst ?e] ?w1 = Some ?w2"
    by (subst write_gap [of ?w1 ?A "9 * (n - length vs)" ?B]) (use at gap in simp_all)
  have w3: "write_at (ROW_HDR + rw_cell (filled n t vs) * CELL_STRIDE + 1) (snd ?e) ?w2 = Some ?w3"
    by (subst write_gap [of ?w2 "?A @ [Some (fst ?e)]" "8 + 9 * (n - Suc (length vs))" ?B]) (use at len in simp_all)
  have "?w3 \<lparr> rw_cell := rw_cell (filled n t vs) + 1, rw_text_at := rw_text_at (filled n t vs) + length (text_of v) \<rparr> = filled n t (vs @ [v])"
    by (simp add: filled_def dirs_append cell_entry_def add.assoc)
  then show ?thesis using text_written [of vs v t n] assms w2 w3
    by (simp add: writer_push_def Let_def split_beta) (simp add: filled_def)
qed

lemma push_all_filled:
  "length vs + length ws \<le> n \<Longrightarrow> length (texts (vs @ ws)) \<le> t \<Longrightarrow> push_all debug ws (filled n t vs) = Some (filled n t (vs @ ws))"
proof (induction ws arbitrary: vs)
  case (Cons v ws)
  then show ?case using push_filled [of vs n v t debug] Cons.IH [of "vs @ [v]"] by simp
qed simp

lemma those_Some_list: "those (map Some xs) = Some xs"
  by (induction xs) simp_all

lemma finish_filled: "writer_finish (filled (length vs) (length (texts vs)) vs) = Some (flat_of vs)"
  using those_Some_list [of "flat_of vs"] by (simp add: writer_finish_def filled_def flat_of_def dir_end_def ROW_HDR_def CELL_STRIDE_def)

lemma text_total: "sum_list (map (\<lambda>v. length (text_of v)) vs) = length (texts vs)"
  by (induction vs) simp_all

lemma from_owned_cells_layout: "from_owned_cells debug vs = (if fits vs then Some (flat_of vs) else None)"
  using push_all_filled [of "[]" vs "length vs" "length (texts vs)" debug]
  by (simp add: from_owned_cells_def writer_sized_def text_total writer_new_filled fits_def finish_filled)

section \<open>Reading the layout\<close>

lemma flat_len_of: "fits vs \<Longrightarrow> flat_len (flat_of vs) = Some (length vs)"
proof -
  assume "fits vs"
  then have "length vs < 4294967296" by (simp add: fits_def dir_end_def CELL_STRIDE_def u32_max_def)
  then show ?thesis by (simp add: flat_len_def slice_def flat_of_def unat_of_nat)
qed

lemma cell_raw_of:
  assumes "fits vs"
  shows "cell_raw (flat_of vs) c = (if c < length vs then Some (cell_payload (dir_end (length vs) + length (texts (take c vs))) (vs ! c)) else None)"
proof (cases "c < length vs")
  case True
  have "take 9 (drop (4 + c * 9) (flat_of vs)) = take 9 (drop (9 * c) (dirs (dir_end (length vs)) vs) @ texts vs)"
    using True by (simp add: flat_of_def mult.commute)
  also have "\<dots> = cell_entry (dir_end (length vs) + length (texts (take c vs))) (vs ! c)"
    using True dirs_nth [OF True] by simp
  finally have "slice (flat_of vs) (ROW_HDR + c * CELL_STRIDE) CELL_STRIDE = Some (cell_entry (dir_end (length vs) + length (texts (take c vs))) (vs ! c))"
    using True by (simp add: slice_def ROW_HDR_def CELL_STRIDE_def flat_of_def)
  then show ?thesis using True flat_len_of [OF assms] by (simp add: cell_raw_def cell_entry_def)
next
  case False
  then show ?thesis using flat_len_of [OF assms] by (simp add: cell_raw_def)
qed

lemma text_slice:
  assumes "fits vs" "c < length vs" "text_of (vs ! c) = b"
  shows "slice (flat_of vs) (unat (of_nat (dir_end (length vs) + length (texts (take c vs))) :: 32 word)) (unat (of_nat (length b) :: 32 word)) = Some b"
proof -
  have split: "texts vs = texts (take c vs) @ b @ texts (drop (Suc c) vs)" using assms(2,3) by (metis id_take_nth_drop texts_simps(2,3))
  have "length (texts vs) = length (texts (take c vs)) + length b + length (texts (drop (Suc c) vs))" by (subst split) simp
  then have le: "dir_end (length vs) + length (texts (take c vs)) + length b \<le> dir_end (length vs) + length (texts vs)" by linarith
  then have "dir_end (length vs) + length (texts (take c vs)) < 4294967296" "length b < 4294967296" using assms(1) by (simp_all add: fits_def u32_max_def)
  moreover have "unat (of_nat k :: 32 word) = k" if "k < 4294967296" for k using that by (simp add: unat_of_nat)
  ultimately have u: "unat (of_nat (dir_end (length vs) + length (texts (take c vs))) :: 32 word) = dir_end (length vs) + length (texts (take c vs))"
    "unat (of_nat (length b) :: 32 word) = length b" by blast+
  have head: "flat_of vs = (le32 (of_nat (length vs)) @ dirs (dir_end (length vs)) vs) @ texts vs" "length (le32 (of_nat (length vs)) @ dirs (dir_end (length vs)) vs) = dir_end (length vs)"
    by (simp_all add: flat_of_def dir_end_def ROW_HDR_def CELL_STRIDE_def)
  have "drop (dir_end (length vs) + length (texts (take c vs))) (flat_of vs) = drop (length (texts (take c vs))) (texts vs)"
    unfolding head(1) using head(2) by (metis add.commute append_eq_conv_conj drop_drop)
  then have "take (length b) (drop (dir_end (length vs) + length (texts (take c vs))) (flat_of vs)) = b" using texts_nth [OF assms(2)] assms(3) by simp
  moreover have "length (flat_of vs) = dir_end (length vs) + length (texts vs)" using head by (metis length_append)
  ultimately show ?thesis unfolding u slice_def using le by simp
qed

lemma flat_col_of:
  assumes "fits vs"
  shows "flat_col (flat_of vs) c = (if c < length vs then Some (vs ! c) else None)"
proof (cases "c < length vs")
  case True
  show ?thesis
  proof (cases "vs ! c")
    case (Str b)
    then show ?thesis using True cell_raw_of [OF assms, of c] text_slice [OF assms True, of b] by (simp add: flat_col_def cell_payload_def decode_cell_def tag_defs text_of_def)
  next
    case (Json b)
    then show ?thesis using True cell_raw_of [OF assms, of c] text_slice [OF assms True, of b] by (simp add: flat_col_def cell_payload_def decode_cell_def tag_defs text_of_def)
  qed (use True cell_raw_of [OF assms, of c] in \<open>simp_all add: flat_col_def cell_payload_def decode_cell_def tag_defs\<close>)
next
  case False
  then show ?thesis using cell_raw_of [OF assms, of c] by (simp add: flat_col_def)
qed

lemma those_map_total: "(\<And>x. x \<in> set xs \<Longrightarrow> f x = Some (g x)) \<Longrightarrow> those (map f xs) = Some (map g xs)"
  by (induction xs) simp_all

lemma flat_cells_of: "fits vs \<Longrightarrow> flat_cells (flat_of vs) = Some vs"
proof -
  assume f: "fits vs"
  have "those (map (flat_col (flat_of vs)) [0..<length vs]) = Some (map ((!) vs) [0..<length vs])"
    by (rule those_map_total) (simp add: flat_col_of [OF f])
  then show ?thesis using flat_len_of [OF f] by (simp add: flat_cells_def map_nth)
qed

lemma compare_cell_flat_of:
  assumes "fits xs" "fits ys"
  shows "compare_cell_flat (flat_of xs) (flat_of ys) c = compare_cell xs ys c"
proof (cases "c < length xs \<and> c < length ys")
  case True
  have dec: "decode_cell (flat_of xs) (fst p) (snd p) = Some (xs ! c)" if "cell_raw (flat_of xs) c = Some p" for p
    using flat_col_of [OF assms(1), of c] that True by (simp add: flat_col_def split_beta)
  have dec': "decode_cell (flat_of ys) (fst p) (snd p) = Some (ys ! c)" if "cell_raw (flat_of ys) c = Some p" for p
    using flat_col_of [OF assms(2), of c] that True by (simp add: flat_col_def split_beta)
  note raw = cell_raw_of [OF assms(1), of c] cell_raw_of [OF assms(2), of c]
  have "compare_cell xs ys c = compare_values (xs ! c) (ys ! c)" using True by (simp add: compare_cell_def row_col_def vec_get_def)
  then show ?thesis using raw dec dec' True
    by (cases "xs ! c"; cases "ys ! c") (simp_all add: compare_cell_flat_def cell_payload_def tag_defs)
next
  case False
  then show ?thesis using cell_raw_of [OF assms(1), of c] cell_raw_of [OF assms(2), of c]
    by (auto simp: compare_cell_flat_def compare_cell_def row_col_def vec_get_def)
qed

lemma validate_cells_total:
  "validate_cells msg vs t = (case find (\<lambda>v. \<not> utf8_valid (text_of v)) vs of
     Some v \<Rightarrow> Inl (InvalidUtf8 (case v of Json _ \<Rightarrow> ''JSON'' | _ \<Rightarrow> ''TEXT'') (msg (text_of v))) | None \<Rightarrow> Inr (t + length (texts vs)))"
proof (induction vs arbitrary: t)
  case (Cons v vs)
  show ?case by (cases v) (simp_all add: Cons text_of_def add.assoc split: option.split)
qed simp

lemma try_from_row_ref_total:
  "try_from_row_ref debug msg vs = (case find (\<lambda>v. \<not> utf8_valid (text_of v)) vs of
     Some v \<Rightarrow> Some (Inl (InvalidUtf8 (case v of Json _ \<Rightarrow> ''JSON'' | _ \<Rightarrow> ''TEXT'') (msg (text_of v))))
   | None \<Rightarrow> map_option Inr (from_owned_cells debug vs))"
  using push_all_filled [of "[]" vs "length vs" "length (texts vs)" debug]
  by (simp add: try_from_row_ref_def validate_cells_total from_owned_cells_layout writer_new_filled fits_def finish_filled split: option.split)

section \<open>Properties\<close>

text \<open>(C26) A row is built exactly when its layout fits into 32-bit offsets, and otherwise the constructor panics; it never hands out a byte it has not
  written. The buffer has the announced size and holds exactly the cells: every column reads back as it was given, a column out of range panics.\<close>

theorem row_codec_exact:
  "(from_owned_cells debug vs \<noteq> None \<longleftrightarrow> 4 + 9 * length vs + sum_list (map (\<lambda>v. length (text_of v)) vs) \<le> 4294967295) \<and>
   (\<forall>b. from_owned_cells debug vs = Some b \<longrightarrow>
      length b = 4 + 9 * length vs + sum_list (map (\<lambda>v. length (text_of v)) vs) \<and> flat_len b = Some (length vs) \<and> flat_cells b = Some vs \<and>
      (\<forall>c. flat_col b c = row_col vs c \<and> flat_get b c = Some (row_col vs c)))"
proof -
  have f: "fits vs \<longleftrightarrow> 4 + 9 * length vs + sum_list (map (\<lambda>v. length (text_of v)) vs) \<le> 4294967295"
    by (simp add: fits_def dir_end_def ROW_HDR_def CELL_STRIDE_def u32_max_def text_total mult.commute)
  have "length (flat_of vs) = 4 + 9 * length vs + sum_list (map (\<lambda>v. length (text_of v)) vs)" by (simp add: flat_of_def text_total)
  moreover have "flat_col (flat_of vs) c = row_col vs c \<and> flat_get (flat_of vs) c = Some (row_col vs c)" if "fits vs" for c
    using flat_col_of [OF that, of c] flat_len_of [OF that] by (simp add: row_col_def vec_get_def flat_get_def)
  ultimately show ?thesis using flat_len_of flat_cells_of by (simp add: from_owned_cells_layout flip: f)
qed

theorem row_codec_exact_witness:
  "\<exists>b. from_owned_cells True [IntV 7, Str [104, 105], Null] = Some b \<and> length b = 33 \<and> flat_col b 1 = Some (Str [104, 105])"
proof -
  have "from_owned_cells True [IntV 7, Str [104, 105], Null] \<noteq> None"
    using row_codec_exact [THEN conjunct1, of True "[IntV 7, Str [104, 105], Null]"] by (simp add: text_of_def)
  then show ?thesis using row_codec_exact [THEN conjunct2, of True "[IntV 7, Str [104, 105], Null]"] by (auto simp: text_of_def row_col_def vec_get_def)
qed

text \<open>(C27) Materializing a borrowed row fails exactly on the first text that is not UTF-8, with the type of that cell, and builds the row of its cells otherwise.\<close>

theorem row_ref_validated:
  "try_from_row_ref debug msg vs = (case find (\<lambda>v. \<not> utf8_valid (text_of v)) vs of
     Some v \<Rightarrow> Some (Inl (InvalidUtf8 (case v of Json _ \<Rightarrow> ''JSON'' | _ \<Rightarrow> ''TEXT'') (msg (text_of v))))
   | None \<Rightarrow> map_option Inr (from_owned_cells debug vs))"
  by (rule try_from_row_ref_total)

text \<open>(C40) The comparison of a sort column on raw buffers, with its short cuts for integers and floats, is the comparison of the cells.\<close>

theorem compare_cell_flat_equiv:
  assumes "from_owned_cells debug xs = Some a" "from_owned_cells debug ys = Some b"
  shows "compare_cell_flat a b c = compare_cell xs ys c"
  using assms by (auto simp: from_owned_cells_layout compare_cell_flat_of split: if_splits)

theorem compare_cell_flat_equiv_witness:
  "\<exists>a b. from_owned_cells False [IntV 7] = Some a \<and> from_owned_cells False [IntV 9] = Some b \<and> compare_cell_flat a b 0 = Some Less"
proof -
  obtain a b where ab: "from_owned_cells False [IntV 7] = Some a" "from_owned_cells False [IntV 9] = Some b"
    by (simp add: from_owned_cells_layout fits_def dir_end_def ROW_HDR_def CELL_STRIDE_def u32_max_def text_of_def)
  from compare_cell_flat_equiv [OF this, of 0] show ?thesis using ab by (simp add: compare_cell_def row_col_def vec_get_def cmp_of_def)
qed

end
