(* ===== verification/Float_Arith.thy ===== *)
theory Float_Arith
  imports Float64
begin

text \<open>
  The arithmetic on \<open>f64\<close> that the aggregates use: addition, multiplication, division and the conversion of an integer, all rounded
  to nearest with ties to even. An exact result is a ratio of integers in units of \<open>2 ^ (-1074)\<close>; it is cut to 53 bits, rounded and
  packed, where a carry out of the fraction moves to the next exponent by itself. Operations that produce a NaN produce the
  canonical quiet one.
\<close>

definition f_pack :: "bool \<Rightarrow> nat \<Rightarrow> f64" where
  "f_pack s m = of_nat (m + (if s then 2 ^ 63 else 0))"

definition F_NAN :: f64 where
  "F_NAN = 0x7FF8000000000000"

definition is_inf :: "f64 \<Rightarrow> bool" where
  "is_inf b \<longleftrightarrow> f_mag b = inf_mag"

fun bits :: "nat \<Rightarrow> nat" where
  "bits n = (if n = 0 then 0 else Suc (bits (n div 2)))"

declare bits.simps [simp del]

definition half_even :: "nat \<Rightarrow> nat \<Rightarrow> nat" where
  "half_even n d = n div d + (if d < 2 * (n mod d) \<or> (2 * (n mod d) = d \<and> odd (n div d)) then 1 else 0)"

definition round_mag :: "nat \<Rightarrow> nat \<Rightarrow> nat" where
  "round_mag n d = (let e = bits (n div d) - 53 in min (e * 2 ^ 52 + half_even n (d * 2 ^ e)) inf_mag)"

definition f_of_int :: "int \<Rightarrow> f64" where
  "f_of_int i = f_pack (i < 0) (round_mag (nat \<bar>i\<bar> * 2 ^ 1074) 1)"

definition f_add :: "f64 \<Rightarrow> f64 \<Rightarrow> f64" where
  "f_add x y =
     (if is_nan x \<or> is_nan y \<or> (is_inf x \<and> is_inf y \<and> f_sign x \<noteq> f_sign y) then F_NAN
      else if is_inf x then x
      else if is_inf y then y
      else let s = f_val x + f_val y in
        if s = 0 then f_pack (f_sign x \<and> f_sign y) 0 else f_pack (s < 0) (round_mag (nat \<bar>s\<bar>) 1))"

definition f_mul :: "f64 \<Rightarrow> f64 \<Rightarrow> f64" where
  "f_mul x y = (let s = (f_sign x \<noteq> f_sign y) in
     if is_nan x \<or> is_nan y \<or> (is_inf x \<and> f_mag y = 0) \<or> (is_inf y \<and> f_mag x = 0) then F_NAN
     else if is_inf x \<or> is_inf y then f_pack s inf_mag
     else f_pack s (round_mag (mag_val (f_mag x) * mag_val (f_mag y)) (2 ^ 1074)))"

definition f_div :: "f64 \<Rightarrow> f64 \<Rightarrow> f64" where
  "f_div x y = (let s = (f_sign x \<noteq> f_sign y) in
     if is_nan x \<or> is_nan y \<or> (is_inf x \<and> is_inf y) \<or> (f_mag x = 0 \<and> f_mag y = 0) then F_NAN
     else if is_inf x \<or> f_mag y = 0 then f_pack s inf_mag
     else if is_inf y \<or> f_mag x = 0 then f_pack s 0
     else f_pack s (round_mag (mag_val (f_mag x) * 2 ^ 1074) (mag_val (f_mag y))))"

section \<open>Rounding is exact on what is representable\<close>

lemma bits_bounds: "0 < n \<Longrightarrow> 2 ^ (bits n - 1) \<le> n \<and> n < 2 ^ bits n"
proof (induction n rule: bits.induct)
  case (1 n)
  show ?case
  proof (cases "n = 1")
    case True
    have "bits 1 = Suc 0" by (simp add: bits.simps)
    then show ?thesis using True by simp
  next
    case False
    then have h: "0 < n div 2" "n \<noteq> 0" using 1 by auto
    then have IH: "2 ^ (bits (n div 2) - 1) \<le> n div 2" "n div 2 < 2 ^ bits (n div 2)" using 1 by auto
    have b: "bits n = Suc (bits (n div 2))" using h by (simp add: bits.simps [of n])
    obtain k where k: "bits (n div 2) = Suc k" using h by (auto simp: bits.simps [of "n div 2"])
    have lo: "2 ^ k \<le> n div 2" and hi: "n div 2 < 2 * 2 ^ k" using IH by (simp_all add: k)
    have "n = 2 * (n div 2) + n mod 2" "n mod 2 < 2" by simp_all
    then have "2 * 2 ^ k \<le> n" "n < 2 * (2 * 2 ^ k)" using lo hi by linarith+
    then show ?thesis by (simp add: b k)
  qed
qed

lemma bits_eq: "2 ^ k \<le> n \<Longrightarrow> n < 2 ^ Suc k \<Longrightarrow> bits n = Suc k"
proof -
  assume n: "2 ^ k \<le> n" "n < 2 ^ Suc k"
  have "0 < (2 :: nat) ^ k" by simp
  then have "0 < n" using n(1) by linarith
  then have b: "2 ^ (bits n - 1) \<le> n" "n < 2 ^ bits n" using bits_bounds by auto
  have "(2 :: nat) ^ k < 2 ^ bits n" using n(1) b(2) by (rule order.strict_trans1)
  moreover have "(2 :: nat) ^ (bits n - 1) < 2 ^ Suc k" using b(1) n(2) by (rule order.strict_trans1)
  ultimately have "k < bits n" "bits n - 1 < Suc k" by (simp_all only: power_strict_increasing_iff one_less_numeral_iff semiring_norm)
  then show ?thesis by linarith
qed

lemma bits_le: "n < 2 ^ k \<Longrightarrow> bits n \<le> k"
proof (cases "n = 0")
  case False
  assume "n < 2 ^ k"
  moreover have "2 ^ (bits n - 1) \<le> n" using False bits_bounds by auto
  ultimately have "(2 :: nat) ^ (bits n - 1) < 2 ^ k" by linarith
  then have "bits n - 1 < k" by (simp only: power_strict_increasing_iff one_less_numeral_iff semiring_norm)
  then show ?thesis by linarith
qed (simp add: bits.simps)

lemma half_even_exact: "0 < d \<Longrightarrow> half_even (m * d) d = m"
  by (simp add: half_even_def)

lemma half_even_1 [simp]: "half_even n 1 = n"
  using half_even_exact [of 1 n] by simp

lemma mag_val_fields: "f < 2 ^ 52 \<Longrightarrow> mag_val (e * 2 ^ 52 + f) = (if e = 0 then f else (2 ^ 52 + f) * 2 ^ (e - 1))"
proof -
  have "(e * B + f) div B = e \<and> (e * B + f) mod B = f" if "f < B" for B :: nat
    using that by simp
  then show "f < 2 ^ 52 \<Longrightarrow> ?thesis" unfolding mag_val_def by presburger
qed

lemma fields_cases:
  obtains e f where "p = e * 2 ^ 52 + f" "f < (2 :: nat) ^ 52"
proof -
  have "p = p div B * B + p mod B" for B :: nat by simp
  moreover have "p mod 2 ^ 52 < (2 :: nat) ^ 52" by (rule mod_less_divisor) simp
  ultimately show ?thesis using that by blast
qed

lemma round_mag_exact:
  assumes "p < inf_mag"
  shows "round_mag (mag_val p) 1 = p"
proof -
  define B :: nat where "B = 2 ^ 52"
  obtain e f where p: "p = e * B + f" "f < B" using fields_cases [of p] unfolding B_def by blast
  show ?thesis
  proof (cases "e = 0")
    case True
    then have v: "mag_val p = p" "p < B" using p mag_val_fields [of f 0] by (simp_all add: B_def)
    then have "bits p - 53 = 0" using bits_le [of p 52] unfolding B_def by simp
    then show ?thesis unfolding round_mag_def Let_def v using assms by (simp del: One_nat_def)
  next
    case False
    have v: "mag_val p = (B + f) * 2 ^ (e - 1)" using False p mag_val_fields [of f e] unfolding B_def by simp
    have lo: "2 ^ (52 + (e - 1)) \<le> mag_val p" unfolding v power_add B_def by simp
    have "(B + f) * 2 ^ (e - 1) < (2 * B) * 2 ^ (e - 1)" using p(2) by simp
    then have hi: "mag_val p < 2 ^ Suc (52 + (e - 1))" unfolding v power_add power_Suc B_def by (simp only: mult.assoc)
    have b: "bits (mag_val p) - 53 = e - 1" using bits_eq [OF lo hi] by simp
    have r: "half_even (mag_val p) (2 ^ (e - 1)) = B + f" unfolding v by (rule half_even_exact) simp
    have "(e - 1) * B + (B + f) = p" using False p(1) by (cases e) simp_all
    then show ?thesis unfolding round_mag_def Let_def div_by_1 b mult_1 r B_def [symmetric] using assms by simp
  qed
qed

lemma unat_pack: "m < 2 ^ 63 \<Longrightarrow> unat (f_pack s m) = (if s then 2 ^ 63 else 0) + m"
proof -
  assume m: "m < 2 ^ 63"
  define n where "n = m + (if s then 2 ^ 63 else 0)"
  have "n < 2 ^ 64" using m by (auto simp: n_def)
  then have "unat (of_nat n :: f64) = n" by (simp add: unsigned_of_nat take_bit_nat_eq_self)
  then show ?thesis by (simp add: f_pack_def n_def add.commute)
qed

lemma f_pack_fields:
  assumes "m < 2 ^ 63"
  shows "f_sign (f_pack s m) = s" "f_mag (f_pack s m) = m"
  using assms unat_pack [OF assms, of s] by (auto simp: f_sign_unat f_mag_def)

lemma inf_mag_less: "m \<le> inf_mag \<Longrightarrow> m < 2 ^ 63"
  by (simp add: inf_mag_def)

lemma f_val_pack: "m \<le> inf_mag \<Longrightarrow> f_val (f_pack s m) = (if s then - int (mag_val m) else int (mag_val m))"
  using f_pack_fields [OF inf_mag_less] by (simp add: f_val_def)

lemma pack_not_nan: "m \<le> inf_mag \<Longrightarrow> \<not> is_nan (f_pack s m)"
  using f_pack_fields [OF inf_mag_less] by (simp add: not_nan_iff)

lemma round_mag_le: "round_mag n d \<le> inf_mag"
  by (simp add: round_mag_def Let_def)

section \<open>Integers up to \<open>2 ^ 53\<close> convert without loss\<close>

lemma small_int_mag:
  assumes "0 < n" "n < 2 ^ 53"
  obtains p where "p < inf_mag" "mag_val p = n * 2 ^ 1074"
proof -
  obtain k where k: "bits n = Suc k" using assms(1) by (auto simp: bits.simps [of n])
  have lo: "2 ^ k \<le> n" and hi: "n < 2 * 2 ^ k" using bits_bounds [OF assms(1)] by (simp_all add: k)
  have k52: "k \<le> 52" using bits_le [OF assms(2)] by (simp add: k)
  define q where "q = n * 2 ^ (52 - k)"
  have B: "(2 :: nat) ^ 52 = 2 ^ k * 2 ^ (52 - k)" using k52 by (simp only: power_add [symmetric] le_add_diff_inverse)
  have q: "2 ^ 52 \<le> q" "q < 2 * 2 ^ 52" unfolding B q_def using lo hi by (simp_all add: mult.assoc [symmetric])
  define p where "p = (k + 1023) * 2 ^ 52 + (q - 2 ^ 52)"
  have f: "q - 2 ^ 52 < 2 ^ 52" using q by linarith
  have "mag_val p = (2 ^ 52 + (q - 2 ^ 52)) * 2 ^ (k + 1023 - 1)"
    unfolding p_def mag_val_fields [OF f] by simp
  also have "\<dots> = q * 2 ^ (k + 1022)" using q(1) by simp
  also have "\<dots> = n * (2 ^ (52 - k) * 2 ^ (k + 1022))" by (simp only: q_def mult.assoc)
  also have "\<dots> = n * 2 ^ 1074"
  proof -
    have "52 - k + (k + 1022) = 1074" using k52 by simp
    then show ?thesis by (simp only: power_add [symmetric])
  qed
  finally have v: "mag_val p = n * 2 ^ 1074" .
  have "p < (k + 1023) * 2 ^ 52 + 2 ^ 52" using f by (simp add: p_def)
  also have "\<dots> \<le> inf_mag" using k52 by (simp add: inf_mag_def)
  finally show ?thesis using v that by blast
qed

lemma f_of_int_exact:
  assumes "\<bar>i\<bar> < 2 ^ 53"
  shows "f_val (f_of_int i) = i * f_unit"
proof (cases "i = 0")
  case True
  then show ?thesis using f_val_pack [of 0 False] by (simp add: f_of_int_def round_mag_def half_even_def bits.simps Let_def)
next
  case False
  have "0 < nat \<bar>i\<bar>" "nat \<bar>i\<bar> < 2 ^ 53" using False assms by (simp_all add: nat_less_iff)
  from small_int_mag [OF this] obtain p where p: "p < inf_mag" "mag_val p = nat \<bar>i\<bar> * 2 ^ 1074" .
  have f: "f_of_int i = f_pack (i < 0) p" using round_mag_exact [OF p(1)] by (simp only: f_of_int_def p(2))
  have v: "int (mag_val p) = \<bar>i\<bar> * f_unit" unfolding p(2) of_nat_mult of_nat_power by simp
  show ?thesis unfolding f f_val_pack [OF less_imp_le [OF p(1)]] v by (cases "i < 0") (simp_all add: abs_if)
qed

text \<open>Above that they collide: an odd 54-bit significand is a tie, and is rounded to the even neighbour.\<close>

lemma round_mag_tie:
  assumes "2 ^ 52 \<le> m" "m < 2 ^ 53" "even m"
  shows "round_mag ((2 * m + 1) * 2 ^ k) 1 = round_mag (2 * m * 2 ^ k) 1"
proof -
  define u :: nat where "u = 2 ^ k"
  have u: "0 < u" by (simp add: u_def)
  have bits: "bits (n * u) - 53 = Suc k" if n: "2 * 2 ^ 52 \<le> n" "n < 2 * 2 ^ 53" for n
  proof -
    have "(2 :: nat) ^ (53 + k) = 2 * 2 ^ 52 * u" by (simp add: power_add u_def)
    then have lo: "2 ^ (53 + k) \<le> n * u" using mult_le_mono1 [OF n(1), of u] by simp
    have "(2 :: nat) ^ Suc (53 + k) = 2 * 2 ^ 53 * u" by (simp add: power_add u_def)
    then have hi: "n * u < 2 ^ Suc (53 + k)" using mult_less_mono1 [OF n(2) u] by simp
    show ?thesis using bits_eq [OF lo hi] by simp
  qed
  have odd: "half_even ((2 * m + 1) * u) (2 * u) = m"
  proof -
    have eq: "(2 * m + 1) * u = u + m * (2 * u)" by (simp add: algebra_simps)
    have "(u + m * (2 * u)) div (2 * u) = m + u div (2 * u)" using u by (intro div_mult_self1) simp
    moreover have "(u + m * (2 * u)) mod (2 * u) = u mod (2 * u)" by (rule mod_mult_self1)
    ultimately have "((2 * m + 1) * u) div (2 * u) = m" "((2 * m + 1) * u) mod (2 * u) = u" unfolding eq using u by simp_all
    then show ?thesis using assms(3) by (simp add: half_even_def)
  qed
  have even: "half_even (2 * m * u) (2 * u) = m"
    using half_even_exact [of "2 * u" m] u by (simp add: algebra_simps)
  have "2 * 2 ^ 52 \<le> 2 * m" "2 * m + 1 < 2 * 2 ^ 53" using assms by linarith+
  then have b: "bits ((2 * m + 1) * u) - 53 = Suc k" "bits (2 * m * u) - 53 = Suc k" using bits [of "2 * m"] bits [of "2 * m + 1"] by linarith+
  have d: "2 ^ Suc k = 2 * u" by (simp add: u_def)
  show ?thesis unfolding round_mag_def Let_def div_by_1 mult_1 u_def [symmetric] b d odd even ..
qed

lemma f_of_int_collide: "f_of_int (2 ^ 53 + 1) = f_of_int (2 ^ 53)"
proof -
  have "nat \<bar>2 ^ 53 + 1\<bar> = 2 * 2 ^ 52 + 1" "nat \<bar>2 ^ 53\<bar> = 2 * 2 ^ 52" by simp_all
  moreover have "\<not> (2 :: int) ^ 53 + 1 < 0" "\<not> (2 :: int) ^ 53 < 0" by simp_all
  ultimately show ?thesis using round_mag_tie [of "2 ^ 52" 1074] unfolding f_of_int_def by simp
qed

section \<open>The mean of integers is not a negative zero\<close>

lemma round_mag_lower: "2 ^ k \<le> n \<Longrightarrow> min ((k - 52) * 2 ^ 52) inf_mag \<le> round_mag n 1"
proof -
  assume n: "2 ^ k \<le> n"
  have "0 < (2 :: nat) ^ k" by simp
  then have "n < 2 ^ bits n" using n bits_bounds [of n] by linarith
  then have "(2 :: nat) ^ k < 2 ^ bits n" using n by linarith
  then have "k < bits n" by (simp only: power_strict_increasing_iff one_less_numeral_iff semiring_norm)
  then have "(k - 52) * 2 ^ 52 \<le> (bits n - 53) * 2 ^ 52" by (intro mult_le_mono1) linarith
  then show ?thesis unfolding round_mag_def Let_def div_by_1 by linarith
qed

lemma round_mag_upper: "n < 2 ^ (53 + k) \<Longrightarrow> round_mag n 1 \<le> (k + 2) * 2 ^ 52"
proof -
  assume n: "n < 2 ^ (53 + k)"
  define e where "e = bits n - 53"
  have e: "e \<le> k" using bits_le [OF n] by (simp add: e_def)
  have "n < 2 ^ bits n" using bits_bounds [of n] by (cases "n = 0") auto
  also have "\<dots> \<le> (2 :: nat) ^ (53 + e)" by (rule power_increasing) (simp_all add: e_def)
  finally have "n < 2 ^ 53 * 2 ^ e" by (simp only: power_add)
  then have "n div 2 ^ e < 2 ^ 53" by (rule less_mult_imp_div_less)
  then have "half_even n (2 ^ e) \<le> 2 * 2 ^ 52" unfolding half_even_def by simp
  moreover have "e * 2 ^ 52 \<le> k * 2 ^ 52" using e by (rule mult_le_mono1)
  ultimately show ?thesis unfolding round_mag_def Let_def div_by_1 mult_1 e_def [symmetric] by (simp add: add_mult_distrib)
qed

lemma round_mag_pos: "0 < d \<Longrightarrow> d \<le> n \<Longrightarrow> 0 < round_mag n d"
proof -
  assume d: "0 < d" "d \<le> n"
  have "0 < n div d" using d by (simp add: div_greater_zero_iff)
  then have "0 < (bits (n div d) - 53) * 2 ^ 52 + half_even n (d * 2 ^ (bits (n div d) - 53))"
    by (cases "bits (n div d) - 53") (simp_all add: half_even_def)
  then show ?thesis by (simp add: round_mag_def Let_def inf_mag_def)
qed

lemma f_of_int_fields:
  "f_sign (f_of_int i) = (i < 0)" "f_mag (f_of_int i) = round_mag (nat \<bar>i\<bar> * 2 ^ 1074) 1" "f_mag (f_of_int i) \<le> inf_mag"
  "f_of_int 0 = f_pack False 0"
proof -
  show "f_sign (f_of_int i) = (i < 0)" and m: "f_mag (f_of_int i) = round_mag (nat \<bar>i\<bar> * 2 ^ 1074) 1"
    using f_pack_fields [OF inf_mag_less [OF round_mag_le]] by (simp_all add: f_of_int_def)
  show "f_mag (f_of_int i) \<le> inf_mag" unfolding m by (rule round_mag_le)
  show "f_of_int 0 = f_pack False 0" by (simp add: f_of_int_def round_mag_def half_even_def bits.simps Let_def)
qed

lemma f_of_int_mag_ge: "i \<noteq> 0 \<Longrightarrow> 1022 * 2 ^ 52 \<le> f_mag (f_of_int i)"
proof -
  assume "i \<noteq> 0"
  then have "1 * 2 ^ 1074 \<le> nat \<bar>i\<bar> * (2 :: nat) ^ 1074" by (intro mult_le_mono1) linarith
  then have "min ((1074 - 52) * 2 ^ 52) inf_mag \<le> f_mag (f_of_int i)" unfolding f_of_int_fields by (intro round_mag_lower) (simp only: mult_1)
  then show ?thesis by (simp add: inf_mag_def)
qed

lemma f_of_nat_mag_le: "n < 2 ^ 63 \<Longrightarrow> f_mag (f_of_int (int n)) \<le> 1086 * 2 ^ 52"
proof -
  assume "n < 2 ^ 63"
  then have "n * 2 ^ 1074 < 2 ^ 63 * (2 :: nat) ^ 1074" by (intro mult_less_mono1) simp_all
  moreover have "(2 :: nat) ^ 63 * 2 ^ 1074 = 2 ^ (53 + 1084)" by (simp only: power_add [symmetric]) simp
  ultimately have "round_mag (n * 2 ^ 1074) 1 \<le> (1084 + 2) * 2 ^ 52" by (intro round_mag_upper) (simp only:)
  then show ?thesis unfolding f_of_int_fields by simp
qed

text \<open>Below \<open>2 ^ 53\<close> no other integer, however large, converts to the same value.\<close>

lemma round_mag_lower_normal:
  assumes "2 ^ k \<le> n" "52 \<le> k"
  shows "min ((k - 51) * 2 ^ 52) inf_mag \<le> round_mag n 1"
proof -
  define e where "e = bits n - 53"
  have "0 < (2 :: nat) ^ k" by simp
  then have pos: "0 < n" using assms(1) by linarith
  then have b: "2 ^ (bits n - 1) \<le> n" "n < 2 ^ bits n" using bits_bounds [of n] by simp_all
  then have "(2 :: nat) ^ k < 2 ^ bits n" using assms(1) by linarith
  then have k: "k < bits n" by (simp only: power_strict_increasing_iff one_less_numeral_iff semiring_norm)
  then have "bits n - 1 = 52 + e" using assms(2) by (simp add: e_def)
  then have "2 ^ 52 * 2 ^ e \<le> n" using b(1) by (simp only: power_add)
  then have "2 ^ 52 \<le> n div 2 ^ e" by (simp add: less_eq_div_iff_mult_less_eq)
  then have h: "2 ^ 52 \<le> half_even n (2 ^ e)" unfolding half_even_def by (rule trans_le_add1)
  have "k - 51 \<le> e + 1" using k by (simp add: e_def)
  then have "(k - 51) * 2 ^ 52 \<le> (e + 1) * 2 ^ 52" by (rule mult_le_mono1)
  also have "\<dots> = e * 2 ^ 52 + 2 ^ 52" by (simp only: add_mult_distrib mult_1)
  also have "\<dots> \<le> e * 2 ^ 52 + half_even n (2 ^ e)" using h by (rule add_left_mono)
  finally show ?thesis unfolding round_mag_def Let_def div_by_1 mult_1 e_def [symmetric] by (rule min.mono) simp
qed

lemma f_of_int_mag_large: "2 ^ 53 \<le> \<bar>m\<bar> \<Longrightarrow> 1076 * 2 ^ 52 \<le> f_mag (f_of_int m)"
proof -
  assume "2 ^ 53 \<le> \<bar>m\<bar>"
  then have "2 ^ 53 \<le> nat \<bar>m\<bar>" by (simp add: le_nat_iff)
  then have "2 ^ 53 * 2 ^ 1074 \<le> nat \<bar>m\<bar> * (2 :: nat) ^ 1074" by (rule mult_le_mono1)
  then have "2 ^ (53 + 1074) \<le> nat \<bar>m\<bar> * (2 :: nat) ^ 1074" by (simp only: power_add)
  from round_mag_lower_normal [OF this] show ?thesis unfolding f_of_int_fields by (simp add: inf_mag_def)
qed

lemma f_of_int_mag_small: "\<bar>i\<bar> < 2 ^ 53 \<Longrightarrow> f_mag (f_of_int i) < 1076 * 2 ^ 52"
proof -
  assume i: "\<bar>i\<bar> < 2 ^ 53"
  have "int (mag_val (f_mag (f_of_int i))) = \<bar>f_val (f_of_int i)\<bar>" by (simp add: f_val_def)
  also have "\<dots> = \<bar>i\<bar> * 2 ^ 1074" by (simp add: f_of_int_exact [OF i] abs_mult)
  also have "\<dots> < 2 ^ 53 * 2 ^ 1074" using i by (rule mult_strict_right_mono) simp
  also have "\<dots> = int (2 ^ 52 * 2 ^ 1075)" by (simp only: of_nat_mult of_nat_power of_nat_numeral power_add [symmetric]) simp
  also have "(2 :: nat) ^ 52 * 2 ^ 1075 = mag_val (1076 * 2 ^ 52)" using mag_val_fields [of 0 1076] by simp
  finally show ?thesis by (simp only: of_nat_less_iff mag_val_less_iff)
qed

lemma f_of_int_safe_unique:
  assumes "\<bar>i\<bar> < 2 ^ 53" "f_of_int m = f_of_int i"
  shows "m = i"
proof -
  have "\<not> 1076 * 2 ^ 52 \<le> f_mag (f_of_int m)" unfolding assms(2) using f_of_int_mag_small [OF assms(1)] by (simp only: not_le)
  then have "\<not> 2 ^ 53 \<le> \<bar>m\<bar>" using f_of_int_mag_large by blast
  then have "\<bar>m\<bar> < 2 ^ 53" by (simp only: not_le)
  then have "m * f_unit = i * f_unit" using f_of_int_exact [OF assms(1)] f_of_int_exact [of m] assms(2) by simp
  then show ?thesis by simp
qed

lemma zero_fields [simp]: "f_mag 0 = 0" "\<not> f_sign 0" "\<not> is_nan 0" "\<not> is_inf 0" "f_val 0 = 0"
  by (simp_all add: f_mag_def f_sign_def is_nan_def f_exp_def is_inf_def inf_mag_def f_val_def)

text \<open>Adding zero to a converted integer changes nothing but the sign of a zero.\<close>

lemma add_zero_fields:
  "f_mag (f_add (f_of_int t) 0) = f_mag (f_of_int t)" "f_sign (f_add (f_of_int t) 0) = f_sign (f_of_int t)"
proof -
  have m: "f_mag (f_of_int t) \<le> inf_mag" by (rule f_of_int_fields)
  then have nan: "\<not> is_nan (f_of_int t)" by (simp add: not_nan_iff)
  have "f_add (f_of_int t) 0 = f_of_int t"
  proof (cases "is_inf (f_of_int t) \<or> t = 0")
    case True
    have "f_val (f_pack False 0) = 0" using f_val_pack [of 0 False] by simp
    moreover have "\<not> f_sign (f_pack False 0)" using f_pack_fields(1) [of 0 False] by simp
    ultimately show ?thesis using True nan by (auto simp: f_add_def Let_def f_of_int_fields(4))
  next
    case False
    then have lt: "f_mag (f_of_int t) < inf_mag" using m by (simp add: is_inf_def)
    have "0 < f_mag (f_of_int t)" using False f_of_int_mag_ge [of t] by simp
    then have pos: "0 < mag_val (f_mag (f_of_int t))" using mag_val_less_iff [of 0] by simp
    have v: "f_val (f_of_int t) = (if t < 0 then - int (mag_val (f_mag (f_of_int t))) else int (mag_val (f_mag (f_of_int t))))"
      by (simp add: f_val_def f_of_int_fields(1))
    have "f_add (f_of_int t) 0 = f_pack (t < 0) (round_mag (mag_val (f_mag (f_of_int t))) 1)"
      unfolding f_add_def Let_def using False nan pos by (simp add: v split: if_splits)
    also have "\<dots> = f_of_int t" unfolding round_mag_exact [OF lt] unfolding f_of_int_fields(2) by (simp add: f_of_int_def)
    finally show ?thesis .
  qed
  then show "f_mag (f_add (f_of_int t) 0) = f_mag (f_of_int t)" "f_sign (f_add (f_of_int t) 0) = f_sign (f_of_int t)" by simp_all
qed

lemma special_mag: "0 < f_mag F_NAN" "0 < f_mag (f_pack s inf_mag)"
  using f_pack_fields(2) [of inf_mag s] by (simp_all add: F_NAN_def f_mag_def inf_mag_def)

lemma f_div_mag_pos:
  assumes "\<not> is_inf y" "f_mag x \<noteq> 0" "mag_val (f_mag y) \<le> mag_val (f_mag x) * 2 ^ 1074"
  shows "0 < f_mag (f_div x y)"
proof -
  have q: "0 < f_mag (f_pack s (round_mag (mag_val (f_mag x) * 2 ^ 1074) (mag_val (f_mag y))))" if "f_mag y \<noteq> 0" for s
    unfolding f_pack_fields(2) [OF inf_mag_less [OF round_mag_le]]
    using that mag_val_less_iff [of 0 "f_mag y"] by (intro round_mag_pos assms(3)) simp
  have "P (f_div x y)" if "P F_NAN" "\<And>s. P (f_pack s inf_mag)"
    "\<And>s. f_mag y \<noteq> 0 \<Longrightarrow> P (f_pack s (round_mag (mag_val (f_mag x) * 2 ^ 1074) (mag_val (f_mag y))))" for P
    using that assms(1,2) unfolding f_div_def Let_def by presburger
  from this [of "\<lambda>b. 0 < f_mag b"] show ?thesis using special_mag q by blast
qed

lemma f_div_zero_sign:
  assumes "\<not> is_inf y" "\<not> f_sign y" "\<not> f_sign x" "f_mag x = 0" "f_mag (f_div x y) = 0"
  shows "\<not> f_sign (f_div x y)"
proof -
  have "\<not> is_inf x" using assms(4) by (simp add: is_inf_def inf_mag_def)
  then have "f_div x y = F_NAN \<or> f_div x y = f_pack False inf_mag \<or> f_div x y = f_pack False 0"
    using assms(1-4) unfolding f_div_def Let_def by presburger
  then show ?thesis using assms(5) special_mag f_pack_fields(1) [of 0 False] by (metis less_numeral_extra(3) zero_less_power zero_less_numeral)
qed

lemma mean_zero_sign:
  assumes "n < 2 ^ 63" "f_mag (f_div (f_add (f_of_int t) 0) (f_of_int (int n))) = 0"
  shows "\<not> f_sign (f_div (f_add (f_of_int t) 0) (f_of_int (int n)))"
proof -
  let ?x = "f_add (f_of_int t) 0" and ?y = "f_of_int (int n)"
  have y: "\<not> f_sign ?y" "f_mag ?y \<le> 1086 * 2 ^ 52" using f_of_int_fields(1) [of "int n"] f_of_nat_mag_le [OF assms(1)] by simp_all
  then have fin: "\<not> is_inf ?y" by (simp add: is_inf_def inf_mag_def)
  show ?thesis
  proof (cases "t = 0")
    case True
    have "\<not> f_sign ?x" "f_mag ?x = 0" using add_zero_fields [of t] f_pack_fields [of 0 False] by (simp_all add: True f_of_int_fields(4))
    then show ?thesis using f_div_zero_sign [OF fin y(1)] assms(2) by blast
  next
    case False
    have ge: "1022 * 2 ^ 52 \<le> f_mag ?x" using f_of_int_mag_ge [OF False] by (simp only: add_zero_fields)
    then have "mag_val (1022 * 2 ^ 52) \<le> mag_val (f_mag ?x)" by (simp only: mag_val_le_iff)
    then have "2 ^ 52 * 2 ^ 1021 \<le> mag_val (f_mag ?x)" using mag_val_fields [of 0 1022] by simp
    then have lo: "2 ^ 52 * 2 ^ 1021 * 2 ^ 1074 \<le> mag_val (f_mag ?x) * 2 ^ 1074" by (rule mult_le_mono1)
    have "mag_val (f_mag ?y) \<le> mag_val (1086 * 2 ^ 52)" using y(2) by (simp only: mag_val_le_iff)
    then have "mag_val (f_mag ?y) \<le> 2 ^ 52 * 2 ^ 1085" using mag_val_fields [of 0 1086] by simp
    also have "\<dots> \<le> 2 ^ 52 * 2 ^ 1021 * (2 :: nat) ^ 1074" by (simp only: power_add [symmetric] power_increasing_iff one_less_numeral_iff semiring_norm)
    finally have le: "mag_val (f_mag ?y) \<le> mag_val (f_mag ?x) * 2 ^ 1074" using lo by (rule order_trans)
    have "f_mag ?x \<noteq> 0" using ge by simp
    from f_div_mag_pos [OF fin this le] show ?thesis using assms(2) by simp
  qed
qed

section \<open>The mean of small integers is rounded once\<close>

text \<open>The exact ratio \<open>t / n\<close>, rounded once to the nearest double.\<close>

definition mean_of :: "int \<Rightarrow> nat \<Rightarrow> f64" where
  "mean_of t n = f_pack (t < 0) (round_mag (nat \<bar>t\<bar> * 2 ^ 1074) n)"

lemma half_even_scale: "0 < c \<Longrightarrow> half_even (a * c) (b * c) = half_even a b"
proof -
  assume c: "0 < c"
  have "(a * c) div (b * c) = a div b" using c by simp
  moreover have "(a * c) mod (b * c) = a mod b * c" by (simp only: mod_mult_mult2)
  moreover have "b * c < 2 * (a mod b * c) \<longleftrightarrow> b < 2 * (a mod b)" "2 * (a mod b * c) = b * c \<longleftrightarrow> 2 * (a mod b) = b"
    using c by (simp_all add: mult.assoc [symmetric])
  ultimately show ?thesis unfolding half_even_def by simp
qed

lemma round_mag_scale: "0 < c \<Longrightarrow> round_mag (a * c) (b * c) = round_mag a b"
proof -
  assume c: "0 < c"
  have "half_even (a * c) (b * c * 2 ^ e) = half_even a (b * 2 ^ e)" for e
    using half_even_scale [OF c, of a "b * 2 ^ e"] by (simp only: mult.assoc mult.commute [of c])
  then show ?thesis using c by (simp add: round_mag_def)
qed

lemma small_int_mag_val: "\<bar>i\<bar> < 2 ^ 53 \<Longrightarrow> mag_val (f_mag (f_of_int i)) = nat \<bar>i\<bar> * 2 ^ 1074"
proof -
  assume i: "\<bar>i\<bar> < 2 ^ 53"
  have "int (mag_val (f_mag (f_of_int i))) = \<bar>f_val (f_of_int i)\<bar>" by (simp add: f_val_def)
  also have "\<dots> = \<bar>i\<bar> * 2 ^ 1074" by (simp add: f_of_int_exact [OF i] abs_mult)
  also have "\<dots> = int (nat \<bar>i\<bar> * 2 ^ 1074)" by (simp only: of_nat_mult of_nat_power of_nat_numeral nat_0_le abs_ge_zero)
  finally show ?thesis by (simp only: of_nat_eq_iff)
qed

lemma small_int_finite: "\<bar>i\<bar> < 2 ^ 53 \<Longrightarrow> \<not> is_nan (f_of_int i) \<and> \<not> is_inf (f_of_int i)"
  using f_of_int_mag_small [of i] f_of_int_fields(3) [of i] by (auto simp: not_nan_iff is_inf_def inf_mag_def)

lemma add_zero_finite: "\<bar>t\<bar> < 2 ^ 53 \<Longrightarrow> \<not> is_nan (f_add (f_of_int t) 0) \<and> \<not> is_inf (f_add (f_of_int t) 0)"
  using small_int_finite [of t] by (simp add: not_nan_iff is_inf_def add_zero_fields)

lemma f_div_finite:
  assumes "\<not> is_nan x" "\<not> is_inf x" "\<not> is_nan y" "\<not> is_inf y" "f_mag y \<noteq> 0"
  shows "f_div x y = f_pack (f_sign x \<noteq> f_sign y) (if f_mag x = 0 then 0 else round_mag (mag_val (f_mag x) * 2 ^ 1074) (mag_val (f_mag y)))"
  using assms unfolding f_div_def Let_def by presburger

lemma mean_rounded_once:
  assumes "\<bar>t\<bar> < 2 ^ 53" "0 < n" "n < 2 ^ 53"
  shows "f_div (f_add (f_of_int t) 0) (f_of_int (int n)) = mean_of t n"
proof -
  let ?x = "f_add (f_of_int t) 0" and ?y = "f_of_int (int n)"
  have n: "\<bar>int n\<bar> < 2 ^ 53" using assms(3) by (simp only: abs_of_nat) (metis of_nat_less_iff of_nat_numeral of_nat_power)
  have vx: "mag_val (f_mag ?x) = nat \<bar>t\<bar> * 2 ^ 1074" using small_int_mag_val [OF assms(1)] by (simp only: add_zero_fields)
  have vy: "mag_val (f_mag ?y) = n * 2 ^ 1074" using small_int_mag_val [OF n] by simp
  have s: "f_sign ?x = (t < 0)" "\<not> f_sign ?y" by (simp_all only: add_zero_fields f_of_int_fields of_nat_less_0_iff not_False_eq_True)
  have fin: "\<not> is_nan ?x" "\<not> is_inf ?x" "\<not> is_nan ?y" "\<not> is_inf ?y"
    using add_zero_finite [OF assms(1)] small_int_finite [OF n] by blast+
  have y0: "f_mag ?y \<noteq> 0" using f_of_int_mag_ge [of "int n"] assms(2) by simp
  have x0: "f_mag ?x = 0 \<longleftrightarrow> t = 0"
    unfolding add_zero_fields using f_of_int_mag_ge [of t] f_pack_fields(2) [of 0 False] by (cases "t = 0") (simp_all add: f_of_int_fields(4))
  have r0: "round_mag 0 n = 0" by (simp add: round_mag_def half_even_def bits.simps)
  have "round_mag (nat \<bar>t\<bar> * 2 ^ 1074 * 2 ^ 1074) (n * 2 ^ 1074) = round_mag (nat \<bar>t\<bar> * 2 ^ 1074) n"
    by (rule round_mag_scale) simp
  then have "f_div ?x ?y = f_pack (t < 0) (if t = 0 then 0 else round_mag (nat \<bar>t\<bar> * 2 ^ 1074) n)"
    unfolding f_div_finite [OF fin y0] vx vy x0 s(1) using s(2) by (simp only: simp_thms if_cancel)
  then show ?thesis using r0 by (simp add: mean_of_def)
qed

end
