(* ===== verification/Op_Reduce.thy ===== *)
theory Op_Reduce
  imports Memory_Source Float_Arith Op_Take Schemas
begin

text \<open>
  The aggregate operator \<open>Reduce\<close> (\<open>rust/src/op/reduce.rs\<close>): \<open>count(*)\<close>, \<open>sum\<close> and \<open>avg\<close>, over the whole input or per group, kept up
  to date from a count and one accumulator per summed column. The input, the output edge and the storage slot are reached through
  \<open>graph_env\<close>, extended by the operator's own cell \<open>overflowed\<close> and by the iteration order of a \<open>HashMap\<close>, which the standard
  library leaves open. Sums are kept at 128 bits and counts at 64, as in the program; \<open>None\<close> is a panic.
\<close>

section \<open>Aggregates\<close>

datatype agg_spec = ACount | ASum col_id | AAvg col_id

definition col_name :: "agg_spec \<Rightarrow> name" where
  "col_name a = (case a of
       ACount \<Rightarrow> [99, 111, 117, 110, 116]
     | ASum _ \<Rightarrow> [115, 117, 109]
     | AAvg _ \<Rightarrow> [97, 118, 103])"

definition output_type :: "agg_spec \<Rightarrow> schema \<Rightarrow> value_type" where
  "output_type a input = (case a of
       ASum col \<Rightarrow> (if vec_get (sch_column_types input) col = Some TyInt then TyInt else TyNumber)
     | _ \<Rightarrow> TyNumber)"

definition acc_default :: reduce_acc where
  "acc_default = \<lparr> int_sum = 0, float_sum = 0, non_null = 0, float_count = 0 \<rparr>"

definition acc_delta :: "reduce_acc \<Rightarrow> cell_value \<Rightarrow> i64 \<Rightarrow> reduce_acc" where
  "acc_delta acc v sgn' = (case v of
       IntV i \<Rightarrow> acc \<lparr> int_sum := int_sum acc + scast sgn' * scast i, non_null := non_null acc + sgn' \<rparr>
     | Float f \<Rightarrow> acc \<lparr> float_sum := f_add (float_sum acc) (f_mul (f_of_int (sint sgn')) f),
                     float_count := float_count acc + sgn', non_null := non_null acc + sgn' \<rparr>
     | Null \<Rightarrow> acc
     | Absent \<Rightarrow> acc
     | _ \<Rightarrow> acc \<lparr> non_null := non_null acc + sgn' \<rparr>)"

definition i64_try_from :: "128 word \<Rightarrow> i64 option" where
  "i64_try_from w = (if - (2 ^ 63) \<le> sint w \<and> sint w < 2 ^ 63 then Some (word_of_int (sint w)) else None)"

definition sum_value :: "reduce_acc \<Rightarrow> 128 word + cell_value" where
  "sum_value a =
     (if non_null a = 0 then Inr Null
      else if float_count a = 0 then
        (case i64_try_from (int_sum a) of Some t \<Rightarrow> Inr (IntV t) | None \<Rightarrow> Inl (int_sum a))
      else Inr (Float (f_add (f_of_int (sint (int_sum a))) (float_sum a))))"

definition avg_value :: "reduce_acc \<Rightarrow> cell_value" where
  "avg_value a =
     (if non_null a = 0 then Null
      else Float (f_div (f_add (f_of_int (sint (int_sum a))) (float_sum a)) (f_of_int (sint (non_null a)))))"

fun agg_val_eq :: "cell_value \<Rightarrow> cell_value \<Rightarrow> bool" where
  "agg_val_eq Null Null = True"
| "agg_val_eq Absent Absent = True"
| "agg_val_eq (Bool x) (Bool y) = (x = y)"
| "agg_val_eq (IntV x) (IntV y) = (x = y)"
| "agg_val_eq (Float x) (Float y) = f_eq x y"
| "agg_val_eq (Str x) (Str y) = (x = y)"
| "agg_val_eq (Json x) (Json y) = (x = y)"
| "agg_val_eq _ _ = False"

definition agg_rows_equal :: "row \<Rightarrow> row \<Rightarrow> bool" where
  "agg_rows_equal a b \<longleftrightarrow> length a = length b \<and> list_all (\<lambda>i. agg_val_eq (a ! i) (b ! i)) [0..<length a]"

section \<open>The operator\<close>

record reduce_op =
  rd_aggs :: "agg_spec list"
  rd_partition_key :: "col_id list option"
  rd_eager :: bool
  rd_schema :: schema
  rd_wired :: bool

type_synonym reduce_group = "byte list \<times> cell_value list \<times> i64 \<times> reduce_acc list"

record 's reduce_env = "'s graph_env" +
  r_overflowed :: "'s \<Rightarrow> i64"
  r_put_overflowed :: "i64 \<Rightarrow> 's \<Rightarrow> 's"
  r_hash_order :: "reduce_group list \<Rightarrow> reduce_group list"

definition global_agg :: "agg_spec \<Rightarrow> reduce_op" where
  "global_agg spec = \<lparr> rd_aggs = [spec], rd_partition_key = None, rd_eager = True,
     rd_schema = schema_new [col_name spec] [] [], rd_wired = False \<rparr>"

definition grouped_agg :: "col_id list \<Rightarrow> name list \<Rightarrow> agg_spec \<Rightarrow> reduce_op option" where
  "grouped_agg pk key_cols spec =
     (if length pk = length key_cols then
        let k = length pk in
        Some \<lparr> rd_aggs = [spec], rd_partition_key = Some pk, rd_eager = True,
          rd_schema = schema_new (key_cols @ [col_name spec]) [0..<k] (map (\<lambda>i. (i, True)) [0..<k]), rd_wired = False \<rparr>
      else None)"

definition reduce_count :: reduce_op where
  "reduce_count = global_agg ACount"

definition reduce_sum :: "col_id \<Rightarrow> reduce_op" where
  "reduce_sum col = global_agg (ASum col)"

definition reduce_avg :: "col_id \<Rightarrow> reduce_op" where
  "reduce_avg col = global_agg (AAvg col)"

definition count_by :: "col_id list \<Rightarrow> name list \<Rightarrow> reduce_op option" where
  "count_by pk key_cols = grouped_agg pk key_cols ACount"

definition sum_by :: "col_id list \<Rightarrow> name list \<Rightarrow> col_id \<Rightarrow> reduce_op option" where
  "sum_by pk key_cols col = grouped_agg pk key_cols (ASum col)"

definition avg_by :: "col_id list \<Rightarrow> name list \<Rightarrow> col_id \<Rightarrow> reduce_op option" where
  "avg_by pk key_cols col = grouped_agg pk key_cols (AAvg col)"

definition reduce_lazy :: "bool \<Rightarrow> reduce_op \<Rightarrow> reduce_op option" where
  "reduce_lazy debug rd = do {
     debug_check debug (Some (rd_partition_key rd \<noteq> None));
     Some (rd \<lparr> rd_eager := False \<rparr>)
   }"

definition with_input_types :: "bool \<Rightarrow> reduce_op \<Rightarrow> schema \<Rightarrow> reduce_op option" where
  "with_input_types debug rd input = do {
     let types = (case rd_partition_key rd of None \<Rightarrow> []
       | Some pk \<Rightarrow> map (\<lambda>c. case vec_get (sch_column_types input) c of Some t \<Rightarrow> t | None \<Rightarrow> TyNumber) pk)
         @ map (\<lambda>a. output_type a input) (rd_aggs rd);
     debug_check debug (Some (length types = length (sch_columns (rd_schema rd))));
     Some (rd \<lparr> rd_schema := (case rd_schema rd of Schema cols _ pk srt rels single proj \<Rightarrow> Schema cols types pk srt rels single proj) \<rparr>)
   }"

section \<open>Groups and accumulators\<close>

definition group_vals :: "reduce_op \<Rightarrow> row \<Rightarrow> cell_value list option" where
  "group_vals rd r = (case rd_partition_key rd of None \<Rightarrow> Some [] | Some pk \<Rightarrow> cells_of r pk)"

definition group_vals_from_constraint :: "row_constraint \<Rightarrow> nat \<Rightarrow> cell_value list" where
  "group_vals_from_constraint c k =
     map (\<lambda>i. case List.find (\<lambda>(col, _). col = i) c of Some (_, v) \<Rightarrow> v | None \<Rightarrow> Null) [0..<k]"

definition input_constraint :: "reduce_op \<Rightarrow> cell_value list \<Rightarrow> row_constraint option" where
  "input_constraint rd vals = map_option (\<lambda>pk. zip pk vals) (rd_partition_key rd)"

definition reduce_prefix :: "byte list" where
  "reduce_prefix = [114, 101, 100, 117, 99, 101]"

definition group_key :: "cell_value list \<Rightarrow> byte list" where
  "group_key vals = encode_state_key reduce_prefix vals"

definition GLOBAL_KEY :: "byte list" where
  "GLOBAL_KEY = [114, 101, 100, 117, 99, 101]"

definition new_accs :: "reduce_op \<Rightarrow> reduce_acc list" where
  "new_accs rd = map (\<lambda>_. acc_default) (filter (\<lambda>a. case a of ACount \<Rightarrow> False | _ \<Rightarrow> True) (rd_aggs rd))"

fun acc_apply_loop :: "agg_spec list \<Rightarrow> nat \<Rightarrow> row \<Rightarrow> i64 \<Rightarrow> reduce_acc list \<Rightarrow> reduce_acc list option" where
  "acc_apply_loop [] ai r sgn' accs = Some accs"
| "acc_apply_loop (ACount # specs) ai r sgn' accs = acc_apply_loop specs ai r sgn' accs"
| "acc_apply_loop (spec # specs) ai r sgn' accs = do {
     acc \<leftarrow> vec_get accs ai;
     v \<leftarrow> row_col r (case spec of ASum c \<Rightarrow> c | AAvg c \<Rightarrow> c);
     acc_apply_loop specs (Suc ai) r sgn' (accs[ai := acc_delta acc v sgn'])
   }"

definition acc_apply :: "reduce_op \<Rightarrow> reduce_acc list \<Rightarrow> row \<Rightarrow> i64 \<Rightarrow> reduce_acc list option" where
  "acc_apply rd accs r sgn' = acc_apply_loop (rd_aggs rd) 0 r sgn' accs"

fun out_of_range_loop :: "agg_spec list \<Rightarrow> nat \<Rightarrow> reduce_acc list \<Rightarrow> bool option" where
  "out_of_range_loop [] ai accs = Some False"
| "out_of_range_loop (ACount # specs) ai accs = out_of_range_loop specs ai accs"
| "out_of_range_loop (ASum c # specs) ai accs = do {
     a \<leftarrow> vec_get accs ai;
     if 0 < sint (non_null a) \<and> float_count a = 0 \<and> i64_try_from (int_sum a) = None then Some True
     else out_of_range_loop specs (Suc ai) accs
   }"
| "out_of_range_loop (AAvg c # specs) ai accs = out_of_range_loop specs (Suc ai) accs"

definition sum_total_out_of_range :: "reduce_op \<Rightarrow> reduce_acc list \<Rightarrow> bool option" where
  "sum_total_out_of_range rd accs = out_of_range_loop (rd_aggs rd) 0 accs"

fun agg_cells :: "agg_spec list \<Rightarrow> nat \<Rightarrow> i64 \<Rightarrow> reduce_acc list \<Rightarrow> cell_value list option" where
  "agg_cells [] ai cnt accs = Some []"
| "agg_cells (ACount # specs) ai cnt accs = map_option (Cons (IntV cnt)) (agg_cells specs ai cnt accs)"
| "agg_cells (ASum c # specs) ai cnt accs = do {
     a \<leftarrow> vec_get accs ai;
     map_option (Cons (case sum_value a of Inr v \<Rightarrow> v | Inl _ \<Rightarrow> Null)) (agg_cells specs (Suc ai) cnt accs)
   }"
| "agg_cells (AAvg c # specs) ai cnt accs = do {
     a \<leftarrow> vec_get accs ai;
     map_option (Cons (avg_value a)) (agg_cells specs (Suc ai) cnt accs)
   }"

definition agg_row :: "reduce_op \<Rightarrow> cell_value list \<Rightarrow> i64 \<Rightarrow> reduce_acc list \<Rightarrow> row option" where
  "agg_row rd vals cnt accs = map_option (\<lambda>cells. vals @ cells) (agg_cells (rd_aggs rd) 0 cnt accs)"

section \<open>State\<close>

definition reduce_read_at :: "('s, 'x) graph_env_scheme \<Rightarrow> byte list \<Rightarrow> 's \<Rightarrow> (i64 \<times> reduce_acc list) option option" where
  "reduce_read_at env key st = (case storage_get key (g_storage env st) of
       None \<Rightarrow> Some None
     | Some (ReduceState cnt accs) \<Rightarrow> Some (Some (cnt, accs))
     | Some _ \<Rightarrow> None)"

definition overflow_count :: "'s reduce_env \<Rightarrow> 's \<Rightarrow> i64" where
  "overflow_count env st = r_overflowed env st"

definition is_out_of_range :: "reduce_op \<Rightarrow> reduce_acc list option \<Rightarrow> bool option" where
  "is_out_of_range rd a = (case a of None \<Rightarrow> Some False | Some accs \<Rightarrow> sum_total_out_of_range rd accs)"

definition track_overflow :: "'s reduce_env \<Rightarrow> reduce_op \<Rightarrow> reduce_acc list option \<Rightarrow> reduce_acc list option \<Rightarrow> 's \<Rightarrow> 's option" where
  "track_overflow env rd old new st = do {
     was \<leftarrow> is_out_of_range rd old;
     now \<leftarrow> is_out_of_range rd new;
     Some (if \<not> was \<and> now then r_put_overflowed env (r_overflowed env st + 1) st
           else if was \<and> \<not> now then r_put_overflowed env (r_overflowed env st - 1) st
           else st)
   }"

definition reduce_write_at :: "'s reduce_env \<Rightarrow> reduce_op \<Rightarrow> byte list \<Rightarrow> i64 \<Rightarrow> reduce_acc list \<Rightarrow> 's \<Rightarrow> 's option" where
  "reduce_write_at env rd key cnt accs st = do {
     old \<leftarrow> reduce_read_at env key st;
     st1 \<leftarrow> track_overflow env rd (map_option snd old) (Some accs) st;
     Some (g_put_storage env (storage_set key (ReduceState cnt accs) (g_storage env st1)) st1)
   }"

definition reduce_del_at :: "'s reduce_env \<Rightarrow> reduce_op \<Rightarrow> byte list \<Rightarrow> 's \<Rightarrow> 's option" where
  "reduce_del_at env rd key st = do {
     old \<leftarrow> reduce_read_at env key st;
     st1 \<leftarrow> track_overflow env rd (map_option snd old) None st;
     Some (g_put_storage env (storage_del key (g_storage env st1)) st1)
   }"

section \<open>Fetch\<close>

fun fold_nodes :: "reduce_op \<Rightarrow> node list \<Rightarrow> i64 \<times> reduce_acc list \<Rightarrow> (i64 \<times> reduce_acc list) option" where
  "fold_nodes rd [] s = Some s"
| "fold_nodes rd (n # ns) (cnt, accs) = do {
     accs' \<leftarrow> acc_apply rd accs (node_row n) 1;
     fold_nodes rd ns (cnt + 1, accs')
   }"

definition reduce_fold :: "'s reduce_env \<Rightarrow> reduce_op \<Rightarrow> fetch_request \<Rightarrow> 's \<Rightarrow> ((i64 \<times> reduce_acc list) \<times> 's) option" where
  "reduce_fold env rd req st = do {
     (ns, st1) \<leftarrow> g_fetch env req st;
     s \<leftarrow> fold_nodes rd ns (0, new_accs rd);
     Some (s, st1)
   }"

fun entry_add :: "reduce_op \<Rightarrow> byte list \<Rightarrow> cell_value list \<Rightarrow> row \<Rightarrow> reduce_group list \<Rightarrow> reduce_group list option" where
  "entry_add rd key vals r [] = do {
     accs \<leftarrow> acc_apply rd (new_accs rd) r 1;
     Some [(key, vals, 1, accs)]
   }"
| "entry_add rd key vals r ((k, vs, cnt, accs) # gs) =
     (if k = key then do {
        accs' \<leftarrow> acc_apply rd accs r 1;
        Some ((k, vs, cnt + 1, accs') # gs)
      } else map_option (Cons (k, vs, cnt, accs)) (entry_add rd key vals r gs))"

fun fold_groups :: "reduce_op \<Rightarrow> node list \<Rightarrow> reduce_group list \<Rightarrow> reduce_group list option" where
  "fold_groups rd [] gs = Some gs"
| "fold_groups rd (n # ns) gs = do {
     vals \<leftarrow> group_vals rd (node_row n);
     gs' \<leftarrow> entry_add rd (group_key vals) vals (node_row n) gs;
     fold_groups rd ns gs'
   }"

fun write_groups :: "'s reduce_env \<Rightarrow> reduce_op \<Rightarrow> reduce_group list \<Rightarrow> 's \<Rightarrow> (row list \<times> 's) option" where
  "write_groups env rd [] st = Some ([], st)"
| "write_groups env rd ((key, vals, cnt, accs) # gs) st = do {
     st1 \<leftarrow> reduce_write_at env rd key cnt accs st;
     r \<leftarrow> agg_row rd vals cnt accs;
     (rs, st2) \<leftarrow> write_groups env rd gs st1;
     Some (r # rs, st2)
   }"

definition fetch_one_group :: "'s reduce_env \<Rightarrow> reduce_op \<Rightarrow> cell_value list \<Rightarrow> 's \<Rightarrow> (node list \<times> 's) option" where
  "fetch_one_group env rd vals st = do {
     let key = group_key vals;
     found \<leftarrow> reduce_read_at env key st;
     ((cnt, accs), st1) \<leftarrow> (case found of
         Some s \<Rightarrow> Some (s, st)
       | None \<Rightarrow> do {
           c \<leftarrow> input_constraint rd vals;
           (s, st1) \<leftarrow> reduce_fold env rd (fetch_with_constraint c) st;
           st2 \<leftarrow> reduce_write_at env rd key (fst s) (snd s) st1;
           Some (s, st2)
         });
     if 0 < sint cnt then do {
       r \<leftarrow> agg_row rd vals cnt accs;
       Some ([leaf r], st1)
     } else Some ([], st1)
   }"

definition fetch_global :: "'s reduce_env \<Rightarrow> reduce_op \<Rightarrow> 's \<Rightarrow> (node list \<times> 's) option" where
  "fetch_global env rd st = do {
     found \<leftarrow> reduce_read_at env GLOBAL_KEY st;
     ((cnt, accs), st1) \<leftarrow> (case found of
         Some s \<Rightarrow> Some (s, st)
       | None \<Rightarrow> do {
           (s, st1) \<leftarrow> reduce_fold env rd fetch_all st;
           st2 \<leftarrow> reduce_write_at env rd GLOBAL_KEY (fst s) (snd s) st1;
           Some (s, st2)
         });
     r \<leftarrow> agg_row rd [] cnt accs;
     Some ([leaf r], st1)
   }"

definition fetch_groups :: "'s reduce_env \<Rightarrow> reduce_op \<Rightarrow> 's \<Rightarrow> (node list \<times> 's) option" where
  "fetch_groups env rd st = do {
     (ns, st1) \<leftarrow> g_fetch env fetch_all st;
     gs \<leftarrow> fold_groups rd ns [];
     (rs, st2) \<leftarrow> write_groups env rd (r_hash_order env gs) st1;
     rs' \<leftarrow> sort_by (compare_rows (sch_sort (rd_schema rd))) rs;
     Some (map leaf rs', st2)
   }"

definition reduce_fetch :: "'s reduce_env \<Rightarrow> reduce_op \<Rightarrow> fetch_request \<Rightarrow> 's \<Rightarrow> (node list \<times> 's) option" where
  "reduce_fetch env rd req st = (case rd_partition_key rd of
       None \<Rightarrow> fetch_global env rd st
     | Some pk \<Rightarrow> (case (rd_eager rd, req_constraint req) of
         (False, Some c) \<Rightarrow>
           (if constraint_matches_partition_key c [0..<length pk]
            then fetch_one_group env rd (group_vals_from_constraint c (length pk)) st
            else fetch_groups env rd st)
       | _ \<Rightarrow> fetch_groups env rd st))"

section \<open>Push\<close>

definition global_delta :: "reduce_op \<Rightarrow> change \<Rightarrow> i64 \<Rightarrow> reduce_acc list \<Rightarrow> (i64 \<times> reduce_acc list) option" where
  "global_delta rd c cnt accs = (case c of
       Add n \<Rightarrow> map_option (Pair (cnt + 1)) (acc_apply rd accs (node_row n) 1)
     | Remove n \<Rightarrow> map_option (Pair (cnt - 1)) (acc_apply rd accs (node_row n) (- 1))
     | Edit n old \<Rightarrow> do {
         accs1 \<leftarrow> acc_apply rd accs (node_row old) (- 1);
         map_option (Pair cnt) (acc_apply rd accs1 (node_row n) 1)
       }
     | Child _ _ _ \<Rightarrow> None)"

definition push_global :: "'s reduce_env \<Rightarrow> reduce_op \<Rightarrow> change \<Rightarrow> 's \<Rightarrow> 's option" where
  "push_global env rd c st = do {
     found \<leftarrow> reduce_read_at env GLOBAL_KEY st;
     case found of None \<Rightarrow> Some st
     | Some (cnt, accs) \<Rightarrow>
         if (case c of Child _ _ _ \<Rightarrow> True | _ \<Rightarrow> False) then Some st
         else do {
           old_row \<leftarrow> agg_row rd [] cnt accs;
           (new_count, new_accs') \<leftarrow> global_delta rd c cnt accs;
           new_row \<leftarrow> agg_row rd [] new_count new_accs';
           st1 \<leftarrow> reduce_write_at env rd GLOBAL_KEY new_count new_accs' st;
           if agg_rows_equal old_row new_row then Some st1 else g_push env (Edit (leaf new_row) (leaf old_row)) st1
         }
   }"

definition grouped_birth :: "'s reduce_env \<Rightarrow> reduce_op \<Rightarrow> cell_value list \<Rightarrow> row \<Rightarrow> i64 \<Rightarrow> 's \<Rightarrow> 's option" where
  "grouped_birth env rd vals r delta st =
     (if rd_eager rd \<and> 0 < sint delta then do {
        accs \<leftarrow> acc_apply rd (new_accs rd) r 1;
        born \<leftarrow> agg_row rd vals delta accs;
        st1 \<leftarrow> reduce_write_at env rd (group_key vals) delta accs st;
        g_push env (Add (leaf born)) st1
      } else Some st)"

definition grouped_delta :: "'s reduce_env \<Rightarrow> reduce_op \<Rightarrow> row \<Rightarrow> i64 \<Rightarrow> 's \<Rightarrow> 's option" where
  "grouped_delta env rd r delta st = do {
     vals \<leftarrow> group_vals rd r;
     let key = group_key vals;
     found \<leftarrow> reduce_read_at env key st;
     case found of None \<Rightarrow> grouped_birth env rd vals r delta st
     | Some (old_count, old_accs) \<Rightarrow> do {
         let new_count = (if sint (old_count + delta) < 0 then 0 else old_count + delta);
         new_accs' \<leftarrow> acc_apply rd old_accs r delta;
         case (0 < sint old_count, 0 < sint new_count) of
           (False, True) \<Rightarrow> do {
             new_row \<leftarrow> agg_row rd vals new_count new_accs';
             st1 \<leftarrow> reduce_write_at env rd key new_count new_accs' st;
             g_push env (Add (leaf new_row)) st1
           }
         | (True, True) \<Rightarrow> do {
             old_row \<leftarrow> agg_row rd vals old_count old_accs;
             new_row \<leftarrow> agg_row rd vals new_count new_accs';
             st1 \<leftarrow> reduce_write_at env rd key new_count new_accs' st;
             if agg_rows_equal old_row new_row then Some st1 else g_push env (Edit (leaf new_row) (leaf old_row)) st1
           }
         | (True, False) \<Rightarrow> do {
             old_row \<leftarrow> agg_row rd vals old_count old_accs;
             st1 \<leftarrow> (if rd_eager rd then reduce_del_at env rd key st else reduce_write_at env rd key new_count new_accs' st);
             g_push env (Remove (leaf old_row)) st1
           }
         | (False, False) \<Rightarrow> reduce_write_at env rd key new_count new_accs' st
       }
   }"

definition grouped_edit :: "'s reduce_env \<Rightarrow> reduce_op \<Rightarrow> row \<Rightarrow> row \<Rightarrow> 's \<Rightarrow> 's option" where
  "grouped_edit env rd old_in new_in st = do {
     vals \<leftarrow> group_vals rd new_in;
     let key = group_key vals;
     found \<leftarrow> reduce_read_at env key st;
     case found of None \<Rightarrow> Some st
     | Some (cnt, old_accs) \<Rightarrow> do {
         accs1 \<leftarrow> acc_apply rd old_accs old_in (- 1);
         new_accs' \<leftarrow> acc_apply rd accs1 new_in 1;
         old_row \<leftarrow> agg_row rd vals cnt old_accs;
         new_row \<leftarrow> agg_row rd vals cnt new_accs';
         st1 \<leftarrow> reduce_write_at env rd key cnt new_accs' st;
         if agg_rows_equal old_row new_row then Some st1 else g_push env (Edit (leaf new_row) (leaf old_row)) st1
       }
   }"

definition reduce_push :: "bool \<Rightarrow> 's reduce_env \<Rightarrow> reduce_op \<Rightarrow> change \<Rightarrow> 's \<Rightarrow> 's option" where
  "reduce_push debug env rd c st =
     (if \<not> rd_wired rd then None
      else case rd_partition_key rd of
        None \<Rightarrow> push_global env rd c st
      | Some pk \<Rightarrow> (case c of
          Add n \<Rightarrow> grouped_delta env rd (node_row n) 1 st
        | Remove n \<Rightarrow> grouped_delta env rd (node_row n) (- 1) st
        | Edit n old \<Rightarrow> do {
            debug_check debug (partition_key_unchanged (node_row old) (node_row n) pk);
            grouped_edit env rd (node_row old) (node_row n) st
          }
        | Child _ _ _ \<Rightarrow> Some st))"

end
