(* ===== verification/Reduce_Sums.thy ===== *)
theory Reduce_Sums
  imports Op_Reduce
begin

text \<open>
  What the accumulators of \<open>Reduce\<close> hold. The reference is the aggregate of a multiset of rows, over unbounded integers; the
  accumulators are words. When the summed columns hold no floats, folding rows in and out of an accumulator in any order gives the
  accumulator of the rows that are in, and the cells made from it are the aggregates, for fewer than \<open>2 ^ 63\<close> rows.
\<close>

section \<open>The aggregates of a multiset of rows\<close>

definition int_total :: "col_id \<Rightarrow> row multiset \<Rightarrow> int" where
  "int_total c M = (\<Sum>r\<in>#M. case r ! c of IntV i \<Rightarrow> sint i | _ \<Rightarrow> 0)"

definition nn_total :: "col_id \<Rightarrow> row multiset \<Rightarrow> nat" where
  "nn_total c M = size {# r \<in># M. r ! c \<notin> {Null, Absent} #}"

definition in_i64 :: "int \<Rightarrow> bool" where
  "in_i64 i \<longleftrightarrow> - (2 ^ 63) \<le> i \<and> i < 2 ^ 63"

definition avg_of :: "int \<Rightarrow> nat \<Rightarrow> f64" where
  "avg_of t n = f_div (f_add (f_of_int t) 0) (f_of_int (int n))"

definition agg_cell :: "row multiset \<Rightarrow> agg_spec \<Rightarrow> cell_value" where
  "agg_cell M a = (case a of
       ACount \<Rightarrow> IntV (of_nat (size M))
     | ASum c \<Rightarrow> (if nn_total c M = 0 \<or> \<not> in_i64 (int_total c M) then Null else IntV (word_of_int (int_total c M)))
     | AAvg c \<Rightarrow> (if nn_total c M = 0 then Null else Float (avg_of (int_total c M) (nn_total c M))))"

fun sum_cols :: "agg_spec list \<Rightarrow> col_id list" where
  "sum_cols [] = []"
| "sum_cols (ACount # as) = sum_cols as"
| "sum_cols (ASum c # as) = c # sum_cols as"
| "sum_cols (AAvg c # as) = c # sum_cols as"

definition acc_of :: "row multiset \<Rightarrow> col_id \<Rightarrow> reduce_acc" where
  "acc_of M c = \<lparr> int_sum = word_of_int (int_total c M), float_sum = 0, non_null = of_nat (nn_total c M), float_count = 0 \<rparr>"

definition accs_of :: "reduce_op \<Rightarrow> row multiset \<Rightarrow> reduce_acc list" where
  "accs_of rd M = map (acc_of M) (sum_cols (rd_aggs rd))"

definition sums_ok :: "reduce_op \<Rightarrow> row \<Rightarrow> bool" where
  "sums_ok rd r \<longleftrightarrow> (\<forall>c\<in>set (sum_cols (rd_aggs rd)). c < length r \<and> (\<forall>f. r ! c \<noteq> Float f))"

text \<open>Up to \<open>2 ^ 53\<close> the average of a group is its exact mean, rounded once.\<close>

lemma agg_avg_mean:
  assumes "size M < 2 ^ 53" "\<bar>int_total c M\<bar> < 2 ^ 53"
  shows "agg_cell M (AAvg c) = (if nn_total c M = 0 then Null else Float (mean_of (int_total c M) (nn_total c M)))"
proof -
  have "nn_total c M \<le> size M" unfolding nn_total_def by (rule size_filter_mset_lesseq)
  then have "nn_total c M < 2 ^ 53" using assms(1) by (rule le_less_trans)
  then show ?thesis using mean_rounded_once [OF assms(2), of "nn_total c M"] by (simp add: agg_cell_def avg_of_def)
qed

section \<open>Accumulators are folded in and out exactly\<close>

lemma scast_64_128:
  "(scast (1 :: i64) :: 128 word) = 1" "(scast (- 1 :: i64) :: 128 word) = - 1" "(scast (i :: i64) :: 128 word) = word_of_int (sint i)"
proof -
  show s: "(scast (i :: i64) :: 128 word) = word_of_int (sint i)" for i by (rule scast_eq)
  have "sint (1 :: i64) = 1" "sint (- 1 :: i64) = - 1" by simp_all
  then show "(scast (1 :: i64) :: 128 word) = 1" "(scast (- 1 :: i64) :: 128 word) = - 1" unfolding s by (simp_all only: of_int_1 of_int_minus)
qed

lemma totals_add:
  "int_total c (add_mset r M) = (case r ! c of IntV i \<Rightarrow> sint i | _ \<Rightarrow> 0) + int_total c M"
  "nn_total c (add_mset r M) = (if r ! c \<in> {Null, Absent} then 0 else 1) + nn_total c M"
  by (simp_all add: int_total_def nn_total_def)

lemma acc_delta_in: "\<forall>f. r ! c \<noteq> Float f \<Longrightarrow> acc_delta (acc_of M c) (r ! c) 1 = acc_of (add_mset r M) c"
  unfolding acc_of_def totals_add acc_delta_def by (cases "r ! c") (simp_all add: scast_64_128(1,2) add.commute)

lemma acc_delta_out: "\<forall>f. r ! c \<noteq> Float f \<Longrightarrow> acc_delta (acc_of (add_mset r M) c) (r ! c) (- 1) = acc_of M c"
  unfolding acc_of_def totals_add acc_delta_def by (cases "r ! c") (simp_all add: scast_64_128(1,2))

lemma acc_apply_loop_map:
  "length ys = length (sum_cols specs) \<Longrightarrow> \<forall>c\<in>set (sum_cols specs). c < length r \<Longrightarrow>
   acc_apply_loop specs (length xs) r s (xs @ ys) = Some (xs @ map2 (\<lambda>c a. acc_delta a (r ! c) s) (sum_cols specs) ys)"
proof (induction specs arbitrary: xs ys)
  case (Cons a specs)
  show ?case
  proof (cases a)
    case ACount
    then show ?thesis using Cons by simp
  next
    case (ASum c)
    then obtain y zs where ys: "ys = y # zs" using Cons.prems by (cases ys) auto
    show ?thesis using Cons.IH [of zs "xs @ [acc_delta y (r ! c) s]"] Cons.prems by (simp add: ASum ys row_col_def)
  next
    case (AAvg c)
    then obtain y zs where ys: "ys = y # zs" using Cons.prems by (cases ys) auto
    show ?thesis using Cons.IH [of zs "xs @ [acc_delta y (r ! c) s]"] Cons.prems by (simp add: AAvg ys row_col_def)
  qed
qed simp

lemma acc_apply_map:
  "length accs = length (sum_cols (rd_aggs rd)) \<Longrightarrow> sums_ok rd r \<Longrightarrow>
   acc_apply rd accs r s = Some (map2 (\<lambda>c a. acc_delta a (r ! c) s) (sum_cols (rd_aggs rd)) accs)"
  using acc_apply_loop_map [of accs "rd_aggs rd" r "[]" s] by (simp add: acc_apply_def sums_ok_def)

lemma map2_map_self: "map2 f xs (map g xs) = map (\<lambda>x. f x (g x)) xs"
  by (induction xs) auto

lemma acc_apply_in: "sums_ok rd r \<Longrightarrow> acc_apply rd (accs_of rd M) r 1 = Some (accs_of rd (add_mset r M))"
  by (simp add: acc_apply_map accs_of_def map2_map_self acc_delta_in sums_ok_def)

lemma acc_apply_out: "sums_ok rd r \<Longrightarrow> acc_apply rd (accs_of rd (add_mset r M)) r (- 1) = Some (accs_of rd M)"
  by (simp add: acc_apply_map accs_of_def map2_map_self acc_delta_out sums_ok_def)

lemma new_accs_of: "new_accs rd = accs_of rd {#}"
proof -
  have "map (\<lambda>_. acc_default) (filter (\<lambda>a. case a of ACount \<Rightarrow> False | _ \<Rightarrow> True) as) = map (acc_of {#}) (sum_cols as)" for as
    by (induction as rule: sum_cols.induct) (simp_all add: acc_default_def acc_of_def int_total_def nn_total_def)
  then show ?thesis by (simp add: new_accs_def accs_of_def)
qed

section \<open>No wrap-around\<close>

lemma sum_mset_abs_le:
  fixes f :: "'a \<Rightarrow> int"
  shows "(\<And>x. \<bar>f x\<bar> \<le> b) \<Longrightarrow> \<bar>\<Sum>x\<in>#M. f x\<bar> \<le> int (size M) * b"
proof (induction M)
  case (add x M)
  have "\<bar>f x + (\<Sum>x\<in>#M. f x)\<bar> \<le> b + int (size M) * b" using add.IH [OF add.prems] add.prems [of x] by linarith
  then show ?case by (simp add: algebra_simps)
qed simp

lemma int_total_bound: "size M < 2 ^ 63 \<Longrightarrow> \<bar>int_total c M\<bar> < 2 ^ 126"
proof -
  assume s: "size M < 2 ^ 63"
  have "\<bar>case r ! c of IntV i \<Rightarrow> sint i | _ \<Rightarrow> 0\<bar> \<le> (2 ^ 63 :: int)" for r
  proof (cases "r ! c")
    case (IntV i)
    have "- (2 ^ 63) \<le> sint i" "sint i < 2 ^ 63" using sint_ge [of i] sint_lt [of i] by simp_all
    then show ?thesis by (simp add: IntV)
  qed simp_all
  then have "\<bar>int_total c M\<bar> \<le> int (size M) * 2 ^ 63" unfolding int_total_def by (rule sum_mset_abs_le)
  also have "\<dots> < 2 ^ 63 * 2 ^ 63" using s by (intro mult_strict_right_mono) simp_all
  finally show ?thesis by simp
qed

lemma nn_total_le: "nn_total c M \<le> size M"
  unfolding nn_total_def by (rule size_filter_mset_lesseq)

lemma sint_of_nat_64: "n < 2 ^ 63 \<Longrightarrow> sint (of_nat n :: i64) = int n"
  using sint_word_of_int_64 [of "int n"] by simp

lemma acc_of_read:
  assumes "size M < 2 ^ 63"
  shows "sint (int_sum (acc_of M c)) = int_total c M" "sint (non_null (acc_of M c)) = int (nn_total c M)"
    "non_null (acc_of M c) = 0 \<longleftrightarrow> nn_total c M = 0" "float_count (acc_of M c) = 0" "float_sum (acc_of M c) = 0"
proof -
  have "sint (word_of_int i :: 128 word) = i" if "\<bar>i\<bar> < 2 ^ 126" for i
    using that by (simp add: signed_of_int signed_take_bit_int_eq_self abs_less_iff)
  then show "sint (int_sum (acc_of M c)) = int_total c M" using int_total_bound [OF assms, of c] by (simp add: acc_of_def)
  have "nn_total c M < 2 ^ 63" using nn_total_le [of c M] assms by linarith
  then show n: "sint (non_null (acc_of M c)) = int (nn_total c M)" using sint_of_nat_64 by (simp add: acc_of_def)
  have "non_null (acc_of M c) = 0 \<longleftrightarrow> sint (non_null (acc_of M c)) = sint (0 :: i64)" by (auto intro: signed_word_eqI)
  then show "non_null (acc_of M c) = 0 \<longleftrightarrow> nn_total c M = 0" unfolding n by simp
qed (simp_all add: acc_of_def)

lemma i64_try_from_acc:
  assumes "size M < 2 ^ 63"
  shows "i64_try_from (int_sum (acc_of M c)) = (if in_i64 (int_total c M) then Some (word_of_int (int_total c M)) else None)"
  by (simp add: i64_try_from_def acc_of_read [OF assms] in_i64_def)

lemma sum_value_acc:
  assumes "size M < 2 ^ 63"
  shows "(case sum_value (acc_of M c) of Inr v \<Rightarrow> v | Inl _ \<Rightarrow> Null) = agg_cell M (ASum c)"
  using i64_try_from_acc [OF assms, of c] acc_of_read [OF assms, of c] by (auto simp: sum_value_def agg_cell_def)

lemma avg_value_acc:
  assumes "size M < 2 ^ 63"
  shows "avg_value (acc_of M c) = agg_cell M (AAvg c)"
  using acc_of_read [OF assms, of c] by (auto simp: avg_value_def agg_cell_def avg_of_def)

lemma agg_cells_map:
  assumes "size M < 2 ^ 63"
  shows "agg_cells specs (length xs) (of_nat (size M)) (xs @ map (acc_of M) (sum_cols specs)) = Some (map (agg_cell M) specs)"
proof (induction specs arbitrary: xs)
  case (Cons a specs)
  have "agg_cells specs (Suc (length xs)) (of_nat (size M)) (xs @ y # map (acc_of M) (sum_cols specs)) = Some (map (agg_cell M) specs)" for y
    using Cons.IH [of "xs @ [y]"] by simp
  then show ?case using Cons.IH [of xs] by (cases a) (simp_all add: sum_value_acc [OF assms] avg_value_acc [OF assms], simp add: agg_cell_def)
qed simp

lemma agg_row_exact:
  assumes "size M < 2 ^ 63"
  shows "agg_row rd vals (of_nat (size M)) (accs_of rd M) = Some (vals @ map (agg_cell M) (rd_aggs rd))"
  using agg_cells_map [OF assms, of "rd_aggs rd" "[]"] by (simp add: agg_row_def accs_of_def)

definition sum_overflows :: "reduce_op \<Rightarrow> row multiset \<Rightarrow> bool" where
  "sum_overflows rd M \<longleftrightarrow> (\<exists>c. ASum c \<in> set (rd_aggs rd) \<and> \<not> in_i64 (int_total c M))"

lemma nn_total_zero: "nn_total c M = 0 \<Longrightarrow> in_i64 (int_total c M)"
proof -
  have "int_total c M = 0" if "nn_total c M = 0"
    using that unfolding int_total_def nn_total_def by (induction M) (auto split: if_splits)
  then show "nn_total c M = 0 \<Longrightarrow> in_i64 (int_total c M)" by (simp add: in_i64_def)
qed

lemma out_of_range_exact:
  assumes "size M < 2 ^ 63"
  shows "sum_total_out_of_range rd (accs_of rd M) = Some (sum_overflows rd M)"
proof -
  have "out_of_range_loop specs (length xs) (xs @ map (acc_of M) (sum_cols specs)) =
      Some (\<exists>c. ASum c \<in> set specs \<and> \<not> in_i64 (int_total c M))" for specs xs
  proof (induction specs arbitrary: xs)
    case (Cons a specs)
    have "out_of_range_loop specs (Suc (length xs)) (xs @ y # map (acc_of M) (sum_cols specs)) =
        Some (\<exists>c. ASum c \<in> set specs \<and> \<not> in_i64 (int_total c M))" for y
      using Cons.IH [of "xs @ [y]"] by simp
    then show ?case using Cons.IH [of xs] acc_of_read [OF assms] i64_try_from_acc [OF assms] nn_total_zero [of _ M]
      by (cases a) auto
  qed simp
  from this [of "rd_aggs rd" "[]"] show ?thesis by (simp add: sum_total_out_of_range_def accs_of_def sum_overflows_def)
qed

section \<open>Floats are not folded out exactly\<close>

text \<open>
  Removing a float does not undo adding it. After an infinity has been added and removed again, the accumulator counts no float any
  more, but its float sum is a NaN, and every later average over the rows that remain is one.
\<close>

definition F_INF :: f64 where
  "F_INF = 0x7FF0000000000000"

lemma F_INF_fields: "is_inf F_INF" "\<not> f_sign F_INF" "\<not> is_nan F_INF" "f_mag F_INF = inf_mag"
  by (simp_all add: F_INF_def is_inf_def f_sign_def is_nan_def f_exp_def f_frac_def f_mag_def inf_mag_def bit_iff_odd)

lemma unit_mul_inf: "f_mul (f_of_int 1) F_INF = f_pack False inf_mag" "f_mul (f_of_int (- 1)) F_INF = f_pack True inf_mag"
proof -
  have n: "f_mag (f_of_int i) \<noteq> 0 \<and> \<not> is_nan (f_of_int i)" if "i \<noteq> 0" for i
    using f_of_int_mag_ge [OF that] f_of_int_fields(3) [of i] by (simp add: not_nan_iff)
  show "f_mul (f_of_int 1) F_INF = f_pack False inf_mag" "f_mul (f_of_int (- 1)) F_INF = f_pack True inf_mag"
    using n [of 1] n [of "- 1"] F_INF_fields f_of_int_fields(1) [of 1] f_of_int_fields(1) [of "- 1"] by (simp_all add: f_mul_def Let_def inf_mag_def)
qed

lemma float_residue:
  "let acc = acc_delta (acc_delta (acc_delta acc_default (IntV 1) 1) (Float F_INF) 1) (Float F_INF) (- 1)
   in float_count acc = 0 \<and> non_null acc = 1 \<and> (\<exists>f. avg_value acc = Float f \<and> is_nan f)"
proof -
  have inf: "is_inf (f_pack s inf_mag)" "f_sign (f_pack s inf_mag) = s" "\<not> is_nan (f_pack s inf_mag)" for s
    using f_pack_fields [OF inf_mag_less [OF order_refl], of s] by (simp_all add: is_inf_def not_nan_iff)
  have nan: "is_nan F_NAN" by (simp add: is_nan_def F_NAN_def f_exp_def f_frac_def f_mag_def)
  have "f_add 0 (f_pack False inf_mag) = f_pack False inf_mag" using inf [of False] by (simp add: f_add_def)
  moreover have "f_add (f_pack False inf_mag) (f_pack True inf_mag) = F_NAN" using inf by (simp add: f_add_def)
  moreover have "f_add x F_NAN = F_NAN" "f_div F_NAN x = F_NAN" for x using nan by (simp_all add: f_add_def f_div_def Let_def)
  ultimately show ?thesis using nan unit_mul_inf by (simp add: acc_delta_def acc_default_def avg_value_def Let_def)
qed

end
