(* ===== verification/Reduce_View.thy ===== *)
theory Reduce_View
  imports Reduce_Sums Join_View
begin

text \<open>
  What a view below \<open>Reduce\<close> holds: one row per group that has state and rows. Every push keeps the stored groups exact, counts the
  groups whose integer sum does not fit, and emits at most one change, which turns the old aggregate rows into the new ones.
\<close>

section \<open>The state and its environment\<close>

record reduce_state = op_state +
  rs_overflowed :: i64

definition red_env :: "(fetch_request \<Rightarrow> node list option) \<Rightarrow> (reduce_group list \<Rightarrow> reduce_group list) \<Rightarrow> reduce_state reduce_env" where
  "red_env f hash_order = \<lparr>
     g_fetch = (\<lambda>req st. map_option (\<lambda>ns. (ns, st)) (f req)),
     g_push = (\<lambda>c st. Some (st \<lparr> os_log := os_log st @ [c] \<rparr>)),
     g_storage = os_storage,
     g_put_storage = (\<lambda>m st. st \<lparr> os_storage := m \<rparr>),
     g_hidden = os_hidden,
     g_put_hidden = (\<lambda>h st. st \<lparr> os_hidden := h \<rparr>),
     g_deadline = (\<lambda>st. (False, st)),
     g_park = (\<lambda>site st. st),
     r_overflowed = rs_overflowed,
     r_put_overflowed = (\<lambda>n st. st \<lparr> rs_overflowed := n \<rparr>),
     r_hash_order = hash_order \<rparr>"

lemma red_env_simps [simp]:
  "g_fetch (red_env f hash_order) req st = map_option (\<lambda>ns. (ns, st)) (f req)"
  "g_push (red_env f hash_order) c = (\<lambda>st. Some (st \<lparr> os_log := os_log st @ [c] \<rparr>))"
  "g_storage (red_env f hash_order) st = os_storage st"
  "g_put_storage (red_env f hash_order) m st = st \<lparr> os_storage := m \<rparr>"
  "r_overflowed (red_env f hash_order) st = rs_overflowed st"
  "r_put_overflowed (red_env f hash_order) n st = st \<lparr> rs_overflowed := n \<rparr>"
  "r_hash_order (red_env f hash_order) = hash_order"
  by (simp_all add: red_env_def)

section \<open>Groups\<close>

definition rvals :: "reduce_op \<Rightarrow> row \<Rightarrow> cell_value list" where
  "rvals rd r = (case rd_partition_key rd of None \<Rightarrow> [] | Some pk \<Rightarrow> map ((!) r) pk)"

definition rkey :: "reduce_op \<Rightarrow> row \<Rightarrow> byte list" where
  "rkey rd r = group_key (rvals rd r)"

definition grp :: "reduce_op \<Rightarrow> row multiset \<Rightarrow> byte list \<Rightarrow> row multiset" where
  "grp rd R k = {# r \<in># R. rkey rd r = k #}"

definition reduce_row_ok :: "reduce_op \<Rightarrow> row \<Rightarrow> bool" where
  "reduce_row_ok rd r \<longleftrightarrow> sums_ok rd r \<and> (\<forall>pk. rd_partition_key rd = Some pk \<longrightarrow> (\<forall>c\<in>set pk. c < length r))"

text \<open>Rows of one group spell their group values alike: an integer is not mixed with the float it equals.\<close>

definition keyed_alike :: "reduce_op \<Rightarrow> row multiset \<Rightarrow> bool" where
  "keyed_alike rd R \<longleftrightarrow> (\<forall>a\<in>#R. \<forall>b\<in>#R. rkey rd a = rkey rd b \<longrightarrow> rvals rd a = rvals rd b)"

definition agg_out :: "reduce_op \<Rightarrow> cell_value list \<Rightarrow> row multiset \<Rightarrow> row" where
  "agg_out rd vals M = vals @ map (agg_cell M) (rd_aggs rd)"

definition stored_keys :: "reduce_state \<Rightarrow> byte list set" where
  "stored_keys st = {k. storage_get k (os_storage st) \<noteq> None}"

text \<open>The rows downstream: per stored group that has rows, or the one row of a global aggregate.\<close>

definition reduce_view :: "reduce_op \<Rightarrow> byte list set \<Rightarrow> row multiset \<Rightarrow> row set" where
  "reduce_view rd H R =
     (if rd_partition_key rd = None then (if GLOBAL_KEY \<in> H then {agg_out rd [] R} else {})
      else (\<lambda>r. agg_out rd (rvals rd r) (grp rd R (rkey rd r))) ` {r \<in> set_mset R. rkey rd r \<in> H})"

definition stored_exact :: "reduce_op \<Rightarrow> row multiset \<Rightarrow> memory_storage \<Rightarrow> bool" where
  "stored_exact rd R m \<longleftrightarrow> (\<forall>k v. storage_get k m = Some v \<longrightarrow>
     v = ReduceState (of_nat (size (grp rd R k))) (accs_of rd (grp rd R k)))"

definition overflow_exact :: "reduce_op \<Rightarrow> row multiset \<Rightarrow> reduce_state \<Rightarrow> bool" where
  "overflow_exact rd R st \<longleftrightarrow> rs_overflowed st = of_nat (card {k \<in> stored_keys st. sum_overflows rd (grp rd R k)})"

definition all_stored :: "reduce_op \<Rightarrow> row multiset \<Rightarrow> reduce_state \<Rightarrow> bool" where
  "all_stored rd R st \<longleftrightarrow> (rd_eager rd \<and> rd_partition_key rd \<noteq> None \<longrightarrow> rkey rd ` set_mset R \<subseteq> stored_keys st)"

definition reduce_inv :: "reduce_op \<Rightarrow> row multiset \<Rightarrow> reduce_state \<Rightarrow> bool" where
  "reduce_inv rd R st \<longleftrightarrow> om_ok bytes_cmp (os_storage st) \<and> stored_exact rd R (os_storage st) \<and> overflow_exact rd R st \<and> all_stored rd R st"

lemma group_vals_ok: "reduce_row_ok rd r \<Longrightarrow> group_vals rd r = Some (rvals rd r)"
proof -
  have "cells_of r pk = Some (map ((!) r) pk)" if "\<forall>c\<in>set pk. c < length r" for pk
    using that by (induction pk) (auto simp: row_col_def)
  then show "reduce_row_ok rd r \<Longrightarrow> group_vals rd r = Some (rvals rd r)"
    by (auto simp: reduce_row_ok_def group_vals_def rvals_def split: option.split)
qed

lemma size_grp: "size (grp rd R k) \<le> size R"
  unfolding grp_def by (rule size_filter_mset_lesseq)

section \<open>Writing and deleting one group\<close>

lemma finite_stored: "om_ok bytes_cmp (os_storage st) \<Longrightarrow> finite (stored_keys st)"
proof -
  assume ok: "om_ok bytes_cmp (os_storage st)"
  have "stored_keys st \<subseteq> fst ` set (storage_scan [] (os_storage st))"
    using mem_store.scan_sound [OF ok] by (force simp: stored_keys_def)
  then show ?thesis by (rule finite_subset) simp
qed

definition out_keys :: "reduce_op \<Rightarrow> row multiset \<Rightarrow> reduce_state \<Rightarrow> byte list set" where
  "out_keys rd R st = {k \<in> stored_keys st. sum_overflows rd (grp rd R k)}"

lemma read_at_stored:
  assumes "stored_exact rd R (os_storage st)"
  shows "reduce_read_at (red_env f ho) k st =
    Some (if k \<in> stored_keys st then Some (of_nat (size (grp rd R k)), accs_of rd (grp rd R k)) else None)"
proof (cases "storage_get k (os_storage st)")
  case (Some v)
  then have "v = ReduceState (of_nat (size (grp rd R k))) (accs_of rd (grp rd R k))" using assms by (simp add: stored_exact_def)
  then show ?thesis using Some by (simp add: reduce_read_at_def stored_keys_def)
qed (simp add: reduce_read_at_def stored_keys_def)

lemma track_exact:
  assumes "size R < 2 ^ 63" "size G < 2 ^ 63"
  shows "track_overflow (red_env f ho) rd (if b then Some (accs_of rd (grp rd R k)) else None) (if b' then Some (accs_of rd G) else None) st =
    Some (st \<lparr> rs_overflowed := rs_overflowed st + (if b' \<and> sum_overflows rd G then 1 else 0) - (if b \<and> sum_overflows rd (grp rd R k) then 1 else 0) \<rparr>)"
proof -
  have "size (grp rd R k) < 2 ^ 63" using size_grp [of rd R k] assms by linarith
  then show ?thesis using assms(2) by (simp add: track_overflow_def is_out_of_range_def out_of_range_exact)
qed

definition core_inv :: "reduce_op \<Rightarrow> row multiset \<Rightarrow> reduce_state \<Rightarrow> bool" where
  "core_inv rd R st \<longleftrightarrow> om_ok bytes_cmp (os_storage st) \<and> stored_exact rd R (os_storage st) \<and> overflow_exact rd R st"

definition agree_off :: "reduce_op \<Rightarrow> byte list \<Rightarrow> row multiset \<Rightarrow> row multiset \<Rightarrow> bool" where
  "agree_off rd k R R' \<longleftrightarrow> (\<forall>k'. k' \<noteq> k \<longrightarrow> grp rd R' k' = grp rd R k')"

lemma card_swap_word:
  assumes "finite A" "B - {k} = A - {k}"
  shows "(of_nat (card B) :: i64) = of_nat (card A) + (if k \<in> B then 1 else 0) - (if k \<in> A then 1 else 0)"
proof -
  have "finite B" using assms by (metis finite_Diff2 finite.emptyI finite_insert)
  moreover have "card X = card (X - {k}) + (if k \<in> X then 1 else 0)" if "finite X" for X
    using card.remove [OF that, of k] by (cases "k \<in> X") (simp_all del: card_Diff_singleton card_Diff_insert)
  ultimately have "card B = card (B - {k}) + (if k \<in> B then 1 else 0)" "card A = card (A - {k}) + (if k \<in> A then 1 else 0)"
    using assms(1) by blast+
  then show ?thesis using assms(2) by (simp del: card_Diff_singleton card_Diff_insert)
qed

lemma write_step:
  assumes inv: "core_inv rd R st" and off: "agree_off rd k R R'" and small: "size R < 2 ^ 63" "size R' < 2 ^ 63"
  shows "\<exists>st'. reduce_write_at (red_env f ho) rd k (of_nat (size (grp rd R' k))) (accs_of rd (grp rd R' k)) st = Some st' \<and>
    os_log st' = os_log st \<and> stored_keys st' = insert k (stored_keys st) \<and> core_inv rd R' st'"
proof -
  let ?A = "{k \<in> stored_keys st. sum_overflows rd (grp rd R k)}"
  define st' where "st' = st \<lparr> rs_overflowed := rs_overflowed st + (if sum_overflows rd (grp rd R' k) then 1 else 0) -
      (if k \<in> ?A then 1 else 0),
    os_storage := storage_set k (ReduceState (of_nat (size (grp rd R' k))) (accs_of rd (grp rd R' k))) (os_storage st) \<rparr>"
  have st: "om_ok bytes_cmp (os_storage st)" "stored_exact rd R (os_storage st)" "overflow_exact rd R st" using inv by (simp_all add: core_inv_def)
  have g: "size (grp rd R' k) < 2 ^ 63" using size_grp [of rd R' k] small by linarith
  have keys: "stored_keys st' = insert k (stored_keys st)" by (auto simp: stored_keys_def st'_def mem_store.get_put)
  have run: "reduce_write_at (red_env f ho) rd k (of_nat (size (grp rd R' k))) (accs_of rd (grp rd R' k)) st = Some st'"
    using track_exact [OF small(1) g, of f ho rd "k \<in> stored_keys st" k True st]
    by (cases "k \<in> stored_keys st") (simp_all add: reduce_write_at_def read_at_stored [OF st(2)] st'_def)
  have "{k \<in> stored_keys st'. sum_overflows rd (grp rd R' k)} - {k} = ?A - {k}" using off by (auto simp: keys agree_off_def)
  from card_swap_word [OF _ this] finite_stored [OF st(1)]
  have "overflow_exact rd R' st'" using st(3) unfolding overflow_exact_def by (simp add: keys) (simp add: st'_def)
  moreover have "stored_exact rd R' (os_storage st')"
    using st(2) off by (auto simp: stored_exact_def st'_def mem_store.get_put agree_off_def split: if_splits)
  moreover have "om_ok bytes_cmp (os_storage st')" using mem_store.good_put [OF st(1)] by (simp add: st'_def)
  ultimately show ?thesis using run keys by (auto simp: core_inv_def st'_def)
qed

lemma del_step:
  assumes inv: "core_inv rd R st" and off: "agree_off rd k R R'" and small: "size R < 2 ^ 63"
  shows "\<exists>st'. reduce_del_at (red_env f ho) rd k st = Some st' \<and>
    os_log st' = os_log st \<and> stored_keys st' = stored_keys st - {k} \<and> core_inv rd R' st'"
proof -
  let ?A = "{k \<in> stored_keys st. sum_overflows rd (grp rd R k)}"
  define st' where "st' = st \<lparr> rs_overflowed := rs_overflowed st - (if k \<in> ?A then 1 else 0), os_storage := storage_del k (os_storage st) \<rparr>"
  have st: "om_ok bytes_cmp (os_storage st)" "stored_exact rd R (os_storage st)" "overflow_exact rd R st" using inv by (simp_all add: core_inv_def)
  have keys: "stored_keys st' = stored_keys st - {k}" by (auto simp: stored_keys_def st'_def mem_store.get_del split: if_splits)
  have run: "reduce_del_at (red_env f ho) rd k st = Some st'"
    using track_exact [OF small, of "{#}" f ho rd "k \<in> stored_keys st" k False st]
    by (cases "k \<in> stored_keys st") (simp_all add: reduce_del_at_def read_at_stored [OF st(2)] st'_def)
  have "{k \<in> stored_keys st'. sum_overflows rd (grp rd R' k)} - {k} = ?A - {k}" using off by (auto simp: keys agree_off_def)
  from card_swap_word [OF _ this] finite_stored [OF st(1)]
  have "overflow_exact rd R' st'" using st(3) unfolding overflow_exact_def by (simp add: keys) (simp add: st'_def)
  moreover have "stored_exact rd R' (os_storage st')"
    using st(2) off by (auto simp: stored_exact_def st'_def mem_store.get_del agree_off_def split: if_splits)
  moreover have "om_ok bytes_cmp (os_storage st')" using mem_store.good_del [OF st(1)] by (simp add: st'_def)
  ultimately show ?thesis using run keys by (auto simp: core_inv_def st'_def)
qed

section \<open>Aggregate rows that compare equal are equal\<close>

lemma f_eq_mean:
  assumes "n < 2 ^ 63" "n' < 2 ^ 63" "f_eq (avg_of t n) (avg_of t' n')"
  shows "avg_of t n = avg_of t' n'"
proof (rule sign_mag_inject)
  let ?a = "avg_of t n" and ?b = "avg_of t' n'"
  have v: "f_val ?a = f_val ?b" using assms(3) by (simp add: f_eq_def)
  have zero: "f_mag ?a = 0 \<Longrightarrow> \<not> f_sign ?a" "f_mag ?b = 0 \<Longrightarrow> \<not> f_sign ?b"
    using mean_zero_sign assms(1,2) by (simp_all add: avg_of_def)
  have pos: "f_mag x = 0 \<or> 1 \<le> int (mag_val (f_mag x))" for x using mag_val_pos by blast
  show s: "f_sign ?a = f_sign ?b" using v zero pos [of ?a] pos [of ?b] by (auto simp: f_val_def split: if_splits)
  have "mag_val (f_mag ?a) = mag_val (f_mag ?b)" using v s by (auto simp: f_val_def split: if_splits)
  then show "f_mag ?a = f_mag ?b" by (simp only: mag_val_eq_iff)
qed

lemma agg_cell_eq:
  assumes "size M < 2 ^ 63" "size M' < 2 ^ 63" "agg_val_eq (agg_cell M a) (agg_cell M' a)"
  shows "agg_cell M a = agg_cell M' a"
proof -
  have "nn_total c M < 2 ^ 63" "nn_total c M' < 2 ^ 63" for c using nn_total_le [of c M] nn_total_le [of c M'] assms(1,2) by linarith+
  then show ?thesis using assms(3) f_eq_mean by (cases a) (auto simp: agg_cell_def split: if_splits)
qed

lemma agg_rows_equal_out:
  assumes "size M < 2 ^ 63" "size M' < 2 ^ 63" "agg_rows_equal (agg_out rd vals M) (agg_out rd vals M')"
  shows "agg_out rd vals M = agg_out rd vals M'"
proof -
  have "agg_val_eq (agg_cell M (rd_aggs rd ! j)) (agg_cell M' (rd_aggs rd ! j))" if "j < length (rd_aggs rd)" for j
  proof -
    have "length vals + j < length (agg_out rd vals M)" using that by (simp add: agg_out_def)
    then have "agg_val_eq (agg_out rd vals M ! (length vals + j)) (agg_out rd vals M' ! (length vals + j))"
      using assms(3) unfolding agg_rows_equal_def list_all_iff by (metis atLeastLessThan_iff atLeastLessThan_upt le0)
    then show ?thesis using that by (simp add: agg_out_def nth_append)
  qed
  then have "map (agg_cell M) (rd_aggs rd) = map (agg_cell M') (rd_aggs rd)" using agg_cell_eq [OF assms(1,2)] by (simp add: list_eq_iff_nth_eq)
  then show ?thesis by (simp add: agg_out_def)
qed

section \<open>The view as the group that changes and the others\<close>

definition view_others :: "reduce_op \<Rightarrow> byte list \<Rightarrow> byte list set \<Rightarrow> row multiset \<Rightarrow> row set" where
  "view_others rd k H R = (\<lambda>r. agg_out rd (rvals rd r) (grp rd R (rkey rd r))) ` {r \<in> set_mset R. rkey rd r \<in> H \<and> rkey rd r \<noteq> k}"

definition own_row :: "bool \<Rightarrow> row \<Rightarrow> row set" where
  "own_row b x = (if b then {x} else {})"

lemma in_grp: "r \<in># grp rd R k \<longleftrightarrow> r \<in># R \<and> rkey rd r = k"
  by (simp add: grp_def)

lemma view_split:
  assumes "rd_partition_key rd \<noteq> None" "\<forall>a\<in>#R. rkey rd a = k \<longrightarrow> rvals rd a = vals"
  shows "reduce_view rd H R = view_others rd k H R \<union> own_row (k \<in> H \<and> grp rd R k \<noteq> {#}) (agg_out rd vals (grp rd R k))"
proof -
  have "{r \<in> set_mset R. rkey rd r \<in> H} = {r \<in> set_mset R. rkey rd r \<in> H \<and> rkey rd r \<noteq> k} \<union> {r \<in> set_mset R. rkey rd r \<in> H \<and> rkey rd r = k}" by auto
  moreover have "(\<lambda>r. agg_out rd (rvals rd r) (grp rd R (rkey rd r))) ` {r \<in> set_mset R. rkey rd r \<in> H \<and> rkey rd r = k} =
      own_row (k \<in> H \<and> grp rd R k \<noteq> {#}) (agg_out rd vals (grp rd R k))" (is "?f ` ?S = _")
  proof -
    have f: "?f r = agg_out rd vals (grp rd R k)" if "r \<in> ?S" for r using that assms(2) by auto
    have ne: "?S \<noteq> {} \<longleftrightarrow> k \<in> H \<and> grp rd R k \<noteq> {#}" using in_grp [of _ rd R k] by (auto simp: grp_def)
    show ?thesis
    proof (cases "?S = {}")
      case True
      then show ?thesis using ne by (simp only: own_row_def image_empty) auto
    next
      case False
      have const: "g ` S = {y}" if "S \<noteq> {}" "\<And>r. r \<in> S \<Longrightarrow> g r = y" for g :: "row \<Rightarrow> row" and S y using that by auto
      have "?f ` ?S = {agg_out rd vals (grp rd R k)}" by (rule const [OF False f])
      moreover have "k \<in> H \<and> grp rd R k \<noteq> {#}" using ne False by blast
      ultimately show ?thesis by (simp add: own_row_def)
    qed
  qed
  moreover have "(rd_partition_key rd = None) = False" using assms(1) by simp
  ultimately show ?thesis unfolding reduce_view_def view_others_def by (simp only: if_False image_Un)
qed

lemma others_agree:
  assumes "agree_off rd k R R'" "H' - {k} = H - {k}"
  shows "view_others rd k H' R' = view_others rd k H R"
proof -
  have g: "grp rd R' (rkey rd r) = grp rd R (rkey rd r)" if "rkey rd r \<noteq> k" for r using assms(1) that by (simp add: agree_off_def)
  then have "r \<in># R' \<longleftrightarrow> r \<in># R" if "rkey rd r \<noteq> k" for r using that in_grp [of r rd R "rkey rd r"] in_grp [of r rd R' "rkey rd r"] by simp
  then have "{r \<in> set_mset R'. rkey rd r \<in> H' \<and> rkey rd r \<noteq> k} = {r \<in> set_mset R. rkey rd r \<in> H \<and> rkey rd r \<noteq> k}" using assms(2) by blast
  then show ?thesis unfolding view_others_def using g by (intro image_cong) auto
qed

lemma others_fresh: "agg_out rd (rvals rd r) M \<notin> view_others rd (rkey rd r) H R"
proof -
  have "length (rvals rd a) = length (rvals rd b)" for a b by (simp add: rvals_def split: option.split)
  then show ?thesis by (auto simp: view_others_def agg_out_def rkey_def)
qed

text \<open>What is emitted turns one set of rows into the other.\<close>

definition emits_view :: "change list \<Rightarrow> row set \<Rightarrow> row set \<Rightarrow> bool" where
  "emits_view es V V' \<longleftrightarrow> es = [] \<and> V' = V \<or> (\<exists>e. es = [e] \<and> rows_after e V = Some V')"

lemma emits_birth: "x \<notin> O' \<Longrightarrow> emits_view [Add (leaf x)] (O' \<union> own_row False y) (O' \<union> own_row True x)"
  by (simp add: emits_view_def own_row_def leaf_def)

lemma emits_death: "x \<notin> O' \<Longrightarrow> emits_view [Remove (leaf x)] (O' \<union> own_row True x) (O' \<union> own_row False y)"
  by (simp add: emits_view_def own_row_def leaf_def)

lemma emits_shift: "x \<notin> O' \<Longrightarrow> y \<notin> O' \<Longrightarrow> emits_view [Edit (leaf y) (leaf x)] (O' \<union> own_row True x) (O' \<union> own_row True y)"
  by (auto simp: emits_view_def own_row_def leaf_def)

lemma emits_none: "emits_view [] V V"
  by (simp add: emits_view_def)

section \<open>One push on a grouped reducer\<close>

definition step_ok :: "reduce_op \<Rightarrow> row multiset \<Rightarrow> row multiset \<Rightarrow> reduce_state \<Rightarrow> reduce_state option \<Rightarrow> bool" where
  "step_ok rd R R' st res \<longleftrightarrow> (\<exists>st' es. res = Some st' \<and> os_log st' = os_log st @ es \<and>
     emits_view es (reduce_view rd (stored_keys st) R) (reduce_view rd (stored_keys st') R') \<and> reduce_inv rd R' st')"

lemma reduce_inv_core: "reduce_inv rd R st \<longleftrightarrow> core_inv rd R st \<and> all_stored rd R st"
  by (auto simp: reduce_inv_def core_inv_def)

lemma agg_row_out: "size M < 2 ^ 63 \<Longrightarrow> agg_row rd vals (of_nat (size M)) (accs_of rd M) = Some (agg_out rd vals M)"
  by (simp add: agg_row_exact agg_out_def)

lemma grp_add: "grp rd (add_mset r R) k = (if rkey rd r = k then add_mset r (grp rd R k) else grp rd R k)"
  by (simp add: grp_def)

lemma agree_off_add: "agree_off rd (rkey rd r) R (add_mset r R)" "agree_off rd (rkey rd r) (add_mset r R) R"
  by (auto simp: agree_off_def grp_add)

lemma log_inv [simp]: "reduce_inv rd R (st \<lparr> os_log := l \<rparr>) = reduce_inv rd R st" "stored_keys (st \<lparr> os_log := l \<rparr>) = stored_keys st"
  by (simp_all add: reduce_inv_def overflow_exact_def all_stored_def stored_keys_def)

lemma agree_off_keys: "agree_off rd k R R' \<Longrightarrow> a \<in># R' \<Longrightarrow> rkey rd a \<noteq> k \<Longrightarrow> a \<in># R"
  using in_grp [of a rd R' "rkey rd a"] in_grp [of a rd R "rkey rd a"] by (auto simp: agree_off_def)

lemma write_inv:
  assumes "reduce_inv rd R st" "agree_off rd k R R'" "size R < 2 ^ 63" "size R' < 2 ^ 63"
  obtains st1 where "reduce_write_at (red_env f ho) rd k (of_nat (size (grp rd R' k))) (accs_of rd (grp rd R' k)) st = Some st1"
    "os_log st1 = os_log st" "stored_keys st1 = insert k (stored_keys st)" "reduce_inv rd R' st1"
proof -
  have core: "core_inv rd R st" "all_stored rd R st" using assms(1) by (simp_all add: reduce_inv_core)
  from write_step [OF core(1) assms(2-4)] obtain st1 where
    st1: "reduce_write_at (red_env f ho) rd k (of_nat (size (grp rd R' k))) (accs_of rd (grp rd R' k)) st = Some st1"
      "os_log st1 = os_log st" "stored_keys st1 = insert k (stored_keys st)" "core_inv rd R' st1" by blast
  have "all_stored rd R' st1" using core(2) agree_off_keys [OF assms(2)] unfolding all_stored_def st1(3) by blast
  then show ?thesis using that st1 by (simp add: reduce_inv_core)
qed

lemma del_inv:
  assumes "reduce_inv rd R st" "agree_off rd k R R'" "size R < 2 ^ 63" "grp rd R' k = {#}"
  obtains st1 where "reduce_del_at (red_env f ho) rd k st = Some st1"
    "os_log st1 = os_log st" "stored_keys st1 = stored_keys st - {k}" "reduce_inv rd R' st1"
proof -
  have core: "core_inv rd R st" "all_stored rd R st" using assms(1) by (simp_all add: reduce_inv_core)
  from del_step [OF core(1) assms(2,3)] obtain st1 where
    st1: "reduce_del_at (red_env f ho) rd k st = Some st1"
      "os_log st1 = os_log st" "stored_keys st1 = stored_keys st - {k}" "core_inv rd R' st1" by blast
  have "rkey rd a \<noteq> k" if "a \<in># R'" for a using that assms(4) in_grp [of a rd R' k] by auto
  then have "all_stored rd R' st1" using core(2) agree_off_keys [OF assms(2)] unfolding all_stored_def st1(3) by blast
  then show ?thesis using that st1 by (simp add: reduce_inv_core)
qed

text \<open>The setting of a push to the group of row \<open>r\<close>: nothing but that group differs between the rows before and after.\<close>

definition touches :: "reduce_op \<Rightarrow> row \<Rightarrow> row multiset \<Rightarrow> row multiset \<Rightarrow> bool" where
  "touches rd r R R' \<longleftrightarrow> rd_partition_key rd \<noteq> None \<and> agree_off rd (rkey rd r) R R' \<and>
     (\<forall>a\<in>#R + R'. rkey rd a = rkey rd r \<longrightarrow> rvals rd a = rvals rd r) \<and> size R < 2 ^ 63 \<and> size R' < 2 ^ 63"

lemma touch_views:
  assumes "touches rd r R R'" "H' - {rkey rd r} = H - {rkey rd r}"
  shows "reduce_view rd H R = view_others rd (rkey rd r) H R \<union>
      own_row (rkey rd r \<in> H \<and> grp rd R (rkey rd r) \<noteq> {#}) (agg_out rd (rvals rd r) (grp rd R (rkey rd r)))"
    "reduce_view rd H' R' = view_others rd (rkey rd r) H R \<union>
      own_row (rkey rd r \<in> H' \<and> grp rd R' (rkey rd r) \<noteq> {#}) (agg_out rd (rvals rd r) (grp rd R' (rkey rd r)))"
proof -
  have t: "rd_partition_key rd \<noteq> None" "agree_off rd (rkey rd r) R R'" "\<forall>a\<in>#R. rkey rd a = rkey rd r \<longrightarrow> rvals rd a = rvals rd r"
    "\<forall>a\<in>#R'. rkey rd a = rkey rd r \<longrightarrow> rvals rd a = rvals rd r" using assms(1) by (simp_all add: touches_def)
  show "reduce_view rd H R = view_others rd (rkey rd r) H R \<union>
      own_row (rkey rd r \<in> H \<and> grp rd R (rkey rd r) \<noteq> {#}) (agg_out rd (rvals rd r) (grp rd R (rkey rd r)))"
    by (rule view_split [OF t(1,3)])
  show "reduce_view rd H' R' = view_others rd (rkey rd r) H R \<union>
      own_row (rkey rd r \<in> H' \<and> grp rd R' (rkey rd r) \<noteq> {#}) (agg_out rd (rvals rd r) (grp rd R' (rkey rd r)))"
    using view_split [OF t(1,4)] others_agree [OF t(2) assms(2)] by simp
qed

lemma touch_small: "touches rd r R R' \<Longrightarrow> size (grp rd R k) < 2 ^ 63 \<and> size (grp rd R' k) < 2 ^ 63"
  using size_grp [of rd R k] size_grp [of rd R' k] by (simp add: touches_def)

lemma step_shift:
  assumes t: "touches rd r R R'" and inv: "reduce_inv rd R st" and k: "rkey rd r \<in> stored_keys st"
    and ne: "grp rd R (rkey rd r) \<noteq> {#}" "grp rd R' (rkey rd r) \<noteq> {#}"
  shows "step_ok rd R R' st (do {
     st1 \<leftarrow> reduce_write_at (red_env f ho) rd (rkey rd r) (of_nat (size (grp rd R' (rkey rd r)))) (accs_of rd (grp rd R' (rkey rd r))) st;
     if agg_rows_equal (agg_out rd (rvals rd r) (grp rd R (rkey rd r))) (agg_out rd (rvals rd r) (grp rd R' (rkey rd r))) then Some st1
     else g_push (red_env f ho) (Edit (leaf (agg_out rd (rvals rd r) (grp rd R' (rkey rd r)))) (leaf (agg_out rd (rvals rd r) (grp rd R (rkey rd r))))) st1 })"
proof -
  let ?x = "agg_out rd (rvals rd r) (grp rd R (rkey rd r))" and ?y = "agg_out rd (rvals rd r) (grp rd R' (rkey rd r))"
  obtain st1 where st1: "reduce_write_at (red_env f ho) rd (rkey rd r) (of_nat (size (grp rd R' (rkey rd r)))) (accs_of rd (grp rd R' (rkey rd r))) st = Some st1"
    "os_log st1 = os_log st" "stored_keys st1 = insert (rkey rd r) (stored_keys st)" "reduce_inv rd R' st1"
    using write_inv [OF inv, of "rkey rd r" R' f ho] t unfolding touches_def by blast
  have keys: "stored_keys st1 = stored_keys st" using st1(3) k by auto
  let ?O = "view_others rd (rkey rd r) (stored_keys st) R"
  have v: "reduce_view rd (stored_keys st) R = ?O \<union> own_row True ?x" "reduce_view rd (stored_keys st) R' = ?O \<union> own_row True ?y"
    using touch_views [OF t refl, of "stored_keys st"] k ne by simp_all
  show ?thesis
  proof (cases "agg_rows_equal ?x ?y")
    case True
    have "?x = ?y" using agg_rows_equal_out [OF _ _ True] touch_small [OF t] by blast
    then show ?thesis using True st1 keys emits_none v by (auto simp: step_ok_def intro!: exI [of _ "[]"])
  next
    case False
    then show ?thesis using st1 keys emits_shift [OF others_fresh others_fresh] v by (auto simp: step_ok_def)
  qed
qed

lemma step_birth:
  assumes t: "touches rd r R R'" and inv: "reduce_inv rd R st" and k: "rkey rd r \<notin> stored_keys st \<or> grp rd R (rkey rd r) = {#}"
    and ne: "grp rd R' (rkey rd r) \<noteq> {#}"
  shows "step_ok rd R R' st (do {
     st1 \<leftarrow> reduce_write_at (red_env f ho) rd (rkey rd r) (of_nat (size (grp rd R' (rkey rd r)))) (accs_of rd (grp rd R' (rkey rd r))) st;
     g_push (red_env f ho) (Add (leaf (agg_out rd (rvals rd r) (grp rd R' (rkey rd r))))) st1 })"
proof -
  obtain st1 where st1: "reduce_write_at (red_env f ho) rd (rkey rd r) (of_nat (size (grp rd R' (rkey rd r)))) (accs_of rd (grp rd R' (rkey rd r))) st = Some st1"
    "os_log st1 = os_log st" "stored_keys st1 = insert (rkey rd r) (stored_keys st)" "reduce_inv rd R' st1"
    using write_inv [OF inv, of "rkey rd r" R' f ho] t unfolding touches_def by blast
  have "stored_keys st1 - {rkey rd r} = stored_keys st - {rkey rd r}" using st1(3) by auto
  from touch_views [OF t this]
  have "reduce_view rd (stored_keys st) R = view_others rd (rkey rd r) (stored_keys st) R \<union> own_row False []"
    "reduce_view rd (stored_keys st1) R' =
      view_others rd (rkey rd r) (stored_keys st) R \<union> own_row True (agg_out rd (rvals rd r) (grp rd R' (rkey rd r)))"
    using k ne st1(3) by (auto simp: own_row_def)
  then show ?thesis using st1(1,2,4) emits_birth [OF others_fresh] by (auto simp: step_ok_def)
qed

lemma step_death:
  assumes t: "touches rd r R R'" and inv: "reduce_inv rd R st" and k: "rkey rd r \<in> stored_keys st"
    and ne: "grp rd R (rkey rd r) \<noteq> {#}" "grp rd R' (rkey rd r) = {#}"
  shows "step_ok rd R R' st (do {
     st1 \<leftarrow> (if rd_eager rd then reduce_del_at (red_env f ho) rd (rkey rd r) st
       else reduce_write_at (red_env f ho) rd (rkey rd r) (of_nat (size (grp rd R' (rkey rd r)))) (accs_of rd (grp rd R' (rkey rd r))) st);
     g_push (red_env f ho) (Remove (leaf (agg_out rd (rvals rd r) (grp rd R (rkey rd r))))) st1 })"
proof -
  let ?w = "if rd_eager rd then reduce_del_at (red_env f ho) rd (rkey rd r) st
       else reduce_write_at (red_env f ho) rd (rkey rd r) (of_nat (size (grp rd R' (rkey rd r)))) (accs_of rd (grp rd R' (rkey rd r))) st"
  have off: "agree_off rd (rkey rd r) R R'" "size R < 2 ^ 63" "size R' < 2 ^ 63" using t by (simp_all add: touches_def)
  have "\<exists>st1. ?w = Some st1 \<and> os_log st1 = os_log st \<and> stored_keys st1 - {rkey rd r} = stored_keys st - {rkey rd r} \<and> reduce_inv rd R' st1"
  proof (cases "rd_eager rd")
    case True
    from del_inv [OF inv off(1,2) ne(2), of f ho] obtain st1 where "reduce_del_at (red_env f ho) rd (rkey rd r) st = Some st1"
      "os_log st1 = os_log st" "stored_keys st1 = stored_keys st - {rkey rd r}" "reduce_inv rd R' st1" .
    then show ?thesis using True by auto
  next
    case False
    from write_inv [OF inv off, of f ho] obtain st1 where
      "reduce_write_at (red_env f ho) rd (rkey rd r) (of_nat (size (grp rd R' (rkey rd r)))) (accs_of rd (grp rd R' (rkey rd r))) st = Some st1"
      "os_log st1 = os_log st" "stored_keys st1 = insert (rkey rd r) (stored_keys st)" "reduce_inv rd R' st1" .
    then show ?thesis using False by auto
  qed
  then obtain st1 where st1: "?w = Some st1" "os_log st1 = os_log st" "stored_keys st1 - {rkey rd r} = stored_keys st - {rkey rd r}" "reduce_inv rd R' st1"
    by blast
  from touch_views [OF t st1(3)]
  have "reduce_view rd (stored_keys st) R =
      view_others rd (rkey rd r) (stored_keys st) R \<union> own_row True (agg_out rd (rvals rd r) (grp rd R (rkey rd r)))"
    "reduce_view rd (stored_keys st1) R' = view_others rd (rkey rd r) (stored_keys st) R \<union> own_row False []"
    using k ne by (auto simp: own_row_def)
  then show ?thesis using st1(1,2,4) emits_death [OF others_fresh] by (auto simp: step_ok_def)
qed

text \<open>A group without state is left to the next fetch.\<close>

lemma step_skip:
  assumes t: "touches rd r R R'" and inv: "reduce_inv rd R st" and k: "rkey rd r \<notin> stored_keys st" and lazy: "\<not> rd_eager rd"
  shows "step_ok rd R R' st (Some st)"
proof -
  have "reduce_view rd (stored_keys st) R' = reduce_view rd (stored_keys st) R"
    using touch_views [OF t refl, of "stored_keys st"] k by (simp add: own_row_def)
  moreover have "core_inv rd R' st"
  proof -
    have "grp rd R' k' = grp rd R k'" if "k' \<in> stored_keys st" for k'
    proof -
      have "k' \<noteq> rkey rd r" using that k by blast
      then show ?thesis using t by (simp add: touches_def agree_off_def)
    qed
    moreover from this have "{k \<in> stored_keys st. sum_overflows rd (grp rd R' k)} = {k \<in> stored_keys st. sum_overflows rd (grp rd R k)}" by auto
    ultimately show ?thesis using inv by (auto simp: reduce_inv_core core_inv_def stored_exact_def stored_keys_def overflow_exact_def)
  qed
  ultimately show ?thesis using lazy by (auto simp: step_ok_def reduce_inv_core all_stored_def emits_view_def)
qed

section \<open>The pushes of a grouped reducer\<close>

lemma sint_size: "size M < 2 ^ 63 \<Longrightarrow> sint (of_nat (size M) :: i64) = int (size M)"
  by (rule sint_of_nat_64)

lemma delta_in:
  assumes t: "touches rd r R (add_mset r R)" and inv: "reduce_inv rd R st" and r: "reduce_row_ok rd r"
  shows "step_ok rd R (add_mset r R) st (grouped_delta (red_env f ho) rd r 1 st)"
proof -
  let ?k = "rkey rd r" and ?G = "grp rd R (rkey rd r)"
  have G: "grp rd (add_mset r R) ?k = add_mset r ?G" by (simp add: grp_add)
  have sm: "size (add_mset r ?G) < 2 ^ 63" "size ?G < 2 ^ 63" using touch_small [OF t, of ?k] by (simp_all add: G)
  have sums: "sums_ok rd r" using r by (simp add: reduce_row_ok_def)
  have st: "stored_exact rd R (os_storage st)" using inv by (simp add: reduce_inv_def)
  have key: "group_key (rvals rd r) = ?k" by (simp add: rkey_def)
  note start = group_vals_ok [OF r] read_at_stored [OF st] key
  show ?thesis
  proof (cases "?k \<in> stored_keys st")
    case False
    show ?thesis
    proof (cases "rd_eager rd")
      case True
      then have e: "?G = {#}" using inv False t by (auto simp: reduce_inv_def all_stored_def touches_def grp_def)
      have "grouped_delta (red_env f ho) rd r 1 st = do {
          st1 \<leftarrow> reduce_write_at (red_env f ho) rd ?k (of_nat (size (grp rd (add_mset r R) ?k))) (accs_of rd (grp rd (add_mset r R) ?k)) st;
          g_push (red_env f ho) (Add (leaf (agg_out rd (rvals rd r) (grp rd (add_mset r R) ?k)))) st1 }"
        using True False agg_row_out [of "{#r#}" rd "rvals rd r"]
        by (simp add: grouped_delta_def grouped_birth_def start G e new_accs_of acc_apply_in [OF sums])
      then show ?thesis using step_birth [OF t inv] False G by simp
    next
      case lazy: False
      then show ?thesis using step_skip [OF t inv False lazy] False by (simp add: grouped_delta_def grouped_birth_def start)
    qed
  next
    case True
    have cnt: "of_nat (size ?G) + 1 = (of_nat (size (add_mset r ?G)) :: i64)" by simp
    have pos: "\<not> sint (of_nat (size (add_mset r ?G)) :: i64) < 0" "0 < sint (of_nat (size (add_mset r ?G)) :: i64)"
      using sint_size [OF sm(1)] by simp_all
    show ?thesis
    proof (cases "?G = {#}")
      case e: True
      then have "grouped_delta (red_env f ho) rd r 1 st = do {
          st1 \<leftarrow> reduce_write_at (red_env f ho) rd ?k (of_nat (size (grp rd (add_mset r R) ?k))) (accs_of rd (grp rd (add_mset r R) ?k)) st;
          g_push (red_env f ho) (Add (leaf (agg_out rd (rvals rd r) (grp rd (add_mset r R) ?k)))) st1 }"
        unfolding G using pos sint_size [OF sm(2)] agg_row_out [OF sm(1), of rd "rvals rd r"] agg_row_out [OF sm(2), of rd "rvals rd r"]
        by (simp add: grouped_delta_def start True Let_def acc_apply_in [OF sums] add.commute)
      then show ?thesis using step_birth [OF t inv] e G by simp
    next
      case ne: False
      then have "0 < int (size ?G)" by (simp add: nonempty_has_size)
      then have "grouped_delta (red_env f ho) rd r 1 st = do {
          st1 \<leftarrow> reduce_write_at (red_env f ho) rd ?k (of_nat (size (grp rd (add_mset r R) ?k))) (accs_of rd (grp rd (add_mset r R) ?k)) st;
          if agg_rows_equal (agg_out rd (rvals rd r) ?G) (agg_out rd (rvals rd r) (grp rd (add_mset r R) ?k)) then Some st1
          else g_push (red_env f ho) (Edit (leaf (agg_out rd (rvals rd r) (grp rd (add_mset r R) ?k))) (leaf (agg_out rd (rvals rd r) ?G))) st1 }"
        unfolding G using pos sint_size [OF sm(2)] agg_row_out [OF sm(1), of rd "rvals rd r"] agg_row_out [OF sm(2), of rd "rvals rd r"]
        by (simp add: grouped_delta_def start True Let_def acc_apply_in [OF sums] add.commute)
      then show ?thesis using step_shift [OF t inv True ne] G by simp
    qed
  qed
qed

lemma delta_out:
  assumes t: "touches rd r (add_mset r R') R'" and inv: "reduce_inv rd (add_mset r R') st" and r: "reduce_row_ok rd r"
  shows "step_ok rd (add_mset r R') R' st (grouped_delta (red_env f ho) rd r (- 1) st)"
proof -
  let ?k = "rkey rd r" and ?G = "grp rd R' (rkey rd r)"
  have G: "grp rd (add_mset r R') ?k = add_mset r ?G" by (simp add: grp_add)
  have sm: "size (add_mset r ?G) < 2 ^ 63" "size ?G < 2 ^ 63" using touch_small [OF t, of ?k] by (simp_all add: G)
  have sums: "sums_ok rd r" using r by (simp add: reduce_row_ok_def)
  have st: "stored_exact rd (add_mset r R') (os_storage st)" using inv by (simp add: reduce_inv_def)
  have key: "group_key (rvals rd r) = ?k" by (simp add: rkey_def)
  note start = group_vals_ok [OF r] read_at_stored [OF st] key
  show ?thesis
  proof (cases "?k \<in> stored_keys st")
    case False
    then have lazy: "\<not> rd_eager rd" using inv t by (auto simp: reduce_inv_def all_stored_def touches_def)
    show ?thesis using step_skip [OF t inv False lazy] False lazy by (simp add: grouped_delta_def grouped_birth_def start)
  next
    case True
    have pos: "\<not> sint (of_nat (size ?G) :: i64) < 0" "0 < sint (of_nat (size (add_mset r ?G)) :: i64)"
      using sint_size [OF sm(1)] sint_size [OF sm(2)] by simp_all
    show ?thesis
    proof (cases "?G = {#}")
      case e: True
      have one: "agg_row rd (rvals rd r) 1 (accs_of rd {#r#}) = Some (agg_out rd (rvals rd r) {#r#})"
        using agg_row_out [of "{#r#}" rd "rvals rd r"] by simp
      have "grouped_delta (red_env f ho) rd r (- 1) st = do {
          st1 \<leftarrow> (if rd_eager rd then reduce_del_at (red_env f ho) rd ?k st
            else reduce_write_at (red_env f ho) rd ?k (of_nat (size ?G)) (accs_of rd ?G) st);
          g_push (red_env f ho) (Remove (leaf (agg_out rd (rvals rd r) (grp rd (add_mset r R') ?k)))) st1 }"
        unfolding G by (simp add: grouped_delta_def start G True Let_def e acc_apply_out [OF sums] one)
      then show ?thesis using step_death [OF t inv True _ e] G by simp
    next
      case ne: False
      then have "0 < int (size ?G)" by (simp add: nonempty_has_size)
      then have "grouped_delta (red_env f ho) rd r (- 1) st = do {
          st1 \<leftarrow> reduce_write_at (red_env f ho) rd ?k (of_nat (size ?G)) (accs_of rd ?G) st;
          if agg_rows_equal (agg_out rd (rvals rd r) (grp rd (add_mset r R') ?k)) (agg_out rd (rvals rd r) ?G) then Some st1
          else g_push (red_env f ho) (Edit (leaf (agg_out rd (rvals rd r) ?G)) (leaf (agg_out rd (rvals rd r) (grp rd (add_mset r R') ?k)))) st1 }"
        unfolding G using pos sint_size [OF sm(2)] agg_row_out [OF sm(1), of rd "rvals rd r"] agg_row_out [OF sm(2), of rd "rvals rd r"]
        by (simp add: grouped_delta_def start G True Let_def acc_apply_out [OF sums])
      then show ?thesis using step_shift [OF t inv True _ ne] G by simp
    qed
  qed
qed

lemma edit_group:
  assumes t: "touches rd r (add_mset old Q) (add_mset r Q)" and inv: "reduce_inv rd (add_mset old Q) st"
    and ok: "reduce_row_ok rd r" "reduce_row_ok rd old" and same: "rkey rd old = rkey rd r"
  shows "step_ok rd (add_mset old Q) (add_mset r Q) st (grouped_edit (red_env f ho) rd old r st)"
proof -
  let ?k = "rkey rd r" and ?G = "grp rd Q (rkey rd r)"
  have G: "grp rd (add_mset old Q) ?k = add_mset old ?G" "grp rd (add_mset r Q) ?k = add_mset r ?G" by (simp_all add: grp_add same)
  have sm: "size (add_mset old ?G) < 2 ^ 63" "size (add_mset r ?G) < 2 ^ 63" using touch_small [OF t, of ?k] by (simp_all add: G)
  have sums: "sums_ok rd r" "sums_ok rd old" using ok by (simp_all add: reduce_row_ok_def)
  have st: "stored_exact rd (add_mset old Q) (os_storage st)" using inv by (simp add: reduce_inv_def)
  have key: "group_key (rvals rd r) = ?k" by (simp add: rkey_def)
  have cnt: "(of_nat (size (add_mset old ?G)) :: i64) = of_nat (size (add_mset r ?G))" by simp
  show ?thesis
  proof (cases "?k \<in> stored_keys st")
    case False
    then have lazy: "\<not> rd_eager rd" using inv t same by (auto simp: reduce_inv_def all_stored_def touches_def)
    show ?thesis using step_skip [OF t inv False lazy] False by (simp add: grouped_edit_def group_vals_ok [OF ok(1)] read_at_stored [OF st] key)
  next
    case True
    have "grouped_edit (red_env f ho) rd old r st = do {
        st1 \<leftarrow> reduce_write_at (red_env f ho) rd ?k (of_nat (size (grp rd (add_mset r Q) ?k))) (accs_of rd (grp rd (add_mset r Q) ?k)) st;
        if agg_rows_equal (agg_out rd (rvals rd r) (grp rd (add_mset old Q) ?k)) (agg_out rd (rvals rd r) (grp rd (add_mset r Q) ?k)) then Some st1
        else g_push (red_env f ho) (Edit (leaf (agg_out rd (rvals rd r) (grp rd (add_mset r Q) ?k))) (leaf (agg_out rd (rvals rd r) (grp rd (add_mset old Q) ?k)))) st1 }"
      using agg_row_out [OF sm(1), of rd "rvals rd r"] agg_row_out [OF sm(2), of rd "rvals rd r"] unfolding G cnt
      by (simp add: grouped_edit_def group_vals_ok [OF ok(1)] read_at_stored [OF st] key True G Let_def acc_apply_in [OF sums(1)] acc_apply_out [OF sums(2)])
    then show ?thesis using step_shift [OF t inv True] G by simp
  qed
qed

section \<open>The pushes of a global reducer\<close>

lemma global_key: "rd_partition_key rd = None \<Longrightarrow> rkey rd r = GLOBAL_KEY"
  by (simp add: rkey_def rvals_def group_key_def GLOBAL_KEY_def reduce_prefix_def encode_state_key_def)

lemma global_grp: "rd_partition_key rd = None \<Longrightarrow> grp rd R GLOBAL_KEY = R"
  by (simp add: grp_def global_key filter_mset_True)

lemma global_off: "rd_partition_key rd = None \<Longrightarrow> agree_off rd GLOBAL_KEY R R'"
  by (simp add: agree_off_def grp_def global_key)

lemma global_shift:
  assumes g: "rd_partition_key rd = None" and inv: "reduce_inv rd R st" and k: "GLOBAL_KEY \<in> stored_keys st"
    and small: "size R < 2 ^ 63" "size R' < 2 ^ 63"
  shows "step_ok rd R R' st (do {
     st1 \<leftarrow> reduce_write_at (red_env f ho) rd GLOBAL_KEY (of_nat (size R')) (accs_of rd R') st;
     if agg_rows_equal (agg_out rd [] R) (agg_out rd [] R') then Some st1
     else g_push (red_env f ho) (Edit (leaf (agg_out rd [] R')) (leaf (agg_out rd [] R))) st1 })"
proof -
  from write_inv [OF inv global_off [OF g] small, of f ho] obtain st1 where
    st1: "reduce_write_at (red_env f ho) rd GLOBAL_KEY (of_nat (size R')) (accs_of rd R') st = Some st1"
    "os_log st1 = os_log st" "stored_keys st1 = insert GLOBAL_KEY (stored_keys st)" "reduce_inv rd R' st1" unfolding global_grp [OF g] .
  have v: "reduce_view rd (stored_keys st) R = {} \<union> own_row True (agg_out rd [] R)" "reduce_view rd (stored_keys st1) R' = {} \<union> own_row True (agg_out rd [] R')"
    using g k st1(3) by (simp_all add: reduce_view_def own_row_def)
  show ?thesis
  proof (cases "agg_rows_equal (agg_out rd [] R) (agg_out rd [] R')")
    case True
    have "agg_out rd [] R = agg_out rd [] R'" by (rule agg_rows_equal_out [OF small True])
    then show ?thesis using True st1(1,2,4) v emits_none by (auto simp: step_ok_def intro!: exI [of _ "[]"])
  next
    case False
    then show ?thesis using st1(1,2,4) v emits_shift [of "agg_out rd [] R" "{}" "agg_out rd [] R'"] by (auto simp: step_ok_def)
  qed
qed

lemma global_skip:
  assumes g: "rd_partition_key rd = None" and inv: "reduce_inv rd R st" and k: "GLOBAL_KEY \<notin> stored_keys st"
  shows "step_ok rd R R' st (Some st)"
proof -
  have "grp rd R' k' = grp rd R k'" if "k' \<in> stored_keys st" for k'
  proof -
    have "k' \<noteq> GLOBAL_KEY" using that k by blast
    then show ?thesis by (simp add: grp_def global_key [OF g])
  qed
  moreover from this have "{k \<in> stored_keys st. sum_overflows rd (grp rd R' k)} = {k \<in> stored_keys st. sum_overflows rd (grp rd R k)}" by auto
  ultimately have "reduce_inv rd R' st" using inv g by (auto simp: reduce_inv_def stored_exact_def stored_keys_def overflow_exact_def all_stored_def)
  then show ?thesis using g k by (auto simp: step_ok_def reduce_view_def emits_view_def)
qed

section \<open>Every push\<close>

text \<open>The rows of the input after a change, and what the input connection guarantees of a change: a row that is removed or edited
  is there, and an edit stays in its group (the connection splits it otherwise).\<close>

definition input_after :: "change \<Rightarrow> row multiset \<Rightarrow> row multiset" where
  "input_after c R = (case c of
       Add n \<Rightarrow> add_mset (node_row n) R
     | Remove n \<Rightarrow> R - {#node_row n#}
     | Edit n old \<Rightarrow> add_mset (node_row n) (R - {#node_row old#})
     | Child _ _ _ \<Rightarrow> R)"

definition input_change_ok :: "reduce_op \<Rightarrow> change \<Rightarrow> row multiset \<Rightarrow> bool" where
  "input_change_ok rd c R \<longleftrightarrow> (case c of
       Add n \<Rightarrow> reduce_row_ok rd (node_row n)
     | Remove n \<Rightarrow> node_row n \<in># R \<and> reduce_row_ok rd (node_row n)
     | Edit n old \<Rightarrow> node_row old \<in># R \<and> reduce_row_ok rd (node_row old) \<and> reduce_row_ok rd (node_row n) \<and> rkey rd (node_row old) = rkey rd (node_row n)
     | Child _ _ _ \<Rightarrow> True)"

lemma push_global_ok:
  assumes g: "rd_partition_key rd = None" and inv: "reduce_inv rd R st" and c: "input_change_ok rd c R"
    and small: "size R < 2 ^ 63" "size (input_after c R) < 2 ^ 63"
  shows "step_ok rd R (input_after c R) st (push_global (red_env f ho) rd c st)"
proof -
  let ?R' = "input_after c R"
  have "stored_exact rd R (os_storage st)" using inv by (simp add: reduce_inv_def)
  note read = read_at_stored [OF this, of f ho GLOBAL_KEY, unfolded global_grp [OF g]]
  show ?thesis
  proof (cases "GLOBAL_KEY \<in> stored_keys st \<and> (\<forall>n rel d. c \<noteq> Child n rel d)")
    case False
    then have "push_global (red_env f ho) rd c st = Some st" using read by (cases c) (auto simp: push_global_def)
    moreover have "step_ok rd R ?R' st (Some st)"
    proof (cases "GLOBAL_KEY \<in> stored_keys st")
      case True
      then have "?R' = R" using False by (auto simp: input_after_def)
      then show ?thesis using inv by (auto simp: step_ok_def emits_view_def)
    qed (rule global_skip [OF g inv])
    ultimately show ?thesis by simp
  next
    case True
    have d: "global_delta rd c (of_nat (size R)) (accs_of rd R) = Some (of_nat (size ?R'), accs_of rd ?R')"
    proof (cases c)
      case (Add n)
      then show ?thesis using c by (simp add: global_delta_def input_after_def input_change_ok_def reduce_row_ok_def acc_apply_in add.commute)
    next
      case (Remove n)
      then obtain Q where Q: "R = add_mset (node_row n) Q" using c by (auto simp: input_change_ok_def dest: multi_member_split)
      then show ?thesis using c Remove by (simp add: global_delta_def input_after_def input_change_ok_def reduce_row_ok_def acc_apply_out)
    next
      case (Edit n old)
      then obtain Q where Q: "R = add_mset (node_row old) Q" using c by (auto simp: input_change_ok_def dest: multi_member_split)
      then show ?thesis using c Edit by (simp add: global_delta_def input_after_def input_change_ok_def reduce_row_ok_def acc_apply_out acc_apply_in)
    qed (use True in simp)
    have "(case c of Child _ _ _ \<Rightarrow> True | _ \<Rightarrow> False) = False" using True by (cases c) auto
    then have "push_global (red_env f ho) rd c st = do {
       st1 \<leftarrow> reduce_write_at (red_env f ho) rd GLOBAL_KEY (of_nat (size ?R')) (accs_of rd ?R') st;
       if agg_rows_equal (agg_out rd [] R) (agg_out rd [] ?R') then Some st1
       else g_push (red_env f ho) (Edit (leaf (agg_out rd [] ?R')) (leaf (agg_out rd [] R))) st1 }"
      using True agg_row_out [OF small(1), of rd "[]"] agg_row_out [OF small(2), of rd "[]"] d by (simp add: push_global_def read)
    then show ?thesis using global_shift [OF g inv _ small] True by simp
  qed
qed

lemma cols_equal_refl:
  "\<forall>c\<in>set pk. c < length a \<and> c < length b \<and> a ! c = b ! c \<Longrightarrow> cols_equal a b pk = Some True"
proof (induction pk)
  case (Cons c pk)
  have "compare_values v v = Some Equal" for v by (cases v) (simp_all add: total_cmp_Equal_iff)
  then show ?case using Cons by (simp add: row_col_def)
qed simp

lemma push_step:
  assumes wired: "rd_wired rd" and inv: "reduce_inv rd R st" and c: "input_change_ok rd c R" and alike: "keyed_alike rd (R + input_after c R)"
    and small: "size R < 2 ^ 63" "size (input_after c R) < 2 ^ 63"
  shows "step_ok rd R (input_after c R) st (reduce_push debug (red_env f ho) rd c st)"
proof (cases "rd_partition_key rd")
  case None
  then show ?thesis using push_global_ok [OF None inv c small] wired by (simp add: reduce_push_def)
next
  case (Some pk)
  have t: "touches rd r R (input_after c R)" if "agree_off rd (rkey rd r) R (input_after c R)" "r \<in># R + input_after c R" for r
  proof -
    have "\<forall>a\<in>#R + input_after c R. rkey rd a = rkey rd r \<longrightarrow> rvals rd a = rvals rd r"
      using alike that(2) unfolding keyed_alike_def by blast
    then show ?thesis using that(1) Some small unfolding touches_def by simp
  qed
  show ?thesis
  proof (cases c)
    case (Add n)
    have "step_ok rd R (input_after c R) st (grouped_delta (red_env f ho) rd (node_row n) 1 st)"
      using delta_in [of rd "node_row n" R st f ho] t [of "node_row n"] agree_off_add inv c by (simp add: Add input_after_def input_change_ok_def)
    then show ?thesis using wired Some Add by (simp add: reduce_push_def)
  next
    case (Remove n)
    then obtain Q where Q: "R = add_mset (node_row n) Q" using c by (auto simp: input_change_ok_def dest: multi_member_split)
    have "step_ok rd R (input_after c R) st (grouped_delta (red_env f ho) rd (node_row n) (- 1) st)"
      using delta_out [of rd "node_row n" Q st f ho] t [of "node_row n"] agree_off_add inv c by (simp add: Remove input_after_def input_change_ok_def Q)
    then show ?thesis using wired Some Remove by (simp add: reduce_push_def)
  next
    case (Edit n old)
    then obtain Q where Q: "R = add_mset (node_row old) Q" using c by (auto simp: input_change_ok_def dest: multi_member_split)
    have ok: "reduce_row_ok rd (node_row old)" "reduce_row_ok rd (node_row n)" "rkey rd (node_row old) = rkey rd (node_row n)"
      using c by (simp_all add: Edit input_change_ok_def)
    have R': "input_after c R = add_mset (node_row n) Q" by (simp add: Edit input_after_def Q)
    have "agree_off rd (rkey rd (node_row n)) R (input_after c R)" unfolding R' by (auto simp: agree_off_def grp_add ok(3) Q)
    then have run: "step_ok rd R (input_after c R) st (grouped_edit (red_env f ho) rd (node_row old) (node_row n) st)"
      using edit_group [OF _ _ ok(2,1,3), of Q st f ho] t [of "node_row n"] inv unfolding R' by (simp add: Q)
    have "node_row old \<in># R + input_after c R" "node_row n \<in># R + input_after c R" unfolding R' by (simp_all add: Q)
    then have "rvals rd (node_row old) = rvals rd (node_row n)" using alike ok(3) unfolding keyed_alike_def by blast
    then have "partition_key_unchanged (node_row old) (node_row n) pk = Some True"
      using ok(1,2) Some by (auto simp: partition_key_unchanged_def rvals_def reduce_row_ok_def intro!: cols_equal_refl)
    then show ?thesis using run wired Some Edit by (simp add: reduce_push_def debug_check_def)
  next
    case (Child n rel d)
    then have "reduce_push debug (red_env f ho) rd c st = Some st" "input_after c R = R" using wired Some by (simp_all add: reduce_push_def input_after_def)
    then show ?thesis using inv by (auto simp: step_ok_def emits_view_def)
  qed
qed

section \<open>Properties\<close>

text \<open>(C14) A push to a reducer keeps its state exact and tells the view exactly what changed, as long as the summed columns hold no
  floats. If every stored group holds the aggregates of its current input rows, then so it does after the push; the overflow
  counter is the number of stored groups whose integer sum is outside the range of \<open>i64\<close>; at most one change is emitted, and it turns
  the aggregate rows of the stored groups before the push into those after it. Groups are born and die with their rows; a lazy
  reducer leaves a group without state to the next fetch, a global one keeps its single row.
\<close>

theorem reduce_push_exact:
  assumes "rd_wired rd" "reduce_inv rd R st" "input_change_ok rd c R" "keyed_alike rd (R + input_after c R)"
    "size R < 2 ^ 63" "size (input_after c R) < 2 ^ 63"
  shows "\<exists>st' es. reduce_push debug (red_env f ho) rd c st = Some st' \<and> os_log st' = os_log st @ es \<and>
    emits_view es (reduce_view rd (stored_keys st) R) (reduce_view rd (stored_keys st') (input_after c R)) \<and>
    reduce_inv rd (input_after c R) st'"
  using push_step [OF assms] by (simp add: step_ok_def)

theorem reduce_push_exact_witness:
  "let rd = \<lparr> rd_aggs = [ACount, ASum 1], rd_partition_key = Some [0], rd_eager = True, rd_schema = schema_new [] [] [], rd_wired = True \<rparr>;
       st = \<lparr> os_storage = [], os_hidden = None, os_log = [], rs_overflowed = 0 \<rparr>
   in \<exists>st' es. reduce_push True (red_env (\<lambda>_. None) id) rd (Add (leaf [IntV 1, IntV 7])) st = Some st' \<and> os_log st' = [] @ es \<and>
    emits_view es (reduce_view rd (stored_keys st) {#}) (reduce_view rd (stored_keys st') {#[IntV 1, IntV 7]#}) \<and>
    reduce_inv rd {#[IntV 1, IntV 7]#} st'"
proof -
  let ?rd = "\<lparr> rd_aggs = [ACount, ASum 1], rd_partition_key = Some [0], rd_eager = True, rd_schema = schema_new [] [] [], rd_wired = True \<rparr>"
  let ?st = "\<lparr> os_storage = [], os_hidden = None, os_log = [], rs_overflowed = 0 \<rparr>"
  have "stored_keys ?st = {}" by (simp add: stored_keys_def storage_get_def)
  then have "reduce_inv ?rd {#} ?st"
    by (simp add: reduce_inv_def stored_exact_def overflow_exact_def all_stored_def om_ok_def stored_keys_def)
  then show ?thesis
    using reduce_push_exact [of ?rd "{#}" ?st "Add (leaf [IntV 1, IntV 7])" True "\<lambda>_. None" id]
    by (simp add: input_change_ok_def reduce_row_ok_def sums_ok_def keyed_alike_def input_after_def leaf_def)
qed

end
