(* ===== verification/Reduce_Fetch.thy ===== *)
theory Reduce_Fetch
  imports Reduce_View Source_State
begin

text \<open>
  The fetches of \<open>Reduce\<close>: a full fold stores every group of the input and emits the aggregate rows in the order of the group
  columns, whatever order the hash map yields its groups in; a lazy reducer asked for one group folds that group only.
\<close>

section \<open>Folding rows\<close>

lemma fold_nodes_exact:
  assumes "\<forall>n\<in>set ns. sums_ok rd (node_row n)"
  shows "fold_nodes rd ns (of_nat (size M), accs_of rd M) = Some (of_nat (size (mset (map node_row ns) + M)), accs_of rd (mset (map node_row ns) + M))"
  using assms
proof (induction ns arbitrary: M)
  case (Cons n ns)
  have "fold_nodes rd ns (of_nat (size M) + 1, accs_of rd (add_mset (node_row n) M)) =
      Some (of_nat (size (mset (map node_row ns) + add_mset (node_row n) M)), accs_of rd (mset (map node_row ns) + add_mset (node_row n) M))"
    using Cons.IH [of "add_mset (node_row n) M"] Cons.prems by (simp add: add.commute)
  then show ?case using Cons.prems by (simp add: acc_apply_in)
qed simp

lemma fold_from_new:
  assumes "\<forall>n\<in>set ns. sums_ok rd (node_row n)"
  shows "fold_nodes rd ns (0, new_accs rd) = Some (of_nat (length ns), accs_of rd (mset (map node_row ns)))"
  using fold_nodes_exact [OF assms, of "{#}"] by (simp add: new_accs_of)






section \<open>Storing the groups\<close>

lemma agree_off_refl: "agree_off rd k R R"
  by (simp add: agree_off_def)



section \<open>The full fold\<close>











section \<open>A global aggregate, and one group of a lazy reducer\<close>


lemma constraint_matches_group:
  assumes "rd_partition_key rd = Some pk" "reduce_row_ok rd r" "length vals = length pk" "set vals \<inter> {Null, Absent} = {}"
    "\<forall>i<length pk. conforms (ty i) (r ! (pk ! i)) \<and> conforms (ty i) (vals ! i)"
  shows "constraint_matches r (zip pk vals) = Some (rkey rd r = group_key vals)"
proof -
  have "constraint_matches r (zip ks vs) = Some (list_all2 values_identical (map ((!) r) ks) vs)"
    if "length vs = length ks" "\<forall>c\<in>set ks. c < length r" "set vs \<inter> {Null, Absent} = {}"
      "\<exists>t. \<forall>i<length ks. conforms (t i) (r ! (ks ! i)) \<and> conforms (t i) (vs ! i)" for ks vs
    using that
  proof (induction vs ks rule: list_induct2)
    case (Cons v vs k ks)
    from Cons.prems(3) obtain t where t: "\<forall>i<length (k # ks). conforms (t i) (r ! ((k # ks) ! i)) \<and> conforms (t i) ((v # vs) ! i)" by blast
    have c: "conforms (t 0) (r ! k)" "conforms (t 0) v" using t by auto
    have "\<forall>i<length ks. conforms (t (Suc i)) (r ! (ks ! i)) \<and> conforms (t (Suc i)) (vs ! i)" using t by fastforce
    then have IH: "constraint_matches r (zip ks vs) = Some (list_all2 values_identical (map ((!) r) ks) vs)"
      using Cons by (intro Cons.IH) (auto intro: exI [of _ "\<lambda>i. t (Suc i)"])
    have v: "v \<notin> {Null, Absent}" using Cons.prems(2) by auto
    have "values_equal (r ! k) v = Some (cells_join (r ! k) v)" by (rule values_equal_conforms [OF c])
    moreover have "cells_join (r ! k) v = values_identical (r ! k) v"
      using v cells_join_sym [of "r ! k" v] cells_join_canon [of v "r ! k"] canon_of_eq_iff [of "r ! k" v] by auto
    ultimately show ?case using IH Cons.prems(1) by (simp add: row_col_def)
  qed simp
  from this [of vals pk] show ?thesis using assms unfolding rkey_def group_key_def encode_state_key_iff
    by (auto simp: reduce_row_ok_def rvals_def)
qed

lemma fetch_one_exact:
  assumes core: "core_inv rd R st" and pk: "rd_partition_key rd = Some pk" and ok: "\<forall>r\<in>#R. reduce_row_ok rd r" "size R < 2 ^ 63" "\<not> rd_eager rd"
    and input: "keyed_input f ns" "mset (map node_row ns) = R"
    and vals: "length vals = length pk" "set vals \<inter> {Null, Absent} = {}"
    and ty: "\<forall>r\<in>#R. \<forall>i<length pk. conforms (ty i) (r ! (pk ! i))" "\<forall>i<length pk. conforms (ty i) (vals ! i)"
  shows "\<exists>st'. fetch_one_group (red_env f ho) rd vals st =
      Some (if grp rd R (group_key vals) = {#} then [] else [leaf (agg_out rd vals (grp rd R (group_key vals)))], st') \<and>
    os_log st' = os_log st \<and> reduce_inv rd R st' \<and> stored_keys st' = insert (group_key vals) (stored_keys st)"
proof -
  let ?k = "group_key vals" and ?G = "grp rd R (group_key vals)"
  have st: "stored_exact rd R (os_storage st)" using core by (simp add: core_inv_def)
  have inv: "core_inv rd R st' \<Longrightarrow> reduce_inv rd R st'" for st' using ok(3) by (simp add: reduce_inv_core all_stored_def)
  have sm: "size ?G < 2 ^ 63" using size_grp [of rd R ?k] ok(2) by linarith
  have pos: "0 < sint (of_nat (size ?G) :: i64) \<longleftrightarrow> ?G \<noteq> {#}" using sint_size [OF sm] by (simp add: nonempty_has_size)
  note finish = inv agg_row_out [OF sm, of rd vals] pos
  show ?thesis
  proof (cases "?k \<in> stored_keys st")
    case True
    then show ?thesis using finish core by (auto simp: fetch_one_group_def read_at_stored [OF st] Let_def)
  next
    case False
    let ?ms = "filter (\<lambda>n. constraint_matches (node_row n) (zip pk vals) = Some True) ns"
    have "constraint_matches (node_row n) (zip pk vals) = Some (rkey rd (node_row n) = ?k)" if "n \<in> set ns" for n
      using that input(2) ok(1) ty by (intro constraint_matches_group [OF pk _ vals]) auto
    then have ms: "mset (map node_row ?ms) = ?G"
      unfolding input(2) [symmetric] grp_def by (simp add: image_mset_filter_mset_swap [symmetric] cong: filter_cong)
    have "set ?ms \<subseteq> set ns" by auto
    then have "\<forall>n\<in>set ?ms. sums_ok rd (node_row n)" using ok(1) input(2) by (auto simp: reduce_row_ok_def)
    from fold_from_new [OF this] have "fold_nodes rd ?ms (0, new_accs rd) = Some (of_nat (size ?G), accs_of rd ?G)" using ms by (metis length_map size_mset)
    then have fold: "reduce_fold (red_env f ho) rd (fetch_with_constraint (zip pk vals)) st = Some ((of_nat (size ?G), accs_of rd ?G), st)"
      using input(1) by (simp add: reduce_fold_def keyed_input_def)
    from write_step [OF core agree_off_refl ok(2) ok(2), of f ho ?k] obtain st1 where
      "reduce_write_at (red_env f ho) rd ?k (of_nat (size ?G)) (accs_of rd ?G) st = Some st1"
      "os_log st1 = os_log st" "stored_keys st1 = insert ?k (stored_keys st)" "core_inv rd R st1" by blast
    then show ?thesis using False finish fold by (auto simp: fetch_one_group_def read_at_stored [OF st] Let_def input_constraint_def pk)
  qed
qed

section \<open>Properties\<close>



end
