(* ===== verification/Js_Safe.thy ===== *)
theory Js_Safe
  imports Float_Arith Flat View_Tree
begin

text \<open>
  The safe-integer walk at the JavaScript boundary (\<open>rust/src/js_safe.rs\<close>): every shape that crosses is searched for an integer
  cell whose magnitude is above \<open>2 ^ 53 - 1\<close>, and the boundary refuses the frame when there is one. A packed row and a slice of
  owned cells are both the list of their cells, so that \<open>unsafe_int_in_row\<close> and \<open>unsafe_int_in_cells\<close> are the same search. The
  search through a tree is \<open>find_map\<close> of the standard library.
\<close>

section \<open>The walks\<close>

definition JS_MAX_SAFE_INTEGER :: "64 word" where
  "JS_MAX_SAFE_INTEGER = 9007199254740991"

definition unsigned_abs :: "i64 \<Rightarrow> 64 word" where
  "unsigned_abs i = (if sint i < 0 then - i else i)"

definition i64_in_js_safe_range :: "i64 \<Rightarrow> bool" where
  "i64_in_js_safe_range i \<longleftrightarrow> unsigned_abs i \<le> JS_MAX_SAFE_INTEGER"

fun find_map :: "('a \<Rightarrow> 'b option) \<Rightarrow> 'a list \<Rightarrow> 'b option" where
  "find_map f [] = None"
| "find_map f (x # xs) = (case f x of Some y \<Rightarrow> Some y | None \<Rightarrow> find_map f xs)"

definition or_else :: "'b option \<Rightarrow> 'b option \<Rightarrow> 'b option" where
  "or_else a b = (case a of Some y \<Rightarrow> Some y | None \<Rightarrow> b)"

definition unsafe_int_in_cells :: "cell_value list \<Rightarrow> i64 option" where
  "unsafe_int_in_cells r = find_map (\<lambda>v. case v of IntV i \<Rightarrow> (if i64_in_js_safe_range i then None else Some i) | _ \<Rightarrow> None) r"

definition unsafe_int_in_row :: "row \<Rightarrow> i64 option" where
  "unsafe_int_in_row r = find_map (\<lambda>v. case v of IntV i \<Rightarrow> (if i64_in_js_safe_range i then None else Some i) | _ \<Rightarrow> None) r"

lemma find_map_cong [fundef_cong]: "xs = ys \<Longrightarrow> (\<And>x. x \<in> set ys \<Longrightarrow> f x = g x) \<Longrightarrow> find_map f xs = find_map g ys"
  by (induction ys arbitrary: xs) (auto split: option.splits)

fun unsafe_int_in_wire_node :: "wire_node \<Rightarrow> i64 option" where
  "unsafe_int_in_wire_node (WireNode r rels) =
     or_else (unsafe_int_in_cells r) (find_map unsafe_int_in_wire_node (concat (map snd rels)))"

definition unsafe_int_in_op :: "flat_op \<Rightarrow> i64 option" where
  "unsafe_int_in_op fo = (case fo of
       FlatAdd n \<Rightarrow> unsafe_int_in_wire_node n
     | FlatRemove r \<Rightarrow> unsafe_int_in_cells r
     | FlatEdit old new \<Rightarrow> or_else (unsafe_int_in_cells old) (unsafe_int_in_cells new))"

definition unsafe_int_in_flat_changes :: "flat_change list \<Rightarrow> i64 option" where
  "unsafe_int_in_flat_changes cs =
     find_map (\<lambda>c. or_else (find_map (\<lambda>seg. unsafe_int_in_cells (seg_parent_row seg)) (fc_path c)) (unsafe_int_in_op (fc_op c))) cs"

fun unsafe_int_in_entry :: "entry \<Rightarrow> i64 option"
  and unsafe_int_in_view_data :: "entry_list \<Rightarrow> i64 option" where
  "unsafe_int_in_entry (Entry r rc gen rels) = or_else (unsafe_int_in_row r) (find_map unsafe_int_in_view_data rels)"
| "unsafe_int_in_view_data (EList gen items) = find_map unsafe_int_in_entry items"

fun unsafe_int_in_caught_node :: "caught_node \<Rightarrow> i64 option" where
  "unsafe_int_in_caught_node (CaughtNode r rels) =
     or_else (unsafe_int_in_row r) (find_map unsafe_int_in_caught_node (concat (map snd rels)))"

section \<open>The cells that cross, in the order of the walk\<close>

fun wire_cells :: "wire_node \<Rightarrow> cell_value list" where
  "wire_cells (WireNode r rels) = r @ concat (map wire_cells (concat (map snd rels)))"

definition op_cells :: "flat_op \<Rightarrow> cell_value list" where
  "op_cells fo = (case fo of FlatAdd n \<Rightarrow> wire_cells n | FlatRemove r \<Rightarrow> r | FlatEdit old new \<Rightarrow> old @ new)"

definition crossing_cells :: "flat_change list \<Rightarrow> cell_value list" where
  "crossing_cells cs = concat (map (\<lambda>c. concat (map seg_parent_row (fc_path c)) @ op_cells (fc_op c)) cs)"

fun entry_cells :: "entry \<Rightarrow> cell_value list" and data_cells :: "entry_list \<Rightarrow> cell_value list" where
  "entry_cells (Entry r rc gen rels) = r @ concat (map data_cells rels)"
| "data_cells (EList gen items) = concat (map entry_cells items)"

section \<open>What the search finds\<close>

lemma find_map_append: "find_map f (xs @ ys) = or_else (find_map f xs) (find_map f ys)"
  by (induction xs) (auto simp: or_else_def split: option.splits)

lemma find_map_concat: "find_map f (concat xss) = find_map (find_map f) xss"
  by (induction xss) (auto simp: find_map_append or_else_def split: option.splits)

lemma find_map_map: "find_map f (map g xs) = find_map (f \<circ> g) xs"
  by (induction xs) (auto split: option.splits)

lemma cells_append: "unsafe_int_in_cells (r @ r') = or_else (unsafe_int_in_cells r) (unsafe_int_in_cells r')"
  by (simp add: unsafe_int_in_cells_def find_map_append)

lemma cells_concat: "unsafe_int_in_cells (concat rs) = find_map unsafe_int_in_cells rs"
  unfolding unsafe_int_in_cells_def [abs_def] by (simp add: find_map_concat)

lemma row_cells: "unsafe_int_in_row r = unsafe_int_in_cells r"
  by (simp add: unsafe_int_in_row_def unsafe_int_in_cells_def)

lemma cells_walk: "(\<And>x. x \<in> set xs \<Longrightarrow> f x = unsafe_int_in_cells (g x)) \<Longrightarrow> find_map f xs = unsafe_int_in_cells (concat (map g xs))"
  by (simp add: cells_concat find_map_map cong: find_map_cong)

lemma wire_node_walk: "unsafe_int_in_wire_node n = unsafe_int_in_cells (wire_cells n)"
proof (induction n rule: unsafe_int_in_wire_node.induct)
  case (1 r rels)
  have "find_map unsafe_int_in_wire_node (concat (map snd rels)) = unsafe_int_in_cells (concat (map wire_cells (concat (map snd rels))))"
    by (rule cells_walk) (use 1 in auto)
  then show ?case by (simp add: cells_append)
qed

lemma op_walk: "unsafe_int_in_op fo = unsafe_int_in_cells (op_cells fo)"
  by (cases fo) (simp_all add: unsafe_int_in_op_def op_cells_def wire_node_walk cells_append)

lemma flat_changes_walk: "unsafe_int_in_flat_changes cs = unsafe_int_in_cells (crossing_cells cs)"
  unfolding unsafe_int_in_flat_changes_def crossing_cells_def
  by (rule cells_walk) (simp add: cells_append op_walk cells_walk [symmetric])

lemma view_data_walk:
  "unsafe_int_in_entry e = unsafe_int_in_cells (entry_cells e)"
  "unsafe_int_in_view_data d = unsafe_int_in_cells (data_cells d)"
  by (induction e and d rule: unsafe_int_in_entry_unsafe_int_in_view_data.induct)
    (simp_all add: cells_append row_cells cells_walk)

text \<open>The walk of a hydrated tree and that of its wire form agree.\<close>

lemma caught_node_walk: "unsafe_int_in_caught_node n = unsafe_int_in_wire_node (wire_node_of n)"
proof (induction n rule: unsafe_int_in_caught_node.induct)
  case (1 r rels)
  have "concat (map snd (map (map_prod id (map wire_node_of)) rels)) = map wire_node_of (concat (map snd rels))"
    by (induction rels) auto
  moreover have "find_map unsafe_int_in_caught_node (concat (map snd rels)) = find_map (unsafe_int_in_wire_node \<circ> wire_node_of) (concat (map snd rels))"
    by (rule find_map_cong) (use 1 in auto)
  ultimately show ?case by (simp add: row_cells find_map_map del: map_map)
qed

section \<open>Why the bound\<close>

lemma uint_unsigned_abs: "uint (unsigned_abs i) = \<bar>sint i\<bar>"
proof (cases "sint i < 0")
  case True
  have lo: "- (2 ^ 63) \<le> sint i" using sint_ge [of i] by simp
  have "- i = word_of_int (- sint i)" by simp
  then have "uint (- i) = (- sint i) mod 2 ^ 64" by (simp only: uint_word_of_int) simp
  then show ?thesis using True lo by (simp add: unsigned_abs_def)
next
  case False
  then have "\<not> bit i 63" using sint_uint_64 [of i] uint_lt2p [of i] by (auto split: if_splits)
  then show ?thesis using False sint_uint_64 [of i] by (simp add: unsigned_abs_def)
qed

lemma safe_range_iff: "i64_in_js_safe_range i \<longleftrightarrow> \<bar>sint i\<bar> < 2 ^ 53"
  unfolding i64_in_js_safe_range_def word_le_def uint_unsigned_abs JS_MAX_SAFE_INTEGER_def by (simp add: zle_add1_eq_le [symmetric, of "\<bar>sint i\<bar>"])

lemma safe_range_value: "i64_in_js_safe_range i \<Longrightarrow> f_val (f_of_int (sint i)) = sint i * f_unit"
  by (rule f_of_int_exact) (simp only: safe_range_iff)

lemma cells_None: "unsafe_int_in_cells r = None \<longleftrightarrow> (\<forall>i. IntV i \<in> set r \<longrightarrow> i64_in_js_safe_range i)"
proof (induction r)
  case (Cons v r)
  then show ?case unfolding unsafe_int_in_cells_def by (cases v) (auto split: if_splits)
qed (simp add: unsafe_int_in_cells_def)

lemma cells_Some: "unsafe_int_in_cells r = Some i \<Longrightarrow> IntV i \<in> set r \<and> \<not> i64_in_js_safe_range i"
proof (induction r)
  case (Cons v r)
  then show ?case unfolding unsafe_int_in_cells_def by (cases v) (auto split: if_splits)
qed (simp add: unsafe_int_in_cells_def)

text \<open>The range the code admits is the one below which every integer converts to a value that no other integer converts to.\<close>

lemma safe_range_sharp:
  "i64_in_js_safe_range i \<longleftrightarrow> (\<forall>j m. \<bar>j\<bar> \<le> \<bar>sint i\<bar> \<and> f_of_int m = f_of_int j \<longrightarrow> m = j)"
proof
  assume "i64_in_js_safe_range i"
  then have "\<bar>sint i\<bar> < 2 ^ 53" by (simp only: safe_range_iff)
  then show "\<forall>j m. \<bar>j\<bar> \<le> \<bar>sint i\<bar> \<and> f_of_int m = f_of_int j \<longrightarrow> m = j"
    using f_of_int_safe_unique by (blast intro: le_less_trans)
next
  assume all: "\<forall>j m. \<bar>j\<bar> \<le> \<bar>sint i\<bar> \<and> f_of_int m = f_of_int j \<longrightarrow> m = j"
  have ne: "(2 :: int) ^ 53 + 1 \<noteq> 2 ^ 53" by simp
  have "\<not> \<bar>2 ^ 53\<bar> \<le> \<bar>sint i\<bar>" using all f_of_int_collide ne by blast
  then show "i64_in_js_safe_range i" by (simp only: safe_range_iff not_le abs_power2 abs_of_nonneg zero_le_power zero_le_numeral)
qed

text \<open>(C28) The safe-integer walk over a batch of flat changes searches every cell that crosses: path parents, operation rows and all
  nested rows. If it finds nothing, every integer that crosses keeps its exact value as a \<open>number\<close>, and no other integer at all
  becomes the same \<open>number\<close>; if it finds one, that integer does cross and is out of range. The range is sharp: an integer is in it
  exactly when each integer of at most its magnitude has a \<open>number\<close> of its own, and the first magnitude refused is \<open>2 ^ 53\<close>, which
  shares its \<open>number\<close> with \<open>2 ^ 53 + 1\<close>. The same walk over the wire form of a hydrated tree agrees with the walk over the tree.
\<close>

theorem js_safe_walk_exact:
  "(unsafe_int_in_flat_changes cs = None \<longrightarrow>
      (\<forall>i. IntV i \<in> set (crossing_cells cs) \<longrightarrow>
        f_val (f_of_int (sint i)) = sint i * f_unit \<and> (\<forall>m. f_of_int m = f_of_int (sint i) \<longrightarrow> m = sint i))) \<and>
   (\<forall>i. unsafe_int_in_flat_changes cs = Some i \<longrightarrow> IntV i \<in> set (crossing_cells cs) \<and> \<not> i64_in_js_safe_range i) \<and>
   (\<forall>i. i64_in_js_safe_range i \<longleftrightarrow> (\<forall>j m. \<bar>j\<bar> \<le> \<bar>sint i\<bar> \<and> f_of_int m = f_of_int j \<longrightarrow> m = j)) \<and>
   (\<forall>i. i64_in_js_safe_range i \<longleftrightarrow> \<bar>sint i\<bar> < 2 ^ 53) \<and> f_of_int (2 ^ 53 + 1) = f_of_int (2 ^ 53) \<and>
   unsafe_int_in_caught_node n = unsafe_int_in_wire_node (wire_node_of n)"
proof (intro conjI impI allI)
  assume "unsafe_int_in_flat_changes cs = None"
  then have r: "IntV i \<in> set (crossing_cells cs) \<Longrightarrow> i64_in_js_safe_range i" for i by (simp only: flat_changes_walk cells_None)
  fix i assume "IntV i \<in> set (crossing_cells cs)"
  then have i: "i64_in_js_safe_range i" by (rule r)
  show "f_val (f_of_int (sint i)) = sint i * f_unit" by (rule safe_range_value [OF i])
  show "m = sint i" if "f_of_int m = f_of_int (sint i)" for m
    using safe_range_sharp i that by blast
next
  fix i assume "unsafe_int_in_flat_changes cs = Some i"
  then show "IntV i \<in> set (crossing_cells cs)" "\<not> i64_in_js_safe_range i" using cells_Some by (simp_all only: flat_changes_walk) blast+
qed (rule caught_node_walk f_of_int_collide safe_range_sharp safe_range_iff)+

theorem js_safe_walk_exact_witness:
  "unsafe_int_in_flat_changes [\<lparr> fc_path = [\<lparr> seg_rel = 0, seg_parent_row = [IntV 7] \<rparr>], fc_op = FlatRemove [IntV (- 5), Float 0] \<rparr>] = None \<and>
   f_val (f_of_int (sint (- 5 :: i64))) = - 5 * f_unit \<and>
   unsafe_int_in_flat_changes [\<lparr> fc_path = [], fc_op = FlatEdit [IntV 7] [Null, IntV 0x20000000000000] \<rparr>] = Some 0x20000000000000 \<and>
   \<not> i64_in_js_safe_range 0x20000000000000"
proof -
  let ?cs = "[\<lparr> fc_path = [\<lparr> seg_rel = 0, seg_parent_row = [IntV 7] \<rparr>], fc_op = FlatRemove [IntV (- 5), Float 0] \<rparr>]"
  let ?ds = "[\<lparr> fc_path = [], fc_op = FlatEdit [IntV 7] [Null, IntV 0x20000000000000] \<rparr>]"
  have n: "unsafe_int_in_flat_changes ?cs = None" by code_simp
  have o: "unsafe_int_in_flat_changes ?ds = Some 0x20000000000000" by code_simp
  have "IntV (- 5) \<in> set (crossing_cells ?cs)" by code_simp
  then have "f_val (f_of_int (sint (- 5 :: i64))) = sint (- 5 :: i64) * f_unit" using js_safe_walk_exact [of ?cs] n by blast
  moreover have "sint (- 5 :: i64) = - 5" by code_simp
  moreover have "\<not> i64_in_js_safe_range 0x20000000000000" using js_safe_walk_exact [of ?ds] o by blast
  ultimately show ?thesis using n o by (simp only: simp_thms)
qed

end
