(* ===== verification/Tree_Diff.thy ===== *)
theory Tree_Diff
  imports BTree Changes
begin

text \<open>
  The structural diff of two trees (\<open>rust/src/btree.rs\<close>, from \<open>DiffStats\<close> on): two cursors walk the trees in descending order,
  pausing on nodes, and skip a subtree that both trees share. Sharing is invisible in this value model, so the two pointer
  comparisons are parameters: \<open>same_node\<close> and \<open>same_row\<close> say whether the nodes or rows under the two cursors are one allocation.
  The callbacks of the sink are the list of what is reported; the work counters are left out.
\<close>

section \<open>The cursor\<close>

record 'a diff_cursor =
  dc_height :: nat
  dc_spine :: "'a bnode list list"
  dc_indices :: "nat list"
  dc_leaf :: "'a bnode option"
  dc_key :: 'a

definition diff_cursor_new :: "'a btree \<Rightarrow> 'a diff_cursor option" where
  "diff_cursor_new t = do {
     k \<leftarrow> max_key (root t);
     Some \<lparr> dc_height = height (root t), dc_spine = [[root t]], dc_indices = [0], dc_leaf = None, dc_key = k \<rparr>
   }"

definition current_node :: "'a diff_cursor \<Rightarrow> 'a bnode option" where
  "current_node c = (if dc_spine c = [] then None
     else do {
       let lvl = length (dc_spine c) - 1;
       i \<leftarrow> vec_get (dc_indices c) lvl;
       vec_get (dc_spine c ! lvl) i
     })"

text \<open>The deepest level below \<open>n\<close> that has a sibling further left; the inner option tells whether there is one.\<close>

fun find_left :: "nat list \<Rightarrow> nat \<Rightarrow> nat option option" where
  "find_left idx 0 = Some None"
| "find_left idx (Suc k) = do {
     i \<leftarrow> vec_get idx k;
     if 0 < i then Some (Some k) else find_left idx k
   }"

definition dc_step :: "bool \<Rightarrow> 'a diff_cursor \<Rightarrow> (bool \<times> 'a diff_cursor) option" where
  "dc_step step_to_node c =
     (if step_to_node \<or> dc_leaf c \<noteq> None then
        if dc_indices c = [] then None
        else if step_to_node \<or> last (dc_indices c) = 0 then do {
          found \<leftarrow> find_left (dc_indices c) (length (dc_spine c));
          case found of None \<Rightarrow> Some (False, c)
          | Some k \<Rightarrow> do {
              let spine = take (k + 1) (dc_spine c);
              let i = dc_indices c ! k - 1;
              n \<leftarrow> vec_get (spine ! k) i;
              key \<leftarrow> max_key n;
              Some (True, c \<lparr> dc_leaf := None, dc_spine := spine, dc_indices := (take (k + 1) (dc_indices c))[k := i], dc_key := key \<rparr>)
            }
        } else do {
          let vi = last (dc_indices c) - 1;
          l \<leftarrow> dc_leaf c;
          key \<leftarrow> vec_get (node_keys l) vi;
          Some (True, c \<lparr> dc_indices := butlast (dc_indices c) @ [vi], dc_key := key \<rparr>)
        }
      else do {
        node \<leftarrow> current_node c;
        case node of
          Leaf ks \<Rightarrow>
            if ks = [] then None
            else Some (True, c \<lparr> dc_key := last ks, dc_indices := dc_indices c @ [length ks - 1], dc_leaf := Some node \<rparr>)
        | Internal ks cs \<Rightarrow>
            if cs = [] then None
            else do {
              key \<leftarrow> max_key (last cs);
              Some (True, c \<lparr> dc_key := key, dc_spine := dc_spine c @ [cs], dc_indices := dc_indices c @ [length cs - 1] \<rparr>)
            }
      })"

definition compare_cursors :: "('a \<Rightarrow> 'a \<Rightarrow> ordering option) \<Rightarrow> 'a diff_cursor \<Rightarrow> 'a diff_cursor \<Rightarrow> ordering option" where
  "compare_cursors cmp a b = do {
     key_cmp \<leftarrow> cmp (dc_key b) (dc_key a);
     if key_cmp \<noteq> Equal then Some key_cmp
     else let hmin = min (dc_height a) (dc_height b);
       da = int (length (dc_indices a)) - int (dc_height a - hmin);
       db = int (length (dc_indices b)) - int (dc_height b - hmin)
     in Some (cmp_of da db)
   }"

section \<open>The walk\<close>

datatype 'a diff_event = OnlyThis 'a | OnlyOther 'a | EditRows 'a 'a

partial_function (option) step_to_end :: "'a diff_cursor \<Rightarrow> 'a list option" where
  "step_to_end c = do {
     (ok, c') \<leftarrow> dc_step False c;
     rest \<leftarrow> (if ok then step_to_end c' else Some []);
     Some ((if dc_leaf c \<noteq> None then [dc_key c] else []) @ rest)
   }"

definition finish_walk :: "bool \<Rightarrow> ('a \<Rightarrow> 'a \<Rightarrow> ordering option) \<Rightarrow> 'a diff_cursor \<Rightarrow> 'a diff_cursor \<Rightarrow> 'a list option" where
  "finish_walk debug cmp c finished = do {
     ord \<leftarrow> compare_cursors cmp c finished;
     case ord of
       Equal \<Rightarrow> do {
         (ok, c') \<leftarrow> dc_step False c;
         if ok then step_to_end c' else Some []
       }
     | Less \<Rightarrow> if debug then None else step_to_end c
     | Greater \<Rightarrow> step_to_end c
   }"

text \<open>What the walk is given: the comparators, the two pointer comparisons and whether to use them.\<close>

record 'a diff_env =
  de_debug :: bool
  de_use_identity :: bool
  de_cmp :: "'a \<Rightarrow> 'a \<Rightarrow> ordering option"
  de_row_equal :: "'a \<Rightarrow> 'a \<Rightarrow> bool option"
  same_node :: "'a diff_cursor \<Rightarrow> 'a diff_cursor \<Rightarrow> bool"
  same_row :: "'a diff_cursor \<Rightarrow> 'a diff_cursor \<Rightarrow> bool"

record 'a diff_state =
  dt_tok :: bool
  dt_ook :: bool
  dt_prev :: ordering
  dt_tc :: "'a diff_cursor"
  dt_oc :: "'a diff_cursor"

definition pair_rows :: "'a diff_env \<Rightarrow> 'a diff_cursor \<Rightarrow> 'a diff_cursor \<Rightarrow> 'a diff_event list option" where
  "pair_rows env tc oc =
     (if de_use_identity env \<and> same_row env tc oc then Some []
      else map_option (\<lambda>e. if e then [] else [EditRows (dc_key tc) (dc_key oc)]) (de_row_equal env (dc_key tc) (dc_key oc)))"

definition report :: "ordering \<Rightarrow> ordering \<Rightarrow> 'a diff_cursor \<Rightarrow> 'a diff_cursor \<Rightarrow> 'a diff_event list" where
  "report prev ord tc oc =
     (if prev = Equal then []
      else case ord of
        Equal \<Rightarrow> []
      | Greater \<Rightarrow> if dc_leaf oc \<noteq> None then [OnlyOther (dc_key oc)] else []
      | Less \<Rightarrow> if dc_leaf tc \<noteq> None then [OnlyThis (dc_key tc)] else [])"

text \<open>One turn of the loop.\<close>

definition diff_turn :: "'a diff_env \<Rightarrow> 'a diff_state \<Rightarrow> ('a diff_event list \<times> 'a diff_state) option" where
  "diff_turn env s = do {
     let tc = dt_tc s;
     let oc = dt_oc s;
     ord \<leftarrow> compare_cursors (de_cmp env) tc oc;
     if ord = Equal \<and> dc_leaf tc \<noteq> None \<and> dc_leaf oc \<noteq> None then do {
       es \<leftarrow> pair_rows env tc oc;
       (tok, tc') \<leftarrow> dc_step False tc;
       (ook, oc') \<leftarrow> dc_step False oc;
       Some (es, \<lparr> dt_tok = tok, dt_ook = ook, dt_prev = Less, dt_tc = tc', dt_oc = oc' \<rparr>)
     } else if dc_leaf tc = None \<and> dc_leaf oc = None \<and> ord = Equal \<and> de_use_identity env \<and> same_node env tc oc then do {
       (tok, tc') \<leftarrow> dc_step True tc;
       (ook, oc') \<leftarrow> dc_step True oc;
       Some ([], \<lparr> dt_tok = tok, dt_ook = ook, dt_prev = Equal, dt_tc = tc', dt_oc = oc' \<rparr>)
     } else if ord = Less then do {
       (tok, tc') \<leftarrow> dc_step False tc;
       Some (report (dt_prev s) ord tc oc, s \<lparr> dt_tok := tok, dt_prev := ord, dt_tc := tc' \<rparr>)
     } else do {
       (ook, oc') \<leftarrow> dc_step False oc;
       Some (report (dt_prev s) ord tc oc, s \<lparr> dt_ook := ook, dt_prev := ord, dt_oc := oc' \<rparr>)
     }
   }"

definition diff_finish :: "'a diff_env \<Rightarrow> 'a diff_state \<Rightarrow> 'a diff_event list option" where
  "diff_finish env s = do {
     es1 \<leftarrow> (if dt_tok s then map_option (map OnlyThis) (finish_walk (de_debug env) (de_cmp env) (dt_tc s) (dt_oc s)) else Some []);
     es2 \<leftarrow> (if dt_ook s then map_option (map OnlyOther) (finish_walk (de_debug env) (de_cmp env) (dt_oc s) (dt_tc s)) else Some []);
     Some (es1 @ es2)
   }"

partial_function (option) diff_loop :: "'a diff_env \<Rightarrow> 'a diff_state \<Rightarrow> 'a diff_event list option" where
  "diff_loop env s =
     (if dt_tok s \<and> dt_ook s then do {
        (es, s') \<leftarrow> diff_turn env s;
        rest \<leftarrow> diff_loop env s';
        Some (es @ rest)
      } else diff_finish env s)"

definition diff_visit :: "'a diff_env \<Rightarrow> 'a btree \<Rightarrow> 'a btree \<Rightarrow> 'a diff_event list option" where
  "diff_visit env this other =
     (if tsize this = 0 \<or> tsize other = 0 then
        if tsize this = 0 \<and> tsize other = 0 then Some []
        else if tsize this = 0 then do {
          c \<leftarrow> diff_cursor_new other;
          map_option (map OnlyOther) (step_to_end c)
        } else do {
          c \<leftarrow> diff_cursor_new this;
          map_option (map OnlyThis) (step_to_end c)
        }
      else do {
        tc \<leftarrow> diff_cursor_new this;
        oc \<leftarrow> diff_cursor_new other;
        prev \<leftarrow> compare_cursors (de_cmp env) tc oc;
        diff_loop env \<lparr> dt_tok = True, dt_ook = True, dt_prev = prev, dt_tc = tc, dt_oc = oc \<rparr>
      })"

fun full_row_equal_loop :: "row \<Rightarrow> row \<Rightarrow> bool option" where
  "full_row_equal_loop (x # xs) (y # ys) = do {
     ord \<leftarrow> compare_values x y;
     if ord = Equal then full_row_equal_loop xs ys else Some False
   }"
| "full_row_equal_loop _ _ = Some True"

definition full_row_equal :: "row \<Rightarrow> row \<Rightarrow> bool option" where
  "full_row_equal a b = (if length a = length b then full_row_equal_loop a b else Some False)"

fun collect_change :: "row diff_event \<Rightarrow> source_change" where
  "collect_change (OnlyThis r) = RemoveRow r"
| "collect_change (OnlyOther r) = AddRow r"
| "collect_change (EditRows this other) = EditRow other this"

definition diff_env_for :: "bool \<Rightarrow> bool \<Rightarrow> sort \<Rightarrow> (row diff_cursor \<Rightarrow> row diff_cursor \<Rightarrow> bool) \<Rightarrow> (row diff_cursor \<Rightarrow> row diff_cursor \<Rightarrow> bool) \<Rightarrow> row diff_env" where
  "diff_env_for debug use_identity srt nodes rows = \<lparr> de_debug = debug, de_use_identity = use_identity, de_cmp = compare_rows srt,
     de_row_equal = full_row_equal, same_node = nodes, same_row = rows \<rparr>"

definition structural_diff ::
  "bool \<Rightarrow> (row diff_cursor \<Rightarrow> row diff_cursor \<Rightarrow> bool) \<Rightarrow> (row diff_cursor \<Rightarrow> row diff_cursor \<Rightarrow> bool) \<Rightarrow>
   row btree \<Rightarrow> row btree \<Rightarrow> sort \<Rightarrow> source_change list option" where
  "structural_diff debug nodes rows this other srt =
     map_option (map collect_change) (diff_visit (diff_env_for debug True srt nodes rows) this other)"

definition apply_source_change_to_tree :: "row btree \<Rightarrow> source_change \<Rightarrow> sort \<Rightarrow> row btree option" where
  "apply_source_change_to_tree t c srt = (case c of
       AddRow r \<Rightarrow> map_option fst (btree_add (compare_rows srt) t r)
     | RemoveRow r \<Rightarrow> map_option fst (btree_delete (compare_rows srt) t r)
     | EditRow r old \<Rightarrow> do {
         (t1, _) \<leftarrow> btree_delete (compare_rows srt) t old;
         map_option fst (btree_add (compare_rows srt) t1 r)
       })"

end
