(* ===== verification/Tree_Diff_Walk.thy ===== *)
theory Tree_Diff_Walk
  imports Tree_Diff
begin

text \<open>
  The walk of a diff cursor as a list of events: a node before what is below it, the subtrees and rows from right to left. A
  cursor is the list of the events that are left, a step is its tail, and a skip drops the events of one subtree.
\<close>

section \<open>Events\<close>

datatype 'a walk_event = ENode "'a bnode" nat | EVal 'a nat

fun ev_key :: "'a walk_event \<Rightarrow> 'a" where
  "ev_key (ENode n d) = max_of n"
| "ev_key (EVal k d) = k"

fun ev_depth :: "'a walk_event \<Rightarrow> nat" where
  "ev_depth (ENode n d) = d"
| "ev_depth (EVal k d) = d"

fun ev_rows :: "'a walk_event \<Rightarrow> 'a list" where
  "ev_rows (ENode n d) = []"
| "ev_rows (EVal k d) = [k]"

abbreviation vals :: "'a walk_event list \<Rightarrow> 'a list" where
  "vals es \<equiv> concat (map ev_rows es)"

fun events :: "nat \<Rightarrow> 'a bnode \<Rightarrow> 'a walk_event list" where
  "events d (Leaf ks) = ENode (Leaf ks) d # map (\<lambda>k. EVal k (Suc d)) (rev ks)"
| "events d (Internal ks cs) = ENode (Internal ks cs) d # concat (map (events (Suc d)) (rev cs))"

lemma events_head: "events d n = ENode n d # tl (events d n)"
  by (cases n) simp_all

lemma events_ne [simp]: "events d n \<noteq> []"
  by (cases n) simp_all

lemma vals_events: "vals (events d n) = rev (inorder n)"
proof (induction n arbitrary: d)
  case (Leaf ks)
  have "concat (map (ev_rows \<circ> (\<lambda>k. EVal k (Suc d))) xs) = xs" for xs :: "'a list" by (induction xs) auto
  then show ?case by simp
next
  case (Internal ks cs)
  have "vals (concat (map (events (Suc d)) ns)) = concat (map (\<lambda>n. rev (inorder n)) ns)" if "set ns \<subseteq> set cs" for ns
    using that Internal by (induction ns) auto
  from this [of "rev cs"] show ?case by (simp add: rev_concat rev_map comp_def)
qed

section \<open>The events left of a cursor\<close>

fun lefts :: "'a bnode list list \<Rightarrow> nat list \<Rightarrow> nat \<Rightarrow> 'a walk_event list" where
  "lefts sp ix 0 = []"
| "lefts sp ix (Suc k) = concat (map (events (Suc k)) (rev (take (ix ! k) (sp ! k)))) @ lefts sp ix k"

definition top_node :: "'a diff_cursor \<Rightarrow> 'a bnode" where
  "top_node c = last (dc_spine c) ! (dc_indices c ! (length (dc_spine c) - 1))"

definition here :: "'a diff_cursor \<Rightarrow> 'a walk_event list" where
  "here c = (case dc_leaf c of
       None \<Rightarrow> events (length (dc_spine c)) (top_node c)
     | Some l \<Rightarrow> map (\<lambda>k. EVal k (length (dc_indices c))) (rev (take (Suc (last (dc_indices c))) (node_keys l))))"

definition rest :: "'a diff_cursor \<Rightarrow> 'a walk_event list" where
  "rest c = here c @ lefts (dc_spine c) (dc_indices c) (length (dc_spine c))"

definition dcur_ok :: "nat \<Rightarrow> 'a diff_cursor \<Rightarrow> bool" where
  "dcur_ok h c \<longleftrightarrow> dc_height c = h \<and> dc_spine c \<noteq> [] \<and> length (dc_spine c) \<le> Suc h \<and>
     (\<forall>k<length (dc_spine c). dc_indices c ! k < length (dc_spine c ! k) \<and> (\<forall>n\<in>set (dc_spine c ! k). node_ok (h - k) n)) \<and>
     (case dc_leaf c of
        None \<Rightarrow> length (dc_indices c) = length (dc_spine c) \<and> dc_key c = max_of (top_node c)
      | Some l \<Rightarrow> length (dc_indices c) = Suc (length (dc_spine c)) \<and> length (dc_spine c) = Suc h \<and> (\<exists>ks. l = Leaf ks \<and> last (dc_indices c) < length ks \<and>
          dc_key c = ks ! last (dc_indices c)))"

lemma lefts_cong:
  "(\<And>j. j < n \<Longrightarrow> sp ! j = sp' ! j) \<Longrightarrow> (\<And>j. j < n \<Longrightarrow> ix ! j = ix' ! j) \<Longrightarrow> lefts sp ix n = lefts sp' ix' n"
  by (induction n) simp_all

lemma find_left_None: "n \<le> length ix \<Longrightarrow> find_left ix n = Some None \<Longrightarrow> lefts sp ix n = []"
  by (induction n) (auto split: if_splits)

lemma find_left_Some:
  "n \<le> length ix \<Longrightarrow> find_left ix n = Some (Some k) \<Longrightarrow> k < n \<and> 0 < ix ! k \<and> lefts sp ix n = lefts sp ix (Suc k)"
proof (induction n)
  case (Suc n)
  then show ?case by (cases "ix ! n") auto
qed simp

lemma find_left_total: "n \<le> length ix \<Longrightarrow> \<exists>r. find_left ix n = Some r"
  by (induction n) auto

lemma current_node_top: "dcur_ok h c \<Longrightarrow> dc_leaf c = None \<Longrightarrow> current_node c = Some (top_node c)"
  by (auto simp: dcur_ok_def current_node_def top_node_def last_conv_nth Let_def)

lemma top_node_ok: "dcur_ok h c \<Longrightarrow> node_ok (h - (length (dc_spine c) - 1)) (top_node c)"
  by (auto simp: dcur_ok_def top_node_def last_conv_nth)

lemma rest_head:
  assumes "dcur_ok h c"
  obtains e es where "rest c = e # es" "ev_key e = dc_key c" "ev_depth e = length (dc_indices c)" "(ev_rows e \<noteq> []) = (dc_leaf c \<noteq> None)"
proof (cases "dc_leaf c")
  case None
  have "rest c = ENode (top_node c) (length (dc_spine c)) # tl (rest c)"
    using None events_head [of "length (dc_spine c)" "top_node c"] by (simp add: rest_def here_def)
  then show ?thesis using that None assms by (simp add: dcur_ok_def)
next
  case (Some l)
  then obtain ks where ks: "l = Leaf ks" "last (dc_indices c) < length ks" "dc_key c = ks ! last (dc_indices c)" using assms by (auto simp: dcur_ok_def)
  then have "rest c = EVal (dc_key c) (length (dc_indices c)) # tl (rest c)"
    using Some by (simp add: rest_def here_def take_Suc_conv_app_nth)
  then show ?thesis using that [of "EVal (dc_key c) (length (dc_indices c))"] Some by simp
qed

lemma rest_ne: "dcur_ok h c \<Longrightarrow> rest c \<noteq> []"
  by (erule rest_head) simp

section \<open>Steps\<close>

text \<open>A move to the next node on the left drops what is left of the current position.\<close>

lemma move_left:
  assumes ok: "dcur_ok h c" and found: "find_left (dc_indices c) (length (dc_spine c)) = Some (Some k)"
  defines "i \<equiv> dc_indices c ! k - 1"
  defines "c' \<equiv> c \<lparr> dc_leaf := None, dc_spine := take (k + 1) (dc_spine c), dc_indices := (take (k + 1) (dc_indices c))[k := i], dc_key := max_of (dc_spine c ! k ! i) \<rparr>"
  shows "vec_get (take (k + 1) (dc_spine c) ! k) i = Some (dc_spine c ! k ! i)" "max_key (dc_spine c ! k ! i) = Some (max_of (dc_spine c ! k ! i))"
    "dcur_ok h c'" "rest c' = lefts (dc_spine c) (dc_indices c) (length (dc_spine c))"
proof -
  have len: "length (dc_spine c) \<le> length (dc_indices c)" using ok by (auto simp: dcur_ok_def split: option.splits)
  from find_left_Some [OF len found, of "dc_spine c"] have k: "k < length (dc_spine c)" "0 < dc_indices c ! k"
    "lefts (dc_spine c) (dc_indices c) (length (dc_spine c)) = lefts (dc_spine c) (dc_indices c) (Suc k)" by auto
  have ix: "dc_indices c ! k < length (dc_spine c ! k)" "\<forall>n\<in>set (dc_spine c ! k). node_ok (h - k) n" using ok k(1) by (auto simp: dcur_ok_def)
  have i: "i < length (dc_spine c ! k)" "dc_indices c ! k = Suc i" using ix k(2) by (auto simp: i_def)
  have n: "node_ok (h - k) (dc_spine c ! k ! i)" using ix i by simp
  show "vec_get (take (k + 1) (dc_spine c) ! k) i = Some (dc_spine c ! k ! i)" using i k by simp
  show "max_key (dc_spine c ! k ! i) = Some (max_of (dc_spine c ! k ! i))" using n by simp
  have kl: "k < length (dc_indices c)" using k(1) len by linarith
  have top: "top_node c' = dc_spine c ! k ! i"
    using k(1) kl by (simp add: c'_def top_node_def take_Suc_conv_app_nth min_absorb2)
  show "dcur_ok h c'" unfolding dcur_ok_def top
    using ok k(1) kl i by (auto simp: c'_def dcur_ok_def nth_list_update min_absorb2)
  have "lefts (dc_spine c') (dc_indices c') (Suc k) = concat (map (events (Suc k)) (rev (take i (dc_spine c ! k)))) @ lefts (dc_spine c) (dc_indices c) k"
    using k(1) kl by (auto simp: c'_def intro!: lefts_cong)
  moreover have "length (dc_spine c') = Suc k" using k(1) by (simp add: c'_def)
  moreover have "dc_leaf c' = None" by (simp add: c'_def)
  ultimately show "rest c' = lefts (dc_spine c) (dc_indices c) (length (dc_spine c))"
    unfolding rest_def here_def top k(3) using i by (simp add: take_Suc_conv_app_nth)
qed

lemma step_node:
  assumes ok: "dcur_ok h c" and up: "sk \<or> dc_leaf c \<noteq> None \<and> last (dc_indices c) = 0"
  shows "\<exists>b c'. dc_step sk c = Some (b, c') \<and> b = (lefts (dc_spine c) (dc_indices c) (length (dc_spine c)) \<noteq> []) \<and>
    (b \<longrightarrow> dcur_ok h c' \<and> rest c' = lefts (dc_spine c) (dc_indices c) (length (dc_spine c))) \<and> (\<not> b \<longrightarrow> c' = c)"
proof -
  have len: "length (dc_spine c) \<le> length (dc_indices c)" "dc_indices c \<noteq> []" using ok by (auto simp: dcur_ok_def split: option.splits)
  obtain r where r: "find_left (dc_indices c) (length (dc_spine c)) = Some r" using find_left_total [OF len(1)] by blast
  show ?thesis
  proof (cases r)
    case None
    then show ?thesis using up len(2) r find_left_None [OF len(1), of "dc_spine c"] by (auto simp: dc_step_def)
  next
    case (Some k)
    note m = move_left [OF ok r [unfolded Some]]
    have "lefts (dc_spine c) (dc_indices c) (length (dc_spine c)) \<noteq> []" using rest_ne [OF m(3)] m(4) by simp
    then show ?thesis using up len(2) r m by (auto simp: dc_step_def Some Let_def)
  qed
qed

lemma step_row:
  assumes ok: "dcur_ok h c" and row: "dc_leaf c \<noteq> None" "last (dc_indices c) \<noteq> 0"
  shows "\<exists>c'. dc_step False c = Some (True, c') \<and> dcur_ok h c' \<and> rest c' = tl (rest c)"
proof -
  obtain ks where ks: "dc_leaf c = Some (Leaf ks)" "last (dc_indices c) < length ks" and len: "length (dc_indices c) = Suc (length (dc_spine c))"
    "length (dc_spine c) = Suc h"
    using ok row(1) by (auto simp: dcur_ok_def)
  obtain i where i: "last (dc_indices c) = Suc i" using row(2) by (cases "last (dc_indices c)") auto
  define c' where "c' = c \<lparr> dc_indices := butlast (dc_indices c) @ [i], dc_key := ks ! i \<rparr>"
  have ne: "dc_indices c \<noteq> []" using len by auto
  have sp: "dc_spine c' = dc_spine c" by (simp add: c'_def)
  have same: "dc_indices c' ! k = dc_indices c ! k" if "k < length (dc_spine c)" for k
    using that len by (simp add: c'_def nth_append nth_butlast)
  have "dc_step False c = Some (True, c')" using row ks i ne by (simp add: dc_step_def c'_def Let_def)
  moreover have "dcur_ok h c'" using ok ks i len same by (auto simp: dcur_ok_def c'_def)
  moreover have "rest c' = tl (rest c)"
  proof -
    have "lefts (dc_spine c') (dc_indices c') (length (dc_spine c')) = lefts (dc_spine c) (dc_indices c) (length (dc_spine c))"
      unfolding sp by (rule lefts_cong) (simp_all add: same)
    moreover have "here c = EVal (ks ! Suc i) (length (dc_indices c)) # here c'"
      using ks i ne by (simp add: here_def c'_def take_Suc_conv_app_nth)
    ultimately show ?thesis by (simp add: rest_def c'_def)
  qed
  ultimately show ?thesis by blast
qed

lemma step_down:
  assumes ok: "dcur_ok h c" and node: "dc_leaf c = None"
  shows "\<exists>c'. dc_step False c = Some (True, c') \<and> dcur_ok h c' \<and> rest c' = tl (rest c)"
proof -
  have cur: "current_node c = Some (top_node c)" and nok: "node_ok (h - (length (dc_spine c) - 1)) (top_node c)"
    using current_node_top [OF ok node] top_node_ok [OF ok] by auto
  have len: "length (dc_indices c) = length (dc_spine c)" "dc_spine c \<noteq> []" "length (dc_spine c) \<le> Suc h" using ok node by (auto simp: dcur_ok_def)
  have pos: "0 < length (dc_spine c)" using len by simp
  show ?thesis
  proof (cases "top_node c")
    case (Leaf ks)
    then have ks: "ks \<noteq> []" and h: "length (dc_spine c) = Suc h" using nok len pos by auto
    define c' where "c' = c \<lparr> dc_key := last ks, dc_indices := dc_indices c @ [length ks - 1], dc_leaf := Some (Leaf ks) \<rparr>"
    have "dc_step False c = Some (True, c')" using node cur ks by (simp add: dc_step_def Leaf c'_def)
    moreover have "dcur_ok h c'" using ok node ks h len by (auto simp: dcur_ok_def c'_def nth_append last_conv_nth)
    moreover have "rest c' = tl (rest c)"
    proof -
      have sp: "dc_spine c' = dc_spine c" by (simp add: c'_def)
      have "lefts (dc_spine c') (dc_indices c') (length (dc_spine c')) = lefts (dc_spine c) (dc_indices c) (length (dc_spine c))"
        unfolding sp by (rule lefts_cong) (simp_all add: c'_def nth_append len)
      moreover have "here c' = tl (here c)" using node ks len by (simp add: here_def c'_def Leaf)
      moreover have "here c \<noteq> []" using node by (simp add: here_def)
      ultimately show ?thesis by (simp add: rest_def)
    qed
    ultimately show ?thesis by blast
  next
    case (Internal ks cs)
    then have cs: "cs \<noteq> []" "\<forall>n\<in>set cs. node_ok (h - length (dc_spine c)) n" and h: "length (dc_spine c) \<le> h" using nok len by auto
    have lc: "node_ok (h - length (dc_spine c)) (last cs)" using cs by simp
    define c' where "c' = c \<lparr> dc_key := max_of (last cs), dc_spine := dc_spine c @ [cs], dc_indices := dc_indices c @ [length cs - 1] \<rparr>"
    have f: "dc_leaf c' = None" "dc_spine c' = dc_spine c @ [cs]" "dc_indices c' = dc_indices c @ [length cs - 1]" by (simp_all add: c'_def node)
    have top: "top_node c' = last cs" using len cs by (simp add: top_node_def c'_def nth_append last_conv_nth)
    have "dc_step False c = Some (True, c')" using node cur cs(1) by (simp add: dc_step_def Internal c'_def node_ok_max_key [OF lc])
    moreover have "dcur_ok h c'" unfolding dcur_ok_def top using ok node cs h len by (auto simp: dcur_ok_def c'_def nth_append less_Suc_eq)
    moreover have "rest c' = tl (rest c)"
    proof -
      have "cs = take (length cs - 1) cs @ [last cs]" using cs(1) by (metis append_butlast_last_id butlast_conv_take)
      then have cs': "rev cs = last cs # rev (take (length cs - 1) cs)" by (metis rev_eq_Cons_iff rev_rev_ident)
      have "lefts (dc_spine c') (dc_indices c') (length (dc_spine c)) = lefts (dc_spine c) (dc_indices c) (length (dc_spine c))"
        using len by (intro lefts_cong) (simp_all add: c'_def nth_append)
      then have "rest c' = concat (map (events (Suc (length (dc_spine c)))) (rev cs)) @ lefts (dc_spine c) (dc_indices c) (length (dc_spine c))"
        using len by (simp add: rest_def here_def top cs' f nth_append)
      then show ?thesis using node by (simp add: rest_def here_def Internal)
    qed
    ultimately show ?thesis by blast
  qed
qed

lemma dc_step_ok:
  assumes "dcur_ok h c"
  shows "\<exists>b c'. dc_step False c = Some (b, c') \<and> b = (tl (rest c) \<noteq> []) \<and> (b \<longrightarrow> dcur_ok h c' \<and> rest c' = tl (rest c)) \<and> (\<not> b \<longrightarrow> c' = c)"
proof -
  consider "dc_leaf c = None" | "dc_leaf c \<noteq> None" "last (dc_indices c) \<noteq> 0" | "dc_leaf c \<noteq> None" "last (dc_indices c) = 0" by blast
  then show ?thesis
  proof cases
    case 3
    then obtain ks where "dc_leaf c = Some (Leaf ks)" "last (dc_indices c) < length ks" using assms by (auto simp: dcur_ok_def)
    then have "tl (rest c) = lefts (dc_spine c) (dc_indices c) (length (dc_spine c))" using 3 by (cases ks) (simp_all add: rest_def here_def)
    then show ?thesis using step_node [OF assms, of False] 3 by simp
  qed (use step_down [OF assms] step_row [OF assms] rest_ne in metis)+
qed

lemma skip_ok:
  assumes "dcur_ok h c" "dc_leaf c = None"
  shows "\<exists>b c' L. dc_step True c = Some (b, c') \<and> rest c = events (length (dc_spine c)) (top_node c) @ L \<and> b = (L \<noteq> []) \<and>
    (b \<longrightarrow> dcur_ok h c' \<and> rest c' = L) \<and> (\<not> b \<longrightarrow> c' = c)"
  using step_node [OF assms(1), of True] assms(2) by (auto simp: rest_def here_def)

end
