(* ===== verification/Tree_Diff_Order.thy ===== *)
theory Tree_Diff_Order
  imports Tree_Diff_Walk
begin

text \<open>
  The order in which the two cursors of the structural diff advance: the larger key first and, on equal keys, the node that is
  further from the leaves. The events of a sound tree are strictly ordered by it, and comparing two cursors compares the events they stand on.
\<close>

definition behind :: "('a \<Rightarrow> 'a \<Rightarrow> ordering option) \<Rightarrow> nat \<Rightarrow> 'a walk_event \<Rightarrow> nat \<Rightarrow> 'a walk_event \<Rightarrow> bool" where
  "behind cmp h e h' e' \<longleftrightarrow> cmp (ev_key e') (ev_key e) = Some Less \<or>
     cmp (ev_key e') (ev_key e) = Some Equal \<and> ev_depth e + h' < ev_depth e' + h"

definition level_with :: "('a \<Rightarrow> 'a \<Rightarrow> ordering option) \<Rightarrow> nat \<Rightarrow> 'a walk_event \<Rightarrow> nat \<Rightarrow> 'a walk_event \<Rightarrow> bool" where
  "level_with cmp h e h' e' \<longleftrightarrow> cmp (ev_key e') (ev_key e) = Some Equal \<and> ev_depth e + h' = ev_depth e' + h"

text \<open>What is known of the events of a tree of height \<open>h\<close>: the rows are one level below the leaves.\<close>

definition event_ok :: "'a set \<Rightarrow> nat \<Rightarrow> 'a walk_event \<Rightarrow> bool" where
  "event_ok D h e \<longleftrightarrow> ev_key e \<in> D \<and> (if ev_rows e = [] then ev_depth e \<le> Suc h else ev_depth e = Suc (Suc h))"

lemma event_key_in:
  "node_ok k n \<Longrightarrow> e \<in> set (events d n) \<Longrightarrow> ev_key e \<in> set (inorder n)"
proof (induction n arbitrary: d k)
  case (Internal ks cs)
  then show ?case using node_ok_max_in [OF Internal.prems(1)] by fastforce
qed (auto simp: last_in_set)

lemma event_depth:
  "node_ok k n \<Longrightarrow> e \<in> set (events d n) \<Longrightarrow> d \<le> ev_depth e \<and> (if ev_rows e = [] then ev_depth e \<le> d + k else ev_depth e = Suc (d + k))"
proof (induction n arbitrary: d k)
  case (Internal ks cs)
  from Internal.prems consider "e = ENode (Internal ks cs) d" | c where "c \<in> set cs" "node_ok (k - 1) c" "e \<in> set (events (Suc d) c)" by auto
  then show ?case
  proof cases
    case 2
    then show ?thesis using Internal.IH [of c "k - 1" "Suc d"] Internal.prems(1) by (auto split: if_splits)
  qed simp
qed auto

lemma events_ok: "node_ok h n \<Longrightarrow> set (inorder n) \<subseteq> D \<Longrightarrow> e \<in> set (events 1 n) \<Longrightarrow> event_ok D h e"
  using event_key_in [of h n e 1] event_depth [of h n e 1] by (auto simp: event_ok_def)

lemma event_row: "ev_rows e \<noteq> [] \<Longrightarrow> ev_rows e = [ev_key e]"
  by (cases e) auto

context comparator_on
begin

lemma events_sorted:
  "node_ok k n \<Longrightarrow> sorted_by cmp (inorder n) \<Longrightarrow> set (inorder n) \<subseteq> D \<Longrightarrow> sorted_wrt (\<lambda>e e'. behind cmp h e h e') (events d n)"
proof (induction n arbitrary: d k)
  case (Leaf ks)
  then have le: "y = last ks \<or> cmp y (last ks) = Some Less" if "y \<in> set ks" for y using max_or_less [of k "Leaf ks" y] that by simp
  have "behind cmp h (ENode (Leaf ks) d) h (EVal y (Suc d))" if "y \<in> set ks" for y
    using le [OF that] cmp_refl [of y] that Leaf.prems by (auto simp: behind_def)
  moreover have "sorted_wrt (\<lambda>e e'. behind cmp h e h e') (map (\<lambda>k. EVal k (Suc d)) (rev ks))"
    using Leaf.prems(2) by (auto simp: sorted_wrt_map sorted_wrt_rev sorted_by_def behind_def intro: sorted_wrt_mono_rel [rotated])
  ultimately show ?case by simp
next
  case (Internal ks cs)
  have "sorted_wrt (\<lambda>e e'. behind cmp h e h e') (concat (map (events (Suc d)) (rev ns)))"
    if "set ns \<subseteq> set cs" "sorted_by cmp (seq_of ns)" "set (seq_of ns) \<subseteq> D" for ns
    using that
  proof (induction ns)
    case (Cons m ns)
    have mok: "node_ok (k - 1) m" "\<forall>c\<in>set ns. node_ok (k - 1) c" using Internal.prems(1) Cons.prems(1) by auto
    have "sorted_wrt (\<lambda>e e'. behind cmp h e h e') (events (Suc d) m)"
      using Internal.IH [of m "k - 1" "Suc d"] mok(1) Cons.prems by (simp add: sorted_by_append)
    moreover have "behind cmp h e h e'" if e: "e \<in> set (concat (map (events (Suc d)) (rev ns)))" "e' \<in> set (events (Suc d) m)" for e e'
    proof -
      obtain c where "c \<in> set ns" "e \<in> set (events (Suc d) c)" using e(1) by auto
      then have "ev_key e \<in> set (seq_of ns)" using event_key_in mok(2) by fastforce
      moreover have "ev_key e' \<in> set (inorder m)" using event_key_in mok(1) e(2) by blast
      ultimately show ?thesis using Cons.prems(2) by (auto simp: behind_def sorted_by_append)
    qed
    ultimately show ?case using Cons by (auto simp: sorted_wrt_append sorted_by_append)
  qed simp
  from this [of cs] have "sorted_wrt (\<lambda>e e'. behind cmp h e h e') (tl (events d (Internal ks cs)))" using Internal.prems by simp
  moreover have "behind cmp h (ENode (Internal ks cs) d) h e" if e: "e \<in> set (tl (events d (Internal ks cs)))" for e
  proof -
    obtain c where c: "c \<in> set cs" "e \<in> set (events (Suc d) c)" "node_ok (k - 1) c" using e Internal.prems(1) by auto
    have deep: "d < ev_depth e" using event_depth [OF c(3,2)] by simp
    have key: "ev_key e \<in> set (inorder (Internal ks cs))" using event_key_in [OF c(3,2)] c(1) by auto
    have "cmp (ev_key e) (max_of (Internal ks cs)) \<noteq> Some Greater" using le_max_of Internal.prems key by blast
    moreover have "cmp (ev_key e) (max_of (Internal ks cs)) \<noteq> None"
      using cmp_total key node_ok_max_in [OF Internal.prems(1)] Internal.prems(3) by blast
    ultimately show ?thesis using deep by (auto simp: behind_def ordering_neq_cases)
  qed
  ultimately show ?case by simp
qed

lemma behind_trans:
  assumes "ev_key a \<in> D" "ev_key b \<in> D" "ev_key c \<in> D" "behind cmp h a h' b" "behind cmp h' b h'' c"
  shows "behind cmp h a h'' c"
  using assms cmp_less_trans [of "ev_key c" "ev_key b" "ev_key a"] cmp_eq_cong [of "ev_key c" "ev_key b" "ev_key a"]
    cmp_eq_cong_right [of "ev_key b" "ev_key a" "ev_key c"] by (auto simp: behind_def)

lemma level_behind:
  assumes "ev_key a \<in> D" "ev_key b \<in> D" "ev_key c \<in> D" "level_with cmp h a h' b" "behind cmp h' b h'' c"
  shows "behind cmp h a h'' c"
  using assms cmp_eq_cong_right [of "ev_key b" "ev_key a" "ev_key c"] by (auto simp: behind_def level_with_def)

lemma level_sym: "ev_key a \<in> D \<Longrightarrow> ev_key b \<in> D \<Longrightarrow> level_with cmp h a h' b \<Longrightarrow> level_with cmp h' b h a"
  using cmp_eq_sym [of "ev_key a" "ev_key b"] by (auto simp: level_with_def)

text \<open>Comparing two cursors.\<close>

lemma compare_cursors_events:
  assumes "dcur_ok h a" "rest a = e # es" "dcur_ok h' b" "rest b = e' # es'" "ev_key e \<in> D" "ev_key e' \<in> D"
  obtains "compare_cursors cmp a b = Some Less" "behind cmp h e h' e'"
  | "compare_cursors cmp a b = Some Equal" "level_with cmp h e h' e'"
  | "compare_cursors cmp a b = Some Greater" "behind cmp h' e' h e"
proof -
  have a: "dc_key a = ev_key e" "length (dc_indices a) = ev_depth e" "dc_height a = h" using assms(1,2) rest_head [of h a] by (force simp: dcur_ok_def)+
  have b: "dc_key b = ev_key e'" "length (dc_indices b) = ev_depth e'" "dc_height b = h'" using assms(3,4) rest_head [of h' b] by (force simp: dcur_ok_def)+
  note k = a b compare_cursors_def behind_def level_with_def Let_def
  from assms(6,5) show thesis
  proof (cases rule: cmp_cases)
    case Less
    then show thesis using that(1) by (simp add: k)
  next
    case Greater
    then show thesis using that(3) by (simp add: k)
  next
    case Equal
    have "ev_depth e + h' < ev_depth e' + h \<or> ev_depth e + h' = ev_depth e' + h \<or> ev_depth e' + h < ev_depth e + h'" by linarith
    then show thesis
    proof (elim disjE)
      assume d: "ev_depth e + h' < ev_depth e' + h"
      then have "cmp_of (int (ev_depth e) - int (h - min h h')) (int (ev_depth e') - int (h' - min h h')) = Less" by (auto simp: min_def)
      then show thesis using that(1) Equal d by (simp add: k)
    next
      assume d: "ev_depth e + h' = ev_depth e' + h"
      then have "cmp_of (int (ev_depth e) - int (h - min h h')) (int (ev_depth e') - int (h' - min h h')) = Equal" by (auto simp: min_def)
      then show thesis using that(2) Equal d by (simp add: k)
    next
      assume d: "ev_depth e' + h < ev_depth e + h'"
      then have "cmp_of (int (ev_depth e) - int (h - min h h')) (int (ev_depth e') - int (h' - min h h')) = Greater" by (auto simp: min_def)
      then show thesis using that(3) Equal d by (simp add: k)
    qed
  qed
qed

end

end
