(* ===== verification/Tree_Diff_Correct.thy ===== *)
theory Tree_Diff_Correct
  imports Tree_Diff_Order "HOL-Library.Sublist"
begin

text \<open>
  The structural diff is the linear merge of the two trees' rows in descending order: it returns, no pointer comparison changes what it
  reports, no assertion of its drain is reached, and the gate on the previous order never suppresses a row.
\<close>

section \<open>The reference merge\<close>

fun diff_rows :: "('a \<Rightarrow> 'a \<Rightarrow> ordering option) \<Rightarrow> ('a \<Rightarrow> 'a \<Rightarrow> bool) \<Rightarrow> 'a list \<Rightarrow> 'a list \<Rightarrow> 'a diff_event list" where
  "diff_rows cmp eq [] ys = map OnlyOther ys"
| "diff_rows cmp eq (x # xs) [] = map OnlyThis (x # xs)"
| "diff_rows cmp eq (x # xs) (y # ys) = (case cmp y x of
      Some Less \<Rightarrow> OnlyThis x # diff_rows cmp eq xs (y # ys)
    | Some Greater \<Rightarrow> OnlyOther y # diff_rows cmp eq (x # xs) ys
    | _ \<Rightarrow> (if eq x y then [] else [EditRows x y]) @ diff_rows cmp eq xs ys)"

lemma diff_rows_Nil [simp]: "diff_rows cmp eq xs [] = map OnlyThis xs"
  by (cases xs) simp_all

lemma diff_rows_this: "(\<And>y. y \<in> set ys \<Longrightarrow> cmp y x = Some Less) \<Longrightarrow> diff_rows cmp eq (x # xs) ys = OnlyThis x # diff_rows cmp eq xs ys"
  by (cases ys) simp_all

lemma diff_rows_other: "(\<And>x. x \<in> set xs \<Longrightarrow> cmp y x = Some Greater) \<Longrightarrow> diff_rows cmp eq xs (y # ys) = OnlyOther y # diff_rows cmp eq xs ys"
  by (cases xs) simp_all

lemma diff_rows_same: "(\<And>w. w \<in> set ws \<Longrightarrow> cmp w w = Some Equal \<and> eq w w) \<Longrightarrow> diff_rows cmp eq (ws @ xs) (ws @ ys) = diff_rows cmp eq xs ys"
  by (induction ws) simp_all

section \<open>Cursors on sound trees\<close>

definition good_walk :: "('a \<Rightarrow> 'a \<Rightarrow> ordering option) \<Rightarrow> 'a set \<Rightarrow> nat \<Rightarrow> 'a diff_cursor \<Rightarrow> bool" where
  "good_walk cmp D h c \<longleftrightarrow> dcur_ok h c \<and> sorted_wrt (\<lambda>e e'. behind cmp h e h e') (rest c) \<and> (\<forall>e\<in>set (rest c). event_ok D h e)"

definition left :: "bool \<Rightarrow> 'a diff_cursor \<Rightarrow> 'a walk_event list" where
  "left b c = (if b then rest c else [])"

lemma left_simps [simp]: "left True c = rest c" "left False c = []"
  by (simp_all add: left_def)

lemma good_walk_ok: "good_walk cmp D h c \<Longrightarrow> dcur_ok h c"
  by (simp add: good_walk_def)

lemma good_walk_rest:
  assumes "good_walk cmp D h c" "dcur_ok h c'" "rest c = pre @ rest c'"
  shows "good_walk cmp D h c'"
  using assms by (auto simp: good_walk_def sorted_wrt_append)

lemma good_walk_head:
  assumes "good_walk cmp D h c"
  obtains e es where "rest c = e # es" "ev_key e = dc_key c" "ev_rows e = (if dc_leaf c = None then [] else [dc_key c])"
    "ev_key e \<in> D" "event_ok D h e"
    "\<And>e'. e' \<in> set es \<Longrightarrow> behind cmp h e h e'" "\<And>e'. e' \<in> set es \<Longrightarrow> event_ok D h e' \<and> ev_key e' \<in> D"
proof -
  obtain e es where r: "rest c = e # es" "ev_key e = dc_key c" "(ev_rows e \<noteq> []) = (dc_leaf c \<noteq> None)"
    using rest_head [OF good_walk_ok [OF assms]] by metis
  moreover have "ev_rows e = (if dc_leaf c = None then [] else [dc_key c])" using r event_row [of e] by auto
  ultimately show thesis using that [of e es] assms by (auto simp: good_walk_def event_ok_def)
qed

lemma step_left:
  assumes "good_walk cmp D h c"
  obtains t c' where "dc_step False c = Some (t, c')" "left t c' = tl (rest c)" "t \<Longrightarrow> good_walk cmp D h c'" "\<not> t \<Longrightarrow> c' = c"
    "dc_leaf c = None \<Longrightarrow> t"
proof -
  have ok: "dcur_ok h c" using good_walk_ok [OF assms] .
  obtain t c' where s: "dc_step False c = Some (t, c')" "t = (tl (rest c) \<noteq> [])" "t \<longrightarrow> dcur_ok h c' \<and> rest c' = tl (rest c)" "\<not> t \<longrightarrow> c' = c"
    using dc_step_ok [OF ok] by blast
  have "rest c = [hd (rest c)] @ tl (rest c)" using rest_ne [OF ok] by simp
  then have "good_walk cmp D h c'" if t using s(3) that good_walk_rest [OF assms, of c'] by metis
  moreover have t if "dc_leaf c = None" using step_down [OF ok that] s(1) by auto
  ultimately show thesis using that s by (simp add: left_def)
qed

lemma skip_left:
  assumes "good_walk cmp D h c" "dc_leaf c = None"
  obtains t c' d n where "dc_step True c = Some (t, c')" "current_node c = Some n" "rest c = events d n @ left t c'" "t \<Longrightarrow> good_walk cmp D h c'"
    "\<not> t \<Longrightarrow> c' = c" "t \<Longrightarrow> dc_leaf c' = None"
proof -
  have ok: "dcur_ok h c" using good_walk_ok [OF assms(1)] .
  obtain t c' L where s: "dc_step True c = Some (t, c')" "rest c = events (length (dc_spine c)) (top_node c) @ L" "t = (L \<noteq> [])"
    "t \<longrightarrow> dcur_ok h c' \<and> rest c' = L" "\<not> t \<longrightarrow> c' = c" using skip_ok [OF ok assms(2)] by blast
  have "left t c' = L" using s by (auto simp: left_def)
  moreover have "good_walk cmp D h c'" if t using s that good_walk_rest [OF assms(1)] by metis
  moreover have "dc_leaf c' = None" if t using s(1) that by (auto simp: dc_step_def Let_def split: if_splits option.splits Option.bind_splits)
  ultimately show thesis using that s current_node_top [OF ok assms(2)] by metis
qed

section \<open>The drain\<close>

lemma step_to_end_rest: "good_walk cmp D h c \<Longrightarrow> step_to_end c = Some (vals (rest c))"
proof (induction "length (rest c)" arbitrary: c rule: less_induct)
  case less
  obtain e es where e: "rest c = e # es" "ev_rows e = (if dc_leaf c = None then [] else [dc_key c])" using good_walk_head [OF less.prems] by metis
  obtain t c' where s: "dc_step False c = Some (t, c')" "left t c' = tl (rest c)" "t \<Longrightarrow> good_walk cmp D h c'" using step_left [OF less.prems] by metis
  have "(if t then step_to_end c' else Some []) = Some (vals es)"
    using less.hyps [of c'] s e(1) by (cases t) auto
  then show ?case by (subst step_to_end.simps) (simp add: s(1) e)
qed

lemma finish_walk_rest:
  "good_walk cmp D h c \<Longrightarrow> compare_cursors cmp c finished = Some Greater \<Longrightarrow> finish_walk debug cmp c finished = Some (vals (rest c))"
  by (simp add: finish_walk_def step_to_end_rest)

section \<open>The loop\<close>

text \<open>What the diff relies on: one allocation is one value, and the comparison of full rows is a total, reflexive test.\<close>

definition identity_sound :: "'a diff_env \<Rightarrow> bool" where
  "identity_sound env \<longleftrightarrow> (\<forall>a b. (same_node env a b \<longrightarrow> current_node a = current_node b) \<and> (same_row env a b \<longrightarrow> dc_key a = dc_key b))"

definition row_test_ok :: "'a set \<Rightarrow> ('a \<Rightarrow> 'a \<Rightarrow> bool) \<Rightarrow> 'a diff_env \<Rightarrow> bool" where
  "row_test_ok D eq env \<longleftrightarrow> (\<forall>x\<in>D. eq x x) \<and> (\<forall>x\<in>D. \<forall>y\<in>D. de_row_equal env x y = Some (eq x y))"

text \<open>The gate: after an equal comparison the next turn has no row to report.\<close>

definition gate_ok :: "'a diff_env \<Rightarrow> 'a diff_state \<Rightarrow> bool" where
  "gate_ok env s \<longleftrightarrow> (dt_prev s = Equal \<longrightarrow> (\<forall>ord. compare_cursors (de_cmp env) (dt_tc s) (dt_oc s) = Some ord \<longrightarrow> report Less ord (dt_tc s) (dt_oc s) = []))"

definition diff_state_ok :: "'a set \<Rightarrow> nat \<Rightarrow> nat \<Rightarrow> 'a diff_env \<Rightarrow> 'a diff_state \<Rightarrow> bool" where
  "diff_state_ok D ha hb env s \<longleftrightarrow> (dt_tok s \<longrightarrow> good_walk (de_cmp env) D ha (dt_tc s)) \<and> (dt_ook s \<longrightarrow> good_walk (de_cmp env) D hb (dt_oc s)) \<and>
     (dt_tok s \<and> dt_ook s \<longrightarrow> gate_ok env s) \<and>
     (dt_tok s \<and> \<not> dt_ook s \<longrightarrow> compare_cursors (de_cmp env) (dt_tc s) (dt_oc s) = Some Greater) \<and>
     (dt_ook s \<and> \<not> dt_tok s \<longrightarrow> compare_cursors (de_cmp env) (dt_oc s) (dt_tc s) = Some Greater)"

abbreviation merged :: "('a \<Rightarrow> 'a \<Rightarrow> bool) \<Rightarrow> 'a diff_env \<Rightarrow> 'a diff_state \<Rightarrow> 'a diff_event list" where
  "merged eq env s \<equiv> diff_rows (de_cmp env) eq (vals (left (dt_tok s) (dt_tc s))) (vals (left (dt_ook s) (dt_oc s)))"

abbreviation to_go :: "'a diff_state \<Rightarrow> nat" where
  "to_go s \<equiv> length (left (dt_tok s) (dt_tc s)) + length (left (dt_ook s) (dt_oc s))"

definition turn_post :: "'a set \<Rightarrow> nat \<Rightarrow> nat \<Rightarrow> ('a \<Rightarrow> 'a \<Rightarrow> bool) \<Rightarrow> 'a diff_env \<Rightarrow> 'a diff_state \<Rightarrow> bool" where
  "turn_post D ha hb eq env s \<longleftrightarrow> (\<exists>es s'. diff_turn env s = Some (es, s') \<and> merged eq env s = es @ merged eq env s' \<and>
     diff_state_ok D ha hb env s' \<and> to_go s' < to_go s)"

lemma report_gate: "gate_ok env s \<Longrightarrow> compare_cursors (de_cmp env) (dt_tc s) (dt_oc s) = Some ord \<Longrightarrow>
    report (dt_prev s) ord (dt_tc s) (dt_oc s) = report Less ord (dt_tc s) (dt_oc s)"
  by (auto simp: gate_ok_def report_def)

lemma finish_merged:
  assumes "diff_state_ok D ha hb env s" "\<not> (dt_tok s \<and> dt_ook s)"
  shows "diff_finish env s = Some (merged eq env s)"
  using assms by (cases "dt_tok s"; cases "dt_ook s") (auto simp: diff_state_ok_def diff_finish_def finish_walk_rest)

context comparator_on
begin

lemma behind_compare:
  assumes "dcur_ok h a" "rest a = e # es" "dcur_ok h' b" "rest b = e' # es'" "ev_key e \<in> D" "ev_key e' \<in> D" "behind cmp h e h' e'"
  shows "compare_cursors cmp a b = Some Less" "compare_cursors cmp b a = Some Greater"
proof -
  have no: "\<not> behind cmp h' e' h e" "\<not> level_with cmp h e h' e'" "\<not> level_with cmp h' e' h e"
    using assms(7) cmp_flip [OF assms(5,6)] by (auto simp: behind_def level_with_def)
  show "compare_cursors cmp a b = Some Less" using compare_cursors_events [OF assms(1-6)] no by metis
  show "compare_cursors cmp b a = Some Greater" using compare_cursors_events [OF assms(3,4,1,2,6,5)] no by metis
qed

text \<open>A row that is behind an event is larger than every row from that event on.\<close>

lemma row_behind:
  assumes good: "good_walk cmp D h' c" "rest c = e' # es" and e: "ev_key e \<in> D" "event_ok D h e" "ev_rows e \<noteq> []" "behind cmp h e h' e'"
    and y: "y \<in> set (vals (rest c))"
  shows "cmp y (ev_key e) = Some Less"
proof -
  obtain f where f: "f \<in> set (rest c)" "y \<in> set (ev_rows f)" using y by auto
  have row: "ev_rows f \<noteq> []" "y = ev_key f" using f(2) by (cases f; simp)+
  have D: "ev_key e' \<in> D" "ev_key f \<in> D" "event_ok D h' f" using good f(1) by (auto simp: good_walk_def event_ok_def)
  have "f = e' \<or> behind cmp h' e' h' f" using good f(1) by (auto simp: good_walk_def)
  then have "behind cmp h e h' f" using behind_trans [OF e(1) D(1,2) e(4)] e(4) by auto
  then show ?thesis using e(2,3) D(3) row by (auto simp: behind_def event_ok_def)
qed

text \<open>Both cursors step, from events at the same place: the one that is left stands past the other's last event.\<close>

lemma past_last:
  assumes "dcur_ok ha a" "rest a = e # ds" "good_walk cmp D hb b" "rest b = e' # es" "level_with cmp ha e hb e'"
    and b': "good_walk cmp D hb b'" "rest b' = f # fs" "f \<in> set es" and e: "ev_key e \<in> D"
  shows "compare_cursors cmp b' a = Some Greater"
proof -
  have "behind cmp hb e' hb f" "ev_key e' \<in> D" "ev_key f \<in> D" using assms(3,4,8) by (auto simp: good_walk_def event_ok_def)
  then have "behind cmp ha e hb f" using level_behind [OF e _ _ assms(5)] by blast
  then show ?thesis using behind_compare(2) [OF assms(1,2) good_walk_ok [OF b'(1)] b'(2) e] \<open>ev_key f \<in> D\<close> by blast
qed

lemma both_past:
  assumes a: "good_walk cmp D ha a" "rest a = e # es" and b: "good_walk cmp D hb b" "rest b = e' # es'" and lev: "level_with cmp ha e hb e'"
    and a': "t \<Longrightarrow> good_walk cmp D ha a'" "\<not> t \<Longrightarrow> a' = a" "suffix (left t a') es"
    and b': "u \<Longrightarrow> good_walk cmp D hb b'" "\<not> u \<Longrightarrow> b' = b" "suffix (left u b') es'"
  shows "t \<Longrightarrow> \<not> u \<Longrightarrow> compare_cursors cmp a' b' = Some Greater" "u \<Longrightarrow> \<not> t \<Longrightarrow> compare_cursors cmp b' a' = Some Greater"
proof -
  have D: "ev_key e \<in> D" "ev_key e' \<in> D" using a b by (auto simp: good_walk_def event_ok_def)
  have lev': "level_with cmp hb e' ha e" using level_sym [OF D lev] .
  show "compare_cursors cmp a' b' = Some Greater" if tu: "t" "\<not> u"
  proof -
    obtain f fs where f: "rest a' = f # fs" using rest_ne [OF good_walk_ok [OF a'(1) [OF tu(1)]]] by (cases "rest a'") auto
    moreover have "f \<in> set es" using a'(3) tu f set_mono_suffix by fastforce
    ultimately show ?thesis using past_last [OF good_walk_ok [OF b(1)] _ a lev' a'(1) [OF tu(1)]] b'(2) tu b(2) D by simp
  qed
  show "compare_cursors cmp b' a' = Some Greater" if tu: "u" "\<not> t"
  proof -
    obtain f fs where f: "rest b' = f # fs" using rest_ne [OF good_walk_ok [OF b'(1) [OF tu(1)]]] by (cases "rest b'") auto
    moreover have "f \<in> set es'" using b'(3) tu f set_mono_suffix by fastforce
    ultimately show ?thesis using past_last [OF good_walk_ok [OF a(1)] _ b lev b'(1) [OF tu(1)]] a'(2) tu a(2) D by simp
  qed
qed

subsection \<open>One turn\<close>

lemma pair_rows_ok:
  assumes "identity_sound env" "row_test_ok D eq env" "dc_key a \<in> D" "dc_key b \<in> D"
  shows "pair_rows env a b = Some (if eq (dc_key a) (dc_key b) then [] else [EditRows (dc_key a) (dc_key b)])"
  using assms by (auto simp: pair_rows_def identity_sound_def row_test_ok_def)

lemma turn_pair:
  assumes run: "dt_tok s" "dt_ook s" "diff_state_ok D ha hb env s" "de_cmp env = cmp" and env: "identity_sound env" "row_test_ok D eq env"
    and ord: "compare_cursors cmp (dt_tc s) (dt_oc s) = Some Equal" "dc_leaf (dt_tc s) \<noteq> None" "dc_leaf (dt_oc s) \<noteq> None"
  shows "turn_post D ha hb eq env s"
proof -
  have a: "good_walk cmp D ha (dt_tc s)" and b: "good_walk cmp D hb (dt_oc s)" using run by (simp_all add: diff_state_ok_def)
  from good_walk_head [OF a] obtain e es where e: "rest (dt_tc s) = e # es" "ev_key e = dc_key (dt_tc s)" "ev_rows e = [dc_key (dt_tc s)]" "ev_key e \<in> D"
    using ord(2) by (metis)
  from good_walk_head [OF b] obtain f fs where f: "rest (dt_oc s) = f # fs" "ev_key f = dc_key (dt_oc s)" "ev_rows f = [dc_key (dt_oc s)]" "ev_key f \<in> D"
    using ord(3) by (metis)
  have lev: "level_with cmp ha e hb f"
    using compare_cursors_events [OF good_walk_ok [OF a] e(1) good_walk_ok [OF b] f(1) e(4) f(4)] ord(1) by force
  obtain t a' where t: "dc_step False (dt_tc s) = Some (t, a')" "left t a' = es" "t \<Longrightarrow> good_walk cmp D ha a'" "\<not> t \<Longrightarrow> a' = dt_tc s"
    using step_left [OF a] e(1) by (metis list.sel(3))
  obtain u b' where u: "dc_step False (dt_oc s) = Some (u, b')" "left u b' = fs" "u \<Longrightarrow> good_walk cmp D hb b'" "\<not> u \<Longrightarrow> b' = dt_oc s"
    using step_left [OF b] f(1) by (metis list.sel(3))
  define es' where "es' = (if eq (dc_key (dt_tc s)) (dc_key (dt_oc s)) then [] else [EditRows (dc_key (dt_tc s)) (dc_key (dt_oc s))])"
  define s' where "s' = \<lparr> dt_tok = t, dt_ook = u, dt_prev = Less, dt_tc = a', dt_oc = b' \<rparr>"
  have s': "dt_tok s' = t" "dt_ook s' = u" "dt_prev s' = Less" "dt_tc s' = a'" "dt_oc s' = b'" by (simp_all add: s'_def)
  have "pair_rows env (dt_tc s) (dt_oc s) = Some es'" unfolding es'_def using pair_rows_ok [OF env] e f by simp
  then have "diff_turn env s = Some (es', s')" using run ord t(1) u(1) by (simp add: diff_turn_def s'_def)
  moreover have "merged eq env s = es' @ merged eq env s'"
    using lev e f run by (simp add: s' t(2) u(2) es'_def level_with_def)
  moreover have "diff_state_ok D ha hb env s'"
    using both_past [OF a e(1) b f(1) lev, where t = t and u = u and a' = a' and b' = b'] t(2-) u(2-) run(4)
    by (auto simp: diff_state_ok_def s' gate_ok_def)
  moreover have "to_go s' < to_go s" using run e f by (simp add: s' t(2) u(2))
  ultimately show ?thesis unfolding turn_post_def by blast
qed

lemma turn_skip:
  assumes run: "dt_tok s" "dt_ook s" "diff_state_ok D ha hb env s" "de_cmp env = cmp" and env: "identity_sound env" "row_test_ok D eq env"
    and ord: "compare_cursors cmp (dt_tc s) (dt_oc s) = Some Equal" "dc_leaf (dt_tc s) = None" "dc_leaf (dt_oc s) = None"
      "de_use_identity env" "same_node env (dt_tc s) (dt_oc s)"
  shows "turn_post D ha hb eq env s"
proof -
  have a: "good_walk cmp D ha (dt_tc s)" and b: "good_walk cmp D hb (dt_oc s)" using run by (simp_all add: diff_state_ok_def)
  obtain t a' d n where t: "dc_step True (dt_tc s) = Some (t, a')" "current_node (dt_tc s) = Some n" "rest (dt_tc s) = events d n @ left t a'"
    "t \<Longrightarrow> good_walk cmp D ha a'" "\<not> t \<Longrightarrow> a' = dt_tc s" "t \<Longrightarrow> dc_leaf a' = None"
    using skip_left [OF a ord(2)] by metis
  obtain u b' d' m where u: "dc_step True (dt_oc s) = Some (u, b')" "current_node (dt_oc s) = Some m" "rest (dt_oc s) = events d' m @ left u b'"
    "u \<Longrightarrow> good_walk cmp D hb b'" "\<not> u \<Longrightarrow> b' = dt_oc s" "u \<Longrightarrow> dc_leaf b' = None"
    using skip_left [OF b ord(3)] by metis
  have m: "m = n" using env(1) ord(5) t(2) u(2) unfolding identity_sound_def by auto
  have e: "rest (dt_tc s) = ENode n d # (tl (events d n) @ left t a')" using t(3) events_head [of d n] by (metis append_Cons)
  have f: "rest (dt_oc s) = ENode n d' # (tl (events d' n) @ left u b')" using u(3) events_head [of d' n] m by (metis append_Cons)
  have D: "ev_key (ENode n d) \<in> D" "ev_key (ENode n d') \<in> D" using a b e f by (auto simp: good_walk_def event_ok_def)
  have lev: "level_with cmp ha (ENode n d) hb (ENode n d')"
    using compare_cursors_events [OF good_walk_ok [OF a] e good_walk_ok [OF b] f D] ord(1) by force
  define s' where "s' = \<lparr> dt_tok = t, dt_ook = u, dt_prev = Equal, dt_tc = a', dt_oc = b' \<rparr>"
  have s': "dt_tok s' = t" "dt_ook s' = u" "dt_prev s' = Equal" "dt_tc s' = a'" "dt_oc s' = b'" by (simp_all add: s'_def)
  have "diff_turn env s = Some ([], s')" using run ord t(1) u(1) by (simp add: diff_turn_def s'_def)
  moreover have "merged eq env s = [] @ merged eq env s'"
  proof -
    have "w \<in> D" if w: "w \<in> set (vals (events d n))" for w
    proof -
      obtain g where g: "g \<in> set (events d n)" "w \<in> set (ev_rows g)" using w by auto
      have "w = ev_key g" using g(2) by (cases g) auto
      then show ?thesis using a g(1) t(3) by (auto simp: good_walk_def event_ok_def)
    qed
    then have "diff_rows cmp eq (rev (inorder n) @ xs) (rev (inorder n) @ ys) = diff_rows cmp eq xs ys" for xs ys
      using env(2) cmp_refl by (intro diff_rows_same) (auto simp: vals_events row_test_ok_def)
    moreover have "vals (rest (dt_tc s)) = rev (inorder n) @ vals (left t a')" "vals (rest (dt_oc s)) = rev (inorder n) @ vals (left u b')"
      using vals_events [of d n] vals_events [of d' n] t(3) u(3) m by simp_all
    ultimately show ?thesis using run by (simp add: s')
  qed
  moreover have "diff_state_ok D ha hb env s'"
    using both_past [OF a e b f lev, where t = t and u = u and a' = a' and b' = b'] t(4-) u(4-) run(4)
    by (auto simp: diff_state_ok_def s' gate_ok_def report_def suffix_appendI split: ordering.splits)
  moreover have "to_go s' < to_go s" using run e f by (simp add: s')
  ultimately show ?thesis unfolding turn_post_def by blast
qed

lemma turn_less:
  assumes run: "dt_tok s" "dt_ook s" "diff_state_ok D ha hb env s" "de_cmp env = cmp"
    and ord: "compare_cursors cmp (dt_tc s) (dt_oc s) = Some Less"
  shows "turn_post D ha hb eq env s"
proof -
  have a: "good_walk cmp D ha (dt_tc s)" and b: "good_walk cmp D hb (dt_oc s)" and gate: "gate_ok env s" using run by (simp_all add: diff_state_ok_def)
  from good_walk_head [OF a] obtain e es where e: "rest (dt_tc s) = e # es" "ev_key e = dc_key (dt_tc s)"
    "ev_rows e = (if dc_leaf (dt_tc s) = None then [] else [dc_key (dt_tc s)])" "ev_key e \<in> D" "event_ok D ha e" by metis
  from good_walk_head [OF b] obtain f fs where f: "rest (dt_oc s) = f # fs" "ev_key f \<in> D" by metis
  have bh: "behind cmp ha e hb f"
    using compare_cursors_events [OF good_walk_ok [OF a] e(1) good_walk_ok [OF b] f(1) e(4) f(2)] ord by force
  obtain t a' where t: "dc_step False (dt_tc s) = Some (t, a')" "left t a' = es" "t \<Longrightarrow> good_walk cmp D ha a'" "\<not> t \<Longrightarrow> a' = dt_tc s"
    using step_left [OF a] e(1) by (metis list.sel(3))
  define s' where "s' = s \<lparr> dt_tok := t, dt_prev := Less, dt_tc := a' \<rparr>"
  have s': "dt_tok s' = t" "dt_ook s' = True" "dt_prev s' = Less" "dt_tc s' = a'" "dt_oc s' = dt_oc s" using run by (simp_all add: s'_def)
  have rep: "report (dt_prev s) Less (dt_tc s) (dt_oc s) = map OnlyThis (ev_rows e)"
    using report_gate [OF gate] run(4) ord e(3) by (simp add: report_def)
  then have "diff_turn env s = Some (map OnlyThis (ev_rows e), s')" using run ord t(1) by (simp add: diff_turn_def s'_def)
  moreover have "merged eq env s = map OnlyThis (ev_rows e) @ merged eq env s'"
  proof (cases "ev_rows e = []")
    case True
    then show ?thesis using run e(1) by (simp add: s' t(2))
  next
    case False
    have "diff_rows cmp eq (ev_key e # vals es) (vals (rest (dt_oc s))) = OnlyThis (ev_key e) # diff_rows cmp eq (vals es) (vals (rest (dt_oc s)))"
      by (rule diff_rows_this) (rule row_behind [OF b f(1) e(4,5) False bh])
    then show ?thesis using run e(1) event_row [OF False] by (simp add: s' t(2))
  qed
  moreover have "diff_state_ok D ha hb env s'"
    using behind_compare(2) [OF good_walk_ok [OF a] e(1) good_walk_ok [OF b] f(1) e(4) f(2) bh] t(3,4) b run(4) by (auto simp: diff_state_ok_def s' gate_ok_def)
  moreover have "to_go s' < to_go s" using run e by (simp add: s' t(2))
  ultimately show ?thesis unfolding turn_post_def by blast
qed

lemma turn_greater:
  assumes run: "dt_tok s" "dt_ook s" "diff_state_ok D ha hb env s" "de_cmp env = cmp"
    and ord: "compare_cursors cmp (dt_tc s) (dt_oc s) = Some Greater"
  shows "turn_post D ha hb eq env s"
proof -
  have a: "good_walk cmp D ha (dt_tc s)" and b: "good_walk cmp D hb (dt_oc s)" and gate: "gate_ok env s" using run by (simp_all add: diff_state_ok_def)
  from good_walk_head [OF a] obtain e es where e: "rest (dt_tc s) = e # es" "ev_key e \<in> D" by metis
  from good_walk_head [OF b] obtain f fs where f: "rest (dt_oc s) = f # fs" "ev_key f = dc_key (dt_oc s)"
    "ev_rows f = (if dc_leaf (dt_oc s) = None then [] else [dc_key (dt_oc s)])" "ev_key f \<in> D" "event_ok D hb f" by metis
  have bh: "behind cmp hb f ha e"
    using compare_cursors_events [OF good_walk_ok [OF a] e(1) good_walk_ok [OF b] f(1) e(2) f(4)] ord by force
  obtain u b' where u: "dc_step False (dt_oc s) = Some (u, b')" "left u b' = fs" "u \<Longrightarrow> good_walk cmp D hb b'" "\<not> u \<Longrightarrow> b' = dt_oc s"
    using step_left [OF b] f(1) by (metis list.sel(3))
  define s' where "s' = s \<lparr> dt_ook := u, dt_prev := Greater, dt_oc := b' \<rparr>"
  have s': "dt_tok s' = True" "dt_ook s' = u" "dt_prev s' = Greater" "dt_tc s' = dt_tc s" "dt_oc s' = b'" using run by (simp_all add: s'_def)
  have rep: "report (dt_prev s) Greater (dt_tc s) (dt_oc s) = map OnlyOther (ev_rows f)"
    using report_gate [OF gate] run(4) ord f(3) by (simp add: report_def)
  then have "diff_turn env s = Some (map OnlyOther (ev_rows f), s')" using run ord u(1) by (simp add: diff_turn_def s'_def)
  moreover have "merged eq env s = map OnlyOther (ev_rows f) @ merged eq env s'"
  proof (cases "ev_rows f = []")
    case True
    then show ?thesis using run f(1) by (simp add: s' u(2))
  next
    case False
    have "cmp (ev_key f) x = Some Greater" if x: "x \<in> set (vals (rest (dt_tc s)))" for x
    proof -
      obtain g where g: "g \<in> set (rest (dt_tc s))" "x \<in> set (ev_rows g)" using x by auto
      have "x = ev_key g" using g(2) by (cases g) auto
      then have "x \<in> D" using a g(1) by (auto simp: good_walk_def event_ok_def)
      then show ?thesis using row_behind [OF a e(1) f(4,5) False bh x] cmp_gt_iff f(4) by simp
    qed
    then have "diff_rows cmp eq (vals (rest (dt_tc s))) (ev_key f # vals fs) = OnlyOther (ev_key f) # diff_rows cmp eq (vals (rest (dt_tc s))) (vals fs)"
      by (rule diff_rows_other)
    then show ?thesis using run f(1) event_row [OF False] by (simp add: s' u(2))
  qed
  moreover have "diff_state_ok D ha hb env s'"
    using behind_compare(2) [OF good_walk_ok [OF b] f(1) good_walk_ok [OF a] e(1) f(4) e(2) bh] u(3,4) a run(4) by (auto simp: diff_state_ok_def s' gate_ok_def)
  moreover have "to_go s' < to_go s" using run f by (simp add: s' u(2))
  ultimately show ?thesis unfolding turn_post_def by blast
qed

text \<open>Two nodes at the same place that are not one allocation: the other cursor goes down, and this one follows on the next turn.\<close>

lemma turn_down:
  assumes run: "dt_tok s" "dt_ook s" "diff_state_ok D ha hb env s" "de_cmp env = cmp"
    and ord: "compare_cursors cmp (dt_tc s) (dt_oc s) = Some Equal" "dc_leaf (dt_tc s) = None" "dc_leaf (dt_oc s) = None"
      "\<not> (de_use_identity env \<and> same_node env (dt_tc s) (dt_oc s))"
  shows "turn_post D ha hb eq env s"
proof -
  have a: "good_walk cmp D ha (dt_tc s)" and b: "good_walk cmp D hb (dt_oc s)" using run by (simp_all add: diff_state_ok_def)
  from good_walk_head [OF a] obtain e es where e: "rest (dt_tc s) = e # es" "ev_key e \<in> D" by metis
  from good_walk_head [OF b] obtain f fs where f: "rest (dt_oc s) = f # fs" "ev_rows f = []" "ev_key f \<in> D"
    "\<And>g. g \<in> set fs \<Longrightarrow> behind cmp hb f hb g" "\<And>g. g \<in> set fs \<Longrightarrow> ev_key g \<in> D" using ord(3) by metis
  have lev: "level_with cmp ha e hb f"
    using compare_cursors_events [OF good_walk_ok [OF a] e(1) good_walk_ok [OF b] f(1) e(2) f(3)] ord by force
  obtain b' where u: "dc_step False (dt_oc s) = Some (True, b')" "rest b' = fs" "good_walk cmp D hb b'"
    using step_left [OF b] f(1) ord(3) by (metis list.sel(3) left_simps(1))
  obtain g gs where g: "fs = g # gs" using rest_ne [OF good_walk_ok [OF u(3)]] u(2) by (cases fs) auto
  have "behind cmp ha e hb g" using level_behind [OF e(2) f(3) f(5) lev f(4)] g by simp
  then have less: "compare_cursors cmp (dt_tc s) b' = Some Less"
    using behind_compare(1) [OF good_walk_ok [OF a] e(1) good_walk_ok [OF u(3)] _ e(2) f(5)] u(2) g by simp
  define s' where "s' = s \<lparr> dt_ook := True, dt_prev := Equal, dt_oc := b' \<rparr>"
  have s': "dt_tok s' = True" "dt_ook s' = True" "dt_prev s' = Equal" "dt_tc s' = dt_tc s" "dt_oc s' = b'" using run by (simp_all add: s'_def)
  have "diff_turn env s = Some ([], s')" using run ord u(1) by (auto simp: diff_turn_def s'_def report_def Let_def)
  moreover have "merged eq env s = [] @ merged eq env s'" using run f(1,2) by (simp add: s' u(2))
  moreover have "diff_state_ok D ha hb env s'" using less a u(3) run(4) ord(2) by (simp add: diff_state_ok_def s' gate_ok_def report_def)
  moreover have "to_go s' < to_go s" using run f by (simp add: s' u(2))
  ultimately show ?thesis unfolding turn_post_def by blast
qed

lemma level_rows:
  assumes "good_walk cmp D ha a" "good_walk cmp D hb b" "compare_cursors cmp a b = Some Equal"
  shows "dc_leaf a = None \<longleftrightarrow> dc_leaf b = None"
proof -
  from good_walk_head [OF assms(1)] obtain e es where e: "rest a = e # es" "ev_rows e = (if dc_leaf a = None then [] else [dc_key a])" "ev_key e \<in> D" "event_ok D ha e" by metis
  from good_walk_head [OF assms(2)] obtain f fs where f: "rest b = f # fs" "ev_rows f = (if dc_leaf b = None then [] else [dc_key b])" "ev_key f \<in> D" "event_ok D hb f" by metis
  have "level_with cmp ha e hb f"
    using compare_cursors_events [OF good_walk_ok [OF assms(1)] e(1) good_walk_ok [OF assms(2)] f(1) e(3) f(3)] assms(3) by force
  then show ?thesis using e f by (auto simp: level_with_def event_ok_def split: if_splits)
qed

lemma turn_ok:
  assumes run: "dt_tok s" "dt_ook s" "diff_state_ok D ha hb env s" "de_cmp env = cmp" and env: "identity_sound env" "row_test_ok D eq env"
  shows "turn_post D ha hb eq env s"
proof -
  have a: "good_walk cmp D ha (dt_tc s)" and b: "good_walk cmp D hb (dt_oc s)" using run by (simp_all add: diff_state_ok_def)
  from good_walk_head [OF a] obtain e es where e: "rest (dt_tc s) = e # es" "ev_key e \<in> D" by metis
  from good_walk_head [OF b] obtain f fs where f: "rest (dt_oc s) = f # fs" "ev_key f \<in> D" by metis
  show ?thesis
  proof (cases rule: compare_cursors_events [OF good_walk_ok [OF a] e(1) good_walk_ok [OF b] f(1) e(2) f(2)])
    case 2
    then show ?thesis using level_rows [OF a b] turn_pair [OF run env] turn_skip [OF run env] turn_down [OF run] by blast
  qed (use turn_less [OF run] turn_greater [OF run] in auto)
qed

lemma diff_loop_merged:
  "diff_state_ok D ha hb env s \<Longrightarrow> de_cmp env = cmp \<Longrightarrow> identity_sound env \<Longrightarrow> row_test_ok D eq env \<Longrightarrow> diff_loop env s = Some (merged eq env s)"
proof (induction "to_go s" arbitrary: s rule: less_induct)
  case less
  show ?case
  proof (cases "dt_tok s \<and> dt_ook s")
    case True
    then obtain es s' where s': "diff_turn env s = Some (es, s')" "merged eq env s = es @ merged eq env s'" "diff_state_ok D ha hb env s'" "to_go s' < to_go s"
      using turn_ok [of s ha hb env eq] less.prems unfolding turn_post_def by blast
    have "diff_loop env s' = Some (merged eq env s')" using less.hyps [OF s'(4,3)] less.prems by blast
    then show ?thesis using True s'(2) by (subst diff_loop.simps) (simp add: s'(1))
  next
    case False
    then show ?thesis using finish_merged [OF less.prems(1)] by (subst diff_loop.simps) auto
  qed
qed

lemma diff_cursor_new_ok:
  assumes "btree_ok cmp t" "set (contents t) \<subseteq> D" "tsize t \<noteq> 0"
  obtains h c where "diff_cursor_new t = Some c" "good_walk cmp D h c" "vals (rest c) = rev (contents t)" "dc_leaf c = None"
proof -
  obtain h where h: "node_ok h (root t)" "sorted_by cmp (contents t)"
    using assms by (auto simp: btree_ok_def root_ok_def contents_def)
  define c where "c = \<lparr> dc_height = height (root t), dc_spine = [[root t]], dc_indices = [0], dc_leaf = None, dc_key = max_of (root t) \<rparr>"
  have new: "diff_cursor_new t = Some c" using h by (simp add: diff_cursor_new_def c_def)
  have rest: "rest c = events 1 (root t)" by (simp add: rest_def here_def top_node_def c_def)
  have "dcur_ok h c" using h node_ok_height [OF h(1)] by (simp add: dcur_ok_def c_def top_node_def)
  then have "good_walk cmp D h c"
    using events_sorted [OF h(1)] events_ok [OF h(1)] h(2) assms(2) by (simp add: good_walk_def rest contents_def)
  moreover have "vals (rest c) = rev (contents t)" unfolding rest contents_def by (rule vals_events)
  moreover have "dc_leaf c = None" by (simp add: c_def)
  ultimately show thesis using that new by blast
qed

text \<open>The diff of two sound trees.\<close>

lemma diff_visit_merged:
  assumes "btree_ok cmp this" "set (contents this) \<subseteq> D" "btree_ok cmp other" "set (contents other) \<subseteq> D"
    and env: "de_cmp env = cmp" "identity_sound env" "row_test_ok D eq env"
  shows "diff_visit env this other = Some (diff_rows cmp eq (rev (contents this)) (rev (contents other)))"
proof -
  have size: "tsize this = length (contents this)" "tsize other = length (contents other)" using assms by (auto simp: btree_ok_def contents_def)
  show ?thesis
  proof (cases "tsize this = 0 \<or> tsize other = 0")
    case True
    show ?thesis
    proof (cases "tsize this = 0")
      case this0: True
      show ?thesis
      proof (cases "tsize other = 0")
        case False
        with diff_cursor_new_ok [OF assms(3,4)] show ?thesis using this0 size by (metis (no_types, lifting) bind.bind_lunit diff_rows.simps(1) diff_visit_def length_0_conv option.map(2) rev.simps(1) step_to_end_rest)
      qed (use this0 size in \<open>simp add: diff_visit_def\<close>)
    next
      case False
      with True size diff_cursor_new_ok [OF assms(1,2)] show ?thesis by (metis (no_types, lifting) bind.bind_lunit diff_rows_Nil diff_visit_def length_0_conv option.map(2) rev.simps(1) step_to_end_rest)
    qed
  next
    case False
    obtain ha tc where a: "diff_cursor_new this = Some tc" "good_walk cmp D ha tc" "vals (rest tc) = rev (contents this)" "dc_leaf tc = None"
      using diff_cursor_new_ok [OF assms(1,2)] False by metis
    obtain hb oc where b: "diff_cursor_new other = Some oc" "good_walk cmp D hb oc" "vals (rest oc) = rev (contents other)" "dc_leaf oc = None"
      using diff_cursor_new_ok [OF assms(3,4)] False by metis
    from good_walk_head [OF a(2)] obtain e es where e: "rest tc = e # es" "ev_key e \<in> D" by metis
    from good_walk_head [OF b(2)] obtain f fs where f: "rest oc = f # fs" "ev_key f \<in> D" by metis
    obtain prev where prev: "compare_cursors cmp tc oc = Some prev"
      using compare_cursors_events [OF good_walk_ok [OF a(2)] e(1) good_walk_ok [OF b(2)] f(1) e(2) f(2)] by metis
    define s where "s = \<lparr> dt_tok = True, dt_ook = True, dt_prev = prev, dt_tc = tc, dt_oc = oc \<rparr>"
    have "diff_state_ok D ha hb env s" using a b env(1) by (simp add: diff_state_ok_def s_def gate_ok_def report_def split: ordering.splits)
    from diff_loop_merged [OF this env] have "diff_loop env s = Some (merged eq env s)" .
    then show ?thesis using False a b env(1) prev by (simp add: diff_visit_def s_def)
  qed
qed

end

end
