(* ===== verification/Tree_Diff_Rows.thy ===== *)
theory Tree_Diff_Rows
  imports Tree_Diff_Correct Source_State
begin

text \<open>
  The structural diff of row indexes and what replaying it does: the changes it collects, applied in order to the first index, give
  the rows of the second one, up to the full-row comparison that decides what an edit is.
\<close>

section \<open>Replaying a merge\<close>

fun replay_event :: "('a \<Rightarrow> 'a \<Rightarrow> ordering option) \<Rightarrow> 'a diff_event \<Rightarrow> 'a list \<Rightarrow> 'a list" where
  "replay_event cmp (OnlyThis x) xs = del_by cmp x xs"
| "replay_event cmp (OnlyOther y) xs = ins_by cmp y xs"
| "replay_event cmp (EditRows x y) xs = ins_by cmp y (del_by cmp x xs)"

text \<open>What an event supposes of the rows it is replayed on.\<close>

fun event_fits :: "('a \<Rightarrow> 'a \<Rightarrow> ordering option) \<Rightarrow> 'a set \<Rightarrow> 'a diff_event \<Rightarrow> bool" where
  "event_fits cmp R (OnlyThis x) \<longleftrightarrow> x \<in> R"
| "event_fits cmp R (OnlyOther y) \<longleftrightarrow> (\<forall>z\<in>R. cmp z y \<noteq> Some Equal)"
| "event_fits cmp R (EditRows x y) \<longleftrightarrow> x \<in> R \<and> (\<forall>z\<in>R - {x}. cmp z y \<noteq> Some Equal)"

fun events_fit :: "('a \<Rightarrow> 'a \<Rightarrow> ordering option) \<Rightarrow> 'a list \<Rightarrow> 'a diff_event list \<Rightarrow> bool" where
  "events_fit cmp xs [] \<longleftrightarrow> True"
| "events_fit cmp xs (e # es) \<longleftrightarrow> event_fits cmp (set xs) e \<and> events_fit cmp (replay_event cmp e xs) es"

text \<open>The rows after the replay, in descending order: a row both sides hold with equal cells is kept.\<close>

fun patched :: "('a \<Rightarrow> 'a \<Rightarrow> ordering option) \<Rightarrow> ('a \<Rightarrow> 'a \<Rightarrow> bool) \<Rightarrow> 'a list \<Rightarrow> 'a list \<Rightarrow> 'a list" where
  "patched cmp eq [] ys = ys"
| "patched cmp eq (x # xs) [] = []"
| "patched cmp eq (x # xs) (y # ys) = (case cmp y x of
      Some Less \<Rightarrow> patched cmp eq xs (y # ys)
    | Some Greater \<Rightarrow> y # patched cmp eq (x # xs) ys
    | _ \<Rightarrow> (if eq x y then x else y) # patched cmp eq xs ys)"

lemma patched_Nil [simp]: "patched cmp eq xs [] = []"
  by (cases xs) simp_all

lemma patched_eq: "(\<And>y. y \<in> set ys \<Longrightarrow> eq y y) \<Longrightarrow> list_all2 eq (patched cmp eq xs ys) ys"
  by (induction cmp eq xs ys rule: patched.induct) (auto simp: list.rel_refl_strong split: option.split ordering.split)

context comparator_on
begin

text \<open>The state of a replay: what is not reached yet, and after it what is done.\<close>

definition replaying :: "'a list \<Rightarrow> 'a list \<Rightarrow> bool" where
  "replaying xs zs \<longleftrightarrow> sorted_by cmp (rev xs @ zs) \<and> set (xs @ zs) \<subseteq> D"

lemma replaying_sides:
  assumes "replaying (x # xs) zs"
  shows "less_all cmp x (rev xs)" "greater_all cmp x zs" "cmp x x = Some Equal" "replaying xs (x # zs)" "replaying xs zs"
  using assms cmp_refl [of x] cmp_gt_iff [of _ x] by (auto simp: replaying_def less_all_def greater_all_def sorted_by_append)

lemma replay_remove: "replaying (x # xs) zs \<Longrightarrow> del_by cmp x (rev (x # xs) @ zs) = rev xs @ zs"
  using splice_hit(2) [OF replaying_sides(1-3)] by simp

lemma replaying_cong:
  assumes "replaying (x # xs) zs" "y \<in> D" "cmp y x = Some Equal"
  shows "less_all cmp y (rev xs)" "greater_all cmp y zs" "replaying xs (y # zs)"
proof -
  have D: "x \<in> D" "set xs \<subseteq> D" "set zs \<subseteq> D" and s: "sorted_by cmp (rev xs @ x # zs)" using assms(1) by (auto simp: replaying_def)
  have l: "cmp a y = Some Less" if "a \<in> set xs" for a
    using that s D cmp_eq_cong_right [OF assms(2) D(1) _ assms(3), of a] by (auto simp: sorted_by_append)
  have g: "cmp y a = Some Less" if "a \<in> set zs" for a
    using that s D cmp_eq_cong [OF assms(2) D(1) _ assms(3), of a] by (auto simp: sorted_by_append)
  show "less_all cmp y (rev xs)" using l by (simp add: less_all_def)
  show "greater_all cmp y zs" using g D(3) cmp_gt_iff [OF _ assms(2)] by (auto simp: greater_all_def)
  show "replaying xs (y # zs)" using l g s D assms(2) by (auto simp: replaying_def sorted_by_append)
qed

lemma replaying_insert:
  assumes "replaying xs zs" "replaying (y # ys) zs" "\<And>x. x \<in> set xs \<Longrightarrow> cmp x y = Some Less"
  shows "less_all cmp y (rev xs)" "greater_all cmp y zs" "replaying xs (y # zs)"
  using assms replaying_sides(2) [OF assms(2)] by (auto simp: replaying_def less_all_def sorted_by_append)

lemma sides_not_equal: "less_all cmp y xs \<Longrightarrow> greater_all cmp y zs \<Longrightarrow> z \<in> set xs \<union> set zs \<Longrightarrow> cmp z y \<noteq> Some Equal"
  by (auto simp: less_all_def greater_all_def)

lemma replay_diff_rows:
  assumes "replaying xs zs" "replaying ys zs"
  shows "fold (replay_event cmp) (diff_rows cmp eq xs ys) (rev xs @ zs) = rev (patched cmp eq xs ys) @ zs \<and>
    events_fit cmp (rev xs @ zs) (diff_rows cmp eq xs ys)"
  using assms
proof (induction "length xs + length ys" arbitrary: xs ys zs rule: less_induct)
  case less
  let ?ok = "\<lambda>xs ys zs. fold (replay_event cmp) (diff_rows cmp eq xs ys) (rev xs @ zs) = rev (patched cmp eq xs ys) @ zs \<and>
    events_fit cmp (rev xs @ zs) (diff_rows cmp eq xs ys)"
  show ?case
  proof (cases xs)
    case Nil
    show ?thesis
    proof (cases ys)
      case (Cons y ys')
      note r = less.prems(2) [unfolded Cons]
      have "ins_by cmp y zs = y # zs" using splice_miss(1) [of cmp y "[]" zs] replaying_sides(2) [OF r] by (simp add: less_all_def)
      moreover have "?ok [] ys' (y # zs)"
        using less.hyps [of "[]" ys' "y # zs"] replaying_sides(4) [OF r] Nil Cons by (simp add: replaying_def sorted_by_append)
      ultimately show ?thesis using Nil Cons sides_not_equal [OF _ replaying_sides(2) [OF r], of "[]"] by (auto simp: less_all_def)
    qed (use Nil in simp)
  next
    case xs: (Cons x xs')
    note rx = less.prems(1) [unfolded xs]
    show ?thesis
    proof (cases ys)
      case Nil
      have "?ok xs' [] zs" using less.hyps [of xs' "[]" zs] replaying_sides(5) [OF rx] less.prems(2) Nil xs by simp
      then show ?thesis using replay_remove [OF rx] by (simp add: Nil xs)
    next
      case ys: (Cons y ys')
      note ry = less.prems(2) [unfolded ys]
      have D: "x \<in> D" "y \<in> D" using rx ry by (auto simp: replaying_def)
      from D(2,1) show ?thesis
      proof (cases rule: cmp_cases)
        case Less
        have "?ok xs' ys zs" using less.hyps [of xs' ys zs] replaying_sides(5) [OF rx] less.prems(2) xs by simp
        then show ?thesis using replay_remove [OF rx] Less(1) by (simp add: xs ys)
      next
        case Greater
        have lt: "cmp a y = Some Less" if "a \<in> set xs" for a
          using that Greater(2) rx D cmp_less_trans [of a x y] by (auto simp: xs replaying_def sorted_by_append)
        note i = replaying_insert [OF less.prems(1) ry lt]
        have "?ok xs ys' (y # zs)" using less.hyps [of xs ys' "y # zs"] i(3) replaying_sides(4) [OF ry] ys by simp
        then show ?thesis using splice_miss(1) [OF i(1,2)] sides_not_equal [OF i(1,2)] Greater(1) by (auto simp: xs ys)
      next
        case Equal
        note c = replaying_cong [OF rx D(2) Equal(1)]
        have ok: "replaying xs' (z # zs)" "replaying ys' (z # zs)" if "z = x \<or> z = y" for z
          using that replaying_sides(4) [OF rx] replaying_sides(4) [OF ry] c(3) replaying_cong(3) [OF ry D(1) Equal(2)] by auto
        have IH: "?ok xs' ys' (z # zs)" if "z = x \<or> z = y" for z using less.hyps [of xs' ys' "z # zs"] ok [OF that] xs ys by simp
        have "replay_event cmp (EditRows x y) (rev (x # xs') @ zs) = rev xs' @ y # zs"
          using replay_remove [OF rx] splice_miss(1) [OF c(1,2)] by simp
        then show ?thesis using IH [of x] IH [of y] Equal(1) sides_not_equal [OF c(1,2)] by (auto simp: xs ys)
      qed
    qed
  qed
qed

end

section \<open>Full rows\<close>

definition row_eq :: "row \<Rightarrow> row \<Rightarrow> bool" where
  "row_eq a b \<longleftrightarrow> full_row_equal a b = Some True"

lemma full_row_equal_loop_typed:
  assumes "length a = length b" "\<forall>c<length a. conforms (ty c) (a ! c)" "\<forall>c<length a. conforms (ty c) (b ! c)"
  shows "full_row_equal_loop a b \<noteq> None \<and> full_row_equal_loop a a = Some True"
  using assms
proof (induction a b arbitrary: ty rule: list_induct2)
  case (Cons x xs y ys)
  have k: "conforms (ty 0) x" "conforms (ty 0) y" using Cons.prems by auto
  have "\<forall>c<length xs. conforms ((ty \<circ> Suc) c) (xs ! c)" "\<forall>c<length xs. conforms ((ty \<circ> Suc) c) (ys ! c)" using Cons.prems by auto
  note IH = Cons.IH [OF this]
  have "compare_values x y \<noteq> None" "compare_values x x = Some Equal" using k cell_order.cmp_total [of x "ty 0" y] cell_order.cmp_refl [of x "ty 0"] by auto
  then show ?case using IH by auto
qed simp

lemma full_row_equal_typed:
  assumes "typed_row ty n a" "typed_row ty n b"
  shows "full_row_equal a b = Some (row_eq a b)" "row_eq a a"
proof -
  have t: "length a = length b" "\<forall>c<length a. conforms (ty c) (a ! c)" "\<forall>c<length a. conforms (ty c) (b ! c)"
    using assms by (auto simp: typed_row_def)
  show "full_row_equal a b = Some (row_eq a b)" using full_row_equal_loop_typed [OF t] t(1) by (auto simp: row_eq_def full_row_equal_def)
  show "row_eq a a" using full_row_equal_loop_typed [OF t] by (simp add: row_eq_def full_row_equal_def)
qed

section \<open>Row indexes\<close>

definition typed_index :: "(col_id \<Rightarrow> kind) \<Rightarrow> nat \<Rightarrow> sort \<Rightarrow> row btree \<Rightarrow> bool" where
  "typed_index ty n srt t \<longleftrightarrow> sort_cols n srt \<and> btree_ok (compare_rows srt) t \<and> (\<forall>r\<in>set (contents t). typed_row ty n r)"

text \<open>What the two pointer comparisons promise: one allocation is one value.\<close>

definition pointers_sound :: "(row diff_cursor \<Rightarrow> row diff_cursor \<Rightarrow> bool) \<Rightarrow> (row diff_cursor \<Rightarrow> row diff_cursor \<Rightarrow> bool) \<Rightarrow> bool" where
  "pointers_sound nodes rows \<longleftrightarrow> (\<forall>a b. (nodes a b \<longrightarrow> current_node a = current_node b) \<and> (rows a b \<longrightarrow> dc_key a = dc_key b))"

lemma typed_index_D:
  assumes "typed_index ty n srt t"
  shows "sort_cols n srt" "btree_ok (compare_rows srt) t" "set (contents t) \<subseteq> {r. typed_row ty n r}" "index_ok ty srt t"
    "comparator_on {r. typed_row ty n r} (compare_rows srt)" "sorted_by (compare_rows srt) (contents t)"
  using assms typed_row_ok typed_rows_comparator by (auto simp: typed_index_def index_ok_def btree_ok_def)

definition merge_changes :: "sort \<Rightarrow> row list \<Rightarrow> row list \<Rightarrow> source_change list" where
  "merge_changes srt xs ys = map collect_change (diff_rows (compare_rows srt) row_eq (rev xs) (rev ys))"

lemma diff_visit_typed:
  assumes "typed_index ty n srt this" "typed_index ty n srt other" "pointers_sound nodes rows"
  shows "diff_visit (diff_env_for debug use_identity srt nodes rows) this other =
    Some (diff_rows (compare_rows srt) row_eq (rev (contents this)) (rev (contents other)))"
proof -
  note a = typed_index_D [OF assms(1)] and b = typed_index_D [OF assms(2)]
  have "identity_sound (diff_env_for debug use_identity srt nodes rows)" using assms(3) by (simp add: identity_sound_def pointers_sound_def diff_env_for_def)
  moreover have "row_test_ok {r. typed_row ty n r} row_eq (diff_env_for debug use_identity srt nodes rows)"
    using full_row_equal_typed by (auto simp: row_test_ok_def diff_env_for_def)
  moreover have "de_cmp (diff_env_for debug use_identity srt nodes rows) = compare_rows srt" by (simp add: diff_env_for_def)
  ultimately show ?thesis using comparator_on.diff_visit_merged [OF a(5) a(2,3) b(2,3)] by blast
qed

lemma structural_diff_changes:
  "typed_index ty n srt this \<Longrightarrow> typed_index ty n srt other \<Longrightarrow> pointers_sound nodes rows \<Longrightarrow>
    structural_diff debug nodes rows this other srt = Some (merge_changes srt (contents this) (contents other))"
  by (simp add: structural_diff_def diff_visit_typed merge_changes_def)

text \<open>Applying changes to a tree.\<close>

fun replay_change :: "sort \<Rightarrow> source_change \<Rightarrow> row list \<Rightarrow> row list" where
  "replay_change srt (AddRow r) xs = ins_by (compare_rows srt) r xs"
| "replay_change srt (RemoveRow r) xs = del_by (compare_rows srt) r xs"
| "replay_change srt (EditRow r old) xs = ins_by (compare_rows srt) r (del_by (compare_rows srt) old xs)"

fun apply_changes_to_tree :: "row btree \<Rightarrow> source_change list \<Rightarrow> sort \<Rightarrow> row btree option" where
  "apply_changes_to_tree t [] srt = Some t"
| "apply_changes_to_tree t (c # cs) srt = do { t' \<leftarrow> apply_source_change_to_tree t c srt; apply_changes_to_tree t' cs srt }"

lemma replay_collect: "replay_change srt (collect_change e) = replay_event (compare_rows srt) e"
  by (cases e) (auto simp: fun_eq_iff)

lemma typed_index_add_del:
  assumes "typed_index ty n srt t" "typed_row ty n r"
  shows "\<exists>t' b. btree_add (compare_rows srt) t r = Some (t', b) \<and> typed_index ty n srt t' \<and> contents t' = ins_by (compare_rows srt) r (contents t)"
    "\<exists>t' b. btree_delete (compare_rows srt) t r = Some (t', b) \<and> typed_index ty n srt t' \<and> contents t' = del_by (compare_rows srt) r (contents t)"
proof -
  note a = typed_index_D [OF assms(1)]
  have all: "\<forall>r\<in>set (contents t). typed_row ty n r" using assms(1) by (simp add: typed_index_def)
  have D: "r \<in> {r. row_ok ty srt r}" using typed_row_ok [OF assms(2) a(1)] by simp
  show "\<exists>t' b. btree_add (compare_rows srt) t r = Some (t', b) \<and> typed_index ty n srt t' \<and> contents t' = ins_by (compare_rows srt) r (contents t)"
    using tree_set.add_ok [OF a(4) D] set_ins_del_conform(1) [OF all assms(2)] a(1) by (auto simp: typed_index_def index_ok_def)
  show "\<exists>t' b. btree_delete (compare_rows srt) t r = Some (t', b) \<and> typed_index ty n srt t' \<and> contents t' = del_by (compare_rows srt) r (contents t)"
    using tree_set.del_ok [OF a(4) D] set_ins_del_conform(2) [OF all] a(1) by (auto simp: typed_index_def index_ok_def)
qed

lemma apply_source_change_ok:
  assumes "typed_index ty n srt t" "\<forall>r\<in>set (change_rows c). typed_row ty n r"
  shows "\<exists>t'. apply_source_change_to_tree t c srt = Some t' \<and> typed_index ty n srt t' \<and> contents t' = replay_change srt c (contents t)"
proof (cases c)
  case (AddRow r)
  then show ?thesis using typed_index_add_del(1) [OF assms(1), of r] assms(2) by (auto simp: apply_source_change_to_tree_def)
next
  case (RemoveRow r)
  then show ?thesis using typed_index_add_del(2) [OF assms(1), of r] assms(2) by (auto simp: apply_source_change_to_tree_def)
next
  case (EditRow r old)
  then obtain t1 b where t1: "btree_delete (compare_rows srt) t old = Some (t1, b)" "typed_index ty n srt t1" "contents t1 = del_by (compare_rows srt) old (contents t)"
    using typed_index_add_del(2) [OF assms(1), of old] assms(2) by auto
  then show ?thesis using typed_index_add_del(1) [OF t1(2), of r] assms(2) EditRow by (auto simp: apply_source_change_to_tree_def)
qed

lemma apply_changes_ok:
  "typed_index ty n srt t \<Longrightarrow> \<forall>c\<in>set cs. \<forall>r\<in>set (change_rows c). typed_row ty n r \<Longrightarrow>
   \<exists>t'. apply_changes_to_tree t cs srt = Some t' \<and> typed_index ty n srt t' \<and> contents t' = fold (replay_change srt) cs (contents t)"
proof (induction cs arbitrary: t)
  case (Cons c cs)
  obtain t1 where "apply_source_change_to_tree t c srt = Some t1" "typed_index ty n srt t1" "contents t1 = replay_change srt c (contents t)"
    using apply_source_change_ok [OF Cons.prems(1), of c] Cons.prems(2) by auto
  then show ?case using Cons.IH [of t1] Cons.prems(2) by auto
qed simp

lemma diff_rows_from: "e \<in> set (diff_rows cmp eq xs ys) \<Longrightarrow> (case e of OnlyThis x \<Rightarrow> x \<in> set xs | OnlyOther y \<Rightarrow> y \<in> set ys | EditRows x y \<Rightarrow> x \<in> set xs \<and> y \<in> set ys)"
  by (induction cmp eq xs ys rule: diff_rows.induct) (force split: option.splits ordering.splits if_splits diff_event.splits)+

lemma merge_changes_typed:
  assumes "\<forall>r\<in>set xs. typed_row ty n r" "\<forall>r\<in>set ys. typed_row ty n r" "c \<in> set (merge_changes srt xs ys)" "r \<in> set (change_rows c)"
  shows "typed_row ty n r"
proof -
  obtain e where e: "c = collect_change e" "e \<in> set (diff_rows (compare_rows srt) row_eq (rev xs) (rev ys))" using assms(3) by (auto simp: merge_changes_def)
  then show ?thesis using diff_rows_from [OF e(2)] assms(1,2,4) by (cases e) auto
qed

abbreviation patched_rows :: "sort \<Rightarrow> row list \<Rightarrow> row list \<Rightarrow> row list" where
  "patched_rows srt xs ys \<equiv> rev (patched (compare_rows srt) row_eq (rev xs) (rev ys))"

lemma replay_merge_changes:
  assumes "typed_index ty n srt this" "typed_index ty n srt other"
  shows "fold (replay_change srt) (merge_changes srt (contents this) (contents other)) (contents this) = patched_rows srt (contents this) (contents other)"
    "list_all2 row_eq (patched_rows srt (contents this) (contents other)) (contents other)"
proof -
  note a = typed_index_D [OF assms(1)] and b = typed_index_D [OF assms(2)]
  note r = comparator_on.replay_diff_rows [OF a(5)] comparator_on.replaying_def [OF a(5)]
  have "fold (replay_event (compare_rows srt)) (diff_rows (compare_rows srt) row_eq (rev (contents this)) (rev (contents other))) (contents this) =
      patched_rows srt (contents this) (contents other)"
    using r(1) [of "rev (contents this)" "[]" "rev (contents other)" row_eq] r(2) a(3,6) b(3,6) by simp
  then show "fold (replay_change srt) (merge_changes srt (contents this) (contents other)) (contents this) = patched_rows srt (contents this) (contents other)"
    by (simp add: merge_changes_def fold_map comp_def replay_collect)
  have "row_eq y y" if "y \<in> set (contents other)" for y using that b(3) full_row_equal_typed(2) by auto
  then have "list_all2 row_eq (patched (compare_rows srt) row_eq (rev (contents this)) (rev (contents other))) (rev (contents other))"
    by (intro patched_eq) simp
  then show "list_all2 row_eq (patched_rows srt (contents this) (contents other)) (contents other)"
    by (metis list_all2_rev rev_rev_ident)
qed

section \<open>Properties\<close>

text \<open>Two one-leaf indexes of the demonstration table, and pointer comparisons that compare values.\<close>

definition diff_this :: "row btree" where
  "diff_this = \<lparr> root = Leaf [[IntV 1, IntV 7], [IntV 2, IntV 7]], tsize = 2 \<rparr>"

definition diff_other :: "row btree" where
  "diff_other = \<lparr> root = Leaf [[IntV 2, IntV 8], [IntV 3, IntV 7]], tsize = 2 \<rparr>"

lemma diff_demo:
  "typed_index (\<lambda>_. KNum) 2 [(0, True)] diff_this" "typed_index (\<lambda>_. KNum) 2 [(0, True)] diff_other"
  "contents diff_this = [[IntV 1, IntV 7], [IntV 2, IntV 7]]" "contents diff_other = [[IntV 2, IntV 8], [IntV 3, IntV 7]]"
  by (auto simp: typed_index_def diff_this_def diff_other_def contents_def btree_ok_def root_ok_def sort_cols_def typed_row_def less_2_cases_iff
      MAX_NODE_SIZE_def compare_cell_def row_col_def apply_dir_def cmp_of_def numeral_2_eq_2 less_Suc_eq)

lemma diff_demo_pointers: "pointers_sound (\<lambda>a b. current_node a = current_node b) (\<lambda>a b. dc_key a = dc_key b)"
  by (simp add: pointers_sound_def)

lemma diff_demo_changes:
  "merge_changes [(0, True)] (contents diff_this) (contents diff_other) =
     [AddRow [IntV 3, IntV 7], EditRow [IntV 2, IntV 8] [IntV 2, IntV 7], RemoveRow [IntV 1, IntV 7]]"
  by (simp add: diff_demo(3,4) merge_changes_def row_eq_def full_row_equal_def compare_cell_def row_col_def apply_dir_def cmp_of_def)

text \<open>(C8) The structural diff of two sound indexes always returns, and what it reports is the linear merge of their rows in
  descending order: a row only one side holds is removed or added, and a row both hold under the same sort key is an edit exactly
  when the full rows differ. The subtrees and rows skipped because both trees share an allocation, the gate on the previous
  comparison and the drain at the end change nothing, in debug builds and release builds; with the pointer comparisons off the
  walk reports the same.\<close>

theorem structural_diff_exact:
  assumes "typed_index ty n srt this" "typed_index ty n srt other" "pointers_sound nodes rows"
  shows "structural_diff debug nodes rows this other srt = Some (merge_changes srt (contents this) (contents other)) \<and>
    diff_visit (diff_env_for debug False srt nodes rows) this other = diff_visit (diff_env_for debug True srt nodes rows) this other"
  using structural_diff_changes [OF assms] diff_visit_typed [OF assms] by simp

theorem structural_diff_exact_witness:
  "structural_diff True (\<lambda>a b. current_node a = current_node b) (\<lambda>a b. dc_key a = dc_key b) diff_this diff_other [(0, True)] =
     Some [AddRow [IntV 3, IntV 7], EditRow [IntV 2, IntV 8] [IntV 2, IntV 7], RemoveRow [IntV 1, IntV 7]]"
  using structural_diff_exact [OF diff_demo(1,2) diff_demo_pointers, of True] diff_demo_changes by simp

text \<open>(C9) Round trip of diff and apply: the changes that the structural diff collects, applied in order to the first tree, all
  succeed and give a sound tree whose rows are, position by position, equal to the rows of the second tree.\<close>

theorem structural_diff_roundtrip:
  assumes "typed_index ty n srt this" "typed_index ty n srt other" "pointers_sound nodes rows"
  shows "\<exists>cs t. structural_diff debug nodes rows this other srt = Some cs \<and> apply_changes_to_tree this cs srt = Some t \<and>
    typed_index ty n srt t \<and> list_all2 row_eq (contents t) (contents other)"
proof -
  let ?cs = "merge_changes srt (contents this) (contents other)"
  have "\<forall>c\<in>set ?cs. \<forall>r\<in>set (change_rows c). typed_row ty n r" using merge_changes_typed assms(1,2) unfolding typed_index_def by blast
  from apply_changes_ok [OF assms(1) this] obtain t where t: "apply_changes_to_tree this ?cs srt = Some t" "typed_index ty n srt t"
    "contents t = patched_rows srt (contents this) (contents other)" using replay_merge_changes(1) [OF assms(1,2)] by auto
  then show ?thesis using structural_diff_changes [OF assms] replay_merge_changes(2) [OF assms(1,2)] by auto
qed

theorem structural_diff_roundtrip_witness:
  "\<exists>t. apply_changes_to_tree diff_this [AddRow [IntV 3, IntV 7], EditRow [IntV 2, IntV 8] [IntV 2, IntV 7], RemoveRow [IntV 1, IntV 7]] [(0, True)] = Some t \<and>
     list_all2 row_eq (contents t) [[IntV 2, IntV 8], [IntV 3, IntV 7]]"
  using structural_diff_roundtrip [OF diff_demo(1,2) diff_demo_pointers, of True]
    structural_diff_changes [OF diff_demo(1,2) diff_demo_pointers, of True] diff_demo_changes diff_demo(4) by auto

end
