(* ===== verification/Optimistic.thy ===== *)
theory Optimistic
  imports Tree_Diff_Rows Source_Push Storage
begin

text \<open>
  The optimistic-writes loop (\<open>rust/src/optimistic.rs\<close>): per table a baseline tree \<open>sync\<close>, and the rewind that replaces the
  optimistic state of the live sources by the baseline plus the server's changes. It drives the graph's source entry points
  (\<open>rust/src/graph.rs\<close>): the live in-memory sources by node, the strict flag and the parked runtime error are modelled; what lies
  downstream of a source is the parameter \<open>push_edge\<close>, which stands for handing a change to the node and port an edge names, and
  \<open>overflowed\<close> says whether a reduce node holds an integer sum out of range. Table names are their UTF-8 bytes; \<open>fmt\<close>
  stands for the debug formatting of a name in an error message.
\<close>

section \<open>The graph's sources\<close>

record 'w graph_view =
  gv_sources :: "(node_id \<times> memory_source) list"
  validate_changes :: bool
  runtime_error :: "rindle_error option"
  gv_nodes :: 'w

record 'w graph_env =
  push_edge :: "node_id \<Rightarrow> port \<Rightarrow> source_change \<Rightarrow> 'w graph_view \<Rightarrow> 'w graph_view option"
  overflowed :: "'w \<Rightarrow> bool"

definition source_at :: "'w graph_view \<Rightarrow> node_id \<Rightarrow> memory_source option" where
  "source_at g i = map_of (gv_sources g) i"

definition put_source :: "node_id \<Rightarrow> memory_source \<Rightarrow> 'w graph_view \<Rightarrow> 'w graph_view" where
  "put_source i s g = g \<lparr> gv_sources := map (\<lambda>(j, x). (j, if j = i then s else x)) (gv_sources g) \<rparr>"

definition take_runtime_error :: "'w graph_env \<Rightarrow> 'w graph_view \<Rightarrow> 'w graph_view \<times> rindle_error option" where
  "take_runtime_error env g = (case runtime_error g of
       Some e \<Rightarrow> (g \<lparr> runtime_error := None \<rparr>, Some e)
     | None \<Rightarrow> (g, if overflowed env (gv_nodes g)
         then Some (UnsupportedValue (''integer sum overflow: an aggregate's set total is outside the i64 range (design 226 '' @ [CHR 0xC2, CHR 0xA7] @ ''5.3)''))
         else None))"

definition park_runtime_error :: "rindle_error \<Rightarrow> 'w graph_view \<Rightarrow> 'w graph_view" where
  "park_runtime_error e g = (if runtime_error g = None then g \<lparr> runtime_error := Some e \<rparr> else g)"

text \<open>The source holds its own state while it delivers; what is delivered sees it as the graph's.\<close>

definition source_deliver :: "'w graph_env \<Rightarrow> node_id \<Rightarrow> 'w graph_view deliver" where
  "source_deliver env i slot conn sc st = (case conn_output conn of
       None \<Rightarrow> Some st
     | Some edge \<Rightarrow> do {
         g \<leftarrow> push_edge env (edge_node edge) (edge_port edge) sc (put_source i (fst st) (snd st));
         s \<leftarrow> source_at g i;
         Some (s, g)
       })"

definition try_source_push :: "bool \<Rightarrow> 'w graph_env \<Rightarrow> node_id \<Rightarrow> source_change \<Rightarrow> 'w graph_view \<Rightarrow> 'w graph_view outcome" where
  "try_source_push debug env i change g = do {
     s \<leftarrow> source_at g i;
     ((s', g'), err) \<leftarrow> try_push debug (source_deliver env i) change (validate_changes g) (s, g);
     Some (case err of
         Some e \<Rightarrow> (put_source i s' g', Some e)
       | None \<Rightarrow> take_runtime_error env (put_source i s' g'))
   }"

section \<open>The tables\<close>

record sync_entry =
  se_source :: node_id
  se_sync :: "row btree"
  se_sort :: sort

type_synonym optimistic_tables = "(byte list, sync_entry) omap"

definition optimistic_new :: optimistic_tables where
  "optimistic_new = []"

definition is_tracked :: "byte list \<Rightarrow> optimistic_tables \<Rightarrow> bool" where
  "is_tracked table tables \<longleftrightarrow> om_get bytes_cmp table tables \<noteq> None"

definition track :: "(byte list \<Rightarrow> string) \<Rightarrow> 'w graph_view \<Rightarrow> byte list \<Rightarrow> node_id \<Rightarrow> optimistic_tables \<Rightarrow> optimistic_tables outcome" where
  "track fmt g table source tables =
     (if is_tracked table tables then Some (tables, None)
      else case source_at g source of
        None \<Rightarrow> Some (tables, Some (SchemaViolation (''optimistic tracking needs an in-memory source for table '' @ fmt table)))
      | Some ms \<Rightarrow> do {
          t \<leftarrow> fork_primary ms;
          Some (om_put bytes_cmp table \<lparr> se_source = source, se_sync = t, se_sort = primary_index_sort ms \<rparr> tables, None)
        })"

definition forget :: "byte list \<Rightarrow> optimistic_tables \<Rightarrow> optimistic_tables" where
  "forget table tables = om_del bytes_cmp table tables"

section \<open>The rewind\<close>

fun push_changes :: "bool \<Rightarrow> 'w graph_env \<Rightarrow> node_id \<Rightarrow> source_change list \<Rightarrow> 'w graph_view \<Rightarrow> 'w graph_view outcome" where
  "push_changes debug env i [] g = Some (g, None)"
| "push_changes debug env i (c # cs) g = and_then (try_source_push debug env i c g) (push_changes debug env i cs)"

text \<open>The two pointer comparisons of the diff, per table.\<close>

record diff_pointers =
  node_ptr :: "row diff_cursor \<Rightarrow> row diff_cursor \<Rightarrow> bool"
  row_ptr :: "row diff_cursor \<Rightarrow> row diff_cursor \<Rightarrow> bool"

definition rewind_entry :: "bool \<Rightarrow> 'w graph_env \<Rightarrow> diff_pointers \<Rightarrow> source_change list \<Rightarrow> sync_entry \<times> 'w graph_view \<Rightarrow> (sync_entry \<times> 'w graph_view) outcome" where
  "rewind_entry debug env ptr delta eg = (case eg of (entry, g) \<Rightarrow> do {
     s_prime \<leftarrow> apply_changes_to_tree (btree_fork (se_sync entry)) delta (se_sort entry);
     ms \<leftarrow> source_at g (se_source entry);
     head \<leftarrow> fork_primary ms;
     changes \<leftarrow> structural_diff debug (node_ptr ptr) (row_ptr ptr) head s_prime (se_sort entry);
     (g', err) \<leftarrow> push_changes debug env (se_source entry) changes g;
     (case err of
        Some e \<Rightarrow> Some ((entry, g'), Some e)
      | None \<Rightarrow> do {
          ms' \<leftarrow> source_at g' (se_source entry);
          sync \<leftarrow> fork_primary ms';
          Some ((entry \<lparr> se_sync := sync \<rparr>, g'), None)
        })
   })"

definition delta_of :: "(byte list, source_change list) omap \<Rightarrow> byte list \<Rightarrow> source_change list" where
  "delta_of deltas table = (case om_get bytes_cmp table deltas of None \<Rightarrow> [] | Some cs \<Rightarrow> cs)"

fun rewind_tables ::
  "bool \<Rightarrow> 'w graph_env \<Rightarrow> (byte list \<Rightarrow> diff_pointers) \<Rightarrow> (byte list, source_change list) omap \<Rightarrow> optimistic_tables \<Rightarrow> 'w graph_view \<Rightarrow>
   (optimistic_tables \<times> 'w graph_view) outcome" where
  "rewind_tables debug env ptr deltas [] g = Some (([], g), None)"
| "rewind_tables debug env ptr deltas ((table, entry) # tables) g = do {
     ((entry', g'), err) \<leftarrow> rewind_entry debug env (ptr table) (delta_of deltas table) (entry, g);
     (case err of
        Some e \<Rightarrow> Some (((table, entry') # tables, g'), Some e)
      | None \<Rightarrow> do {
          ((tables', g''), err') \<leftarrow> rewind_tables debug env ptr deltas tables g';
          Some (((table, entry') # tables', g''), err')
        })
   }"

definition rewind ::
  "bool \<Rightarrow> (byte list \<Rightarrow> string) \<Rightarrow> 'w graph_env \<Rightarrow> (byte list \<Rightarrow> diff_pointers) \<Rightarrow> (byte list, source_change list) omap \<Rightarrow>
   optimistic_tables \<times> 'w graph_view \<Rightarrow> (optimistic_tables \<times> 'w graph_view) outcome" where
  "rewind debug fmt env ptr deltas st = (case List.find (\<lambda>(table, _). \<not> is_tracked table (fst st)) deltas of
       Some (table, _) \<Rightarrow> Some (st, Some (SchemaViolation (''server delta for untracked (local-only or unknown) table '' @ fmt table)))
     | None \<Rightarrow> rewind_tables debug env ptr deltas (fst st) (snd st))"

end
