(* ===== verification/Optimistic_Rewind.thy ===== *)
theory Optimistic_Rewind
  imports Optimistic
begin

text \<open>
  A rewind puts the server's state under the live pipeline: after it every tracked source holds exactly the rows of its baseline with
  the server's changes applied, and the baseline is that state again. Optimistic writes are undone whatever they were, and no
  pointer comparison of the diff matters.
\<close>

section \<open>Sources in the graph\<close>

lemma map_of_put: "map_of (map (\<lambda>(j, x). (j, if j = i then s else x)) xs) k = (if k = i \<and> map_of xs i \<noteq> None then Some s else map_of xs k)"
  by (induction xs) auto

lemma source_at_put [simp]: "source_at (put_source i s g) k = (if k = i \<and> source_at g i \<noteq> None then Some s else source_at g k)"
  by (simp add: source_at_def put_source_def map_of_put)

lemma put_source_fields [simp]:
  "validate_changes (put_source i s g) = validate_changes g" "runtime_error (put_source i s g) = runtime_error g" "gv_nodes (put_source i s g) = gv_nodes g"
  by (simp_all add: put_source_def)

definition graph_ok :: "(node_id \<Rightarrow> col_id \<Rightarrow> kind) \<Rightarrow> 'w graph_env \<Rightarrow> 'w graph_view \<Rightarrow> bool" where
  "graph_ok tys env g \<longleftrightarrow> (\<forall>i s. source_at g i = Some s \<longrightarrow> src_ok (tys i) s) \<and> runtime_error g = None \<and> \<not> overflowed env (gv_nodes g)"

text \<open>A source that was only read.\<close>

definition reads_only :: "memory_source \<Rightarrow> memory_source \<Rightarrow> bool" where
  "reads_only s s' \<longleftrightarrow> set (src_rows s') = set (src_rows s) \<and> ms_conns s' = ms_conns s \<and> ms_overlay s' = ms_overlay s \<and> ms_schema s' = ms_schema s \<and>
     ms_primary_key s' = ms_primary_key s \<and> ms_epoch s' = ms_epoch s"

definition rel_sources :: "(node_id \<Rightarrow> bool) \<Rightarrow> 'w graph_view \<Rightarrow> 'w graph_view \<Rightarrow> bool" where
  "rel_sources P g g' \<longleftrightarrow> validate_changes g' = validate_changes g \<and> (\<forall>i. (source_at g' i = None) = (source_at g i = None)) \<and>
     (\<forall>i s. P i \<longrightarrow> source_at g i = Some s \<longrightarrow> (\<exists>s'. source_at g' i = Some s' \<and> reads_only s s'))"

text \<open>What the rewind relies on downstream: a delivery returns, re-enters the sources only through reads and parks no error.\<close>

definition graph_env_ok :: "(node_id \<Rightarrow> col_id \<Rightarrow> kind) \<Rightarrow> 'w graph_env \<Rightarrow> bool" where
  "graph_env_ok tys env \<longleftrightarrow> (\<forall>n p sc g. graph_ok tys env g \<longrightarrow> (\<exists>g'. push_edge env n p sc g = Some g' \<and> graph_ok tys env g' \<and> rel_sources (\<lambda>_. True) g g'))"

lemma reads_only_refl: "reads_only s s"
  by (simp add: reads_only_def)

lemma reads_only_trans: "reads_only s s1 \<Longrightarrow> reads_only s1 s2 \<Longrightarrow> reads_only s s2"
  by (simp add: reads_only_def)

lemma rel_sources_refl: "rel_sources P g g"
  by (simp add: rel_sources_def reads_only_refl)

lemma rel_sources_D:
  assumes "rel_sources P g g'" "P i" "source_at g i = Some s"
  obtains s' where "source_at g' i = Some s'" "reads_only s s'"
  using assms unfolding rel_sources_def by blast

lemma rel_sources_trans:
  assumes "rel_sources P g g1" "rel_sources P g1 g2"
  shows "rel_sources P g g2"
proof -
  have "\<exists>s'. source_at g2 i = Some s' \<and> reads_only s s'" if i: "P i" "source_at g i = Some s" for i s
  proof -
    from rel_sources_D [OF assms(1) i] obtain s1 where s1: "source_at g1 i = Some s1" "reads_only s s1" .
    from rel_sources_D [OF assms(2) i(1) s1(1)] obtain s2 where "source_at g2 i = Some s2" "reads_only s1 s2" .
    then show ?thesis using reads_only_trans [OF s1(2)] by blast
  qed
  then show ?thesis using assms by (simp add: rel_sources_def)
qed

lemma rel_sources_preorder: "reflp (rel_sources P)" "transp (rel_sources P)"
  by (auto simp: reflp_def transp_def rel_sources_refl intro: rel_sources_trans)

section \<open>One push\<close>

abbreviation others :: "node_id \<Rightarrow> 'w graph_view \<Rightarrow> 'w graph_view \<Rightarrow> bool" where
  "others i \<equiv> rel_sources (\<lambda>j. j \<noteq> i)"

definition around :: "(node_id \<Rightarrow> col_id \<Rightarrow> kind) \<Rightarrow> 'w graph_env \<Rightarrow> node_id \<Rightarrow> 'w graph_view \<Rightarrow> bool" where
  "around tys env i g \<longleftrightarrow> graph_ok tys env g \<and> source_at g i \<noteq> None"

lemma source_deliver_keeps:
  fixes env :: "'w graph_env"
  assumes "graph_env_ok tys env"
  shows "deliver_keeps (tys i) (around tys env i) (others i) (source_deliver env i)"
  unfolding deliver_keeps_def
proof (intro allI impI)
  fix slot conn sc and st :: "memory_source \<times> 'w graph_view"
  assume st: "src_ok (tys i) (fst st)" "around tys env i (snd st)"
  show "\<exists>st'. source_deliver env i slot conn sc st = Some st' \<and> src_ok (tys i) (fst st') \<and> ms_conns (fst st') = ms_conns (fst st) \<and>
      ms_overlay (fst st') = ms_overlay (fst st) \<and> same_source st st' \<and> around tys env i (snd st') \<and> others i (snd st) (snd st')"
  proof (cases "conn_output conn")
    case None
    then show ?thesis using st by (simp add: source_deliver_def same_source_def rel_sources_refl)
  next
    case (Some edge)
    let ?g = "put_source i (fst st) (snd st)"
    have here: "source_at ?g i = Some (fst st)" using st(2) by (simp add: around_def)
    have "graph_ok tys env ?g" using st by (auto simp: around_def graph_ok_def split: if_splits)
    then obtain g' where g': "push_edge env (edge_node edge) (edge_port edge) sc ?g = Some g'" "graph_ok tys env g'" "rel_sources (\<lambda>_. True) ?g g'"
      using assms unfolding graph_env_ok_def by blast
    obtain s' where s': "source_at g' i = Some s'" "reads_only (fst st) s'" using g'(3) here unfolding rel_sources_def by blast
    have ok: "src_ok (tys i) s'" using g'(2) s'(1) by (simp add: graph_ok_def)
    have oth: "others i (snd st) g'" using g'(3) st(2) by (auto simp: rel_sources_def around_def split: if_splits)
    show ?thesis using Some g'(1,2) s' ok oth by (auto simp: source_deliver_def around_def same_source_def reads_only_def)
  qed
qed

definition typed_change :: "(col_id \<Rightarrow> kind) \<Rightarrow> nat \<Rightarrow> source_change \<Rightarrow> bool" where
  "typed_change ty n c \<longleftrightarrow> (\<forall>r\<in>set (change_rows c). typed_row ty n r)"

text \<open>The guards of the live connections over-approximate their predicates on every row of the table's type.\<close>

definition guards_cover :: "(col_id \<Rightarrow> kind) \<Rightarrow> memory_source \<Rightarrow> bool" where
  "guards_cover ty s \<longleftrightarrow> (\<forall>c. typed_change ty (src_width s) c \<longrightarrow> guards_sound (ms_conns s) c)"

lemma try_source_push_ok:
  assumes env: "graph_env_ok tys env" and g: "graph_ok tys env g" "source_at g i = Some s" and fit: "fits (tys i) s c" and cov: "guards_cover (tys i) s"
    and ep: "unat (ms_epoch s) + 2 < 2 ^ 32"
  shows "\<exists>g' s'. try_source_push debug env i c g = Some (g', None) \<and> graph_ok tys env g' \<and> source_at g' i = Some s' \<and> others i g g' \<and>
    set (src_rows s') = change_set c (set (src_rows s)) \<and> ms_primary_key s' = ms_primary_key s \<and> ms_schema s' = ms_schema s \<and>
    unat (ms_epoch s') \<le> unat (ms_epoch s) + 2 \<and> guards_cover (tys i) s'"
proof -
  have ok: "src_ok (tys i) s" and ar: "around tys env i g" using g by (simp_all add: graph_ok_def around_def)
  have snd: "guards_sound (ms_conns s) c" using cov fit by (simp add: guards_cover_def typed_change_def fits_def change_fits_def)
  obtain st' where d: "push_done (tys i) (around tys env i) (others i) debug (source_deliver env i) c (s, g) st'"
    using push_keeps [OF _ _ source_deliver_keeps [OF env] rel_sources_preorder, of i "(s, g)" c debug] ok ar fit snd ep by auto
  obtain s' g1 where st': "st' = (s', g1)" by fastforce
  note d = d [unfolded push_done_def st', simplified]
  define g' where "g' = put_source i s' g1"
  have g1: "graph_ok tys env g1" "source_at g1 i \<noteq> None" using d by (simp_all add: around_def)
  have at: "source_at g' i = Some s'" using g1(2) by (simp add: g'_def)
  have ok': "graph_ok tys env g'" using g1 d by (auto simp: graph_ok_def g'_def split: if_splits)
  have oth: "others i g g'" using d g1 by (auto simp: rel_sources_def g'_def)
  have "take_runtime_error env g' = (g', None)" using ok' by (simp add: take_runtime_error_def graph_ok_def)
  then have run: "try_source_push debug env i c g = Some (g', None)" using d g(2) by (simp add: try_source_push_def g'_def)
  have "guards_cover (tys i) s'" using cov d by (simp add: guards_cover_def src_width_def)
  then show ?thesis using run ok' at oth d by (intro exI [of _ g'] exI [of _ s']) simp
qed

section \<open>All changes of a rewind\<close>

lemma src_primary:
  assumes "src_ok ty s"
  obtains t where "fork_primary s = Some t" "contents t = src_rows s" "primary_index_sort s = pk_sort (ms_primary_key s)"
    "typed_index ty (src_width s) (pk_sort (ms_primary_key s)) t"
proof -
  have pk: "primary_index_sort s = pk_sort (ms_primary_key s)" "\<forall>c\<in>set (ms_primary_key s). c < src_width s" using assms by (simp_all add: src_ok_def)
  obtain ix where ix: "primary_index s = Some ix" using assms by (auto simp: src_ok_def)
  have "holds_rows ty (src_width s) (ms_primary_key s) (set (src_rows s)) (primary_index_sort s, ix)"
    using ix assms by (auto simp: src_ok_def primary_index_def dest: map_of_SomeD)
  then have "index_ok ty (pk_sort (ms_primary_key s)) (ix_data ix)" "sort_cols (src_width s) (pk_sort (ms_primary_key s))" by (simp_all add: holds_rows_def pk(1))
  then have "typed_index ty (src_width s) (pk_sort (ms_primary_key s)) (ix_data ix)"
    using src_rows_typed(2) [OF assms] ix by (simp add: typed_index_def index_ok_def src_rows_def)
  then show thesis using that [of "ix_data ix"] ix pk(1) by (simp add: fork_primary_def src_rows_def)
qed

lemma event_fits_change:
  assumes "event_fits (compare_rows (pk_sort pk)) R e" "\<forall>r\<in>R. typed_row ty n r" "typed_change ty n (collect_change e)" "\<forall>c\<in>set pk. c < n"
  shows "change_fits ty n pk R (collect_change e)"
  using assms same_key_pk_sort [of ty n _ _ pk] by (cases e) (auto simp: change_fits_def typed_change_def)

lemma event_set_change:
  assumes "comparator_on {r. typed_row ty n r} (compare_rows (pk_sort pk))" "sorted_by (compare_rows (pk_sort pk)) xs" "\<forall>r\<in>set xs. typed_row ty n r"
    "typed_change ty n (collect_change e)" "event_fits (compare_rows (pk_sort pk)) (set xs) e"
  shows "set (replay_event (compare_rows (pk_sort pk)) e xs) = change_set (collect_change e) (set xs)"
    "sorted_by (compare_rows (pk_sort pk)) (replay_event (compare_rows (pk_sort pk)) e xs)"
proof -
  let ?cmp = "compare_rows (pk_sort pk)"
  note ins = comparator_on.set_ins_by_eq [OF assms(1)] comparator_on.sorted_ins_by [OF assms(1)]
  note del = comparator_on.set_del_by_eq [OF assms(1)] comparator_on.sorted_del_by [OF assms(1)]
  have sub: "set xs \<subseteq> {r. typed_row ty n r}" using assms(3) by auto
  have uniq: "{y \<in> set xs. ?cmp y x \<noteq> Some Equal} = set xs - {x}" if "x \<in> set xs" for x
    using comparator_on.sorted_unique [OF assms(1,2) sub] comparator_on.cmp_refl [OF assms(1)] that sub by blast
  show "set (replay_event ?cmp e xs) = change_set (collect_change e) (set xs)"
  proof (cases e)
    case (OnlyThis x)
    then show ?thesis using assms(5) del(1) [OF sub, of x] uniq [of x] sub by auto
  next
    case (OnlyOther y)
    then show ?thesis using assms(4,5) ins(1) [OF sub, of y] by (auto simp: typed_change_def)
  next
    case (EditRows x y)
    then have x: "x \<in> set xs" and y: "typed_row ty n y" using assms(4,5) by (auto simp: typed_change_def)
    have d: "set (del_by ?cmp x xs) = set xs - {x}" using del(1) [OF sub, of x] uniq [OF x] x sub by auto
    then have "set (ins_by ?cmp y (del_by ?cmp x xs)) = insert y {z \<in> set xs - {x}. ?cmp z y \<noteq> Some Equal}"
      using ins(1) [of "del_by ?cmp x xs" y] sub y by auto
    moreover have "{z \<in> set xs - {x}. ?cmp z y \<noteq> Some Equal} = set xs - {x}" using assms(5) EditRows by auto
    ultimately show ?thesis using EditRows by auto
  qed
  show "sorted_by ?cmp (replay_event ?cmp e xs)"
  proof (cases e)
    case (EditRows x y)
    then have x: "x \<in> set xs" and y: "typed_row ty n y" using assms(4,5) by (auto simp: typed_change_def)
    have "set (del_by ?cmp x xs) \<subseteq> {r. typed_row ty n r}" using del(1) [OF sub, of x] sub x by auto
    then show ?thesis using EditRows ins(2) [OF del(2) [OF assms(2) sub], of x y] sub x y by auto
  qed (use assms(4,5) ins(2) [OF assms(2) sub] del(2) [OF assms(2) sub] sub in \<open>auto simp: typed_change_def\<close>)
qed

text \<open>Pushing what a diff collected keeps the source's rows in step with the replay.\<close>

lemma push_events_ok:
  assumes env: "graph_env_ok tys env"
  shows "graph_ok tys env g \<Longrightarrow> source_at g i = Some s \<Longrightarrow> guards_cover (tys i) s \<Longrightarrow>
    \<forall>e\<in>set es. typed_change (tys i) (src_width s) (collect_change e) \<Longrightarrow> events_fit (compare_rows (pk_sort (ms_primary_key s))) (src_rows s) es \<Longrightarrow>
    unat (ms_epoch s) + 2 * length es < 2 ^ 32 \<Longrightarrow>
    \<exists>g' s'. push_changes debug env i (map collect_change es) g = Some (g', None) \<and> graph_ok tys env g' \<and> source_at g' i = Some s' \<and> others i g g' \<and>
      src_rows s' = fold (replay_event (compare_rows (pk_sort (ms_primary_key s)))) es (src_rows s) \<and>
      ms_primary_key s' = ms_primary_key s \<and> ms_schema s' = ms_schema s \<and> guards_cover (tys i) s'"
proof (induction es arbitrary: g s)
  case Nil
  then show ?case by (simp add: rel_sources_refl)
next
  case (Cons e es)
  let ?srt = "pk_sort (ms_primary_key s)" and ?n = "src_width s"
  have ok: "src_ok (tys i) s" using Cons.prems(1,2) by (simp add: graph_ok_def)
  from src_primary [OF ok] obtain t where t: "contents t = src_rows s" "typed_index (tys i) ?n ?srt t" by metis
  note T = typed_index_D [OF t(2), unfolded t(1)]
  have fe: "event_fits (compare_rows ?srt) (set (src_rows s)) e" "typed_change (tys i) ?n (collect_change e)" using Cons.prems(4,5) by simp_all
  have "fits (tys i) s (collect_change e)"
    unfolding fits_def using event_fits_change [OF fe(1) src_rows_typed(2) [OF ok] fe(2)] ok by (simp add: src_ok_def)
  moreover have "unat (ms_epoch s) + 2 < 2 ^ 32" using Cons.prems(6) by simp
  ultimately obtain g1 s1 where g1: "try_source_push debug env i (collect_change e) g = Some (g1, None)" "graph_ok tys env g1" "source_at g1 i = Some s1" "others i g g1"
    and s1: "set (src_rows s1) = change_set (collect_change e) (set (src_rows s))" "ms_primary_key s1 = ms_primary_key s" "ms_schema s1 = ms_schema s"
      "unat (ms_epoch s1) \<le> unat (ms_epoch s) + 2" "guards_cover (tys i) s1"
    using try_source_push_ok [OF env Cons.prems(1,2) _ Cons.prems(3), of "collect_change e" debug] by blast
  have w: "src_width s1 = ?n" using s1(3) by (simp add: src_width_def)
  have ok1: "src_ok (tys i) s1" using g1(2,3) by (simp add: graph_ok_def)
  from src_primary [OF ok1] obtain t1 where "contents t1 = src_rows s1" "typed_index (tys i) ?n ?srt t1" unfolding w s1(2) by metis
  then have "sorted_by (compare_rows ?srt) (src_rows s1)" "set (src_rows s1) \<subseteq> {r. typed_row (tys i) ?n r}" using typed_index_D by metis+
  then have rows: "src_rows s1 = replay_event (compare_rows ?srt) e (src_rows s)"
    using comparator_on.sorted_set_unique [OF T(5)] event_set_change [OF T(5,6) _ fe(2,1)] s1(1) src_rows_typed(2) [OF ok] by metis
  have "\<exists>g' s'. push_changes debug env i (map collect_change es) g1 = Some (g', None) \<and> graph_ok tys env g' \<and> source_at g' i = Some s' \<and> others i g1 g' \<and>
      src_rows s' = fold (replay_event (compare_rows (pk_sort (ms_primary_key s1)))) es (src_rows s1) \<and>
      ms_primary_key s' = ms_primary_key s1 \<and> ms_schema s' = ms_schema s1 \<and> guards_cover (tys i) s'"
    using Cons.prems(4-6) s1 w rows by (intro Cons.IH [OF g1(2,3) s1(5)]) simp_all
  then obtain g' s' where g': "push_changes debug env i (map collect_change es) g1 = Some (g', None)" "graph_ok tys env g'" "source_at g' i = Some s'" "others i g1 g'"
    and s': "src_rows s' = fold (replay_event (compare_rows ?srt)) es (src_rows s1)" "ms_primary_key s' = ms_primary_key s" "ms_schema s' = ms_schema s" "guards_cover (tys i) s'"
    unfolding s1(2,3) by blast
  have "push_changes debug env i (map collect_change (e # es)) g = Some (g', None)" using g1(1) g'(1) by simp
  moreover have "src_rows s' = fold (replay_event (compare_rows ?srt)) (e # es) (src_rows s)" using s'(1) rows by simp
  ultimately show ?case using g'(2,3) s'(2-4) rel_sources_trans [OF g1(4) g'(4)] by blast
qed

section \<open>One table\<close>

text \<open>What the server says the table holds: the baseline with its changes.\<close>

definition server_rows :: "sync_entry \<Rightarrow> source_change list \<Rightarrow> row list" where
  "server_rows entry delta = fold (replay_change (se_sort entry)) delta (contents (se_sync entry))"

definition entry_ok :: "(node_id \<Rightarrow> col_id \<Rightarrow> kind) \<Rightarrow> 'w graph_view \<Rightarrow> sync_entry \<Rightarrow> bool" where
  "entry_ok tys g entry \<longleftrightarrow> (case source_at g (se_source entry) of None \<Rightarrow> False | Some s \<Rightarrow> se_sort entry = pk_sort (ms_primary_key s) \<and>
     typed_index (tys (se_source entry)) (src_width s) (se_sort entry) (se_sync entry) \<and> guards_cover (tys (se_source entry)) s)"

text \<open>A delta a table can take: its rows have the table's type, and the epoch has room for the pushes.\<close>

definition delta_ok :: "(node_id \<Rightarrow> col_id \<Rightarrow> kind) \<Rightarrow> 'w graph_view \<Rightarrow> sync_entry \<Rightarrow> source_change list \<Rightarrow> bool" where
  "delta_ok tys g entry delta \<longleftrightarrow> (case source_at g (se_source entry) of None \<Rightarrow> False | Some s \<Rightarrow>
     (\<forall>c\<in>set delta. typed_change (tys (se_source entry)) (src_width s) c) \<and>
     unat (ms_epoch s) + 2 * (card (set (src_rows s)) + length (server_rows entry delta)) < 2 ^ 32)"

text \<open>The table after its rewind: the live source and the baseline are what the server says.\<close>

definition rewound :: "(node_id \<Rightarrow> col_id \<Rightarrow> kind) \<Rightarrow> 'w graph_view \<Rightarrow> source_change list \<Rightarrow> sync_entry \<Rightarrow> sync_entry \<Rightarrow> bool" where
  "rewound tys g delta entry entry' \<longleftrightarrow> entry_ok tys g entry' \<and> se_source entry' = se_source entry \<and> se_sort entry' = se_sort entry \<and>
     (case source_at g (se_source entry) of None \<Rightarrow> False | Some s \<Rightarrow>
        src_rows s = contents (se_sync entry') \<and> list_all2 row_eq (src_rows s) (server_rows entry delta))"

lemma length_diff_rows: "length (diff_rows cmp eq xs ys) \<le> length xs + length ys"
  by (induction cmp eq xs ys rule: diff_rows.induct) (auto split: option.split ordering.split)

lemma rewind_entry_ok:
  assumes env: "graph_env_ok tys env" and g: "graph_ok tys env g" and entry: "entry_ok tys g entry" "delta_ok tys g entry delta"
    and ptr: "pointers_sound (node_ptr ptr) (row_ptr ptr)"
  shows "\<exists>entry' g'. rewind_entry debug env ptr delta (entry, g) = Some ((entry', g'), None) \<and> graph_ok tys env g' \<and>
    others (se_source entry) g g' \<and> rewound tys g' delta entry entry'"
proof -
  let ?i = "se_source entry" and ?srt = "se_sort entry"
  let ?ty = "tys ?i"
  obtain s where s: "source_at g ?i = Some s" "?srt = pk_sort (ms_primary_key s)" "typed_index ?ty (src_width s) ?srt (se_sync entry)" "guards_cover ?ty s"
    using entry(1) by (auto simp: entry_ok_def split: option.splits)
  have delta: "\<forall>c\<in>set delta. typed_change ?ty (src_width s) c" "unat (ms_epoch s) + 2 * (card (set (src_rows s)) + length (server_rows entry delta)) < 2 ^ 32"
    using entry(2) s(1) by (simp_all add: delta_ok_def)
  obtain sp where sp: "apply_changes_to_tree (se_sync entry) delta ?srt = Some sp" "typed_index ?ty (src_width s) ?srt sp" "contents sp = server_rows entry delta"
    using apply_changes_ok [OF s(3), of delta] delta(1) unfolding server_rows_def typed_change_def by blast
  have ok: "src_ok ?ty s" using g s(1) by (simp add: graph_ok_def)
  from src_primary [OF ok] obtain head where head: "fork_primary s = Some head" "contents head = src_rows s" "typed_index ?ty (src_width s) ?srt head"
    unfolding s(2) by metis
  define es where "es = diff_rows (compare_rows ?srt) row_eq (rev (src_rows s)) (rev (contents sp))"
  have diff: "structural_diff debug (node_ptr ptr) (row_ptr ptr) head sp ?srt = Some (map collect_change es)"
    using structural_diff_changes [OF head(3) sp(2) ptr] by (simp add: merge_changes_def es_def head(2))
  note T = typed_index_D [OF head(3), unfolded head(2)] and S = typed_index_D [OF sp(2)]
  have fit: "events_fit (compare_rows ?srt) (src_rows s) es"
    using comparator_on.replay_diff_rows [OF T(5), of "rev (src_rows s)" "[]" "rev (contents sp)" row_eq] T(3,6) S(3,6)
    unfolding comparator_on.replaying_def [OF T(5)] es_def by simp
  have typed: "\<forall>e\<in>set es. typed_change ?ty (src_width s) (collect_change e)"
    using merge_changes_typed [of "src_rows s" ?ty "src_width s" "contents sp" _ ?srt] T(3) S(3) unfolding typed_change_def merge_changes_def es_def by force
  have "length es \<le> card (set (src_rows s)) + length (server_rows entry delta)"
    using length_diff_rows [of "compare_rows ?srt" row_eq "rev (src_rows s)" "rev (contents sp)"] distinct_card [OF src_rows_typed(3) [OF ok]] sp(3) by (simp add: es_def)
  then have "unat (ms_epoch s) + 2 * length es \<le> unat (ms_epoch s) + 2 * (card (set (src_rows s)) + length (server_rows entry delta))" by simp
  then have room: "unat (ms_epoch s) + 2 * length es < 2 ^ 32" using delta(2) by (rule le_less_trans)
  obtain g' s' where g': "push_changes debug env ?i (map collect_change es) g = Some (g', None)" "graph_ok tys env g'" "source_at g' ?i = Some s'" "others ?i g g'"
    and s': "src_rows s' = fold (replay_event (compare_rows ?srt)) es (src_rows s)" "ms_primary_key s' = ms_primary_key s" "ms_schema s' = ms_schema s" "guards_cover ?ty s'"
    using push_events_ok [OF env g s(1,4) typed fit [unfolded s(2)] room, of debug] unfolding s(2) by blast
  have ok': "src_ok ?ty s'" using g'(2,3) by (simp add: graph_ok_def)
  from src_primary [OF ok'] obtain t where t: "fork_primary s' = Some t" "contents t = src_rows s'" "typed_index ?ty (src_width s') ?srt t"
    unfolding s'(2) s(2) by metis
  have rows: "list_all2 row_eq (src_rows s') (server_rows entry delta)"
    using replay_merge_changes [OF head(3) sp(2)] sp(3) unfolding s'(1) by (simp add: merge_changes_def head(2) es_def fold_map comp_def replay_collect)
  define entry' where "entry' = entry \<lparr> se_sync := t \<rparr>"
  have "rewind_entry debug env ptr delta (entry, g) = Some ((entry', g'), None)"
    using sp(1) s(1) head(1) diff g'(1,3) t(1) by (simp add: rewind_entry_def entry'_def)
  moreover have "rewound tys g' delta entry entry'"
    using g'(3) s' s(2) t rows by (simp add: rewound_def entry_ok_def entry'_def)
  ultimately show ?thesis using g'(2,4) by blast
qed

section \<open>All tables\<close>

definition tables_ok :: "(node_id \<Rightarrow> col_id \<Rightarrow> kind) \<Rightarrow> 'w graph_view \<Rightarrow> (byte list, source_change list) omap \<Rightarrow> optimistic_tables \<Rightarrow> bool" where
  "tables_ok tys g deltas tables \<longleftrightarrow> distinct (map (\<lambda>(table, entry). se_source entry) tables) \<and>
     (\<forall>(table, entry)\<in>set tables. entry_ok tys g entry \<and> delta_ok tys g entry (delta_of deltas table))"

lemma entry_kept:
  assumes "rel_sources P g g'" "P (se_source entry)"
  shows "entry_ok tys g entry \<Longrightarrow> entry_ok tys g' entry" "delta_ok tys g entry delta \<Longrightarrow> delta_ok tys g' entry delta"
proof -
  have keep: "\<exists>s'. source_at g' (se_source entry) = Some s' \<and> reads_only s s'" if "source_at g (se_source entry) = Some s" for s
    using rel_sources_D [OF assms that] by blast
  show "entry_ok tys g entry \<Longrightarrow> entry_ok tys g' entry"
    using keep by (fastforce simp: entry_ok_def reads_only_def guards_cover_def src_width_def split: option.splits)
  show "delta_ok tys g entry delta \<Longrightarrow> delta_ok tys g' entry delta"
    using keep by (fastforce simp: delta_ok_def reads_only_def src_width_def split: option.splits)
qed

lemma rewound_kept:
  assumes "rel_sources P g g'" "P (se_source entry)" "graph_ok tys env g" "graph_ok tys env g'" "rewound tys g delta entry entry'"
  shows "rewound tys g' delta entry entry'"
proof -
  obtain s where s: "source_at g (se_source entry) = Some s" "src_rows s = contents (se_sync entry')" "list_all2 row_eq (src_rows s) (server_rows entry delta)"
    using assms(5) by (auto simp: rewound_def split: option.splits)
  have e: "se_source entry' = se_source entry" using assms(5) by (simp add: rewound_def)
  from rel_sources_D [OF assms(1,2) s(1)] obtain s' where s': "source_at g' (se_source entry) = Some s'" "reads_only s s'" .
  have ok: "src_ok (tys (se_source entry)) s" "src_ok (tys (se_source entry)) s'" using assms(3,4) s(1) s'(1) by (simp_all add: graph_ok_def)
  have w: "src_width s' = src_width s" "ms_primary_key s' = ms_primary_key s" "set (src_rows s') = set (src_rows s)" using s'(2) by (simp_all add: reads_only_def src_width_def)
  from src_primary [OF ok(1)] obtain t where t: "contents t = src_rows s" "typed_index (tys (se_source entry)) (src_width s) (pk_sort (ms_primary_key s)) t" by metis
  from src_primary [OF ok(2)] obtain t' where t': "contents t' = src_rows s'" "typed_index (tys (se_source entry)) (src_width s) (pk_sort (ms_primary_key s)) t'"
    unfolding w by metis
  note T = typed_index_D [OF t(2), unfolded t(1)] and T' = typed_index_D [OF t'(2), unfolded t'(1)]
  have "src_rows s' = src_rows s" using comparator_on.sorted_set_unique [OF T(5) T'(6) T(6) w(3)] T'(3) by blast
  then show ?thesis using assms(5) s s'(1) entry_kept(1) [of P g g' entry' tys] assms(1,2) e by (simp add: rewound_def)
qed

definition rewound_all :: "(node_id \<Rightarrow> col_id \<Rightarrow> kind) \<Rightarrow> 'w graph_view \<Rightarrow> (byte list, source_change list) omap \<Rightarrow> optimistic_tables \<Rightarrow> optimistic_tables \<Rightarrow> bool" where
  "rewound_all tys g deltas = list_all2 (\<lambda>(table, entry) (table', entry'). table' = table \<and> rewound tys g (delta_of deltas table) entry entry')"

lemma rewound_all_kept:
  assumes "rel_sources P g g'" "\<forall>(table, entry)\<in>set tables. P (se_source entry)" "graph_ok tys env g" "graph_ok tys env g'" "rewound_all tys g deltas tables tables'"
  shows "rewound_all tys g' deltas tables tables'"
  using assms(5,2) unfolding rewound_all_def
  by (induction rule: list_all2_induct) (auto intro: rewound_kept [OF assms(1) _ assms(3,4)])

lemma rel_sources_mono: "rel_sources P g g' \<Longrightarrow> (\<And>i. Q i \<Longrightarrow> P i) \<Longrightarrow> rel_sources Q g g'"
  by (auto simp: rel_sources_def)

lemma rewind_tables_ok:
  assumes env: "graph_env_ok tys env" and ptr: "\<forall>table. pointers_sound (node_ptr (ptr table)) (row_ptr (ptr table))"
  shows "graph_ok tys env g \<Longrightarrow> tables_ok tys g deltas tables \<Longrightarrow>
    \<exists>tables' g'. rewind_tables debug env ptr deltas tables g = Some ((tables', g'), None) \<and> graph_ok tys env g' \<and>
      rel_sources (\<lambda>i. i \<notin> se_source ` snd ` set tables) g g' \<and> rewound_all tys g' deltas tables tables'"
proof (induction tables arbitrary: g)
  case Nil
  then show ?case by (simp add: rewound_all_def rel_sources_refl)
next
  case (Cons p tables)
  obtain table entry where p: "p = (table, entry)" by fastforce
  let ?i = "se_source entry"
  have pre: "entry_ok tys g entry" "delta_ok tys g entry (delta_of deltas table)" and rest: "\<forall>(table, entry)\<in>set tables. se_source entry \<noteq> ?i"
    "distinct (map (\<lambda>(table, entry). se_source entry) tables)" "\<forall>(table, entry)\<in>set tables. entry_ok tys g entry \<and> delta_ok tys g entry (delta_of deltas table)"
    using Cons.prems(2) by (force simp: tables_ok_def p)+
  obtain entry' g1 where g1: "rewind_entry debug env (ptr table) (delta_of deltas table) (entry, g) = Some ((entry', g1), None)" "graph_ok tys env g1" "others ?i g g1"
    "rewound tys g1 (delta_of deltas table) entry entry'" using rewind_entry_ok [OF env Cons.prems(1) pre] ptr by blast
  have "tables_ok tys g1 deltas tables" using rest entry_kept [OF g1(3)] by (fastforce simp: tables_ok_def)
  then obtain tables' g2 where g2: "rewind_tables debug env ptr deltas tables g1 = Some ((tables', g2), None)" "graph_ok tys env g2"
    "rel_sources (\<lambda>i. i \<notin> se_source ` snd ` set tables) g1 g2" "rewound_all tys g2 deltas tables tables'" using Cons.IH [OF g1(2)] by blast
  have "rewind_tables debug env ptr deltas (p # tables) g = Some (((table, entry') # tables', g2), None)" using g1(1) g2(1) by (simp add: p)
  moreover have "rel_sources (\<lambda>i. i \<notin> se_source ` snd ` set (p # tables)) g g2"
    by (rule rel_sources_trans [OF rel_sources_mono [OF g1(3)] rel_sources_mono [OF g2(3)]]) (simp_all add: p)
  moreover have "rewound tys g2 (delta_of deltas table) entry entry'"
    using rest(1) by (intro rewound_kept [OF g2(3) _ g1(2) g2(2) g1(4)]) auto
  ultimately show ?case using g2(2,4) by (fastforce simp: rewound_all_def p)
qed

section \<open>Properties\<close>

text \<open>A graph with one source and nothing downstream; its table is tracked with an empty baseline.\<close>

definition demo_node :: node_id where
  "demo_node = \<lparr> node_idx = 0, node_gen = 0 \<rparr>"

definition idle_env :: "unit graph_env" where
  "idle_env = \<lparr> push_edge = (\<lambda>_ _ _ g. Some g), overflowed = (\<lambda>_. False) \<rparr>"

definition demo_graph :: "memory_source \<Rightarrow> unit graph_view" where
  "demo_graph s = \<lparr> gv_sources = [(demo_node, s)], validate_changes = True, runtime_error = None, gv_nodes = () \<rparr>"

definition demo_tables :: optimistic_tables where
  "demo_tables = [([116], \<lparr> se_source = demo_node, se_sync = btree_new, se_sort = [(0, True)] \<rparr>)]"

definition value_pointers :: diff_pointers where
  "value_pointers = \<lparr> node_ptr = (\<lambda>a b. current_node a = current_node b), row_ptr = (\<lambda>a b. dc_key a = dc_key b) \<rparr>"

lemma value_pointers_sound: "pointers_sound (node_ptr value_pointers) (row_ptr value_pointers)"
  by (simp add: pointers_sound_def value_pointers_def)

lemma idle_env_ok: "graph_env_ok tys idle_env"
  by (simp add: graph_env_ok_def idle_env_def rel_sources_refl)

lemma demo_rewind_ready:
  assumes s: "src_ok demo_ty s" "set (src_rows s) = set demo_rows" "ms_conns s = conn_table_new" "ms_schema s = demo_schema" "ms_primary_key s = [0]" "ms_epoch s = 0"
  shows "graph_ok (\<lambda>_. demo_ty) idle_env (demo_graph s)" "tables_ok (\<lambda>_. demo_ty) (demo_graph s) [([116], [AddRow [IntV 5, IntV 6]])] demo_tables"
proof -
  have at: "source_at (demo_graph s) i = (if i = demo_node then Some s else None)" for i by (simp add: source_at_def demo_graph_def)
  have w: "src_width s = 2" using s(4) by (simp add: src_width_def demo_schema_def)
  show "graph_ok (\<lambda>_. demo_ty) idle_env (demo_graph s)" using s(1) at by (auto simp: graph_ok_def idle_env_def demo_graph_def source_at_def)
  have "guards_cover demo_ty s" using s(3) by (simp add: guards_cover_def guards_sound_def live_slots_def conn_table_new_def)
  moreover have "typed_index demo_ty 2 [(0, True)] btree_new" by (simp add: typed_index_def sort_cols_def)
  moreover have "card (set (src_rows s)) = 2" using s(2) by (simp add: demo_rows_def)
  ultimately show "tables_ok (\<lambda>_. demo_ty) (demo_graph s) [([116], [AddRow [IntV 5, IntV 6]])] demo_tables"
    using demo_typed s(5,6) by (simp add: tables_ok_def demo_tables_def entry_ok_def delta_ok_def at w pk_sort_def typed_change_def delta_of_def server_rows_def ins_by_def)
qed

text \<open>(C7) A rewind always runs to its end when every server change is for a tracked table, and puts the server's state under the
  pipeline: afterwards every tracked source holds, row by row, its baseline with the server's changes applied, whatever optimistic writes
  it held before, the new baseline is the live tree's rows, the invariants of all sources and tables hold again, and a source
  that is not tracked was only read. Nothing depends on which allocations the trees share.\<close>

theorem rewind_exact:
  assumes "graph_env_ok tys env" "\<forall>table. pointers_sound (node_ptr (ptr table)) (row_ptr (ptr table))" "graph_ok tys env g"
    "tables_ok tys g deltas tables" "\<forall>(table, cs)\<in>set deltas. is_tracked table tables"
  shows "\<exists>tables' g'. rewind debug fmt env ptr deltas (tables, g) = Some ((tables', g'), None) \<and> graph_ok tys env g' \<and>
    rewound_all tys g' deltas tables tables' \<and> rel_sources (\<lambda>i. i \<notin> se_source ` snd ` set tables) g g'"
proof -
  have "List.find (\<lambda>(table, _). \<not> is_tracked table tables) deltas = None" using assms(5) by (auto simp: find_None_iff)
  then show ?thesis using rewind_tables_ok [OF assms(1-4), of debug] by (auto simp: rewind_def)
qed

theorem rewind_exact_witness:
  "\<exists>s tables' g' s'. set (src_rows s) = {[IntV 2, IntV 7], [IntV 1, IntV 7]} \<and>
     rewind True (\<lambda>_. []) idle_env (\<lambda>_. value_pointers) [([116], [AddRow [IntV 5, IntV 6]])] (demo_tables, demo_graph s) = Some ((tables', g'), None) \<and>
     source_at g' demo_node = Some s' \<and> list_all2 row_eq (src_rows s') [[IntV 5, IntV 6]]"
proof -
  obtain s where s: "src_ok demo_ty s" "set (src_rows s) = set demo_rows" "ms_conns s = conn_table_new" "ms_schema s = demo_schema"
      "ms_primary_key s = [0]" "ms_epoch s = 0"
    using demo_source by blast
  obtain tables' g' where g': "rewind True (\<lambda>_. []) idle_env (\<lambda>_. value_pointers) [([116], [AddRow [IntV 5, IntV 6]])] (demo_tables, demo_graph s) = Some ((tables', g'), None)"
    "rewound_all (\<lambda>_. demo_ty) g' [([116], [AddRow [IntV 5, IntV 6]])] demo_tables tables'"
    using rewind_exact [OF idle_env_ok allI [OF value_pointers_sound] demo_rewind_ready [OF s], of True "\<lambda>_. []"]
    by (auto simp: is_tracked_def demo_tables_def)
  then obtain s' where "source_at g' demo_node = Some s'" "list_all2 row_eq (src_rows s') [[IntV 5, IntV 6]]"
    by (auto simp: rewound_all_def rewound_def demo_tables_def list_all2_Cons1 server_rows_def delta_of_def ins_by_def split: option.splits)
  then show ?thesis using g'(1) s(2) by (auto simp: demo_rows_def)
qed

text \<open>A server change for a table that is not tracked (a local-only or unknown one) is refused before anything happens: the rewind
  returns a schema violation that names such a table, and neither a baseline nor the graph has changed.\<close>

theorem rewind_untracked:
  assumes "(table, cs) \<in> set deltas" "\<not> is_tracked table tables"
  shows "\<exists>t. t \<in> fst ` set deltas \<and> \<not> is_tracked t tables \<and> rewind debug fmt env ptr deltas (tables, g) =
    Some ((tables, g), Some (SchemaViolation (''server delta for untracked (local-only or unknown) table '' @ fmt t)))"
proof -
  have "List.find (\<lambda>(table, _). \<not> is_tracked table tables) deltas \<noteq> None" using assms by (auto simp: find_None_iff)
  then obtain t ds where t: "List.find (\<lambda>(table, _). \<not> is_tracked table tables) deltas = Some (t, ds)" by auto
  then have "(t, ds) \<in> set deltas" "\<not> is_tracked t tables" by (auto simp: find_Some_iff in_set_conv_nth)
  then show ?thesis using t by (force simp: rewind_def)
qed

theorem rewind_untracked_witness:
  "\<exists>s. rewind True (\<lambda>_. ''u'') idle_env (\<lambda>_. value_pointers) [([117], [AddRow [IntV 5, IntV 6]])] (demo_tables, demo_graph s) =
     Some ((demo_tables, demo_graph s), Some (SchemaViolation ''server delta for untracked (local-only or unknown) table u''))"
  using rewind_untracked [of "[117]" "[AddRow [IntV 5, IntV 6]]" "[([117], [AddRow [IntV 5, IntV 6]])]" demo_tables True "\<lambda>_. ''u''" idle_env "\<lambda>_. value_pointers"]
  by (simp add: is_tracked_def demo_tables_def cmp_of_def)

text \<open>Tracking starts from the live rows, and forgetting undoes it.\<close>

lemma track_baseline:
  assumes "graph_ok tys env g" "source_at g source = Some ms" "guards_cover (tys source) ms" "\<not> is_tracked table tables"
  shows "\<exists>tables' entry. track fmt g table source tables = Some (tables', None) \<and> om_get bytes_cmp table tables' = Some entry \<and>
    se_source entry = source \<and> contents (se_sync entry) = src_rows ms \<and> entry_ok tys g entry \<and>
    (\<forall>table'. table' \<noteq> table \<longrightarrow> om_get bytes_cmp table' tables' = om_get bytes_cmp table' tables) \<and> \<not> is_tracked table (forget table tables')"
proof -
  have ok: "src_ok (tys source) ms" using assms(1,2) by (simp add: graph_ok_def)
  from src_primary [OF ok] obtain t where t: "fork_primary ms = Some t" "contents t = src_rows ms" "primary_index_sort ms = pk_sort (ms_primary_key ms)"
    "typed_index (tys source) (src_width ms) (pk_sort (ms_primary_key ms)) t" .
  have "entry_ok tys g \<lparr> se_source = source, se_sync = t, se_sort = primary_index_sort ms \<rparr>" using assms(2,3) t by (simp add: entry_ok_def)
  then show ?thesis using assms(2,4) t
    by (auto simp: track_def is_tracked_def forget_def byte_key.om_get_put byte_key.om_get_del)
qed

end
