(* ===== verification/Spec2Isabelle.thy ===== *)
theory Spec2Isabelle
  imports Row_Index Predicates Conn_Table Overlay Merge Push Source_Push Source_Life Take_Edit Skip_Window Cap_Window Op_Exists Schemas Flat_Protocol Flat_Counts Journal_Frame Flipped_Fetch Row_Codec Reduce_Fetch Js_Safe Optimistic_Rewind
begin

text \<open>
  A verification of the incremental query engine under \<open>rust/src\<close>.

  \<^bold>\<open>The program.\<close> A query is a graph of operators over table sources. A source keeps its rows in ordered indexes and a registry of
  connections. A write is pushed as a change through every connection while an overlay makes it visible to fetches that run during the push; only then
  is it written. Operators (filters, joins, limiters, existence gates, unions) turn changes of their inputs into changes of their output and re-enter
  their inputs with fetches to decide what to emit. At the end a view folds the changes into a tree of entries, which is flattened, numbered and sent to
  subscribers that fold it again.

  \<^bold>\<open>How it is modelled.\<close> Rust values are HOL values: a struct is a record, an enum a datatype, machine integers are words where they can wrap
  (reference counts, sequence numbers, floats as bit patterns). A panic is \<open>None\<close>, a returned error is \<open>Inl\<close>; \<open>debug_assert!\<close> depends on
  a flag. A lazy stream is the list it yields, a relationship thunk the nodes it yields when it is run. What an operator reaches through
  \<open>&Graph\<close> (its inputs, its output edge, storage, the push deadline, the error slot) is a record of callbacks over a state of the environment's
  choice, so that an operator is defined once for every graph around it. Every definition is executable; the witnesses run them on concrete rows.

  \<^bold>\<open>Values, rows, predicates.\<close> \<open>Float64\<close>, \<open>Values\<close>, \<open>Rows\<close> (\<open>value.rs\<close>) hold cells, their comparators and sort orders: the comparison of an integer
  with a float is exact and rows of a schema are totally ordered. \<open>Row_Codec\<close> is the flat buffer behind a row: it holds exactly its cells. \<open>Predicates\<close> (\<open>predicate.rs\<close>) has the compiled predicates; the LIKE matcher
  accepts exactly the language of its pattern. \<open>Changes\<close> and \<open>Nodes\<close> (\<open>change.rs\<close>, \<open>changes.rs\<close>) hold constraints, requests, nodes and changes,
  \<open>State_Keys\<close> (\<open>op/partition.rs\<close>, \<open>op/join_util.rs\<close>, keys of \<open>op/cap.rs\<close>) the keys that storage and joins use and their injectivity.

  \<^bold>\<open>The index.\<close> \<open>Comparator\<close> states what a comparator promises and what follows for sorted lists; \<open>Ordered_Set\<close>, \<open>Ordered_Map\<close>, \<open>Slice_Search\<close>,
  \<open>Window\<close> are its clients. \<open>BTree\<close>, \<open>Cursor\<close>, \<open>Row_Index\<close> (\<open>btree.rs\<close>) have the nodes with splits, merges, bulk load and both cursors; every history of
  insertions and deletions refines the sorted list, and a scan from a bound yields exactly the rows from there on.

  \<^bold>\<open>The source.\<close> \<open>Push_Index\<close>, \<open>Conn_Table\<close> (\<open>push_index.rs\<close>, \<open>source_common.rs\<close>): which connections a change can concern, and handles of which the lookup accepts exactly those not yet
  destroyed. \<open>Overlay\<close>, \<open>Merge\<close>, \<open>Push\<close>: the splice of the change in flight into a scan, the k-way merge on a binary heap, the fan-out with edit splitting and
  the strict existence checks. \<open>Memory_Source\<close>, \<open>Source_State\<close>, \<open>Source_Push\<close>, \<open>Fetch\<close>, \<open>Source_Life\<close> (\<open>memory_source.rs\<close>): all indexes always hold the same rows, a
  push delivers to exactly the connections whose view changes and commits exactly the change, a strict push of a contradicting change is refused, and a fetch, with multi-constraints
  or without, returns exactly the visible rows, also in the middle of a push.

  \<^bold>\<open>Optimistic writes.\<close> \<open>Tree_Diff\<close>, \<open>Tree_Diff_Walk\<close>, \<open>Tree_Diff_Order\<close>, \<open>Tree_Diff_Correct\<close>, \<open>Tree_Diff_Rows\<close> (the diff of \<open>btree.rs\<close>): the walk of two cursors that pause on
  nodes and skip shared subtrees is the linear merge of the rows, and replaying it turns one tree into the other. \<open>Optimistic\<close>, \<open>Optimistic_Rewind\<close> (\<open>optimistic.rs\<close>, the source entry
  points of \<open>graph.rs\<close>): a rewind leaves every tracked source with exactly the server's rows and its baseline re-forked from them.

  \<^bold>\<open>The operators.\<close> \<open>Op_Env\<close> is the environment and what a downstream view makes of a stream of changes. \<open>Op_Take\<close>, \<open>Take_Window\<close>, \<open>Take_Edit\<close> (\<open>op/take.rs\<close>),
  \<open>Op_Skip\<close>, \<open>Skip_Window\<close> (\<open>op/skip.rs\<close>) and \<open>Op_Cap\<close>, \<open>Cap_Window\<close> (\<open>op/cap.rs\<close>): the limiters hold exactly their window after every change and never overshoot it on
  the way. \<open>Op_Exists\<close> (\<open>op/exists.rs\<close>): a parent crosses the gate exactly when it should, and every other change passes exactly with its parent. \<open>Op_Union\<close>, \<open>Union_Fetch\<close> (\<open>op/union.rs\<close>, \<open>op/merge.rs\<close>): the union fan is the
  disjunction of its branches. \<open>Op_Join\<close>, \<open>Join_View\<close> (the join of \<open>graph.rs\<close>): at every moment of a fan-out a refetch reads exactly what the changes
  delivered so far make of the view. \<open>Op_Flipped\<close>, \<open>Flipped_View\<close>, \<open>Flipped_Fetch\<close> (\<open>op/flipped_join.rs\<close>): the inner join, by fetch and by push.
  \<open>Float_Arith\<close>, \<open>Op_Reduce\<close>, \<open>Reduce_Sums\<close>, \<open>Reduce_View\<close>, \<open>Reduce_Fetch\<close> (\<open>op/reduce.rs\<close>): rounded float arithmetic, and aggregates that stay exact from change to
  change while the summed columns hold no floats; the mean of small integers is rounded once. \<open>Storage\<close>
  (\<open>storage.rs\<close>) is the operators' scratch state.

  \<^bold>\<open>The way out.\<close> \<open>Schemas\<close> (\<open>wire_schema.rs\<close>): the fingerprint of a schema sees exactly its wire meaning. \<open>View_Tree\<close>, \<open>View_Sink\<close> (\<open>view.rs\<close>), \<open>Flat\<close>, \<open>View_Flat\<close>, \<open>Flat_Counts\<close>
  (\<open>flat.rs\<close>, \<open>flat_receiver.rs\<close>): the receiver rebuilds the tree of the view, and a level is a sorted list of reference counts.
  \<open>Flat_Protocol\<close> (\<open>flat_protocol.rs\<close>): a subscriber tracks the view through lost and repeated frames. \<open>Bytes\<close>, \<open>Journal_Frame\<close> (\<open>journal_frame.rs\<close>): the frame codec is exact.
  \<open>Js_Safe\<close> (\<open>js_safe.rs\<close>): what passes the safe-integer walk keeps its value and its identity as a JavaScript number, and the range is the largest with that property.

  \<^bold>\<open>Interfaces.\<close> Locales state what one part relies on in another (the comparator, the ordered set and map, the map behind the storage, the delivery callback of a
  push, the readers of the frame codec) and are interpreted on the definitions of the model.

  \<^bold>\<open>Bounds and fuel.\<close> Loops end by a measure or a structural recursion; the two loops of the structural diff are partial functions that are
  proved to return. The only fuel is that of draining a merge: one more than the rows of its streams, which is
  proved to be enough. Collections are shorter than \<open>2 ^ 64\<close>; counts and sequence numbers that the program keeps at 32 or 64 bits wrap as they do there.

  \<^bold>\<open>What is left out.\<close> The sharing of row buffers, tree nodes and view entries (so that a pointer comparison is a parameter); the
  work counters of the structural diff; the arena of the graph, the builder and the planner that assemble it; SQLite and its
  table source; bindings to other languages; display strings and metrics. The copy-on-write of the view is modelled by what it leaves in the tree, not by which object is mutated in place, and its listeners do not call back into it. While a change
  is in flight, fetches through a connection with a key constraint in its filter are covered only without constraint and start row, and other fetches only when the start row satisfies the
  constraint: beyond that the code loses rows in flight. Aggregates of float columns have no exactness theorem. Relationship contents of a join are compared as sets of rows, since the splice re-adds a row without its own relationships.
\<close>

end
